(* ===== verification/OB_Prelude.thy ===== *)
theory OB_Prelude
  imports Main "HOL-Library.Word"
begin

text \<open>
  Shared vocabulary of the development: the machine types of the 32-bit targets
  (\<^verbatim>\<open>size_t\<close>, \<^verbatim>\<open>uint32_t\<close> and pointers have 32 bits there), the status codes of
  \<^verbatim>\<open>headers/support/Errors.h\<close>, and the generic facts on words, lists and options
  that several components use.
\<close>

unbundle bit_operations_syntax

section \<open>Machine types\<close>

type_synonym u8 = "8 word"
type_synonym u16 = "16 word"
type_synonym u32 = "32 word"
type_synonym status_t = int

section \<open>Status codes\<close>

text \<open>
  A \<^verbatim>\<open>status_t\<close> (and a \<^verbatim>\<open>ssize_t\<close> result) is a signed 32-bit number; every error code is
  negative, so that \<open>B_OK \<le> r\<close> is the test for success. \<open>sys_err n\<close> is
  \<^verbatim>\<open>(status_t)(sysErrorClass | n)\<close> of \<^verbatim>\<open>headers/CmnErrors.h\<close>.
\<close>

definition sys_err :: "u32 \<Rightarrow> status_t" where
  "sys_err n = sint ((0x80000500 :: u32) OR n)"

definition B_OK :: status_t where "B_OK = 0"
definition B_ERROR :: status_t where "B_ERROR = -1"
definition B_BAD_VALUE :: status_t where "B_BAD_VALUE = sys_err 2"
definition B_NO_MEMORY :: status_t where "B_NO_MEMORY = sys_err 4"
definition B_BAD_INDEX :: status_t where "B_BAD_INDEX = sys_err 41"
definition B_BAD_TYPE :: status_t where "B_BAD_TYPE = sys_err 42"
definition B_NAME_NOT_FOUND :: status_t where "B_NAME_NOT_FOUND = sys_err 44"
definition B_NAME_IN_USE :: status_t where "B_NAME_IN_USE = sys_err 45"
definition B_UNSUPPORTED :: status_t where "B_UNSUPPORTED = -95"

lemmas status_defs = B_OK_def B_ERROR_def B_BAD_VALUE_def B_NO_MEMORY_def B_BAD_INDEX_def
  B_BAD_TYPE_def B_NAME_NOT_FOUND_def B_NAME_IN_USE_def B_UNSUPPORTED_def sys_err_def

lemma error_codes_negative [simp]:
  "B_NO_MEMORY < 0" "B_BAD_VALUE < 0" "B_BAD_INDEX < 0" "B_BAD_TYPE < 0"
  "B_NAME_NOT_FOUND < 0" "B_NAME_IN_USE < 0" "B_UNSUPPORTED < 0" "B_ERROR < 0"
  by (simp_all add: status_defs)

lemma error_codes_not_ok [simp]:
  "\<not> 0 \<le> B_NO_MEMORY" "\<not> 0 \<le> B_BAD_VALUE" "\<not> 0 \<le> B_BAD_INDEX" "\<not> 0 \<le> B_BAD_TYPE"
  "\<not> 0 \<le> B_NAME_NOT_FOUND" "\<not> 0 \<le> B_NAME_IN_USE" "\<not> 0 \<le> B_UNSUPPORTED" "\<not> 0 \<le> B_ERROR"
  by (simp_all add: not_le)

lemma error_not_position [simp]:
  assumes "e < 0"
  shows "e \<noteq> int n" "int n \<noteq> e"
  using assms by linarith+

section \<open>Words\<close>

lemma unat_add_no_overflow:
  fixes a b :: u32
  assumes "unat a + unat b < 2 ^ 32"
  shows "unat (a + b) = unat a + unat b"
  using assms by (simp add: unat_word_ariths)

lemma unat_sub_le:
  fixes a b :: u32
  assumes "unat b \<le> unat a"
  shows "unat (a - b) = unat a - unat b"
  using assms by (simp add: unat_sub word_le_nat_alt)

lemma unat_lt_u32 [simp]: "unat (a :: u32) < 4294967296"
  using unsigned_less [of a, where ?'a = nat] by simp

lemma unat_gt_0_iff: "0 < unat (a :: u32) \<longleftrightarrow> a \<noteq> 0"
  by (simp add: unat_gt_0)

lemma unat_neq_less:
  fixes a b :: u32
  assumes "a \<noteq> b" "unat a \<le> unat b"
  shows "unat a < unat b"
  using assms by (simp add: nat_less_le word_unat_eq_iff)

lemma unat_mask_u32:
  assumes "k < 32"
  shows "unat (mask k :: u32) = 2 ^ k - 1"
proof -
  have "(2::nat) ^ k < 2 ^ 32"
    using assms by (intro power_strict_increasing) simp_all
  then have "unat (of_nat (2 ^ k - 1) :: u32) = 2 ^ k - 1"
    by (simp only: unat_of_nat) simp
  moreover have "(mask k :: u32) = of_nat (2 ^ k - 1)"
    by (metis mask_eq_exp_minus_1 of_nat_mask_eq)
  ultimately show ?thesis by simp
qed

lemma unat_drop_bit_less:
  fixes b :: u32
  assumes "b \<noteq> 0" "0 < k"
  shows "unat (drop_bit k b) < unat b"
proof -
  have "1 < (2 :: nat) ^ k" using assms(2) by (intro one_less_power) simp_all
  moreover have "0 < unat b" using assms(1) by (simp add: unat_gt_0)
  ultimately have "unat b div 2 ^ k < unat b" by (rule div_less_dividend)
  then show ?thesis
    by (simp only: unsigned_drop_bit_eq) (simp add: drop_bit_nat_def take_bit_nat_eq_self)
qed

lemma word_and_1_eq_0_iff:
  fixes b :: u32
  shows "b AND 1 = 0 \<longleftrightarrow> \<not> bit b 0"
  by (simp add: and_one_eq bit_0 even_iff_mod_2_eq_zero)

lemma word_neq_0_bit:
  fixes b :: u32
  assumes "b \<noteq> 0"
  obtains n where "bit b n"
  using assms by (auto simp: bit_eq_iff)

text \<open>Clearing the low \<open>k\<close> bits rounds a word down to a multiple of \<open>2 ^ k\<close>.\<close>

lemma unat_and_not_mask:
  fixes y :: u32
  shows "unat (y AND NOT (mask k)) = unat y div 2 ^ k * 2 ^ k"
proof -
  have eq: "y AND NOT (mask k) = push_bit k (drop_bit k y)"
    by (rule bit_word_eqI) (auto simp: bit_simps)
  have "unat y div 2 ^ k * 2 ^ k < 2 ^ 32"
    by (rule le_less_trans [of _ "unat y"]) (simp_all add: div_times_less_eq_dividend)
  moreover have "unat (push_bit k (drop_bit k y)) = take_bit 32 (push_bit k (drop_bit k (unat y)))"
    by (simp only: unsigned_push_bit_eq unsigned_drop_bit_eq) (simp add: take_bit_nat_eq_self)
  ultimately show ?thesis
    by (simp add: eq push_bit_nat_def drop_bit_nat_def take_bit_nat_eq_self)
qed

lemma round_up_bounds:
  fixes a k :: nat
  shows "a \<le> (a + (2 ^ k - 1)) div 2 ^ k * 2 ^ k"
    and "(a + (2 ^ k - 1)) div 2 ^ k * 2 ^ k \<le> a + (2 ^ k - 1)"
proof -
  let ?q = "2 ^ k :: nat"
  have q: "0 < ?q" by simp
  have eq: "(a + (?q - 1)) div ?q * ?q + (a + (?q - 1)) mod ?q = a + (?q - 1)"
    by (rule div_mult_mod_eq)
  moreover have "(a + (?q - 1)) mod ?q < ?q" by simp
  ultimately show "a \<le> (a + (?q - 1)) div ?q * ?q" by linarith
  from eq show "(a + (?q - 1)) div ?q * ?q \<le> a + (?q - 1)" by linarith
qed

lemma mod_le_iff_same_div:
  fixes a b m :: nat
  assumes "a div m = b div m"
  shows "a mod m \<le> b mod m \<longleftrightarrow> a \<le> b"
  using assms by (metis div_mult_mod_eq nat_add_left_cancel_le)

lemma next_group_cases:
  fixes a p :: nat
  shows "(a + 32) div 32 * 32 \<le> p \<or> p div 32 = a div 32 \<or> p < a"
proof (cases "a \<le> p \<and> p div 32 \<noteq> a div 32")
  case True
  then have "a div 32 < p div 32"
    using div_le_mono [of a p 32] by simp
  then have "(a div 32 + 1) * 32 \<le> p div 32 * 32" by simp
  moreover have "p div 32 * 32 \<le> p" by (simp add: div_times_less_eq_dividend)
  moreover have "(a + 32) div 32 = a div 32 + 1" by simp
  ultimately show ?thesis by linarith
qed auto

lemma pages_of_span:
  fixes st sz p m :: nat
  assumes "0 < sz" "0 < m"
  shows "st div m \<le> p \<and> p \<le> (st + sz - 1) div m \<longleftrightarrow> (\<exists>x\<in>{st..<st + sz}. x div m = p)"
proof
  assume p: "st div m \<le> p \<and> p \<le> (st + sz - 1) div m"
  have "p * m \<le> st + sz - 1"
    using p assms(2) by (metis div_times_less_eq_dividend le_trans mult_le_mono1)
  moreover have "max st (p * m) div m = p"
  proof (cases "st \<le> p * m")
    case False
    then have "p \<le> st div m"
      using assms(2) by (metis div_le_mono div_mult_self_is_m nat_le_linear)
    with False p show ?thesis by (simp add: max_def)
  qed (use assms(2) in \<open>simp add: max_def\<close>)
  ultimately show "\<exists>x\<in>{st..<st + sz}. x div m = p"
    using assms(1) by (intro bexI [of _ "max st (p * m)"]) auto
qed (use assms in \<open>auto intro!: div_le_mono\<close>)

lemma unat_power_lower_u32:
  assumes "k < 32"
  shows "unat (2 ^ k :: u32) = 2 ^ k"
proof -
  have "(2::nat) ^ k < 2 ^ 32"
    using assms by (intro power_strict_increasing) simp_all
  then have "unat (of_nat (2 ^ k) :: u32) = 2 ^ k"
    by (simp only: unat_of_nat) simp
  then show ?thesis by simp
qed

section \<open>Lists and sets\<close>

lemma atLeastLessThan_split:
  fixes a b c :: nat
  assumes "a \<le> b" "b \<le> c"
  shows "{a..<c} = {a..<b} \<union> {b..<c}"
  using assms by auto

end
