(* ===== verification/Heap_Chunker.thy ===== *)
theory Heap_Chunker
  imports OB_Prelude "HOL-Library.Multiset"
begin

text \<open>
  The free list of the memory dealer: class \<^verbatim>\<open>Chunker\<close> of
  \<^verbatim>\<open>components/services/MemoryDealer/Heap.cpp\<close>. The singly linked list of \<^verbatim>\<open>Chunk\<close> nodes is the
  HOL list of its nodes in link order; a pointer-to-link walk (\<^verbatim>\<open>p = &(*p)->next\<close>) is a
  recursion over that list. Nodes come from and go back to the \<^verbatim>\<open>Stash\<close>, a pool that never
  shrinks; a node of the pool carries no information, so the pool itself is not part of the
  state. Addresses and sizes are 32-bit words and wrap around.
\<close>

section \<open>Data\<close>

record chunk =
  cstart :: u32
  csize :: u32

record chunker =
  m_freeList :: "chunk list"
  m_quantum :: u32
  m_quantumMask :: u32

definition NONZERO_NULL :: u32 where
  "NONZERO_NULL = 0xFFFFFFFF"

section \<open>Operations\<close>

subsection \<open>Free\<close>

text \<open>
  \<open>free_right\<close> is the last part of \<^verbatim>\<open>Free\<close> (the region does not touch its left neighbour): it
  either precedes and abuts the node \<^verbatim>\<open>*p2\<close>, or becomes a node of its own.
  \<open>free_join\<close> looks at the left neighbour \<^verbatim>\<open>*p1\<close> first, and \<open>free_walk\<close> is the loop that
  finds the two neighbours. Each returns the new list and the node \<^verbatim>\<open>Free\<close> returns.
\<close>

fun free_right :: "u32 \<Rightarrow> u32 \<Rightarrow> chunk list \<Rightarrow> chunk list \<times> chunk" where
  "free_right st sz [] = (let n = \<lparr>cstart = st, csize = sz\<rparr> in ([n], n))"
| "free_right st sz (d # ds) =
     (if st + sz \<noteq> cstart d
      then (let n = \<lparr>cstart = st, csize = sz\<rparr> in (n # d # ds, n))
      else (let n = d\<lparr>cstart := cstart d - sz, csize := csize d + sz\<rparr> in (n # ds, n)))"

definition free_join :: "u32 \<Rightarrow> u32 \<Rightarrow> chunk \<Rightarrow> chunk list \<Rightarrow> chunk list \<times> chunk" where
  "free_join st sz c ds =
     (if cstart c + csize c = st
      then (let n = c\<lparr>csize := csize c + sz\<rparr> in
            case ds of
              [] \<Rightarrow> ([n], n)
            | d # ds' \<Rightarrow>
                if cstart d = cstart n + csize n
                then (let n' = n\<lparr>csize := csize n + csize d\<rparr> in (n' # ds', n'))
                else (n # d # ds', n))
      else (let (ds', n) = free_right st sz ds in (c # ds', n)))"

fun free_walk :: "u32 \<Rightarrow> u32 \<Rightarrow> chunk \<Rightarrow> chunk list \<Rightarrow> chunk list \<times> chunk" where
  "free_walk st sz c [] = free_join st sz c []"
| "free_walk st sz c (d # ds) =
     (if cstart d > st then free_join st sz c (d # ds)
      else (let (ds', n) = free_walk st sz d ds in (c # ds', n)))"

definition free_list_free :: "u32 \<Rightarrow> u32 \<Rightarrow> chunk list \<Rightarrow> chunk list \<times> chunk" where
  "free_list_free st sz cl =
     (case cl of
        [] \<Rightarrow> (let n = \<lparr>cstart = st, csize = sz\<rparr> in ([n], n))
      | c # cs \<Rightarrow> if cstart c > st then free_right st sz (c # cs) else free_walk st sz c cs)"

definition Chunker_Free :: "chunker \<Rightarrow> u32 \<Rightarrow> u32 \<Rightarrow> chunker \<times> chunk" where
  "Chunker_Free ck st sz =
     (let (cl, n) = free_list_free st sz (m_freeList ck) in (ck\<lparr>m_freeList := cl\<rparr>, n))"

subsection \<open>Construction and reset\<close>

definition Chunker_new :: "u32 \<Rightarrow> int \<Rightarrow> chunker" where
  "Chunker_new nsz quantum =
     (let q = (if quantum < 1 then 1 else quantum);
          ck = \<lparr>m_freeList = [], m_quantum = word_of_int (q - 1),
                m_quantumMask = 0xFFFFFFFF XOR word_of_int (q - 1)\<rparr>
      in if nsz > 0 then fst (Chunker_Free ck 0 nsz) else ck)"

definition Chunker_Reset :: "chunker \<Rightarrow> u32 \<Rightarrow> chunker" where
  "Chunker_Reset ck nsz =
     (let ck' = ck\<lparr>m_freeList := []\<rparr>
      in if nsz > 0 then fst (Chunker_Free ck' 0 nsz) else ck')"

subsection \<open>Allocation of a given range\<close>

text \<open>\<open>None\<close> is the result \<^verbatim>\<open>false\<close>, which leaves the list as it was.\<close>

fun alloc_at :: "u32 \<Rightarrow> u32 \<Rightarrow> chunk list \<Rightarrow> chunk list option" where
  "alloc_at st sz [] = None"
| "alloc_at st sz (it # cs) =
     (if cstart it + csize it < st then map_option (\<lambda>cs'. it # cs') (alloc_at st sz cs)
      else if cstart it > st \<or> cstart it + csize it < st + sz then None
      else if cstart it = st
      then (if csize it = sz then Some cs
            else Some (it\<lparr>csize := csize it - sz, cstart := cstart it + sz\<rparr> # cs))
      else if cstart it + csize it = st + sz
      then Some (it\<lparr>csize := csize it - sz\<rparr> # cs)
      else Some (it\<lparr>csize := st - cstart it\<rparr>
                 # \<lparr>cstart = st + sz, csize = csize it - (st - cstart it) - sz\<rparr> # cs))"

definition Chunker_Alloc_at :: "chunker \<Rightarrow> u32 \<Rightarrow> u32 \<Rightarrow> chunker \<times> bool" where
  "Chunker_Alloc_at ck st sz =
     (case alloc_at st sz (m_freeList ck) of
        None \<Rightarrow> (ck, False)
      | Some cl \<Rightarrow> (ck\<lparr>m_freeList := cl\<rparr>, True))"

subsection \<open>First-fit allocation\<close>

text \<open>The first loop of \<^verbatim>\<open>Alloc\<close>: the nodes before the first one that is large enough, and the rest.\<close>

fun first_fit :: "u32 \<Rightarrow> chunk list \<Rightarrow> chunk list \<times> chunk list" where
  "first_fit s [] = ([], [])"
| "first_fit s (c # cs) =
     (if csize c < s then (let (pre, rest) = first_fit s cs in (c # pre, rest)) else ([], c # cs))"

text \<open>
  The loop of the \<^verbatim>\<open>takeBest\<close> branch: the index of the last node that raised the best size
  \<open>s\<close> seen so far (the first node of the largest size above the initial \<open>s\<close>).
\<close>

fun best_fit :: "nat \<Rightarrow> u32 \<Rightarrow> nat option \<Rightarrow> chunk list \<Rightarrow> u32 \<times> nat option" where
  "best_fit i s c [] = (s, c)"
| "best_fit i s c (p # ps) =
     (if csize p > s then best_fit (Suc i) (csize p) (Some i) ps else best_fit (Suc i) s c ps)"

text \<open>The result is the new state, the in/out parameter \<^verbatim>\<open>size\<close> and the start address.\<close>

definition Chunker_Alloc :: "chunker \<Rightarrow> u32 \<Rightarrow> bool \<Rightarrow> u32 \<Rightarrow> chunker \<times> u32 \<times> u32" where
  "Chunker_Alloc ck nsz takeBest at_least =
     (let cl = m_freeList ck in
      case first_fit nsz cl of
        (pre, it # rest) \<Rightarrow>
          (let s = csize it; start = cstart it in
           if s \<le> nsz + m_quantum ck
           then (ck\<lparr>m_freeList := pre @ rest\<rparr>, s, start)
           else (let nsz' = (nsz + m_quantum ck) AND m_quantumMask ck
                 in (ck\<lparr>m_freeList := pre @ it\<lparr>csize := csize it - nsz',
                                              cstart := cstart it + nsz'\<rparr> # rest\<rparr>,
                     nsz', start)))
      | (pre, []) \<Rightarrow>
          if takeBest
          then (case best_fit 0 (at_least - 1) None cl of
                  (s, Some i) \<Rightarrow>
                    (ck\<lparr>m_freeList := take i cl @ drop (Suc i) cl\<rparr>, s, cstart (cl ! i))
                | (s, None) \<Rightarrow> (ck, 0, NONZERO_NULL))
          else (ck, 0, NONZERO_NULL))"

subsection \<open>Queries\<close>

fun pre_abuttance :: "u32 \<Rightarrow> chunk list \<Rightarrow> u32" where
  "pre_abuttance addr [] = 0"
| "pre_abuttance addr (c # cs) =
     (if cstart c + csize c \<noteq> addr then pre_abuttance addr cs else csize c)"

definition Chunker_PreAbuttance :: "chunker \<Rightarrow> u32 \<Rightarrow> u32" where
  "Chunker_PreAbuttance ck addr = pre_abuttance addr (m_freeList ck)"

fun post_abuttance :: "u32 \<Rightarrow> chunk list \<Rightarrow> u32" where
  "post_abuttance addr [] = 0"
| "post_abuttance addr (c # cs) =
     (if cstart c \<noteq> addr then post_abuttance addr cs else csize c)"

definition Chunker_PostAbuttance :: "chunker \<Rightarrow> u32 \<Rightarrow> u32" where
  "Chunker_PostAbuttance ck addr = post_abuttance addr (m_freeList ck)"

definition Chunker_TotalChunkSpace :: "chunker \<Rightarrow> u32" where
  "Chunker_TotalChunkSpace ck = foldl (\<lambda>total p. total + csize p) 0 (m_freeList ck)"

text \<open>\<open>None\<close>: an empty list makes \<^verbatim>\<open>LargestChunk\<close> dereference the null pointer \<^verbatim>\<open>l\<close>.\<close>

definition Chunker_LargestChunk :: "chunker \<Rightarrow> u32 option" where
  "Chunker_LargestChunk ck =
     (case m_freeList ck of
        [] \<Rightarrow> None
      | c # cs \<Rightarrow> Some (csize (foldl (\<lambda>l p. if csize p > csize l then p else l) c (c # cs))))"

text \<open>
  The test of \<^verbatim>\<open>CheckSanity\<close> (debug builds): every node ends before the next one starts.
  Its loop reads \<^verbatim>\<open>p->next\<close> first, so it also dereferences null on an empty list (\<open>None\<close>).
\<close>

fun sane_from :: "chunk list \<Rightarrow> bool" where
  "sane_from (p # q # cs) = (if cstart p + csize p > cstart q then False else sane_from (q # cs))"
| "sane_from cs = True"

definition Chunker_CheckSanity :: "chunker \<Rightarrow> bool option" where
  "Chunker_CheckSanity ck =
     (case m_freeList ck of [] \<Rightarrow> None | cl \<Rightarrow> Some (sane_from cl))"


section \<open>The free list as a set of bytes\<close>

text \<open>
  \<open>region c\<close> is the set of byte offsets a node covers and \<open>bytes cl\<close> what a list covers.
  \<open>free_ok lim cl\<close> is the invariant of the list in an area of \<open>lim\<close> bytes: nodes are in
  address order, no node is empty or runs past the area, and two neighbours never touch (they
  would have been joined).
\<close>

definition cend :: "chunk \<Rightarrow> nat" where
  "cend c = unat (cstart c) + unat (csize c)"

definition region :: "chunk \<Rightarrow> nat set" where
  "region c = {unat (cstart c)..<cend c}"

definition bytes :: "chunk list \<Rightarrow> nat set" where
  "bytes cl = (\<Union>c\<in>set cl. region c)"

definition span :: "u32 \<Rightarrow> u32 \<Rightarrow> nat set" where
  "span st sz = {unat st..<unat st + unat sz}"

definition free_ok :: "nat \<Rightarrow> chunk list \<Rightarrow> bool" where
  "free_ok lim cl \<longleftrightarrow>
     sorted_wrt (\<lambda>c d. cend c < unat (cstart d)) cl \<and>
     (\<forall>c\<in>set cl. 0 < unat (csize c) \<and> cend c \<le> lim)"

lemma free_ok_Nil [simp]: "free_ok lim []"
  by (simp add: free_ok_def)

lemma free_ok_Cons [simp]:
  "free_ok lim (c # cs) \<longleftrightarrow>
     (\<forall>d\<in>set cs. cend c < unat (cstart d)) \<and> 0 < unat (csize c) \<and> cend c \<le> lim \<and> free_ok lim cs"
  by (auto simp: free_ok_def)

lemma bytes_Nil [simp]: "bytes [] = {}"
  by (simp add: bytes_def)

lemma bytes_Cons [simp]: "bytes (c # cs) = region c \<union> bytes cs"
  by (simp add: bytes_def)

lemma bytes_append [simp]: "bytes (xs @ ys) = bytes xs \<union> bytes ys"
  by (simp add: bytes_def)

lemma free_ok_append:
  "free_ok lim (xs @ ys) \<longleftrightarrow>
     free_ok lim xs \<and> free_ok lim ys \<and> (\<forall>c\<in>set xs. \<forall>d\<in>set ys. cend c < unat (cstart d))"
  by (auto simp: free_ok_def sorted_wrt_append)

lemma region_start: "0 < unat (csize c) \<Longrightarrow> unat (cstart c) \<in> region c"
  by (simp add: region_def cend_def)

lemma bytes_bounded: "free_ok lim cl \<Longrightarrow> bytes cl \<subseteq> {..<lim}"
  by (fastforce simp: free_ok_def bytes_def region_def)

lemma cend_word:
  assumes "cend c \<le> lim" "lim < 2 ^ 32"
  shows "unat (cstart c + csize c) = cend c"
  using assms by (simp add: cend_def unat_add_no_overflow)

lemma region_eqI [simp]:
  "region \<lparr>cstart = st, csize = sz\<rparr> = span st sz"
  by (simp add: region_def cend_def span_def)

lemma cend_make [simp]: "cend \<lparr>cstart = st, csize = sz\<rparr> = unat st + unat sz"
  by (simp add: cend_def)

subsection \<open>Free adds a region and keeps the list canonical\<close>

text \<open>
  A node of a canonical list that starts after a free region's start starts after its end.
\<close>

lemma after_region:
  assumes "span st sz \<inter> region d = {}" "0 < unat (csize d)" "unat st < unat (cstart d)"
  shows "unat st + unat sz \<le> unat (cstart d)"
proof (rule ccontr)
  assume "\<not> unat st + unat sz \<le> unat (cstart d)"
  then have "unat (cstart d) \<in> span st sz \<inter> region d"
    using assms by (simp add: span_def region_def cend_def)
  with assms show False by simp
qed

lemma before_region:
  assumes "span st sz \<inter> region c = {}" "0 < unat sz" "unat (cstart c) \<le> unat st"
  shows "cend c \<le> unat st"
proof (rule ccontr)
  assume "\<not> cend c \<le> unat st"
  then have "unat st \<in> span st sz \<inter> region c"
    using assms by (simp add: span_def region_def)
  with assms show False by simp
qed

text \<open>What every stage of \<^verbatim>\<open>Free\<close> promises about its result \<open>(cl', n)\<close>.\<close>

definition freed :: "nat \<Rightarrow> u32 \<Rightarrow> u32 \<Rightarrow> chunk list \<Rightarrow> chunk list \<times> chunk \<Rightarrow> bool" where
  "freed lim st sz cl r \<longleftrightarrow>
     free_ok lim (fst r) \<and> bytes (fst r) = bytes cl \<union> span st sz \<and>
     snd r \<in> set (fst r) \<and> span st sz \<subseteq> region (snd r)"

lemma free_right_freed:
  assumes ok: "free_ok lim ds" and sz: "0 < unat sz"
    and lim: "unat st + unat sz \<le> lim" "lim < 2 ^ 32"
    and disj: "span st sz \<inter> bytes ds = {}"
    and right: "\<forall>d\<in>set ds. unat st < unat (cstart d)"
  shows "freed lim st sz ds (free_right st sz ds) \<and>
         (\<forall>x\<in>set (fst (free_right st sz ds)). unat st \<le> unat (cstart x))"
proof (cases ds)
  case Nil
  with assms show ?thesis by (simp add: freed_def Let_def)
next
  case (Cons d ds')
  have end_word: "unat (st + sz) = unat st + unat sz"
    using lim by (simp add: unat_add_no_overflow)
  have le: "unat st + unat sz \<le> unat (cstart d)"
    using after_region [of st sz d] ok disj right Cons by auto
  have mono: "\<forall>x\<in>set ds'. unat (cstart d) < unat (cstart x)"
    using ok Cons by (force simp: cend_def)
  show ?thesis
  proof (cases "st + sz = cstart d")
    case True
    then have eq: "unat (cstart d) = unat st + unat sz"
      using end_word by simp
    have d: "cend d \<le> lim" using ok Cons by simp
    have start: "cstart d - sz = st"
      by (simp flip: True)
    have sum: "unat (csize d + sz) = unat (csize d) + unat sz"
      using eq d lim by (simp add: unat_add_no_overflow cend_def)
    let ?n = "d\<lparr>cstart := st, csize := csize d + sz\<rparr>"
    have cend_n: "cend ?n = cend d"
      using eq sum by (simp add: cend_def)
    have "region ?n = span st sz \<union> region d"
      using eq cend_n by (auto simp: region_def span_def cend_def)
    then show ?thesis
      using Cons True start ok cend_n sum sz mono right
      by (auto simp: freed_def Let_def)
  next
    case False
    then have "unat st + unat sz < unat (cstart d)"
      using le end_word by (metis nat_less_le word_unat_eq_iff)
    then show ?thesis
      using Cons False ok sz lim mono right by (auto simp: freed_def Let_def)
  qed
qed


lemma free_join_abutting:
  assumes ok: "free_ok lim (c # ds)" and sz: "0 < unat sz"
    and lim: "unat st + unat sz \<le> lim" "lim < 2 ^ 32"
    and disj: "span st sz \<inter> bytes ds = {}"
    and abut: "cstart c + csize c = st" "cend c = unat st"
    and right: "\<forall>d\<in>set ds. unat st < unat (cstart d)"
  shows "freed lim st sz (c # ds) (free_join st sz c ds) \<and>
         (\<forall>x\<in>set (fst (free_join st sz c ds)). unat (cstart c) \<le> unat (cstart x))"
proof -
  let ?n = "c\<lparr>csize := csize c + sz\<rparr>"
  have sum: "unat (csize c + sz) = unat (csize c) + unat sz"
    using abut lim by (simp add: unat_add_no_overflow cend_def)
  have cend_n: "cend ?n = unat st + unat sz"
    using abut sum by (simp add: cend_def)
  have reg_n: "region ?n = region c \<union> span st sz"
    using abut cend_n by (auto simp: region_def span_def cend_def)
  show ?thesis
  proof (cases ds)
    case Nil
    then show ?thesis
      using abut cend_n reg_n sum sz lim by (auto simp: free_join_def freed_def Let_def)
  next
    case (Cons d ds')
    have le: "unat st + unat sz \<le> unat (cstart d)"
      using after_region [of st sz d] ok disj right Cons by auto
    have nw: "unat (cstart c + (csize c + sz)) = cend ?n"
      using cend_n lim sum by (simp add: cend_def unat_add_no_overflow)
    have d: "\<forall>x\<in>set ds'. cend d < unat (cstart x)" "cend d \<le> lim" "unat (cstart d) < cend d"
      "unat (cstart c) < unat (cstart d)" "\<forall>x\<in>set ds'. unat (cstart d) < unat (cstart x)"
      using ok Cons by (auto simp: cend_def)
    show ?thesis
    proof (cases "cstart d = cstart c + (csize c + sz)")
      case True
      then have deq: "unat (cstart d) = unat st + unat sz"
        using nw cend_n by simp
      let ?m = "c\<lparr>csize := csize c + sz + csize d\<rparr>"
      have sum': "unat (csize c + sz + csize d) = unat (csize c) + unat sz + unat (csize d)"
        using sum d(2) lim deq abut by (simp add: unat_add_no_overflow cend_def)
      have "cend ?m = cend d" "region ?m = region c \<union> span st sz \<union> region d"
        using sum' abut deq by (auto simp: cend_def region_def span_def)
      then show ?thesis
        using True abut Cons ok sum' sz d by (auto simp: free_join_def freed_def Let_def)
    next
      case False
      then have "cend ?n < unat (cstart d)"
        using le nw cend_n by (metis nat_less_le word_unat_eq_iff)
      then show ?thesis
        using False abut Cons ok sum sz d cend_n lim reg_n
        by (auto simp: free_join_def freed_def Let_def)
    qed
  qed
qed

lemma free_join_freed:
  assumes ok: "free_ok lim (c # ds)" and sz: "0 < unat sz"
    and lim: "unat st + unat sz \<le> lim" "lim < 2 ^ 32"
    and disj: "span st sz \<inter> bytes (c # ds) = {}"
    and left: "unat (cstart c) \<le> unat st"
    and right: "\<forall>d\<in>set ds. unat st < unat (cstart d)"
  shows "freed lim st sz (c # ds) (free_join st sz c ds) \<and>
         (\<forall>x\<in>set (fst (free_join st sz c ds)). unat (cstart c) \<le> unat (cstart x))"
proof -
  have c: "cend c \<le> unat st"
    using before_region [of st sz c] disj sz left by auto
  have cw: "unat (cstart c + csize c) = cend c"
    using ok lim cend_word [of c lim] by simp
  show ?thesis
  proof (cases "cstart c + csize c = st")
    case True
    then show ?thesis
      using free_join_abutting [of lim c ds sz st] assms cw by auto
  next
    case False
    then have lt: "cend c < unat st"
      using c cw by (metis nat_less_le word_unat_eq_iff)
    have "freed lim st sz ds (free_right st sz ds)"
      "\<forall>x\<in>set (fst (free_right st sz ds)). unat st \<le> unat (cstart x)"
      using free_right_freed [of lim ds sz st] ok sz lim disj right by auto
    then show ?thesis
      using False ok lt left by (fastforce simp: free_join_def freed_def split: prod.splits)
  qed
qed

lemma free_walk_freed:
  assumes "free_ok lim (c # ds)" "0 < unat sz"
    and "unat st + unat sz \<le> lim" "lim < 2 ^ 32"
    and "span st sz \<inter> bytes (c # ds) = {}"
    and "unat (cstart c) \<le> unat st"
  shows "freed lim st sz (c # ds) (free_walk st sz c ds) \<and>
         (\<forall>x\<in>set (fst (free_walk st sz c ds)). unat (cstart c) \<le> unat (cstart x))"
  using assms
proof (induction st sz c ds rule: free_walk.induct)
  case (1 st sz c)
  then show ?case using free_join_freed [of lim c "[]" sz st] by simp
next
  case (2 st sz c d ds)
  show ?case
  proof (cases "cstart d > st")
    case True
    have "\<forall>x\<in>set (d # ds). unat st < unat (cstart x)"
      using "2.prems"(1) True by (force simp: word_less_nat_alt cend_def)
    then show ?thesis
      using free_join_freed [of lim c "d # ds" sz st] "2.prems" True by simp
  next
    case False
    then have dst: "unat (cstart d) \<le> unat st"
      by (simp add: word_less_nat_alt)
    have lt: "unat (cstart c) < unat (cstart d)" "cend c < unat (cstart d)"
      using "2.prems"(1) by (auto simp: cend_def)
    have "freed lim st sz (d # ds) (free_walk st sz d ds)"
      "\<forall>x\<in>set (fst (free_walk st sz d ds)). unat (cstart d) \<le> unat (cstart x)"
      using "2.IH" [OF False] "2.prems" dst by auto
    then show ?thesis
      using False "2.prems"(1) lt by (fastforce simp: freed_def split: prod.splits)
  qed
qed

lemma free_list_free_freed:
  assumes ok: "free_ok lim cl" and sz: "0 < unat sz"
    and lim: "unat st + unat sz \<le> lim" "lim < 2 ^ 32"
    and disj: "span st sz \<inter> bytes cl = {}"
  shows "freed lim st sz cl (free_list_free st sz cl)"
proof (cases cl)
  case Nil
  with assms show ?thesis by (simp add: free_list_free_def freed_def Let_def)
next
  case (Cons c cs)
  show ?thesis
  proof (cases "cstart c > st")
    case True
    then have "\<forall>x\<in>set cl. unat st < unat (cstart x)"
      using ok Cons by (force simp: word_less_nat_alt cend_def)
    then show ?thesis
      using free_right_freed [OF ok sz lim disj] Cons True by (simp add: free_list_free_def)
  next
    case False
    then show ?thesis
      using free_walk_freed [of lim c cs sz st] assms Cons
      by (simp add: free_list_free_def word_less_nat_alt)
  qed
qed


subsection \<open>Carving a region out of a node\<close>

text \<open>
  Every allocation replaces one node by what is left of it. \<open>carved\<close> is what such a
  replacement promises; it is kept when the untouched nodes before it are put back.
\<close>

definition carved :: "nat \<Rightarrow> u32 \<Rightarrow> u32 \<Rightarrow> chunk list \<Rightarrow> chunk list \<Rightarrow> bool" where
  "carved lim st sz cl cl' \<longleftrightarrow>
     free_ok lim cl' \<and> span st sz \<subseteq> bytes cl \<and> bytes cl' = bytes cl - span st sz \<and>
     (\<forall>m. (\<forall>c\<in>set cl. m < unat (cstart c)) \<longrightarrow> (\<forall>c\<in>set cl'. m < unat (cstart c)))"

lemma regions_disjoint:
  assumes "cend c < unat (cstart d)"
  shows "region c \<inter> region d = {}"
  using assms by (auto simp: region_def)

lemma bytes_after:
  assumes "\<forall>d\<in>set cs. cend c < unat (cstart d)"
  shows "region c \<inter> bytes cs = {}"
  using assms regions_disjoint by (fastforce simp: bytes_def)

lemma carved_Cons:
  assumes "carved lim st sz cs cs'" "free_ok lim (c # cs)"
  shows "carved lim st sz (c # cs) (c # cs')"
proof -
  have "\<forall>d\<in>set cs'. cend c < unat (cstart d)"
    using assms by (simp add: carved_def)
  moreover have "region c \<inter> bytes cs = {}"
    using assms(2) bytes_after [of cs c] by simp
  ultimately show ?thesis
    using assms by (auto simp: carved_def)
qed

lemma carved_append:
  assumes "carved lim st sz cs cs'" "free_ok lim (pre @ cs)"
  shows "carved lim st sz (pre @ cs) (pre @ cs')"
  using assms
proof (induction pre)
  case (Cons c pre)
  then show ?case by (auto intro!: carved_Cons)
qed simp

lemma carved_whole:
  assumes "free_ok lim (c # cs)"
  shows "carved lim (cstart c) (csize c) (c # cs) cs"
proof -
  have "region c = span (cstart c) (csize c)"
    by (simp add: region_def span_def cend_def)
  then show ?thesis
    using assms bytes_after [of cs c] by (auto simp: carved_def)
qed

lemma carved_front:
  assumes "free_ok lim (c # cs)" "lim < 2 ^ 32" "unat sz < unat (csize c)"
  shows "carved lim (cstart c) sz (c # cs)
           (c\<lparr>csize := csize c - sz, cstart := cstart c + sz\<rparr> # cs)"
proof -
  let ?n = "c\<lparr>csize := csize c - sz, cstart := cstart c + sz\<rparr>"
  have st: "unat (cstart c + sz) = unat (cstart c) + unat sz"
    and sz: "unat (csize c - sz) = unat (csize c) - unat sz"
    using assms by (simp_all add: unat_add_no_overflow unat_sub_le cend_def)
  have "cend ?n = cend c"
    using st sz assms(3) by (simp add: cend_def)
  moreover have "region c = span (cstart c) sz \<union> region ?n" "span (cstart c) sz \<inter> region ?n = {}"
    using st sz assms(3) by (auto simp: region_def span_def cend_def)
  moreover have "region c \<inter> bytes cs = {}"
    using assms(1) bytes_after [of cs c] by simp
  ultimately show ?thesis
    using assms st sz by (auto simp: carved_def)
qed

lemma carved_back:
  assumes "free_ok lim (c # cs)" "unat sz < unat (csize c)" "unat st + unat sz = cend c"
  shows "carved lim st sz (c # cs) (c\<lparr>csize := csize c - sz\<rparr> # cs)"
proof -
  let ?n = "c\<lparr>csize := csize c - sz\<rparr>"
  have "unat (csize c - sz) = unat (csize c) - unat sz"
    using assms by (simp add: unat_sub_le)
  then have e: "cend ?n = unat st" "cend ?n < cend c \<or> unat sz = 0"
    using assms by (auto simp: cend_def)
  have "region c = region ?n \<union> span st sz" "span st sz \<inter> region ?n = {}"
    using e assms by (auto simp: region_def span_def cend_def)
  moreover have "region c \<inter> bytes cs = {}"
    using assms(1) bytes_after [of cs c] by simp
  moreover have "free_ok lim (?n # cs)"
    using assms e \<open>unat (csize c - sz) = _\<close> by (auto simp: cend_def)
  ultimately show ?thesis
    using assms by (auto simp: carved_def)
qed

lemma carved_middle:
  assumes ok: "free_ok lim (c # cs)" and lim: "lim < 2 ^ 32" and sz: "0 < unat sz"
    and st: "unat (cstart c) < unat st" "unat st + unat sz < cend c"
  shows "carved lim st sz (c # cs)
           (c\<lparr>csize := st - cstart c\<rparr>
            # \<lparr>cstart = st + sz, csize = csize c - (st - cstart c) - sz\<rparr> # cs)"
proof -
  let ?l = "c\<lparr>csize := st - cstart c\<rparr>"
  let ?r = "\<lparr>cstart = st + sz, csize = csize c - (st - cstart c) - sz\<rparr>"
  have c: "cend c \<le> lim" using ok by simp
  have l: "unat (st - cstart c) = unat st - unat (cstart c)"
    using st by (simp add: unat_sub_le)
  have "unat (csize c - (st - cstart c)) = unat (csize c) - (unat st - unat (cstart c))"
    using st l by (simp add: unat_sub_le cend_def)
  then have r: "unat (csize c - (st - cstart c) - sz)
      = unat (csize c) - (unat st - unat (cstart c)) - unat sz"
    using st by (simp add: unat_sub_le cend_def)
  have rs: "unat (st + sz) = unat st + unat sz"
    using st c lim by (simp add: unat_add_no_overflow)
  have e: "cend ?l = unat st" "cend ?r = cend c"
    using l r rs st by (simp_all add: cend_def)
  have "region c = region ?l \<union> span st sz \<union> region ?r"
    "span st sz \<inter> region ?l = {}" "span st sz \<inter> region ?r = {}"
    using e rs st by (auto simp: region_def span_def)
  moreover have "region c \<inter> bytes cs = {}"
    using ok bytes_after [of cs c] by simp
  moreover have "free_ok lim (?l # ?r # cs)"
    using ok st sz c l r rs e by (auto simp: cend_def)
  moreover have "unat (cstart c) < unat (cstart ?r)"
    using st rs by simp
  ultimately show ?thesis
    using ok by (auto simp: carved_def)
qed

subsection \<open>Allocation of a given range\<close>

lemma alloc_at_Some:
  assumes "alloc_at st sz cl = Some cl'" "free_ok lim cl" "lim < 2 ^ 32"
    and "0 < unat sz" "unat st + unat sz \<le> lim"
  shows "carved lim st sz cl cl'"
  using assms
proof (induction st sz cl arbitrary: cl' rule: alloc_at.induct)
  case (2 st sz it cs)
  have itw: "unat (cstart it + csize it) = cend it"
    using "2.prems" cend_word [of it lim] by simp
  have ew: "unat (st + sz) = unat st + unat sz"
    using "2.prems" by (simp add: unat_add_no_overflow)
  show ?case
  proof (cases "cstart it + csize it < st")
    case True
    then show ?thesis
      using "2.prems" "2.IH" by (auto intro!: carved_Cons)
  next
    case False
    with "2.prems"(1) have in_it: "\<not> cstart it > st" "\<not> cstart it + csize it < st + sz"
      by (auto split: if_splits)
    then have le: "unat (cstart it) \<le> unat st" "unat st + unat sz \<le> cend it"
      using itw ew by (simp_all add: word_less_nat_alt)
    consider (at_start) "cstart it = st" | (at_end) "cstart it \<noteq> st" "cend it = unat st + unat sz"
      | (inside) "cstart it \<noteq> st" "cend it \<noteq> unat st + unat sz" by blast
    then show ?thesis
    proof cases
      case at_start
      have "unat sz < unat (csize it)" if "csize it \<noteq> sz"
        using that at_start le by (simp add: cend_def nat_less_le word_unat_eq_iff)
      with at_start show ?thesis
        using "2.prems" False in_it carved_whole [of lim it cs] carved_front [of lim it cs sz]
        by (auto split: if_splits)
    next
      case at_end
      then have "unat (cstart it) < unat st"
        using le unat_neq_less [of "cstart it" st] by simp
      then have "unat sz < unat (csize it)" using at_end by (simp add: cend_def)
      then have "carved lim st sz (it # cs) (it\<lparr>csize := csize it - sz\<rparr> # cs)"
        using "2.prems"(2) at_end by (intro carved_back) simp_all
      moreover have "cstart it + csize it = st + sz"
        using at_end itw ew by (simp add: word_unat_eq_iff)
      then have "cl' = it\<lparr>csize := csize it - sz\<rparr> # cs"
        using "2.prems"(1) False in_it at_end(1) by (auto split: if_splits)
      ultimately show ?thesis by simp
    next
      case inside
      then have "unat (cstart it) < unat st" "unat st + unat sz < cend it"
        using le unat_neq_less [of "cstart it" st] by auto
      moreover have "cstart it + csize it \<noteq> st + sz"
        using inside itw ew by auto
      ultimately show ?thesis
        using "2.prems" False in_it inside carved_middle [of lim it cs sz st] by simp
    qed
  qed
qed simp

text \<open>
  The walk stops at the first node that does not end before \<open>st\<close>. A node that ends exactly
  at \<open>st\<close> stops it too and the call fails, which loses nothing: in a canonical list no other
  node can hold \<open>st\<close> then.
\<close>

lemma alloc_at_None:
  assumes "alloc_at st sz cl = None" "free_ok lim cl" "lim < 2 ^ 32"
    and "0 < unat sz" "unat st + unat sz \<le> lim"
  shows "\<not> span st sz \<subseteq> bytes cl"
  using assms
proof (induction st sz cl rule: alloc_at.induct)
  case (1 st sz)
  then show ?case by (simp add: span_def)
next
  case (2 st sz it cs)
  have itw: "unat (cstart it + csize it) = cend it"
    using "2.prems" cend_word [of it lim] by simp
  have ew: "unat (st + sz) = unat st + unat sz"
    using "2.prems" by (simp add: unat_add_no_overflow)
  show ?case
  proof (cases "cstart it + csize it < st")
    case True
    then have "\<not> span st sz \<subseteq> bytes cs"
      using "2.prems" "2.IH" by auto
    moreover have "span st sz \<inter> region it = {}"
      using True itw by (auto simp: span_def region_def word_less_nat_alt)
    ultimately show ?thesis by auto
  next
    case False
    with "2.prems"(1) have "cstart it > st \<or> cstart it + csize it < st + sz"
      by (auto split: if_splits)
    then have out: "unat st < unat (cstart it) \<or> cend it < unat st + unat sz"
      using itw ew by (simp add: word_less_nat_alt)
    have nlt: "unat st \<le> cend it" using False itw by (simp add: word_less_nat_alt)
    define x where "x = (if unat st < unat (cstart it) then unat st else cend it)"
    have "x \<in> span st sz"
      using out nlt "2.prems"(4) by (auto simp: x_def span_def)
    moreover have "x \<notin> region it"
      by (auto simp: x_def region_def)
    moreover have "x \<le> cend it" using nlt by (simp add: x_def)
    then have "x \<notin> bytes cs"
      using "2.prems"(2) by (auto simp: bytes_def region_def)
    ultimately show ?thesis by auto
  qed
qed


subsection \<open>First-fit allocation\<close>

lemma first_fit_split:
  assumes "first_fit s cl = (pre, rest)"
  shows "cl = pre @ rest \<and> (\<forall>c\<in>set pre. csize c < s) \<and> (\<forall>c cs. rest = c # cs \<longrightarrow> s \<le> csize c)"
  using assms
  by (induction s cl arbitrary: pre rest rule: first_fit.induct) (auto split: if_splits prod.splits)

text \<open>
  \<open>quantum_ok k ck\<close>: the quantum the chunker was made with is \<open>2 ^ k\<close> (the constructor's
  default is 1, the heap's is 32), as the mask arithmetic of \<^verbatim>\<open>Alloc\<close> needs.
\<close>

definition quantum_ok :: "nat \<Rightarrow> chunker \<Rightarrow> bool" where
  "quantum_ok k ck \<longleftrightarrow> m_quantum ck = mask k \<and> m_quantumMask ck = NOT (mask k)"

definition chunker_ok :: "nat \<Rightarrow> nat \<Rightarrow> chunker \<Rightarrow> bool" where
  "chunker_ok k lim ck \<longleftrightarrow>
     quantum_ok k ck \<and> free_ok lim (m_freeList ck) \<and> lim + 2 ^ k \<le> 2 ^ 32"

lemma unat_quantum:
  assumes "chunker_ok k lim ck" "0 < lim"
  shows "unat (mask k :: u32) = 2 ^ k - 1"
proof -
  have "(2::nat) ^ k < 2 ^ 32"
    using assms by (simp add: chunker_ok_def)
  then have "k < 32" by (metis power_strict_increasing_iff one_less_numeral_iff semiring_norm(76))
  then show ?thesis by (rule unat_mask_u32)
qed

lemma quantized_size:
  assumes ok: "chunker_ok k lim ck" "0 < lim" and n: "unat n \<le> lim"
  shows "unat (n + m_quantum ck) = unat n + (2 ^ k - 1)"
    and "unat n \<le> unat ((n + m_quantum ck) AND m_quantumMask ck)"
    and "unat ((n + m_quantum ck) AND m_quantumMask ck) \<le> unat n + (2 ^ k - 1)"
proof -
  have q: "m_quantum ck = mask k" "m_quantumMask ck = NOT (mask k)"
    and lim: "lim + 2 ^ k \<le> 2 ^ 32"
    using ok by (simp_all add: chunker_ok_def quantum_ok_def)
  have "unat n + (2 ^ k - 1) < 2 ^ 32"
    using n lim one_le_power [of "2 :: nat" k] by linarith
  then show sum: "unat (n + m_quantum ck) = unat n + (2 ^ k - 1)"
    using unat_quantum [OF ok] by (simp add: q unat_add_no_overflow)
  show "unat n \<le> unat ((n + m_quantum ck) AND m_quantumMask ck)"
    and "unat ((n + m_quantum ck) AND m_quantumMask ck) \<le> unat n + (2 ^ k - 1)"
    using sum round_up_bounds [of "unat n" k] by (simp_all add: q unat_and_not_mask)
qed


text \<open>A first-fit allocation carves its result out of one node, and never less than was asked for.\<close>

lemma Chunker_Alloc_carves:
  assumes ok: "chunker_ok k lim ck" and n: "0 < unat n"
    and res: "Chunker_Alloc ck n takeBest m = (ck', n', p)"
    and fit: "\<exists>c\<in>set (m_freeList ck). n \<le> csize c"
  shows "n \<le> n' \<and> carved lim p n' (m_freeList ck) (m_freeList ck') \<and> quantum_ok k ck' \<and>
    unat p + unat n' \<le> lim"
proof -
  obtain pre rest where ff: "first_fit n (m_freeList ck) = (pre, rest)"
    by fastforce
  have split: "m_freeList ck = pre @ rest" "\<forall>c\<in>set pre. csize c < n"
    "\<And>c cs. rest = c # cs \<Longrightarrow> n \<le> csize c"
    using first_fit_split [OF ff] by auto
  from fit split obtain it rs where rest: "rest = it # rs"
    by (cases rest) auto
  have free: "free_ok lim (pre @ it # rs)"
    using ok split rest by (simp add: chunker_ok_def)
  then have it: "free_ok lim (it # rs)" "cend it \<le> lim" "n \<le> csize it" "0 < lim"
    using split rest n by (auto simp: free_ok_append cend_def)
  have lim: "lim < 2 ^ 32"
    using ok one_le_power [of "2 :: nat" k] unfolding chunker_ok_def by linarith
  have nlim: "unat n \<le> lim"
    using it by (simp add: word_le_nat_alt cend_def)
  note q = quantized_size [OF ok it(4) nlim]
  show ?thesis
  proof (cases "csize it \<le> n + m_quantum ck")
    case True
    then have "ck' = ck\<lparr>m_freeList := pre @ rs\<rparr>" "n' = csize it" "p = cstart it"
      using res ff rest by (simp_all add: Chunker_Alloc_def)
    then show ?thesis
      using carved_append [OF carved_whole [OF it(1)] free] it split rest ok
      by (simp add: chunker_ok_def quantum_ok_def cend_def)
  next
    case False
    define sz where "sz = (n + m_quantum ck) AND m_quantumMask ck"
    have "unat sz < unat (csize it)"
      using False q(1,3) by (simp add: sz_def word_le_nat_alt)
    moreover have "ck' = ck\<lparr>m_freeList := pre @ it\<lparr>csize := csize it - sz, cstart := cstart it + sz\<rparr> # rs\<rparr>"
      "n' = sz" "p = cstart it"
      using False res ff rest by (auto simp: Chunker_Alloc_def sz_def Let_def)
    ultimately show ?thesis
      using carved_append [OF carved_front [OF it(1) lim] free] it split rest ok q(2)
      by (simp add: chunker_ok_def quantum_ok_def cend_def word_le_nat_alt sz_def)
  qed
qed

lemma Chunker_Alloc_fails:
  assumes "\<not> (\<exists>c\<in>set (m_freeList ck). n \<le> csize c)"
  shows "Chunker_Alloc ck n False m = (ck, 0, NONZERO_NULL)"
proof -
  obtain pre rest where ff: "first_fit n (m_freeList ck) = (pre, rest)"
    by fastforce
  have "rest = []"
    using assms first_fit_split [OF ff] by (cases rest) auto
  with ff show ?thesis by (simp add: Chunker_Alloc_def)
qed

subsection \<open>A canonical list is determined by its bytes\<close>

lemma cend_not_free:
  assumes "free_ok lim (c # cs)"
  shows "cend c \<notin> bytes (c # cs)"
  using assms by (auto simp: bytes_def region_def)

lemma head_start_least:
  assumes "free_ok lim (c # cs)" "x \<in> bytes (c # cs)"
  shows "unat (cstart c) \<le> x"
  using assms by (force simp: bytes_def region_def cend_def)

lemma head_region_le:
  assumes "free_ok lim (c # cs)" "free_ok lim (d # ds)" "bytes (c # cs) = bytes (d # ds)"
  shows "unat (cstart c) \<le> unat (cstart d) \<and> cend c \<le> cend d"
proof
  have "unat (cstart d) \<in> bytes (d # ds)"
    using assms(2) region_start [of d] by simp
  then show le: "unat (cstart c) \<le> unat (cstart d)"
    using head_start_least [OF assms(1)] assms(3) by (metis (no_types))
  show "cend c \<le> cend d"
  proof (rule ccontr)
    assume "\<not> cend c \<le> cend d"
    then have "cend d \<in> region c"
      using le by (simp add: region_def cend_def)
    then show False
      using cend_not_free [OF assms(2)] assms(3) by auto
  qed
qed

lemma free_ok_unique:
  assumes "free_ok lim xs" "free_ok lim ys" "bytes xs = bytes ys"
  shows "xs = ys"
  using assms
proof (induction xs arbitrary: ys)
  case Nil
  then show ?case
    by (cases ys) (auto dest: region_start)
next
  case (Cons c cs)
  obtain d ds where ys: "ys = d # ds"
    using Cons.prems by (cases ys) (auto dest: region_start)
  have "unat (cstart c) = unat (cstart d)" "cend c = cend d"
    using head_region_le [of lim c cs d ds] head_region_le [of lim d ds c cs] Cons.prems ys
    by (auto intro: antisym)
  then have cd: "c = d"
    by (simp add: cend_def word_unat_eq_iff)
  moreover have "bytes cs = bytes (c # cs) - region c" "bytes ds = bytes (d # ds) - region d"
    using bytes_after [of cs c] bytes_after [of ds d] Cons.prems ys by auto
  then have "bytes cs = bytes ds"
    using Cons.prems(3) ys cd by simp
  then have "cs = ds"
    using Cons.IH [of ds] Cons.prems ys by simp
  ultimately show ?case using ys by simp
qed

lemma carved_freed_inverse:
  assumes ok: "free_ok lim cl" "lim < 2 ^ 32" and sz: "0 < unat sz"
    and lim: "unat st + unat sz \<le> lim" and carved: "carved lim st sz cl cl'"
  shows "fst (free_list_free st sz cl') = cl"
proof -
  have "freed lim st sz cl' (free_list_free st sz cl')"
    using carved ok sz lim by (intro free_list_free_freed) (auto simp: carved_def)
  then have "free_ok lim (fst (free_list_free st sz cl'))"
    "bytes (fst (free_list_free st sz cl')) = bytes cl"
    using carved by (auto simp: freed_def carved_def)
  then show ?thesis using ok(1) by (blast intro: free_ok_unique)
qed

subsection \<open>Space accounting\<close>

lemma card_bytes:
  assumes "free_ok lim cl"
  shows "card (bytes cl) = sum_list (map (\<lambda>c. unat (csize c)) cl)"
  using assms
proof (induction cl)
  case (Cons c cs)
  have "finite (bytes cs)" by (simp add: bytes_def region_def)
  moreover have "card (region c) = unat (csize c)" by (simp add: region_def cend_def)
  ultimately show ?case
    using Cons bytes_after [of cs c] by (simp add: card_Un_disjoint region_def)
qed simp

lemma foldl_csize:
  assumes "unat t + sum_list (map (\<lambda>c. unat (csize c)) cl) < 2 ^ 32"
  shows "unat (foldl (\<lambda>total p. total + csize p) t cl) = unat t + sum_list (map (\<lambda>c. unat (csize c)) cl)"
  using assms by (induction cl arbitrary: t) (simp_all add: unat_add_no_overflow)


section \<open>What the heap relies on\<close>

text \<open>
  A free store hands out and takes back ranges of bytes. \<open>owners F B x\<close> counts the claims on
  byte \<open>x\<close>, with \<open>F\<close> the free bytes and \<open>B\<close> the blocks handed out: allocation and release
  move bytes between the two and never change a count.
\<close>

definition owners :: "nat set \<Rightarrow> chunk multiset \<Rightarrow> nat \<Rightarrow> nat" where
  "owners F B x = (if x \<in> F then 1 else 0) + size (filter_mset (\<lambda>c. x \<in> region c) B)"

locale free_store =
  fixes limit :: nat
    and ok :: "'f \<Rightarrow> bool"
    and free_bytes :: "'f \<Rightarrow> nat set"
    and alloc :: "'f \<Rightarrow> u32 \<Rightarrow> 'f \<times> u32 \<times> u32"
    and release :: "'f \<Rightarrow> u32 \<Rightarrow> u32 \<Rightarrow> 'f \<times> chunk"
  assumes alloc_takes:
      "ok f \<Longrightarrow> 0 < unat n \<Longrightarrow> alloc f n = (f', n', p) \<Longrightarrow> n \<le> n' \<Longrightarrow>
         ok f' \<and> span p n' \<subseteq> free_bytes f \<and> free_bytes f' = free_bytes f - span p n' \<and>
         unat p + unat n' \<le> limit"
    and alloc_fails: "ok f \<Longrightarrow> 0 < unat n \<Longrightarrow> alloc f n = (f', n', p) \<Longrightarrow> n' < n \<Longrightarrow> f' = f"
    and release_gives:
      "ok f \<Longrightarrow> 0 < unat n \<Longrightarrow> unat p + unat n \<le> limit \<Longrightarrow> span p n \<inter> free_bytes f = {} \<Longrightarrow>
         release f p n = (f', c) \<Longrightarrow>
         ok f' \<and> free_bytes f' = free_bytes f \<union> span p n \<and>
         span p n \<subseteq> region c \<and> region c \<subseteq> free_bytes f'"
begin

lemma owners_alloc:
  assumes "ok f" "0 < unat n" "alloc f n = (f', n', p)" "n \<le> n'"
  shows "owners (free_bytes f') (add_mset \<lparr>cstart = p, csize = n'\<rparr> B) x = owners (free_bytes f) B x"
  using alloc_takes [OF assms] by (auto simp: owners_def)

lemma owners_release:
  assumes "ok f" "0 < unat n" "unat p + unat n \<le> limit" "span p n \<inter> free_bytes f = {}"
    and "release f p n = (f', c)" "\<lparr>cstart = p, csize = n\<rparr> \<in># B"
  shows "owners (free_bytes f') (B - {#\<lparr>cstart = p, csize = n\<rparr>#}) x = owners (free_bytes f) B x"
proof -
  obtain B' where B: "B = add_mset \<lparr>cstart = p, csize = n\<rparr> B'"
    using assms(6) by (metis insert_DiffM)
  show ?thesis
    using release_gives [OF assms(1-5)] assms(4) by (auto simp: owners_def B)
qed

end

text \<open>A byte that is claimed once is not both free and in a block, nor in two blocks.\<close>

lemma block_not_free:
  assumes "owners F B x = 1" "c \<in># B" "x \<in> region c"
  shows "x \<notin> F"
proof -
  obtain B' where B: "B = add_mset c B'"
    using assms(2) by (metis insert_DiffM)
  show ?thesis
    using assms(1,3) by (simp add: B owners_def split: if_splits)
qed

lemma block_not_shared:
  assumes "owners F B x = 1" "c \<in># B" "d \<in># B - {#c#}" "x \<in> region c"
  shows "x \<notin> region d"
proof
  assume d: "x \<in> region d"
  obtain B' where B: "B = add_mset c (add_mset d B')"
    using assms(2,3) by (metis insert_DiffM)
  show False
    using assms(1,4) d by (simp add: B owners_def split: if_splits)
qed

interpretation chunks: free_store lim "chunker_ok k lim" "\<lambda>ck. bytes (m_freeList ck)"
  "\<lambda>ck n. Chunker_Alloc ck n False 1" Chunker_Free for k lim
proof (unfold_locales, goal_cases)
  case (1 f n f' n' p)
  have "\<exists>c\<in>set (m_freeList f). n \<le> csize c"
  proof (rule ccontr)
    assume "\<not> ?thesis"
    then have "n' = 0" using 1(3) Chunker_Alloc_fails [of f n 1] by simp
    with 1 show False by simp
  qed
  then have "carved lim p n' (m_freeList f) (m_freeList f')" "quantum_ok k f'" "unat p + unat n' \<le> lim"
    using Chunker_Alloc_carves [OF 1(1,2,3)] by auto
  with 1(1) show ?case by (simp add: carved_def chunker_ok_def)
next
  case (2 f n f' n' p)
  have "\<not> (\<exists>c\<in>set (m_freeList f). n \<le> csize c)"
    using Chunker_Alloc_carves [OF 2(1,2,3)] 2(4) by (meson leD)
  with 2(3) show ?case using Chunker_Alloc_fails [of f n 1] by simp
next
  case (3 f n p f' c)
  have "lim < 2 ^ 32"
    using 3(1) one_le_power [of "2 :: nat" k] unfolding chunker_ok_def by linarith
  then have "freed lim p n (m_freeList f) (free_list_free p n (m_freeList f))"
    using 3 by (intro free_list_free_freed) (simp_all add: chunker_ok_def)
  with 3 show ?case
    by (auto simp: freed_def Chunker_Free_def chunker_ok_def quantum_ok_def bytes_def split: prod.splits)
qed

section \<open>Properties\<close>

text \<open>
  C3. Freeing a range that is not free adds exactly its bytes to the free bytes and keeps the
  list canonical (sorted, no empty node, no two nodes touching); the node returned is the one
  that now holds the range.
\<close>

theorem chunker_free_canonical:
  assumes "free_ok lim (m_freeList ck)" "lim < 2 ^ 32" "0 < unat sz" "unat st + unat sz \<le> lim"
    and "span st sz \<inter> bytes (m_freeList ck) = {}" "Chunker_Free ck st sz = (ck', n)"
  shows "free_ok lim (m_freeList ck') \<and> bytes (m_freeList ck') = bytes (m_freeList ck) \<union> span st sz \<and>
    n \<in> set (m_freeList ck') \<and> span st sz \<subseteq> region n"
proof -
  have "freed lim st sz (m_freeList ck) (free_list_free st sz (m_freeList ck))"
    using assms by (intro free_list_free_freed) simp_all
  then show ?thesis
    using assms(6) by (auto simp: freed_def Chunker_Free_def split: prod.splits)
qed

theorem chunker_free_canonical_witness:
  "free_ok 300 (m_freeList (fst (Chunker_Free \<lparr>m_freeList = [\<lparr>cstart = 0, csize = 64\<rparr>,
     \<lparr>cstart = 96, csize = 32\<rparr>, \<lparr>cstart = 200, csize = 40\<rparr>], m_quantum = 0, m_quantumMask = 0\<rparr> 64 32)))"
proof -
  let ?ck = "\<lparr>m_freeList = [\<lparr>cstart = 0, csize = 64\<rparr>, \<lparr>cstart = 96, csize = 32\<rparr>,
    \<lparr>cstart = 200, csize = 40\<rparr>], m_quantum = 0, m_quantumMask = 0\<rparr> :: chunker"
  obtain ck' n where r: "Chunker_Free ?ck 64 32 = (ck', n)" by fastforce
  have "free_ok 300 (m_freeList ?ck)" "span 64 32 \<inter> bytes (m_freeList ?ck) = {}"
    by (auto simp: cend_def span_def)
  from chunker_free_canonical [OF this(1) _ _ _ this(2) r] r show ?thesis by simp
qed

text \<open>
  Allocating a given range succeeds exactly when all its bytes are free; then exactly these
  bytes leave the free list, which stays canonical, and a failed call changes nothing.
\<close>

lemma chunker_alloc_at_iff:
  assumes "free_ok lim (m_freeList ck)" "lim < 2 ^ 32" "0 < unat sz" "unat st + unat sz \<le> lim"
  shows "if span st sz \<subseteq> bytes (m_freeList ck)
    then \<exists>cl. Chunker_Alloc_at ck st sz = (ck\<lparr>m_freeList := cl\<rparr>, True) \<and> free_ok lim cl \<and>
      bytes cl = bytes (m_freeList ck) - span st sz
    else Chunker_Alloc_at ck st sz = (ck, False)"
proof (cases "alloc_at st sz (m_freeList ck)")
  case None
  then show ?thesis
    using alloc_at_None [OF None assms(1,2,3,4)] by (simp add: Chunker_Alloc_at_def)
next
  case (Some cl)
  then have "carved lim st sz (m_freeList ck) cl"
    using alloc_at_Some assms by blast
  then show ?thesis
    using Some by (auto simp: Chunker_Alloc_at_def carved_def)
qed

lemma chunker_alloc_at_iff_example:
  "snd (Chunker_Alloc_at \<lparr>m_freeList = [\<lparr>cstart = 0, csize = 64\<rparr>, \<lparr>cstart = 96, csize = 32\<rparr>],
     m_quantum = 0, m_quantumMask = 0\<rparr> 100 8)"
proof -
  let ?ck = "\<lparr>m_freeList = [\<lparr>cstart = 0, csize = 64\<rparr>, \<lparr>cstart = 96, csize = 32\<rparr>],
    m_quantum = 0, m_quantumMask = 0\<rparr> :: chunker"
  have "free_ok 300 (m_freeList ?ck)" "span 100 8 \<subseteq> bytes (m_freeList ?ck)"
    by (auto simp: cend_def span_def)
  then show ?thesis using chunker_alloc_at_iff [of 300 ?ck 8 100] by auto
qed

end
