(* ===== verification/Heap_Hash.thy ===== *)
theory Heap_Hash
  imports Heap_Chunker "HOL-Library.Multiset"
begin

text \<open>
  The two chained hash tables of \<^verbatim>\<open>components/services/MemoryDealer/Heap.cpp\<close>: \<^verbatim>\<open>Hasher\<close>, which
  remembers the size of every block the heap has handed out, and the general \<^verbatim>\<open>HashTable\<close>. A
  bucket is the list of its nodes in link order. Both keep the promise of the locale
  \<open>chain_table\<close>: the entries of one key form a stack, and different keys do not interfere.
\<close>

section \<open>One bucket\<close>

text \<open>
  \<open>chain_find\<close> and \<open>chain_remove\<close> are the loop
  \<^verbatim>\<open>while (*p && ((*p)->key != key)) p = &(*p)->next;\<close> followed by a read of the node or by
  unlinking it; \<open>chain_update\<close> is a write through a pointer to the node found.
\<close>

fun chain_find :: "('e \<Rightarrow> u32) \<Rightarrow> u32 \<Rightarrow> 'e list \<Rightarrow> 'e option" where
  "chain_find key k [] = None"
| "chain_find key k (e # es) = (if key e \<noteq> k then chain_find key k es else Some e)"

fun chain_remove :: "('e \<Rightarrow> u32) \<Rightarrow> u32 \<Rightarrow> 'e list \<Rightarrow> 'e list" where
  "chain_remove key k [] = []"
| "chain_remove key k (e # es) = (if key e \<noteq> k then e # chain_remove key k es else es)"

fun chain_update :: "('e \<Rightarrow> u32) \<Rightarrow> u32 \<Rightarrow> ('e \<Rightarrow> 'e) \<Rightarrow> 'e list \<Rightarrow> 'e list" where
  "chain_update key k f [] = []"
| "chain_update key k f (e # es) = (if key e \<noteq> k then e # chain_update key k f es else f e # es)"

lemma chain_find_Some: "chain_find key k es = Some e \<Longrightarrow> e \<in> set es \<and> key e = k"
  by (induction es) (auto split: if_splits)

lemma chain_find_None: "chain_find key k es = None \<longleftrightarrow> (\<forall>e\<in>set es. key e \<noteq> k)"
  by (induction es) auto

lemma chain_remove_mset:
  "mset (chain_remove key k es) =
     (case chain_find key k es of None \<Rightarrow> mset es | Some e \<Rightarrow> mset es - {#e#})"
  by (induction es) (auto split: option.splits dest: chain_find_Some)

lemma chain_remove_absent: "chain_find key k es = None \<Longrightarrow> chain_remove key k es = es"
  by (induction es) (auto split: if_splits)

lemma chain_find_remove_other:
  "k \<noteq> k' \<Longrightarrow> chain_find key k' (chain_remove key k es) = chain_find key k' es"
  by (induction es) auto

lemma chain_update_mset:
  "mset (chain_update key k f es) =
     (case chain_find key k es of None \<Rightarrow> mset es | Some e \<Rightarrow> add_mset (f e) (mset es - {#e#}))"
  by (induction es) (auto split: option.splits dest: chain_find_Some)

section \<open>The hash table of block sizes\<close>

type_synonym hasher = "chunk list list"

definition Hasher_Hash :: "u32 \<Rightarrow> u32" where
  "Hasher_Hash address =
     (let h = address;
          h = h XOR drop_bit 8 h;
          h = h XOR drop_bit 16 h;
          h = h XOR drop_bit 24 h;
          r = h AND 7;
          h = drop_bit (unat r) (h AND 0xFF) OR push_bit (unat (8 - r)) (h AND 0xFF)
      in h AND 63)"

definition Hasher_new :: hasher where
  "Hasher_new = replicate 64 []"

definition Hasher_RemoveAll :: "hasher \<Rightarrow> hasher" where
  "Hasher_RemoveAll t = map (\<lambda>p. []) t"

definition Hasher_Insert :: "hasher \<Rightarrow> u32 \<Rightarrow> u32 \<Rightarrow> hasher" where
  "Hasher_Insert t address sz =
     (let bucket = unat (Hasher_Hash address)
      in t[bucket := \<lparr>cstart = address, csize = sz\<rparr> # t ! bucket])"

text \<open>
  \<^verbatim>\<open>Retrieve\<close> gives a pointer to the size field, \<open>None\<close> when it gives null;
  \<open>Hasher_SetSize\<close> is an assignment through that pointer.
\<close>

definition Hasher_Retrieve :: "hasher \<Rightarrow> u32 \<Rightarrow> u32 option" where
  "Hasher_Retrieve t address =
     map_option csize (chain_find cstart address (t ! unat (Hasher_Hash address)))"

definition Hasher_SetSize :: "hasher \<Rightarrow> u32 \<Rightarrow> u32 \<Rightarrow> hasher" where
  "Hasher_SetSize t address sz =
     (let bucket = unat (Hasher_Hash address)
      in t[bucket := chain_update cstart address (\<lambda>c. c\<lparr>csize := sz\<rparr>) (t ! bucket)])"

definition Hasher_Remove :: "hasher \<Rightarrow> u32 \<Rightarrow> hasher \<times> u32" where
  "Hasher_Remove t address =
     (let bucket = unat (Hasher_Hash address) in
      case chain_find cstart address (t ! bucket) of
        None \<Rightarrow> (t, 0)
      | Some it \<Rightarrow> (t[bucket := chain_remove cstart address (t ! bucket)], csize it))"

section \<open>The general hash table\<close>

record 'v hash_entry =
  hcar :: 'v
  hkey :: u32

record 'v hash_table =
  m_buckets :: u32
  m_hashTable :: "'v hash_entry list list"

definition HashTable_new :: "u32 \<Rightarrow> 'v hash_table" where
  "HashTable_new buckets = \<lparr>m_buckets = buckets, m_hashTable = replicate (unat buckets) []\<rparr>"

definition HashTable_Hash :: "'v hash_table \<Rightarrow> u32 \<Rightarrow> u32" where
  "HashTable_Hash t address = address mod m_buckets t"

definition HashTable_Insert :: "'v hash_table \<Rightarrow> u32 \<Rightarrow> 'v \<Rightarrow> 'v hash_table" where
  "HashTable_Insert t k v =
     (let bucket = unat (HashTable_Hash t k)
      in t\<lparr>m_hashTable := (m_hashTable t)
             [bucket := \<lparr>hcar = v, hkey = k\<rparr> # m_hashTable t ! bucket]\<rparr>)"

definition HashTable_Retrieve :: "'v hash_table \<Rightarrow> u32 \<Rightarrow> 'v option" where
  "HashTable_Retrieve t k =
     map_option hcar (chain_find hkey k (m_hashTable t ! unat (HashTable_Hash t k)))"

definition HashTable_Remove :: "'v hash_table \<Rightarrow> u32 \<Rightarrow> 'v hash_table" where
  "HashTable_Remove t k =
     (let bucket = unat (HashTable_Hash t k)
      in t\<lparr>m_hashTable := (m_hashTable t)
             [bucket := chain_remove hkey k (m_hashTable t ! bucket)]\<rparr>)"

section \<open>The contract of a chained table\<close>

locale chain_table =
  fixes inv :: "'t \<Rightarrow> bool"
    and insert :: "'t \<Rightarrow> u32 \<Rightarrow> 'v \<Rightarrow> 't"
    and retrieve :: "'t \<Rightarrow> u32 \<Rightarrow> 'v option"
    and remove :: "'t \<Rightarrow> u32 \<Rightarrow> 't"
  assumes inv_insert: "inv t \<Longrightarrow> inv (insert t k v)"
    and inv_remove: "inv t \<Longrightarrow> inv (remove t k)"
    and retrieve_insert:
      "inv t \<Longrightarrow> retrieve (insert t k v) k' = (if k = k' then Some v else retrieve t k')"
    and remove_insert: "inv t \<Longrightarrow> remove (insert t k v) k = t"
    and remove_absent: "inv t \<Longrightarrow> retrieve t k = None \<Longrightarrow> remove t k = t"
    and retrieve_remove_other:
      "inv t \<Longrightarrow> k \<noteq> k' \<Longrightarrow> retrieve (remove t k) k' = retrieve t k'"
begin

text \<open>A table filled from an empty one answers as the association list, latest entry first.\<close>

lemma inv_inserts: "inv t \<Longrightarrow> inv (foldr (\<lambda>(k, v) t. insert t k v) kvs t)"
  by (induction kvs) (auto intro: inv_insert)

lemma retrieve_inserts:
  assumes "inv t" "\<And>k. retrieve t k = None"
  shows "retrieve (foldr (\<lambda>(k, v) t. insert t k v) kvs t) k = map_of kvs k"
proof (induction kvs)
  case (Cons kv kvs)
  then show ?case
    using retrieve_insert [OF inv_inserts [OF assms(1), of kvs]] by (cases kv) auto
qed (simp add: assms(2))

text \<open>Entries of one key shadow each other: removing the latest uncovers the previous one.\<close>

lemma retrieve_shadowed:
  assumes "inv t"
  shows "retrieve (remove (insert t k v) k) k' = retrieve t k'"
  using assms by (simp add: remove_insert)

end

subsection \<open>Both tables keep it\<close>

lemma Hasher_Hash_less: "unat (Hasher_Hash a) < 64"
proof -
  have "unat (x AND 63) \<le> unat (63 :: u32)" for x :: u32
    by (rule word_and_le1 [THEN word_le_nat_alt [THEN iffD1]])
  then show ?thesis
    unfolding Hasher_Hash_def Let_def by (rule le_less_trans) simp
qed

definition hasher_inv :: "hasher \<Rightarrow> bool" where
  "hasher_inv t \<longleftrightarrow> length t = 64"

interpretation hasher: chain_table hasher_inv Hasher_Insert Hasher_Retrieve
  "\<lambda>t k. fst (Hasher_Remove t k)"
proof (unfold_locales, goal_cases)
  case (4 t k v)
  then show ?case
    using Hasher_Hash_less [of k]
    by (simp add: hasher_inv_def Hasher_Insert_def Hasher_Remove_def Let_def)
next
  case (6 t k k')
  then show ?case
    using Hasher_Hash_less [of k]
    by (cases "Hasher_Hash k = Hasher_Hash k'")
      (simp_all add: hasher_inv_def Hasher_Remove_def Hasher_Retrieve_def Let_def
        chain_find_remove_other word_unat_eq_iff split: option.split)
qed (use Hasher_Hash_less in \<open>auto simp: hasher_inv_def Hasher_Insert_def Hasher_Remove_def
    Hasher_Retrieve_def Let_def nth_list_update split: option.splits\<close>)

definition hash_table_inv :: "'v hash_table \<Rightarrow> bool" where
  "hash_table_inv t \<longleftrightarrow> 0 < unat (m_buckets t) \<and> length (m_hashTable t) = unat (m_buckets t)"

lemma HashTable_Hash_less: "hash_table_inv t \<Longrightarrow> unat (HashTable_Hash t k) < length (m_hashTable t)"
  by (simp add: hash_table_inv_def HashTable_Hash_def unat_mod)

interpretation hash_table: chain_table hash_table_inv HashTable_Insert HashTable_Retrieve
  HashTable_Remove
proof (unfold_locales, goal_cases)
  case (4 t k v)
  then show ?case
    using HashTable_Hash_less [of t k]
    by (simp add: HashTable_Insert_def HashTable_Remove_def HashTable_Hash_def Let_def)
next
  case (5 t k)
  then show ?case
    by (simp add: HashTable_Retrieve_def HashTable_Remove_def chain_remove_absent Let_def)
next
  case (6 t k k')
  then show ?case
    using HashTable_Hash_less [of t k]
    by (cases "unat (HashTable_Hash t k) = unat (HashTable_Hash t k')")
      (simp_all add: HashTable_Remove_def HashTable_Retrieve_def Let_def HashTable_Hash_def
        chain_find_remove_other)
next
  case (3 t k v k')
  then show ?case
    using HashTable_Hash_less [of t k]
    by (auto simp: HashTable_Insert_def HashTable_Retrieve_def HashTable_Hash_def Let_def
        nth_list_update)
qed (simp_all add: hash_table_inv_def HashTable_Insert_def HashTable_Remove_def Let_def)

section \<open>The blocks a hasher holds\<close>

definition blocks :: "hasher \<Rightarrow> chunk multiset" where
  "blocks t = mset (concat t)"

lemma mset_concat_update:
  assumes "i < length t"
  shows "mset (concat (t[i := b])) + mset (t ! i) = mset (concat t) + mset b"
  using assms
proof (induction t arbitrary: i)
  case (Cons a t)
  then show ?case by (cases i) (simp_all add: ac_simps)
qed simp

lemma nth_subset_concat: "i < length t \<Longrightarrow> mset (t ! i) \<subseteq># mset (concat t)"
  using mset_concat_update [of i t "[]"] by (metis add.right_neutral list.size(3) mset.simps(1)
      mset_subset_eq_add_right)

lemma blocks_update:
  assumes "i < length t" "mset b = mset (t ! i) - X + Y" "X \<subseteq># mset (t ! i)"
  shows "blocks (t[i := b]) = blocks t - X + Y"
proof -
  have "blocks (t[i := b]) + mset (t ! i) = blocks t + (mset (t ! i) - X + Y)"
    using mset_concat_update [OF assms(1), of b] assms(2) by (simp add: blocks_def)
  moreover obtain R S where "mset (t ! i) = X + R" "blocks t = X + R + S"
    using assms(3) nth_subset_concat [OF assms(1)]
    by (auto simp: mset_subset_eq_exists_conv blocks_def)
  ultimately show ?thesis by (simp add: ac_simps)
qed

lemma blocks_Insert:
  assumes "hasher_inv t"
  shows "blocks (Hasher_Insert t a sz) = add_mset \<lparr>cstart = a, csize = sz\<rparr> (blocks t)"
  using assms Hasher_Hash_less [of a]
    blocks_update [of "unat (Hasher_Hash a)" t _ "{#}" "{#\<lparr>cstart = a, csize = sz\<rparr>#}"]
  by (simp add: Hasher_Insert_def hasher_inv_def Let_def)

lemma Hasher_Retrieve_Some:
  assumes "hasher_inv t" "Hasher_Retrieve t a = Some sz"
  shows "\<lparr>cstart = a, csize = sz\<rparr> \<in># blocks t"
proof -
  obtain c where c: "chain_find cstart a (t ! unat (Hasher_Hash a)) = Some c" "csize c = sz"
    using assms(2) by (auto simp: Hasher_Retrieve_def)
  then have "c \<in> set (t ! unat (Hasher_Hash a))" "c = \<lparr>cstart = a, csize = sz\<rparr>"
    using chain_find_Some [OF c(1)] by (auto intro: chunk.equality)
  then show ?thesis
    using Hasher_Hash_less [of a] assms(1) by (auto simp: blocks_def hasher_inv_def)
qed

text \<open>Removing a block gives back its size; when there is none, the result is 0.\<close>

lemma Hasher_Remove_blocks:
  assumes "hasher_inv t" "Hasher_Remove t a = (t', sz)"
  shows "hasher_inv t' \<and>
    (case Hasher_Retrieve t a of
       None \<Rightarrow> t' = t \<and> sz = 0
     | Some s \<Rightarrow> sz = s \<and> \<lparr>cstart = a, csize = s\<rparr> \<in># blocks t \<and>
                blocks t' = blocks t - {#\<lparr>cstart = a, csize = s\<rparr>#})"
proof (cases "chain_find cstart a (t ! unat (Hasher_Hash a))")
  case None
  with assms show ?thesis by (simp add: Hasher_Remove_def Hasher_Retrieve_def Let_def)
next
  case (Some c)
  let ?i = "unat (Hasher_Hash a)"
  have c: "c \<in> set (t ! ?i)" "c = \<lparr>cstart = a, csize = csize c\<rparr>"
    using chain_find_Some [OF Some] by (auto intro: chunk.equality)
  have i: "?i < length t" using Hasher_Hash_less [of a] assms(1) by (simp add: hasher_inv_def)
  have "blocks (t[?i := chain_remove cstart a (t ! ?i)]) = blocks t - {#c#} + {#}"
    using c i Some by (intro blocks_update) (simp_all add: chain_remove_mset)
  moreover have "Hasher_Retrieve t a = Some (csize c)"
    using Some by (simp add: Hasher_Retrieve_def)
  ultimately show ?thesis
    using assms Some c Hasher_Retrieve_Some [of t a "csize c"]
    by (auto simp: Hasher_Remove_def Let_def hasher_inv_def)
qed

lemma Hasher_SetSize_blocks:
  assumes "hasher_inv t" "Hasher_Retrieve t a = Some s"
  shows "hasher_inv (Hasher_SetSize t a sz) \<and>
    blocks (Hasher_SetSize t a sz) =
      blocks t - {#\<lparr>cstart = a, csize = s\<rparr>#} + {#\<lparr>cstart = a, csize = sz\<rparr>#}"
proof -
  let ?i = "unat (Hasher_Hash a)"
  obtain c where c: "chain_find cstart a (t ! ?i) = Some c" "csize c = s"
    using assms(2) by (auto simp: Hasher_Retrieve_def)
  then have mem: "c \<in> set (t ! ?i)" "cstart c = a"
    using chain_find_Some [OF c(1)] by auto
  then have eq: "c = \<lparr>cstart = a, csize = s\<rparr>"
    using c by (auto intro: chunk.equality)
  have "?i < length t" using Hasher_Hash_less [of a] assms(1) by (simp add: hasher_inv_def)
  then have "blocks (t[?i := chain_update cstart a (\<lambda>c. c\<lparr>csize := sz\<rparr>) (t ! ?i)]) =
      blocks t - {#c#} + {#c\<lparr>csize := sz\<rparr>#}"
    using mem c by (intro blocks_update) (simp_all add: chain_update_mset)
  then show ?thesis
    using assms(1) eq by (simp add: Hasher_SetSize_def Let_def hasher_inv_def)
qed

lemma blocks_new [simp]: "blocks Hasher_new = {#}"
  by (simp add: blocks_def Hasher_new_def)

lemma blocks_RemoveAll [simp]: "blocks (Hasher_RemoveAll t) = {#}"
  by (simp add: blocks_def Hasher_RemoveAll_def)

lemma hasher_inv_new [simp]: "hasher_inv Hasher_new" "hasher_inv t \<Longrightarrow> hasher_inv (Hasher_RemoveAll t)"
  by (simp_all add: hasher_inv_def Hasher_new_def Hasher_RemoveAll_def)

section \<open>Properties\<close>

text \<open>
  A table of block sizes filled from an empty one answers every lookup like the association
  list of the insertions, latest first, although insertions of colliding keys share buckets; and
  removing a key gives back the size of its latest entry and uncovers the one before it.
\<close>

lemma hasher_answers:
  "Hasher_Retrieve (foldr (\<lambda>(a, s) t. Hasher_Insert t a s) kvs Hasher_new) a = map_of kvs a \<and>
   Hasher_Remove (foldr (\<lambda>(a, s) t. Hasher_Insert t a s) ((a, s) # kvs) Hasher_new) a =
     (foldr (\<lambda>(a, s) t. Hasher_Insert t a s) kvs Hasher_new, s)"
proof
  let ?t = "foldr (\<lambda>(a, s) t. Hasher_Insert t a s) kvs Hasher_new"
  have "Hasher_Retrieve Hasher_new k = None" for k
    using Hasher_Hash_less [of k] by (simp add: Hasher_Retrieve_def Hasher_new_def)
  then show "Hasher_Retrieve ?t a = map_of kvs a"
    by (intro hasher.retrieve_inserts hasher_inv_new)
  have inv: "hasher_inv ?t" by (intro hasher.inv_inserts hasher_inv_new)
  have "fst (Hasher_Remove (Hasher_Insert ?t a s) a) = ?t"
    by (rule hasher.remove_insert [OF inv])
  moreover have "snd (Hasher_Remove (Hasher_Insert ?t a s) a) = s"
    using inv Hasher_Hash_less [of a]
    by (simp add: Hasher_Remove_def Hasher_Insert_def Let_def hasher_inv_def)
  ultimately show "Hasher_Remove (foldr (\<lambda>(a, s) t. Hasher_Insert t a s) ((a, s) # kvs) Hasher_new) a =
      (?t, s)"
    by (simp add: prod_eq_iff)
qed

end
