(* ===== verification/Heap_Area.thy ===== *)
theory Heap_Area
  imports Heap_Hash "HOL-Library.Monad_Syntax"
begin

text \<open>
  The heap of the memory dealer: classes \<^verbatim>\<open>Area\<close> and \<^verbatim>\<open>HeapArea\<close> of
  \<^verbatim>\<open>components/services/MemoryDealer/Heap.cpp\<close> and \<^verbatim>\<open>BMemoryDealer\<close> of its \<^verbatim>\<open>main.cpp\<close>. The
  area is one shared segment; its contents are a function from offsets to bytes. The heap
  lock is a flag: \<^verbatim>\<open>SLocker\<close> does not nest, so locking it again from the same thread never
  returns (the fault \<open>Deadlock\<close>).
\<close>

section \<open>State and faults\<close>

datatype heap_fault = Deadlock | NullDeref | OutOfBounds

record heap_area =
  pageSize :: u32         \<comment> \<open>\<^verbatim>\<open>Area::m_pageSize\<close>, the macro \<^verbatim>\<open>PAGE_SIZE\<close>\<close>
  areaPages :: u32        \<comment> \<open>\<^verbatim>\<open>Area::m_size\<close>\<close>
  freeList :: chunker     \<comment> \<open>\<^verbatim>\<open>HeapArea::m_freeList\<close>\<close>
  allocs :: hasher        \<comment> \<open>\<^verbatim>\<open>HeapArea::m_allocs\<close>\<close>
  mapSize :: u32          \<comment> \<open>\<^verbatim>\<open>HeapArea::m_size\<close>\<close>
  mapped :: "u32 list"    \<comment> \<open>\<^verbatim>\<open>HeapArea::m_mapped\<close>\<close>
  heapLock :: bool        \<comment> \<open>\<^verbatim>\<open>HeapArea::m_heapLock\<close> is held\<close>
  contents :: "u32 \<Rightarrow> u8" \<comment> \<open>the bytes of the segment\<close>

definition errNone :: status_t where
  "errNone = 0"

definition Area_Size :: "heap_area \<Rightarrow> u32" where
  "Area_Size h = areaPages h * pageSize h"

definition Area_ResizeTo :: "u32 \<Rightarrow> u32" where
  "Area_ResizeTo newSize = word_of_int B_UNSUPPORTED"

definition Area_Map :: "u32 \<Rightarrow> u32 \<Rightarrow> status_t" where
  "Area_Map ptr sz = errNone"

definition Area_Unmap :: "u32 \<Rightarrow> u32 \<Rightarrow> status_t" where
  "Area_Unmap ptr sz = errNone"

text \<open>The number of pages \<^verbatim>\<open>Area::Area\<close> asks the system for.\<close>

definition Area_pages :: "u32 \<Rightarrow> u32 \<Rightarrow> u32" where
  "Area_pages page sz =
     (let sz' = (if sz = 0 then 8 * 1024 * 1024 else sz) in (sz' + page - 1) div page)"

section \<open>The map of committed pages\<close>

text \<open>
  \<^verbatim>\<open>MapRequired\<close> and \<^verbatim>\<open>UnmapRequired\<close> are the same loops, one setting and one clearing bits
  (\<open>on\<close>). \<open>skip_zeros\<close> and \<open>count_ones\<close> are the two inner loops that find the next run of
  set bits; the first would not end on 0, which the guard of the loop around it excludes.
  \<open>page_runs\<close> handles the runs of one 32-bit group and \<open>page_loop\<close> the groups. Bit
  counters (at most 32) and page numbers (below \<open>2 ^ 32\<close> divided by the page size) do not
  wrap, so they are \<open>nat\<close>.
\<close>

function skip_zeros :: "u32 \<Rightarrow> nat \<Rightarrow> u32 \<times> nat" where
  "skip_zeros new_bits start =
     (if new_bits \<noteq> 0 \<and> new_bits AND 1 = 0 then skip_zeros (drop_bit 1 new_bits) (Suc start)
      else (new_bits, start))"
  by pat_completeness auto
termination
  by (relation "measure (\<lambda>(b, s). unat b)") (auto intro!: unat_drop_bit_less)

function count_ones :: "u32 \<Rightarrow> nat \<Rightarrow> u32 \<times> nat" where
  "count_ones new_bits len =
     (if new_bits AND 1 \<noteq> 0 then count_ones (drop_bit 1 new_bits) (Suc len) else (new_bits, len))"
  by pat_completeness auto
termination
  by (relation "measure (\<lambda>(b, s). unat b)") (auto intro!: unat_drop_bit_less)


declare skip_zeros.simps [simp del] count_ones.simps [simp del]

function page_runs :: "bool \<Rightarrow> u32 \<Rightarrow> nat \<Rightarrow> u32 \<Rightarrow> nat \<Rightarrow> u32 \<Rightarrow> status_t \<times> u32" where
  "page_runs on page index new_bits start w =
     (if new_bits = 0 then (errNone, w)
      else let (b, st) = skip_zeros new_bits start;
               (b', len) = count_ones b 0;
               ptr = of_nat (index * 32 + st) * page;
               sz = of_nat len * page;
               result = (if on then Area_Map ptr sz else Area_Unmap ptr sz);
               m = (if len = 32 then NOT 0 else push_bit st (push_bit len 1 - 1))
           in if result \<noteq> errNone then (result, w)
              else page_runs on page index b' (st + len) (if on then w OR m else w AND NOT m))"
  by pat_completeness auto

lemma skip_zeros_spec:
  "\<exists>z. skip_zeros b s = (drop_bit z b, s + z) \<and> (\<forall>i<z. \<not> bit b i) \<and> (b \<noteq> 0 \<longrightarrow> bit b z)"
proof (induction b s rule: skip_zeros.induct)
  case (1 b s)
  show ?case
  proof (cases "b \<noteq> 0 \<and> b AND 1 = 0")
    case True
    then obtain n where "bit b n" by (blast elim: word_neq_0_bit)
    then have "bit (drop_bit 1 b) (n - 1)"
      using True by (cases n) (auto simp: word_and_1_eq_0_iff bit_drop_bit_eq)
    then have nz: "drop_bit 1 b \<noteq> 0" by auto
    obtain z where z: "skip_zeros (drop_bit 1 b) (Suc s) = (drop_bit z (drop_bit 1 b), Suc s + z)"
      "\<forall>i<z. \<not> bit (drop_bit 1 b) i" "bit (drop_bit 1 b) z"
      using "1.IH" [OF True] nz by blast
    have "\<forall>i<Suc z. \<not> bit b i"
    proof (intro allI impI)
      fix i assume "i < Suc z"
      then show "\<not> bit b i"
        using z(2) True by (cases i) (auto simp: word_and_1_eq_0_iff bit_drop_bit_eq)
    qed
    then show ?thesis
      using True z by (intro exI [of _ "Suc z"]) (simp add: skip_zeros.simps [of b s] bit_drop_bit_eq)
  next
    case False
    then show ?thesis
      by (intro exI [of _ 0]) (auto simp: skip_zeros.simps [of b s] word_and_1_eq_0_iff)
  qed
qed

lemma count_ones_spec:
  "\<exists>z. count_ones b l = (drop_bit z b, l + z) \<and> (\<forall>i<z. bit b i) \<and> \<not> bit b z"
proof (induction b l rule: count_ones.induct)
  case (1 b l)
  show ?case
  proof (cases "b AND 1 \<noteq> 0")
    case True
    obtain z where z: "count_ones (drop_bit 1 b) (Suc l) = (drop_bit z (drop_bit 1 b), Suc l + z)"
      "\<forall>i<z. bit (drop_bit 1 b) i" "\<not> bit (drop_bit 1 b) z"
      using "1.IH" [OF True] by blast
    have "\<forall>i<Suc z. bit b i"
    proof (intro allI impI)
      fix i assume "i < Suc z"
      then show "bit b i"
        using z(2) True by (cases i) (auto simp: word_and_1_eq_0_iff bit_drop_bit_eq)
    qed
    then show ?thesis
      using True z by (intro exI [of _ "Suc z"]) (simp add: count_ones.simps [of b l] bit_drop_bit_eq)
  next
    case False
    then show ?thesis
      by (intro exI [of _ 0]) (auto simp: count_ones.simps [of b l] word_and_1_eq_0_iff)
  qed
qed

text \<open>One round of the run loop: \<open>z\<close> clear bits are skipped, then \<open>n > 0\<close> set bits counted.\<close>

lemma next_run:
  assumes "b \<noteq> 0"
  obtains z n where "skip_zeros b s = (drop_bit z b, s + z)"
    "count_ones (drop_bit z b) 0 = (drop_bit (z + n) b, n)" "0 < n"
    "\<forall>i<z. \<not> bit b i" "\<forall>i. z \<le> i \<and> i < z + n \<longrightarrow> bit b i"
proof -
  obtain z where z: "skip_zeros b s = (drop_bit z b, s + z)" "\<forall>i<z. \<not> bit b i" "bit b z"
    using skip_zeros_spec assms by blast
  obtain n where n: "count_ones (drop_bit z b) 0 = (drop_bit n (drop_bit z b), n)"
    "\<forall>i<n. bit (drop_bit z b) i" "\<not> bit (drop_bit z b) n"
    using count_ones_spec by (metis add_0)
  have "0 < n"
    using n(3) z(3) by (cases n) (auto simp: bit_drop_bit_eq)
  moreover have "bit b i" if "z \<le> i" "i < z + n" for i
    using n(2) that by (auto simp: bit_drop_bit_eq dest: spec [of _ "i - z"])
  ultimately show thesis
    using that z n by (simp add: add.commute)
qed

lemma next_run_smaller:
  assumes "b \<noteq> 0" "(b1, st) = skip_zeros b s" "(b2, len) = count_ones b1 0"
  shows "unat b2 < unat b"
proof -
  obtain z n where "b1 = drop_bit z b" "b2 = drop_bit (z + n) b" "0 < n"
    using next_run [OF assms(1), of s] assms(2,3) by (metis Pair_inject)
  with assms(1) show ?thesis by (simp add: unat_drop_bit_less)
qed

termination page_runs
  by (relation "measure (\<lambda>(on, page, index, b, s, w). unat b)") (auto intro: next_run_smaller)

declare page_runs.simps [simp del]

text \<open>
  One group: the pages to change are those between \<open>first\<close> and \<open>lastp\<close> whose bit is not yet
  as wanted. An index past the end of \<^verbatim>\<open>m_mapped\<close> is the fault \<open>OutOfBounds\<close>.
\<close>

definition group_mask :: "nat \<Rightarrow> nat \<Rightarrow> u32" where
  "group_mask first lastp =
     (let top_mask = NOT (push_bit (first mod 32) 1 - 1);
          bottom_mask = (if first div 32 = lastp div 32
                         then drop_bit (31 - lastp mod 32) (NOT 0) else NOT 0)
      in top_mask AND bottom_mask)"

function page_loop ::
  "bool \<Rightarrow> u32 \<Rightarrow> nat \<Rightarrow> nat \<Rightarrow> u32 list \<Rightarrow> heap_fault + status_t \<times> u32 list" where
  "page_loop on page first lastp mp =
     (if first \<le> lastp
      then (let index = first div 32 in
            if index \<ge> length mp then Inl OutOfBounds
            else let w = mp ! index;
                     new_pages = group_mask first lastp AND (if on then NOT w else w);
                     (result, w') = page_runs on page index new_pages 0 w
                 in if result \<noteq> errNone then Inr (result, mp[index := w'])
                    else page_loop on page ((first + 32) div 32 * 32) lastp (mp[index := w']))
      else Inr (errNone, mp))"
  by pat_completeness auto
termination
  by (relation "measure (\<lambda>(on, page, first, lastp, mp). Suc lastp - first)") auto

declare page_loop.simps [simp del]

definition page_of :: "u32 \<Rightarrow> u32 \<Rightarrow> nat" where
  "page_of page ptr = unat ((ptr AND NOT (page - 1)) div page)"

definition MapRequired :: "heap_area \<Rightarrow> u32 \<Rightarrow> u32 \<Rightarrow> heap_fault + status_t \<times> heap_area" where
  "MapRequired h ptr sz =
     (if mapSize h \<noteq> 0
      then (case page_loop True (pageSize h) (page_of (pageSize h) ptr)
                   (page_of (pageSize h) (ptr + sz - 1)) (mapped h) of
              Inl f \<Rightarrow> Inl f
            | Inr (result, mp) \<Rightarrow> Inr (result, h\<lparr>mapped := mp\<rparr>))
      else Inr (errNone, h))"

definition UnmapRequired :: "heap_area \<Rightarrow> u32 \<Rightarrow> u32 \<Rightarrow> heap_fault + status_t \<times> heap_area" where
  "UnmapRequired h ptr sz =
     (if mapSize h \<noteq> 0 \<and> sz \<noteq> 0
      then (case page_loop False (pageSize h) (page_of (pageSize h) ptr)
                   (page_of (pageSize h) (ptr + sz - 1)) (mapped h) of
              Inl f \<Rightarrow> Inl f
            | Inr (result, mp) \<Rightarrow> Inr (result, h\<lparr>mapped := mp\<rparr>))
      else Inr (errNone, h))"

section \<open>Heap operations\<close>

definition HeapArea_new :: "u32 \<Rightarrow> u32 \<Rightarrow> u32 \<Rightarrow> bool \<Rightarrow> heap_area" where
  "HeapArea_new page sz quantum isMapped =
     (let pages = Area_pages page sz;
          total = pages * page;
          groups = (if isMapped then 0 else (total div page + 31) div 32)
      in \<lparr>pageSize = page, areaPages = pages,
          freeList = Chunker_new total (sint quantum), allocs = Hasher_new,
          mapSize = groups, mapped = replicate (unat groups) 0, heapLock = False,
          contents = (\<lambda>_. 0)\<rparr>)"

text \<open>
  The tail that \<^verbatim>\<open>Free\<close> and the failure branch of \<^verbatim>\<open>Alloc\<close> share: uncommit the whole pages of
  a range that has just been given back, \<open>region\<close> being the free node it ended up in.
\<close>

definition unmap_freed ::
  "heap_area \<Rightarrow> u32 \<Rightarrow> u32 \<Rightarrow> chunk \<Rightarrow> heap_fault + status_t \<times> heap_area" where
  "unmap_freed h ptr sz reg =
     (let page = pageSize h;
          right = (ptr + sz + (page - 1)) AND NOT (page - 1);
          left = ptr AND NOT (page - 1);
          left = (if left < ptr then left + page else left);
          right = (if cstart reg + csize reg < right then right - page else right)
      in if left < right then UnmapRequired h left (right - left) else Inr (errNone, h))"

definition HeapArea_Alloc :: "heap_area \<Rightarrow> u32 \<Rightarrow> heap_fault + heap_area \<times> u32" where
  "HeapArea_Alloc h sz =
     (if heapLock h then Inl Deadlock
      else
      let (fl, s, p) = Chunker_Alloc (freeList h) sz False 1;
          grown =
            (if s < sz
             then (let abutt = Chunker_PreAbuttance fl (Area_Size h);
                       s = sz - abutt;
                       p = Area_Size h;
                       s = (if s mod pageSize h \<noteq> 0 then (s div pageSize h + 1) * pageSize h else s);
                       i = Area_ResizeTo (s + p)
                   in if i \<noteq> s + p then Inl fl
                      else let (fl, n) = Chunker_Free fl p s;
                               (fl, s, p) = Chunker_Alloc fl sz False 1
                           in if s < sz then Inl fl else Inr (fl, s, p))
             else Inr (fl, s, p))
      in case grown of
           Inl fl \<Rightarrow> Inr (h\<lparr>freeList := fl\<rparr>, NONZERO_NULL)
         | Inr (fl, s, p) \<Rightarrow>
             (case MapRequired (h\<lparr>freeList := fl, allocs := Hasher_Insert (allocs h) p s\<rparr>) p s of
                Inl f \<Rightarrow> Inl f
              | Inr (result, h') \<Rightarrow>
                  if result \<noteq> errNone
                  then (let (al, _) = Hasher_Remove (allocs h') p;
                            (fl', reg) = Chunker_Free (freeList h') p s
                        in case unmap_freed (h'\<lparr>allocs := al, freeList := fl'\<rparr>) p s reg of
                             Inl f \<Rightarrow> Inl f
                           | Inr (_, h'') \<Rightarrow> Inr (h'', NONZERO_NULL))
                  else Inr (h', p)))"

definition HeapArea_Free :: "heap_area \<Rightarrow> u32 \<Rightarrow> heap_fault + heap_area" where
  "HeapArea_Free h ptr =
     (if ptr = NONZERO_NULL then Inr h
      else if heapLock h then Inl Deadlock
      else let (al, sz) = Hasher_Remove (allocs h) ptr in
           if sz \<noteq> 0
           then (let (fl, reg) = Chunker_Free (freeList h) ptr sz
                 in case unmap_freed (h\<lparr>allocs := al, freeList := fl\<rparr>) ptr sz reg of
                      Inl f \<Rightarrow> Inl f
                    | Inr (_, h') \<Rightarrow> Inr h')
           else Inr (h\<lparr>allocs := al\<rparr>))"

definition memmove_bytes :: "(u32 \<Rightarrow> u8) \<Rightarrow> u32 \<Rightarrow> u32 \<Rightarrow> u32 \<Rightarrow> u32 \<Rightarrow> u8" where
  "memmove_bytes mem dst src n = (\<lambda>a. if a - dst < n then mem (src + (a - dst)) else mem a)"

text \<open>
  \<^verbatim>\<open>Realloc\<close> reads through the pointer \<^verbatim>\<open>Retrieve\<close> gives without a test for null. Giving a
  node back to the stash leaves its size field in place, so \<^verbatim>\<open>*size\<close> still is the old size
  after \<^verbatim>\<open>m_allocs.Remove\<close>. The nested \<^verbatim>\<open>Alloc\<close> runs with the lock held.
\<close>

definition HeapArea_Realloc :: "heap_area \<Rightarrow> u32 \<Rightarrow> u32 \<Rightarrow> heap_fault + heap_area \<times> u32" where
  "HeapArea_Realloc h ptr newSize =
     (if ptr = NONZERO_NULL then HeapArea_Alloc h newSize
      else if heapLock h then Inl Deadlock
      else case Hasher_Retrieve (allocs h) ptr of
        None \<Rightarrow> Inl NullDeref
      | Some sz \<Rightarrow>
          if sz \<noteq> 0
          then (let quantizedSize =
                      (newSize + m_quantum (freeList h)) AND m_quantumMask (freeList h)
                in if quantizedSize = sz then Inr (h, ptr)
                   else if quantizedSize < sz
                   then (let (fl, _) = Chunker_Free (freeList h) (ptr + quantizedSize)
                                         (sz - quantizedSize)
                         in Inr (h\<lparr>freeList := fl,
                                   allocs := Hasher_SetSize (allocs h) ptr quantizedSize\<rparr>,
                                 NONZERO_NULL))
                   else (let (al, oldSize) = Hasher_Remove (allocs h) ptr;
                             (fl, _) = Chunker_Free (freeList h) ptr sz
                         in case HeapArea_Alloc
                                   (h\<lparr>allocs := al, freeList := fl, heapLock := True\<rparr>) newSize of
                              Inl f \<Rightarrow> Inl f
                            | Inr (h', newPtr) \<Rightarrow>
                                Inr (h'\<lparr>contents := memmove_bytes (contents h') newPtr ptr oldSize,
                                        heapLock := False\<rparr>, newPtr)))
          else Inr (h, NONZERO_NULL))"

definition HeapArea_Reset :: "heap_area \<Rightarrow> heap_fault + heap_area" where
  "HeapArea_Reset h =
     (if heapLock h then Inl Deadlock
      else case UnmapRequired (h\<lparr>freeList := Chunker_Reset (freeList h) (Area_Size h),
                                allocs := Hasher_RemoveAll (allocs h)\<rparr>) 0 (Area_Size h) of
             Inl f \<Rightarrow> Inl f
           | Inr (_, h') \<Rightarrow> Inr h')"

definition HeapArea_FreeSpace :: "heap_area \<Rightarrow> u32" where
  "HeapArea_FreeSpace h = Chunker_TotalChunkSpace (freeList h)"

definition HeapArea_LargestFree :: "heap_area \<Rightarrow> u32 option" where
  "HeapArea_LargestFree h = Chunker_LargestChunk (freeList h)"

text \<open>
  The dealer hands the offset out as a signed number and takes a negative one for a failure.
  \<open>created\<close> says whether \<^verbatim>\<open>new BMemory\<close> gave an object; a dealer's heap has quantum 32 and is
  not mapped in advance.
\<close>

definition Dealer_new :: "u32 \<Rightarrow> u32 \<Rightarrow> heap_area" where
  "Dealer_new page sz = HeapArea_new page sz 32 False"

definition Dealer_Allocate ::
  "heap_area \<Rightarrow> u32 \<Rightarrow> bool \<Rightarrow> heap_fault + heap_area \<times> (u32 \<times> u32) option" where
  "Dealer_Allocate h sz created =
     (case HeapArea_Alloc h sz of
        Inl f \<Rightarrow> Inl f
      | Inr (h', offset) \<Rightarrow>
          if sint offset < 0 then Inr (h', None)
          else if created then Inr (h', Some (offset, sz))
          else (case HeapArea_Free h' offset of
                  Inl f \<Rightarrow> Inl f
                | Inr h'' \<Rightarrow> Inr (h'', None)))"


section \<open>The map marks exactly the pages of a range\<close>

lemma push_bit_1_minus_1: "push_bit n 1 - 1 = (mask n :: u32)"
  by (simp add: mask_eq_exp_minus_1)

lemma run_split:
  fixes b :: u32
  assumes "\<forall>i<z. \<not> bit b i" "\<forall>i. z \<le> i \<and> i < z + n \<longrightarrow> bit b i"
  shows "push_bit s b = push_bit (s + z) (mask n) OR push_bit (s + z + n) (drop_bit (z + n) b)"
proof (rule bit_word_eqI)
  fix j assume "j < LENGTH(32)"
  then have j: "j < 32" by simp
  have r: "bit (push_bit (s + z + n) (drop_bit (z + n) b)) j \<longleftrightarrow> s + z + n \<le> j \<and> bit b (j - s)"
    using j by (auto simp: bit_simps)
  have run: "bit b (j - s)" if "s + z \<le> j" "j < s + z + n"
    using assms(2) that by (simp add: le_diff_conv2 less_diff_conv2 add.commute add.left_commute)
  consider "j < s" | "s \<le> j" "j - s < z" | "s + z \<le> j" "j < s + z + n" | "s + z + n \<le> j"
    by linarith
  then show "bit (push_bit s b) j \<longleftrightarrow>
      bit (push_bit (s + z) (mask n) OR push_bit (s + z + n) (drop_bit (z + n) b)) j"
    using assms(1) run j r by cases (auto simp: bit_simps)
qed

lemma page_runs_spec:
  assumes "\<forall>i. bit b i \<longrightarrow> s + i < 32"
  shows "page_runs on page index b s w =
     (errNone, if on then w OR push_bit s b else w AND NOT (push_bit s b))"
  using assms
proof (induction on page index b s w rule: page_runs.induct)
  case (1 on page index b s w)
  show ?case
  proof (cases "b = 0")
    case True
    then show ?thesis by (simp add: page_runs.simps)
  next
    case False
    obtain z n where run: "skip_zeros b s = (drop_bit z b, s + z)"
      "count_ones (drop_bit z b) 0 = (drop_bit (z + n) b, n)" "0 < n"
      "\<forall>i<z. \<not> bit b i" "\<forall>i. z \<le> i \<and> i < z + n \<longrightarrow> bit b i"
      using next_run [OF False, of s] by metis
    have "bit b (z + n - 1)" using run(3,5) by simp
    with "1.prems" have "s + (z + n - 1) < 32" by blast
    with run(3) have sum: "s + z + n \<le> 32" by linarith
    define m :: u32 where "m = (if n = 32 then NOT 0 else push_bit (s + z) (push_bit n 1 - 1))"
    have m: "m = push_bit (s + z) (mask n)"
    proof (cases "n = 32")
      case True
      then have "s + z = 0" using sum by simp
      with True show ?thesis
        by (auto simp: m_def bit_simps intro!: bit_word_eqI)
    qed (simp add: m_def push_bit_1_minus_1 del: push_bit_of_1)
    have "\<forall>i. bit (drop_bit (z + n) b) i \<longrightarrow> s + z + n + i < 32"
      using "1.prems" by (auto simp: bit_drop_bit_eq add.assoc)
    then have IH: "page_runs on page index (drop_bit (z + n) b) (s + z + n) (if on then w OR m else w AND NOT m) =
      (errNone, if on then (w OR m) OR push_bit (s + z + n) (drop_bit (z + n) b)
                else (w AND NOT m) AND NOT (push_bit (s + z + n) (drop_bit (z + n) b)))"
      using "1.IH" [OF False run(1)[symmetric] refl run(2)[symmetric] refl refl refl, of "errNone" m]
      by (auto simp: m_def Area_Map_def Area_Unmap_def)
    have "page_runs on page index b s w =
      page_runs on page index (drop_bit (z + n) b) (s + z + n) (if on then w OR m else w AND NOT m)"
      using False run by (simp add: page_runs.simps [of on page index b s w] Area_Map_def Area_Unmap_def m_def)
    with IH show ?thesis
      using run_split [OF run(4,5), of s] by (simp add: m or.assoc and.assoc)
  qed
qed


definition page_bit :: "u32 list \<Rightarrow> nat \<Rightarrow> bool" where
  "page_bit mp p = bit (mp ! (p div 32)) (p mod 32)"

lemma group_mask_bit:
  assumes "i < 32"
  shows "bit (group_mask first lastp) i \<longleftrightarrow>
    first mod 32 \<le> i \<and> (first div 32 = lastp div 32 \<longrightarrow> i \<le> lastp mod 32)"
proof -
  have "bit (NOT (push_bit k 1 - 1) :: u32) i \<longleftrightarrow> k \<le> i" for k
    using assms by (simp only: push_bit_1_minus_1) (auto simp: bit_simps)
  moreover have "bit (drop_bit (31 - lastp mod 32) (NOT 0) :: u32) i \<longleftrightarrow> i \<le> lastp mod 32"
  proof -
    have "lastp mod 32 < 32" by simp
    then have "31 - lastp mod 32 + i < 32 \<longleftrightarrow> i \<le> lastp mod 32" by linarith
    then show ?thesis using assms by (auto simp: bit_simps)
  qed
  ultimately show ?thesis
    using assms by (auto simp: group_mask_def Let_def bit_simps)
qed

text \<open>One round of the outer loop brings the pages of one group that lie in the range to \<open>on\<close>.\<close>

lemma group_step:
  assumes idx: "first div 32 < length mp" and le: "first \<le> lastp"
    and w': "page_runs on page (first div 32)
       (group_mask first lastp AND (if on then NOT (mp ! (first div 32)) else mp ! (first div 32)))
       0 (mp ! (first div 32)) = (r, w')"
  shows "r = errNone \<and> (\<forall>p. p div 32 < length mp \<longrightarrow>
    page_bit (mp[first div 32 := w']) p =
      (if p div 32 = first div 32 \<and> first \<le> p \<and> p \<le> lastp then on else page_bit mp p))"
proof -
  let ?g = "first div 32"
  let ?np = "group_mask first lastp AND (if on then NOT (mp ! ?g) else mp ! ?g)"
  have "page_runs on page ?g ?np 0 (mp ! ?g) =
    (errNone, if on then mp ! ?g OR push_bit 0 ?np else mp ! ?g AND NOT (push_bit 0 ?np))"
    by (rule page_runs_spec) (auto dest: bit_imp_le_length)
  then have r: "r = errNone" and weq: "w' = (if on then mp ! ?g OR ?np else mp ! ?g AND NOT ?np)"
    using w' by (simp_all split: if_splits)
  have bitw: "bit w' i = (if bit (group_mask first lastp) i then on else bit (mp ! ?g) i)" if "i < 32" for i
    using that by (auto simp: weq bit_simps)
  have "page_bit (mp[?g := w']) p =
      (if p div 32 = ?g \<and> first \<le> p \<and> p \<le> lastp then on else page_bit mp p)"
    if "p div 32 < length mp" for p
  proof (cases "p div 32 = ?g")
    case True
    have "first mod 32 \<le> p mod 32 \<longleftrightarrow> first \<le> p"
      using True by (metis mod_le_iff_same_div)
    moreover have "(?g = lastp div 32 \<longrightarrow> p mod 32 \<le> lastp mod 32) \<longleftrightarrow> p \<le> lastp"
    proof (cases "?g = lastp div 32")
      case True2: True
      with True show ?thesis by (metis mod_le_iff_same_div)
    next
      case False
      with le have "p div 32 < lastp div 32"
        using True div_le_mono [of first lastp 32] by simp
      then have "p < lastp" by (metis div_le_mono not_le)
      with False show ?thesis by simp
    qed
    ultimately show ?thesis
      using True idx bitw [of "p mod 32"] group_mask_bit [of "p mod 32" first lastp]
      by (auto simp: page_bit_def)
  qed (use that in \<open>simp add: page_bit_def\<close>)
  with r show ?thesis by blast
qed


lemma page_loop_spec:
  assumes "lastp div 32 < length mp"
  shows "\<exists>mp'. page_loop on page first lastp mp = Inr (errNone, mp') \<and> length mp' = length mp \<and>
    (\<forall>p. p div 32 < length mp \<longrightarrow>
       page_bit mp' p = (if first \<le> p \<and> p \<le> lastp then on else page_bit mp p))"
  using assms
proof (induction on page first lastp mp rule: page_loop.induct)
  case (1 on page first lastp mp)
  show ?case
  proof (cases "first \<le> lastp")
    case False
    then show ?thesis by (auto simp: page_loop.simps)
  next
    case True
    let ?g = "first div 32"
    let ?next = "(first + 32) div 32 * 32"
    have idx: "?g < length mp"
      using True "1.prems" div_le_mono [of first lastp 32] by linarith
    obtain r w' where run: "page_runs on page ?g
       (group_mask first lastp AND (if on then NOT (mp ! ?g) else mp ! ?g)) 0 (mp ! ?g) = (r, w')"
      by fastforce
    note grp = group_step [OF idx True run]
    have step: "page_loop on page first lastp mp = page_loop on page ?next lastp (mp[?g := w'])"
      using True idx run grp by (simp add: page_loop.simps [of on page first lastp mp] Let_def)
    obtain mp' where mp': "page_loop on page ?next lastp (mp[?g := w']) = Inr (errNone, mp')"
      "length mp' = length mp"
      "\<And>p. p div 32 < length mp \<Longrightarrow> page_bit mp' p =
         (if ?next \<le> p \<and> p \<le> lastp then on else page_bit (mp[?g := w']) p)"
      using "1.IH" [OF True refl _ refl refl run [symmetric] refl] True idx grp "1.prems" by auto
    have "page_bit mp' p = (if first \<le> p \<and> p \<le> lastp then on else page_bit mp p)"
      if "p div 32 < length mp" for p
    proof -
      have "?next \<le> p \<or> p div 32 = ?g \<or> p < first"
        using next_group_cases [of first p] by blast
      moreover have "first \<le> ?next" by simp
      ultimately show ?thesis
        using mp'(3) [OF that] grp that by (auto simp: Let_def)
    qed
    then show ?thesis using step mp' by auto
  qed
qed

section \<open>The invariant of the heap\<close>

text \<open>
  The invariant says that every byte of the area is claimed exactly once, that no block
  leaves the area, and, for an area that is not mapped in advance, that every page a live
  block touches is marked.
\<close>

definition lim :: "heap_area \<Rightarrow> nat" where
  "lim h = unat (Area_Size h)"

definition pages_marked :: "heap_area \<Rightarrow> bool" where
  "pages_marked h \<longleftrightarrow>
     (mapSize h \<noteq> 0 \<longrightarrow>
        (\<forall>c\<in>#blocks (allocs h). \<forall>x\<in>region c. page_bit (mapped h) (x div unat (pageSize h))))"

definition geometry_ok :: "nat \<Rightarrow> nat \<Rightarrow> heap_area \<Rightarrow> bool" where
  "geometry_ok k pk h \<longleftrightarrow>
     1 \<le> pk \<and> pk < 32 \<and> pageSize h = push_bit pk 1 \<and>
     unat (areaPages h) * 2 ^ pk + 2 ^ pk + 2 ^ k \<le> 2 ^ 32 \<and>
     (mapSize h \<noteq> 0 \<longrightarrow> unat (areaPages h) \<le> 32 * length (mapped h))"

definition heap_ok :: "nat \<Rightarrow> nat \<Rightarrow> heap_area \<Rightarrow> bool" where
  "heap_ok k pk h \<longleftrightarrow>
     geometry_ok k pk h \<and> \<not> heapLock h \<and> chunker_ok k (lim h) (freeList h) \<and>
     hasher_inv (allocs h) \<and>
     (\<forall>c\<in>#blocks (allocs h). cend c \<le> lim h) \<and>
     (\<forall>x<lim h. owners (bytes (m_freeList (freeList h))) (blocks (allocs h)) x = 1) \<and>
     pages_marked h"

lemma geometry_page:
  assumes "geometry_ok k pk h"
  shows "unat (pageSize h) = 2 ^ pk" "lim h = unat (areaPages h) * 2 ^ pk"
    "lim h + 2 ^ pk + 2 ^ k \<le> 2 ^ 32" "pageSize h - 1 = mask pk"
proof -
  have pk: "pk < 32" and ps: "pageSize h = push_bit pk 1"
    and b: "unat (areaPages h) * 2 ^ pk + 2 ^ pk + 2 ^ k \<le> 2 ^ 32"
    using assms by (auto simp: geometry_ok_def)
  have "(2::nat) ^ pk < 2 ^ 32" using pk by (intro power_strict_increasing) simp_all
  then show u: "unat (pageSize h) = 2 ^ pk"
    using ps pk by (simp add: unat_power_lower_u32)
  have "unat (areaPages h) * 2 ^ pk < 2 ^ 32"
    using b one_le_power [of "2 :: nat" k] one_le_power [of "2 :: nat" pk] by linarith
  then show l: "lim h = unat (areaPages h) * 2 ^ pk"
    using u by (simp add: lim_def Area_Size_def unat_word_ariths)
  show "lim h + 2 ^ pk + 2 ^ k \<le> 2 ^ 32" using b l by simp
  show "pageSize h - 1 = mask pk" using ps by (simp add: mask_eq_exp_minus_1)
qed


lemma geometry_lim:
  assumes "geometry_ok k pk h"
  shows "lim h + 2 ^ pk < 2 ^ 32" "lim h < 2 ^ 32"
proof -
  show "lim h + 2 ^ pk < 2 ^ 32"
    using geometry_page(3) [OF assms] one_le_power [of "2 :: nat" k] by linarith
  then show "lim h < 2 ^ 32" by linarith
qed

subsection \<open>Committing and uncommitting pages\<close>

lemma page_of_eq:
  assumes "geometry_ok k pk h"
  shows "page_of (pageSize h) x = unat x div 2 ^ pk"
  using geometry_page [OF assms] by (simp add: page_of_def unat_div unat_and_not_mask)

lemma page_in_map:
  assumes "geometry_ok k pk h" "mapSize h \<noteq> 0" "x < lim h"
  shows "x div 2 ^ pk div 32 < length (mapped h)"
proof -
  have "x div 2 ^ pk < unat (areaPages h)"
    using assms(3) geometry_page(2) [OF assms(1)] by (simp add: less_mult_imp_div_less)
  also have "\<dots> \<le> 32 * length (mapped h)"
    using assms(1,2) by (simp add: geometry_ok_def)
  finally show ?thesis by (simp add: less_mult_imp_div_less mult.commute)
qed

lemma page_loop_span:
  assumes geo: "geometry_ok k pk h" and ms: "mapSize h \<noteq> 0"
    and sz: "0 < unat sz" and le: "unat ptr + unat sz \<le> lim h"
  shows "\<exists>mp. page_loop on (pageSize h) (page_of (pageSize h) ptr)
        (page_of (pageSize h) (ptr + sz - 1)) (mapped h) = Inr (errNone, mp) \<and>
      length mp = length (mapped h) \<and>
      (\<forall>x<lim h. page_bit mp (x div 2 ^ pk) =
         (if \<exists>y\<in>span ptr sz. y div 2 ^ pk = x div 2 ^ pk then on
          else page_bit (mapped h) (x div 2 ^ pk)))"
proof -
  have "unat (ptr + sz) = unat ptr + unat sz"
    using le geometry_lim(2) [OF geo] by (intro unat_add_no_overflow) simp
  then have pred: "unat (ptr + sz - 1) = unat ptr + unat sz - 1"
    using sz by (simp add: unat_sub_le)
  have "(unat ptr + unat sz - 1) div 2 ^ pk div 32 < length (mapped h)"
    using page_in_map [OF geo ms] le sz by simp
  then obtain mp where mp: "page_loop on (pageSize h) (unat ptr div 2 ^ pk)
        ((unat ptr + unat sz - 1) div 2 ^ pk) (mapped h) = Inr (errNone, mp)"
      "length mp = length (mapped h)"
      "\<And>p. p div 32 < length (mapped h) \<Longrightarrow> page_bit mp p =
         (if unat ptr div 2 ^ pk \<le> p \<and> p \<le> (unat ptr + unat sz - 1) div 2 ^ pk then on
          else page_bit (mapped h) p)"
    using page_loop_spec by blast
  have "page_bit mp (x div 2 ^ pk) = (if \<exists>y\<in>span ptr sz. y div 2 ^ pk = x div 2 ^ pk then on
          else page_bit (mapped h) (x div 2 ^ pk))" if "x < lim h" for x
    using mp(3) [OF page_in_map [OF geo ms that]] sz
      pages_of_span [of "unat sz" "2 ^ pk" "unat ptr" "x div 2 ^ pk"]
    by (simp add: span_def)
  with mp pred show ?thesis by (simp add: page_of_eq [OF geo])
qed

lemma MapRequired_span:
  assumes "geometry_ok k pk h" "0 < unat sz" "unat ptr + unat sz \<le> lim h"
  shows "\<exists>mp. MapRequired h ptr sz = Inr (errNone, h\<lparr>mapped := mp\<rparr>) \<and> length mp = length (mapped h) \<and>
    (mapSize h \<noteq> 0 \<longrightarrow> (\<forall>x<lim h. page_bit mp (x div 2 ^ pk) \<longleftrightarrow>
       (\<exists>y\<in>span ptr sz. y div 2 ^ pk = x div 2 ^ pk) \<or> page_bit (mapped h) (x div 2 ^ pk)))"
proof (cases "mapSize h = 0")
  case True
  then show ?thesis by (intro exI [of _ "mapped h"]) (simp add: MapRequired_def)
next
  case False
  obtain mp where "page_loop True (pageSize h) (page_of (pageSize h) ptr)
      (page_of (pageSize h) (ptr + sz - 1)) (mapped h) = Inr (errNone, mp)"
    "length mp = length (mapped h)"
    "\<forall>x<lim h. page_bit mp (x div 2 ^ pk) =
       (if \<exists>y\<in>span ptr sz. y div 2 ^ pk = x div 2 ^ pk then True
        else page_bit (mapped h) (x div 2 ^ pk))"
    using page_loop_span [OF assms(1) False assms(2,3), of True] by blast
  then show ?thesis
    using False by (intro exI [of _ mp]) (auto simp: MapRequired_def)
qed

lemma UnmapRequired_span:
  assumes "geometry_ok k pk h" "unat ptr + unat sz \<le> lim h"
  shows "\<exists>mp. UnmapRequired h ptr sz = Inr (errNone, h\<lparr>mapped := mp\<rparr>) \<and> length mp = length (mapped h) \<and>
    (mapSize h \<noteq> 0 \<longrightarrow> (\<forall>x<lim h. page_bit mp (x div 2 ^ pk) \<longleftrightarrow>
       \<not> (\<exists>y\<in>span ptr sz. y div 2 ^ pk = x div 2 ^ pk) \<and> page_bit (mapped h) (x div 2 ^ pk)))"
proof (cases "mapSize h = 0 \<or> sz = 0")
  case True
  then show ?thesis
    by (intro exI [of _ "mapped h"]) (auto simp: UnmapRequired_def span_def)
next
  case False
  then have "mapSize h \<noteq> 0" "0 < unat sz" by (simp_all add: unat_gt_0)
  then obtain mp where "page_loop False (pageSize h) (page_of (pageSize h) ptr)
      (page_of (pageSize h) (ptr + sz - 1)) (mapped h) = Inr (errNone, mp)"
    "length mp = length (mapped h)"
    "\<forall>x<lim h. page_bit mp (x div 2 ^ pk) =
       (if \<exists>y\<in>span ptr sz. y div 2 ^ pk = x div 2 ^ pk then False
        else page_bit (mapped h) (x div 2 ^ pk))"
    using page_loop_span [OF assms(1) _ _ assms(2), of False] by blast
  then show ?thesis
    using False by (intro exI [of _ mp]) (auto simp: UnmapRequired_def)
qed

text \<open>
  The pages \<^verbatim>\<open>Free\<close> uncommits lie wholly inside the free node the range ended up in, so no
  page that a block outside that node touches is lost.
\<close>

lemma whole_pages:
  fixes x y l r m :: nat
  assumes "y div m = x div m" "l * m \<le> y" "y < r * m" "0 < m"
  shows "l * m \<le> x \<and> x < r * m"
  using assms by (metis div_less_iff_less_mult less_eq_div_iff_mult_less_eq)

lemma round_right:
  fixes e x m :: nat
  assumes "0 < m" "e \<le> x"
  defines "r \<equiv> (e + (m - 1)) div m"
  shows "(if x < r * m then r - 1 else r) * m \<le> x"
proof -
  have "r * m \<le> e + (m - 1)" unfolding r_def by (rule div_times_less_eq_dividend)
  then have "(r - 1) * m \<le> x" if "x < r * m"
    using assms(1,2) by (simp add: diff_mult_distrib)
  then show ?thesis by auto
qed

lemma freed_page_bounds:
  assumes geo: "geometry_ok k pk h" and le: "unat ptr + unat sz \<le> cend reg" "cend reg \<le> lim h"
  defines "page \<equiv> pageSize h"
  defines "right \<equiv> (ptr + sz + (page - 1)) AND NOT (page - 1)"
  defines "left \<equiv> ptr AND NOT (page - 1)"
  shows "\<exists>l. unat (if left < ptr then left + page else left) = l * 2 ^ pk \<and> unat ptr \<le> l * 2 ^ pk"
    and "\<exists>r. unat (if cstart reg + csize reg < right then right - page else right) = r * 2 ^ pk \<and>
           r * 2 ^ pk \<le> cend reg"
proof -
  let ?P = "2 ^ pk :: nat"
  have page: "page - 1 = mask pk" "unat page = ?P" and P: "0 < ?P"
    using geometry_page [OF geo] by (simp_all add: page_def)
  have pm: "unat (mask pk :: u32) = ?P - 1" using geo by (simp add: unat_mask_u32 geometry_ok_def)
  note lim = geometry_lim [OF geo]
  have L: "unat left = unat ptr div ?P * ?P"
    by (simp add: left_def page(1) unat_and_not_mask)
  then have "unat left \<le> unat ptr" by (simp add: div_times_less_eq_dividend)
  then have "unat left + unat page < 2 ^ 32"
    using page(2) le lim by linarith
  then have "unat (left + page) = (unat ptr div ?P + 1) * ?P"
    using L page(2) by (simp add: unat_add_no_overflow)
  moreover have "unat ptr \<le> (unat ptr div ?P + 1) * ?P"
    using P by (metis Suc_eq_plus1 dividend_less_div_times add.commute less_imp_le mult_Suc mult.commute)
  ultimately show "\<exists>l. unat (if left < ptr then left + page else left) = l * ?P \<and> unat ptr \<le> l * ?P"
    using L by (auto simp: word_less_nat_alt intro: exI [of _ "unat ptr div ?P + 1"]
        exI [of _ "unat ptr div ?P"])
  define r where "r = (unat ptr + unat sz + (?P - 1)) div ?P"
  have "unat (ptr + sz + mask pk) = unat ptr + unat sz + (?P - 1)"
    using le lim P pm by (simp add: unat_add_no_overflow)
  then have R: "unat right = r * ?P"
    by (simp add: right_def page(1) unat_and_not_mask r_def)
  have ce: "unat (cstart reg + csize reg) = cend reg"
    using cend_word [of reg "lim h"] le(2) lim(2) by simp
  have "unat (right - page) = (r - 1) * ?P" if "cend reg < r * ?P"
  proof -
    have "0 < r" using that by (cases r) auto
    then have "unat page \<le> unat right" using R page(2) by simp
    then show ?thesis using R page(2) by (simp add: unat_sub_le diff_mult_distrib)
  qed
  moreover have "(if cend reg < r * ?P then r - 1 else r) * ?P \<le> cend reg"
    unfolding r_def by (rule round_right [OF P le(1)])
  ultimately show "\<exists>r. unat (if cstart reg + csize reg < right then right - page else right) = r * ?P \<and>
           r * ?P \<le> cend reg"
    using R ce by (intro exI [of _ "if cend reg < r * ?P then r - 1 else r"])
      (auto simp: word_less_nat_alt split: if_splits)
qed

lemma unmap_freed_spec:
  assumes geo: "geometry_ok k pk h"
    and reg: "unat (cstart reg) \<le> unat ptr" "unat ptr + unat sz \<le> cend reg" "cend reg \<le> lim h"
  shows "\<exists>mp. unmap_freed h ptr sz reg = Inr (errNone, h\<lparr>mapped := mp\<rparr>) \<and>
    length mp = length (mapped h) \<and>
    (mapSize h \<noteq> 0 \<longrightarrow> (\<forall>x<lim h. x \<notin> region reg \<longrightarrow>
       page_bit (mapped h) (x div 2 ^ pk) \<longrightarrow> page_bit mp (x div 2 ^ pk)))"
proof -
  let ?P = "2 ^ pk :: nat"
  define right where "right = (let r = (ptr + sz + (pageSize h - 1)) AND NOT (pageSize h - 1)
    in if cstart reg + csize reg < r then r - pageSize h else r)"
  define left where "left = (let l = ptr AND NOT (pageSize h - 1) in if l < ptr then l + pageSize h else l)"
  obtain l where l: "unat left = l * ?P" "unat ptr \<le> l * ?P"
    using freed_page_bounds(1) [OF geo reg(2,3)] by (auto simp: left_def Let_def)
  obtain r where r: "unat right = r * ?P" "r * ?P \<le> cend reg"
    using freed_page_bounds(2) [OF geo reg(2,3)] by (auto simp: right_def Let_def)
  have eq: "unmap_freed h ptr sz reg =
      (if left < right then UnmapRequired h left (right - left) else Inr (errNone, h))"
    by (simp add: unmap_freed_def left_def right_def Let_def)
  show ?thesis
  proof (cases "left < right")
    case True
    then have d: "unat left + unat (right - left) = unat right"
      by (simp add: unat_sub_le word_less_nat_alt)
    then have "unat left + unat (right - left) \<le> lim h" using r reg(3) by simp
    note u = UnmapRequired_span [OF geo this]
    have "x \<in> region reg" if "y \<in> span left (right - left)" "y div ?P = x div ?P" for x y
      using that whole_pages [of y ?P x l r] l r reg(1) d by (auto simp: span_def region_def)
    moreover obtain mp where "UnmapRequired h left (right - left) = Inr (errNone, h\<lparr>mapped := mp\<rparr>)"
      "length mp = length (mapped h)"
      "mapSize h \<noteq> 0 \<Longrightarrow> \<forall>x<lim h. page_bit mp (x div ?P) \<longleftrightarrow>
         \<not> (\<exists>y\<in>span left (right - left). y div ?P = x div ?P) \<and> page_bit (mapped h) (x div ?P)"
      using u by blast
    ultimately show ?thesis using eq True by (intro exI [of _ mp]) auto
  next
    case False
    then show ?thesis using eq by (intro exI [of _ "mapped h"]) simp
  qed
qed


subsection \<open>Every operation keeps the invariant\<close>

lemma lim_update [simp]:
  "lim (h\<lparr>freeList := fl\<rparr>) = lim h" "lim (h\<lparr>allocs := al\<rparr>) = lim h"
  "lim (h\<lparr>mapped := mp\<rparr>) = lim h" "lim (h\<lparr>contents := m\<rparr>) = lim h"
  by (simp_all add: lim_def Area_Size_def)

lemma geometry_update [simp]:
  "geometry_ok k pk (h\<lparr>freeList := fl\<rparr>) = geometry_ok k pk h"
  "geometry_ok k pk (h\<lparr>allocs := al\<rparr>) = geometry_ok k pk h"
  "geometry_ok k pk (h\<lparr>contents := m\<rparr>) = geometry_ok k pk h"
  "length mp = length (mapped h) \<Longrightarrow> geometry_ok k pk (h\<lparr>mapped := mp\<rparr>) = geometry_ok k pk h"
  by (simp_all add: geometry_ok_def)

lemma resize_refused:
  assumes "geometry_ok k pk h"
  shows "Area_ResizeTo x \<noteq>
    (if s mod pageSize h \<noteq> 0 then (s div pageSize h + 1) * pageSize h else s) + Area_Size h"
proof -
  have page: "even (pageSize h)"
    using assms by (auto simp: geometry_ok_def)
  have "even s" if "s mod pageSize h = 0"
    using page that by (meson dvd_trans mod_0_imp_dvd)
  then have "even (if s mod pageSize h \<noteq> 0 then (s div pageSize h + 1) * pageSize h else s)"
    using page by (cases "s mod pageSize h = 0") simp_all
  moreover have "even (Area_Size h)"
    using page by (simp add: Area_Size_def)
  moreover have "odd (Area_ResizeTo x)"
    by (simp add: Area_ResizeTo_def B_UNSUPPORTED_def bit_0 [symmetric])
  ultimately show ?thesis by (metis even_add)
qed

lemma pages_markedD:
  assumes "pages_marked h" "geometry_ok k pk h" "mapSize h \<noteq> 0" "c \<in># blocks (allocs h)" "x \<in> region c"
  shows "page_bit (mapped h) (x div 2 ^ pk)"
  using assms geometry_page(1) [OF assms(2)] by (auto simp: pages_marked_def)

lemma HeapArea_Alloc_fits:
  assumes ok: "heap_ok k pk h" and n: "0 < unat n"
    and alloc: "Chunker_Alloc (freeList h) n False 1 = (fl, s, p)" and fits: "n \<le> s"
  shows "\<exists>h'. HeapArea_Alloc h n = Inr (h', p) \<and> heap_ok k pk h' \<and> lim h' = lim h \<and>
    blocks (allocs h') = add_mset \<lparr>cstart = p, csize = s\<rparr> (blocks (allocs h)) \<and>
    unat p + unat s \<le> lim h \<and> freeList h' = fl \<and> allocs h' = Hasher_Insert (allocs h) p s"
proof -
  let ?h = "h\<lparr>freeList := fl, allocs := Hasher_Insert (allocs h) p s\<rparr>"
  have h: "geometry_ok k pk h" "\<not> heapLock h" "chunker_ok k (lim h) (freeList h)"
    "hasher_inv (allocs h)" "\<forall>c\<in>#blocks (allocs h). cend c \<le> lim h"
    "\<forall>x<lim h. owners (bytes (m_freeList (freeList h))) (blocks (allocs h)) x = 1" "pages_marked h"
    using ok by (auto simp: heap_ok_def)
  note t = chunks.alloc_takes [OF h(3) n alloc fits] and o = chunks.owners_alloc [OF h(3) n alloc fits]
  have B: "blocks (allocs ?h) = add_mset \<lparr>cstart = p, csize = s\<rparr> (blocks (allocs h))"
    using h(4) by (simp add: blocks_Insert)
  have s: "0 < unat s" using n fits by (simp add: word_le_nat_alt)
  obtain mp where mp: "MapRequired ?h p s = Inr (errNone, ?h\<lparr>mapped := mp\<rparr>)"
    "length mp = length (mapped h)"
    "mapSize h \<noteq> 0 \<Longrightarrow> \<forall>x<lim h. page_bit mp (x div 2 ^ pk) \<longleftrightarrow>
       (\<exists>y\<in>span p s. y div 2 ^ pk = x div 2 ^ pk) \<or> page_bit (mapped h) (x div 2 ^ pk)"
    using MapRequired_span [of k pk ?h s p] h(1) s t by auto
  have "pages_marked (?h\<lparr>mapped := mp\<rparr>)"
    unfolding pages_marked_def
  proof (intro impI ballI, goal_cases)
    case (1 c x)
    then have ms: "mapSize h \<noteq> 0" by simp
    have c: "c = \<lparr>cstart = p, csize = s\<rparr> \<or> c \<in># blocks (allocs h)" using 1(2) B by auto
    have "x < lim h"
      using c 1(3) t h(5) by (auto simp: region_def span_def)
    moreover have "x \<in> span p s \<or> page_bit (mapped h) (x div 2 ^ pk)"
      using c 1(3) pages_markedD [OF h(7,1) ms] by auto
    ultimately show ?case using mp(3) [OF ms] geometry_page(1) [OF h(1)] by auto
  qed
  then have "heap_ok k pk (?h\<lparr>mapped := mp\<rparr>)"
    using h t o mp(2) B hasher.inv_insert [OF h(4)] by (auto simp: heap_ok_def)
  moreover have "HeapArea_Alloc h n = Inr (?h\<lparr>mapped := mp\<rparr>, p)"
    using alloc leD [OF fits] h(2) mp(1) by (simp add: HeapArea_Alloc_def)
  ultimately show ?thesis using B t by auto
qed

lemma HeapArea_Alloc_refused:
  assumes ok: "heap_ok k pk h" and n: "0 < unat n"
    and none: "\<not> (\<exists>c\<in>set (m_freeList (freeList h)). n \<le> csize c)"
  shows "HeapArea_Alloc h n = Inr (h, NONZERO_NULL)"
proof -
  have geo: "geometry_ok k pk h" and l: "\<not> heapLock h" using ok by (auto simp: heap_ok_def)
  have "0 < n" using n by (simp add: word_less_nat_alt)
  then show ?thesis
    using l Chunker_Alloc_fails [OF none, of 1] resize_refused [OF geo]
    by (simp add: HeapArea_Alloc_def Let_def)
qed


text \<open>Giving a range back: the common part of \<^verbatim>\<open>Free\<close> and of shrinking in \<^verbatim>\<open>Realloc\<close>.\<close>

lemma block_release:
  assumes ok: "heap_ok k pk h" and c: "\<lparr>cstart = p, csize = s\<rparr> \<in># blocks (allocs h)"
    and n: "0 < unat n" "span q n \<subseteq> span p s"
    and free: "Chunker_Free (freeList h) q n = (fl, reg)"
  shows "chunker_ok k (lim h) fl" "span q n \<inter> bytes (m_freeList (freeList h)) = {}"
    "bytes (m_freeList fl) = bytes (m_freeList (freeList h)) \<union> span q n"
    "span q n \<subseteq> region reg" "region reg \<subseteq> bytes (m_freeList fl)" "unat q + unat n \<le> lim h"
proof -
  have h: "chunker_ok k (lim h) (freeList h)" "cend \<lparr>cstart = p, csize = s\<rparr> \<le> lim h"
    "\<forall>x<lim h. owners (bytes (m_freeList (freeList h))) (blocks (allocs h)) x = 1"
    using ok c by (auto simp: heap_ok_def)
  have le: "unat p \<le> unat q" "unat q + unat n \<le> unat p + unat s"
    using n by (auto simp: span_def)
  then show lim: "unat q + unat n \<le> lim h" using h(2) by simp
  show d: "span q n \<inter> bytes (m_freeList (freeList h)) = {}"
  proof (rule ccontr)
    assume "span q n \<inter> bytes (m_freeList (freeList h)) \<noteq> {}"
    then obtain x where x: "x \<in> span q n" "x \<in> bytes (m_freeList (freeList h))" by blast
    then have "x \<in> region \<lparr>cstart = p, csize = s\<rparr>" "x < lim h"
      using n(2) h(2) by (auto simp: span_def)
    with block_not_free [OF _ c, of _ x] h(3) x(2) show False by blast
  qed
  show "chunker_ok k (lim h) fl" "bytes (m_freeList fl) = bytes (m_freeList (freeList h)) \<union> span q n"
    "span q n \<subseteq> region reg" "region reg \<subseteq> bytes (m_freeList fl)"
    using chunks.release_gives [OF h(1) n(1) lim d free] by auto
qed

lemma unmap_freed_keeps:
  assumes ok: "heap_ok k pk h" and mem: "region reg \<subseteq> bytes (m_freeList (freeList h))"
    and reg: "span p s \<subseteq> region reg" "0 < unat s"
  shows "\<exists>mp. unmap_freed h p s reg = Inr (errNone, h\<lparr>mapped := mp\<rparr>) \<and> heap_ok k pk (h\<lparr>mapped := mp\<rparr>)"
proof -
  have h: "geometry_ok k pk h" "chunker_ok k (lim h) (freeList h)"
    "\<forall>c\<in>#blocks (allocs h). cend c \<le> lim h"
    "\<forall>x<lim h. owners (bytes (m_freeList (freeList h))) (blocks (allocs h)) x = 1" "pages_marked h"
    using ok by (auto simp: heap_ok_def)
  have p: "unat (cstart reg) \<le> unat p" "unat p + unat s \<le> cend reg"
    using reg by (auto simp: span_def region_def)
  moreover have "cend reg - 1 \<in> region reg" using p reg(2) by (auto simp: region_def)
  then have "cend reg - 1 < lim h"
    using mem bytes_bounded [of "lim h"] h(2) unfolding chunker_ok_def by blast
  then have "cend reg \<le> lim h" by simp
  ultimately obtain mp where mp: "unmap_freed h p s reg = Inr (errNone, h\<lparr>mapped := mp\<rparr>)"
    "length mp = length (mapped h)"
    "mapSize h \<noteq> 0 \<Longrightarrow> \<forall>x<lim h. x \<notin> region reg \<longrightarrow>
       page_bit (mapped h) (x div 2 ^ pk) \<longrightarrow> page_bit mp (x div 2 ^ pk)"
    using unmap_freed_spec [OF h(1)] by blast
  have "pages_marked (h\<lparr>mapped := mp\<rparr>)"
    unfolding pages_marked_def
  proof (intro impI ballI, goal_cases)
    case (1 c x)
    then have c: "mapSize h \<noteq> 0" "c \<in># blocks (allocs h)" "x \<in> region c" by simp_all
    then have x: "x < lim h" using h(3) by (auto simp: region_def)
    then have "x \<notin> bytes (m_freeList (freeList h))"
      using block_not_free [OF _ c(2,3)] h(4) by blast
    then have "x \<notin> region reg" using mem by blast
    then show ?case
      using mp(3) [OF c(1)] x pages_markedD [OF h(5,1) c] geometry_page(1) [OF h(1)] by simp
  qed
  then have "heap_ok k pk (h\<lparr>mapped := mp\<rparr>)"
    using ok mp(2) by (auto simp: heap_ok_def)
  with mp(1) show ?thesis by blast
qed

lemma heap_ok_retrieve:
  assumes "heap_ok k pk h" "Hasher_Retrieve (allocs h) p = Some s"
  shows "\<lparr>cstart = p, csize = s\<rparr> \<in># blocks (allocs h)" "unat p + unat s \<le> lim h" "p \<noteq> NONZERO_NULL"
proof -
  show b: "\<lparr>cstart = p, csize = s\<rparr> \<in># blocks (allocs h)"
    using assms Hasher_Retrieve_Some by (auto simp: heap_ok_def)
  then show le: "unat p + unat s \<le> lim h"
    using assms(1) by (auto simp: heap_ok_def)
  have "lim h + 2 ^ pk < 2 ^ 32"
    using assms(1) geometry_lim(1) by (auto simp: heap_ok_def)
  then have "lim h + 1 < 2 ^ 32" using one_le_power [of "2 :: nat" pk] by linarith
  then show "p \<noteq> NONZERO_NULL"
    using le by (auto simp: NONZERO_NULL_def)
qed

lemma HeapArea_Free_known:
  assumes ok: "heap_ok k pk h" and s: "Hasher_Retrieve (allocs h) p = Some s"
  shows "\<exists>h'. HeapArea_Free h p = Inr h' \<and> heap_ok k pk h' \<and> lim h' = lim h \<and>
    blocks (allocs h') = blocks (allocs h) - {#\<lparr>cstart = p, csize = s\<rparr>#} \<and>
    bytes (m_freeList (freeList h')) = bytes (m_freeList (freeList h)) \<union> span p s \<and>
    allocs h' = fst (Hasher_Remove (allocs h) p) \<and>
    (s \<noteq> 0 \<longrightarrow> freeList h' = fst (Chunker_Free (freeList h) p s))"
proof -
  note b = heap_ok_retrieve [OF ok s]
  have h: "hasher_inv (allocs h)" "\<not> heapLock h" "chunker_ok k (lim h) (freeList h)"
    using ok by (auto simp: heap_ok_def)
  obtain al where rm: "Hasher_Remove (allocs h) p = (al, s)" "hasher_inv al"
      "blocks al = blocks (allocs h) - {#\<lparr>cstart = p, csize = s\<rparr>#}"
    using Hasher_Remove_blocks [OF h(1), of p] s by (cases "Hasher_Remove (allocs h) p") auto
  have sub: "c \<in># blocks (allocs h)" if "c \<in># blocks al" for c
    using that rm(3) by (auto dest: in_diffD)
  show ?thesis
  proof (cases "s = 0")
    case True
    have "owners F (blocks al) x = owners F (blocks (allocs h)) x" for F x
      using b(1) True by (auto simp: owners_def rm(3) span_def filter_diff_mset)
    then have "heap_ok k pk (h\<lparr>allocs := al\<rparr>)"
      using ok rm(2) sub by (auto simp: heap_ok_def pages_marked_def)
    moreover have "HeapArea_Free h p = Inr (h\<lparr>allocs := al\<rparr>)"
      using h(2) b(3) rm(1) True by (simp add: HeapArea_Free_def)
    ultimately show ?thesis using True rm by (auto simp: span_def)
  next
    case False
    then have pos: "0 < unat s" by (simp add: unat_gt_0)
    obtain fl reg where free: "Chunker_Free (freeList h) p s = (fl, reg)" by fastforce
    note r = block_release [OF ok b(1) pos subset_refl free]
    let ?h = "h\<lparr>allocs := al, freeList := fl\<rparr>"
    have "owners (bytes (m_freeList fl)) (blocks al) x =
        owners (bytes (m_freeList (freeList h))) (blocks (allocs h)) x" for x
      using chunks.owners_release [OF h(3) pos b(2) r(2) free b(1)] rm(3) by simp
    then have "heap_ok k pk ?h"
      using ok rm(2) sub r(1) by (auto simp: heap_ok_def pages_marked_def)
    then obtain mp where mp: "unmap_freed ?h p s reg = Inr (errNone, ?h\<lparr>mapped := mp\<rparr>)"
        "heap_ok k pk (?h\<lparr>mapped := mp\<rparr>)"
      using unmap_freed_keeps [of k pk ?h reg p s] r(4,5) pos by auto
    have "HeapArea_Free h p = Inr (?h\<lparr>mapped := mp\<rparr>)"
      using h(2) b(3) rm(1) free mp(1) False by (simp add: HeapArea_Free_def)
    with mp(2) r(3) rm free show ?thesis by auto
  qed
qed

lemma HeapArea_Free_unknown:
  assumes "heap_ok k pk h" "Hasher_Retrieve (allocs h) p = None"
  shows "HeapArea_Free h p = Inr h"
proof (cases "Hasher_Remove (allocs h) p")
  case (Pair al sz)
  then have "al = allocs h" "sz = 0"
    using Hasher_Remove_blocks [of "allocs h" p] assms by (auto simp: heap_ok_def)
  then show ?thesis
    using assms(1) Pair by (simp add: HeapArea_Free_def heap_ok_def)
qed

lemma span_shrink:
  assumes "q < s" "unat p + unat s < 2 ^ 32"
  shows "span (p + q) (s - q) = {unat p + unat q..<unat p + unat s}" "0 < unat (s - q)"
proof -
  have "unat q < unat s" using assms(1) by (simp add: word_less_nat_alt)
  moreover from this have "unat (s - q) = unat s - unat q" "unat (p + q) = unat p + unat q"
    using assms(2) by (simp_all add: unat_sub_le unat_add_no_overflow)
  ultimately show "span (p + q) (s - q) = {unat p + unat q..<unat p + unat s}" "0 < unat (s - q)"
    by (auto simp: span_def)
qed

lemma HeapArea_Realloc_shrinks:
  assumes ok: "heap_ok k pk h" and s: "Hasher_Retrieve (allocs h) p = Some s"
    and q: "q = (n + m_quantum (freeList h)) AND m_quantumMask (freeList h)" "q < s"
  shows "\<exists>h'. HeapArea_Realloc h p n = Inr (h', NONZERO_NULL) \<and> heap_ok k pk h' \<and> lim h' = lim h \<and>
    blocks (allocs h') = blocks (allocs h) - {#\<lparr>cstart = p, csize = s\<rparr>#} + {#\<lparr>cstart = p, csize = q\<rparr>#}"
proof -
  note b = heap_ok_retrieve [OF ok s]
  have h: "hasher_inv (allocs h)" "\<not> heapLock h" "geometry_ok k pk h"
    "\<forall>c\<in>#blocks (allocs h). cend c \<le> lim h" "pages_marked h"
    "\<forall>x<lim h. owners (bytes (m_freeList (freeList h))) (blocks (allocs h)) x = 1"
    using ok by (auto simp: heap_ok_def)
  define al where "al = Hasher_SetSize (allocs h) p q"
  obtain B where B: "blocks (allocs h) = add_mset \<lparr>cstart = p, csize = s\<rparr> B"
    using b(1) by (metis insert_DiffM)
  have al: "hasher_inv al" "blocks al = add_mset \<lparr>cstart = p, csize = q\<rparr> B"
    using Hasher_SetSize_blocks [OF h(1) s, of q] B by (simp_all add: al_def)
  have u: "unat q < unat s" using q(2) by (simp add: word_less_nat_alt)
  have "unat p + unat s < 2 ^ 32" using b(2) geometry_lim(2) [OF h(3)] by linarith
  note sp = span_shrink [OF q(2) this]
  have sub: "span (p + q) (s - q) \<subseteq> span p s" "region \<lparr>cstart = p, csize = q\<rparr> \<subseteq> span p s"
    using sp(1) u by (auto simp: span_def)
  obtain fl reg where free: "Chunker_Free (freeList h) (p + q) (s - q) = (fl, reg)" by fastforce
  note r = block_release [OF ok b(1) sp(2) sub(1) free]
  have "owners (bytes (m_freeList fl)) (blocks al) x =
      owners (bytes (m_freeList (freeList h))) (blocks (allocs h)) x" for x
    using r(2,3) sp(1) u by (auto simp: owners_def B al(2) span_def)
  moreover have "\<forall>c\<in>#blocks al. cend c \<le> lim h"
    using h(4) u by (auto simp: B al(2))
  moreover have "pages_marked (h\<lparr>freeList := fl, allocs := al\<rparr>)"
    using h(5) sub(2) by (auto simp: pages_marked_def B al(2))
  ultimately have "heap_ok k pk (h\<lparr>freeList := fl, allocs := al\<rparr>)"
    using ok r(1) al(1) by (simp add: heap_ok_def)
  moreover have "HeapArea_Realloc h p n = Inr (h\<lparr>freeList := fl, allocs := al\<rparr>, NONZERO_NULL)"
    using b(3) h(2) s u free q by (auto simp: HeapArea_Realloc_def Let_def al_def)
  ultimately show ?thesis using al(2) B by auto
qed

lemma HeapArea_Realloc_grows:
  assumes ok: "heap_ok k pk h" and s: "Hasher_Retrieve (allocs h) p = Some s" "s \<noteq> 0"
    and q: "s < (n + m_quantum (freeList h)) AND m_quantumMask (freeList h)"
  shows "HeapArea_Realloc h p n = Inl Deadlock"
  using assms heap_ok_retrieve(3) [OF ok s(1)]
  by (auto simp: HeapArea_Realloc_def HeapArea_Alloc_def heap_ok_def Let_def split: prod.splits)

lemma HeapArea_Realloc_same:
  assumes ok: "heap_ok k pk h" and s: "Hasher_Retrieve (allocs h) p = Some s" "s \<noteq> 0"
    and q: "(n + m_quantum (freeList h)) AND m_quantumMask (freeList h) = s"
  shows "HeapArea_Realloc h p n = Inr (h, p)"
  using assms heap_ok_retrieve(3) [OF ok s(1)]
  by (auto simp: HeapArea_Realloc_def heap_ok_def Let_def)

lemma HeapArea_Realloc_unknown:
  assumes ok: "heap_ok k pk h" and s: "Hasher_Retrieve (allocs h) p = None" "p \<noteq> NONZERO_NULL"
  shows "HeapArea_Realloc h p n = Inl NullDeref"
  using assms by (simp add: HeapArea_Realloc_def heap_ok_def)

lemma HeapArea_Realloc_empty:
  assumes ok: "heap_ok k pk h" and s: "Hasher_Retrieve (allocs h) p = Some 0"
  shows "HeapArea_Realloc h p n = Inr (h, NONZERO_NULL)"
  using assms heap_ok_retrieve(3) [OF ok s(1)] by (simp add: HeapArea_Realloc_def heap_ok_def)

lemma Chunker_Reset_ok:
  assumes "quantum_ok k ck" "unat sz + 2 ^ k \<le> 2 ^ 32"
  shows "chunker_ok k (unat sz) (Chunker_Reset ck sz)"
    "bytes (m_freeList (Chunker_Reset ck sz)) = {..<unat sz}"
  using assms by (auto simp: Chunker_Reset_def Chunker_Free_def free_list_free_def chunker_ok_def
      quantum_ok_def Let_def span_def word_less_nat_alt)

lemma HeapArea_Reset_ok:
  assumes ok: "heap_ok k pk h"
  shows "\<exists>h'. HeapArea_Reset h = Inr h' \<and> heap_ok k pk h' \<and> lim h' = lim h \<and> blocks (allocs h') = {#}"
proof -
  have h: "\<not> heapLock h" "geometry_ok k pk h" "chunker_ok k (lim h) (freeList h)" "hasher_inv (allocs h)"
    using ok by (auto simp: heap_ok_def)
  let ?h = "h\<lparr>freeList := Chunker_Reset (freeList h) (Area_Size h), allocs := Hasher_RemoveAll (allocs h)\<rparr>"
  have al: "hasher_inv (Hasher_RemoveAll (allocs h))"
    using h(4) by (simp add: hasher_inv_def Hasher_RemoveAll_def)
  have sz: "unat (Area_Size h) \<le> lim h" by (simp add: lim_def)
  obtain mp where mp: "UnmapRequired ?h 0 (Area_Size h) = Inr (errNone, ?h\<lparr>mapped := mp\<rparr>)"
      "length mp = length (mapped h)"
    using UnmapRequired_span [of k pk ?h 0 "Area_Size h"] h(2) sz by auto
  have "chunker_ok k (lim h) (freeList ?h)" "bytes (m_freeList (freeList ?h)) = {..<lim h}"
    using Chunker_Reset_ok [of k "freeList h" "Area_Size h"] h(3)
    by (simp_all add: chunker_ok_def lim_def)
  then have "heap_ok k pk (?h\<lparr>mapped := mp\<rparr>)"
    using h mp(2) al by (simp add: heap_ok_def pages_marked_def owners_def)
  with mp(1) h(1) show ?thesis by (auto simp: HeapArea_Reset_def)
qed

lemma Chunker_new_ok:
  assumes "k < 31" "unat sz + 2 ^ k \<le> 2 ^ 32"
  shows "chunker_ok k (unat sz) (Chunker_new sz (sint (push_bit k 1 :: u32)))"
    "bytes (m_freeList (Chunker_new sz (sint (push_bit k 1 :: u32)))) = {..<unat sz}"
proof -
  have "sint (push_bit k 1 :: u32) = 2 ^ k"
  proof -
    have "(2::int) ^ k < 2 ^ 31" using assms(1) by (intro power_strict_increasing) simp_all
    moreover have "uint (push_bit k 1 :: u32) = 2 ^ k"
      using unat_power_lower_u32 [of k] assms(1)
      by (simp add: uint_nat)
    ultimately show ?thesis
      using order_trans [of "- (2 ^ 31) :: int" 0 "2 ^ k"]
      by (simp add: sint_uint signed_take_bit_int_eq_self_iff)
  qed
  moreover have "word_of_int (2 ^ k - 1) = (mask k :: u32)"
    by (simp add: mask_eq_exp_minus_1)
  moreover have "(0xFFFFFFFF :: u32) XOR mask k = NOT (mask k)"
  proof -
    have "(0xFFFFFFFF :: u32) = - 1" by simp
    then show ?thesis by (simp only: bit.xor_one_left)
  qed
  moreover have "\<not> (2 :: int) ^ k < 1" by (simp add: not_less)
  ultimately have eq: "Chunker_new sz (sint (push_bit k 1 :: u32)) =
      Chunker_Reset \<lparr>m_freeList = [], m_quantum = mask k, m_quantumMask = NOT (mask k)\<rparr> sz"
    by (simp add: Chunker_new_def Chunker_Reset_def Let_def)
  show "chunker_ok k (unat sz) (Chunker_new sz (sint (push_bit k 1 :: u32)))"
    "bytes (m_freeList (Chunker_new sz (sint (push_bit k 1 :: u32)))) = {..<unat sz}"
    unfolding eq using assms(2) by (simp_all add: Chunker_Reset_ok quantum_ok_def)
qed

lemma HeapArea_new_ok:
  assumes pk: "1 \<le> pk" "pk < 32" and k: "k < 31"
    and sz: "0 < unat sz" "unat sz + 2 * 2 ^ pk + 2 ^ k \<le> 2 ^ 32"
  shows "heap_ok k pk (HeapArea_new (push_bit pk 1) sz (push_bit k 1) isMapped)"
proof -
  let ?P = "2 ^ pk :: nat" and ?page = "push_bit pk 1 :: u32"
  define pages where "pages = Area_pages ?page sz"
  let ?h = "HeapArea_new ?page sz (push_bit k 1) isMapped"
  have page: "unat ?page = ?P" using pk by (simp add: unat_power_lower_u32)
  have pos: "1 \<le> ?P" "(1::nat) \<le> 2 ^ k" by simp_all
  have "sz \<noteq> 0" using sz(1) by auto
  moreover have "unat (sz + ?page) = unat sz + ?P"
    using sz(2) pos page by (subst unat_add_no_overflow) linarith+
  moreover have "unat (sz + ?page - 1) = unat sz + ?P - 1"
    using calculation sz(1) by (subst unat_sub_le) simp_all
  ultimately have pages: "unat pages = (unat sz + ?P - 1) div ?P"
    using page by (simp add: pages_def Area_pages_def unat_div)
  then have "unat pages * ?P \<le> unat sz + ?P - 1"
    by (simp add: div_times_less_eq_dividend)
  then have geo: "unat pages * ?P + ?P + 2 ^ k \<le> 2 ^ 32"
    using sz(2) pos by linarith
  have tot: "unat (pages * ?page) = unat pages * ?P"
  proof -
    have "unat pages * ?P < 2 ^ 32" using geo pos by linarith
    then show ?thesis using page by (simp only: unat_word_ariths) simp
  qed
  have lim: "lim ?h = unat pages * ?P"
    using tot by (simp add: lim_def Area_Size_def HeapArea_new_def pages_def Let_def)
  have same: "unat (pages * ?page div ?page) = unat pages"
    using tot page by (simp add: unat_div)
  have "2 * unat pages \<le> unat pages * ?P"
    using pk(1) self_le_power [of "2 :: nat" pk] by (simp add: mult.commute)
  moreover have "unat pages * ?P \<le> 4294967296" using geo by simp
  ultimately have "2 * unat pages \<le> 4294967296" by linarith
  then have "unat pages + 31 < 2 ^ 32" by simp
  then have "unat ((pages * ?page div ?page + 31) div 32) = (unat pages + 31) div 32"
    using same by (simp add: unat_div unat_add_no_overflow)
  then have groups: "unat pages \<le> 32 * unat ((pages * ?page div ?page + 31) div 32)"
    by simp
  have "chunker_ok k (unat (pages * ?page)) (freeList ?h)"
    "bytes (m_freeList (freeList ?h)) = {..<unat (pages * ?page)}"
    using Chunker_new_ok [OF k, of "pages * ?page"] geo tot
    by (simp_all add: HeapArea_new_def pages_def Let_def)
  then have free: "chunker_ok k (lim ?h) (freeList ?h)" "bytes (m_freeList (freeList ?h)) = {..<lim ?h}"
    using lim tot by simp_all
  have "geometry_ok k pk ?h"
    using pk geo groups by (auto simp: geometry_ok_def HeapArea_new_def pages_def Let_def)
  then show ?thesis
    using free hasher_inv_new
    by (simp add: heap_ok_def pages_marked_def owners_def) (simp add: HeapArea_new_def Let_def)
qed

section \<open>Runs of the heap\<close>

text \<open>
  What clients can do to a heap: allocate a block of at least one byte, free or resize any
  address (valid or not), reset the heap and write to the segment. A call that faults has no
  successor state.
\<close>

inductive heap_step :: "heap_area \<Rightarrow> heap_area \<Rightarrow> bool" where
  step_Alloc: "n \<noteq> 0 \<Longrightarrow> HeapArea_Alloc h n = Inr (h', p) \<Longrightarrow> heap_step h h'"
| step_Free: "HeapArea_Free h p = Inr h' \<Longrightarrow> heap_step h h'"
| step_Realloc:
    "n \<noteq> 0 \<or> p \<noteq> NONZERO_NULL \<Longrightarrow> HeapArea_Realloc h p n = Inr (h', r) \<Longrightarrow> heap_step h h'"
| step_Reset: "HeapArea_Reset h = Inr h' \<Longrightarrow> heap_step h h'"
| step_Allocate: "n \<noteq> 0 \<Longrightarrow> Dealer_Allocate h n created = Inr (h', r) \<Longrightarrow> heap_step h h'"
| step_write: "heap_step h (h\<lparr>contents := m\<rparr>)"

inductive_cases heap_stepE: "heap_step h h'"

lemma HeapArea_Alloc_total:
  assumes ok: "heap_ok k pk h" and n: "n \<noteq> 0"
  shows "(\<exists>h' p s. HeapArea_Alloc h n = Inr (h', p) \<and> heap_ok k pk h' \<and> lim h' = lim h \<and> n \<le> s \<and>
      blocks (allocs h') = add_mset \<lparr>cstart = p, csize = s\<rparr> (blocks (allocs h)) \<and>
      p \<noteq> NONZERO_NULL \<and> span p s \<subseteq> bytes (m_freeList (freeList h))) \<or>
    HeapArea_Alloc h n = Inr (h, NONZERO_NULL) \<and>
      (\<forall>c\<in>set (m_freeList (freeList h)). csize c < n)"
proof (cases "\<exists>c\<in>set (m_freeList (freeList h)). n \<le> csize c")
  case True
  obtain fl s p where a: "Chunker_Alloc (freeList h) n False 1 = (fl, s, p)" by (metis prod_cases3)
  have pos: "0 < unat n" using n by (simp add: unat_gt_0)
  have ck: "chunker_ok k (lim h) (freeList h)" "geometry_ok k pk h" using ok by (auto simp: heap_ok_def)
  have le: "n \<le> s" using Chunker_Alloc_carves [OF ck(1) pos a True] by simp
  then have "unat p < lim h"
    using chunks.alloc_takes [OF ck(1) pos a le] pos by (simp add: word_le_nat_alt)
  then have "p \<noteq> NONZERO_NULL"
    using geometry_lim(2) [OF ck(2)] by (auto simp: NONZERO_NULL_def)
  then show ?thesis
    using HeapArea_Alloc_fits [OF ok pos a le] chunks.alloc_takes [OF ck(1) pos a le] le by blast
next
  case False
  then show ?thesis
    using HeapArea_Alloc_refused [OF ok _ False] n by (auto simp: unat_gt_0 not_le)
qed

lemma HeapArea_Alloc_keeps:
  assumes "heap_ok k pk h" "n \<noteq> 0" "HeapArea_Alloc h n = Inr (h', p)"
  shows "heap_ok k pk h'"
  using HeapArea_Alloc_total [OF assms(1,2)] assms(1,3) by auto

lemma HeapArea_Free_keeps:
  assumes "heap_ok k pk h" "HeapArea_Free h p = Inr h'"
  shows "heap_ok k pk h'"
  using HeapArea_Free_known [OF assms(1), of p] HeapArea_Free_unknown [OF assms(1), of p] assms
  by (cases "Hasher_Retrieve (allocs h) p") auto

lemma HeapArea_Realloc_keeps:
  assumes ok: "heap_ok k pk h" and n: "n \<noteq> 0 \<or> p \<noteq> NONZERO_NULL"
    and r: "HeapArea_Realloc h p n = Inr (h', r)"
  shows "heap_ok k pk h'"
proof (cases "p = NONZERO_NULL")
  case True
  then show ?thesis
    using HeapArea_Alloc_keeps [OF ok] n r by (auto simp: HeapArea_Realloc_def)
next
  case False
  then obtain s where s: "Hasher_Retrieve (allocs h) p = Some s"
    using r HeapArea_Realloc_unknown [OF ok] by (cases "Hasher_Retrieve (allocs h) p") auto
  define q where "q = (n + m_quantum (freeList h)) AND m_quantumMask (freeList h)"
  consider "s = 0" | "s \<noteq> 0" "q = s" | "q < s" | "s \<noteq> 0" "s < q" by fastforce
  then show ?thesis
  proof cases
    case 1
    then show ?thesis using HeapArea_Realloc_empty [OF ok, of p n] s r ok by simp
  next
    case 2
    then show ?thesis using HeapArea_Realloc_same [OF ok s, of n] r ok by (simp add: q_def)
  next
    case 3
    then show ?thesis using HeapArea_Realloc_shrinks [OF ok s q_def] r by auto
  next
    case 4
    then show ?thesis using HeapArea_Realloc_grows [OF ok s, of n] r by (simp add: q_def)
  qed
qed

lemma Dealer_Allocate_keeps:
  assumes "heap_ok k pk h" "n \<noteq> 0" "Dealer_Allocate h n created = Inr (h', r)"
  shows "heap_ok k pk h'"
proof -
  obtain h1 p where a: "HeapArea_Alloc h n = Inr (h1, p)"
    using assms(3) by (auto simp: Dealer_Allocate_def split: sum.splits prod.splits)
  have "heap_ok k pk h1" using HeapArea_Alloc_keeps assms(1,2) a by blast
  then show ?thesis
    using a assms(3) HeapArea_Free_keeps
    by (auto simp: Dealer_Allocate_def split: if_splits sum.splits)
qed

lemma heap_step_keeps:
  assumes "heap_step h h'" "heap_ok k pk h"
  shows "heap_ok k pk h'"
  using assms
proof (cases rule: heap_step.cases)
  case step_Reset
  then show ?thesis using HeapArea_Reset_ok [OF assms(2)] by auto
next
  case (step_write m)
  then show ?thesis
    using assms(2) by (auto simp: heap_ok_def pages_marked_def)
next
  case (step_Allocate n created r)
  then show ?thesis using Dealer_Allocate_keeps assms(2) by metis
qed (use assms(2) HeapArea_Alloc_keeps HeapArea_Free_keeps HeapArea_Realloc_keeps in blast)+

lemma heap_run_keeps:
  assumes "heap_step\<^sup>*\<^sup>* h h'" "heap_ok k pk h"
  shows "heap_ok k pk h'"
  using assms by (induction rule: rtranclp_induct) (auto intro: heap_step_keeps)

section \<open>Properties\<close>

text \<open>
  C1. In every state a dealer's heap can reach, each byte of the area belongs to exactly one
  owner (a free node or one live block), so live blocks are disjoint from each other and from
  the free list; no block leaves the area; and every page a live block touches is marked as
  committed.
\<close>

theorem heap_reachable_invariant:
  assumes "1 \<le> pk" "pk < 32" "k < 31" "0 < unat sz" "unat sz + 2 * 2 ^ pk + 2 ^ k \<le> 2 ^ 32"
    and run: "heap_step\<^sup>*\<^sup>* (HeapArea_new (push_bit pk 1) sz (push_bit k 1) isMapped) h"
  shows "(\<forall>x<unat (Area_Size h). owners (bytes (m_freeList (freeList h))) (blocks (allocs h)) x = 1) \<and>
    (\<forall>c\<in>#blocks (allocs h). cend c \<le> unat (Area_Size h) \<and>
       region c \<inter> bytes (m_freeList (freeList h)) = {} \<and>
       (\<forall>d\<in>#blocks (allocs h) - {#c#}. region c \<inter> region d = {}) \<and>
       (mapSize h \<noteq> 0 \<longrightarrow> (\<forall>x\<in>region c. page_bit (mapped h) (x div 2 ^ pk))))"
proof (intro conjI [rotated] ballI)
  have ok: "heap_ok k pk h"
    using heap_run_keeps [OF run] HeapArea_new_ok assms(1-5) by blast
  then show one: "\<forall>x<unat (Area_Size h). owners (bytes (m_freeList (freeList h))) (blocks (allocs h)) x = 1"
    by (simp add: heap_ok_def lim_def)
  fix c assume c: "c \<in># blocks (allocs h)"
  then show le: "cend c \<le> unat (Area_Size h)" using ok by (auto simp: heap_ok_def lim_def)
  have x: "owners (bytes (m_freeList (freeList h))) (blocks (allocs h)) x = 1" if "x \<in> region c" for x
    using one le that by (simp add: region_def)
  show "region c \<inter> bytes (m_freeList (freeList h)) = {}"
    using block_not_free [OF x c] by blast
  show "region c \<inter> region d = {}" if "d \<in># blocks (allocs h) - {#c#}" for d
    using block_not_shared [OF x c that] by blast
  show "mapSize h \<noteq> 0 \<longrightarrow> (\<forall>x\<in>region c. page_bit (mapped h) (x div 2 ^ pk))"
    using ok pages_markedD [of h k pk c] c by (auto simp: heap_ok_def)
qed

lemma heap_example:
  obtains h p where "HeapArea_Alloc (HeapArea_new (push_bit 12 1) 8192 (push_bit 5 1) False) 100 = Inr (h, p)"
    "p = 0" "Hasher_Retrieve (allocs h) 0 = Some 128" "mapSize h \<noteq> 0"
    "m_freeList (freeList h) = [\<lparr>cstart = 128, csize = 8064\<rparr>]"
    "m_quantum (freeList h) = 31" "m_quantumMask (freeList h) = NOT 31"
    "heap_ok 5 12 h"
proof -
  have "case HeapArea_Alloc (HeapArea_new (push_bit 12 1) 8192 (push_bit 5 1) False) 100 of
      Inl _ \<Rightarrow> False
    | Inr (h, p) \<Rightarrow> p = 0 \<and> Hasher_Retrieve (allocs h) 0 = Some 128 \<and> mapSize h \<noteq> 0 \<and>
        m_freeList (freeList h) = [\<lparr>cstart = 128, csize = 8064\<rparr>] \<and>
        m_quantum (freeList h) = 31 \<and> m_quantumMask (freeList h) = NOT 31"
    by code_simp
  moreover have "heap_ok 5 12 (HeapArea_new (push_bit 12 1) 8192 (push_bit 5 1) False)"
    by (rule HeapArea_new_ok) simp_all
  ultimately show thesis
    using that HeapArea_Alloc_keeps [of 5 12 _ 100]
    by (cases "HeapArea_Alloc (HeapArea_new (push_bit 12 1) 8192 (push_bit 5 1) False) 100") auto
qed

theorem heap_reachable_invariant_witness:
  "\<exists>h. heap_step\<^sup>*\<^sup>* (HeapArea_new (push_bit 12 1) 8192 (push_bit 5 1) False) h \<and>
     blocks (allocs h) \<noteq> {#} \<and> mapSize h \<noteq> 0 \<and>
     (\<forall>x<unat (Area_Size h). owners (bytes (m_freeList (freeList h))) (blocks (allocs h)) x = 1)"
proof -
  obtain h p where h: "HeapArea_Alloc (HeapArea_new (push_bit 12 1) 8192 (push_bit 5 1) False) 100 = Inr (h, p)"
    "Hasher_Retrieve (allocs h) 0 = Some 128" "mapSize h \<noteq> 0" "heap_ok 5 12 h"
    by (rule heap_example)
  have run: "heap_step\<^sup>*\<^sup>* (HeapArea_new (push_bit 12 1) 8192 (push_bit 5 1) False) h"
    using step_Alloc [OF _ h(1)] by (simp add: r_into_rtranclp)
  moreover have "\<lparr>cstart = 0, csize = 128\<rparr> \<in># blocks (allocs h)"
    by (rule heap_ok_retrieve(1) [OF h(4,2)])
  then have "blocks (allocs h) \<noteq> {#}" by auto
  moreover have "\<forall>x<unat (Area_Size h). owners (bytes (m_freeList (freeList h))) (blocks (allocs h)) x = 1"
    by (rule heap_reachable_invariant [OF _ _ _ _ _ run, THEN conjunct1]) simp_all
  ultimately show ?thesis using h(3) by blast
qed

text \<open>
  C2. \<^verbatim>\<open>Alloc\<close> of at least one byte always returns: with a fresh block of at least the size asked
  for, taken from the free bytes, and the invariant kept, or, exactly when no free node is large
  enough, with \<^verbatim>\<open>NONZERO_NULL\<close> and the heap unchanged.
\<close>

theorem heap_alloc_outcome:
  assumes "heap_ok k pk h" "n \<noteq> 0"
  shows "if \<forall>c\<in>set (m_freeList (freeList h)). csize c < n
    then HeapArea_Alloc h n = Inr (h, NONZERO_NULL)
    else \<exists>h' p s. HeapArea_Alloc h n = Inr (h', p) \<and> heap_ok k pk h' \<and> n \<le> s \<and>
      blocks (allocs h') = add_mset \<lparr>cstart = p, csize = s\<rparr> (blocks (allocs h)) \<and>
      p \<noteq> NONZERO_NULL \<and> span p s \<subseteq> bytes (m_freeList (freeList h))"
  using HeapArea_Alloc_total [OF assms] HeapArea_Alloc_refused [OF assms(1), of n] assms(2)
  by (auto simp: unat_gt_0 not_le split: if_splits)

theorem heap_alloc_outcome_witness:
  "\<exists>h p. HeapArea_Alloc (HeapArea_new (push_bit 12 1) 8192 (push_bit 5 1) False) 100 = Inr (h, p) \<and>
     (\<exists>h' q s. HeapArea_Alloc h 200 = Inr (h', q) \<and> q \<noteq> NONZERO_NULL \<and> 200 \<le> s \<and>
       \<lparr>cstart = q, csize = s\<rparr> \<in># blocks (allocs h'))"
proof -
  obtain h p where h: "HeapArea_Alloc (HeapArea_new (push_bit 12 1) 8192 (push_bit 5 1) False) 100 = Inr (h, p)"
    "m_freeList (freeList h) = [\<lparr>cstart = 128, csize = 8064\<rparr>]" "heap_ok 5 12 h"
    by (rule heap_example)
  show ?thesis using h heap_alloc_outcome [OF h(3), of 200] by auto
qed

text \<open>
  \<^verbatim>\<open>Free\<close> undoes \<^verbatim>\<open>Alloc\<close>: freeing the block an allocation has just returned gives back
  exactly the free list and the block table from before the allocation.
\<close>

lemma heap_alloc_free_roundtrip:
  assumes ok: "heap_ok k pk h" and n: "n \<noteq> 0"
    and alloc: "HeapArea_Alloc h n = Inr (h', p)" and p: "p \<noteq> NONZERO_NULL"
  shows "\<exists>h''. HeapArea_Free h' p = Inr h'' \<and> freeList h'' = freeList h \<and> allocs h'' = allocs h"
proof -
  have ck: "chunker_ok k (lim h) (freeList h)" "hasher_inv (allocs h)" "geometry_ok k pk h"
    using ok by (auto simp: heap_ok_def)
  have pos: "0 < unat n" using n by (simp add: unat_gt_0)
  obtain fl s q where a: "Chunker_Alloc (freeList h) n False 1 = (fl, s, q)" by (metis prod_cases3)
  have fit: "\<exists>c\<in>set (m_freeList (freeList h)). n \<le> csize c"
    using HeapArea_Alloc_refused [OF ok pos] alloc p by auto
  note c = Chunker_Alloc_carves [OF ck(1) pos a fit]
  then have h': "heap_ok k pk h'" "freeList h' = fl" "allocs h' = Hasher_Insert (allocs h) p s" "q = p"
    using HeapArea_Alloc_fits [OF ok pos a] alloc by auto
  have s: "0 < unat s" using c pos by (simp add: word_le_nat_alt)
  have ret: "Hasher_Retrieve (allocs h') p = Some s"
    using hasher.retrieve_insert [OF ck(2)] h'(3) by simp
  obtain h'' where h'': "HeapArea_Free h' p = Inr h''"
      "allocs h'' = fst (Hasher_Remove (allocs h') p)" "freeList h'' = fst (Chunker_Free fl p s)"
    using HeapArea_Free_known [OF h'(1) ret] s h'(2) by auto
  have "m_freeList (freeList h'') = m_freeList (freeList h)"
    using carved_freed_inverse [of "lim h" "m_freeList (freeList h)" s p "m_freeList fl"]
      ck(1) geometry_lim(2) [OF ck(3)] s c h'(4) h''(3)
    by (simp add: chunker_ok_def Chunker_Free_def split: prod.splits)
  moreover have "quantum_ok k (freeList h'')"
    using c h''(3) by (auto simp: Chunker_Free_def quantum_ok_def split: prod.splits)
  ultimately have "freeList h'' = freeList h"
    using ck(1) by (auto simp: chunker_ok_def quantum_ok_def intro: chunker.equality)
  moreover have "allocs h'' = allocs h"
    using h''(2) h'(3) hasher.remove_insert [OF ck(2)] by simp
  ultimately show ?thesis using h''(1) by blast
qed

lemma heap_alloc_free_roundtrip_example:
  "\<exists>h p h'. HeapArea_Alloc (HeapArea_new (push_bit 12 1) 8192 (push_bit 5 1) False) 100 = Inr (h, p) \<and>
     HeapArea_Free h p = Inr h' \<and>
     freeList h' = freeList (HeapArea_new (push_bit 12 1) 8192 (push_bit 5 1) False)"
proof -
  obtain h p where h: "HeapArea_Alloc (HeapArea_new (push_bit 12 1) 8192 (push_bit 5 1) False) 100 = Inr (h, p)"
    "p = 0"
    by (rule heap_example)
  have "heap_ok 5 12 (HeapArea_new (push_bit 12 1) 8192 (push_bit 5 1) False)"
    by (rule HeapArea_new_ok) simp_all
  from heap_alloc_free_roundtrip [OF this _ h(1)] h show ?thesis
    by (auto simp: NONZERO_NULL_def)
qed

text \<open>
  For a range inside the area, \<^verbatim>\<open>MapRequired\<close> always succeeds, sets the bit of exactly the
  pages the range touches and leaves every other page of the map as it was.
\<close>

lemma map_required_exact:
  assumes "geometry_ok k pk h" "0 < unat sz" "unat ptr + unat sz \<le> unat (Area_Size h)" "mapSize h \<noteq> 0"
  shows "\<exists>mp. MapRequired h ptr sz = Inr (errNone, h\<lparr>mapped := mp\<rparr>) \<and> length mp = length (mapped h) \<and>
    (\<forall>x<unat (Area_Size h). page_bit mp (x div 2 ^ pk) \<longleftrightarrow>
       (\<exists>y\<in>span ptr sz. y div 2 ^ pk = x div 2 ^ pk) \<or> page_bit (mapped h) (x div 2 ^ pk))"
  using MapRequired_span [OF assms(1,2)] assms(3,4) by (fastforce simp: lim_def)

lemma map_required_exact_example:
  "\<exists>mp. MapRequired (HeapArea_new (push_bit 12 1) 16384 32 False) 4000 200 =
      Inr (errNone, HeapArea_new (push_bit 12 1) 16384 32 False\<lparr>mapped := mp\<rparr>) \<and>
     page_bit mp 1 \<and> \<not> page_bit mp 2"
proof -
  let ?h = "HeapArea_new (push_bit 12 1) 16384 (push_bit 5 1) False"
  have ok: "heap_ok 5 12 ?h" by (rule HeapArea_new_ok) simp_all
  then have "geometry_ok 5 12 ?h" by (simp add: heap_ok_def)
  moreover have ev: "Area_Size ?h = 16384" "mapSize ?h \<noteq> 0" "mapped ?h = [0]" by code_simp+
  ultimately obtain mp where mp: "MapRequired ?h 4000 200 = Inr (errNone, ?h\<lparr>mapped := mp\<rparr>)"
    "\<And>x. x < 16384 \<Longrightarrow> page_bit mp (x div 2 ^ 12) \<longleftrightarrow>
       (\<exists>y\<in>span 4000 200. y div 2 ^ 12 = x div 2 ^ 12) \<or> page_bit [0] (x div 2 ^ 12)"
    using map_required_exact [of 5 12 ?h 200 4000] by auto
  have "page_bit mp 1" using mp(2) [of 4096] by (auto simp: span_def intro!: bexI [of _ 4096])
  moreover have "\<not> page_bit mp 2"
    using mp(2) [of 8192] by (auto simp: span_def page_bit_def)
  ultimately show ?thesis using mp(1) by auto
qed

text \<open>
  \<^verbatim>\<open>Realloc\<close> of a live block: the same quantized size returns the block as it is; a smaller
  one shrinks the block and keeps the invariant, but the result is \<^verbatim>\<open>NONZERO_NULL\<close>, the value
  for failure; a larger one never returns, because \<^verbatim>\<open>Alloc\<close> is called with the heap lock held.
\<close>

lemma heap_realloc_outcome:
  assumes "heap_ok k pk h" "Hasher_Retrieve (allocs h) p = Some s" "s \<noteq> 0"
    and "q = (n + m_quantum (freeList h)) AND m_quantumMask (freeList h)"
  shows "if q = s then HeapArea_Realloc h p n = Inr (h, p)
    else if q < s then \<exists>h'. HeapArea_Realloc h p n = Inr (h', NONZERO_NULL) \<and> heap_ok k pk h' \<and>
      blocks (allocs h') = blocks (allocs h) - {#\<lparr>cstart = p, csize = s\<rparr>#} + {#\<lparr>cstart = p, csize = q\<rparr>#}
    else HeapArea_Realloc h p n = Inl Deadlock"
  using HeapArea_Realloc_same [OF assms(1-3), of n] HeapArea_Realloc_shrinks [OF assms(1,2,4)]
    HeapArea_Realloc_grows [OF assms(1-3), of n] assms(4) by auto

lemma heap_realloc_outcome_example:
  "\<exists>h p. HeapArea_Alloc (HeapArea_new (push_bit 12 1) 8192 (push_bit 5 1) False) 100 = Inr (h, p) \<and>
     (\<exists>h'. HeapArea_Realloc h p 50 = Inr (h', NONZERO_NULL)) \<and>
     HeapArea_Realloc h p 300 = Inl Deadlock"
proof -
  obtain h p where h: "HeapArea_Alloc (HeapArea_new (push_bit 12 1) 8192 (push_bit 5 1) False) 100 = Inr (h, p)"
    "p = 0" "Hasher_Retrieve (allocs h) 0 = Some 128"
    "m_quantum (freeList h) = 31" "m_quantumMask (freeList h) = NOT 31" "heap_ok 5 12 h"
    by (rule heap_example)
  have "\<exists>h'. HeapArea_Realloc h 0 50 = Inr (h', NONZERO_NULL)"
    using heap_realloc_outcome [OF h(6,3) _ refl, of 50] h(4,5) by auto
  moreover have "HeapArea_Realloc h 0 300 = Inl Deadlock"
    using heap_realloc_outcome [OF h(6,3) _ refl, of 300] h(4,5) by auto
  ultimately show ?thesis using h(1,2) by blast
qed

text \<open>
  The free space a heap reports is the number of its free bytes.
\<close>

lemma heap_free_space:
  assumes "heap_ok k pk h"
  shows "unat (HeapArea_FreeSpace h) = card (bytes (m_freeList (freeList h)))"
proof -
  have ok: "free_ok (lim h) (m_freeList (freeList h))" "lim h < 2 ^ 32"
    using assms geometry_lim(2) by (auto simp: heap_ok_def chunker_ok_def)
  have "card (bytes (m_freeList (freeList h))) \<le> card {..<lim h}"
    by (rule card_mono [OF _ bytes_bounded [OF ok(1)]]) simp
  then show ?thesis
    using foldl_csize [of 0 "m_freeList (freeList h)"] card_bytes [OF ok(1)] ok(2)
    by (simp add: HeapArea_FreeSpace_def Chunker_TotalChunkSpace_def)
qed

lemma heap_free_space_example:
  "\<exists>h p. HeapArea_Alloc (HeapArea_new (push_bit 12 1) 8192 (push_bit 5 1) False) 100 = Inr (h, p) \<and>
     unat (HeapArea_FreeSpace h) = card (bytes (m_freeList (freeList h)))"
proof -
  obtain h p where h: "HeapArea_Alloc (HeapArea_new (push_bit 12 1) 8192 (push_bit 5 1) False) 100 = Inr (h, p)"
    "heap_ok 5 12 h"
    by (rule heap_example)
  from heap_free_space [OF h(2)] h(1) show ?thesis by blast
qed

text \<open>
  A request for no bytes is not refused: on a heap that is not mapped in advance the first
  such request makes \<^verbatim>\<open>MapRequired\<close>, which has no test for an empty range, run past the end of
  the page map.
\<close>

lemma page_loop_overrun:
  assumes "first \<le> lastp" "length mp \<le> lastp div 32"
  shows "page_loop on page first lastp mp = Inl OutOfBounds"
  using assms
proof (induction on page first lastp mp rule: page_loop.induct)
  case (1 on page first lastp mp)
  let ?g = "first div 32"
  show ?case
  proof (cases "?g < length mp")
    case True
    obtain r w' where run: "page_runs on page ?g
       (group_mask first lastp AND (if on then NOT (mp ! ?g) else mp ! ?g)) 0 (mp ! ?g) = (r, w')"
      by fastforce
    have r: "r = errNone" using group_step [OF True "1.prems"(1) run] by simp
    have "first div 32 + 1 \<le> lastp div 32" using True "1.prems"(2) by linarith
    then have "(first + 32) div 32 * 32 \<le> lastp div 32 * 32" by simp
    also have "\<dots> \<le> lastp" by (simp add: div_times_less_eq_dividend)
    finally have "page_loop on page ((first + 32) div 32 * 32) lastp (mp[?g := w']) = Inl OutOfBounds"
      using "1.IH" [OF "1.prems"(1) refl _ refl refl run [symmetric] refl] True r "1.prems" by auto
    then show ?thesis
      using "1.prems"(1) True run r by (simp add: page_loop.simps [of on page first lastp mp] Let_def)
  qed (use "1.prems"(1) in \<open>simp add: page_loop.simps Let_def\<close>)
qed

lemma heap_alloc_zero_faults: "HeapArea_Alloc (Dealer_new 4096 8192) 0 = Inl OutOfBounds"
proof -
  let ?h = "Dealer_new 4096 8192"
  have ev: "mapSize ?h = 1" "length (mapped ?h) = 1" "pageSize ?h = 4096" "\<not> heapLock ?h"
    "fst (snd (Chunker_Alloc (freeList ?h) 0 False 1)) = 0"
    "snd (snd (Chunker_Alloc (freeList ?h) 0 False 1)) = 0" by code_simp+
  obtain fl where fl: "Chunker_Alloc (freeList ?h) 0 False 1 = (fl, 0, 0)"
    using ev(5,6) by (cases "Chunker_Alloc (freeList ?h) 0 False 1") auto
  have "page_of 4096 0 = 0" "page_of 4096 (- 1) = 1048575" by (simp_all add: page_of_def)
  then have "MapRequired (?h\<lparr>freeList := fl, allocs := Hasher_Insert (allocs ?h) 0 0\<rparr>) 0 0 = Inl OutOfBounds"
    using ev page_loop_overrun [of 0 1048575 "mapped ?h"] by (simp add: MapRequired_def)
  with fl ev(4) show ?thesis by (simp add: HeapArea_Alloc_def)
qed

end
