(* ===== verification/Vector.thy ===== *)
theory Vector
  imports OB_Prelude "HOL-Library.Monad_Syntax"
begin

text \<open>
  The untyped dynamic array of the support kit: class \<^verbatim>\<open>SAbstractVector\<close> of
  \<^verbatim>\<open>libraries/libbinder/support/Vector.cpp\<close>. A vector owns one block of element cells, either
  its 8 local bytes or a heap block. A cell is \<open>None\<close> while it is raw memory and \<open>Some x\<close> while
  it holds a constructed element, so that the element hooks (\<^verbatim>\<open>PerformCopy\<close>, \<^verbatim>\<open>PerformDestroy\<close>,
  \<^verbatim>\<open>PerformMoveBefore\<close>, \<^verbatim>\<open>PerformMoveAfter\<close>) have the object lifetimes of
  \<^verbatim>\<open>headers/support/TypeFuncs.h\<close>: constructing over a live element, or reading, moving or
  destroying a cell that holds none, is an error, as is an index outside the block.
  The result \<open>None\<close> stands for all of these and for \<^verbatim>\<open>ErrFatalError\<close>.
  Sizes are natural numbers; \<open>w32\<close> is the wrap-around of \<^verbatim>\<open>size_t\<close>.
\<close>

section \<open>State\<close>

definition w32 :: "nat \<Rightarrow> nat" where
  "w32 n = n mod 2 ^ 32"

record 'a vec =
  v_elementSize :: nat
  v_size :: nat
  v_localSpace :: nat
  v_avail :: nat
  v_cells :: "'a option list"

text \<open>What the system answers to \<^verbatim>\<open>inplace_realloc\<close> and \<^verbatim>\<open>malloc\<close> during one operation.\<close>

record vmem =
  can_inplace :: bool
  can_malloc :: bool

section \<open>Element hooks\<close>

fun construct_list :: "'a option list \<Rightarrow> nat \<Rightarrow> 'a list \<Rightarrow> 'a option list option" where
  "construct_list cs i [] = Some cs"
| "construct_list cs i (x # xs) =
     (if i < length cs \<and> cs ! i = None then construct_list (cs[i := Some x]) (Suc i) xs else None)"

fun destroy :: "'a option list \<Rightarrow> nat \<Rightarrow> nat \<Rightarrow> 'a option list option" where
  "destroy cs i 0 = Some cs"
| "destroy cs i (Suc n) =
     (if i < length cs \<and> cs ! i \<noteq> None then destroy (cs[i := None]) (Suc i) n else None)"

fun move_before :: "'a option list \<Rightarrow> nat \<Rightarrow> nat \<Rightarrow> nat \<Rightarrow> 'a option list option" where
  "move_before cs to from 0 = Some cs"
| "move_before cs to from (Suc n) =
     (if to < length cs \<and> from < length cs \<and> cs ! to = None \<and> cs ! from \<noteq> None
      then move_before (cs[to := cs ! from, from := None]) (Suc to) (Suc from) n else None)"

fun move_after :: "'a option list \<Rightarrow> nat \<Rightarrow> nat \<Rightarrow> nat \<Rightarrow> 'a option list option" where
  "move_after cs to from 0 = Some cs"
| "move_after cs to from (Suc n) =
     (if to + n < length cs \<and> from + n < length cs \<and> cs ! (to + n) = None \<and> cs ! (from + n) \<noteq> None
      then move_after (cs[to + n := cs ! (from + n), from + n := None]) to from n else None)"

text \<open>\<^verbatim>\<open>PerformMoveBefore\<close> from one block into another one.\<close>

fun move_between :: "'a option list \<Rightarrow> 'a option list \<Rightarrow> nat \<Rightarrow> nat \<Rightarrow> nat
    \<Rightarrow> ('a option list \<times> 'a option list) option" where
  "move_between ds cs to from 0 = Some (ds, cs)"
| "move_between ds cs to from (Suc n) =
     (if to < length ds \<and> from < length cs \<and> ds ! to = None \<and> cs ! from \<noteq> None
      then move_between (ds[to := cs ! from]) (cs[from := None]) (Suc to) (Suc from) n else None)"

section \<open>Storage management\<close>

definition Vector_new :: "nat \<Rightarrow> 'a vec" where
  "Vector_new es = \<lparr>v_elementSize = es, v_size = 0, v_localSpace = 8 div es, v_avail = 8 div es,
                    v_cells = replicate (8 div es) None\<rparr>"

definition round8 :: "nat \<Rightarrow> nat" where
  "round8 n = w32 (n + 7) div 8 * 8"

definition resize_block :: "nat \<Rightarrow> 'a option list \<Rightarrow> 'a option list" where
  "resize_block n cs = take n cs @ replicate (n - length cs) None"

definition NPOS :: nat where
  "NPOS = 0xFFFFFFFF"

text \<open>
  The parts of \<^verbatim>\<open>grow\<close> and \<^verbatim>\<open>shrink\<close> that move elements: inside the block, and into a fresh one.
\<close>

definition grow_in_place :: "'a vec \<Rightarrow> nat \<Rightarrow> nat \<Rightarrow> 'a vec option" where
  "grow_in_place v amount pos =
     (if pos < v_size v
      then do { cs \<leftarrow> move_after (v_cells v) (pos + amount) pos (v_size v - pos);
                Some (v\<lparr>v_cells := cs\<rparr>) }
      else Some v)"

definition grow_fresh :: "'a vec \<Rightarrow> nat \<Rightarrow> nat \<Rightarrow> nat \<Rightarrow> 'a vec option" where
  "grow_fresh v amount pos can_use =
     (let alloc = replicate can_use None in
      do { alloc \<leftarrow>
             (if v_size v > 0
              then if pos \<ge> v_size v
                   then do { (ds, _) \<leftarrow> move_between alloc (v_cells v) 0 0 (v_size v); Some ds }
                   else do { (ds, cs) \<leftarrow> (if pos > 0 then move_between alloc (v_cells v) 0 0 pos
                                         else Some (alloc, v_cells v));
                             (ds, _) \<leftarrow> move_between ds cs (pos + amount) pos (v_size v - pos);
                             Some ds }
              else Some alloc);
           Some (v\<lparr>v_avail := can_use, v_cells := alloc\<rparr>) })"

definition shrink_in_place :: "'a vec \<Rightarrow> nat \<Rightarrow> nat \<Rightarrow> nat \<Rightarrow> 'a vec option" where
  "shrink_in_place v amount pos total_needed =
     (if pos < total_needed
      then do { cs \<leftarrow> move_before (v_cells v) pos (pos + amount) (total_needed - pos);
                Some (v\<lparr>v_cells := cs\<rparr>) }
      else Some v)"

definition shrink_to_local :: "'a vec \<Rightarrow> nat \<Rightarrow> nat \<Rightarrow> nat \<Rightarrow> 'a vec option" where
  "shrink_to_local v amount pos total_needed =
     (let local = replicate (v_localSpace v) None in
      do { local \<leftarrow>
             (if total_needed > 0
              then if pos \<ge> total_needed
                   then do { (ds, _) \<leftarrow> move_between local (v_cells v) 0 0 total_needed; Some ds }
                   else do { (ds, cs) \<leftarrow> (if pos > 0 then move_between local (v_cells v) 0 0 pos
                                         else Some (local, v_cells v));
                             (ds, _) \<leftarrow> move_between ds cs pos (pos + amount) (total_needed - pos);
                             Some ds }
              else Some local);
           Some (v\<lparr>v_avail := v_localSpace v, v_cells := local\<rparr>) })"

text \<open>
  \<open>Vector_grow m v amount factor pos\<close>: the new state and whether the result is non-null.
\<close>

definition Vector_grow :: "vmem \<Rightarrow> 'a vec \<Rightarrow> nat \<Rightarrow> nat \<Rightarrow> nat \<Rightarrow> ('a vec \<times> bool) option" where
  "Vector_grow m v amount factor pos =
     (let total_needed = w32 (v_size v + amount) in
      if total_needed > v_avail v
      then if total_needed > v_localSpace v
           then (let can_use = w32 (w32 (total_needed + 1) * factor) div 2;
                     can_use = round8 (w32 (can_use * v_elementSize v)) div v_elementSize v
                 in if v_avail v > v_localSpace v \<and> can_inplace m
                    then do { v \<leftarrow> grow_in_place
                                (v\<lparr>v_avail := can_use, v_cells := resize_block can_use (v_cells v)\<rparr>) amount pos;
                              Some (v, True) }
                    else if \<not> can_malloc m then Some (v, False)
                    else do { v \<leftarrow> grow_fresh v amount pos can_use; Some (v, True) })
           else None
      else do { v \<leftarrow> grow_in_place v amount pos; Some (v, True) })"

definition Vector_shrink :: "vmem \<Rightarrow> 'a vec \<Rightarrow> nat \<Rightarrow> nat \<Rightarrow> nat \<Rightarrow> 'a vec option" where
  "Vector_shrink m v amount factor pos =
     (let amount = (if amount > v_size v then v_size v else amount);
          total_needed = v_size v - amount
      in if total_needed \<le> v_localSpace v
         then if v_avail v > v_localSpace v then shrink_to_local v amount pos total_needed
              else shrink_in_place v amount pos total_needed
         else do { v \<leftarrow> shrink_in_place v amount pos total_needed;
                if w32 (total_needed * factor) < v_avail v
                then (let factor = max 1 (factor div 2);
                          will_use = w32 (total_needed * factor);
                          will_use = round8 (w32 (will_use * v_elementSize v)) div v_elementSize v
                      in if can_inplace m
                         then Some (v\<lparr>v_avail := will_use, v_cells := resize_block will_use (v_cells v)\<rparr>)
                         else if can_malloc m
                         then do { (ds, _) \<leftarrow> move_between (replicate will_use None) (v_cells v) 0 0 total_needed;
                                   Some (v\<lparr>v_avail := will_use, v_cells := ds\<rparr>) }
                         else Some v)
                else Some v })"

section \<open>Operations\<close>

text \<open>
  A null \<^verbatim>\<open>newElement\<close> (or \<^verbatim>\<open>protoElement\<close>) asks for default-constructed elements; \<open>dflt\<close> is the
  value of one.
\<close>

definition Vector_RemoveItemsAt :: "vmem \<Rightarrow> 'a vec \<Rightarrow> nat \<Rightarrow> nat \<Rightarrow> 'a vec option" where
  "Vector_RemoveItemsAt m v index count =
     (if count > 0 \<and> index < v_size v
      then (let count = (if w32 (index + count) > v_size v then v_size v - index else count)
            in if count > 0
               then do { cs \<leftarrow> destroy (v_cells v) index count;
                         v \<leftarrow> Vector_shrink m (v\<lparr>v_cells := cs\<rparr>) count 4 index;
                         Some (v\<lparr>v_size := v_size v - count\<rparr>) }
               else Some v)
      else Some v)"

definition Vector_SetSize :: "vmem \<Rightarrow> 'a \<Rightarrow> 'a vec \<Rightarrow> nat \<Rightarrow> 'a option \<Rightarrow> ('a vec \<times> status_t) option" where
  "Vector_SetSize m dflt v total_count proto =
     (if total_count > v_size v
      then do { (v', d) \<leftarrow> Vector_grow m v (total_count - v_size v) 3 NPOS;
             if d
             then do { cs \<leftarrow> construct_list (v_cells v') (v_size v')
                            (replicate (total_count - v_size v') (case proto of Some p \<Rightarrow> p | None \<Rightarrow> dflt));
                       Some (v'\<lparr>v_cells := cs, v_size := total_count\<rparr>, B_OK) }
             else Some (v', B_NO_MEMORY) }
      else do { v' \<leftarrow> Vector_RemoveItemsAt m v total_count (v_size v - total_count);
                Some (v', B_OK) })"

definition Vector_Add :: "vmem \<Rightarrow> 'a \<Rightarrow> 'a vec \<Rightarrow> 'a option \<Rightarrow> ('a vec \<times> int) option" where
  "Vector_Add m dflt v newElement =
     do { (v', d) \<leftarrow> Vector_grow m v 1 3 NPOS;
          if d
          then do { cs \<leftarrow> construct_list (v_cells v') (v_size v') [case newElement of Some x \<Rightarrow> x | None \<Rightarrow> dflt];
                    Some (v'\<lparr>v_cells := cs, v_size := v_size v' + 1\<rparr>, int (v_size v')) }
          else Some (v', B_NO_MEMORY) }"

definition Vector_AddAt :: "vmem \<Rightarrow> 'a \<Rightarrow> 'a vec \<Rightarrow> 'a option \<Rightarrow> nat \<Rightarrow> ('a vec \<times> int) option" where
  "Vector_AddAt m dflt v newElement index =
     (let index = (if index > v_size v then v_size v else index) in
      do { (v', d) \<leftarrow> Vector_grow m v 1 3 index;
           if d
           then do { cs \<leftarrow> construct_list (v_cells v') index [case newElement of Some x \<Rightarrow> x | None \<Rightarrow> dflt];
                     Some (v'\<lparr>v_cells := cs, v_size := v_size v' + 1\<rparr>, int index) }
           else Some (v', B_NO_MEMORY) })"

text \<open>The cells an array argument stands for; \<open>None\<close> when one of them is raw memory.\<close>

fun read_cells :: "'a option list \<Rightarrow> nat \<Rightarrow> 'a list option" where
  "read_cells cs 0 = Some []"
| "read_cells (Some x # cs) (Suc n) = map_option (\<lambda>xs. x # xs) (read_cells cs n)"
| "read_cells (None # cs) (Suc n) = None"
| "read_cells [] (Suc n) = None"

definition Vector_AddArrayAt :: "vmem \<Rightarrow> 'a vec \<Rightarrow> 'a list \<Rightarrow> nat \<Rightarrow> ('a vec \<times> int) option" where
  "Vector_AddArrayAt m v src index =
     (if length src > 0
      then (let index = (if index > v_size v then v_size v else index) in
            do { (v', d) \<leftarrow> Vector_grow m v (length src) 3 index;
                 if d
                 then do { cs \<leftarrow> construct_list (v_cells v') index src;
                           Some (v'\<lparr>v_cells := cs, v_size := v_size v' + length src\<rparr>,
                                 int (v_size v' + length src)) }
                 else Some (v', B_NO_MEMORY) })
      else Some (v, int (v_size v)))"

definition Vector_AddArray :: "vmem \<Rightarrow> 'a vec \<Rightarrow> 'a list \<Rightarrow> ('a vec \<times> int) option" where
  "Vector_AddArray m v src = Vector_AddArrayAt m v src (v_size v)"

text \<open>\<open>o\<close> is another vector; with another element size the call is \<^verbatim>\<open>ErrFatalError\<close>.\<close>

definition Vector_AddVectorAt :: "vmem \<Rightarrow> 'a vec \<Rightarrow> 'a vec \<Rightarrow> nat \<Rightarrow> ('a vec \<times> int) option" where
  "Vector_AddVectorAt m v other index =
     (if v_elementSize v = v_elementSize other
      then do { src \<leftarrow> read_cells (v_cells other) (v_size other);
                Vector_AddArrayAt m v src index }
      else None)"

definition Vector_AddVector :: "vmem \<Rightarrow> 'a vec \<Rightarrow> 'a vec \<Rightarrow> ('a vec \<times> int) option" where
  "Vector_AddVector m v other = Vector_AddVectorAt m v other (v_size v)"

definition Vector_At :: "'a vec \<Rightarrow> nat \<Rightarrow> 'a option" where
  "Vector_At v index = (if index < length (v_cells v) then v_cells v ! index else None)"

definition Vector_ReplaceAt :: "'a vec \<Rightarrow> 'a \<Rightarrow> nat \<Rightarrow> ('a vec \<times> int) option" where
  "Vector_ReplaceAt v newItem index =
     do { _ \<leftarrow> Vector_At v index;
          Some (v\<lparr>v_cells := (v_cells v)[index := Some newItem]\<rparr>, int index) }"

definition Vector_MoveItems :: "vmem \<Rightarrow> 'a vec \<Rightarrow> nat \<Rightarrow> nat \<Rightarrow> nat \<Rightarrow> ('a vec \<times> status_t) option" where
  "Vector_MoveItems m v newIndex oldIndex count =
     (if count > 0 \<and> oldIndex < v_size v
      then (let count = (if w32 (oldIndex + count) > v_size v then v_size v - oldIndex else count);
                newIndex = (if w32 (newIndex + count) > v_size v then v_size v - count else newIndex)
            in if count > 0 \<and> oldIndex \<noteq> newIndex
               then if w32 (v_elementSize v * count) > 32 \<and> \<not> can_malloc m then Some (v, B_NO_MEMORY)
                    else (let d = v_cells v; buffer = replicate count None in
                          do { (buffer, d) \<leftarrow> move_between buffer d 0 oldIndex count;
                               d \<leftarrow> (if newIndex < oldIndex
                                     then move_after d (newIndex + count) newIndex (oldIndex - newIndex)
                                     else move_before d oldIndex (oldIndex + count) (newIndex - oldIndex));
                               (d, _) \<leftarrow> move_between d buffer newIndex 0 count;
                               Some (v\<lparr>v_cells := d\<rparr>, B_OK) })
               else Some (v, B_OK))
      else Some (v, B_OK))"

definition Vector_MakeEmpty :: "'a vec \<Rightarrow> 'a vec option" where
  "Vector_MakeEmpty v =
     do { cs \<leftarrow> destroy (v_cells v) 0 (v_size v);
          Some (v\<lparr>v_avail := v_localSpace v, v_size := 0,
                  v_cells := (if v_avail v > v_localSpace v then replicate (v_localSpace v) None else cs)\<rparr>) }"

definition Vector_SetCapacity :: "vmem \<Rightarrow> 'a vec \<Rightarrow> nat \<Rightarrow> 'a vec option" where
  "Vector_SetCapacity m v total_space =
     (let total_space = (if total_space < v_size v then v_size v else total_space)
      in map_option fst (Vector_grow m v (total_space - v_size v) 2 NPOS))"

definition Vector_SetExtraCapacity :: "vmem \<Rightarrow> 'a vec \<Rightarrow> nat \<Rightarrow> 'a vec option" where
  "Vector_SetExtraCapacity m v extra_space = map_option fst (Vector_grow m v extra_space 2 NPOS)"

text \<open>The copy constructor.\<close>

definition Vector_copy :: "vmem \<Rightarrow> 'a vec \<Rightarrow> 'a vec option" where
  "Vector_copy m other =
     (let v = Vector_new (v_elementSize other) in
      if v_size other > 0
      then do { (v, d) \<leftarrow> Vector_grow m v (v_size other) 3 NPOS;
             if d
             then do { src \<leftarrow> read_cells (v_cells other) (v_size other);
                       cs \<leftarrow> construct_list (v_cells v) 0 src;
                       Some (v\<lparr>v_cells := cs, v_size := v_size other\<rparr>) }
             else Some v }
      else Some v)"

text \<open>
  Assignment reads both vectors while it changes one of them, and they may be the same object,
  so its state is a store of vectors and its arguments are the two objects' names.
\<close>

definition Vector_assign ::
  "vmem \<Rightarrow> ('i \<Rightarrow> 'a vec) \<Rightarrow> 'i \<Rightarrow> 'i \<Rightarrow> ('i \<Rightarrow> 'a vec) option" where
  "Vector_assign m \<sigma> this other =
     (if v_elementSize (\<sigma> this) = v_elementSize (\<sigma> other)
      then if v_size (\<sigma> other) > 0
           then do { \<sigma> \<leftarrow> (if v_size (\<sigma> this) > 0
                          then do { cs \<leftarrow> destroy (v_cells (\<sigma> this)) 0 (v_size (\<sigma> this));
                                    Some (\<sigma>(this := (\<sigma> this)\<lparr>v_cells := cs, v_size := 0\<rparr>)) }
                          else Some \<sigma>);
                  (v, d) \<leftarrow> Vector_grow m (\<sigma> this) (v_size (\<sigma> other)) 3 NPOS;
                  \<sigma> \<leftarrow> Some (\<sigma>(this := v));
                  if d
                  then do { src \<leftarrow> read_cells (v_cells (\<sigma> other)) (v_size (\<sigma> other));
                            cs \<leftarrow> construct_list (v_cells (\<sigma> this)) 0 src;
                            Some (\<sigma>(this := (\<sigma> this)\<lparr>v_cells := cs, v_size := v_size (\<sigma> other)\<rparr>)) }
                  else Some \<sigma> }
           else do { v \<leftarrow> Vector_MakeEmpty (\<sigma> this); Some (\<sigma>(this := v)) }
      else None)"

section \<open>Moving elements\<close>

text \<open>
  Each loop shifts a run of elements over a gap of raw cells; the order of its steps is the one
  that never overwrites an element that still has to move.
\<close>

lemma nth_append_ge: "n \<ge> length xs \<Longrightarrow> (xs @ ys) ! n = ys ! (n - length xs)"
  by (simp add: nth_append)

lemma move_after_gap:
  assumes "0 < k"
  shows "move_after (A @ map Some ys @ replicate k None @ B) (length A + k) (length A) (length ys) =
    Some (A @ replicate k None @ map Some ys @ B)"
proof (induction ys arbitrary: B rule: rev_induct)
  case (snoc y ys)
  obtain j where k: "k = Suc j" using assms by (cases k) auto
  let ?cs = "A @ map Some ys @ Some y # replicate k None @ B"
  have dst: "?cs ! (length A + k + length ys) = None"
    using assms by (simp add: nth_append nth_Cons')
  have upd: "?cs[length A + k + length ys := Some y, length A + length ys := None] =
      A @ map Some ys @ replicate k None @ Some y # B"
    by (simp add: k list_update_append replicate_append_same [symmetric])
  show ?case
    using snoc.IH [of "Some y # B"] dst upd by (simp add: nth_append)
qed simp

lemma move_before_gap:
  assumes "0 < k"
  shows "move_before (A @ replicate k None @ map Some ys @ B) (length A) (length A + k) (length ys) =
    Some (A @ map Some ys @ replicate k None @ B)"
proof (induction ys arbitrary: A)
  case (Cons y ys)
  obtain j where k: "k = Suc j" using assms by (cases k) auto
  let ?cs = "A @ replicate k None @ Some y # map Some ys @ B"
  have upd: "?cs[length A := Some y, length A + k := None] =
      (A @ [Some y]) @ replicate k None @ map Some ys @ B"
    by (simp add: k list_update_append replicate_app_Cons_same)
  show ?case
    using Cons.IH [of "A @ [Some y]"] upd by (simp add: nth_append k)
qed simp

lemma move_between_run:
  "move_between (A @ replicate (length ys) None @ B) (C @ map Some ys @ D) (length A) (length C) (length ys) =
    Some (A @ map Some ys @ B, C @ replicate (length ys) None @ D)"
proof (induction ys arbitrary: A C)
  case (Cons y ys)
  then show ?case
    using Cons.IH [of "A @ [Some y]" "C @ [None]"]
    by (simp add: nth_append list_update_append)
qed simp

lemma construct_run:
  "construct_list (A @ replicate (length ys) None @ B) (length A) ys = Some (A @ map Some ys @ B)"
proof (induction ys arbitrary: A)
  case (Cons y ys)
  then show ?case
    using Cons.IH [of "A @ [Some y]"] by (simp add: nth_append list_update_append)
qed simp

lemma destroy_run:
  "destroy (A @ map Some ys @ B) (length A) (length ys) = Some (A @ replicate (length ys) None @ B)"
proof (induction ys arbitrary: A)
  case (Cons y ys)
  then show ?case
    using Cons.IH [of "A @ [None]"] by (simp add: nth_append list_update_append)
qed simp

lemma read_run: "read_cells (map Some xs @ B) (length xs) = Some xs"
  by (induction xs) simp_all

section \<open>The contents of a vector\<close>

text \<open>
  \<open>vec_rep v xs\<close>: the vector \<open>v\<close> holds the elements \<open>xs\<close>; the rest of its block is raw.
  \<open>vec_gap v xs p n\<close> is the state between \<^verbatim>\<open>grow\<close> and the construction of the new elements: a
  gap of \<open>n\<close> raw cells has been opened before position \<open>p\<close>.
\<close>

definition vec_frame :: "'a vec \<Rightarrow> bool" where
  "vec_frame v \<longleftrightarrow> 0 < v_elementSize v \<and> v_localSpace v = 8 div v_elementSize v \<and>
     v_localSpace v \<le> v_avail v \<and> length (v_cells v) = v_avail v"

definition vec_gap :: "'a vec \<Rightarrow> 'a list \<Rightarrow> nat \<Rightarrow> nat \<Rightarrow> bool" where
  "vec_gap v xs p n \<longleftrightarrow> vec_frame v \<and> v_size v = length xs \<and> p \<le> length xs \<and>
     length xs + n \<le> v_avail v \<and>
     v_cells v = map Some (take p xs) @ replicate n None @ map Some (drop p xs) @
       replicate (v_avail v - length xs - n) None"

definition vec_rep :: "'a vec \<Rightarrow> 'a list \<Rightarrow> bool" where
  "vec_rep v xs \<longleftrightarrow> vec_frame v \<and> v_size v = length xs \<and> length xs \<le> v_avail v \<and>
     v_cells v = map Some xs @ replicate (v_avail v - length xs) None"

text \<open>\<open>vec_room es n\<close>: the size computations for \<open>n\<close> elements of \<open>es\<close> bytes do not wrap.\<close>

definition vec_room :: "nat \<Rightarrow> nat \<Rightarrow> bool" where
  "vec_room es n \<longleftrightarrow> 3 * (n + 1) * es + 8 \<le> 2 ^ 32"

lemma vec_room_mono:
  assumes "vec_room es n" "k \<le> n"
  shows "vec_room es k"
proof -
  have "3 * (k + 1) * es \<le> 3 * (n + 1) * es"
    using assms(2) by (intro mult_le_mono1 mult_le_mono2) simp
  then show ?thesis using assms(1) unfolding vec_room_def by linarith
qed

lemma w32_id [simp]: "n < 2 ^ 32 \<Longrightarrow> w32 n = n"
  by (simp add: w32_def)

lemma vec_rep_new: "0 < es \<Longrightarrow> vec_rep (Vector_new es) []"
  by (simp add: vec_rep_def vec_frame_def Vector_new_def)

lemma elementSize_new [simp]: "v_elementSize (Vector_new es) = es"
  by (simp add: Vector_new_def)

lemma vec_rep_gap: "vec_rep v xs \<longleftrightarrow> vec_gap v xs (length xs) 0"
  by (auto simp: vec_rep_def vec_gap_def)

lemma vec_gap_fill:
  assumes "vec_gap v xs p (length ys)"
  shows "\<exists>cs. construct_list (v_cells v) p ys = Some cs \<and>
    vec_rep (v\<lparr>v_cells := cs, v_size := length xs + length ys\<rparr>) (take p xs @ ys @ drop p xs)"
proof -
  let ?B = "map Some (drop p xs) @ replicate (v_avail v - length xs - length ys) None"
  have "construct_list (v_cells v) p ys = Some (map Some (take p xs) @ map Some ys @ ?B)"
    using construct_run [of "map Some (take p xs)" ys ?B] assms by (simp add: vec_gap_def)
  moreover have "v_avail v = length (map Some (take p xs) @ map Some ys @ ?B)"
    using assms by (simp add: vec_gap_def)
  ultimately show ?thesis
    using assms by (auto simp: vec_rep_def vec_gap_def vec_frame_def)
qed

lemma round_cells:
  assumes "0 < es" "c * es + 8 \<le> 2 ^ 32"
  shows "c \<le> round8 (w32 (c * es)) div es"
proof -
  have "w32 (c * es) = c * es" "w32 (c * es + 7) = c * es + 7"
    using assms(2) by (auto intro!: w32_id)
  then have "c * es \<le> round8 (w32 (c * es))"
    using round_up_bounds(1) [of "c * es" 3] by (simp add: round8_def)
  then show ?thesis using assms(1) by (simp add: less_eq_div_iff_mult_less_eq)
qed

lemma grown_capacity:
  assumes es: "0 < es" and room: "vec_room es n" and f: "f = 2 \<or> f = 3"
  defines "c \<equiv> w32 (w32 (n + 1) * f) div 2"
  shows "w32 n = n" "n \<le> round8 (w32 (c * es)) div es"
proof -
  have b: "3 * (n + 1) * es + 8 \<le> 2 ^ 32" using room by (simp add: vec_room_def)
  have "3 * (n + 1) \<le> 3 * (n + 1) * es" using es by simp
  then have s: "3 * (n + 1) < 2 ^ 32" using b by linarith
  then show "w32 n = n" by (simp add: w32_def)
  have n1: "w32 (n + 1) = n + 1" using s by (simp add: w32_def)
  have "(n + 1) * f \<le> 3 * (n + 1)" using f by auto
  then have c: "c = (n + 1) * f div 2"
    using s unfolding c_def n1 by (subst w32_id) auto
  then have "c \<le> 3 * (n + 1)" using f by auto
  then have "c * es \<le> 3 * (n + 1) * es" by (rule mult_le_mono1)
  then have "c \<le> round8 (w32 (c * es)) div es"
    using b es by (intro round_cells) linarith+
  moreover have "n \<le> c" using c f by auto
  ultimately show "n \<le> round8 (w32 (c * es)) div es" by linarith
qed

lemma vec_rep_cells_split:
  assumes "vec_rep v xs" "p \<le> length xs"
  shows "v_cells v = map Some (take p xs) @ map Some (drop p xs) @ replicate (v_avail v - length xs) None"
  using assms by (simp add: vec_rep_def flip: append_assoc map_append)

lemma open_gap:
  assumes v: "vec_rep v xs" and p: "p < length xs" and n: "0 < n" "length xs + n \<le> v_avail v"
  shows "\<exists>cs. move_after (v_cells v) (p + n) p (v_size v - p) = Some cs \<and> vec_gap (v\<lparr>v_cells := cs\<rparr>) xs p n"
proof -
  let ?r = "v_avail v - length xs"
  have split: "replicate ?r None = replicate n None @ replicate (?r - n) (None :: 'a option)"
    using n(2) by (simp flip: replicate_add)
  let ?cs = "map Some (take p xs) @ replicate n None @ map Some (drop p xs) @ replicate (?r - n) None"
  have cells: "v_cells v = map Some (take p xs) @ map Some (drop p xs) @ replicate n None @ replicate (?r - n) None"
    using vec_rep_cells_split [OF v] p split by simp
  have "v_size v = length xs" using v by (simp add: vec_rep_def)
  then have "move_after (v_cells v) (p + n) p (v_size v - p) = Some ?cs"
    using move_after_gap [OF n(1), of "map Some (take p xs)" "drop p xs" "replicate (?r - n) None"] p
    unfolding cells by simp
  moreover have "length ?cs = v_avail v" using p n(2) by simp
  ultimately show ?thesis
    using v p n(2) by (auto simp: vec_gap_def vec_rep_def vec_frame_def)
qed

lemma vec_rep_resize:
  assumes "vec_rep v xs" "length xs \<le> c" "v_localSpace v \<le> c"
  shows "vec_rep (v\<lparr>v_avail := c, v_cells := resize_block c (v_cells v)\<rparr>) xs"
proof -
  have "resize_block c (v_cells v) = map Some xs @ replicate (c - length xs) None"
  proof (cases "c \<le> v_avail v")
    case True
    then have "min (c - length xs) (v_avail v - length xs) = c - length xs" by simp
    with True show ?thesis using assms by (simp add: vec_rep_def vec_frame_def resize_block_def)
  next
    case False
    then have "v_avail v - length xs + (c - v_avail v) = c - length xs"
      using assms by (simp add: vec_rep_def)
    with False show ?thesis
      using assms by (simp add: vec_rep_def vec_frame_def resize_block_def flip: replicate_add)
  qed
  then show ?thesis using assms by (simp add: vec_rep_def vec_frame_def)
qed

text \<open>The elements of a vector moved to a fresh block, with a gap before position \<open>p\<close>.\<close>

lemma move_with_gap:
  assumes v: "vec_rep v xs" and p: "p \<le> length xs" and c: "length xs + n \<le> c"
  shows "\<exists>ds cs. (if p > 0 then move_between (replicate c None) (v_cells v) 0 0 p
                else Some (replicate c None, v_cells v)) = Some (ds, cs) \<and>
    (\<exists>cs'. move_between ds cs (p + n) p (v_size v - p) =
      Some (map Some (take p xs) @ replicate n None @ map Some (drop p xs) @ replicate (c - length xs - n) None, cs'))"
proof -
  let ?r = "replicate (v_avail v - length xs) (None :: 'a option)"
  let ?d = "drop p xs"
  have sz: "v_size v = length xs" using v by (simp add: vec_rep_def)
  have cells: "v_cells v = map Some (take p xs) @ map Some ?d @ ?r"
    using vec_rep_cells_split [OF v p] .
  have new: "replicate c (None :: 'a option) = replicate p None @ replicate (c - p) None"
    using p c by (simp flip: replicate_add)
  have gap: "replicate (c - p) (None :: 'a option) =
      replicate n None @ replicate (length ?d) None @ replicate (c - length xs - n) None"
    using p c by (simp flip: replicate_add)
  have "(if p > 0 then move_between (replicate c None) (v_cells v) 0 0 p
         else Some (replicate c None, v_cells v)) =
      Some (map Some (take p xs) @ replicate (c - p) None, replicate p None @ map Some ?d @ ?r)"
    using move_between_run [of "[]" "take p xs" "replicate (c - p) None" "[]" "map Some ?d @ ?r"] p
    by (cases "p = 0") (simp add: cells, simp add: cells new)
  moreover have "move_between (map Some (take p xs) @ replicate (c - p) None)
      (replicate p None @ map Some ?d @ ?r) (p + n) p (v_size v - p) =
      Some ((map Some (take p xs) @ replicate n None) @ map Some ?d @ replicate (c - length xs - n) None,
        replicate p None @ replicate (length ?d) None @ ?r)"
    using move_between_run [of "map Some (take p xs) @ replicate n None" ?d
        "replicate (c - length xs - n) None" "replicate p None" ?r] p
    by (simp add: gap sz)
  ultimately show ?thesis by simp
qed

lemma vec_rep_end_gap:
  assumes "vec_rep v xs" "length xs + n \<le> v_avail v"
  shows "vec_gap v xs (length xs) n"
  using assms by (simp add: vec_rep_def vec_gap_def flip: replicate_add)

lemma grow_in_place_gap:
  assumes v: "vec_rep v xs" and n: "length xs + n \<le> v_avail v" "0 < n \<or> length xs \<le> pos"
  shows "\<exists>cs. grow_in_place v n pos = Some (v\<lparr>v_cells := cs\<rparr>) \<and>
    vec_gap (v\<lparr>v_cells := cs\<rparr>) xs (min pos (length xs)) n"
proof (cases "pos < length xs")
  case True
  then have "0 < n" using n(2) by simp
  from open_gap [OF v True this n(1)] True show ?thesis
    using v by (auto simp: grow_in_place_def vec_rep_def min_def)
next
  case False
  then show ?thesis
  proof (intro exI [of _ "v_cells v"] conjI)
    have "v_size v = length xs" using v by (simp add: vec_rep_def)
    with False show "grow_in_place v n pos = Some (v\<lparr>v_cells := v_cells v\<rparr>)"
      by (simp add: grow_in_place_def)
    show "vec_gap (v\<lparr>v_cells := v_cells v\<rparr>) xs (min pos (length xs)) n"
      using False vec_rep_end_gap [OF v n(1)] by simp
  qed
qed

lemma grow_fresh_gap:
  assumes v: "vec_rep v xs" and c: "length xs + n \<le> c" "v_localSpace v \<le> c"
  shows "\<exists>cs. grow_fresh v n pos c = Some (v\<lparr>v_avail := c, v_cells := cs\<rparr>) \<and>
    vec_gap (v\<lparr>v_avail := c, v_cells := cs\<rparr>) xs (min pos (length xs)) n"
proof -
  define p where "p = min pos (length xs)"
  have p: "p \<le> length xs" by (simp add: p_def)
  have sz: "v_size v = length xs" "vec_frame v" using v by (simp_all add: vec_rep_def)
  let ?ds = "map Some (take p xs) @ replicate n None @ map Some (drop p xs) @ replicate (c - length xs - n) None"
  obtain ds cs cs' where mv: "(if p > 0 then move_between (replicate c None) (v_cells v) 0 0 p
      else Some (replicate c None, v_cells v)) = Some (ds, cs)"
      "move_between ds cs (p + n) p (v_size v - p) = Some (?ds, cs')"
    using move_with_gap [OF v p c(1)] by blast
  have "grow_fresh v n pos c = Some (v\<lparr>v_avail := c, v_cells := ?ds\<rparr>)"
  proof (cases "pos < length xs")
    case True
    then have "xs \<noteq> []" by auto
    with True show ?thesis using mv sz by (simp add: grow_fresh_def p_def Let_def split: if_splits)
  next
    case False
    then have "p = length xs" by (simp add: p_def)
    then show ?thesis
      using mv sz False c(1)
      by (cases xs) (auto simp: grow_fresh_def simp flip: replicate_add)
  qed
  moreover have "length ?ds = c" using p c(1) by simp
  ultimately show ?thesis
    using sz p c by (auto simp: vec_gap_def vec_frame_def p_def)
qed

lemma Vector_grow_gap:
  assumes v: "vec_rep v xs" and room: "vec_room (v_elementSize v) (length xs + n)"
    and f: "f = 2 \<or> f = 3" and n: "0 < n \<or> length xs \<le> pos"
  shows "(\<exists>v'. Vector_grow m v n f pos = Some (v', True) \<and> vec_gap v' xs (min pos (length xs)) n \<and>
      v_elementSize v' = v_elementSize v) \<or>
    Vector_grow m v n f pos = Some (v, False) \<and> \<not> can_malloc m"
proof -
  define c where "c = round8 (w32 (w32 (w32 (length xs + n + 1) * f) div 2 * v_elementSize v)) div v_elementSize v"
  have frame: "0 < v_elementSize v" "v_size v = length xs" "v_localSpace v \<le> v_avail v"
    using v by (simp_all add: vec_rep_def vec_frame_def)
  have tot: "w32 (length xs + n) = length xs + n" and c: "length xs + n \<le> c"
    using grown_capacity [OF frame(1) room f] by (simp_all add: c_def)
  show ?thesis
  proof (cases "length xs + n \<le> v_avail v")
    case True
    then show ?thesis
      using grow_in_place_gap [OF v True n] frame(2) tot by (auto simp: Vector_grow_def)
  next
    case False
    then have lc: "v_localSpace v \<le> c" using frame c by simp
    let ?v = "v\<lparr>v_avail := c, v_cells := resize_block c (v_cells v)\<rparr>"
    have "vec_rep ?v xs" using v c lc by (intro vec_rep_resize) auto
    then obtain cs where ip: "grow_in_place ?v n pos = Some (?v\<lparr>v_cells := cs\<rparr>)"
        "vec_gap (?v\<lparr>v_cells := cs\<rparr>) xs (min pos (length xs)) n"
      using grow_in_place_gap [of ?v xs n pos] n c by auto
    obtain ds where fr: "grow_fresh v n pos c = Some (v\<lparr>v_avail := c, v_cells := ds\<rparr>)"
        "vec_gap (v\<lparr>v_avail := c, v_cells := ds\<rparr>) xs (min pos (length xs)) n"
      using grow_fresh_gap [OF v c lc] by blast
    have "Vector_grow m v n f pos =
      (if v_avail v > v_localSpace v \<and> can_inplace m then Some (?v\<lparr>v_cells := cs\<rparr>, True)
       else if \<not> can_malloc m then Some (v, False)
       else Some (v\<lparr>v_avail := c, v_cells := ds\<rparr>, True))"
      using False frame tot ip(1) fr(1) by (simp add: Vector_grow_def c_def Let_def)
    then show ?thesis using ip(2) fr(2) by auto
  qed
qed

text \<open>
  \<open>vec_hole v A n D\<close>: the \<open>n\<close> elements between \<open>A\<close> and \<open>D\<close> have been destroyed, but the
  size still counts them. \<open>vec_closed v ys k\<close>: the hole is closed, the size still too large.
\<close>

definition vec_hole :: "'a vec \<Rightarrow> 'a list \<Rightarrow> nat \<Rightarrow> 'a list \<Rightarrow> bool" where
  "vec_hole v A n D \<longleftrightarrow> vec_frame v \<and> v_size v = length A + n + length D \<and> v_size v \<le> v_avail v \<and>
     v_cells v = map Some A @ replicate n None @ map Some D @ replicate (v_avail v - v_size v) None"

lemma vec_repI:
  assumes "vec_frame v" "length xs \<le> v_avail v"
    and "v_cells v = map Some xs @ replicate (v_avail v - length xs) None"
  shows "vec_rep (v\<lparr>v_size := length xs\<rparr>) xs"
  using assms by (simp add: vec_rep_def vec_frame_def)

lemma shrink_in_place_closes:
  assumes v: "vec_hole v A n D" and n: "0 < n"
  shows "\<exists>cs. shrink_in_place v n (length A) (length A + length D) = Some (v\<lparr>v_cells := cs\<rparr>) \<and>
    length cs = v_avail v \<and>
    cs = map Some (A @ D) @ replicate (v_avail v - (length A + length D)) None"
proof -
  let ?r = "replicate (v_avail v - v_size v) (None :: 'a option)"
  have h: "v_cells v = map Some A @ replicate n None @ map Some D @ ?r"
    "v_size v = length A + n + length D" "v_size v \<le> v_avail v"
    using v by (simp_all add: vec_hole_def)
  have r: "replicate n None @ ?r = replicate (v_avail v - (length A + length D)) None"
    using h by (simp flip: replicate_add)
  have "move_before (v_cells v) (length A) (length A + n) (length D) =
      Some (map Some A @ map Some D @ replicate n None @ ?r)"
    using move_before_gap [OF n, of "map Some A" D ?r] unfolding h(1) by simp
  then have "shrink_in_place v n (length A) (length A + length D) =
      Some (v\<lparr>v_cells := map Some (A @ D) @ replicate (v_avail v - (length A + length D)) None\<rparr>)"
    using h(1) r by (cases D) (simp_all add: shrink_in_place_def)
  then show ?thesis using h(2,3) by auto
qed

lemma shrink_to_local_closes:
  assumes v: "vec_hole v A n D" and L: "length A + length D \<le> v_localSpace v"
  shows "shrink_to_local v n (length A) (length A + length D) =
    Some (v\<lparr>v_avail := v_localSpace v,
            v_cells := map Some (A @ D) @ replicate (v_localSpace v - (length A + length D)) None\<rparr>)"
proof -
  let ?r = "replicate (v_avail v - v_size v) (None :: 'a option)"
  let ?L = "v_localSpace v" and ?t = "length A + length D"
  have h: "v_cells v = map Some A @ replicate n None @ map Some D @ ?r"
    using v by (simp add: vec_hole_def)
  have l1: "replicate ?L (None :: 'a option) = replicate (length A) None @ replicate (?L - length A) None"
    and l2: "replicate (?L - length A) (None :: 'a option) = replicate (length D) None @ replicate (?L - ?t) None"
    using L by (simp_all flip: replicate_add)
  have m1: "move_between (replicate ?L None) (v_cells v) 0 0 (length A) =
      Some (map Some A @ replicate (?L - length A) None, replicate (length A) None @ replicate n None @ map Some D @ ?r)"
    using move_between_run [of "[]" A "replicate (?L - length A) None" "[]" "replicate n None @ map Some D @ ?r"]
    unfolding h l1 by simp
  have m2: "move_between (map Some A @ replicate (?L - length A) None)
      (replicate (length A) None @ replicate n None @ map Some D @ ?r) (length A) (length A + n) (length D) =
      Some (map Some A @ map Some D @ replicate (?L - ?t) None,
        replicate (length A) None @ replicate n None @ replicate (length D) None @ ?r)"
    using move_between_run [of "map Some A" D "replicate (?L - ?t) None"
        "replicate (length A) None @ replicate n None" ?r]
    unfolding l2 by simp
  consider "A = []" "D = []" | "A \<noteq> []" "D = []" | "A = []" "D \<noteq> []" | "A \<noteq> []" "D \<noteq> []" by blast
  then show ?thesis
  proof cases
    case 3
    then show ?thesis using m2 h by (simp add: shrink_to_local_def)
  qed (use m1 m2 in \<open>simp_all add: shrink_to_local_def\<close>)
qed

lemma Vector_shrink_closes:
  assumes v: "vec_hole v A n D" and n: "0 < n"
    and room: "vec_room (v_elementSize v) (length A + length D)"
  shows "\<exists>v'. Vector_shrink m v n 4 (length A) = Some v' \<and> v_size v' = v_size v \<and>
    vec_rep (v'\<lparr>v_size := length A + length D\<rparr>) (A @ D) \<and> v_elementSize v' = v_elementSize v"
proof -
  define t where "t = length A + length D"
  let ?es = "v_elementSize v"
  have fr: "vec_frame v" and sz: "v_size v = length A + n + length D" "v_size v \<le> v_avail v"
    using v by (simp_all add: vec_hole_def)
  have szt: "v_size v - n = t" "length (A @ D) = t" using sz(1) by (simp_all add: t_def)
  obtain cs where ip: "shrink_in_place v n (length A) t = Some (v\<lparr>v_cells := cs\<rparr>)"
      "length cs = v_avail v" "cs = map Some (A @ D) @ replicate (v_avail v - t) None"
    using shrink_in_place_closes [OF v n] unfolding t_def by blast
  let ?v = "v\<lparr>v_cells := cs\<rparr>"
  have rep: "vec_rep (?v\<lparr>v_size := t\<rparr>) (A @ D)"
    using fr ip sz szt by (simp add: vec_rep_def vec_frame_def)
  show ?thesis
  proof (cases "t \<le> v_localSpace v")
    case True
    let ?w = "v\<lparr>v_avail := v_localSpace v,
      v_cells := map Some (A @ D) @ replicate (v_localSpace v - t) None\<rparr>"
    have w: "vec_rep (?w\<lparr>v_size := t\<rparr>) (A @ D)"
      using True fr szt by (simp add: vec_rep_def vec_frame_def)
    have "Vector_shrink m v n 4 (length A) = Some (if v_avail v > v_localSpace v then ?w else ?v)"
      using True sz(1) ip(1) shrink_to_local_closes [OF v] by (simp add: Vector_shrink_def Let_def t_def)
    then show ?thesis using w rep by (auto simp: t_def [symmetric])
  next
    case False
    define c where "c = round8 (w32 (w32 (t * 2) * ?es)) div ?es"
    have b: "3 * (t + 1) * ?es + 8 \<le> 2 ^ 32" using room by (simp add: vec_room_def t_def)
    have es: "0 < ?es" using fr by (simp add: vec_frame_def)
    have "t * 2 \<le> 3 * (t + 1)" by simp
    then have le: "t * 2 * ?es \<le> 3 * (t + 1) * ?es" by (rule mult_le_mono1)
    moreover have "t * 2 \<le> t * 2 * ?es" using es by simp
    ultimately have w: "w32 (t * 2) = t * 2" using b by (intro w32_id) linarith
    have "t * 2 * ?es + 8 \<le> 2 ^ 32" using le b by linarith
    from round_cells [OF es this] have "t * 2 \<le> c" by (simp only: c_def w)
    then have c: "t \<le> c" by simp
    then have lc: "v_localSpace v \<le> c" using False by simp
    have "vec_rep (?v\<lparr>v_size := t, v_avail := c, v_cells := resize_block c cs\<rparr>) (A @ D)"
      using vec_rep_resize [OF rep, of c] c lc szt by simp
    then have r1: "vec_rep (?v\<lparr>v_avail := c, v_cells := resize_block c cs, v_size := t\<rparr>) (A @ D)"
      by (simp add: vec_rep_def vec_frame_def)
    define ds where "ds = map Some (A @ D) @ replicate (c - t) None"
    have "replicate c None = replicate (length (A @ D)) None @ replicate (c - t) (None :: 'a option)"
      using c szt(2) by (simp only: flip: replicate_add) simp
    then have "move_between (replicate c None) cs 0 0 t =
        Some (ds, replicate t None @ replicate (v_avail v - t) None)"
      using move_between_run [of "[]" "A @ D" "replicate (c - t) None" "[]" "replicate (v_avail v - t) None"]
        ip(3) szt(2) by (simp only: append_Nil list.size ds_def)
    moreover have "vec_rep (?v\<lparr>v_avail := c, v_cells := ds, v_size := t\<rparr>) (A @ D)"
      using rep c lc szt by (simp add: vec_rep_def vec_frame_def ds_def)
    moreover from calculation(1) have "Vector_shrink m v n 4 (length A) =
      Some (if w32 (t * 4) < v_avail v \<and> can_inplace m
            then ?v\<lparr>v_avail := c, v_cells := resize_block c cs\<rparr>
            else if w32 (t * 4) < v_avail v \<and> can_malloc m then ?v\<lparr>v_avail := c, v_cells := ds\<rparr> else ?v)"
      using False ip(1) sz(1) szt by (simp add: Vector_shrink_def c_def Let_def flip: mult_2_right)
    ultimately show ?thesis
      using rep r1 by (simp add: t_def [symmetric])
  qed
qed

section \<open>The operations on the contents\<close>

text \<open>
  For contents \<open>xs\<close>: the operations are the list operations of the same meaning; when memory
  runs out a vector keeps its contents.
\<close>

lemma Vector_RemoveItemsAt_rep:
  assumes v: "vec_rep v xs" and room: "vec_room (v_elementSize v) (length xs)" and nw: "i + n < 2 ^ 32"
  shows "\<exists>v'. Vector_RemoveItemsAt m v i n = Some v' \<and> vec_rep v' (take i xs @ drop (i + n) xs) \<and>
    v_elementSize v' = v_elementSize v"
proof (cases "n > 0 \<and> i < length xs")
  case False
  then have "take i xs @ drop (i + n) xs = xs" by auto
  moreover have "v_size v = length xs" using v by (simp add: vec_rep_def)
  with False have "Vector_RemoveItemsAt m v i n = Some v" by (auto simp: Vector_RemoveItemsAt_def)
  ultimately show ?thesis using v by simp
next
  case True
  define c where "c = (if w32 (i + n) > v_size v then v_size v - i else n)"
  let ?A = "take i xs" and ?D = "drop (i + n) xs"
  have sz: "v_size v = length xs" "length xs \<le> v_avail v" "vec_frame v" using v by (simp_all add: vec_rep_def)
  have "c = min n (length xs - i)" using nw sz by (auto simp: c_def min_def)
  then have c: "0 < c" "i + c \<le> length xs" "drop (i + c) xs = ?D" using True by (auto simp: min_def)
  let ?B = "map Some ?D @ replicate (v_avail v - length xs) None"
  have "v_cells v = map Some ?A @ map Some (take c (drop i xs)) @ ?B"
  proof -
    have "drop i xs = take c (drop i xs) @ ?D" using c by (metis append_take_drop_id drop_drop add.commute)
    then have "xs = ?A @ take c (drop i xs) @ ?D" by (metis append_take_drop_id)
    then have "map Some xs = map Some ?A @ map Some (take c (drop i xs)) @ map Some ?D"
      by (metis map_append)
    then show ?thesis using v by (simp add: vec_rep_def)
  qed
  moreover have "length (take c (drop i xs)) = c" using c by simp
  ultimately have d: "destroy (v_cells v) i c = Some (map Some ?A @ replicate c None @ ?B)"
    using destroy_run [of "map Some ?A" "take c (drop i xs)" ?B] True by simp
  let ?v = "v\<lparr>v_cells := map Some ?A @ replicate c None @ ?B\<rparr>"
  have lens: "length ?A = i" "length ?D = length xs - i - c" using True c by (auto simp flip: c(3))
  have "vec_hole ?v ?A c ?D"
    using sz c lens by (simp add: vec_hole_def vec_frame_def)
  moreover have "length ?A + length ?D \<le> length xs" using lens c by linarith
  then have "vec_room (v_elementSize ?v) (length ?A + length ?D)"
    using vec_room_mono [OF room] by simp
  ultimately obtain v' where v': "Vector_shrink m ?v c 4 (length ?A) = Some v'" "v_size v' = length xs"
      "vec_rep (v'\<lparr>v_size := length ?A + length ?D\<rparr>) (?A @ ?D)" "v_elementSize v' = v_elementSize v"
    using Vector_shrink_closes [of ?v ?A c ?D m] c(1) sz(1) by auto
  have run: "Vector_RemoveItemsAt m v i n =
      do { cs \<leftarrow> destroy (v_cells v) i c;
           v \<leftarrow> Vector_shrink m (v\<lparr>v_cells := cs\<rparr>) c 4 i;
           Some (v\<lparr>v_size := v_size v - c\<rparr>) }"
    using True sz(1) c(1) unfolding c_def by (simp add: Vector_RemoveItemsAt_def Let_def)
  have "length xs - c = length ?A + length ?D" using lens c(2) by linarith
  then have "Vector_RemoveItemsAt m v i n = Some (v'\<lparr>v_size := length ?A + length ?D\<rparr>)"
    using run d v'(1,2) lens(1) by simp
  with v'(3,4) show ?thesis by auto
qed

lemma grow_fill:
  assumes v: "vec_rep v xs" and room: "vec_room (v_elementSize v) (length xs + length ys)"
    and pos: "ys \<noteq> [] \<or> length xs \<le> pos"
  shows "(\<exists>v' cs. Vector_grow m v (length ys) 3 pos = Some (v', True) \<and>
      construct_list (v_cells v') (min pos (length xs)) ys = Some cs \<and> v_size v' = length xs \<and>
      vec_rep (v'\<lparr>v_cells := cs, v_size := length xs + length ys\<rparr>) (take pos xs @ ys @ drop pos xs) \<and>
      v_elementSize v' = v_elementSize v) \<or>
    Vector_grow m v (length ys) 3 pos = Some (v, False) \<and> \<not> can_malloc m"
proof -
  let ?i = "min pos (length xs)"
  have eq: "take ?i xs @ ys @ drop ?i xs = take pos xs @ ys @ drop pos xs" by (simp add: min_def)
  consider (ok) v' where "Vector_grow m v (length ys) 3 pos = Some (v', True)" "vec_gap v' xs ?i (length ys)"
      "v_elementSize v' = v_elementSize v" |
    (fail) "Vector_grow m v (length ys) 3 pos = Some (v, False)" "\<not> can_malloc m"
    using Vector_grow_gap [OF v room, of 3 pos m] pos by auto
  then show ?thesis
  proof cases
    case ok
    moreover have "v_size v' = length xs" using ok(2) by (simp add: vec_gap_def)
    ultimately show ?thesis using vec_gap_fill [OF ok(2)] eq by fastforce
  qed simp
qed

lemma Vector_AddArrayAt_rep:
  assumes v: "vec_rep v xs" and room: "vec_room (v_elementSize v) (length xs + length ys)"
  shows "(\<exists>v'. Vector_AddArrayAt m v ys i = Some (v', int (length xs + length ys)) \<and>
      vec_rep v' (take i xs @ ys @ drop i xs) \<and> v_elementSize v' = v_elementSize v) \<or>
    Vector_AddArrayAt m v ys i = Some (v, B_NO_MEMORY) \<and> \<not> can_malloc m"
proof (cases "ys = []")
  case True
  then show ?thesis using v by (simp add: Vector_AddArrayAt_def vec_rep_def)
next
  case False
  let ?i = "min i (length xs)"
  have i: "(if i > v_size v then v_size v else i) = ?i" using v by (simp add: vec_rep_def min_def)
  have eq: "take ?i xs @ ys @ drop ?i xs = take i xs @ ys @ drop i xs" by (simp add: min_def)
  show ?thesis
    using grow_fill [OF v room, of ?i m] False eq by (auto simp: Vector_AddArrayAt_def i Let_def)
qed

lemma Vector_AddAt_rep:
  assumes v: "vec_rep v xs" and room: "vec_room (v_elementSize v) (Suc (length xs))"
  shows "(\<exists>v'. Vector_AddAt m dflt v (Some x) i = Some (v', int (min i (length xs))) \<and>
      vec_rep v' (take i xs @ x # drop i xs) \<and> v_elementSize v' = v_elementSize v) \<or>
    Vector_AddAt m dflt v (Some x) i = Some (v, B_NO_MEMORY) \<and> \<not> can_malloc m"
proof -
  let ?i = "min i (length xs)"
  have i: "(if i > v_size v then v_size v else i) = ?i" using v by (simp add: vec_rep_def min_def)
  have eq: "take ?i xs @ x # drop ?i xs = take i xs @ x # drop i xs" by (simp add: min_def)
  show ?thesis
    using grow_fill [OF v, of "[x]" ?i m] room eq by (auto simp: Vector_AddAt_def i Let_def)
qed

lemma Vector_Add_rep:
  assumes v: "vec_rep v xs" and room: "vec_room (v_elementSize v) (Suc (length xs))"
    and n: "length xs \<le> NPOS"
  shows "(\<exists>v'. Vector_Add m dflt v (Some x) = Some (v', int (length xs)) \<and>
      vec_rep v' (xs @ [x]) \<and> v_elementSize v' = v_elementSize v) \<or>
    Vector_Add m dflt v (Some x) = Some (v, B_NO_MEMORY) \<and> \<not> can_malloc m"
  using grow_fill [OF v, of "[x]" NPOS m] room n by (auto simp: Vector_Add_def)

lemma Vector_MakeEmpty_rep:
  assumes "vec_rep v xs"
  shows "\<exists>v'. Vector_MakeEmpty v = Some v' \<and> vec_rep v' [] \<and> v_elementSize v' = v_elementSize v"
  using destroy_run [of "[]" xs "replicate (v_avail v - length xs) None"] assms
  by (auto simp: Vector_MakeEmpty_def vec_rep_def vec_frame_def simp flip: replicate_add)

lemma Vector_At_rep:
  assumes "vec_rep v xs"
  shows "Vector_At v i = (if i < length xs then Some (xs ! i) else None)"
  using assms by (auto simp: Vector_At_def vec_rep_def vec_frame_def nth_append)

lemma Vector_ReplaceAt_rep:
  assumes "vec_rep v xs" "i < length xs"
  shows "\<exists>v'. Vector_ReplaceAt v x i = Some (v', int i) \<and> vec_rep v' (xs[i := x]) \<and>
    v_elementSize v' = v_elementSize v"
  using assms Vector_At_rep [OF assms(1), of i]
  by (auto simp: Vector_ReplaceAt_def vec_rep_def vec_frame_def list_update_append map_update)

lemma move_out_run:
  "move_between (replicate (length Y) None) (map Some A @ map Some Y @ B) 0 (length A) (length Y) =
    Some (map Some Y, map Some A @ replicate (length Y) None @ B)"
  using move_between_run [of "[]" Y "[]" "map Some A" B] by simp

lemma move_in_run:
  "move_between (map Some A @ replicate (length Y) None @ B) (map Some Y) (length A) 0 (length Y) =
    Some (map Some A @ map Some Y @ B, replicate (length Y) None)"
  using move_between_run [of "map Some A" Y B "[]" "[]"] by simp

text \<open>The two directions of \<^verbatim>\<open>MoveItems\<close> on the cells: \<open>Y\<close> moves over \<open>B\<close>.\<close>

lemma move_items_left:
  assumes "Y \<noteq> []"
  shows "do { (buffer, d) \<leftarrow> move_between (replicate (length Y) None)
                (map Some A @ map Some B @ map Some Y @ R) 0 (length A + length B) (length Y);
           d \<leftarrow> move_after d (length A + length Y) (length A) (length B);
           (d, _) \<leftarrow> move_between d buffer (length A) 0 (length Y);
           Some d } = Some (map Some A @ map Some Y @ map Some B @ R)"
  using move_out_run [of Y "A @ B" R] move_after_gap [of "length Y" "map Some A" B R]
    move_in_run [of A Y "map Some B @ R"] assms
  by simp

lemma move_items_right:
  assumes "Y \<noteq> []"
  shows "do { (buffer, d) \<leftarrow> move_between (replicate (length Y) None)
                (map Some A @ map Some Y @ map Some B @ R) 0 (length A) (length Y);
           d \<leftarrow> move_before d (length A) (length A + length Y) (length B);
           (d, _) \<leftarrow> move_between d buffer (length A + length B) 0 (length Y);
           Some d } = Some (map Some A @ map Some B @ map Some Y @ R)"
  using move_out_run [of Y A "map Some B @ R"] move_before_gap [of "length Y" "map Some A" B R]
    move_in_run [of "A @ B" Y R] assms
  by simp

definition moved :: "nat \<Rightarrow> nat \<Rightarrow> nat \<Rightarrow> 'a list \<Rightarrow> 'a list" where
  "moved new old n xs =
     (let n = min n (length xs - old); new = min new (length xs - n);
          rest = take old xs @ drop (old + n) xs
      in take new rest @ take n (drop old xs) @ drop new rest)"

lemma split_four:
  fixes xs :: "'a list"
  assumes "i \<le> j" "j \<le> k" "k \<le> length xs"
  obtains A B C D where "xs = A @ B @ C @ D" "length A = i" "length B = j - i" "length C = k - j"
proof
  show "xs = take i xs @ take (j - i) (drop i xs) @ take (k - j) (drop j xs) @ drop k xs"
    using assms by (metis append_take_drop_id drop_drop le_add_diff_inverse2)
qed (use assms in auto)

lemma Vector_MoveItems_rep:
  assumes v: "vec_rep v xs" and old: "old < length xs" and n: "0 < n"
    and nw: "old + n < 2 ^ 32" "new + n < 2 ^ 32"
  shows "(\<exists>v'. Vector_MoveItems m v new old n = Some (v', B_OK) \<and> vec_rep v' (moved new old n xs)) \<or>
    Vector_MoveItems m v new old n = Some (v, B_NO_MEMORY) \<and> \<not> can_malloc m"
proof -
  define c where "c = min n (length xs - old)"
  define t where "t = min new (length xs - c)"
  let ?R = "replicate (v_avail v - length xs) (None :: 'a option)"
  have sz: "v_size v = length xs" and cells: "v_cells v = map Some xs @ ?R"
    using v by (simp_all add: vec_rep_def)
  have c: "(if w32 (old + n) > v_size v then v_size v - old else n) = c" "0 < c" "old + c \<le> length xs"
    using nw(1) sz old n by (auto simp: c_def)
  have "new + c \<le> new + n" by (simp add: c_def)
  then have "w32 (new + c) = new + c" using nw(2) by (intro w32_id) linarith
  then have t: "(if w32 (new + c) > v_size v then v_size v - c else new) = t"
    using sz c(3) by (auto simp: t_def)
  have mv: "moved new old n xs = take t (take old xs @ drop (old + c) xs) @ take c (drop old xs) @
      drop t (take old xs @ drop (old + c) xs)"
    by (simp add: moved_def Let_def c_def t_def)
  show ?thesis
  proof (cases "old = t \<or> w32 (v_elementSize v * c) > 32 \<and> \<not> can_malloc m")
    case True
    have "moved new old n xs = xs" if "old = t"
      using that c mv by (simp add: add.commute flip: drop_drop)
    then show ?thesis
      using True v c t n old sz by (auto simp: Vector_MoveItems_def Let_def)
  next
    case False
    have run: "Vector_MoveItems m v new old n =
      do { d \<leftarrow> do { (buffer, d) \<leftarrow> move_between (replicate c None) (v_cells v) 0 old c;
             d \<leftarrow> (if t < old then move_after d (t + c) t (old - t)
                   else move_before d old (old + c) (t - old));
             (d, _) \<leftarrow> move_between d buffer t 0 c;
             Some d };
           Some (v\<lparr>v_cells := d\<rparr>, B_OK) }"
      unfolding Vector_MoveItems_def Let_def c(1) t
      using False n old sz c(2) by (auto simp: case_prod_unfold Option.bind_assoc)
    have finish: ?thesis if "do { (buffer, d) \<leftarrow> move_between (replicate c None) (v_cells v) 0 old c;
             d \<leftarrow> (if t < old then move_after d (t + c) t (old - t)
                   else move_before d old (old + c) (t - old));
             (d, _) \<leftarrow> move_between d buffer t 0 c;
             Some d } = Some (map Some (moved new old n xs) @ ?R)" "length (moved new old n xs) = length xs"
      using run that v by (simp add: vec_rep_def vec_frame_def)
    show ?thesis
    proof (cases "t < old")
      case True
      obtain A B Y D where s: "xs = A @ B @ Y @ D" "length A = t" "length B = old - t" "length Y = c"
        by (rule split_four [of t old "old + c" xs]) (use True c(3) in auto)
      then have old: "old = length A + length B" using True by simp
      have m: "moved new old n xs = A @ Y @ B @ D"
        by (subst mv) (use s(2,4) in \<open>simp add: s(1) old\<close>)
      show ?thesis
        using move_items_left [of Y A B "map Some D @ ?R"] True c(2) s(2,4)
        by (intro finish, unfold m) (auto simp: cells s(1) old)
    next
      case False2: False
      then have lt: "old < t" using False by simp
      have tc: "t + c \<le> length xs" using c(3) by (simp add: t_def)
      obtain A Y B D where s: "xs = A @ Y @ B @ D" "length A = old" "length Y = c" "length B = t - old"
        by (rule split_four [of old "old + c" "t + c" xs]) (use lt tc in auto)
      then have t': "t = length A + length B" using lt by simp
      have m: "moved new old n xs = A @ B @ Y @ D"
        by (subst mv) (use s(2,3) in \<open>simp add: s(1) t'\<close>)
      show ?thesis
        using move_items_right [of Y A B "map Some D @ ?R"] lt c(2) s(2,3)
        by (intro finish, unfold m) (auto simp: cells s(1) t')
    qed
  qed
qed

lemma Vector_SetSize_rep:
  assumes v: "vec_rep v xs" and room: "vec_room (v_elementSize v) (max n (length xs))"
    and n: "length xs \<le> NPOS"
  shows "(\<exists>v'. Vector_SetSize m dflt v n proto = Some (v', B_OK) \<and> v_elementSize v' = v_elementSize v \<and>
      vec_rep v' (take n xs @ replicate (n - length xs) (case proto of Some p \<Rightarrow> p | None \<Rightarrow> dflt))) \<or>
    Vector_SetSize m dflt v n proto = Some (v, B_NO_MEMORY) \<and> \<not> can_malloc m"
proof (cases "n > length xs")
  case True
  let ?ys = "replicate (n - length xs) (case proto of Some p \<Rightarrow> p | None \<Rightarrow> dflt)"
  have "v_size v = length xs" using v by (simp add: vec_rep_def)
  then show ?thesis
    using grow_fill [OF v, of ?ys NPOS m] True room n by (auto simp: Vector_SetSize_def)
next
  case False
  then have "vec_room (v_elementSize v) (length xs)" "n + (length xs - n) = length xs"
    using room by (simp_all add: max_def split: if_splits)
  moreover have "length xs < 2 ^ 32" using n by (simp add: NPOS_def)
  moreover have "v_size v = length xs" using v by (simp add: vec_rep_def)
  ultimately show ?thesis
    using Vector_RemoveItemsAt_rep [OF v, of n "length xs - n" m] False
    by (auto simp: Vector_SetSize_def)
qed

lemma Vector_copy_rep:
  assumes v: "vec_rep v xs" and room: "vec_room (v_elementSize v) (length xs)"
  shows "\<exists>v'. Vector_copy m v = Some v' \<and>
    (vec_rep v' xs \<or> vec_rep v' [] \<and> \<not> can_malloc m)"
proof -
  have es: "0 < v_elementSize v" using v by (simp add: vec_rep_def vec_frame_def)
  note new = vec_rep_new [OF es]
  have "v_size v = length xs" "read_cells (v_cells v) (length xs) = Some xs"
    using v read_run by (auto simp: vec_rep_def)
  then show ?thesis
    using grow_fill [OF new, of xs NPOS m] new room by (cases "xs = []") (auto simp: Vector_copy_def Let_def)
qed

lemma Vector_assign_rep:
  assumes v: "vec_rep (\<sigma> this) xs" "vec_rep (\<sigma> other) ys" and ne: "this \<noteq> other"
    and es: "v_elementSize (\<sigma> this) = v_elementSize (\<sigma> other)"
    and room: "vec_room (v_elementSize (\<sigma> other)) (length ys)"
  shows "\<exists>v'. Vector_assign m \<sigma> this other = Some (\<sigma>(this := v')) \<and>
    (vec_rep v' ys \<or> vec_rep v' [] \<and> \<not> can_malloc m)"
proof (cases "ys = []")
  case True
  then have "v_size (\<sigma> other) = 0" using v(2) by (simp add: vec_rep_def)
  then show ?thesis
    using Vector_MakeEmpty_rep [OF v(1)] es True by (auto simp: Vector_assign_def)
next
  case False
  let ?r = "replicate (v_avail (\<sigma> this) - length xs) None"
  let ?w = "(\<sigma> this)\<lparr>v_cells := replicate (v_avail (\<sigma> this)) None, v_size := 0\<rparr>"
  have sz: "v_size (\<sigma> this) = length xs" "v_size (\<sigma> other) = length ys"
    and rd: "read_cells (v_cells (\<sigma> other)) (length ys) = Some ys"
    using v read_run by (auto simp: vec_rep_def)
  have d: "destroy (v_cells (\<sigma> this)) 0 (length xs) = Some (replicate (v_avail (\<sigma> this)) None)"
    using destroy_run [of "[]" xs ?r] v(1) by (simp add: vec_rep_def flip: replicate_add)
  have w: "vec_rep ?w []" using v(1) by (simp add: vec_rep_def vec_frame_def)
  have emptied: "(if v_size (\<sigma> this) > 0
      then do { cs \<leftarrow> destroy (v_cells (\<sigma> this)) 0 (v_size (\<sigma> this));
                Some (\<sigma>(this := (\<sigma> this)\<lparr>v_cells := cs, v_size := 0\<rparr>)) }
      else Some \<sigma>) = Some (\<sigma>(this := ?w))"
  proof (cases "xs = []")
    case True
    then have "?w = \<sigma> this" using v(1) by (simp add: vec_rep_def)
    then show ?thesis using True sz by simp
  qed (use d sz in simp)
  consider (ok) v' cs where "Vector_grow m ?w (length ys) 3 NPOS = Some (v', True)"
      "construct_list (v_cells v') 0 ys = Some cs" "vec_rep (v'\<lparr>v_cells := cs, v_size := length ys\<rparr>) ys" |
    (fail) "Vector_grow m ?w (length ys) 3 NPOS = Some (?w, False)" "\<not> can_malloc m"
    using grow_fill [OF w, of ys NPOS m] room es by auto
  then show ?thesis
  proof cases
    case ok
    then show ?thesis
      unfolding Vector_assign_def emptied using es sz False rd ne
      by (auto intro!: exI [of _ "v'\<lparr>v_cells := cs, v_size := length ys\<rparr>"])
  next
    case fail
    then show ?thesis
      unfolding Vector_assign_def emptied using es sz False w ne
      by (auto intro!: exI [of _ ?w])
  qed
qed

text \<open>
  Assignment of a vector to itself empties it: its own elements are destroyed before they are
  read.
\<close>

lemma Vector_assign_self:
  assumes v: "vec_rep (\<sigma> this) xs" and ne: "xs \<noteq> []"
  shows "\<exists>v'. Vector_assign m \<sigma> this this = Some (\<sigma>(this := v')) \<and> vec_rep v' []"
proof -
  let ?r = "replicate (v_avail (\<sigma> this) - length xs) None"
  let ?w = "(\<sigma> this)\<lparr>v_cells := replicate (v_avail (\<sigma> this)) None, v_size := 0\<rparr>"
  have sz: "v_size (\<sigma> this) = length xs" using v by (simp add: vec_rep_def)
  have "destroy (v_cells (\<sigma> this)) 0 (length xs) = Some (replicate (v_avail (\<sigma> this)) None)"
    using destroy_run [of "[]" xs ?r] v by (simp add: vec_rep_def flip: replicate_add)
  moreover have "vec_rep ?w []" using v by (simp add: vec_rep_def vec_frame_def)
  ultimately show ?thesis
    using sz ne by (auto simp: Vector_assign_def Vector_grow_def grow_in_place_def w32_def)
qed

section \<open>Properties\<close>

text \<open>
  C4. Adding an array at an index inserts its elements there (past the end: appends them) and
  returns the new size, whichever way \<^verbatim>\<open>grow\<close> finds the space; every element access stays inside
  the block and respects object lifetimes. When memory runs out the vector is unchanged.
\<close>

theorem vector_insert_array:
  assumes "vec_rep v xs" "vec_room (v_elementSize v) (length xs + length ys)"
  shows "(\<exists>v'. Vector_AddArrayAt m v ys i = Some (v', int (length xs + length ys)) \<and>
      vec_rep v' (take i xs @ ys @ drop i xs)) \<or>
    Vector_AddArrayAt m v ys i = Some (v, B_NO_MEMORY) \<and> \<not> can_malloc m"
  using Vector_AddArrayAt_rep [OF assms] by blast

lemma vector_example:
  obtains v where "Vector_AddArrayAt \<lparr>can_inplace = False, can_malloc = True\<rparr> (Vector_new 4) [1, 2, 3 :: nat] 0 =
      Some (v, 3)" "vec_rep v [1, 2, 3]" "v_elementSize v = 4" "vec_room 4 (Suc (Suc (Suc 0)))"
proof -
  have "vec_rep (Vector_new 4) ([] :: nat list)" "vec_room 4 (Suc (Suc (Suc 0)))"
    by (simp_all add: vec_rep_new vec_room_def)
  then show thesis
    using Vector_AddArrayAt_rep [of "Vector_new 4" "[]" "[1, 2, 3 :: nat]" "\<lparr>can_inplace = False, can_malloc = True\<rparr>" 0] that
    by auto
qed

theorem vector_insert_array_witness:
  "\<exists>v. Vector_AddArrayAt \<lparr>can_inplace = False, can_malloc = True\<rparr> (Vector_new 4) [1, 2, 3 :: nat] 0 =
     Some (v, 3) \<and> vec_rep v [1, 2, 3]"
  using vector_insert_array [of "Vector_new 4" "[]" "[1, 2, 3 :: nat]" "\<lparr>can_inplace = False, can_malloc = True\<rparr>" 0]
  by (auto simp: vec_rep_new vec_room_def)

text \<open>
  Removing a range (clipped to the end of the vector) leaves exactly the other elements,
  in order, and never fails, however \<^verbatim>\<open>shrink\<close> reorganises the storage: in place, back to the
  local space, or into a smaller block.
\<close>

lemma vector_remove_range:
  assumes "vec_rep v xs" "vec_room (v_elementSize v) (length xs)" "i + n < 2 ^ 32"
  shows "\<exists>v'. Vector_RemoveItemsAt m v i n = Some v' \<and> vec_rep v' (take i xs @ drop (i + n) xs)"
  using Vector_RemoveItemsAt_rep [OF assms] by blast

lemma vector_remove_range_example:
  "\<exists>v v'. Vector_AddArrayAt \<lparr>can_inplace = False, can_malloc = True\<rparr> (Vector_new 4) [1, 2, 3 :: nat] 0 =
     Some (v, 3) \<and> Vector_RemoveItemsAt \<lparr>can_inplace = False, can_malloc = False\<rparr> v 0 1 = Some v' \<and>
     vec_rep v' [2, 3]"
proof -
  obtain v where v: "Vector_AddArrayAt \<lparr>can_inplace = False, can_malloc = True\<rparr> (Vector_new 4) [1, 2, 3 :: nat] 0 =
      Some (v, 3)" "vec_rep v [1, 2, 3]" "v_elementSize v = 4" "vec_room 4 (Suc (Suc (Suc 0)))"
    by (rule vector_example)
  then obtain v' where "Vector_RemoveItemsAt \<lparr>can_inplace = False, can_malloc = False\<rparr> v 0 1 = Some v'"
      "vec_rep v' [2, 3]"
    using vector_remove_range [OF v(2), of 0 1] v(3,4) by auto
  with v(1) show ?thesis by blast
qed

text \<open>
  \<^verbatim>\<open>MoveItems\<close> takes the items out (clipped to the end) and puts them back at the new index
  (clipped so that they fit), keeping the order of all others; only the temporary buffer can
  fail, and then nothing has moved.
\<close>

lemma vector_move_items:
  assumes "vec_rep v xs" "old < length xs" "0 < n" "old + n < 2 ^ 32" "new + n < 2 ^ 32"
  shows "(\<exists>v'. Vector_MoveItems m v new old n = Some (v', B_OK) \<and> vec_rep v' (moved new old n xs)) \<or>
    Vector_MoveItems m v new old n = Some (v, B_NO_MEMORY) \<and> \<not> can_malloc m"
  by (rule Vector_MoveItems_rep [OF assms])

lemma vector_move_items_example:
  "\<exists>v v'. Vector_AddArrayAt \<lparr>can_inplace = False, can_malloc = True\<rparr> (Vector_new 4) [1, 2, 3 :: nat] 0 =
     Some (v, 3) \<and> Vector_MoveItems \<lparr>can_inplace = False, can_malloc = True\<rparr> v 1 0 1 = Some (v', B_OK) \<and>
     vec_rep v' [2, 1, 3]"
proof -
  obtain v where v: "Vector_AddArrayAt \<lparr>can_inplace = False, can_malloc = True\<rparr> (Vector_new 4) [1, 2, 3 :: nat] 0 =
      Some (v, 3)" "vec_rep v [1, 2, 3]" "v_elementSize v = 4" "vec_room 4 (Suc (Suc (Suc 0)))"
    by (rule vector_example)
  have "moved 1 0 1 [1, 2, 3 :: nat] = [2, 1, 3]" by (simp add: moved_def)
  with vector_move_items [OF v(2), of 0 1 1 "\<lparr>can_inplace = False, can_malloc = True\<rparr>"] v(1)
  show ?thesis by auto
qed

text \<open>
  Assignment between two vectors copies the contents and leaves the source alone; if the
  memory for the copy runs out the target is left empty.
\<close>

lemma vector_assign:
  assumes "vec_rep (\<sigma> this) xs" "vec_rep (\<sigma> other) ys" "this \<noteq> other"
    and "v_elementSize (\<sigma> this) = v_elementSize (\<sigma> other)"
    and "vec_room (v_elementSize (\<sigma> other)) (length ys)"
  shows "\<exists>\<sigma>'. Vector_assign m \<sigma> this other = Some \<sigma>' \<and> \<sigma>' other = \<sigma> other \<and>
    (vec_rep (\<sigma>' this) ys \<or> vec_rep (\<sigma>' this) [] \<and> \<not> can_malloc m)"
  using Vector_assign_rep [OF assms] assms(3) by (metis fun_upd_other fun_upd_same)

lemma vector_assign_example:
  "\<exists>v \<sigma>'. Vector_AddArrayAt \<lparr>can_inplace = False, can_malloc = True\<rparr> (Vector_new 4) [1, 2, 3 :: nat] 0 =
     Some (v, 3) \<and>
     Vector_assign \<lparr>can_inplace = False, can_malloc = True\<rparr> ((\<lambda>_. Vector_new 4)(True := v)) False True =
       Some \<sigma>' \<and> vec_rep (\<sigma>' False) [1, 2, 3]"
proof -
  obtain v where v: "Vector_AddArrayAt \<lparr>can_inplace = False, can_malloc = True\<rparr> (Vector_new 4) [1, 2, 3 :: nat] 0 =
      Some (v, 3)" "vec_rep v [1, 2, 3]" "v_elementSize v = 4" "vec_room 4 (Suc (Suc (Suc 0)))"
    by (rule vector_example)
  let ?\<sigma> = "(\<lambda>_. Vector_new 4)(True := v)"
  have "vec_rep (?\<sigma> False) []" "vec_rep (?\<sigma> True) [1, 2, 3]" using v(2) by (simp_all add: vec_rep_new)
  then show ?thesis
    using vector_assign [of ?\<sigma> False "[]" True "[1, 2, 3 :: nat]" "\<lparr>can_inplace = False, can_malloc = True\<rparr>"] v(1,3,4)
    by auto
qed

text \<open>
  An end index that wraps around escapes the clipping: removing \<open>0xFFFFFFFF\<close> items from index 1
  destroys cells past the end.
\<close>

lemma vector_remove_wraps:
  assumes "vec_rep v [x, y]"
  shows "Vector_RemoveItemsAt m v 1 0xFFFFFFFF = None"
proof -
  have c: "v_cells v = Some x # Some y # replicate (v_avail v - 2) None" "v_size v = 2"
    using assms by (simp_all add: vec_rep_def numeral_2_eq_2)
  have n: "0xFFFFFFFF = Suc (Suc 0xFFFFFFFD)" by simp
  have "destroy (v_cells v) 1 0xFFFFFFFF = None"
    unfolding n c by (cases "v_avail v - 2") (simp_all del: Suc_numeral)
  then show ?thesis using c(2) by (simp add: Vector_RemoveItemsAt_def w32_def)
qed

end
