(* ===== verification/Sorted_Vector.thy ===== *)
theory Sorted_Vector
  imports Vector
begin

text \<open>
  Sorted and keyed vectors: classes \<^verbatim>\<open>SAbstractSortedVector\<close> and \<^verbatim>\<open>SAbstractKeyedVector\<close> of
  \<^verbatim>\<open>libraries/libbinder/support/SortedVector.cpp\<close>. The element comparison (\<^verbatim>\<open>PerformCompare\<close>, a
  hook of the subclass) is a parameter; what the code relies on is the locale \<open>comparator\<close>.
  The results of the operations are those of the vector below, so \<open>None\<close> again stands for an
  access outside a block.
\<close>

section \<open>Sorted vectors\<close>

text \<open>The value of a signed 32-bit sum.\<close>

definition s32 :: "int \<Rightarrow> int" where
  "s32 x = (x + 2 ^ 31) mod 2 ^ 32 - 2 ^ 31"

text \<open>
  The binary search. \<^verbatim>\<open>(low + high)/2\<close> leaves the range \<open>low..high\<close> only when the sum overflows;
  it is then negative, and \<^verbatim>\<open>At(mid)\<close> reads outside the block.
\<close>

function order_search :: "('a \<Rightarrow> 'a \<Rightarrow> int) \<Rightarrow> 'a vec \<Rightarrow> 'a \<Rightarrow> int \<Rightarrow> int \<Rightarrow> (bool \<times> nat) option" where
  "order_search cmp v element low high =
     (if low \<le> high
      then (let mid = s32 (low + high) div 2 in
            if mid < low \<or> high < mid then None
            else case Vector_At v (nat mid) of
                   None \<Rightarrow> None
                 | Some y \<Rightarrow>
                     (let c = cmp element y in
                      if c < 0 then order_search cmp v element low (mid - 1)
                      else if c > 0 then order_search cmp v element (mid + 1) high
                      else Some (True, nat mid)))
      else Some (False, nat low))"
  by pat_completeness auto
termination
  by (relation "measure (\<lambda>(cmp, v, x, low, high). nat (high - low + 1))") auto

declare order_search.simps [simp del]

definition GetOrderOf :: "('a \<Rightarrow> 'a \<Rightarrow> int) \<Rightarrow> 'a vec \<Rightarrow> 'a \<Rightarrow> (bool \<times> nat) option" where
  "GetOrderOf cmp v element = order_search cmp v element 0 (int (v_size v) - 1)"

text \<open>The result of \<^verbatim>\<open>AddOrdered\<close> is the new vector, the position or error, and \<^verbatim>\<open>added\<close>.\<close>

definition AddOrdered ::
  "vmem \<Rightarrow> ('a \<Rightarrow> 'a \<Rightarrow> int) \<Rightarrow> 'a vec \<Rightarrow> 'a \<Rightarrow> ('a vec \<times> int \<times> bool) option" where
  "AddOrdered m cmp v newElement =
     do { (found, pos) \<leftarrow> GetOrderOf cmp v newElement;
          if \<not> found
          then do { (v', pos') \<leftarrow> Vector_AddAt m newElement v (Some newElement) pos;
                    Some (v', pos', pos' \<ge> B_OK) }
          else do { (v', _) \<leftarrow> Vector_ReplaceAt v newElement pos;
                    Some (v', int pos, False) } }"

definition OrderOf :: "('a \<Rightarrow> 'a \<Rightarrow> int) \<Rightarrow> 'a vec \<Rightarrow> 'a \<Rightarrow> int option" where
  "OrderOf cmp v element =
     do { (found, pos) \<leftarrow> GetOrderOf cmp v element;
          Some (if found then int pos else B_NAME_NOT_FOUND) }"

definition FloorOrderOf :: "('a \<Rightarrow> 'a \<Rightarrow> int) \<Rightarrow> 'a vec \<Rightarrow> 'a \<Rightarrow> int option" where
  "FloorOrderOf cmp v element =
     do { (found, pos) \<leftarrow> GetOrderOf cmp v element;
          Some (if found then int pos
                else if pos > 0 then int pos - 1
                else if v_size v > 0 then 0 else B_NAME_NOT_FOUND) }"

definition CeilOrderOf :: "('a \<Rightarrow> 'a \<Rightarrow> int) \<Rightarrow> 'a vec \<Rightarrow> 'a \<Rightarrow> int option" where
  "CeilOrderOf cmp v element =
     do { (found, pos) \<leftarrow> GetOrderOf cmp v element;
          Some (if found then int pos
                else let N = v_size v in
                     if pos < N then int pos else if N > 0 then int N - 1 else B_NAME_NOT_FOUND) }"

definition RemoveOrdered :: "vmem \<Rightarrow> ('a \<Rightarrow> 'a \<Rightarrow> int) \<Rightarrow> 'a vec \<Rightarrow> 'a \<Rightarrow> ('a vec \<times> int) option" where
  "RemoveOrdered m cmp v element =
     do { (found, pos) \<leftarrow> GetOrderOf cmp v element;
          if found then do { v' \<leftarrow> Vector_RemoveItemsAt m v pos 1; Some (v', int pos) }
          else Some (v, B_NAME_NOT_FOUND) }"

section \<open>Keyed vectors\<close>

record ('k, 'v) kvec =
  kv_keys :: "'k vec"
  kv_values :: "'v vec"

definition KV_CountItems :: "('k, 'v) kvec \<Rightarrow> nat" where
  "KV_CountItems kv = v_size (kv_keys kv)"

definition AbstractValueAt :: "('k, 'v) kvec \<Rightarrow> nat \<Rightarrow> 'v option" where
  "AbstractValueAt kv i = Vector_At (kv_values kv) i"

definition AbstractKeyAt :: "('k, 'v) kvec \<Rightarrow> nat \<Rightarrow> 'k option" where
  "AbstractKeyAt kv i = Vector_At (kv_keys kv) i"

text \<open>
  The three lookups differ only in how they find the position. The result is \<open>Some v\<close> when the
  key is found and \<open>None\<close> for the undefined value with \<^verbatim>\<open>*found = false\<close>.
\<close>

definition value_at_order :: "('k, 'v) kvec \<Rightarrow> int option \<Rightarrow> 'v option option" where
  "value_at_order kv order =
     do { pos \<leftarrow> order;
          let pos = (if pos \<ge> int (v_size (kv_values kv)) then B_ERROR else pos) in
          if pos \<ge> B_OK then map_option Some (Vector_At (kv_values kv) (nat pos)) else Some None }"

definition KeyedFor :: "('k \<Rightarrow> 'k \<Rightarrow> int) \<Rightarrow> ('k, 'v) kvec \<Rightarrow> 'k \<Rightarrow> 'v option option" where
  "KeyedFor cmp kv key = value_at_order kv (OrderOf cmp (kv_keys kv) key)"

definition FloorKeyedFor :: "('k \<Rightarrow> 'k \<Rightarrow> int) \<Rightarrow> ('k, 'v) kvec \<Rightarrow> 'k \<Rightarrow> 'v option option" where
  "FloorKeyedFor cmp kv key = value_at_order kv (FloorOrderOf cmp (kv_keys kv) key)"

definition CeilKeyedFor :: "('k \<Rightarrow> 'k \<Rightarrow> int) \<Rightarrow> ('k, 'v) kvec \<Rightarrow> 'k \<Rightarrow> 'v option option" where
  "CeilKeyedFor cmp kv key = value_at_order kv (CeilOrderOf cmp (kv_keys kv) key)"

text \<open>A write through the pointer \<^verbatim>\<open>EditKeyedFor\<close> returns, when the key is found.\<close>

definition EditKeyedFor ::
  "('k \<Rightarrow> 'k \<Rightarrow> int) \<Rightarrow> ('k, 'v) kvec \<Rightarrow> 'k \<Rightarrow> ('v \<Rightarrow> 'v) \<Rightarrow> (('k, 'v) kvec \<times> bool) option" where
  "EditKeyedFor cmp kv key f =
     do { pos \<leftarrow> OrderOf cmp (kv_keys kv) key;
          let pos = (if pos \<ge> int (v_size (kv_values kv)) then B_ERROR else pos) in
          if pos \<ge> B_OK
          then do { x \<leftarrow> Vector_At (kv_values kv) (nat pos);
                    (vs, _) \<leftarrow> Vector_ReplaceAt (kv_values kv) (f x) (nat pos);
                    Some (kv\<lparr>kv_values := vs\<rparr>, True) }
          else Some (kv, False) }"

text \<open>
  \<open>mk\<close>, \<open>mv\<close> and \<open>mr\<close> are the answers of the memory system to the insertion of the key, of the
  value, and to the removal of the key when the value could not be inserted.
\<close>

definition AddKeyed ::
  "vmem \<Rightarrow> vmem \<Rightarrow> vmem \<Rightarrow> ('k \<Rightarrow> 'k \<Rightarrow> int) \<Rightarrow> ('k, 'v) kvec \<Rightarrow> 'k \<Rightarrow> 'v \<Rightarrow> (('k, 'v) kvec \<times> int) option" where
  "AddKeyed mk mv mr cmp kv key val =
     do { (ks, pos, added) \<leftarrow> AddOrdered mk cmp (kv_keys kv) key;
          if added
          then do { (vs, vpos) \<leftarrow> Vector_AddAt mv val (kv_values kv) (Some val) (nat pos);
                    ks \<leftarrow> (if vpos < B_OK then Vector_RemoveItemsAt mr ks (nat pos) 1 else Some ks);
                    Some (\<lparr>kv_keys = ks, kv_values = vs\<rparr>, vpos) }
          else if pos \<ge> B_OK
          then do { (vs, _) \<leftarrow> Vector_ReplaceAt (kv_values kv) val (nat pos);
                    Some (\<lparr>kv_keys = ks, kv_values = vs\<rparr>, pos) }
          else Some (kv\<lparr>kv_keys := ks\<rparr>, pos) }"

definition KV_RemoveItemsAt :: "vmem \<Rightarrow> vmem \<Rightarrow> ('k, 'v) kvec \<Rightarrow> nat \<Rightarrow> nat \<Rightarrow> ('k, 'v) kvec option" where
  "KV_RemoveItemsAt mk mv kv index count =
     do { ks \<leftarrow> Vector_RemoveItemsAt mk (kv_keys kv) index count;
          vs \<leftarrow> Vector_RemoveItemsAt mv (kv_values kv) index count;
          Some \<lparr>kv_keys = ks, kv_values = vs\<rparr> }"

definition RemoveKeyed ::
  "vmem \<Rightarrow> vmem \<Rightarrow> ('k \<Rightarrow> 'k \<Rightarrow> int) \<Rightarrow> ('k, 'v) kvec \<Rightarrow> 'k \<Rightarrow> (('k, 'v) kvec \<times> int) option" where
  "RemoveKeyed mk mv cmp kv key =
     do { (ks, pos) \<leftarrow> RemoveOrdered mk cmp (kv_keys kv) key;
          if pos \<ge> B_OK
          then do { vs \<leftarrow> Vector_RemoveItemsAt mv (kv_values kv) (nat pos) 1;
                    Some (\<lparr>kv_keys = ks, kv_values = vs\<rparr>, pos) }
          else Some (kv\<lparr>kv_keys := ks\<rparr>, pos) }"

section \<open>What a comparison promises\<close>

definition sorted_by :: "('a \<Rightarrow> 'a \<Rightarrow> int) \<Rightarrow> 'a list \<Rightarrow> bool" where
  "sorted_by cmp xs \<longleftrightarrow> sorted_wrt (\<lambda>a b. cmp a b < 0) xs"

text \<open>The answer a search owes: the position of an equal element, or where it would belong.\<close>

definition order_result :: "('a \<Rightarrow> 'a \<Rightarrow> int) \<Rightarrow> 'a list \<Rightarrow> 'a \<Rightarrow> bool \<Rightarrow> nat \<Rightarrow> bool" where
  "order_result cmp xs x found p \<longleftrightarrow>
     p \<le> length xs \<and> (\<forall>j<p. cmp (xs ! j) x < 0) \<and>
     (if found then p < length xs \<and> cmp x (xs ! p) = 0 \<and> (\<forall>j. p < j \<and> j < length xs \<longrightarrow> cmp x (xs ! j) < 0)
      else \<forall>j. p \<le> j \<and> j < length xs \<longrightarrow> cmp x (xs ! j) < 0)"

locale comparator =
  fixes cmp :: "'a \<Rightarrow> 'a \<Rightarrow> int"
  assumes cmp_sym: "cmp x y < 0 \<longleftrightarrow> 0 < cmp y x"
    and cmp_trans: "cmp x y \<le> 0 \<Longrightarrow> cmp y z \<le> 0 \<Longrightarrow> cmp x z \<le> 0"
begin

lemma cmp_refl: "cmp x x = 0"
  using cmp_sym [of x x] by linarith

lemma cmp_eq_sym: "cmp x y = 0 \<longleftrightarrow> cmp y x = 0"
  using cmp_sym [of x y] cmp_sym [of y x] by linarith

lemma less_trans_le: "cmp x y < 0 \<Longrightarrow> cmp y z \<le> 0 \<Longrightarrow> cmp x z < 0"
  using cmp_trans [of x y z] cmp_trans [of z x y] cmp_sym [of x y] cmp_eq_sym [of x z]
    cmp_trans [of y z x] by linarith

lemma le_trans_less: "cmp x y \<le> 0 \<Longrightarrow> cmp y z < 0 \<Longrightarrow> cmp x z < 0"
  using cmp_trans [of x y z] cmp_trans [of z x y] cmp_sym [of y z] cmp_eq_sym [of x z] by linarith

end

text \<open>The comparison of types with an operator \<^verbatim>\<open><\<close> (\<^verbatim>\<open>headers/support/TypeFuncs.h\<close>).\<close>

definition BCompare :: "'a :: linorder \<Rightarrow> 'a \<Rightarrow> int" where
  "BCompare v1 v2 = (if v1 < v2 then -1 else if v2 < v1 then 1 else 0)"

interpretation bcompare: comparator BCompare
  by unfold_locales (auto simp: BCompare_def split: if_splits)

section \<open>Searching\<close>

context comparator
begin

lemma sorted_nth_less:
  assumes "sorted_by cmp xs" "i < j" "j < length xs"
  shows "cmp (xs ! i) (xs ! j) < 0"
  using assms by (simp add: sorted_by_def sorted_wrt_iff_nth_less)

lemma order_search_result:
  assumes "vec_rep v xs" "sorted_by cmp xs" "length xs \<le> 2 ^ 30"
    and "0 \<le> low" "low \<le> high + 1" "high < int (length xs)"
    and "\<And>j. j < length xs \<Longrightarrow> int j < low \<Longrightarrow> cmp (xs ! j) x < 0"
    and "\<And>j. j < length xs \<Longrightarrow> high < int j \<Longrightarrow> cmp x (xs ! j) < 0"
  shows "\<exists>found p. order_search cmp v x low high = Some (found, p) \<and> order_result cmp xs x found p"
  using assms
proof (induction "nat (high - low + 1)" arbitrary: low high rule: less_induct)
  case less
  note inv = less.prems
  show ?case
  proof (cases "low \<le> high")
    case False
    then have "high = low - 1" using inv(5) by simp
    then have "order_search cmp v x low high = Some (False, nat low)"
      "order_result cmp xs x False (nat low)"
      using inv by (auto simp: order_search.simps order_result_def)
    then show ?thesis by blast
  next
    case True
    define mid where "mid = (low + high) div 2"
    have s: "s32 (low + high) = low + high"
      using True inv(3,4,6) by (simp add: s32_def)
    have mid: "low \<le> mid" "mid \<le> high" "mid = int (nat mid)" "nat mid < length xs"
      using True inv(4,6) by (auto simp: mid_def)
    have at: "Vector_At v (nat mid) = Some (xs ! nat mid)"
      using Vector_At_rep [OF inv(1)] mid(4) by simp
    have step: "order_search cmp v x low high =
        (if cmp x (xs ! nat mid) < 0 then order_search cmp v x low (mid - 1)
         else if cmp x (xs ! nat mid) > 0 then order_search cmp v x (mid + 1) high
         else Some (True, nat mid))"
      using True s mid at by (simp add: order_search.simps [of cmp v x low high] mid_def [symmetric] Let_def)
    consider "cmp x (xs ! nat mid) < 0" | "cmp x (xs ! nat mid) > 0" | "cmp x (xs ! nat mid) = 0" by linarith
    then show ?thesis
    proof cases
      case 1
      have "cmp x (xs ! j) < 0" if "j < length xs" "mid - 1 < int j" for j
        using that 1 sorted_nth_less [OF inv(2), of "nat mid" j] less_trans_le [OF 1, of "xs ! j"] mid
        by (cases "j = nat mid") auto
      then show ?thesis
        using less.hyps [of "mid - 1" low] inv mid 1 step by simp
    next
      case 2
      have "cmp (xs ! j) x < 0" if "j < length xs" "int j < mid + 1" for j
      proof -
        have m: "cmp (xs ! nat mid) x < 0" using 2 cmp_sym by simp
        then show ?thesis
          using that sorted_nth_less [OF inv(2), of j "nat mid"] less_trans_le [of "xs ! j" _ x] mid
          by (cases "j = nat mid") force+
      qed
      then show ?thesis
        using less.hyps [of high "mid + 1"] inv mid 2 step by simp
    next
      case 3
      have "cmp (xs ! j) x < 0" if "j < nat mid" for j
        using less_trans_le [OF sorted_nth_less [OF inv(2) that mid(4)], of x] 3 cmp_eq_sym [of x "xs ! nat mid"] by simp
      moreover have "cmp x (xs ! j) < 0" if "nat mid < j" "j < length xs" for j
        using le_trans_less [OF _ sorted_nth_less [OF inv(2) that], of x] 3 by simp
      ultimately show ?thesis using 3 step mid(4)
        by (intro exI [of _ True] exI [of _ "nat mid"]) (simp add: order_result_def)
    qed
  qed
qed

lemma GetOrderOf_result:
  assumes "vec_rep v xs" "sorted_by cmp xs" "length xs \<le> 2 ^ 30"
  shows "\<exists>found p. GetOrderOf cmp v x = Some (found, p) \<and> order_result cmp xs x found p"
  using order_search_result [OF assms, of 0 "int (length xs) - 1"] assms(1)
  by (auto simp: GetOrderOf_def vec_rep_def)

end

section \<open>Sorted vectors stay sorted\<close>

definition with_element :: "'a \<Rightarrow> bool \<Rightarrow> nat \<Rightarrow> 'a list \<Rightarrow> 'a list" where
  "with_element x found p xs = (if found then take p xs @ x # drop (Suc p) xs else take p xs @ x # drop p xs)"

context comparator
begin

lemma order_result_split:
  assumes "order_result cmp xs x found p"
  shows "\<forall>y\<in>set (take p xs). cmp y x < 0"
    "\<forall>y\<in>set (drop (if found then Suc p else p) xs). cmp x y < 0"
  using assms by (auto simp: order_result_def in_set_conv_nth)

lemma sorted_with_element:
  assumes "sorted_by cmp xs" "order_result cmp xs x found p"
  shows "sorted_by cmp (with_element x found p xs)"
proof -
  have s: "sorted_by cmp (take p xs)" "sorted_by cmp (drop p xs)" "sorted_by cmp (drop (Suc p) xs)"
    using assms(1) by (simp_all add: sorted_by_def sorted_wrt_take sorted_wrt_drop)
  note o = order_result_split [OF assms(2)]
  have "cmp a b < 0" if "a \<in> set (take p xs)" "b \<in> set (drop (if found then Suc p else p) xs)" for a b
    using o that less_trans_le [of a x b] by force
  with s o show ?thesis
    by (auto simp: with_element_def sorted_by_def sorted_wrt_append split: if_splits)
qed

lemma sorted_remove:
  assumes "sorted_by cmp xs" and pq: "p \<le> q"
  shows "sorted_by cmp (take p xs @ drop q xs)"
proof -
  have "cmp a b < 0" if "a \<in> set (take p xs)" "b \<in> set (drop q xs)" for a b
    using that pq sorted_nth_less [OF assms(1)] by (auto simp: in_set_conv_nth)
  then show ?thesis
    using assms(1) by (simp add: sorted_by_def sorted_wrt_append sorted_wrt_take sorted_wrt_drop)
qed

lemma AddOrdered_rep:
  assumes v: "vec_rep v xs" "sorted_by cmp xs" "length xs \<le> 2 ^ 30"
    and room: "vec_room (v_elementSize v) (Suc (length xs))"
  shows "\<exists>found p. order_result cmp xs x found p \<and>
    ((\<exists>v'. AddOrdered m cmp v x = Some (v', int p, \<not> found) \<and> v_elementSize v' = v_elementSize v \<and>
        vec_rep v' (with_element x found p xs)) \<or>
     AddOrdered m cmp v x = Some (v, B_NO_MEMORY, False) \<and> \<not> found \<and> \<not> can_malloc m)"
proof -
  obtain found p where g: "GetOrderOf cmp v x = Some (found, p)" "order_result cmp xs x found p"
    using GetOrderOf_result [OF v] by blast
  have p: "p \<le> length xs" using g(2) by (simp add: order_result_def)
  have "(\<exists>v'. AddOrdered m cmp v x = Some (v', int p, \<not> found) \<and> v_elementSize v' = v_elementSize v \<and>
        vec_rep v' (with_element x found p xs)) \<or>
     AddOrdered m cmp v x = Some (v, B_NO_MEMORY, False) \<and> \<not> found \<and> \<not> can_malloc m"
  proof (cases found)
    case True
    then have lt: "p < length xs" using g(2) by (simp add: order_result_def)
    then have "with_element x found p xs = xs[p := x]"
      using True by (simp add: with_element_def upd_conv_take_nth_drop)
    then show ?thesis
      using Vector_ReplaceAt_rep [OF v(1) lt, of x] g(1) True by (auto simp: AddOrdered_def)
  next
    case False
    then show ?thesis
      using Vector_AddAt_rep [OF v(1) room, of m x x p] g(1) p
      by (auto simp: AddOrdered_def with_element_def B_OK_def)
  qed
  with g(2) show ?thesis by blast
qed

lemma RemoveOrdered_rep:
  assumes v: "vec_rep v xs" "sorted_by cmp xs" "length xs \<le> 2 ^ 30"
    and room: "vec_room (v_elementSize v) (length xs)"
  shows "\<exists>found p. order_result cmp xs x found p \<and>
    (if found then \<exists>v'. RemoveOrdered m cmp v x = Some (v', int p) \<and> v_elementSize v' = v_elementSize v \<and>
        vec_rep v' (take p xs @ drop (Suc p) xs)
     else RemoveOrdered m cmp v x = Some (v, B_NAME_NOT_FOUND))"
proof -
  obtain found p where g: "GetOrderOf cmp v x = Some (found, p)" "order_result cmp xs x found p"
    using GetOrderOf_result [OF v] by blast
  have "p \<le> length xs" using g(2) by (simp add: order_result_def)
  then have "p + 1 < 2 ^ 32" using v(3) by simp
  from Vector_RemoveItemsAt_rep [OF v(1) room this, of m] g show ?thesis
    by (intro exI [of _ found] exI [of _ p]) (auto simp: RemoveOrdered_def)
qed

end

section \<open>A keyed vector is a finite map\<close>

definition alookup :: "('k \<Rightarrow> 'k \<Rightarrow> int) \<Rightarrow> ('k \<times> 'v) list \<Rightarrow> 'k \<Rightarrow> 'v option" where
  "alookup cmp kvs k = map_option snd (find (\<lambda>(k', _). cmp k k' = 0) kvs)"

definition kv_rep :: "('k \<Rightarrow> 'k \<Rightarrow> int) \<Rightarrow> ('k, 'v) kvec \<Rightarrow> ('k \<times> 'v) list \<Rightarrow> bool" where
  "kv_rep cmp kv kvs \<longleftrightarrow> vec_rep (kv_keys kv) (map fst kvs) \<and> vec_rep (kv_values kv) (map snd kvs) \<and>
     sorted_by cmp (map fst kvs)"

text \<open>\<open>kv_room kv n\<close>: both vectors can be asked for \<open>n\<close> elements without wrap-around.\<close>

definition kv_room :: "('k, 'v) kvec \<Rightarrow> nat \<Rightarrow> bool" where
  "kv_room kv n \<longleftrightarrow> n \<le> 2 ^ 30 \<and> vec_room (v_elementSize (kv_keys kv)) n \<and>
     vec_room (v_elementSize (kv_values kv)) n"

lemma kv_room_mono: "kv_room kv n \<Longrightarrow> k \<le> n \<Longrightarrow> kv_room kv k"
  by (auto simp: kv_room_def intro: vec_room_mono)

definition same_layout :: "('k, 'v) kvec \<Rightarrow> ('k, 'v) kvec \<Rightarrow> bool" where
  "same_layout a b \<longleftrightarrow> v_elementSize (kv_keys a) = v_elementSize (kv_keys b) \<and>
     v_elementSize (kv_values a) = v_elementSize (kv_values b)"

lemma kv_room_layout: "same_layout a b \<Longrightarrow> kv_room a n = kv_room b n"
  by (simp add: same_layout_def kv_room_def)

lemma same_layout_refl [simp]: "same_layout a a"
  by (simp add: same_layout_def)

lemma same_layout_trans: "same_layout a b \<Longrightarrow> same_layout b c \<Longrightarrow> same_layout a c"
  by (simp add: same_layout_def)

lemma alookup_Nil [simp]: "alookup cmp [] k = None"
  by (simp add: alookup_def)

lemma alookup_Cons [simp]:
  "alookup cmp ((k', v) # kvs) k = (if cmp k k' = 0 then Some v else alookup cmp kvs k)"
  by (simp add: alookup_def)

lemma alookup_append:
  "alookup cmp (xs @ ys) k = (case alookup cmp xs k of None \<Rightarrow> alookup cmp ys k | Some v \<Rightarrow> Some v)"
  by (induction xs) (auto split: option.split)

lemma alookup_None: "alookup cmp kvs k = None \<longleftrightarrow> (\<forall>k'\<in>set (map fst kvs). cmp k k' \<noteq> 0)"
  by (induction kvs) (auto split: if_splits)

context comparator
begin

lemma eq_iff_le: "cmp x y = 0 \<longleftrightarrow> cmp x y \<le> 0 \<and> cmp y x \<le> 0"
  using cmp_sym [of x y] cmp_sym [of y x] by linarith

lemma eq_cong: "cmp x y = 0 \<Longrightarrow> cmp x z = 0 \<longleftrightarrow> cmp y z = 0"
  by (auto simp: eq_iff_le intro: cmp_trans)

lemma alookup_mid:
  assumes "\<forall>y\<in>set (map fst A). cmp y k < 0"
  shows "alookup cmp (A @ (k, v) # B) k' = (if cmp k' k = 0 then Some v else alookup cmp (A @ B) k')"
proof -
  have "alookup cmp A k' = None" if "cmp k' k = 0"
    using assms eq_cong [OF that] cmp_sym cmp_eq_sym by (fastforce simp: alookup_None)
  then show ?thesis by (auto simp: alookup_append split: option.split)
qed

lemma alookup_order:
  assumes "order_result cmp (map fst kvs) k found p"
  shows "alookup cmp kvs k = (if found then Some (snd (kvs ! p)) else None)"
proof (cases found)
  case True
  then have p: "p < length kvs" "cmp k (fst (kvs ! p)) = 0"
    using assms by (auto simp: order_result_def)
  have "kvs = take p kvs @ (fst (kvs ! p), snd (kvs ! p)) # drop (Suc p) kvs"
    using p(1) by (simp add: id_take_nth_drop)
  moreover have "\<forall>y\<in>set (map fst (take p kvs)). cmp y (fst (kvs ! p)) < 0"
    using order_result_split(1) [OF assms] p(2) less_trans_le [of _ k "fst (kvs ! p)"]
    by (auto simp flip: take_map)
  ultimately show ?thesis
    using alookup_mid [of "take p kvs" "fst (kvs ! p)" "snd (kvs ! p)" "drop (Suc p) kvs" k] p(2) True by simp
next
  case False
  have "cmp k k' \<noteq> 0" if "k' \<in> set (map fst kvs)" for k'
  proof -
    have "k' \<in> set (take p (map fst kvs)) \<or> k' \<in> set (drop p (map fst kvs))"
      using that by (metis append_take_drop_id set_append UnE)
    then show ?thesis
      using order_result_split [OF assms] False cmp_eq_sym [of k k'] by force
  qed
  with False show ?thesis by (simp add: alookup_None)
qed

lemma KeyedFor_rep:
  assumes kv: "kv_rep cmp kv kvs" and room: "kv_room kv (length kvs)"
  shows "KeyedFor cmp kv k = Some (alookup cmp kvs k)"
proof -
  obtain found p where g: "GetOrderOf cmp (kv_keys kv) k = Some (found, p)"
      "order_result cmp (map fst kvs) k found p"
    using GetOrderOf_result [of "kv_keys kv" "map fst kvs" k] kv room by (auto simp: kv_rep_def kv_room_def)
  have v: "vec_rep (kv_values kv) (map snd kvs)" "v_size (kv_values kv) = length kvs"
    using kv by (simp_all add: kv_rep_def vec_rep_def)
  have p: "p < length kvs" if found using g(2) that by (simp add: order_result_def)
  show ?thesis
    using g(1) alookup_order [OF g(2)] v(2) p Vector_At_rep [OF v(1), of p]
    by (auto simp: KeyedFor_def OrderOf_def value_at_order_def B_OK_def)
qed

end

lemma map_with_element:
  "map f (with_element x found p xs) = with_element (f x) found p (map f xs)"
  by (simp add: with_element_def take_map drop_map)

context comparator
begin

lemma alookup_with_element:
  assumes "order_result cmp (map fst kvs) k found p"
  shows "alookup cmp (with_element (k, v) found p kvs) k' =
    (if cmp k' k = 0 then Some v else alookup cmp kvs k')"
proof -
  have less: "\<forall>y\<in>set (map fst (take p kvs)). cmp y k < 0"
    using order_result_split(1) [OF assms] by (simp add: take_map)
  show ?thesis
  proof (cases found)
    case True
    then have p: "p < length kvs" "cmp k (fst (kvs ! p)) = 0"
      using assms by (auto simp: order_result_def)
    define k0 where "k0 = fst (kvs ! p)"
    have kvs: "kvs = take p kvs @ (k0, snd (kvs ! p)) # drop (Suc p) kvs"
      using p(1) by (simp add: id_take_nth_drop k0_def)
    have "\<forall>y\<in>set (map fst (take p kvs)). cmp y k0 < 0"
      using less less_trans_le [of _ k k0] p(2) by (auto simp: k0_def)
    then have "alookup cmp kvs k' =
        (if cmp k' k0 = 0 then Some (snd (kvs ! p)) else alookup cmp (take p kvs @ drop (Suc p) kvs) k')"
      by (subst kvs) (rule alookup_mid)
    moreover have "cmp k' k0 = 0 \<longleftrightarrow> cmp k' k = 0"
      using eq_cong [OF p(2), of k'] cmp_eq_sym [of k' k] cmp_eq_sym [of k' k0] by (simp add: k0_def)
    ultimately show ?thesis
      using alookup_mid [OF less, of v "drop (Suc p) kvs" k'] True by (simp add: with_element_def)
  next
    case False
    then show ?thesis
      using alookup_mid [OF less, of v "drop p kvs" k'] by (simp add: with_element_def)
  qed
qed

lemma alookup_without:
  assumes "order_result cmp (map fst kvs) k True p"
  shows "alookup cmp (take p kvs @ drop (Suc p) kvs) k' = (if cmp k' k = 0 then None else alookup cmp kvs k')"
proof -
  have less: "\<forall>y\<in>set (map fst (take p kvs)). cmp y k < 0" "\<forall>y\<in>set (map fst (drop (Suc p) kvs)). cmp k y < 0"
    using order_result_split [OF assms] by (simp_all add: take_map drop_map)
  have "alookup cmp (take p kvs @ drop (Suc p) kvs) k' = None" if "cmp k' k = 0"
    using less eq_cong [OF that] cmp_eq_sym unfolding alookup_None
    by (metis (no_types, lifting) Un_iff less_irrefl map_append set_append)
  moreover have "alookup cmp (with_element (k, undefined) True p kvs) k' =
      (if cmp k' k = 0 then Some undefined else alookup cmp (take p kvs @ drop (Suc p) kvs) k')"
    using alookup_mid [OF less(1)] by (simp add: with_element_def)
  ultimately show ?thesis using alookup_with_element [OF assms, of undefined k'] by (auto split: if_splits)
qed

lemma kv_rep_with_element:
  assumes "kv_rep cmp kv kvs" "order_result cmp (map fst kvs) k found p"
    and "vec_rep ks (with_element k found p (map fst kvs))" "vec_rep vs (with_element v found p (map snd kvs))"
  shows "kv_rep cmp \<lparr>kv_keys = ks, kv_values = vs\<rparr> (with_element (k, v) found p kvs)"
  using assms sorted_with_element [of "map fst kvs" k found p] by (simp add: kv_rep_def map_with_element)

lemma AddKeyed_found:
  assumes kv: "kv_rep cmp kv kvs" and g: "order_result cmp (map fst kvs) k True p"
    and key: "AddOrdered mk cmp (kv_keys kv) k = Some (ks, int p, False)"
      "vec_rep ks (with_element k True p (map fst kvs))"
  shows "\<exists>vs. AddKeyed mk mv mr cmp kv k v = Some (\<lparr>kv_keys = ks, kv_values = vs\<rparr>, int p) \<and>
    kv_rep cmp \<lparr>kv_keys = ks, kv_values = vs\<rparr> (with_element (k, v) True p kvs) \<and>
    v_elementSize vs = v_elementSize (kv_values kv)"
proof -
  have p: "p < length (map snd kvs)" using g by (simp add: order_result_def)
  have V: "vec_rep (kv_values kv) (map snd kvs)" using kv by (simp add: kv_rep_def)
  have "(map snd kvs)[p := v] = with_element v True p (map snd kvs)"
    using p by (simp add: with_element_def upd_conv_take_nth_drop)
  with Vector_ReplaceAt_rep [OF V p, of v] obtain vs where
    vs: "Vector_ReplaceAt (kv_values kv) v p = Some (vs, int p)"
      "vec_rep vs (with_element v True p (map snd kvs))" "v_elementSize vs = v_elementSize (kv_values kv)"
    by auto
  then show ?thesis
    using key kv_rep_with_element [OF kv g key(2) vs(2)] by (auto simp: AddKeyed_def B_OK_def)
qed

lemma AddKeyed_absent:
  assumes kv: "kv_rep cmp kv kvs" and room: "kv_room kv (Suc (length kvs))"
    and g: "order_result cmp (map fst kvs) k False p"
    and key: "AddOrdered mk cmp (kv_keys kv) k = Some (ks, int p, True)"
      "v_elementSize ks = v_elementSize (kv_keys kv)" "vec_rep ks (with_element k False p (map fst kvs))"
  shows "(\<exists>vs. AddKeyed mk mv mr cmp kv k v = Some (\<lparr>kv_keys = ks, kv_values = vs\<rparr>, int p) \<and>
      kv_rep cmp \<lparr>kv_keys = ks, kv_values = vs\<rparr> (with_element (k, v) False p kvs) \<and>
      v_elementSize vs = v_elementSize (kv_values kv)) \<or>
    (\<exists>kv'. AddKeyed mk mv mr cmp kv k v = Some (kv', B_NO_MEMORY) \<and> kv_rep cmp kv' kvs \<and>
      same_layout kv' kv \<and> \<not> can_malloc mv)"
proof -
  let ?ks = "with_element k False p (map fst kvs)"
  have p: "p \<le> length kvs" using g by (simp add: order_result_def)
  have V: "vec_rep (kv_values kv) (map snd kvs)" "vec_room (v_elementSize (kv_values kv)) (Suc (length (map snd kvs)))"
    using kv room by (auto simp: kv_rep_def kv_room_def)
  consider (ok) vs where "Vector_AddAt mv v (kv_values kv) (Some v) p = Some (vs, int p)"
      "vec_rep vs (with_element v False p (map snd kvs))" "v_elementSize vs = v_elementSize (kv_values kv)" |
    (fail) "Vector_AddAt mv v (kv_values kv) (Some v) p = Some (kv_values kv, B_NO_MEMORY)" "\<not> can_malloc mv"
    using Vector_AddAt_rep [OF V, of mv v v p] p by (auto simp: with_element_def)
  then show ?thesis
  proof cases
    case ok
    then show ?thesis
      using key kv_rep_with_element [OF kv g key(3) ok(2)] by (auto simp: AddKeyed_def B_OK_def)
  next
    case fail
    have "vec_room (v_elementSize ks) (length ?ks)" "p + 1 < 2 ^ 32"
      using key(2) room p by (simp_all add: with_element_def kv_room_def)
    moreover have "take p ?ks @ drop (p + 1) ?ks = map fst kvs"
      using p by (simp add: with_element_def)
    ultimately obtain ks' where ks': "Vector_RemoveItemsAt mr ks p 1 = Some ks'" "vec_rep ks' (map fst kvs)"
        "v_elementSize ks' = v_elementSize ks"
      using Vector_RemoveItemsAt_rep [OF key(3), of p 1 mr] by auto
    then have "AddKeyed mk mv mr cmp kv k v = Some (\<lparr>kv_keys = ks', kv_values = kv_values kv\<rparr>, B_NO_MEMORY)"
      using key(1) fail(1) by (simp add: AddKeyed_def B_OK_def)
    then show ?thesis using fail(2) kv key(2) ks'(2,3) by (auto simp: same_layout_def kv_rep_def)
  qed
qed

lemma AddKeyed_rep:
  assumes kv: "kv_rep cmp kv kvs" and room: "kv_room kv (Suc (length kvs))"
  shows "(\<exists>kv' found p. AddKeyed mk mv mr cmp kv k v = Some (kv', int p) \<and> same_layout kv' kv \<and>
      order_result cmp (map fst kvs) k found p \<and> kv_rep cmp kv' (with_element (k, v) found p kvs)) \<or>
    (\<exists>kv'. AddKeyed mk mv mr cmp kv k v = Some (kv', B_NO_MEMORY) \<and> kv_rep cmp kv' kvs \<and>
      same_layout kv' kv \<and> alookup cmp kvs k = None \<and> \<not> (can_malloc mk \<and> can_malloc mv))"
proof -
  have K: "vec_rep (kv_keys kv) (map fst kvs)" "sorted_by cmp (map fst kvs)" "length (map fst kvs) \<le> 2 ^ 30"
      "vec_room (v_elementSize (kv_keys kv)) (Suc (length (map fst kvs)))"
    using kv room by (auto simp: kv_rep_def kv_room_def)
  obtain found p where g: "order_result cmp (map fst kvs) k found p"
    and add: "(\<exists>ks. AddOrdered mk cmp (kv_keys kv) k = Some (ks, int p, \<not> found) \<and>
        v_elementSize ks = v_elementSize (kv_keys kv) \<and> vec_rep ks (with_element k found p (map fst kvs))) \<or>
      AddOrdered mk cmp (kv_keys kv) k = Some (kv_keys kv, B_NO_MEMORY, False) \<and> \<not> found \<and> \<not> can_malloc mk"
    using AddOrdered_rep [OF K, of k mk] by blast
  have nf: "\<not> found \<Longrightarrow> alookup cmp kvs k = None" using alookup_order [OF g] by simp
  consider (nokey) "AddOrdered mk cmp (kv_keys kv) k = Some (kv_keys kv, B_NO_MEMORY, False)" "\<not> found"
      "\<not> can_malloc mk" |
    (key) ks where "AddOrdered mk cmp (kv_keys kv) k = Some (ks, int p, \<not> found)"
      "v_elementSize ks = v_elementSize (kv_keys kv)" "vec_rep ks (with_element k found p (map fst kvs))"
    using add by auto
  then show ?thesis
  proof cases
    case nokey
    then show ?thesis using kv nf by (auto simp: AddKeyed_def B_OK_def)
  next
    case key
    then show ?thesis
      using AddKeyed_found [OF kv, of k p mk ks mv mr v] AddKeyed_absent [OF kv room, of k p mk ks mv mr v] g nf
      by (cases found) (fastforce simp: same_layout_def)+
  qed
qed

lemma RemoveKeyed_rep:
  assumes kv: "kv_rep cmp kv kvs" and room: "kv_room kv (length kvs)"
  shows "\<exists>kv' r kvs'. RemoveKeyed mk mv cmp kv k = Some (kv', r) \<and> kv_rep cmp kv' kvs' \<and> same_layout kv' kv \<and>
    (if alookup cmp kvs k = None then r = B_NAME_NOT_FOUND \<and> kvs' = kvs
     else \<exists>p. r = int p \<and> order_result cmp (map fst kvs) k True p \<and> kvs' = take p kvs @ drop (Suc p) kvs)"
proof -
  have K: "vec_rep (kv_keys kv) (map fst kvs)" "sorted_by cmp (map fst kvs)" "length (map fst kvs) \<le> 2 ^ 30"
      "vec_room (v_elementSize (kv_keys kv)) (length (map fst kvs))"
    and V: "vec_rep (kv_values kv) (map snd kvs)" "vec_room (v_elementSize (kv_values kv)) (length (map snd kvs))"
    using kv room by (auto simp: kv_rep_def kv_room_def)
  obtain found p where g: "order_result cmp (map fst kvs) k found p"
    and rm: "if found then \<exists>ks. RemoveOrdered mk cmp (kv_keys kv) k = Some (ks, int p) \<and>
        v_elementSize ks = v_elementSize (kv_keys kv) \<and> vec_rep ks (take p (map fst kvs) @ drop (Suc p) (map fst kvs))
      else RemoveOrdered mk cmp (kv_keys kv) k = Some (kv_keys kv, B_NAME_NOT_FOUND)"
    using RemoveOrdered_rep [OF K, of k mk] by blast
  show ?thesis
  proof (cases found)
    case True
    obtain ks where ks: "RemoveOrdered mk cmp (kv_keys kv) k = Some (ks, int p)"
        "v_elementSize ks = v_elementSize (kv_keys kv)" "vec_rep ks (take p (map fst kvs) @ drop (Suc p) (map fst kvs))"
      using rm True by auto
    have "p + 1 < 2 ^ 32" using g True K(3) by (simp add: order_result_def)
    then obtain vs where vs: "Vector_RemoveItemsAt mv (kv_values kv) p 1 = Some vs"
        "vec_rep vs (take p (map snd kvs) @ drop (Suc p) (map snd kvs))" "v_elementSize vs = v_elementSize (kv_values kv)"
      using Vector_RemoveItemsAt_rep [OF V, of p 1 mv] by auto
    have "RemoveKeyed mk mv cmp kv k = Some (\<lparr>kv_keys = ks, kv_values = vs\<rparr>, int p)"
      using ks(1) vs(1) by (simp add: RemoveKeyed_def B_OK_def)
    moreover have "kv_rep cmp \<lparr>kv_keys = ks, kv_values = vs\<rparr> (take p kvs @ drop (Suc p) kvs)"
      using ks(3) vs(2) sorted_remove [OF K(2), of p "Suc p"] by (simp add: kv_rep_def take_map drop_map)
    ultimately show ?thesis
      using alookup_order [OF g] True g ks(2) vs(3) by (auto simp: same_layout_def)
  next
    case False
    then have "RemoveKeyed mk mv cmp kv k = Some (kv, B_NAME_NOT_FOUND)"
      using rm by (simp add: RemoveKeyed_def B_OK_def)
    then show ?thesis using kv alookup_order [OF g] False by auto
  qed
qed

lemma alookup_cong:
  assumes "cmp k' k = 0"
  shows "alookup cmp kvs k' = alookup cmp kvs k"
  using eq_cong [OF assms] by (induction kvs) (auto simp: alookup_def)

lemma RemoveKeyed_laws:
  assumes "kv_rep cmp kv kvs" "kv_room kv (length kvs)"
  shows "\<exists>kv' r kvs'. RemoveKeyed mk mv cmp kv k = Some (kv', r) \<and> kv_rep cmp kv' kvs' \<and>
    (r = B_NAME_NOT_FOUND \<longleftrightarrow> alookup cmp kvs k = None) \<and>
    (\<forall>k'. alookup cmp kvs' k' = (if cmp k' k = 0 then None else alookup cmp kvs k'))"
proof -
  obtain kv' r kvs' where rm: "RemoveKeyed mk mv cmp kv k = Some (kv', r)" "kv_rep cmp kv' kvs'"
    and cases: "if alookup cmp kvs k = None then r = B_NAME_NOT_FOUND \<and> kvs' = kvs
     else \<exists>p. r = int p \<and> order_result cmp (map fst kvs) k True p \<and> kvs' = take p kvs @ drop (Suc p) kvs"
    using RemoveKeyed_rep [OF assms, of mk mv k] by blast
  have "(r = B_NAME_NOT_FOUND \<longleftrightarrow> alookup cmp kvs k = None) \<and>
    (\<forall>k'. alookup cmp kvs' k' = (if cmp k' k = 0 then None else alookup cmp kvs k'))"
    using cases alookup_without [of kvs k] alookup_cong [of _ k kvs] by (auto split: if_splits)
  with rm show ?thesis by (intro exI [of _ kv'] exI [of _ r] exI [of _ kvs']) simp
qed

lemma KV_RemoveItemsAt_rep:
  assumes kv: "kv_rep cmp kv kvs" and room: "kv_room kv (length kvs)" and i: "i < length kvs"
  shows "\<exists>kv'. KV_RemoveItemsAt mk mv kv i 1 = Some kv' \<and> same_layout kv' kv \<and>
    kv_rep cmp kv' (take i kvs @ drop (Suc i) kvs)"
proof -
  have r: "vec_rep (kv_keys kv) (map fst kvs)" "vec_rep (kv_values kv) (map snd kvs)"
      "sorted_by cmp (map fst kvs)" "vec_room (v_elementSize (kv_keys kv)) (length (map fst kvs))"
      "vec_room (v_elementSize (kv_values kv)) (length (map snd kvs))" "i + 1 < 2 ^ 32"
    using kv room i by (auto simp: kv_rep_def kv_room_def)
  show ?thesis
    using Vector_RemoveItemsAt_rep [OF r(1,4,6), of mk] Vector_RemoveItemsAt_rep [OF r(2,5,6), of mv]
      sorted_remove [OF r(3), of i "Suc i"]
    by (auto simp: KV_RemoveItemsAt_def same_layout_def kv_rep_def take_map drop_map)
qed

end

section \<open>Properties\<close>

text \<open>
  C5. For every comparison that is a total preorder the binary search returns, on a vector
  sorted by it, the position of the equal element if there is one and otherwise the position
  where it would have to be inserted.
\<close>

theorem sorted_search_correct:
  assumes "comparator cmp" "vec_rep v xs" "sorted_by cmp xs" "length xs \<le> 2 ^ 30"
  shows "\<exists>found p. GetOrderOf cmp v x = Some (found, p) \<and> p \<le> length xs \<and>
    (\<forall>j<p. cmp (xs ! j) x < 0) \<and>
    (if found then p < length xs \<and> cmp x (xs ! p) = 0
     else \<forall>j. p \<le> j \<and> j < length xs \<longrightarrow> cmp x (xs ! j) < 0)"
proof -
  obtain found p where "GetOrderOf cmp v x = Some (found, p)" "order_result cmp xs x found p"
    using comparator.GetOrderOf_result [OF assms, of x] by blast
  then show ?thesis
    by (intro exI [of _ found] exI [of _ p]) (auto simp: order_result_def)
qed

theorem sorted_search_correct_witness:
  "\<exists>v found p. vec_rep v [1, 2, 3 :: nat] \<and> GetOrderOf BCompare v 2 = Some (found, p) \<and> found"
proof -
  obtain v where v: "vec_rep v [1, 2, 3 :: nat]" by (rule vector_example)
  have "sorted_by BCompare [1, 2, 3 :: nat]" by (simp add: sorted_by_def BCompare_def)
  from sorted_search_correct [OF bcompare.comparator_axioms v this, of 2]
  obtain found p where g: "GetOrderOf BCompare v 2 = Some (found, p)"
    "if found then True else \<forall>j. p \<le> j \<and> j < 3 \<longrightarrow> BCompare 2 ([1, 2, 3 :: nat] ! j) < 0"
    "\<forall>j<p. BCompare ([1, 2, 3 :: nat] ! j) 2 < 0" "p \<le> 3"
    by (auto split: if_splits simp: numeral_3_eq_3)
  have "p \<le> 1" using g(3) by (metis BCompare_def less_irrefl less_one linorder_not_less nth_Cons_0 nth_Cons_Suc One_nat_def)
  then have found using g(2) by (auto simp: BCompare_def dest: spec [of _ 1] split: if_splits)
  with g(1) v show ?thesis by blast
qed

text \<open>
  C6. \<^verbatim>\<open>AddKeyed\<close> either makes the value the one found under the key and changes nothing for
  other keys, keeping keys sorted and in step with the values, or, when memory runs out while a
  new key is added, rolls back to the old contents.
\<close>

theorem keyed_add:
  assumes "comparator cmp" "kv_rep cmp kv kvs" "kv_room kv (Suc (length kvs))"
  shows "(\<exists>kv' p kvs'. AddKeyed mk mv mr cmp kv k v = Some (kv', int p) \<and> kv_rep cmp kv' kvs' \<and>
      (\<forall>k'. alookup cmp kvs' k' = (if cmp k' k = 0 then Some v else alookup cmp kvs k'))) \<or>
    (\<exists>kv'. AddKeyed mk mv mr cmp kv k v = Some (kv', B_NO_MEMORY) \<and> kv_rep cmp kv' kvs \<and>
      \<not> (can_malloc mk \<and> can_malloc mv))"
proof -
  consider kv' found p where "AddKeyed mk mv mr cmp kv k v = Some (kv', int p)"
      "order_result cmp (map fst kvs) k found p" "kv_rep cmp kv' (with_element (k, v) found p kvs)" |
    kv' where "AddKeyed mk mv mr cmp kv k v = Some (kv', B_NO_MEMORY)" "kv_rep cmp kv' kvs"
      "\<not> (can_malloc mk \<and> can_malloc mv)"
    using comparator.AddKeyed_rep [OF assms, of mk mv mr k v] by blast
  then show ?thesis
  proof cases
    case (1 kv' found p)
    then have "\<forall>k'. alookup cmp (with_element (k, v) found p kvs) k' =
        (if cmp k' k = 0 then Some v else alookup cmp kvs k')"
      using comparator.alookup_with_element [OF assms(1) 1(2)] by simp
    with 1 show ?thesis by (intro disjI1 exI [of _ kv'] exI [of _ p] exI conjI)
  qed blast
qed

text \<open>
  \<^verbatim>\<open>RemoveKeyed\<close> never fails: afterwards the key is unknown and every other key answers as
  before; an unknown key is reported and changes nothing.
\<close>

lemma keyed_remove:
  assumes "comparator cmp" "kv_rep cmp kv kvs" "kv_room kv (length kvs)"
  shows "\<exists>kv' r kvs'. RemoveKeyed mk mv cmp kv k = Some (kv', r) \<and> kv_rep cmp kv' kvs' \<and>
    (r = B_NAME_NOT_FOUND \<longleftrightarrow> alookup cmp kvs k = None) \<and>
    (\<forall>k'. alookup cmp kvs' k' = (if cmp k' k = 0 then None else alookup cmp kvs k'))"
  using comparator.RemoveKeyed_laws [OF assms] .

text \<open>The empty map of a keyed vector with 4-byte keys and values, for the witnesses.\<close>

lemma kv_example:
  obtains kv :: "(nat, nat) kvec" where "kv = \<lparr>kv_keys = Vector_new 4, kv_values = Vector_new 4\<rparr>"
    "kv_rep BCompare kv []" "kv_room kv 1"
proof
  show "kv_rep BCompare \<lparr>kv_keys = Vector_new 4, kv_values = Vector_new 4\<rparr> ([] :: (nat \<times> nat) list)"
    by (simp add: kv_rep_def vec_rep_new sorted_by_def)
  show "kv_room \<lparr>kv_keys = Vector_new 4, kv_values = Vector_new 4\<rparr> 1"
    by (simp add: kv_room_def vec_room_def)
qed simp

theorem keyed_add_witness:
  "\<exists>(kv :: (nat, nat) kvec) p kvs'. AddKeyed \<lparr>can_inplace = False, can_malloc = True\<rparr> \<lparr>can_inplace = False, can_malloc = True\<rparr>
     \<lparr>can_inplace = False, can_malloc = True\<rparr> BCompare \<lparr>kv_keys = Vector_new 4, kv_values = Vector_new 4\<rparr> 7 9 =
       Some (kv, int p) \<and> kv_rep BCompare kv kvs' \<and> alookup BCompare kvs' 7 = Some 9"
proof -
  obtain kv :: "(nat, nat) kvec" where kv: "kv = \<lparr>kv_keys = Vector_new 4, kv_values = Vector_new 4\<rparr>"
    "kv_rep BCompare kv []" "kv_room kv 1" by (rule kv_example)
  let ?m = "\<lparr>can_inplace = False, can_malloc = True\<rparr>"
  from keyed_add [OF bcompare.comparator_axioms kv(2), of ?m ?m ?m 7 9] kv(3)
  obtain kv' p kvs' where "AddKeyed ?m ?m ?m BCompare kv 7 9 = Some (kv', int p)" "kv_rep BCompare kv' kvs'"
    "\<And>k'. alookup BCompare kvs' k' = (if BCompare k' 7 = 0 then Some 9 else alookup BCompare [] k')"
    by auto
  then have "AddKeyed ?m ?m ?m BCompare kv 7 9 = Some (kv', int p) \<and> kv_rep BCompare kv' kvs' \<and>
      alookup BCompare kvs' 7 = Some 9"
    by (simp add: BCompare_def)
  then show ?thesis unfolding kv(1) by blast
qed

lemma keyed_remove_example:
  "\<exists>(kv :: (nat, nat) kvec). RemoveKeyed \<lparr>can_inplace = False, can_malloc = True\<rparr> \<lparr>can_inplace = False, can_malloc = True\<rparr>
     BCompare \<lparr>kv_keys = Vector_new 4, kv_values = Vector_new 4\<rparr> 7 = Some (kv, B_NAME_NOT_FOUND)"
proof -
  obtain kv :: "(nat, nat) kvec" where kv: "kv = \<lparr>kv_keys = Vector_new 4, kv_values = Vector_new 4\<rparr>"
    "kv_rep BCompare kv []" "kv_room kv 1" by (rule kv_example)
  have "kv_room kv 0" using kv_room_mono [OF kv(3)] by simp
  then show ?thesis
    using keyed_remove [OF bcompare.comparator_axioms kv(2), of "\<lparr>can_inplace = False, can_malloc = True\<rparr>"
        "\<lparr>can_inplace = False, can_malloc = True\<rparr>" 7] kv(1) by auto
qed

end
