(* ===== verification/Generic_Cache.thy ===== *)
theory Generic_Cache
  imports Sorted_Vector
begin

text \<open>
  The least-recently-used cache: class \<^verbatim>\<open>SAbstractCache\<close> of
  \<^verbatim>\<open>libraries/libbinder/support/GenericCache.cpp\<close> with the entry type and the hooks of
  \<^verbatim>\<open>SGenericCache\<close> (\<^verbatim>\<open>headers/support/GenericCache.h\<close>). The entries are a keyed vector. The key
  comparison \<open>cmp\<close> and the size of an item \<open>isize\<close> (\<^verbatim>\<open>PerformSize\<close>) are parameters. Ages are
  32-bit words; \<^verbatim>\<open>m_sizeUsed\<close> is a sum of sizes of objects in memory and does not overflow, so it
  is an \<open>int\<close>. One memory answer \<open>m\<close> serves all vector operations of a call.
\<close>

section \<open>State\<close>

record 'd entry =
  e_age :: u32
  e_data :: 'd

record ('k, 'd) gcache =
  c_age :: u32
  c_cacheSize :: int
  c_sizeUsed :: int
  c_entries :: "('k, 'd entry) kvec"

definition NEVER_PURGE_AGE :: u32 where
  "NEVER_PURGE_AGE = 0xFFFFFFFF"

record cache_flags =
  never_purge :: bool
  dont_add :: bool
  dont_purge :: bool

section \<open>Operations\<close>

definition Cache_new :: "int \<Rightarrow> ('k, 'd entry) kvec \<Rightarrow> ('k, 'd) gcache" where
  "Cache_new cacheSize entries = \<lparr>c_age = 0, c_cacheSize = cacheSize, c_sizeUsed = 0, c_entries = entries\<rparr>"

definition tick :: "('k, 'd) gcache \<Rightarrow> ('k, 'd) gcache" where
  "tick c = c\<lparr>c_age := c_age c + 2\<rparr>"

definition size_left :: "('k, 'd) gcache \<Rightarrow> int" where
  "size_left c = c_cacheSize c - c_sizeUsed c"

text \<open>The result is \<open>None\<close> when the key is unknown (the data of the undefined entry is returned).\<close>

definition AbstractLookup ::
  "('k \<Rightarrow> 'k \<Rightarrow> int) \<Rightarrow> ('k, 'd) gcache \<Rightarrow> 'k \<Rightarrow> (('k, 'd) gcache \<times> 'd option) option" where
  "AbstractLookup cmp c key =
     do { found \<leftarrow> KeyedFor cmp (c_entries c) key;
          case found of
            None \<Rightarrow> Some (c, None)
          | Some e \<Rightarrow>
              if e_age e AND 1 \<noteq> 0 then Some (c, Some (e_data e))
              else do { c' \<leftarrow> Some (tick c);
                        (es, _) \<leftarrow> EditKeyedFor cmp (c_entries c') key (\<lambda>e. e\<lparr>e_age := c_age c'\<rparr>);
                        Some (c'\<lparr>c_entries := es\<rparr>, Some (e_data e)) } }"

text \<open>The inner loop of the purge: the index of the entry with the smallest age below \<open>min_age\<close>.\<close>

fun oldest :: "('k, 'd entry) kvec \<Rightarrow> u32 \<Rightarrow> nat \<Rightarrow> nat \<Rightarrow> nat option \<Rightarrow> nat option option" where
  "oldest es min_age i 0 index = Some index"
| "oldest es min_age i (Suc n) index =
     (case AbstractValueAt es i of
        None \<Rightarrow> None
      | Some e \<Rightarrow> if e_age e < min_age then oldest es (e_age e) (Suc i) n (Some i)
                  else oldest es min_age (Suc i) n index)"

text \<open>
  The loop that makes room. Every round removes an entry or stops, so one more round than there
  are entries is enough; running out of \<open>fuel\<close> is \<open>None\<close>.
\<close>

fun purge :: "nat \<Rightarrow> vmem \<Rightarrow> ('d \<Rightarrow> int) \<Rightarrow> u32 \<Rightarrow> int \<Rightarrow> ('k, 'd) gcache \<Rightarrow> ('k, 'd) gcache option" where
  "purge 0 m isize age dataSize c = None"
| "purge (Suc fuel) m isize age dataSize c =
     (if size_left c < dataSize
      then do { index \<leftarrow> oldest (c_entries c) age 0 (KV_CountItems (c_entries c)) None;
             case index of
               None \<Rightarrow> Some c
             | Some i \<Rightarrow>
                 do { e \<leftarrow> AbstractValueAt (c_entries c) i;
                      es \<leftarrow> KV_RemoveItemsAt m m (c_entries c) i 1;
                      purge fuel m isize age dataSize
                        (c\<lparr>c_sizeUsed := c_sizeUsed c - isize (e_data e), c_entries := es\<rparr>) } }
      else Some c)"

text \<open>The first and the second part of \<^verbatim>\<open>AbstractAdd\<close>: drop an entry of the same key, then make room.\<close>

definition drop_old ::
  "vmem \<Rightarrow> ('k \<Rightarrow> 'k \<Rightarrow> int) \<Rightarrow> ('d \<Rightarrow> int) \<Rightarrow> ('k, 'd) gcache \<Rightarrow> 'k \<Rightarrow> ('k, 'd) gcache option" where
  "drop_old m cmp isize c key =
     do { found \<leftarrow> KeyedFor cmp (c_entries c) key;
          case found of
            None \<Rightarrow> Some c
          | Some e \<Rightarrow> do { (es, _) \<leftarrow> RemoveKeyed m m cmp (c_entries c) key;
                          Some (c\<lparr>c_sizeUsed := c_sizeUsed c - isize (e_data e), c_entries := es\<rparr>) } }"

definition make_room ::
  "vmem \<Rightarrow> ('d \<Rightarrow> int) \<Rightarrow> cache_flags \<Rightarrow> int \<Rightarrow> ('k, 'd) gcache \<Rightarrow> ('k, 'd) gcache option" where
  "make_room m isize flags dataSize c =
     (if c_cacheSize c \<noteq> 0
      then if c_cacheSize c < dataSize \<and> dont_purge flags then Some c
           else purge (Suc (KV_CountItems (c_entries c))) m isize (c_age c) dataSize c
      else Some c)"

definition AbstractAdd ::
  "vmem \<Rightarrow> ('k \<Rightarrow> 'k \<Rightarrow> int) \<Rightarrow> ('d \<Rightarrow> int) \<Rightarrow> ('k, 'd) gcache \<Rightarrow> 'k \<Rightarrow> 'd \<Rightarrow> cache_flags
     \<Rightarrow> (('k, 'd) gcache \<times> status_t) option" where
  "AbstractAdd m cmp isize c key data flags =
     do { c \<leftarrow> drop_old m cmp isize c key;
          let dataSize = (if never_purge flags then 0 else isize data) in
          do { c \<leftarrow> make_room m isize flags dataSize (tick c);
               if dont_add flags \<and> size_left c < dataSize then Some (c, B_NO_MEMORY)
               else do { (es, index) \<leftarrow> AddKeyed m m m cmp (c_entries c) key
                           \<lparr>e_age = (if never_purge flags then NEVER_PURGE_AGE else c_age c), e_data = data\<rparr>;
                         if index \<ge> 0
                         then Some (c\<lparr>c_entries := es, c_sizeUsed := c_sizeUsed c + dataSize\<rparr>, B_OK)
                         else Some (c\<lparr>c_entries := es\<rparr>, index) } } }"

definition AbstractRemove ::
  "vmem \<Rightarrow> ('k \<Rightarrow> 'k \<Rightarrow> int) \<Rightarrow> ('d \<Rightarrow> int) \<Rightarrow> ('k, 'd) gcache \<Rightarrow> 'k
     \<Rightarrow> (('k, 'd) gcache \<times> status_t) option" where
  "AbstractRemove m cmp isize c key =
     do { found \<leftarrow> KeyedFor cmp (c_entries c) key;
          case found of
            None \<Rightarrow> Some (c, B_NAME_NOT_FOUND)
          | Some e \<Rightarrow>
              do { (es, _) \<leftarrow> RemoveKeyed m m cmp (c_entries c) key;
                   Some (c\<lparr>c_sizeUsed := (if e_age e AND 1 \<noteq> 0 then c_sizeUsed c
                                         else c_sizeUsed c - isize (e_data e)),
                           c_entries := es\<rparr>, B_OK) } }"

section \<open>The invariant\<close>

text \<open>
  \<open>counted\<close> is what an entry adds to \<^verbatim>\<open>m_sizeUsed\<close>. The invariant: the entries are a sorted map,
  every age is the special odd one or even and at most \<^verbatim>\<open>m_age\<close>, and \<^verbatim>\<open>m_sizeUsed\<close> is the sum.
\<close>

definition purgeable :: "'d entry \<Rightarrow> bool" where
  "purgeable e \<longleftrightarrow> e_age e \<noteq> NEVER_PURGE_AGE"

definition counted :: "('d \<Rightarrow> int) \<Rightarrow> ('k \<times> 'd entry) list \<Rightarrow> int" where
  "counted isize kvs = (\<Sum>(k, e)\<leftarrow>kvs. if purgeable e then isize (e_data e) else 0)"

definition cache_ok ::
  "('k \<Rightarrow> 'k \<Rightarrow> int) \<Rightarrow> ('d \<Rightarrow> int) \<Rightarrow> ('k, 'd) gcache \<Rightarrow> ('k \<times> 'd entry) list \<Rightarrow> bool" where
  "cache_ok cmp isize c kvs \<longleftrightarrow>
     kv_rep cmp (c_entries c) kvs \<and> c_sizeUsed c = counted isize kvs \<and> even (c_age c) \<and>
     (\<forall>(k, e)\<in>set kvs. purgeable e \<longrightarrow> even (e_age e) \<and> e_age e \<le> c_age c)"

text \<open>\<open>cache_room c n\<close>: the entry vectors and the age counter have room for another operation.\<close>

definition cache_room :: "('k, 'd) gcache \<Rightarrow> nat \<Rightarrow> bool" where
  "cache_room c n \<longleftrightarrow> kv_room (c_entries c) n \<and> unat (c_age c) + 2 < 2 ^ 32 - 1"

lemma counted_simps [simp]:
  "counted isize [] = 0"
  "counted isize (ke # kvs) =
     (if purgeable (snd ke) then isize (e_data (snd ke)) else 0) + counted isize kvs"
  "counted isize (xs @ ys) = counted isize xs + counted isize ys"
  by (simp_all add: counted_def case_prod_unfold)

lemma counted_split:
  assumes "i < length kvs"
  shows "counted isize (take i kvs @ drop (Suc i) kvs) =
    counted isize kvs - (if purgeable (snd (kvs ! i)) then isize (e_data (snd (kvs ! i))) else 0)"
proof -
  have "kvs = take i kvs @ (fst (kvs ! i), snd (kvs ! i)) # drop (Suc i) kvs"
    using assms by (simp add: id_take_nth_drop)
  then have "counted isize kvs = counted isize (take i kvs @ (fst (kvs ! i), snd (kvs ! i)) # drop (Suc i) kvs)"
    by simp
  then show ?thesis by simp
qed

lemma kv_value_at:
  assumes "kv_rep cmp es kvs" "i < length kvs"
  shows "AbstractValueAt es i = Some (snd (kvs ! i))" "KV_CountItems es = length kvs"
  using assms Vector_At_rep [of "kv_values es" "map snd kvs" i]
  by (auto simp: AbstractValueAt_def KV_CountItems_def kv_rep_def vec_rep_def)

lemma oldest_spec:
  assumes "kv_rep cmp es kvs" "i + n = length kvs"
  shows "\<exists>r. oldest es mn i n index = Some r \<and>
    (r = index \<and> (\<forall>j. i \<le> j \<and> j < length kvs \<longrightarrow> mn \<le> e_age (snd (kvs ! j))) \<or>
     (\<exists>j. r = Some j \<and> i \<le> j \<and> j < length kvs \<and> e_age (snd (kvs ! j)) < mn \<and>
        (\<forall>j'. i \<le> j' \<and> j' < length kvs \<longrightarrow> e_age (snd (kvs ! j)) \<le> e_age (snd (kvs ! j')))))"
  using assms(2)
proof (induction n arbitrary: i mn index)
  case (Suc n)
  then have i: "i < length kvs" by simp
  let ?a = "\<lambda>j. e_age (snd (kvs ! j))"
  define mn' where "mn' = min (?a i) mn"
  define idx' where "idx' = (if ?a i < mn then Some i else index)"
  have step: "oldest es mn i (Suc n) index = oldest es mn' (Suc i) n idx'"
    using kv_value_at(1) [OF assms(1) i] by (auto simp: mn'_def idx'_def min_def)
  obtain r where r: "oldest es mn' (Suc i) n idx' = Some r"
    "r = idx' \<and> (\<forall>j. Suc i \<le> j \<and> j < length kvs \<longrightarrow> mn' \<le> ?a j) \<or>
     (\<exists>j. r = Some j \<and> Suc i \<le> j \<and> j < length kvs \<and> ?a j < mn' \<and>
        (\<forall>j'. Suc i \<le> j' \<and> j' < length kvs \<longrightarrow> ?a j \<le> ?a j'))"
    using Suc.IH [of "Suc i" mn' idx'] Suc.prems by auto
  have all: "(\<forall>j. i \<le> j \<and> j < length kvs \<longrightarrow> P j) \<longleftrightarrow> P i \<and> (\<forall>j. Suc i \<le> j \<and> j < length kvs \<longrightarrow> P j)" for P
    using i by (metis Suc_leD Suc_leI order_le_less)
  have out: "oldest es mn i (Suc n) index = Some r" using step r(1) by (simp del: oldest.simps)
  from r(2) show ?case
  proof (elim disjE exE conjE)
    assume 1: "r = idx'" "\<forall>j. Suc i \<le> j \<and> j < length kvs \<longrightarrow> mn' \<le> ?a j"
    show ?thesis
    proof (cases "?a i < mn")
      case True
      then have "mn' = ?a i" "idx' = Some i" by (simp_all add: mn'_def idx'_def)
      then have "r = Some i \<and> i \<le> i \<and> i < length kvs \<and> ?a i < mn \<and>
          (\<forall>j'. i \<le> j' \<and> j' < length kvs \<longrightarrow> ?a i \<le> ?a j')"
        using True 1 i by (simp add: all)
      with out show ?thesis by blast
    next
      case False
      then have "mn' = mn" "idx' = index" by (simp_all add: mn'_def idx'_def)
      with False 1 out show ?thesis by (auto simp: all simp del: oldest.simps)
    qed
  next
    fix j assume 2: "r = Some j" "Suc i \<le> j" "j < length kvs" "?a j < mn'"
      "\<forall>j'. Suc i \<le> j' \<and> j' < length kvs \<longrightarrow> ?a j \<le> ?a j'"
    then have "?a j < mn" "?a j \<le> ?a i" by (auto simp: mn'_def)
    then have "r = Some j \<and> i \<le> j \<and> j < length kvs \<and> ?a j < mn \<and>
        (\<forall>j'. i \<le> j' \<and> j' < length kvs \<longrightarrow> ?a j \<le> ?a j')"
      using 2 by (simp add: all)
    with out show ?thesis by blast
  qed
qed auto

text \<open>What the purge keeps: some of the entries, none of them older than one it removed.\<close>

definition lru_kept :: "u32 \<Rightarrow> ('k \<times> 'd entry) list \<Rightarrow> ('k \<times> 'd entry) list \<Rightarrow> bool" where
  "lru_kept age kvs kept \<longleftrightarrow> set kept \<subseteq> set kvs \<and> length kept \<le> length kvs \<and>
     (\<forall>r\<in>set kvs - set kept. e_age (snd r) < age \<and> (\<forall>s\<in>set kept. e_age (snd r) \<le> e_age (snd s)))"

lemma lru_kept_refl [simp]: "lru_kept age kvs kvs"
  by (simp add: lru_kept_def)

lemma lru_kept_step:
  assumes i: "i < length kvs" "e_age (snd (kvs ! i)) < age"
    and min: "\<forall>j<length kvs. e_age (snd (kvs ! i)) \<le> e_age (snd (kvs ! j))"
    and rest: "lru_kept age (take i kvs @ drop (Suc i) kvs) kept"
  shows "lru_kept age kvs kept"
proof -
  have eq: "set kvs = insert (kvs ! i) (set (take i kvs @ drop (Suc i) kvs))"
    by (subst id_take_nth_drop [OF i(1)]) auto
  have low: "e_age (snd (kvs ! i)) \<le> e_age (snd s)" if "s \<in> set kvs" for s
    using min that by (metis in_set_conv_nth)
  have kept: "set kept \<subseteq> set kvs" "length kept \<le> length kvs"
    using rest eq i(1) unfolding lru_kept_def by auto
  have "e_age (snd r) < age \<and> (\<forall>s\<in>set kept. e_age (snd r) \<le> e_age (snd s))"
    if "r \<in> set kvs - set kept" for r
  proof (cases "r = kvs ! i")
    case True
    then show ?thesis using i(2) low kept(1) by blast
  next
    case False
    then show ?thesis using that eq rest unfolding lru_kept_def by blast
  qed
  with kept show ?thesis by (simp add: lru_kept_def)
qed

text \<open>
  The purge stops as soon as there is room: when it removed anything, keeping the youngest of the
  removed entries as well would leave less than \<open>need\<close> of the size \<open>cap\<close>.
\<close>

definition just_enough ::
  "('d \<Rightarrow> int) \<Rightarrow> int \<Rightarrow> int \<Rightarrow> ('k \<times> 'd entry) list \<Rightarrow> ('k \<times> 'd entry) list \<Rightarrow> bool" where
  "just_enough isize cap need kvs kept \<longleftrightarrow> kept = kvs \<or>
     (\<exists>last\<in>set kvs - set kept. (\<forall>lost\<in>set kvs - set kept. e_age (snd lost) \<le> e_age (snd last)) \<and>
        cap < counted isize kept + isize (e_data (snd last)) + need)"

lemma just_enough_refl [simp]: "just_enough isize cap need kvs kvs"
  by (simp add: just_enough_def)

lemma just_enough_step:
  assumes i: "i < length kvs" "purgeable (snd (kvs ! i))" "cap < counted isize kvs + need" "distinct kvs"
    and min: "\<forall>j<length kvs. e_age (snd (kvs ! i)) \<le> e_age (snd (kvs ! j))"
    and rest: "just_enough isize cap need (take i kvs @ drop (Suc i) kvs) kept"
      "set kept \<subseteq> set (take i kvs @ drop (Suc i) kvs)"
  shows "just_enough isize cap need kvs kept"
proof -
  let ?kvs = "take i kvs @ drop (Suc i) kvs"
  have split: "kvs = take i kvs @ kvs ! i # drop (Suc i) kvs" by (rule id_take_nth_drop [OF i(1)])
  have eq: "set kvs = insert (kvs ! i) (set ?kvs)" by (subst split) auto
  have new: "kvs ! i \<notin> set ?kvs" using i(4) split by (metis distinct_append distinct.simps(2) disjoint_iff list.set_intros(1) set_append Un_iff)
  have low: "e_age (snd (kvs ! i)) \<le> e_age (snd s)" if "s \<in> set kvs" for s
    using min that by (metis in_set_conv_nth)
  have lost: "set kvs - set kept = insert (kvs ! i) (set ?kvs - set kept)" using eq new rest(2) by blast
  show ?thesis
  proof (cases "kept = ?kvs")
    case True
    have "cap < counted isize kept + isize (e_data (snd (kvs ! i))) + need"
      using i(3) counted_split [OF i(1), of isize] i(2) True by simp
    then show ?thesis unfolding just_enough_def lost using True by auto
  next
    case False
    then obtain last where last: "last \<in> set ?kvs - set kept"
        "\<forall>lost\<in>set ?kvs - set kept. e_age (snd lost) \<le> e_age (snd last)"
        "cap < counted isize kept + isize (e_data (snd last)) + need"
      using rest(1) unfolding just_enough_def by blast
    then have "e_age (snd (kvs ! i)) \<le> e_age (snd last)" using low eq by blast
    with last show ?thesis unfolding just_enough_def lost by blast
  qed
qed

context comparator
begin

lemma sorted_by_distinct: "sorted_by cmp (map fst kvs) \<Longrightarrow> distinct kvs"
proof (induction kvs)
  case (Cons kx kvs)
  have "kx \<notin> set kvs"
  proof
    assume "kx \<in> set kvs"
    then have "cmp (fst kx) (fst kx) < 0" using Cons.prems by (auto simp: sorted_by_def)
    then show False by (simp add: cmp_refl)
  qed
  then show ?case using Cons by (simp add: sorted_by_def)
qed simp

lemma purge_spec:
  assumes "kv_rep cmp (c_entries c) kvs" "kv_room (c_entries c) (length kvs)" "length kvs < fuel"
    and "c_sizeUsed c = counted isize kvs" "age \<le> NEVER_PURGE_AGE"
  shows "\<exists>c' kept. purge fuel m isize age need c = Some c' \<and> kv_rep cmp (c_entries c') kept \<and>
    c' = c\<lparr>c_sizeUsed := counted isize kept, c_entries := c_entries c'\<rparr> \<and>
    same_layout (c_entries c') (c_entries c) \<and> lru_kept age kvs kept \<and>
    just_enough isize (c_cacheSize c) need kvs kept \<and>
    (need \<le> size_left c' \<or> (\<forall>s\<in>set kept. age \<le> e_age (snd s)))"
  using assms
proof (induction fuel arbitrary: c kvs)
  case (Suc fuel)
  note prems = Suc.prems
  show ?case
  proof (cases "size_left c < need")
    case False
    then show ?thesis using prems by (intro exI [of _ c] exI [of _ kvs]) simp
  next
    case True
    have cnt: "KV_CountItems (c_entries c) = length kvs"
      using prems(1) by (simp add: KV_CountItems_def kv_rep_def vec_rep_def)
    obtain r where r: "oldest (c_entries c) age 0 (length kvs) None = Some r"
      "r = None \<and> (\<forall>j<length kvs. age \<le> e_age (snd (kvs ! j))) \<or>
       (\<exists>j. r = Some j \<and> j < length kvs \<and> e_age (snd (kvs ! j)) < age \<and>
          (\<forall>j'<length kvs. e_age (snd (kvs ! j)) \<le> e_age (snd (kvs ! j'))))"
      using oldest_spec [OF prems(1), of 0 "length kvs" age None] by auto
    from r(2) show ?thesis
    proof (elim disjE exE conjE)
      assume n: "r = None" "\<forall>j<length kvs. age \<le> e_age (snd (kvs ! j))"
      then have "\<forall>s\<in>set kvs. age \<le> e_age (snd s)" by (metis in_set_conv_nth)
      then show ?thesis
        using n True r(1) cnt prems by (intro exI [of _ c] exI [of _ kvs]) simp
    next
      fix j assume j: "r = Some j" "j < length kvs" "e_age (snd (kvs ! j)) < age"
        "\<forall>j'<length kvs. e_age (snd (kvs ! j)) \<le> e_age (snd (kvs ! j'))"
      let ?kvs = "take j kvs @ drop (Suc j) kvs"
      obtain es where es: "KV_RemoveItemsAt m m (c_entries c) j 1 = Some es" "same_layout es (c_entries c)"
          "kv_rep cmp es ?kvs"
        using KV_RemoveItemsAt_rep [OF prems(1,2) j(2), of m m] by blast
      let ?c = "c\<lparr>c_sizeUsed := c_sizeUsed c - isize (e_data (snd (kvs ! j))), c_entries := es\<rparr>"
      have "purgeable (snd (kvs ! j))" using j(3) prems(5) by (auto simp: purgeable_def)
      then have used: "c_sizeUsed ?c = counted isize ?kvs"
        using prems(4) counted_split [OF j(2), of isize] by simp
      have len: "length ?kvs \<le> length kvs" "length ?kvs < fuel" using j(2) prems(3) by auto
      have "kv_room (c_entries ?c) (length ?kvs)"
        using prems(2) kv_room_layout [OF es(2)] kv_room_mono [OF _ len(1)] by auto
      then obtain c' kept where c': "purge fuel m isize age need ?c = Some c'" "kv_rep cmp (c_entries c') kept"
          "c' = ?c\<lparr>c_sizeUsed := counted isize kept, c_entries := c_entries c'\<rparr>"
          "same_layout (c_entries c') es" "lru_kept age ?kvs kept" "just_enough isize (c_cacheSize c) need ?kvs kept"
          "need \<le> size_left c' \<or> (\<forall>s\<in>set kept. age \<le> e_age (snd s))"
        using Suc.IH [of ?c ?kvs] es(3) len(2) used prems(5) by auto
      have "purge (Suc fuel) m isize age need c = Some c'"
        using True cnt r(1) j(1) kv_value_at(1) [OF prems(1) j(2)] es(1) c'(1) by simp
      moreover have "distinct kvs" by (rule sorted_by_distinct) (use prems(1) in \<open>simp add: kv_rep_def\<close>)
      moreover have "c_cacheSize c < counted isize kvs + need" using True prems(4) by (simp add: size_left_def)
      ultimately show ?thesis
        using c' lru_kept_step [OF j(2,3,4) c'(5)] same_layout_trans [OF c'(4) es(2)]
          just_enough_step [OF j(2) \<open>purgeable (snd (kvs ! j))\<close> _ _ j(4) c'(6)]
        by (auto simp: lru_kept_def)
    qed
  qed
qed simp

end

lemma with_element_absent:
  assumes "p \<le> length xs"
  shows "set (with_element x False p xs) = insert x (set xs)"
    "counted isize (with_element kx False p kxs) =
       counted isize kxs + (if purgeable (snd kx) then isize (e_data (snd kx)) else 0)"
proof -
  have "set xs = set (take p xs) \<union> set (drop p xs)" by (metis append_take_drop_id set_append)
  then show "set (with_element x False p xs) = insert x (set xs)" by (auto simp: with_element_def)
  have "counted isize kxs = counted isize (take p kxs) + counted isize (drop p kxs)"
    by (metis append_take_drop_id counted_simps(3))
  then show "counted isize (with_element kx False p kxs) =
       counted isize kxs + (if purgeable (snd kx) then isize (e_data (snd kx)) else 0)"
    by (simp add: with_element_def)
qed

definition ages_ok :: "u32 \<Rightarrow> ('k \<times> 'd entry) list \<Rightarrow> bool" where
  "ages_ok now kvs \<longleftrightarrow> (\<forall>s\<in>set kvs. purgeable (snd s) \<longrightarrow> even (e_age (snd s)) \<and> e_age (snd s) \<le> now)"

lemma cache_ok_ages:
  "cache_ok cmp isize c kvs \<longleftrightarrow>
     kv_rep cmp (c_entries c) kvs \<and> c_sizeUsed c = counted isize kvs \<and> even (c_age c) \<and> ages_ok (c_age c) kvs"
  by (auto simp: cache_ok_def ages_ok_def)

context comparator
begin

lemma set_without:
  assumes "sorted_by cmp (map fst kvs)" "order_result cmp (map fst kvs) k True p"
  shows "set (take p kvs @ drop (Suc p) kvs) = {s \<in> set kvs. cmp k (fst s) \<noteq> 0}"
proof -
  have p: "p < length kvs" "cmp k (fst (kvs ! p)) = 0" using assms(2) by (auto simp: order_result_def)
  have kvs: "set kvs = insert (kvs ! p) (set (take p kvs) \<union> set (drop (Suc p) kvs))"
    by (subst id_take_nth_drop [OF p(1)]) auto
  have "cmp k (fst s) \<noteq> 0" if "s \<in> set (take p kvs) \<union> set (drop (Suc p) kvs)" for s
  proof -
    have "fst s \<in> set (take p (map fst kvs)) \<or> fst s \<in> set (drop (Suc p) (map fst kvs))"
      using that by (auto simp: take_map drop_map)
    then show ?thesis using order_result_split [OF assms(2)] cmp_eq_sym [of k "fst s"] by auto
  qed
  with kvs p(2) show ?thesis by auto
qed

lemma drop_old_spec:
  assumes ok: "cache_ok cmp isize c kvs" and room: "kv_room (c_entries c) (length kvs)"
    and old: "\<And>e. alookup cmp kvs key = Some e \<Longrightarrow> purgeable e"
  shows "\<exists>c' base. drop_old m cmp isize c key = Some c' \<and> cache_ok cmp isize c' base \<and>
    c' = c\<lparr>c_sizeUsed := counted isize base, c_entries := c_entries c'\<rparr> \<and>
    same_layout (c_entries c') (c_entries c) \<and> length base \<le> length kvs \<and>
    set base = {s \<in> set kvs. cmp key (fst s) \<noteq> 0}"
proof -
  have c: "kv_rep cmp (c_entries c) kvs" "c_sizeUsed c = counted isize kvs" "even (c_age c)" "ages_ok (c_age c) kvs"
    using ok by (simp_all add: cache_ok_ages)
  have kf: "KeyedFor cmp (c_entries c) key = Some (alookup cmp kvs key)"
    by (rule KeyedFor_rep [OF c(1) room])
  show ?thesis
  proof (cases "alookup cmp kvs key")
    case None
    then have "set kvs = {s \<in> set kvs. cmp key (fst s) \<noteq> 0}" by (auto simp: alookup_None)
    then show ?thesis
      using None kf ok c(2) by (intro exI [of _ c] exI [of _ kvs]) (simp add: drop_old_def)
  next
    case (Some e)
    obtain es r p where rm: "RemoveKeyed m m cmp (c_entries c) key = Some (es, r)"
        "kv_rep cmp es (take p kvs @ drop (Suc p) kvs)" "same_layout es (c_entries c)"
        "order_result cmp (map fst kvs) key True p"
      using RemoveKeyed_rep [OF c(1) room, of m m key] Some by auto
    let ?base = "take p kvs @ drop (Suc p) kvs"
    have p: "p < length kvs" "snd (kvs ! p) = e"
      using rm(4) alookup_order [OF rm(4)] Some by (auto simp: order_result_def)
    have set: "set ?base = {s \<in> set kvs. cmp key (fst s) \<noteq> 0}"
      using set_without [OF _ rm(4)] c(1) by (simp add: kv_rep_def)
    have used: "counted isize ?base = c_sizeUsed c - isize (e_data e)"
      using counted_split [OF p(1), of isize] p(2) old [OF Some] c(2) by simp
    let ?c = "c\<lparr>c_sizeUsed := counted isize ?base, c_entries := es\<rparr>"
    have "ages_ok (c_age c) ?base" using c(4) set unfolding ages_ok_def by blast
    then have "cache_ok cmp isize ?c ?base" using rm(2) c(3) by (simp add: cache_ok_ages)
    moreover have "drop_old m cmp isize c key = Some ?c"
      using kf Some rm(1) used by (simp add: drop_old_def)
    ultimately show ?thesis using set rm(3) by (intro exI [of _ ?c] exI [of _ ?base]) simp
  qed
qed

lemma make_room_spec:
  assumes "kv_rep cmp (c_entries c) kvs" "kv_room (c_entries c) (length kvs)" "c_sizeUsed c = counted isize kvs"
    and "c_age c \<le> NEVER_PURGE_AGE"
  shows "\<exists>c' kept. make_room m isize flags need c = Some c' \<and> kv_rep cmp (c_entries c') kept \<and>
    c' = c\<lparr>c_sizeUsed := counted isize kept, c_entries := c_entries c'\<rparr> \<and>
    same_layout (c_entries c') (c_entries c) \<and> lru_kept (c_age c) kvs kept \<and>
    just_enough isize (c_cacheSize c) need kvs kept \<and>
    (c_cacheSize c = 0 \<or> c_cacheSize c < need \<and> dont_purge flags \<longrightarrow> kept = kvs) \<and>
    (c_cacheSize c \<noteq> 0 \<and> need \<le> c_cacheSize c \<longrightarrow>
       need \<le> size_left c' \<or> (\<forall>s\<in>set kept. c_age c \<le> e_age (snd s)))"
proof (cases "c_cacheSize c = 0 \<or> c_cacheSize c < need \<and> dont_purge flags")
  case True
  then show ?thesis using assms by (intro exI [of _ c] exI [of _ kvs]) (auto simp: make_room_def)
next
  case False
  have "KV_CountItems (c_entries c) = length kvs"
    using assms(1) by (simp add: KV_CountItems_def kv_rep_def vec_rep_def)
  then have "make_room m isize flags need c = purge (Suc (length kvs)) m isize (c_age c) need c"
    using False by (auto simp: make_room_def)
  with purge_spec [OF assms(1,2) lessI assms(3,4), of m need] False show ?thesis by auto
qed

end

lemma ages_ok_subset:
  assumes "ages_ok t kvs" "set kept \<subseteq> set kvs" "t \<le> now"
  shows "ages_ok now kept"
  using assms unfolding ages_ok_def by (meson order_trans subsetD)

lemma counted_unpurgeable: "\<forall>s\<in>set kvs. \<not> purgeable (snd s) \<Longrightarrow> counted isize kvs = 0"
  by (induction kvs) auto

lemma fresh_age:
  assumes "unat (age :: u32) + 2 < 2 ^ 32 - 1"
  shows "age + 2 \<le> NEVER_PURGE_AGE" "age + 2 \<noteq> NEVER_PURGE_AGE" "age < age + 2"
proof -
  have "unat (age + 2) = unat age + 2" using assms by (simp add: unat_add_no_overflow)
  then show "age + 2 \<le> NEVER_PURGE_AGE" "age + 2 \<noteq> NEVER_PURGE_AGE" "age < age + 2"
    using assms by (auto simp: NEVER_PURGE_AGE_def word_le_nat_alt word_less_nat_alt)
qed

lemma purge_makes_room:
  assumes ages: "ages_ok t kept" "t < now"
    and c: "c2 = c\<lparr>c_age := now, c_sizeUsed := counted isize kept, c_entries := es\<rparr>"
    and stop: "c_cacheSize c \<noteq> 0 \<and> need \<le> c_cacheSize c \<longrightarrow>
      need \<le> size_left c2 \<or> (\<forall>s\<in>set kept. now \<le> e_age (snd s))"
    and fits: "c_cacheSize c \<noteq> 0" "need \<le> c_cacheSize c"
  shows "counted isize kept + need \<le> c_cacheSize c"
proof (cases "need \<le> size_left c2")
  case True
  then show ?thesis by (simp add: size_left_def c)
next
  case False
  then have "\<forall>s\<in>set kept. \<not> purgeable (snd s)"
    using stop fits ages unfolding ages_ok_def by (meson leD order_trans)
  then show ?thesis using fits(2) counted_unpurgeable [of kept isize] by simp
qed

context comparator
begin

text \<open>The last part of \<^verbatim>\<open>AbstractAdd\<close>: the new entry goes into the entries that were kept.\<close>

lemma add_entry_spec:
  assumes kept: "kv_rep cmp (c_entries c) kept" "c_sizeUsed c = counted isize kept" "even (c_age c)"
      "ages_ok (c_age c) kept" "alookup cmp kept key = None"
    and room: "kv_room (c_entries c) (Suc (length kept))"
    and new: "purgeable new \<Longrightarrow> e_age new = c_age c"
    and need: "need = (if purgeable new then isize (e_data new) else 0)"
  shows "(\<exists>es i kvs'. AddKeyed m m m cmp (c_entries c) key new = Some (es, int i) \<and>
      set kvs' = insert (key, new) (set kept) \<and>
      cache_ok cmp isize (c\<lparr>c_entries := es, c_sizeUsed := c_sizeUsed c + need\<rparr>) kvs') \<or>
    (\<exists>es. AddKeyed m m m cmp (c_entries c) key new = Some (es, B_NO_MEMORY) \<and> \<not> can_malloc m \<and>
      cache_ok cmp isize (c\<lparr>c_entries := es\<rparr>) kept)"
proof -
  have absent: "\<not> found" if "order_result cmp (map fst kept) key found p" for found p
    using alookup_order [OF that] kept(5) by auto
  consider (ok) es p where "AddKeyed m m m cmp (c_entries c) key new = Some (es, int p)"
      "order_result cmp (map fst kept) key False p" "kv_rep cmp es (with_element (key, new) False p kept)" |
    (fail) es where "AddKeyed m m m cmp (c_entries c) key new = Some (es, B_NO_MEMORY)" "kv_rep cmp es kept"
      "\<not> can_malloc m"
    using AddKeyed_rep [OF kept(1) room, of m m m key new] absent by (metis (full_types))
  then show ?thesis
  proof cases
    case ok
    let ?kvs = "with_element (key, new) False p kept"
    have p: "p \<le> length kept" using ok(2) by (simp add: order_result_def)
    have set: "set ?kvs = insert (key, new) (set kept)" by (rule with_element_absent(1) [OF p])
    moreover have "ages_ok (c_age c) ?kvs" unfolding ages_ok_def set using kept(3,4) new by (auto simp: ages_ok_def)
    moreover have "counted isize ?kvs = c_sizeUsed c + need"
      using with_element_absent(2) [OF p, of isize "(key, new)" kept] kept(2) need by simp
    ultimately have "cache_ok cmp isize (c\<lparr>c_entries := es, c_sizeUsed := c_sizeUsed c + need\<rparr>) ?kvs"
      using ok(3) kept(3) by (simp add: cache_ok_ages)
    with ok(1) set show ?thesis by blast
  next
    case fail
    then have "cache_ok cmp isize (c\<lparr>c_entries := es\<rparr>) kept" using kept by (simp add: cache_ok_ages)
    with fail show ?thesis by blast
  qed
qed

lemma AbstractAdd_spec:
  fixes data :: 'd and flags :: cache_flags
  assumes ok: "cache_ok cmp isize c kvs" and room: "cache_room c (Suc (length kvs))"
    and old: "\<And>e. alookup cmp kvs key = Some e \<Longrightarrow> purgeable e"
  defines "need \<equiv> (if never_purge flags then 0 else isize data)"
  defines "new \<equiv> \<lparr>e_age = (if never_purge flags then NEVER_PURGE_AGE else c_age c + 2), e_data = data\<rparr>"
  shows "\<exists>c' r base kept kvs'. AbstractAdd m cmp isize c key data flags = Some (c', r) \<and>
    set base = {s \<in> set kvs. cmp key (fst s) \<noteq> 0} \<and> lru_kept (c_age c + 2) base kept \<and>
    just_enough isize (c_cacheSize c) need base kept \<and>
    (c_cacheSize c = 0 \<or> c_cacheSize c < need \<and> dont_purge flags \<longrightarrow> kept = base) \<and>
    cache_ok cmp isize c' kvs' \<and> c_cacheSize c' = c_cacheSize c \<and>
    c_sizeUsed c' = counted isize kept + (if r = B_OK then need else 0) \<and>
    (r = B_OK \<and> set kvs' = insert (key, new) (set kept) \<and>
       (c_cacheSize c \<noteq> 0 \<and> need \<le> c_cacheSize c \<longrightarrow> c_sizeUsed c' \<le> c_cacheSize c) \<or>
     r = B_NO_MEMORY \<and> kvs' = kept \<and> (dont_add flags \<or> \<not> can_malloc m))"
proof -
  have fit: "kv_room (c_entries c) (Suc (length kvs))" "unat (c_age c) + 2 < 2 ^ 32 - 1"
    using room by (simp_all add: cache_room_def)
  obtain c1 base where d: "drop_old m cmp isize c key = Some c1" "cache_ok cmp isize c1 base"
      "c1 = c\<lparr>c_sizeUsed := counted isize base, c_entries := c_entries c1\<rparr>"
      "same_layout (c_entries c1) (c_entries c)" "length base \<le> length kvs"
      "set base = {s \<in> set kvs. cmp key (fst s) \<noteq> 0}"
    using drop_old_spec [OF ok kv_room_mono [OF fit(1)], of key m] old by auto
  define e1 where "e1 = c_entries c1"
  have c1: "c1 = c\<lparr>c_sizeUsed := counted isize base, c_entries := e1\<rparr>" using d(3) by (simp only: e1_def)
  let ?now = "c_age c + 2"
  note now = fresh_age [OF fit(2)]
  have b: "kv_rep cmp e1 base" "even (c_age c)" "ages_ok (c_age c) base"
    using d(2) by (simp_all add: c1 cache_ok_ages)
  have room1: "kv_room e1 (Suc (length base))"
    using kv_room_mono [OF fit(1)] kv_room_layout [OF d(4)] d(5) by (auto simp: e1_def)
  obtain c2 kept where r: "make_room m isize flags need (tick c1) = Some c2" "kv_rep cmp (c_entries c2) kept"
      "c2 = (tick c1)\<lparr>c_sizeUsed := counted isize kept, c_entries := c_entries c2\<rparr>"
      "same_layout (c_entries c2) e1" "lru_kept ?now base kept"
      "c_cacheSize c \<noteq> 0 \<and> need \<le> c_cacheSize c \<longrightarrow> need \<le> size_left c2 \<or> (\<forall>s\<in>set kept. ?now \<le> e_age (snd s))"
      "just_enough isize (c_cacheSize c) need base kept"
      "c_cacheSize c = 0 \<or> c_cacheSize c < need \<and> dont_purge flags \<longrightarrow> kept = base"
    using make_room_spec [of "tick c1" base isize m flags need] b(1) now(1) kv_room_mono [OF room1]
    by (auto simp: tick_def c1)
  define e2 where "e2 = c_entries c2"
  have c2: "c2 = c\<lparr>c_age := ?now, c_sizeUsed := counted isize kept, c_entries := e2\<rparr>"
    using r(3) by (simp only: e2_def [symmetric]) (simp add: tick_def c1)
  have kept: "set kept \<subseteq> set base" "length kept \<le> length base" using r(5) by (simp_all add: lru_kept_def)
  have ages: "ages_ok ?now kept" using ages_ok_subset [OF b(3) kept(1)] now(3) by simp
  have absent: "alookup cmp kept key = None" using kept(1) d(6) by (auto simp: alookup_None)
  have room2: "kv_room e2 (Suc (length kept))"
    using kv_room_mono [OF room1] kv_room_layout [OF r(4)] kept(2) by (auto simp: e2_def)
  have rep: "kv_rep cmp e2 kept" using r(2) by (simp add: e2_def)
  have even: "even ?now" using b(2) by simp
  have "ages_ok (c_age c) kept" by (rule ages_ok_subset [OF b(3) kept(1) order_refl])
  note bound = purge_makes_room [OF this now(3) c2 r(6)]
  have pn: "purgeable new \<longleftrightarrow> \<not> never_purge flags" using now(2) by (simp add: purgeable_def new_def)
  have run: "AbstractAdd m cmp isize c key data flags =
      (if dont_add flags \<and> size_left c2 < need then Some (c2, B_NO_MEMORY)
       else do { (es, index) \<leftarrow> AddKeyed m m m cmp e2 key new;
                 if index \<ge> 0 then Some (c2\<lparr>c_entries := es, c_sizeUsed := c_sizeUsed c2 + need\<rparr>, B_OK)
                 else Some (c2\<lparr>c_entries := es\<rparr>, index) })"
  proof -
    have "c_entries c2 = e2" "c_age c2 = ?now" by (simp_all add: c2)
    then show ?thesis
      unfolding AbstractAdd_def Let_def need_def [symmetric] using d(1) r(1) by (simp add: new_def)
  qed
  have ok2: "cache_ok cmp isize c2 kept" using rep even ages by (simp add: c2 cache_ok_ages)
  show ?thesis
  proof (cases "dont_add flags \<and> size_left c2 < need")
    case True
    then show ?thesis
      using run ok2 d(6) r(5,7,8) by (intro exI [of _ c2] exI [of _ B_NO_MEMORY] exI [of _ base] exI [of _ kept])
        (simp add: c2 status_defs)
  next
    case False
    have "purgeable new \<Longrightarrow> e_age new = c_age c2" "need = (if purgeable new then isize (e_data new) else 0)"
      using pn by (simp_all add: new_def need_def c2)
    then consider (add) es i kvs' where "AddKeyed m m m cmp e2 key new = Some (es, int i)"
        "set kvs' = insert (key, new) (set kept)"
        "cache_ok cmp isize (c2\<lparr>c_entries := es, c_sizeUsed := c_sizeUsed c2 + need\<rparr>) kvs'" |
      (fail) es where "AddKeyed m m m cmp e2 key new = Some (es, B_NO_MEMORY)" "\<not> can_malloc m"
        "cache_ok cmp isize (c2\<lparr>c_entries := es\<rparr>) kept"
      using add_entry_spec [of c2 kept isize key new need m] rep even ages absent room2 by (auto simp: c2)
    then show ?thesis
    proof cases
      case add
      let ?c = "c2\<lparr>c_entries := es, c_sizeUsed := c_sizeUsed c2 + need\<rparr>"
      have "AbstractAdd m cmp isize c key data flags = Some (?c, B_OK)" using run False add(1) by auto
      then show ?thesis
        using add(2,3) d(6) r(5,7,8) bound
        by (intro exI [of _ ?c] exI [of _ B_OK] exI [of _ base] exI [of _ kept] exI [of _ kvs']) (simp add: c2 status_defs)
    next
      case fail
      let ?c = "c2\<lparr>c_entries := es\<rparr>"
      have "AbstractAdd m cmp isize c key data flags = Some (?c, B_NO_MEMORY)" using run False fail(1) by auto
      then show ?thesis
        using fail(2,3) d(6) r(5,7,8)
        by (intro exI [of _ ?c] exI [of _ B_NO_MEMORY] exI [of _ base] exI [of _ kept] exI [of _ kept]) (simp add: c2 status_defs)
    qed
  qed
qed

end

context comparator
begin

lemma EditKeyedFor_rep:
  assumes kv: "kv_rep cmp kv kvs" and room: "kv_room kv (length kvs)" and found: "alookup cmp kvs k = Some e"
  shows "\<exists>kv' p. EditKeyedFor cmp kv k f = Some (kv', True) \<and> order_result cmp (map fst kvs) k True p \<and>
    snd (kvs ! p) = e \<and> kv_rep cmp kv' (kvs[p := (fst (kvs ! p), f e)])"
proof -
  obtain b p where g: "GetOrderOf cmp (kv_keys kv) k = Some (b, p)" "order_result cmp (map fst kvs) k b p"
    using GetOrderOf_result [of "kv_keys kv" "map fst kvs" k] kv room by (auto simp: kv_rep_def kv_room_def)
  have b: b "snd (kvs ! p) = e" using alookup_order [OF g(2)] found by (auto split: if_splits)
  then have p: "p < length kvs" using g(2) by (simp add: order_result_def)
  have V: "vec_rep (kv_values kv) (map snd kvs)" "v_size (kv_values kv) = length kvs"
    using kv by (simp_all add: kv_rep_def vec_rep_def)
  obtain vs where vs: "Vector_ReplaceAt (kv_values kv) (f e) p = Some (vs, int p)" "vec_rep vs ((map snd kvs)[p := f e])"
    using Vector_ReplaceAt_rep [OF V(1), of p "f e"] p by auto
  have "EditKeyedFor cmp kv k f = Some (kv\<lparr>kv_values := vs\<rparr>, True)"
    using g(1) b p V Vector_At_rep [OF V(1), of p] vs(1)
    by (simp add: EditKeyedFor_def OrderOf_def B_OK_def Let_def)
  moreover have "map fst (kvs[p := (fst (kvs ! p), f e)]) = map fst kvs"
    using p by (simp add: map_update) (metis list_update_id map_update nth_map)
  then have "kv_rep cmp (kv\<lparr>kv_values := vs\<rparr>) (kvs[p := (fst (kvs ! p), f e)])"
    using kv vs(2) by (simp add: kv_rep_def map_update)
  ultimately show ?thesis using g(2) b by auto
qed

lemma AbstractRemove_spec:
  assumes ok: "cache_ok cmp isize c kvs" and room: "kv_room (c_entries c) (length kvs)"
  shows "\<exists>c' r base. AbstractRemove m cmp isize c key = Some (c', r) \<and> cache_ok cmp isize c' base \<and>
    set base = {s \<in> set kvs. cmp key (fst s) \<noteq> 0} \<and> (r = B_OK \<longleftrightarrow> alookup cmp kvs key \<noteq> None)"
proof -
  have c: "kv_rep cmp (c_entries c) kvs" "c_sizeUsed c = counted isize kvs" "even (c_age c)" "ages_ok (c_age c) kvs"
    using ok by (simp_all add: cache_ok_ages)
  have kf: "KeyedFor cmp (c_entries c) key = Some (alookup cmp kvs key)"
    by (rule KeyedFor_rep [OF c(1) room])
  show ?thesis
  proof (cases "alookup cmp kvs key")
    case None
    then have "set kvs = {s \<in> set kvs. cmp key (fst s) \<noteq> 0}" by (auto simp: alookup_None)
    then show ?thesis
      using None kf ok by (intro exI [of _ c] exI [of _ B_NAME_NOT_FOUND] exI [of _ kvs])
        (simp add: AbstractRemove_def status_defs)
  next
    case (Some e)
    obtain es r p where rm: "RemoveKeyed m m cmp (c_entries c) key = Some (es, r)"
        "kv_rep cmp es (take p kvs @ drop (Suc p) kvs)" "order_result cmp (map fst kvs) key True p"
      using RemoveKeyed_rep [OF c(1) room, of m m key] Some by auto
    let ?base = "take p kvs @ drop (Suc p) kvs"
    have p: "p < length kvs" "snd (kvs ! p) = e"
      using rm(3) alookup_order [OF rm(3)] Some by (auto simp: order_result_def)
    have set: "set ?base = {s \<in> set kvs. cmp key (fst s) \<noteq> 0}"
      using set_without [OF _ rm(3)] c(1) by (simp add: kv_rep_def)
    have odd: "e_age e AND 1 \<noteq> 0 \<longleftrightarrow> \<not> purgeable e"
      using c(4) p nth_mem [OF p(1)]
      by (auto simp: ages_ok_def purgeable_def NEVER_PURGE_AGE_def and_one_eq even_iff_mod_2_eq_zero)
    let ?c = "c\<lparr>c_sizeUsed := counted isize ?base, c_entries := es\<rparr>"
    have "ages_ok (c_age c) ?base" using c(4) set unfolding ages_ok_def by blast
    then have "cache_ok cmp isize ?c ?base" using rm(2) c(3) by (simp add: cache_ok_ages)
    moreover have "AbstractRemove m cmp isize c key = Some (?c, B_OK)"
      using kf Some rm(1) counted_split [OF p(1), of isize] p(2) c(2) odd by (simp add: AbstractRemove_def)
    ultimately show ?thesis
      using set Some by (intro exI [of _ ?c] exI [of _ B_OK] exI [of _ ?base]) simp
  qed
qed

end

context comparator
begin

lemma alookup_mem:
  assumes "sorted_by cmp (map fst kvs)" "(k, v) \<in> set kvs"
  shows "alookup cmp kvs k = Some v"
proof -
  obtain A B where kvs: "kvs = A @ (k, v) # B" using split_list [OF assms(2)] by blast
  then have "\<forall>y\<in>set (map fst A). cmp y k < 0"
    using assms(1) by (simp add: sorted_by_def sorted_wrt_append)
  then show ?thesis using alookup_mid [of A k v B k] cmp_refl kvs by simp
qed

end

section \<open>Properties\<close>

text \<open>
  C7. Adding an item keeps the cache's accounting exact and evicts least recently used entries
  only, and no more of them than are needed: every entry it drops to make room is at least as old
  as every entry it keeps, entries marked never to be purged stay, and when anything was dropped,
  keeping the youngest of the dropped entries as well would have left too little room for the item.
  Nothing is dropped from a cache without a size limit, nor for an item larger than the whole cache
  when the caller forbids it. An item that fits the cache never leaves it over its size. When the
  item cannot be stored the entries that were kept remain and nothing stands under the key.
  (The key must not belong to an entry marked never to be purged.)
\<close>

theorem cache_add_lru:
  fixes data :: 'd and flags :: cache_flags
  assumes "comparator cmp" "cache_ok cmp isize c kvs" "cache_room c (Suc (length kvs))"
    and "\<forall>e. alookup cmp kvs key = Some e \<longrightarrow> purgeable e"
  defines "need \<equiv> (if never_purge flags then 0 else isize data)"
  defines "new \<equiv> \<lparr>e_age = (if never_purge flags then NEVER_PURGE_AGE else c_age c + 2), e_data = data\<rparr>"
  shows "\<exists>c' r kvs'. AbstractAdd m cmp isize c key data flags = Some (c', r) \<and> cache_ok cmp isize c' kvs' \<and>
    {s \<in> set kvs'. cmp key (fst s) \<noteq> 0} \<subseteq> set kvs \<and>
    (\<forall>lost\<in>set kvs. \<forall>s\<in>set kvs'. lost \<notin> set kvs' \<longrightarrow> cmp key (fst lost) \<noteq> 0 \<longrightarrow> cmp key (fst s) \<noteq> 0 \<longrightarrow>
       purgeable (snd lost) \<and> e_age (snd lost) \<le> e_age (snd s)) \<and>
    (let dropped = {s \<in> set kvs - set kvs'. cmp key (fst s) \<noteq> 0} in
       dropped \<noteq> {} \<longrightarrow>
         c_cacheSize c \<noteq> 0 \<and> \<not> (c_cacheSize c < need \<and> dont_purge flags) \<and>
         (\<exists>last\<in>dropped. (\<forall>lost\<in>dropped. e_age (snd lost) \<le> e_age (snd last)) \<and>
            c_cacheSize c < c_sizeUsed c' + isize (e_data (snd last)) + (if r = B_OK then 0 else need))) \<and>
    (r = B_OK \<longrightarrow> alookup cmp kvs' key = Some new \<and>
       (c_cacheSize c \<noteq> 0 \<and> need \<le> c_cacheSize c \<longrightarrow> c_sizeUsed c' \<le> c_cacheSize c)) \<and>
    (r = B_OK \<or> r = B_NO_MEMORY \<and> alookup cmp kvs' key = None \<and> (dont_add flags \<or> \<not> can_malloc m))"
proof -
  obtain c' r base kept kvs' where spec: "AbstractAdd m cmp isize c key data flags = Some (c', r)"
      "set base = {s \<in> set kvs. cmp key (fst s) \<noteq> 0}" "lru_kept (c_age c + 2) base kept"
      "cache_ok cmp isize c' kvs'"
      "r = B_OK \<and> set kvs' = insert (key, new) (set kept) \<and>
         (c_cacheSize c \<noteq> 0 \<and> need \<le> c_cacheSize c \<longrightarrow> c_sizeUsed c' \<le> c_cacheSize c) \<or>
       r = B_NO_MEMORY \<and> kvs' = kept \<and> (dont_add flags \<or> \<not> can_malloc m)"
      "just_enough isize (c_cacheSize c) need base kept"
      "c_cacheSize c = 0 \<or> c_cacheSize c < need \<and> dont_purge flags \<longrightarrow> kept = base"
      "c_sizeUsed c' = counted isize kept + (if r = B_OK then need else 0)"
    using comparator.AbstractAdd_spec [OF assms(1,2,3), of key m data flags] assms(4)
    unfolding need_def new_def by blast
  have refl: "cmp key key = 0" by (rule comparator.cmp_refl [OF assms(1)])
  have now: "c_age c + 2 \<le> NEVER_PURGE_AGE" using assms(3) fresh_age(1) by (simp add: cache_room_def)
  have kept: "set kept \<subseteq> set base" using spec(3) by (simp add: lru_kept_def)
  have sub: "{s \<in> set kvs'. cmp key (fst s) \<noteq> 0} \<subseteq> set kvs" using kept spec(2,5) refl by auto
  have gone: "{s \<in> set kvs - set kvs'. cmp key (fst s) \<noteq> 0} = set base - set kept" using spec(2,5) refl by auto
  have lru: "purgeable (snd lost) \<and> e_age (snd lost) \<le> e_age (snd s)"
    if l: "lost \<in> set kvs" "lost \<notin> set kvs'" "cmp key (fst lost) \<noteq> 0" and s: "s \<in> set kvs'" "cmp key (fst s) \<noteq> 0" for lost s
  proof -
    have "lost \<in> set base - set kept" using l spec(2,5) by auto
    moreover have "s \<in> set kept" using s spec(5) refl by auto
    ultimately show ?thesis using spec(3) now unfolding lru_kept_def purgeable_def by (metis leD)
  qed
  have minimal: "c_cacheSize c \<noteq> 0 \<and> \<not> (c_cacheSize c < need \<and> dont_purge flags) \<and>
         (\<exists>last\<in>set base - set kept. (\<forall>lost\<in>set base - set kept. e_age (snd lost) \<le> e_age (snd last)) \<and>
            c_cacheSize c < c_sizeUsed c' + isize (e_data (snd last)) + (if r = B_OK then 0 else need))"
    if "set base - set kept \<noteq> {}"
  proof -
    have "kept \<noteq> base" using that by auto
    then show ?thesis using spec(6,7,8) unfolding just_enough_def by (auto simp: algebra_simps)
  qed
  have found: "r = B_OK \<longrightarrow> alookup cmp kvs' key = Some new \<and>
      (c_cacheSize c \<noteq> 0 \<and> need \<le> c_cacheSize c \<longrightarrow> c_sizeUsed c' \<le> c_cacheSize c)"
    using spec(4,5) comparator.alookup_mem [OF assms(1), of kvs' key new]
    by (auto simp: cache_ok_def kv_rep_def status_defs)
  have absent: "r = B_OK \<or> r = B_NO_MEMORY \<and> alookup cmp kvs' key = None \<and> (dont_add flags \<or> \<not> can_malloc m)"
    using spec(2,5) kept by (auto simp: alookup_None)
  have "\<forall>lost\<in>set kvs. \<forall>s\<in>set kvs'. lost \<notin> set kvs' \<longrightarrow> cmp key (fst lost) \<noteq> 0 \<longrightarrow> cmp key (fst s) \<noteq> 0 \<longrightarrow>
      purgeable (snd lost) \<and> e_age (snd lost) \<le> e_age (snd s)"
    using lru by blast
  then show ?thesis
    using spec(1,4) sub minimal found absent
    by (intro exI [of _ c'] exI [of _ r] exI [of _ kvs'], unfold Let_def gone, intro conjI) blast+
qed

text \<open>
  Removing a key forgets exactly its entry and keeps the accounting exact, whether or not
  the entry was counted; an unknown key is reported.
\<close>

lemma cache_remove:
  assumes "comparator cmp" "cache_ok cmp isize c kvs" "kv_room (c_entries c) (length kvs)"
  shows "\<exists>c' r kvs'. AbstractRemove m cmp isize c key = Some (c', r) \<and> cache_ok cmp isize c' kvs' \<and>
    set kvs' = {s \<in> set kvs. cmp key (fst s) \<noteq> 0} \<and> (r = B_OK \<longleftrightarrow> alookup cmp kvs key \<noteq> None)"
  by (rule comparator.AbstractRemove_spec [OF assms])

text \<open>An empty cache of 100 units with natural numbers as keys and items.\<close>

definition cache_100 :: "(nat, nat) gcache" where
  "cache_100 = Cache_new 100 \<lparr>kv_keys = Vector_new 4, kv_values = Vector_new 4\<rparr>"

lemma cache_100_ok:
  "cache_ok BCompare int cache_100 []" "cache_room cache_100 (Suc 0)" "kv_room (c_entries cache_100) 0"
  by (simp_all add: cache_100_def Cache_new_def cache_ok_def kv_rep_def vec_rep_new sorted_by_def
      cache_room_def kv_room_def vec_room_def)

definition no_flags :: cache_flags where
  "no_flags = \<lparr>never_purge = False, dont_add = False, dont_purge = False\<rparr>"

theorem cache_add_lru_witness:
  "\<exists>c' kvs'. AbstractAdd \<lparr>can_inplace = False, can_malloc = True\<rparr> BCompare int cache_100 7 40 no_flags = Some (c', B_OK) \<and>
     cache_ok BCompare int c' kvs' \<and> c_sizeUsed c' \<le> 100"
proof -
  obtain c' r kvs' where
    "AbstractAdd \<lparr>can_inplace = False, can_malloc = True\<rparr> BCompare int cache_100 7 40 no_flags = Some (c', r)"
    "cache_ok BCompare int c' kvs'" "r = B_OK"
    "r = B_OK \<longrightarrow> (c_cacheSize cache_100 \<noteq> 0 \<and> 40 \<le> c_cacheSize cache_100 \<longrightarrow> c_sizeUsed c' \<le> c_cacheSize cache_100)"
    using cache_add_lru [OF bcompare.comparator_axioms cache_100_ok(1), where key = 7 and data = 40 and flags = no_flags
        and m = "\<lparr>can_inplace = False, can_malloc = True\<rparr>"]
      cache_100_ok(2) by (auto simp: no_flags_def)
  moreover have "c_cacheSize cache_100 = 100" by (simp add: cache_100_def Cache_new_def)
  ultimately show ?thesis by auto
qed

lemma cache_remove_example:
  "\<exists>c' r. AbstractRemove \<lparr>can_inplace = False, can_malloc = True\<rparr> BCompare int cache_100 7 = Some (c', r) \<and> r \<noteq> B_OK"
  using cache_remove [OF bcompare.comparator_axioms cache_100_ok(1), of "\<lparr>can_inplace = False, can_malloc = True\<rparr>" 7]
    cache_100_ok(3) by auto

text \<open>
  Replacing an entry marked never to be purged subtracts a size that was never added: the
  accounting is then too small by the size of the old item.
\<close>

lemma cache_replace_miscounts:
  assumes "comparator cmp" "cache_ok cmp isize c kvs" "kv_room (c_entries c) (length kvs)"
    and e: "alookup cmp kvs key = Some e" "\<not> purgeable e"
  shows "\<exists>c' base. drop_old m cmp isize c key = Some c' \<and> kv_rep cmp (c_entries c') base \<and>
    c_sizeUsed c' = counted isize base - isize (e_data e)"
proof -
  have c: "kv_rep cmp (c_entries c) kvs" "c_sizeUsed c = counted isize kvs"
    using assms(2) by (simp_all add: cache_ok_def)
  obtain es r p where rm: "RemoveKeyed m m cmp (c_entries c) key = Some (es, r)"
      "kv_rep cmp es (take p kvs @ drop (Suc p) kvs)" "order_result cmp (map fst kvs) key True p"
    using comparator.RemoveKeyed_rep [OF assms(1) c(1) assms(3), of m m key] e(1) by auto
  have p: "p < length kvs" "snd (kvs ! p) = e"
    using rm(3) comparator.alookup_order [OF assms(1) rm(3)] e(1) by (auto simp: order_result_def)
  have "drop_old m cmp isize c key = Some (c\<lparr>c_sizeUsed := c_sizeUsed c - isize (e_data e), c_entries := es\<rparr>)"
    using comparator.KeyedFor_rep [OF assms(1) c(1) assms(3), of key] e(1) rm(1) by (simp add: drop_old_def)
  then show ?thesis
    using rm(2) c(2) counted_split [OF p(1), of isize] p(2) e(2) by auto
qed

end
