(* ===== verification/Links.thy ===== *)
theory Links
  imports OB_Prelude
begin

text \<open>
  Doubly linked nodes in a store, for the list classes of the support kit. A pointer is a
  natural number, \<open>None\<close> is null, and each pointer field of all nodes is one function from
  pointers to pointers. \<open>seg\<close> says that a list of nodes is linked both ways.
\<close>

type_synonym ptr = nat

record links =
  nexts :: "ptr \<Rightarrow> ptr option"
  prevs :: "ptr \<Rightarrow> ptr option"

definition set_next :: "ptr \<Rightarrow> ptr option \<Rightarrow> 'a links_scheme \<Rightarrow> 'a links_scheme" where
  "set_next p q s = s\<lparr>nexts := (nexts s)(p := q)\<rparr>"

definition set_prev :: "ptr \<Rightarrow> ptr option \<Rightarrow> 'a links_scheme \<Rightarrow> 'a links_scheme" where
  "set_prev p q s = s\<lparr>prevs := (prevs s)(p := q)\<rparr>"

definition first_or :: "ptr list \<Rightarrow> ptr option \<Rightarrow> ptr option" where
  "first_or xs q = (case xs of [] \<Rightarrow> q | x # _ \<Rightarrow> Some x)"

definition last_or :: "ptr option \<Rightarrow> ptr list \<Rightarrow> ptr option" where
  "last_or q xs = (if xs = [] then q else Some (last xs))"

text \<open>\<open>seg s p xs n\<close>: the nodes \<open>xs\<close> are linked in order, \<open>p\<close> comes before and \<open>n\<close> after them.\<close>

fun seg :: "'a links_scheme \<Rightarrow> ptr option \<Rightarrow> ptr list \<Rightarrow> ptr option \<Rightarrow> bool" where
  "seg s p [] n = True"
| "seg s p (x # xs) n \<longleftrightarrow> prevs s x = p \<and> nexts s x = first_or xs n \<and> seg s (Some x) xs n"

lemma first_or_simps [simp]:
  "first_or [] q = q" "first_or (x # xs) q = Some x"
  by (simp_all add: first_or_def)

lemma first_or_append [simp]: "first_or (xs @ ys) q = first_or xs (first_or ys q)"
  by (cases xs) simp_all

lemma last_or_simps [simp]:
  "last_or q [] = q" "last_or q (xs @ [x]) = Some x"
  by (simp_all add: last_or_def)

lemma last_or_Cons [simp]: "last_or q (x # xs) = last_or (Some x) xs"
  by (simp add: last_or_def)

lemma last_or_append [simp]: "last_or q (xs @ ys) = last_or (last_or q xs) ys"
  by (simp add: last_or_def)

lemma first_or_Some [simp]: "first_or xs (Some y) \<noteq> None" "\<exists>z. first_or xs (Some y) = Some z"
  by (cases xs; simp)+

lemma last_or_Some [simp]: "last_or (Some y) xs \<noteq> None" "\<exists>z. last_or (Some y) xs = Some z"
  by (simp_all add: last_or_def)

lemma first_or_eq: "first_or xs q = (if xs = [] then q else Some (hd xs))"
  by (cases xs) simp_all

lemma links_get [simp]:
  "nexts (set_next p q s) = (nexts s)(p := q)" "prevs (set_next p q s) = prevs s"
  "nexts (set_prev p q s) = nexts s" "prevs (set_prev p q s) = (prevs s)(p := q)"
  "links.more (set_next p q s) = links.more s" "links.more (set_prev p q s) = links.more s"
  by (simp_all add: set_next_def set_prev_def)

lemma seg_append [simp]:
  "seg s p (xs @ ys) n \<longleftrightarrow> seg s p xs (first_or ys n) \<and> seg s (last_or p xs) ys n"
  by (induction xs arbitrary: p) (auto simp: last_or_def)

lemma seg_cong:
  assumes "\<And>x. x \<in> set xs \<Longrightarrow> nexts s x = nexts t x" "\<And>x. x \<in> set xs \<Longrightarrow> prevs s x = prevs t x"
  shows "seg s p xs n = seg t p xs n"
  using assms by (induction xs arbitrary: p) auto

lemma seg_frame [simp]:
  "x \<notin> set xs \<Longrightarrow> seg (set_next x q s) p xs n = seg s p xs n"
  "x \<notin> set xs \<Longrightarrow> seg (set_prev x q s) p xs n = seg s p xs n"
  by (rule seg_cong; auto)+

lemma seg_set_last:
  assumes "seg s p (xs @ [x]) n" "x \<notin> set xs"
  shows "seg (set_next x q s) p (xs @ [x]) q"
  using assms by simp

lemma seg_set_first:
  assumes "seg s p (x # xs) n" "x \<notin> set xs"
  shows "seg (set_prev x q s) q (x # xs) n"
  using assms by simp

text \<open>The neighbours of a node in the middle.\<close>

lemma seg_neighbours:
  assumes "seg s p (xs @ x # ys) n"
  shows "prevs s x = last_or p xs" "nexts s x = first_or ys n"
  using assms by simp_all

lemma last_or_Some_snoc:
  assumes "xs \<noteq> []"
  obtains ys y where "xs = ys @ [y]" "last_or q xs = Some y"
  using assms by (metis append_butlast_last_id last_or_simps(2))

end
