(* ===== verification/Message_List.thy ===== *)
theory Message_List
  imports Links
begin

text \<open>
  The message queue of the support kit, \<^verbatim>\<open>src/libraries/libbinder/support/MessageList.cpp\<close>:
  a doubly linked list of \<^verbatim>\<open>SMessage\<close> objects kept in time order. The store holds the links
  and the fields of every message; an \<^verbatim>\<open>SMessageList\<close> is its head, tail and counter. Two
  lists (the queue and the list of removed messages) live in one store. A loop over the links is
  a \<open>partial_function\<close>: on a well-formed list it is shown to return.
\<close>

section \<open>Messages and lists\<close>

text \<open>The fields of \<^verbatim>\<open>SMessage\<close> but the links; the data is an \<^verbatim>\<open>SValue\<close>, which the list only copies.\<close>

record 'd message =
  What :: u32
  When :: int
  Priority :: int
  Data :: 'd

record 'd store = links +
  msgs :: "ptr \<Rightarrow> 'd message"
  live :: "ptr list"

record mlist =
  fHead :: "ptr option"
  fTail :: "ptr option"
  fCount :: int

definition B_ANY_WHAT :: u32 where "B_ANY_WHAT = 0"

definition B_INFINITE_TIMEOUT :: int where "B_INFINITE_TIMEOUT = 9223372036854775807"

definition MList_new :: mlist where
  "MList_new = \<lparr>fHead = None, fTail = None, fCount = 0\<rparr>"

text \<open>Setters of one message, and its construction at an address the allocator gave.\<close>

definition edit_msg :: "ptr \<Rightarrow> ('d message \<Rightarrow> 'd message) \<Rightarrow> 'd store \<Rightarrow> 'd store" where
  "edit_msg p f s = s\<lparr>msgs := (msgs s)(p := f (msgs s p))\<rparr>"

definition Message_assign :: "ptr \<Rightarrow> 'd message \<Rightarrow> 'd store \<Rightarrow> 'd store" where
  "Message_assign p om s =
     edit_msg p (\<lambda>m. m\<lparr>What := What om, When := When om, Priority := Priority om, Data := Data om\<rparr>) s"

definition Message_copy :: "ptr \<Rightarrow> 'd message \<Rightarrow> 'd store \<Rightarrow> 'd store" where
  "Message_copy p om s =
     set_prev p None (set_next p None
       (s\<lparr>msgs := (msgs s)(p := \<lparr>What = What om, When = When om, Priority = Priority om, Data = Data om\<rparr>),
          live := p # live s\<rparr>))"

definition SetWhen :: "ptr \<Rightarrow> int \<Rightarrow> 'd store \<Rightarrow> 'd store" where
  "SetWhen p t = edit_msg p (\<lambda>m. m\<lparr>When := t\<rparr>)"

definition SetData :: "ptr \<Rightarrow> 'd \<Rightarrow> 'd store \<Rightarrow> 'd store" where
  "SetData p d = edit_msg p (\<lambda>m. m\<lparr>Data := d\<rparr>)"

definition SetPriority :: "ptr \<Rightarrow> int \<Rightarrow> 'd store \<Rightarrow> 'd store" where
  "SetPriority p n = edit_msg p (\<lambda>m. m\<lparr>Priority := n\<rparr>)"

definition Message_delete :: "ptr \<Rightarrow> 'd store \<Rightarrow> 'd store" where
  "Message_delete p s = s\<lparr>live := removeAll p (live s)\<rparr>"

section \<open>Adding and removing\<close>

definition AddHead :: "ptr \<Rightarrow> 'a links_scheme \<Rightarrow> mlist \<Rightarrow> 'a links_scheme \<times> mlist" where
  "AddHead m s l =
    (let s = set_next m (fHead l) s;
         s = (case fHead l of Some h \<Rightarrow> set_prev h (Some m) s | None \<Rightarrow> s)
     in (s, l\<lparr>fHead := Some m, fTail := (if fTail l = None then Some m else fTail l),
              fCount := fCount l + 1\<rparr>))"

definition AddTail :: "ptr \<Rightarrow> 'a links_scheme \<Rightarrow> mlist \<Rightarrow> 'a links_scheme \<times> mlist" where
  "AddTail m s l =
    (let s = set_prev m (fTail l) s;
         s = (case fTail l of Some t \<Rightarrow> set_next t (Some m) s | None \<Rightarrow> s)
     in (s, l\<lparr>fTail := Some m, fHead := (if fHead l = None then Some m else fHead l),
              fCount := fCount l + 1\<rparr>))"

definition InsertBefore :: "ptr \<Rightarrow> ptr option \<Rightarrow> 'a links_scheme \<Rightarrow> mlist \<Rightarrow> 'a links_scheme \<times> mlist" where
  "InsertBefore m position s l =
    (case position of
       None \<Rightarrow> AddTail m s l
     | Some p \<Rightarrow>
        (let (s, l) = (case prevs s p of
                Some q \<Rightarrow> (set_next q (Some m) (set_prev m (Some q) s), l)
              | None \<Rightarrow> (s, l\<lparr>fHead := Some m\<rparr>))
         in (set_prev p (Some m) (set_next m (Some p) s), l\<lparr>fCount := fCount l + 1\<rparr>)))"

definition InsertAfter :: "ptr \<Rightarrow> ptr option \<Rightarrow> 'a links_scheme \<Rightarrow> mlist \<Rightarrow> 'a links_scheme \<times> mlist" where
  "InsertAfter m position s l =
    (case position of
       None \<Rightarrow> AddHead m s l
     | Some p \<Rightarrow>
        (let (s, l) = (case nexts s p of
                Some q \<Rightarrow> (set_prev q (Some m) (set_next m (Some q) s), l)
              | None \<Rightarrow> (s, l\<lparr>fTail := Some m\<rparr>))
         in (set_next p (Some m) (set_prev m (Some p) s), l\<lparr>fCount := fCount l + 1\<rparr>)))"

definition RemoveHead :: "'a links_scheme \<Rightarrow> mlist \<Rightarrow> ptr option \<times> 'a links_scheme \<times> mlist" where
  "RemoveHead s l =
    (case fHead l of
       None \<Rightarrow> (None, s, l)
     | Some r \<Rightarrow>
        (let l = l\<lparr>fHead := nexts s r\<rparr>;
             l = (if fTail l = Some r then l\<lparr>fTail := None\<rparr> else l);
             s = (case fHead l of Some h \<Rightarrow> set_prev h None s | None \<Rightarrow> s);
             s = set_next r None (set_prev r None s)
         in (Some r, s, l\<lparr>fCount := fCount l - 1\<rparr>)))"

definition RemoveTail :: "'a links_scheme \<Rightarrow> mlist \<Rightarrow> ptr option \<times> 'a links_scheme \<times> mlist" where
  "RemoveTail s l =
    (case fTail l of
       None \<Rightarrow> (None, s, l)
     | Some r \<Rightarrow>
        (let l = l\<lparr>fTail := prevs s r\<rparr>;
             l = (if fHead l = Some r then l\<lparr>fHead := None\<rparr> else l);
             s = (case fTail l of Some t \<Rightarrow> set_next t None s | None \<Rightarrow> s);
             s = set_next r None (set_prev r None s)
         in (Some r, s, l\<lparr>fCount := fCount l - 1\<rparr>)))"

text \<open>\<open>Remove\<close> answers null, possibly after it has changed the links of the next message, when the
  message is at an end of another list.\<close>

definition Remove :: "ptr \<Rightarrow> 'a links_scheme \<Rightarrow> mlist \<Rightarrow> ptr option \<times> 'a links_scheme \<times> mlist" where
  "Remove m s l =
    (case (case nexts s m of
             Some n \<Rightarrow> Some (set_prev n (prevs s m) s, l)
           | None \<Rightarrow> if fTail l \<noteq> Some m then None else Some (s, l\<lparr>fTail := prevs s m\<rparr>)) of
       None \<Rightarrow> (None, s, l)
     | Some (s, l) \<Rightarrow>
        (case (case prevs s m of
                 Some p \<Rightarrow> Some (set_next p (nexts s m) s, l)
               | None \<Rightarrow> if fHead l \<noteq> Some m then None else Some (s, l\<lparr>fHead := nexts s m\<rparr>)) of
           None \<Rightarrow> (None, s, l)
         | Some (s, l) \<Rightarrow> (Some m, set_next m None (set_prev m None s), l\<lparr>fCount := fCount l - 1\<rparr>)))"

definition IsEmpty :: "mlist \<Rightarrow> bool" where
  "IsEmpty l \<longleftrightarrow> fHead l = None"

partial_function (option) empty_loop :: "ptr option \<Rightarrow> 'd store \<Rightarrow> 'd store option" where
  "empty_loop cur s =
    (case cur of
       None \<Rightarrow> Some s
     | Some c \<Rightarrow> empty_loop (nexts s c) (Message_delete c (set_next c None (set_prev c None s))))"

definition MakeEmpty :: "'d store \<Rightarrow> mlist \<Rightarrow> ('d store \<times> mlist) option" where
  "MakeEmpty s l =
    map_option (\<lambda>s. (s, \<lparr>fHead = None, fTail = None, fCount = 0\<rparr>)) (empty_loop (fHead l) s)"

definition Adopt :: "'d store \<Rightarrow> mlist \<Rightarrow> mlist \<Rightarrow> ('d store \<times> mlist \<times> mlist) option" where
  "Adopt s l o' =
    map_option (\<lambda>(s, _). (s, o', \<lparr>fHead = None, fTail = None, fCount = 0\<rparr>)) (MakeEmpty s l)"

section \<open>The queue\<close>

text \<open>The loops \<^verbatim>\<open>while (pos && pos->When() > thisStamp) pos = pos->m_prev;\<close> and its mirror.\<close>

partial_function (option) back_to :: "int \<Rightarrow> ptr option \<Rightarrow> 'd store \<Rightarrow> ptr option option" where
  "back_to t pos s =
    (case pos of
       None \<Rightarrow> Some None
     | Some p \<Rightarrow> if When (msgs s p) > t then back_to t (prevs s p) s else Some (Some p))"

text \<open>\<open>now\<close> is what \<^verbatim>\<open>approx_SysGetRunTime()\<close> answers.\<close>

definition EnqueueMessage :: "int \<Rightarrow> ptr \<Rightarrow> 'd store \<Rightarrow> mlist \<Rightarrow> ('d store \<times> mlist) option" where
  "EnqueueMessage now m s l =
    (let t = When (msgs s m);
         (t, s) = (if t \<le> 0 then (now, SetWhen m now s) else (t, s))
     in map_option (\<lambda>pos. InsertAfter m pos s l) (back_to t (fTail l) s))"

partial_function (option) back_dups ::
  "u32 \<Rightarrow> int \<Rightarrow> ptr option \<Rightarrow> ptr option \<Rightarrow> bool \<Rightarrow> 'd store \<Rightarrow> (ptr option \<times> ptr option \<times> bool) option" where
  "back_dups w t pos prev rem s =
    (case pos of
       None \<Rightarrow> Some (None, prev, rem)
     | Some p \<Rightarrow>
        if When (msgs s p) > t then
          back_dups w t (prevs s p) (Some p)
            (rem \<or> (case prev of Some q \<Rightarrow> What (msgs s q) = w | None \<Rightarrow> False)) s
        else Some (Some p, prev, rem))"

text \<open>The two loops that move the remaining messages of one code to the list of removed ones.\<close>

partial_function (option) remove_later ::
  "u32 \<Rightarrow> ptr option \<Rightarrow> 'd store \<Rightarrow> mlist \<Rightarrow> mlist \<Rightarrow> ('d store \<times> mlist \<times> mlist) option" where
  "remove_later w pos s l r =
    (case pos of
       None \<Rightarrow> Some (s, l, r)
     | Some p \<Rightarrow>
        (let n = nexts s p in
         if What (msgs s p) = w then
           (let (_, s, l) = Remove p s l; (s, r) = AddTail p s r in remove_later w n s l r)
         else remove_later w n s l r))"

partial_function (option) remove_earlier ::
  "u32 \<Rightarrow> ptr option \<Rightarrow> 'd store \<Rightarrow> mlist \<Rightarrow> mlist \<Rightarrow> ('d store \<times> mlist \<times> mlist) option" where
  "remove_earlier w pos s l r =
    (case pos of
       None \<Rightarrow> Some (s, l, r)
     | Some p \<Rightarrow>
        (let q = prevs s p in
         if What (msgs s p) = w then
           (let (_, s, l) = Remove p s l; (s, r) = AddHead p s r in remove_earlier w q s l r)
         else remove_earlier w q s l r))"

text \<open>
  The result of the two deduplicating operations: the message that is now in the queue (null when
  memory ran out), the data of a message that was overwritten (\<^verbatim>\<open>*outPrevData\<close>, if it was assigned),
  the store, the queue and the removed messages. \<open>fresh\<close> is what \<^verbatim>\<open>new\<close> would answer.
\<close>

record 'd enqueued =
  emsg :: "ptr option"
  outPrevData :: "'d option"
  est :: "'d store"
  equeue :: mlist
  outRemoved :: mlist

definition remove_others ::
  "u32 \<Rightarrow> bool \<Rightarrow> ptr option \<Rightarrow> ptr \<Rightarrow> 'd option \<Rightarrow> 'd store \<Rightarrow> mlist \<Rightarrow> mlist \<Rightarrow> 'd enqueued option" where
  "remove_others w rem pos m d s l r =
    Option.bind (if rem then remove_later w (nexts s m) s l r else Some (s, l, r)) (\<lambda>(s, l, r).
      map_option (\<lambda>(s, l, r). \<lparr>emsg = Some m, outPrevData = d, est = s, equeue = l, outRemoved = r\<rparr>)
        (remove_earlier w pos s l r))"

definition EnqueueMessageRemoveDups ::
  "int \<Rightarrow> ptr option \<Rightarrow> 'd message \<Rightarrow> int \<Rightarrow> 'd store \<Rightarrow> mlist \<Rightarrow> mlist \<Rightarrow> 'd enqueued option" where
  "EnqueueMessageRemoveDups now fresh inmsg t s l r =
    (let t = (if t \<le> 0 then now else t); w = What inmsg in
     Option.bind (back_dups w t (fTail l) None False s) (\<lambda>(pos, prev, rem).
       case (case prev of
               Some p \<Rightarrow> if What (msgs s p) = w
                 then Some (p, Some (Data (msgs s p)), Message_assign p inmsg s, l)
                 else map_option (\<lambda>m. (m, None, InsertAfter m pos (Message_copy m inmsg s) l)) fresh
             | None \<Rightarrow> map_option (\<lambda>m. (m, None, InsertAfter m pos (Message_copy m inmsg s) l)) fresh) of
         None \<Rightarrow> Some \<lparr>emsg = None, outPrevData = None, est = s, equeue = l, outRemoved = r\<rparr>
       | Some (m, d, s, l) \<Rightarrow>
          remove_others w rem pos m d (SetWhen m t s) l r))"

text \<open>The search of \<open>EnqueueUniqueMessage\<close>: \<open>Inl p\<close> when it stops at a message with the code, else \<open>Inr pos\<close>.\<close>

partial_function (option) find_upto ::
  "u32 \<Rightarrow> int \<Rightarrow> ptr option \<Rightarrow> 'd store \<Rightarrow> (ptr + ptr option) option" where
  "find_upto w t pos s =
    (case pos of
       None \<Rightarrow> Some (Inr None)
     | Some p \<Rightarrow>
        if When (msgs s p) \<le> t then
          (if What (msgs s p) = w then Some (Inl p) else find_upto w t (nexts s p) s)
        else Some (Inr (Some p)))"

definition EnqueueUniqueMessage ::
  "int \<Rightarrow> ptr option \<Rightarrow> 'd message \<Rightarrow> int \<Rightarrow> 'd store \<Rightarrow> mlist \<Rightarrow> mlist \<Rightarrow> 'd enqueued option" where
  "EnqueueUniqueMessage now fresh inmsg t s l r =
    (let t = (if t \<le> 0 then now else t); w = What inmsg;
         repurpose = (\<lambda>p. Some (p, Some (Data (msgs s p)),
           SetPriority p (Priority inmsg) (SetData p (Data inmsg) s), l, nexts s p));
         add = (\<lambda>pos. map_option (\<lambda>m. (m, None,
           (let (s, l) = InsertBefore m pos (SetWhen m t (Message_copy m inmsg s)) l in (s, l, pos)))) fresh)
     in
     Option.bind (find_upto w t (fHead l) s) (\<lambda>f.
       case (case f of
               Inl p \<Rightarrow> repurpose p
             | Inr pos \<Rightarrow>
                (case pos of
                   Some p \<Rightarrow> if What (msgs s p) = w then repurpose p else add pos
                 | None \<Rightarrow> add pos)) of
         None \<Rightarrow> Some \<lparr>emsg = None, outPrevData = None, est = s, equeue = l, outRemoved = r\<rparr>
       | Some (m, d, s, l, pos) \<Rightarrow>
          map_option (\<lambda>(s, l, r).
              \<lparr>emsg = Some m, outPrevData = d, est = s, equeue = l, outRemoved = r\<rparr>)
            (remove_later w pos s l r)))"

partial_function (option) find_what :: "u32 \<Rightarrow> ptr option \<Rightarrow> 'd store \<Rightarrow> ptr option option" where
  "find_what w pos s =
    (case pos of
       None \<Rightarrow> Some None
     | Some p \<Rightarrow> if w \<noteq> What (msgs s p) then find_what w (nexts s p) s else Some (Some p))"

text \<open>The message, the flag \<^verbatim>\<open>*more\<close>, the store and the queue.\<close>

definition DequeueMessage ::
  "u32 \<Rightarrow> 'd store \<Rightarrow> mlist \<Rightarrow> (ptr option \<times> bool \<times> 'd store \<times> mlist) option" where
  "DequeueMessage w s l =
    (if w = B_ANY_WHAT then
       (let (m, s, l) = RemoveHead s l in Some (m, fCount l \<noteq> 0, s, l))
     else
       map_option (\<lambda>m.
         (let (s, l) = (case m of Some p \<Rightarrow> snd (Remove p s l) | None \<Rightarrow> (s, l))
          in (m, fCount l \<noteq> 0, s, l)))
         (find_what w (fHead l) s))"

definition OldestMessage :: "'d store \<Rightarrow> mlist \<Rightarrow> int \<times> int" where
  "OldestMessage s l =
    (case fHead l of
       Some h \<Rightarrow> (When (msgs s h), Priority (msgs s h))
     | None \<Rightarrow> (B_INFINITE_TIMEOUT, 10))"

partial_function (option) count_loop :: "u32 \<Rightarrow> int \<Rightarrow> ptr option \<Rightarrow> 'd store \<Rightarrow> int option" where
  "count_loop w n pos s =
    (case pos of
       None \<Rightarrow> Some n
     | Some p \<Rightarrow> count_loop w (if w = What (msgs s p) then n + 1 else n) (nexts s p) s)"

definition CountMessages :: "u32 \<Rightarrow> 'd store \<Rightarrow> mlist \<Rightarrow> int option" where
  "CountMessages w s l = (if w = B_ANY_WHAT then Some (fCount l) else count_loop w 0 (fHead l) s)"

section \<open>Well-formed lists\<close>

text \<open>\<open>mrep s l ms\<close>: the list object \<open>l\<close> holds the messages \<open>ms\<close> in this order.\<close>

definition mrep :: "'a links_scheme \<Rightarrow> mlist \<Rightarrow> ptr list \<Rightarrow> bool" where
  "mrep s l ms \<longleftrightarrow> seg s None ms None \<and> distinct ms \<and> fHead l = first_or ms None \<and>
     fTail l = last_or None ms \<and> fCount l = int (length ms)"

text \<open>A message outside every list has null links; an operation on a list touches only its own messages.\<close>

definition loose :: "'a links_scheme \<Rightarrow> ptr \<Rightarrow> bool" where
  "loose s m \<longleftrightarrow> nexts s m = None \<and> prevs s m = None"

definition untouched :: "ptr set \<Rightarrow> 'a links_scheme \<Rightarrow> 'a links_scheme \<Rightarrow> bool" where
  "untouched A s t \<longleftrightarrow> (\<forall>x. x \<notin> A \<longrightarrow> nexts t x = nexts s x \<and> prevs t x = prevs s x) \<and>
     links.more t = links.more s"

lemma mrep_new [simp]: "mrep s MList_new []"
  by (simp add: mrep_def MList_new_def)

lemma mrep_empty_iff: "mrep s l ms \<Longrightarrow> fHead l = None \<longleftrightarrow> ms = []"
  by (cases ms) (auto simp: mrep_def)

lemma mrep_untouched:
  assumes "mrep s l ms" "untouched A s t" "set ms \<inter> A = {}"
  shows "mrep t l ms"
proof -
  have "seg t None ms None = seg s None ms None"
    using assms by (intro seg_cong) (auto simp: untouched_def)
  then show ?thesis using assms by (simp add: mrep_def)
qed

lemma loose_untouched: "loose s m \<Longrightarrow> untouched A s t \<Longrightarrow> m \<notin> A \<Longrightarrow> loose t m"
  by (simp add: loose_def untouched_def)

lemma untouched_trans: "untouched A s t \<Longrightarrow> untouched B t u \<Longrightarrow> A \<subseteq> C \<Longrightarrow> B \<subseteq> C \<Longrightarrow> untouched C s u"
  unfolding untouched_def by (metis subset_iff)

lemma untouched_msgs:
  fixes s :: "'d store"
  assumes "untouched A s t"
  shows "msgs t = msgs s" "live t = live s"
  using assms by (cases s; cases t; simp add: untouched_def)+

lemma store_get [simp]:
  fixes s :: "'d store"
  shows "msgs (set_next p q s) = msgs s" "msgs (set_prev p q s) = msgs s"
    "live (set_next p q s) = live s" "live (set_prev p q s) = live s"
  by (simp_all add: set_next_def set_prev_def)

text \<open>Inserting at any position, and removing from any position.\<close>

lemma InsertAfter_mrep:
  assumes "mrep s l (xs @ ys)" "m \<notin> set (xs @ ys)" "loose s m"
    and "InsertAfter m (last_or None xs) s l = (t, l')"
  shows "mrep t l' (xs @ m # ys)" "untouched (insert m (set (xs @ ys))) s t"
proof -
  have "mrep t l' (xs @ m # ys) \<and> untouched (insert m (set (xs @ ys))) s t"
    using assms
    by (cases xs rule: rev_cases; cases ys)
      (auto simp: mrep_def loose_def untouched_def InsertAfter_def AddHead_def Let_def)
  then show "mrep t l' (xs @ m # ys)" "untouched (insert m (set (xs @ ys))) s t"
    by auto
qed

lemma InsertBefore_mrep:
  assumes "mrep s l (xs @ ys)" "m \<notin> set (xs @ ys)" "loose s m"
    and "InsertBefore m (first_or ys None) s l = (t, l')"
  shows "mrep t l' (xs @ m # ys)" "untouched (insert m (set (xs @ ys))) s t"
proof -
  have "mrep t l' (xs @ m # ys) \<and> untouched (insert m (set (xs @ ys))) s t"
    using assms
    by (cases xs rule: rev_cases; cases ys)
      (auto simp: mrep_def loose_def untouched_def InsertBefore_def AddTail_def Let_def)
  then show "mrep t l' (xs @ m # ys)" "untouched (insert m (set (xs @ ys))) s t"
    by auto
qed

lemma AddHead_mrep:
  assumes "mrep s l ys" "m \<notin> set ys" "loose s m" "AddHead m s l = (t, l')"
  shows "mrep t l' (m # ys)" "untouched (insert m (set ys)) s t"
  using InsertAfter_mrep [of s l "[]" ys m t l'] assms by (auto simp: InsertAfter_def)

lemma AddTail_mrep:
  assumes "mrep s l xs" "m \<notin> set xs" "loose s m" "AddTail m s l = (t, l')"
  shows "mrep t l' (xs @ [m])" "untouched (insert m (set xs)) s t"
  using InsertBefore_mrep [of s l xs "[]" m t l'] assms by (auto simp: InsertBefore_def)

lemma Remove_mrep:
  assumes "mrep s l (xs @ m # ys)" "Remove m s l = (r, t, l')"
  shows "r = Some m \<and> mrep t l' (xs @ ys) \<and> loose t m \<and> untouched (set (xs @ m # ys)) s t"
  using assms
  by (cases xs rule: rev_cases; cases ys)
    (auto simp: mrep_def loose_def untouched_def Remove_def Let_def)

lemma RemoveHead_mrep:
  assumes "mrep s l (m # ys)" "RemoveHead s l = (r, t, l')"
  shows "r = Some m \<and> mrep t l' ys \<and> loose t m \<and> untouched (set (m # ys)) s t"
  using assms
  by (cases ys)
    (auto simp: mrep_def loose_def untouched_def RemoveHead_def Let_def last_or_def split: if_splits)

lemma RemoveTail_mrep:
  assumes "mrep s l (xs @ [m])" "RemoveTail s l = (r, t, l')"
  shows "r = Some m \<and> mrep t l' xs \<and> loose t m \<and> untouched (set (xs @ [m])) s t"
  using assms
  by (cases xs rule: rev_cases)
    (auto simp: mrep_def loose_def untouched_def RemoveTail_def Let_def first_or_eq hd_append split: if_splits)

lemma edit_links [simp]:
  "nexts (edit_msg p f s) = nexts s" "prevs (edit_msg p f s) = prevs s"
  "msgs (edit_msg p f s) = (msgs s)(p := f (msgs s p))" "live (edit_msg p f s) = live s"
  by (simp_all add: edit_msg_def)

lemma seg_same_links:
  assumes "nexts t = nexts s" "prevs t = prevs s"
  shows "seg t p xs n = seg s p xs n"
  using assms by (intro seg_cong) simp_all

lemma edit_reps [simp]:
  "mrep (edit_msg p f s) l ms = mrep s l ms" "loose (edit_msg p f s) m = loose s m"
  by (simp_all add: mrep_def loose_def seg_same_links [of "edit_msg p f s" s])

lemmas edits = SetWhen_def SetData_def SetPriority_def Message_assign_def

section \<open>Two lists in one store\<close>

text \<open>The queue and the list of removed messages share the store but no message.\<close>

definition two :: "'a links_scheme \<Rightarrow> mlist \<Rightarrow> ptr list \<Rightarrow> mlist \<Rightarrow> ptr list \<Rightarrow> bool" where
  "two s l ms r ds \<longleftrightarrow> mrep s l ms \<and> mrep s r ds \<and> set ms \<inter> set ds = {}"

lemma two_edit [simp]: "two (edit_msg p f s) l ms r ds = two s l ms r ds"
  by (simp add: two_def)

lemma two_insert:
  assumes "two s l (xs @ ys) r ds" "mrep t l' (xs @ m # ys)" "m \<notin> set ds"
    "untouched (insert m (set (xs @ ys))) s t"
  shows "two t l' (xs @ m # ys) r ds"
  using assms mrep_untouched [of s r ds "insert m (set (xs @ ys))" t] by (auto simp: two_def)

lemma two_remove:
  assumes "two s l (xs @ m # ys) r ds" "Remove m s l = (a, t, l')"
  shows "mrep t l' (xs @ ys) \<and> mrep t r ds \<and> loose t m \<and> m \<notin> set ds \<and> m \<notin> set (xs @ ys) \<and>
    untouched (set (xs @ m # ys)) s t"
proof -
  have l: "mrep s l (xs @ m # ys)" and r: "mrep s r ds" and disj: "set ds \<inter> set (xs @ m # ys) = {}"
    using assms(1) unfolding two_def by blast+
  note rem = Remove_mrep [OF l assms(2)]
  moreover have "m \<notin> set (xs @ ys)" using l by (simp add: mrep_def)
  ultimately show ?thesis using mrep_untouched [OF r _ disj] disj by auto
qed

lemma two_add:
  assumes "mrep s l ms" "mrep s r ds" "set ms \<inter> set ds = {}" "m \<notin> set ms" "mrep t r' ds'"
    "set ds' = insert m (set ds)" "untouched (insert m (set ds)) s t"
  shows "two t l ms r' ds'"
  using assms mrep_untouched [of s l ms "insert m (set ds)" t] by (auto simp: two_def)

lemma move_tail:
  assumes two: "two s l (xs @ m # ys) r ds"
    and ops: "Remove m s l = (a, s1, l')" "AddTail m s1 r = (t, r')"
  shows "two t l' (xs @ ys) r' (ds @ [m]) \<and> untouched (set (xs @ m # ys) \<union> set ds) s t"
proof -
  note rem = two_remove [OF two ops(1)]
  have "mrep t r' (ds @ [m])" "untouched (insert m (set ds)) s1 t"
    using AddTail_mrep [of s1 r ds m t r'] rem ops by auto
  then show ?thesis
    using rem two two_add [of s1 l' "xs @ ys" r ds m t r' "ds @ [m]"]
      untouched_trans [of "set (xs @ m # ys)" s s1 "insert m (set ds)" t "set (xs @ m # ys) \<union> set ds"]
    by (auto simp: two_def)
qed

lemma move_head:
  assumes two: "two s l (xs @ m # ys) r ds"
    and ops: "Remove m s l = (a, s1, l')" "AddHead m s1 r = (t, r')"
  shows "two t l' (xs @ ys) r' (m # ds) \<and> untouched (set (xs @ m # ys) \<union> set ds) s t"
proof -
  note rem = two_remove [OF two ops(1)]
  have "mrep t r' (m # ds)" "untouched (insert m (set ds)) s1 t"
    using AddHead_mrep [of s1 r ds m t r'] rem ops by auto
  then show ?thesis
    using rem two two_add [of s1 l' "xs @ ys" r ds m t r' "m # ds"]
      untouched_trans [of "set (xs @ m # ys)" s s1 "insert m (set ds)" t "set (xs @ m # ys) \<union> set ds"]
    by (auto simp: two_def)
qed

lemma two_next: "two s l (xs @ m # ys) r ds \<Longrightarrow> nexts s m = first_or ys None"
  by (auto simp: two_def mrep_def)

lemma two_prev: "two s l (xs @ m # ys) r ds \<Longrightarrow> prevs s m = last_or None xs"
  by (auto simp: two_def mrep_def)

text \<open>The loops that collect the messages of one code.\<close>

abbreviation what :: "'d store \<Rightarrow> ptr \<Rightarrow> u32" where "what s p \<equiv> What (msgs s p)"
abbreviation whn :: "'d store \<Rightarrow> ptr \<Rightarrow> int" where "whn s p \<equiv> When (msgs s p)"

lemma remove_later_loop:
  fixes s :: "'d store"
  assumes "two s l (xs @ ys) r ds"
  shows "\<exists>t l' r'. remove_later w (first_or ys None) s l r = Some (t, l', r') \<and>
    two t l' (xs @ filter (\<lambda>p. what s p \<noteq> w) ys) r' (ds @ filter (\<lambda>p. what s p = w) ys) \<and>
    untouched (set (xs @ ys) \<union> set ds) s t"
  using assms
proof (induction ys arbitrary: s l r xs ds)
  case Nil
  then show ?case by (simp add: remove_later.simps untouched_def)
next
  case (Cons m ys)
  note nxt = two_next [OF Cons.prems]
  show ?case
  proof (cases "what s m = w")
    case True
    obtain a s1 l1 where 1: "Remove m s l = (a, s1, l1)" by (metis prod_cases3)
    obtain s2 r1 where 2: "AddTail m s1 r = (s2, r1)" by fastforce
    note mv = move_tail [OF Cons.prems 1 2]
    then have ms: "msgs s2 = msgs s" by (auto dest: untouched_msgs)
    obtain t l' r' where "remove_later w (first_or ys None) s2 l1 r1 = Some (t, l', r')"
      "two t l' (xs @ filter (\<lambda>p. what s p \<noteq> w) ys) r' ((ds @ [m]) @ filter (\<lambda>p. what s p = w) ys)"
      "untouched (set (xs @ ys) \<union> set (ds @ [m])) s2 t"
      using Cons.IH [of s2 l1 xs r1 "ds @ [m]"] mv ms by auto
    then show ?thesis
      using True nxt 1 2 mv untouched_trans [of "set (xs @ m # ys) \<union> set ds" s s2
          "set (xs @ ys) \<union> set (ds @ [m])" t "set (xs @ m # ys) \<union> set ds"]
      by (auto simp: remove_later.simps [of w "Some m"])
  next
    case False
    then show ?thesis
      using Cons.IH [of s l "xs @ [m]" r ds] Cons.prems nxt
      by (auto simp: remove_later.simps [of w "Some m"])
  qed
qed

lemma remove_earlier_loop:
  fixes s :: "'d store"
  assumes "two s l (xs @ ys) r ds"
  shows "\<exists>t l' r'. remove_earlier w (last_or None xs) s l r = Some (t, l', r') \<and>
    two t l' (filter (\<lambda>p. what s p \<noteq> w) xs @ ys) r' (filter (\<lambda>p. what s p = w) xs @ ds) \<and>
    untouched (set (xs @ ys) \<union> set ds) s t"
  using assms
proof (induction xs arbitrary: s l r ys ds rule: rev_induct)
  case Nil
  then show ?case by (simp add: remove_earlier.simps untouched_def)
next
  case (snoc m xs)
  have two: "two s l (xs @ m # ys) r ds" using snoc.prems by simp
  note prv = two_prev [OF two]
  show ?case
  proof (cases "what s m = w")
    case True
    obtain a s1 l1 where 1: "Remove m s l = (a, s1, l1)" by (metis prod_cases3)
    obtain s2 r1 where 2: "AddHead m s1 r = (s2, r1)" by fastforce
    note mv = move_head [OF two 1 2]
    then have ms: "msgs s2 = msgs s" by (auto dest: untouched_msgs)
    obtain t l' r' where "remove_earlier w (last_or None xs) s2 l1 r1 = Some (t, l', r')"
      "two t l' (filter (\<lambda>p. what s p \<noteq> w) xs @ ys) r' (filter (\<lambda>p. what s p = w) xs @ m # ds)"
      "untouched (set (xs @ ys) \<union> set (m # ds)) s2 t"
      using snoc.IH [of s2 l1 ys r1 "m # ds"] mv ms by auto
    then show ?thesis
      using True prv 1 2 mv untouched_trans [of "set (xs @ m # ys) \<union> set ds" s s2
          "set (xs @ ys) \<union> set (m # ds)" t "set (xs @ m # ys) \<union> set ds"]
      by (auto simp: remove_earlier.simps [of w "Some m"])
  next
    case False
    then show ?thesis
      using snoc.IH [of s l "m # ys" r ds] two prv
      by (auto simp: remove_earlier.simps [of w "Some m"])
  qed
qed

section \<open>Time order\<close>

definition in_order :: "'d store \<Rightarrow> ptr list \<Rightarrow> bool" where
  "in_order s ms \<longleftrightarrow> sorted_wrt (\<lambda>p q. whn s p \<le> whn s q) ms"

text \<open>The messages due up to a time, and those due later, in the order of the queue.\<close>

definition due :: "'d store \<Rightarrow> int \<Rightarrow> ptr list \<Rightarrow> ptr list" where
  "due s t ms = filter (\<lambda>p. whn s p \<le> t) ms"

definition after :: "'d store \<Rightarrow> int \<Rightarrow> ptr list \<Rightarrow> ptr list" where
  "after s t ms = filter (\<lambda>p. t < whn s p) ms"

lemma due_after: "in_order s ms \<Longrightarrow> due s t ms @ after s t ms = ms"
proof (induction ms)
  case (Cons m ms)
  show ?case
  proof (cases "whn s m \<le> t")
    case False
    then have "\<forall>p \<in> set (m # ms). t < whn s p" using Cons.prems by (auto simp: in_order_def)
    then show ?thesis by (auto simp: due_def after_def filter_empty_conv filter_id_conv)
  qed (use Cons in \<open>auto simp: in_order_def due_def after_def\<close>)
qed (simp add: due_def after_def)

lemma due_after_set: "set (due s t ms) \<union> set (after s t ms) = set ms"
  by (auto simp: due_def after_def)

lemma in_order_filter: "in_order s ms \<Longrightarrow> in_order s (filter P ms)"
  by (simp add: in_order_def sorted_wrt_filter)

lemma in_order_put:
  assumes "in_order s ms" "m \<notin> set ms" "\<And>p. p \<noteq> m \<Longrightarrow> msgs t p = msgs s p" "whn t m = T"
  shows "in_order t (due s T ms @ m # after s T ms)"
proof -
  have same: "in_order t xs = in_order s xs" if "m \<notin> set xs" for xs
    unfolding in_order_def using that assms(3)
    by (intro iffI; elim sorted_wrt_mono_rel [rotated]) (metis (no_types, lifting))+
  have "in_order s (due s T ms)" "in_order s (after s T ms)"
    using assms(1) by (simp_all add: due_def after_def in_order_filter)
  then have "in_order t (due s T ms)" "in_order t (after s T ms)"
    using same assms(2) by (auto simp: due_def after_def)
  moreover have "whn t p = whn s p" if "p \<in> set ms" for p using that assms by metis
  ultimately show ?thesis
    using assms(4) unfolding in_order_def sorted_wrt_append
    by (auto simp: due_def after_def)
qed

text \<open>The walks from the tail stop between these two parts.\<close>

lemma split_facts:
  assumes "mrep s l ms" "in_order s ms"
  shows "seg s None (due s t ms @ after s t ms) None" "\<forall>y \<in> set (after s t ms). t < whn s y"
    "due s t ms \<noteq> [] \<longrightarrow> whn s (last (due s t ms)) \<le> t"
    "fTail l = last_or None (due s t ms @ after s t ms)"
    "fHead l = first_or (due s t ms @ after s t ms) None"
proof -
  have "\<forall>p \<in> set (due s t ms). whn s p \<le> t" by (simp add: due_def)
  then show "due s t ms \<noteq> [] \<longrightarrow> whn s (last (due s t ms)) \<le> t" using last_in_set by blast
qed (use assms due_after [OF assms(2), of t] in
      \<open>auto simp: mrep_def after_def simp del: seg_append last_or_append first_or_append\<close>)

lemma walk_stops:
  assumes "xs \<noteq> [] \<longrightarrow> whn s (last xs) \<le> t"
  shows "back_to t (last_or None xs) s = Some (last_or None xs)"
    "back_dups w t (last_or None xs) q rem s = Some (last_or None xs, q, rem)"
  using assms
  by (cases xs rule: rev_cases; simp add: back_to.simps back_dups.simps)+

lemma back_to_cut:
  assumes "seg s None (xs @ ys) n" "\<forall>y \<in> set ys. t < whn s y" "xs \<noteq> [] \<longrightarrow> whn s (last xs) \<le> t"
  shows "back_to t (last_or None (xs @ ys)) s = Some (last_or None xs)"
  using assms
proof (induction ys arbitrary: n rule: rev_induct)
  case Nil
  then show ?case by (simp add: walk_stops)
next
  case (snoc y ys)
  then show ?case
    using snoc.IH [of "Some y"] by (simp add: back_to.simps [of t "Some y"])
qed

lemma back_dups_cut:
  assumes "seg s None (xs @ ys) n" "\<forall>y \<in> set ys. t < whn s y" "xs \<noteq> [] \<longrightarrow> whn s (last xs) \<le> t"
  shows "back_dups w t (last_or None (xs @ ys)) q rem s =
    Some (last_or None xs, first_or ys q,
      rem \<or> (ys \<noteq> [] \<and> (\<exists>z \<in> set (tl ys) \<union> set_option q. what s z = w)))"
  using assms
proof (induction ys arbitrary: n q rem rule: rev_induct)
  case Nil
  then show ?case by (simp add: walk_stops)
next
  case (snoc y ys)
  have "back_dups w t (last_or None (xs @ ys @ [y])) q rem s =
      back_dups w t (last_or None (xs @ ys)) (Some y)
        (rem \<or> (case q of Some q \<Rightarrow> what s q = w | None \<Rightarrow> False)) s"
    using snoc.prems by (simp add: back_dups.simps [of w t "Some y"])
  also have "\<dots> = Some (last_or None xs, first_or ys (Some y),
      (rem \<or> (case q of Some q \<Rightarrow> what s q = w | None \<Rightarrow> False)) \<or>
      (ys \<noteq> [] \<and> (\<exists>z \<in> set (tl ys) \<union> set_option (Some y). what s z = w)))"
    using snoc.prems by (intro snoc.IH [of "Some y"]) auto
  finally show ?case by (cases ys; cases q) auto
qed

lemma mrep_copy [simp]:
  assumes "m \<notin> set ms"
  shows "mrep (Message_copy m im s) l ms = mrep s l ms"
proof -
  have "seg (Message_copy m im s) None ms None = seg s None ms None"
    using assms by (intro seg_cong) (auto simp: Message_copy_def)
  then show ?thesis by (simp add: mrep_def)
qed

lemma copy_get [simp]:
  "loose (Message_copy m im s) m" "live (Message_copy m im s) = m # live s"
  "msgs (Message_copy m im s) =
     (msgs s)(m := \<lparr>What = What im, When = When im, Priority = Priority im, Data = Data im\<rparr>)"
  by (simp_all add: Message_copy_def loose_def)

section \<open>What the queue promises\<close>

text \<open>
  Enqueueing puts a message behind every message due no later (so messages with equal time
  stamps are delivered in the order they were posted) and before every later one; a time stamp
  that is not positive becomes the current time. The queue stays well formed and in time order, no
  other message changes, and the call returns.
\<close>

lemma EnqueueMessage_spec:
  assumes rep: "mrep s l ms" and ord: "in_order s ms" and new: "m \<notin> set ms" "loose s m"
    and T: "T = (if whn s m \<le> 0 then now else whn s m)"
  shows "\<exists>t l'. EnqueueMessage now m s l = Some (t, l') \<and>
    mrep t l' (due s T ms @ m # after s T ms) \<and> in_order t (due s T ms @ m # after s T ms) \<and>
    msgs t = (msgs s)(m := (msgs s m)\<lparr>When := T\<rparr>) \<and> live t = live s"
proof -
  define s1 where "s1 = (if whn s m \<le> 0 then SetWhen m now s else s)"
  have msgs1: "msgs s1 = (msgs s)(m := (msgs s m)\<lparr>When := T\<rparr>)" and live1: "live s1 = live s"
    and links1: "mrep s1 l ms" "loose s1 m"
    using T rep new by (auto simp: s1_def edits)
  have upd: "msgs s1 p = msgs s p" if "p \<noteq> m" for p using that msgs1 by simp
  let ?xs = "due s T ms" and ?ys = "after s T ms"
  note sp = split_facts [OF rep ord, of T]
  have split: "?xs @ ?ys = ms" using ord by (rule due_after)
  have "m \<notin> set ?xs" "m \<notin> set ?ys" using new by (auto simp: due_def after_def)
  then have "\<forall>y \<in> set ?ys. T < whn s1 y" "?xs \<noteq> [] \<longrightarrow> whn s1 (last ?xs) \<le> T"
    using sp(2,3) upd last_in_set [of ?xs] by metis+
  then have walk: "back_to T (fTail l) s1 = Some (last_or None ?xs)"
    unfolding sp(4) using links1(1)
    by (intro back_to_cut [where n = None]) (auto simp: mrep_def split simp del: seg_append)
  obtain t l' where ins: "InsertAfter m (last_or None ?xs) s1 l = (t, l')" by fastforce
  have rep': "mrep t l' (?xs @ m # ?ys)" and "untouched (insert m (set ms)) s1 t"
    using InsertAfter_mrep [of s1 l ?xs ?ys m t l', unfolded split] ins links1 new by blast+
  then have ms: "msgs t = msgs s1" "live t = live s1" by (auto dest: untouched_msgs)
  have "in_order t (?xs @ m # ?ys)"
    using ord new(1) ms msgs1 by (intro in_order_put) auto
  moreover have "EnqueueMessage now m s l = Some (t, l')"
    using walk ins T by (cases "whn s m \<le> 0") (simp_all add: EnqueueMessage_def s1_def Let_def)
  ultimately show ?thesis using rep' ms msgs1 live1 by auto
qed

text \<open>The list left by the two deduplicating operations, in terms of the original store.\<close>

definition dedup :: "'d store \<Rightarrow> u32 \<Rightarrow> int \<Rightarrow> ptr list \<Rightarrow> ptr \<Rightarrow> ptr list" where
  "dedup s w t ms m = filter (\<lambda>p. what s p \<noteq> w) (due s t ms) @ m # filter (\<lambda>p. what s p \<noteq> w) (after s t ms)"

lemma dedup_in_order:
  assumes "in_order s ms" "m \<in> set ms \<longrightarrow> what s m = w" "\<And>p. p \<noteq> m \<Longrightarrow> msgs t p = msgs s p" "whn t m = T"
  shows "in_order t (dedup s w T ms m)"
proof -
  have "dedup s w T ms m = due s T (filter (\<lambda>p. what s p \<noteq> w) ms) @ m # after s T (filter (\<lambda>p. what s p \<noteq> w) ms)"
    by (simp add: dedup_def due_def after_def conj_commute)
  then show ?thesis
    using assms in_order_put [of s "filter (\<lambda>p. what s p \<noteq> w) ms" m t T] by (auto simp: in_order_filter)
qed

text \<open>What the removal loops do once the message \<open>m\<close> is in its place between \<open>xs\<close> and \<open>zs\<close>.\<close>

lemma purge_both:
  fixes s :: "'d store"
  assumes two: "two s l (xs @ m # zs) r ds" and rem: "rem \<or> (\<forall>z \<in> set zs. what s z \<noteq> w)"
  shows "\<exists>t l' r'.
    Option.bind (if rem then remove_later w (nexts s m) s l r else Some (s, l, r))
      (\<lambda>(s, l, r). remove_earlier w (last_or None xs) s l r) = Some (t, l', r') \<and>
    two t l' (filter (\<lambda>p. what s p \<noteq> w) xs @ m # filter (\<lambda>p. what s p \<noteq> w) zs) r'
      (filter (\<lambda>p. what s p = w) xs @ ds @ filter (\<lambda>p. what s p = w) zs) \<and>
    untouched (set (xs @ m # zs) \<union> set ds) s t"
proof -
  let ?A = "set (xs @ m # zs) \<union> set ds"
  obtain t l' r' where 1: "(if rem then remove_later w (nexts s m) s l r else Some (s, l, r)) = Some (t, l', r')"
    "two t l' (xs @ m # filter (\<lambda>p. what s p \<noteq> w) zs) r' (ds @ filter (\<lambda>p. what s p = w) zs)"
    "untouched ?A s t"
  proof (cases rem)
    case True
    with remove_later_loop [of s l "xs @ [m]" zs r ds w] two two_next [OF two] that show ?thesis by auto
  next
    case False
    then have "filter (\<lambda>p. what s p \<noteq> w) zs = zs" "filter (\<lambda>p. what s p = w) zs = []"
      using rem by (auto simp: filter_id_conv filter_empty_conv)
    then show ?thesis using False two that [of s l r] by (simp add: untouched_def)
  qed
  have ms: "msgs t = msgs s" using 1(3) by (rule untouched_msgs)
  obtain u l2 r2 where 2: "remove_earlier w (last_or None xs) t l' r' = Some (u, l2, r2)"
    "two u l2 (filter (\<lambda>p. what s p \<noteq> w) xs @ m # filter (\<lambda>p. what s p \<noteq> w) zs) r2
      (filter (\<lambda>p. what s p = w) xs @ ds @ filter (\<lambda>p. what s p = w) zs)"
    "untouched (set (xs @ m # filter (\<lambda>p. what s p \<noteq> w) zs) \<union> set (ds @ filter (\<lambda>p. what s p = w) zs)) t u"
    using remove_earlier_loop [OF 1(2), of w] ms by auto
  have "untouched ?A s u" using 1(3) 2(3) by (rule untouched_trans) auto
  then show ?thesis using 1(1) 2(1,2) by (intro exI [of _ u] exI [of _ l2] exI [of _ r2]) simp
qed

text \<open>How the store looks after the new message is in place, in both branches of the operation.\<close>

definition stamped :: "'d message \<Rightarrow> int \<Rightarrow> 'd message" where
  "stamped im t = \<lparr>What = What im, When = t, Priority = Priority im, Data = Data im\<rparr>"

lemma stamped_updates:
  "msgs (SetWhen m t (Message_assign m im s)) = (msgs s)(m := stamped im t)"
  "live (SetWhen m t (Message_assign m im s)) = live s"
  "two (SetWhen m t (Message_assign m im s)) l ms r ds = two s l ms r ds"
  by (cases "msgs s m", simp add: edits stamped_def) (simp_all add: edits)

lemma insert_fresh:
  fixes s :: "'d store"
  assumes two: "two s l (xs @ ys) r ds" and new: "p \<notin> set (xs @ ys)" "p \<notin> set ds"
    and ins: "InsertAfter p (last_or None xs) (Message_copy p im s) l = (t, l')"
  shows "two t l' (xs @ p # ys) r ds" "msgs (SetWhen p T t) = (msgs s)(p := stamped im T)"
    "live t = p # live s"
proof -
  have two': "two (Message_copy p im s) l (xs @ ys) r ds"
    using two new by (simp add: two_def)
  then have rep: "mrep (Message_copy p im s) l (xs @ ys)" by (simp add: two_def)
  note ia = InsertAfter_mrep [OF rep new(1) _ ins, simplified]
  show "two t l' (xs @ p # ys) r ds" using two_insert [OF two' ia(1) new(2)] ia(2) by simp
  show "msgs (SetWhen p T t) = (msgs s)(p := stamped im T)" "live t = p # live s"
    using ia(2) untouched_msgs [of _ "Message_copy p im s" t] by (auto simp: edits stamped_def)
qed

text \<open>The end of the operation: both removal loops, and the record of results.\<close>

lemma dedup_finish:
  fixes s :: "'d store"
  assumes two: "two s1 l (xs @ m # zs) r ds" and rem: "rem \<or> (\<forall>z \<in> set zs. what s z \<noteq> w)"
    and ms: "msgs s1 = (msgs s)(m := x)"
  shows "\<exists>e. remove_others w rem (last_or None xs) m d s1 l r = Some e \<and>
    emsg e = Some m \<and> outPrevData e = d \<and>
    two (est e) (equeue e) (filter (\<lambda>p. what s p \<noteq> w) xs @ m # filter (\<lambda>p. what s p \<noteq> w) zs)
      (outRemoved e) (filter (\<lambda>p. what s p = w) xs @ ds @ filter (\<lambda>p. what s p = w) zs) \<and>
    msgs (est e) = msgs s1 \<and> live (est e) = live s1"
proof -
  have "m \<notin> set xs" "m \<notin> set zs" using two by (auto simp: two_def mrep_def)
  then have same: "what s1 z = what s z" if "z \<in> set xs \<union> set zs" for z using that ms by auto
  have f: "filter (\<lambda>p. what s1 p = w) ys = filter (\<lambda>p. what s p = w) ys"
      "filter (\<lambda>p. what s1 p \<noteq> w) ys = filter (\<lambda>p. what s p \<noteq> w) ys"
    if "set ys \<subseteq> set xs \<union> set zs" for ys
    using that same by (auto intro!: filter_cong)
  obtain t l' r' where *: "Option.bind (if rem then remove_later w (nexts s1 m) s1 l r else Some (s1, l, r))
      (\<lambda>(s, l, r). remove_earlier w (last_or None xs) s l r) = Some (t, l', r')"
    "two t l' (filter (\<lambda>p. what s p \<noteq> w) xs @ m # filter (\<lambda>p. what s p \<noteq> w) zs) r'
      (filter (\<lambda>p. what s p = w) xs @ ds @ filter (\<lambda>p. what s p = w) zs)"
    "untouched (set (xs @ m # zs) \<union> set ds) s1 t"
    using purge_both [OF two, of rem w] rem same f [of xs] f [of zs] by auto
  let ?e = "\<lparr>emsg = Some m, outPrevData = d, est = t, equeue = l', outRemoved = r'\<rparr>"
  show ?thesis
    by (rule exI [of _ ?e]) (use * in \<open>auto simp: remove_others_def bind_eq_Some_conv dest: untouched_msgs\<close>)
qed

lemma filter_but_first:
  assumes "distinct (m # zs)" "P m"
  shows "filter (\<lambda>p. P p \<and> p \<noteq> m) (m # zs) = filter P zs" "filter (\<lambda>p. \<not> P p) (m # zs) = filter (\<lambda>p. \<not> P p) zs"
  using assms by (auto intro: filter_cong)

text \<open>
  \<open>EnqueueMessageRemoveDups\<close> always returns. It reuses the first later message of the same
  code if that is the next message due after the requested time, and allocates otherwise; when
  the allocation fails nothing changes. When it succeeds, exactly one message of the code is left, at
  the requested time; every other message keeps its place, its contents and the time order; the
  removed messages are exactly the others of that code, the earlier ones before and the later ones
  behind what the list of removed messages held.
\<close>

lemma EnqueueMessageRemoveDups_spec:
  fixes s :: "'d store"
  assumes two: "two s l ms r ds" and ord: "in_order s ms"
    and new: "\<forall>p. fresh = Some p \<longrightarrow> p \<notin> set ms \<and> p \<notin> set ds"
    and T: "T = (if t0 \<le> 0 then now else t0)" and w: "w = What im"
  defines "reuse \<equiv> after s T ms \<noteq> [] \<and> what s (hd (after s T ms)) = w"
  shows "\<exists>e. EnqueueMessageRemoveDups now fresh im t0 s l r = Some e \<and>
    emsg e = (if reuse then Some (hd (after s T ms)) else fresh) \<and>
    outPrevData e = (if reuse then Some (Data (msgs s (hd (after s T ms)))) else None) \<and>
    (emsg e = None \<longrightarrow> est e = s \<and> equeue e = l \<and> outRemoved e = r) \<and>
    (\<forall>m. emsg e = Some m \<longrightarrow>
       two (est e) (equeue e) (dedup s w T ms m) (outRemoved e)
         (filter (\<lambda>p. what s p = w) (due s T ms) @ ds @
          filter (\<lambda>p. what s p = w \<and> p \<noteq> m) (after s T ms)) \<and>
       in_order (est e) (dedup s w T ms m) \<and>
       msgs (est e) = (msgs s)(m := stamped im T) \<and>
       live (est e) = (if reuse then live s else m # live s))"
proof -
  let ?xs = "due s T ms" and ?ys = "after s T ms"
  have rep: "mrep s l ms" using two by (simp add: two_def)
  note sp = split_facts [OF rep ord, of T]
  have split: "?xs @ ?ys = ms" using ord by (rule due_after)
  have walk: "back_dups w T (fTail l) None False s =
      Some (last_or None ?xs, first_or ?ys None, \<exists>z \<in> set (tl ?ys). what s z = w)"
    unfolding sp(4) using back_dups_cut [OF sp(1-3), of w None False] by auto
  consider m zs where reuse "?ys = m # zs" "what s m = w" | "\<not> reuse" "fresh = None" | p where "\<not> reuse" "fresh = Some p"
    by (cases ?ys; cases fresh) (auto simp: reuse_def)
  then show ?thesis
  proof cases
    case 1
    let ?s = "SetWhen m T (Message_assign m im s)"
    have t: "two ?s l (?xs @ m # zs) r ds" using two split 1 by (simp add: stamped_updates)
    have d: "distinct (m # zs)" using rep split 1(2) by (metis distinct_append mrep_def)
    obtain e where e: "remove_others w (\<exists>z \<in> set zs. what s z = w) (last_or None ?xs) m (Some (Data (msgs s m))) ?s l r = Some e"
      "emsg e = Some m" "outPrevData e = Some (Data (msgs s m))"
      "two (est e) (equeue e) (filter (\<lambda>p. what s p \<noteq> w) ?xs @ m # filter (\<lambda>p. what s p \<noteq> w) zs)
        (outRemoved e) (filter (\<lambda>p. what s p = w) ?xs @ ds @ filter (\<lambda>p. what s p = w) zs)"
      "msgs (est e) = (msgs s)(m := stamped im T)" "live (est e) = live s"
      using dedup_finish [OF t _ stamped_updates(1), of "\<exists>z \<in> set zs. what s z = w" w "Some (Data (msgs s m))"]
      by (auto simp: stamped_updates)
    have "EnqueueMessageRemoveDups now fresh im t0 s l r = Some e"
      using walk 1 e(1) by (simp add: EnqueueMessageRemoveDups_def T [symmetric] w [symmetric])
    moreover have "in_order (est e) (dedup s w T ms m)"
      using ord 1(3) e(5) by (intro dedup_in_order) (auto simp: stamped_def)
    ultimately show ?thesis
      using e 1 filter_but_first [OF d, of "\<lambda>p. what s p = w"] by (auto simp: dedup_def)
  next
    case 2
    then show ?thesis
      using walk by (cases ?ys) (auto simp: EnqueueMessageRemoveDups_def T [symmetric] w [symmetric] reuse_def)
  next
    case 3
    have p: "p \<notin> set (?xs @ ?ys)" "p \<notin> set ds" using new 3(2) split by auto
    obtain s1 l1 where ins: "InsertAfter p (last_or None ?xs) (Message_copy p im s) l = (s1, l1)" by fastforce
    have "two s l (?xs @ ?ys) r ds" using two split by simp
    note fr = insert_fresh [OF this p ins]
    have t: "two (SetWhen p T s1) l1 (?xs @ p # ?ys) r ds" using fr(1) by (simp add: edits)
    let ?rem = "\<exists>z \<in> set (tl ?ys). what s z = w"
    obtain e where e: "remove_others w ?rem (last_or None ?xs) p None (SetWhen p T s1) l1 r = Some e"
      "emsg e = Some p" "outPrevData e = None"
      "two (est e) (equeue e) (filter (\<lambda>p. what s p \<noteq> w) ?xs @ p # filter (\<lambda>p. what s p \<noteq> w) ?ys)
        (outRemoved e) (filter (\<lambda>p. what s p = w) ?xs @ ds @ filter (\<lambda>p. what s p = w) ?ys)"
      "msgs (est e) = (msgs s)(p := stamped im T)" "live (est e) = p # live s"
      using dedup_finish [OF t _ fr(2), of ?rem w None] 3(1) fr(2,3)
      by (cases ?ys) (auto simp: reuse_def edits)
    have "EnqueueMessageRemoveDups now fresh im t0 s l r = Some e"
      using walk 3 e(1) ins
      by (cases ?ys) (auto simp: EnqueueMessageRemoveDups_def T [symmetric] w [symmetric] reuse_def)
    moreover have "in_order (est e) (dedup s w T ms p)"
      using ord p split e(5) by (intro dedup_in_order) (auto simp: stamped_def)
    moreover have "filter (\<lambda>q. what s q = w \<and> q \<noteq> p) ?ys = filter (\<lambda>q. what s q = w) ?ys"
      using p by (auto intro!: filter_cong)
    ultimately show ?thesis using e 3 by (auto simp: dedup_def)
  qed
qed

text \<open>The forward search: it stops at the first message that is later than the time or has the code.\<close>

lemma find_upto_stops:
  assumes "seg s q (xs @ ys) None" "\<forall>x \<in> set xs. whn s x \<le> t \<and> what s x \<noteq> w"
    "ys = [] \<or> t < whn s (hd ys) \<or> what s (hd ys) = w"
  shows "find_upto w t (first_or (xs @ ys) None) s =
    Some (if ys \<noteq> [] \<and> whn s (hd ys) \<le> t then Inl (hd ys) else Inr (first_or ys None))"
  using assms
proof (induction xs arbitrary: q)
  case Nil
  then show ?case by (cases ys) (auto simp: find_upto.simps)
next
  case (Cons x xs)
  then show ?case using Cons.IH [of "Some x"] by (auto simp: find_upto.simps [of w t "Some x"])
qed

definition repurposed :: "'d message \<Rightarrow> 'd message \<Rightarrow> 'd message" where
  "repurposed im old = old\<lparr>Data := Data im, Priority := Priority im\<rparr>"

definition unique_tail ::
  "u32 \<Rightarrow> ptr \<Rightarrow> 'd option \<Rightarrow> ptr option \<Rightarrow> 'd store \<Rightarrow> mlist \<Rightarrow> mlist \<Rightarrow> 'd enqueued option" where
  "unique_tail w m d pos s l r =
     map_option (\<lambda>(s, l, r). \<lparr>emsg = Some m, outPrevData = d, est = s, equeue = l, outRemoved = r\<rparr>)
       (remove_later w pos s l r)"

lemma unique_finish:
  fixes s :: "'d store"
  assumes "two s1 l (xs @ ys) r ds" "\<forall>y \<in> set ys. what s1 y = what s y"
  shows "\<exists>e. unique_tail w m d (first_or ys None) s1 l r = Some e \<and> emsg e = Some m \<and> outPrevData e = d \<and>
    two (est e) (equeue e) (xs @ filter (\<lambda>p. what s p \<noteq> w) ys)
      (outRemoved e) (ds @ filter (\<lambda>p. what s p = w) ys) \<and>
    msgs (est e) = msgs s1 \<and> live (est e) = live s1"
proof -
  obtain t l' r' where *: "remove_later w (first_or ys None) s1 l r = Some (t, l', r')"
    "two t l' (xs @ filter (\<lambda>p. what s1 p \<noteq> w) ys) r' (ds @ filter (\<lambda>p. what s1 p = w) ys)"
    "untouched (set (xs @ ys) \<union> set ds) s1 t"
    using remove_later_loop [OF assms(1)] by blast
  moreover have "filter (\<lambda>p. what s1 p \<noteq> w) ys = filter (\<lambda>p. what s p \<noteq> w) ys"
    "filter (\<lambda>p. what s1 p = w) ys = filter (\<lambda>p. what s p = w) ys"
    using assms(2) by (auto intro!: filter_cong)
  ultimately show ?thesis
    by (intro exI [of _ "\<lparr>emsg = Some m, outPrevData = d, est = t, equeue = l', outRemoved = r'\<rparr>"])
      (auto simp: unique_tail_def dest: untouched_msgs)
qed

text \<open>The branch that reuses the message \<open>m\<close>, the first one with the code.\<close>

lemma unique_reuse:
  fixes s :: "'d store"
  assumes two: "two s l (xs @ m # ys) r ds" and first: "\<forall>x \<in> set xs. whn s x \<le> T \<and> what s x \<noteq> w"
    and m: "what s m = w" and T: "T = (if t0 \<le> 0 then now else t0)" and w: "w = What im"
  shows "\<exists>e. EnqueueUniqueMessage now fresh im t0 s l r = Some e \<and> emsg e = Some m \<and>
    outPrevData e = Some (Data (msgs s m)) \<and>
    two (est e) (equeue e) (xs @ m # filter (\<lambda>p. what s p \<noteq> w) ys)
      (outRemoved e) (ds @ filter (\<lambda>p. what s p = w) ys) \<and>
    msgs (est e) = (msgs s)(m := repurposed im (msgs s m)) \<and> live (est e) = live s"
proof -
  let ?s = "SetPriority m (Priority im) (SetData m (Data im) s)"
  have hd: "fHead l = first_or (xs @ m # ys) None" and sg: "seg s None (xs @ m # ys) None"
    and nm: "m \<notin> set ys"
    using two by (auto simp: two_def mrep_def simp del: seg_append first_or_append)
  have find: "find_upto w T (fHead l) s = Some (if whn s m \<le> T then Inl m else Inr (Some m))"
    unfolding hd using find_upto_stops [OF sg first] m by simp
  have msgs: "msgs ?s = (msgs s)(m := repurposed im (msgs s m))" "live ?s = live s"
    by (simp_all add: edits repurposed_def)
  have "two ?s l ((xs @ [m]) @ ys) r ds" using two by (simp add: edits)
  then obtain e where e: "unique_tail w m (Some (Data (msgs s m))) (first_or ys None) ?s l r = Some e"
    "emsg e = Some m" "outPrevData e = Some (Data (msgs s m))"
    "two (est e) (equeue e) ((xs @ [m]) @ filter (\<lambda>p. what s p \<noteq> w) ys)
      (outRemoved e) (ds @ filter (\<lambda>p. what s p = w) ys)"
    "msgs (est e) = msgs ?s" "live (est e) = live ?s"
    using unique_finish [of ?s l "xs @ [m]" ys r ds s w m] nm msgs by fastforce
  have "EnqueueUniqueMessage now fresh im t0 s l r = Some e"
    using find e(1) m two_next [OF two]
    by (cases "whn s m \<le> T")
      (simp_all add: EnqueueUniqueMessage_def T [symmetric] w [symmetric] unique_tail_def Let_def)
  then show ?thesis using e msgs by (intro exI [of _ e]) simp
qed

text \<open>The branch that adds a message, or finds no memory.\<close>

lemma unique_fresh:
  fixes s :: "'d store"
  assumes two: "two s l (xs @ ys) r ds" and first: "\<forall>x \<in> set xs. whn s x \<le> T \<and> what s x \<noteq> w"
    and stop: "ys = [] \<or> T < whn s (hd ys) \<and> what s (hd ys) \<noteq> w"
    and new: "\<forall>p. fresh = Some p \<longrightarrow> p \<notin> set (xs @ ys) \<and> p \<notin> set ds"
    and T: "T = (if t0 \<le> 0 then now else t0)" and w: "w = What im"
  shows "\<exists>e. EnqueueUniqueMessage now fresh im t0 s l r = Some e \<and> emsg e = fresh \<and> outPrevData e = None \<and>
    (fresh = None \<longrightarrow> est e = s \<and> equeue e = l \<and> outRemoved e = r) \<and>
    (\<forall>p. fresh = Some p \<longrightarrow>
      two (est e) (equeue e) (xs @ p # filter (\<lambda>p. what s p \<noteq> w) ys)
        (outRemoved e) (ds @ filter (\<lambda>p. what s p = w) ys) \<and>
      msgs (est e) = (msgs s)(p := stamped im T) \<and> live (est e) = p # live s)"
proof -
  have hd: "fHead l = first_or (xs @ ys) None" and sg: "seg s None (xs @ ys) None"
    using two by (auto simp: two_def mrep_def simp del: seg_append first_or_append)
  have find: "find_upto w T (fHead l) s = Some (Inr (first_or ys None))"
    unfolding hd using find_upto_stops [OF sg first] stop by auto
  show ?thesis
  proof (cases fresh)
    case None
    then show ?thesis
      using find stop
      by (cases ys) (auto simp: EnqueueUniqueMessage_def T [symmetric] w [symmetric] Let_def)
  next
    case (Some p)
    let ?s = "SetWhen p T (Message_copy p im s)"
    have p: "p \<notin> set (xs @ ys)" "p \<notin> set ds" using new Some by auto
    have two': "two ?s l (xs @ ys) r ds" using two p by (simp add: two_def edits)
    then have rep: "mrep ?s l (xs @ ys)" by (simp add: two_def)
    have lo: "loose ?s p" by (simp add: edits)
    obtain s1 l1 where ins: "InsertBefore p (first_or ys None) ?s l = (s1, l1)" by fastforce
    note ib = InsertBefore_mrep [OF rep p(1) lo ins]
    have t: "two s1 l1 ((xs @ [p]) @ ys) r ds"
      using two_insert [OF two' ib(1) p(2) ib(2)] by simp
    have msgs: "msgs s1 = (msgs s)(p := stamped im T)" "live s1 = p # live s"
      using untouched_msgs [OF ib(2)] by (simp_all add: edits stamped_def)
    then obtain e where e: "unique_tail w p None (first_or ys None) s1 l1 r = Some e"
      "emsg e = Some p" "outPrevData e = None"
      "two (est e) (equeue e) ((xs @ [p]) @ filter (\<lambda>p. what s p \<noteq> w) ys)
        (outRemoved e) (ds @ filter (\<lambda>p. what s p = w) ys)"
      "msgs (est e) = msgs s1" "live (est e) = live s1"
      using unique_finish [OF t, of s w p] p by fastforce
    have "EnqueueUniqueMessage now fresh im t0 s l r = Some e"
      using find e(1) ins stop Some
      by (cases ys) (auto simp: EnqueueUniqueMessage_def T [symmetric] w [symmetric] unique_tail_def Let_def)
    then show ?thesis using e msgs Some by (intro exI [of _ e]) simp
  qed
qed

text \<open>
  The message that \<open>EnqueueUniqueMessage\<close> reuses: the first message of the code that is due, or else the
  next message after the requested time if it has the code.
\<close>

definition unique_target :: "'d store \<Rightarrow> u32 \<Rightarrow> int \<Rightarrow> ptr list \<Rightarrow> ptr option" where
  "unique_target s w t ms =
    (case find (\<lambda>p. what s p = w) (due s t ms) of
       Some m \<Rightarrow> Some m
     | None \<Rightarrow> if after s t ms \<noteq> [] \<and> what s (hd (after s t ms)) = w then Some (hd (after s t ms)) else None)"

lemma find_split:
  "find P xs = Some x \<Longrightarrow> \<exists>as bs. xs = as @ x # bs \<and> P x \<and> (\<forall>a \<in> set as. \<not> P a)"
proof (induction xs)
  case (Cons y xs)
  show ?case
  proof (cases "P y")
    case False
    then obtain as bs where "xs = as @ x # bs" "P x" "\<forall>a \<in> set as. \<not> P a" using Cons by auto
    then show ?thesis using False by (intro exI [of _ "y # as"] exI [of _ bs]) simp
  qed (use Cons.prems in \<open>auto intro: exI [of _ "[]"]\<close>)
qed simp

lemma unique_target_Some:
  assumes "unique_target s w t ms = Some m" "in_order s ms"
  obtains xs ys where "ms = xs @ m # ys" "what s m = w" "\<forall>x \<in> set xs. whn s x \<le> t \<and> what s x \<noteq> w"
proof (cases "find (\<lambda>p. what s p = w) (due s t ms)")
  case (Some k)
  then have "k = m" using assms(1) by (simp add: unique_target_def)
  with Some obtain as bs where ab: "due s t ms = as @ m # bs" "what s m = w" "\<forall>a \<in> set as. what s a \<noteq> w"
    using find_split [of "\<lambda>p. what s p = w" "due s t ms" m] by auto
  moreover have "\<forall>a \<in> set (due s t ms). whn s a \<le> t" by (simp add: due_def)
  ultimately show ?thesis
    using that [of as "bs @ after s t ms"] due_after [OF assms(2), of t] by auto
next
  case None
  then have no: "\<forall>p \<in> set (due s t ms). whn s p \<le> t \<and> what s p \<noteq> w"
    by (auto simp: find_None_iff due_def)
  obtain zs where "after s t ms = m # zs" "what s m = w"
    using assms(1) None by (cases "after s t ms") (auto simp: unique_target_def split: if_splits)
  then show ?thesis using that [of "due s t ms" zs] due_after [OF assms(2), of t] no by auto
qed

lemma unique_target_None:
  assumes "unique_target s w t ms = None"
  shows "\<forall>x \<in> set (due s t ms). whn s x \<le> t \<and> what s x \<noteq> w"
    "after s t ms = [] \<or> t < whn s (hd (after s t ms)) \<and> what s (hd (after s t ms)) \<noteq> w"
proof -
  have "find (\<lambda>p. what s p = w) (due s t ms) = None"
    using assms by (simp add: unique_target_def split: option.splits)
  then show "\<forall>x \<in> set (due s t ms). whn s x \<le> t \<and> what s x \<noteq> w"
    by (auto simp: find_None_iff due_def)
  have "\<forall>x \<in> set (after s t ms). t < whn s x" by (simp add: after_def)
  then show "after s t ms = [] \<or> t < whn s (hd (after s t ms)) \<and> what s (hd (after s t ms)) \<noteq> w"
    using assms by (auto simp: unique_target_def split: option.splits if_splits)
qed

lemma in_order_repurposed:
  assumes "in_order s ms" "msgs t = (msgs s)(m := repurposed im (msgs s m))"
  shows "in_order t ms"
proof -
  have "whn t p = whn s p" for p using assms(2) by (simp add: repurposed_def)
  then show ?thesis using assms(1) by (simp add: in_order_def)
qed

text \<open>
  \<open>EnqueueUniqueMessage\<close> always returns. If it finds a message to reuse, that message gets the new
  data and priority and keeps its place and its time, and all other messages of the code are removed,
  in order. Otherwise a new message is added at the requested time (or nothing changes, without memory)
  and all other messages of the code are removed. Messages of other codes are never touched, and
  the queue stays in time order.
\<close>

lemma EnqueueUniqueMessage_spec:
  fixes s :: "'d store"
  assumes two: "two s l ms r ds" and ord: "in_order s ms"
    and new: "\<forall>p. fresh = Some p \<longrightarrow> p \<notin> set ms \<and> p \<notin> set ds"
    and T: "T = (if t0 \<le> 0 then now else t0)" and w: "w = What im"
  shows "\<exists>e. EnqueueUniqueMessage now fresh im t0 s l r = Some e \<and>
    (case unique_target s w T ms of
       Some m \<Rightarrow> emsg e = Some m \<and> outPrevData e = Some (Data (msgs s m)) \<and>
         two (est e) (equeue e) (filter (\<lambda>p. what s p \<noteq> w \<or> p = m) ms)
           (outRemoved e) (ds @ filter (\<lambda>p. what s p = w \<and> p \<noteq> m) ms) \<and>
         in_order (est e) (filter (\<lambda>p. what s p \<noteq> w \<or> p = m) ms) \<and>
         msgs (est e) = (msgs s)(m := repurposed im (msgs s m)) \<and> live (est e) = live s
     | None \<Rightarrow> emsg e = fresh \<and> outPrevData e = None \<and>
         (fresh = None \<longrightarrow> est e = s \<and> equeue e = l \<and> outRemoved e = r) \<and>
         (\<forall>p. fresh = Some p \<longrightarrow>
            two (est e) (equeue e) (dedup s w T ms p) (outRemoved e) (ds @ filter (\<lambda>p. what s p = w) ms) \<and>
            in_order (est e) (dedup s w T ms p) \<and>
            msgs (est e) = (msgs s)(p := stamped im T) \<and> live (est e) = p # live s))"
proof (cases "unique_target s w T ms")
  case (Some m)
  obtain xs ys where ms: "ms = xs @ m # ys" "what s m = w" "\<forall>x \<in> set xs. whn s x \<le> T \<and> what s x \<noteq> w"
    using unique_target_Some [OF Some ord] .
  have nm: "m \<notin> set ys" using two ms(1) by (auto simp: two_def mrep_def)
  have f: "filter (\<lambda>p. what s p \<noteq> w \<or> p = m) ms = xs @ m # filter (\<lambda>p. what s p \<noteq> w) ys"
      "filter (\<lambda>p. what s p = w \<and> p \<noteq> m) ms = filter (\<lambda>p. what s p = w) ys"
    using ms nm by (auto simp: filter_id_conv filter_empty_conv intro: filter_cong)
  show ?thesis
    using unique_reuse [OF two [unfolded ms(1)] ms(3) ms(2) T w, of fresh] Some
      in_order_repurposed [OF in_order_filter [OF ord], of _ m im]
    by (auto simp: f [symmetric])
next
  case None
  note tn = unique_target_None [OF None]
  have split: "due s T ms @ after s T ms = ms" using ord by (rule due_after)
  have f: "dedup s w T ms p = due s T ms @ p # filter (\<lambda>p. what s p \<noteq> w) (after s T ms)"
      "filter (\<lambda>p. what s p = w) ms = filter (\<lambda>p. what s p = w) (after s T ms)" for p
  proof -
    show "dedup s w T ms p = due s T ms @ p # filter (\<lambda>p. what s p \<noteq> w) (after s T ms)"
      using tn(1) by (simp add: dedup_def filter_id_conv)
    have "filter (\<lambda>p. what s p = w) (due s T ms) = []" using tn(1) by (simp add: filter_empty_conv)
    then show "filter (\<lambda>p. what s p = w) ms = filter (\<lambda>p. what s p = w) (after s T ms)"
      by (metis append_Nil filter_append split)
  qed
  have "two s l (due s T ms @ after s T ms) r ds" using two split by simp
  note fr = unique_fresh [OF this tn _ T w, of fresh, unfolded split, OF new]
  have "in_order t (dedup s w T ms p)" if "fresh = Some p" "msgs t = (msgs s)(p := stamped im T)" for t p
    using ord that new by (intro dedup_in_order) (auto simp: stamped_def)
  then show ?thesis using fr None by (auto simp: f)
qed

lemma find_what_finds:
  assumes "seg s q ms None"
  shows "find_what w (first_or ms None) s = Some (find (\<lambda>p. what s p = w) ms)"
  using assms
proof (induction ms arbitrary: q)
  case (Cons m ms)
  then show ?case using Cons.IH [of "Some m"] by (auto simp: find_what.simps [of w "Some m"])
qed (simp add: find_what.simps)

lemma Remove_found:
  assumes "mrep s l ms" "p \<in> set ms"
  shows "\<exists>t l'. Remove p s l = (Some p, t, l') \<and> mrep t l' (remove1 p ms) \<and> loose t p \<and>
    untouched (set ms) s t"
proof -
  obtain xs ys where ms: "ms = xs @ p # ys" "p \<notin> set xs" using assms(2) by (meson split_list_first)
  obtain r t l' where "Remove p s l = (r, t, l')" by (metis prod_cases3)
  then show ?thesis
    using Remove_mrep [of s l xs p ys r t l'] assms(1) ms by (auto simp: remove1_append)
qed

lemma mrep_count: "mrep s l ms \<Longrightarrow> fCount l \<noteq> 0 \<longleftrightarrow> ms \<noteq> []"
  by (simp add: mrep_def)

text \<open>
  \<open>DequeueMessage\<close> returns the first message of the requested code (the head of the queue for
  \<open>B_ANY_WHAT\<close>), unlinked, or null if there is none; the others stay as they were, and \<open>more\<close> tells
  whether any message is left.
\<close>

lemma DequeueMessage_spec:
  fixes s :: "'d store" and w :: u32
  assumes rep: "mrep s l ms"
  defines "m \<equiv> (if w = B_ANY_WHAT then first_or ms None else find (\<lambda>p. what s p = w) ms)"
  defines "rest \<equiv> (case m of None \<Rightarrow> ms | Some p \<Rightarrow> remove1 p ms)"
  shows "\<exists>t l'. DequeueMessage w s l = Some (m, rest \<noteq> [], t, l') \<and> mrep t l' rest \<and>
    (\<forall>p. m = Some p \<longrightarrow> loose t p) \<and> msgs t = msgs s \<and> live t = live s \<and> untouched (set ms) s t"
proof (cases "w = B_ANY_WHAT")
  case True
  show ?thesis
  proof (cases ms)
    case Nil
    then have "fHead l = None" using rep by (simp add: mrep_def)
    then show ?thesis
      using True rep Nil mrep_count [OF rep]
      by (simp add: DequeueMessage_def RemoveHead_def rest_def m_def untouched_def)
  next
    case (Cons p ys)
    obtain r t l' where rh: "RemoveHead s l = (r, t, l')" by (metis prod_cases3)
    note res = RemoveHead_mrep [OF rep [unfolded Cons] rh]
    then have "fCount l' \<noteq> 0 \<longleftrightarrow> ys \<noteq> []" by (simp add: mrep_def)
    then show ?thesis
      using True Cons rh res untouched_msgs [of "set ms" s t]
      by (simp add: DequeueMessage_def rest_def m_def)
  qed
next
  case False
  have m: "m = find (\<lambda>p. what s p = w) ms" using False by (simp add: m_def)
  have find: "find_what w (fHead l) s = Some m"
    using rep False find_what_finds [of s None ms w] by (simp add: mrep_def m)
  show ?thesis
  proof (cases m)
    case None
    then show ?thesis
      using find False rep mrep_count [OF rep] by (simp add: DequeueMessage_def rest_def untouched_def)
  next
    case (Some p)
    then have "p \<in> set ms" using find_split [of "\<lambda>p. what s p = w" ms p] m by auto
    then obtain t l' where rm: "Remove p s l = (Some p, t, l')" "mrep t l' (remove1 p ms)" "loose t p"
      "untouched (set ms) s t" using Remove_found [OF rep] by blast
    then show ?thesis
      using Some find False mrep_count [OF rm(2)] untouched_msgs [OF rm(4)]
      by (simp add: DequeueMessage_def rest_def)
  qed
qed

lemma OldestMessage_least:
  assumes "mrep s l ms" "in_order s ms"
  shows "OldestMessage s l = (case ms of [] \<Rightarrow> (B_INFINITE_TIMEOUT, 10) | m # _ \<Rightarrow> (whn s m, Priority (msgs s m)))"
    "\<forall>p \<in> set ms. fst (OldestMessage s l) \<le> whn s p"
  using assms by (cases ms; auto simp: OldestMessage_def mrep_def in_order_def)+

lemma CountMessages_counts:
  assumes "mrep s l ms"
  shows "CountMessages w s l =
    Some (int (length (if w = B_ANY_WHAT then ms else filter (\<lambda>p. what s p = w) ms)))"
proof -
  have "seg s q ms None \<Longrightarrow> count_loop w n (first_or ms None) s = Some (n + int (length (filter (\<lambda>p. what s p = w) ms)))"
    for q n
  proof (induction ms arbitrary: q n)
    case (Cons m ms)
    then show ?case using Cons.IH [of "Some m"] by (auto simp: count_loop.simps [of w _ "Some m"])
  qed (simp add: count_loop.simps)
  then show ?thesis using assms by (auto simp: CountMessages_def mrep_def)
qed

lemma Message_delete_get [simp]:
  "nexts (Message_delete p s) = nexts s" "prevs (Message_delete p s) = prevs s"
  "msgs (Message_delete p s) = msgs s" "live (Message_delete p s) = removeAll p (live s)"
  by (simp_all add: Message_delete_def)

lemma empty_loop_frees:
  fixes s :: "'d store"
  assumes "seg s q ms None" "distinct ms"
  shows "\<exists>t. empty_loop (first_or ms None) s = Some t \<and> msgs t = msgs s \<and>
    live t = filter (\<lambda>p. p \<notin> set ms) (live s) \<and>
    (\<forall>x. x \<notin> set ms \<longrightarrow> nexts t x = nexts s x \<and> prevs t x = prevs s x)"
  using assms
proof (induction ms arbitrary: s q)
  case Nil
  then show ?case by (simp add: empty_loop.simps)
next
  case (Cons m ms)
  let ?s = "Message_delete m (set_next m None (set_prev m None s))"
  have "seg ?s (Some m) ms None = seg s (Some m) ms None"
    using Cons.prems by (intro seg_cong) auto
  then obtain t where t: "empty_loop (first_or ms None) ?s = Some t" "msgs t = msgs ?s"
    "live t = filter (\<lambda>p. p \<notin> set ms) (live ?s)"
    "\<forall>x. x \<notin> set ms \<longrightarrow> nexts t x = nexts ?s x \<and> prevs t x = prevs ?s x"
    using Cons by (metis distinct.simps(2) seg.simps(2))
  show ?case
    by (rule exI [of _ t])
      (use t Cons.prems in \<open>auto simp: empty_loop.simps [of "Some m"] removeAll_filter_not_eq intro: filter_cong\<close>)
qed

text \<open>
  \<open>MakeEmpty\<close> ends, deletes exactly the messages of the list, and leaves an empty list; \<open>Adopt\<close>
  does this and then takes over the other list, which becomes empty.
\<close>

lemma Adopt_spec:
  fixes s :: "'d store"
  assumes two: "two s l ms r ds"
  shows "\<exists>t. MakeEmpty s l = Some (t, MList_new) \<and> Adopt s l r = Some (t, r, MList_new) \<and>
    mrep t r ds \<and> msgs t = msgs s \<and> live t = filter (\<lambda>p. p \<notin> set ms) (live s)"
proof -
  have l: "seg s None ms None" "distinct ms" "fHead l = first_or ms None" and r: "mrep s r ds"
    and disj: "set ms \<inter> set ds = {}"
    using two by (auto simp: two_def mrep_def)
  obtain t where t: "empty_loop (fHead l) s = Some t" "msgs t = msgs s"
    "live t = filter (\<lambda>p. p \<notin> set ms) (live s)"
    "\<forall>x. x \<notin> set ms \<longrightarrow> nexts t x = nexts s x \<and> prevs t x = prevs s x"
    using empty_loop_frees [OF l(1,2)] l(3) by auto
  have "seg t None ds None = seg s None ds None" using t(4) disj by (intro seg_cong) auto
  then have "mrep t r ds" using r by (simp add: mrep_def)
  then show ?thesis using t by (simp add: MakeEmpty_def Adopt_def MList_new_def)
qed

section \<open>A concrete queue\<close>

text \<open>Messages at addresses 1, 2 and 3 with codes 7, 8, 7 due at 10, 20, 30; address 4 is a loose message.\<close>

definition demo_store :: "int store" where
  "demo_store = \<lparr>nexts = (\<lambda>_. None)(1 := Some 2, 2 := Some 3),
     prevs = (\<lambda>_. None)(2 := Some 1, 3 := Some 2),
     msgs = (\<lambda>_. \<lparr>What = 0, When = 0, Priority = 10, Data = 0\<rparr>)
       (1 := \<lparr>What = 7, When = 10, Priority = 10, Data = 100\<rparr>,
        2 := \<lparr>What = 8, When = 20, Priority = 10, Data = 200\<rparr>,
        3 := \<lparr>What = 7, When = 30, Priority = 10, Data = 300\<rparr>,
        4 := \<lparr>What = 9, When = 20, Priority = 10, Data = 400\<rparr>),
     live = [1, 2, 3, 4]\<rparr>"

definition demo_list :: mlist where
  "demo_list = \<lparr>fHead = Some 1, fTail = Some 3, fCount = 3\<rparr>"

lemma demo_facts:
  "mrep demo_store demo_list [1, 2, 3]" "in_order demo_store [1, 2, 3]"
  "two demo_store demo_list [1, 2, 3] MList_new []" "loose demo_store 4"
  by (simp_all add: mrep_def two_def loose_def in_order_def demo_store_def demo_list_def MList_new_def)

lemma enqueue_in_order_example:
  "\<exists>t l'. EnqueueMessage 5 4 demo_store demo_list = Some (t, l') \<and> mrep t l' [1, 2, 4, 3]"
proof -
  have "whn demo_store 4 = 20" by (simp add: demo_store_def)
  moreover have "due demo_store 20 [1, 2, 3] = [1, 2]" "after demo_store 20 [1, 2, 3] = [3]"
    by (simp_all add: due_def after_def demo_store_def)
  ultimately show ?thesis
    using EnqueueMessage_spec [OF demo_facts(1,2) _ demo_facts(4) refl, of 5] by auto
qed

text \<open>Posting code 7 for time 15 keeps one message of that code, at 15, and removes the two others.\<close>

definition demo_msg :: "int message" where
  "demo_msg = \<lparr>What = 7, When = 0, Priority = 10, Data = 500\<rparr>"

lemma enqueue_remove_dups_example:
  "\<exists>e. EnqueueMessageRemoveDups 5 (Some 9) demo_msg 15 demo_store demo_list MList_new = Some e \<and>
    mrep (est e) (equeue e) [9, 2] \<and> mrep (est e) (outRemoved e) [1, 3]"
proof -
  have "due demo_store 15 [1, 2, 3] = [1]" "after demo_store 15 [1, 2, 3] = [2, 3]"
    by (simp_all add: due_def after_def demo_store_def)
  then show ?thesis
    using EnqueueMessageRemoveDups_spec [OF demo_facts(3,2), of "Some 9" 15 15 5 7 demo_msg]
    by (auto simp: two_def dedup_def demo_msg_def demo_store_def)
qed

text \<open>
  The same code posted as unique for time 25: the message at 10 takes the new data. Posted for
  time 5, the head of the queue is reused although it is due only at 10.
\<close>

lemma enqueue_unique_example:
  "\<exists>e. EnqueueUniqueMessage 1 None demo_msg 25 demo_store demo_list MList_new = Some e \<and>
    mrep (est e) (equeue e) [1, 2] \<and> mrep (est e) (outRemoved e) [3] \<and> Data (msgs (est e) 1) = 500"
proof -
  have "unique_target demo_store 7 25 [1, 2, 3] = Some 1"
    by (simp add: unique_target_def due_def after_def demo_store_def)
  then show ?thesis
    using EnqueueUniqueMessage_spec [OF demo_facts(3,2), of None 25 25 1 7 demo_msg]
    by (auto simp: two_def demo_msg_def demo_store_def repurposed_def)
qed

lemma unique_message_late:
  "\<exists>e. EnqueueUniqueMessage 1 None demo_msg 5 demo_store demo_list MList_new = Some e \<and>
    emsg e = Some 1 \<and> fHead (equeue e) = Some 1 \<and> whn (est e) 1 = 10"
proof -
  have two: "two demo_store demo_list ([] @ 1 # [2, 3]) MList_new []" using demo_facts(3) by simp
  have w: "what demo_store 1 = 7" "7 = What demo_msg" "whn demo_store 1 = 10"
    by (simp_all add: demo_store_def demo_msg_def)
  obtain e where e: "EnqueueUniqueMessage 1 None demo_msg 5 demo_store demo_list MList_new = Some e"
    "emsg e = Some 1" "two (est e) (equeue e) ([] @ 1 # filter (\<lambda>p. what demo_store p \<noteq> 7) [2, 3])
      (outRemoved e) ([] @ filter (\<lambda>p. what demo_store p = 7) [2, 3])"
    "msgs (est e) = (msgs demo_store)(1 := repurposed demo_msg (msgs demo_store 1))"
    using unique_reuse [OF two _ w(1), of 5 5 1 demo_msg None] w(2) by auto
  then have "fHead (equeue e) = Some 1" by (simp add: two_def mrep_def)
  then show ?thesis using e w(3) by (simp add: repurposed_def)
qed

lemma dequeue_first_example:
  "\<exists>t l'. DequeueMessage 8 demo_store demo_list = Some (Some 2, True, t, l') \<and> mrep t l' [1, 3]"
proof -
  have "find (\<lambda>p. what demo_store p = 8) [1, 2, 3] = Some 2" by (simp add: demo_store_def)
  then show ?thesis
    using DequeueMessage_spec [OF demo_facts(1), of 8] by (auto simp: B_ANY_WHAT_def)
qed

lemma adopt_takes_over_example:
  "\<exists>t. Adopt demo_store demo_list MList_new = Some (t, MList_new, MList_new) \<and> live t = [4]"
  using Adopt_spec [OF demo_facts(3)] by (auto simp: demo_store_def)

end
