(* ===== verification/Handler.thy ===== *)
theory Handler
  imports Message_List
begin

text \<open>
  Message handlers, \<^verbatim>\<open>src/libraries/libbinder/support/Handler.cpp\<close>: posting into the handler's
  queue, filtering and dispatching, and the flags by which a handler and its process agree on when the
  handler has to be scheduled. Each function runs under the lock of the handler, so one call is one
  step; the calls into the process (\<^verbatim>\<open>BProcess::ScheduleHandler\<close> and \<^verbatim>\<open>UnscheduleHandler\<close>),
  made after the lock is released, are part of the result. Clock readings, the allocator's answers and the
  subclass's \<^verbatim>\<open>HandleMessage\<close> are arguments.
\<close>

section \<open>State\<close>

definition ghCanSchedule :: u32 where "ghCanSchedule = 1"
definition ghScheduled :: u32 where "ghScheduled = 2"
definition ghNeedSchedule :: u32 where "ghNeedSchedule = 4"
definition ghDying :: u32 where "ghDying = 8"
definition ghCalledSchedule :: u32 where "ghCalledSchedule = 16"

lemmas gh_defs = ghCanSchedule_def ghScheduled_def ghNeedSchedule_def ghDying_def ghCalledSchedule_def

record handler =
  m_msgQueue :: mlist
  m_state :: u32

datatype team_call = ScheduleHandler | UnscheduleHandler

definition Handler_new :: handler where
  "Handler_new = \<lparr>m_msgQueue = MList_new, m_state = ghCanSchedule\<rparr>"

text \<open>
  The passage that several functions repeat when the head of the queue has changed: note that the
  handler needs to be scheduled and, unless this is blocked or already under way, call the process.
\<close>

definition need_schedule :: "u32 \<Rightarrow> bool \<times> u32" where
  "need_schedule st =
    (let doSchedule = (st AND (ghCanSchedule OR ghNeedSchedule OR ghCalledSchedule) = ghCanSchedule)
     in (doSchedule, st OR (if doSchedule then ghNeedSchedule OR ghCalledSchedule else ghNeedSchedule)))"

definition calls :: "bool \<Rightarrow> team_call list" where
  "calls doSchedule = (if doSchedule then [ScheduleHandler] else [])"

section \<open>Posting\<close>

definition POST_REMOVE_DUPLICATES :: u32 where "POST_REMOVE_DUPLICATES = 1"
definition POST_KEEP_UNIQUE :: u32 where "POST_KEEP_UNIQUE = 2"

text \<open>The removed messages are destroyed with the local list \<^verbatim>\<open>removed\<close>.\<close>

definition enqueue_unique_message ::
  "int \<Rightarrow> ptr option \<Rightarrow> 'd message \<Rightarrow> int \<Rightarrow> u32 \<Rightarrow> 'd store \<Rightarrow> handler \<Rightarrow>
    (status_t \<times> team_call list \<times> 'd store \<times> handler) option" where
  "enqueue_unique_message now fresh message time flags s h =
    Option.bind (if flags AND POST_REMOVE_DUPLICATES \<noteq> 0
        then EnqueueMessageRemoveDups now fresh message time s (m_msgQueue h) MList_new
        else EnqueueUniqueMessage now fresh message time s (m_msgQueue h) MList_new) (\<lambda>e.
      let (doSchedule, st) =
            (if fHead (equeue e) = emsg e \<and> emsg e \<noteq> None then need_schedule (m_state h) else (False, m_state h))
      in map_option (\<lambda>(s, _).
           (if emsg e \<noteq> None then B_OK else B_NO_MEMORY, calls doSchedule, s,
            \<lparr>m_msgQueue = equeue e, m_state = st\<rparr>))
         (MakeEmpty (est e) (outRemoved e)))"

definition Handler_EnqueueMessage ::
  "int \<Rightarrow> ptr option \<Rightarrow> 'd message \<Rightarrow> int \<Rightarrow> u32 \<Rightarrow> 'd store \<Rightarrow> handler \<Rightarrow>
    (status_t \<times> team_call list \<times> 'd store \<times> handler) option" where
  "Handler_EnqueueMessage now fresh message time flags s h =
    (let flags = flags AND (POST_REMOVE_DUPLICATES OR POST_KEEP_UNIQUE) in
     if flags = 0 then
       (case fresh of
          None \<Rightarrow> Some (B_NO_MEMORY, [], s, h)
        | Some p \<Rightarrow>
           map_option (\<lambda>(s, l).
             (let (doSchedule, st) =
                    (if fHead l = Some p then need_schedule (m_state h) else (False, m_state h))
              in (B_OK, calls doSchedule, s, \<lparr>m_msgQueue = l, m_state = st\<rparr>)))
           (EnqueueMessage now p (SetWhen p time (Message_copy p message s)) (m_msgQueue h)))
     else enqueue_unique_message now fresh message time flags s h)"

definition PostMessageAtTime where
  "PostMessageAtTime now fresh message absoluteTime flags s h =
    Handler_EnqueueMessage now fresh message (if absoluteTime > now then absoluteTime else now) flags s h"

definition PostDelayedMessage where
  "PostDelayedMessage exact now fresh message delay flags s h =
    Handler_EnqueueMessage now fresh message (exact + (if delay \<ge> 0 then delay else 0)) flags s h"

definition PostMessage where
  "PostMessage now fresh message flags s h = Handler_EnqueueMessage now fresh message now flags s h"

section \<open>Scheduling\<close>

text \<open>\<open>resuming\<close> is the answer of \<^verbatim>\<open>BProcess::ResumingScheduling()\<close>.\<close>

definition ResumeScheduling :: "bool \<Rightarrow> handler \<Rightarrow> team_call list \<times> handler" where
  "ResumeScheduling resuming h =
    (if resuming then
       (let doSchedule = (m_state h AND (ghNeedSchedule OR ghCalledSchedule) = ghNeedSchedule)
        in (calls doSchedule,
            h\<lparr>m_state := m_state h OR (if doSchedule then ghCanSchedule OR ghCalledSchedule else ghCanSchedule)\<rparr>))
     else ([], h))"

definition defer_scheduling :: "handler \<Rightarrow> handler" where
  "defer_scheduling h = h\<lparr>m_state := m_state h AND NOT (ghScheduled OR ghCanSchedule)\<rparr>"

definition unschedule :: "handler \<Rightarrow> team_call list \<times> handler" where
  "unschedule h =
    ((if m_state h AND ghScheduled \<noteq> 0 then [UnscheduleHandler] else []),
     h\<lparr>m_state := (m_state h AND NOT (ghCanSchedule OR ghScheduled)) OR ghDying\<rparr>)"

datatype scheduling = CANCEL_SCHEDULE | DO_SCHEDULE | DO_RESCHEDULE

definition start_schedule :: "handler \<Rightarrow> scheduling \<times> handler" where
  "start_schedule h =
    (let st = m_state h AND NOT ghCalledSchedule in
     if st AND (ghCanSchedule OR ghNeedSchedule OR ghDying) = ghCanSchedule OR ghNeedSchedule then
       (let st = st AND NOT ghNeedSchedule in
        (if IsEmpty (m_msgQueue h) then CANCEL_SCHEDULE
         else if st AND ghScheduled \<noteq> 0 then DO_RESCHEDULE else DO_SCHEDULE,
         h\<lparr>m_state := st\<rparr>))
     else (CANCEL_SCHEDULE, h\<lparr>m_state := st\<rparr>))"

definition done_schedule :: "handler \<Rightarrow> handler" where
  "done_schedule h = h\<lparr>m_state := m_state h OR ghScheduled\<rparr>"

section \<open>Taking messages out\<close>

definition NextMessageTime :: "'d store \<Rightarrow> handler \<Rightarrow> int \<times> int" where
  "NextMessageTime s h = OldestMessage s (m_msgQueue h)"

definition Handler_CountMessages :: "u32 \<Rightarrow> 'd store \<Rightarrow> handler \<Rightarrow> int option" where
  "Handler_CountMessages w s h = CountMessages w s (m_msgQueue h)"

definition Handler_DequeueMessage ::
  "u32 \<Rightarrow> 'd store \<Rightarrow> handler \<Rightarrow> (ptr option \<times> team_call list \<times> 'd store \<times> handler) option" where
  "Handler_DequeueMessage w s h =
    map_option (\<lambda>(m, _, s, l).
      (let (doSchedule, st) =
             (if fHead l \<noteq> fHead (m_msgQueue h) then need_schedule (m_state h) else (False, m_state h))
       in (m, calls doSchedule, s, \<lparr>m_msgQueue = l, m_state = st\<rparr>)))
    (DequeueMessage w s (m_msgQueue h))"

datatype filter_action = FILTER_REMOVE | FILTER_KEEP | FILTER_STOP

definition FILTER_REVERSE_FLAG :: u32 where "FILTER_REVERSE_FLAG = 1"
definition FILTER_FUTURE_FLAG :: u32 where "FILTER_FUTURE_FLAG = 2"

partial_function (option) filter_loop ::
  "(ptr \<Rightarrow> filter_action) \<Rightarrow> bool \<Rightarrow> ptr option \<Rightarrow> 'd store \<Rightarrow> mlist \<Rightarrow> mlist \<Rightarrow> ('d store \<times> mlist \<times> mlist) option" where
  "filter_loop action backwards msg s l r =
    (case msg of
       None \<Rightarrow> Some (s, l, r)
     | Some m \<Rightarrow>
        if action m = FILTER_STOP then Some (s, l, r)
        else
          (let n = (if backwards then prevs s m else nexts s m);
               (s, l, r) =
                 (if action m = FILTER_REMOVE then
                    (let (_, s, l) = Remove m s l;
                         (s, r) = (if backwards then AddTail m s r else AddHead m s r)
                     in (s, l, r))
                  else (s, l, r))
           in filter_loop action backwards n s l r))"

text \<open>\<open>functor\<close> sees the message; \<open>removed\<close> is null when the removed messages are to be deleted.\<close>

definition FilterMessages ::
  "int \<Rightarrow> ('d message \<Rightarrow> filter_action) \<Rightarrow> u32 \<Rightarrow> mlist option \<Rightarrow> 'd store \<Rightarrow> handler \<Rightarrow>
    (team_call list \<times> mlist option \<times> 'd store \<times> handler) option" where
  "FilterMessages exact functor flags removed s h =
    (let backwards = (flags AND FILTER_REVERSE_FLAG \<noteq> 0); future = (flags AND FILTER_FUTURE_FLAG \<noteq> 0);
         now = (if future then 0 else exact); q = m_msgQueue h;
         action = (\<lambda>m. if future \<or> When (msgs s m) \<le> now then functor (msgs s m) else FILTER_KEEP);
         r = (case removed of None \<Rightarrow> MList_new | Some r \<Rightarrow> r) in
     Option.bind (filter_loop action backwards (if backwards then fTail q else fHead q) s q r) (\<lambda>(s, l, r).
       let (doSchedule, state, st) =
             (if fHead l \<noteq> fHead q then
                (if \<not> IsEmpty l then (let (d, st) = need_schedule (m_state h) in (d, 0, st))
                 else (False, m_state h, m_state h AND NOT ghScheduled))
              else (False, 0, m_state h));
           cs = (if doSchedule then [ScheduleHandler]
                 else if state AND ghScheduled \<noteq> 0 then [UnscheduleHandler] else []);
           h = \<lparr>m_msgQueue = l, m_state = st\<rparr>
       in (case removed of
             Some _ \<Rightarrow> Some (cs, Some r, s, h)
           | None \<Rightarrow> map_option (\<lambda>(s, _). (cs, None, s, h)) (MakeEmpty s r))))"

definition clear_func :: "u32 \<Rightarrow> 'd message \<Rightarrow> filter_action" where
  "clear_func w m = (if What m = w then FILTER_REMOVE else FILTER_KEEP)"

definition RemoveMessages where
  "RemoveMessages exact w flags removed s h = FilterMessages exact (clear_func w) flags removed s h"

definition RemoveAllMessages ::
  "mlist option \<Rightarrow> 'd store \<Rightarrow> handler \<Rightarrow> (team_call list \<times> mlist option \<times> 'd store \<times> handler) option" where
  "RemoveAllMessages out s h =
    Option.bind (Adopt s (case out of None \<Rightarrow> MList_new | Some r \<Rightarrow> r) (m_msgQueue h)) (\<lambda>(s, r, q).
      let cs = (if m_state h AND ghScheduled \<noteq> 0 then [UnscheduleHandler] else []);
          h = \<lparr>m_msgQueue = q, m_state = m_state h AND NOT ghScheduled\<rparr>
      in (case out of
            Some _ \<Rightarrow> Some (cs, Some r, s, h)
          | None \<Rightarrow> map_option (\<lambda>(s, _). (cs, None, s, h)) (MakeEmpty s r)))"

text \<open>
  \<open>handle\<close> is the subclass's \<^verbatim>\<open>HandleMessage\<close>: it sees the message and may post to the handler.
  Its status only decides about a message on the error stream.
\<close>

type_synonym 'd handle = "'d message \<Rightarrow> 'd store \<times> handler \<Rightarrow> 'd store \<times> handler"

definition dispatch_message ::
  "'d handle \<Rightarrow> 'd store \<Rightarrow> handler \<Rightarrow> (status_t \<times> 'd store \<times> handler) option" where
  "dispatch_message handle s h =
    map_option (\<lambda>(m, more, s, l).
      (let h = \<lparr>m_msgQueue = l, m_state = (if more then m_state h OR ghNeedSchedule else m_state h)\<rparr> in
       case m of
         None \<Rightarrow> (B_ERROR, s, h)
       | Some p \<Rightarrow> (let (s, h) = handle (msgs s p) (s, h) in (B_OK, Message_delete p s, h))))
    (DequeueMessage B_ANY_WHAT s (m_msgQueue h))"

partial_function (option) dispatch_loop ::
  "'d handle \<Rightarrow> 'd store \<Rightarrow> handler \<Rightarrow> ('d store \<times> handler) option" where
  "dispatch_loop handle s h =
    Option.bind (dispatch_message handle s h) (\<lambda>(r, s, h).
      if r = B_OK then dispatch_loop handle s h else Some (s, h))"

definition DispatchAllMessages ::
  "'d handle \<Rightarrow> 'd store \<Rightarrow> handler \<Rightarrow> (team_call list \<times> 'd store \<times> handler) option" where
  "DispatchAllMessages handle s h =
    (let (cs, h) = unschedule h
     in map_option (\<lambda>(s, h). (cs, s, h)) (dispatch_loop handle s h))"

section \<open>The flags as bits\<close>

lemma bit_pow: "k < 32 \<Longrightarrow> bit ((2 :: u32) ^ k) n \<longleftrightarrow> n = k"
  by (auto simp: bit_exp_iff)

lemma gh_bits [simp]:
  "bit ghCanSchedule n \<longleftrightarrow> n = 0" "bit ghScheduled n \<longleftrightarrow> n = 1" "bit ghNeedSchedule n \<longleftrightarrow> n = 2"
  "bit ghDying n \<longleftrightarrow> n = 3" "bit ghCalledSchedule n \<longleftrightarrow> n = 4"
  using bit_pow [of 0 n] bit_pow [of 1 n] bit_pow [of 2 n] bit_pow [of 3 n] bit_pow [of 4 n]
  by (simp_all add: gh_defs)

lemma masked_eq:
  fixes st :: u32
  assumes "\<forall>n. bit v n \<longrightarrow> bit mk n"
  shows "st AND mk = v \<longleftrightarrow> (\<forall>n. bit mk n \<longrightarrow> bit st n = bit v n)"
proof
  assume "st AND mk = v"
  then show "\<forall>n. bit mk n \<longrightarrow> bit st n = bit v n" by (auto simp: bit_simps)
next
  assume "\<forall>n. bit mk n \<longrightarrow> bit st n = bit v n"
  then show "st AND mk = v" using assms by (intro bit_eqI) (auto simp: bit_simps)
qed

abbreviation can :: "handler \<Rightarrow> bool" where "can h \<equiv> bit (m_state h) 0"
abbreviation scheduled :: "handler \<Rightarrow> bool" where "scheduled h \<equiv> bit (m_state h) 1"
abbreviation need :: "handler \<Rightarrow> bool" where "need h \<equiv> bit (m_state h) 2"
abbreviation dying :: "handler \<Rightarrow> bool" where "dying h \<equiv> bit (m_state h) 3"
abbreviation called :: "handler \<Rightarrow> bool" where "called h \<equiv> bit (m_state h) 4"

lemma flag_tests:
  "st AND (ghCanSchedule OR ghNeedSchedule OR ghCalledSchedule) = ghCanSchedule \<longleftrightarrow>
     bit st 0 \<and> \<not> bit st 2 \<and> \<not> bit st 4"
  "st AND (ghNeedSchedule OR ghCalledSchedule) = ghNeedSchedule \<longleftrightarrow> bit st 2 \<and> \<not> bit st 4"
  "st AND (ghCanSchedule OR ghNeedSchedule OR ghDying) = ghCanSchedule OR ghNeedSchedule \<longleftrightarrow>
     bit st 0 \<and> bit st 2 \<and> \<not> bit st 3"
  "st AND ghScheduled \<noteq> 0 \<longleftrightarrow> bit st 1"
  by (simp_all add: masked_eq bit_simps imp_disjL all_conj_distrib)

lemma need_schedule_bits:
  "fst (need_schedule st) \<longleftrightarrow> bit st 0 \<and> \<not> bit st 2 \<and> \<not> bit st 4"
  "bit (snd (need_schedule st)) n \<longleftrightarrow> bit st n \<or> n = 2 \<or> (n = 4 \<and> fst (need_schedule st))"
  by (auto simp: need_schedule_def flag_tests Let_def bit_simps)

section \<open>Posting\<close>

text \<open>A well-formed queue in time order whose messages are allocated.\<close>

definition queue_ok :: "'d store \<Rightarrow> mlist \<Rightarrow> ptr list \<Rightarrow> bool" where
  "queue_ok s q ms \<longleftrightarrow> mrep s q ms \<and> in_order s ms \<and> set ms \<subseteq> set (live s)"

text \<open>What a change of the queue tells the process: nothing, or what \<open>need_schedule\<close> decides.\<close>

definition notified :: "bool \<Rightarrow> handler \<Rightarrow> handler \<Rightarrow> team_call list \<Rightarrow> bool" where
  "notified b h h' cs \<longleftrightarrow>
     (if b then cs = calls (fst (need_schedule (m_state h))) \<and> m_state h' = snd (need_schedule (m_state h))
      else cs = [] \<and> m_state h' = m_state h)"

lemma calls_simps [simp]: "calls False = []" "calls True = [ScheduleHandler]"
  by (simp_all add: calls_def)

lemma due_copy [simp]:
  assumes "p \<notin> set ms" "msgs t = (msgs s)(p := x)"
  shows "due t T ms = due s T ms" "after t T ms = after s T ms" "in_order t ms = in_order s ms"
proof -
  have same: "whn t q = whn s q" if "q \<in> set ms" for q using assms that by auto
  then show "due t T ms = due s T ms" "after t T ms = after s T ms"
    by (auto simp: due_def after_def intro!: filter_cong)
  show "in_order t ms = in_order s ms"
    unfolding in_order_def using same by (metis (no_types, lifting) sorted_wrt_mono_rel)
qed

lemma post_plain:
  assumes ok: "queue_ok s (m_msgQueue h) ms" and new: "p \<notin> set (live s)"
    and flags: "flags AND (POST_REMOVE_DUPLICATES OR POST_KEEP_UNIQUE) = 0"
    and T: "T = (if time \<le> 0 then now else time)"
  shows "\<exists>cs s' h'. Handler_EnqueueMessage now (Some p) im time flags s h = Some (B_OK, cs, s', h') \<and>
    queue_ok s' (m_msgQueue h') (due s T ms @ p # after s T ms) \<and> notified (due s T ms = []) h h' cs \<and>
    msgs s' = (msgs s)(p := stamped im T) \<and> live s' = p # live s"
proof -
  let ?s = "SetWhen p time (Message_copy p im s)"
  have pm: "p \<notin> set ms" using ok new by (auto simp: queue_ok_def)
  have msgs1: "msgs ?s = (msgs s)(p := stamped im time)" by (simp add: edits stamped_def)
  note dc = due_copy [OF pm msgs1]
  have q: "mrep ?s (m_msgQueue h) ms" "in_order ?s ms" "loose ?s p" "whn ?s p = time"
    using ok pm dc by (simp_all add: queue_ok_def edits)
  have T': "T = (if whn ?s p \<le> 0 then now else whn ?s p)" using T q(4) by simp
  obtain t l' where e: "EnqueueMessage now p ?s (m_msgQueue h) = Some (t, l')"
    "mrep t l' (due s T ms @ p # after s T ms)" "in_order t (due s T ms @ p # after s T ms)"
    "msgs t = (msgs ?s)(p := (msgs ?s p)\<lparr>When := T\<rparr>)" "live t = live ?s"
    using EnqueueMessage_spec [OF q(1,2) pm q(3) T'] unfolding dc by blast
  have msgs2: "msgs t = (msgs s)(p := stamped im T)" using e(4) msgs1 by (simp add: stamped_def)
  have live2: "live t = p # live s" using e(5) by (simp add: edits)
  have head: "fHead l' = Some p \<longleftrightarrow> due s T ms = []"
    using e(2) pm by (cases "due s T ms") (auto simp: mrep_def due_def dest: arg_cong [of _ _ set])
  have "queue_ok t l' (due s T ms @ p # after s T ms)"
    using e(2,3) ok live2 by (auto simp: queue_ok_def due_def after_def)
  then show ?thesis
    using flags e(1) msgs2 live2 head
    by (auto simp: Handler_EnqueueMessage_def notified_def case_prod_unfold Let_def)
qed

text \<open>The second half of \<open>enqueue_unique_message\<close>, once the queue has been edited.\<close>

definition after_dedup :: "'d enqueued \<Rightarrow> handler \<Rightarrow> (status_t \<times> team_call list \<times> 'd store \<times> handler) option" where
  "after_dedup e h =
    (let (doSchedule, st) =
           (if fHead (equeue e) = emsg e \<and> emsg e \<noteq> None then need_schedule (m_state h) else (False, m_state h))
     in map_option (\<lambda>(s, _).
          (if emsg e \<noteq> None then B_OK else B_NO_MEMORY, calls doSchedule, s,
           \<lparr>m_msgQueue = equeue e, m_state = st\<rparr>))
        (MakeEmpty (est e) (outRemoved e)))"

lemma enqueue_unique_after:
  "enqueue_unique_message now fresh im time flags s h =
    Option.bind (if flags AND POST_REMOVE_DUPLICATES \<noteq> 0
        then EnqueueMessageRemoveDups now fresh im time s (m_msgQueue h) MList_new
        else EnqueueUniqueMessage now fresh im time s (m_msgQueue h) MList_new) (\<lambda>e. after_dedup e h)"
  by (simp add: enqueue_unique_message_def after_dedup_def)

lemma after_dedup_none:
  assumes "emsg e = None" "est e = s" "equeue e = m_msgQueue h" "outRemoved e = MList_new"
  shows "after_dedup e h = Some (B_NO_MEMORY, [], s, h)"
  using assms
  by (cases h) (simp add: after_dedup_def MakeEmpty_def MList_new_def empty_loop.simps)

lemma after_dedup_some:
  assumes two: "two (est e) (equeue e) ms (outRemoved e) ds" and ord: "in_order (est e) ms"
    and m: "emsg e = Some m" "m \<in> set ms" and lv: "set ms \<subseteq> set (live (est e))"
  shows "\<exists>cs s' h'. after_dedup e h = Some (B_OK, cs, s', h') \<and> queue_ok s' (m_msgQueue h') ms \<and>
    notified (hd ms = m) h h' cs \<and> msgs s' = msgs (est e) \<and>
    live s' = filter (\<lambda>p. p \<notin> set ds) (live (est e))"
proof -
  have "two (est e) (outRemoved e) ds (equeue e) ms" using two by (auto simp: two_def)
  from Adopt_spec [OF this] obtain t where
    t: "MakeEmpty (est e) (outRemoved e) = Some (t, MList_new)" "mrep t (equeue e) ms"
    "msgs t = msgs (est e)" "live t = filter (\<lambda>p. p \<notin> set ds) (live (est e))"
    by blast
  have "fHead (equeue e) = Some m \<longleftrightarrow> hd ms = m"
    using two m by (cases ms) (auto simp: two_def mrep_def)
  moreover have "queue_ok t (equeue e) ms"
    using t ord two lv by (auto simp: queue_ok_def in_order_def two_def)
  ultimately show ?thesis
    using t m by (auto simp: after_dedup_def notified_def case_prod_unfold Let_def)
qed

lemma dedup_set: "set (dedup s w T ms m) \<subseteq> insert m (set ms)" "m \<in> set (dedup s w T ms m)"
  by (auto simp: dedup_def due_def after_def)

text \<open>The message that carries the post, with the option to remove duplicates.\<close>

definition dups_target :: "'d store \<Rightarrow> u32 \<Rightarrow> int \<Rightarrow> ptr list \<Rightarrow> ptr option" where
  "dups_target s w t ms =
     (if after s t ms \<noteq> [] \<and> what s (hd (after s t ms)) = w then Some (hd (after s t ms)) else None)"

lemma queue_two: "queue_ok s q ms \<Longrightarrow> two s q ms MList_new []"
  by (simp add: queue_ok_def two_def)

lemma dups_target_after:
  assumes "queue_ok s q ms" "dups_target s w t ms = Some m"
  shows "m \<in> set ms" "m \<notin> set (due s t ms)"
  using assms list.set_sel(1) [of "after s t ms"]
  by (auto simp: dups_target_def after_def due_def split: if_splits)

lemma post_dups:
  fixes s :: "'d store"
  assumes ok: "queue_ok s (m_msgQueue h) ms" and new: "\<forall>p. fresh = Some p \<longrightarrow> p \<notin> set (live s)"
    and flags: "flags AND POST_REMOVE_DUPLICATES \<noteq> 0"
    and T: "T = (if time \<le> 0 then now else time)" and w: "w = What im"
  shows "case (case dups_target s w T ms of Some m \<Rightarrow> Some m | None \<Rightarrow> fresh) of
      None \<Rightarrow> enqueue_unique_message now fresh im time flags s h = Some (B_NO_MEMORY, [], s, h)
    | Some m \<Rightarrow> \<exists>cs s' h'. enqueue_unique_message now fresh im time flags s h = Some (B_OK, cs, s', h') \<and>
        queue_ok s' (m_msgQueue h') (dedup s w T ms m) \<and> notified (hd (dedup s w T ms m) = m) h h' cs \<and>
        msgs s' = (msgs s)(m := stamped im T) \<and>
        set (live s') = insert m (set (live s) - {p \<in> set ms. what s p = w})"
proof -
  have new': "\<forall>p. fresh = Some p \<longrightarrow> p \<notin> set ms \<and> p \<notin> set []"
    using ok new by (auto simp: queue_ok_def)
  have ord: "in_order s ms" and lv: "set ms \<subseteq> set (live s)" using ok by (simp_all add: queue_ok_def)
  define r where "r = dups_target s w T ms"
  define g where "g = (case r of Some m \<Rightarrow> Some m | None \<Rightarrow> fresh)"
  have reuse: "r \<noteq> None \<longleftrightarrow> after s T ms \<noteq> [] \<and> what s (hd (after s T ms)) = w"
    by (simp add: r_def dups_target_def)
  have target: "(if r \<noteq> None then Some (hd (after s T ms)) else fresh) = g"
    by (auto simp: g_def r_def dups_target_def)
  obtain e where e: "EnqueueMessageRemoveDups now fresh im time s (m_msgQueue h) MList_new = Some e"
    "emsg e = g" "emsg e = None \<longrightarrow> est e = s \<and> equeue e = m_msgQueue h \<and> outRemoved e = MList_new"
    "\<forall>m. emsg e = Some m \<longrightarrow>
       two (est e) (equeue e) (dedup s w T ms m) (outRemoved e)
         (filter (\<lambda>p. what s p = w) (due s T ms) @ [] @ filter (\<lambda>p. what s p = w \<and> p \<noteq> m) (after s T ms)) \<and>
       in_order (est e) (dedup s w T ms m) \<and> msgs (est e) = (msgs s)(m := stamped im T) \<and>
       live (est e) = (if r \<noteq> None then live s else m # live s)"
    using EnqueueMessageRemoveDups_spec [OF queue_two [OF ok] ord new' T w]
    unfolding reuse [symmetric] target by (elim exE conjE) (rule that; assumption)
  have eu: "enqueue_unique_message now fresh im time flags s h = after_dedup e h"
    using flags e(1) by (simp add: enqueue_unique_after)
  show ?thesis
  proof (cases g)
    case None
    then show ?thesis using e(2,3) after_dedup_none [of e s h] eu by (simp add: g_def r_def)
  next
    case (Some m)
    let ?D = "filter (\<lambda>p. what s p = w) (due s T ms) @ [] @ filter (\<lambda>p. what s p = w \<and> p \<noteq> m) (after s T ms)"
    note em = e(4) [rule_format, OF e(2) [unfolded Some]]
    have m: "m \<notin> set (due s T ms)" "r \<noteq> None \<longrightarrow> m \<in> set ms"
      using Some new' dups_target_after [OF ok] by (auto simp: g_def r_def due_def split: option.splits)
    then have "set (dedup s w T ms m) \<subseteq> set (live (est e))"
      using dedup_set(1) [of s w T ms m] lv em by (auto split: if_splits)
    from after_dedup_some [OF _ _ _ dedup_set(2) this, of ?D h] em e(2) Some obtain cs s' h' where
      r: "after_dedup e h = Some (B_OK, cs, s', h')" "queue_ok s' (m_msgQueue h') (dedup s w T ms m)"
      "notified (hd (dedup s w T ms m) = m) h h' cs" "msgs s' = msgs (est e)"
      "live s' = filter (\<lambda>p. p \<notin> set ?D) (live (est e))" by auto
    have "set (live s') = insert m (set (live s) - {p \<in> set ms. what s p = w})"
      using r(5) em m lv due_after_set [of s T ms] by (auto split: if_splits)
    then show ?thesis using Some r em eu by (simp add: g_def r_def)
  qed
qed

text \<open>The same with the option to keep one message of the code.\<close>

lemma post_unique:
  fixes s :: "'d store"
  assumes ok: "queue_ok s (m_msgQueue h) ms" and new: "\<forall>p. fresh = Some p \<longrightarrow> p \<notin> set (live s)"
    and flags: "flags AND POST_REMOVE_DUPLICATES = 0"
    and T: "T = (if time \<le> 0 then now else time)" and w: "w = What im"
  defines "res \<equiv> enqueue_unique_message now fresh im time flags s h"
  shows "case unique_target s w T ms of
      Some m \<Rightarrow> \<exists>cs s' h'. res = Some (B_OK, cs, s', h') \<and>
        queue_ok s' (m_msgQueue h') (filter (\<lambda>p. what s p \<noteq> w \<or> p = m) ms) \<and>
        notified (hd (filter (\<lambda>p. what s p \<noteq> w \<or> p = m) ms) = m) h h' cs \<and>
        msgs s' = (msgs s)(m := repurposed im (msgs s m)) \<and>
        set (live s') = set (live s) - {p \<in> set ms. what s p = w \<and> p \<noteq> m}
    | None \<Rightarrow>
       (case fresh of
          None \<Rightarrow> res = Some (B_NO_MEMORY, [], s, h)
        | Some p \<Rightarrow> \<exists>cs s' h'. res = Some (B_OK, cs, s', h') \<and>
            queue_ok s' (m_msgQueue h') (dedup s w T ms p) \<and> notified (hd (dedup s w T ms p) = p) h h' cs \<and>
            msgs s' = (msgs s)(p := stamped im T) \<and>
            set (live s') = insert p (set (live s) - {q \<in> set ms. what s q = w}))"
proof -
  have new': "\<forall>p. fresh = Some p \<longrightarrow> p \<notin> set ms \<and> p \<notin> set []"
    using ok new by (auto simp: queue_ok_def)
  have ord: "in_order s ms" and lv: "set ms \<subseteq> set (live s)" using ok by (simp_all add: queue_ok_def)
  from EnqueueUniqueMessage_spec [OF queue_two [OF ok] ord new' T w]
  obtain e where e: "EnqueueUniqueMessage now fresh im time s (m_msgQueue h) MList_new = Some e"
    and E: "case unique_target s w T ms of
       Some m \<Rightarrow> emsg e = Some m \<and> outPrevData e = Some (Data (msgs s m)) \<and>
         two (est e) (equeue e) (filter (\<lambda>p. what s p \<noteq> w \<or> p = m) ms)
           (outRemoved e) ([] @ filter (\<lambda>p. what s p = w \<and> p \<noteq> m) ms) \<and>
         in_order (est e) (filter (\<lambda>p. what s p \<noteq> w \<or> p = m) ms) \<and>
         msgs (est e) = (msgs s)(m := repurposed im (msgs s m)) \<and> live (est e) = live s
     | None \<Rightarrow> emsg e = fresh \<and> outPrevData e = None \<and>
         (fresh = None \<longrightarrow> est e = s \<and> equeue e = m_msgQueue h \<and> outRemoved e = MList_new) \<and>
         (\<forall>p. fresh = Some p \<longrightarrow>
            two (est e) (equeue e) (dedup s w T ms p) (outRemoved e) ([] @ filter (\<lambda>p. what s p = w) ms) \<and>
            in_order (est e) (dedup s w T ms p) \<and>
            msgs (est e) = (msgs s)(p := stamped im T) \<and> live (est e) = p # live s)"
    by (elim exE conjE) (rule that; assumption)
  have eu: "res = after_dedup e h" using flags e by (simp add: res_def enqueue_unique_after)
  show ?thesis
  proof (cases "unique_target s w T ms")
    case (Some m)
    note em = E [unfolded Some option.case]
    have "m \<in> set ms" using unique_target_Some [OF Some ord] by fastforce
    then have "m \<in> set (filter (\<lambda>p. what s p \<noteq> w \<or> p = m) ms)"
      "set (filter (\<lambda>p. what s p \<noteq> w \<or> p = m) ms) \<subseteq> set (live (est e))"
      using lv em by auto
    from after_dedup_some [OF _ _ _ this, of "[] @ filter (\<lambda>p. what s p = w \<and> p \<noteq> m) ms" h] em
    show ?thesis using Some eu by auto
  next
    case None
    note em = E [unfolded None option.case]
    show ?thesis
    proof (cases fresh)
      case fn: None
      then show ?thesis using em None after_dedup_none [of e s h] eu by simp
    next
      case fs: (Some p)
      then have "set (dedup s w T ms p) \<subseteq> set (live (est e))"
        using dedup_set(1) [of s w T ms p] lv em by auto
      from after_dedup_some [OF _ _ _ dedup_set(2) this, of "[] @ filter (\<lambda>p. what s p = w) ms" h] em fs
      show ?thesis using None eu new' by auto
    qed
  qed
qed

lemma post_flags:
  "Handler_EnqueueMessage now fresh im time POST_REMOVE_DUPLICATES s h =
     enqueue_unique_message now fresh im time POST_REMOVE_DUPLICATES s h"
  "Handler_EnqueueMessage now fresh im time POST_KEEP_UNIQUE s h =
     enqueue_unique_message now fresh im time POST_KEEP_UNIQUE s h"
  by (simp_all add: Handler_EnqueueMessage_def POST_REMOVE_DUPLICATES_def POST_KEEP_UNIQUE_def)

lemma flag_values [simp]:
  "POST_REMOVE_DUPLICATES \<noteq> 0" "POST_KEEP_UNIQUE AND POST_REMOVE_DUPLICATES = 0"
  by (simp_all add: POST_REMOVE_DUPLICATES_def POST_KEEP_UNIQUE_def)

text \<open>
  Posting a plain message returns \<open>B_OK\<close> with the message behind all messages due no later and before
  all later ones, so equal times keep the order of posting; the process is told only if the message became
  the head of the queue. Without memory the call returns \<open>B_NO_MEMORY\<close> and changes nothing.
\<close>

lemma handler_post:
  fixes s :: "'d store"
  assumes ok: "queue_ok s (m_msgQueue h) ms" and new: "\<forall>p. fresh = Some p \<longrightarrow> p \<notin> set (live s)"
    and T: "T = (if time \<le> 0 then now else time)"
  shows "case fresh of
      None \<Rightarrow> Handler_EnqueueMessage now fresh im time 0 s h = Some (B_NO_MEMORY, [], s, h)
    | Some p \<Rightarrow> \<exists>cs s' h'. Handler_EnqueueMessage now fresh im time 0 s h = Some (B_OK, cs, s', h') \<and>
        queue_ok s' (m_msgQueue h') (due s T ms @ p # after s T ms) \<and> notified (due s T ms = []) h h' cs \<and>
        msgs s' = (msgs s)(p := stamped im T) \<and> live s' = p # live s"
proof (cases fresh)
  case None
  then show ?thesis by (simp add: Handler_EnqueueMessage_def)
next
  case (Some p)
  then show ?thesis using post_plain [OF ok _ _ T, of p 0 im] new by simp
qed

text \<open>
  Posting with \<open>POST_REMOVE_DUPLICATES\<close> leaves exactly one message of the code, at the requested time
  and with the posted contents, deletes all the others, and keeps every message of another code;
  without memory nothing changes.
\<close>

lemma handler_post_remove_duplicates:
  fixes s :: "'d store"
  assumes ok: "queue_ok s (m_msgQueue h) ms" and new: "\<forall>p. fresh = Some p \<longrightarrow> p \<notin> set (live s)"
    and T: "T = (if time \<le> 0 then now else time)" and w: "w = What im"
  shows "case (case dups_target s w T ms of Some m \<Rightarrow> Some m | None \<Rightarrow> fresh) of
      None \<Rightarrow> Handler_EnqueueMessage now fresh im time POST_REMOVE_DUPLICATES s h = Some (B_NO_MEMORY, [], s, h)
    | Some m \<Rightarrow> \<exists>cs s' h'.
        Handler_EnqueueMessage now fresh im time POST_REMOVE_DUPLICATES s h = Some (B_OK, cs, s', h') \<and>
        queue_ok s' (m_msgQueue h') (dedup s w T ms m) \<and> notified (hd (dedup s w T ms m) = m) h h' cs \<and>
        msgs s' = (msgs s)(m := stamped im T) \<and>
        set (live s') = insert m (set (live s) - {p \<in> set ms. what s p = w})"
  unfolding post_flags using post_dups [OF ok new _ T w, of POST_REMOVE_DUPLICATES] by simp

text \<open>
  Posting with \<open>POST_KEEP_UNIQUE\<close>: the first message of the code that is due by the requested time, or the
  next one after it if it has the code, takes the new data and priority and keeps its time; otherwise a new
  message is added at the requested time. All other messages of the code are deleted, and those of other
  codes are kept.
\<close>

lemma handler_post_keep_unique:
  fixes s :: "'d store"
  assumes ok: "queue_ok s (m_msgQueue h) ms" and new: "\<forall>p. fresh = Some p \<longrightarrow> p \<notin> set (live s)"
    and T: "T = (if time \<le> 0 then now else time)" and w: "w = What im"
  defines "res \<equiv> Handler_EnqueueMessage now fresh im time POST_KEEP_UNIQUE s h"
  shows "case unique_target s w T ms of
      Some m \<Rightarrow> \<exists>cs s' h'. res = Some (B_OK, cs, s', h') \<and>
        queue_ok s' (m_msgQueue h') (filter (\<lambda>p. what s p \<noteq> w \<or> p = m) ms) \<and>
        notified (hd (filter (\<lambda>p. what s p \<noteq> w \<or> p = m) ms) = m) h h' cs \<and>
        msgs s' = (msgs s)(m := repurposed im (msgs s m)) \<and>
        set (live s') = set (live s) - {p \<in> set ms. what s p = w \<and> p \<noteq> m}
    | None \<Rightarrow>
       (case fresh of
          None \<Rightarrow> res = Some (B_NO_MEMORY, [], s, h)
        | Some p \<Rightarrow> \<exists>cs s' h'. res = Some (B_OK, cs, s', h') \<and>
            queue_ok s' (m_msgQueue h') (dedup s w T ms p) \<and> notified (hd (dedup s w T ms p) = p) h h' cs \<and>
            msgs s' = (msgs s)(p := stamped im T) \<and>
            set (live s') = insert p (set (live s) - {q \<in> set ms. what s q = w}))"
  unfolding res_def post_flags using post_unique [OF ok new _ T w, of POST_KEEP_UNIQUE] by simp

section \<open>Filtering\<close>

text \<open>What a filter keeps and removes, in the order in which it meets the messages.\<close>

fun filt :: "(ptr \<Rightarrow> filter_action) \<Rightarrow> ptr list \<Rightarrow> ptr list \<times> ptr list" where
  "filt a [] = ([], [])"
| "filt a (m # ms) =
    (case a m of
       FILTER_STOP \<Rightarrow> (m # ms, [])
     | FILTER_KEEP \<Rightarrow> (m # fst (filt a ms), snd (filt a ms))
     | FILTER_REMOVE \<Rightarrow> (fst (filt a ms), m # snd (filt a ms)))"

lemma filt_sets: "set (fst (filt a ms)) \<subseteq> set ms" "set (snd (filt a ms)) \<subseteq> set ms"
  by (induction ms) (auto split: filter_action.splits)

lemma filt_in_order: "in_order s ms \<Longrightarrow> in_order s (fst (filt a ms))"
  using filt_sets by (induction ms) (fastforce simp: in_order_def split: filter_action.splits)+

lemma filt_no_stop:
  "\<forall>m \<in> set ms. a m \<noteq> FILTER_STOP \<Longrightarrow>
    filt a ms = (filter (\<lambda>m. a m \<noteq> FILTER_REMOVE) ms, filter (\<lambda>m. a m = FILTER_REMOVE) ms)"
  by (induction ms) (auto split: filter_action.splits)

lemma filter_forward:
  fixes s :: "'d store"
  assumes "two s l (xs @ ys) r ds"
  shows "\<exists>t l' r'. filter_loop a False (first_or ys None) s l r = Some (t, l', r') \<and>
    two t l' (xs @ fst (filt a ys)) r' (rev (snd (filt a ys)) @ ds) \<and>
    untouched (set (xs @ ys) \<union> set ds) s t"
  using assms
proof (induction ys arbitrary: s l r xs ds)
  case Nil
  then show ?case by (simp add: filter_loop.simps untouched_def)
next
  case (Cons m ys)
  note nxt = two_next [OF Cons.prems]
  show ?case
  proof (cases "a m")
    case FILTER_STOP
    then show ?thesis using Cons.prems by (simp add: filter_loop.simps [of a False "Some m"] untouched_def)
  next
    case FILTER_KEEP
    then show ?thesis
      using Cons.IH [of s l "xs @ [m]" r ds] Cons.prems nxt
      by (auto simp: filter_loop.simps [of a False "Some m"])
  next
    case FILTER_REMOVE
    obtain b s1 l1 where 1: "Remove m s l = (b, s1, l1)" by (metis prod_cases3)
    obtain s2 r1 where 2: "AddHead m s1 r = (s2, r1)" by fastforce
    note mv = move_head [OF Cons.prems 1 2]
    obtain t l' r' where t: "filter_loop a False (first_or ys None) s2 l1 r1 = Some (t, l', r')"
      "two t l' (xs @ fst (filt a ys)) r' (rev (snd (filt a ys)) @ m # ds)"
      "untouched (set (xs @ ys) \<union> set (m # ds)) s2 t"
      using Cons.IH [of s2 l1 xs r1 "m # ds"] mv by blast
    have "untouched (set (xs @ m # ys) \<union> set ds) s t"
      by (rule untouched_trans [OF conjunct2 [OF mv] t(3)]) auto
    then show ?thesis
      using FILTER_REMOVE nxt 1 2 t(1,2) by (simp add: filter_loop.simps [of a False "Some m"])
  qed
qed

lemma filter_backward:
  fixes s :: "'d store"
  assumes "two s l (xs @ ys) r ds"
  shows "\<exists>t l' r'. filter_loop a True (last_or None xs) s l r = Some (t, l', r') \<and>
    two t l' (rev (fst (filt a (rev xs))) @ ys) r' (ds @ snd (filt a (rev xs))) \<and>
    untouched (set (xs @ ys) \<union> set ds) s t"
  using assms
proof (induction xs arbitrary: s l r ys ds rule: rev_induct)
  case Nil
  then show ?case by (simp add: filter_loop.simps untouched_def)
next
  case (snoc m xs)
  have two: "two s l (xs @ m # ys) r ds" using snoc.prems by simp
  note prv = two_prev [OF two]
  show ?case
  proof (cases "a m")
    case FILTER_STOP
    then show ?thesis using snoc.prems by (simp add: filter_loop.simps [of a True "Some m"] untouched_def)
  next
    case FILTER_KEEP
    then show ?thesis
      using snoc.IH [of s l "m # ys" r ds] two prv
      by (auto simp: filter_loop.simps [of a True "Some m"])
  next
    case FILTER_REMOVE
    obtain b s1 l1 where 1: "Remove m s l = (b, s1, l1)" by (metis prod_cases3)
    obtain s2 r1 where 2: "AddTail m s1 r = (s2, r1)" by fastforce
    note mv = move_tail [OF two 1 2]
    obtain t l' r' where t: "filter_loop a True (last_or None xs) s2 l1 r1 = Some (t, l', r')"
      "two t l' (rev (fst (filt a (rev xs))) @ ys) r' ((ds @ [m]) @ snd (filt a (rev xs)))"
      "untouched (set (xs @ ys) \<union> set (ds @ [m])) s2 t"
      using snoc.IH [of s2 l1 ys r1 "ds @ [m]"] mv by blast
    have "untouched (set (xs @ m # ys) \<union> set ds) s t"
      by (rule untouched_trans [OF conjunct2 [OF mv] t(3)]) auto
    then show ?thesis
      using FILTER_REMOVE prv 1 2 t(1,2) by (simp add: filter_loop.simps [of a True "Some m"])
  qed
qed

text \<open>The result of a filter over the whole queue, in queue order.\<close>

definition filtered :: "bool \<Rightarrow> (ptr \<Rightarrow> filter_action) \<Rightarrow> ptr list \<Rightarrow> ptr list \<times> ptr list" where
  "filtered backwards a ms =
     (if backwards then (rev (fst (filt a (rev ms))), snd (filt a (rev ms)))
      else (fst (filt a ms), rev (snd (filt a ms))))"

lemma in_order_rev_filt:
  assumes "in_order s ms"
  shows "in_order s (rev (fst (filt a (rev ms))))"
proof -
  have "sorted_wrt (\<lambda>p q. whn s q \<le> whn s p) xs \<Longrightarrow> sorted_wrt (\<lambda>p q. whn s q \<le> whn s p) (fst (filt a xs))" for xs
    using filt_sets by (induction xs) (fastforce split: filter_action.splits)+
  then show ?thesis using assms by (simp add: in_order_def sorted_wrt_rev)
qed

lemma filtered_facts:
  "in_order s ms \<Longrightarrow> in_order s (fst (filtered b a ms))"
  "set (fst (filtered b a ms)) \<subseteq> set ms" "set (snd (filtered b a ms)) \<subseteq> set ms"
  using filt_sets [of a ms] filt_sets [of a "rev ms"]
  by (auto simp: filtered_def filt_in_order in_order_rev_filt)

lemma filter_queue:
  fixes s :: "'d store"
  assumes two: "two s q ms r []"
  shows "\<exists>t l' r'. filter_loop a b (if b then fTail q else fHead q) s q r = Some (t, l', r') \<and>
    two t l' (fst (filtered b a ms)) r' (snd (filtered b a ms)) \<and> msgs t = msgs s \<and> live t = live s"
proof -
  have ends: "fTail q = last_or None ms" "fHead q = first_or ms None"
    using two by (simp_all add: two_def mrep_def)
  show ?thesis
  proof (cases b)
    case True
    obtain t l' r' where t: "filter_loop a True (last_or None ms) s q r = Some (t, l', r')"
      "two t l' (rev (fst (filt a (rev ms))) @ []) r' ([] @ snd (filt a (rev ms)))"
      "untouched (set (ms @ []) \<union> set []) s t"
      using filter_backward [of s q ms "[]" r "[]" a] two by auto
    then show ?thesis
      using True ends untouched_msgs [OF t(3)] by (simp add: filtered_def)
  next
    case False
    obtain t l' r' where t: "filter_loop a False (first_or ms None) s q r = Some (t, l', r')"
      "two t l' ([] @ fst (filt a ms)) r' (rev (snd (filt a ms)) @ [])"
      "untouched (set ([] @ ms) \<union> set []) s t"
      using filter_forward [of s q "[]" ms r "[]" a] two by auto
    then show ?thesis
      using False ends untouched_msgs [OF t(3)] by (simp add: filtered_def)
  qed
qed

text \<open>How the filter judges a message: one that is not due yet is kept unless the flags include the future.\<close>

definition judge :: "int \<Rightarrow> ('d message \<Rightarrow> filter_action) \<Rightarrow> u32 \<Rightarrow> 'd store \<Rightarrow> ptr \<Rightarrow> filter_action" where
  "judge exact f flags s m =
    (if flags AND FILTER_FUTURE_FLAG \<noteq> 0 \<or> whn s m \<le> exact then f (msgs s m) else FILTER_KEEP)"

text \<open>
  \<open>FilterMessages\<close> without a list for the removed messages ends and keeps exactly the messages the
  filter keeps, in time order, from either end and with an early stop; the removed ones are deleted. If the head
  changed, the process is asked to schedule the handler, or to unschedule it when the queue became empty.
\<close>

lemma handler_filter:
  fixes s :: "'d store" and flags :: u32 and exact :: int and f :: "'d message \<Rightarrow> filter_action"
  assumes ok: "queue_ok s (m_msgQueue h) ms"
  defines "k \<equiv> filtered (flags AND FILTER_REVERSE_FLAG \<noteq> 0) (judge exact f flags s) ms"
  shows "\<exists>cs s' h'. FilterMessages exact f flags None s h = Some (cs, None, s', h') \<and>
    queue_ok s' (m_msgQueue h') (fst k) \<and> msgs s' = msgs s \<and>
    set (live s') = set (live s) - set (snd k) \<and>
    (if first_or (fst k) None = first_or ms None then cs = [] \<and> m_state h' = m_state h
     else if fst k \<noteq> [] then notified True h h' cs
     else m_state h' = m_state h AND NOT ghScheduled \<and> cs = (if scheduled h then [UnscheduleHandler] else []))"
proof -
  let ?b = "flags AND FILTER_REVERSE_FLAG \<noteq> 0" and ?q = "m_msgQueue h"
  have act: "(\<lambda>m. if flags AND FILTER_FUTURE_FLAG \<noteq> 0 \<or> whn s m \<le> (if flags AND FILTER_FUTURE_FLAG \<noteq> 0 then 0 else exact)
      then f (msgs s m) else FILTER_KEEP) = judge exact f flags s"
    by (auto simp: judge_def)
  obtain t l' r' where t:
    "filter_loop (judge exact f flags s) ?b (if ?b then fTail ?q else fHead ?q) s ?q MList_new = Some (t, l', r')"
    "two t l' (fst k) r' (snd k)" "msgs t = msgs s" "live t = live s"
    using filter_queue [OF queue_two [OF ok], of "judge exact f flags s" ?b] by (auto simp: k_def)
  have "two t r' (snd k) l' (fst k)" using t(2) by (auto simp: two_def)
  from Adopt_spec [OF this] obtain u where u: "MakeEmpty t r' = Some (u, MList_new)" "mrep u l' (fst k)"
    "msgs u = msgs t" "live u = filter (\<lambda>p. p \<notin> set (snd k)) (live t)"
    by blast
  have heads: "fHead l' = first_or (fst k) None" "fHead ?q = first_or ms None"
    using t(2) ok by (simp_all add: two_def mrep_def queue_ok_def)
  have disj: "set (fst k) \<inter> set (snd k) = {}" using t(2) by (simp add: two_def)
  have "queue_ok u l' (fst k)"
    using u t ok disj filtered_facts(1) [of s ms ?b "judge exact f flags s"]
      filtered_facts(2) [of ?b "judge exact f flags s" ms]
    by (auto simp: queue_ok_def in_order_def k_def)
  moreover have "IsEmpty l' \<longleftrightarrow> fst k = []"
    using heads by (simp add: IsEmpty_def first_or_eq)
  ultimately show ?thesis
    using t(1,3,4) u heads unfolding FilterMessages_def Let_def act
    by (auto simp: notified_def flag_tests case_prod_unfold)
qed

text \<open>\<open>RemoveMessages\<close> never stops, so both directions keep the same messages.\<close>

lemma clear_func_keeps:
  "fst (filtered b (judge exact (clear_func w) flags s) ms) =
     filter (\<lambda>m. \<not> (what s m = w \<and> (flags AND FILTER_FUTURE_FLAG \<noteq> 0 \<or> whn s m \<le> exact))) ms"
proof -
  have "judge exact (clear_func w) flags s m \<noteq> FILTER_STOP" for m
    by (simp add: judge_def clear_func_def)
  moreover have "judge exact (clear_func w) flags s m \<noteq> FILTER_REMOVE \<longleftrightarrow>
      \<not> (what s m = w \<and> (flags AND FILTER_FUTURE_FLAG \<noteq> 0 \<or> whn s m \<le> exact))" for m
    by (auto simp: judge_def clear_func_def)
  ultimately show ?thesis by (simp add: filtered_def filt_no_stop rev_filter)
qed

section \<open>A concrete handler\<close>

definition demo_handler :: handler where
  "demo_handler = \<lparr>m_msgQueue = demo_list, m_state = ghCanSchedule OR ghScheduled\<rparr>"

lemma demo_queue: "queue_ok demo_store (m_msgQueue demo_handler) [1, 2, 3]"
  using demo_facts by (simp add: queue_ok_def demo_handler_def) (simp add: demo_store_def)

text \<open>A message for time 5 becomes the head, so the process is called.\<close>

lemma handler_post_example:
  "\<exists>s' h'. Handler_EnqueueMessage 1 (Some 9) demo_msg 5 0 demo_store demo_handler =
      Some (B_OK, [ScheduleHandler], s', h') \<and> queue_ok s' (m_msgQueue h') [9, 1, 2, 3]"
proof -
  have d: "due demo_store 5 [1, 2, 3] = []" "after demo_store 5 [1, 2, 3] = [1, 2, 3]"
    by (simp_all add: due_def after_def demo_store_def)
  have "9 \<notin> set (live demo_store)" by (simp add: demo_store_def)
  moreover have "fst (need_schedule (m_state demo_handler))"
    by (simp add: need_schedule_bits demo_handler_def bit_simps)
  ultimately show ?thesis
    using handler_post [OF demo_queue, of "Some 9" 5 5 1 demo_msg] d by (auto simp: notified_def)
qed

lemma handler_post_remove_duplicates_example:
  "\<exists>cs s' h'. Handler_EnqueueMessage 1 (Some 9) demo_msg 15 POST_REMOVE_DUPLICATES demo_store demo_handler =
      Some (B_OK, cs, s', h') \<and> queue_ok s' (m_msgQueue h') [9, 2] \<and> set (live s') = {9, 2, 4}"
proof -
  have d: "due demo_store 15 [1, 2, 3] = [1]" "after demo_store 15 [1, 2, 3] = [2, 3]"
    by (simp_all add: due_def after_def demo_store_def)
  then have "dups_target demo_store 7 15 [1, 2, 3] = None" "dedup demo_store 7 15 [1, 2, 3] 9 = [9, 2]"
    by (simp_all add: dups_target_def dedup_def demo_store_def)
  moreover have "insert 9 (set (live demo_store) - {p \<in> set [1, 2, 3]. what demo_store p = 7}) = {9, 2, 4}"
    "9 \<notin> set (live demo_store)" "7 = What demo_msg"
    by (auto simp: demo_store_def demo_msg_def)
  ultimately show ?thesis
    using handler_post_remove_duplicates [OF demo_queue, of "Some 9" 15 15 1 7 demo_msg] by auto
qed

lemma handler_post_keep_unique_example:
  "\<exists>cs s' h'. Handler_EnqueueMessage 1 None demo_msg 25 POST_KEEP_UNIQUE demo_store demo_handler =
      Some (B_OK, cs, s', h') \<and> queue_ok s' (m_msgQueue h') [1, 2] \<and> Data (msgs s' 1) = 500"
proof -
  have "unique_target demo_store 7 25 [1, 2, 3] = Some 1"
    by (simp add: unique_target_def due_def after_def demo_store_def)
  moreover have "what demo_store 2 = 8" "what demo_store 3 = 7" "7 = What demo_msg"
    "Data (repurposed demo_msg (msgs demo_store 1)) = 500"
    by (simp_all add: demo_store_def demo_msg_def repurposed_def)
  ultimately show ?thesis
    using handler_post_keep_unique [OF demo_queue, of None 25 25 1 7 demo_msg] by auto
qed

text \<open>Removing the messages of code 7 that are due at 20 takes only the first message out.\<close>

lemma handler_filter_example:
  "\<exists>cs s' h'. FilterMessages 20 (clear_func 7) 0 None demo_store demo_handler = Some (cs, None, s', h') \<and>
      queue_ok s' (m_msgQueue h') [2, 3]"
proof -
  have "fst (filtered False (judge 20 (clear_func 7) 0 demo_store) [1, 2, 3]) = [2, 3]"
    unfolding clear_func_keeps by (simp add: demo_store_def)
  then show ?thesis
    using handler_filter [OF demo_queue, where flags = 0 and f = "clear_func 7" and exact = 20] by auto
qed

end
