(* ===== verification/Handler_Schedule.thy ===== *)
theory Handler_Schedule
  imports Handler
begin

text \<open>
  How a handler and its process interleave. One step is one critical section of the handler's lock, in
  any order the threads produce. The process is reduced to what concerns one handler: whether the
  handler is in the list of pending handlers (\<open>listed\<close>), how many calls of \<^verbatim>\<open>ScheduleHandler\<close> and
  \<^verbatim>\<open>UnscheduleHandler\<close> were decided but not yet executed, whether such a call is between
  \<^verbatim>\<open>start_schedule\<close> and \<^verbatim>\<open>done_schedule\<close> (\<open>placing\<close>), whether a looper has taken the
  handler off the list and not yet dispatched (\<open>taken\<close>), and whether a dispatching looper still has to
  call \<^verbatim>\<open>ResumeScheduling\<close> (\<open>owed\<close>; \<^verbatim>\<open>SLooper\<close> lets each dispatch do that once). The theorems: without calls that purge the queue no
  message is ever forgotten; with them, one late \<^verbatim>\<open>UnscheduleHandler\<close> can leave the handler asleep.
\<close>

record 'd sys =
  sst :: "'d store"
  hand :: handler
  pending :: nat
  unsched :: nat
  listed :: bool
  placing :: bool
  taken :: bool
  owed :: bool

definition sys_init :: "'d store \<Rightarrow> 'd sys" where
  "sys_init s = \<lparr>sst = s, hand = Handler_new, pending = 0, unsched = 0, listed = False, placing = False, taken = False, owed = False\<rparr>"

definition decide :: "team_call list \<Rightarrow> 'd store \<Rightarrow> handler \<Rightarrow> 'd sys \<Rightarrow> 'd sys" where
  "decide cs s h x = x\<lparr>sst := s, hand := h,
     pending := pending x + count_list cs ScheduleHandler,
     unsched := unsched x + count_list cs UnscheduleHandler\<rparr>"

text \<open>
  The steps. \<open>purge\<close> tells whether the program uses \<^verbatim>\<open>FilterMessages\<close>, \<^verbatim>\<open>RemoveMessages\<close> or
  \<^verbatim>\<open>RemoveAllMessages\<close>. \<open>start\<close> and \<open>finish\<close> are the two halves of \<^verbatim>\<open>BProcess::ScheduleHandler\<close>,
  \<open>take\<close> and \<open>dispatch\<close> those of \<^verbatim>\<open>BProcess::DispatchMessage\<close>; the first of each pair runs under the
  lock of the process.
\<close>

inductive hstep :: "bool \<Rightarrow> 'd sys \<Rightarrow> 'd sys \<Rightarrow> bool" for purge where
  post: "Handler_EnqueueMessage now fresh im time flags (sst x) (hand x) = Some (r, cs, s, h) \<Longrightarrow>
    \<forall>p. fresh = Some p \<longrightarrow> p \<notin> set (live (sst x)) \<Longrightarrow> hstep purge x (decide cs s h x)"
| dequeue: "Handler_DequeueMessage w (sst x) (hand x) = Some (m, cs, s, h) \<Longrightarrow> hstep purge x (decide cs s h x)"
| filter_out: "purge \<Longrightarrow> FilterMessages exact f flags None (sst x) (hand x) = Some (cs, r, s, h) \<Longrightarrow>
    hstep purge x (decide cs s h x)"
| remove_all: "purge \<Longrightarrow> RemoveAllMessages None (sst x) (hand x) = Some (cs, r, s, h) \<Longrightarrow>
    hstep purge x (decide cs s h x)"
| resume: "owed x \<Longrightarrow> ResumeScheduling True (hand x) = (cs, h) \<Longrightarrow>
    hstep purge x ((decide cs (sst x) h x)\<lparr>owed := False\<rparr>)"
| die: "Handler.unschedule (hand x) = (cs, h) \<Longrightarrow> hstep purge x (decide cs (sst x) h x)"
| start: "0 < pending x \<Longrightarrow> \<not> placing x \<Longrightarrow> start_schedule (hand x) = (r, h) \<Longrightarrow>
    hstep purge x (x\<lparr>hand := h, pending := pending x - 1, listed := (r \<noteq> CANCEL_SCHEDULE),
      placing := (r \<noteq> CANCEL_SCHEDULE)\<rparr>)"
| finish: "placing x \<Longrightarrow> hstep purge x (x\<lparr>hand := done_schedule (hand x), placing := False\<rparr>)"
| take: "listed x \<Longrightarrow> \<not> placing x \<Longrightarrow>
    hstep purge x (x\<lparr>hand := defer_scheduling (hand x), listed := False, taken := True\<rparr>)"
| dispatch: "taken x \<or> owed x \<Longrightarrow> dispatch_message (\<lambda>_ sh. sh) (sst x) (hand x) = Some (r, s, h) \<Longrightarrow>
    hstep purge x (x\<lparr>sst := s, hand := h, taken := False, owed := True\<rparr>)"
| late: "0 < unsched x \<Longrightarrow> \<not> placing x \<Longrightarrow>
    hstep purge x (x\<lparr>unsched := unsched x - 1, listed := False\<rparr>)"

text \<open>
  The handler is awake: it is listed, or a looper is about to dispatch, or it is marked as needing
  to be scheduled, and then either a call of \<^verbatim>\<open>ScheduleHandler\<close> is on its way or the looper that is running
  the handler has yet to call \<^verbatim>\<open>ResumeScheduling\<close>, which makes one.
\<close>

definition awake :: "'d sys \<Rightarrow> bool" where
  "awake x \<longleftrightarrow> listed x \<or> taken x \<or> (need (hand x) \<and> (0 < pending x \<or> owed x))"

text \<open>The invariant.\<close>

definition flags_ok :: "handler \<Rightarrow> nat \<Rightarrow> bool" where
  "flags_ok h n \<longleftrightarrow> n = (if called h then 1 else 0) \<and> (called h \<longrightarrow> need h) \<and>
     (can h \<and> need h \<and> \<not> dying h \<longrightarrow> called h)"

definition sys_ok :: "'d sys \<Rightarrow> bool" where
  "sys_ok x \<longleftrightarrow> flags_ok (hand x) (pending x) \<and> (unsched x \<noteq> 0 \<longrightarrow> dying (hand x)) \<and>
     (\<not> dying (hand x) \<longrightarrow> can (hand x) = (\<not> taken x \<and> \<not> owed x) \<and> \<not> (taken x \<and> owed x) \<and>
        (listed x \<longrightarrow> \<not> taken x \<and> \<not> owed x)) \<and>
     (\<exists>ms. queue_ok (sst x) (m_msgQueue (hand x)) ms \<and>
        (ms \<noteq> [] \<and> \<not> dying (hand x) \<longrightarrow> need (hand x) \<or> listed x \<or> taken x))"

lemma sys_ok_awake:
  assumes "sys_ok x" "queue_ok (sst x) (m_msgQueue (hand x)) ms" "ms \<noteq> []" "\<not> dying (hand x)"
  shows "awake x"
proof -
  obtain ms' where ms': "queue_ok (sst x) (m_msgQueue (hand x)) ms'"
    "ms' \<noteq> [] \<longrightarrow> need (hand x) \<or> listed x \<or> taken x"
    using assms(1,4) by (auto simp: sys_ok_def)
  then have "ms' \<noteq> []"
    using assms(2,3) mrep_empty_iff by (metis queue_ok_def)
  then show ?thesis using ms' assms(1,4) by (auto simp: awake_def sys_ok_def flags_ok_def)
qed

text \<open>A change of the queue that tells the process keeps the flags consistent.\<close>

lemma notified_flags:
  assumes "notified b h h' cs" "flags_ok h n"
  shows "flags_ok h' (n + count_list cs ScheduleHandler)" "count_list cs UnscheduleHandler = 0"
    "dying h' = dying h" "can h' = can h" "b \<longrightarrow> need h'" "need h \<longrightarrow> need h'"
  using assms
  by (auto simp: notified_def flags_ok_def calls_def need_schedule_bits split: if_splits)

lemma notified_step:
  assumes "sys_ok x" "queue_ok (sst x) (m_msgQueue (hand x)) ms"
    and "queue_ok s (m_msgQueue h) ms'" "notified b (hand x) h cs" "\<not> b \<and> ms' \<noteq> [] \<longrightarrow> ms \<noteq> []"
  shows "sys_ok (decide cs s h x)"
proof -
  have fl: "flags_ok (hand x) (pending x)" using assms(1) by (simp add: sys_ok_def)
  note nf = notified_flags [OF assms(4) fl]
  obtain ms0 where "queue_ok (sst x) (m_msgQueue (hand x)) ms0"
    "ms0 \<noteq> [] \<and> \<not> dying (hand x) \<longrightarrow> need (hand x) \<or> listed x \<or> taken x"
    using assms(1) by (auto simp: sys_ok_def)
  then have "ms \<noteq> [] \<and> \<not> dying (hand x) \<longrightarrow> need (hand x) \<or> listed x \<or> taken x"
    using assms(2) mrep_empty_iff by (metis queue_ok_def)
  then show ?thesis
    using assms nf by (auto simp: sys_ok_def decide_def intro!: exI [of _ ms'])
qed

text \<open>Every way of posting: the queue stays well formed, and the process is told if it was empty.\<close>

lemma hd_other: "ms' \<noteq> [] \<Longrightarrow> hd ms' \<noteq> m \<Longrightarrow> set ms' \<subseteq> insert m (set ms) \<Longrightarrow> ms \<noteq> []"
  using hd_in_set by fastforce

lemma summary_intro:
  assumes "queue_ok s' (m_msgQueue h') ms'" "notified (hd ms' = m) h h' cs" "set ms' \<subseteq> insert m (set ms)"
  shows "\<exists>ms' b. queue_ok s' (m_msgQueue h') ms' \<and> notified b h h' cs \<and> (\<not> b \<and> ms' \<noteq> [] \<longrightarrow> ms \<noteq> [])"
  using assms hd_other [of ms' m ms] by (intro exI [of _ ms'] exI [of _ "hd ms' = m"]) auto

lemma post_summary:
  fixes s :: "'d store"
  assumes ok: "queue_ok s (m_msgQueue h) ms" and new: "\<forall>p. fresh = Some p \<longrightarrow> p \<notin> set (live s)"
    and res: "Handler_EnqueueMessage now fresh im time flags s h = Some (r, cs, s', h')"
  shows "\<exists>ms' b. queue_ok s' (m_msgQueue h') ms' \<and> notified b h h' cs \<and> (\<not> b \<and> ms' \<noteq> [] \<longrightarrow> ms \<noteq> [])"
proof -
  define fl where "fl = flags AND (POST_REMOVE_DUPLICATES OR POST_KEEP_UNIQUE)"
  define T where "T = (if time \<le> 0 then now else time)"
  define w where "w = What im"
  have none: "\<exists>ms' b. queue_ok s (m_msgQueue h) ms' \<and> notified b h h [] \<and> (\<not> b \<and> ms' \<noteq> [] \<longrightarrow> ms \<noteq> [])"
    using ok by (intro exI [of _ ms] exI [of _ False]) (simp add: notified_def)
  consider "fl = 0" | "fl \<noteq> 0" "fl AND POST_REMOVE_DUPLICATES \<noteq> 0" | "fl \<noteq> 0" "fl AND POST_REMOVE_DUPLICATES = 0"
    by blast
  then show ?thesis
  proof cases
    case 1
    show ?thesis
    proof (cases fresh)
      case None
      then show ?thesis using res 1 none by (simp add: Handler_EnqueueMessage_def fl_def)
    next
      case (Some p)
      have "due s T ms \<noteq> [] \<longrightarrow> ms \<noteq> []" by (auto simp: due_def)
      then show ?thesis
        using post_plain [OF ok _ _ T_def, of p flags im] new res 1 Some
        by (auto simp: fl_def intro!: exI [of _ "due s T ms @ p # after s T ms"] exI [of _ "due s T ms = []"])
    qed
  next
    case 2
    then have eq: "enqueue_unique_message now fresh im time fl s h = Some (r, cs, s', h')"
      using res by (simp add: Handler_EnqueueMessage_def fl_def Let_def)
    note pd = post_dups [OF ok new 2(2) T_def w_def] 
    show ?thesis
    proof (cases "case dups_target s w T ms of Some m \<Rightarrow> Some m | None \<Rightarrow> fresh")
      case None
      then show ?thesis using pd eq none by simp
    next
      case (Some m)
      then have "queue_ok s' (m_msgQueue h') (dedup s w T ms m)" "notified (hd (dedup s w T ms m) = m) h h' cs"
        using pd eq by auto
      then show ?thesis by (rule summary_intro [OF _ _ dedup_set(1)])
    qed
  next
    case 3
    then have eq: "enqueue_unique_message now fresh im time fl s h = Some (r, cs, s', h')"
      using res by (simp add: Handler_EnqueueMessage_def fl_def Let_def)
    have sub: "set (filter (\<lambda>p. what s p \<noteq> w \<or> p = m) ms) \<subseteq> insert m (set ms)" for m by auto
    note pu = post_unique [OF ok new 3(2) T_def w_def]
    show ?thesis
    proof (cases "unique_target s w T ms")
      case (Some m)
      then have "queue_ok s' (m_msgQueue h') (filter (\<lambda>p. what s p \<noteq> w \<or> p = m) ms)"
        "notified (hd (filter (\<lambda>p. what s p \<noteq> w \<or> p = m) ms) = m) h h' cs"
        using pu eq by auto
      then show ?thesis by (rule summary_intro [OF _ _ sub])
    next
      case un: None
      show ?thesis
      proof (cases fresh)
        case None
        then show ?thesis using un pu eq none by simp
      next
        case (Some p)
        then have "queue_ok s' (m_msgQueue h') (dedup s w T ms p)" "notified (hd (dedup s w T ms p) = p) h h' cs"
          using un pu eq by auto
        then show ?thesis by (rule summary_intro [OF _ _ dedup_set(1)])
      qed
    qed
  qed
qed

lemma dequeue_summary:
  fixes s :: "'d store"
  assumes ok: "queue_ok s (m_msgQueue h) ms"
    and res: "Handler_DequeueMessage w s h = Some (m, cs, s', h')"
  shows "\<exists>ms' b. queue_ok s' (m_msgQueue h') ms' \<and> notified b h h' cs \<and> (\<not> b \<and> ms' \<noteq> [] \<longrightarrow> ms \<noteq> [])"
proof -
  have rep: "mrep s (m_msgQueue h) ms" using ok by (simp add: queue_ok_def)
  obtain m' rest t l' where d: "DequeueMessage w s (m_msgQueue h) = Some (m', rest \<noteq> [], t, l')"
    "mrep t l' rest" "msgs t = msgs s" "live t = live s"
    "rest = (case m' of None \<Rightarrow> ms | Some p \<Rightarrow> remove1 p ms)"
    using DequeueMessage_spec [OF rep, of w] by metis
  have rm: "remove1 p ms = filter (\<lambda>q. q \<noteq> p) ms" for p
    using rep by (simp add: mrep_def distinct_remove1_removeAll removeAll_filter_not_eq eq_commute)
  have "in_order s rest" "set rest \<subseteq> set ms" "rest \<noteq> [] \<longrightarrow> ms \<noteq> []"
    using ok d(5) by (auto simp: queue_ok_def rm in_order_filter split: option.splits)
  moreover have "notified (fHead l' \<noteq> fHead (m_msgQueue h)) h h' cs \<and> s' = t \<and> m_msgQueue h' = l'"
    using res d(1) by (auto simp: Handler_DequeueMessage_def notified_def case_prod_unfold Let_def)
  ultimately show ?thesis
    using ok d by (intro exI [of _ rest] exI [of _ "fHead l' \<noteq> fHead (m_msgQueue h)"])
      (auto simp: queue_ok_def in_order_def)
qed

text \<open>The flags after each of the scheduling functions.\<close>

lemma bit_and_not:
  "bit ((a :: u32) AND NOT b) n \<longleftrightarrow> bit a n \<and> \<not> bit b n"
  "bit ((a :: u32) AND NOT b AND NOT c) n \<longleftrightarrow> bit a n \<and> \<not> bit b n \<and> \<not> bit c n"
  by (auto simp: bit_simps dest: bit_imp_le_length)

lemma flag_updates:
  "bit (m_state (done_schedule h)) n \<longleftrightarrow> bit (m_state h) n \<or> n = 1"
  "bit (m_state (defer_scheduling h)) n \<longleftrightarrow> bit (m_state h) n \<and> n \<noteq> 0 \<and> n \<noteq> 1"
  "bit (m_state (snd (Handler.unschedule h))) n \<longleftrightarrow> bit (m_state h) n \<and> n \<noteq> 0 \<and> n \<noteq> 1 \<or> n = 3"
  "bit (m_state (snd (ResumeScheduling True h))) n \<longleftrightarrow>
     bit (m_state h) n \<or> n = 0 \<or> n = 4 \<and> need h \<and> \<not> called h"
  by (auto simp: done_schedule_def defer_scheduling_def unschedule_def ResumeScheduling_def bit_and_not
      bit_or_iff flag_tests Let_def)

lemma resume_flags:
  assumes "ResumeScheduling True h = (cs, h')" "flags_ok h n"
  shows "flags_ok h' (n + count_list cs ScheduleHandler)" "count_list cs UnscheduleHandler = 0" "can h'"
    "need h' = need h" "dying h' = dying h" "m_msgQueue h' = m_msgQueue h"
proof -
  have h': "h' = snd (ResumeScheduling True h)" and cs: "cs = calls (need h \<and> \<not> called h)"
    using assms(1) by (auto simp: ResumeScheduling_def flag_tests Let_def)
  show "m_msgQueue h' = m_msgQueue h" unfolding h' by (simp add: ResumeScheduling_def Let_def)
  show "flags_ok h' (n + count_list cs ScheduleHandler)" "count_list cs UnscheduleHandler = 0" "can h'"
    "need h' = need h" "dying h' = dying h"
    using assms(2) unfolding h' cs by (simp_all add: flags_ok_def flag_updates calls_def)
qed

lemma unschedule_flags:
  assumes "Handler.unschedule h = (cs, h')" "flags_ok h n"
  shows "flags_ok h' (n + count_list cs ScheduleHandler)" "dying h'" "m_msgQueue h' = m_msgQueue h"
proof -
  have h': "h' = snd (Handler.unschedule h)" and cs: "count_list cs ScheduleHandler = 0"
    using assms(1) by (auto simp: unschedule_def)
  show "m_msgQueue h' = m_msgQueue h" unfolding h' by (simp add: unschedule_def)
  show "flags_ok h' (n + count_list cs ScheduleHandler)" "dying h'"
    using assms(2) unfolding h' cs by (simp_all add: flags_ok_def flag_updates)
qed

lemma done_defer_flags:
  assumes "flags_ok h n"
  shows "flags_ok (done_schedule h) n" "flags_ok (defer_scheduling h) n"
  using assms by (simp_all add: flags_ok_def flag_updates)

lemma queue_kept:
  "m_msgQueue (done_schedule h) = m_msgQueue h" "m_msgQueue (defer_scheduling h) = m_msgQueue h"
  by (simp_all add: done_schedule_def defer_scheduling_def)

lemma start_flags:
  assumes st: "start_schedule h = (r, h')" and fl: "flags_ok h n" and n: "0 < n"
  shows "flags_ok h' (n - 1)" "can h' = can h" "dying h' = dying h" "m_msgQueue h' = m_msgQueue h"
    "r = CANCEL_SCHEDULE \<and> \<not> dying h \<longrightarrow> need h' \<or> IsEmpty (m_msgQueue h)"
    "r \<noteq> CANCEL_SCHEDULE \<longrightarrow> can h \<and> \<not> dying h"
proof -
  have c: "called h" "need h" using fl n by (auto simp: flags_ok_def split: if_splits)
  let ?go = "can h \<and> need h \<and> \<not> dying h"
  have bits: "bit (m_state h') k \<longleftrightarrow> bit (m_state h) k \<and> k \<noteq> 4 \<and> (?go \<longrightarrow> k \<noteq> 2)" for k
    using st by (auto simp: start_schedule_def flag_tests bit_and_not Let_def split: if_splits)
  have r: "?go \<longrightarrow> (r = CANCEL_SCHEDULE \<longleftrightarrow> IsEmpty (m_msgQueue h))" "\<not> ?go \<longrightarrow> r = CANCEL_SCHEDULE"
    and q: "m_msgQueue h' = m_msgQueue h"
    using st by (auto simp: start_schedule_def flag_tests bit_and_not Let_def split: if_splits)
  show "flags_ok h' (n - 1)" "can h' = can h" "dying h' = dying h"
    using fl c by (auto simp: flags_ok_def bits)
  show "m_msgQueue h' = m_msgQueue h" by (rule q)
  show "r = CANCEL_SCHEDULE \<and> \<not> dying h \<longrightarrow> need h' \<or> IsEmpty (m_msgQueue h)"
    "r \<noteq> CANCEL_SCHEDULE \<longrightarrow> can h \<and> \<not> dying h"
    using c r by (auto simp: bits)
qed

lemma queue_nonempty:
  "queue_ok s q ms \<Longrightarrow> fHead q = None \<longleftrightarrow> ms = []"
  by (auto simp: queue_ok_def mrep_empty_iff)

lemma dispatch_summary:
  fixes s :: "'d store"
  assumes ok: "queue_ok s (m_msgQueue h) ms" and fl: "flags_ok h n" "\<not> dying h \<longrightarrow> \<not> can h"
    and res: "dispatch_message (\<lambda>_ sh. sh) s h = Some (r, s', h')"
  shows "\<exists>ms'. queue_ok s' (m_msgQueue h') ms' \<and> (ms' \<noteq> [] \<longrightarrow> need h') \<and> flags_ok h' n \<and>
    can h' = can h \<and> dying h' = dying h"
proof -
  have rep: "mrep s (m_msgQueue h) ms" using ok by (simp add: queue_ok_def)
  obtain m rest t l' where d: "DequeueMessage B_ANY_WHAT s (m_msgQueue h) = Some (m, rest \<noteq> [], t, l')"
    "mrep t l' rest" "msgs t = msgs s" "live t = live s"
    "m = first_or ms None" "rest = (case m of None \<Rightarrow> ms | Some p \<Rightarrow> remove1 p ms)"
    using DequeueMessage_spec [OF rep, of B_ANY_WHAT] by auto
  have rest: "rest = tl ms" using d(5,6) by (cases ms) auto
  have ord: "in_order s rest" "set rest \<subseteq> set ms"
    using ok unfolding rest by (cases ms; auto simp: queue_ok_def in_order_def)+
  have s': "s' = (case m of None \<Rightarrow> t | Some p \<Rightarrow> Message_delete p t)" and h': "m_msgQueue h' = l'"
    "m_state h' = (if rest \<noteq> [] then m_state h OR ghNeedSchedule else m_state h)"
    using res d(1) by (auto simp: dispatch_message_def Let_def split: option.splits)
  have "mrep (Message_delete p t) l' rest = mrep t l' rest" for p
    by (simp add: mrep_def seg_same_links [of "Message_delete p t" t])
  moreover have "\<forall>p. m = Some p \<longrightarrow> p \<notin> set rest"
    using rep d(5) unfolding rest by (cases ms) (auto simp: mrep_def)
  ultimately have "queue_ok s' (m_msgQueue h') rest"
    using d ord s' h' ok by (auto simp: queue_ok_def in_order_def split: option.splits)
  moreover have "flags_ok h' n" "can h' = can h" "dying h' = dying h" "rest \<noteq> [] \<longrightarrow> need h'"
    using fl h'(2) by (auto simp: flags_ok_def bit_simps)
  ultimately show ?thesis by blast
qed

lemma sys_ok_init: "sys_ok (sys_init s)"
proof -
  have "queue_ok s (m_msgQueue Handler_new) []"
    by (simp add: queue_ok_def Handler_new_def in_order_def)
  then show ?thesis
    by (auto simp: sys_ok_def sys_init_def flags_ok_def Handler_new_def intro!: exI [of _ "[]"])
qed

lemma sys_ok_step:
  assumes "hstep False x y" "sys_ok x"
  shows "sys_ok y"
  using assms
proof (cases rule: hstep.cases)
  case (post now fresh im time flags r cs s h)
  obtain ms where ms: "queue_ok (sst x) (m_msgQueue (hand x)) ms" using assms(2) by (auto simp: sys_ok_def)
  from post_summary [OF ms post(3,2)] show ?thesis
    unfolding post(1) using notified_step [OF assms(2) ms] by blast
next
  case (dequeue w m cs s h)
  obtain ms where ms: "queue_ok (sst x) (m_msgQueue (hand x)) ms" using assms(2) by (auto simp: sys_ok_def)
  from dequeue_summary [OF ms dequeue(2)] show ?thesis
    unfolding dequeue(1) using notified_step [OF assms(2) ms] by blast
next
  case (resume cs h)
  then show ?thesis
    using assms(2) resume_flags [of "hand x" cs h "pending x"] by (auto simp: sys_ok_def decide_def)
next
  case (die cs h)
  then show ?thesis
    using assms(2) unschedule_flags [of "hand x" cs h "pending x"] by (auto simp: sys_ok_def decide_def)
next
  case (start r h)
  note sf = start_flags [OF start(4) _ start(2)]
  obtain ms where ms: "queue_ok (sst x) (m_msgQueue (hand x)) ms" and fl: "flags_ok (hand x) (pending x)"
    using assms(2) by (auto simp: sys_ok_def)
  have "ms \<noteq> [] \<and> \<not> dying h \<longrightarrow> need h \<or> r \<noteq> CANCEL_SCHEDULE"
    using sf(3,5) [OF fl] queue_nonempty [OF ms] by (auto simp: IsEmpty_def)
  then show ?thesis
    unfolding start(1) using assms(2) sf [OF fl] ms by (auto simp: sys_ok_def)
next
  case finish
  then show ?thesis
    using assms(2) by (auto simp: sys_ok_def done_defer_flags flag_updates queue_kept)
next
  case take
  then show ?thesis
    using assms(2) by (auto simp: sys_ok_def done_defer_flags flag_updates queue_kept)
next
  case (dispatch r s h)
  obtain ms where ms: "queue_ok (sst x) (m_msgQueue (hand x)) ms" and fl: "flags_ok (hand x) (pending x)"
    and can: "\<not> dying (hand x) \<longrightarrow> \<not> can (hand x)"
    using assms(2) dispatch(2) by (auto simp: sys_ok_def)
  from dispatch_summary [OF ms fl can dispatch(3)] show ?thesis
    unfolding dispatch(1) using assms(2) dispatch(2) by (auto simp: sys_ok_def)
next
  case late
  then show ?thesis using assms(2) by (auto simp: sys_ok_def)
qed simp_all

section \<open>No message is forgotten, and when one is\<close>

lemma reachable_ok: "(hstep False)\<^sup>*\<^sup>* (sys_init s) x \<Longrightarrow> sys_ok x"
  by (induction rule: rtranclp_induct) (auto intro: sys_ok_init sys_ok_step)

text \<open>
  C8. For a program that never calls \<open>FilterMessages\<close>, \<open>RemoveMessages\<close> or \<open>RemoveAllMessages\<close> (the relation
  \<open>hstep False\<close>; with those calls the claim is false, C9): in every state that posting, taking out
  messages, dispatching, resuming, scheduling and the death of the handler can reach, in any interleaving
  of these critical sections, while the queue of a living handler holds a message, the handler is in the
  process's list, or about to be dispatched, or it is marked as needing to be scheduled and the call
  that does so is either on its way or owed by the looper that runs the handler.
\<close>

theorem handler_no_lost_wakeup:
  assumes "(hstep False)\<^sup>*\<^sup>* (sys_init s) x"
    and "queue_ok (sst x) (m_msgQueue (hand x)) ms" "ms \<noteq> []" "\<not> dying (hand x)"
  shows "awake x"
  using sys_ok_awake [OF reachable_ok [OF assms(1)] assms(2-4)] .

text \<open>One configuration between the steps of a run, for the two examples below.\<close>

definition config :: "'d sys \<Rightarrow> ptr list \<Rightarrow> bool \<Rightarrow> bool \<Rightarrow> bool \<Rightarrow> nat \<Rightarrow> nat \<Rightarrow> bool" where
  "config x ms nd sc li pe un \<longleftrightarrow> queue_ok (sst x) (m_msgQueue (hand x)) ms \<and> can (hand x) \<and> \<not> dying (hand x) \<and>
     need (hand x) = nd \<and> called (hand x) = nd \<and> scheduled (hand x) = sc \<and> listed x = li \<and>
     pending x = pe \<and> unsched x = un \<and> \<not> placing x \<and> \<not> taken x \<and> \<not> owed x"

lemma config_init: "config (sys_init s) [] False False False 0 0"
  by (simp add: config_def sys_init_def Handler_new_def queue_ok_def in_order_def)

lemma config_post:
  assumes "config x [] False sc li pe un" "p \<notin> set (live (sst x))"
  shows "\<exists>y. hstep b x y \<and> config y [p] True sc li (pe + 1) un"
proof -
  have q: "queue_ok (sst x) (m_msgQueue (hand x)) []" using assms by (simp add: config_def)
  obtain cs s' h' where r: "Handler_EnqueueMessage 1 (Some p) im 1 0 (sst x) (hand x) = Some (B_OK, cs, s', h')"
    "queue_ok s' (m_msgQueue h') [p]" "notified True (hand x) h' cs"
    using post_plain [OF q assms(2) _ refl, where flags = 0 and time = 1 and now = 1 and im = im] by (auto simp: due_def after_def)
  have "hstep b x (decide cs s' h' x)" using r(1) assms(2) by (intro hstep.post) auto
  moreover have "config (decide cs s' h' x) [p] True sc li (pe + 1) un"
    using assms r by (simp add: config_def decide_def notified_def need_schedule_bits calls_def)
  ultimately show ?thesis by blast
qed

lemma config_schedule:
  assumes "config x ms True sc li 1 un" "ms \<noteq> []"
  shows "\<exists>y. (hstep b)\<^sup>*\<^sup>* x y \<and> config y ms False True True 0 un \<and> sst y = sst x"
proof -
  obtain r h where st: "start_schedule (hand x) = (r, h)" by fastforce
  have q: "\<not> IsEmpty (m_msgQueue (hand x))"
    using assms queue_nonempty by (auto simp: config_def IsEmpty_def)
  then have r: "r \<noteq> CANCEL_SCHEDULE" and hq: "m_msgQueue h = m_msgQueue (hand x)"
    and bits: "bit (m_state h) k \<longleftrightarrow> bit (m_state (hand x)) k \<and> k \<noteq> 4 \<and> k \<noteq> 2" for k
    using st assms
    by (auto simp: config_def start_schedule_def flag_tests bit_and_not Let_def split: if_splits)
  let ?x1 = "x\<lparr>hand := h, pending := pending x - 1, listed := (r \<noteq> CANCEL_SCHEDULE), placing := (r \<noteq> CANCEL_SCHEDULE)\<rparr>"
  have "hstep b x ?x1" using st assms by (intro hstep.start) (auto simp: config_def)
  moreover define y where "y = ?x1\<lparr>hand := done_schedule (hand ?x1), placing := False\<rparr>"
  moreover have "hstep b ?x1 y" unfolding y_def using r by (intro hstep.finish) simp
  moreover have "config y ms False True True 0 un" "sst y = sst x"
    using assms r hq by (simp_all add: y_def config_def flag_updates bits queue_kept)
  ultimately show ?thesis by (metis converse_rtranclp_into_rtranclp r_into_rtranclp)
qed

lemma config_remove_all:
  assumes "config x ms False True li pe un"
  shows "\<exists>y. hstep True x y \<and> config y [] False False li pe (un + 1) \<and>
    set (live (sst y)) = set (live (sst x)) - set ms"
proof -
  let ?s = "sst x" and ?q = "m_msgQueue (hand x)"
  have q: "mrep ?s ?q ms" using assms by (simp add: config_def queue_ok_def)
  obtain t where t: "Adopt ?s MList_new ?q = Some (t, ?q, MList_new)" "mrep t ?q ms" "live t = live ?s"
    using Adopt_spec [of ?s MList_new "[]" ?q ms] q by (auto simp: two_def)
  obtain u where u: "MakeEmpty t ?q = Some (u, MList_new)" "live u = filter (\<lambda>p. p \<notin> set ms) (live t)"
    using Adopt_spec [of t ?q ms MList_new "[]"] t(2) by (auto simp: two_def)
  let ?h = "\<lparr>m_msgQueue = MList_new, m_state = m_state (hand x) AND NOT ghScheduled\<rparr>"
  have "RemoveAllMessages None ?s (hand x) = Some ([UnscheduleHandler], None, u, ?h)"
    using t u assms by (simp add: RemoveAllMessages_def flag_tests config_def)
  then have "hstep True x (decide [UnscheduleHandler] u ?h x)" by (intro hstep.remove_all) auto
  moreover have "config (decide [UnscheduleHandler] u ?h x) [] False False li pe (un + 1)"
    using assms by (simp add: config_def decide_def bit_and_not queue_ok_def in_order_def)
  moreover have "set (live u) = set (live ?s) - set ms" using u t by auto
  ultimately show ?thesis by (intro exI [of _ "decide [UnscheduleHandler] u ?h x"]) (simp add: decide_def)
qed

theorem handler_no_lost_wakeup_witness:
  "\<exists>x. (hstep False)\<^sup>*\<^sup>* (sys_init demo_store) x \<and> queue_ok (sst x) (m_msgQueue (hand x)) [9] \<and> awake x"
proof -
  have "9 \<notin> set (live (sst (sys_init demo_store)))" by (simp add: sys_init_def demo_store_def)
  from config_post [OF config_init this, of False] obtain x where
    x: "hstep False (sys_init demo_store) x" "config x [9] True False False 1 0" by auto
  then have run: "(hstep False)\<^sup>*\<^sup>* (sys_init demo_store) x" by simp
  have "queue_ok (sst x) (m_msgQueue (hand x)) [9]" "\<not> dying (hand x)" using x(2) by (simp_all add: config_def)
  then show ?thesis using handler_no_lost_wakeup [OF run, of "[9]"] run by auto
qed

text \<open>
  C9. A purge can put a handler to sleep for good: \<open>RemoveAllMessages\<close> clears the flag under the lock but calls
  \<^verbatim>\<open>UnscheduleHandler\<close> after releasing it. If another thread posts and schedules the handler in
  between, the late call takes the handler off the list again. The state reached has a message in
  the queue, yet the handler is not listed, no call is pending and none is owed.
\<close>

theorem handler_purge_loses_wakeup:
  "\<exists>(x :: int sys) ms. (hstep True)\<^sup>*\<^sup>* (sys_init demo_store) x \<and>
     queue_ok (sst x) (m_msgQueue (hand x)) ms \<and> ms \<noteq> [] \<and> \<not> dying (hand x) \<and>
     \<not> awake x \<and> pending x = 0 \<and> unsched x = 0"
proof -
  have "9 \<notin> set (live (sst (sys_init demo_store)))" by (simp add: sys_init_def demo_store_def)
  from config_post [OF config_init this, of True] obtain x1 where
    1: "hstep True (sys_init demo_store) x1" "config x1 [9] True False False 1 0" by auto
  from config_schedule [OF 1(2), of True] obtain x2 where
    2: "(hstep True)\<^sup>*\<^sup>* x1 x2" "config x2 [9] False True True 0 0" by auto
  from config_remove_all [OF 2(2)] obtain x3 where
    3: "hstep True x2 x3" "config x3 [] False False True 0 1" "set (live (sst x3)) = set (live (sst x2)) - set [9]"
    by auto
  have "9 \<notin> set (live (sst x3))" using 3(3) by simp
  from config_post [OF 3(2) this, of True] obtain x4 where
    4: "hstep True x3 x4" "config x4 [9] True False True 1 1" by auto
  from config_schedule [OF 4(2), of True] obtain x5 where
    5: "(hstep True)\<^sup>*\<^sup>* x4 x5" "config x5 [9] False True True 0 1" by auto
  let ?x = "x5\<lparr>unsched := unsched x5 - 1, listed := False\<rparr>"
  have "hstep True x5 ?x" using 5(2) by (intro hstep.late) (auto simp: config_def)
  with 1(1) 2(1) 3(1) 4(1) 5(1) have "(hstep True)\<^sup>*\<^sup>* (sys_init demo_store) ?x"
    by (meson converse_rtranclp_into_rtranclp rtranclp.rtrancl_into_rtrancl rtranclp_trans)
  moreover have "queue_ok (sst ?x) (m_msgQueue (hand ?x)) [9]" "\<not> dying (hand ?x)" "\<not> awake ?x"
    "pending ?x = 0" "unsched ?x = 0"
    using 5(2) by (simp_all add: config_def awake_def)
  ultimately show ?thesis by blast
qed

end
