(* ===== verification/String_Search.thy ===== *)
theory String_Search
  imports OB_Prelude
begin

text \<open>
  The search functions of \<^verbatim>\<open>SString\<close>, \<^verbatim>\<open>src/libraries/libbinder/support/String.cpp\<close>. The contents
  of a string are the list of its bytes; the buffer holds one zero byte behind them. A C string argument
  is the list of the bytes before its terminator, and a null pointer is \<open>None\<close>. Results are the
  \<^verbatim>\<open>int32_t\<close> the code returns. Where the code would read in front of the buffer (a negative offset that
  is not rejected) the result is \<open>None\<close>.
\<close>

type_synonym bytes = "u8 list"

text \<open>Reading \<^verbatim>\<open>_privateData[i]\<close>: a byte of the string or the terminator.\<close>

definition char_at :: "bytes \<Rightarrow> nat \<Rightarrow> u8" where
  "char_at s i = (if i < length s then s ! i else 0)"

definition head :: "bytes \<Rightarrow> u8" where
  "head s = (case s of [] \<Rightarrow> 0 | c # _ \<Rightarrow> c)"

section \<open>Characters and sets of characters\<close>

definition UTF8SafeToLower :: "u8 \<Rightarrow> u8" where
  "UTF8SafeToLower c = (if c < 0x80 then (if 65 \<le> c \<and> c \<le> 90 then c + 32 else c) else c)"

definition UTF8SafeToUpper :: "u8 \<Rightarrow> u8" where
  "UTF8SafeToUpper c = (if c < 0x80 then (if 97 \<le> c \<and> c \<le> 122 then c - 32 else c) else c)"

definition UTF8SafeIsAlpha :: "u8 \<Rightarrow> bool" where
  "UTF8SafeIsAlpha c \<longleftrightarrow> c < 0x80 \<and> (65 \<le> c \<and> c \<le> 90 \<or> 97 \<le> c \<and> c \<le> 122)"

definition UTF8CharLen :: "u8 \<Rightarrow> nat" where
  "UTF8CharLen c = unat (drop_bit (unat (drop_bit 3 (ucast c :: u32) AND 0x1e)) (0xe5000000 :: u32) AND 3) + 1"

text \<open>The bit map of the characters below 128, and whether the set has any other.\<close>

record charset =
  m_lowerMap :: "u32 list"
  m_hasUTF8 :: bool

fun charset_loop :: "bytes \<Rightarrow> charset \<Rightarrow> charset" where
  "charset_loop [] cs = cs"
| "charset_loop (c # tmp) cs =
    (if c = 0 then cs
     else if c AND 0x80 \<noteq> 0 then charset_loop (drop (UTF8CharLen c - 1) tmp) (cs\<lparr>m_hasUTF8 := True\<rparr>)
     else charset_loop tmp (cs\<lparr>m_lowerMap := (m_lowerMap cs)[unat (c div 32) :=
            m_lowerMap cs ! unat (c div 32) OR push_bit (unat (c AND 31)) 1]\<rparr>))"

definition CharSet_new :: "bytes \<Rightarrow> charset" where
  "CharSet_new setOfChars = charset_loop setOfChars \<lparr>m_lowerMap = [0, 0, 0, 0], m_hasUTF8 = False\<rparr>"

definition CharSet_Has :: "charset \<Rightarrow> u8 \<Rightarrow> bool" where
  "CharSet_Has cs c \<longleftrightarrow>
     (if c AND 0x80 \<noteq> 0 then False else m_lowerMap cs ! unat (c div 32) AND push_bit (unat (c AND 31)) 1 \<noteq> 0)"

section \<open>Searching forwards\<close>

text \<open>The inner loop of the plain search, which compares two terminated strings.\<close>

fun cmatch :: "bytes \<Rightarrow> bytes \<Rightarrow> bool" where
  "cmatch [] p = (head p = 0)"
| "cmatch (c1 # s) p = (if c1 = head p \<and> c1 \<noteq> 0 then cmatch s (tl p) else head p = 0)"

fun short_loop :: "u8 \<Rightarrow> bytes \<Rightarrow> bytes \<Rightarrow> nat \<Rightarrow> int" where
  "short_loop firstc p [] i = -1"
| "short_loop firstc p (c # s) i =
    (if c = 0 then -1
     else if c = firstc \<and> cmatch s p then int i
     else short_loop firstc p s (i + 1))"

definition ShortFindAfter :: "bytes \<Rightarrow> bytes \<Rightarrow> nat \<Rightarrow> int" where
  "ShortFindAfter s str fromOffset =
    (if head str = 0 then 0 else short_loop (head str) (tl str) (drop fromOffset s) fromOffset)"

text \<open>
  The search of Knuth, Morris and Pratt for long strings: the table \<open>next\<close> and the scan. Both loops end;
  this is shown below.
\<close>

partial_function (option) kmp_build :: "bytes \<Rightarrow> nat \<Rightarrow> int \<Rightarrow> int list \<Rightarrow> int list option" where
  "kmp_build str i j nxt =
    (let (i, j, nxt) =
       (if j = -1 \<or> char_at str i = char_at str (nat j) then
          (i + 1, j + 1,
           nxt[i + 1 := if char_at str (nat (j + 1)) = char_at str (i + 1) then nxt ! nat (j + 1) else j + 1])
        else (i, nxt ! nat j, nxt))
     in if i < length str then kmp_build str i j nxt else Some nxt)"

partial_function (option) kmp_scan :: "bytes \<Rightarrow> int list \<Rightarrow> bytes \<Rightarrow> nat \<Rightarrow> int \<Rightarrow> int option" where
  "kmp_scan str nxt s ii jj =
    (if ii < length s then
       (if jj = -1 \<or> char_at str (nat jj) = char_at s ii then
          (if jj + 1 \<ge> int (length str) then Some (int (ii + 1) - (jj + 1))
           else kmp_scan str nxt s (ii + 1) (jj + 1))
        else kmp_scan str nxt s ii (nxt ! nat jj))
     else Some (-1))"

definition FindAfter :: "bytes \<Rightarrow> bytes \<Rightarrow> nat \<Rightarrow> int option" where
  "FindAfter s str fromOffset =
    (if length str > length s then Some (-1)
     else Option.bind (kmp_build str 0 (-1) ((replicate (length str + 1) 0)[0 := -1]))
       (\<lambda>nxt. kmp_scan str nxt s fromOffset 0))"

text \<open>The search that ignores the case of ASCII letters; the pattern is converted first.\<close>

fun icmatch :: "bytes \<Rightarrow> bytes \<Rightarrow> bool" where
  "icmatch [] p = (head p = 0)"
| "icmatch (c1 # s) p =
    (if UTF8SafeToLower c1 = head p \<and> c1 \<noteq> 0 then icmatch s (tl p) else head p = 0)"

fun ishort_loop :: "u8 \<Rightarrow> bytes \<Rightarrow> bytes \<Rightarrow> nat \<Rightarrow> int" where
  "ishort_loop firstc p [] i = -1"
| "ishort_loop firstc p (c # s) i =
    (if c = 0 then -1
     else if UTF8SafeToLower c = firstc \<and> icmatch s p then int i
     else ishort_loop firstc p s (i + 1))"

definition IFindAfter :: "bytes \<Rightarrow> bytes \<Rightarrow> nat \<Rightarrow> int" where
  "IFindAfter s str fromOffset =
    (let pattern = map UTF8SafeToLower str in
     if head pattern = 0 then 0 else ishort_loop (head pattern) (tl pattern) (drop fromOffset s) fromOffset)"

definition kShortFindAfterTreshold :: nat where "kShortFindAfterTreshold = 100 * 1024"

text \<open>The public functions; the suffix \<open>_from\<close> marks those with an offset, \<open>_c\<close> those with a C string.\<close>

definition FindFirst :: "bytes \<Rightarrow> bytes \<Rightarrow> int option" where
  "FindFirst s pattern =
    (if pattern = [] then Some 0
     else if length pattern > length s then Some (-1)
     else if length s < kShortFindAfterTreshold then Some (ShortFindAfter s pattern 0)
     else FindAfter s pattern 0)"

definition FindFirst_c :: "bytes \<Rightarrow> bytes \<Rightarrow> int" where
  "FindFirst_c s str = (if s = [] then -1 else ShortFindAfter s str 0)"

definition FindFirst_c_from :: "bytes \<Rightarrow> bytes \<Rightarrow> int \<Rightarrow> int option" where
  "FindFirst_c_from s str fromOffset =
    (if int (length s) - fromOffset \<le> 0 then Some (-1)
     else if fromOffset < 0 then None
     else Some (ShortFindAfter s str (nat fromOffset)))"

definition FindFirst_from :: "bytes \<Rightarrow> bytes \<Rightarrow> int \<Rightarrow> int option" where
  "FindFirst_from s pattern fromOffset =
    (if s = [] then Some (-1)
     else if pattern = [] then Some 0
     else if int (length pattern) > int (length s) - fromOffset then Some (-1)
     else if fromOffset < 0 then None
     else if length s < kShortFindAfterTreshold then Some (ShortFindAfter s pattern (nat fromOffset))
     else FindAfter s pattern (nat fromOffset))"

definition IFindFirst :: "bytes \<Rightarrow> bytes \<Rightarrow> int" where
  "IFindFirst s pattern =
    (if s = [] then -1 else if pattern = [] then 0 else if length pattern > length s then -1
     else IFindAfter s pattern 0)"

definition IFindFirst_from :: "bytes \<Rightarrow> bytes \<Rightarrow> int \<Rightarrow> int option" where
  "IFindFirst_from s pattern fromOffset =
    (if s = [] then Some (-1) else if pattern = [] then Some 0
     else if int (length pattern) > int (length s) - fromOffset then Some (-1)
     else if fromOffset < 0 then None
     else Some (IFindAfter s pattern (nat fromOffset)))"

text \<open>A null C string counts as an empty one here.\<close>

definition IFindFirst_c :: "bytes \<Rightarrow> bytes option \<Rightarrow> int" where
  "IFindFirst_c s str = IFindFirst s (case str of None \<Rightarrow> [] | Some str \<Rightarrow> str)"

definition IFindFirst_c_from :: "bytes \<Rightarrow> bytes option \<Rightarrow> int \<Rightarrow> int option" where
  "IFindFirst_c_from s str = IFindFirst_from s (case str of None \<Rightarrow> [] | Some str \<Rightarrow> str)"

section \<open>Searching backwards\<close>

fun before_loop :: "(bytes \<Rightarrow> bytes \<Rightarrow> bool) \<Rightarrow> bytes \<Rightarrow> bytes \<Rightarrow> nat \<Rightarrow> int" where
  "before_loop m s p 0 = (if m s p then 0 else -1)"
| "before_loop m s p (Suc i) = (if m (drop (Suc i) s) p then int (Suc i) else before_loop m s p i)"

definition FindBefore :: "bytes \<Rightarrow> bytes \<Rightarrow> nat \<Rightarrow> int" where
  "FindBefore s str beforeOffset = before_loop cmatch s str (beforeOffset - length str)"

definition IFindBefore :: "bytes \<Rightarrow> bytes \<Rightarrow> nat \<Rightarrow> int" where
  "IFindBefore s str beforeOffset =
     before_loop icmatch s (map UTF8SafeToLower str) (beforeOffset - length str)"

definition FindLast :: "bytes \<Rightarrow> bytes \<Rightarrow> int" where
  "FindLast s pattern =
    (if s = [] then -1 else if pattern = [] then 0 else if length pattern > length s then -1
     else FindBefore s pattern (length s))"

definition FindLast_c :: "bytes \<Rightarrow> bytes option \<Rightarrow> int" where
  "FindLast_c s str =
    (if s = [] then -1
     else (case str of
        None \<Rightarrow> 0
      | Some str \<Rightarrow> if length str > length s then -1 else FindBefore s str (length s)))"

definition FindLast_before :: "bytes \<Rightarrow> bytes \<Rightarrow> int \<Rightarrow> int" where
  "FindLast_before s pattern beforeOffset =
    (if s = [] then -1 else if pattern = [] then 0
     else (let b = (if beforeOffset > int (length s) then int (length s) else beforeOffset) in
       if int (length pattern) > b then -1 else FindBefore s pattern (nat b)))"

definition FindLast_c_before :: "bytes \<Rightarrow> bytes option \<Rightarrow> int \<Rightarrow> int" where
  "FindLast_c_before s str beforeOffset =
    (if s = [] then -1
     else (case str of None \<Rightarrow> 0 | Some str \<Rightarrow> FindLast_before s str beforeOffset))"

definition IFindLast :: "bytes \<Rightarrow> bytes \<Rightarrow> int" where
  "IFindLast s pattern =
    (if s = [] then -1 else if pattern = [] then 0 else if length pattern > length s then -1
     else IFindBefore s pattern (length s))"

definition IFindLast_c :: "bytes \<Rightarrow> bytes option \<Rightarrow> int" where
  "IFindLast_c s str =
    (if s = [] then -1
     else (case str of
        None \<Rightarrow> 0
      | Some str \<Rightarrow> if length str > length s then -1 else IFindBefore s str (length s)))"

definition IFindLast_before :: "bytes \<Rightarrow> bytes \<Rightarrow> int \<Rightarrow> int" where
  "IFindLast_before s pattern beforeOffset =
    (if s = [] then -1 else if pattern = [] then 0
     else (let b = (if beforeOffset > int (length s) then int (length s) else beforeOffset) in
       if int (length pattern) > b then -1 else IFindBefore s pattern (nat b)))"

definition IFindLast_c_before :: "bytes \<Rightarrow> bytes option \<Rightarrow> int \<Rightarrow> int" where
  "IFindLast_c_before s str beforeOffset =
    (if s = [] then -1
     else (case str of None \<Rightarrow> 0 | Some str \<Rightarrow> IFindLast_before s str beforeOffset))"

section \<open>Searching for one character\<close>

fun index_up :: "(u8 \<Rightarrow> bool) \<Rightarrow> bytes \<Rightarrow> nat \<Rightarrow> int" where
  "index_up q [] i = -1"
| "index_up q (c # s) i = (if q c then int i else index_up q s (i + 1))"

fun index_down :: "(u8 \<Rightarrow> bool) \<Rightarrow> bytes \<Rightarrow> nat \<Rightarrow> int" where
  "index_down q s 0 = (if q (char_at s 0) then 0 else -1)"
| "index_down q s (Suc i) = (if q (char_at s (Suc i)) then int (Suc i) else index_down q s i)"

definition FindFirst_char :: "bytes \<Rightarrow> u8 \<Rightarrow> int" where
  "FindFirst_char s ch = (if s = [] then -1 else index_up (\<lambda>c. c = ch) s 0)"

definition FindFirst_char_from :: "bytes \<Rightarrow> u8 \<Rightarrow> int \<Rightarrow> int" where
  "FindFirst_char_from s ch fromOffset =
    (if int (length s) \<le> fromOffset then -1
     else (let f = nat (if fromOffset < 0 then 0 else fromOffset) in index_up (\<lambda>c. c = ch) (drop f s) f))"

definition FindLast_char :: "bytes \<Rightarrow> u8 \<Rightarrow> int" where
  "FindLast_char s ch = (if s = [] then -1 else index_down (\<lambda>c. c = ch) s (length s - 1))"

definition FindLast_char_before :: "bytes \<Rightarrow> u8 \<Rightarrow> int \<Rightarrow> int" where
  "FindLast_char_before s ch beforeOffset =
    (if beforeOffset < 0 \<or> s = [] then -1
     else index_down (\<lambda>c. c = ch) s (if beforeOffset \<ge> int (length s) then length s - 1 else nat beforeOffset))"

definition FindSetFirst_from :: "bytes \<Rightarrow> bytes \<Rightarrow> int \<Rightarrow> int" where
  "FindSetFirst_from s setOfChars fromOffset =
    (if int (length s) \<le> fromOffset then -1
     else (let cs = CharSet_new setOfChars; f = nat (if fromOffset < 0 then 0 else fromOffset)
           in index_up (CharSet_Has cs) (drop f s) f))"

definition FindSetFirst :: "bytes \<Rightarrow> bytes \<Rightarrow> int" where
  "FindSetFirst s setOfChars = FindSetFirst_from s setOfChars 0"

definition FindSetLast_before :: "bytes \<Rightarrow> bytes \<Rightarrow> int \<Rightarrow> int" where
  "FindSetLast_before s setOfChars beforeOffset =
    (if beforeOffset < 0 \<or> s = [] then -1
     else (let cs = CharSet_new setOfChars in
       index_down (CharSet_Has cs) s (if beforeOffset \<ge> int (length s) then length s - 1 else nat beforeOffset)))"

definition FindSetLast :: "bytes \<Rightarrow> bytes \<Rightarrow> int" where
  "FindSetLast s setOfChars = FindSetLast_before s setOfChars 0x7fffffff"

section \<open>What a search means\<close>

definition occurs :: "bytes \<Rightarrow> bytes \<Rightarrow> nat \<Rightarrow> bool" where
  "occurs s p i \<longleftrightarrow> i + length p \<le> length s \<and> take (length p) (drop i s) = p"

text \<open>The result of a search from an offset, and of one that ends before an offset.\<close>

definition first_at :: "bytes \<Rightarrow> bytes \<Rightarrow> nat \<Rightarrow> int \<Rightarrow> bool" where
  "first_at s p from r \<longleftrightarrow>
     r = -1 \<and> (\<forall>i. from \<le> i \<longrightarrow> \<not> occurs s p i) \<or>
     0 \<le> r \<and> from \<le> nat r \<and> occurs s p (nat r) \<and> (\<forall>i. from \<le> i \<and> i < nat r \<longrightarrow> \<not> occurs s p i)"

definition last_at :: "bytes \<Rightarrow> bytes \<Rightarrow> nat \<Rightarrow> int \<Rightarrow> bool" where
  "last_at s p before r \<longleftrightarrow>
     r = -1 \<and> (\<forall>i. i + length p \<le> before \<longrightarrow> \<not> occurs s p i) \<or>
     0 \<le> r \<and> nat r + length p \<le> before \<and> occurs s p (nat r) \<and>
       (\<forall>i. nat r < i \<and> i + length p \<le> before \<longrightarrow> \<not> occurs s p i)"

lemma occurs_nth:
  "occurs s p i \<longleftrightarrow> i + length p \<le> length s \<and> (\<forall>k < length p. s ! (i + k) = p ! k)"
  by (auto simp: occurs_def list_eq_iff_nth_eq)

lemma occurs_0: "occurs s p 0 \<longleftrightarrow> take (length p) s = p \<and> length p \<le> length s"
  by (auto simp: occurs_def)

lemma occurs_Suc: "occurs (c # s) p (Suc i) \<longleftrightarrow> occurs s p i"
  by (simp add: occurs_def)

lemma occurs_drop: "i \<le> length s \<Longrightarrow> occurs (drop i s) p j \<longleftrightarrow> occurs s p (i + j)"
  by (auto simp: occurs_def add.commute)

lemma occurs_le: "occurs s p i \<Longrightarrow> i + length p \<le> length s"
  by (simp add: occurs_def)

lemma first_at_unique: "first_at s p from r \<Longrightarrow> first_at s p from r' \<Longrightarrow> r = r'"
  unfolding first_at_def by (metis (no_types, opaque_lifting) int_nat_eq leI linorder_neqE_nat nat_eq_iff2)

section \<open>The plain searches\<close>

lemma head_simps [simp]: "head [] = 0" "head (c # s) = c"
  by (simp_all add: head_def)

lemma cmatch_iff: "0 \<notin> set p \<Longrightarrow> cmatch s p \<longleftrightarrow> occurs s p 0"
proof (induction s arbitrary: p)
  case Nil
  then show ?case by (cases p) (auto simp: occurs_0)
next
  case (Cons c s)
  then show ?case by (cases p) (auto simp: occurs_0)
qed

lemma lower_zero [simp]: "UTF8SafeToLower c = 0 \<longleftrightarrow> c = 0"
proof -
  have "c < 0x80 \<Longrightarrow> c + 32 \<noteq> 0"
    by (simp add: word_less_nat_alt unat_plus_if' unat_eq_0 [symmetric] del: unat_eq_0)
  then show ?thesis by (auto simp: UTF8SafeToLower_def)
qed

lemma lower_no_zero: "0 \<notin> set s \<Longrightarrow> 0 \<notin> UTF8SafeToLower ` set s"
  by (metis (no_types, opaque_lifting) image_iff lower_zero)

lemma icmatch_iff: "0 \<notin> set p \<Longrightarrow> icmatch s p \<longleftrightarrow> occurs (map UTF8SafeToLower s) p 0"
proof (induction s arbitrary: p)
  case Nil
  then show ?case by (cases p) (auto simp: occurs_0)
next
  case (Cons c s)
  then show ?case by (cases p) (auto simp: occurs_0)
qed

text \<open>Stepping over one character.\<close>

lemma first_at_Cons:
  assumes "\<not> occurs (drop n s) p 0" "n < length s" "first_at s p (Suc n) r"
  shows "first_at s p n r"
proof -
  have no: "\<not> occurs s p n" using assms(1,2) occurs_drop [of n s p 0] by simp
  have skip: "Suc n \<le> i" if "n \<le> i" "occurs s p i" for i
    using that no by (cases "i = n") auto
  show ?thesis
    using assms(3) skip unfolding first_at_def by (metis Suc_leD)
qed

lemma first_at_end: "p \<noteq> [] \<Longrightarrow> length s \<le> n \<Longrightarrow> first_at s p n (-1)"
  by (cases p) (auto simp: first_at_def dest!: occurs_le)

lemma short_loop_first:
  assumes "0 \<notin> set s" "0 \<notin> set (c0 # p)" "n \<le> length s"
  shows "first_at s (c0 # p) n (short_loop c0 p (drop n s) n)"
  using assms(3)
proof (induction "length s - n" arbitrary: n)
  case 0
  then show ?case by (simp add: first_at_end)
next
  case (Suc k)
  then have n: "n < length s" by simp
  then have d: "drop n s = s ! n # drop (Suc n) s" by (simp add: Cons_nth_drop_Suc)
  have nz: "s ! n \<noteq> 0" using assms(1) n nth_mem by metis
  have m: "occurs (drop n s) (c0 # p) 0 \<longleftrightarrow> s ! n = c0 \<and> cmatch (drop (Suc n) s) p"
    using assms(2) cmatch_iff [of p "drop (Suc n) s"] unfolding d by (auto simp: occurs_0)
  show ?case
  proof (cases "occurs (drop n s) (c0 # p) 0")
    case True
    then have "occurs s (c0 # p) n" using occurs_drop [of n s "c0 # p" 0] n by simp
    then show ?thesis using True m nz by (auto simp: d first_at_def)
  next
    case False
    have "first_at s (c0 # p) (Suc n) (short_loop c0 p (drop (Suc n) s) (Suc n))"
      using Suc n by (intro Suc.hyps) auto
    moreover have "short_loop c0 p (drop n s) n = short_loop c0 p (drop (Suc n) s) (Suc n)"
      using False m nz by (auto simp: d)
    ultimately show ?thesis using first_at_Cons [OF False n] by simp
  qed
qed

lemma ShortFindAfter_first:
  assumes "0 \<notin> set s" "0 \<notin> set p" "p \<noteq> []" "n \<le> length s"
  shows "first_at s p n (ShortFindAfter s p n)"
proof -
  obtain c q where p: "p = c # q" using assms(3) by (cases p) auto
  then show ?thesis using assms short_loop_first [of s c q n] by (simp add: ShortFindAfter_def)
qed

text \<open>The search without case is the search in the converted strings.\<close>

lemma ishort_loop_map:
  assumes "0 \<notin> set p"
  shows "ishort_loop c0 p s i = short_loop c0 p (map UTF8SafeToLower s) i"
  using assms by (induction s arbitrary: i) (auto simp: icmatch_iff cmatch_iff)

lemma IFindAfter_map:
  assumes "0 \<notin> set str"
  shows "IFindAfter s str n = ShortFindAfter (map UTF8SafeToLower s) (map UTF8SafeToLower str) n"
proof -
  have "0 \<notin> set (map UTF8SafeToLower str)" using assms by auto
  then have "0 \<notin> set (tl (map UTF8SafeToLower str))" by (metis list.sel(2) list.set_sel(2))
  then show ?thesis
    by (simp add: IFindAfter_def ShortFindAfter_def Let_def ishort_loop_map drop_map)
qed

lemma before_loop_last:
  assumes m: "\<And>j. j \<le> length s \<Longrightarrow> m (drop j s) p \<longleftrightarrow> occurs (drop j t) p 0"
    and len: "length t = length s" "n \<le> length s"
  shows "last_at t p (n + length p) (before_loop m s p n)"
  using len(2)
proof (induction n)
  case 0
  then show ?case using m [of 0] by (auto simp: last_at_def)
next
  case (Suc n)
  have o: "occurs (drop (Suc n) t) p 0 \<longleftrightarrow> occurs t p (Suc n)"
    using occurs_drop [of "Suc n" t p 0] Suc.prems len by simp
  show ?case
  proof (cases "occurs t p (Suc n)")
    case True
    then show ?thesis using m [of "Suc n"] o Suc.prems by (auto simp: last_at_def nat_add_distrib)
  next
    case False
    have "last_at t p (n + length p) (before_loop m s p n)" using Suc by simp
    moreover have "\<forall>i. i + length p \<le> Suc n + length p \<and> occurs t p i \<longrightarrow> i + length p \<le> n + length p"
      using False by (auto simp: le_Suc_eq)
    ultimately have "last_at t p (Suc n + length p) (before_loop m s p n)"
      unfolding last_at_def by (metis add_Suc le_SucI)
    then show ?thesis using m [of "Suc n"] o Suc.prems False by simp
  qed
qed

lemma FindBefore_last:
  assumes "0 \<notin> set p" "length p \<le> b" "b \<le> length s"
  shows "last_at s p b (FindBefore s p b)"
  using before_loop_last [of s cmatch p s "b - length p"] assms cmatch_iff
  by (simp add: FindBefore_def)

lemma IFindBefore_last:
  assumes "0 \<notin> set p" "length p \<le> b" "b \<le> length s"
  shows "last_at (map UTF8SafeToLower s) (map UTF8SafeToLower p) b (IFindBefore s p b)"
proof -
  have "0 \<notin> set (map UTF8SafeToLower p)" using assms by auto
  then show ?thesis
    using before_loop_last [of s icmatch "map UTF8SafeToLower p" "map UTF8SafeToLower s" "b - length p"] assms icmatch_iff
    by (simp add: IFindBefore_def drop_map)
qed

section \<open>Knuth, Morris and Pratt\<close>

text \<open>
  \<open>border str b k\<close>: the first \<open>b\<close> characters are also the last \<open>b\<close> of the first \<open>k\<close>. \<open>strong str k v\<close>: \<open>v\<close> is the
  longest border of the first \<open>k\<close> characters whose next character differs from character \<open>k\<close>, or -1.
\<close>

definition border :: "bytes \<Rightarrow> nat \<Rightarrow> nat \<Rightarrow> bool" where
  "border str b k \<longleftrightarrow> b < k \<and> (\<forall>t < b. char_at str t = char_at str (k - b + t))"

definition strong :: "bytes \<Rightarrow> nat \<Rightarrow> int \<Rightarrow> bool" where
  "strong str k v \<longleftrightarrow> -1 \<le> v \<and> v < int k \<and>
     (0 \<le> v \<longrightarrow> border str (nat v) k \<and> char_at str (nat v) \<noteq> char_at str k) \<and>
     (\<forall>b. border str b k \<and> v < int b \<longrightarrow> char_at str b = char_at str k)"

lemma border_trans:
  assumes "border str b j" "border str j k"
  shows "border str b k"
proof -
  have "char_at str t = char_at str (k - b + t)" if "t < b" for t
  proof -
    have "char_at str t = char_at str (j - b + t)" using assms(1) that by (simp add: border_def)
    also have "\<dots> = char_at str (k - j + (j - b + t))" using assms that by (auto simp: border_def)
    finally show ?thesis using assms by (simp add: border_def)
  qed
  then show ?thesis using assms by (auto simp: border_def)
qed

lemma border_below:
  assumes "border str b k" "border str j k" "b < j"
  shows "border str b j"
proof -
  have "char_at str t = char_at str (j - b + t)" if "t < b" for t
  proof -
    have "char_at str (j - b + t) = char_at str (k - j + (j - b + t))"
      using assms that by (auto simp: border_def)
    also have "\<dots> = char_at str (k - b + t)" using assms by (simp add: border_def)
    also have "\<dots> = char_at str t" using assms that by (simp add: border_def)
    finally show ?thesis by simp
  qed
  then show ?thesis using assms by (auto simp: border_def)
qed

lemma border_Suc: "border str (Suc b) (Suc k) \<longleftrightarrow> border str b k \<and> char_at str b = char_at str k"
  by (auto simp: border_def less_Suc_eq)

lemma border_0: "0 < k \<Longrightarrow> border str 0 k"
  by (simp add: border_def)

text \<open>The invariant of the loop that builds the table.\<close>

definition build_inv :: "bytes \<Rightarrow> nat \<Rightarrow> int \<Rightarrow> int list \<Rightarrow> bool" where
  "build_inv str i j nxt \<longleftrightarrow> length nxt = length str + 1 \<and> (\<forall>k \<le> i. strong str k (nxt ! k)) \<and>
     -1 \<le> j \<and> j < int i \<and> (0 \<le> j \<longrightarrow> border str (nat j) i) \<and>
     (\<forall>b. border str b i \<and> j < int b \<longrightarrow> char_at str b \<noteq> char_at str i)"

lemma build_mismatch:
  assumes inv: "build_inv str i j nxt" and ne: "j \<noteq> -1" "char_at str i \<noteq> char_at str (nat j)"
  shows "build_inv str i (nxt ! nat j) nxt" "nxt ! nat j < j"
proof -
  have j: "0 \<le> j" "nat j \<le> i" "border str (nat j) i" using inv ne by (auto simp: build_inv_def)
  have st: "strong str (nat j) (nxt ! nat j)" using inv j by (auto simp: build_inv_def)
  then show lt: "nxt ! nat j < j" using j by (simp add: strong_def)
  have fail: "char_at str b \<noteq> char_at str i" if b: "border str b i" "nxt ! nat j < int b" for b
  proof (cases "j \<le> int b")
    case True
    then show ?thesis using inv b ne(2) by (cases "j = int b") (auto simp: build_inv_def)
  next
    case False
    then have "border str b (nat j)" using border_below [OF b(1) j(3)] by auto
    then show ?thesis using st b(2) ne(2) by (auto simp: strong_def)
  qed
  show "build_inv str i (nxt ! nat j) nxt"
    using inv st lt j fail border_trans [of str "nat (nxt ! nat j)" "nat j" i]
    by (auto simp: build_inv_def strong_def)
qed

lemma strong_next:
  assumes len: "length nxt = length str + 1" and i: "i < length str"
    and old: "\<forall>k \<le> i. strong str k (nxt ! k)"
    and j: "0 \<le> j'" "j' < int (i + 1)" "border str (nat j') (i + 1)"
    and top: "\<forall>b. border str b (i + 1) \<longrightarrow> int b \<le> j'"
  shows "strong str (i + 1) (if char_at str (nat j') = char_at str (i + 1) then nxt ! nat j' else j')"
proof (cases "char_at str (nat j') = char_at str (i + 1)")
  case False
  then show ?thesis using j top by (auto simp: strong_def)
next
  case True
  have st: "strong str (nat j') (nxt ! nat j')" using old j by auto
  have above: "char_at str b = char_at str (i + 1)" if b: "border str b (i + 1)" "nxt ! nat j' < int b" for b
  proof (cases "int b = j'")
    case True
    then show ?thesis using \<open>char_at str (nat j') = _\<close> by auto
  next
    case False
    then have "border str b (nat j')" using top b(1) border_below [OF b(1) j(3)] by fastforce
    then show ?thesis using st b(2) True by (auto simp: strong_def)
  qed
  show ?thesis
    using True st j above border_trans [of str "nat (nxt ! nat j')" "nat j'" "i + 1"]
    by (auto simp: strong_def)
qed

lemma build_match:
  assumes inv: "build_inv str i j nxt" and i: "i < length str"
    and eq: "j = -1 \<or> char_at str i = char_at str (nat j)"
  shows "build_inv str (i + 1) (j + 1)
     (nxt[i + 1 := if char_at str (nat (j + 1)) = char_at str (i + 1) then nxt ! nat (j + 1) else j + 1])"
    (is "build_inv str _ _ ?nxt")
proof -
  have len: "length nxt = length str + 1" and old: "\<forall>k \<le> i. strong str k (nxt ! k)"
    and j: "-1 \<le> j" "j < int i" using inv by (auto simp: build_inv_def)
  have bj: "border str (nat (j + 1)) (i + 1)"
  proof (cases "j = -1")
    case False
    then have "border str (nat j) i" "nat (j + 1) = Suc (nat j)" using inv j by (auto simp: build_inv_def)
    then show ?thesis using eq False border_Suc [of str "nat j" i] by simp
  qed (simp add: border_0)
  have top: "\<forall>b. border str b (i + 1) \<longrightarrow> int b \<le> j + 1"
  proof (intro allI impI)
    fix b assume b: "border str b (i + 1)"
    show "int b \<le> j + 1"
    proof (cases b)
      case (Suc b')
      then show ?thesis using b inv border_Suc [of str b' i] by (force simp: build_inv_def)
    qed (use j in simp)
  qed
  have new: "strong str (i + 1) (?nxt ! (i + 1))"
    using strong_next [OF len i old _ _ bj top] j len i by simp
  have "\<forall>k \<le> i + 1. strong str k (?nxt ! k)"
    using old new by (auto simp: le_Suc_eq)
  then show ?thesis
    using len j bj top by (auto simp: build_inv_def)
qed

lemma kmp_build_ok:
  assumes "build_inv str i j nxt" "i < length str"
  shows "\<exists>tab. kmp_build str i j nxt = Some tab \<and> (\<forall>k \<le> length str. strong str k (tab ! k))"
  using assms
proof (induction "nat (2 * (int (length str) - int i) + j + 1)" arbitrary: i j nxt rule: less_induct)
  case less
  show ?case
  proof (cases "j = -1 \<or> char_at str i = char_at str (nat j)")
    case True
    let ?n = "nxt[i + 1 := if char_at str (nat (j + 1)) = char_at str (i + 1) then nxt ! nat (j + 1) else j + 1]"
    note inv = build_match [OF less.prems True]
    show ?thesis
    proof (cases "i + 1 < length str")
      case go: True
      have "-1 \<le> j" using less.prems by (simp add: build_inv_def)
      then have "\<exists>tab. kmp_build str (i + 1) (j + 1) ?n = Some tab \<and> (\<forall>k \<le> length str. strong str k (tab ! k))"
        using go less.prems(2) by (intro less.hyps [OF _ inv]) auto
      then show ?thesis using True go by (simp add: kmp_build.simps [of str i j nxt])
    next
      case False
      then have "i + 1 = length str" using less.prems(2) by simp
      then show ?thesis
        using True False inv by (auto simp: kmp_build.simps [of str i j nxt] build_inv_def)
    qed
  next
    case False
    note mm = build_mismatch [OF less.prems(1)]
    have "-1 \<le> nxt ! nat j" using mm(1) False by (auto simp: build_inv_def)
    then have "\<exists>tab. kmp_build str i (nxt ! nat j) nxt = Some tab \<and> (\<forall>k \<le> length str. strong str k (tab ! k))"
      using False less.prems(2) mm by (intro less.hyps) auto
    then show ?thesis using False less.prems(2) by (simp add: kmp_build.simps [of str i j nxt])
  qed
qed

text \<open>The invariant of the scan: \<open>jj\<close> characters match in front of \<open>ii\<close>, and nothing starts earlier.\<close>

definition scan_inv :: "bytes \<Rightarrow> bytes \<Rightarrow> nat \<Rightarrow> nat \<Rightarrow> int \<Rightarrow> bool" where
  "scan_inv str s from ii jj \<longleftrightarrow> -1 \<le> jj \<and> jj < int (length str) \<and> int from + jj \<le> int ii \<and> from \<le> ii \<and>
     ii \<le> length s \<and> (\<forall>t < nat jj. char_at str t = char_at s (ii - nat jj + t)) \<and>
     (\<forall>q. from \<le> q \<and> int q < int ii - jj \<longrightarrow> \<not> occurs s str q)"

lemma occurs_char_at:
  assumes "occurs s p q" "k < length p"
  shows "char_at s (q + k) = char_at p k"
  using assms by (auto simp: occurs_nth char_at_def)

lemma scan_mismatch:
  assumes inv: "scan_inv str s from ii jj" and ii: "ii < length s"
    and ne: "jj \<noteq> -1" "char_at str (nat jj) \<noteq> char_at s ii" and st: "strong str (nat jj) v"
  shows "scan_inv str s from ii v" "v < jj"
proof -
  have jj: "0 \<le> jj" "jj < int (length str)" "int from + jj \<le> int ii" using inv ne by (auto simp: scan_inv_def)
  then show lt: "v < jj" using st by (simp add: strong_def)
  have no: "\<not> occurs s str q" if q: "from \<le> q" "int q < int ii - v" for q
  proof
    assume oc: "occurs s str q"
    then have ge: "int ii - jj \<le> int q" using inv q by (force simp: scan_inv_def)
    define b where "b = ii - q"
    have b: "int b = int ii - int q" "b < length str" "q + b = ii" "int b \<le> jj" "v < int b"
      using ge q jj lt st by (auto simp: b_def strong_def)
    show False
    proof (cases "int b = jj")
      case True
      then show False using occurs_char_at [OF oc b(2)] b(3) ne(2) by auto
    next
      case False
      have "char_at str t = char_at str (nat jj - b + t)" if t: "t < b" for t
      proof -
        have "char_at str t = char_at s (q + t)" using occurs_char_at [OF oc, of t] t b(2) by simp
        moreover have "char_at str (nat jj - b + t) = char_at s (ii - nat jj + (nat jj - b + t))"
          using inv t b False by (auto simp: scan_inv_def)
        moreover have "ii - nat jj + (nat jj - b + t) = q + t" using b jj False t by linarith
        ultimately show ?thesis by simp
      qed
      then have "border str b (nat jj)" using b False by (auto simp: border_def)
      then have "char_at str b = char_at str (nat jj)" using st b(5) by (auto simp: strong_def)
      then show False using occurs_char_at [OF oc b(2)] b(3) ne(2) by simp
    qed
  qed
  have pre: "char_at str t = char_at s (ii - nat v + t)" if t: "t < nat v" for t
  proof -
    have bv: "border str (nat v) (nat jj)" and v: "0 \<le> v" using st t by (auto simp: strong_def)
    have "char_at str t = char_at str (nat jj - nat v + t)" using bv t by (simp add: border_def)
    also have "\<dots> = char_at s (ii - nat jj + (nat jj - nat v + t))"
      using inv t v lt by (auto simp: scan_inv_def)
    also have "ii - nat jj + (nat jj - nat v + t) = ii - nat v + t" using v lt jj by linarith
    finally show ?thesis .
  qed
  show "scan_inv str s from ii v"
    using inv lt st no pre by (auto simp: scan_inv_def strong_def)
qed

lemma scan_match:
  assumes inv: "scan_inv str s from ii jj" and ii: "ii < length s"
    and eq: "jj = -1 \<or> char_at str (nat jj) = char_at s ii"
  shows "\<forall>t < nat (jj + 1). char_at str t = char_at s (ii + 1 - nat (jj + 1) + t)"
proof (intro allI impI)
  fix t assume t: "t < nat (jj + 1)"
  then have jj: "0 \<le> jj" "int from + jj \<le> int ii" using inv by (auto simp: scan_inv_def)
  have i: "ii + 1 - nat (jj + 1) + t = ii - nat jj + t" using jj by (simp add: nat_add_distrib)
  show "char_at str t = char_at s (ii + 1 - nat (jj + 1) + t)"
  proof (cases "t = nat jj")
    case True
    have "ii - nat jj + t = ii" using True jj by linarith
    then show ?thesis using eq True jj i by auto
  next
    case False
    then have "t < nat jj" using t jj by linarith
    then show ?thesis using inv i by (simp add: scan_inv_def)
  qed
qed

lemma kmp_scan_ok:
  assumes tab: "\<forall>k \<le> length str. strong str k (tab ! k)" and ne: "str \<noteq> []"
    and inv: "scan_inv str s from ii jj"
  shows "\<exists>r. kmp_scan str tab s ii jj = Some r \<and> first_at s str from r"
  using inv
proof (induction "nat (2 * (int (length s) - int ii) + jj + 1)" arbitrary: ii jj rule: less_induct)
  case less
  show ?case
  proof (cases "ii < length s")
    case False
    have "\<not> occurs s str q" if "from \<le> q" for q
      using less.prems False that occurs_le [of s str q] by (force simp: scan_inv_def)
    then show ?thesis using False by (simp add: kmp_scan.simps [of str tab s ii] first_at_def)
  next
    case ii: True
    show ?thesis
    proof (cases "jj = -1 \<or> char_at str (nat jj) = char_at s ii")
      case True
      note pre = scan_match [OF less.prems ii True]
      have none: "\<forall>q. from \<le> q \<and> int q < int (ii + 1) - (jj + 1) \<longrightarrow> \<not> occurs s str q"
        using less.prems by (simp add: scan_inv_def)
      have b: "-1 \<le> jj" "jj < int (length str)" "int from + jj \<le> int ii" using less.prems by (auto simp: scan_inv_def)
      show ?thesis
      proof (cases "jj + 1 \<ge> int (length str)")
        case fin: True
        define q where "q = ii + 1 - length str"
        have q: "int q = int (ii + 1) - (jj + 1)" "from \<le> q" "nat (jj + 1) = length str"
          using fin b by (auto simp: q_def)
        have "s ! (q + t) = str ! t" if "t < length str" for t
          using pre that q b ii by (auto simp: q_def char_at_def split: if_splits)
        then have oc: "occurs s str q" using q ii by (auto simp: occurs_nth q_def)
        have "\<forall>i. from \<le> i \<and> i < q \<longrightarrow> \<not> occurs s str i" using none q(1) by auto
        then have "first_at s str from (int q)" using oc q(2) by (simp add: first_at_def)
        then show ?thesis using ii True fin q by (simp add: kmp_scan.simps [of str tab s ii])
      next
        case False
        have "\<exists>r. kmp_scan str tab s (ii + 1) (jj + 1) = Some r \<and> first_at s str from r"
          using False less.prems pre none ii b by (intro less.hyps) (auto simp: scan_inv_def)
        then show ?thesis using ii True False by (simp add: kmp_scan.simps [of str tab s ii])
      qed
    next
      case False
      have st: "strong str (nat jj) (tab ! nat jj)" using tab less.prems by (auto simp: scan_inv_def)
      note mm = scan_mismatch [OF less.prems ii _ _ st]
      have "\<exists>r. kmp_scan str tab s ii (tab ! nat jj) = Some r \<and> first_at s str from r"
        using False mm st ii by (intro less.hyps) (auto simp: strong_def)
      then show ?thesis using ii False by (simp add: kmp_scan.simps [of str tab s ii])
    qed
  qed
qed

lemma FindAfter_first:
  assumes "p \<noteq> []" "from + length p \<le> length s"
  shows "\<exists>r. FindAfter s p from = Some r \<and> first_at s p from r"
proof -
  have "build_inv p 0 (-1) ((replicate (length p + 1) 0)[0 := -1])"
    by (auto simp: build_inv_def strong_def border_def)
  from kmp_build_ok [OF this] assms obtain tab where
    tab: "kmp_build p 0 (-1) ((replicate (length p + 1) 0)[0 := -1]) = Some tab"
    "\<forall>k \<le> length p. strong p k (tab ! k)" by auto
  have "scan_inv p s from from 0" using assms by (auto simp: scan_inv_def)
  from kmp_scan_ok [OF tab(2) assms(1) this] tab(1) show ?thesis
    using assms by (simp add: FindAfter_def)
qed

section \<open>Sets of characters\<close>

lemma bit_7: "bit (c :: u8) 7 \<longleftrightarrow> \<not> unat c < 128"
proof -
  have "unat c < 256" using unsigned_less [of c] by simp
  then have "unat c div 128 = (if unat c < 128 then 0 else 1)" by auto
  moreover have "bit c 7 \<longleftrightarrow> bit (unat c) 7" by (simp add: bit_unsigned_iff)
  ultimately show ?thesis by (simp add: bit_iff_odd)
qed

lemma high_bit: "(c :: u8) AND 0x80 = 0 \<longleftrightarrow> unat c < 128"
  using and_exp_eq_0_iff_not_bit [of c 7] by (simp add: bit_7)

lemma low_5_bits: "unat ((c :: u8) AND 31) = unat c mod 32"
proof -
  have "c AND 31 = take_bit 5 c" by (simp add: take_bit_eq_mask mask_eq_exp_minus_1)
  then show ?thesis by (simp add: unat_mod_distrib take_bit_eq_mod)
qed

lemma CharSet_Has_bit:
  "CharSet_Has cs c \<longleftrightarrow> unat c < 128 \<and> bit (m_lowerMap cs ! (unat c div 32)) (unat c mod 32)"
  by (auto simp: CharSet_Has_def high_bit low_5_bits unat_div and_exp_eq_0_iff_not_bit)

lemma charset_add:
  assumes "length (m_lowerMap cs) = 4" "unat c < 128"
  shows "CharSet_Has (cs\<lparr>m_lowerMap := (m_lowerMap cs)[unat (c div 32) :=
      m_lowerMap cs ! unat (c div 32) OR push_bit (unat (c AND 31)) 1]\<rparr>) d \<longleftrightarrow> CharSet_Has cs d \<or> d = c"
proof -
  have c: "unat c div 32 < 4" using assms by simp
  have "unat d div 32 = unat c div 32 \<and> unat d mod 32 = unat c mod 32 \<longleftrightarrow> d = c"
    by (metis div_mult_mod_eq unsigned_word_eqI)
  then show ?thesis
    using assms c
    by (auto simp: CharSet_Has_bit low_5_bits unat_div bit_simps nth_list_update)
qed

lemma charset_loop_ascii:
  assumes "\<forall>c \<in> set s. c \<noteq> 0 \<and> unat c < 128" "length (m_lowerMap cs) = 4"
  shows "CharSet_Has (charset_loop s cs) d \<longleftrightarrow> CharSet_Has cs d \<or> d \<in> set s"
    "m_hasUTF8 (charset_loop s cs) = m_hasUTF8 cs"
  using assms by (induction s arbitrary: cs) (auto simp: high_bit charset_add [simplified])

text \<open>
  The bit map of a set of ASCII characters has exactly the characters of the set: no other byte tests
  positive, and bytes above 127 never do.
\<close>

lemma charset_member:
  assumes "\<forall>c \<in> set s. c \<noteq> 0 \<and> unat c < 128"
  shows "(CharSet_Has (CharSet_new s) d \<longleftrightarrow> d \<in> set s) \<and> \<not> m_hasUTF8 (CharSet_new s)"
proof -
  have z: "[0, 0, 0, 0] = replicate 4 (0 :: u32)" by (simp add: numeral_eq_Suc)
  have "\<not> CharSet_Has \<lparr>m_lowerMap = [0, 0, 0, 0], m_hasUTF8 = False\<rparr> d"
    by (auto simp: CharSet_Has_bit z)
  then show ?thesis
    using charset_loop_ascii [OF assms] by (auto simp: CharSet_new_def)
qed

lemma charset_example:
  "CharSet_Has (CharSet_new [32, 9, 10]) 9" "\<not> CharSet_Has (CharSet_new [32, 9, 10]) 65"
  using charset_member [of "[32, 9, 10]"] by simp_all

section \<open>The public searches\<close>

text \<open>
  C10. The Knuth-Morris-Pratt search used for long strings terminates and returns what the plain search
  used for short strings returns, for every non-empty pattern that fits behind the offset.
\<close>

theorem kmp_equals_plain_search:
  assumes "0 \<notin> set s" "0 \<notin> set p" "p \<noteq> []" "n + length p \<le> length s"
  shows "FindAfter s p n = Some (ShortFindAfter s p n)"
proof -
  obtain r where r: "FindAfter s p n = Some r" "first_at s p n r"
    using FindAfter_first [OF assms(3,4)] by blast
  moreover have "first_at s p n (ShortFindAfter s p n)"
    using assms by (intro ShortFindAfter_first) auto
  ultimately show ?thesis using first_at_unique by blast
qed

theorem kmp_equals_plain_search_witness:
  "FindAfter [97, 97, 98, 97, 97, 99] [97, 97, 99] 0 = Some 3"
  using kmp_equals_plain_search [of "[97, 97, 98, 97, 97, 99]" "[97, 97, 99]" 0]
  by (simp add: ShortFindAfter_def)

lemma FindFirst_from_first:
  assumes "0 \<notin> set s" "0 \<notin> set p" "p \<noteq> []" "0 \<le> from"
  shows "\<exists>r. FindFirst_from s p from = Some r \<and> first_at s p (nat from) r"
proof (cases "int (length p) > int (length s) - from")
  case True
  then have "first_at s p (nat from) (-1)"
    using occurs_le by (fastforce simp: first_at_def)
  then show ?thesis using True assms(3) by (auto simp: FindFirst_from_def)
next
  case False
  moreover have "0 < length p" using assms(3) by simp
  ultimately have fits: "nat from + length p \<le> length s" "s \<noteq> []"
    using assms(4) by (cases p; auto)+
  then show ?thesis
    using assms False ShortFindAfter_first [of s p "nat from"] FindAfter_first [of p "nat from" s]
    by (auto simp: FindFirst_from_def)
qed

text \<open>
  \<open>FindFirst\<close> with an offset in the string returns the first occurrence of the pattern at or behind
  the offset, and -1 exactly when there is none, whichever of the two algorithms the length selects.
\<close>

lemma find_first_correct:
  assumes "0 \<notin> set s" "0 \<notin> set p" "p \<noteq> []" "0 \<le> from"
  shows "\<exists>r. FindFirst_from s p from = Some r \<and> first_at s p (nat from) r"
  using assms by (rule FindFirst_from_first)

lemma find_first_correct_example:
  "FindFirst_from [97, 98, 97, 98] [97, 98] 1 = Some 2"
proof -
  obtain r where r: "FindFirst_from [97, 98, 97, 98] [97, 98] 1 = Some r" "first_at [97, 98, 97, 98] [97, 98] 1 r"
    using find_first_correct [of "[97, 98, 97, 98]" "[97, 98]" 1] by auto
  have "first_at [97, 98, 97, 98] [97, 98] 1 2"
    by (auto simp: first_at_def occurs_def le_less numeral_eq_Suc less_Suc_eq)
  then show ?thesis using r first_at_unique by blast
qed

text \<open>
  \<open>FindLast\<close> before an offset returns the last occurrence of the pattern that ends at or in front of the
  offset, and -1 exactly when there is none.
\<close>

lemma find_last_correct:
  assumes "0 \<notin> set p" "p \<noteq> []"
  shows "last_at s p (nat (min before (int (length s)))) (FindLast_before s p before)"
proof -
  define b where "b = min before (int (length s))"
  have "FindLast_before s p before =
      (if s = [] then -1 else if int (length p) > b then -1 else FindBefore s p (nat b))"
    using assms(2) by (simp add: FindLast_before_def b_def min_def Let_def)
  moreover have "last_at s p (nat b) (-1)" if "s = [] \<or> int (length p) > b"
    using that assms(2) occurs_le [of s p] by (cases p) (auto simp: last_at_def occurs_def)
  moreover have "last_at s p (nat b) (FindBefore s p (nat b))" if "\<not> int (length p) > b"
    using that assms by (intro FindBefore_last) (auto simp: b_def)
  ultimately have "last_at s p (nat b) (FindLast_before s p before)" by (cases "s = []") auto
  then show ?thesis by (simp add: b_def)
qed

lemma find_last_correct_example:
  "last_at [97, 98, 97, 98] [97, 98] 3 (FindLast_before [97, 98, 97, 98] [97, 98] 3)"
  using find_last_correct [of "[97, 98]" "[97, 98, 97, 98]" 3] by simp

text \<open>The searches without case are the searches in the converted strings.\<close>

lemma IFindFirst_from_lower:
  assumes "0 \<notin> set s" "0 \<notin> set p" "p \<noteq> []" "0 \<le> from"
  shows "\<exists>r. IFindFirst_from s p from = Some r \<and>
    first_at (map UTF8SafeToLower s) (map UTF8SafeToLower p) (nat from) r"
proof (cases "int (length p) > int (length s) - from")
  case True
  then have "first_at (map UTF8SafeToLower s) (map UTF8SafeToLower p) (nat from) (-1)"
    using occurs_le by (fastforce simp: first_at_def)
  then show ?thesis using True assms(3) by (auto simp: IFindFirst_from_def)
next
  case False
  moreover have "0 < length p" using assms(3) by simp
  ultimately have "nat from + length p \<le> length s" "s \<noteq> []"
    using assms(4) by (cases p; auto)+
  then show ?thesis
    using assms False ShortFindAfter_first [of "map UTF8SafeToLower s" "map UTF8SafeToLower p" "nat from"]
    by (auto simp: IFindFirst_from_def IFindAfter_map lower_no_zero)
qed

lemma IFindLast_before_lower:
  assumes "0 \<notin> set p" "p \<noteq> []"
  shows "last_at (map UTF8SafeToLower s) (map UTF8SafeToLower p) (nat (min before (int (length s))))
    (IFindLast_before s p before)"
proof -
  define b where "b = min before (int (length s))"
  have "IFindLast_before s p before =
      (if s = [] then -1 else if int (length p) > b then -1 else IFindBefore s p (nat b))"
    using assms(2) by (simp add: IFindLast_before_def b_def min_def Let_def)
  moreover have "last_at (map UTF8SafeToLower s) (map UTF8SafeToLower p) (nat b) (-1)"
    if "s = [] \<or> int (length p) > b"
    using that assms(2) by (cases p) (auto simp: last_at_def occurs_def)
  moreover have "last_at (map UTF8SafeToLower s) (map UTF8SafeToLower p) (nat b) (IFindBefore s p (nat b))"
    if "\<not> int (length p) > b"
    using that assms by (intro IFindBefore_last) (auto simp: b_def)
  ultimately have "last_at (map UTF8SafeToLower s) (map UTF8SafeToLower p) (nat b) (IFindLast_before s p before)"
    by (cases "s = []") auto
  then show ?thesis by (simp add: b_def)
qed

text \<open>Searching for a character of a class.\<close>

lemma index_up_first:
  "index_up q s i = (if \<exists>k < length s. q (s ! k) then int i + int (LEAST k. k < length s \<and> q (s ! k)) else -1)"
proof (induction s arbitrary: i)
  case (Cons c s)
  show ?case
  proof (cases "q c")
    case True
    then have "(LEAST k. k < length (c # s) \<and> q ((c # s) ! k)) = 0" by (intro Least_equality) auto
    then show ?thesis using True by auto
  next
    case False
    have ex: "(\<exists>k < length (c # s). q ((c # s) ! k)) \<longleftrightarrow> (\<exists>k < length s. q (s ! k))"
      using False by (auto simp: less_Suc_eq_0_disj)
    have "(LEAST k. k < length (c # s) \<and> q ((c # s) ! k)) = Suc (LEAST k. k < length s \<and> q (s ! k))"
      if "k < length s" "q (s ! k)" for k
      using Least_Suc [of "\<lambda>k. k < length (c # s) \<and> q ((c # s) ! k)" "Suc k"] that False by simp
    then show ?thesis using Cons.IH [of "i + 1"] False ex by auto
  qed
qed simp

text \<open>An empty C string: the offset-free \<open>FindLast\<close> finds it at the end, all other searches at 0.\<close>

lemma FindLast_c_empty:
  assumes "s \<noteq> []"
  shows "FindLast_c s (Some []) = int (length s)" "FindLast_c_before s (Some []) b = 0" "FindLast s [] = 0"
proof -
  have "cmatch t []" for t by (cases t) simp_all
  then have "before_loop cmatch s [] n = int n" for n by (cases n) simp_all
  then show "FindLast_c s (Some []) = int (length s)" using assms by (simp add: FindLast_c_def FindBefore_def)
qed (use assms in \<open>simp_all add: FindLast_c_before_def FindLast_before_def FindLast_def\<close>)

text \<open>A negative offset is only rejected by the search for a character.\<close>

lemma negative_offset_unchecked:
  assumes "s \<noteq> []" "from < 0" "p \<noteq> []" "length p \<le> length s"
  shows "FindFirst_c_from s p from = None" "FindFirst_from s p from = None"
    "FindFirst_char_from s c from = FindFirst_char s c"
  using assms by (auto simp: FindFirst_c_from_def FindFirst_from_def FindFirst_char_from_def FindFirst_char_def)

end
