(* ===== verification/String_Edit.thy ===== *)
theory String_Edit
  imports String_Search
begin

text \<open>
  The editing functions of \<^verbatim>\<open>SString\<close>, \<^verbatim>\<open>src/libraries/libbinder/support/String.cpp\<close>. An edit
  maps the bytes of the string to the new bytes. \<open>mem n\<close> tells whether the shared buffer can be made
  unique and sized for \<open>n\<close> characters; without memory most functions leave the string as it is. The result \<open>None\<close>
  means that the call does not return normally: it dereferences a null buffer, copies outside of the
  buffer, or loops for ever.
\<close>

type_synonym memory = "nat \<Rightarrow> bool"

text \<open>Bytes read by \<^verbatim>\<open>strnlen(str, n)\<close>; a negative \<open>n\<close> becomes a huge \<^verbatim>\<open>size_t\<close>.\<close>

definition strnlen :: "bytes \<Rightarrow> int \<Rightarrow> nat" where
  "strnlen str n = (if n < 0 then length str else min (length str) (nat n))"

text \<open>\<^verbatim>\<open>memcpy\<close> into a buffer at a position.\<close>

definition overwrite :: "bytes \<Rightarrow> nat \<Rightarrow> bytes \<Rightarrow> bytes" where
  "overwrite buf pos bs = take pos buf @ bs @ drop (pos + length bs) buf"

section \<open>Primitives\<close>

definition DoAppend :: "memory \<Rightarrow> bytes \<Rightarrow> bytes \<Rightarrow> bytes" where
  "DoAppend mem s str =
    (if str = [] then s else if mem (length s + length str) then s @ str else s)"

definition DoPrepend :: "memory \<Rightarrow> bytes \<Rightarrow> bytes \<Rightarrow> bytes" where
  "DoPrepend mem s str =
    (if str = [] then s else if mem (length s + length str) then str @ s else s)"

text \<open>
  \<open>GrowBy\<close> and \<open>OpenAtBy\<close> make room that the caller fills; its contents before that are not specified
  (zero here). The inner \<open>None\<close> is the null pointer they return without memory.
\<close>

definition GrowBy :: "memory \<Rightarrow> bytes \<Rightarrow> int \<Rightarrow> bytes option option" where
  "GrowBy mem s len =
    (if len < 0 then None
     else Some (if mem (length s + nat len) then Some (s @ replicate (nat len) 0) else None))"

definition OpenAtBy :: "memory \<Rightarrow> bytes \<Rightarrow> int \<Rightarrow> int \<Rightarrow> bytes option option" where
  "OpenAtBy mem s offset len =
    (if len < 0 \<or> offset < 0 \<or> offset > int (length s) then None
     else Some (if mem (length s + nat len)
                then Some (take (nat offset) s @ replicate (nat len) 0 @ drop (nat offset) s) else None))"

definition fill_at :: "bytes option option \<Rightarrow> bytes \<Rightarrow> nat \<Rightarrow> bytes \<Rightarrow> bytes option" where
  "fill_at opened s pos bs =
    map_option (\<lambda>r. case r of None \<Rightarrow> s | Some buf \<Rightarrow> overwrite buf pos bs) opened"

definition DoSetTo :: "memory \<Rightarrow> bytes \<Rightarrow> bytes \<Rightarrow> bytes" where
  "DoSetTo mem s str = (if str \<noteq> [] then (if mem (length str) then str else s) else [])"

text \<open>The new string and whether the returned pointer is not null.\<close>

definition ShrinkAtBy :: "memory \<Rightarrow> bytes \<Rightarrow> int \<Rightarrow> int \<Rightarrow> (bytes \<times> bool) option" where
  "ShrinkAtBy mem s offset len =
    (let oldLength = int (length s); fromOffset = offset + len; newLength = oldLength - len in
     if newLength > 0 then
       (if mem (length s) then
          (if offset < 0 \<or> len < 0 \<or> \<not> mem (nat newLength) then None
           else Some (take (nat newLength)
             (if fromOffset < oldLength then take (nat offset) s @ drop (nat fromOffset) s else s), True))
        else Some (s, False))
     else Some ([], False))"

definition Truncate :: "memory \<Rightarrow> bytes \<Rightarrow> int \<Rightarrow> bytes" where
  "Truncate mem s newLength =
    (if newLength < int (length s) then
       (if newLength \<le> 0 then []
        else if mem (nat newLength) then take (nat newLength) s else s)
     else s)"

section \<open>Assigning, appending, inserting\<close>

text \<open>
  A string argument is another object than the string that is edited. Of the calls with the string itself,
  \<open>Append\<close> is modelled separately, and \<open>Prepend\<close> and \<open>Insert\<close> do nothing.
\<close>

definition SetTo_c :: "memory \<Rightarrow> bytes \<Rightarrow> bytes option \<Rightarrow> int \<Rightarrow> bytes" where
  "SetTo_c mem s str maxLength =
    (case str of None \<Rightarrow> [] | Some str \<Rightarrow> DoSetTo mem s (take (strnlen str maxLength) str))"

definition SetTo_char :: "memory \<Rightarrow> bytes \<Rightarrow> u8 \<Rightarrow> int \<Rightarrow> bytes option" where
  "SetTo_char mem s ch len =
    (if len \<noteq> 0 then (if len < 0 \<or> \<not> mem (nat len) then None else Some (replicate (nat len) ch))
     else Some [])"

definition assign_c :: "memory \<Rightarrow> bytes \<Rightarrow> bytes option \<Rightarrow> bytes" where
  "assign_c mem s str = (case str of None \<Rightarrow> [] | Some str \<Rightarrow> DoSetTo mem s str)"

definition SetTo_s :: "memory \<Rightarrow> bytes \<Rightarrow> bytes \<Rightarrow> int \<Rightarrow> bytes option" where
  "SetTo_s mem s string len =
    (let len = (if int (length string) < len then int (length string) else len) in
     if len = int (length string) then Some string
     else if len < 0 then None
     else Some (DoSetTo mem s (take (nat len) string)))"

text \<open>Copying a part of \<open>s\<close> into \<open>target\<close>.\<close>

definition CopyInto :: "memory \<Rightarrow> bytes \<Rightarrow> bytes \<Rightarrow> int \<Rightarrow> int \<Rightarrow> bytes option" where
  "CopyInto mem s target fromOffset len =
    (let len' = (if len \<ge> 0 \<and> fromOffset + len > int (length s) then int (length s) - fromOffset else len) in
     if len \<ge> 0 \<and> len' < 0 then Some target
     else if fromOffset < 0 \<or> fromOffset > int (length s) then None
     else Some (SetTo_c mem target (Some (drop (nat fromOffset) s)) len'))"

definition append_c :: "memory \<Rightarrow> bytes \<Rightarrow> bytes option \<Rightarrow> bytes" where
  "append_c mem s str = (case str of None \<Rightarrow> s | Some str \<Rightarrow> DoAppend mem s str)"

definition append_char :: "memory \<Rightarrow> bytes \<Rightarrow> u8 \<Rightarrow> bytes" where
  "append_char mem s ch = DoAppend mem s [ch]"

definition Append_s :: "memory \<Rightarrow> bytes \<Rightarrow> bytes \<Rightarrow> int \<Rightarrow> bytes option" where
  "Append_s mem s string len =
    (let len = (if len > int (length string) then int (length string) else len) in
     if len < 0 then None else Some (DoAppend mem s (take (nat len) string)))"

text \<open>Appending a string to itself does not check the buffer.\<close>

definition Append_self :: "memory \<Rightarrow> bytes \<Rightarrow> int \<Rightarrow> bytes option" where
  "Append_self mem s len =
    (let len = (if len > int (length s) then int (length s) else len) in
     if len < 0 \<or> \<not> mem (length s + nat len) then None else Some (s @ take (nat len) s))"

definition Append_c :: "memory \<Rightarrow> bytes \<Rightarrow> bytes option \<Rightarrow> int \<Rightarrow> bytes" where
  "Append_c mem s str len =
    (case str of None \<Rightarrow> s | Some str \<Rightarrow> DoAppend mem s (take (strnlen str len) str))"

definition Append_chars :: "memory \<Rightarrow> bytes \<Rightarrow> u8 \<Rightarrow> int \<Rightarrow> bytes option" where
  "Append_chars mem s ch count =
     fill_at (GrowBy mem s count) s (length s) (replicate (nat count) ch)"

definition Prepend_c :: "memory \<Rightarrow> bytes \<Rightarrow> bytes option \<Rightarrow> bytes" where
  "Prepend_c mem s str = (case str of None \<Rightarrow> s | Some str \<Rightarrow> DoPrepend mem s str)"

definition Prepend_s :: "memory \<Rightarrow> bytes \<Rightarrow> bytes \<Rightarrow> bytes" where
  "Prepend_s mem s string = DoPrepend mem s string"

definition Prepend_c_len :: "memory \<Rightarrow> bytes \<Rightarrow> bytes option \<Rightarrow> int \<Rightarrow> bytes" where
  "Prepend_c_len mem s str len =
    (case str of None \<Rightarrow> s | Some str \<Rightarrow> DoPrepend mem s (take (strnlen str len) str))"

definition Prepend_s_len :: "memory \<Rightarrow> bytes \<Rightarrow> bytes \<Rightarrow> int \<Rightarrow> bytes option" where
  "Prepend_s_len mem s string len =
    (let len = (if len > int (length string) then int (length string) else len) in
     if len < 0 then None else Some (DoPrepend mem s (take (nat len) string)))"

definition Prepend_chars :: "memory \<Rightarrow> bytes \<Rightarrow> u8 \<Rightarrow> int \<Rightarrow> bytes option" where
  "Prepend_chars mem s ch count = fill_at (OpenAtBy mem s 0 count) s 0 (replicate (nat count) ch)"

definition Insert_c :: "memory \<Rightarrow> bytes \<Rightarrow> bytes option \<Rightarrow> int \<Rightarrow> bytes option" where
  "Insert_c mem s str pos =
    (case str of
       None \<Rightarrow> Some s
     | Some str \<Rightarrow> fill_at (OpenAtBy mem s pos (int (length str))) s (nat pos) str)"

definition Insert_c_len :: "memory \<Rightarrow> bytes \<Rightarrow> bytes option \<Rightarrow> int \<Rightarrow> int \<Rightarrow> bytes option" where
  "Insert_c_len mem s str len pos =
    (case str of
       None \<Rightarrow> Some s
     | Some str \<Rightarrow>
        if len \<noteq> 0 then
          (let n = strnlen str len in fill_at (OpenAtBy mem s pos (int n)) s (nat pos) (take n str))
        else Some s)"

definition Insert_c_from :: "memory \<Rightarrow> bytes \<Rightarrow> bytes option \<Rightarrow> int \<Rightarrow> int \<Rightarrow> int \<Rightarrow> bytes option" where
  "Insert_c_from mem s str fromOffset len pos =
    (case str of
       None \<Rightarrow> Some s
     | Some str \<Rightarrow>
        if len \<noteq> 0 then
          (if fromOffset < 0 \<or> fromOffset > int (length str) then None
           else (let str = drop (nat fromOffset) str; n = strnlen str len
                 in fill_at (OpenAtBy mem s pos (int n)) s (nat pos) (take n str)))
        else Some s)"

definition Insert_s :: "memory \<Rightarrow> bytes \<Rightarrow> bytes \<Rightarrow> int \<Rightarrow> bytes option" where
  "Insert_s mem s string pos =
    (if string \<noteq> [] then fill_at (OpenAtBy mem s pos (int (length string))) s (nat pos) string else Some s)"

definition Insert_s_len :: "memory \<Rightarrow> bytes \<Rightarrow> bytes \<Rightarrow> int \<Rightarrow> int \<Rightarrow> bytes option" where
  "Insert_s_len mem s string len pos =
    (let len = (if len > int (length string) then int (length string) else len) in
     if len \<noteq> 0 then fill_at (OpenAtBy mem s pos len) s (nat pos) (take (nat len) string) else Some s)"

definition Insert_s_from :: "memory \<Rightarrow> bytes \<Rightarrow> bytes \<Rightarrow> int \<Rightarrow> int \<Rightarrow> int \<Rightarrow> bytes option" where
  "Insert_s_from mem s string fromOffset len pos =
    (let len = (if len > int (length string) - fromOffset then int (length string) - fromOffset else len) in
     if len \<noteq> 0 then
       (if fromOffset < 0 then None
        else fill_at (OpenAtBy mem s pos len) s (nat pos) (take (nat len) (drop (nat fromOffset) string)))
     else Some s)"

definition Insert_chars :: "memory \<Rightarrow> bytes \<Rightarrow> u8 \<Rightarrow> int \<Rightarrow> int \<Rightarrow> bytes option" where
  "Insert_chars mem s ch count pos =
    (if count \<noteq> 0 then fill_at (OpenAtBy mem s pos count) s (nat pos) (replicate (nat count) ch) else Some s)"

section \<open>Removing\<close>

definition Remove_at :: "memory \<Rightarrow> bytes \<Rightarrow> int \<Rightarrow> int \<Rightarrow> bytes option" where
  "Remove_at mem s from len =
    (if len > 0 \<and> from < int (length s) then
       map_option fst (ShrinkAtBy mem s from (if len > int (length s) - from then int (length s) - from else len))
     else Some s)"

definition MoveInto :: "memory \<Rightarrow> bytes \<Rightarrow> bytes \<Rightarrow> int \<Rightarrow> int \<Rightarrow> (bytes \<times> bytes) option" where
  "MoveInto mem s into from len =
    (if len \<noteq> 0 then
       Option.bind (CopyInto mem s into from len) (\<lambda>into.
         map_option (\<lambda>s. (s, into)) (Remove_at mem s from len))
     else Some (s, into))"

definition RemoveFirst :: "memory \<Rightarrow> bytes \<Rightarrow> bytes \<Rightarrow> bytes option" where
  "RemoveFirst mem s string =
    (if string \<noteq> [] then
       Option.bind (FindFirst s string) (\<lambda>index.
         if index \<ge> 0 then map_option fst (ShrinkAtBy mem s index (int (length string))) else Some s)
     else Some s)"

definition RemoveLast :: "memory \<Rightarrow> bytes \<Rightarrow> bytes \<Rightarrow> bytes option" where
  "RemoveLast mem s string =
    (if string \<noteq> [] then
       (let index = FindLast s string in
        if index \<ge> 0 then map_option fst (ShrinkAtBy mem s index (int (length string))) else Some s)
     else Some s)"

definition RemoveFirst_c :: "memory \<Rightarrow> bytes \<Rightarrow> bytes option \<Rightarrow> bytes option" where
  "RemoveFirst_c mem s str =
    (case str of None \<Rightarrow> Some s | Some str \<Rightarrow>
       if str \<noteq> [] then
         (let index = FindFirst_c s str in
          if index \<ge> 0 then map_option fst (ShrinkAtBy mem s index (int (length str))) else Some s)
       else Some s)"

definition RemoveLast_c :: "memory \<Rightarrow> bytes \<Rightarrow> bytes option \<Rightarrow> bytes option" where
  "RemoveLast_c mem s str =
    (case str of None \<Rightarrow> Some s | Some str \<Rightarrow>
       if str \<noteq> [] then
         (let index = FindLast_c s (Some str) in
          if index \<ge> 0 then map_option fst (ShrinkAtBy mem s index (int (length str))) else Some s)
       else Some s)"

partial_function (option) remove_all_loop ::
  "(bytes \<Rightarrow> int \<Rightarrow> int option) \<Rightarrow> memory \<Rightarrow> int \<Rightarrow> bytes \<Rightarrow> int \<Rightarrow> bytes option" where
  "remove_all_loop search mem len s index =
    Option.bind (search s index) (\<lambda>index.
      if index < 0 then Some s
      else Option.bind (ShrinkAtBy mem s index len) (\<lambda>(s, _). remove_all_loop search mem len s index))"

definition RemoveAll :: "memory \<Rightarrow> bytes \<Rightarrow> bytes \<Rightarrow> bytes option" where
  "RemoveAll mem s pattern =
    (if pattern \<noteq> [] then
       remove_all_loop (\<lambda>s i. FindFirst_from s pattern i) mem (int (length pattern)) s 0
     else Some s)"

definition RemoveAll_c :: "memory \<Rightarrow> bytes \<Rightarrow> bytes option \<Rightarrow> bytes option" where
  "RemoveAll_c mem s str =
    (case str of None \<Rightarrow> Some s | Some str \<Rightarrow>
       if str \<noteq> [] then remove_all_loop (\<lambda>s i. FindFirst_c_from s str i) mem (int (length str)) s 0
       else Some s)"

section \<open>Replacing\<close>

definition DoReplaceAt :: "memory \<Rightarrow> bytes \<Rightarrow> int \<Rightarrow> int \<Rightarrow> bytes \<Rightarrow> bytes option" where
  "DoReplaceAt mem s offset sourceLength withThis =
    (let replaceLength = int (length withThis) in
     if sourceLength < replaceLength then
       fill_at (OpenAtBy mem s offset (replaceLength - sourceLength)) s (nat offset) withThis
     else if sourceLength > replaceLength then
       map_option (\<lambda>(s, dest). if dest then overwrite s (nat offset) withThis else s)
         (ShrinkAtBy mem s offset (sourceLength - replaceLength))
     else if replaceLength \<noteq> 0 then
       Some (if mem (length s) then overwrite s (nat offset) withThis else s)
     else Some s)"

text \<open>A null \<^verbatim>\<open>withThis\<close> counts as an empty string.\<close>

definition c_bytes :: "bytes option \<Rightarrow> bytes" where
  "c_bytes str = (case str of None \<Rightarrow> [] | Some str \<Rightarrow> str)"

definition ReplaceFirst :: "memory \<Rightarrow> bytes \<Rightarrow> bytes option \<Rightarrow> bytes option \<Rightarrow> bytes option" where
  "ReplaceFirst mem s replaceThis withThis =
    (case replaceThis of None \<Rightarrow> Some s | Some p \<Rightarrow>
       let offset = FindFirst_c s p in
       if offset \<ge> 0 then DoReplaceAt mem s offset (int (length p)) (c_bytes withThis) else Some s)"

definition ReplaceLast :: "memory \<Rightarrow> bytes \<Rightarrow> bytes option \<Rightarrow> bytes option \<Rightarrow> bytes option" where
  "ReplaceLast mem s replaceThis withThis =
    (case replaceThis of None \<Rightarrow> Some s | Some p \<Rightarrow>
       let offset = FindLast_c s (Some p) in
       if offset \<ge> 0 then DoReplaceAt mem s offset (int (length p)) (c_bytes withThis) else Some s)"

definition IReplaceFirst :: "memory \<Rightarrow> bytes \<Rightarrow> bytes option \<Rightarrow> bytes option \<Rightarrow> bytes option" where
  "IReplaceFirst mem s replaceThis withThis =
    (case replaceThis of None \<Rightarrow> Some s | Some p \<Rightarrow>
       let offset = IFindFirst_c s (Some p) in
       if offset \<ge> 0 then DoReplaceAt mem s offset (int (length p)) (c_bytes withThis) else Some s)"

definition IReplaceLast :: "memory \<Rightarrow> bytes \<Rightarrow> bytes option \<Rightarrow> bytes option \<Rightarrow> bytes option" where
  "IReplaceLast mem s replaceThis withThis =
    (case replaceThis of None \<Rightarrow> Some s | Some p \<Rightarrow>
       let offset = IFindLast_c s (Some p) in
       if offset \<ge> 0 then DoReplaceAt mem s offset (int (length p)) (c_bytes withThis) else Some s)"

text \<open>
  The loop of the four functions that replace several occurrences; \<open>limit\<close> is \<open>None\<close> for those without a
  maximal count. \<open>len\<close> is the local variable \<^verbatim>\<open>length\<close>, which is adjusted even if there was no memory.
\<close>

definition below :: "int \<Rightarrow> int option \<Rightarrow> bool" where
  "below count limit = (case limit of None \<Rightarrow> True | Some m \<Rightarrow> count < m)"

partial_function (option) replace_loop ::
  "(bytes \<Rightarrow> bytes \<Rightarrow> int \<Rightarrow> int option) \<Rightarrow> memory \<Rightarrow> bytes \<Rightarrow> bytes \<Rightarrow> int option
   \<Rightarrow> bytes \<Rightarrow> int \<Rightarrow> int \<Rightarrow> int \<Rightarrow> bytes option" where
  "replace_loop search mem p w limit s len offset count =
    (if offset < len \<and> below count limit then
       Option.bind (search s p offset) (\<lambda>offset.
         if offset < 0 then Some s
         else Option.bind (DoReplaceAt mem s offset (int (length p)) w) (\<lambda>s.
           replace_loop search mem p w limit s (len + (int (length w) - int (length p)))
             (offset + int (length w)) (count + 1)))
     else Some s)"

definition ReplaceAll :: "memory \<Rightarrow> bytes \<Rightarrow> bytes option \<Rightarrow> bytes option \<Rightarrow> int \<Rightarrow> bytes option" where
  "ReplaceAll mem s replaceThis withThis fromOffset =
    (case replaceThis of None \<Rightarrow> Some s | Some p \<Rightarrow>
       replace_loop FindFirst_c_from mem p (c_bytes withThis) None s (int (length s)) fromOffset 0)"

definition Replace :: "memory \<Rightarrow> bytes \<Rightarrow> bytes option \<Rightarrow> bytes option \<Rightarrow> int \<Rightarrow> int \<Rightarrow> bytes option" where
  "Replace mem s replaceThis withThis maxReplaceCount fromOffset =
    (case replaceThis of None \<Rightarrow> Some s | Some p \<Rightarrow>
       replace_loop FindFirst_c_from mem p (c_bytes withThis) (Some maxReplaceCount)
         s (int (length s)) fromOffset 0)"

definition IReplaceAll :: "memory \<Rightarrow> bytes \<Rightarrow> bytes option \<Rightarrow> bytes option \<Rightarrow> int \<Rightarrow> bytes option" where
  "IReplaceAll mem s replaceThis withThis fromOffset =
    (case replaceThis of None \<Rightarrow> Some s | Some p \<Rightarrow>
       replace_loop (\<lambda>s p. IFindFirst_c_from s (Some p)) mem p (c_bytes withThis) None
         s (int (length s)) fromOffset 0)"

definition IReplace :: "memory \<Rightarrow> bytes \<Rightarrow> bytes option \<Rightarrow> bytes option \<Rightarrow> int \<Rightarrow> int \<Rightarrow> bytes option" where
  "IReplace mem s replaceThis withThis maxReplaceCount fromOffset =
    (case replaceThis of None \<Rightarrow> Some s | Some p \<Rightarrow>
       replace_loop (\<lambda>s p. IFindFirst_c_from s (Some p)) mem p (c_bytes withThis) (Some maxReplaceCount)
         s (int (length s)) fromOffset 0)"

section \<open>What replacing means\<close>

text \<open>
  The reference: from left to right, each occurrence that does not overlap a replaced one, at most
  \<open>limit\<close> of them. \<open>conv\<close> is the conversion under which bytes are compared.
\<close>

function replace_ref :: "(u8 \<Rightarrow> u8) \<Rightarrow> bytes \<Rightarrow> bytes \<Rightarrow> int option \<Rightarrow> bytes \<Rightarrow> bytes" where
  "replace_ref conv p w limit s =
    (if p = [] \<or> s = [] \<or> \<not> below 0 limit then s
     else if occurs (map conv s) (map conv p) 0 then
       w @ replace_ref conv p w (map_option (\<lambda>m. m - 1) limit) (drop (length p) s)
     else hd s # replace_ref conv p w limit (tl s))"
  by pat_completeness auto
termination by (relation "measure (\<lambda>(_, _, _, _, s). length s)") auto

declare replace_ref.simps [simp del]

lemma replace_ref_id:
  "p = [] \<or> s = [] \<or> \<not> below 0 limit \<Longrightarrow> replace_ref conv p w limit s = s"
  by (subst replace_ref.simps) auto

lemma replace_ref_skip:
  assumes "\<forall>i < k. \<not> occurs (map conv s) (map conv p) i" "k \<le> length s"
  shows "replace_ref conv p w limit s = take k s @ replace_ref conv p w limit (drop k s)"
  using assms
proof (induction k arbitrary: s)
  case (Suc k)
  then obtain c t where s: "s = c # t" by (cases s) auto
  have t: "\<forall>i < k. \<not> occurs (map conv t) (map conv p) i"
  proof (intro allI impI)
    fix i assume "i < k"
    then have "\<not> occurs (map conv s) (map conv p) (Suc i)" using Suc.prems(1) by auto
    then show "\<not> occurs (map conv t) (map conv p) i" by (simp add: s occurs_Suc)
  qed
  show ?case
  proof (cases "p = [] \<or> \<not> below 0 limit")
    case True
    then show ?thesis by (auto simp: replace_ref_id)
  next
    case False
    then have "replace_ref conv p w limit s = c # replace_ref conv p w limit t"
      using Suc.prems(1) by (subst replace_ref.simps) (auto simp: s)
    then show ?thesis using Suc.IH [OF t] Suc.prems(2) by (simp add: s)
  qed
qed simp

lemma replace_ref_none:
  assumes "\<forall>i. \<not> occurs (map conv s) (map conv p) i"
  shows "replace_ref conv p w limit s = s"
  using replace_ref_skip [of "length s" conv s p w limit] assms
  by (simp add: replace_ref_id)

lemma replace_ref_occurs:
  assumes "occurs (map conv s) (map conv p) 0" "p \<noteq> []" "below 0 limit"
  shows "replace_ref conv p w limit s = w @ replace_ref conv p w (map_option (\<lambda>m. m - 1) limit) (drop (length p) s)"
  using assms by (subst replace_ref.simps) (auto simp: occurs_def)

text \<open>One step of a replacing loop: the first occurrence at or behind \<open>i\<close> is replaced.\<close>

lemma replace_ref_step:
  assumes "first_at (map conv s) (map conv p) i (int k)" "p \<noteq> []" "below 0 limit"
  shows "take i s @ replace_ref conv p w limit (drop i s) =
    take k s @ w @ replace_ref conv p w (map_option (\<lambda>m. m - 1) limit) (drop (k + length p) s)"
proof -
  have k: "i \<le> k" "occurs (map conv s) (map conv p) k" "\<forall>j. i \<le> j \<and> j < k \<longrightarrow> \<not> occurs (map conv s) (map conv p) j"
    using assms(1) by (auto simp: first_at_def)
  then have len: "k + length p \<le> length s" using occurs_le [OF k(2)] by simp
  have "\<forall>j < k - i. \<not> occurs (map conv (drop i s)) (map conv p) j"
    using k(1,3) len by (simp add: drop_map [symmetric] occurs_drop)
  then have "replace_ref conv p w limit (drop i s) =
      take (k - i) (drop i s) @ replace_ref conv p w limit (drop k s)"
    using replace_ref_skip [of "k - i" conv "drop i s" p w limit] k(1) len by simp
  moreover have "occurs (map conv (drop k s)) (map conv p) 0"
    using k(2) len by (simp add: drop_map [symmetric] occurs_drop)
  ultimately show ?thesis
    using replace_ref_occurs [of conv "drop k s" p limit w] assms(2,3) k(1) len
    by (simp add: take_add [symmetric] add.commute flip: append_assoc)
qed

lemma replace_ref_stop:
  assumes "first_at (map conv s) (map conv p) i (-1)"
  shows "take i s @ replace_ref conv p w limit (drop i s) = s"
proof (cases "i \<le> length s")
  case True
  then have "\<forall>j. \<not> occurs (map conv (drop i s)) (map conv p) j"
    using assms by (simp add: first_at_def drop_map [symmetric] occurs_drop)
  then show ?thesis by (simp add: replace_ref_none)
qed (simp add: replace_ref_id)

lemma ShrinkAtBy_ok:
  assumes "\<forall>n. mem n" "k + n \<le> length s"
  shows "ShrinkAtBy mem s (int k) (int n) = Some (take k s @ drop (k + n) s, n < length s)"
proof -
  have "nat (int (length s) - int n) = length s - n" "nat (int k + int n) = k + n" using assms(2) by auto
  moreover have "length s - n = k" if "\<not> k + n < length s" using assms(2) that by simp
  ultimately show ?thesis using assms by (auto simp: ShrinkAtBy_def Let_def)
qed

lemma DoReplaceAt_ok:
  assumes "\<forall>n. mem n" "k + n \<le> length s"
  shows "DoReplaceAt mem s (int k) (int n) w = Some (take k s @ w @ drop (k + n) s)"
proof -
  consider "n < length w" | "n > length w" | "n = length w" by linarith
  then show ?thesis
  proof cases
    case 1
    then have "nat (int (length w) - int n) = length w - n" by simp
    then show ?thesis using 1 assms
      by (auto simp: DoReplaceAt_def Let_def OpenAtBy_def fill_at_def overwrite_def min_def drop_append)
  next
    case 2
    define d where "d = n - length w"
    have i: "int n - int (length w) = int d" using 2 by (simp add: d_def)
    have sh: "ShrinkAtBy mem s (int k) (int d) = Some (take k s @ drop (k + d) s, d < length s)"
      using assms 2 by (intro ShrinkAtBy_ok) (auto simp: d_def)
    have k: "length (take k s) = k" "n = d + length w" using assms(2) 2 by (simp_all add: d_def)
    have "overwrite (take k s @ drop (k + d) s) k w = take k s @ w @ drop (k + n) s"
      using k by (simp add: overwrite_def add_ac)
    moreover have "take k s @ drop (k + d) s = take k s @ w @ drop (k + n) s" if "\<not> d < length s"
      using that k assms(2) by (cases w) auto
    ultimately show ?thesis using 2 sh by (auto simp: DoReplaceAt_def Let_def i)
  next
    case 3
    then show ?thesis using assms by (auto simp: DoReplaceAt_def overwrite_def)
  qed
qed

section \<open>The interface between searching and replacing\<close>

text \<open>
  What the replacing loops rely on: a search from an offset returns, and finds the first occurrence in
  the converted bytes. It is provided by \<open>FindFirst\<close> with a string and with a C string, and by \<open>IFindFirst\<close>.
\<close>

locale finder =
  fixes search :: "bytes \<Rightarrow> bytes \<Rightarrow> int \<Rightarrow> int option"
    and conv :: "u8 \<Rightarrow> u8"
  assumes search_first: "0 \<notin> set s \<Longrightarrow> 0 \<notin> set p \<Longrightarrow> p \<noteq> [] \<Longrightarrow>
    \<exists>r. search s p (int i) = Some r \<and> first_at (map conv s) (map conv p) i r"
begin

lemma search_cases:
  assumes "0 \<notin> set s" "0 \<notin> set p" "p \<noteq> []"
  obtains (found) k where "search s p (int i) = Some (int k)" "first_at (map conv s) (map conv p) i (int k)"
      "i \<le> k" "k + length p \<le> length s"
    | (missing) "search s p (int i) = Some (-1)" "first_at (map conv s) (map conv p) i (-1)"
proof -
  obtain r where r: "search s p (int i) = Some r" "first_at (map conv s) (map conv p) i r"
    using search_first [OF assms] by blast
  show ?thesis
  proof (cases "r = -1")
    case True
    then show ?thesis using r missing by simp
  next
    case False
    then have k: "0 \<le> r" "i \<le> nat r" "occurs (map conv s) (map conv p) (nat r)"
      using r(2) by (auto simp: first_at_def)
    then show ?thesis using r found [of "nat r"] occurs_le [OF k(3)] by simp
  qed
qed

lemma remove_all_loop_ok:
  assumes "\<forall>n. mem n" "0 \<notin> set p" "p \<noteq> []"
  shows "0 \<notin> set s \<Longrightarrow> remove_all_loop (\<lambda>s i. search s p i) mem (int (length p)) s (int i) =
    Some (take i s @ replace_ref conv p [] None (drop i s))"
proof (induction "length s" arbitrary: s i rule: less_induct)
  case less
  from less.prems assms(2,3) show ?case
  proof (cases rule: search_cases [where i = i])
    case (found k)
    define t where "t = take k s @ drop (k + length p) s"
    obtain m where "length p = Suc m" using assms(3) by (cases p) auto
    then have t: "length t < length s" "0 \<notin> set t" "take k t = take k s" "drop k t = drop (k + length p) s"
      using found(4) less.prems by (auto simp: t_def dest: in_set_takeD in_set_dropD)
    have "remove_all_loop (\<lambda>s i. search s p i) mem (int (length p)) s (int i) =
        remove_all_loop (\<lambda>s i. search s p i) mem (int (length p)) t (int k)"
      by (subst remove_all_loop.simps) (simp add: found(1) ShrinkAtBy_ok [OF assms(1) found(4)] t_def)
    then show ?thesis
      using less.hyps [OF t(1,2), of k] t(3,4)
        replace_ref_step [OF found(2) assms(3), of None "[]"] by (simp add: below_def)
  next
    case missing
    then show ?thesis
      using replace_ref_stop [OF missing(2)] by (subst remove_all_loop.simps) simp
  qed
qed

lemma replace_loop_ok:
  assumes "\<forall>n. mem n" "0 \<notin> set p" "p \<noteq> []" "0 \<notin> set w"
  shows "0 \<notin> set s \<Longrightarrow> i \<le> length s \<Longrightarrow>
    replace_loop search mem p w limit s (int (length s)) (int i) count =
    Some (take i s @ replace_ref conv p w (map_option (\<lambda>m. m - count) limit) (drop i s))"
proof (induction "length s - i" arbitrary: s i count rule: less_induct)
  case less
  show ?case
  proof (cases "int i < int (length s) \<and> below count limit")
    case False
    then have "drop i s = [] \<or> \<not> below 0 (map_option (\<lambda>m. m - count) limit)"
      using less.prems(2) by (auto simp: below_def split: option.splits)
    then show ?thesis using False by (subst replace_loop.simps) (auto simp: replace_ref_id)
  next
    case True
    then have b: "below 0 (map_option (\<lambda>m. m - count) limit)" by (auto simp: below_def split: option.splits)
    from less.prems(1) assms(2,3) show ?thesis
    proof (cases rule: search_cases [where i = i])
      case (found k)
      define t where "t = take k s @ w @ drop (k + length p) s"
      have rep: "DoReplaceAt mem s (int k) (int (length p)) w = Some t"
        using DoReplaceAt_ok [OF assms(1) found(4)] by (simp add: t_def)
      have lt: "int (length t) = int (length s) + (int (length w) - int (length p))"
        using found(4) by (simp add: t_def)
      obtain m where "length p = Suc m" using assms(3) by (cases p) auto
      then have t: "length t - (k + length w) < length s - i" "0 \<notin> set t" "k + length w \<le> length t"
        "take (k + length w) t = take k s @ w" "drop (k + length w) t = drop (k + length p) s"
        using found(3,4) assms(4) less.prems(1)
        by (auto simp: t_def dest: in_set_takeD in_set_dropD)
      have "replace_loop search mem p w limit s (int (length s)) (int i) count =
          replace_loop search mem p w limit t (int (length t)) (int (k + length w)) (count + 1)"
        using True by (subst replace_loop.simps) (simp add: found(1) rep lt)
      moreover have "map_option (\<lambda>m. m - 1) (map_option (\<lambda>m. m - count) limit) =
          map_option (\<lambda>m. m - (count + 1)) limit" by (cases limit) auto
      ultimately show ?thesis
        using less.hyps [OF t(1,2,3), of "count + 1"] t(4,5) replace_ref_step [OF found(2) assms(3) b, of w]
        by simp
    next
      case missing
      then show ?thesis
        using True replace_ref_stop [OF missing(2)] by (subst replace_loop.simps) simp
    qed
  qed
qed

end

interpretation ff: finder FindFirst_from "\<lambda>c. c"
proof
  fix s p :: bytes and i
  assume "0 \<notin> set s" "0 \<notin> set p" "p \<noteq> []"
  then show "\<exists>r. FindFirst_from s p (int i) = Some r \<and> first_at (map (\<lambda>c. c) s) (map (\<lambda>c. c) p) i r"
    using FindFirst_from_first [of s p "int i"] by simp
qed

interpretation fc: finder FindFirst_c_from "\<lambda>c. c"
proof
  fix s p :: bytes and i
  assume "0 \<notin> set s" "0 \<notin> set p" "p \<noteq> []"
  then show "\<exists>r. FindFirst_c_from s p (int i) = Some r \<and> first_at (map (\<lambda>c. c) s) (map (\<lambda>c. c) p) i r"
    using ShortFindAfter_first [of s p i] first_at_end [of p s i] by (auto simp: FindFirst_c_from_def)
qed

interpretation fi: finder "\<lambda>s p. IFindFirst_c_from s (Some p)" UTF8SafeToLower
proof
  fix s p :: bytes and i
  assume "0 \<notin> set s" "0 \<notin> set p" "p \<noteq> []"
  then show "\<exists>r. IFindFirst_c_from s (Some p) (int i) = Some r \<and>
      first_at (map UTF8SafeToLower s) (map UTF8SafeToLower p) i r"
    using IFindFirst_from_lower [of s p "int i"] by (simp add: IFindFirst_c_from_def)
qed

text \<open>Concrete replacements.\<close>

lemma replace_ref_example:
  "replace_ref (\<lambda>c. c) [97, 98] [120] None [97, 98, 99, 97, 98, 98] = [120, 99, 120, 98]"
  by (simp add: replace_ref.simps occurs_def below_def)

text \<open>
  Loops that never end. The value \<open>None\<close> of a loop stands for a call that faults and for one that does not
  return; to tell them apart, the loops are also given round by round. A round faults (\<open>None\<close>), returns (\<open>Inr\<close>) or goes
  on with new values of the variables (\<open>Inl\<close>). A loop runs for ever if after any number of rounds it has
  neither faulted nor returned.
\<close>

primrec rounds :: "nat \<Rightarrow> ('v \<Rightarrow> ('v + 'r) option) \<Rightarrow> 'v \<Rightarrow> ('v + 'r) option" where
  "rounds 0 f v = Some (Inl v)"
| "rounds (Suc n) f v = Option.bind (rounds n f v) (\<lambda>u. case u of Inl v \<Rightarrow> f v | Inr r \<Rightarrow> Some (Inr r))"

definition runs_for_ever :: "('v \<Rightarrow> ('v + 'r) option) \<Rightarrow> 'v \<Rightarrow> bool" where
  "runs_for_ever f v \<longleftrightarrow> (\<forall>n. \<exists>u. rounds n f v = Some (Inl u))"

lemma runs_for_everI:
  assumes "I v" "\<And>v. I v \<Longrightarrow> \<exists>u. f v = Some (Inl u) \<and> I u"
  shows "runs_for_ever f v"
proof -
  have "\<exists>u. rounds n f v = Some (Inl u) \<and> I u" for n
  proof (induction n)
    case (Suc n)
    then obtain u where "rounds n f v = Some (Inl u)" "I u" by auto
    then show ?case using assms(2) [of u] by auto
  qed (use assms(1) in simp)
  then show ?thesis unfolding runs_for_ever_def by blast
qed

definition remove_all_round ::
  "(bytes \<Rightarrow> int \<Rightarrow> int option) \<Rightarrow> memory \<Rightarrow> int \<Rightarrow> bytes \<times> int \<Rightarrow> ((bytes \<times> int) + bytes) option" where
  "remove_all_round search mem len = (\<lambda>(s, index).
    Option.bind (search s index) (\<lambda>index.
      if index < 0 then Some (Inr s)
      else Option.bind (ShrinkAtBy mem s index len) (\<lambda>(s, _). Some (Inl (s, index)))))"

lemma remove_all_loop_round:
  "remove_all_loop search mem len s index = Option.bind (remove_all_round search mem len (s, index))
     (\<lambda>u. case u of Inl (s, index) \<Rightarrow> remove_all_loop search mem len s index | Inr s \<Rightarrow> Some s)"
  by (subst remove_all_loop.simps) (auto simp: remove_all_round_def split: bind_splits)

definition replace_round ::
  "(bytes \<Rightarrow> bytes \<Rightarrow> int \<Rightarrow> int option) \<Rightarrow> memory \<Rightarrow> bytes \<Rightarrow> bytes \<Rightarrow> int option
   \<Rightarrow> bytes \<times> int \<times> int \<times> int \<Rightarrow> ((bytes \<times> int \<times> int \<times> int) + bytes) option" where
  "replace_round search mem p w limit = (\<lambda>(s, len, offset, count).
    if offset < len \<and> below count limit then
       Option.bind (search s p offset) (\<lambda>offset.
         if offset < 0 then Some (Inr s)
         else Option.bind (DoReplaceAt mem s offset (int (length p)) w) (\<lambda>s.
           Some (Inl (s, len + (int (length w) - int (length p)), offset + int (length w), count + 1))))
     else Some (Inr s))"

lemma replace_loop_round:
  "replace_loop search mem p w limit s len offset count =
     Option.bind (replace_round search mem p w limit (s, len, offset, count))
       (\<lambda>u. case u of Inl (s, len, offset, count) \<Rightarrow> replace_loop search mem p w limit s len offset count
          | Inr s \<Rightarrow> Some s)"
  by (subst replace_loop.simps) (auto simp: replace_round_def split: bind_splits)

lemma remove_all_loop_hangs:
  assumes stay: "\<forall>i \<in> I. \<exists>k \<in> I. 0 \<le> k \<and> search s i = Some k \<and> ShrinkAtBy mem s k len = Some (s, False)"
    and "i \<in> I"
  shows "remove_all_loop search mem len s i = None" "runs_for_ever (remove_all_round search mem len) (s, i)"
proof -
  show "runs_for_ever (remove_all_round search mem len) (s, i)"
  proof (rule runs_for_everI [where I = "\<lambda>(t, j). t = s \<and> j \<in> I"], goal_cases)
    case (2 v)
    then obtain k where "k \<in> I" "0 \<le> k" "search s (snd v) = Some k" "ShrinkAtBy mem s k len = Some (s, False)"
      using stay by auto
    then show ?case using 2 by (auto simp: remove_all_round_def)
  qed (use assms(2) in simp)
  show "remove_all_loop search mem len s i = None"
  proof (rule ccontr)
    assume "remove_all_loop search mem len s i \<noteq> None"
    then obtain y where y: "remove_all_loop search mem len s i = Some y" by auto
    have "search = search \<and> mem = mem \<and> len = len \<and> s = s \<and> i \<in> I \<longrightarrow> False"
    proof (rule remove_all_loop.raw_induct
        [where P = "\<lambda>f m l t j y. f = search \<and> m = mem \<and> l = len \<and> t = s \<and> j \<in> I \<longrightarrow> False", OF _ y], intro impI)
      fix loop f m l t j z
      assume IH: "\<And>f m l t j z. loop f m l t j = Some z \<Longrightarrow>
          f = search \<and> m = mem \<and> l = len \<and> t = s \<and> j \<in> I \<longrightarrow> False"
        and step: "Option.bind (f t j) (\<lambda>j. if j < 0 then Some t
            else Option.bind (ShrinkAtBy m t j l) (\<lambda>(t, _). loop f m l t j)) = Some z"
        and j: "f = search \<and> m = mem \<and> l = len \<and> t = s \<and> j \<in> I"
      obtain k where k: "k \<in> I" "0 \<le> k" "search s j = Some k" "ShrinkAtBy mem s k len = Some (s, False)"
        using stay j by blast
      have "loop search mem len s k = Some z" using step j k by simp
      from IH [OF this] k(1) show False by simp
    qed
    then show False using assms(2) by simp
  qed
qed

lemma replace_loop_hangs:
  assumes empty: "\<And>i. 0 \<le> i \<Longrightarrow> i < int (length s) \<Longrightarrow> search s [] i = Some 0"
    and i: "0 \<le> i" "i < int (length s)"
  shows "replace_loop search mem [] [] None s (int (length s)) i count = None"
    "runs_for_ever (replace_round search mem [] [] None) (s, int (length s), i, count)"
proof -
  show "runs_for_ever (replace_round search mem [] [] None) (s, int (length s), i, count)"
    by (rule runs_for_everI [where I = "\<lambda>(t, l, j, _). t = s \<and> l = int (length s) \<and> 0 \<le> j \<and> j < l"])
      (use i empty in \<open>auto simp: replace_round_def below_def DoReplaceAt_def\<close>)
  show "replace_loop search mem [] [] None s (int (length s)) i count = None"
  proof (rule ccontr)
    assume "replace_loop search mem [] [] None s (int (length s)) i count \<noteq> None"
    then obtain y where y: "replace_loop search mem [] [] None s (int (length s)) i count = Some y" by auto
    have "search = search \<and> mem = mem \<and> [] = ([] :: bytes) \<and> [] = ([] :: bytes) \<and> None = (None :: int option) \<and> s = s \<and>
        int (length s) = int (length s) \<and> 0 \<le> i \<and> i < int (length s) \<longrightarrow> False"
    proof (rule replace_loop.raw_induct
        [where P = "\<lambda>f m p w lim t l j c y. f = search \<and> m = mem \<and> p = [] \<and> w = [] \<and> lim = None \<and> t = s \<and>
          l = int (length s) \<and> 0 \<le> j \<and> j < l \<longrightarrow> False", OF _ y], intro impI)
      fix loop f m p w lim t l j c z
      assume IH: "\<And>f m p w lim t l j c z. loop f m p w lim t l j c = Some z \<Longrightarrow>
          f = search \<and> m = mem \<and> p = [] \<and> w = [] \<and> lim = None \<and> t = s \<and> l = int (length s) \<and> 0 \<le> j \<and> j < l \<longrightarrow> False"
        and step: "(if j < l \<and> below c lim then Option.bind (f t p j) (\<lambda>j. if j < 0 then Some t
            else Option.bind (DoReplaceAt m t j (int (length p)) w) (\<lambda>t.
              loop f m p w lim t (l + (int (length w) - int (length p))) (j + int (length w)) (c + 1)))
            else Some t) = Some z"
        and j: "f = search \<and> m = mem \<and> p = [] \<and> w = [] \<and> lim = None \<and> t = s \<and> l = int (length s) \<and> 0 \<le> j \<and> j < l"
      have "loop search mem [] [] None s (int (length s)) 0 (c + 1) = Some z"
        using step j empty [of j] by (simp add: below_def DoReplaceAt_def)
      from IH [OF this] show False using i by simp
    qed
    then show False using i by simp
  qed
qed

section \<open>Properties\<close>

text \<open>
  C11. With memory, \<open>RemoveAll\<close> returns, for a string and for a C string, and what is left are the bytes
  outside of the occurrences of the pattern, taken from left to right without overlap; occurrences that
  only arise by joining the rest are kept.
\<close>

theorem remove_all_correct:
  assumes "\<forall>n. mem n" "0 \<notin> set s" "0 \<notin> set p" "p \<noteq> []"
  shows "RemoveAll mem s p = Some (replace_ref (\<lambda>c. c) p [] None s) \<and>
    RemoveAll_c mem s (Some p) = Some (replace_ref (\<lambda>c. c) p [] None s)"
  using ff.remove_all_loop_ok [OF assms(1,3,4,2), of 0] fc.remove_all_loop_ok [OF assms(1,3,4,2), of 0] assms(4)
  by (simp add: RemoveAll_def RemoveAll_c_def)

theorem remove_all_correct_witness:
  "RemoveAll (\<lambda>n. True) [97, 97, 98, 98] [97, 98] = Some [97, 98]"
  using remove_all_correct [of "\<lambda>n. True" "[97, 97, 98, 98]" "[97, 98]"]
  by (simp add: replace_ref.simps occurs_def below_def)

text \<open>
  C12. With memory and a pattern that is not empty, the four loops that replace substrings return the
  reference replacement of the part behind the offset, with and without a maximal count, comparing bytes
  as they are or in lower case.
\<close>

theorem replace_all_correct:
  assumes "\<forall>n. mem n" "0 \<notin> set s" "0 \<notin> set p" "p \<noteq> []" "0 \<notin> set (c_bytes w)" "i \<le> length s"
  shows
    "ReplaceAll mem s (Some p) w (int i) = Some (take i s @ replace_ref (\<lambda>c. c) p (c_bytes w) None (drop i s)) \<and>
     Replace mem s (Some p) w m (int i) = Some (take i s @ replace_ref (\<lambda>c. c) p (c_bytes w) (Some m) (drop i s)) \<and>
     IReplaceAll mem s (Some p) w (int i) =
       Some (take i s @ replace_ref UTF8SafeToLower p (c_bytes w) None (drop i s)) \<and>
     IReplace mem s (Some p) w m (int i) =
       Some (take i s @ replace_ref UTF8SafeToLower p (c_bytes w) (Some m) (drop i s))"
  using fc.replace_loop_ok [OF assms(1,3,4,5,2,6), of None 0] fc.replace_loop_ok [OF assms(1,3,4,5,2,6), of "Some m" 0]
    fi.replace_loop_ok [OF assms(1,3,4,5,2,6), of None 0] fi.replace_loop_ok [OF assms(1,3,4,5,2,6), of "Some m" 0]
  by (simp add: ReplaceAll_def Replace_def IReplaceAll_def IReplace_def)

theorem replace_all_correct_witness:
  "ReplaceAll (\<lambda>n. True) [97, 98, 99, 97, 98, 98] (Some [97, 98]) (Some [120]) 0 = Some [120, 99, 120, 98]"
  using replace_all_correct [of "\<lambda>n. True" "[97, 98, 99, 97, 98, 98]" "[97, 98]" "Some [120]" 0 0]
  by (simp add: c_bytes_def replace_ref_example)

text \<open>
  C13. Two calls of the replacing functions never return. Removing all occurrences of a pattern when there is
  no memory for the removal: the failed removal leaves the string as it is and the loop searches again
  from the same position. And, whether or not there is memory, replacing the empty string by nothing in a
  string that is not empty, from any offset in it: the empty string is always found at offset 0. Both loops run for ever, that
  is, after any number of rounds they have neither returned nor faulted.
\<close>

theorem replace_loops_hang:
  assumes "0 \<notin> set s" "0 \<notin> set p" "p \<noteq> []" "occurs s p j" "length p < length s" "\<forall>n. \<not> none n"
    and "0 \<le> i" "i < int (length t)"
  shows "RemoveAll none s p = None \<and>
     runs_for_ever (remove_all_round (\<lambda>s i. FindFirst_from s p i) none (int (length p))) (s, 0) \<and>
     ReplaceAll mem t (Some []) None i = None \<and>
     runs_for_ever (replace_round FindFirst_c_from mem [] [] None) (t, int (length t), i, 0)"
proof -
  define I where "I = {i. 0 \<le> i \<and> i \<le> int j}"
  have "\<exists>k \<in> I. 0 \<le> k \<and> FindFirst_from s p i = Some k \<and> ShrinkAtBy none s k (int (length p)) = Some (s, False)"
    if "i \<in> I" for i
  proof -
    have i: "0 \<le> i" "nat i \<le> j" using that by (auto simp: I_def)
    obtain r where r: "FindFirst_from s p i = Some r" "first_at s p (nat i) r"
      using FindFirst_from_first [OF assms(1-3) i(1)] by blast
    then have "0 \<le> r \<and> nat r \<le> j" using assms(4) i(2) by (auto simp: first_at_def not_le)
    then have "r \<in> I" by (simp add: I_def nat_le_iff)
    then show ?thesis using r(1) assms(5,6) by (auto simp: ShrinkAtBy_def I_def)
  qed
  moreover have "0 \<in> I" by (simp add: I_def)
  ultimately have remove: "remove_all_loop (\<lambda>s i. FindFirst_from s p i) none (int (length p)) s 0 = None"
      "runs_for_ever (remove_all_round (\<lambda>s i. FindFirst_from s p i) none (int (length p))) (s, 0)"
    using remove_all_loop_hangs [of I "\<lambda>s i. FindFirst_from s p i" s none "int (length p)" 0] by blast+
  have "FindFirst_c_from t [] i = Some 0" if "0 \<le> i" "i < int (length t)" for i
    using that by (simp add: FindFirst_c_from_def ShortFindAfter_def)
  note replace = replace_loop_hangs [of t FindFirst_c_from, OF this assms(7,8)]
  show ?thesis using remove replace assms(3) by (simp add: RemoveAll_def ReplaceAll_def c_bytes_def)
qed

theorem replace_loops_hang_witness:
  "RemoveAll (\<lambda>n. False) [97, 98] [98] = None \<and> ReplaceAll (\<lambda>n. True) [97] (Some []) None 0 = None"
  using replace_loops_hang [of "[97, 98]" "[98]" 1 "\<lambda>n. False" 0 "[97]" "\<lambda>n. True"] by (simp add: occurs_def)

end
