(* ===== verification/String_Sets.thy ===== *)
theory String_Sets
  imports String_Edit
begin

text \<open>
  The functions of \<^verbatim>\<open>SString\<close> that replace, remove or compact single characters,
  \<^verbatim>\<open>src/libraries/libbinder/support/String.cpp\<close>. They work in place: the buffer is made unique at the first
  write (\<open>data\<close> tells whether that has happened) and read and written by index afterwards.
\<close>

section \<open>Replacing characters\<close>

definition replace_index :: "memory \<Rightarrow> bytes \<Rightarrow> int \<Rightarrow> u8 \<Rightarrow> bytes" where
  "replace_index mem s index ch2 = (if index \<ge> 0 \<and> mem (length s) then s[nat index := ch2] else s)"

definition ReplaceFirst_char :: "memory \<Rightarrow> bytes \<Rightarrow> u8 \<Rightarrow> u8 \<Rightarrow> bytes" where
  "ReplaceFirst_char mem s ch1 ch2 = replace_index mem s (index_up (\<lambda>c. c = ch1) s 0) ch2"

definition ReplaceLast_char :: "memory \<Rightarrow> bytes \<Rightarrow> u8 \<Rightarrow> u8 \<Rightarrow> bytes" where
  "ReplaceLast_char mem s ch1 ch2 =
    (if s = [] then s else replace_index mem s (index_down (\<lambda>c. c = ch1) s (length s - 1)) ch2)"

definition IReplaceFirst_char :: "memory \<Rightarrow> bytes \<Rightarrow> u8 \<Rightarrow> u8 \<Rightarrow> bytes" where
  "IReplaceFirst_char mem s ch1 ch2 =
    replace_index mem s (index_up (\<lambda>c. UTF8SafeToLower c = UTF8SafeToLower ch1) s 0) ch2"

definition IReplaceLast_char :: "memory \<Rightarrow> bytes \<Rightarrow> u8 \<Rightarrow> u8 \<Rightarrow> bytes" where
  "IReplaceLast_char mem s ch1 ch2 =
    (if s = [] then s
     else replace_index mem s (index_down (\<lambda>c. UTF8SafeToLower c = UTF8SafeToLower ch1) s (length s - 1)) ch2)"

function replace_chars :: "(u8 \<Rightarrow> bool) \<Rightarrow> u8 \<Rightarrow> memory \<Rightarrow> int option \<Rightarrow> bytes \<Rightarrow> nat \<Rightarrow> int \<Rightarrow> bool \<Rightarrow> bytes" where
  "replace_chars q ch2 mem limit s index count data =
    (if index < length s \<and> below count limit then
       (if q (s ! index) then
          (if data \<or> mem (length s)
           then replace_chars q ch2 mem limit (s[index := ch2]) (index + 1) (count + 1) True
           else s)
        else replace_chars q ch2 mem limit s (index + 1) count data)
     else s)"
  by pat_completeness auto
termination by (relation "measure (\<lambda>(_, _, _, _, s, index, _, _). length s - index)") auto

declare replace_chars.simps [simp del]

text \<open>A negative offset is not rejected: the code reads in front of the buffer.\<close>

definition replace_chars_from ::
  "(u8 \<Rightarrow> bool) \<Rightarrow> u8 \<Rightarrow> memory \<Rightarrow> int option \<Rightarrow> bytes \<Rightarrow> int \<Rightarrow> bytes option" where
  "replace_chars_from q ch2 mem limit s fromOffset =
    (if fromOffset < 0 \<and> below 0 limit then None
     else Some (replace_chars q ch2 mem limit s (nat fromOffset) 0 False))"

definition ReplaceAll_char :: "memory \<Rightarrow> bytes \<Rightarrow> u8 \<Rightarrow> u8 \<Rightarrow> int \<Rightarrow> bytes option" where
  "ReplaceAll_char mem s ch1 ch2 fromOffset = replace_chars_from (\<lambda>c. c = ch1) ch2 mem None s fromOffset"

definition Replace_char :: "memory \<Rightarrow> bytes \<Rightarrow> u8 \<Rightarrow> u8 \<Rightarrow> int \<Rightarrow> int \<Rightarrow> bytes option" where
  "Replace_char mem s ch1 ch2 maxReplaceCount fromOffset =
    replace_chars_from (\<lambda>c. c = ch1) ch2 mem (Some maxReplaceCount) s fromOffset"

definition IReplaceAll_char :: "memory \<Rightarrow> bytes \<Rightarrow> u8 \<Rightarrow> u8 \<Rightarrow> int \<Rightarrow> bytes option" where
  "IReplaceAll_char mem s ch1 ch2 fromOffset =
    replace_chars_from (\<lambda>c. UTF8SafeToLower c = UTF8SafeToLower ch1) ch2 mem None s fromOffset"

definition IReplace_char :: "memory \<Rightarrow> bytes \<Rightarrow> u8 \<Rightarrow> u8 \<Rightarrow> int \<Rightarrow> int \<Rightarrow> bytes option" where
  "IReplace_char mem s ch1 ch2 maxReplaceCount fromOffset =
    replace_chars_from (\<lambda>c. UTF8SafeToLower c = UTF8SafeToLower ch1) ch2 mem (Some maxReplaceCount) s fromOffset"

definition ReplaceSet_char :: "memory \<Rightarrow> bytes \<Rightarrow> bytes \<Rightarrow> u8 \<Rightarrow> bytes" where
  "ReplaceSet_char mem s setOfChars withCh =
    replace_chars (CharSet_Has (CharSet_new setOfChars)) withCh mem None s 0 0 False"

section \<open>Removing and compacting characters of a set\<close>

text \<open>
  \<^verbatim>\<open>memcpy(data + index, data + fromOffset, n)\<close> inside of the buffer. The ranges overlap; the copy is taken to run
  upwards.
\<close>

definition move_down :: "bytes \<Rightarrow> nat \<Rightarrow> nat \<Rightarrow> nat \<Rightarrow> bytes" where
  "move_down buf index fromOffset n = overwrite buf index (take n (drop fromOffset buf))"

text \<open>The first bytes of a character as one number; \<open>None\<close> if it runs over the terminator of the string.\<close>

definition UTF8CharToUint32 :: "bytes \<Rightarrow> nat \<Rightarrow> nat \<Rightarrow> u32 option" where
  "UTF8CharToUint32 src pos len =
    (if pos + len > length src + 1 then None
     else Some (foldl (\<lambda>result index. result OR push_bit (24 - index * 8) (ucast (char_at src (pos + index))))
       0 [0..<len]))"

text \<open>Whether the character is one of the set; the set is read character by character.\<close>

function utf_member :: "u32 \<Rightarrow> bytes \<Rightarrow> nat \<Rightarrow> nat option option" where
  "utf_member utf cset tmp =
    (if char_at cset tmp = 0 then Some None
     else if char_at cset tmp AND 0x80 \<noteq> 0 then
       (let len = UTF8CharLen (char_at cset tmp) in
        Option.bind (UTF8CharToUint32 cset tmp len) (\<lambda>u.
          if utf = u then Some (Some len)
          else if tmp + len > length cset then None
          else utf_member utf cset (tmp + len)))
     else utf_member utf cset (tmp + 1))"
  by pat_completeness auto
termination
  by (relation "measure (\<lambda>(_, cset, tmp). length cset - tmp)")
    (auto simp: char_at_def UTF8CharLen_def split: if_splits)

declare utf_member.simps [simp del]

text \<open>
  The two loops of \<open>RemoveSet\<close>: buffer, index, remaining length, and the buffer and length at the end. The
  length \<open>n\<close> of a character is never 0.
\<close>

function remove_utf8 :: "bytes \<Rightarrow> charset \<Rightarrow> memory \<Rightarrow> bytes \<Rightarrow> nat \<Rightarrow> nat \<Rightarrow> bool \<Rightarrow> (bytes \<times> nat option) option" where
  "remove_utf8 cset chars mem buf index len data =
    (if index < len then
       (let c = char_at buf index in
        if c \<le> 127 then
          (if CharSet_Has chars c then
             (if data \<or> mem (length buf)
              then remove_utf8 cset chars mem (move_down buf index (index + 1) (len - (index + 1))) index (len - 1) True
              else Some (buf, None))
           else remove_utf8 cset chars mem buf (index + 1) len data)
        else
          (let utflen = UTF8CharLen c in
           Option.bind (UTF8CharToUint32 buf index utflen) (\<lambda>utf.
           Option.bind (utf_member utf cset 0) (\<lambda>found. case found of
             Some n \<Rightarrow>
               (if data \<or> mem (length buf)
                then (if n = 0 \<or> index + n > len then None
                      else remove_utf8 cset chars mem (move_down buf index (index + n) (len - (index + n)))
                             index (len - n) True)
                else Some (buf, None))
           | None \<Rightarrow> remove_utf8 cset chars mem buf (index + utflen) len data))))
     else Some (buf, Some len))"
  by pat_completeness auto
termination
  by (relation "measure (\<lambda>(_, _, _, _, index, len, _). len - index)") (auto simp: UTF8CharLen_def)

declare remove_utf8.simps [simp del]

function remove_ascii :: "charset \<Rightarrow> memory \<Rightarrow> bytes \<Rightarrow> nat \<Rightarrow> nat \<Rightarrow> bool \<Rightarrow> bytes \<times> nat option" where
  "remove_ascii chars mem buf index len data =
    (if index < len then
       (if CharSet_Has chars (char_at buf index) then
          (if data \<or> mem (length buf)
           then remove_ascii chars mem (move_down buf index (index + 1) (len - (index + 1))) index (len - 1) True
           else (buf, None))
        else remove_ascii chars mem buf (index + 1) len data)
     else (buf, Some len))"
  by pat_completeness auto
termination by (relation "measure (\<lambda>(_, _, _, index, len, _). len - index)") auto

declare remove_ascii.simps [simp del]

text \<open>The end of both: nothing more if there was no memory, else the string is cut to the remaining length.\<close>

definition remove_finish :: "memory \<Rightarrow> bytes \<times> nat option \<Rightarrow> bytes" where
  "remove_finish mem r = (case r of
     (buf, None) \<Rightarrow> buf
   | (buf, Some len) \<Rightarrow> if len < length buf then Truncate mem buf (int len) else buf)"

definition RemoveSet :: "memory \<Rightarrow> bytes \<Rightarrow> bytes \<Rightarrow> bytes option" where
  "RemoveSet mem s setOfCharsToRemove =
    (let chars = CharSet_new setOfCharsToRemove in
     if m_hasUTF8 chars then
       map_option (remove_finish mem) (remove_utf8 setOfCharsToRemove chars mem s 0 (length s) False)
     else Some (remove_finish mem (remove_ascii chars mem s 0 (length s) False)))"

text \<open>The loop of \<open>_DoCompact\<close>; \<open>None\<close> if it returned early because there was no memory.\<close>

function compact_loop ::
  "charset \<Rightarrow> u8 option \<Rightarrow> memory \<Rightarrow> bytes \<Rightarrow> nat \<Rightarrow> nat \<Rightarrow> bool \<Rightarrow> bool \<Rightarrow> (bytes \<times> nat \<times> bool) option" where
  "compact_loop chars replace mem buf frm to lastSpace data =
    (if frm < length buf then
       (if CharSet_Has chars (buf ! frm) then
          (if \<not> lastSpace then
             (case replace of
                Some r \<Rightarrow>
                  (if data \<or> mem (length buf)
                   then compact_loop chars replace mem (buf[to := r]) (frm + 1) (to + 1) True True
                   else None)
              | None \<Rightarrow> compact_loop chars replace mem buf (frm + 1) (to + 1) True data)
           else compact_loop chars replace mem buf (frm + 1) to lastSpace data)
        else if to < frm then
          (if data \<or> mem (length buf)
           then compact_loop chars replace mem (buf[to := buf ! frm]) (frm + 1) (to + 1) False True
           else None)
        else compact_loop chars replace mem buf (frm + 1) (to + 1) False data)
     else Some (buf, to, lastSpace))"
  by pat_completeness auto
termination by (relation "measure (\<lambda>(_, _, _, buf, frm, _). length buf - frm)") auto

declare compact_loop.simps [simp del]

definition DoCompact :: "memory \<Rightarrow> bytes \<Rightarrow> bytes \<Rightarrow> u8 option \<Rightarrow> bytes" where
  "DoCompact mem s setOfCharsToCompact replace =
    (case compact_loop (CharSet_new setOfCharsToCompact) replace mem s 0 0 True False of
       None \<Rightarrow> s
     | Some (buf, to, lastSpace) \<Rightarrow>
         (let to = (if to > 0 \<and> lastSpace then to - 1 else to) in
          if to < length buf then Truncate mem buf (int to) else buf))"

definition Compact :: "memory \<Rightarrow> bytes \<Rightarrow> bytes \<Rightarrow> bytes" where
  "Compact mem s setOfCharsToCompact = DoCompact mem s setOfCharsToCompact None"

definition Compact_with :: "memory \<Rightarrow> bytes \<Rightarrow> bytes \<Rightarrow> u8 option \<Rightarrow> bytes" where
  "Compact_with mem s setOfCharsToCompact replacementChar = DoCompact mem s setOfCharsToCompact replacementChar"

section \<open>Replacing the characters of a set by a string\<close>

text \<open>
  The buffer is grown first and then filled from the end: each chunk behind a character of the set moves to its
  final position and the replacement is copied in front of it.
\<close>

fun expand_loop :: "charset \<Rightarrow> bytes \<Rightarrow> bytes \<Rightarrow> nat \<Rightarrow> nat \<Rightarrow> nat \<Rightarrow> bytes" where
  "expand_loop chars withStr data 0 chunkEnd moveBy = data"
| "expand_loop chars withStr data (Suc index) chunkEnd moveBy =
    (if CharSet_Has chars (data ! index) then
       (let dstPtr = index + 1 + moveBy;
            data = overwrite data dstPtr (take (chunkEnd - (index + 1)) (drop (index + 1) data));
            data = overwrite data (dstPtr - length withStr) withStr;
            moveBy = moveBy - (length withStr - 1)
        in if moveBy = 0 then data else expand_loop chars withStr data index index moveBy)
     else expand_loop chars withStr data index chunkEnd moveBy)"

definition ReplaceSet :: "memory \<Rightarrow> bytes \<Rightarrow> bytes \<Rightarrow> bytes option \<Rightarrow> bytes option" where
  "ReplaceSet mem s setOfCharsToRemove withThis =
    (case withThis of None \<Rightarrow> Some s | Some w \<Rightarrow>
       if length w = 1 then Some (ReplaceSet_char mem s setOfCharsToRemove (hd w))
       else if length w = 0 then RemoveSet mem s setOfCharsToRemove
       else
         (let chars = CharSet_new setOfCharsToRemove;
              count = length (filter (CharSet_Has chars) s) in
          if count \<noteq> 0 then
            (let moveBy = count * (length w - 1) in
             map_option (\<lambda>data. case data of
                 None \<Rightarrow> s
               | Some data \<Rightarrow> expand_loop chars w data (length s) (length s) moveBy)
               (GrowBy mem s (int moveBy)))
          else Some s))"

section \<open>What the loops compute\<close>

definition subst_char :: "(u8 \<Rightarrow> bool) \<Rightarrow> u8 \<Rightarrow> bytes \<Rightarrow> bytes" where
  "subst_char q r s = map (\<lambda>c. if q c then r else c) s"

lemma replace_chars_all:
  assumes "data \<or> mem (length s)"
  shows "replace_chars q r mem None s i count data = take i s @ subst_char q r (drop i s)"
  using assms
proof (induction q r mem "None :: int option" s i count data rule: replace_chars.induct)
  case (1 q r mem s i count data)
  show ?case
  proof (cases "i < length s")
    case True
    then have d: "drop i s = s ! i # drop (i + 1) s" "take (i + 1) s = take i s @ [s ! i]"
      by (simp_all add: Cons_nth_drop_Suc take_Suc_conv_app_nth)
    have u: "take (i + 1) (s[i := r]) = take i s @ [r]" "drop (i + 1) (s[i := r]) = drop (i + 1) s"
      using True by (simp_all add: take_Suc_conv_app_nth)
    show ?thesis
    proof (cases "q (s ! i)")
      case q: True
      show ?thesis using 1(1) True q "1.prems" u d(1)
        by (subst replace_chars.simps) (simp add: below_def subst_char_def)
    next
      case False
      then show ?thesis using 1(2) True "1.prems" d
        by (subst replace_chars.simps) (simp add: below_def subst_char_def)
    qed
  qed (subst replace_chars.simps, simp add: subst_char_def)
qed

lemma move_down_suffix:
  assumes "i < n" "n \<le> length buf"
  shows "take (n - 1) (move_down buf i (i + 1) (n - (i + 1))) = take i buf @ drop (i + 1) (take n buf)"
proof -
  define xs where "xs = take i buf @ take (n - (i + 1)) (drop (i + 1) buf)"
  have "length xs = n - 1" using assms by (simp add: xs_def)
  moreover have "\<exists>ys. move_down buf i (i + 1) (n - (i + 1)) = xs @ ys"
    by (simp add: move_down_def overwrite_def xs_def)
  ultimately have "take (n - 1) (move_down buf i (i + 1) (n - (i + 1))) = xs" by auto
  then show ?thesis by (simp add: xs_def drop_take)
qed

lemma move_down_prefix: "i \<le> length buf \<Longrightarrow> take i (move_down buf i f n) = take i buf"
  by (simp add: move_down_def overwrite_def)

lemma length_move_down [simp]:
  "i \<le> f \<Longrightarrow> f + n \<le> length buf \<Longrightarrow> length (move_down buf i f n) = length buf"
  by (simp add: move_down_def overwrite_def)

lemma remove_ascii_filter:
  assumes "data \<or> mem (length buf)" "n \<le> length buf" "i \<le> n"
  shows "\<exists>buf' n'. remove_ascii chars mem buf i n data = (buf', Some n') \<and> length buf' = length buf \<and> n' \<le> n \<and>
    take n' buf' = take i buf @ filter (\<lambda>c. \<not> CharSet_Has chars c) (drop i (take n buf)) \<and>
    (n' = n \<longrightarrow> buf' = buf)"
  using assms
proof (induction chars mem buf i n data rule: remove_ascii.induct)
  case (1 chars mem buf i n data)
  show ?case
  proof (cases "i < n")
    case True
    define b where "b = move_down buf i (i + 1) (n - (i + 1))"
    have c: "char_at buf i = buf ! i" "drop i (take n buf) = buf ! i # drop (i + 1) (take n buf)"
      using True "1.prems"(2) by (simp_all add: char_at_def flip: Cons_nth_drop_Suc)
    show ?thesis
    proof (cases "CharSet_Has chars (buf ! i)")
      case has: True
      have b: "length b = length buf" "take (n - 1) b = take i buf @ drop (i + 1) (take n buf)"
        using True "1.prems"(2) move_down_suffix [of i n buf] by (simp_all add: b_def)
      have t: "take i b = take i buf" using True "1.prems"(2) by (simp add: b_def move_down_prefix)
      have "drop i (take (n - 1) b) = drop (i + 1) (take n buf)" using b(2) True "1.prems"(2) by simp
      moreover have "remove_ascii chars mem buf i n data = remove_ascii chars mem b i (n - 1) True"
        using True has c(1) "1.prems"(1) by (subst remove_ascii.simps) (auto simp: b_def)
      ultimately show ?thesis
        using 1(1) [OF True] True has c b(1) t "1.prems" by (fastforce simp: b_def)
    next
      case False
      moreover have "remove_ascii chars mem buf i n data = remove_ascii chars mem buf (i + 1) n data"
        using True False c(1) by (subst remove_ascii.simps) simp
      moreover have "take (i + 1) buf = take i buf @ [buf ! i]"
        using True "1.prems"(2) by (simp add: take_Suc_conv_app_nth)
      ultimately show ?thesis using 1(2) [OF True] True c "1.prems" by simp
    qed
  next
    case False
    then show ?thesis using "1.prems"(3) by (subst remove_ascii.simps) simp
  qed
qed

lemma Truncate_ok: "\<forall>n. mem n \<Longrightarrow> n \<le> length s \<Longrightarrow> Truncate mem s (int n) = take n s"
  by (simp add: Truncate_def)

lemma RemoveSet_filter:
  assumes "\<forall>n. mem n" "\<not> m_hasUTF8 (CharSet_new cs)"
  shows "RemoveSet mem s cs = Some (filter (\<lambda>c. \<not> CharSet_Has (CharSet_new cs) c) s)"
proof -
  obtain b n where r: "remove_ascii (CharSet_new cs) mem s 0 (length s) False = (b, Some n)" "length b = length s"
      "n \<le> length s" "take n b = filter (\<lambda>c. \<not> CharSet_Has (CharSet_new cs) c) s" "n = length s \<longrightarrow> b = s"
    using remove_ascii_filter [of False mem s "length s" 0 "CharSet_new cs"] assms(1) by auto
  then have "remove_finish mem (b, Some n) = take n b" using assms(1) by (auto simp: remove_finish_def Truncate_ok)
  then show ?thesis using r assms(2) by (simp add: RemoveSet_def)
qed

text \<open>Replacing each character of a set by a string.\<close>

definition expand :: "(u8 \<Rightarrow> bool) \<Rightarrow> bytes \<Rightarrow> bytes \<Rightarrow> bytes" where
  "expand q w s = concat (map (\<lambda>c. if q c then w else [c]) s)"

lemma expand_simps [simp]:
  "expand q w [] = []"
  "expand q w (c # s) = (if q c then w else [c]) @ expand q w s"
  "expand q w (s @ t) = expand q w s @ expand q w t"
  by (simp_all add: expand_def)

lemma expand_none: "\<forall>c \<in> set s. \<not> q c \<Longrightarrow> expand q w s = s"
  by (induction s) auto

lemma expand_single: "expand q [r] s = subst_char q r s"
  by (induction s) (auto simp: subst_char_def)

lemma expand_filter: "expand q [] s = filter (\<lambda>c. \<not> q c) s"
  by (induction s) auto

lemma overwrite_append [simp]:
  "length a = pos \<Longrightarrow> length b = length b' \<Longrightarrow> overwrite (a @ b @ c) pos b' = a @ b' @ c"
  by (simp add: overwrite_def)

lemma expand_step:
  assumes "length w = Suc k" "length X = m" "k \<le> m"
  shows "\<exists>X'. overwrite (overwrite (a @ c # mid @ X @ g) (length a + 1 + m) mid) (length a + 1 + m - length w) w =
    a @ X' @ w @ mid @ g \<and> length X' = m - k"
proof -
  define Y Z where "Y = take m (mid @ X)" and "Z = drop m (mid @ X)"
  have Y: "length Y = m" "mid @ X = Y @ Z" "length Z = length mid"
    using assms(2) by (simp_all only: Y_def Z_def append_take_drop_id) simp_all
  have "a @ c # mid @ X @ g = (a @ c # Y) @ Z @ g"
    using Y(2) by (metis append.assoc append_Cons)
  from arg_cong [OF this, of "\<lambda>z. overwrite z (length a + 1 + m) mid"]
  have 1: "overwrite (a @ c # mid @ X @ g) (length a + 1 + m) mid = (a @ c # Y) @ mid @ g"
    using Y(1,3) overwrite_append [of "a @ c # Y" "length a + 1 + m" Z mid g] by simp
  define X' V where "X' = take (m - k) (c # Y)" and "V = drop (m - k) (c # Y)"
  have X': "c # Y = X' @ V" "length X' = m - k" "length V = length w"
    using Y(1) assms(1,3) by (auto simp: X'_def V_def)
  have "(a @ c # Y) @ mid @ g = (a @ X') @ V @ (mid @ g)" using X'(1) by simp
  then have "overwrite ((a @ c # Y) @ mid @ g) (length a + 1 + m - length w) w = a @ X' @ w @ mid @ g"
    using X'(2,3) assms(1,3) overwrite_append [of "a @ X'" "length a + 1 + m - length w" V w "mid @ g"] by simp
  then show ?thesis using 1 X'(2) by auto
qed

lemma expand_loop_ok:
  assumes w: "length w = Suc k" "0 < k"
  shows "n \<le> e \<Longrightarrow> e \<le> length s \<Longrightarrow> (\<forall>j. n \<le> j \<and> j < e \<longrightarrow> \<not> CharSet_Has chars (s ! j)) \<Longrightarrow>
    length X = length (filter (CharSet_Has chars) (take n s)) * k \<Longrightarrow> X \<noteq> [] \<Longrightarrow>
    expand_loop chars w (take e s @ X @ expand (CharSet_Has chars) w (drop e s)) n e (length X) =
    expand (CharSet_Has chars) w s"
proof (induction n arbitrary: e X)
  case (Suc i)
  define q where "q = CharSet_Has chars"
  define g where "g = expand q w (drop e s)"
  define mid where "mid = drop (i + 1) (take e s)"
  have i: "i < length s" "i < e" using Suc.prems(1,2) by auto
  have split: "take e s = take i s @ s ! i # mid"
    using i Suc.prems(2) id_take_nth_drop [of i "take e s"] by (simp add: mid_def min_def)
  have mid: "\<forall>c \<in> set mid. \<not> q c"
  proof
    fix c assume "c \<in> set mid"
    then obtain j where "j < length mid" "c = mid ! j" by (auto simp: in_set_conv_nth)
    then have "c = s ! (i + 1 + j)" "i + 1 + j < e" using Suc.prems(2) by (auto simp: mid_def)
    then show "\<not> q c" using Suc.prems(3) by (auto simp: q_def)
  qed
  have len_mid: "length mid = e - (i + 1)" using Suc.prems(2) by (simp add: mid_def)
  have at_i: "(take e s @ X @ g) ! i = s ! i" using i by (simp add: nth_append)
  have tk: "take (Suc i) s = take i s @ [s ! i]" using i by (simp add: take_Suc_conv_app_nth)
  show ?case
  proof (cases "q (s ! i)")
    case False
    then have "expand_loop chars w (take e s @ X @ g) (Suc i) e (length X) =
        expand_loop chars w (take e s @ X @ g) i e (length X)"
      using at_i by (simp add: q_def)
    moreover have "\<forall>j. i \<le> j \<and> j < e \<longrightarrow> \<not> CharSet_Has chars (s ! j)"
      using Suc.prems(3) False by (metis q_def le_eq_less_or_eq Suc_leI)
    ultimately show ?thesis
      using Suc.IH [of e X] Suc.prems i tk False by (simp add: g_def q_def)
  next
    case True
    have k: "k \<le> length X" using Suc.prems(4) tk True by (simp add: q_def)
    have mid': "take (e - (i + 1)) (drop (i + 1) (take e s @ X @ g)) = mid"
      using len_mid i by (simp add: mid_def)
    have a: "length (take i s) = i" using i by simp
    obtain X' where X': "overwrite (overwrite (take e s @ X @ g) (i + 1 + length X) mid)
          (i + 1 + length X - length w) w = take i s @ X' @ w @ mid @ g" "length X' = length X - k"
      using expand_step [OF w(1) refl k, of "take i s" "s ! i" mid g] a split by auto
    have g': "w @ mid @ g = expand q w (drop i s)"
    proof -
      have "drop i s = s ! i # mid @ drop e s"
        using i Suc.prems(2) split by (metis Cons_nth_drop_Suc append_take_drop_id a append.assoc append_Cons append_eq_conv_conj)
      then show ?thesis using True expand_none [OF mid] by (simp add: g_def)
    qed
    have loop: "expand_loop chars w (take e s @ X @ g) (Suc i) e (length X) =
        (if length X' = 0 then take i s @ X' @ expand q w (drop i s)
         else expand_loop chars w (take i s @ X' @ expand q w (drop i s)) i i (length X'))"
      using at_i True mid' X' g' w(1) by (simp add: q_def Let_def)
    have cnt: "length X' = length (filter q (take i s)) * k"
      using Suc.prems(4) X'(2) tk True by (simp add: q_def)
    show ?thesis
    proof (cases "X' = []")
      case True
      then have "filter q (take i s) = []" using cnt w(2) by simp
      then have "expand q w (take i s) = take i s" by (intro expand_none) (simp add: filter_empty_conv)
      then have "take i s @ expand q w (drop i s) = expand q w s"
        by (metis append_take_drop_id expand_simps(3))
      then show ?thesis using loop True by (simp add: g_def q_def)
    next
      case False
      have "expand_loop chars w (take i s @ X' @ expand q w (drop i s)) i i (length X') = expand q w s"
        unfolding q_def
        by (rule Suc.IH) (use cnt i False in \<open>auto simp: q_def\<close>)
      then show ?thesis using loop False unfolding g_def q_def by simp
    qed
  qed
qed simp

lemma ReplaceSet_expand:
  assumes "\<forall>n. mem n" "\<not> m_hasUTF8 (CharSet_new cs)"
  shows "ReplaceSet mem s cs (Some w) = Some (expand (CharSet_Has (CharSet_new cs)) w s)"
proof -
  define q where "q = CharSet_Has (CharSet_new cs)"
  consider "w = []" | r where "w = [r]" | "2 \<le> length w" by (cases w; cases "tl w") auto
  then show ?thesis
  proof cases
    case 1
    then show ?thesis using RemoveSet_filter [OF assms] by (simp add: ReplaceSet_def expand_filter)
  next
    case (2 r)
    then show ?thesis using assms(1) by (simp add: ReplaceSet_def ReplaceSet_char_def replace_chars_all expand_single)
  next
    case 3
    then obtain k where k: "length w = Suc k" "0 < k" by (cases "length w") auto
    define X where "X = replicate (length (filter q s) * k) (0 :: u8)"
    show ?thesis
    proof (cases "filter q s = []")
      case True
      then have "expand q w s = s" by (intro expand_none) (simp add: filter_empty_conv)
      then show ?thesis using 3 True k by (auto simp: ReplaceSet_def q_def)
    next
      case False
      then have "X \<noteq> []" using k(2) by (simp add: X_def)
      moreover have "\<forall>j. length s \<le> j \<and> j < length s \<longrightarrow> \<not> CharSet_Has (CharSet_new cs) (s ! j)" by auto
      ultimately have "expand_loop (CharSet_new cs) w (s @ X) (length s) (length s) (length X) = expand q w s"
        using expand_loop_ok [OF k, of "length s" "length s" s "CharSet_new cs" X] by (simp add: X_def q_def)
      then show ?thesis
        using 3 False k assms(1) by (auto simp: ReplaceSet_def GrowBy_def Let_def q_def X_def nat_mult_distrib)
    qed
  qed
qed

text \<open>The words of a string: its maximal parts without characters of the class.\<close>

function words :: "(u8 \<Rightarrow> bool) \<Rightarrow> bytes \<Rightarrow> bytes list" where
  "words q s =
    (let t = dropWhile q s in
     if t = [] then []
     else takeWhile (\<lambda>c. \<not> q c) t # words q (dropWhile (\<lambda>c. \<not> q c) t))"
  by pat_completeness auto
termination
proof (relation "measure (\<lambda>(_, s). length s)")
  fix q and s t :: bytes
  assume t: "t = dropWhile q s" "t \<noteq> []"
  then have "\<not> q (hd t)" by (simp add: hd_dropWhile)
  then have "length (dropWhile (\<lambda>c. \<not> q c) t) < length t"
    using t(2) by (cases t) (auto simp: le_imp_less_Suc length_dropWhile_le)
  then show "((q, dropWhile (\<lambda>c. \<not> q c) t), (q, s)) \<in> measure (\<lambda>(_, s). length s)"
    using t(1) length_dropWhile_le [of q s] by simp
qed simp

declare words.simps [simp del]

fun join :: "u8 \<Rightarrow> bytes list \<Rightarrow> bytes" where
  "join r [] = []"
| "join r [w] = w"
| "join r (w # ws) = w @ r # join r ws"

lemma words_skip: "q c \<Longrightarrow> words q (c # s) = words q s"
  by (subst (1 2) words.simps) simp

lemma words_Nil [simp]: "words q [] = []"
  by (simp add: words.simps)

lemma words_word:
  "\<not> q c \<Longrightarrow> words q (c # s) = (c # takeWhile (\<lambda>c. \<not> q c) s) # words q (dropWhile (\<lambda>c. \<not> q c) s)"
  by (subst words.simps) (simp add: Let_def)

text \<open>The state of \<open>_DoCompact\<close> is the output so far and whether it ended in a character of the class.\<close>

fun compact_acc :: "(u8 \<Rightarrow> bool) \<Rightarrow> u8 \<Rightarrow> bytes \<Rightarrow> bool \<Rightarrow> bytes \<Rightarrow> bytes \<times> bool" where
  "compact_acc q r out sp [] = (out, sp)"
| "compact_acc q r out sp (c # s) =
    (if q c then compact_acc q r (if sp then out else out @ [r]) True s
     else compact_acc q r (out @ [c]) False s)"

definition compact_end :: "bytes \<times> bool \<Rightarrow> bytes" where
  "compact_end a = (if fst a \<noteq> [] \<and> snd a then butlast (fst a) else fst a)"

definition join_more :: "u8 \<Rightarrow> bytes list \<Rightarrow> bytes" where
  "join_more r ws = (if ws = [] then [] else r # join r ws)"

lemma join_Cons: "join r (w # ws) = w @ join_more r ws"
  by (cases ws) (simp_all add: join_more_def)

lemma compact_acc_words:
  "compact_end (compact_acc q r (out @ [r]) True s) = out @ join_more r (words q s)"
  "\<not> q c \<Longrightarrow> compact_end (compact_acc q r (out @ [c]) False s) =
    out @ [c] @ takeWhile (\<lambda>c. \<not> q c) s @ join_more r (words q (dropWhile (\<lambda>c. \<not> q c) s))"
proof (induction s arbitrary: out c)
  case Nil
  case 1 show ?case by (simp add: compact_end_def join_more_def)
  case 2 show ?case by (simp add: compact_end_def join_more_def)
next
  case (Cons d s)
  case 1 show ?case
    using Cons.IH(1) [of out] Cons.IH(2) [of d "out @ [r]"]
    by (simp add: words_skip words_word join_Cons) (simp add: join_more_def join_Cons)
  case 2 show ?case
    using Cons.IH(1) [of "out @ [c]"] Cons.IH(2) [of d "out @ [c]"] by (simp add: words_skip)
qed

lemma compact_acc_start: "compact_end (compact_acc q r [] True s) = join r (words q s)"
proof (induction s)
  case Nil
  show ?case by (simp add: compact_end_def)
next
  case (Cons c s)
  show ?case using Cons.IH compact_acc_words(2) [of q c r "[]" s] by (simp add: words_skip words_word join_Cons)
qed

lemma take_step: "i \<le> j \<Longrightarrow> j < length b \<Longrightarrow> take (i + 1) (b[i := x]) = take i b @ [x]"
  by (simp add: take_Suc_conv_app_nth)

lemma compact_loop_acc:
  assumes "data \<or> mem (length buf)" "to \<le> frm" "frm \<le> length buf"
  shows "\<exists>b t sp'. compact_loop chars (Some r) mem buf frm to sp data = Some (b, t, sp') \<and>
    length b = length buf \<and> t \<le> length b \<and>
    (take t b, sp') = compact_acc (CharSet_Has chars) r (take to buf) sp (drop frm buf)"
  using assms
proof (induction chars "Some r" mem buf frm to sp data rule: compact_loop.induct)
  case (1 chars mem buf frm to sp data)
  show ?case
  proof (cases "frm < length buf")
    case True
    define c where "c = buf ! frm"
    have d: "drop frm buf = c # drop (frm + 1) buf" using True by (simp add: c_def Cons_nth_drop_Suc)
    consider "CharSet_Has chars c" "sp" | "CharSet_Has chars c" "\<not> sp"
      | "\<not> CharSet_Has chars c" "to < frm" | "\<not> CharSet_Has chars c" "to = frm"
      using "1.prems"(2) by linarith
    then show ?thesis
    proof cases
      case 1
      then have "compact_loop chars (Some r) mem buf frm to sp data =
          compact_loop chars (Some r) mem buf (frm + 1) to sp data"
        using True by (subst compact_loop.simps) (simp add: c_def)
      then show ?thesis using "1.hyps"(3) 1 True d "1.prems" by (simp add: c_def)
    next
      case 2
      then have "compact_loop chars (Some r) mem buf frm to sp data =
          compact_loop chars (Some r) mem (buf[to := r]) (frm + 1) (to + 1) True True"
        using True "1.prems"(1) by (subst compact_loop.simps) (simp add: c_def)
      then show ?thesis
        using "1.hyps"(2) [OF True _ _ refl] 2 True d "1.prems" take_step [of to frm buf r] by (simp add: c_def)
    next
      case 3
      then have "compact_loop chars (Some r) mem buf frm to sp data =
          compact_loop chars (Some r) mem (buf[to := c]) (frm + 1) (to + 1) False True"
        using True "1.prems"(1) by (subst compact_loop.simps) (simp add: c_def)
      then show ?thesis
        using "1.hyps"(4) 3 True d "1.prems" take_step [of to frm buf c] by (simp add: c_def)
    next
      case 4
      then have "compact_loop chars (Some r) mem buf frm to sp data =
          compact_loop chars (Some r) mem buf (frm + 1) (to + 1) False data"
        using True by (subst compact_loop.simps) (simp add: c_def)
      then show ?thesis
        using "1.hyps"(5) 4 True d "1.prems" by (simp add: c_def take_Suc_conv_app_nth)
    qed
  next
    case False
    then show ?thesis using "1.prems" by (subst compact_loop.simps) simp
  qed
qed

lemma DoCompact_join:
  assumes "\<forall>n. mem n"
  shows "DoCompact mem s cs (Some r) = join r (words (CharSet_Has (CharSet_new cs)) s)"
proof -
  define q where "q = CharSet_Has (CharSet_new cs)"
  obtain b t sp where loop: "compact_loop (CharSet_new cs) (Some r) mem s 0 0 True False = Some (b, t, sp)"
      "length b = length s" "t \<le> length b" "(take t b, sp) = compact_acc q r [] True s"
    using compact_loop_acc [of False mem s 0 0 "CharSet_new cs" r True] assms by (auto simp: q_def)
  define t' where "t' = (if t > 0 \<and> sp then t - 1 else t)"
  have "take t' b = compact_end (take t b, sp)"
    using loop(3) by (auto simp: compact_end_def t'_def butlast_take)
  then have "take t' b = join r (words q s)" using loop(4) compact_acc_start by metis
  moreover have "DoCompact mem s cs (Some r) = (if t' < length b then take t' b else b)"
    using loop(1) assms by (simp add: DoCompact_def Let_def t'_def [symmetric] Truncate_ok)
  moreover have "t' \<le> length b" using loop(3) by (auto simp: t'_def)
  ultimately show ?thesis by (auto simp: q_def)
qed

section \<open>Properties\<close>

text \<open>
  Replacing a set of ASCII characters by a string replaces each character of the set and keeps the others,
  for every length of the string: nothing (the characters are removed), one character (in place) or more (the
  buffer grows and is filled from its end).
\<close>

lemma replace_set_expands:
  assumes "\<forall>n. mem n" "\<forall>c \<in> set cs. c \<noteq> 0 \<and> unat c < 128"
  shows "ReplaceSet mem s cs (Some w) = Some (concat (map (\<lambda>c. if c \<in> set cs then w else [c]) s))"
proof -
  have "CharSet_Has (CharSet_new cs) = (\<lambda>c. c \<in> set cs)" using charset_member [OF assms(2)] by auto
  then show ?thesis
    using ReplaceSet_expand [OF assms(1), of cs s w] charset_member [OF assms(2)] by (simp add: expand_def)
qed

lemma replace_set_expands_example:
  "ReplaceSet (\<lambda>n. True) [97, 44, 98, 44] [44] (Some [59, 32]) = Some [97, 59, 32, 98, 59, 32]"
  using replace_set_expands [of "\<lambda>n. True" "[44]" "[97, 44, 98, 44]" "[59, 32]"] by simp

text \<open>
  Compacting with a replacement character gives the words of the string (the maximal parts without
  characters of the set) joined by that character: characters of the set at both ends are removed.
\<close>

lemma compact_joins_words:
  assumes "\<forall>n. mem n" "\<forall>c \<in> set cs. c \<noteq> 0 \<and> unat c < 128"
  shows "Compact_with mem s cs (Some r) = join r (words (\<lambda>c. c \<in> set cs) s)"
proof -
  have "CharSet_Has (CharSet_new cs) = (\<lambda>c. c \<in> set cs)" using charset_member [OF assms(2)] by auto
  then show ?thesis using DoCompact_join [OF assms(1), of s cs r] by (simp add: Compact_with_def)
qed

lemma compact_joins_words_example:
  "Compact_with (\<lambda>n. True) [32, 97, 32, 9, 98, 32] [32, 9] (Some 32) = [97, 32, 98]"
  using compact_joins_words [of "\<lambda>n. True" "[32, 9]" "[32, 97, 32, 9, 98, 32]" 32]
  by (simp add: words.simps)

text \<open>
  Compacting without a replacement character does not give the words joined by the first separators: the
  separator is not moved with the words, so that a stale byte takes its place once the words have moved.
  \<^verbatim>\<open>"a  b c"\<close> becomes \<^verbatim>\<open>"a bbc"\<close>.
\<close>

lemma compact_keeps_stale_bytes:
  "Compact (\<lambda>n. True) [97, 32, 32, 98, 32, 99] [32] = [97, 32, 98, 98, 99]"
proof -
  have "CharSet_Has (CharSet_new [32]) = (\<lambda>c. c \<in> set [32])" using charset_member [of "[32]"] by auto
  then show ?thesis by (simp add: Compact_def DoCompact_def compact_loop.simps Truncate_def)
qed

end
