(* ===== verification/String_Text.thy ===== *)
theory String_Text
  imports String_Sets
begin

text \<open>
  The functions of \<^verbatim>\<open>SString\<close> on text, \<^verbatim>\<open>src/libraries/libbinder/support/String.cpp\<close>: the case of letters,
  escaping, white space and comparison. As in the other theories a result \<open>None\<close> means that the call
  dereferences a null buffer or leaves the buffer.
\<close>

section \<open>The locked buffer\<close>

text \<open>
  \<open>LockBuffer\<close> gives the buffer with room for \<open>maxLength\<close> bytes (new bytes are unspecified, zero here), or
  null. \<open>UnlockBuffer\<close> takes the bytes the caller left there.
\<close>

definition LockBuffer :: "memory \<Rightarrow> bytes \<Rightarrow> nat \<Rightarrow> bytes option" where
  "LockBuffer mem s maxLength =
    (if mem maxLength then Some (take maxLength s @ replicate (maxLength - length s) 0) else None)"

definition UnlockBuffer :: "memory \<Rightarrow> bytes \<Rightarrow> int \<Rightarrow> bytes" where
  "UnlockBuffer mem buf len =
    (let len = (if len \<ge> 0 then (if len > int (length buf) then length buf else nat len)
                else length (takeWhile (\<lambda>c. c \<noteq> 0) buf)) in
     if len \<noteq> 0 then (if mem len then take len buf else buf) else [])"

section \<open>The case of letters\<close>

text \<open>A loop over the indices from \<open>i\<close> to \<open>stop\<close>.\<close>

function map_range :: "(u8 \<Rightarrow> u8) \<Rightarrow> bytes \<Rightarrow> nat \<Rightarrow> nat \<Rightarrow> bytes" where
  "map_range f data i stop =
    (if i < stop then map_range f (data[i := f (data ! i)]) (i + 1) stop else data)"
  by pat_completeness auto
termination by (relation "measure (\<lambda>(_, _, i, stop). stop - i)") auto

declare map_range.simps [simp del]

definition change_case :: "(u8 \<Rightarrow> u8) \<Rightarrow> memory \<Rightarrow> bytes \<Rightarrow> int \<Rightarrow> int \<Rightarrow> bytes option" where
  "change_case f mem s first len =
    (let stop = (if first + len > int (length s) then int (length s) else first + len) in
     if mem (length s) then (if first < 0 \<and> first < stop then None else Some (map_range f s (nat first) (nat stop)))
     else Some s)"

definition ToLower_range :: "memory \<Rightarrow> bytes \<Rightarrow> int \<Rightarrow> int \<Rightarrow> bytes option" where
  "ToLower_range mem s first len = change_case UTF8SafeToLower mem s first len"

definition ToUpper_range :: "memory \<Rightarrow> bytes \<Rightarrow> int \<Rightarrow> int \<Rightarrow> bytes option" where
  "ToUpper_range mem s first len = change_case UTF8SafeToUpper mem s first len"

definition ToLower :: "memory \<Rightarrow> bytes \<Rightarrow> bytes option" where
  "ToLower mem s = ToLower_range mem s 0 (int (length s))"

definition ToUpper :: "memory \<Rightarrow> bytes \<Rightarrow> bytes option" where
  "ToUpper mem s = ToUpper_range mem s 0 (int (length s))"

definition Capitalize :: "memory \<Rightarrow> bytes \<Rightarrow> bytes" where
  "Capitalize mem s =
    (if s = [] then s
     else if mem (length s) then map_range UTF8SafeToLower (s[0 := UTF8SafeToUpper (s ! 0)]) 1 (length s)
     else s)"

fun capitalize_words :: "bool \<Rightarrow> bytes \<Rightarrow> bytes" where
  "capitalize_words sawAlpha [] = []"
| "capitalize_words sawAlpha (c # data) =
    (if UTF8SafeIsAlpha c
     then (if sawAlpha then UTF8SafeToLower c else UTF8SafeToUpper c) # capitalize_words True data
     else c # capitalize_words False data)"

definition CapitalizeEachWord :: "memory \<Rightarrow> bytes \<Rightarrow> bytes" where
  "CapitalizeEachWord mem s = (if mem (length s) then capitalize_words False s else s)"

section \<open>Escaping\<close>

definition CharInSet :: "u8 \<Rightarrow> bytes \<Rightarrow> bool" where
  "CharInSet ch cset \<longleftrightarrow> ch \<in> set cset"

text \<open>The loop appends the part without characters to escape, then the escaped character.\<close>

function escape_loop :: "memory \<Rightarrow> bytes \<Rightarrow> u8 \<Rightarrow> bytes \<Rightarrow> bytes \<Rightarrow> bytes" where
  "escape_loop mem cset escapeWith s frm =
    (let count = length (takeWhile (\<lambda>c. c \<noteq> 0 \<and> \<not> CharInSet c cset) frm);
         s = Append_c mem s (Some frm) (int count) in
     if char_at frm count = 0 then s
     else escape_loop mem cset escapeWith
            (append_c mem s (Some (if escapeWith = 0 then [] else [escapeWith, char_at frm count])))
            (drop (count + 1) frm))"
  by pat_completeness auto
termination
proof (relation "measure (\<lambda>(_, _, _, _, frm). length frm)")
  fix frm :: bytes and n
  assume "char_at frm n \<noteq> 0"
  then have "frm \<noteq> []" by (auto simp: char_at_def)
  then show "((mem, cset, e, s, drop (n + 1) frm), (mem, cset, e, s', frm)) \<in> measure (\<lambda>(_, _, _, _, frm). length frm)"
    for mem cset e s s' by simp
qed simp

declare escape_loop.simps [simp del]

text \<open>Of a C string; a null one is only handled if there is nothing to escape.\<close>

definition CharacterEscape_c :: "memory \<Rightarrow> bytes option \<Rightarrow> bytes option \<Rightarrow> u8 \<Rightarrow> bytes option" where
  "CharacterEscape_c mem original setOfCharsToEscape escapeWith =
    (if c_bytes setOfCharsToEscape = [] then Some (assign_c mem [] original)
     else (case original of
             None \<Rightarrow> None
           | Some from \<Rightarrow> Some (escape_loop mem (c_bytes setOfCharsToEscape) escapeWith [] from)))"

definition CharacterEscape :: "memory \<Rightarrow> bytes \<Rightarrow> bytes option \<Rightarrow> u8 \<Rightarrow> bytes option" where
  "CharacterEscape mem s setOfCharsToEscape escapeWith =
    (if c_bytes setOfCharsToEscape = [] then Some s
     else if \<not> (\<exists>c \<in> set s. CharInSet c (c_bytes setOfCharsToEscape)) then Some s
     else CharacterEscape_c mem (Some s) setOfCharsToEscape escapeWith)"

fun deescape_loop :: "memory \<Rightarrow> u8 \<Rightarrow> bytes \<Rightarrow> bytes \<Rightarrow> bytes" where
  "deescape_loop mem escapeChar s [] = s"
| "deescape_loop mem escapeChar s (c # original) =
    (if c = 0 then s
     else if c \<noteq> escapeChar then deescape_loop mem escapeChar (append_char mem s c) original
     else (case original of
             [] \<Rightarrow> s
           | d # original \<Rightarrow>
               if d = 0 then s else deescape_loop mem escapeChar (append_char mem s d) original))"

definition CharacterDeescape_c :: "memory \<Rightarrow> bytes option \<Rightarrow> u8 \<Rightarrow> bytes option" where
  "CharacterDeescape_c mem original escapeChar =
    (case original of None \<Rightarrow> None | Some original \<Rightarrow> Some (deescape_loop mem escapeChar [] original))"

definition CharacterDeescape :: "memory \<Rightarrow> bytes \<Rightarrow> u8 \<Rightarrow> bytes option" where
  "CharacterDeescape mem s escapeChar =
    (if escapeChar \<notin> set s then Some s else CharacterDeescape_c mem (Some s) escapeChar)"

section \<open>White space\<close>

definition isspace :: "u8 \<Rightarrow> bool" where
  "isspace c \<longleftrightarrow> c = 32 \<or> 9 \<le> c \<and> c \<le> 13"

fun trim_end :: "bytes \<Rightarrow> nat \<Rightarrow> nat" where
  "trim_end buf 0 = 0"
| "trim_end buf (Suc e) = (if isspace (buf ! e) then trim_end buf e else Suc e)"

function trim_start :: "bytes \<Rightarrow> nat \<Rightarrow> nat" where
  "trim_start buf pos =
    (if char_at buf pos \<noteq> 0 \<and> isspace (char_at buf pos) then trim_start buf (pos + 1) else pos)"
  by pat_completeness auto
termination
  by (relation "measure (\<lambda>(buf, pos). length buf - pos)") (auto simp: char_at_def split: if_splits)

declare trim_start.simps [simp del]

definition Trim :: "memory \<Rightarrow> bytes \<Rightarrow> bytes option" where
  "Trim mem s =
    (if s = [] then Some s
     else map_option (\<lambda>buf.
       let e = trim_end buf (length s) in
       if e = 0 then UnlockBuffer mem (buf[0 := 0]) 0
       else (let pos = trim_start buf 0; len = e - pos;
                 buf = overwrite buf 0 (take len (drop pos buf));
                 buf = (if len < length buf then buf[len := 0] else buf)
             in UnlockBuffer mem buf (int len)))
       (LockBuffer mem s (length s)))"

function mush_loop :: "bytes \<Rightarrow> nat \<Rightarrow> nat \<Rightarrow> bool \<Rightarrow> bytes \<times> nat" where
  "mush_loop data buf pos lastSpace =
    (if char_at data buf \<noteq> 0 then
       (if pos = 0 \<and> isspace (char_at data buf) then mush_loop data (buf + 1) pos lastSpace
        else
          (let data = (if pos < buf then data[pos := char_at data buf] else data);
               data = (if data ! pos = 10 \<or> data ! pos = 13 \<or> data ! pos = 9 then data[pos := 32] else data) in
           if isspace (char_at data buf) then
             (if \<not> lastSpace then mush_loop data (buf + 1) (pos + 1) True
              else mush_loop data (buf + 1) pos lastSpace)
           else mush_loop data (buf + 1) (pos + 1) False))
     else (data, pos))"
  by pat_completeness auto
termination
  by (relation "measure (\<lambda>(data, buf, _, _). length data - buf)")
    (auto simp: char_at_def Let_def split: if_splits)

declare mush_loop.simps [simp del]

definition Mush :: "memory \<Rightarrow> bytes \<Rightarrow> bytes option" where
  "Mush mem s =
    (if s = [] then Some s
     else map_option (\<lambda>data.
       let (data, pos) = mush_loop data 0 0 False;
           pos = (if pos > 0 \<and> isspace (data ! (pos - 1)) then pos - 1 else pos);
           data = (if pos < length data then data[pos := 0] else data)
       in UnlockBuffer mem data (int pos))
       (LockBuffer mem s (length s)))"

function strip_loop :: "bytes \<Rightarrow> nat \<Rightarrow> nat \<Rightarrow> bytes \<times> nat" where
  "strip_loop data buf pos =
    (if char_at data buf \<noteq> 0 then
       (if isspace (char_at data buf) then strip_loop data (buf + 1) pos
        else strip_loop (data[pos := char_at data buf]) (buf + 1) (pos + 1))
     else (data, pos))"
  by pat_completeness auto
termination
  by (relation "measure (\<lambda>(data, buf, _). length data - buf)") (auto simp: char_at_def split: if_splits)

declare strip_loop.simps [simp del]

definition StripWhitespace :: "memory \<Rightarrow> bytes \<Rightarrow> bytes option" where
  "StripWhitespace mem s =
    map_option (\<lambda>data.
      let (data, pos) = strip_loop data 0 0;
          data = (if pos < length data then data[pos := 0] else data)
      in UnlockBuffer mem data (int pos))
      (LockBuffer mem s (length s))"

fun IsOnlyWhitespace :: "bytes \<Rightarrow> bool" where
  "IsOnlyWhitespace [] = True"
| "IsOnlyWhitespace (c # s) = (if \<not> isspace c then False else IsOnlyWhitespace s)"

section \<open>Comparison\<close>

text \<open>The order of terminated byte strings; the code only uses the sign.\<close>

fun strcmp :: "bytes \<Rightarrow> bytes \<Rightarrow> int" where
  "strcmp [] t = - uint (head t)"
| "strcmp (c # s) t =
    (if c = 0 \<or> c \<noteq> head t then uint c - uint (head t) else strcmp s (tl t))"

definition less_c :: "bytes \<Rightarrow> bytes option \<Rightarrow> bool" where
  "less_c s str = (if s = [] then True else case str of None \<Rightarrow> False | Some str \<Rightarrow> strcmp str s > 0)"

definition less_eq_c :: "bytes \<Rightarrow> bytes option \<Rightarrow> bool" where
  "less_eq_c s str = (if s = [] then True else case str of None \<Rightarrow> False | Some str \<Rightarrow> strcmp str s \<ge> 0)"

definition equal_c :: "bytes \<Rightarrow> bytes option \<Rightarrow> bool" where
  "equal_c s str =
    (if s = [] \<or> str = None then (str = None \<or> head (the str) = 0) = (length s = 0)
     else strcmp (the str) s = 0)"

definition greater_eq_c :: "bytes \<Rightarrow> bytes option \<Rightarrow> bool" where
  "greater_eq_c s str = (case str of None \<Rightarrow> True | Some str \<Rightarrow> if s = [] then False else strcmp str s \<le> 0)"

definition greater_c :: "bytes \<Rightarrow> bytes option \<Rightarrow> bool" where
  "greater_c s str = (case str of None \<Rightarrow> True | Some str \<Rightarrow> if s = [] then False else strcmp str s < 0)"

definition strncmp :: "bytes \<Rightarrow> bytes \<Rightarrow> int \<Rightarrow> int" where
  "strncmp s t n = (if n < 0 then strcmp s t else strcmp (take (nat n) s) (take (nat n) t))"

definition Compare_s :: "bytes \<Rightarrow> bytes \<Rightarrow> int" where
  "Compare_s s string = strcmp s string"

definition Compare_c :: "bytes \<Rightarrow> bytes option \<Rightarrow> int" where
  "Compare_c s str = (case str of None \<Rightarrow> if s \<noteq> [] then 1 else 0 | Some str \<Rightarrow> strcmp s str)"

definition Compare_s_n :: "bytes \<Rightarrow> bytes \<Rightarrow> int \<Rightarrow> int" where
  "Compare_s_n s string n = strncmp s string n"

definition Compare_c_n :: "bytes \<Rightarrow> bytes option \<Rightarrow> int \<Rightarrow> int" where
  "Compare_c_n s str n = (case str of None \<Rightarrow> if s \<noteq> [] then 1 else 0 | Some str \<Rightarrow> strncmp s str n)"

definition ICompare_s :: "bytes \<Rightarrow> bytes \<Rightarrow> int" where
  "ICompare_s s string = strcmp (map UTF8SafeToLower s) (map UTF8SafeToLower string)"

definition ICompare_c :: "bytes \<Rightarrow> bytes option \<Rightarrow> int" where
  "ICompare_c s str = (case str of None \<Rightarrow> if s \<noteq> [] then 1 else 0 | Some str \<Rightarrow> ICompare_s s str)"

definition ICompare_s_n :: "bytes \<Rightarrow> bytes \<Rightarrow> int \<Rightarrow> int" where
  "ICompare_s_n s string n = strncmp (map UTF8SafeToLower s) (map UTF8SafeToLower string) n"

definition ICompare_c_n :: "bytes \<Rightarrow> bytes option \<Rightarrow> int \<Rightarrow> int" where
  "ICompare_c_n s str n = (case str of None \<Rightarrow> if s \<noteq> [] then 1 else 0 | Some str \<Rightarrow> ICompare_s_n s str n)"

section \<open>Escaping and its inverse\<close>

definition escaped :: "bytes \<Rightarrow> u8 \<Rightarrow> bytes \<Rightarrow> bytes" where
  "escaped cset e s = concat (map (\<lambda>c. if c \<in> set cset then [e, c] else [c]) s)"

lemma escaped_simps [simp]:
  "escaped cset e [] = []"
  "escaped cset e (c # s) = (if c \<in> set cset then [e, c] else [c]) @ escaped cset e s"
  "escaped cset e (s @ t) = escaped cset e s @ escaped cset e t"
  by (simp_all add: escaped_def)

lemma escaped_none: "\<forall>c \<in> set s. c \<notin> set cset \<Longrightarrow> escaped cset e s = s"
  by (induction s) auto

lemma append_char_ok [simp]: "\<forall>n. mem n \<Longrightarrow> append_char mem s c = s @ [c]"
  by (simp add: append_char_def DoAppend_def)

lemma append_c_ok [simp]: "\<forall>n. mem n \<Longrightarrow> append_c mem s (Some t) = s @ t"
  by (simp add: append_c_def DoAppend_def)

lemma Append_c_ok [simp]: "\<forall>n. mem n \<Longrightarrow> n \<le> length t \<Longrightarrow> Append_c mem s (Some t) (int n) = s @ take n t"
  by (auto simp: Append_c_def DoAppend_def strnlen_def min_def)

lemma escape_loop_ok:
  assumes "\<forall>n. mem n" "e \<noteq> 0"
  shows "0 \<notin> set frm \<Longrightarrow> escape_loop mem cset e s frm = s @ escaped cset e frm"
proof (induction "length frm" arbitrary: s frm rule: less_induct)
  case less
  define run where "run = takeWhile (\<lambda>c. c \<noteq> 0 \<and> \<not> CharInSet c cset) frm"
  obtain rest where frm: "frm = run @ rest" "rest = dropWhile (\<lambda>c. c \<noteq> 0 \<and> \<not> CharInSet c cset) frm"
    by (simp add: run_def)
  have run: "escaped cset e run = run"
    by (intro escaped_none) (auto simp: run_def CharInSet_def dest: set_takeWhileD)
  have tk: "take (length run) frm = run" "length run \<le> length frm" using frm(1) by simp_all
  show ?case
  proof (cases rest)
    case Nil
    then have z: "char_at frm (length run) = 0" "escaped cset e frm = run"
      using frm(1) run by (simp_all add: char_at_def)
    show ?thesis
      using assms z tk by (subst escape_loop.simps) (simp add: run_def [symmetric] Let_def)
  next
    case (Cons c t)
    then have "\<not> (c \<noteq> 0 \<and> \<not> CharInSet c cset)"
      using frm(2) hd_dropWhile [of "\<lambda>c. c \<noteq> 0 \<and> \<not> CharInSet c cset" frm] by simp
    moreover have "c \<noteq> 0" using frm(1) Cons less.prems by auto
    ultimately have c: "c \<in> set cset" "c \<noteq> 0" by (simp_all add: CharInSet_def)
    have at: "char_at frm (length run) = c" "drop (length run + 1) frm = t"
      using frm(1) Cons by (simp_all add: char_at_def)
    have "escape_loop mem cset e s frm = escape_loop mem cset e ((s @ run) @ [e, c]) t"
      using assms at c(2) tk by (subst escape_loop.simps) (simp add: run_def [symmetric] Let_def)
    then show ?thesis
      using less.hyps [of t "(s @ run) @ [e, c]"] less.prems frm(1) Cons c run by simp
  qed
qed

lemma deescape_loop_ok:
  assumes "\<forall>n. mem n" "e \<in> set cset"
  shows "0 \<notin> set frm \<Longrightarrow> e \<noteq> 0 \<Longrightarrow> deescape_loop mem e s (escaped cset e frm) = s @ frm"
  using assms by (induction frm arbitrary: s) auto

lemma CharacterEscape_escaped:
  assumes "\<forall>n. mem n" "e \<noteq> 0" "0 \<notin> set s"
  shows "CharacterEscape mem s (Some cset) e = Some (escaped cset e s)"
proof (cases "\<exists>c \<in> set s. c \<in> set cset")
  case True
  then have "cset \<noteq> []" by auto
  then show ?thesis
    using True escape_loop_ok [OF assms(1,2,3)]
    by (simp add: CharacterEscape_def CharacterEscape_c_def c_bytes_def CharInSet_def)
next
  case False
  then show ?thesis
    by (auto simp: CharacterEscape_def c_bytes_def CharInSet_def escaped_none)
qed

lemma CharacterDeescape_escaped:
  assumes "\<forall>n. mem n" "e \<noteq> 0" "0 \<notin> set s" "e \<in> set cset"
  shows "CharacterDeescape mem (escaped cset e s) e = Some s"
proof (cases "e \<in> set (escaped cset e s)")
  case True
  then show ?thesis
    using deescape_loop_ok [OF assms(1,4,3,2)] by (simp add: CharacterDeescape_def CharacterDeescape_c_def)
next
  case False
  have "\<forall>c \<in> set s. c \<notin> set cset" using False by (induction s) auto
  then show ?thesis using False by (simp add: CharacterDeescape_def escaped_none)
qed

section \<open>Trimming\<close>

definition stripped :: "bytes \<Rightarrow> bytes" where
  "stripped s = rev (dropWhile isspace (rev (dropWhile isspace s)))"

lemma isspace_0 [simp]: "\<not> isspace 0"
  by (simp add: isspace_def)

lemma trim_end_rev:
  "n \<le> length s \<Longrightarrow> take (trim_end s n) s = rev (dropWhile isspace (rev (take n s))) \<and> trim_end s n \<le> n"
proof (induction n)
  case (Suc n)
  then have "take (Suc n) s = take n s @ [s ! n]" by (simp add: take_Suc_conv_app_nth)
  then show ?case using Suc by auto
qed simp

lemma trim_start_drop:
  "p \<le> length s \<Longrightarrow> trim_start s p = p + length (takeWhile isspace (drop p s))"
proof (induction s p rule: trim_start.induct)
  case (1 s p)
  show ?case
  proof (cases "p < length s")
    case True
    then have "drop p s = s ! p # drop (p + 1) s" by (simp add: Cons_nth_drop_Suc)
    moreover have "isspace c \<Longrightarrow> c \<noteq> 0" for c by auto
    ultimately show ?thesis
      using 1 True by (subst trim_start.simps) (auto simp: char_at_def)
  next
    case False
    then show ?thesis using "1.prems" by (subst trim_start.simps) (simp add: char_at_def)
  qed
qed

lemma LockBuffer_same [simp]: "\<forall>n. mem n \<Longrightarrow> LockBuffer mem s (length s) = Some s"
  by (simp add: LockBuffer_def)

lemma UnlockBuffer_take:
  "\<forall>n. mem n \<Longrightarrow> n \<le> length buf \<Longrightarrow> UnlockBuffer mem buf (int n) = take n buf"
  by (auto simp: UnlockBuffer_def)

lemma strip_cases:
  obtains (blank) "\<forall>c \<in> set s. isspace c"
    | (inner) a m b where "s = a @ m @ b" "\<forall>c \<in> set a. isspace c" "\<forall>c \<in> set b. isspace c"
        "m \<noteq> []" "\<not> isspace (hd m)" "\<not> isspace (last m)"
proof (cases "\<forall>c \<in> set s. isspace c")
  case False
  define t where "t = dropWhile isspace s"
  have t: "t \<noteq> []" "\<not> isspace (hd t)" using False by (auto simp: t_def hd_dropWhile)
  define m where "m = rev (dropWhile isspace (rev t))"
  have ne: "dropWhile isspace (rev t) \<noteq> []" using t by (auto simp: dropWhile_eq_Nil_conv)
  have tm: "t = m @ rev (takeWhile isspace (rev t))"
    unfolding m_def by (metis rev_append rev_rev_ident takeWhile_dropWhile_id)
  have m: "m \<noteq> []" "\<not> isspace (last m)" using ne hd_dropWhile [OF ne] by (simp_all add: m_def last_rev)
  then have "hd m = hd t" using tm by (metis hd_append2)
  moreover have "s = takeWhile isspace s @ m @ rev (takeWhile isspace (rev t))"
    using tm t_def by (metis takeWhile_dropWhile_id)
  ultimately show ?thesis
    using inner [of "takeWhile isspace s" m "rev (takeWhile isspace (rev t))"] m t(2)
    by (metis set_rev set_takeWhileD)
qed simp

lemma dropWhile_text: "\<forall>c \<in> set a. P c \<Longrightarrow> m \<noteq> [] \<Longrightarrow> \<not> P (hd m) \<Longrightarrow> dropWhile P (a @ m @ b) = m @ b"
  by (cases m) (simp_all add: dropWhile_append2)

lemma takeWhile_text: "\<forall>c \<in> set a. P c \<Longrightarrow> m \<noteq> [] \<Longrightarrow> \<not> P (hd m) \<Longrightarrow> takeWhile P (a @ m @ b) = a"
  by (cases m) (simp_all add: takeWhile_append2)

lemma strip_text:
  assumes "\<forall>c \<in> set a. isspace c" "\<forall>c \<in> set b. isspace c" "m \<noteq> []" "\<not> isspace (hd m)" "\<not> isspace (last m)"
  shows "rev (dropWhile isspace (rev (a @ m @ b))) = a @ m" "stripped (a @ m @ b) = m"
proof -
  have "dropWhile isspace (rev b @ rev m @ rev a) = rev m @ rev a" "dropWhile isspace (rev b @ rev m @ []) = rev m @ []"
    using assms by (intro dropWhile_text; simp add: hd_rev)+
  then show "rev (dropWhile isspace (rev (a @ m @ b))) = a @ m" "stripped (a @ m @ b) = m"
    using dropWhile_text [OF assms(1,3,4)] by (simp_all add: stripped_def)
qed

lemma strip_blank: "\<forall>c \<in> set s. isspace c \<Longrightarrow> stripped s = [] \<and> rev (dropWhile isspace (rev s)) = []"
  by (simp add: stripped_def dropWhile_eq_Nil_conv [THEN iffD2])

lemma Trim_stripped:
  assumes "\<forall>n. mem n"
  shows "Trim mem s = Some (stripped s)"
proof (cases "s = []")
  case True
  then show ?thesis by (simp add: Trim_def stripped_def)
next
  case False
  define e where "e = trim_end s (length s)"
  have e: "take e s = rev (dropWhile isspace (rev s))" "e \<le> length s"
    using trim_end_rev [of "length s" s] by (simp_all add: e_def)
  define p where "p = trim_start s 0"
  have p: "p = length (takeWhile isspace s)" by (simp add: p_def trim_start_drop)
  show ?thesis
  proof (cases s rule: strip_cases)
    case blank
    then have "e = 0" using e False strip_blank [OF blank] by (simp add: take_eq_Nil)
    then show ?thesis
      using False assms strip_blank [OF blank] by (simp add: Trim_def e_def [symmetric] UnlockBuffer_def)
  next
    case (inner a m b)
    have pa: "p = length a" using p inner takeWhile_text [of a isspace m b] by simp
    have "take e s = a @ m" using e(1) strip_text(1) [OF inner(2-6)] inner(1) by simp
    then have ea: "e = length a + length m" using e(2) by (metis length_append length_take min.absorb2)
    define buf where "buf = overwrite s 0 (take (e - p) (drop p s))"
    have ep: "e \<noteq> 0" "e - p = length m" using pa ea inner(4) by auto
    have m: "length m \<le> length buf" "take (length m) buf = m"
      using inner(1) pa ea by (simp_all add: buf_def overwrite_def)
    have "UnlockBuffer mem (buf[length m := 0]) (int (length m)) = m" "UnlockBuffer mem buf (int (length m)) = m"
      using m UnlockBuffer_take [OF assms, of "length m" "buf[length m := 0]"]
        UnlockBuffer_take [OF assms, of "length m" buf] by simp_all
    moreover have "stripped s = m" using strip_text(2) [OF inner(2-6)] inner(1) by simp
    ultimately have "UnlockBuffer mem (if e - p < length buf then buf[e - p := 0] else buf) (int (e - p)) = stripped s"
      by (simp only: ep(2) if_distrib if_distribR if_cancel)
    then show ?thesis
      using False assms ep(1)
      by (simp only: Trim_def LockBuffer_same [OF assms] option.map Let_def
          e_def [symmetric] p_def [symmetric] buf_def [symmetric] if_False)
  qed
qed

section \<open>Squeezing white space\<close>

definition blank :: "u8 \<Rightarrow> u8" where
  "blank c = (if c = 10 \<or> c = 13 \<or> c = 9 then 32 else c)"

text \<open>
  What \<open>Mush\<close> means: each run of white space inside of the text becomes its first character, with line
  ends and tabs as a space.
\<close>

function squeeze :: "bytes \<Rightarrow> bytes" where
  "squeeze [] = []"
| "squeeze (c # s) =
    (if isspace c then (let t = dropWhile isspace s in if t = [] then [] else blank c # squeeze t)
     else c # squeeze s)"
  by pat_completeness auto
termination
  by (relation "measure length") (auto simp: le_imp_less_Suc length_dropWhile_le)

fun mush_acc :: "bytes \<Rightarrow> bool \<Rightarrow> bytes \<Rightarrow> bytes" where
  "mush_acc out sp [] = out"
| "mush_acc out sp (c # s) =
    (if out = [] \<and> isspace c then mush_acc out sp s
     else if isspace c then mush_acc (if sp then out else out @ [blank c]) True s
     else mush_acc (out @ [c]) False s)"

definition mush_end :: "bytes \<Rightarrow> bytes" where
  "mush_end out = (if out \<noteq> [] \<and> isspace (last out) then butlast out else out)"

lemma isspace_blank [simp]: "isspace (blank c) = isspace c"
  by (auto simp: blank_def isspace_def)

lemma blank_text [simp]: "\<not> isspace c \<Longrightarrow> blank c = c"
  by (auto simp: blank_def isspace_def)

definition squeeze_more :: "u8 \<Rightarrow> bytes \<Rightarrow> bytes" where
  "squeeze_more n s = (let t = dropWhile isspace s in if t = [] then [] else n # squeeze t)"

lemma squeeze_space: "isspace c \<Longrightarrow> squeeze (c # s) = squeeze_more (blank c) s"
  by (simp add: squeeze_more_def)

lemma mush_acc_squeeze:
  "isspace c \<longrightarrow> mush_end (mush_acc (out @ [c]) True s) = out @ squeeze_more c s"
  "\<not> isspace c \<longrightarrow> mush_end (mush_acc (out @ [c]) False s) = out @ [c] @ squeeze s"
proof (induction s arbitrary: out c)
  case Nil
  case 1 show ?case by (simp add: mush_end_def squeeze_more_def)
  case 2 show ?case by (simp add: mush_end_def)
next
  case (Cons d s)
  case 1 show ?case
    using Cons.IH(1) [of c out] Cons.IH(2) [of d "out @ [c]"] by (auto simp: squeeze_more_def)
  case 2 show ?case
    using Cons.IH(1) [of "blank d" "out @ [c]"] Cons.IH(2) [of d "out @ [c]"] by (auto simp: squeeze_more_def)
qed

lemma mush_acc_start: "mush_end (mush_acc [] False s) = squeeze (dropWhile isspace s)"
proof (induction s)
  case Nil
  show ?case by (simp add: mush_end_def)
next
  case (Cons c s)
  show ?case using Cons.IH mush_acc_squeeze(2) [of c "[]" s] by simp
qed

lemma mush_step:
  assumes "buf < length data" "char_at data buf \<noteq> 0" "pos \<le> buf" "\<not> (pos = 0 \<and> isspace (char_at data buf))"
  defines "c \<equiv> char_at data buf"
  defines "e \<equiv> data[pos := blank c]"
  shows "mush_loop data buf pos sp =
    (if isspace c then (if \<not> sp then mush_loop e (buf + 1) (pos + 1) True else mush_loop e (buf + 1) pos sp)
     else mush_loop e (buf + 1) (pos + 1) False)"
proof -
  have c: "data ! buf = c" using assms(1) by (simp add: c_def char_at_def)
  define x where "x = (if pos < buf then data[pos := c] else data)"
  have x: "x = data[pos := c]"
    using assms(3) c by (cases "pos < buf") (auto simp: x_def list_update_same_conv)
  have p: "pos < length data" using assms(1,3) by simp
  have e: "(if x ! pos = 10 \<or> x ! pos = 13 \<or> x ! pos = 9 then x[pos := 32] else x) = e"
    using p by (auto simp: x e_def blank_def)
  have "char_at e buf = (if pos = buf then blank c else c)"
    using assms(1) c by (simp add: e_def char_at_def nth_list_update)
  then have "isspace (char_at e buf) = isspace c" by simp
  then show ?thesis
    using assms(2,4) by (subst mush_loop.simps) (simp only: c_def [symmetric] x_def [symmetric] Let_def e if_False if_True not_False_eq_True simp_thms)
qed

lemma mush_loop_acc:
  assumes "pos \<le> buf" "buf \<le> length data" "0 \<notin> set (drop buf data)"
  shows "\<exists>d p. mush_loop data buf pos sp = (d, p) \<and> length d = length data \<and> p \<le> length d \<and>
    take p d = mush_acc (take pos data) sp (drop buf data)"
  using assms
proof (induction "length data - buf" arbitrary: data buf pos sp rule: less_induct)
  case less
  show ?case
  proof (cases "buf < length data")
    case False
    then show ?thesis using less.prems by (subst mush_loop.simps) (simp add: char_at_def)
  next
    case True
    define c where "c = char_at data buf"
    have d: "drop buf data = c # drop (buf + 1) data" "data ! buf = c"
      using True by (simp_all add: c_def char_at_def Cons_nth_drop_Suc)
    then have c0: "c \<noteq> 0" and rest: "0 \<notin> set (drop (buf + 1) data)" using less.prems(3) by auto
    have out: "take pos data = [] \<longleftrightarrow> pos = 0" using True by auto
    have IH: "\<exists>d p. mush_loop e (buf + 1) k sp' = (d, p) \<and> length d = length data \<and> p \<le> length d \<and>
        take p d = mush_acc (take k e) sp' (drop (buf + 1) data)"
      if "length e = length data" "drop (buf + 1) e = drop (buf + 1) data" "k \<le> buf + 1" for e k sp'
      using less.hyps [of e "buf + 1" k sp'] that rest True by simp
    show ?thesis
    proof (cases "pos = 0 \<and> isspace c")
      case skip: True
      then have "mush_loop data buf pos sp = mush_loop data (buf + 1) pos sp"
        using c0 by (subst mush_loop.simps) (simp add: c_def)
      then show ?thesis using IH [of data pos sp] skip d(1) less.prems by simp
    next
      case keep: False
      define e where "e = data[pos := blank c]"
      have p: "pos < length data" using less.prems(1) True by simp
      have e: "length e = length data" "take (pos + 1) e = take pos data @ [blank c]" "take pos e = take pos data"
        "drop (buf + 1) e = drop (buf + 1) data"
        using p less.prems(1) by (simp_all add: e_def take_Suc_conv_app_nth)
      have "mush_loop data buf pos sp =
          (if isspace c then (if \<not> sp then mush_loop e (buf + 1) (pos + 1) True else mush_loop e (buf + 1) pos sp)
           else mush_loop e (buf + 1) (pos + 1) False)"
        using mush_step [OF True c0 [unfolded c_def] less.prems(1)] keep by (simp add: c_def e_def)
      then show ?thesis
        using IH [of e "pos + 1" True] IH [of e pos sp] IH [of e "pos + 1" False] e keep out d(1) less.prems(1)
        by (cases "isspace c"; cases sp) auto
    qed
  qed
qed

lemma Mush_squeeze:
  assumes "\<forall>n. mem n" "0 \<notin> set s"
  shows "Mush mem s = Some (squeeze (dropWhile isspace s))"
proof (cases "s = []")
  case False
  obtain d p where l: "mush_loop s 0 0 False = (d, p)" "length d = length s" "p \<le> length d"
      "take p d = mush_acc [] False s"
    using mush_loop_acc [of 0 0 s False] assms(2) by auto
  define p' where "p' = (if p > 0 \<and> isspace (d ! (p - 1)) then p - 1 else p)"
  have last: "last (take p d) = d ! (p - 1)" if "p > 0"
    using that l(3) by (subst last_conv_nth) (auto simp: min_def)
  have "take p' d = mush_end (take p d)"
    using l(3) last by (auto simp: mush_end_def p'_def butlast_take)
  then have t: "take p' d = squeeze (dropWhile isspace s)" using l(4) mush_acc_start by simp
  have p': "p' \<le> length d" using l(3) by (auto simp: p'_def)
  have "UnlockBuffer mem (d[p' := 0]) (int p') = take p' d" "UnlockBuffer mem d (int p') = take p' d"
    using UnlockBuffer_take [OF assms(1), of p' "d[p' := 0]"] UnlockBuffer_take [OF assms(1), of p' d] p' by simp_all
  then have "UnlockBuffer mem (if p' < length d then d[p' := 0] else d) (int p') = take p' d"
    by (simp only: if_distrib if_distribR if_cancel)
  then show ?thesis
    using False l(1) t by (simp only: Mush_def LockBuffer_same [OF assms(1)] option.map Let_def prod.case
        p'_def [symmetric] if_False)
qed (simp add: Mush_def)

lemma strip_loop_filter:
  "pos \<le> buf \<Longrightarrow> buf \<le> length data \<Longrightarrow> 0 \<notin> set (drop buf data) \<Longrightarrow>
   \<exists>d p. strip_loop data buf pos = (d, p) \<and> p \<le> length d \<and>
     take p d = take pos data @ filter (\<lambda>c. \<not> isspace c) (drop buf data)"
proof (induction "length data - buf" arbitrary: data buf pos rule: less_induct)
  case less
  show ?case
  proof (cases "buf < length data")
    case False
    then show ?thesis using less.prems by (subst strip_loop.simps) (simp add: char_at_def)
  next
    case True
    define c where "c = data ! buf"
    have d: "char_at data buf = c" "drop buf data = c # drop (buf + 1) data"
      using True by (simp_all add: c_def char_at_def Cons_nth_drop_Suc)
    then have c0: "c \<noteq> 0" "0 \<notin> set (drop (buf + 1) data)" using less.prems(3) by auto
    have u: "take (pos + 1) (data[pos := c]) = take pos data @ [c]"
      using less.prems(1) True by (simp add: take_Suc_conv_app_nth)
    show ?thesis
      using less.hyps [of data "buf + 1" pos] less.hyps [of "data[pos := c]" "buf + 1" "pos + 1"] less.prems True c0 d u
      by (subst strip_loop.simps) simp
  qed
qed

lemma StripWhitespace_filter:
  assumes "\<forall>n. mem n" "0 \<notin> set s"
  shows "StripWhitespace mem s = Some (filter (\<lambda>c. \<not> isspace c) s)"
proof -
  obtain d p where l: "strip_loop s 0 0 = (d, p)" "p \<le> length d" "take p d = filter (\<lambda>c. \<not> isspace c) s"
    using strip_loop_filter [of 0 0 s] assms(2) by auto
  have "UnlockBuffer mem (d[p := 0]) (int p) = take p d" "UnlockBuffer mem d (int p) = take p d"
    using UnlockBuffer_take [OF assms(1), of p "d[p := 0]"] UnlockBuffer_take [OF assms(1), of p d] l(2) by simp_all
  then show ?thesis using assms(1) l by (auto simp: StripWhitespace_def)
qed

lemma IsOnlyWhitespace_iff: "IsOnlyWhitespace s \<longleftrightarrow> (\<forall>c \<in> set s. isspace c)"
  by (induction s) auto

section \<open>Letters\<close>

lemma map_range_map:
  "i \<le> stop \<Longrightarrow> stop \<le> length s \<Longrightarrow>
   map_range f s i stop = take i s @ map f (drop i (take stop s)) @ drop stop s"
proof (induction f s i stop rule: map_range.induct)
  case (1 f s i stop)
  show ?case
  proof (cases "i < stop")
    case True
    then have i: "i < length s" using "1.prems"(2) by simp
    have u: "take (i + 1) (s[i := f (s ! i)]) = take i s @ [f (s ! i)]" using i by (intro take_step) simp_all
    have v: "drop (i + 1) (take stop (s[i := f (s ! i)])) = drop (i + 1) (take stop s)"
      "drop stop (s[i := f (s ! i)]) = drop stop s"
      using i True by (simp_all add: take_update_swap drop_update_cancel)
    have "drop i (take stop s) = s ! i # drop (i + 1) (take stop s)"
      using True i "1.prems"(2) by (simp add: nth_take flip: Cons_nth_drop_Suc)
    then show ?thesis using 1 True u v by (subst map_range.simps) simp
  next
    case False
    then show ?thesis using "1.prems" by (subst map_range.simps) simp
  qed
qed

lemma change_case_range:
  assumes "\<forall>n. mem n" "first \<le> length s"
  shows "change_case f mem s (int first) (int n) =
    Some (take first s @ map f (take n (drop first s)) @ drop (first + n) s)"
proof (cases "first + n \<le> length s")
  case True
  then show ?thesis
    using assms map_range_map [of first "first + n" s f] by (simp add: change_case_def nat_add_distrib drop_take)
next
  case False
  then show ?thesis
    using assms map_range_map [of first "length s" s f] by (simp add: change_case_def)
qed

section \<open>Comparison\<close>

fun lex_less :: "bytes \<Rightarrow> bytes \<Rightarrow> bool" where
  "lex_less s [] = False"
| "lex_less [] (d # t) = True"
| "lex_less (c # s) (d # t) = (c < d \<or> c = d \<and> lex_less s t)"

lemma strcmp_sign:
  "0 \<notin> set s \<Longrightarrow> 0 \<notin> set t \<Longrightarrow>
   (strcmp s t < 0 \<longleftrightarrow> lex_less s t) \<and> (strcmp s t = 0 \<longleftrightarrow> s = t) \<and> (strcmp s t > 0 \<longleftrightarrow> lex_less t s)"
proof (induction s arbitrary: t)
  case Nil
  have pos: "uint c > 0" if "c \<noteq> 0" for c :: u8
    using that uint_ge_0 [of c] by (metis order_le_less uint_0_iff)
  show ?case
  proof (cases t)
    case (Cons a u)
    then show ?thesis using Nil pos [of a] by auto
  qed simp
next
  case (Cons c s)
  have pos: "uint (x :: u8) > 0" if "x \<noteq> 0" for x
    using that uint_ge_0 [of x] by (metis order_le_less uint_0_iff)
  show ?case
  proof (cases t)
    case Nil
    then show ?thesis using Cons.prems pos [of c] by auto
  next
    case (Cons d u)
    then show ?thesis using Cons.IH [of u] Cons.prems by (auto simp: word_less_def word_uint_eq_iff)
  qed
qed

section \<open>Properties\<close>

text \<open>
  C14. Escaping and removing the escapes gives the string back, if the escape character is one of the escaped
  characters and there is memory.
\<close>

theorem escape_round_trip:
  assumes "\<forall>n. mem n" "e \<noteq> 0" "0 \<notin> set s" "e \<in> set cset"
  shows "Option.bind (CharacterEscape mem s (Some cset) e) (\<lambda>t. CharacterDeescape mem t e) = Some s"
  using CharacterEscape_escaped [OF assms(1,2,3), of cset] CharacterDeescape_escaped [OF assms] by simp

theorem escape_round_trip_witness:
  "Option.bind (CharacterEscape (\<lambda>n. True) [97, 34, 92, 98] (Some [34, 92]) 92) (\<lambda>t. CharacterDeescape (\<lambda>n. True) t 92) =
   Some [97, 34, 92, 98]"
  using escape_round_trip [of "\<lambda>n. True" 92 "[97, 34, 92, 98]" "[34, 92]"] by simp

text \<open>
  With memory, the white space functions compute what their names say: \<open>Trim\<close> removes white space at both
  ends, \<open>Mush\<close> also reduces each inner run to one character, \<open>StripWhitespace\<close> removes all of it, and the
  three agree with \<open>IsOnlyWhitespace\<close> on when nothing is left.
\<close>

lemma whitespace_functions:
  assumes "\<forall>n. mem n" "0 \<notin> set s"
  shows "Trim mem s = Some (stripped s) \<and>
    Mush mem s = Some (squeeze (dropWhile isspace s)) \<and>
    StripWhitespace mem s = Some (filter (\<lambda>c. \<not> isspace c) s) \<and>
    (IsOnlyWhitespace s \<longleftrightarrow> Trim mem s = Some []) \<and> (IsOnlyWhitespace s \<longleftrightarrow> StripWhitespace mem s = Some [])"
proof -
  have "stripped s = [] \<longleftrightarrow> (\<forall>c \<in> set s. isspace c)"
  proof (cases s rule: strip_cases)
    case blank
    then show ?thesis using strip_blank by blast
  next
    case (inner a m b)
    then have "\<not> isspace (hd m)" "hd m \<in> set s" by auto
    then show ?thesis using strip_text(2) [OF inner(2-6)] inner(1,4) by auto
  qed
  then show ?thesis
    using Trim_stripped [OF assms(1)] Mush_squeeze [OF assms] StripWhitespace_filter [OF assms]
    by (simp add: IsOnlyWhitespace_iff filter_empty_conv)
qed

lemma whitespace_functions_example:
  "Mush (\<lambda>n. True) [32, 97, 9, 10, 98, 32] = Some [97, 32, 98] \<and> Trim (\<lambda>n. True) [32, 97, 9, 10, 98, 32] = Some [97, 9, 10, 98]"
  using whitespace_functions [of "\<lambda>n. True" "[32, 97, 9, 10, 98, 32]"]
  by (simp add: stripped_def isspace_def blank_def)

text \<open>
  On strings that are not empty the comparison operators with a C string are the lexicographic order of the
  bytes and its reverse, and equality. On the empty string they are not: it is below every C string, the
  empty one and the null pointer included, and never above or equal to one, although it equals the empty one.
\<close>

lemma comparison_operators:
  assumes "0 \<notin> set s" "0 \<notin> set t"
  shows "(s \<noteq> [] \<longrightarrow>
      (less_c s (Some t) \<longleftrightarrow> lex_less s t) \<and> (less_eq_c s (Some t) \<longleftrightarrow> lex_less s t \<or> s = t) \<and>
      (equal_c s (Some t) \<longleftrightarrow> s = t) \<and>
      (greater_eq_c s (Some t) \<longleftrightarrow> lex_less t s \<or> s = t) \<and> (greater_c s (Some t) \<longleftrightarrow> lex_less t s)) \<and>
    less_c [] (Some t) \<and> less_c [] None \<and> \<not> greater_eq_c [] (Some t) \<and> equal_c [] (Some []) \<and> greater_c [] None"
  using strcmp_sign [OF assms(2,1)]
  by (auto simp: less_c_def less_eq_c_def equal_c_def greater_eq_c_def greater_c_def order_le_less)

lemma comparison_operators_example:
  "less_c [97] (Some [98]) \<and> less_c [] (Some []) \<and> \<not> greater_eq_c [] (Some [])"
  using comparison_operators [of "[97]" "[98]"] comparison_operators [of "[]" "[]"] by simp

end
