(* ===== verification/String_Path.thy ===== *)
theory String_Path
  imports String_Text
begin

text \<open>
  Paths and numbers in strings, \<^verbatim>\<open>src/libraries/libbinder/support/String.cpp\<close>: the normalization of paths, joining
  and splitting them, and \<open>IsNumber\<close>. The variant with the delimiter of Unix is modelled. The result
  \<open>None\<close> means as before that the call does not return normally; here also that it reads behind the
  terminator or in front of the first byte of the string.
\<close>

definition B_ENTRY_NOT_FOUND :: status_t where "B_ENTRY_NOT_FOUND = -2"

section \<open>Normalization\<close>

definition path_equals_delimiter :: "u8 \<Rightarrow> bool" where
  "path_equals_delimiter c \<longleftrightarrow> c = 47"

definition path_delimiter :: bytes where "path_delimiter = [47]"

definition path_root_length :: "bytes \<Rightarrow> nat" where
  "path_root_length path = (if path_equals_delimiter (head path) then 1 else 0)"

fun path_back :: "bytes \<Rightarrow> nat \<Rightarrow> nat" where
  "path_back s 0 = 0"
| "path_back s (Suc i) = (if path_equals_delimiter (s ! i) then Suc i else path_back s i)"

text \<open>
  The main loop, at the index \<open>i\<close>. The first test is the unchecked read of the loop condition: the terminator is
  the last byte that may be read.
\<close>

partial_function (option) path_loop :: "memory \<Rightarrow> bytes \<Rightarrow> nat \<Rightarrow> bool \<Rightarrow> bytes option" where
  "path_loop mem s i slash =
    (if i > length s then None
     else if char_at s i = 0 then Some s
     else
       (let start = (i = 0 \<or> path_equals_delimiter (char_at s i));
            c1 = char_at s (i + 1); c2 = char_at s (i + 2); c3 = char_at s (i + 3) in
        if start \<and> c1 = 46 \<and> c2 = 46 \<and> (c3 = 0 \<or> path_equals_delimiter c3) then
          (let j = path_back s i in
           Option.bind (Remove_at mem s (int j) (int i - int j + (if c3 \<noteq> 0 then 4 else 3))) (\<lambda>s.
             path_loop mem s (if j > 0 then j - 1 else j) False))
        else
          Option.bind
            (if \<not> start then Some s
             else if c1 \<noteq> 0 then
               (if c1 = 46 then
                  (if c2 \<noteq> 0 then
                     (if c2 \<noteq> 46 \<and> path_equals_delimiter c2 then Remove_at mem s (int (i + 1)) 2 else Some s)
                   else Remove_at mem s (int (i + 1)) 1)
                else Some s)
             else if i \<noteq> 0 then Remove_at mem s (int i) 1
             else Some s)
            (\<lambda>s.
              if path_equals_delimiter (char_at s i) then
                (if slash then Option.bind (Remove_at mem s (int i) 1) (\<lambda>s. path_loop mem s i slash)
                 else path_loop mem s (i + 1) True)
              else path_loop mem s (i + 1) False)))"

text \<open>At the end the last byte is read, for an empty string the one in front of it.\<close>

definition path_normalize :: "memory \<Rightarrow> bytes \<Rightarrow> bytes option" where
  "path_normalize mem s =
    Option.bind (path_loop mem s 0 False) (\<lambda>s.
      if s = [] then None
      else if length s - 1 > 0 \<and> path_equals_delimiter (s ! (length s - 1))
      then Remove_at mem s (int (length s - 1)) 1
      else Some s)"

definition PathNormalize :: "memory \<Rightarrow> bytes \<Rightarrow> (status_t \<times> bytes) option" where
  "PathNormalize mem s = map_option (\<lambda>s. (B_OK, s)) (path_normalize mem s)"

section \<open>Joining and splitting paths\<close>

definition PathSetTo_len :: "memory \<Rightarrow> bytes option \<Rightarrow> bytes option \<Rightarrow> bool \<Rightarrow> (status_t \<times> bytes) option" where
  "PathSetTo_len mem dir leaf normal =
    (let dir = (case leaf of Some l \<Rightarrow> if path_equals_delimiter (head l) then Some [] else dir | None \<Rightarrow> dir);
         leaf = c_bytes leaf in
     case dir of
       None \<Rightarrow> Some (B_BAD_VALUE, [])
     | Some dir \<Rightarrow>
         (let slash = (if dir \<noteq> [] \<and> leaf \<noteq> [] \<and> \<not> path_equals_delimiter (last dir) then path_delimiter else []) in
          if \<not> mem (length dir + length leaf + length slash) then Some (B_NO_MEMORY, [])
          else
            (let s = dir @ slash @ leaf in
             if normal then PathNormalize mem s else Some (B_OK, s))))"

definition PathSetTo :: "memory \<Rightarrow> bytes \<Rightarrow> bytes \<Rightarrow> bool \<Rightarrow> (status_t \<times> bytes) option" where
  "PathSetTo mem dir leaf normal = PathSetTo_len mem (Some dir) (Some leaf) normal"

definition PathSetTo_c :: "memory \<Rightarrow> bytes option \<Rightarrow> bytes option \<Rightarrow> bool \<Rightarrow> (status_t \<times> bytes) option" where
  "PathSetTo_c mem dir leaf normal = PathSetTo_len mem dir leaf normal"

definition PathAppend :: "memory \<Rightarrow> bytes \<Rightarrow> bytes \<Rightarrow> bool \<Rightarrow> (status_t \<times> bytes) option" where
  "PathAppend mem s leaf normal = PathSetTo_len mem (Some s) (Some leaf) normal"

definition PathAppend_c :: "memory \<Rightarrow> bytes \<Rightarrow> bytes option \<Rightarrow> bool \<Rightarrow> (status_t \<times> bytes) option" where
  "PathAppend_c mem s leaf normal = PathSetTo_len mem (Some s) leaf normal"

definition PathLeaf :: "bytes \<Rightarrow> bytes" where
  "PathLeaf s =
    (let offset = FindLast_c s (Some path_delimiter) in
     if offset \<ge> 0 then drop (nat offset + 1) s else s)"

text \<open>The parent is written to a string; a null pointer is dereferenced on the error path.\<close>

definition PathGetParent :: "memory \<Rightarrow> bytes \<Rightarrow> bytes option \<Rightarrow> (status_t \<times> bytes) option" where
  "PathGetParent mem s parentPath =
    (case parentPath of
       None \<Rightarrow> None
     | Some parent \<Rightarrow>
         (let offset = FindLast_c s (Some path_delimiter) in
          if offset < 0 then Some (B_ENTRY_NOT_FOUND, [])
          else if int (path_root_length s) - offset - 1 = 0 then
            (if length s \<le> 1 then Some (B_ENTRY_NOT_FOUND, [])
             else Some (B_OK, SetTo_c mem parent (Some s) (int (path_root_length s))))
          else map_option (\<lambda>p. (B_OK, p)) (SetTo_s mem parent s offset)))"

function branch_loop :: "bytes \<Rightarrow> nat \<Rightarrow> (nat \<times> int) option" where
  "branch_loop s start =
    Option.bind (FindFirst_c_from s path_delimiter (int start)) (\<lambda>p.
      if p \<noteq> int start then Some (start, p) else branch_loop s (start + 1))"
  by pat_completeness auto
termination
  by (relation "measure (\<lambda>(s, start). length s - start)") (auto simp: FindFirst_c_from_def split: if_splits)

declare branch_loop.simps [simp del]

definition get_branch_pos :: "bytes \<Rightarrow> (nat \<times> nat) option" where
  "get_branch_pos s =
    map_option (\<lambda>(start, p). (start, if p < 0 then length s else nat p)) (branch_loop s (path_root_length s))"

definition PathGetRoot :: "memory \<Rightarrow> bytes \<Rightarrow> bytes option \<Rightarrow> (status_t \<times> bytes option) option" where
  "PathGetRoot mem s branch =
    (case branch of
       None \<Rightarrow> Some (B_BAD_VALUE, None)
     | Some b \<Rightarrow>
         map_option (\<lambda>(start, end). (B_OK, Some (SetTo_c mem b (Some (drop start s)) (int end - int start))))
           (get_branch_pos s))"

text \<open>The result is the status, the branch and the rest of the path.\<close>

definition PathRemoveRoot :: "memory \<Rightarrow> bytes \<Rightarrow> bytes option \<Rightarrow> (status_t \<times> bytes option \<times> bytes) option" where
  "PathRemoveRoot mem s branch =
    (case branch of
       None \<Rightarrow> Some (B_BAD_VALUE, None, s)
     | Some b \<Rightarrow>
         Option.bind (get_branch_pos s) (\<lambda>(start, end).
           map_option (\<lambda>rest. (B_OK, Some (SetTo_c mem b (Some (drop start s)) (int end - int start)), rest))
             (Remove_at mem s 0 (if end < length s then int end + 1 else int end))))"

section \<open>Numbers\<close>

text \<open>
  The loop over the digits. \<open>accepted\<close> is the variable \<^verbatim>\<open>any\<close>; the value only serves to detect overflow, which does not
  change the result.
\<close>

definition digit_value :: "u8 \<Rightarrow> int option" where
  "digit_value c =
    (if 48 \<le> c \<and> c \<le> 57 then Some (uint c - 48)
     else if 65 \<le> c \<and> c \<le> 90 then Some (uint c - 65 + 10)
     else if 97 \<le> c \<and> c \<le> 122 then Some (uint c - 97 + 10)
     else None)"

fun number_loop :: "int \<Rightarrow> int \<Rightarrow> int \<Rightarrow> bytes \<Rightarrow> int \<Rightarrow> int \<Rightarrow> int" where
  "number_loop base cutoff cutlim [] accepted acc = accepted"
| "number_loop base cutoff cutlim (c # s) accepted acc =
    (if c = 0 then accepted
     else (case digit_value c of
             None \<Rightarrow> if isspace c then number_loop base cutoff cutlim s accepted acc else 0
           | Some d \<Rightarrow>
               if d \<ge> base then 0
               else if accepted < 0 \<or> acc > cutoff \<or> acc = cutoff \<and> d > cutlim
               then number_loop base cutoff cutlim s (-1) acc
               else number_loop base cutoff cutlim s 1 (acc * base + d)))"

text \<open>The parts in front of the digits: white space, a sign, the prefix \<^verbatim>\<open>0x\<close>; with the base they leave.\<close>

definition number_sign :: "bytes \<Rightarrow> bool \<times> bytes" where
  "number_sign s = (if head s = 45 then (True, tl s) else if head s = 43 then (False, tl s) else (False, s))"

definition number_base :: "int \<Rightarrow> bytes \<Rightarrow> int \<times> bytes" where
  "number_base base s =
    (let (base, s) = (if (base = 0 \<or> base = 16) \<and> head s = 48 \<and> (head (tl s) = 120 \<or> head (tl s) = 88)
                      then (16, drop 2 s) else (base, s))
     in (if base = 0 then (if head s = 48 then 8 else 10) else base, s))"

definition IsNumber :: "int \<Rightarrow> bytes \<Rightarrow> int \<Rightarrow> bool" where
  "IsNumber long_max s base =
    (let (neg, s) = number_sign (dropWhile isspace s); (base, s) = number_base base s in
     if base < 2 \<or> base > 36 then False
     else (let cutoff = (if neg then long_max + 1 else long_max)
           in number_loop base (cutoff div base) (cutoff mod base) s 0 0 \<noteq> 0))"

section \<open>What normalization means\<close>

text \<open>A path from the root as the list of its components.\<close>

definition path_of :: "bytes list \<Rightarrow> bytes" where
  "path_of cs = concat (map (\<lambda>c. 47 # c) cs)"

definition dotdot :: bytes where "dotdot = [46, 46]"

definition plain :: "bytes \<Rightarrow> bool" where
  "plain c \<longleftrightarrow> c \<noteq> [] \<and> 0 \<notin> set c \<and> 47 \<notin> set c \<and> c \<noteq> [46] \<and> c \<noteq> dotdot"

text \<open>The components with \<open>..\<close> resolved; \<open>None\<close> if it would leave the root.\<close>

fun resolve :: "bytes list \<Rightarrow> bytes list \<Rightarrow> bytes list option" where
  "resolve st [] = Some (rev st)"
| "resolve st (c # cs) =
    (if c = dotdot then (case st of [] \<Rightarrow> None | _ # st \<Rightarrow> resolve st cs) else resolve (c # st) cs)"

lemma path_of_simps [simp]:
  "path_of [] = []" "path_of (c # cs) = 47 # c @ path_of cs" "path_of (as @ bs) = path_of as @ path_of bs"
  by (simp_all add: path_of_def)

lemma Remove_at_ok:
  assumes "\<forall>n. mem n" "0 < n" "k + n \<le> length s"
  shows "Remove_at mem s (int k) (int n) = Some (take k s @ drop (k + n) s)"
proof -
  have "int n > 0 \<and> int k < int (length s)" using assms by simp
  moreover have "\<not> int n > int (length s) - int k" using assms(3) by simp
  ultimately show ?thesis using ShrinkAtBy_ok [OF assms(1,3)] by (simp add: Remove_at_def)
qed

lemma char_at_append [simp]:
  "char_at (xs @ ys) (length xs) = head ys" "char_at (xs @ ys) (length xs + k) = char_at ys k"
  by (auto simp: char_at_def head_def nth_append split: list.splits)

lemma path_loop_inside:
  assumes "0 \<notin> set c" "47 \<notin> set c" "pre \<noteq> []"
  shows "path_loop mem (pre @ c @ rest) (length pre) slash =
    path_loop mem (pre @ c @ rest) (length pre + length c) (if c = [] then slash else False)"
  using assms
proof (induction c arbitrary: pre slash)
  case (Cons d c)
  have "path_loop mem (pre @ (d # c) @ rest) (length pre) slash = path_loop mem (pre @ (d # c) @ rest) (length pre + 1) False"
    using Cons.prems by (subst path_loop.simps) (simp add: path_equals_delimiter_def Let_def)
  then show ?case using Cons.IH [of "pre @ [d]" False] Cons.prems by simp
qed simp

lemma path_loop_plain:
  assumes "plain c" "rest = [] \<or> head rest = 47"
  shows "path_loop mem (pre @ 47 # c @ rest) (length pre) False =
    path_loop mem (pre @ 47 # c @ rest) (length (pre @ 47 # c)) False"
proof -
  define s where "s = pre @ 47 # c @ rest"
  have c: "c \<noteq> []" "0 \<notin> set c" "47 \<notin> set c" using assms(1) by (auto simp: plain_def)
  have at: "char_at s (length pre) = 47" "char_at s (length pre + Suc k) = char_at (c @ rest) k" for k
    using char_at_append(2) [of pre "47 # c @ rest" "Suc k"] by (simp_all add: s_def) (simp add: char_at_def)
  have x: "char_at s (length pre) = 47" "char_at s (length pre + 1) = char_at (c @ rest) 0"
    "char_at s (length pre + 2) = char_at (c @ rest) 1" "char_at s (length pre + 3) = char_at (c @ rest) 2"
    using at at(2) [of 0] at(2) [of 1] at(2) [of 2] by (simp_all add: numeral_2_eq_2 numeral_3_eq_3)
  have len: "\<not> length s < length pre" by (simp add: s_def)
  have c1: "char_at (c @ rest) 0 \<noteq> 0" using c by (cases c) (auto simp: char_at_def)
  have c2: "char_at (c @ rest) 1 \<noteq> 0 \<and> \<not> path_equals_delimiter (char_at (c @ rest) 1)"
    if "char_at (c @ rest) 0 = 46"
    using that c assms(1) by (cases c; cases "tl c") (auto simp: char_at_def plain_def path_equals_delimiter_def)
  have c3: "char_at (c @ rest) 2 \<noteq> 0 \<and> \<not> path_equals_delimiter (char_at (c @ rest) 2)"
    if h: "char_at (c @ rest) 0 = 46" "char_at (c @ rest) 1 = 46"
  proof -
    obtain u where u: "c = 46 # u" using c(1) h(1) by (cases c) (auto simp: char_at_def)
    then obtain v where v: "c = 46 # 46 # v" using h(2) assms(1) by (cases u) (auto simp: char_at_def plain_def)
    then show ?thesis using c assms(1) by (cases v) (auto simp: char_at_def plain_def dotdot_def path_equals_delimiter_def)
  qed
  have "path_loop mem s (length pre) False = path_loop mem s (length pre + 1) True"
    using c1 c2 c3 len x
    by (subst path_loop.simps) (auto simp: path_equals_delimiter_def Let_def)
  then show ?thesis
    using path_loop_inside [OF c(2,3), of "pre @ [47]" mem rest True] c(1) by (simp add: s_def)
qed

lemma path_back_delimiter:
  "47 \<notin> set x \<Longrightarrow> path_back (q @ 47 # x @ t) (length q + 1 + length x) = length q + 1"
proof (induction x arbitrary: t rule: rev_induct)
  case Nil
  then show ?case by (simp add: path_equals_delimiter_def nth_append)
next
  case (snoc a x)
  have "(q @ 47 # (x @ [a]) @ t) ! (length q + 1 + length x) = a" by (simp add: nth_append)
  then show ?case using snoc.IH [of "a # t"] snoc.prems by (simp add: path_equals_delimiter_def)
qed

lemma path_loop_dotdot:
  assumes "\<forall>n. mem n" "47 \<notin> set x"
  shows "path_loop mem ((q @ 47 # x) @ 47 # dotdot @ 47 # rest) (length (q @ 47 # x)) slash =
    path_loop mem (q @ 47 # rest) (length q) False"
proof -
  define s where "s = (q @ 47 # x) @ 47 # dotdot @ 47 # rest"
  define i where "i = length (q @ 47 # x)"
  have at: "char_at s i = 47" "char_at s (i + 1) = 46" "char_at s (i + 2) = 46" "char_at s (i + 3) = 47"
    using char_at_append(2) [of "q @ 47 # x" "47 # dotdot @ 47 # rest"]
    by (simp_all add: s_def i_def dotdot_def char_at_def nth_append numeral_2_eq_2 numeral_3_eq_3)
  have b: "path_back s i = length q + 1"
    using path_back_delimiter [OF assms(2), of q "47 # dotdot @ 47 # rest"] by (simp add: s_def i_def)
  define y where "y = x @ [47, 46, 46, 47]"
  have s: "s = (q @ [47]) @ y @ rest" and y: "length y = length x + 4" by (simp_all add: s_def dotdot_def y_def)
  have "Remove_at mem s (int (length q + 1)) (int (length x + 4)) =
      Some (take (length q + 1) s @ drop (length q + 1 + (length x + 4)) s)"
    by (rule Remove_at_ok [OF assms(1)]) (simp_all add: s y)
  moreover have "take (length q + 1) s @ drop (length q + 1 + (length x + 4)) s = q @ 47 # rest"
    by (simp add: s flip: y)
  moreover have "int i - int (length q + 1) + 4 = int (length x + 4)" by (simp add: i_def)
  ultimately have "Remove_at mem s (int (length q + 1)) (int i - int (length q + 1) + 4) = Some (q @ 47 # rest)"
    by (simp only:)
  moreover have "i \<le> length s" by (simp add: s_def i_def)
  ultimately have "path_loop mem s i slash = path_loop mem (q @ 47 # rest) (length q) False"
    using at b by (subst path_loop.simps) (simp add: Let_def path_equals_delimiter_def)
  then show ?thesis by (simp add: s_def i_def)
qed

lemma path_loop_resolve:
  assumes "\<forall>n. mem n"
  shows "\<lbrakk>\<forall>c \<in> set st. plain c; \<forall>c \<in> set cs. plain c \<or> c = dotdot; cs \<noteq> [] \<longrightarrow> last cs \<noteq> dotdot;
      resolve st cs = Some r\<rbrakk> \<Longrightarrow>
    path_loop mem (path_of (rev st) @ path_of cs) (length (path_of (rev st))) False = Some (path_of r)"
proof (induction cs arbitrary: st)
  case Nil
  then show ?case by (subst path_loop.simps) (simp add: char_at_def)
next
  case (Cons c cs)
  have rest: "path_of cs = [] \<or> head (path_of cs) = 47" by (cases cs) auto
  show ?case
  proof (cases "c = dotdot")
    case False
    then have "plain c" using Cons.prems(2) by simp
    then show ?thesis
      using path_loop_plain [OF _ rest, of c mem "path_of (rev st)"] Cons.IH [of "c # st"] Cons.prems False
      by (simp split: if_splits)
  next
    case True
    then obtain x st' where st: "st = x # st'" and r: "resolve st' cs = Some r"
      using Cons.prems(4) by (cases st) auto
    have "cs \<noteq> []" using True Cons.prems(3) by auto
    then obtain d ds where cs: "cs = d # ds" by (cases cs) auto
    have "47 \<notin> set x" using Cons.prems(1) st by (simp add: plain_def)
    from path_loop_dotdot [OF assms this, of "path_of (rev st')" "d @ path_of ds" False]
    show ?thesis using Cons.IH [of st'] Cons.prems r st cs True by (simp split: if_splits)
  qed
qed

lemma resolve_last:
  "cs \<noteq> [] \<Longrightarrow> last cs \<noteq> dotdot \<Longrightarrow> resolve st cs = Some r \<Longrightarrow> r \<noteq> [] \<and> last r = last cs"
  by (induction cs arbitrary: st) (auto split: if_splits list.splits)

section \<open>Joining and splitting\<close>

lemma last_at_single:
  assumes "last_at s [47] (length s) r" "\<And>i. occurs s [47] i \<longleftrightarrow> i < length s \<and> s ! i = 47"
    "k < length s" "s ! k = 47" "\<And>i. i < length s \<Longrightarrow> s ! i = 47 \<Longrightarrow> i \<le> k"
  shows "r = int k"
proof -
  have "r \<noteq> -1" using assms(1-4) by (auto simp: last_at_def Suc_le_eq)
  then have r: "0 \<le> r" "nat r < length s" "s ! nat r = 47" "\<forall>i. nat r < i \<and> i < length s \<longrightarrow> s ! i \<noteq> 47"
    using assms(1,2) by (auto simp: last_at_def Suc_le_eq)
  then have "nat r \<le> k" "\<not> nat r < k" using assms(3-5) by auto
  then show ?thesis using r(1) by simp
qed

lemma FindLast_delimiter:
  assumes "47 \<notin> set leaf"
  shows "FindLast_c (dir @ 47 # leaf) (Some path_delimiter) = int (length dir)"
proof -
  define s where "s = dir @ 47 # leaf"
  have occ: "occurs s [47] i \<longleftrightarrow> i < length s \<and> s ! i = 47" for i by (auto simp: occurs_nth)
  have here: "length dir < length s" "s ! length dir = 47" by (simp_all add: s_def)
  have after: "i \<le> length dir" if "i < length s" "s ! i = 47" for i
  proof (rule ccontr)
    assume "\<not> i \<le> length dir"
    then obtain k where "i = length dir + 1 + k" using less_imp_Suc_add [of "length dir" i] by auto
    then have "k < length leaf" "leaf ! k = 47" using that by (simp_all add: s_def nth_append)
    then show False using assms nth_mem by metis
  qed
  have "last_at s [47] (length s) (FindBefore s [47] (length s))"
    by (rule FindBefore_last) (use here in auto)
  then have "FindBefore s [47] (length s) = int (length dir)"
    using occ here after by (rule last_at_single)
  then show ?thesis by (simp add: FindLast_c_def path_delimiter_def s_def)
qed

section \<open>What counts as a number\<close>

text \<open>
  The result does not depend on the width of \<^verbatim>\<open>long\<close>: the characters behind sign and prefix are digits of the base or
  white space, and there is a digit. White space between the digits is accepted as well.
\<close>

definition number_text :: "int \<Rightarrow> bytes \<Rightarrow> bool" where
  "number_text base s \<longleftrightarrow> (\<forall>c \<in> set s. case digit_value c of None \<Rightarrow> isspace c | Some d \<Rightarrow> d < base)"

lemma number_loop_iff:
  "0 \<notin> set s \<Longrightarrow> number_loop base cutoff cutlim s accepted acc \<noteq> 0 \<longleftrightarrow>
    number_text base s \<and> (accepted \<noteq> 0 \<or> (\<exists>c \<in> set s. digit_value c \<noteq> None))"
proof (induction s arbitrary: accepted acc)
  case (Cons c s)
  show ?case
  proof (cases "digit_value c")
    case None
    then show ?thesis using Cons.IH [of accepted acc] Cons.prems by (auto simp: number_text_def)
  next
    case (Some d)
    then show ?thesis
      using Cons.IH [of "-1" acc] Cons.IH [of 1 "acc * base + d"] Cons.prems by (auto simp: number_text_def)
  qed
qed (simp add: number_text_def)

lemma IsNumber_iff:
  assumes "0 \<notin> set s" "number_sign (dropWhile isspace s) = (neg, t)" "number_base base t = (base', u)"
  shows "IsNumber long_max s base \<longleftrightarrow>
    2 \<le> base' \<and> base' \<le> 36 \<and> number_text base' u \<and> (\<exists>c \<in> set u. digit_value c \<noteq> None)"
proof -
  have "set t \<subseteq> set s"
  proof -
    have "set (tl xs) \<subseteq> set xs" for xs :: bytes by (cases xs) auto
    then have "set t \<subseteq> set (dropWhile isspace s)" using assms(2) by (auto simp: number_sign_def split: if_splits)
    then show ?thesis by (auto dest: set_dropWhileD)
  qed
  moreover have "set u \<subseteq> set t"
    using assms(3) by (auto simp: number_base_def Let_def split: if_splits dest: in_set_dropD)
  ultimately have "0 \<notin> set u" using assms(1) by blast
  then show ?thesis using number_loop_iff [of u] assms(2,3) by (auto simp: IsNumber_def)
qed

lemma IsNumber_inner_space: "IsNumber long_max [49, 32, 50] 10"
  using IsNumber_iff [of "[49, 32, 50]" False "[49, 32, 50]" 10 10 "[49, 32, 50]" long_max]
  by (simp add: number_sign_def number_base_def number_text_def digit_value_def isspace_def)

section \<open>Properties\<close>

text \<open>
  C17. Normalizing a path from the root whose components are names or \<open>..\<close>, that ends in a name and does not leave
  the root on the way, returns the path with every \<open>..\<close> resolved.
\<close>

theorem path_normalize_resolves:
  assumes "\<forall>n. mem n" "\<forall>c \<in> set cs. plain c \<or> c = dotdot" "cs \<noteq> []" "last cs \<noteq> dotdot" "resolve [] cs = Some r"
  shows "PathNormalize mem (path_of cs) = Some (B_OK, path_of r)"
proof -
  have "path_loop mem (path_of cs) 0 False = Some (path_of r)"
    using path_loop_resolve [OF assms(1), of "[]" cs r] assms(2-5) by simp
  moreover have r: "r \<noteq> []" "last r = last cs" using resolve_last assms(3,4,5) by blast+
  moreover have "plain (last cs)" using assms(2-4) by auto
  moreover have "path_of r = path_of (butlast r) @ 47 # last r" using r(1) by (metis append_butlast_last_id path_of_simps append_Nil2)
  moreover have "last (path_of r) \<noteq> 47" if "plain (last r)"
    using that calculation by (auto simp: plain_def) (metis last_ConsR last_appendR last_in_set list.distinct(1))
  ultimately show ?thesis
    by (auto simp: PathNormalize_def path_normalize_def path_equals_delimiter_def last_conv_nth)
qed

theorem path_normalize_resolves_witness:
  "PathNormalize (\<lambda>n. True) (path_of [[97], [46, 46], [98], [46, 99]]) = Some (B_OK, path_of [[98], [46, 99]])"
  by (rule path_normalize_resolves) (simp_all add: plain_def dotdot_def)

lemmas path_edit_defs = char_at_def path_equals_delimiter_def Remove_at_def ShrinkAtBy_def Let_def

text \<open>
  Paths that are not normalized correctly, in the order of the finding: \<^verbatim>\<open>../b\<close>, \<^verbatim>\<open>a./b\<close>,
  \<^verbatim>\<open>/././b\<close>, \<^verbatim>\<open>/../b\<close>, and \<^verbatim>\<open>b/\<close>, which reads behind the terminator.
\<close>

lemma path_normalize_wrong:
  "path_normalize (\<lambda>n. True) [46, 46, 47, 98] = Some [46, 98]"
  "path_normalize (\<lambda>n. True) [97, 46, 47, 98] = Some [97, 98]"
  "path_normalize (\<lambda>n. True) [47, 46, 47, 46, 47, 98] = Some [47, 46, 47, 98]"
  "path_normalize (\<lambda>n. True) [47, 46, 46, 47, 98] = Some [98]"
  "path_normalize (\<lambda>n. True) [98, 47] = None"
  unfolding path_normalize_def
  by (subst path_loop.simps, simp add: path_edit_defs)+

text \<open>
  The parent and the leaf of a path joined again give the path, unless the parent is empty or ends in the
  delimiter or the leaf is empty.
\<close>

lemma path_split_join:
  assumes "\<forall>n. mem n" "dir \<noteq> []" "last dir \<noteq> 47" "leaf \<noteq> []" "47 \<notin> set leaf"
  shows "PathLeaf (dir @ 47 # leaf) = leaf \<and>
    PathGetParent mem (dir @ 47 # leaf) (Some parent) = Some (B_OK, dir) \<and>
    PathSetTo mem dir leaf False = Some (B_OK, dir @ 47 # leaf)"
proof -
  have off: "FindLast_c (dir @ 47 # leaf) (Some path_delimiter) = int (length dir)"
    using assms(5) by (rule FindLast_delimiter)
  have "path_root_length (dir @ 47 # leaf) \<le> 1" "0 < length dir" using assms(2) by (simp_all add: path_root_length_def)
  then have root: "int (path_root_length (dir @ 47 # leaf)) - int (length dir) - 1 \<noteq> 0" by linarith
  have "PathGetParent mem (dir @ 47 # leaf) (Some parent) = Some (B_OK, dir)"
    using off root assms(1,2) by (simp add: PathGetParent_def SetTo_s_def DoSetTo_def Let_def del: diff_eq_eq)
  moreover have "head leaf \<noteq> 47" using assms(4,5) by (cases leaf) auto
  ultimately show ?thesis
    using off assms by (simp add: PathLeaf_def PathSetTo_def PathSetTo_len_def path_equals_delimiter_def path_delimiter_def
        c_bytes_def Let_def)
qed

lemma path_split_join_example:
  "PathGetParent (\<lambda>n. True) [47, 97, 47, 98] (Some []) = Some (B_OK, [47, 97]) \<and> PathLeaf [47, 97, 47, 98] = [98]"
  using path_split_join [of "\<lambda>n. True" "[47, 97]" "[98]" "[]"] by simp

end
