(* ===== verification/String_UTF8.thy ===== *)
theory String_UTF8
  imports String_Edit
begin

text \<open>
  Characters and their encoding, \<^verbatim>\<open>src/libraries/libbinder/support/String.cpp\<close>: \<^verbatim>\<open>WChar32ToUTF8\<close> and the
  functions of \<^verbatim>\<open>SString\<close> that step over, read and append whole characters. Code points are 32 bit words.
\<close>

unbundle bit_operations_syntax

section \<open>Stepping over characters\<close>

lemma UTF8CharLen_pos [simp]: "0 < UTF8CharLen c"
  by (simp add: UTF8CharLen_def)

function count_chars :: "bytes \<Rightarrow> nat \<Rightarrow> nat \<Rightarrow> nat" where
  "count_chars s i numChars =
    (if i < length s then count_chars s (i + UTF8CharLen (s ! i)) (numChars + 1) else numChars)"
  by pat_completeness auto
termination by (relation "measure (\<lambda>(s, i, _). length s - i)") (auto simp: UTF8CharLen_def)

declare count_chars.simps [simp del]

definition CountChars :: "bytes \<Rightarrow> nat" where
  "CountChars s = count_chars s 0 0"

text \<open>The loop that steps back; \<open>n\<close> is the number of bytes it may still look at.\<close>

fun first_loop :: "bytes \<Rightarrow> nat \<Rightarrow> nat \<Rightarrow> int" where
  "first_loop s index 0 = -1"
| "first_loop s index (Suc n) =
    (if s ! index AND 0xc0 \<noteq> 0x80 then int index
     else if index = 0 then -1 else first_loop s (index - 1) n)"

definition FirstForChar :: "bytes \<Rightarrow> int \<Rightarrow> int" where
  "FirstForChar s index =
    (if index < 0 \<or> index \<ge> int (length s) then -1
     else if s ! nat index AND 0x80 = 0 then index
     else first_loop s (nat index) 7)"

fun next_loop :: "bytes \<Rightarrow> nat \<Rightarrow> nat \<Rightarrow> int" where
  "next_loop s index 0 = -1"
| "next_loop s index (Suc n) =
    (if char_at s index = 0 then int (length s)
     else if char_at s index AND 0xc0 \<noteq> 0x80 then int index
     else next_loop s (index + 1) n)"

definition NextCharFor :: "bytes \<Rightarrow> int \<Rightarrow> int" where
  "NextCharFor s index =
    (if index < 0 \<or> index \<ge> int (length s) then -1
     else if s ! nat index AND 0x80 = 0 then index + 1
     else next_loop s (nat index + 1) 6)"

definition NextChar :: "bytes \<Rightarrow> int \<Rightarrow> int" where
  "NextChar s index =
    (if index < 0 \<or> index \<ge> int (length s) then -1
     else (let result = index + int (UTF8CharLen (s ! nat index)) in
           if result > int (length s) then -1 else result))"

definition CharLength :: "bytes \<Rightarrow> int \<Rightarrow> int" where
  "CharLength s index =
    (if index < 0 \<or> index \<ge> int (length s) then -1
     else (let c = s ! nat index in if c AND 0xc0 = 0x80 then 0 else int (UTF8CharLen c)))"

section \<open>Reading and appending characters\<close>

definition UTF8_SHIFT_AND_MASK :: "u32 \<Rightarrow> u8 \<Rightarrow> u32" where
  "UTF8_SHIFT_AND_MASK unicode byte = push_bit 6 unicode OR (0x3f AND ucast byte)"

definition CharAt :: "bytes \<Rightarrow> int \<Rightarrow> u32" where
  "CharAt s index =
    (if index < 0 \<or> index > int (length s) then 0xffff
     else if index = 0 \<and> length s = 0 then 0
     else
       (let i = nat index; c = char_at s i in
        if c = 0 then 0
        else if c AND 0xc0 = 0x80 then 0xffff
        else
          (let chars = UTF8CharLen c in
           if i + chars > length s then 0xffff
           else if chars = 1 then ucast c
           else if chars = 2 then UTF8_SHIFT_AND_MASK (ucast c AND 0x1f) (s ! (i + 1))
           else if chars = 3 then
             UTF8_SHIFT_AND_MASK (UTF8_SHIFT_AND_MASK (ucast c AND 0x0f) (s ! (i + 1))) (s ! (i + 2))
           else if chars = 4 then
             UTF8_SHIFT_AND_MASK (UTF8_SHIFT_AND_MASK (UTF8_SHIFT_AND_MASK (ucast c AND 0x07)
               (s ! (i + 1))) (s ! (i + 2))) (s ! (i + 3))
           else 0xffff)))"

definition GET_UTF8_LAST_BYTE :: "u32 \<Rightarrow> u8" where
  "GET_UTF8_LAST_BYTE unicode = ucast (0x80 OR (unicode AND 0x3f))"

definition GET_UTF8_BYTE :: "u32 \<Rightarrow> nat \<Rightarrow> u8" where
  "GET_UTF8_BYTE unicode shift = ucast (0x80 OR (drop_bit shift unicode AND 0x3f))"

text \<open>The bytes that \<open>AppendChar\<close> appends; none for code points that are not valid.\<close>

definition char_bytes :: "u32 \<Rightarrow> bytes" where
  "char_bytes unicode =
    (if unicode = 0 then []
     else if unicode \<le> 0x7F then [ucast unicode]
     else if unicode \<le> 0x7FF then [ucast (0xc0 OR drop_bit 6 unicode), GET_UTF8_LAST_BYTE unicode]
     else if unicode \<le> 0xFFFF then
       [ucast (0xe0 OR drop_bit 12 unicode), GET_UTF8_BYTE unicode 6, GET_UTF8_LAST_BYTE unicode]
     else if unicode \<le> 0x1FFFFF then
       [ucast (0xf0 OR drop_bit 18 unicode), GET_UTF8_BYTE unicode 12, GET_UTF8_BYTE unicode 6,
        GET_UTF8_LAST_BYTE unicode]
     else [])"

definition AppendChar :: "memory \<Rightarrow> bytes \<Rightarrow> u32 \<Rightarrow> bytes" where
  "AppendChar mem s unicode = DoAppend mem s (char_bytes unicode)"

text \<open>The bytes that \<open>WChar32ToUTF8\<close> writes; their number is its result.\<close>

definition continuation :: "u32 \<Rightarrow> u8" where
  "continuation srcChar = ucast ((srcChar OR 0x80) AND 0xBF)"

definition WChar32ToUTF8 :: "u32 \<Rightarrow> bytes" where
  "WChar32ToUTF8 srcChar =
    (if srcChar < 0x80 then [ucast srcChar]
     else if srcChar < 0x800 then
       [ucast (drop_bit 6 srcChar OR 0xC0), continuation srcChar]
     else if srcChar < 0x10000 then
       (if srcChar < 0xD800 \<or> srcChar > 0xDFFF then
          [ucast (drop_bit 12 srcChar OR 0xE0), continuation (drop_bit 6 srcChar), continuation srcChar]
        else [])
     else if srcChar < 0x110000 then
       [ucast (drop_bit 18 srcChar OR 0xF0), continuation (drop_bit 12 srcChar), continuation (drop_bit 6 srcChar),
        continuation srcChar]
     else [])"

section \<open>Bits of code points and bytes\<close>

lemma UTF8CharLen_table:
  "list_all (\<lambda>n. UTF8CharLen (of_nat n) =
     (if n < 0xC0 then 1 else if n < 0xE0 then 2 else if n < 0xF0 then 3 else 4)) [0..<256]"
  by code_simp

lemma UTF8CharLen_eq:
  "UTF8CharLen c = (if unat c < 0xC0 then 1 else if unat c < 0xE0 then 2 else if unat c < 0xF0 then 3 else 4)"
proof -
  have "unat c < 256" using unsigned_less [of c] by simp
  then have "UTF8CharLen (of_nat (unat c)) =
      (if unat c < 0xC0 then 1 else if unat c < 0xE0 then 2 else if unat c < 0xF0 then 3 else 4)"
    using UTF8CharLen_table unfolding list_all_iff set_upt by (elim ballE [of _ _ "unat c"]) simp_all
  then show ?thesis by simp
qed

lemma bit_bound:
  assumes "unat (u :: u32) < 2 ^ k" "bit u n"
  shows "n < k"
proof (rule ccontr)
  assume "\<not> n < k"
  have "odd (unat u div 2 ^ n)" using assms(2) by (simp add: bit_unsigned_iff flip: bit_iff_odd)
  then have "2 ^ n \<le> unat u" by (cases "unat u < 2 ^ n") auto
  moreover have "(2 :: nat) ^ k \<le> 2 ^ n" using \<open>\<not> n < k\<close> by simp
  ultimately show False using assms(1) by simp
qed

lemma bit_word_bound: "bit (u :: u32) n \<Longrightarrow> n < 32"
  using bit_imp_le_length [of u n] by simp

lemma masks:
  "(0x3f :: u32) = mask 6" "(0x1f :: u32) = mask 5" "(0x0f :: u32) = mask 4" "(0x07 :: u32) = mask 3"
  "(0x80 :: u32) = push_bit 7 1" "(0xc0 :: u32) = push_bit 6 (mask 2)" "(0xe0 :: u32) = push_bit 5 (mask 3)"
  "(0xf0 :: u32) = push_bit 4 (mask 4)" "(0xbf :: u32) = push_bit 7 1 OR mask 6"
  by (simp_all add: mask_eq_exp_minus_1 push_bit_eq_mult)

lemma continuation_eq: "GET_UTF8_LAST_BYTE u = continuation u" "GET_UTF8_BYTE u n = continuation (drop_bit n u)"
proof -
  have *: "0x80 OR (v AND 0x3f) = (v OR 0x80) AND (0xbf :: u32)" for v
    unfolding masks by (rule bit_eqI) (auto simp only: bit_simps)
  show "GET_UTF8_LAST_BYTE u = continuation u" "GET_UTF8_BYTE u n = continuation (drop_bit n u)"
    by (simp_all add: GET_UTF8_LAST_BYTE_def GET_UTF8_BYTE_def continuation_def *)
qed

lemma continuation_low: "0x3f AND ucast (continuation v) = take_bit 6 v"
  unfolding continuation_def masks by (rule bit_eqI) (auto simp only: bit_simps; simp)

lemma shift_continuation: "UTF8_SHIFT_AND_MASK (drop_bit 6 v) (continuation v) = v"
proof -
  have "push_bit 6 (drop_bit 6 v) OR take_bit 6 v = v"
    by (rule bit_eqI) (auto simp: bit_simps)
  then show ?thesis by (simp only: UTF8_SHIFT_AND_MASK_def continuation_low)
qed

text \<open>The first byte of a character of several bytes, checked for every payload.\<close>

definition lead_ok :: "u32 \<Rightarrow> nat \<Rightarrow> u32 \<Rightarrow> u32 \<Rightarrow> bool" where
  "lead_ok m len msk w \<longleftrightarrow>
    (let b = ucast (m OR w) :: u8 in
     UTF8CharLen b = len \<and> b AND 0xc0 \<noteq> 0x80 \<and> b \<noteq> 0 \<and> b AND 0x80 \<noteq> 0 \<and> ucast b AND msk = w)"

definition ascii_ok :: "u32 \<Rightarrow> bool" where
  "ascii_ok u \<longleftrightarrow> u = 0 \<or>
    (let b = ucast u :: u8 in UTF8CharLen b = 1 \<and> b AND 0xc0 \<noteq> 0x80 \<and> b \<noteq> 0 \<and> b AND 0x80 = 0 \<and> ucast b = u)"

lemma lead_tables:
  "list_all (\<lambda>n. lead_ok 0xc0 2 0x1f (of_nat n)) [0..<32]"
  "list_all (\<lambda>n. lead_ok 0xe0 3 0x0f (of_nat n)) [0..<16]"
  "list_all (\<lambda>n. lead_ok 0xf0 4 0x07 (of_nat n)) [0..<8]"
  "list_all (\<lambda>n. ascii_ok (of_nat n)) [0..<128]"
  by code_simp+

lemma list_all_word:
  fixes w :: u32
  assumes "list_all (\<lambda>n. q (of_nat n :: u32)) [0..<k]" "unat w < k"
  shows "q w"
proof -
  have "q (of_nat (unat w))" using assms by (auto simp only: list_all_iff set_upt atLeastLessThan_iff)
  then show ?thesis by simp
qed

lemma lead_bytes:
  "unat w < 32 \<Longrightarrow> lead_ok 0xc0 2 0x1f w" "unat w < 16 \<Longrightarrow> lead_ok 0xe0 3 0x0f w"
  "unat w < 8 \<Longrightarrow> lead_ok 0xf0 4 0x07 w" "unat w < 128 \<Longrightarrow> ascii_ok w"
  using list_all_word [OF lead_tables(1)] list_all_word [OF lead_tables(2)] list_all_word [OF lead_tables(3)]
    list_all_word [OF lead_tables(4)] by blast+

lemma continuation_byte:
  "continuation v AND 0xc0 = 0x80" "continuation v AND 0x80 \<noteq> 0" "continuation v \<noteq> 0"
proof -
  have b: "bit (continuation v) 7" "\<not> bit (continuation v) 6"
    unfolding continuation_def masks by (simp_all only: bit_simps) simp_all
  have m: "(0xc0 :: u8) = push_bit 6 (mask 2)" "(0x80 :: u8) = push_bit 7 1"
    by (simp_all add: mask_eq_exp_minus_1 push_bit_eq_mult)
  then show "continuation v AND 0xc0 = 0x80"
    using b by (auto simp only: bit_eq_iff bit_simps) (auto simp: less_Suc_eq numeral_eq_Suc)
  have "bit (continuation v AND push_bit 7 1) 7" using b(1) by (simp only: bit_simps) simp
  then show "continuation v AND 0x80 \<noteq> 0" by (metis m(2) bit_0_eq bot_apply bot_bool_def)
  then show "continuation v \<noteq> 0" by auto
qed

lemma unat_drop: "unat (drop_bit n (u :: u32)) = unat u div 2 ^ n"
  by (simp only: unsigned_drop_bit_eq) (simp add: drop_bit_nat_def take_bit_nat_eq_self)

section \<open>Encoded characters\<close>

definition utf_char :: "u8 \<Rightarrow> bytes \<Rightarrow> bool" where
  "utf_char b bs \<longleftrightarrow> UTF8CharLen b = length bs + 1 \<and> length bs \<le> 3 \<and> b AND 0xc0 \<noteq> 0x80 \<and> b \<noteq> 0 \<and>
    (b AND 0x80 = 0 \<longleftrightarrow> bs = []) \<and> (\<forall>c \<in> set bs. c AND 0xc0 = 0x80 \<and> c AND 0x80 \<noteq> 0 \<and> c \<noteq> 0)"

lemma char_bytes_cases:
  assumes "u \<noteq> 0" "u \<le> 0x1FFFFF"
  obtains (one) "unat u < 128" "char_bytes u = [ucast u]"
    | (two) "unat (drop_bit 6 u) < 32" "char_bytes u = [ucast (0xc0 OR drop_bit 6 u), continuation u]"
    | (three) "unat (drop_bit 12 u) < 16"
        "char_bytes u = [ucast (0xe0 OR drop_bit 12 u), continuation (drop_bit 6 u), continuation u]"
    | (four) "unat (drop_bit 18 u) < 8"
        "char_bytes u = [ucast (0xf0 OR drop_bit 18 u), continuation (drop_bit 12 u),
           continuation (drop_bit 6 u), continuation u]"
proof -
  have u: "unat u \<le> 0x1FFFFF" using assms(2) by (simp add: word_le_nat_alt)
  consider "u \<le> 0x7F" | "\<not> u \<le> 0x7F" "u \<le> 0x7FF" | "\<not> u \<le> 0x7F" "\<not> u \<le> 0x7FF" "u \<le> 0xFFFF"
    | "\<not> u \<le> 0x7F" "\<not> u \<le> 0x7FF" "\<not> u \<le> 0xFFFF" by blast
  then show thesis
  proof cases
    case 1
    then show ?thesis using assms one by (simp add: char_bytes_def word_le_nat_alt)
  next
    case 2
    then have "unat (drop_bit 6 u) < 32" by (simp only: unat_drop word_le_nat_alt) simp
    then show ?thesis using 2 assms two by (simp add: char_bytes_def continuation_eq)
  next
    case 3
    then have "unat (drop_bit 12 u) < 16" by (simp only: unat_drop word_le_nat_alt) simp
    then show ?thesis using 3 assms three by (simp add: char_bytes_def continuation_eq)
  next
    case 4
    have "unat (drop_bit 18 u) < 8" using u by (simp only: unat_drop word_le_nat_alt) simp
    then show ?thesis using 4 assms four by (simp add: char_bytes_def continuation_eq)
  qed
qed

lemma char_bytes_utf:
  assumes "u \<noteq> 0" "u \<le> 0x1FFFFF"
  shows "\<exists>b bs. char_bytes u = b # bs \<and> utf_char b bs"
  using assms
proof (cases rule: char_bytes_cases)
  case one
  then show ?thesis using lead_bytes(4) [OF one(1)] assms(1) by (simp add: ascii_ok_def utf_char_def Let_def)
next
  case two
  then show ?thesis using lead_bytes(1) [OF two(1)] by (simp add: lead_ok_def utf_char_def Let_def continuation_byte)
next
  case three
  then show ?thesis using lead_bytes(2) [OF three(1)] by (simp add: lead_ok_def utf_char_def Let_def continuation_byte)
next
  case four
  then show ?thesis using lead_bytes(3) [OF four(1)] by (simp add: lead_ok_def utf_char_def Let_def continuation_byte)
qed

lemma CharAt_char_bytes:
  assumes "u \<noteq> 0" "u \<le> 0x1FFFFF"
  shows "CharAt (s @ char_bytes u) (int (length s)) = u"
  using assms
proof (cases rule: char_bytes_cases)
  case one
  then show ?thesis using lead_bytes(4) [OF one(1)] assms(1)
    by (simp add: ascii_ok_def CharAt_def Let_def char_at_def)
next
  case two
  then show ?thesis using lead_bytes(1) [OF two(1)] shift_continuation [of u]
    by (simp add: lead_ok_def CharAt_def Let_def char_at_def nth_append)
next
  case three
  then show ?thesis
    using lead_bytes(2) [OF three(1)] shift_continuation [of u] shift_continuation [of "drop_bit 6 u"]
    by (simp add: lead_ok_def CharAt_def Let_def char_at_def nth_append)
next
  case four
  then show ?thesis
    using lead_bytes(3) [OF four(1)] shift_continuation [of u] shift_continuation [of "drop_bit 6 u"]
      shift_continuation [of "drop_bit 12 u"]
    by (simp add: lead_ok_def CharAt_def Let_def char_at_def nth_append)
qed

lemma first_loop_back:
  "k < n \<Longrightarrow> t ! i AND 0xc0 \<noteq> 0x80 \<Longrightarrow> (\<forall>j. 0 < j \<and> j \<le> k \<longrightarrow> t ! (i + j) AND 0xc0 = 0x80) \<Longrightarrow>
   first_loop t (i + k) n = int i"
proof (induction k arbitrary: n)
  case 0
  then show ?case by (cases n) simp_all
next
  case (Suc k)
  then obtain m where m: "n = Suc m" by (cases n) auto
  have "t ! (i + Suc k) AND 0xc0 = 0x80" using Suc.prems(3) by blast
  then show ?case using Suc.IH [of m] Suc.prems m by simp
qed

lemma next_loop_end:
  "k < n \<Longrightarrow> i + k = length t \<Longrightarrow> (\<forall>j < k. t ! (i + j) AND 0xc0 = 0x80 \<and> t ! (i + j) \<noteq> 0) \<Longrightarrow>
   next_loop t i n = int (length t)"
proof (induction k arbitrary: i n)
  case 0
  then show ?case by (cases n) (simp_all add: char_at_def)
next
  case (Suc k)
  then obtain m where m: "n = Suc m" by (cases n) auto
  have "t ! (Suc i + j) AND 0xc0 = 0x80 \<and> t ! (Suc i + j) \<noteq> 0" if "j < k" for j
    using Suc.prems(3) that by (metis Suc_less_eq add_Suc_shift)
  then have "next_loop t (Suc i) m = int (length t)" using Suc.IH [of m "Suc i"] Suc.prems(1,2) m by simp
  moreover have "t ! i AND 0xc0 = 0x80" "t ! i \<noteq> 0" "i < length t" using Suc.prems(2,3) by (auto dest: spec [of _ 0])
  ultimately show ?case using m by (simp add: char_at_def)
qed

lemma utf_char_steps:
  fixes s :: bytes
  assumes "utf_char b bs"
  defines "t \<equiv> s @ b # bs"
  shows "NextChar t (int (length s)) = int (length t)" "CharLength t (int (length s)) = int (length bs + 1)"
    "\<forall>k. length s \<le> k \<and> k < length t \<longrightarrow>
      FirstForChar t (int k) = int (length s) \<and> NextCharFor t (int k) = int (length t)"
proof -
  show "NextChar t (int (length s)) = int (length t)" "CharLength t (int (length s)) = int (length bs + 1)"
    using assms(1) by (simp_all add: t_def utf_char_def NextChar_def CharLength_def Let_def)
  have at: "t ! length s = b" "t ! (length s + Suc j) = bs ! j" for j by (simp_all add: t_def nth_append)
  have cont: "c AND 0xc0 = 0x80 \<and> c AND 0x80 \<noteq> 0 \<and> c \<noteq> 0" if "c \<in> set bs" for c
    using assms(1) that by (auto simp: utf_char_def)
  show "\<forall>k. length s \<le> k \<and> k < length t \<longrightarrow>
      FirstForChar t (int k) = int (length s) \<and> NextCharFor t (int k) = int (length t)"
  proof (intro allI impI)
    fix k assume k: "length s \<le> k \<and> k < length t"
    define i where "i = k - length s"
    have i: "k = length s + i" "i \<le> length bs" using k by (auto simp: i_def t_def)
    have rest: "t ! (length s + j) AND 0xc0 = 0x80 \<and> t ! (length s + j) \<noteq> 0" if "0 < j" "j \<le> length bs" for j
      using at(2) [of "j - 1"] cont [of "bs ! (j - 1)"] that by simp
    have ffc: "first_loop t (length s + i) 7 = int (length s)"
      using assms(1) i(2) rest at(1) by (intro first_loop_back) (auto simp: utf_char_def)
    have nfc: "next_loop t (length s + i + 1) 6 = int (length t)"
    proof (rule next_loop_end [of "length bs - i"])
      have "length bs \<le> 3" using assms(1) by (simp add: utf_char_def)
      then show "length bs - i < 6" by simp
      show "length s + i + 1 + (length bs - i) = length t" using i(2) by (simp add: t_def)
      show "\<forall>j < length bs - i. t ! (length s + i + 1 + j) AND 0xc0 = 0x80 \<and> t ! (length s + i + 1 + j) \<noteq> 0"
        using rest [of "i + 1 + j" for j] by (simp add: add.assoc)
    qed
    show "FirstForChar t (int k) = int (length s) \<and> NextCharFor t (int k) = int (length t)"
    proof (cases "t ! k AND 0x80 = 0")
      case True
      then have "i = 0 \<and> bs = []"
        using i at cont [of "bs ! (i - 1)"] assms(1) by (cases i) (auto simp: utf_char_def)
      then show ?thesis using True i(1) by (simp add: FirstForChar_def NextCharFor_def t_def)
    next
      case False
      then show ?thesis using k ffc nfc by (simp add: FirstForChar_def NextCharFor_def flip: i(1))
    qed
  qed
qed

lemma count_chars_append:
  assumes "utf_char b bs"
  shows "count_chars (s @ b # bs) (length s) n = n + 1"
  using assms by (simp add: count_chars.simps utf_char_def)

text \<open>The string of a list of code points.\<close>

definition encode :: "u32 list \<Rightarrow> bytes" where
  "encode us = concat (map char_bytes us)"

lemma AppendChar_encode:
  "\<forall>n. mem n \<Longrightarrow> foldl (AppendChar mem) s us = s @ encode us"
  by (induction us arbitrary: s) (simp_all add: AppendChar_def DoAppend_def encode_def)

lemma count_chars_encode:
  "\<forall>u \<in> set us. u \<noteq> 0 \<and> u \<le> 0x1FFFFF \<Longrightarrow> count_chars (s @ encode us) (length s) n = n + length us"
proof (induction us arbitrary: s n)
  case Nil
  then show ?case by (simp add: encode_def count_chars.simps)
next
  case (Cons u us)
  obtain b bs where b: "char_bytes u = b # bs" "utf_char b bs" using char_bytes_utf [of u] Cons.prems by auto
  have "count_chars (s @ encode (u # us)) (length s) n = count_chars ((s @ b # bs) @ encode us) (length (s @ b # bs)) (n + 1)"
    using b by (subst count_chars.simps) (simp add: encode_def utf_char_def)
  then show ?case using Cons.IH [of "s @ b # bs" "n + 1"] Cons.prems by simp
qed

section \<open>Properties\<close>

text \<open>
  C15. A character that was appended can be read back at its offset, and the functions that step over
  characters agree on where it begins and ends, from each of its bytes.
\<close>

theorem utf8_round_trip:
  assumes "\<forall>n. mem n" "u \<noteq> 0" "u \<le> 0x1FFFFF" "AppendChar mem s u = t"
  shows "CharAt t (int (length s)) = u \<and> NextChar t (int (length s)) = int (length t) \<and>
    CharLength t (int (length s)) = int (length t) - int (length s) \<and>
    (\<forall>k. length s \<le> k \<and> k < length t \<longrightarrow>
      FirstForChar t (int k) = int (length s) \<and> NextCharFor t (int k) = int (length t))"
proof -
  obtain b bs where b: "char_bytes u = b # bs" "utf_char b bs" using char_bytes_utf [OF assms(2,3)] by blast
  then have t: "t = s @ b # bs" using assms(1,4) by (auto simp: AppendChar_def DoAppend_def)
  show ?thesis using CharAt_char_bytes [OF assms(2,3), of s] b(1) utf_char_steps [OF b(2), of s] by (simp add: t)
qed

theorem utf8_round_trip_witness:
  "CharAt (AppendChar (\<lambda>n. True) [97] 0x20AC) 1 = 0x20AC \<and> AppendChar (\<lambda>n. True) [97] 0x20AC = [97, 0xE2, 0x82, 0xAC]"
proof
  show "CharAt (AppendChar (\<lambda>n. True) [97] 0x20AC) 1 = 0x20AC"
    using utf8_round_trip [of "\<lambda>n. True" "0x20AC" "[97]" "AppendChar (\<lambda>n. True) [97] 0x20AC"] by simp
  show "AppendChar (\<lambda>n. True) [97] 0x20AC = [97, 0xE2, 0x82, 0xAC]" by code_simp
qed

text \<open>
  A string that was built from code points by \<open>AppendChar\<close> has as many characters as code points.
\<close>

lemma count_chars_of_code_points:
  assumes "\<forall>n. mem n" "\<forall>u \<in> set us. u \<noteq> 0 \<and> u \<le> 0x1FFFFF"
  shows "CountChars (foldl (AppendChar mem) [] us) = length us"
  using count_chars_encode [OF assms(2), of "[]" 0] AppendChar_encode [OF assms(1), of "[]" us] by (simp add: CountChars_def)

lemma count_chars_example:
  "CountChars (foldl (AppendChar (\<lambda>n. True)) [] [97, 0x20AC, 0x10FFFF]) = 3"
  using count_chars_of_code_points [of "\<lambda>n. True" "[97, 0x20AC, 0x10FFFF]"] by simp

text \<open>
  C16. The two encoders. \<open>WChar32ToUTF8\<close> writes nothing exactly for surrogates and for numbers above 0x10FFFF;
  \<open>AppendChar\<close> appends nothing exactly for 0 and for numbers above 0x1FFFFF, so it also encodes surrogates. Where
  \<open>WChar32ToUTF8\<close> writes something, the code point 0 apart, \<open>AppendChar\<close> appends the same bytes; for 0
  \<open>WChar32ToUTF8\<close> writes one byte, 0. (The bytes of \<open>AppendChar\<close> are appended if there is memory for them.)
\<close>

theorem utf8_encoders_agree:
  assumes "\<forall>n. mem n"
  shows "(WChar32ToUTF8 u = [] \<longleftrightarrow> 0xD800 \<le> u \<and> u \<le> 0xDFFF \<or> 0x10FFFF < u) \<and>
   (AppendChar mem s u = s \<longleftrightarrow> u = 0 \<or> 0x1FFFFF < u) \<and>
   (u \<noteq> 0 \<and> WChar32ToUTF8 u \<noteq> [] \<longrightarrow> AppendChar mem s u = s @ WChar32ToUTF8 u) \<and>
   WChar32ToUTF8 0 = [0]"
proof -
  have le: "u < 0x80 \<longleftrightarrow> u \<le> 0x7F" "u < 0x800 \<longleftrightarrow> u \<le> 0x7FF" "u < 0x10000 \<longleftrightarrow> u \<le> 0xFFFF"
    by (auto simp: word_le_nat_alt word_less_nat_alt)
  have append: "AppendChar mem s u = s @ char_bytes u" using assms by (simp add: AppendChar_def DoAppend_def)
  have writes: "WChar32ToUTF8 u = [] \<longleftrightarrow> 0xD800 \<le> u \<and> u \<le> 0xDFFF \<or> 0x10FFFF < u"
    by (auto simp: WChar32ToUTF8_def word_le_nat_alt word_less_nat_alt)
  have "char_bytes u = [] \<longleftrightarrow> u = 0 \<or> 0x1FFFFF < u" by (auto simp: char_bytes_def word_le_nat_alt word_less_nat_alt)
  moreover have "WChar32ToUTF8 u = char_bytes u" if "u \<noteq> 0" "WChar32ToUTF8 u \<noteq> []"
    using that(1) that(2) [unfolded writes] le
    by (auto simp: WChar32ToUTF8_def char_bytes_def continuation_eq or.commute word_le_nat_alt word_less_nat_alt)
  moreover have "WChar32ToUTF8 0 = [0]" by (simp add: WChar32ToUTF8_def)
  ultimately show ?thesis using append writes by auto
qed

theorem utf8_encoders_agree_witness:
  "AppendChar (\<lambda>_. True) [65] 0x20AC = [65] @ WChar32ToUTF8 0x20AC \<and> WChar32ToUTF8 0xD800 = [] \<and>
   AppendChar (\<lambda>_. True) [65] 0xD800 \<noteq> [65] \<and> AppendChar (\<lambda>_. True) [65] 0x200000 = [65]"
  using utf8_encoders_agree [of "\<lambda>_. True" "0x20AC" "[65]"] utf8_encoders_agree [of "\<lambda>_. True" "0xD800" "[65]"]
    utf8_encoders_agree [of "\<lambda>_. True" "0x200000" "[65]"] by simp

end
