(* ===== verification/Shared_Buffer.thy ===== *)
theory Shared_Buffer
  imports String_Edit
begin

text \<open>
  The reference counted buffers below strings and values, \<^verbatim>\<open>src/libraries/libbinder/support/SharedBuffer.cpp\<close>.
  Buffers live in a store, because clients share them: a buffer has the two packed words of the class
  taken apart (user count with the static and pooled flags, length with the extended flag), the
  optional extended information, and the bytes that were allocated for its data.

  \<open>None\<close> is the access to a buffer that was freed or to bytes outside of the allocation. Calls of
  \<^verbatim>\<open>malloc\<close> and \<^verbatim>\<open>realloc\<close> for \<open>n\<close> bytes of data succeed if \<open>mem n\<close>; a block never has the address of
  an earlier one, and the contents of new bytes are unspecified (zero here). The functions a static
  buffer names for counting its users are outside of the store.
\<close>

type_synonym addr = nat

record sbuf =
  m_count :: int
  m_static :: bool
  m_pooled :: bool
  m_len :: nat
  m_ext :: "(bool \<times> nat) option"
  m_data :: bytes

record sbstate =
  bufs :: "addr \<Rightarrow> sbuf option"
  brk :: addr
  pool :: "addr list"
  poolAvail :: nat

definition ALIGN_SIZE :: "nat \<Rightarrow> nat" where "ALIGN_SIZE x = (x + 7) div 8 * 8"

definition align_buffer :: "nat \<Rightarrow> nat" where "align_buffer x = (x + 31) div 32 * 32"

definition BUFFER_SIZE :: nat where "BUFFER_SIZE = 32"

section \<open>Allocation\<close>

definition new_block :: "sbstate \<Rightarrow> sbuf \<Rightarrow> sbstate \<times> addr" where
  "new_block st b = (st\<lparr>bufs := (bufs st)(brk st \<mapsto> b), brk := brk st + 1\<rparr>, brk st)"

definition resize :: "nat \<Rightarrow> bytes \<Rightarrow> bytes" where
  "resize n d = take n d @ replicate (n - length d) 0"

text \<open>\<^verbatim>\<open>realloc\<close>: the old block is gone if it succeeds.\<close>

definition realloc_block :: "memory \<Rightarrow> sbstate \<Rightarrow> addr \<Rightarrow> sbuf \<Rightarrow> nat \<Rightarrow> sbstate \<times> addr option" where
  "realloc_block mem st a b n =
    (if mem n then
       (let (st, a') = new_block (st\<lparr>bufs := (bufs st)(a := None)\<rparr>) (b\<lparr>m_data := resize n (m_data b)\<rparr>) in (st, Some a'))
     else (st, None))"

definition Alloc :: "memory \<Rightarrow> sbstate \<Rightarrow> nat \<Rightarrow> sbstate \<times> addr option" where
  "Alloc mem st len =
    (if mem (ALIGN_SIZE len) then
       (let (st, a) = new_block st \<lparr>m_count = 1, m_static = False, m_pooled = False, m_len = len, m_ext = None,
              m_data = replicate (ALIGN_SIZE len) 0\<rparr>
        in (st, Some a))
     else (st, None))"

definition AllocExtended :: "memory \<Rightarrow> sbstate \<Rightarrow> (bool \<times> nat) option \<Rightarrow> nat \<Rightarrow> sbstate \<times> addr option" where
  "AllocExtended mem st prototype len =
    (if mem (ALIGN_SIZE len) then
       (let (st, a) = new_block st \<lparr>m_count = 1, m_static = False, m_pooled = False, m_len = len,
              m_ext = Some (case prototype of Some p \<Rightarrow> p | None \<Rightarrow> (False, 0)),
              m_data = replicate (ALIGN_SIZE len) 0\<rparr>
        in (st, Some a))
     else (st, None))"

definition do_delete :: "sbstate \<Rightarrow> addr \<Rightarrow> sbstate" where
  "do_delete st a = st\<lparr>bufs := (bufs st)(a := None)\<rparr>"

definition SetBufferSize :: "sbuf \<Rightarrow> nat \<Rightarrow> sbuf" where
  "SetBufferSize b n = (case m_ext b of None \<Rightarrow> b | Some _ \<Rightarrow> b\<lparr>m_ext := Some (True, n)\<rparr>)"

definition SetLength :: "sbuf \<Rightarrow> nat \<Rightarrow> sbuf" where
  "SetLength b n = b\<lparr>m_len := n\<rparr>"

definition Buffering :: "sbuf \<Rightarrow> bool" where
  "Buffering b = (case m_ext b of None \<Rightarrow> False | Some (buffering, _) \<Rightarrow> buffering)"

definition BufferSize :: "sbuf \<Rightarrow> nat" where
  "BufferSize b = (case m_ext b of None \<Rightarrow> m_len b | Some (_, n) \<Rightarrow> n)"

definition set_buf :: "sbstate \<Rightarrow> addr \<Rightarrow> sbuf \<Rightarrow> sbstate" where
  "set_buf st a b = st\<lparr>bufs := (bufs st)(a \<mapsto> b)\<rparr>"

section \<open>The pool\<close>

fun memcmp :: "bytes \<Rightarrow> bytes \<Rightarrow> int" where
  "memcmp (c # s) (d # t) = (if c = d then memcmp s t else uint c - uint d)"
| "memcmp _ _ = 0"

definition Compare :: "sbuf \<Rightarrow> sbuf \<Rightarrow> int" where
  "Compare b other =
    (if m_len b \<noteq> m_len other then (if m_len b < m_len other then -1 else 1)
     else memcmp (take (m_len b) (m_data b)) (take (m_len b) (m_data other)))"

function pool_search :: "sbstate \<Rightarrow> sbuf \<Rightarrow> int \<Rightarrow> int \<Rightarrow> (bool \<times> nat) option" where
  "pool_search st b low high =
    (if low \<le> high then
       (let mid = (low + high) div 2 in
        Option.bind (bufs st (pool st ! nat mid)) (\<lambda>p.
          let cmp = Compare b p in
          if cmp < 0 then pool_search st b low (mid - 1)
          else if cmp > 0 then pool_search st b (mid + 1) high
          else Some (True, nat mid)))
     else Some (False, nat low))"
  by pat_completeness auto
termination by (relation "measure (\<lambda>(_, _, low, high). nat (high - low + 1))") auto

declare pool_search.simps [simp del]

definition find_in_pool :: "sbstate \<Rightarrow> sbuf \<Rightarrow> (bool \<times> nat) option" where
  "find_in_pool st b = pool_search st b 0 (int (length (pool st)) - 1)"

text \<open>The result tells whether there was memory for the table.\<close>

definition add_to_pool :: "memory \<Rightarrow> sbstate \<Rightarrow> addr \<Rightarrow> nat \<Rightarrow> sbstate \<times> bool" where
  "add_to_pool mem st a pos =
    (let newSize = length (pool st) + 1; newAvail = (poolAvail st + 2) * 3 div 2 in
     if newSize > poolAvail st \<and> \<not> mem (newAvail * 4) then (st, False)
     else (st\<lparr>pool := take pos (pool st) @ a # drop pos (pool st),
              poolAvail := (if newSize > poolAvail st then newAvail else poolAvail st)\<rparr>, True))"

definition remove_from_pool :: "sbstate \<Rightarrow> nat \<Rightarrow> sbstate" where
  "remove_from_pool st pos = st\<lparr>pool := take pos (pool st) @ drop (pos + 1) (pool st)\<rparr>"

definition unpool :: "sbstate \<Rightarrow> addr \<Rightarrow> (sbstate \<times> bool) option" where
  "unpool st a =
    Option.bind (bufs st a) (\<lambda>b.
      if m_count b \<noteq> 0 then Some (st, False)
      else map_option (\<lambda>(found, pos). if found then (remove_from_pool st pos, True) else (st, False))
             (find_in_pool st b))"

section \<open>Users\<close>

definition IncUsers :: "sbstate \<Rightarrow> addr \<Rightarrow> sbstate option" where
  "IncUsers st a =
    map_option (\<lambda>b. if \<not> m_static b then set_buf st a (b\<lparr>m_count := m_count b + 1\<rparr>) else st) (bufs st a)"

definition DecUsers :: "sbstate \<Rightarrow> addr \<Rightarrow> sbstate option" where
  "DecUsers st a =
    Option.bind (bufs st a) (\<lambda>b.
      if m_count b = 1 \<and> \<not> m_static b \<and> \<not> m_pooled b then Some (do_delete st a)
      else if \<not> m_static b then
        (let st = set_buf st a (b\<lparr>m_count := m_count b - 1\<rparr>) in
         if m_count b = 1 then
           (if m_pooled b then
              map_option (\<lambda>(st, ok). if ok then do_delete st a else st) (unpool st a)
            else Some (do_delete st a))
         else Some st)
      else Some st)"

section \<open>Editing\<close>

text \<open>The copy of a buffer that has other users, or is static or pooled.\<close>

definition copy_buffer :: "sbstate \<Rightarrow> sbuf \<Rightarrow> addr \<Rightarrow> nat \<Rightarrow> sbstate option" where
  "copy_buffer st b a' newLength =
    Option.bind (bufs st a') (\<lambda>r.
      let n = min newLength (m_len b) in
      if n > length (m_data b) \<or> n > length (m_data r) then None
      else Some (set_buf st a' (r\<lparr>m_data := overwrite (m_data r) 0 (take n (m_data b))\<rparr>)))"

definition finish_edit :: "sbstate \<times> addr option \<Rightarrow> (sbuf \<Rightarrow> sbuf) \<Rightarrow> (sbstate \<times> addr option) option" where
  "finish_edit r f =
    (case r of
       (st, None) \<Rightarrow> Some (st, None)
     | (st, Some a) \<Rightarrow> map_option (\<lambda>b. (set_buf st a (f b), Some a)) (bufs st a))"

definition Edit :: "memory \<Rightarrow> sbstate \<Rightarrow> addr \<Rightarrow> nat \<Rightarrow> (sbstate \<times> addr option) option" where
  "Edit mem st a newLength =
    Option.bind (bufs st a) (\<lambda>b.
      if m_count b = 1 \<and> \<not> m_static b \<and> \<not> m_pooled b then
        (if \<not> Buffering b then
           (if ALIGN_SIZE (m_len b) = ALIGN_SIZE newLength then
              Some (set_buf st a (SetLength b newLength), Some a)
            else finish_edit (realloc_block mem st a b (ALIGN_SIZE newLength)) (\<lambda>b. SetLength b newLength))
         else if newLength \<le> BufferSize b then
           Some (set_buf st a (SetLength b newLength), Some a)
         else
           (let newBufferSize = align_buffer newLength in
            finish_edit (realloc_block mem st a b newBufferSize)
              (\<lambda>b. SetLength (SetBufferSize b newBufferSize) newLength)))
      else
        (case Alloc mem st newLength of
           (st, None) \<Rightarrow> Some (st, None)
         | (st, Some a') \<Rightarrow>
             Option.bind (copy_buffer st b a' newLength) (\<lambda>st.
               map_option (\<lambda>st. (st, Some a')) (DecUsers st a))))"

definition Edit_same :: "memory \<Rightarrow> sbstate \<Rightarrow> addr \<Rightarrow> (sbstate \<times> addr option) option" where
  "Edit_same mem st a = Option.bind (bufs st a) (\<lambda>b. Edit mem st a (m_len b))"

definition Extend :: "memory \<Rightarrow> sbstate \<Rightarrow> addr \<Rightarrow> nat \<Rightarrow> (sbstate \<times> addr option) option" where
  "Extend mem st a newLength =
    Option.bind (bufs st a) (\<lambda>b.
      if m_ext b \<noteq> None then Edit mem st a newLength
      else
        (case AllocExtended mem st None newLength of
           (st, None) \<Rightarrow> Some (st, None)
         | (st, Some a') \<Rightarrow>
             Option.bind (copy_buffer st b a' newLength) (\<lambda>st.
               map_option (\<lambda>st. (st, Some a')) (DecUsers st a))))"

definition BeginBuffering :: "memory \<Rightarrow> sbstate \<Rightarrow> addr \<Rightarrow> (sbstate \<times> addr option) option" where
  "BeginBuffering mem st a =
    Option.bind (bufs st a) (\<lambda>b.
      if Buffering b then Some (st, Some a)
      else
        (let newLen = (if m_len b < BUFFER_SIZE then BUFFER_SIZE else m_len b) in
         Option.bind (Extend mem st a newLen) (\<lambda>r.
           finish_edit r (\<lambda>r. SetBufferSize (SetLength r (m_len b)) (ALIGN_SIZE newLen)))))"

definition EndBuffering :: "memory \<Rightarrow> sbstate \<Rightarrow> addr \<Rightarrow> (sbstate \<times> addr option) option" where
  "EndBuffering mem st a =
    Option.bind (bufs st a) (\<lambda>b.
      if \<not> Buffering b then Some (st, Some a)
      else Edit mem (set_buf st a (b\<lparr>m_ext := Some (False, 0)\<rparr>)) a (m_len b))"

text \<open>
  \<open>Pool\<close>. The flag is set in the buffer the function was called for, not in the one that was entered into
  the pool.
\<close>

definition set_pooled :: "sbstate \<Rightarrow> addr \<Rightarrow> sbstate option" where
  "set_pooled st a = map_option (\<lambda>b. set_buf st a (b\<lparr>m_pooled := True\<rparr>)) (bufs st a)"

definition pool_entry :: "memory \<Rightarrow> sbstate \<Rightarrow> addr \<Rightarrow> addr \<Rightarrow> nat \<Rightarrow> (sbstate \<times> addr) option" where
  "pool_entry mem st a pooled pos =
    (let (st, ok) = add_to_pool mem st pooled pos in
     if ok then map_option (\<lambda>st. (st, pooled)) (set_pooled st a) else Some (st, pooled))"

definition Pool :: "memory \<Rightarrow> sbstate \<Rightarrow> addr \<Rightarrow> (sbstate \<times> addr) option" where
  "Pool mem st a =
    Option.bind (bufs st a) (\<lambda>b.
      if m_static b \<or> m_pooled b then Some (st, a)
      else
        Option.bind (find_in_pool st b) (\<lambda>(found, pos).
          if found then
            Option.bind (IncUsers st (pool st ! pos)) (\<lambda>st'.
              map_option (\<lambda>st'. (st', pool st ! pos)) (DecUsers st' a))
          else if m_ext b \<noteq> None then
            (case Alloc mem st (m_len b) of
               (st, None) \<Rightarrow> Some (st, a)
             | (st, Some copy) \<Rightarrow>
                 Option.bind (copy_buffer st b copy (m_len b)) (\<lambda>st.
                 Option.bind (DecUsers st a) (\<lambda>st. pool_entry mem st a copy pos)))
          else pool_entry mem st a a pos))"

section \<open>Well-formed buffers\<close>

text \<open>
  The allocation of a buffer covers its aligned length, and the recorded size of a buffering one lies in the
  allocation. These are the facts that keep \<open>Edit\<close> in bounds when it returns the buffer as it is.
\<close>

definition wf_buf :: "sbuf \<Rightarrow> bool" where
  "wf_buf b \<longleftrightarrow> ALIGN_SIZE (m_len b) \<le> length (m_data b) \<and>
    (\<forall>n. m_ext b = Some (True, n) \<longrightarrow> n \<le> length (m_data b) \<and> 8 dvd n \<and> m_len b \<le> n)"

definition sb_wf :: "sbstate \<Rightarrow> bool" where
  "sb_wf st \<longleftrightarrow> (\<forall>a b. bufs st a = Some b \<longrightarrow> a < brk st \<and> wf_buf b)"

lemma ALIGN_SIZE_ge: "n \<le> ALIGN_SIZE n"
  unfolding ALIGN_SIZE_def using div_mult_mod_eq [of "n + 7" 8] mod_less_divisor [of 8 "n + 7"] by linarith

lemma ALIGN_SIZE_dvd [simp]: "8 dvd ALIGN_SIZE n"
  by (simp add: ALIGN_SIZE_def)

lemma ALIGN_SIZE_least:
  assumes "n \<le> m" "8 dvd m"
  shows "ALIGN_SIZE n \<le> m"
proof -
  obtain k where k: "m = 8 * k" using assms(2) by blast
  then have "(n + 7) div 8 \<le> k" using assms(1) by (simp add: less_Suc_eq_le [symmetric] div_less_iff_less_mult)
  then show ?thesis by (simp add: ALIGN_SIZE_def k)
qed

lemma align_buffer_ge: "n \<le> align_buffer n"
  unfolding align_buffer_def using div_mult_mod_eq [of "n + 31" 32] mod_less_divisor [of 32 "n + 31"] by linarith

lemma align_buffer_dvd [simp]: "8 dvd align_buffer n"
  by (simp add: align_buffer_def dvd_mult)

lemma bufs_set_buf [simp]: "bufs (set_buf st a b) = (bufs st)(a \<mapsto> b)" "brk (set_buf st a b) = brk st" "pool (set_buf st a b) = pool st"
  by (simp_all add: set_buf_def)

lemma sb_wf_set_buf: "sb_wf st \<Longrightarrow> bufs st a = Some b \<Longrightarrow> wf_buf b' \<Longrightarrow> sb_wf (set_buf st a b')"
  by (auto simp: sb_wf_def)

lemma sb_wf_delete: "sb_wf st \<Longrightarrow> sb_wf (do_delete (st\<lparr>pool := cs\<rparr>) a)"
  by (auto simp: sb_wf_def do_delete_def)

lemma sb_wf_fresh: "sb_wf st \<Longrightarrow> bufs st (brk st) = None"
  by (auto simp: sb_wf_def) (metis less_irrefl not_None_eq)

lemma length_resize [simp]: "length (resize n d) = n"
  by (simp add: resize_def)

lemma take_resize: "k \<le> n \<Longrightarrow> k \<le> length d \<Longrightarrow> take k (resize n d) = take k d"
  by (simp add: resize_def min_def)

section \<open>A sound pool\<close>

text \<open>
  The entries of the pool are live buffers marked as pooled, in strictly increasing order, and every
  buffer marked as pooled is an entry. \<open>unpool\<close> relies on it: it looks for the buffer itself by its contents.
\<close>

definition pool_sound :: "sbstate \<Rightarrow> bool" where
  "pool_sound st \<longleftrightarrow>
     (\<forall>c\<in>set (pool st). \<exists>p. bufs st c = Some p \<and> m_pooled p \<and> \<not> m_static p) \<and>
     sorted_wrt (\<lambda>c d. Compare (the (bufs st c)) (the (bufs st d)) < 0) (pool st) \<and>
     (\<forall>c p. bufs st c = Some p \<longrightarrow> m_pooled p \<longrightarrow> c \<in> set (pool st))"

lemma memcmp_flip: "memcmp s t = - memcmp t s"
  by (induction s t rule: memcmp.induct) (auto elim: memcmp.elims)

lemma memcmp_refl [simp]: "memcmp s s = 0"
  by (induction s) auto

lemma Compare_flip: "Compare b c = - Compare c b"
  using memcmp_flip [of "take (m_len c) (m_data b)" "take (m_len c) (m_data c)"] by (simp add: Compare_def)

lemma Compare_refl [simp]: "Compare b b = 0"
  by (simp add: Compare_def)

lemma Compare_count [simp]:
  "Compare (b\<lparr>m_count := n\<rparr>) c = Compare b c" "Compare c (b\<lparr>m_count := n\<rparr>) = Compare c b"
  by (simp_all add: Compare_def)

lemma pool_sound_distinct:
  assumes "pool_sound st"
  shows "distinct (pool st)"
proof -
  have "pool st ! i \<noteq> pool st ! j" if "i < j" "j < length (pool st)" for i j
    using sorted_wrt_nth_less [OF _ that] assms unfolding pool_sound_def by fastforce
  then show ?thesis by (metis distinct_conv_nth linorder_neqE_nat)
qed

lemma pool_sound_frame:
  assumes "pool_sound st" "pool st' = pool st"
    and "\<And>c p. bufs st' c = Some p \<Longrightarrow> m_pooled p \<Longrightarrow> c \<in> set (pool st)"
    and same: "\<And>c p. c \<in> set (pool st) \<Longrightarrow> bufs st c = Some p \<Longrightarrow> \<exists>n. bufs st' c = Some (p\<lparr>m_count := n\<rparr>)"
  shows "pool_sound st'"
proof -
  have live: "\<exists>p n. bufs st c = Some p \<and> bufs st' c = Some (p\<lparr>m_count := n\<rparr>) \<and> m_pooled p \<and> \<not> m_static p"
    if "c \<in> set (pool st)" for c
    using that same assms(1) unfolding pool_sound_def by meson
  have "sorted_wrt (\<lambda>c d. Compare (the (bufs st' c)) (the (bufs st' d)) < 0) (pool st)"
  proof (rule sorted_wrt_mono_rel [of _ "\<lambda>c d. Compare (the (bufs st c)) (the (bufs st d)) < 0"])
    fix c d assume "c \<in> set (pool st)" "d \<in> set (pool st)" and less: "Compare (the (bufs st c)) (the (bufs st d)) < 0"
    then obtain p n q m where "bufs st c = Some p" "bufs st' c = Some (p\<lparr>m_count := n\<rparr>)"
        "bufs st d = Some q" "bufs st' d = Some (q\<lparr>m_count := m\<rparr>)"
      using live by meson
    then show "Compare (the (bufs st' c)) (the (bufs st' d)) < 0" using less by simp
  qed (use assms(1) in \<open>simp add: pool_sound_def\<close>)
  then show ?thesis using assms(2,3) live unfolding pool_sound_def by (metis (no_types, lifting) sbuf.select_convs(2,3) sbuf.surjective sbuf.update_convs(1))
qed

text \<open>The binary search finds an entry of the pool at its own place.\<close>

lemma pool_search_own:
  assumes "pool_sound st" "i < length (pool st)" "bufs st (pool st ! i) = Some b"
  shows "0 \<le> low \<Longrightarrow> low \<le> int i \<Longrightarrow> int i \<le> high \<Longrightarrow> high < int (length (pool st)) \<Longrightarrow>
    pool_search st b low high = Some (True, i)"
proof (induction "nat (high - low + 1)" arbitrary: low high rule: less_induct)
  case less
  define mid where "mid = (low + high) div 2"
  have mid: "low \<le> mid" "mid \<le> high" using less.prems by (auto simp: mid_def)
  then have len: "nat mid < length (pool st)" "0 \<le> mid" using less.prems by auto
  then obtain p where p: "bufs st (pool st ! nat mid) = Some p"
    using assms(1) nth_mem [OF len(1)] unfolding pool_sound_def by blast
  have below: "Compare p b < 0" if "nat mid < i"
    using sorted_wrt_nth_less [OF _ that assms(2)] assms(1,3) p unfolding pool_sound_def by fastforce
  have above: "Compare b p < 0" if "i < nat mid"
    using sorted_wrt_nth_less [OF _ that len(1)] assms(1,3) p unfolding pool_sound_def by fastforce
  consider "nat mid < i" | "nat mid = i" | "i < nat mid" by linarith
  then show ?case
  proof cases
    case 1
    then have "pool_search st b (mid + 1) high = Some (True, i)" using less mid len(2) by auto
    then show ?thesis using below [OF 1] Compare_flip [of b p] p mid
      by (subst pool_search.simps) (simp add: mid_def [symmetric] Let_def)
  next
    case 2
    then have "p = b" using assms(3) p by simp
    then show ?thesis using p mid 2 by (subst pool_search.simps) (simp add: mid_def [symmetric] Let_def)
  next
    case 3
    then have "pool_search st b low (mid - 1) = Some (True, i)" using less mid len(2) by auto
    then show ?thesis using above [OF 3] p mid
      by (subst pool_search.simps) (simp add: mid_def [symmetric] Let_def)
  qed
qed

text \<open>What giving up one use leaves of a buffer.\<close>

definition left_over :: "sbuf \<Rightarrow> sbuf option" where
  "left_over b = (if m_static b then Some b else if m_count b = 1 then None else Some (b\<lparr>m_count := m_count b - 1\<rparr>))"

lemma unpool_last:
  assumes "pool_sound st" "bufs st a = Some b" "m_pooled b" "m_count b = 0"
  shows "unpool st a = Some (st\<lparr>pool := filter (\<lambda>c. c \<noteq> a) (pool st)\<rparr>, True)"
proof -
  have "a \<in> set (pool st)" using assms(1-3) unfolding pool_sound_def by blast
  then obtain i where i: "i < length (pool st)" "pool st ! i = a" by (metis in_set_conv_nth)
  have "find_in_pool st b = Some (True, i)"
    unfolding find_in_pool_def using pool_search_own [OF assms(1) i(1), of b 0] i assms(2) by simp
  moreover have "take i (pool st) @ drop (Suc i) (pool st) = filter (\<lambda>c. c \<noteq> a) (pool st)"
  proof -
    have split: "pool st = take i (pool st) @ a # drop (Suc i) (pool st)" using id_take_nth_drop [OF i(1)] i(2) by simp
    then have "a \<notin> set (take i (pool st))" "a \<notin> set (drop (Suc i) (pool st))"
      using pool_sound_distinct [OF assms(1)] by (metis distinct_append distinct.simps(2) disjoint_iff list.set_intros(1))+
    then have "filter (\<lambda>c. c \<noteq> a) (take i (pool st)) = take i (pool st)"
        "filter (\<lambda>c. c \<noteq> a) (drop (Suc i) (pool st)) = drop (Suc i) (pool st)"
      by (auto simp: filter_id_conv)
    then have "filter (\<lambda>c. c \<noteq> a) (take i (pool st) @ a # drop (Suc i) (pool st)) =
        take i (pool st) @ drop (Suc i) (pool st)"
      by simp
    then show ?thesis using split by simp
  qed
  ultimately show ?thesis using assms(2,4) by (simp add: unpool_def remove_from_pool_def)
qed

lemma pool_sound_delete:
  assumes "pool_sound st"
  shows "pool_sound (do_delete (st\<lparr>pool := filter (\<lambda>c. c \<noteq> a) (pool st)\<rparr>) a)"
proof -
  have "sorted_wrt (\<lambda>c d. Compare (the (bufs st c)) (the (bufs st d)) < 0) (filter (\<lambda>c. c \<noteq> a) (pool st))"
    using assms by (intro sorted_wrt_filter) (simp add: pool_sound_def)
  then have "sorted_wrt (\<lambda>c d. Compare (the (((bufs st)(a := None)) c)) (the (((bufs st)(a := None)) d)) < 0)
      (filter (\<lambda>c. c \<noteq> a) (pool st))"
    by (rule sorted_wrt_mono_rel [rotated]) auto
  then show ?thesis using assms by (auto simp: pool_sound_def do_delete_def)
qed

lemma pool_sound_set_count:
  assumes "pool_sound st" "bufs st a = Some b"
  shows "pool_sound (set_buf st a (b\<lparr>m_count := n\<rparr>))"
proof (rule pool_sound_frame [OF assms(1)])
  fix c p assume "bufs (set_buf st a (b\<lparr>m_count := n\<rparr>)) c = Some p" "m_pooled p"
  then show "c \<in> set (pool st)" using assms unfolding pool_sound_def by (cases "c = a") auto
next
  fix c p assume "bufs st c = Some p"
  then show "\<exists>k. bufs (set_buf st a (b\<lparr>m_count := n\<rparr>)) c = Some (p\<lparr>m_count := k\<rparr>)"
    using assms(2) by (cases "c = a") (auto intro: exI [of _ "m_count p"])
qed simp

lemma DecUsers_spec:
  assumes "sb_wf st" "pool_sound st" "bufs st a = Some b" "1 \<le> m_count b"
  shows "\<exists>st'. DecUsers st a = Some st' \<and> sb_wf st' \<and> pool_sound st' \<and> brk st' = brk st \<and>
    bufs st' = (bufs st)(a := left_over b) \<and>
    pool st' = (if left_over b = None then filter (\<lambda>c. c \<noteq> a) (pool st) else pool st)"
proof -
  have wf: "wf_buf b" using assms(1,3) by (auto simp: sb_wf_def)
  let ?st = "set_buf st a (b\<lparr>m_count := m_count b - 1\<rparr>)"
  have dec: "sb_wf ?st" "pool_sound ?st"
    using sb_wf_set_buf [OF assms(1,3)] wf pool_sound_set_count [OF assms(2,3)] by (auto simp: wf_buf_def)
  consider (static) "m_static b" | (more) "\<not> m_static b" "m_count b \<noteq> 1"
    | (pooled) "\<not> m_static b" "m_count b = 1" "m_pooled b" | (last) "\<not> m_static b" "m_count b = 1" "\<not> m_pooled b"
    by blast
  then show ?thesis
  proof cases
    case static
    then show ?thesis using assms by (intro exI [of _ st]) (auto simp: DecUsers_def left_over_def)
  next
    case more
    then show ?thesis using assms(3) dec by (intro exI [of _ ?st]) (simp add: DecUsers_def left_over_def)
  next
    case pooled
    let ?st' = "do_delete (?st\<lparr>pool := filter (\<lambda>c. c \<noteq> a) (pool ?st)\<rparr>) a"
    have "unpool ?st a = Some (?st\<lparr>pool := filter (\<lambda>c. c \<noteq> a) (pool ?st)\<rparr>, True)"
      using unpool_last [OF dec(2), of a "b\<lparr>m_count := m_count b - 1\<rparr>"] pooled by simp
    then have "DecUsers st a = Some ?st'" using pooled assms(3) by (simp add: DecUsers_def Let_def)
    moreover have "sb_wf ?st'" by (rule sb_wf_delete [OF dec(1)])
    ultimately show ?thesis using pool_sound_delete [OF dec(2), of a] pooled
      by (intro exI [of _ ?st']) (simp add: left_over_def do_delete_def set_buf_def)
  next
    case last
    have "a \<notin> set (pool st)" using assms(2,3) last(3) unfolding pool_sound_def by auto
    then have same: "filter (\<lambda>c. c \<noteq> a) (pool st) = pool st" by (auto simp: filter_id_conv)
    have "do_delete (st\<lparr>pool := pool st\<rparr>) a = do_delete st a" by simp
    then have "pool_sound (do_delete st a)" using pool_sound_delete [OF assms(2), of a] same by simp
    moreover have "sb_wf (do_delete st a)" using sb_wf_delete [OF assms(1), of "pool st" a] by simp
    ultimately show ?thesis using last assms(3) same
      by (intro exI [of _ "do_delete st a"]) (simp add: DecUsers_def left_over_def do_delete_def)
  qed
qed

section \<open>Pooling keeps the pool sound\<close>

lemma memcmp_trans_bytes:
  "length s = length t \<Longrightarrow> length t = length u \<Longrightarrow> memcmp s t < 0 \<Longrightarrow> memcmp t u < 0 \<Longrightarrow> memcmp s u < 0"
proof (induction s t arbitrary: u rule: memcmp.induct)
  case (1 c s d t)
  then obtain e v where u: "u = e # v" by (cases u) auto
  show ?case using 1 u by (auto split: if_splits)
qed auto

lemma Compare_trans:
  assumes "wf_buf b" "wf_buf c" "wf_buf d" "Compare b c < 0" "Compare c d < 0"
  shows "Compare b d < 0"
proof -
  have len: "m_len x \<le> length (m_data x)" if "wf_buf x" for x
    using that ALIGN_SIZE_ge [of "m_len x"] by (simp add: wf_buf_def)
  show ?thesis
    using assms(4,5) len [OF assms(1)] len [OF assms(2)] len [OF assms(3)]
      memcmp_trans_bytes [of "take (m_len b) (m_data b)" "take (m_len b) (m_data c)" "take (m_len b) (m_data d)"]
    by (auto simp: Compare_def split: if_splits)
qed

text \<open>What the search returns: an entry with the same contents, or the place where the buffer belongs.\<close>

definition pool_place :: "sbstate \<Rightarrow> sbuf \<Rightarrow> nat \<Rightarrow> bool" where
  "pool_place st b pos \<longleftrightarrow> pos \<le> length (pool st) \<and>
     (\<forall>i<pos. Compare (the (bufs st (pool st ! i))) b < 0) \<and>
     (\<forall>i. pos \<le> i \<and> i < length (pool st) \<longrightarrow> Compare b (the (bufs st (pool st ! i))) < 0)"

lemma pool_search_place:
  assumes "pool_sound st" "sb_wf st" "wf_buf b"
  shows "0 \<le> low \<Longrightarrow> low \<le> high + 1 \<Longrightarrow> high < int (length (pool st)) \<Longrightarrow>
    \<forall>i<nat low. Compare (the (bufs st (pool st ! i))) b < 0 \<Longrightarrow>
    \<forall>i. high < int i \<and> i < length (pool st) \<longrightarrow> Compare b (the (bufs st (pool st ! i))) < 0 \<Longrightarrow>
    \<exists>found pos. pool_search st b low high = Some (found, pos) \<and>
      (if found then pos < length (pool st) else pool_place st b pos)"
proof (induction "nat (high - low + 1)" arbitrary: low high rule: less_induct)
  case less
  show ?case
  proof (cases "low \<le> high")
    case False
    then have "high = low - 1" using less.prems by simp
    then have "pool_place st b (nat low)" using less.prems by (auto simp: pool_place_def)
    then show ?thesis using False by (intro exI [of _ False] exI [of _ "nat low"]) (simp add: pool_search.simps)
  next
    case True
    define mid where "mid = (low + high) div 2"
    have mid: "low \<le> mid" "mid \<le> high" "0 \<le> mid" "nat mid < length (pool st)" using True less.prems by (auto simp: mid_def)
    let ?p = "\<lambda>i. the (bufs st (pool st ! i))"
    have live: "bufs st (pool st ! i) = Some (?p i)" "wf_buf (?p i)" if "i < length (pool st)" for i
      using assms(1,2) nth_mem [OF that] unfolding pool_sound_def sb_wf_def by fastforce+
    have order: "Compare (?p i) (?p j) < 0" if "i < j" "j < length (pool st)" for i j
      using sorted_wrt_nth_less [OF _ that] assms(1) unfolding pool_sound_def by fastforce
    have step: "pool_search st b low high = (if Compare b (?p (nat mid)) < 0 then pool_search st b low (mid - 1)
        else if Compare b (?p (nat mid)) > 0 then pool_search st b (mid + 1) high else Some (True, nat mid))"
    proof -
      obtain p where "bufs st (pool st ! nat mid) = Some p" using live(1) [OF mid(4)] by blast
      then show ?thesis using True by (subst pool_search.simps) (simp add: mid_def [symmetric] Let_def)
    qed
    consider "Compare b (?p (nat mid)) < 0" | "Compare b (?p (nat mid)) > 0" | "Compare b (?p (nat mid)) = 0" by linarith
    then show ?thesis
    proof cases
      case 1
      have "Compare b (?p i) < 0" if "mid - 1 < int i" "i < length (pool st)" for i
      proof (cases "i = nat mid")
        case False
        then have "nat mid < i" using that mid by linarith
        then show ?thesis using Compare_trans [OF assms(3) live(2) live(2) 1] order mid(4) that(2) by blast
      qed (use 1 in simp)
      then have "\<exists>found pos. pool_search st b low (mid - 1) = Some (found, pos) \<and>
          (if found then pos < length (pool st) else pool_place st b pos)"
        using less mid by auto
      then show ?thesis using 1 unfolding step by simp
    next
      case 2
      then have 2: "Compare (?p (nat mid)) b < 0" using Compare_flip [of b] by auto
      have "Compare (?p i) b < 0" if "i < nat (mid + 1)" for i
      proof (cases "i = nat mid")
        case False
        then have "i < nat mid" using that mid by linarith
        then show ?thesis using Compare_trans [OF live(2) live(2) assms(3) _ 2] order mid(4) by force
      qed (use 2 in simp)
      then have "\<exists>found pos. pool_search st b (mid + 1) high = Some (found, pos) \<and>
          (if found then pos < length (pool st) else pool_place st b pos)"
        using less mid by auto
      then show ?thesis using 2 Compare_flip [of b "?p (nat mid)"] unfolding step by simp
    next
      case 3
      then show ?thesis using mid(4) unfolding step by (intro exI [of _ True] exI [of _ "nat mid"]) simp
    qed
  qed
qed

lemma pool_sound_insert:
  assumes "pool_sound st" "sb_wf st" "bufs st a = Some b" "\<not> m_static b" "\<not> m_pooled b" "pool_place st b pos"
  shows "pool_sound (set_buf (st\<lparr>pool := take pos (pool st) @ a # drop pos (pool st), poolAvail := n\<rparr>) a (b\<lparr>m_pooled := True\<rparr>))"
proof -
  let ?b = "(bufs st)(a \<mapsto> b\<lparr>m_pooled := True\<rparr>)"
  have flag [simp]: "Compare (b\<lparr>m_pooled := True\<rparr>) c = Compare b c" "Compare c (b\<lparr>m_pooled := True\<rparr>) = Compare c b" for c
    by (simp_all add: Compare_def)
  have new: "a \<notin> set (pool st)" using assms(1,3,5) unfolding pool_sound_def by auto
  have sorted: "sorted_wrt (\<lambda>c d. Compare (the (bufs st c)) (the (bufs st d)) < 0) (take pos (pool st) @ a # drop pos (pool st))"
  proof -
    have "sorted_wrt (\<lambda>c d. Compare (the (bufs st c)) (the (bufs st d)) < 0) (take pos (pool st) @ drop pos (pool st))"
      using assms(1) by (simp add: pool_sound_def)
    moreover have "Compare (the (bufs st c)) b < 0" if "c \<in> set (take pos (pool st))" for c
      using that assms(6) by (auto simp: in_set_conv_nth pool_place_def)
    moreover have "Compare b (the (bufs st c)) < 0" if "c \<in> set (drop pos (pool st))" for c
      using that assms(6) by (auto simp: in_set_conv_nth pool_place_def)
    ultimately show ?thesis using assms(3) unfolding sorted_wrt_append by simp
  qed
  have "sorted_wrt (\<lambda>c d. Compare (the (?b c)) (the (?b d)) < 0) (take pos (pool st) @ a # drop pos (pool st))"
    by (rule sorted_wrt_mono_rel [OF _ sorted]) (use assms(3) in \<open>auto split: if_splits\<close>)
  moreover have "set (take pos (pool st) @ a # drop pos (pool st)) = insert a (set (pool st))"
    by (metis Un_insert_right append_take_drop_id list.simps(15) set_append)
  ultimately show ?thesis using assms(1,4) unfolding pool_sound_def by auto
qed

text \<open>
  \<open>Pool\<close> on a buffer without extended information, which is the case it gets right (see
  \<open>pool_extended_use_after_free\<close>).
\<close>

lemma Pool_keeps_sound:
  assumes "sb_wf st" "pool_sound st" "bufs st a = Some b" "1 \<le> m_count b" "m_ext b = None"
  shows "\<exists>st' a'. Pool mem st a = Some (st', a') \<and> sb_wf st' \<and> pool_sound st'"
proof (cases "m_static b \<or> m_pooled b")
  case True
  then show ?thesis using assms by (simp add: Pool_def)
next
  case plain: False
  have wf: "wf_buf b" using assms(1,3) by (auto simp: sb_wf_def)
  obtain found pos where f: "find_in_pool st b = Some (found, pos)"
      "if found then pos < length (pool st) else pool_place st b pos"
    unfolding find_in_pool_def using pool_search_place [OF assms(2,1) wf, of 0 "int (length (pool st)) - 1"] by auto
  show ?thesis
  proof (cases found)
    case True
    define c where "c = pool st ! pos"
    obtain p where p: "bufs st c = Some p" "m_pooled p" "\<not> m_static p"
      using True f(2) assms(2) nth_mem unfolding pool_sound_def c_def by (metis (no_types, lifting))
    let ?st = "set_buf st c (p\<lparr>m_count := m_count p + 1\<rparr>)"
    have "wf_buf (p\<lparr>m_count := m_count p + 1\<rparr>)" using p(1) assms(1) by (auto simp: sb_wf_def wf_buf_def)
    then have st: "sb_wf ?st" "pool_sound ?st"
      using sb_wf_set_buf [OF assms(1) p(1)] pool_sound_set_count [OF assms(2) p(1)] by auto
    have "c \<noteq> a" using p assms(3) plain by auto
    then have "bufs ?st a = Some b" using assms(3) by simp
    from DecUsers_spec [OF st this assms(4)] show ?thesis
      using f(1) True plain assms(3) p(1,3) by (auto simp: Pool_def IncUsers_def c_def [symmetric])
  next
    case False
    then have "pool_place st b pos" using f(2) by simp
    from pool_sound_insert [OF assms(2,1,3) _ _ this] plain
    have "pool_sound (set_buf (st\<lparr>pool := take pos (pool st) @ a # drop pos (pool st), poolAvail := n\<rparr>) a (b\<lparr>m_pooled := True\<rparr>))"
      for n by simp
    moreover have "sb_wf (set_buf (st\<lparr>pool := q, poolAvail := n\<rparr>) a (b\<lparr>m_pooled := True\<rparr>))" for q n
      using assms(1) wf by (intro sb_wf_set_buf [of _ a b]) (use assms(3) in \<open>auto simp: sb_wf_def wf_buf_def\<close>)
    ultimately show ?thesis
      using f(1) False plain assms
      by (simp add: Pool_def pool_entry_def add_to_pool_def set_pooled_def Let_def split: if_splits)
  qed
qed

section \<open>What an edit promises\<close>

text \<open>
  The buffer handed to the caller is its own, is the old one or a new one, has the requested length and
  keeps the old bytes; no other buffer changes.
\<close>

definition owned :: "sbuf \<Rightarrow> bool" where
  "owned b \<longleftrightarrow> m_count b = 1 \<and> \<not> m_static b \<and> \<not> m_pooled b"

definition edit_result :: "sbstate \<Rightarrow> addr \<Rightarrow> sbuf \<Rightarrow> nat \<Rightarrow> sbstate \<Rightarrow> addr \<Rightarrow> bool" where
  "edit_result st a b n st' a' \<longleftrightarrow>
    (\<exists>b'. bufs st' a' = Some b' \<and> owned b' \<and> m_len b' = n \<and>
       take (min n (m_len b)) (m_data b') = take (min n (m_len b)) (m_data b)) \<and>
    (a' = a \<or> bufs st a' = None) \<and>
    (\<forall>c. c \<noteq> a \<and> c \<noteq> a' \<longrightarrow> bufs st' c = bufs st c)"

text \<open>What becomes of the old buffer and of the pool.\<close>

definition old_buffer :: "sbstate \<Rightarrow> addr \<Rightarrow> sbuf \<Rightarrow> sbstate \<Rightarrow> addr \<Rightarrow> bool" where
  "old_buffer st a b st' a' \<longleftrightarrow>
    (if owned b then pool st' = pool st \<and> (a' \<noteq> a \<longrightarrow> bufs st' a = None)
     else a' \<noteq> a \<and> bufs st' a = left_over b \<and>
       pool st' = (if left_over b = None then filter (\<lambda>c. c \<noteq> a) (pool st) else pool st))"

lemma pool_sound_owned:
  assumes "pool_sound st" "sb_wf st" "pool st' = pool st" "bufs st' = (bufs st)(a := None, a' := Some b')"
    "\<not> m_pooled b'" "bufs st a = Some b" "\<not> m_pooled b" "a' = a \<or> a' = brk st"
  shows "pool_sound st'"
proof (rule pool_sound_frame [OF assms(1,3)])
  fix c p assume "bufs st' c = Some p" "m_pooled p"
  then show "c \<in> set (pool st)" using assms(1,4,5) unfolding pool_sound_def by (auto split: if_splits)
next
  fix c p assume c: "c \<in> set (pool st)" "bufs st c = Some p"
  then have "c \<noteq> a" "c \<noteq> brk st" using assms(1,6,7) sb_wf_fresh [OF assms(2)] unfolding pool_sound_def by fastforce+
  then show "\<exists>n. bufs st' c = Some (p\<lparr>m_count := n\<rparr>)"
    using assms(4,8) c(2) by (auto intro: exI [of _ "m_count p"])
qed

lemma edit_in_place:
  assumes "sb_wf st" "pool_sound st" "bufs st a = Some b" "owned b" "ALIGN_SIZE n \<le> length (m_data b)"
    "\<forall>k. m_ext b = Some (True, k) \<longrightarrow> n \<le> k"
  defines "st' \<equiv> set_buf st a (SetLength b n)"
  shows "sb_wf st' \<and> pool_sound st' \<and> edit_result st a b n st' a \<and> old_buffer st a b st' a"
proof -
  have "wf_buf b" using assms(1,3) by (auto simp: sb_wf_def)
  then have "wf_buf (SetLength b n)" using assms(5,6) by (auto simp: wf_buf_def SetLength_def)
  moreover have "pool_sound st'"
    by (rule pool_sound_owned [OF assms(2,1), of _ a a "SetLength b n" b])
      (use assms(3,4) in \<open>simp_all add: st'_def owned_def SetLength_def\<close>)
  ultimately show ?thesis
    using sb_wf_set_buf [OF assms(1,3)] assms(4) by (simp add: st'_def edit_result_def old_buffer_def owned_def SetLength_def)
qed

lemma edit_realloc:
  assumes "sb_wf st" "pool_sound st" "bufs st a = Some b" "owned b" "n \<le> m"
    "\<And>d. m_data d = resize m (m_data b) \<Longrightarrow> m_ext d = m_ext b \<Longrightarrow> wf_buf (f d)"
    "\<And>d. m_len (f d) = n \<and> m_data (f d) = m_data d \<and> owned (f d) = owned d"
  shows "\<exists>st' r. finish_edit (realloc_block mem st a b m) f = Some (st', r) \<and> sb_wf st' \<and> pool_sound st' \<and>
    (case r of None \<Rightarrow> st' = st | Some a' \<Rightarrow> edit_result st a b n st' a' \<and> old_buffer st a b st' a')"
proof (cases "mem m")
  case True
  define d where "d = b\<lparr>m_data := resize m (m_data b)\<rparr>"
  define st' where "st' = st\<lparr>bufs := (bufs st)(a := None, brk st \<mapsto> f d), brk := brk st + 1\<rparr>"
  have a: "a < brk st" "wf_buf b" using assms(1,3) by (auto simp: sb_wf_def)
  then have len: "m_len b \<le> length (m_data b)" using ALIGN_SIZE_ge [of "m_len b"] by (auto simp: wf_buf_def)
  have "wf_buf (f d)" using assms(6) [of d] by (simp add: d_def)
  then have "sb_wf st'" using assms(1) by (auto simp: sb_wf_def st'_def less_Suc_eq)
  moreover have fd: "owned (f d)" using assms(4,7) by (simp add: d_def owned_def)
  moreover have "pool_sound st'"
    by (rule pool_sound_owned [OF assms(2,1), of _ a "brk st" "f d" b])
      (use assms(3,4) fd in \<open>simp_all add: st'_def owned_def\<close>)
  moreover have "take (min n (m_len b)) (m_data (f d)) = take (min n (m_len b)) (m_data b)"
    using assms(5,7) len by (simp add: d_def take_resize)
  then have "edit_result st a b n st' (brk st) \<and> old_buffer st a b st' (brk st)"
    using assms(4,7) fd a(1) sb_wf_fresh [OF assms(1)] by (simp add: edit_result_def old_buffer_def st'_def)
  moreover have "finish_edit (realloc_block mem st a b m) f = Some (st', Some (brk st))"
    using True by (simp add: finish_edit_def realloc_block_def new_block_def set_buf_def d_def st'_def)
  ultimately show ?thesis by (intro exI conjI) (assumption | simp)+
next
  case False
  then show ?thesis using assms(1,2) by (simp add: finish_edit_def realloc_block_def)
qed

text \<open>A copy leaves the old buffer to its other users, and frees it if there are none.\<close>

lemma edit_copy:
  assumes "sb_wf st" "pool_sound st" "bufs st a = Some b" "1 \<le> m_count b" "\<not> owned b"
    and r: "wf_buf r" "owned r" "m_len r = n" "ALIGN_SIZE n = length (m_data r)"
  defines "st1 \<equiv> st\<lparr>bufs := (bufs st)(brk st \<mapsto> r), brk := brk st + 1\<rparr>"
  shows "\<exists>st2 st'. copy_buffer st1 b (brk st) n = Some st2 \<and> DecUsers st2 a = Some st' \<and> sb_wf st' \<and> pool_sound st' \<and>
    edit_result st a b n st' (brk st) \<and> old_buffer st a b st' (brk st)"
proof -
  define k where "k = min n (m_len b)"
  have b: "a < brk st" "wf_buf b" using assms(1,3) by (auto simp: sb_wf_def)
  then have "m_len b \<le> length (m_data b)" using ALIGN_SIZE_ge [of "m_len b"] by (auto simp: wf_buf_def)
  moreover have "n \<le> length (m_data r)" using r(4) ALIGN_SIZE_ge [of n] by simp
  ultimately have k: "k \<le> length (m_data b)" "k \<le> length (m_data r)" by (auto simp: k_def)
  define r' where "r' = r\<lparr>m_data := overwrite (m_data r) 0 (take k (m_data b))\<rparr>"
  define st2 where "st2 = set_buf st1 (brk st) r'"
  have copy: "copy_buffer st1 b (brk st) n = Some st2"
    using k by (simp add: copy_buffer_def st1_def st2_def r'_def Let_def k_def [symmetric])
  have r': "wf_buf r'" "owned r'" "m_len r' = n" "take k (m_data r') = take k (m_data b)"
    using r k by (simp_all add: r'_def wf_buf_def owned_def overwrite_def min_def)
  have new: "bufs st2 = (bufs st)(brk st \<mapsto> r')" "pool st2 = pool st" by (simp_all add: st2_def st1_def)
  have a2: "bufs st2 a = Some b" using assms(3) b(1) new by simp
  have wf2: "sb_wf st2" using assms(1) r'(1) by (auto simp: sb_wf_def st2_def st1_def less_Suc_eq)
  have "pool_sound st2"
  proof (rule pool_sound_frame [OF assms(2) new(2)])
    fix c p assume "bufs st2 c = Some p" "m_pooled p"
    then show "c \<in> set (pool st)" using assms(2) r'(2) new unfolding pool_sound_def owned_def by (auto split: if_splits)
  next
    fix c p assume "bufs st c = Some p"
    then show "\<exists>n. bufs st2 c = Some (p\<lparr>m_count := n\<rparr>)"
      using new sb_wf_fresh [OF assms(1)] by (cases "c = brk st") (auto intro: exI [of _ "m_count p"])
  qed
  from DecUsers_spec [OF wf2 this a2 assms(4)] obtain st' where st': "DecUsers st2 a = Some st'" "sb_wf st'"
      "pool_sound st'" "bufs st' = (bufs st2)(a := left_over b)"
      "pool st' = (if left_over b = None then filter (\<lambda>c. c \<noteq> a) (pool st) else pool st)"
    using new(2) by auto
  have "edit_result st a b n st' (brk st)"
    using b(1) r'(2-4) new sb_wf_fresh [OF assms(1)] st'(4) by (simp add: edit_result_def k_def)
  moreover have "old_buffer st a b st' (brk st)" using b(1) assms(5) st'(4,5) by (auto simp: old_buffer_def)
  ultimately show ?thesis using copy st' by blast
qed

lemma Buffering_iff: "Buffering b \<longleftrightarrow> (\<exists>k. m_ext b = Some (True, k))"
  by (cases "m_ext b") (auto simp: Buffering_def)

lemma Edit_owned:
  assumes "sb_wf st" "pool_sound st" "bufs st a = Some b" "owned b"
  shows "\<exists>st' r. Edit mem st a n = Some (st', r) \<and> sb_wf st' \<and> pool_sound st' \<and>
    (case r of None \<Rightarrow> st' = st | Some a' \<Rightarrow> edit_result st a b n st' a' \<and> old_buffer st a b st' a')"
proof -
  have wf: "wf_buf b" using assms(1,3) by (auto simp: sb_wf_def)
  have own: "m_count b = 1 \<and> \<not> m_static b \<and> \<not> m_pooled b" using assms(4) by (simp add: owned_def)
  consider (same) "\<not> Buffering b" "ALIGN_SIZE (m_len b) = ALIGN_SIZE n"
    | (other) "\<not> Buffering b" "ALIGN_SIZE (m_len b) \<noteq> ALIGN_SIZE n"
    | (fits) k where "m_ext b = Some (True, k)" "n \<le> k"
    | (grow) k where "m_ext b = Some (True, k)" "\<not> n \<le> k"
    using Buffering_iff [of b] by metis
  then show ?thesis
  proof cases
    case same
    then show ?thesis
      using edit_in_place [OF assms, of n] wf assms(3) own
      by (auto simp: Edit_def wf_buf_def Buffering_def split: option.splits)
  next
    case other
    have "\<exists>st' r. finish_edit (realloc_block mem st a b (ALIGN_SIZE n)) (\<lambda>b. SetLength b n) = Some (st', r) \<and> sb_wf st' \<and> pool_sound st' \<and>
        (case r of None \<Rightarrow> st' = st | Some a' \<Rightarrow> edit_result st a b n st' a' \<and> old_buffer st a b st' a')"
      by (rule edit_realloc [OF assms ALIGN_SIZE_ge])
        (use other(1) in \<open>auto simp: wf_buf_def SetLength_def owned_def Buffering_def split: option.splits\<close>)
    then show ?thesis using other assms(3) own by (simp add: Edit_def)
  next
    case (fits k)
    then have "ALIGN_SIZE n \<le> length (m_data b)" using wf ALIGN_SIZE_least [of n k] by (auto simp: wf_buf_def)
    then show ?thesis
      using edit_in_place [OF assms] fits assms(3) own by (auto simp: Edit_def Buffering_def BufferSize_def)
  next
    case (grow k)
    have "\<exists>st' r. finish_edit (realloc_block mem st a b (align_buffer n))
          (\<lambda>b. SetLength (SetBufferSize b (align_buffer n)) n) = Some (st', r) \<and> sb_wf st' \<and> pool_sound st' \<and>
        (case r of None \<Rightarrow> st' = st | Some a' \<Rightarrow> edit_result st a b n st' a' \<and> old_buffer st a b st' a')"
      by (rule edit_realloc [OF assms align_buffer_ge])
        (use grow(1) align_buffer_ge [of n] ALIGN_SIZE_least [of n "align_buffer n"] in
          \<open>auto simp: wf_buf_def SetLength_def SetBufferSize_def owned_def split: option.splits\<close>)
    then show ?thesis using grow assms(3) own by (simp add: Edit_def Buffering_def BufferSize_def Let_def)
  qed
qed

lemma Edit_spec:
  assumes "sb_wf st" "pool_sound st" "bufs st a = Some b" "1 \<le> m_count b"
  shows "\<exists>st' r. Edit mem st a n = Some (st', r) \<and> sb_wf st' \<and> pool_sound st' \<and>
    (case r of None \<Rightarrow> st' = st | Some a' \<Rightarrow> edit_result st a b n st' a' \<and> old_buffer st a b st' a')"
proof (cases "owned b")
  case True
  then show ?thesis by (rule Edit_owned [OF assms(1-3)])
next
  case False
  then have nown: "\<not> (m_count b = 1 \<and> \<not> m_static b \<and> \<not> m_pooled b)" by (simp add: owned_def)
  show ?thesis
  proof (cases "mem (ALIGN_SIZE n)")
    case True
    define r where "r = \<lparr>m_count = 1, m_static = False, m_pooled = False, m_len = n, m_ext = None,
      m_data = replicate (ALIGN_SIZE n) 0\<rparr>"
    have "wf_buf r" "owned r" "m_len r = n" "ALIGN_SIZE n = length (m_data r)"
      by (simp_all add: r_def wf_buf_def owned_def)
    from edit_copy [OF assms False this]
    show ?thesis using True assms(3) nown
      by (auto simp: Edit_def Alloc_def new_block_def Let_def r_def [symmetric])
  next
    case mem: False
    then show ?thesis using assms(1-3) nown by (auto simp: Edit_def Alloc_def)
  qed
qed

text \<open>
  The end of buffering does not give memory back: the length it edits to is the length the buffer has, so that
  \<open>Edit\<close> returns the buffer as it is.
\<close>

lemma EndBuffering_keeps_allocation:
  assumes "bufs st a = Some b" "owned b" "Buffering b"
  shows "EndBuffering mem st a = Some (set_buf st a (b\<lparr>m_ext := Some (False, 0)\<rparr>), Some a)"
  using assms by (simp add: EndBuffering_def Edit_def owned_def Buffering_def SetLength_def set_buf_def)

text \<open>
  Buffers in a store, for the examples: a pooled one with two users, one with extended information, and a pooled
  one with a single user.
\<close>

definition demo_sb :: sbstate where
  "demo_sb = \<lparr>bufs = [0 \<mapsto> \<lparr>m_count = 2, m_static = False, m_pooled = True, m_len = 3, m_ext = None, m_data = [97, 98, 0, 0, 0, 0, 0, 0]\<rparr>,
      1 \<mapsto> \<lparr>m_count = 1, m_static = False, m_pooled = False, m_len = 2, m_ext = Some (True, 32), m_data = replicate 32 0\<rparr>,
      2 \<mapsto> \<lparr>m_count = 1, m_static = False, m_pooled = True, m_len = 4, m_ext = None, m_data = [97, 98, 0, 0, 0, 0, 0, 0]\<rparr>],
    brk = 3, pool = [0, 2], poolAvail = 3\<rparr>"

lemma demo_sb_wf: "sb_wf demo_sb"
  by (auto simp: sb_wf_def demo_sb_def wf_buf_def ALIGN_SIZE_def split: if_splits)

lemma demo_sb_pool: "pool_sound demo_sb"
  by (auto simp: pool_sound_def demo_sb_def Compare_def split: if_splits)

section \<open>Properties\<close>

text \<open>
  C18. Copy on write, in a store with a sound pool: an edit of a buffer in use returns without a fault and keeps
  the pool sound. Without memory nothing changes. Otherwise the caller gets a buffer it alone uses, the old
  or a new one, of the requested length and with the old bytes. Buffers of others keep their
  bytes. A buffer with other users, or a static one, keeps its bytes and loses one user; a pooled buffer without other
  users leaves the pool and is freed. Every length stays inside of its allocation.
\<close>

theorem edit_copy_on_write:
  assumes "sb_wf st" "pool_sound st" "bufs st a = Some b" "1 \<le> m_count b"
  shows "\<exists>st' r. Edit mem st a n = Some (st', r) \<and> sb_wf st' \<and> pool_sound st' \<and>
    (case r of None \<Rightarrow> st' = st | Some a' \<Rightarrow> edit_result st a b n st' a' \<and> old_buffer st a b st' a')"
  using assms by (rule Edit_spec)

text \<open>The pooled buffer 2 has one user, 0 has two.\<close>

theorem edit_copy_on_write_witness:
  "\<exists>st' r. Edit (\<lambda>n. True) demo_sb 2 5 = Some (st', r) \<and> sb_wf st' \<and> pool_sound st' \<and> r = Some 3 \<and>
     bufs st' 2 = None \<and> pool st' = [0]"
proof -
  have b: "bufs demo_sb 2 = Some \<lparr>m_count = 1, m_static = False, m_pooled = True, m_len = 4, m_ext = None, m_data = [97, 98, 0, 0, 0, 0, 0, 0]\<rparr>"
    by (simp add: demo_sb_def)
  have run: "map_option snd (Edit (\<lambda>n. True) demo_sb 2 5) = Some (Some 3)"
    by (simp add: Edit_def demo_sb_def Alloc_def new_block_def copy_buffer_def ALIGN_SIZE_def DecUsers_def unpool_def
        find_in_pool_def pool_search.simps Compare_def set_buf_def remove_from_pool_def do_delete_def overwrite_def)
  show ?thesis
    using edit_copy_on_write [OF demo_sb_wf demo_sb_pool b, of "\<lambda>n. True" 5] run
    by (auto simp: old_buffer_def owned_def left_over_def demo_sb_def)
qed

text \<open>
  Pooling a buffer that has extended information and one user writes to freed memory: the copy goes into
  the pool, the original is deleted with its only user, and then the pooled flag is set in the original.
\<close>

lemma pool_extended_use_after_free:
  assumes "bufs st a = Some b" "owned b" "m_ext b \<noteq> None" "wf_buf b" "a < brk st" "\<forall>n. mem n"
    "find_in_pool st b = Some (False, pos)"
  shows "Pool mem st a = None"
proof -
  define st1 where "st1 = st\<lparr>bufs := (bufs st)(brk st \<mapsto> \<lparr>m_count = 1, m_static = False, m_pooled = False,
    m_len = m_len b, m_ext = None, m_data = replicate (ALIGN_SIZE (m_len b)) 0\<rparr>), brk := brk st + 1\<rparr>"
  have "m_len b \<le> length (m_data b)" using assms(4) ALIGN_SIZE_ge [of "m_len b"] by (auto simp: wf_buf_def)
  then obtain st2 where st2: "copy_buffer st1 b (brk st) (m_len b) = Some st2" "bufs st2 a = Some b" "brk st2 = brk st + 1"
    using assms(1,5) ALIGN_SIZE_ge [of "m_len b"] by (auto simp: copy_buffer_def st1_def Let_def)
  then have "DecUsers st2 a = Some (do_delete st2 a)" using assms(2) by (simp add: DecUsers_def owned_def)
  moreover have "pool_entry mem (do_delete st2 a) a (brk st) pos = None"
    using assms(6) by (simp add: pool_entry_def add_to_pool_def set_pooled_def do_delete_def Let_def)
  ultimately show ?thesis
    using assms st2(1) by (simp add: Pool_def owned_def Alloc_def new_block_def st1_def)
qed

lemma pool_extended_use_after_free_example:
  "Pool (\<lambda>n. True) demo_sb 1 = None"
proof (rule pool_extended_use_after_free)
  show "bufs demo_sb 1 = Some \<lparr>m_count = 1, m_static = False, m_pooled = False, m_len = 2, m_ext = Some (True, 32), m_data = replicate 32 0\<rparr>"
    by (simp add: demo_sb_def)
qed (simp_all add: owned_def wf_buf_def ALIGN_SIZE_def demo_sb_def find_in_pool_def pool_search.simps Compare_def)

end
