(* ===== verification/Value_Data.thy ===== *)
theory Value_Data
  imports Shared_Buffer Sorted_Vector
begin

text \<open>
  The data of an \<^verbatim>\<open>SValue\<close> and its orders: the packed type codes of \<^verbatim>\<open>headers/support/TypeConstants.h\<close>,
  the tests of \<^verbatim>\<open>ValueInternal.h\<close>, the constructors and the comparisons of
  \<^verbatim>\<open>src/libraries/libbinder/support/Value.cpp\<close>.

  A value is undefined, a typed block of bytes, or a map. A block of at most four bytes is stored in
  the value itself and its length in the type word; a longer one is in a shared buffer. Either way the
  value is its type code and its bytes, and \<open>m_type\<close> computes the word the class stores. The pairs of a
  map are the cells of its \<^verbatim>\<open>BValueMap\<close> in the order of the array (\<open>Value_Map\<close> has the array itself).
  Copies share buffers and maps by reference counts and are copied before they change, so a value here
  is what it denotes; allocations of values succeed. Multi-byte numbers have the byte order of the
  little-endian hosts.
\<close>

section \<open>Type codes\<close>

definition B_TYPE_CODE_MASK :: u32 where "B_TYPE_CODE_MASK = 0x7f7f7f00"

definition B_PACK_SMALL_TYPE :: "u32 \<Rightarrow> u32 \<Rightarrow> u32" where
  "B_PACK_SMALL_TYPE code len = (code AND B_TYPE_CODE_MASK) OR len OR 0x80"

definition B_PACK_LARGE_TYPE :: "u32 \<Rightarrow> u32" where
  "B_PACK_LARGE_TYPE code = (code AND B_TYPE_CODE_MASK) OR 5 OR 0x80"

definition B_UNPACK_TYPE_CODE :: "u32 \<Rightarrow> u32" where
  "B_UNPACK_TYPE_CODE type = type AND B_TYPE_CODE_MASK"

definition B_UNPACK_TYPE_LENGTH :: "u32 \<Rightarrow> u32" where
  "B_UNPACK_TYPE_LENGTH type = type AND 7"

definition B_TYPE_CODE :: "u32 \<Rightarrow> u32" where
  "B_TYPE_CODE code = push_bit 8 code AND B_TYPE_CODE_MASK"

text \<open>The codes, with their characters in the order of a multi-character constant.\<close>

definition B_WILD_TYPE :: u32 where "B_WILD_TYPE = B_TYPE_CODE 0x776c64"
definition B_NULL_TYPE :: u32 where "B_NULL_TYPE = B_TYPE_CODE 0x6e756c"
definition B_VALUE_TYPE :: u32 where "B_VALUE_TYPE = B_TYPE_CODE 0x76616c"
definition B_ERROR_TYPE :: u32 where "B_ERROR_TYPE = B_TYPE_CODE 0x657272"
definition B_BOOL_TYPE :: u32 where "B_BOOL_TYPE = B_TYPE_CODE 0x626f6c"
definition B_INT8_TYPE :: u32 where "B_INT8_TYPE = B_TYPE_CODE 0x693038"
definition B_UINT8_TYPE :: u32 where "B_UINT8_TYPE = B_TYPE_CODE 0x753038"
definition B_INT16_TYPE :: u32 where "B_INT16_TYPE = B_TYPE_CODE 0x693136"
definition B_UINT16_TYPE :: u32 where "B_UINT16_TYPE = B_TYPE_CODE 0x753136"
definition B_INT32_TYPE :: u32 where "B_INT32_TYPE = B_TYPE_CODE 0x693332"
definition B_UINT32_TYPE :: u32 where "B_UINT32_TYPE = B_TYPE_CODE 0x753332"
definition B_INT64_TYPE :: u32 where "B_INT64_TYPE = B_TYPE_CODE 0x693634"
definition B_UINT64_TYPE :: u32 where "B_UINT64_TYPE = B_TYPE_CODE 0x753634"
definition B_FLOAT_TYPE :: u32 where "B_FLOAT_TYPE = B_TYPE_CODE 0x666c74"
definition B_DOUBLE_TYPE :: u32 where "B_DOUBLE_TYPE = B_TYPE_CODE 0x64626c"
definition B_STRING_TYPE :: u32 where "B_STRING_TYPE = B_TYPE_CODE 0x737472"
definition B_STATUS_TYPE :: u32 where "B_STATUS_TYPE = B_TYPE_CODE 0x737473"

lemmas type_code_defs = B_WILD_TYPE_def B_NULL_TYPE_def B_VALUE_TYPE_def B_ERROR_TYPE_def B_BOOL_TYPE_def
  B_INT8_TYPE_def B_UINT8_TYPE_def B_INT16_TYPE_def B_UINT16_TYPE_def B_INT32_TYPE_def B_UINT32_TYPE_def
  B_INT64_TYPE_def B_UINT64_TYPE_def B_FLOAT_TYPE_def B_DOUBLE_TYPE_def B_STRING_TYPE_def B_STATUS_TYPE_def
  B_TYPE_CODE_def B_TYPE_CODE_MASK_def

lemmas pack_defs = B_PACK_SMALL_TYPE_def B_PACK_LARGE_TYPE_def B_UNPACK_TYPE_CODE_def B_UNPACK_TYPE_LENGTH_def

definition kWildTypeCode :: u32 where "kWildTypeCode = B_PACK_SMALL_TYPE B_WILD_TYPE 0"
definition kNullTypeCode :: u32 where "kNullTypeCode = B_PACK_SMALL_TYPE B_NULL_TYPE 0"
definition kErrorTypeCode :: u32 where "kErrorTypeCode = B_PACK_SMALL_TYPE B_ERROR_TYPE 4"
definition kMapTypeCode :: u32 where "kMapTypeCode = 0x80 OR 7 OR B_VALUE_TYPE"

lemma type_words [simp]:
  "kWildTypeCode = 0x776c6480" "kNullTypeCode = 0x6e756c80" "kErrorTypeCode = 0x65727284" "kMapTypeCode = 0x76616c87"
  by (simp_all add: kWildTypeCode_def kNullTypeCode_def kErrorTypeCode_def kMapTypeCode_def pack_defs type_code_defs)

section \<open>Values\<close>

datatype sval =
  SUndefined
| SData (svcode: u32) (svdata: "u8 list")
| SMap (svpairs: "(sval \<times> sval) list")

type_synonym spair = "sval \<times> sval"

fun m_type :: "sval \<Rightarrow> u32" where
  "m_type SUndefined = 0"
| "m_type (SData code bs) =
    (if length bs \<le> 4 then B_PACK_SMALL_TYPE code (of_nat (length bs)) else B_PACK_LARGE_TYPE code)"
| "m_type (SMap ps) = kMapTypeCode"

definition is_defined :: "sval \<Rightarrow> bool" where "is_defined v \<longleftrightarrow> m_type v \<noteq> 0"
definition is_wild :: "sval \<Rightarrow> bool" where "is_wild v \<longleftrightarrow> m_type v = kWildTypeCode"
definition is_null :: "sval \<Rightarrow> bool" where "is_null v \<longleftrightarrow> m_type v = kNullTypeCode"
definition is_error :: "sval \<Rightarrow> bool" where "is_error v \<longleftrightarrow> m_type v = kErrorTypeCode"
definition is_final :: "sval \<Rightarrow> bool" where "is_final v \<longleftrightarrow> is_wild v \<or> is_error v"
definition is_simple :: "sval \<Rightarrow> bool" where "is_simple v \<longleftrightarrow> B_UNPACK_TYPE_LENGTH (m_type v) \<noteq> 7"
definition is_map :: "sval \<Rightarrow> bool" where "is_map v \<longleftrightarrow> B_UNPACK_TYPE_LENGTH (m_type v) = 7"
definition is_specified :: "sval \<Rightarrow> bool" where "is_specified v \<longleftrightarrow> is_defined v \<and> \<not> is_wild v"

text \<open>\<^verbatim>\<open>CHECK_IS_SMALL_OBJECT\<close>: four bytes and a code whose last character is \<^verbatim>\<open>*\<close>.\<close>

definition is_object :: "sval \<Rightarrow> bool" where
  "is_object v \<longleftrightarrow> m_type v AND (7 OR 0x00007f00) = 4 OR push_bit 8 0x2a"

definition SWild :: sval where "SWild = SData B_WILD_TYPE []"
definition SNull :: sval where "SNull = SData B_NULL_TYPE []"

section \<open>Numbers in bytes\<close>

definition le_word :: "u8 list \<Rightarrow> u32" where
  "le_word bs = foldr (\<lambda>b w. ucast b OR push_bit 8 w) bs 0"

definition le_bytes :: "u32 \<Rightarrow> u8 list" where
  "le_bytes w = map (\<lambda>i. ucast (drop_bit (8 * i) w)) [0, 1, 2, 3]"

definition le_int :: "u8 list \<Rightarrow> int" where
  "le_int bs = sint (le_word bs)"

definition SInt32 :: "int \<Rightarrow> sval" where
  "SInt32 n = SData B_INT32_TYPE (le_bytes (word_of_int n))"

text \<open>\<^verbatim>\<open>SValue(const char*)\<close> and \<^verbatim>\<open>SValue(const SString&)\<close>: the text with its terminating null byte.\<close>

definition SStr :: "u8 list \<Rightarrow> sval" where
  "SStr str = SData B_STRING_TYPE (str @ [0])"

section \<open>Errors\<close>

definition SErr :: "int \<Rightarrow> sval" where
  "SErr code = SData B_ERROR_TYPE (le_bytes (word_of_int code))"

definition set_error :: "int \<Rightarrow> sval" where
  "set_error code = SErr (if code < B_OK then code else B_ERROR)"

definition ErrorCheck :: "sval \<Rightarrow> int" where
  "ErrorCheck v = (if is_error v then le_int (svdata v) else B_OK)"

definition B_NO_INIT :: int where "B_NO_INIT = sys_err 46"

definition StatusCheck :: "sval \<Rightarrow> int" where
  "StatusCheck v =
    (let val = ErrorCheck v in
     if val = B_OK then
       if m_type v = B_PACK_SMALL_TYPE B_STATUS_TYPE 4 then le_int (svdata v)
       else if m_type v = 0 then B_NO_INIT
       else val
     else val)"

section \<open>Comparison\<close>

definition type_order :: "u32 \<Rightarrow> u32 \<Rightarrow> int" where
  "type_order s t = (if s < t then -1 else 1)"

text \<open>The bytes of two values with the same type word.\<close>

definition data_Compare :: "u8 list \<Rightarrow> u8 list \<Rightarrow> int" where
  "data_Compare d1 d2 =
    (if length d1 = 0 then 0
     else if length d1 \<le> 3 then memcmp d1 d2
     else if length d1 = 4 then (if le_int d1 \<noteq> le_int d2 then (if le_int d1 < le_int d2 then -1 else 1) else 0)
     else if length d1 \<noteq> length d2 then (if length d1 < length d2 then -1 else 1)
     else memcmp d1 d2)"

text \<open>\<^verbatim>\<open>SValue::Compare\<close>, with the loop of \<^verbatim>\<open>BValueMap::Compare\<close> over keys and values in turn.\<close>

function (sequential) SValue_Compare :: "sval \<Rightarrow> sval \<Rightarrow> int" and pairs_Compare :: "spair list \<Rightarrow> spair list \<Rightarrow> int" where
  "SValue_Compare (SMap ps) (SMap qs) =
    (if length ps \<noteq> length qs then (if length ps < length qs then -1 else 1) else pairs_Compare ps qs)"
| "SValue_Compare (SData c ds) (SData d es) =
    (if m_type (SData c ds) \<noteq> m_type (SData d es) then type_order (m_type (SData c ds)) (m_type (SData d es))
     else data_Compare ds es)"
| "SValue_Compare v w = (if m_type v \<noteq> m_type w then type_order (m_type v) (m_type w) else 0)"
| "pairs_Compare ((k1, v1) # ps) ((k2, v2) # qs) =
    (let c = SValue_Compare k1 k2 in if c \<noteq> 0 then c
     else let c = SValue_Compare v1 v2 in if c \<noteq> 0 then c
     else pairs_Compare ps qs)"
| "pairs_Compare _ _ = 0"
  by pat_completeness auto

termination
  by (relation "measure (case_sum (\<lambda>(v, _). size v) (\<lambda>(ps, _). size_list (size_prod size size) ps))") auto

text \<open>\<^verbatim>\<open>SValue::compare\<close> against a packed type and bytes, and \<^verbatim>\<open>SValue::Compare\<close> against a type and bytes.\<close>

definition compare_packed :: "sval \<Rightarrow> u32 \<Rightarrow> u8 list \<Rightarrow> int" where
  "compare_packed v type bs =
    (if m_type v \<noteq> type then type_order (m_type v) type
     else case v of SData _ ds \<Rightarrow> data_Compare ds bs | _ \<Rightarrow> 0)"

definition pack_type :: "u32 \<Rightarrow> nat \<Rightarrow> u32" where
  "pack_type type len = (if len \<le> 4 then B_PACK_SMALL_TYPE type (of_nat len) else B_PACK_LARGE_TYPE type)"

definition SValue_Compare_data :: "sval \<Rightarrow> u32 \<Rightarrow> u8 list \<Rightarrow> int" where
  "SValue_Compare_data v type bs = compare_packed v (pack_type type (length bs)) bs"

text \<open>\<^verbatim>\<open>SValue::compare_map\<close>: a pair with a wild key is a member of a set and is ordered by its value.\<close>

definition compare_map :: "sval \<Rightarrow> sval \<Rightarrow> sval \<Rightarrow> sval \<Rightarrow> int" where
  "compare_map key1 value1 key2 value2 =
    (let key1Wild = is_wild key1; key2Wild = is_wild key2;
         cmp1 = (if key1Wild then value1 else key1); cmp2 = (if key2Wild then value2 else key2)
     in if m_type cmp1 \<noteq> m_type cmp2 \<and> \<not> key1Wild then type_order (m_type cmp1) (m_type cmp2)
        else if is_simple cmp1 then
          (let c = SValue_Compare cmp1 cmp2 in
           if c = 0 \<and> key1Wild \<noteq> key2Wild then (if key1Wild then -1 else 1) else c)
        else SValue_Compare key1 key2)"

text \<open>
  \<^verbatim>\<open>SValue::LexicalCompare\<close> and the loop of \<^verbatim>\<open>BValueMap::LexicalCompare\<close>. The order of two floating point
  numbers, given by their bytes, is a parameter. The labels of the 64-bit types in the source lack the length and byte order
  bits of a packed type, so no value reaches those cases.
\<close>

definition typed_compare :: "int \<Rightarrow> int \<Rightarrow> int" where
  "typed_compare a b = (if a < b then -1 else if a > b then 1 else 0)"

definition le_word16 :: "u8 list \<Rightarrow> u16" where
  "le_word16 bs = ucast (le_word bs)"

definition pairs_LexicalCompare :: "spair list \<Rightarrow> spair list \<Rightarrow> int" where
  "pairs_LexicalCompare ps qs =
    (let n = min (length ps) (length qs); c = pairs_Compare (take n ps) (take n qs) in
     if c \<noteq> 0 then c
     else if length ps < length qs then -1 else if length qs < length ps then 1 else 0)"

definition LexicalCompare :: "(u8 list \<Rightarrow> u8 list \<Rightarrow> int) \<Rightarrow> sval \<Rightarrow> sval \<Rightarrow> int" where
  "LexicalCompare float_compare v w =
    (if is_simple v \<and> is_simple w then
       if B_UNPACK_TYPE_CODE (m_type v) \<noteq> B_UNPACK_TYPE_CODE (m_type w) then type_order (m_type v) (m_type w)
       else
         let d = (case v of SData _ d \<Rightarrow> d | _ \<Rightarrow> []); e = (case w of SData _ e \<Rightarrow> e | _ \<Rightarrow> []);
             same = (B_UNPACK_TYPE_LENGTH (m_type v) = B_UNPACK_TYPE_LENGTH (m_type w));
             t = m_type v
         in if same \<and> (t = 0 \<or> t = kWildTypeCode) then 0
            else if same \<and> (t = B_PACK_SMALL_TYPE B_BOOL_TYPE 1 \<or> t = B_PACK_SMALL_TYPE B_INT8_TYPE 1) then
              typed_compare (sint (hd d)) (sint (hd e))
            else if same \<and> t = B_PACK_SMALL_TYPE B_UINT8_TYPE 1 then typed_compare (uint (hd d)) (uint (hd e))
            else if same \<and> t = B_PACK_SMALL_TYPE B_INT16_TYPE 2 then typed_compare (sint (le_word16 d)) (sint (le_word16 e))
            else if same \<and> t = B_PACK_SMALL_TYPE B_UINT16_TYPE 2 then typed_compare (uint (le_word16 d)) (uint (le_word16 e))
            else if same \<and> t = B_PACK_SMALL_TYPE B_INT32_TYPE 4 then typed_compare (le_int d) (le_int e)
            else if same \<and> t = B_PACK_SMALL_TYPE B_UINT32_TYPE 4 then typed_compare (uint (le_word d)) (uint (le_word e))
            else if same \<and> t = B_PACK_SMALL_TYPE B_FLOAT_TYPE 4 then float_compare d e
            else
              let result = memcmp (take (min (length d) (length e)) d) (take (min (length d) (length e)) e)
              in if result = 0 \<and> length d \<noteq> length e then (if length d < length e then -1 else 1) else 0
     else if m_type v \<noteq> m_type w then type_order (m_type v) (m_type w)
     else pairs_LexicalCompare (svpairs v) (svpairs w))"

section \<open>What kind a value is\<close>

lemma unpack_length_small:
  assumes "n \<le> 4"
  shows "B_UNPACK_TYPE_LENGTH (B_PACK_SMALL_TYPE c (of_nat n)) = of_nat n"
proof -
  have "n \<in> {0, 1, 2, 3, 4}" using assms by auto
  moreover have "(c AND 0x7f7f7f00 OR k OR 0x80) AND 7 = k AND 7" for k :: u32
  proof -
    have "(c AND 0x7f7f7f00) AND 7 = 0" by (simp add: and.assoc)
    then show ?thesis by (simp add: bit.conj_disj_distrib2)
  qed
  ultimately show ?thesis by (auto simp: pack_defs B_TYPE_CODE_MASK_def)
qed

lemma unpack_length_large: "B_UNPACK_TYPE_LENGTH (B_PACK_LARGE_TYPE c) = 5"
proof -
  have "(c AND 0x7f7f7f00) AND 7 = 0" by (simp add: and.assoc)
  then show ?thesis by (simp add: pack_defs B_TYPE_CODE_MASK_def bit.conj_disj_distrib2)
qed

lemma unpack_length_data:
  "B_UNPACK_TYPE_LENGTH (m_type (SData c bs)) = (if length bs \<le> 4 then of_nat (length bs) else 5)"
  by (simp add: unpack_length_small unpack_length_large)

lemma length_field_not_map:
  assumes "n \<le> 4"
  shows "(of_nat n :: u32) \<noteq> 7"
proof -
  have "unat (of_nat n :: u32) = n" using assms by (simp only: unat_of_nat) simp
  then show ?thesis using assms by auto
qed

lemma m_type_data_neq [simp]:
  "m_type (SData c bs) \<noteq> 0x76616c87" "0x76616c87 \<noteq> m_type (SData c bs)" "m_type (SData c bs) \<noteq> 0" "0 \<noteq> m_type (SData c bs)"
proof -
  have "B_UNPACK_TYPE_LENGTH (m_type (SData c bs)) \<noteq> 7"
    by (simp only: unpack_length_data length_field_not_map split: if_split) (simp add: length_field_not_map)
  moreover have "B_UNPACK_TYPE_LENGTH 0x76616c87 = 7" by (simp add: pack_defs)
  ultimately show "m_type (SData c bs) \<noteq> 0x76616c87" "0x76616c87 \<noteq> m_type (SData c bs)" by metis+
  have "bit (m_type (SData c bs)) 7" by (simp add: pack_defs bit_simps)
  then show "m_type (SData c bs) \<noteq> 0" "0 \<noteq> m_type (SData c bs)" by auto
qed

lemma kind_simps [simp]:
  "\<not> is_defined SUndefined" "is_defined (SData c bs)" "is_defined (SMap ps)"
  "\<not> is_map SUndefined" "\<not> is_map (SData c bs)" "is_map (SMap ps)"
  "\<not> is_wild SUndefined" "\<not> is_wild (SMap ps)" "\<not> is_null SUndefined" "\<not> is_null (SMap ps)"
  "\<not> is_error SUndefined" "\<not> is_error (SMap ps)" "is_wild SWild" "is_null SNull"
  "\<not> is_error SWild" "\<not> is_null SWild" "\<not> is_wild SNull" "\<not> is_error SNull"
  using unpack_length_data [of c bs]
  by (simp_all add: is_defined_def is_map_def is_wild_def is_null_def is_error_def SWild_def SNull_def length_field_not_map
      type_code_defs del: m_type.simps(2) split: if_splits)
     (simp_all add: pack_defs type_code_defs)

lemma is_simple_iff: "is_simple v \<longleftrightarrow> \<not> is_map v"
  by (simp add: is_simple_def is_map_def)

lemma is_map_iff: "is_map v \<longleftrightarrow> (\<exists>ps. v = SMap ps)"
  by (cases v) auto

lemma final_not_map [simp]: "is_wild v \<Longrightarrow> \<not> is_map v" "is_error v \<Longrightarrow> \<not> is_map v" "is_null v \<Longrightarrow> \<not> is_map v"
  by (cases v; simp)+

lemma special_defined [simp]: "is_wild v \<Longrightarrow> is_defined v" "is_error v \<Longrightarrow> is_defined v" "is_null v \<Longrightarrow> is_defined v"
  by (cases v; simp)+

lemma special_distinct:
  "is_wild v \<Longrightarrow> \<not> is_error v" "is_wild v \<Longrightarrow> \<not> is_null v" "is_null v \<Longrightarrow> \<not> is_error v"
  by (auto simp: is_wild_def is_error_def is_null_def)

lemma defined_SUndefined [simp]: "\<not> is_defined v \<longleftrightarrow> v = SUndefined"
  by (cases v) auto

section \<open>The order of values\<close>

lemma memcmp_antisym: "memcmp b a = - memcmp a b"
  by (induction a b rule: memcmp.induct) auto

lemma memcmp_eq: "length a = length b \<Longrightarrow> memcmp a b = 0 \<longleftrightarrow> a = b"
  by (induction a b rule: memcmp.induct) (auto simp: word_uint_eq_iff)

lemma memcmp_trans:
  assumes "length a = length b" "length b = length c" "memcmp a b \<le> 0" "memcmp b c \<le> 0"
  shows "memcmp a c \<le> 0"
  using assms
  by (induction a b c rule: list_induct3) (auto simp: word_uint_eq_iff split: if_splits)

lemma le_bytes_step: "le_bytes (ucast a OR push_bit 8 w) = a # butlast (le_bytes w)"
proof -
  have "(ucast (drop_bit (8 * Suc i) (ucast a OR push_bit 8 w)) :: u8) = ucast (drop_bit (8 * i) w)" if "i < 3" for i
    using that by (intro bit_word_eqI) (auto simp: bit_simps dest: bit_imp_le_length)
  from this [of 0] this [of 1] this [of 2]
  show ?thesis by (simp add: le_bytes_def) (rule bit_word_eqI, auto simp: bit_simps)
qed

lemma le_bytes_word:
  assumes "length bs = 4"
  shows "le_bytes (le_word bs) = bs"
proof -
  obtain a b c d where "bs = [a, b, c, d]"
    using assms by (auto simp: length_Suc_conv eval_nat_numeral)
  then show ?thesis by (simp only: le_word_def foldr.simps comp_apply id_apply le_bytes_step) (simp add: le_bytes_def)
qed

lemma length_le_bytes [simp]: "length (le_bytes w) = 4"
  by (simp add: le_bytes_def)

lemma le_word_bytes: "le_word (le_bytes w) = w"
proof (rule bit_word_eqI)
  fix n assume "n < LENGTH(32)"
  then consider "n < 8" | "8 \<le> n" "n < 16" | "16 \<le> n" "n < 24" | "24 \<le> n" "n < 32" by fastforce
  then show "bit (le_word (le_bytes w)) n = bit w n"
    by cases (auto simp: le_word_def le_bytes_def bit_simps)
qed

lemma le_int_inj:
  assumes "length a = 4" "length b = 4"
  shows "le_int a = le_int b \<longleftrightarrow> a = b"
  unfolding le_int_def using assms by (metis le_bytes_word signed_word_eqI)

definition same_width :: "u8 list \<Rightarrow> u8 list \<Rightarrow> bool" where
  "same_width a b \<longleftrightarrow> length a = length b \<or> 4 < length a \<and> 4 < length b"

lemma data_Compare_antisym: "same_width a b \<Longrightarrow> data_Compare b a = - data_Compare a b"
  using memcmp_antisym [of a b] by (auto simp: same_width_def data_Compare_def)

lemma data_Compare_trans:
  assumes w: "same_width a b" "same_width b c" and le: "data_Compare a b \<le> 0" "data_Compare b c \<le> 0"
  shows "data_Compare a c \<le> 0"
proof -
  consider "length a = 0" | "0 < length a" "length a \<le> 3" | "length a = 4" | "4 < length a" by linarith
  then show ?thesis
  proof cases
    case 2
    then have "length a = length b" "length b = length c" using w by (auto simp: same_width_def)
    with 2 le memcmp_trans [of a b c] show ?thesis by (simp add: data_Compare_def)
  next
    case 3
    then have "length a = length b" "length b = length c" using w by (auto simp: same_width_def)
    with 3 le show ?thesis by (simp add: data_Compare_def split: if_splits)
  next
    case 4
    then have "4 < length b" "4 < length c" using w by (auto simp: same_width_def)
    with 4 le memcmp_trans [of a b c] show ?thesis
      by (cases "length a = length b"; cases "length b = length c"; simp add: data_Compare_def split: if_splits)
  qed (simp add: data_Compare_def)
qed

lemma data_Compare_eq:
  assumes "same_width a b"
  shows "data_Compare a b = 0 \<longleftrightarrow> a = b"
proof (cases "length a = length b")
  case True
  then show ?thesis
    using memcmp_eq [OF True] le_int_inj [of a b] by (auto simp: data_Compare_def)
next
  case False
  with assms show ?thesis by (auto simp: data_Compare_def same_width_def)
qed

lemma same_type_lengths:
  assumes "m_type (SData c a) = m_type (SData d b)"
  shows "same_width a b"
proof -
  have u: "unat (B_UNPACK_TYPE_LENGTH (m_type (SData c bs))) = (if length bs \<le> 4 then length bs else 5)" for c bs
    unfolding unpack_length_data by (simp only: unat_of_nat split: if_split) simp
  from assms have "unat (B_UNPACK_TYPE_LENGTH (m_type (SData c a))) = unat (B_UNPACK_TYPE_LENGTH (m_type (SData d b)))"
    by simp
  then show ?thesis unfolding u same_width_def by (simp split: if_splits)
qed

lemma type_order_sign [simp]: "type_order a b < 0 \<longleftrightarrow> a < b" "type_order a b \<le> 0 \<longleftrightarrow> a < b" "0 < type_order a b \<longleftrightarrow> \<not> a < b" "type_order a b \<noteq> 0"
  by (simp_all add: type_order_def)

declare m_type.simps(2) [simp del]

lemma SValue_Compare_by_type:
  assumes "m_type v \<noteq> m_type w"
  shows "SValue_Compare v w = type_order (m_type v) (m_type w)"
  using assms by (cases v; cases w) simp_all

lemma SValue_Compare_type_le: "SValue_Compare v w \<le> 0 \<Longrightarrow> m_type v \<le> m_type w"
  by (cases "m_type v = m_type w") (simp_all add: SValue_Compare_by_type)

lemma SValue_Compare_antisym:
  "SValue_Compare w v = - SValue_Compare v w"
  "length ps = length qs \<Longrightarrow> pairs_Compare qs ps = - pairs_Compare ps qs"
proof (induction v w and ps qs rule: SValue_Compare_pairs_Compare.induct)
  case (2 c ds d es)
  then show ?case
    using same_type_lengths [of c ds d es] data_Compare_antisym [of ds es] by (auto simp: type_order_def)
qed (auto simp: type_order_def Let_def word_gt_0)

lemma SValue_Compare_type_trans:
  assumes "SValue_Compare v w \<le> 0" "SValue_Compare w z \<le> 0" "m_type v \<noteq> m_type w \<or> m_type w \<noteq> m_type z"
  shows "SValue_Compare v z < 0"
proof -
  have "m_type v < m_type z"
    using assms SValue_Compare_type_le [of v w] SValue_Compare_type_le [of w z] by (metis order_le_imp_less_or_eq order_less_le_trans order_le_less_trans)
  then show ?thesis by (simp add: SValue_Compare_by_type)
qed

lemma m_type_0 [simp]: "m_type v = 0 \<longleftrightarrow> v = SUndefined"
  by (cases v) auto

lemma SValue_Compare_trans_mixed:
  assumes le: "SValue_Compare v w \<le> 0" "SValue_Compare w z \<le> 0"
    and "m_type v \<noteq> m_type w \<or> v = SUndefined"
  shows "SValue_Compare v z \<le> 0 \<and> (SValue_Compare v z = 0 \<longrightarrow> SValue_Compare v w = 0 \<and> SValue_Compare w z = 0)"
proof (cases "m_type v = m_type w \<and> m_type w = m_type z")
  case True
  with assms have "v = SUndefined" by blast
  with True have "w = SUndefined" "z = SUndefined" by (metis m_type_0)+
  with \<open>v = SUndefined\<close> show ?thesis by simp
next
  case False
  then show ?thesis using SValue_Compare_type_trans [OF le] by auto
qed

lemma SValue_Compare_trans:
  "SValue_Compare v w \<le> 0 \<Longrightarrow> SValue_Compare w z \<le> 0 \<Longrightarrow>
    SValue_Compare v z \<le> 0 \<and> (SValue_Compare v z = 0 \<longrightarrow> SValue_Compare v w = 0 \<and> SValue_Compare w z = 0)"
  "length ps = length qs \<Longrightarrow> length qs = length rs \<Longrightarrow> pairs_Compare ps qs \<le> 0 \<Longrightarrow> pairs_Compare qs rs \<le> 0 \<Longrightarrow>
    pairs_Compare ps rs \<le> 0 \<and> (pairs_Compare ps rs = 0 \<longrightarrow> pairs_Compare ps qs = 0 \<and> pairs_Compare qs rs = 0)"
proof (induction v w and ps qs arbitrary: z and rs rule: SValue_Compare_pairs_Compare.induct)
  case (1 ps qs)
  show ?case
  proof (cases z)
    case (SMap rs)
    then show ?thesis using 1 by (auto split: if_splits)
  qed (use 1 in \<open>auto split: if_splits\<close>)
next
  case (2 c ds d es)
  show ?case
  proof (cases "m_type (SData c ds) = m_type (SData d es) \<and> m_type (SData d es) = m_type z")
    case True
    then obtain g fs where z: "z = SData g fs" by (cases z) auto
    have w: "same_width ds es" "same_width es fs" "same_width ds fs"
      using True z by (auto intro!: same_type_lengths)
    have "data_Compare ds fs = 0 \<longrightarrow> data_Compare ds es = 0 \<and> data_Compare es fs = 0"
      if "data_Compare ds es \<le> 0" "data_Compare es fs \<le> 0"
    proof
      assume "data_Compare ds fs = 0"
      then have "ds = fs" using data_Compare_eq [OF w(3)] by simp
      then show "data_Compare ds es = 0 \<and> data_Compare es fs = 0"
        using that data_Compare_antisym [OF w(1)] by simp
    qed
    then show ?thesis using 2 True z w data_Compare_trans [OF w(1,2)] by simp
  next
    case False
    then show ?thesis using SValue_Compare_type_trans [OF 2] by auto
  qed
next
  case (4 k1 v1 ps k2 v2 qs)
  obtain k3 v3 rs' where rs: "rs = (k3, v3) # rs'" using "4"(5) by (cases rs) auto
  have k: "SValue_Compare k1 k2 \<le> 0" "SValue_Compare k2 k3 \<le> 0"
    using "4"(6,7) rs by (simp_all add: Let_def split: if_splits)
  note K = "4"(1) [OF k]
  show ?case
  proof (cases "SValue_Compare k1 k3 = 0")
    case True
    then have k0: "SValue_Compare k1 k2 = 0" "SValue_Compare k2 k3 = 0" using K by auto
    have v: "SValue_Compare v1 v2 \<le> 0" "SValue_Compare v2 v3 \<le> 0"
      using "4"(6,7) rs k0 by (simp_all add: Let_def split: if_splits)
    note V = "4"(2) [OF refl _ v]
    show ?thesis
    proof (cases "SValue_Compare v1 v3 = 0")
      case True
      then show ?thesis
        using "4"(3) [OF refl _ refl] "4"(4-7) V k0 \<open>SValue_Compare k1 k3 = 0\<close> rs by (simp add: Let_def)
    qed (use V k0 True rs in \<open>simp add: Let_def\<close>)
  qed (use K rs in \<open>simp add: Let_def\<close>)
qed (rule SValue_Compare_trans_mixed; simp; fail | simp)+

lemma SValue_Compare_refl [simp]: "SValue_Compare v v = 0"
  using SValue_Compare_antisym(1) [of v v] by simp

interpretation value_order: comparator SValue_Compare
proof
  fix x y z
  show "SValue_Compare x y < 0 \<longleftrightarrow> 0 < SValue_Compare y x"
    using SValue_Compare_antisym(1) [of x y] by simp
  show "SValue_Compare x y \<le> 0 \<Longrightarrow> SValue_Compare y z \<le> 0 \<Longrightarrow> SValue_Compare x z \<le> 0"
    using SValue_Compare_trans(1) by blast
qed

text \<open>Only the bits of the mask count in a type code (\<^verbatim>\<open>VALIDATE_TYPE\<close>); on such codes the order is the equality.\<close>

definition valid_code :: "u32 \<Rightarrow> bool" where
  "valid_code c \<longleftrightarrow> c AND NOT B_TYPE_CODE_MASK = 0"

fun codes_ok :: "sval \<Rightarrow> bool" where
  "codes_ok SUndefined = True"
| "codes_ok (SData c bs) = valid_code c"
| "codes_ok (SMap ps) = list_all (\<lambda>(k, v). codes_ok k \<and> codes_ok v) ps"

lemma unpack_code:
  assumes "valid_code c"
  shows "B_UNPACK_TYPE_CODE (m_type (SData c bs)) = c"
proof -
  have m: "c AND B_TYPE_CODE_MASK = c"
  proof (rule bit_word_eqI)
    fix n assume n: "n < LENGTH(32)"
    have "\<not> bit (c AND NOT B_TYPE_CODE_MASK) n" using assms by (simp add: valid_code_def)
    with n show "bit (c AND B_TYPE_CODE_MASK) n = bit c n" by (auto simp: bit_simps)
  qed
  have "length bs \<le> 4 \<Longrightarrow> (of_nat (length bs) :: u32) AND B_TYPE_CODE_MASK = 0"
    by (auto simp: B_TYPE_CODE_MASK_def le_Suc_eq numeral_eq_Suc)
  with m show ?thesis
    by (simp add: m_type.simps pack_defs bit.conj_disj_distrib2 B_TYPE_CODE_MASK_def and.assoc)
qed

lemma SValue_Compare_eq:
  "codes_ok v \<Longrightarrow> codes_ok w \<Longrightarrow> SValue_Compare v w = 0 \<longleftrightarrow> v = w"
  "codes_ok (SMap ps) \<Longrightarrow> codes_ok (SMap qs) \<Longrightarrow> length ps = length qs \<Longrightarrow> pairs_Compare ps qs = 0 \<longleftrightarrow> ps = qs"
proof (induction v w and ps qs rule: SValue_Compare_pairs_Compare.induct)
  case (2 c ds d es)
  have "c = d" if "m_type (SData c ds) = m_type (SData d es)"
    using 2 that unpack_code [of c ds] unpack_code [of d es] by simp
  then show ?case
    using same_type_lengths [of c ds d es] data_Compare_eq [of ds es] by auto
qed (auto simp: Let_def type_order_def split: if_splits)

section \<open>The order of the pairs of a map\<close>

definition item_key :: "spair \<Rightarrow> sval" where
  "item_key p = (if is_wild (fst p) then snd p else fst p)"

definition item_order :: "spair \<Rightarrow> spair \<Rightarrow> int" where
  "item_order p q =
    (let c = SValue_Compare (item_key p) (item_key q) in
     if c = 0 \<and> is_wild (fst p) \<noteq> is_wild (fst q) then (if is_wild (fst p) then -1 else 1) else c)"

text \<open>A map under a wild key is not in normal form; on all other pairs \<^verbatim>\<open>compare_map\<close> is a total order.\<close>

definition item_ok :: "spair \<Rightarrow> bool" where
  "item_ok p \<longleftrightarrow> \<not> (is_wild (fst p) \<and> is_map (snd p))"

lemma same_type_is_map: "m_type v = m_type w \<Longrightarrow> is_map v \<longleftrightarrow> is_map w"
  by (simp add: is_map_def)

lemma compare_map_item_order:
  assumes "item_ok (k1, v1)" "item_ok (k2, v2)"
  shows "compare_map k1 v1 k2 v2 = item_order (k1, v1) (k2, v2)"
proof -
  have ty: "SValue_Compare a b = type_order (m_type a) (m_type b)" "SValue_Compare a b \<noteq> 0" if "m_type a \<noteq> m_type b" for a b
    using SValue_Compare_by_type [OF that] by simp_all
  show ?thesis
  proof (cases "is_wild k1")
    case True
    then show ?thesis
      using assms(1) by (simp add: compare_map_def item_order_def item_key_def item_ok_def is_simple_iff)
  next
    case False
    let ?c2 = "item_key (k2, v2)"
    have m: "is_wild k2 \<Longrightarrow> \<not> is_map ?c2" using assms(2) by (simp add: item_key_def item_ok_def)
    show ?thesis
    proof (cases "m_type k1 = m_type ?c2")
      case True
      then have "is_map k1 \<Longrightarrow> \<not> is_wild k2" using m same_type_is_map [OF True] by blast
      with True False show ?thesis
        by (auto simp: compare_map_def item_order_def item_key_def is_simple_iff Let_def)
    next
      case ne: False
      then show ?thesis
        using False ty [OF ne] by (cases "is_wild k2") (simp_all add: compare_map_def item_order_def item_key_def)
    qed
  qed
qed

lemma item_order_antisym: "item_order q p = - item_order p q"
  using SValue_Compare_antisym(1) [of "item_key p" "item_key q"] by (simp add: item_order_def Let_def)

lemma item_order_le: "item_order p q \<le> 0 \<longleftrightarrow> SValue_Compare (item_key p) (item_key q) < 0 \<or>
    SValue_Compare (item_key p) (item_key q) = 0 \<and> (is_wild (fst q) \<longrightarrow> is_wild (fst p))"
  by (auto simp: item_order_def Let_def)

interpretation item_order: comparator item_order
proof
  fix x y z
  show "item_order x y < 0 \<longleftrightarrow> 0 < item_order y x"
    using item_order_antisym [of x y] by linarith
  show "item_order x y \<le> 0 \<Longrightarrow> item_order y z \<le> 0 \<Longrightarrow> item_order x z \<le> 0"
    unfolding item_order_le using SValue_Compare_trans(1) [of "item_key x" "item_key y" "item_key z"] by linarith
qed

lemma item_order_eq:
  assumes "codes_ok (item_key p)" "codes_ok (item_key q)"
  shows "item_order p q = 0 \<longleftrightarrow> item_key p = item_key q \<and> is_wild (fst p) = is_wild (fst q)"
  using SValue_Compare_eq(1) [OF assms] by (auto simp: item_order_def Let_def)

lemma compare_map_wild_map:
  assumes "item_ok (k1, v1)" "is_wild k2" "is_map v2" "\<not> is_wild k1 \<or> \<not> is_map v1"
  shows "compare_map k1 v1 k2 v2 \<noteq> 0"
proof -
  have "m_type v1 \<noteq> m_type v2" if "\<not> is_map v1" using that assms(3) by (auto simp: is_map_def)
  moreover have "m_type k1 \<noteq> m_type k2" if "\<not> is_wild k1" using that assms(2) by (auto simp: is_wild_def)
  ultimately show ?thesis
    using assms by (auto simp: compare_map_def item_ok_def is_simple_iff SValue_Compare_by_type Let_def)
qed

section \<open>The orders of the code\<close>

text \<open>
  C19. \<^verbatim>\<open>SValue::Compare\<close> is a total order of values: the two directions have opposite signs, it is transitive, and for values with valid
  type codes it is 0 on equal values only. \<^verbatim>\<open>compare_map\<close>, which orders the pairs of a map by the key, or by the value where the key is
  wild, is antisymmetric and transitive as well on all pairs a map may hold.
\<close>

theorem values_totally_ordered:
  assumes "codes_ok v" "codes_ok w" "item_ok (k1, v1)" "item_ok (k2, v2)" "item_ok (k3, v3)"
  shows "SValue_Compare w v = - SValue_Compare v w \<and> (SValue_Compare v w = 0 \<longleftrightarrow> v = w) \<and>
    (SValue_Compare v w \<le> 0 \<and> SValue_Compare w z \<le> 0 \<longrightarrow> SValue_Compare v z \<le> 0) \<and>
    compare_map k2 v2 k1 v1 = - compare_map k1 v1 k2 v2 \<and>
    (compare_map k1 v1 k2 v2 \<le> 0 \<and> compare_map k2 v2 k3 v3 \<le> 0 \<longrightarrow> compare_map k1 v1 k3 v3 \<le> 0)"
proof -
  have "compare_map k2 v2 k1 v1 = - compare_map k1 v1 k2 v2"
    using assms(3,4) by (simp only: compare_map_item_order item_order_antisym [of "(k2, v2)"])
  moreover have "compare_map k1 v1 k2 v2 \<le> 0 \<and> compare_map k2 v2 k3 v3 \<le> 0 \<longrightarrow> compare_map k1 v1 k3 v3 \<le> 0"
    using assms(3-5) item_order.cmp_trans [of "(k1, v1)" "(k2, v2)" "(k3, v3)"] by (simp only: compare_map_item_order) blast
  ultimately show ?thesis
    using SValue_Compare_antisym(1) [of w v] SValue_Compare_trans(1) [of v w z] SValue_Compare_eq(1) [OF assms(1,2)] by blast
qed

theorem values_totally_ordered_witness:
  "SValue_Compare (SInt32 1) (SStr [0x61]) \<le> 0 \<and> SValue_Compare (SInt32 1) (SInt32 2) \<noteq> 0 \<and>
   compare_map SWild (SInt32 1) (SInt32 2) SNull \<le> 0"
proof -
  have "codes_ok (SInt32 1)" "codes_ok (SInt32 2)" "item_ok (SWild, SInt32 1)" "item_ok (SInt32 1, SNull)" "item_ok (SInt32 2, SNull)"
    "SValue_Compare (SInt32 1) (SInt32 2) \<le> 0" "SValue_Compare (SInt32 2) (SStr [0x61]) \<le> 0" "SInt32 1 \<noteq> SInt32 2"
    "compare_map SWild (SInt32 1) (SInt32 1) SNull \<le> 0" "compare_map (SInt32 1) SNull (SInt32 2) SNull \<le> 0"
    by code_simp+
  then show ?thesis
    using values_totally_ordered [of "SInt32 1" "SInt32 2" SWild "SInt32 1" "SInt32 1" SNull "SInt32 2" SNull "SStr [0x61]"] by blast
qed

text \<open>
  \<^verbatim>\<open>LexicalCompare\<close> loses the answer of \<^verbatim>\<open>memcmp\<close>: two strings of the same length are the same to it, whatever
  their characters, although \<^verbatim>\<open>Compare\<close> tells them apart.
\<close>

lemma string_code:
  "B_UNPACK_TYPE_CODE (m_type (SStr a)) = B_STRING_TYPE"
  "B_UNPACK_TYPE_CODE t \<noteq> B_STRING_TYPE \<Longrightarrow> m_type (SStr a) \<noteq> t"
  using unpack_code [of B_STRING_TYPE "a @ [0]"] by (auto simp: SStr_def valid_code_def type_code_defs B_TYPE_CODE_def B_TYPE_CODE_MASK_def pack_defs)

lemma LexicalCompare_same_length:
  assumes "length a = length b"
  shows "LexicalCompare f (SStr a) (SStr b) = 0"
proof -
  have "m_type (SStr a) \<noteq> t" if "t \<in> {0, kWildTypeCode, B_PACK_SMALL_TYPE B_BOOL_TYPE 1, B_PACK_SMALL_TYPE B_INT8_TYPE 1,
     B_PACK_SMALL_TYPE B_UINT8_TYPE 1, B_PACK_SMALL_TYPE B_INT16_TYPE 2, B_PACK_SMALL_TYPE B_UINT16_TYPE 2,
     B_PACK_SMALL_TYPE B_INT32_TYPE 4, B_PACK_SMALL_TYPE B_UINT32_TYPE 4, B_PACK_SMALL_TYPE B_FLOAT_TYPE 4}" for t
    using that by (intro string_code(2)) (elim insertE emptyE; hypsubst; code_simp)
  moreover have "is_simple (SStr a)" "is_simple (SStr b)" by (simp_all add: SStr_def is_simple_iff is_map_iff)
  moreover have "(case SStr a of SData _ d \<Rightarrow> d | _ \<Rightarrow> []) = a @ [0]" "(case SStr b of SData _ d \<Rightarrow> d | _ \<Rightarrow> []) = b @ [0]"
    by (simp_all add: SStr_def)
  ultimately show ?thesis
    using assms by (simp add: LexicalCompare_def string_code(1) Let_def)
qed

end
