(* ===== verification/Value_Map.thy ===== *)
theory Value_Map
  imports Value_Data
begin

text \<open>
  The arrays of key and value pairs behind a map value, \<^verbatim>\<open>src/libraries/libbinder/support/ValueMap.cpp\<close>,
  and the pool they come from.

  A \<^verbatim>\<open>BValueMap\<close> has the capacity it was allocated with; a cell of it is a constructed pair or raw
  memory (\<open>None\<close>: never constructed, or destroyed), and what lies outside of the array is raw as well.
  \<^verbatim>\<open>BMoveBefore\<close> and \<^verbatim>\<open>BMoveAfter\<close> copy the bytes of cells. The free list a pool links through
  \<^verbatim>\<open>m_users\<close> is a list; users are not counted here, the operations that change a map are called on maps
  with one user. Calls of \<^verbatim>\<open>malloc\<close> for \<open>n\<close> pairs succeed if \<open>mem n\<close>. An operation is \<open>None\<close> if the
  source stops with a fatal error.
\<close>

record bvmap =
  vm_dataSize :: int
  vm_size :: nat
  vm_avail :: nat
  vm_editIndex :: int
  vm_maps :: "spair option list"

record vpool =
  vp_objects :: "nat \<Rightarrow> bvmap list"
  vp_count :: "nat \<Rightarrow> nat"

section \<open>The pool\<close>

definition size_to_pool :: "nat \<Rightarrow> nat" where "size_to_pool n = [0, 0, 1, 1, 2, 2, 2] ! n"
definition pool_to_size :: "nat \<Rightarrow> nat" where "pool_to_size i = [1, 3, 6] ! i"
definition max_in_pool :: "nat \<Rightarrow> nat" where "max_in_pool i = [20, 10, 5] ! i"
definition MAX_POOL_SIZE :: nat where "MAX_POOL_SIZE = 6"

definition Construct :: "nat \<Rightarrow> bvmap" where
  "Construct avail =
    \<lparr>vm_dataSize = B_ERROR, vm_size = 0, vm_avail = avail, vm_editIndex = -1, vm_maps = replicate (max 1 avail) None\<rparr>"

definition Destroy :: "bvmap \<Rightarrow> bvmap" where
  "Destroy m = m\<lparr>vm_maps := replicate (vm_size m) None @ drop (vm_size m) (vm_maps m)\<rparr>"

definition Pool_Create :: "(nat \<Rightarrow> bool) \<Rightarrow> vpool \<Rightarrow> nat \<Rightarrow> vpool \<times> bvmap option" where
  "Pool_Create mem P initSize =
    (if initSize \<le> MAX_POOL_SIZE then
       let i = size_to_pool initSize in
       case vp_objects P i of
         vm # rest \<Rightarrow>
           (P\<lparr>vp_objects := (vp_objects P)(i := rest), vp_count := (vp_count P)(i := vp_count P i - 1)\<rparr>,
            Some (vm\<lparr>vm_dataSize := B_ERROR, vm_size := 0\<rparr>))
       | [] \<Rightarrow> (P, if mem (pool_to_size i) then Some (Construct (pool_to_size i)) else None)
     else (P, if mem initSize then Some (Construct initSize) else None))"

definition Pool_Delete :: "vpool \<Rightarrow> bvmap \<Rightarrow> vpool" where
  "Pool_Delete P vm =
    (let vm = Destroy vm in
     if vm_avail vm \<le> MAX_POOL_SIZE then
       let i = size_to_pool (vm_avail vm) in
       if vp_count P i \<le> max_in_pool i then
         P\<lparr>vp_objects := (vp_objects P)(i := vm # vp_objects P i), vp_count := (vp_count P)(i := vp_count P i + 1)\<rparr>
       else P
     else P)"

section \<open>Searching\<close>

text \<open>
  The loop of both \<^verbatim>\<open>GetIndexOf\<close>: \<open>c\<close> compares the pair at a position with what is looked for. The
  pairs are the constructed cells of the array.
\<close>

function map_search :: "(spair \<Rightarrow> int) \<Rightarrow> spair list \<Rightarrow> int \<Rightarrow> int \<Rightarrow> bool \<times> nat" where
  "map_search c ps low high =
    (if low \<le> high then
       (let mid = (low + high) div 2; cmp = c (ps ! nat mid) in
        if cmp > 0 then map_search c ps low (mid - 1)
        else if cmp < 0 then map_search c ps (mid + 1) high
        else (True, nat mid))
     else (False, nat low))"
  by pat_completeness auto

termination
  by (relation "measure (\<lambda>(_, _, low, high). nat (high - low + 1))") auto

declare map_search.simps [simp del]

definition GetIndexOf :: "spair list \<Rightarrow> sval \<Rightarrow> sval \<Rightarrow> bool \<times> nat" where
  "GetIndexOf ps k v = map_search (\<lambda>p. compare_map (fst p) (snd p) k v) ps 0 (int (length ps) - 1)"

definition GetIndexOf_data :: "spair list \<Rightarrow> u32 \<Rightarrow> u8 list \<Rightarrow> bool \<times> nat" where
  "GetIndexOf_data ps type d = map_search (\<lambda>p. compare_packed (fst p) type d) ps 0 (int (length ps) - 1)"

definition IndexFor :: "spair list \<Rightarrow> sval \<Rightarrow> sval \<Rightarrow> int" where
  "IndexFor ps key value = (case GetIndexOf ps key value of (True, i) \<Rightarrow> int i | _ \<Rightarrow> B_NAME_NOT_FOUND)"

definition IndexFor_data :: "spair list \<Rightarrow> u32 \<Rightarrow> u8 list \<Rightarrow> int" where
  "IndexFor_data ps type d = (case GetIndexOf_data ps type d of (True, i) \<Rightarrow> int i | _ \<Rightarrow> B_NAME_NOT_FOUND)"

section \<open>The arrays\<close>

definition cell :: "spair option list \<Rightarrow> nat \<Rightarrow> spair option" where
  "cell cs i = (if i < length cs then cs ! i else None)"

definition move_cells :: "spair option list \<Rightarrow> nat \<Rightarrow> spair option list \<Rightarrow> nat \<Rightarrow> nat \<Rightarrow> spair option list" where
  "move_cells dst to src at n = map (\<lambda>j. if to \<le> j \<and> j < to + n then cell src (at + (j - to)) else dst ! j) [0..<length dst]"

definition live :: "bvmap \<Rightarrow> spair list" where
  "live m = map the (take (vm_size m) (vm_maps m))"

definition IsEditing :: "bvmap \<Rightarrow> bool" where "IsEditing m \<longleftrightarrow> vm_editIndex m \<ge> 0"

definition Map_Clone :: "(nat \<Rightarrow> bool) \<Rightarrow> vpool \<Rightarrow> bvmap \<Rightarrow> vpool \<times> bvmap option" where
  "Map_Clone mem P m =
    (case Pool_Create mem P (vm_size m) of
       (P, Some vm) \<Rightarrow>
         (P, Some (vm\<lparr>vm_dataSize := vm_dataSize m, vm_size := vm_size m,
                     vm_maps := move_cells (vm_maps vm) 0 (vm_maps m) 0 (vm_size m)\<rparr>))
     | (P, None) \<Rightarrow> (P, None))"

definition SetFirstMap :: "bvmap \<Rightarrow> sval \<Rightarrow> sval \<Rightarrow> bvmap" where
  "SetFirstMap m key value = m\<lparr>vm_maps := (vm_maps m)[0 := Some (key, value)], vm_size := 1, vm_dataSize := B_ERROR\<rparr>"

definition AddMapAt :: "(nat \<Rightarrow> bool) \<Rightarrow> vpool \<Rightarrow> bvmap \<Rightarrow> nat \<Rightarrow> sval \<Rightarrow> sval \<Rightarrow> vpool \<times> bvmap \<times> int" where
  "AddMapAt mem P m index key value =
    (let size = vm_size m;
         put = (\<lambda>m. m\<lparr>vm_maps := (vm_maps m)[index := Some (key, value)], vm_size := size + 1\<rparr>)
     in if size \<ge> vm_avail m then
          (case Pool_Create mem P (((size + 1) * 3) div 2) of
             (P, None) \<Rightarrow> (P, m, B_NO_MEMORY)
           | (P, Some big) \<Rightarrow>
               let dst = vm_maps big; cur = vm_maps m;
                   dst = (if index \<ge> size then move_cells dst 0 cur 0 size
                          else move_cells (if index > 0 then move_cells dst 0 cur 0 index else dst)
                                 (index + 1) cur index (size - index));
                   P = Pool_Delete P (m\<lparr>vm_size := 0\<rparr>)
               in (P, put (big\<lparr>vm_maps := dst\<rparr>), int index))
        else if index < size then
          (P, put (m\<lparr>vm_maps := move_cells (vm_maps m) (index + 1) (vm_maps m) index (size - index)\<rparr>), int index)
        else (P, put m, int index))"

definition AddNewMap :: "(nat \<Rightarrow> bool) \<Rightarrow> vpool \<Rightarrow> bvmap \<Rightarrow> sval \<Rightarrow> sval \<Rightarrow> (vpool \<times> bvmap \<times> int) option" where
  "AddNewMap mem P m key value =
    (if IsEditing m then None
     else if is_defined value \<and> is_defined key \<and> (\<not> is_wild value \<or> \<not> is_wild key) then
       (case GetIndexOf (live m) key value of
          (False, index) \<Rightarrow> Some (AddMapAt mem P (m\<lparr>vm_dataSize := B_ERROR\<rparr>) index key value)
        | (True, _) \<Rightarrow> Some (P, m, B_NAME_IN_USE))
     else Some (P, m, B_BAD_VALUE))"

definition RemoveMapAt :: "(nat \<Rightarrow> bool) \<Rightarrow> vpool \<Rightarrow> bvmap \<Rightarrow> nat \<Rightarrow> vpool \<times> bvmap" where
  "RemoveMapAt mem P m index =
    (let cs = (vm_maps m)[index := None];
         size = vm_size m - 1;
         in_place = m\<lparr>vm_maps := (if index < size then move_cells cs index cs (index + 1) (size - index) else cs),
                      vm_size := size, vm_dataSize := B_ERROR\<rparr>
     in if size * 4 < vm_avail m \<and> size > 0 then
          (case Pool_Create mem P (size * 2) of
             (P, Some big) \<Rightarrow>
               let dst = vm_maps big;
                   dst = (if index \<ge> size then move_cells dst 0 cs index size
                          else move_cells (if index > 0 then move_cells dst 0 cs index index else dst)
                                 index cs (index + index + 1) (size - index))
               in (Pool_Delete P (m\<lparr>vm_maps := cs, vm_size := 0\<rparr>),
                   big\<lparr>vm_maps := dst, vm_size := size, vm_dataSize := B_ERROR\<rparr>)
           | (P, None) \<Rightarrow> (P, in_place))
        else (P, in_place))"

definition RemoveMap :: "(nat \<Rightarrow> bool) \<Rightarrow> vpool \<Rightarrow> bvmap \<Rightarrow> sval \<Rightarrow> sval \<Rightarrow> (vpool \<times> bvmap \<times> int) option" where
  "RemoveMap mem P m key value =
    (if IsEditing m then None
     else if \<not> is_wild key \<or> \<not> is_wild value then
       (case GetIndexOf (live m) key value of
          (True, index) \<Rightarrow> (case RemoveMapAt mem P m index of (P, m) \<Rightarrow> Some (P, m, B_OK))
        | (False, _) \<Rightarrow> Some (P, m, B_NAME_NOT_FOUND))
     else Some (P, (Destroy m)\<lparr>vm_size := 0, vm_dataSize := B_ERROR\<rparr>, B_NAME_NOT_FOUND))"

definition RenameMap :: "(nat \<Rightarrow> bool) \<Rightarrow> vpool \<Rightarrow> bvmap \<Rightarrow> sval \<Rightarrow> sval \<Rightarrow> (vpool \<times> bvmap \<times> int) option" where
  "RenameMap mem P m old_key new_key =
    (if IsEditing m then None
     else if \<not> is_wild old_key \<and> is_defined old_key \<and> is_specified new_key then
       (case GetIndexOf (live m) old_key SWild of
          (True, old_index) \<Rightarrow>
            (let value = snd (live m ! old_index) in
             case GetIndexOf (live m) new_key value of
               (False, new_index) \<Rightarrow>
                 (case RemoveMapAt mem P m old_index of
                    (P, m) \<Rightarrow>
                      (case AddMapAt mem P m (if new_index > old_index then new_index - 1 else new_index) new_key value of
                         (P, m, error) \<Rightarrow> Some (P, m\<lparr>vm_dataSize := B_ERROR\<rparr>, if error < B_OK then error else B_OK)))
             | (True, _) \<Rightarrow> Some (P, m, B_NAME_IN_USE))
        | (False, _) \<Rightarrow> Some (P, m, B_NAME_NOT_FOUND))
     else Some (P, m, B_BAD_VALUE))"

text \<open>
  Between \<^verbatim>\<open>BeginEditMapAt\<close> and \<^verbatim>\<open>EndEditMapAt\<close> the caller changes the value through the pointer the
  first returns; \<open>store_edited\<close> is what such a change leaves.
\<close>

definition BeginEditMapAt :: "bvmap \<Rightarrow> nat \<Rightarrow> bvmap option" where
  "BeginEditMapAt m index = (if vm_editIndex m \<ge> 0 then None else Some (m\<lparr>vm_editIndex := int index\<rparr>))"

definition store_edited :: "bvmap \<Rightarrow> sval \<Rightarrow> bvmap" where
  "store_edited m v =
    (let i = nat (vm_editIndex m) in m\<lparr>vm_maps := (vm_maps m)[i := map_option (\<lambda>(k, _). (k, v)) (cell (vm_maps m) i)]\<rparr>)"

definition EndEditMapAt :: "(nat \<Rightarrow> bool) \<Rightarrow> vpool \<Rightarrow> bvmap \<Rightarrow> (vpool \<times> bvmap) option" where
  "EndEditMapAt mem P m =
    (if vm_editIndex m < 0 then None
     else
       let index = nat (vm_editIndex m); m = m\<lparr>vm_editIndex := -1, vm_dataSize := B_ERROR\<rparr> in
       case cell (vm_maps m) index of
         None \<Rightarrow> None
       | Some (_, v) \<Rightarrow> if \<not> is_defined v then Some (RemoveMapAt mem P m index) else Some (P, m))"

section \<open>The pool keeps its invariant\<close>

definition map_ok :: "bvmap \<Rightarrow> bool" where
  "map_ok m \<longleftrightarrow> length (vm_maps m) = vm_avail m \<and> vm_size m \<le> vm_avail m \<and> vm_editIndex m < 0 \<and>
     vm_avail m \<in> {1, 3, 6} \<union> {7..}"

definition slot_ok :: "nat \<Rightarrow> bvmap list \<Rightarrow> nat \<Rightarrow> bool" where
  "slot_ok i vms n \<longleftrightarrow> n = length vms \<and> n \<le> max_in_pool i + 1 \<and> (\<forall>m\<in>set vms. map_ok m \<and> vm_avail m = pool_to_size i)"

definition pool_ok :: "vpool \<Rightarrow> bool" where
  "pool_ok P \<longleftrightarrow> (\<forall>i<3. slot_ok i (vp_objects P i) (vp_count P i))"

lemma pool_ok_update:
  assumes "pool_ok P" "slot_ok i vms n"
  shows "pool_ok (P\<lparr>vp_objects := (vp_objects P)(i := vms), vp_count := (vp_count P)(i := n)\<rparr>)"
  using assms by (simp add: pool_ok_def)

lemmas pool_tables = size_to_pool_def pool_to_size_def max_in_pool_def MAX_POOL_SIZE_def

lemma size_to_pool_cases:
  assumes "n \<le> 6"
  shows "size_to_pool n < 3" "n \<le> pool_to_size (size_to_pool n)"
proof -
  have "n \<in> {0, 1, 2, 3, 4, 5, 6}" using assms by auto
  then show "size_to_pool n < 3" "n \<le> pool_to_size (size_to_pool n)" by (auto simp: pool_tables)
qed

lemma map_ok_Construct: "n \<in> {1, 3, 6} \<union> {7..} \<Longrightarrow> map_ok (Construct n)"
  by (auto simp: map_ok_def Construct_def max_def)

lemma Construct_fields [simp]:
  "vm_avail (Construct n) = n" "vm_size (Construct n) = 0" "vm_dataSize (Construct n) = B_ERROR"
  by (simp_all add: Construct_def)

lemma Pool_Create_ok:
  assumes "pool_ok P" "Pool_Create mem P n = (P', r)"
  shows "pool_ok P'" "r = Some m \<Longrightarrow> map_ok m \<and> n \<le> vm_avail m \<and> vm_size m = 0 \<and> vm_dataSize m = B_ERROR"
    "(\<forall>k. mem k) \<Longrightarrow> r \<noteq> None"
proof -
  let ?i = "size_to_pool n"
  have "pool_ok P' \<and> (r = Some m \<longrightarrow> map_ok m \<and> n \<le> vm_avail m \<and> vm_size m = 0 \<and> vm_dataSize m = B_ERROR) \<and>
    ((\<forall>k. mem k) \<longrightarrow> r \<noteq> None)"
  proof (cases "n \<le> 6")
    case True
    note c = size_to_pool_cases [OF True]
    have ok: "slot_ok ?i (vp_objects P ?i) (vp_count P ?i)" using assms(1) c(1) by (simp add: pool_ok_def)
    show ?thesis
    proof (cases "vp_objects P ?i")
      case Nil
      have "pool_to_size ?i \<in> {1, 3, 6} \<union> {7..}" using c(1) by (auto simp: pool_to_size_def nth_Cons' less_Suc_eq numeral_eq_Suc)
      from map_ok_Construct [OF this] show ?thesis
        using True Nil assms c(2) by (auto simp: Pool_Create_def MAX_POOL_SIZE_def Let_def split: if_splits)
    next
      case (Cons vm rest)
      have "P' = P\<lparr>vp_objects := (vp_objects P)(?i := rest), vp_count := (vp_count P)(?i := vp_count P ?i - 1)\<rparr>"
        "r = Some (vm\<lparr>vm_dataSize := B_ERROR, vm_size := 0\<rparr>)"
        using True Cons assms(2) by (simp_all add: Pool_Create_def MAX_POOL_SIZE_def Let_def)
      moreover have "slot_ok ?i rest (vp_count P ?i - 1)" using ok Cons by (auto simp: slot_ok_def)
      moreover have "map_ok vm" "n \<le> vm_avail vm" using ok Cons c(2) by (auto simp: slot_ok_def)
      ultimately show ?thesis using pool_ok_update [OF assms(1)] by (auto simp: map_ok_def)
    qed
  next
    case False
    then have "n \<in> {1, 3, 6} \<union> {7..}" by simp
    from map_ok_Construct [OF this] show ?thesis
      using False assms by (auto simp: Pool_Create_def MAX_POOL_SIZE_def Let_def split: if_splits)
  qed
  then show "pool_ok P'" "r = Some m \<Longrightarrow> map_ok m \<and> n \<le> vm_avail m \<and> vm_size m = 0 \<and> vm_dataSize m = B_ERROR"
    "(\<forall>k. mem k) \<Longrightarrow> r \<noteq> None" by blast+
qed

lemma Pool_Delete_ok:
  assumes "pool_ok P" "map_ok m"
  shows "pool_ok (Pool_Delete P m)"
proof -
  have d: "map_ok (Destroy m)" "vm_avail (Destroy m) = vm_avail m"
    using assms(2) by (auto simp: map_ok_def Destroy_def)
  show ?thesis
  proof (cases "vm_avail m \<le> 6 \<and> vp_count P (size_to_pool (vm_avail m)) \<le> max_in_pool (size_to_pool (vm_avail m))")
    case True
    let ?i = "size_to_pool (vm_avail m)"
    have "vm_avail m \<in> {1, 3, 6}" using assms(2) True by (auto simp: map_ok_def)
    then have "?i < 3" "vm_avail m = pool_to_size ?i" by (auto simp: pool_tables)
    moreover have "slot_ok ?i (vp_objects P ?i) (vp_count P ?i)" using assms(1) calculation(1) by (simp add: pool_ok_def)
    ultimately have "slot_ok ?i (Destroy m # vp_objects P ?i) (vp_count P ?i + 1)" using d True by (simp add: slot_ok_def)
    from pool_ok_update [OF assms(1) this] show ?thesis
      using True d(2) by (simp add: Pool_Delete_def Let_def MAX_POOL_SIZE_def)
  next
    case False
    then show ?thesis using assms(1) d(2) by (auto simp: Pool_Delete_def Let_def MAX_POOL_SIZE_def)
  qed
qed

section \<open>Binary search\<close>

text \<open>What the search owes for a comparison that changes its sign once along the array.\<close>

definition splits :: "(spair \<Rightarrow> int) \<Rightarrow> spair list \<Rightarrow> bool" where
  "splits c ps \<longleftrightarrow> (\<forall>i j. i < j \<and> j < length ps \<longrightarrow> (c (ps ! j) \<le> 0 \<longrightarrow> c (ps ! i) < 0) \<and> (0 \<le> c (ps ! i) \<longrightarrow> 0 < c (ps ! j)))"

definition search_result :: "(spair \<Rightarrow> int) \<Rightarrow> spair list \<Rightarrow> bool \<times> nat \<Rightarrow> bool" where
  "search_result c ps r \<longleftrightarrow>
    (let (found, p) = r in p \<le> length ps \<and> (\<forall>j<p. c (ps ! j) < 0) \<and>
       (if found then p < length ps \<and> c (ps ! p) = 0 \<and> (\<forall>j. p < j \<and> j < length ps \<longrightarrow> 0 < c (ps ! j))
        else \<forall>j. p \<le> j \<and> j < length ps \<longrightarrow> 0 < c (ps ! j)))"

lemma map_search_result:
  assumes "splits c ps" "0 \<le> low" "low \<le> high + 1" "high < int (length ps)"
    and "\<And>j. j < length ps \<Longrightarrow> int j < low \<Longrightarrow> c (ps ! j) < 0"
    and "\<And>j. j < length ps \<Longrightarrow> high < int j \<Longrightarrow> 0 < c (ps ! j)"
  shows "search_result c ps (map_search c ps low high)"
  using assms
proof (induction c ps low high rule: map_search.induct)
  case (1 c ps low high)
  show ?case
  proof (cases "low \<le> high")
    case False
    with "1.prems" show ?thesis by (auto simp: map_search.simps [of c ps low high] search_result_def)
  next
    case True
    define mid where "mid = (low + high) div 2"
    have mid: "low \<le> mid" "mid \<le> high" "nat mid < length ps" "int (nat mid) = mid"
      using True "1.prems"(2,4) by (auto simp: mid_def)
    have s: "c (ps ! j) \<le> 0 \<Longrightarrow> c (ps ! i) < 0" "0 \<le> c (ps ! i) \<Longrightarrow> 0 < c (ps ! j)" if "i < j" "j < length ps" for i j
      using "1.prems"(1) that by (auto simp: splits_def)
    have step: "map_search c ps low high = (if c (ps ! nat mid) > 0 then map_search c ps low (mid - 1)
        else if c (ps ! nat mid) < 0 then map_search c ps (mid + 1) high else (True, nat mid))"
      using True by (simp add: map_search.simps [of c ps low high] mid_def Let_def)
    consider "c (ps ! nat mid) > 0" | "c (ps ! nat mid) < 0" | "c (ps ! nat mid) = 0" by linarith
    then show ?thesis
    proof cases
      case 1
      have "0 < c (ps ! j)" if "j < length ps" "mid - 1 < int j" for j
        using that 1 s(2) [of "nat mid" j] mid by (cases "j = nat mid") auto
      with 1 "1.IH"(1) [OF True mid_def refl] "1.prems" mid step show ?thesis by simp
    next
      case 2
      have "c (ps ! j) < 0" if "j < length ps" "int j < mid + 1" for j
        using that 2 s(1) [of j "nat mid"] mid by (cases "j = nat mid") auto
      with 2 "1.IH"(2) [OF True mid_def refl] "1.prems" mid have "search_result c ps (map_search c ps (mid + 1) high)" by simp
      with 2 step show ?thesis by simp
    next
      case 3
      then show ?thesis using s [of _ "nat mid"] s [of "nat mid"] mid step by (auto simp: search_result_def)
    qed
  qed
qed

lemma map_search_found:
  "map_search c ps low high = (True, i) \<Longrightarrow> 0 \<le> low \<Longrightarrow> high < int (length ps) \<Longrightarrow> i < length ps \<and> c (ps ! i) = 0"
proof (induction c ps low high rule: map_search.induct)
  case (1 c ps low high)
  then show ?case
    by (subst (asm) map_search.simps) (auto simp: Let_def split: if_splits)
qed

section \<open>The arrays represent lists of pairs\<close>

definition vm_rep :: "bvmap \<Rightarrow> spair list \<Rightarrow> bool" where
  "vm_rep m ps \<longleftrightarrow> map_ok m \<and> vm_size m = length ps \<and> (\<forall>i<length ps. vm_maps m ! i = Some (ps ! i))"

lemma live_rep: "vm_rep m ps \<Longrightarrow> live m = ps"
  by (auto simp: vm_rep_def map_ok_def live_def intro!: nth_equalityI)

lemma length_move_cells [simp]: "length (move_cells dst to src at n) = length dst"
  by (simp add: move_cells_def)

lemma nth_move_cells [simp]:
  "j < length dst \<Longrightarrow> move_cells dst to src at n ! j = (if to \<le> j \<and> j < to + n then cell src (at + (j - to)) else dst ! j)"
  by (simp add: move_cells_def)

lemma cell_rep: "vm_rep m ps \<Longrightarrow> i < length ps \<Longrightarrow> cell (vm_maps m) i = Some (ps ! i)"
  by (simp add: vm_rep_def map_ok_def cell_def)

lemma insert_nth:
  assumes "index \<le> length ps" "i < Suc (length ps)"
  shows "(take index ps @ p # drop index ps) ! i = (if i < index then ps ! i else if i = index then p else ps ! (i - 1))"
  using assms by (auto simp: nth_append min_def nth_Cons')

lemma remove_nth:
  assumes "index < length ps" "i < length ps - 1"
  shows "(take index ps @ drop (Suc index) ps) ! i = (if i < index then ps ! i else ps ! Suc i)"
  using assms by (auto simp: nth_append min_def)

lemma AddMapAt_rep:
  assumes rep: "vm_rep m ps" and P: "pool_ok P" and i: "index \<le> length ps"
    and r: "AddMapAt mem P m index k v = (P', m', e)"
  shows "pool_ok P' \<and> (if e = int index then vm_rep m' (take index ps @ (k, v) # drop index ps) else m' = m \<and> e = B_NO_MEMORY)"
    and "(\<forall>n. mem n) \<Longrightarrow> e = int index"
proof -
  let ?qs = "take index ps @ (k, v) # drop index ps"
  have len: "length ?qs = Suc (length ps)" using i by simp
  have m: "map_ok m" "vm_size m = length ps" "length (vm_maps m) = vm_avail m" "length ps \<le> vm_avail m"
    using rep by (auto simp: vm_rep_def map_ok_def)
  note c = cell_rep [OF rep] and q = insert_nth [OF i, of _ "(k, v)"]
  have "(pool_ok P' \<and> (if e = int index then vm_rep m' ?qs else m' = m \<and> e = B_NO_MEMORY)) \<and> ((\<forall>n. mem n) \<longrightarrow> e = int index)"
  proof (cases "vm_avail m \<le> length ps")
    case full: True
    obtain P1 r1 where cr: "Pool_Create mem P ((Suc (length ps) * 3) div 2) = (P1, r1)" by fastforce
    show ?thesis
    proof (cases r1)
      case None
      then have "P' = P1" "m' = m" "e = B_NO_MEMORY" using r full cr m by (auto simp: AddMapAt_def)
      then show ?thesis using Pool_Create_ok [OF P cr] None by auto
    next
      case (Some big)
      note b = Pool_Create_ok(2) [OF P cr Some]
      have room: "length ps < vm_avail big" using b by auto
      have P': "P' = Pool_Delete P1 (m\<lparr>vm_size := 0\<rparr>)" "e = int index"
        using r full cr m Some by (auto simp: AddMapAt_def Let_def)
      have m': "m' = big\<lparr>vm_maps := (if length ps \<le> index then move_cells (vm_maps big) 0 (vm_maps m) 0 (length ps)
           else move_cells (if index > 0 then move_cells (vm_maps big) 0 (vm_maps m) 0 index else vm_maps big)
             (index + 1) (vm_maps m) index (length ps - index))[index := Some (k, v)], vm_size := length ps + 1\<rparr>"
        using r full cr m Some by (simp add: AddMapAt_def Let_def)
      have "map_ok (m\<lparr>vm_size := 0\<rparr>)" using m(1) by (simp add: map_ok_def)
      then have "pool_ok P'" using Pool_Delete_ok Pool_Create_ok(1) [OF P cr] P'(1) by blast
      moreover have "vm_rep m' ?qs"
        unfolding vm_rep_def len
      proof (intro conjI allI impI)
        show "map_ok m'" using b room by (auto simp: m' map_ok_def)
        fix j assume j: "j < Suc (length ps)"
        have "length (vm_maps big) = vm_avail big" using b by (simp add: map_ok_def)
        then show "vm_maps m' ! j = Some (?qs ! j)"
          using room j i q [OF j] c by (auto simp: m' nth_list_update)
      qed (simp add: m')
      ultimately show ?thesis using P'(2) by simp
    qed
  next
    case room: False
    have P': "P' = P" "e = int index" using r room m by (auto simp: AddMapAt_def Let_def split: if_splits)
    have m': "m' = m\<lparr>vm_maps := (if index < length ps then move_cells (vm_maps m) (index + 1) (vm_maps m) index (length ps - index)
         else vm_maps m)[index := Some (k, v)], vm_size := length ps + 1\<rparr>"
      using r room m by (auto simp: AddMapAt_def Let_def split: if_splits)
    have "vm_rep m' ?qs"
      unfolding vm_rep_def len
    proof (intro conjI allI impI)
      show "map_ok m'" using m room by (auto simp: m' map_ok_def)
      fix j assume j: "j < Suc (length ps)"
      have "vm_maps m ! j = Some (ps ! j)" if "j < length ps" using rep that by (simp add: vm_rep_def)
      then show "vm_maps m' ! j = Some (?qs ! j)"
        using room m(3) j i q [OF j] c by (auto simp: m' nth_list_update)
    qed (simp add: m')
    then show ?thesis using P P' by simp
  qed
  then show "pool_ok P' \<and> (if e = int index then vm_rep m' ?qs else m' = m \<and> e = B_NO_MEMORY)"
    "(\<forall>n. mem n) \<Longrightarrow> e = int index" by blast+
qed

definition remove_at :: "nat \<Rightarrow> 'a list \<Rightarrow> 'a list" where
  "remove_at i xs = take i xs @ drop (Suc i) xs"

lemma length_remove_at [simp]: "i < length xs \<Longrightarrow> length (remove_at i xs) = length xs - 1"
  by (simp add: remove_at_def)

text \<open>When \<^verbatim>\<open>RemoveMapAt\<close> moves the remaining pairs to a smaller array.\<close>

definition compacts :: "bvmap \<Rightarrow> bool" where
  "compacts m \<longleftrightarrow> (vm_size m - 1) * 4 < vm_avail m \<and> vm_size m - 1 > 0"

lemma RemoveMapAt_in_place:
  assumes rep: "vm_rep m ps" and i: "index < length ps"
  shows "vm_rep (m\<lparr>vm_maps := (if index < length ps - 1
      then move_cells ((vm_maps m)[index := None]) index ((vm_maps m)[index := None]) (index + 1) (length ps - 1 - index)
      else (vm_maps m)[index := None]), vm_size := length ps - 1, vm_dataSize := B_ERROR\<rparr>) (remove_at index ps)"
    (is "vm_rep ?m _")
proof -
  have m: "length (vm_maps m) = vm_avail m" "length ps \<le> vm_avail m" "\<forall>i<length ps. vm_maps m ! i = Some (ps ! i)"
    using rep by (auto simp: vm_rep_def map_ok_def)
  show ?thesis
    unfolding vm_rep_def
  proof (intro conjI allI impI)
    show "map_ok ?m" using rep i by (auto simp: vm_rep_def map_ok_def)
    fix j assume j: "j < length (remove_at index ps)"
    with i have j': "j < length ps - 1" by simp
    show "vm_maps ?m ! j = Some (remove_at index ps ! j)"
      using remove_nth [OF i j'] j' m i by (auto simp: remove_at_def cell_def)
  qed (use i in simp)
qed

lemma RemoveMapAt_first:
  assumes rep: "vm_rep m ps" and b: "map_ok big" "length ps - 1 \<le> vm_avail big" and ps: "0 < length ps"
  shows "vm_rep (big\<lparr>vm_maps := move_cells (vm_maps big) 0 ((vm_maps m)[0 := None]) 1 (length ps - 1),
     vm_size := length ps - 1, vm_dataSize := B_ERROR\<rparr>) (remove_at 0 ps)"
    (is "vm_rep ?m _")
proof -
  have m: "length (vm_maps m) = vm_avail m" "length ps \<le> vm_avail m" "\<forall>i<length ps. vm_maps m ! i = Some (ps ! i)"
    using rep by (auto simp: vm_rep_def map_ok_def)
  show ?thesis
    unfolding vm_rep_def
  proof (intro conjI allI impI)
    show "map_ok ?m" using b by (auto simp: map_ok_def)
    fix j assume "j < length (remove_at 0 ps)"
    with ps have j: "j < length ps - 1" by simp
    then have "cell ((vm_maps m)[0 := None]) (Suc j) = Some (ps ! Suc j)" using m by (simp add: cell_def)
    moreover have "j < length (vm_maps big)" using j b by (simp add: map_ok_def)
    ultimately show "vm_maps ?m ! j = Some (remove_at 0 ps ! j)"
      using j by (simp add: remove_at_def)
  qed (use ps in simp)
qed

lemma RemoveMapAt_result:
  assumes rep: "vm_rep m ps" and P: "pool_ok P" and i: "index < length ps"
    and r: "RemoveMapAt mem P m index = (P', m')"
  shows "pool_ok P'"
    "index = 0 \<or> \<not> compacts m \<Longrightarrow> vm_rep m' (remove_at index ps)"
    "index > 0 \<Longrightarrow> compacts m \<Longrightarrow> \<forall>n. mem n \<Longrightarrow> \<nexists>qs. vm_rep m' qs"
proof -
  have m: "map_ok m" "vm_size m = length ps" "length (vm_maps m) = vm_avail m" "length ps \<le> vm_avail m"
    using rep by (auto simp: vm_rep_def map_ok_def)
  let ?cs = "(vm_maps m)[index := None]"
  note in_place = RemoveMapAt_in_place [OF rep i]
  have "pool_ok P' \<and> (index = 0 \<or> \<not> compacts m \<longrightarrow> vm_rep m' (remove_at index ps)) \<and>
     (index > 0 \<and> compacts m \<and> (\<forall>n. mem n) \<longrightarrow> (\<nexists>qs. vm_rep m' qs))"
  proof (cases "compacts m")
    case False
    then show ?thesis using r in_place P m by (auto simp: RemoveMapAt_def Let_def compacts_def)
  next
    case True
    obtain P1 r1 where cr: "Pool_Create mem P ((length ps - 1) * 2) = (P1, r1)" by fastforce
    show ?thesis
    proof (cases r1)
      case None
      then show ?thesis
        using r in_place True m cr Pool_Create_ok(1,3) [OF P cr] by (auto simp: RemoveMapAt_def Let_def compacts_def)
    next
      case (Some big)
      note b = Pool_Create_ok(2) [OF P cr Some]
      have P': "P' = Pool_Delete P1 (m\<lparr>vm_maps := ?cs, vm_size := 0\<rparr>)"
        and m': "m' = big\<lparr>vm_maps := (if index \<ge> length ps - 1 then move_cells (vm_maps big) 0 ?cs index (length ps - 1)
           else move_cells (if index > 0 then move_cells (vm_maps big) 0 ?cs index index else vm_maps big)
              index ?cs (index + index + 1) (length ps - 1 - index)), vm_size := length ps - 1, vm_dataSize := B_ERROR\<rparr>"
        using r True m cr Some by (auto simp: RemoveMapAt_def Let_def compacts_def)
      have "map_ok (m\<lparr>vm_maps := ?cs, vm_size := 0\<rparr>)" using m(1) by (simp add: map_ok_def)
      then have "pool_ok P'" using Pool_Delete_ok Pool_Create_ok(1) [OF P cr] P' by blast
      moreover have "vm_rep m' (remove_at index ps)" if "index = 0"
        using RemoveMapAt_first [OF rep, of big] b True i that m by (simp add: m' compacts_def)
      moreover have "\<not> vm_rep m' qs" if "index > 0" for qs
      proof -
        have "0 < length ps - 1" "0 < length (vm_maps big)" using True m b by (auto simp: compacts_def map_ok_def)
        then have "vm_maps m' ! 0 = None" "vm_size m' = length ps - 1" using that m' i m by (auto simp: cell_def)
        then show ?thesis using \<open>0 < length ps - 1\<close> by (auto simp: vm_rep_def intro!: exI [of _ 0])
      qed
      ultimately show ?thesis using True by blast
    qed
  qed
  then show "pool_ok P'" "index = 0 \<or> \<not> compacts m \<Longrightarrow> vm_rep m' (remove_at index ps)"
    "index > 0 \<Longrightarrow> compacts m \<Longrightarrow> \<forall>n. mem n \<Longrightarrow> \<nexists>qs. vm_rep m' qs" by blast+
qed

section \<open>Maps as sorted lists\<close>

definition add_pair :: "spair list \<Rightarrow> sval \<Rightarrow> sval \<Rightarrow> spair list \<times> int" where
  "add_pair ps key value =
    (if is_defined value \<and> is_defined key \<and> (\<not> is_wild value \<or> \<not> is_wild key) then
       (case GetIndexOf ps key value of
          (False, i) \<Rightarrow> (take i ps @ (key, value) # drop i ps, int i)
        | (True, _) \<Rightarrow> (ps, B_NAME_IN_USE))
     else (ps, B_BAD_VALUE))"

definition sorted_pairs :: "spair list \<Rightarrow> bool" where
  "sorted_pairs ps \<longleftrightarrow> sorted_by item_order ps \<and> list_all item_ok ps"

lemma splits_compare_map:
  assumes "sorted_pairs ps" "item_ok (k, v)"
  shows "splits (\<lambda>p. compare_map (fst p) (snd p) k v) ps"
proof -
  have e: "compare_map (fst p) (snd p) k v = item_order p (k, v)" if "p \<in> set ps" for p
    using assms that compare_map_item_order [of "fst p" "snd p" k v] by (auto simp: sorted_pairs_def list_all_iff)
  have "item_order (ps ! i) (ps ! j) < 0" if "i < j" "j < length ps" for i j
    using assms(1) that item_order.sorted_nth_less by (simp add: sorted_pairs_def)
  then have lt: "item_order (ps ! i) (ps ! j) < 0" if "i < j" "j < length ps" for i j using that by blast
  show ?thesis
    unfolding splits_def
  proof (intro allI impI conjI)
    fix i j
    assume ij: "i < j \<and> j < length ps"
    note l = lt [of i j] and c = e [of "ps ! i"] e [of "ps ! j"]
    show "compare_map (fst (ps ! i)) (snd (ps ! i)) k v < 0" if "compare_map (fst (ps ! j)) (snd (ps ! j)) k v \<le> 0"
      using that ij l c item_order.less_trans_le by simp
    show "0 < compare_map (fst (ps ! j)) (snd (ps ! j)) k v" if "0 \<le> compare_map (fst (ps ! i)) (snd (ps ! i)) k v"
      using that ij l c item_order_antisym [of "(k, v)"] item_order.le_trans_less [of "(k, v)" "ps ! i" "ps ! j"] by simp
  qed
qed

lemma GetIndexOf_result:
  assumes "sorted_pairs ps" "item_ok (k, v)" "GetIndexOf ps k v = (found, i)"
  shows "order_result item_order ps (k, v) found i"
proof -
  have "search_result (\<lambda>p. compare_map (fst p) (snd p) k v) ps (found, i)"
    unfolding assms(3) [unfolded GetIndexOf_def, symmetric]
    by (rule map_search_result [OF splits_compare_map [OF assms(1,2)]]) auto
  moreover have "compare_map (fst (ps ! j)) (snd (ps ! j)) k v = item_order (ps ! j) (k, v)" if "j < length ps" for j
    using assms(1,2) that compare_map_item_order [of "fst (ps ! j)" "snd (ps ! j)" k v] by (auto simp: sorted_pairs_def list_all_length)
  ultimately show ?thesis
    by (auto simp: search_result_def order_result_def item_order_antisym [of "(k, v)"] split: if_splits)
qed

lemma GetIndexOf_found:
  assumes "GetIndexOf ps k v = (True, i)"
  shows "i < length ps" "compare_map (fst (ps ! i)) (snd (ps ! i)) k v = 0"
  using map_search_found [OF assms [unfolded GetIndexOf_def]] by auto

context comparator
begin

lemma order_result_found:
  assumes "order_result cmp xs x found p"
  shows "found \<longleftrightarrow> (\<exists>y\<in>set xs. cmp y x = 0)"
proof
  assume found
  with assms have "p < length xs" "cmp (xs ! p) x = 0" by (auto simp: order_result_def cmp_eq_sym [of x])
  then show "\<exists>y\<in>set xs. cmp y x = 0" by auto
next
  assume "\<exists>y\<in>set xs. cmp y x = 0"
  then obtain j where j: "j < length xs" "cmp (xs ! j) x = 0" by (auto simp: in_set_conv_nth)
  show found
  proof (rule ccontr)
    assume "\<not> found"
    then have "cmp (xs ! j) x < 0 \<or> cmp x (xs ! j) < 0"
      using assms j(1) by (cases "j < p") (auto simp: order_result_def)
    then show False using j(2) cmp_eq_sym [of x "xs ! j"] by auto
  qed
qed

end

lemma add_pair_sorted:
  assumes "sorted_pairs ps" "item_ok (k, v)"
  shows "sorted_pairs (fst (add_pair ps k v))"
proof -
  obtain found i where g: "GetIndexOf ps k v = (found, i)" by fastforce
  note o = GetIndexOf_result [OF assms g]
  show ?thesis
  proof (cases found)
    case False
    then have "with_element (k, v) found i ps = take i ps @ (k, v) # drop i ps" by (simp add: with_element_def)
    with item_order.sorted_with_element [OF _ o] have "sorted_by item_order (take i ps @ (k, v) # drop i ps)"
      using assms(1) by (simp add: sorted_pairs_def)
    moreover have "list_all item_ok (take i ps @ (k, v) # drop i ps)"
      using assms by (auto simp: sorted_pairs_def list_all_iff dest: in_set_takeD in_set_dropD)
    ultimately show ?thesis using g False assms(1) by (simp add: add_pair_def sorted_pairs_def)
  qed (use g assms in \<open>simp add: add_pair_def\<close>)
qed

lemma AddNewMap_rep:
  assumes rep: "vm_rep m ps" and P: "pool_ok P" and mem: "\<forall>n. mem n"
    and s: "sorted_pairs ps" "item_ok (k, v)"
  shows "\<exists>P' m'. AddNewMap mem P m k v = Some (P', m', snd (add_pair ps k v)) \<and> pool_ok P' \<and> vm_rep m' (fst (add_pair ps k v))"
proof -
  obtain found i where g: "GetIndexOf ps k v = (found, i)" by fastforce
  have ed: "\<not> IsEditing m" using rep by (simp add: vm_rep_def map_ok_def IsEditing_def)
  show ?thesis
  proof (cases "is_defined v \<and> is_defined k \<and> (\<not> is_wild v \<or> \<not> is_wild k) \<and> \<not> found")
    case True
    have rep': "vm_rep (m\<lparr>vm_dataSize := B_ERROR\<rparr>) ps" using rep by (simp add: vm_rep_def map_ok_def)
    have i: "i \<le> length ps" using GetIndexOf_result [OF s g] by (simp add: order_result_def)
    obtain P' m' e where a: "AddMapAt mem P (m\<lparr>vm_dataSize := B_ERROR\<rparr>) i k v = (P', m', e)" by (metis prod_cases3)
    have e: "e = int i" using AddMapAt_rep(2) [OF rep' P i a mem] .
    with AddMapAt_rep(1) [OF rep' P i a] a True g ed show ?thesis
      by (simp add: AddNewMap_def add_pair_def live_rep [OF rep])
  qed (use g rep P ed in \<open>auto simp: AddNewMap_def add_pair_def live_rep [OF rep]\<close>)
qed

section \<open>What the operations do\<close>

text \<open>
  C20. Adding a pair to a map. If memory can be had, \<^verbatim>\<open>AddNewMap\<close> on an array that represents a sorted list of
  pairs gives back an array, and a pool, in good order. Unless the key or the value is undefined, both are
  wild, or a pair of that place is there already, the pair is put in its place: the result is sorted and
  has exactly the old pairs and the new one, at the index that is returned. In the other cases the map
  is unchanged and the status tells which it is.
\<close>

theorem AddNewMap_correct:
  assumes "vm_rep m ps" "pool_ok P" "\<forall>n. mem n" "sorted_pairs ps" "item_ok (k, v)"
  shows "\<exists>P' m' qs r. AddNewMap mem P m k v = Some (P', m', r) \<and> pool_ok P' \<and> vm_rep m' qs \<and> sorted_pairs qs \<and>
    (if \<not> is_defined k \<or> \<not> is_defined v \<or> is_wild k \<and> is_wild v then qs = ps \<and> r = B_BAD_VALUE
     else if \<exists>p\<in>set ps. item_order p (k, v) = 0 then qs = ps \<and> r = B_NAME_IN_USE
     else set qs = insert (k, v) (set ps) \<and> length qs = length ps + 1 \<and> 0 \<le> r \<and> nat r < length qs \<and> qs ! nat r = (k, v))"
proof -
  obtain P' m' where a: "AddNewMap mem P m k v = Some (P', m', snd (add_pair ps k v))" "pool_ok P'" "vm_rep m' (fst (add_pair ps k v))"
    using AddNewMap_rep [OF assms] by blast
  obtain found i where g: "GetIndexOf ps k v = (found, i)" by fastforce
  note o = GetIndexOf_result [OF assms(4,5) g]
  have "found \<longleftrightarrow> (\<exists>p\<in>set ps. item_order p (k, v) = 0)" by (rule item_order.order_result_found [OF o])
  moreover have "set (take i ps @ (k, v) # drop i ps) = insert (k, v) (set ps)"
    by (metis Un_insert_right append_take_drop_id list.simps(15) set_append)
  moreover have "i \<le> length ps" using o by (simp add: order_result_def)
  ultimately show ?thesis
    using a g add_pair_sorted [OF assms(4,5)]
    by (intro exI [of _ P'] exI [of _ m'] exI [of _ "fst (add_pair ps k v)"] exI [of _ "snd (add_pair ps k v)"])
       (auto simp: add_pair_def nth_append)
qed

text \<open>
  C21. Removing a pair from a map. If memory can be had, \<^verbatim>\<open>RemoveMapAt\<close> leaves an array of the remaining
  pairs in their order exactly when the pair is the first one or the array is not compacted. If fewer than a
  quarter of the cells are in use and another pair than the first goes, also the last one, the new, smaller
  array is filled from the wrong place: it has a destroyed pair in its first cell and represents no list of pairs at all.
\<close>

theorem RemoveMapAt_correct_iff:
  assumes "vm_rep m ps" "pool_ok P" "\<forall>n. mem n" "index < length ps"
  shows "if index = 0 \<or> \<not> compacts m then vm_rep (snd (RemoveMapAt mem P m index)) (remove_at index ps)
    else \<nexists>qs. vm_rep (snd (RemoveMapAt mem P m index)) qs"
proof -
  obtain P' m' where r: "RemoveMapAt mem P m index = (P', m')" by fastforce
  show ?thesis using RemoveMapAt_result(2,3) [OF assms(1,2,4) r] assms(3) r by simp
qed

text \<open>Removing all pairs says that nothing was found.\<close>

lemma RemoveMap_all:
  assumes "vm_rep m ps" "is_wild k" "is_wild v"
  shows "\<exists>m'. RemoveMap mem P m k v = Some (P, m', B_NAME_NOT_FOUND) \<and> vm_rep m' []"
  using assms by (auto simp: RemoveMap_def vm_rep_def map_ok_def IsEditing_def Destroy_def)

lemma RemoveMap_rep:
  assumes rep: "vm_rep m ps" and P: "pool_ok P" and q: "\<not> is_wild k \<or> \<not> is_wild v"
    and nc: "GetIndexOf ps k v = (True, 0) \<or> \<not> compacts m"
  shows "\<exists>P' m'. RemoveMap mem P m k v =
      Some (P', m', if fst (GetIndexOf ps k v) then B_OK else B_NAME_NOT_FOUND) \<and> pool_ok P' \<and>
    vm_rep m' (if fst (GetIndexOf ps k v) then remove_at (snd (GetIndexOf ps k v)) ps else ps)"
proof -
  obtain found i where g: "GetIndexOf ps k v = (found, i)" by fastforce
  have ed: "\<not> IsEditing m" using rep by (simp add: vm_rep_def map_ok_def IsEditing_def)
  show ?thesis
  proof (cases found)
    case True
    then have i: "i < length ps" using GetIndexOf_found(1) g by simp
    obtain P' m' where r: "RemoveMapAt mem P m i = (P', m')" by fastforce
    show ?thesis
      using RemoveMapAt_result(1,2) [OF rep P i r] nc g True ed q r by (auto simp: RemoveMap_def live_rep [OF rep])
  qed (use g ed q rep P in \<open>auto simp: RemoveMap_def live_rep [OF rep]\<close>)
qed

lemma Map_Clone_rep:
  assumes "vm_rep m ps" "pool_ok P" "Map_Clone mem P m = (P', r)"
  shows "pool_ok P'" "r = Some m' \<Longrightarrow> vm_rep m' ps" "\<forall>n. mem n \<Longrightarrow> r \<noteq> None"
proof -
  obtain P1 r1 where c: "Pool_Create mem P (length ps) = (P1, r1)" by fastforce
  have s: "vm_size m = length ps" using assms(1) by (simp add: vm_rep_def)
  show "pool_ok P'" using Pool_Create_ok(1) [OF assms(2) c] assms(3) c s by (cases r1) (simp_all add: Map_Clone_def)
  show "\<forall>n. mem n \<Longrightarrow> r \<noteq> None" using Pool_Create_ok(3) [OF assms(2) c] assms(3) c s by (cases r1) (auto simp: Map_Clone_def)
  assume "r = Some m'"
  then obtain vm where vm: "r1 = Some vm" and m': "m' = vm\<lparr>vm_dataSize := vm_dataSize m, vm_size := length ps,
      vm_maps := move_cells (vm_maps vm) 0 (vm_maps m) 0 (length ps)\<rparr>"
    using assms(3) c s by (cases r1) (auto simp: Map_Clone_def)
  note Pool_Create_ok(2) [OF assms(2) c vm]
  then show "vm_rep m' ps"
    using cell_rep [OF assms(1)] by (auto simp: m' vm_rep_def map_ok_def)
qed

text \<open>An edit of the value at a position, and its end.\<close>

lemma edit_rep:
  assumes rep: "vm_rep m ps" and P: "pool_ok P" and i: "i < length ps"
    and nc: "is_defined v \<or> i = 0 \<or> \<not> compacts m"
  shows "\<exists>m1 P' m'. BeginEditMapAt m i = Some m1 \<and> EndEditMapAt mem P (store_edited m1 v) = Some (P', m') \<and> pool_ok P' \<and>
    vm_rep m' (if is_defined v then ps[i := (fst (ps ! i), v)] else remove_at i ps)"
proof -
  let ?m1 = "m\<lparr>vm_editIndex := int i\<rparr>"
  let ?m2 = "(store_edited ?m1 v)\<lparr>vm_editIndex := -1, vm_dataSize := B_ERROR\<rparr>"
  have b: "BeginEditMapAt m i = Some ?m1" using rep by (simp add: BeginEditMapAt_def vm_rep_def map_ok_def)
  have rep2: "vm_rep ?m2 (ps[i := (fst (ps ! i), v)])"
    using rep i cell_rep [OF rep i] by (auto simp: vm_rep_def map_ok_def store_edited_def nth_list_update split: prod.split)
  have c2: "compacts ?m2 = compacts m" by (simp add: compacts_def store_edited_def Let_def)
  have ce: "cell (vm_maps ?m2) i = Some (fst (ps ! i), v)" using cell_rep [OF rep2, of i] i by simp
  show ?thesis
  proof (cases "is_defined v")
    case True
    then show ?thesis using b rep2 P ce by (auto simp: EndEditMapAt_def store_edited_def Let_def)
  next
    case False
    obtain P' m' where r: "RemoveMapAt mem P ?m2 i = (P', m')" by fastforce
    have "remove_at i (ps[i := (fst (ps ! i), v)]) = remove_at i ps" by (simp add: remove_at_def)
    with RemoveMapAt_result(1,2) [OF rep2 P _ r] False nc i c2 b r ce show ?thesis
      by (auto simp: EndEditMapAt_def store_edited_def Let_def)
  qed
qed

definition rename_pair :: "spair list \<Rightarrow> sval \<Rightarrow> sval \<Rightarrow> spair list \<times> int" where
  "rename_pair ps old_key new_key =
    (if \<not> is_wild old_key \<and> is_defined old_key \<and> is_specified new_key then
       (case GetIndexOf ps old_key SWild of
          (True, i) \<Rightarrow>
            (let value = snd (ps ! i) in
             case GetIndexOf ps new_key value of
               (False, j) \<Rightarrow>
                 (let qs = remove_at i ps; j = (if j > i then j - 1 else j) in (take j qs @ (new_key, value) # drop j qs, B_OK))
             | (True, _) \<Rightarrow> (ps, B_NAME_IN_USE))
        | (False, _) \<Rightarrow> (ps, B_NAME_NOT_FOUND))
     else (ps, B_BAD_VALUE))"

lemma RenameMap_rep:
  assumes rep: "vm_rep m ps" and P: "pool_ok P" and mem: "\<forall>n. mem n" and s: "sorted_pairs ps"
    and nc: "GetIndexOf ps old_key SWild = (True, 0) \<or> \<not> compacts m"
  shows "\<exists>P' m'. RenameMap mem P m old_key new_key = Some (P', m', snd (rename_pair ps old_key new_key)) \<and> pool_ok P' \<and>
    vm_rep m' (fst (rename_pair ps old_key new_key))"
proof -
  have ed: "\<not> IsEditing m" using rep by (simp add: vm_rep_def map_ok_def IsEditing_def)
  note defs = RenameMap_def rename_pair_def live_rep [OF rep]
  obtain found i where g: "GetIndexOf ps old_key SWild = (found, i)" by fastforce
  obtain used j where h: "GetIndexOf ps new_key (snd (ps ! i)) = (used, j)" by fastforce
  show ?thesis
  proof (cases "(\<not> is_wild old_key \<and> is_defined old_key \<and> is_specified new_key) \<and> found \<and> \<not> used")
    case True
    have i: "i < length ps" using GetIndexOf_found(1) g True by simp
    obtain P1 m1 where r: "RemoveMapAt mem P m i = (P1, m1)" by fastforce
    have rep1: "vm_rep m1 (remove_at i ps)" "pool_ok P1" using RemoveMapAt_result(1,2) [OF rep P i r] nc g by auto
    have "item_ok (new_key, snd (ps ! i))" using True by (simp add: item_ok_def is_specified_def)
    from GetIndexOf_result [OF s this h] have "j \<le> length ps" by (simp add: order_result_def)
    then have j: "(if j > i then j - 1 else j) \<le> length (remove_at i ps)" using i by auto
    obtain P2 m2 e where a: "AddMapAt mem P1 m1 (if j > i then j - 1 else j) new_key (snd (ps ! i)) = (P2, m2, e)"
      by (metis prod_cases3)
    note A = AddMapAt_rep [OF rep1 j a]
    have "vm_rep (m2\<lparr>vm_dataSize := B_ERROR\<rparr>) (fst (rename_pair ps old_key new_key))" "pool_ok P2"
      using A mem True g h by (simp_all add: rename_pair_def Let_def vm_rep_def map_ok_def split del: if_split)
    moreover have "RenameMap mem P m old_key new_key = Some (P2, m2\<lparr>vm_dataSize := B_ERROR\<rparr>, B_OK)"
      using True ed g h r a A(2) mem by (simp add: RenameMap_def live_rep [OF rep] B_OK_def)
    ultimately show ?thesis using True g h by (simp add: rename_pair_def Let_def)
  qed (use ed g h rep P in \<open>auto simp: defs Let_def split: bool.splits\<close>)
qed

section \<open>Examples\<close>

definition empty_pool :: vpool where
  "empty_pool = \<lparr>vp_objects = (\<lambda>_. []), vp_count = (\<lambda>_. 0)\<rparr>"

definition two_of_six :: bvmap where
  "two_of_six = \<lparr>vm_dataSize = B_ERROR, vm_size = 2, vm_avail = 6, vm_editIndex = -1,
     vm_maps = [Some (SInt32 1, SInt32 10), Some (SInt32 2, SInt32 20), None, None, None, None]\<rparr>"

lemma empty_pool_ok: "pool_ok empty_pool"
  by (simp add: pool_ok_def empty_pool_def slot_ok_def)

lemma two_of_six_rep: "vm_rep two_of_six [(SInt32 1, SInt32 10), (SInt32 2, SInt32 20)]"
  by (auto simp: vm_rep_def two_of_six_def map_ok_def less_Suc_eq)

lemma two_of_six_sorted: "sorted_pairs [(SInt32 1, SInt32 10), (SInt32 2, SInt32 20)]"
  by code_simp

theorem AddNewMap_correct_witness:
  "\<exists>P' m' qs. AddNewMap (\<lambda>_. True) empty_pool two_of_six (SInt32 3) SNull = Some (P', m', 2) \<and> vm_rep m' qs \<and> length qs = 3"
proof -
  have ok: "item_ok (SInt32 3, SNull)" "is_defined (SInt32 3)" "is_defined SNull" "\<not> is_wild (SInt32 3)"
    "\<not> (\<exists>p\<in>set [(SInt32 1, SInt32 10), (SInt32 2, SInt32 20)]. item_order p (SInt32 3, SNull) = 0)" by code_simp+
  have "map_option (snd o snd) (AddNewMap (\<lambda>_. True) empty_pool two_of_six (SInt32 3) SNull) = Some 2" by code_simp
  moreover obtain P' m' qs r where "AddNewMap (\<lambda>_. True) empty_pool two_of_six (SInt32 3) SNull = Some (P', m', r)"
    "vm_rep m' qs" "length qs = 3"
    using AddNewMap_correct [OF two_of_six_rep empty_pool_ok _ two_of_six_sorted ok(1), of "\<lambda>_. True"] ok(2-)
    by (auto simp del: bex_simps)
  ultimately show ?thesis by auto
qed

theorem RemoveMapAt_correct_iff_witness:
  "compacts two_of_six \<and> (\<nexists>qs. vm_rep (snd (RemoveMapAt (\<lambda>_. True) empty_pool two_of_six 1)) qs)"
proof -
  have c: "compacts two_of_six" by (simp add: compacts_def two_of_six_def)
  then show ?thesis using RemoveMapAt_correct_iff [OF two_of_six_rep empty_pool_ok, of "\<lambda>_. True" 1] by simp
qed

end
