(* ===== verification/Value_Join.thy ===== *)
theory Value_Join
  imports Value_Map
begin

text \<open>
  Looking into values and joining them, \<^verbatim>\<open>src/libraries/libbinder/support/Value.cpp\<close>: the items of a
  value, \<^verbatim>\<open>ValueFor\<close> and \<^verbatim>\<open>HasItem\<close>, the construction of a map from a key and a value, \<^verbatim>\<open>Join\<close> and
  \<^verbatim>\<open>JoinItem\<close>.

  The value that is changed and the values it is combined with are distinct objects. The loops of the
  source ask \<^verbatim>\<open>GetNextItem\<close> for the items of a value they do not change, so they run over the list of its
  items. An edit with \<^verbatim>\<open>BeginEditItem\<close> and \<^verbatim>\<open>EndEditItem\<close> is the position it works on.
\<close>

section \<open>Flags\<close>

definition B_NO_VALUE_FLATTEN :: u32 where "B_NO_VALUE_FLATTEN = 1"
definition B_NO_VALUE_RECURSION :: u32 where "B_NO_VALUE_RECURSION = 2"

definition no_flatten :: "u32 \<Rightarrow> bool" where "no_flatten flags \<longleftrightarrow> flags AND B_NO_VALUE_FLATTEN \<noteq> 0"
definition no_recursion :: "u32 \<Rightarrow> bool" where "no_recursion flags \<longleftrightarrow> flags AND B_NO_VALUE_RECURSION \<noteq> 0"

section \<open>Items\<close>

definition B_ENTRY_NOT_FOUND :: int where "B_ENTRY_NOT_FOUND = -2"

definition CountItems :: "sval \<Rightarrow> nat" where
  "CountItems v = (if is_map v then length (svpairs v) else if is_defined v then 1 else 0)"

definition find_item_index :: "sval \<Rightarrow> nat \<Rightarrow> int + spair" where
  "find_item_index v index =
    (if \<not> is_error v then
       if is_map v then
         if index < length (svpairs v) then Inr (svpairs v ! index) else Inl B_BAD_INDEX
       else if index = 0 \<and> is_defined v then Inr (SWild, v)
       else Inl B_BAD_INDEX
     else Inl (ErrorCheck v))"

definition GetNextItem :: "sval \<Rightarrow> nat \<Rightarrow> nat \<times> (int + spair)" where
  "GetNextItem v cookie =
    (case find_item_index v cookie of
       Inr p \<Rightarrow> (cookie + 1, Inr p)
     | Inl e \<Rightarrow> (cookie, Inl (if e = B_BAD_INDEX then B_ENTRY_NOT_FOUND else e)))"

text \<open>What \<^verbatim>\<open>GetNextItem\<close> gives one after the other.\<close>

definition items :: "sval \<Rightarrow> spair list" where
  "items v = (if is_map v then svpairs v else if is_error v \<or> \<not> is_defined v then [] else [(SWild, v)])"

section \<open>Looking up\<close>

definition HasItem :: "sval \<Rightarrow> sval \<Rightarrow> sval \<Rightarrow> bool" where
  "HasItem this key value =
    (if \<not> is_error this then
       if is_wild this then True
       else if is_wild key then
         if is_wild value then is_defined this
         else if is_map this then IndexFor (svpairs this) key value \<ge> 0
         else SValue_Compare this value = 0
       else if is_map this then
         IndexFor (svpairs this) key value \<ge> 0 \<or> IndexFor (svpairs this) SWild key \<ge> 0
       else SValue_Compare key this = 0
     else False)"

definition ValueFor :: "sval \<Rightarrow> sval \<Rightarrow> sval" where
  "ValueFor this key =
    (if is_wild key then this
     else if is_map this then
       let index = IndexFor (svpairs this) key SUndefined in
       if index \<ge> B_OK then snd (svpairs this ! nat index)
       else if IndexFor (svpairs this) SWild key \<ge> B_OK then SNull
       else SUndefined
     else if is_wild this then key
     else if SValue_Compare key this = 0 then SNull
     else if is_error this then this
     else SUndefined)"

text \<open>
  \<^verbatim>\<open>ValueFor\<close> of a character string and of an \<^verbatim>\<open>SString\<close>: the same code on the text, which looks for
  the bytes without making a value of them first.
\<close>

definition ValueFor_string :: "sval \<Rightarrow> u8 list \<Rightarrow> sval" where
  "ValueFor_string this str =
    (if is_map this then
       let len = length str + 1; index = IndexFor_data (svpairs this) (pack_type B_STRING_TYPE len) (str @ [0]) in
       if index \<ge> B_OK then snd (svpairs this ! nat index)
       else if IndexFor (svpairs this) SWild (SStr str) \<ge> B_OK then SNull
       else SUndefined
     else if is_wild this then SUndefined
     else if SValue_Compare_data this B_STRING_TYPE (str @ [0]) = 0 then SNull
     else SUndefined)"

definition ValueFor_index :: "sval \<Rightarrow> int \<Rightarrow> sval" where
  "ValueFor_index this index = ValueFor this (SInt32 index)"

section \<open>Editing\<close>

definition shrink_map :: "spair list \<Rightarrow> sval" where
  "shrink_map ps =
    (case ps of [] \<Rightarrow> SUndefined | [(k, v)] \<Rightarrow> if is_wild k then v else SMap ps | _ \<Rightarrow> SMap ps)"

definition edit_map :: "sval \<Rightarrow> spair list option" where
  "edit_map v =
    (if is_map v then Some (svpairs v)
     else if \<not> is_error v then Some (if is_specified v then [(SWild, v)] else [])
     else None)"

definition BeginEditItem :: "sval \<Rightarrow> sval \<Rightarrow> nat option" where
  "BeginEditItem v key =
    (if is_wild key then None
     else if is_map v then
       (let index = IndexFor (svpairs v) key SUndefined in if index \<ge> B_OK then Some (nat index) else None)
     else None)"

text \<open>
  \<^verbatim>\<open>EndEditItem\<close> after the value at \<open>i\<close> became the defined value \<open>cur\<close>. Joining and inheriting never undefine a value;
  the theory \<open>Value_Algebra\<close> has the general case, where an undefined value is removed from the array.
\<close>

definition end_edit :: "spair list \<Rightarrow> nat \<Rightarrow> sval \<Rightarrow> sval" where
  "end_edit ps i cur =
    (let err = ErrorCheck cur in
     if err < B_OK then set_error err else shrink_map (ps[i := (fst (ps ! i), cur)]))"

text \<open>The branch that adds a new key; the errors \<^verbatim>\<open>AddNewMap\<close> can report here do not change the value.\<close>

definition add_item :: "sval \<Rightarrow> sval \<Rightarrow> sval \<Rightarrow> sval" where
  "add_item this key value =
    (case edit_map this of Some ps \<Rightarrow> SMap (fst (add_pair ps key value)) | None \<Rightarrow> this)"

section \<open>Joining\<close>

text \<open>The only item of a value that is not a map has a wild key, so its loop is one call of \<open>add_item\<close>.\<close>

function (sequential) Join :: "u32 \<Rightarrow> sval \<Rightarrow> sval \<Rightarrow> sval"
  and join_loop :: "u32 \<Rightarrow> sval \<Rightarrow> spair list \<Rightarrow> sval"
where
  "Join flags this (SMap qs) =
    (if is_specified this then join_loop flags this qs
     else if \<not> is_defined this then SMap qs
     else this)"
| "Join flags this from =
    (if is_final from then from
     else if is_specified this \<and> (is_map this \<or> SValue_Compare this from \<noteq> 0) then
       (case items from of [(key, value)] \<Rightarrow> add_item this key value | _ \<Rightarrow> this)
     else if \<not> is_defined this then from
     else this)"
| "join_loop flags this [] = this"
| "join_loop flags this ((key, value) # qs) =
    join_loop flags
      (case BeginEditItem this key of
         Some i \<Rightarrow>
           end_edit (svpairs this) i (if \<not> no_recursion flags then Join flags (snd (svpairs this ! i)) value else value)
       | None \<Rightarrow> add_item this key value)
      qs"
  by pat_completeness auto

termination
  by (relation "measure (case_sum (\<lambda>(_, _, from). size from) (\<lambda>(_, _, qs). size_list (size_prod size size) qs))") auto

lemma size_items_less: "is_map key \<Longrightarrow> size_list (size_prod size size) (items key) < size key"
  by (cases key) (auto simp: items_def)

function InitAsMap :: "u32 \<Rightarrow> sval \<Rightarrow> sval \<Rightarrow> sval"
  and init_loop :: "spair list \<Rightarrow> sval \<Rightarrow> sval \<Rightarrow> sval"
  and JoinItem :: "u32 \<Rightarrow> sval \<Rightarrow> sval \<Rightarrow> sval \<Rightarrow> sval"
where
  "InitAsMap flags key value =
    (if \<not> is_error key \<and> \<not> is_error value then
       if is_defined key \<and> is_defined value then
         if \<not> is_wild key then
           if \<not> is_map key \<or> no_flatten flags then SMap [(key, value)]
           else init_loop (items key) value SUndefined
         else value
       else SUndefined
     else if is_error key then key
     else value)"
| "init_loop [] value this = this"
| "init_loop ((k, v) # ps) value this = init_loop ps value (JoinItem 0 this k (InitAsMap 0 v value))"
| "JoinItem flags this key value =
    (if \<not> is_final this \<and> is_defined key \<and> is_defined value then
       let wildkey = is_wild key in
       if wildkey \<and> (\<not> is_defined this \<or> is_final value) then value
       else if wildkey \<and> is_map value then Join flags this value
       else if is_null value then Join flags this key
       else if is_map key \<or> is_error key \<or> is_error value then Join flags this (InitAsMap flags key value)
       else
         case BeginEditItem this key of
           Some i \<Rightarrow>
             end_edit (svpairs this) i (if \<not> no_recursion flags then Join flags (snd (svpairs this ! i)) value else value)
         | None \<Rightarrow> add_item this key value
     else this)"
  by pat_completeness auto

termination
  by (relation "measure (case_sum (\<lambda>(_, key, _). 2 * size key)
        (case_sum (\<lambda>(ps, _, _). 2 * size_list (size_prod size size) ps + 1) (\<lambda>(_, _, key, _). 2 * size key + 1)))")
     (auto dest: size_items_less)

declare Join.simps [simp del] join_loop.simps [simp del] InitAsMap.simps [simp del] init_loop.simps [simp del]
  JoinItem.simps [simp del]

section \<open>Items one by one\<close>

lemma GetNextItem_items:
  assumes "\<not> is_error v"
  shows "GetNextItem v i = (if i < length (items v) then (i + 1, Inr (items v ! i)) else (i, Inl B_ENTRY_NOT_FOUND))"
  using assms by (auto simp: GetNextItem_def find_item_index_def items_def)

lemma CountItems_items: "\<not> is_error v \<Longrightarrow> CountItems v = length (items v)"
  by (auto simp: CountItems_def items_def)

section \<open>Normal form\<close>

text \<open>
  The normal form the source keeps (\<^verbatim>\<open>check_integrity\<close> and the comments of \<^verbatim>\<open>JoinItem\<close>): a map has its
  pairs in order, keys and values are defined and no errors, a wild key has a simple value that is not
  wild, and the map is not empty and more than a single value under a wild key.
\<close>

definition pair_ok :: "spair \<Rightarrow> bool" where
  "pair_ok p \<longleftrightarrow> is_defined (fst p) \<and> is_defined (snd p) \<and> \<not> is_error (fst p) \<and> \<not> is_error (snd p) \<and>
     (is_wild (fst p) \<longrightarrow> \<not> is_map (snd p) \<and> \<not> is_wild (snd p))"

definition redundant :: "spair list \<Rightarrow> bool" where
  "redundant ps \<longleftrightarrow> (case ps of [] \<Rightarrow> True | [p] \<Rightarrow> is_wild (fst p) | _ \<Rightarrow> False)"

fun nf :: "sval \<Rightarrow> bool" where
  "nf SUndefined = True"
| "nf (SData c bs) = valid_code c"
| "nf (SMap ps) \<longleftrightarrow> \<not> redundant ps \<and> sorted_by item_order ps \<and> list_all pair_ok ps \<and> list_all (\<lambda>(k, v). nf k \<and> nf v) ps"

definition pnf :: "spair list \<Rightarrow> bool" where
  "pnf ps \<longleftrightarrow> sorted_by item_order ps \<and> (\<forall>(k, v)\<in>set ps. pair_ok (k, v) \<and> nf k \<and> nf v)"

lemma nf_SMap: "nf (SMap ps) \<longleftrightarrow> \<not> redundant ps \<and> pnf ps"
  by (auto simp: pnf_def list_all_iff)

declare nf.simps(3) [simp del]

lemma nf_codes_ok: "nf v \<Longrightarrow> codes_ok v"
  by (induction v) (auto simp: nf_SMap pnf_def list_all_iff)

lemma wild_unique:
  assumes "nf v"
  shows "is_wild v \<longleftrightarrow> v = SWild"
proof
  assume w: "is_wild v"
  then obtain c bs where v: "v = SData c bs" by (cases v) auto
  have t: "m_type v = m_type SWild" using w by (simp add: is_wild_def SWild_def m_type.simps kWildTypeCode_def [symmetric])
  have "SValue_Compare v SWild = 0"
    using t same_type_lengths [of c bs B_WILD_TYPE "[]"] by (auto simp: v SWild_def same_width_def data_Compare_def)
  moreover have "codes_ok SWild" by code_simp
  ultimately show "v = SWild" using SValue_Compare_eq(1) nf_codes_ok [OF assms] by blast
qed simp

lemma nf_SWild [simp]: "nf SWild" "nf SNull"
  by code_simp+

lemma pair_ok_item_ok: "pair_ok p \<Longrightarrow> item_ok p"
  by (auto simp: pair_ok_def item_ok_def)

lemma pnf_sorted_pairs: "pnf ps \<Longrightarrow> sorted_pairs ps"
  by (auto simp: pnf_def sorted_pairs_def list_all_iff intro: pair_ok_item_ok)

lemma pnf_memD:
  assumes "pnf ps" "(k, v) \<in> set ps"
  shows "pair_ok (k, v)" "nf k" "nf v" "is_defined k" "is_defined v" "\<not> is_error k" "\<not> is_error v"
    "k = SWild \<Longrightarrow> \<not> is_map v \<and> v \<noteq> SWild"
  using assms wild_unique [of v] by (auto simp: pnf_def pair_ok_def)

text \<open>The pairs of a map are determined by their keys, or by their values if the key is wild.\<close>

lemma item_order_nf_eq:
  assumes "nf k1" "nf v1" "nf k2" "k2 = SWild \<Longrightarrow> nf v2"
  shows "item_order (k1, v1) (k2, v2) = 0 \<longleftrightarrow> k1 = k2 \<and> (k1 = SWild \<longrightarrow> v1 = v2)"
proof -
  have "codes_ok (item_key (k1, v1))" "codes_ok (item_key (k2, v2))"
    using assms nf_codes_ok wild_unique [OF assms(3)] by (auto simp: item_key_def)
  from item_order_eq [OF this] show ?thesis
    using assms by (auto simp: item_key_def wild_unique)
qed

lemma GetIndexOf_nf:
  assumes ps: "pnf ps" and k: "nf k" and v: "k = SWild \<Longrightarrow> nf v \<and> \<not> is_map v" and g: "GetIndexOf ps k v = (found, i)"
  shows "found \<longleftrightarrow> (if k = SWild then (k, v) \<in> set ps else k \<in> fst ` set ps)"
    and "found \<Longrightarrow> i < length ps \<and> fst (ps ! i) = k \<and> (k = SWild \<longrightarrow> snd (ps ! i) = v)"
    and "i \<le> length ps"
proof -
  have io: "item_ok (k, v)" using v wild_unique [OF k] by (auto simp: item_ok_def)
  note o = GetIndexOf_result [OF pnf_sorted_pairs [OF ps] io g]
  have e: "item_order (k', v') (k, v) = 0 \<longleftrightarrow> k' = k \<and> (k = SWild \<longrightarrow> v' = v)" if "(k', v') \<in> set ps" for k' v'
    using item_order_nf_eq [of k' v' k v] pnf_memD(2,3) [OF ps that] k v by auto
  have "found \<longleftrightarrow> (\<exists>p\<in>set ps. item_order p (k, v) = 0)" by (rule item_order.order_result_found [OF o])
  also have "\<dots> \<longleftrightarrow> (if k = SWild then (k, v) \<in> set ps else k \<in> fst ` set ps)"
    using e by (force simp: image_iff)
  finally show "found \<longleftrightarrow> (if k = SWild then (k, v) \<in> set ps else k \<in> fst ` set ps)" .
  show "i \<le> length ps" using o by (simp add: order_result_def)
  assume found
  then have i: "i < length ps" "item_order (k, v) (ps ! i) = 0" using o by (auto simp: order_result_def)
  then have "item_order (fst (ps ! i), snd (ps ! i)) (k, v) = 0" using item_order.cmp_eq_sym by simp
  with i e [of "fst (ps ! i)" "snd (ps ! i)"]
  show "i < length ps \<and> fst (ps ! i) = k \<and> (k = SWild \<longrightarrow> snd (ps ! i) = v)" by simp
qed

text \<open>A key that is not wild is the key of one pair only.\<close>

lemma pnf_map_of:
  assumes ps: "pnf ps" and k: "k \<noteq> SWild" and i: "i < length ps" "fst (ps ! i) = k"
  shows "map_of ps k = Some (snd (ps ! i))"
proof -
  have "map_of ps k = Some v \<Longrightarrow> v = snd (ps ! i)" for v
  proof -
    assume "map_of ps k = Some v"
    then obtain j where j: "j < length ps" "ps ! j = (k, v)" by (auto simp: in_set_conv_nth dest!: map_of_SomeD)
    have "item_order (ps ! j) (ps ! i) = 0"
      using item_order_nf_eq [of k v k "snd (ps ! i)"] pnf_memD(2,3) [OF ps] i j k
      by (metis nth_mem prod.collapse)
    moreover have "item_order (ps ! a) (ps ! b) < 0" if "a < b" "b < length ps" for a b
      using ps that item_order.sorted_nth_less by (simp add: pnf_def)
    moreover have "item_order (ps ! i) (ps ! j) = 0" using calculation(1) item_order.cmp_eq_sym by simp
    ultimately have "i = j" using i(1) j(1) by (metis less_irrefl linorder_neqE_nat)
    then show ?thesis using j by simp
  qed
  moreover have "map_of ps k \<noteq> None" using i by (auto simp: map_of_eq_None_iff)
  ultimately show ?thesis by auto
qed

lemma IndexFor_nf:
  assumes ps: "pnf ps" and k: "nf k" "k \<noteq> SWild"
  shows "IndexFor ps k v \<ge> 0 \<longleftrightarrow> map_of ps k \<noteq> None"
    and "IndexFor ps k v \<ge> 0 \<Longrightarrow> nat (IndexFor ps k v) < length ps \<and> fst (ps ! nat (IndexFor ps k v)) = k \<and>
      map_of ps k = Some (snd (ps ! nat (IndexFor ps k v)))"
proof -
  obtain found i where g: "GetIndexOf ps k v = (found, i)" by fastforce
  note G = GetIndexOf_nf [OF ps k(1) _ g]
  have I: "IndexFor ps k v = (if found then int i else B_NAME_NOT_FOUND)" by (simp add: IndexFor_def g split: bool.split)
  then show "IndexFor ps k v \<ge> 0 \<longleftrightarrow> map_of ps k \<noteq> None" using G(1) k by (auto simp: map_of_eq_None_iff)
  show "IndexFor ps k v \<ge> 0 \<Longrightarrow> nat (IndexFor ps k v) < length ps \<and> fst (ps ! nat (IndexFor ps k v)) = k \<and>
      map_of ps k = Some (snd (ps ! nat (IndexFor ps k v)))"
    using I G(2) k pnf_map_of [OF ps k(2)] by (simp split: if_splits)
qed

lemma BeginEditItem_nf:
  assumes ps: "pnf ps" and k: "nf k"
  shows "BeginEditItem (SMap ps) k = None \<longleftrightarrow> k = SWild \<or> map_of ps k = None"
    and "BeginEditItem (SMap ps) k = Some i \<Longrightarrow> k \<noteq> SWild \<and> i < length ps \<and> fst (ps ! i) = k \<and> map_of ps k = Some (snd (ps ! i))"
proof -
  have w: "is_wild k \<longleftrightarrow> k = SWild" using wild_unique k by simp
  note I = IndexFor_nf [OF ps k, of SUndefined]
  show "BeginEditItem (SMap ps) k = None \<longleftrightarrow> k = SWild \<or> map_of ps k = None"
    using I(1) w by (auto simp: BeginEditItem_def B_OK_def Let_def)
  show "BeginEditItem (SMap ps) k = Some i \<Longrightarrow> k \<noteq> SWild \<and> i < length ps \<and> fst (ps ! i) = k \<and> map_of ps k = Some (snd (ps ! i))"
    using I(2) w by (auto simp: BeginEditItem_def B_OK_def Let_def split: if_splits)
qed

section \<open>What an edit does\<close>

definition wilds :: "spair list \<Rightarrow> sval set" where
  "wilds ps = {v. (SWild, v) \<in> set ps}"

lemma pnf_map_of_iff:
  assumes "pnf ps" "k \<noteq> SWild"
  shows "map_of ps k = Some v \<longleftrightarrow> (k, v) \<in> set ps"
  using pnf_map_of [OF assms] by (auto dest: map_of_SomeD simp: in_set_conv_nth)

lemma add_pair_nf:
  assumes ps: "pnf ps" and p: "pair_ok (k, v)" "nf k" "nf v" and new: "k \<noteq> SWild \<Longrightarrow> map_of ps k = None"
  shows "pnf (fst (add_pair ps k v))" "set (fst (add_pair ps k v)) = insert (k, v) (set ps)"
proof -
  obtain found i where g: "GetIndexOf ps k v = (found, i)" by fastforce
  have w: "is_wild k \<longleftrightarrow> k = SWild" "is_wild v \<longleftrightarrow> v = SWild" using wild_unique p by auto
  have kv: "is_defined k" "is_defined v" "k = SWild \<Longrightarrow> \<not> is_map v \<and> v \<noteq> SWild" using p(1) w by (auto simp: pair_ok_def)
  note G = GetIndexOf_nf [OF ps p(2) _ g]
  have f: "found \<longleftrightarrow> (k, v) \<in> set ps"
  proof (cases "k = SWild")
    case True
    then show ?thesis using G(1) kv p(3) by simp
  next
    case False
    with new have "k \<notin> fst ` set ps" by (simp add: map_of_eq_None_iff)
    then show ?thesis using G(1) False by (force simp: image_iff)
  qed
  have a: "add_pair ps k v = (if found then (ps, B_NAME_IN_USE) else (take i ps @ (k, v) # drop i ps, int i))"
    using kv g w by (auto simp: add_pair_def split: bool.split)
  have "set (take i ps @ (k, v) # drop i ps) = insert (k, v) (set ps)"
    by (metis Un_insert_right append_take_drop_id list.simps(15) set_append)
  then show st: "set (fst (add_pair ps k v)) = insert (k, v) (set ps)" using a f by auto
  have "sorted_by item_order (fst (add_pair ps k v))"
    using add_pair_sorted [OF pnf_sorted_pairs [OF ps] pair_ok_item_ok [OF p(1)]] by (simp add: sorted_pairs_def)
  then show "pnf (fst (add_pair ps k v))" using st ps p by (auto simp: pnf_def)
qed

lemma add_pair_lookup:
  assumes "pnf ps" "pair_ok (k, v)" "nf k" "nf v" "k \<noteq> SWild \<Longrightarrow> map_of ps k = None"
  shows "wilds (fst (add_pair ps k v)) = (if k = SWild then insert v (wilds ps) else wilds ps)"
    and "k' \<noteq> SWild \<Longrightarrow> map_of (fst (add_pair ps k v)) k' = (if k' = k then Some v else map_of ps k')"
proof -
  note A = add_pair_nf [OF assms]
  show "wilds (fst (add_pair ps k v)) = (if k = SWild then insert v (wilds ps) else wilds ps)"
    by (auto simp: wilds_def A(2))
  assume k': "k' \<noteq> SWild"
  have "map_of (fst (add_pair ps k v)) k' = Some x \<longleftrightarrow> (if k' = k then Some v else map_of ps k') = Some x" for x
    using A(2) pnf_map_of_iff [OF A(1) k', of x] pnf_map_of_iff [OF assms(1) k', of x] assms(5) k' by auto
  then show "map_of (fst (add_pair ps k v)) k' = (if k' = k then Some v else map_of ps k')"
    by (metis not_None_eq)
qed

lemma update_nf:
  assumes ps: "pnf ps" and i: "i < length ps" "fst (ps ! i) = k" "k \<noteq> SWild" and v: "nf v" "is_defined v" "\<not> is_error v"
  shows "pnf (ps[i := (k, v)])" "wilds (ps[i := (k, v)]) = wilds ps"
    and "k' \<noteq> SWild \<Longrightarrow> map_of (ps[i := (k, v)]) k' = (if k' = k then Some v else map_of ps k')"
proof -
  have k: "nf k" "is_defined k" "\<not> is_error k" using pnf_memD [OF ps, of k "snd (ps ! i)"] i nth_mem [of i ps] by (metis prod.collapse)+
  then have w: "\<not> is_wild k" using wild_unique i by simp
  have "item_order (ps[i := (k, v)] ! a) (ps[i := (k, v)] ! b) = item_order (ps ! a) (ps ! b)" if "a < length ps" "b < length ps" for a b
    using that i w by (auto simp: nth_list_update item_order_def item_key_def)
  then have "sorted_by item_order (ps[i := (k, v)])"
    using ps by (simp add: pnf_def sorted_by_def sorted_wrt_iff_nth_less)
  moreover have "pair_ok (k, v)" using k v w by (simp add: pair_ok_def)
  ultimately show nf': "pnf (ps[i := (k, v)])"
    using ps k v set_update_subset_insert [of ps i "(k, v)"] by (auto simp: pnf_def)
  have st: "(k', x) \<in> set (ps[i := (k, v)]) \<longleftrightarrow> (k', x) \<in> set ps" if "k' \<noteq> k" for k' x
    using that i by (auto simp: in_set_conv_nth nth_list_update split: if_splits) (metis fst_conv)
  then show "wilds (ps[i := (k, v)]) = wilds ps" using i by (auto simp: wilds_def)
  assume k': "k' \<noteq> SWild"
  show "map_of (ps[i := (k, v)]) k' = (if k' = k then Some v else map_of ps k')"
  proof (cases "k' = k")
    case True
    then show ?thesis using pnf_map_of [OF nf' i(3), of i] i by simp
  next
    case False
    then have "map_of (ps[i := (k, v)]) k' = Some x \<longleftrightarrow> map_of ps k' = Some x" for x
      using st pnf_map_of_iff [OF nf' k'] pnf_map_of_iff [OF ps k'] by simp
    then show ?thesis using False by (metis not_None_eq)
  qed
qed

lemma shrink_map_nonwild:
  assumes "k \<noteq> SWild" "nf k" "k \<in> fst ` set ps"
  shows "shrink_map ps = SMap ps" "\<not> redundant ps"
  using assms wild_unique [of k] by (auto simp: shrink_map_def redundant_def split: list.splits prod.splits)

lemma redundant_iff:
  assumes "pnf ps"
  shows "redundant ps \<longleftrightarrow> (\<forall>k. k \<noteq> SWild \<longrightarrow> map_of ps k = None) \<and> (\<exists>x. wilds ps \<subseteq> {x})"
proof (cases ps rule: remdups_adj.cases)
  case (2 p)
  obtain k v where p: "p = (k, v)" by (cases p)
  have "nf k" using pnf_memD(2) [OF assms, of k v] 2 p by simp
  then show ?thesis using 2 p wild_unique [of k] by (auto simp: redundant_def wilds_def)
next
  case (3 p q rs)
  obtain k1 v1 k2 v2 where pq: "p = (k1, v1)" "q = (k2, v2)" by (cases p, cases q)
  have "item_order p q < 0" using assms 3 by (auto simp: pnf_def sorted_by_def)
  then have "\<not> (k1 = k2 \<and> v1 = v2)" using pq item_order.cmp_refl [of p] by auto
  then have "\<not> ((\<forall>k. k \<noteq> SWild \<longrightarrow> map_of ps k = None) \<and> (\<exists>x. wilds ps \<subseteq> {x}))"
    using 3 pq by (cases "k1 = SWild"; cases "k2 = SWild") (auto simp: wilds_def split: if_splits)
  then show ?thesis using 3 by (simp add: redundant_def)
qed (simp add: redundant_def wilds_def)

definition join_value :: "u32 \<Rightarrow> sval \<Rightarrow> sval \<Rightarrow> sval" where
  "join_value flags a b = (if no_recursion flags then b else Join flags a b)"

definition join_option :: "u32 \<Rightarrow> sval option \<Rightarrow> sval option \<Rightarrow> sval option" where
  "join_option flags x y =
    (case x of None \<Rightarrow> y | Some a \<Rightarrow> (case y of None \<Rightarrow> Some a | Some b \<Rightarrow> Some (join_value flags a b)))"

definition proper :: "sval \<Rightarrow> bool" where
  "proper v \<longleftrightarrow> nf v \<and> is_defined v \<and> \<not> is_error v"

definition joins :: "u32 \<Rightarrow> spair list \<Rightarrow> spair list \<Rightarrow> spair list \<Rightarrow> bool" where
  "joins flags ps qs rs \<longleftrightarrow> pnf rs \<and> wilds rs = wilds ps \<union> wilds qs \<and>
     (\<forall>k. k \<noteq> SWild \<longrightarrow> map_of rs k = join_option flags (map_of ps k) (map_of qs k))"

lemma proper_mem: "pnf ps \<Longrightarrow> (k, v) \<in> set ps \<Longrightarrow> proper k \<and> proper v"
  using pnf_memD by (auto simp: proper_def)

lemma add_item_SMap [simp]: "add_item (SMap ps) k v = SMap (fst (add_pair ps k v))"
  by (simp add: add_item_def edit_map_def)

lemma end_edit_nf:
  assumes "pnf ps" "i < length ps" "fst (ps ! i) = k" "k \<noteq> SWild" "proper v"
  shows "end_edit ps i v = SMap (ps[i := (k, v)])"
proof -
  have "nf k" using assms(1-3) pnf_memD(2) by (metis nth_mem prod.collapse)
  moreover have "k \<in> fst ` set (ps[i := (k, v)])" using assms(2) by (metis fst_conv image_eqI set_update_memI)
  ultimately show ?thesis
    using assms shrink_map_nonwild(1) by (simp add: end_edit_def proper_def ErrorCheck_def B_OK_def)
qed

lemma pnf_Cons:
  assumes "pnf (p # qs)"
  shows "pnf qs" "fst p \<noteq> SWild \<Longrightarrow> map_of qs (fst p) = None"
proof -
  show qs: "pnf qs" using assms by (auto simp: pnf_def sorted_by_def)
  assume k: "fst p \<noteq> SWild"
  have "(fst p, v) \<notin> set qs" for v
  proof
    assume m: "(fst p, v) \<in> set qs"
    have "item_order p (fst p, v) = 0"
      using item_order_nf_eq [of "fst p" "snd p" "fst p" v] pnf_memD(2,3) [OF assms, of "fst p" "snd p"] k by simp
    moreover have "item_order p (fst p, v) < 0" using assms m by (auto simp: pnf_def sorted_by_def)
    ultimately show False by simp
  qed
  then show "map_of qs (fst p) = None" by (force simp: map_of_eq_None_iff)
qed

text \<open>One pair of the loop, and then the rest.\<close>

lemma joins_Cons:
  assumes r: "joins flags ps1 qs rs" and q: "pnf ((k, v) # qs)"
    and w: "wilds ps1 = (if k = SWild then insert v (wilds ps) else wilds ps)"
    and m: "\<And>k'. k' \<noteq> SWild \<Longrightarrow> map_of ps1 k' = (if k' = k then join_option flags (map_of ps k) (Some v) else map_of ps k')"
  shows "joins flags ps ((k, v) # qs) rs"
proof -
  have "wilds ((k, v) # qs) = (if k = SWild then insert v (wilds qs) else wilds qs)" by (auto simp: wilds_def)
  moreover have "k \<noteq> SWild \<Longrightarrow> map_of qs k = None" using pnf_Cons(2) [OF q] by simp
  ultimately show ?thesis
    using r w m by (auto simp: joins_def join_option_def split: option.splits)
qed

lemma joins_not_redundant:
  assumes "joins flags ps qs rs" "pnf ps" "pnf qs" "\<not> redundant ps \<or> \<not> redundant qs"
  shows "nf (SMap rs)"
proof -
  have rs: "pnf rs" using assms(1) by (simp add: joins_def)
  have "\<not> redundant rs"
    using assms(4,1) unfolding redundant_iff [OF rs] redundant_iff [OF assms(2)] redundant_iff [OF assms(3)]
    by (fastforce simp: joins_def join_option_def split: option.splits)
  then show ?thesis using rs by (simp add: nf_SMap)
qed

lemma pnf_single: "proper v \<Longrightarrow> \<not> is_map v \<Longrightarrow> \<not> is_wild v \<Longrightarrow> pnf [(SWild, v)]"
  by (simp add: pnf_def sorted_by_def pair_ok_def proper_def)

lemma proper_SMap [simp]: "proper (SMap ps) \<longleftrightarrow> nf (SMap ps)"
  by (simp add: proper_def)

lemma nf_nonempty: "nf (SMap ps) \<Longrightarrow> ps \<noteq> []"
  by (auto simp: nf_SMap redundant_def)

lemma edit_map_proper:
  assumes "proper v" "is_specified v"
  obtains ps where "edit_map v = Some ps" "pnf ps" "is_map v \<Longrightarrow> \<not> redundant ps" "\<not> is_map v \<Longrightarrow> ps = [(SWild, v)]"
proof (cases v)
  case (SMap ps)
  with assms that [of ps] show ?thesis by (simp add: edit_map_def nf_SMap)
qed (use assms that pnf_single in \<open>auto simp: edit_map_def proper_def is_specified_def\<close>)

lemma BeginEditItem_edit_map:
  assumes "edit_map this = Some ps" "pnf ps" "nf k"
  shows "BeginEditItem this k = BeginEditItem (SMap ps) k" "BeginEditItem this k \<noteq> None \<Longrightarrow> this = SMap ps"
proof -
  show "BeginEditItem this k = BeginEditItem (SMap ps) k"
  proof (cases "is_map this")
    case False
    then have "k \<noteq> SWild \<Longrightarrow> map_of ps k = None" using assms(1) by (auto simp: edit_map_def split: if_splits)
    then have "BeginEditItem (SMap ps) k = None" using BeginEditItem_nf(1) [OF assms(2,3)] by auto
    with False show ?thesis by (simp add: BeginEditItem_def)
  qed (use assms(1) in \<open>auto simp: edit_map_def is_map_iff\<close>)
  show "BeginEditItem this k \<noteq> None \<Longrightarrow> this = SMap ps"
    using assms(1) by (auto simp: BeginEditItem_def edit_map_def is_map_iff split: if_splits)
qed

lemma proper_simple_final: "proper v \<Longrightarrow> is_final v \<longleftrightarrow> v = SWild"
  using wild_unique by (auto simp: proper_def is_final_def)

lemma Join_simple:
  assumes "proper this" "proper v" "\<not> is_map v" "v \<noteq> SWild" "is_specified this" "is_map this \<or> this \<noteq> v"
  shows "\<exists>ps rs. edit_map this = Some ps \<and> Join flags this v = SMap rs \<and> nf (SMap rs) \<and> joins flags ps [(SWild, v)] rs"
proof -
  obtain ps where ps: "edit_map this = Some ps" "pnf ps" "is_map this \<Longrightarrow> \<not> redundant ps" "\<not> is_map this \<Longrightarrow> ps = [(SWild, this)]"
    using edit_map_proper assms(1,5) by blast
  obtain c bs where v: "v = SData c bs" using assms(2,3) by (cases v) (auto simp: proper_def)
  have f: "\<not> is_final v" "\<not> is_error v" "\<not> is_wild v" using assms(2,4) proper_simple_final wild_unique by (auto simp: proper_def)
  have cmp: "SValue_Compare this v \<noteq> 0" if "\<not> is_map this"
    using that assms(1,2,6) SValue_Compare_eq(1) nf_codes_ok by (auto simp: proper_def)
  define rs where "rs = fst (add_pair ps SWild v)"
  have J: "Join flags this v = SMap rs"
    using f assms(5) cmp ps(1) unfolding rs_def v by (auto simp: Join.simps items_def add_item_def)
  have pk: "pair_ok (SWild, v)" "nf v" using f assms(2,3) by (auto simp: pair_ok_def proper_def)
  note A = add_pair_nf [OF ps(2) pk(1) _ pk(2)] and L = add_pair_lookup [OF ps(2) pk(1) _ pk(2)]
  have joins: "joins flags ps [(SWild, v)] rs"
    using A L by (auto simp: joins_def rs_def wilds_def join_option_def split: option.split)
  have "\<not> redundant rs"
  proof (cases "is_map this")
    case True
    then show ?thesis
      using joins_not_redundant [OF joins ps(2)] ps(3) pnf_single [OF assms(2,3)] f by (simp add: nf_SMap)
  next
    case False
    then have "wilds rs = {this, v}" "this \<noteq> v" using ps(4) assms(6) joins by (auto simp: joins_def wilds_def)
    then show ?thesis using redundant_iff [of rs] joins by (auto simp: joins_def)
  qed
  then show ?thesis using J joins ps(1) by (auto simp: joins_def nf_SMap)
qed

text \<open>The two ways a pair is taken over.\<close>

lemma join_step_add:
  assumes "edit_map this = Some ps" "pnf ps" "pnf ((key, v) # qs)" "BeginEditItem this key = None"
  obtains ps1 where "add_item this key v = SMap ps1" "pnf ps1" "\<And>rs. joins flags ps1 qs rs \<Longrightarrow> joins flags ps ((key, v) # qs) rs"
proof -
  have q: "pair_ok (key, v)" "nf key" "nf v" using pnf_memD(1-3) [OF assms(3), of key v] by auto
  have new: "key \<noteq> SWild \<Longrightarrow> map_of ps key = None"
    using assms(4) BeginEditItem_edit_map(1) [OF assms(1,2) q(2)] BeginEditItem_nf(1) [OF assms(2) q(2)] by auto
  note A = add_pair_nf(1) [OF assms(2) q new] add_pair_lookup [OF assms(2) q new]
  have "joins flags ps ((key, v) # qs) rs" if "joins flags (fst (add_pair ps key v)) qs rs" for rs
    by (rule joins_Cons [OF that assms(3)]) (use A(2,3) new in \<open>auto simp: join_option_def\<close>)
  then show ?thesis using that [of "fst (add_pair ps key v)"] A(1) assms(1) by (simp add: add_item_def)
qed

lemma join_step_edit:
  assumes "edit_map this = Some ps" "pnf ps" "pnf ((key, v) # qs)" "BeginEditItem this key = Some i"
    and p: "proper (snd (svpairs this ! i)) \<Longrightarrow> proper v \<Longrightarrow> proper (join_value flags (snd (svpairs this ! i)) v)"
  obtains ps1 where "this = SMap ps" "end_edit ps i (join_value flags (snd (ps ! i)) v) = SMap ps1" "pnf ps1"
    "\<And>rs. joins flags ps1 qs rs \<Longrightarrow> joins flags ps ((key, v) # qs) rs"
proof -
  have q: "nf key" "proper v" using pnf_memD(2) [OF assms(3), of key v] proper_mem [OF assms(3), of key v] by auto
  have th: "this = SMap ps" and i: "key \<noteq> SWild" "i < length ps" "fst (ps ! i) = key" "map_of ps key = Some (snd (ps ! i))"
    using assms(4) BeginEditItem_edit_map [OF assms(1,2) q(1)] BeginEditItem_nf(2) [OF assms(2) q(1)] by auto
  define cur where "cur = join_value flags (snd (ps ! i)) v"
  have "proper (snd (ps ! i))" using proper_mem assms(2) i(2) by (metis nth_mem prod.collapse)
  then have c: "proper cur" "nf cur" "is_defined cur" "\<not> is_error cur" using p q(2) th by (auto simp: cur_def proper_def)
  note U = update_nf [OF assms(2) i(2,3,1) c(2-4)]
  have "joins flags ps ((key, v) # qs) rs" if "joins flags (ps[i := (key, cur)]) qs rs" for rs
    by (rule joins_Cons [OF that assms(3)]) (use U(2,3) i in \<open>simp_all add: join_option_def cur_def\<close>)
  then show ?thesis
    using that [of "ps[i := (key, cur)]"] th end_edit_nf [OF assms(2) i(2,3,1) c(1)] U(1) by (simp add: cur_def)
qed

lemmas Join_cases_induct = Join_join_loop.induct [case_names 1 undefined data 3 4]

lemma Join_joins:
  "proper this \<Longrightarrow> proper from \<Longrightarrow> proper (Join flags this from)"
  "edit_map this = Some ps \<Longrightarrow> pnf ps \<Longrightarrow> pnf qs \<Longrightarrow> qs \<noteq> [] \<or> is_map this \<Longrightarrow>
     \<exists>rs. join_loop flags this qs = SMap rs \<and> joins flags ps qs rs"
proof (induction flags this "from" and flags this qs arbitrary: and ps rule: Join_cases_induct)
  case (1 flags this qs)
  have qs: "pnf qs" "\<not> redundant qs" "qs \<noteq> []" using "1.prems"(2) nf_nonempty by (auto simp: nf_SMap)
  show ?case
  proof (cases "is_specified this")
    case True
    then obtain ps where ps: "edit_map this = Some ps" "pnf ps" using edit_map_proper "1.prems"(1) by blast
    with "1.IH" True qs obtain rs where "join_loop flags this qs = SMap rs" "joins flags ps qs rs" by blast
    then show ?thesis using True joins_not_redundant [OF _ ps(2) qs(1)] qs(2) by (simp add: Join.simps)
  qed (use "1.prems" in \<open>auto simp: Join.simps\<close>)
next
  case (undefined flags this)
  then show ?case by (simp add: proper_def)
next
  case (data flags this c bs)
  let ?v = "SData c bs"
  show ?case
  proof (cases "?v \<noteq> SWild \<and> is_specified this \<and> (is_map this \<or> this \<noteq> ?v)")
    case True
    then show ?thesis using Join_simple [OF data, of flags] by fastforce
  next
    case False
    have "SValue_Compare this ?v \<noteq> 0 \<longleftrightarrow> this \<noteq> ?v"
      using SValue_Compare_eq(1) nf_codes_ok data by (auto simp: proper_def)
    then have "Join flags this ?v \<in> {this, ?v}"
      using False data proper_simple_final [OF data(2)] by (auto simp: Join.simps)
    then show ?thesis using data by auto
  qed
next
  case (3 flags this)
  then have "this = SMap ps" by (auto simp: edit_map_def is_map_iff)
  then show ?case using 3(2) by (auto simp: join_loop.simps joins_def wilds_def join_option_def split: option.splits)
next
  case (4 flags this key v qs ps)
  note h = "4.prems"(1-3)
  show ?case
  proof (cases "BeginEditItem this key")
    case None
    obtain ps1 where a: "add_item this key v = SMap ps1" "pnf ps1" "\<And>rs. joins flags ps1 qs rs \<Longrightarrow> joins flags ps ((key, v) # qs) rs"
      using join_step_add [OF h None] by blast
    have "\<exists>rs. join_loop flags (SMap ps1) qs = SMap rs \<and> joins flags ps1 qs rs"
      using "4.IH"(2) [of ps1] None a pnf_Cons(1) [OF h(3)] by (auto simp: edit_map_def)
    then show ?thesis using a None by (auto simp: join_loop.simps)
  next
    case (Some i)
    have "proper (snd (svpairs this ! i)) \<Longrightarrow> proper v \<Longrightarrow> proper (join_value flags (snd (svpairs this ! i)) v)"
      using "4.IH"(1) [OF Some] by (simp add: join_value_def)
    then obtain ps1 where a: "this = SMap ps" "end_edit ps i (join_value flags (snd (ps ! i)) v) = SMap ps1" "pnf ps1"
      "\<And>rs. joins flags ps1 qs rs \<Longrightarrow> joins flags ps ((key, v) # qs) rs"
      using join_step_edit [OF h Some] by blast
    let ?next = "case BeginEditItem this key of None \<Rightarrow> add_item this key v
       | Some i \<Rightarrow> end_edit (svpairs this) i (if \<not> no_recursion flags then Join flags (snd (svpairs this ! i)) v else v)"
    have e: "?next = SMap ps1" using a(1,2) Some by (auto simp: join_value_def split: if_splits)
    have "\<exists>rs. join_loop flags (SMap ps1) qs = SMap rs \<and> joins flags ps1 qs rs"
      using "4.IH"(2) [of ps1, unfolded e] a(3) pnf_Cons(1) [OF h(3)] by (simp add: edit_map_def)
    then show ?thesis using a(4) e by (auto simp: join_loop.simps)
  qed
qed

section \<open>Joining is pointwise\<close>

definition members :: "sval \<Rightarrow> sval set" where
  "members v = wilds (items v)"

definition under :: "sval \<Rightarrow> sval \<Rightarrow> sval option" where
  "under v k = map_of (items v) k"

lemma items_SMap [simp]: "items (SMap ps) = ps"
  by (simp add: items_def)

lemma items_edit_map: "edit_map v = Some ps \<Longrightarrow> is_specified v \<Longrightarrow> items v = ps"
  by (auto simp: edit_map_def items_def is_specified_def split: if_splits)

lemma proper_items:
  assumes "proper v" "v \<noteq> SWild"
  shows "edit_map v = Some (items v)" "pnf (items v)" "is_specified v" "redundant (items v) \<longleftrightarrow> \<not> is_map v" "\<not> is_map v \<Longrightarrow> items v = [(SWild, v)]"
proof -
  show s: "is_specified v" using assms wild_unique by (auto simp: proper_def is_specified_def)
  obtain ps where ps: "edit_map v = Some ps" "pnf ps" "is_map v \<Longrightarrow> \<not> redundant ps" "\<not> is_map v \<Longrightarrow> ps = [(SWild, v)]"
    using edit_map_proper [OF assms(1) s] by blast
  have i: "items v = ps" using items_edit_map [OF ps(1) s] .
  with ps show "edit_map v = Some (items v)" "pnf (items v)" "redundant (items v) \<longleftrightarrow> \<not> is_map v" "\<not> is_map v \<Longrightarrow> items v = [(SWild, v)]"
    by (auto simp: redundant_def)
qed

lemma items_simple: "proper v \<Longrightarrow> \<not> is_map v \<Longrightarrow> items v = [(SWild, v)]"
  by (simp add: items_def proper_def)

lemma Join_items:
  assumes th: "proper this" "this \<noteq> SWild" and "from": "proper from" "from \<noteq> SWild"
  shows "joins flags (items this) (items from) (items (Join flags this from)) \<or> this = from \<and> \<not> is_map this \<and> Join flags this from = this"
proof -
  note t = proper_items [OF th]
  show ?thesis
  proof (cases "from")
    case (SMap qs)
    then have qs: "pnf qs" "qs \<noteq> []" using "from" nf_nonempty by (auto simp: nf_SMap)
    obtain rs where "join_loop flags this qs = SMap rs" "joins flags (items this) qs rs"
      using Join_joins(2) [OF t(1,2) qs(1)] qs(2) by blast
    then show ?thesis using SMap t(3) by (simp add: Join.simps)
  next
    case (SData c bs)
    show ?thesis
    proof (cases "is_map this \<or> this \<noteq> from")
      case True
      then obtain rs where "Join flags this from = SMap rs" "joins flags (items this) [(SWild, from)] rs"
        using Join_simple [OF th(1) "from"(1) _ "from"(2) t(3) True, of flags] t(1) SData by auto
      then show ?thesis using items_simple [OF "from"(1)] SData by simp
    next
      case False
      then have "this = from" "\<not> is_map this" by auto
      then show ?thesis using SData proper_simple_final [OF "from"(1)] "from"(2) by (simp add: Join.simps)
    qed
  qed (use "from" in \<open>simp add: proper_def\<close>)
qed

lemma Join_pointwise:
  assumes "proper this" "this \<noteq> SWild" "proper from" "from \<noteq> SWild"
  shows "members (Join flags this from) = members this \<union> members from"
    "k \<noteq> SWild \<Longrightarrow> under (Join flags this from) k = join_option flags (under this k) (under from k)"
  using Join_items [OF assms, of flags] items_simple [OF assms(1)]
  by (auto simp: joins_def members_def under_def join_option_def wilds_def)

lemma Join_not_wild:
  assumes "proper this" "this \<noteq> SWild" "proper from" "from \<noteq> SWild"
  shows "Join flags this from \<noteq> SWild"
proof
  assume w: "Join flags this from = SWild"
  then have i: "items (Join flags this from) = [(SWild, SWild)]" by (simp add: items_def)
  have "\<not> pnf [(SWild, SWild)]" by (simp add: pnf_def pair_ok_def)
  then show False using Join_items [OF assms, of flags] i w assms(2) by (auto simp: joins_def)
qed

section \<open>Equality of normal values\<close>

lemma pnf_unique:
  assumes "pnf ps" "pnf qs" "set ps = set qs"
  shows "ps = qs"
proof -
  have irrefl: "\<not> item_order p p < 0" for p using item_order.cmp_refl by simp
  have "sorted_wrt (\<lambda>p q. item_order p q < 0) xs \<Longrightarrow> sorted_wrt (\<lambda>p q. item_order p q < 0) ys \<Longrightarrow> set xs = set ys \<Longrightarrow> xs = ys" for xs ys
  proof (induction xs arbitrary: ys)
    case (Cons x xs)
    then obtain y ys' where y: "ys = y # ys'" by (cases ys) auto
    have "x = y"
    proof (rule ccontr)
      assume "x \<noteq> y"
      then have "item_order x y < 0" "item_order y x < 0" using Cons.prems y by auto
      then show False using item_order_antisym [of x y] by simp
    qed
    moreover have "x \<notin> set xs" "y \<notin> set ys'" using Cons.prems y irrefl [of x] irrefl [of y] by (metis sorted_wrt.simps(2))+
    ultimately have "set xs = set ys'" using Cons.prems(3) y by (simp add: insert_eq_iff)
    with \<open>x = y\<close> Cons.IH [of ys'] Cons.prems(1,2) y show ?case by simp
  qed simp
  then show ?thesis using assms by (simp add: pnf_def sorted_by_def)
qed

lemma value_eqI:
  assumes v: "proper v" "v \<noteq> SWild" and w: "proper w" "w \<noteq> SWild"
    and m: "members v = members w" and u: "\<And>k. k \<noteq> SWild \<Longrightarrow> under v k = under w k"
  shows "v = w"
proof -
  note pv = proper_items [OF v] and pw = proper_items [OF w]
  have "p \<in> set (items v) \<longleftrightarrow> p \<in> set (items w)" for p
  proof (cases "fst p = SWild")
    case True
    then show ?thesis using m by (cases p) (auto simp: members_def wilds_def)
  next
    case False
    then show ?thesis
      using u [OF False] pnf_map_of_iff [OF pv(2) False, of "snd p"] pnf_map_of_iff [OF pw(2) False, of "snd p"] by (simp add: under_def)
  qed
  then have e: "items v = items w" using pnf_unique [OF pv(2) pw(2)] by blast
  show ?thesis
  proof (cases "is_map v")
    case True
    with e pv(4) pw(4) have "is_map w" by simp
    with True e show ?thesis by (auto simp: is_map_iff)
  next
    case False
    with e pv(4) pw(4) have "\<not> is_map w" by simp
    with False e pv(5) pw(5) show ?thesis by simp
  qed
qed

section \<open>Joining is a semilattice\<close>

definition sane :: "sval \<Rightarrow> bool" where
  "sane v \<longleftrightarrow> nf v \<and> \<not> is_error v"

lemma sane_cases: "sane v \<Longrightarrow> v = SUndefined \<or> v = SWild \<or> proper v \<and> v \<noteq> SWild"
  by (cases v) (auto simp: sane_def proper_def)

lemma proper_sane: "proper v \<Longrightarrow> sane v"
  by (simp add: sane_def proper_def)

lemma Join_undefined [simp]: "Join flags SUndefined v = v" "\<not> is_error v \<Longrightarrow> Join flags v SUndefined = v"
  by (cases v; auto simp: Join.simps is_specified_def is_final_def items_def)+

lemma Join_wild [simp]: "Join flags v SWild = SWild" "sane v \<Longrightarrow> Join flags SWild v = SWild"
proof -
  show "Join flags v SWild = SWild" by (simp add: SWild_def Join.simps(3)) (simp add: SWild_def [symmetric] is_final_def)
  show "sane v \<Longrightarrow> Join flags SWild v = SWild"
    using wild_unique [of v] by (cases v) (auto simp: Join.simps is_specified_def sane_def is_final_def)
qed

lemma Join_sane: "sane a \<Longrightarrow> sane b \<Longrightarrow> sane (Join flags a b)"
  using sane_cases [of a] sane_cases [of b] Join_joins(1) [of a b flags] proper_sane by (auto simp: sane_def)

lemma under_size:
  assumes "under v k = Some x"
  shows "size x < size v \<or> k = SWild"
proof (cases v)
  case (SMap ps)
  then have "(k, x) \<in> set ps" using assms by (auto simp: under_def dest: map_of_SomeD)
  then have "size_prod size size (k, x) \<le> size_list (size_prod size size) ps" by (intro size_list_estimation') auto
  then show ?thesis using SMap by simp
qed (use assms in \<open>auto simp: under_def items_def split: if_splits\<close>)

lemma under_proper:
  assumes "proper v" "under v k = Some x" "k \<noteq> SWild"
  shows "proper x" "size x < size v"
proof -
  have "v \<noteq> SWild" using assms(2,3) by (auto simp: under_def items_def split: if_splits)
  then show "proper x"
    using proper_mem [OF proper_items(2) [OF assms(1)]] assms(2) by (auto simp: under_def dest: map_of_SomeD)
  show "size x < size v" using under_size assms by blast
qed

text \<open>Two values are equal if joins on both sides have the same members and the same values under every key.\<close>

lemma Join_idem_proper:
  assumes "\<not> no_recursion flags" "proper v"
  shows "Join flags v v = v"
  using assms(2)
proof (induction v rule: measure_induct_rule [of size])
  case (less v)
  show ?case
  proof (cases "v = SWild")
    case False
    note J = Join_pointwise [OF less.prems False less.prems False, where flags = flags]
    show ?thesis
    proof (rule value_eqI [OF Join_joins(1) [OF less.prems less.prems] Join_not_wild [OF less.prems False less.prems False] less.prems False])
      show "members (Join flags v v) = members v" using J(1) by simp
      fix k assume "k \<noteq> SWild"
      then show "under (Join flags v v) k = under v k"
        using J(2) less.IH under_proper [OF less.prems] assms(1) by (auto simp: join_option_def join_value_def split: option.split)
    qed
  qed simp
qed

lemma Join_commute_proper:
  assumes "\<not> no_recursion flags" "proper a" "proper b"
  shows "Join flags a b = Join flags b a"
  using assms(2,3)
proof (induction a arbitrary: b rule: measure_induct_rule [of size])
  case (less a)
  show ?case
  proof (cases "a = SWild \<or> b = SWild")
    case False
    then have n: "a \<noteq> SWild" "b \<noteq> SWild" by auto
    note ab = less.prems(1) n(1) less.prems(2) n(2) and ba = less.prems(2) n(2) less.prems(1) n(1)
    show ?thesis
    proof (rule value_eqI [OF Join_joins(1) [OF less.prems] Join_not_wild [OF ab] Join_joins(1) [OF less.prems(2,1)] Join_not_wild [OF ba]])
      show "members (Join flags a b) = members (Join flags b a)" using Join_pointwise(1) [OF ab] Join_pointwise(1) [OF ba] by auto
      fix k assume k: "k \<noteq> SWild"
      have "Join flags x y = Join flags y x" if "under a k = Some x" "under b k = Some y" for x y
        using less.IH under_proper [OF less.prems(1) that(1) k] under_proper(1) [OF less.prems(2) that(2) k] by blast
      then show "under (Join flags a b) k = under (Join flags b a) k"
        using Join_pointwise(2) [OF ab k] Join_pointwise(2) [OF ba k] assms(1)
        by (auto simp: join_option_def join_value_def split: option.split)
    qed
  qed (use less.prems proper_sane in auto)
qed

lemma Join_assoc_proper:
  assumes "\<not> no_recursion flags" "proper a" "proper b" "proper c"
  shows "Join flags (Join flags a b) c = Join flags a (Join flags b c)"
  using assms(2-4)
proof (induction a arbitrary: b c rule: measure_induct_rule [of size])
  case (less a)
  have p: "proper (Join flags a b)" "proper (Join flags b c)" using less.prems Join_joins(1) by auto
  show ?case
  proof (cases "a = SWild \<or> b = SWild \<or> c = SWild")
    case False
    then have n: "a \<noteq> SWild" "b \<noteq> SWild" "c \<noteq> SWild" by auto
    note ab = less.prems(1) n(1) less.prems(2) n(2) and bc = less.prems(2) n(2) less.prems(3) n(3)
    note l = p(1) Join_not_wild [OF ab] less.prems(3) n(3) and r = less.prems(1) n(1) p(2) Join_not_wild [OF bc]
    show ?thesis
    proof (rule value_eqI [OF Join_joins(1) [OF p(1) less.prems(3)] Join_not_wild [OF l] Join_joins(1) [OF less.prems(1) p(2)] Join_not_wild [OF r]])
      show "members (Join flags (Join flags a b) c) = members (Join flags a (Join flags b c))"
        using Join_pointwise(1) [OF ab] Join_pointwise(1) [OF bc] Join_pointwise(1) [OF l] Join_pointwise(1) [OF r] by auto
      fix k assume k: "k \<noteq> SWild"
      have "Join flags (Join flags x y) z = Join flags x (Join flags y z)"
        if "under a k = Some x" "under b k = Some y" "under c k = Some z" for x y z
        using less.IH under_proper [OF less.prems(1) that(1) k] under_proper(1) [OF less.prems(2) that(2) k]
          under_proper(1) [OF less.prems(3) that(3) k] by blast
      then show "under (Join flags (Join flags a b) c) k = under (Join flags a (Join flags b c)) k"
        using Join_pointwise(2) [OF ab k] Join_pointwise(2) [OF bc k] Join_pointwise(2) [OF l k] Join_pointwise(2) [OF r k] assms(1)
        by (auto simp: join_option_def join_value_def split: option.split)
    qed
  qed (use less.prems p proper_sane in auto)
qed

text \<open>
  C22. Joining values. On values in normal form that are no errors, \<^verbatim>\<open>Join\<close> with recursion into equal keys gives a value
  in normal form, and it is idempotent, commutative and associative, with the undefined value as the
  unit and the wild value absorbing everything: the order in which values are joined does not matter.
\<close>

theorem Join_semilattice:
  assumes "\<not> no_recursion flags" "sane a" "sane b" "sane c"
  shows "sane (Join flags a b) \<and> Join flags a a = a \<and> Join flags a b = Join flags b a \<and>
    Join flags (Join flags a b) c = Join flags a (Join flags b c) \<and>
    Join flags SUndefined a = a \<and> Join flags a SUndefined = a \<and> Join flags a SWild = SWild \<and> Join flags SWild a = SWild"
proof -
  note p = Join_idem_proper [OF assms(1)] Join_commute_proper [OF assms(1)] Join_assoc_proper [OF assms(1)]
  have "Join flags a a = a \<and> Join flags a b = Join flags b a \<and> Join flags (Join flags a b) c = Join flags a (Join flags b c)"
    using sane_cases [OF assms(2)] sane_cases [OF assms(3)] sane_cases [OF assms(4)] p assms(2-4) Join_sane
    by (elim disjE conjE) (simp_all add: sane_def)
  moreover have "Join flags SUndefined a = a" "Join flags a SUndefined = a" "Join flags a SWild = SWild" "Join flags SWild a = SWild"
    using assms(2) by (simp_all add: sane_def)
  ultimately show ?thesis using Join_sane [OF assms(2,3)] by blast
qed

section \<open>Adding an item\<close>

text \<open>The last branches of \<^verbatim>\<open>JoinItem\<close> are one round of the loop of \<^verbatim>\<open>Join\<close>.\<close>

lemma items_sane: "sane v \<Longrightarrow> v \<noteq> SWild \<Longrightarrow> edit_map v = Some (items v) \<and> pnf (items v)"
proof -
  assume v: "sane v" "v \<noteq> SWild"
  from sane_cases [OF v(1)] show ?thesis
    using v(2) proper_items(1,2) [of v]
    by (elim disjE) (simp_all add: edit_map_def items_def is_specified_def pnf_def sorted_by_def)
qed

lemma pnf_pair: "pnf [(k, v)] \<longleftrightarrow> pair_ok (k, v) \<and> nf k \<and> nf v"
  by (auto simp: pnf_def sorted_by_def)

lemma join_one:
  assumes th: "sane this" "this \<noteq> SWild" and kv: "pnf [(key, value)]"
    and ne: "key = SWild \<Longrightarrow> this \<noteq> SUndefined \<and> value \<noteq> this"
  shows "\<exists>rs. join_loop flags this [(key, value)] = SMap rs \<and> nf (SMap rs) \<and> joins flags (items this) [(key, value)] rs"
proof -
  have i: "edit_map this = Some (items this)" "pnf (items this)" using items_sane [OF th] by auto
  obtain rs where rs: "join_loop flags this [(key, value)] = SMap rs" "joins flags (items this) [(key, value)] rs"
    using Join_joins(2) [OF i kv] by blast
  have "nf (SMap rs)"
  proof (cases "redundant (items this) \<and> key = SWild")
    case True
    then have "items this = [(SWild, this)]" "value \<noteq> this"
      using sane_cases [OF th(1)] th(2) proper_items(4,5) ne by auto
    then have "wilds rs = {this, value}" using rs(2) True by (auto simp: joins_def wilds_def)
    then show ?thesis using redundant_iff [of rs] rs(2) \<open>value \<noteq> this\<close> by (auto simp: joins_def nf_SMap)
  next
    case False
    have "redundant [(key, value)] \<longleftrightarrow> key = SWild" using kv wild_unique [of key] by (simp add: redundant_def pnf_pair)
    then show ?thesis using joins_not_redundant [OF rs(2) i(2) kv] False by blast
  qed
  then show ?thesis using rs by blast
qed

lemma JoinItem_branches:
  assumes "sane this" "this \<noteq> SWild" "proper key" "proper value"
  shows "JoinItem flags this key value =
    (if key = SWild \<and> (this = SUndefined \<or> value = SWild) then value
     else if key = SWild \<and> is_map value then Join flags this value
     else if is_null value then Join flags this key
     else if is_map key then Join flags this (InitAsMap flags key value)
     else join_loop flags this [(key, value)])"
proof -
  have "\<not> is_final this" using assms(1,2) wild_unique by (auto simp: sane_def is_final_def)
  moreover have "is_wild key \<longleftrightarrow> key = SWild" "is_final value \<longleftrightarrow> value = SWild" "is_defined key" "is_defined value"
    "\<not> is_error key" "\<not> is_error value"
    using assms(3,4) wild_unique proper_simple_final by (auto simp: proper_def)
  moreover have "is_defined this \<longleftrightarrow> this \<noteq> SUndefined" by (cases this) auto
  ultimately show ?thesis
    by (simp add: JoinItem.simps [of flags this] join_loop.simps Let_def cong: if_cong)
qed

lemma pair_ok_pnf:
  assumes "proper k" "proper v" "k = SWild \<Longrightarrow> \<not> is_map v \<and> v \<noteq> SWild"
  shows "pnf [(k, v)]"
  using assms wild_unique [of k] wild_unique [of v] by (auto simp: pnf_pair pair_ok_def proper_def)

lemma JoinItem_proper_step:
  assumes th: "sane this" "this \<noteq> SWild" and kv: "proper key" "proper value"
    and ne: "\<not> (key = SWild \<and> value = this \<and> \<not> is_map this \<and> \<not> is_null this)"
    and init: "is_map key \<Longrightarrow> \<not> is_null value \<Longrightarrow> proper (InitAsMap flags key value)"
  shows "proper (JoinItem flags this key value)"
proof -
  have J: "proper x \<Longrightarrow> proper (Join flags this x)" for x
    using sane_cases [OF th(1)] th(2) Join_joins(1) by auto
  show ?thesis
  proof (cases "key = SWild \<and> (this = SUndefined \<or> value = SWild) \<or> key = SWild \<and> is_map value \<or> is_null value \<or> is_map key")
    case True
    then show ?thesis unfolding JoinItem_branches [OF th kv] using J kv init by auto
  next
    case False
    then have "JoinItem flags this key value = join_loop flags this [(key, value)]"
      unfolding JoinItem_branches [OF th kv] by auto
    moreover have "pnf [(key, value)]" using pair_ok_pnf kv False by blast
    moreover have "key = SWild \<Longrightarrow> this \<noteq> SUndefined \<and> value \<noteq> this" using ne False by auto
    ultimately show ?thesis using join_one [OF th, of key "value" flags] by auto
  qed
qed

lemma JoinItem_proper:
  "proper key \<Longrightarrow> proper value \<Longrightarrow> proper (InitAsMap flags key value)"
  "pnf ps \<Longrightarrow> proper value \<Longrightarrow> proper this \<or> this = SUndefined \<and> ps \<noteq> [] \<Longrightarrow> proper (init_loop ps value this)"
  "sane this \<Longrightarrow> proper key \<Longrightarrow> proper value \<Longrightarrow> \<not> (key = SWild \<and> value = this \<and> \<not> is_map this \<and> \<not> is_null this) \<Longrightarrow>
     proper (JoinItem flags this key value)"
proof (induction flags key "value" and ps "value" this and flags this key "value" rule: InitAsMap_init_loop_JoinItem.induct)
  case (1 flags key x)
  have d: "is_defined key" "is_defined x" "\<not> is_error key" "\<not> is_error x" "is_wild key \<longleftrightarrow> key = SWild"
    using "1.prems" wild_unique by (auto simp: proper_def)
  consider "key = SWild" | "key \<noteq> SWild" "\<not> is_map key \<or> no_flatten flags" | "is_map key" "\<not> no_flatten flags" by auto
  then show ?case
  proof cases
    case 2
    then have "pnf [(key, x)]" "\<not> redundant [(key, x)]" using pair_ok_pnf "1.prems" d by (auto simp: redundant_def)
    with 2 d show ?thesis by (auto simp: InitAsMap.simps nf_SMap)
  next
    case 3
    then obtain ps where key: "key = SMap ps" by (auto simp: is_map_iff)
    then have "pnf ps" "ps \<noteq> []" using "1.prems"(1) nf_nonempty by (auto simp: nf_SMap)
    with 3 d key "1.IH" "1.prems"(2) show ?thesis by (auto simp: InitAsMap.simps)
  qed (use "1.prems" d in \<open>simp add: InitAsMap.simps\<close>)
next
  case (2 x this)
  then show ?case by (simp add: init_loop.simps)
next
  case (3 k v ps x this)
  have kv: "proper k" "proper v" "k = SWild \<Longrightarrow> \<not> is_map v \<and> v \<noteq> SWild" and ps: "pnf ps"
    using proper_mem [OF "3.prems"(1), of k v] pnf_memD(8) [OF "3.prems"(1), of k v] pnf_Cons(1) [OF "3.prems"(1)] by auto
  let ?y = "InitAsMap 0 v x"
  have y: "proper ?y" using "3.IH"(1) kv(2) "3.prems"(2) by blast
  have "is_map ?y" if "k = SWild"
    using that kv "3.prems"(2) wild_unique [of v] by (auto simp: InitAsMap.simps proper_def)
  then have "\<not> (k = SWild \<and> ?y = this \<and> \<not> is_map this \<and> \<not> is_null this)" by auto
  moreover have "sane this" using "3.prems"(3) proper_sane by (auto simp: sane_def)
  ultimately have "proper (JoinItem 0 this k ?y)" using "3.IH"(2) kv(1) y by blast
  then show ?case using "3.IH"(3) ps "3.prems"(2) by (simp add: init_loop.simps)
next
  case (4 flags this key x)
  show ?case
  proof (cases "this = SWild")
    case True
    then have "JoinItem flags this key x = SWild" by (simp add: JoinItem.simps is_final_def)
    then show ?thesis by (simp add: proper_def)
  next
    case False
    have f: "\<not> is_final this" using "4.prems"(1) False wild_unique by (auto simp: sane_def is_final_def)
    show ?thesis
    proof (rule JoinItem_proper_step [OF "4.prems"(1) False "4.prems"(2-4)])
      assume m: "is_map key" "\<not> is_null x"
      then have "\<not> is_wild key" by auto
      with m "4.IH" f "4.prems"(2,3) show "proper (InitAsMap flags key x)" by (simp add: proper_def)
    qed
  qed
qed

section \<open>Looking up\<close>

lemma IndexFor_wild:
  assumes ps: "pnf ps" and k: "nf k"
  shows "IndexFor ps SWild k \<ge> 0 \<longleftrightarrow> k \<in> wilds ps"
proof (cases "is_map k")
  case False
  obtain found i where g: "GetIndexOf ps SWild k = (found, i)" by fastforce
  show ?thesis
    using GetIndexOf_nf(1) [OF ps nf_SWild(1) _ g] k False g by (simp add: IndexFor_def wilds_def split: bool.split)
next
  case True
  have "k \<notin> wilds ps" using pnf_memD(8) [OF ps] True by (auto simp: wilds_def)
  moreover have "GetIndexOf ps SWild k \<noteq> (True, i)" for i
  proof
    assume g: "GetIndexOf ps SWild k = (True, i)"
    note G = GetIndexOf_found [OF g]
    have "pair_ok (ps ! i)" using pnf_memD(1) [OF ps, of "fst (ps ! i)" "snd (ps ! i)"] G(1) by simp
    then have "\<not> is_wild (fst (ps ! i)) \<or> \<not> is_map (snd (ps ! i))" by (auto simp: pair_ok_def)
    then show False
      using compare_map_wild_map [of "fst (ps ! i)" "snd (ps ! i)" SWild k] G(2) True by (auto simp: item_ok_def)
  qed
  ultimately show ?thesis by (auto simp: IndexFor_def split: prod.split bool.split)
qed

definition lookup_in :: "sval \<Rightarrow> sval \<Rightarrow> sval" where
  "lookup_in v k = (case under v k of Some x \<Rightarrow> x | None \<Rightarrow> if k \<in> members v then SNull else SUndefined)"

lemma ValueFor_lookup:
  assumes v: "sane v" "v \<noteq> SWild" and k: "nf k" "k \<noteq> SWild" "is_defined k"
  shows "ValueFor v k = lookup_in v k"
proof (cases "is_map v")
  case True
  then obtain ps where ps: "v = SMap ps" by (auto simp: is_map_iff)
  have p: "pnf ps" using v(1) ps by (simp add: sane_def nf_SMap)
  show ?thesis
    using IndexFor_nf [OF p k(1,2), of SUndefined] IndexFor_wild [OF p k(1)] wild_unique [OF k(1)] k(2)
    by (auto simp: ps ValueFor_def lookup_in_def under_def members_def B_OK_def Let_def split: option.splits)
next
  case False
  have e: "SValue_Compare k v = 0 \<longleftrightarrow> k = v" using SValue_Compare_eq(1) nf_codes_ok k(1) v(1) by (auto simp: sane_def)
  have w: "\<not> is_wild k" "\<not> is_wild v" "\<not> is_error v" using wild_unique k v by (auto simp: sane_def)
  show ?thesis
    using False e w k(2,3) by (auto simp: ValueFor_def lookup_in_def under_def members_def items_def wilds_def)
qed

section \<open>What joining does\<close>

text \<open>
  C23. What a join contains. Take two values in normal form, neither wild nor an error. The set members
  of their join are those of both, and under every other key there is what either has there; where both
  have a value the two are joined, or replaced by the second if the caller asks for no recursion.
\<close>

theorem Join_contents:
  assumes "sane this" "this \<noteq> SWild" "sane from" "from \<noteq> SWild"
  shows "sane (Join flags this from) \<and> members (Join flags this from) = members this \<union> members from \<and>
    (\<forall>k. k \<noteq> SWild \<longrightarrow> under (Join flags this from) k =
      (case under this k of
         None \<Rightarrow> under from k
       | Some a \<Rightarrow> (case under from k of None \<Rightarrow> Some a | Some b \<Rightarrow> Some (if no_recursion flags then b else Join flags a b))))"
proof -
  have u: "members SUndefined = {}" "under SUndefined k = None" for k by (auto simp: members_def under_def items_def wilds_def)
  have "members (Join flags this from) = members this \<union> members from \<and>
    (\<forall>k. k \<noteq> SWild \<longrightarrow> under (Join flags this from) k = join_option flags (under this k) (under from k))"
    using sane_cases [OF assms(1)] sane_cases [OF assms(3)] assms Join_pointwise u
    by (elim disjE) (auto simp: join_option_def sane_def split: option.split)
  then show ?thesis using Join_sane [OF assms(1,3)] unfolding join_option_def join_value_def by blast
qed

text \<open>
  C24. Values stay in normal form. Setting an item of a value in normal form, with a key and a value that are
  defined, in normal form and no errors, gives a value in normal form again, with one exception: adding
  a simple value other than null to itself (the wild key means membership) leaves a map with that single member, which
  is not in normal form and no longer equal to the value.
\<close>

theorem JoinItem_normal_form:
  assumes "sane this" "this \<noteq> SWild" "proper key" "proper value"
  shows "if key = SWild \<and> value = this \<and> \<not> is_map this \<and> \<not> is_null this
    then JoinItem flags this key value = SMap [(SWild, this)] \<and> \<not> nf (JoinItem flags this key value)
    else nf (JoinItem flags this key value) \<and> is_defined (JoinItem flags this key value) \<and> \<not> is_error (JoinItem flags this key value)"
proof (cases "key = SWild \<and> value = this \<and> \<not> is_map this \<and> \<not> is_null this")
  case True
  then have "proper this" "value \<noteq> SWild" using assms(2,4) by auto
  then have i: "edit_map this = Some [(SWild, this)]" "pnf [(SWild, this)]"
    using proper_items [OF _ assms(2)] True by auto
  have "this \<noteq> SUndefined" using \<open>proper this\<close> by (auto simp: proper_def)
  then have J: "JoinItem flags this key value = join_loop flags this [(SWild, this)]"
    unfolding JoinItem_branches [OF assms] using True assms(2) by simp
  have "set (fst (add_pair [(SWild, this)] SWild this)) = set [(SWild, this)]" "pnf (fst (add_pair [(SWild, this)] SWild this))"
    using add_pair_nf [OF i(2), of SWild this] i(2) by (auto simp: pnf_pair)
  then have "fst (add_pair [(SWild, this)] SWild this) = [(SWild, this)]" using pnf_unique i(2) by blast
  moreover have "BeginEditItem this SWild = None" by (simp add: BeginEditItem_def)
  ultimately have "JoinItem flags this key value = SMap [(SWild, this)]"
    unfolding J using i(1) by (simp add: join_loop.simps add_item_def)
  then show ?thesis using True by (simp add: nf_SMap redundant_def)
next
  case False
  have "proper (JoinItem flags this key value)" using JoinItem_proper(3) [OF assms(1,3,4)] False by blast
  with False show ?thesis by (simp only: proper_def if_False) simp
qed

text \<open>
  Set and get. After \<^verbatim>\<open>JoinItem\<close> with a simple key and a value that is not null, \<^verbatim>\<open>ValueFor\<close> of that key
  gives the new value, joined to the one that was there before, and \<^verbatim>\<open>ValueFor\<close> of every other key is as it was.
\<close>

lemma JoinItem_ValueFor:
  assumes "sane this" "this \<noteq> SWild" "proper key" "key \<noteq> SWild" "\<not> is_map key" "proper value" "\<not> is_null value"
    and "nf k" "k \<noteq> SWild" "is_defined k"
  shows "ValueFor (JoinItem flags this key value) k =
    (if k = key then case under this key of None \<Rightarrow> value | Some a \<Rightarrow> if no_recursion flags then value else Join flags a value
     else ValueFor this k)"
proof -
  have kv: "pnf [(key, value)]" using pair_ok_pnf assms(3,4,6) by blast
  have J: "JoinItem flags this key value = join_loop flags this [(key, value)]"
    unfolding JoinItem_branches [OF assms(1,2,3,6)] using assms(4,5,7) by simp
  obtain rs where rs: "join_loop flags this [(key, value)] = SMap rs" "nf (SMap rs)" "joins flags (items this) [(key, value)] rs"
    using join_one [OF assms(1,2) kv, of flags] assms(4) by blast
  have m: "members (SMap rs) = members this" using rs(3) assms(4) by (auto simp: joins_def members_def wilds_def)
  have u: "under (SMap rs) k = join_option flags (under this k) (if k = key then Some value else None)"
    using rs(3) assms(9) by (simp add: joins_def under_def)
  have "sane (SMap rs)" "SMap rs \<noteq> SWild" using rs(2) by (auto simp: sane_def SWild_def)
  then show ?thesis
    unfolding J rs(1) ValueFor_lookup [OF \<open>sane (SMap rs)\<close> \<open>SMap rs \<noteq> SWild\<close> assms(8-10)] ValueFor_lookup [OF assms(1,2,8-10)]
    by (auto simp: lookup_in_def m u join_option_def join_value_def split: option.split)
qed

section \<open>Looking up strings\<close>

lemma compare_packed_data: "compare_packed v (m_type (SData c d)) d = SValue_Compare v (SData c d)"
  by (cases v) (auto simp: compare_packed_def)

lemma pack_type_SStr: "pack_type B_STRING_TYPE (length str + 1) = m_type (SStr str)"
  by (simp add: pack_type_def SStr_def m_type.simps)

lemma map_search_cong:
  "0 \<le> low \<Longrightarrow> high < int (length ps) \<Longrightarrow> (\<And>p. p \<in> set ps \<Longrightarrow> c p = d p) \<Longrightarrow> map_search c ps low high = map_search d ps low high"
proof (induction c ps low high rule: map_search.induct)
  case (1 c ps low high)
  show ?case
  proof (cases "low \<le> high")
    case True
    define mid where "mid = (low + high) div 2"
    have mid: "low \<le> mid" "mid \<le> high" "nat mid < length ps" using True "1.prems"(1,2) by (auto simp: mid_def)
    have e: "c (ps ! nat mid) = d (ps ! nat mid)" using "1.prems"(3) mid(3) by simp
    show ?thesis
      using "1.IH" [OF True mid_def refl] "1.prems" mid e
      by (simp add: map_search.simps [of c ps low high] map_search.simps [of d ps low high] mid_def [symmetric] Let_def)
  qed (simp add: map_search.simps)
qed

lemma SStr_facts: "nf (SStr str)" "SStr str \<noteq> SWild" "is_defined (SStr str)" "\<not> is_wild (SStr str)" "\<not> is_map (SStr str)"
proof -
  show n: "nf (SStr str)" by (simp add: SStr_def) code_simp
  show "SStr str \<noteq> SWild" by (simp add: SStr_def SWild_def)
  with n wild_unique show "\<not> is_wild (SStr str)" by blast
qed (simp_all add: SStr_def)

text \<open>
  Looking up a string. On a value that has no set members, \<^verbatim>\<open>ValueFor(const char*)\<close>, which compares the bytes
  directly, gives the same as \<^verbatim>\<open>ValueFor\<close> of the string value.
\<close>

lemma ValueFor_string_correct:
  assumes "sane this" "this \<noteq> SWild" "is_map this \<Longrightarrow> members this = {}"
  shows "ValueFor_string this str = ValueFor this (SStr str)"
proof (cases "is_map this")
  case True
  then obtain ps where ps: "this = SMap ps" by (auto simp: is_map_iff)
  have p: "pnf ps" using assms(1) ps by (simp add: sane_def nf_SMap)
  have c: "compare_packed (fst q) (m_type (SStr str)) (str @ [0]) = compare_map (fst q) (snd q) (SStr str) SUndefined" if "q \<in> set ps" for q
  proof -
    obtain k v where q: "q = (k, v)" by (cases q)
    have "k \<noteq> SWild" using assms(3) ps that q by (auto simp: members_def wilds_def)
    then have w: "\<not> is_wild k" using pnf_memD(2) [OF p, of k v] wild_unique that q by simp
    then have "compare_map k v (SStr str) SUndefined = item_order (k, v) (SStr str, SUndefined)"
      by (intro compare_map_item_order) (simp_all add: item_ok_def)
    then show ?thesis
      using w SStr_facts(4) by (simp add: q SStr_def compare_packed_data item_order_def item_key_def)
  qed
  have "GetIndexOf_data ps (m_type (SStr str)) (str @ [0]) = GetIndexOf ps (SStr str) SUndefined"
    unfolding GetIndexOf_data_def GetIndexOf_def by (rule map_search_cong) (use c in auto)
  then have "IndexFor_data ps (m_type (SStr str)) (str @ [0]) = IndexFor ps (SStr str) SUndefined"
    by (simp add: IndexFor_data_def IndexFor_def)
  then show ?thesis using SStr_facts(4) by (simp add: ps ValueFor_string_def ValueFor_def pack_type_SStr [simplified])
next
  case False
  have "\<not> is_wild this" "\<not> is_error this" using assms(1,2) wild_unique by (auto simp: sane_def)
  moreover have "SValue_Compare_data this B_STRING_TYPE (str @ [0]) = SValue_Compare this (SStr str)"
    using compare_packed_data [of this B_STRING_TYPE "str @ [0]"] pack_type_SStr [of str]
    by (simp add: SValue_Compare_data_def SStr_def)
  ultimately show ?thesis
    using False SStr_facts(4) SValue_Compare_antisym(1) [of this "SStr str"] by (simp add: ValueFor_string_def ValueFor_def)
qed

text \<open>With set members in the map the search can go astray: the bytes are compared with the wild key, not with its member.\<close>

definition set_and_string :: sval where
  "set_and_string = SMap [(SWild, SInt32 1), (SStr [0x61], SInt32 2)]"

lemma ValueFor_string_misses:
  "nf set_and_string" "ValueFor set_and_string (SStr [0x61]) = SInt32 2" "ValueFor_string set_and_string [0x61] = SUndefined"
  by code_simp+

section \<open>Examples\<close>

definition value_a :: sval where
  "value_a = SMap [(SInt32 1, SMap [(SStr [0x61], SInt32 7)]), (SWild, SInt32 5)]"

definition value_b :: sval where
  "value_b = SMap [(SInt32 1, SMap [(SStr [0x62], SNull)]), (SInt32 2, SInt32 20)]"

lemma example_facts: "sane value_a" "sane value_b" "value_a \<noteq> SWild" "value_b \<noteq> SWild" "\<not> no_recursion 0"
  by code_simp+

theorem Join_semilattice_witness:
  "Join 0 value_a value_b = Join 0 value_b value_a \<and> Join 0 (Join 0 value_a value_b) (SInt32 5) = Join 0 value_a (Join 0 value_b (SInt32 5))"
proof -
  have "sane (SInt32 5)" by code_simp
  then show ?thesis using Join_semilattice [OF example_facts(5,1,2)] by blast
qed

theorem Join_contents_witness:
  "members (Join 0 value_a value_b) = members value_a \<union> members value_b \<and> under (Join 0 value_a value_b) (SInt32 2) = Some (SInt32 20)"
proof -
  have "under value_a (SInt32 2) = None" "under value_b (SInt32 2) = Some (SInt32 20)" "SInt32 2 \<noteq> SWild" by code_simp+
  then show ?thesis using Join_contents [OF example_facts(1,3,2,4), of 0] by simp
qed

theorem JoinItem_normal_form_witness:
  "JoinItem 0 (SInt32 5) SWild (SInt32 5) = SMap [(SWild, SInt32 5)] \<and> nf (JoinItem 0 value_a (SInt32 3) SNull)"
proof -
  have f: "sane (SInt32 5)" "SInt32 5 \<noteq> SWild" "proper SWild" "proper (SInt32 5)" "\<not> is_map (SInt32 5)" "\<not> is_null (SInt32 5)"
    "proper (SInt32 3)" "proper SNull" "SInt32 3 \<noteq> SWild" by code_simp+
  show ?thesis
    using JoinItem_normal_form [OF f(1-4), of 0] JoinItem_normal_form [OF example_facts(1,3) f(7,8), of 0] f by simp
qed

lemma JoinItem_ValueFor_example: "ValueFor (JoinItem 0 value_a (SInt32 3) (SInt32 30)) (SInt32 3) = SInt32 30"
proof -
  have f: "proper (SInt32 3)" "SInt32 3 \<noteq> SWild" "\<not> is_map (SInt32 3)" "proper (SInt32 30)" "\<not> is_null (SInt32 30)"
    "nf (SInt32 3)" "is_defined (SInt32 3)" "under value_a (SInt32 3) = None" by code_simp+
  show ?thesis using JoinItem_ValueFor [OF example_facts(1,3) f(1-6,2,7), of 0] f(8) by simp
qed

lemma ValueFor_string_correct_example: "ValueFor_string (SMap [(SStr [0x62], SNull)]) [0x62] = SNull"
proof -
  let ?v = "SMap [(SStr [0x62], SNull)]"
  have f: "sane ?v" "?v \<noteq> SWild" "ValueFor ?v (SStr [0x62]) = SNull" by code_simp+
  have "members ?v = {}" using SStr_facts(2) [of "[0x62]"] by (auto simp: members_def wilds_def)
  then show ?thesis using ValueFor_string_correct [OF f(1,2), of "[0x62]"] f(3) by simp
qed

end
