(* ===== verification/Value_Algebra.thy ===== *)
theory Value_Algebra
  imports Value_Join
begin

text \<open>
  The rest of the algebra of values, \<^verbatim>\<open>src/libraries/libbinder/support/Value.cpp\<close>: mapping through
  another value, removing and retaining, removing and renaming single items, overlaying and inheriting,
  and the conversion of arrays.

  Where pairs are removed from a map the result depends on the capacity of its array, because
  \<^verbatim>\<open>BValueMap::RemoveMapAt\<close> goes wrong when it moves the rest to a smaller array (see \<open>Value_Map\<close>): the
  parameter \<open>cap\<close> gives the capacity of the array that holds a list of pairs, and the result is \<open>None\<close> where the
  code goes on with destroyed pairs or follows a null pointer.
\<close>

section \<open>Lookup through a whole value\<close>

text \<open>The first call of \<^verbatim>\<open>ValueFor\<close> in the loop has \<^verbatim>\<open>B_NO_VALUE_RECURSION\<close> set and is the plain lookup.\<close>

function (sequential) ValueFor_all :: "u32 \<Rightarrow> sval \<Rightarrow> sval \<Rightarrow> sval"
  and value_for_loop :: "u32 \<Rightarrow> sval \<Rightarrow> spair list \<Rightarrow> sval \<Rightarrow> sval"
where
  "ValueFor_all flags this (SMap ps) =
    (if no_recursion flags then ValueFor this (SMap ps)
     else if is_error this then this
     else if is_wild this then SMap ps
     else value_for_loop flags this ps SUndefined)"
| "ValueFor_all flags this key = ValueFor this key"
| "value_for_loop flags this [] val = val"
| "value_for_loop flags this ((key1, value1) # ps) val =
    (let value2 = ValueFor_all flags (ValueFor this key1) value1 in
     value_for_loop flags this ps (if is_defined value2 then Join flags val value2 else val))"
  by pat_completeness auto

termination
  by (relation "measure (case_sum (\<lambda>(_, _, key). size key) (\<lambda>(_, _, ps, _). size_list (size_prod size size) ps))") auto

fun map_values_loop :: "u32 \<Rightarrow> sval \<Rightarrow> spair list \<Rightarrow> sval \<Rightarrow> sval" where
  "map_values_loop flags from [] out = out"
| "map_values_loop flags from ((key1, value1) # ps) out =
    (let value2 = ValueFor_all flags from value1 in
     map_values_loop flags from ps (if is_defined value2 then JoinItem 0 out key1 value2 else out))"

definition MapValuesCopy :: "u32 \<Rightarrow> sval \<Rightarrow> sval \<Rightarrow> sval" where
  "MapValuesCopy flags this from =
    (if \<not> is_error this then
       if \<not> is_final from then map_values_loop flags from (items this) SUndefined
       else if is_wild from \<or> is_final this then this
       else from
     else this)"

definition Keys :: "sval \<Rightarrow> sval" where
  "Keys this =
    (if \<not> is_error this \<and> is_map this then
       fold (\<lambda>(k, _) val. if \<not> is_wild k then Join 0 val k else val) (svpairs this) SUndefined
     else SUndefined)"

section \<open>Removing and retaining\<close>

lemma size_svpairs_less: "\<not> is_simple v \<Longrightarrow> size_list (size_prod size size) (svpairs v) < size v"
  by (cases v) (auto simp: is_simple_iff)

function correct_remove :: "u32 \<Rightarrow> sval \<Rightarrow> sval \<Rightarrow> sval"
  and remove_loop :: "u32 \<Rightarrow> spair list \<Rightarrow> sval \<Rightarrow> sval \<Rightarrow> sval"
where
  "correct_remove flags lhs rhs =
    (if ErrorCheck rhs < B_OK then (if ErrorCheck lhs < B_OK then lhs else rhs)
     else if is_simple lhs then
       if is_simple rhs then (if \<not> is_wild rhs \<and> SValue_Compare lhs rhs \<noteq> 0 then lhs else SUndefined)
       else (if \<not> HasItem rhs SWild lhs then lhs else SUndefined)
     else remove_loop flags (svpairs lhs) rhs SUndefined)"
| "remove_loop flags [] rhs result = result"
| "remove_loop flags ((key, value) # ps) rhs result =
    remove_loop flags ps rhs
      (if \<not> no_recursion flags then
         JoinItem (flags OR B_NO_VALUE_FLATTEN) result key (correct_remove flags value (ValueFor rhs key))
       else if \<not> is_defined (ValueFor rhs key) then JoinItem (flags OR B_NO_VALUE_FLATTEN) result key value
       else result)"
  by pat_completeness auto

termination
  by (relation "measure (case_sum (\<lambda>(_, lhs, _). size lhs) (\<lambda>(_, ps, _, _). size_list (size_prod size size) ps))")
     (auto dest: size_svpairs_less)

definition RemoveCopy :: "u32 \<Rightarrow> sval \<Rightarrow> sval \<Rightarrow> sval" where
  "RemoveCopy flags this from = correct_remove flags this from"

function correct_retain :: "u32 \<Rightarrow> sval \<Rightarrow> sval \<Rightarrow> sval"
  and retain_loop :: "u32 \<Rightarrow> spair list \<Rightarrow> sval \<Rightarrow> sval \<Rightarrow> sval"
where
  "correct_retain flags lhs rhs =
    (if ErrorCheck rhs < B_OK then (if ErrorCheck lhs < B_OK then lhs else rhs)
     else if is_simple lhs then
       if is_simple rhs then
         (if is_wild rhs \<or> SValue_Compare lhs rhs = 0 then lhs else if is_wild lhs then rhs else SUndefined)
       else (if HasItem rhs SWild lhs then lhs else SUndefined)
     else retain_loop flags (svpairs lhs) rhs SUndefined)"
| "retain_loop flags [] rhs result = result"
| "retain_loop flags ((key, value) # ps) rhs result =
    retain_loop flags ps rhs
      (if \<not> no_recursion flags then
         JoinItem (flags OR B_NO_VALUE_FLATTEN) result key (correct_retain flags value (ValueFor rhs key))
       else if is_defined (ValueFor rhs key) then JoinItem (flags OR B_NO_VALUE_FLATTEN) result key value
       else result)"
  by pat_completeness auto

termination
  by (relation "measure (case_sum (\<lambda>(_, lhs, _). size lhs) (\<lambda>(_, ps, _, _). size_list (size_prod size size) ps))")
     (auto dest: size_svpairs_less)


section \<open>Single items\<close>

definition remove_pair :: "(spair list \<Rightarrow> nat) \<Rightarrow> nat \<Rightarrow> spair list \<Rightarrow> spair list option" where
  "remove_pair cap i ps =
    (if i > 0 \<and> (length ps - 1) * 4 < cap ps \<and> length ps - 1 > 0 then None else Some (remove_at i ps))"

definition EndEditItem :: "(spair list \<Rightarrow> nat) \<Rightarrow> spair list \<Rightarrow> nat \<Rightarrow> sval \<Rightarrow> sval option" where
  "EndEditItem cap ps i cur =
    (let err = ErrorCheck cur in
     Option.bind (if is_defined cur then Some (ps[i := (fst (ps ! i), cur)]) else remove_pair cap i ps)
       (\<lambda>ps. Some (if err < B_OK then set_error err else shrink_map ps)))"

definition RemoveItem :: "(spair list \<Rightarrow> nat) \<Rightarrow> sval \<Rightarrow> sval \<Rightarrow> sval \<Rightarrow> (sval \<times> int) option" where
  "RemoveItem cap this key value =
    (if \<not> is_error this \<and> is_defined key then
       if is_wild key \<and> (SValue_Compare this value = 0 \<or> is_wild value) then Some (SUndefined, B_OK)
       else if is_map this then
         if is_wild key \<or> is_wild value then
           (case GetIndexOf (svpairs this) key value of
              (True, i) \<Rightarrow> Option.bind (remove_pair cap i (svpairs this)) (\<lambda>ps. Some (shrink_map ps, B_OK))
            | (False, _) \<Rightarrow> Some (this, B_NAME_NOT_FOUND))
         else
           (case BeginEditItem this key of
              Some i \<Rightarrow>
                Option.bind (EndEditItem cap (svpairs this) i (RemoveCopy 0 (snd (svpairs this ! i)) value))
                  (\<lambda>this. Some (this, ErrorCheck this))
            | None \<Rightarrow> Some (this, if ErrorCheck this \<ge> B_OK then B_NAME_NOT_FOUND else ErrorCheck this))
       else Some (this, B_NAME_NOT_FOUND)
     else Some (this, ErrorCheck this))"

definition RenameItem :: "(spair list \<Rightarrow> nat) \<Rightarrow> sval \<Rightarrow> sval \<Rightarrow> sval \<Rightarrow> (sval \<times> int) option" where
  "RenameItem cap this old_key new_key =
    (if is_map this then
       let (ps, result) = rename_pair (svpairs this) old_key new_key in
       if result = B_OK \<and> remove_pair cap (snd (GetIndexOf (svpairs this) old_key SWild)) (svpairs this) = None then None
       else Some (SMap ps, result)
     else if \<not> is_error this then Some (this, B_NAME_NOT_FOUND)
     else Some (this, ErrorCheck this))"

definition remove_item_index :: "(spair list \<Rightarrow> nat) \<Rightarrow> sval \<Rightarrow> nat \<Rightarrow> (sval \<times> int) option" where
  "remove_item_index cap this index =
    (if \<not> is_error this then
       if is_map this then
         if index = 0 \<and> length (svpairs this) \<le> 1 then Some (SUndefined, B_OK)
         else if index < length (svpairs this) then
           Option.bind (remove_pair cap index (svpairs this)) (\<lambda>ps. Some (shrink_map ps, B_OK))
         else Some (this, B_BAD_INDEX)
       else if index = 0 then Some (SUndefined, B_OK)
       else Some (this, B_BAD_INDEX)
     else Some (this, ErrorCheck this))"

section \<open>Overlaying\<close>

fun without_sets :: "(spair list \<Rightarrow> nat) \<Rightarrow> nat \<Rightarrow> nat \<Rightarrow> spair list \<Rightarrow> spair list option" where
  "without_sets cap 0 i ps = Some ps"
| "without_sets cap (Suc n) i ps =
    (if i < length ps then
       if is_wild (fst (ps ! i)) then Option.bind (remove_pair cap i ps) (without_sets cap n i)
       else without_sets cap n (i + 1) ps
     else Some ps)"

text \<open>
  \<^verbatim>\<open>make_map_without_sets\<close>: the value without its members, and whether an editable map is returned; every
  step of its loop removes a pair or passes one. (A map that loses all of its pairs stays a map.)
\<close>

definition make_map_without_sets :: "(spair list \<Rightarrow> nat) \<Rightarrow> sval \<Rightarrow> (sval \<times> bool) option" where
  "make_map_without_sets cap this =
    (if \<not> is_map this then Some (SUndefined, False)
     else
       Option.bind (without_sets cap (length (svpairs this)) 0 (svpairs this))
         (\<lambda>ps. Some (SMap ps, length ps \<noteq> length (svpairs this))))"

text \<open>
  In the loop of \<^verbatim>\<open>Overlay\<close> the boolean says whether \<^verbatim>\<open>map\<close> is not null: the pointer is dropped after an
  edit of a present key, and followed at the end if members were replaced. A value that is not a map has one
  item, with a wild key.
\<close>

definition overlay_add :: "sval \<Rightarrow> bool \<Rightarrow> sval \<Rightarrow> sval \<Rightarrow> sval \<times> bool" where
  "overlay_add this have_map key value =
    (case edit_map this of Some ps \<Rightarrow> (SMap (fst (add_pair ps key value)), True) | None \<Rightarrow> (this, have_map))"

function (sequential) Overlay :: "(spair list \<Rightarrow> nat) \<Rightarrow> u32 \<Rightarrow> sval \<Rightarrow> sval \<Rightarrow> sval option"
  and overlay_loop :: "(spair list \<Rightarrow> nat) \<Rightarrow> u32 \<Rightarrow> spair list \<Rightarrow> sval \<Rightarrow> bool \<Rightarrow> bool \<Rightarrow> sval option"
where
  "Overlay cap flags this (SMap qs) =
    (if is_specified this then overlay_loop cap flags qs this False False
     else if \<not> is_error this then Some (SMap qs)
     else Some this)"
| "Overlay cap flags this from =
    (if is_final from then Some from
     else if is_specified this \<and> is_map this then
       (case items from of
          [(key, value)] \<Rightarrow>
            Option.bind (make_map_without_sets cap this) (\<lambda>(this, have_map).
              case overlay_add this have_map key value of
                (this, True) \<Rightarrow> Some (shrink_map (svpairs this))
              | (this, False) \<Rightarrow> None)
        | _ \<Rightarrow> Some this)
     else if \<not> is_error this \<and> is_defined from then Some from
     else Some this)"
| "overlay_loop cap flags [] this have_map setCleared =
    (if setCleared then (if have_map then Some (shrink_map (svpairs this)) else None) else Some this)"
| "overlay_loop cap flags ((key, value) # qs) this have_map setCleared =
    (case (if is_wild key then None else BeginEditItem this key) of
       Some i \<Rightarrow>
         Option.bind (if \<not> no_recursion flags then Overlay cap flags (snd (svpairs this ! i)) value else Some value)
           (\<lambda>cur. Option.bind (EndEditItem cap (svpairs this) i cur) (\<lambda>this. overlay_loop cap flags qs this False setCleared))
     | None \<Rightarrow>
         Option.bind (if \<not> setCleared \<and> is_wild key then make_map_without_sets cap this else Some (this, have_map))
           (\<lambda>(this, have_map).
             case overlay_add this have_map key value of
               (this, have_map) \<Rightarrow> overlay_loop cap flags qs this have_map (setCleared \<or> is_wild key)))"
  by pat_completeness auto

termination
  by (relation "measure (case_sum (\<lambda>(_, _, _, from). size from) (\<lambda>(_, _, qs, _). size_list (size_prod size size) qs))") auto

section \<open>Inheriting\<close>

text \<open>
  \<^verbatim>\<open>Inherit\<close> walks along the items of both values. Its position in the value it changes is an index (\<open>in_i1\<close>,
  with the item before it in \<open>in_k1\<close> and \<open>in_v1\<close>) that stays as it is when items are added.
\<close>

record istate =
  in_i1 :: nat
  in_k1 :: sval
  in_v1 :: sval
  in_first :: bool
  in_finish :: bool
  in_terminals :: bool
  in_termcheck :: bool

lemma find_item_index_less: "find_item_index v i = Inr p \<Longrightarrow> i < CountItems v"
  by (auto simp: find_item_index_def CountItems_def split: if_splits)

function advance :: "sval \<Rightarrow> sval \<Rightarrow> sval \<Rightarrow> istate \<Rightarrow> int \<Rightarrow> istate \<times> int" where
  "advance this k2 v2 st cmp =
    (if in_finish st then (st, cmp)
     else
       let cmp = (if in_first st then cmp else compare_map (in_k1 st) (in_v1 st) k2 v2) in
       if in_first st \<or> cmp < 0 then
         (case find_item_index this (in_i1 st) of
            Inl _ \<Rightarrow> (st\<lparr>in_finish := True, in_termcheck := True, in_first := False\<rparr>, cmp)
          | Inr (k, v) \<Rightarrow>
              advance this k2 v2
                (st\<lparr>in_i1 := in_i1 st + 1, in_k1 := k, in_v1 := v, in_first := False,
                    in_terminals := in_terminals st \<or> \<not> in_termcheck st \<and> is_wild k\<rparr>) cmp)
       else (st, cmp))"
  by pat_completeness auto

termination
  by (relation "measure (\<lambda>(this, _, _, st, _). CountItems this - in_i1 st)") (auto dest: find_item_index_less)

definition inherit_start :: istate where
  "inherit_start = \<lparr>in_i1 = 0, in_k1 = SUndefined, in_v1 = SUndefined, in_first = True, in_finish = False,
     in_terminals = False, in_termcheck = False\<rparr>"

definition inherit_add :: "u32 \<Rightarrow> sval \<Rightarrow> istate \<Rightarrow> sval \<Rightarrow> sval \<Rightarrow> sval \<times> istate" where
  "inherit_add flags this st k2 v2 =
    (if is_wild k2 then
       let st = (if \<not> in_terminals st \<and> \<not> in_termcheck st
                 then st\<lparr>in_terminals := list_ex (\<lambda>(k, _). is_wild k) (drop (in_i1 st) (items this)), in_termcheck := True\<rparr>
                 else st)
       in (if \<not> in_terminals st then JoinItem (flags OR B_NO_VALUE_FLATTEN) this k2 v2 else this, st)
     else (JoinItem (flags OR B_NO_VALUE_FLATTEN) this k2 v2, st))"

function (sequential) Inherit :: "u32 \<Rightarrow> sval \<Rightarrow> sval \<Rightarrow> sval"
  and inherit_loop :: "u32 \<Rightarrow> spair list \<Rightarrow> sval \<Rightarrow> istate \<Rightarrow> sval"
where
  "Inherit flags this (SMap qs) =
    (if is_specified this then inherit_loop flags qs this inherit_start
     else if \<not> is_defined this then SMap qs
     else this)"
| "Inherit flags this from =
    (if is_error from then from
     else if is_specified this then
       (case items from of
          [(k2, v2)] \<Rightarrow>
            (case advance this k2 v2 inherit_start (-1) of
               (st, cmp) \<Rightarrow> if cmp \<noteq> 0 then fst (inherit_add flags this st k2 v2) else this)
        | _ \<Rightarrow> this)
     else if \<not> is_defined this then from
     else this)"
| "inherit_loop flags [] this st = this"
| "inherit_loop flags ((k2, v2) # qs) this st =
    (case advance this k2 v2 st (-1) of
       (st, cmp) \<Rightarrow>
         if cmp \<noteq> 0 then (case inherit_add flags this st k2 v2 of (this, st) \<Rightarrow> inherit_loop flags qs this st)
         else if \<not> no_recursion flags \<and> \<not> is_wild k2 then
           (case edit_map this of
              Some ps \<Rightarrow>
                let i = in_i1 st - 1 in
                inherit_loop flags qs (SMap (ps[i := (fst (ps ! i), Inherit flags (snd (ps ! i)) v2)])) st
            | None \<Rightarrow> inherit_loop flags qs this st)
         else inherit_loop flags qs this st)"
  by pat_completeness auto

termination
  by (relation "measure (case_sum (\<lambda>(_, _, from). size from) (\<lambda>(_, qs, _). size_list (size_prod size size) qs))") auto

section \<open>Arrays\<close>

text \<open>
  \<^verbatim>\<open>ReplaceValues\<close>, each new value with its index. That it leaves the cached size of the map as it was is modelled by
  \<open>ReplaceValues_cached\<close> of \<open>Value_Archive\<close>, where values carry their caches.
\<close>

fun ReplaceValues_pairs :: "spair list \<Rightarrow> (sval \<times> nat) list \<Rightarrow> spair list" where
  "ReplaceValues_pairs ps [] = ps"
| "ReplaceValues_pairs ps ((v, idx) # changes) =
    ReplaceValues_pairs (if idx < length ps then ps[idx := (fst (ps ! idx), v)] else ps) changes"

definition ReplaceValues :: "sval \<Rightarrow> (sval \<times> nat) list \<Rightarrow> sval" where
  "ReplaceValues this changes =
    (if \<not> is_error this \<and> is_map this then SMap (ReplaceValues_pairs (svpairs this) changes) else this)"

definition GetKeyIndices :: "sval \<Rightarrow> sval list \<Rightarrow> u32 list" where
  "GetKeyIndices this keys =
    (if \<not> is_error this \<and> is_map this then map (\<lambda>k. word_of_int (IndexFor (svpairs this) k SUndefined)) keys
     else map (\<lambda>_. NOT 0) keys)"

fun array_loop :: "nat \<Rightarrow> sval list \<Rightarrow> sval \<Rightarrow> sval" where
  "array_loop i [] result = result"
| "array_loop i (x # xs) result = array_loop (i + 1) xs (JoinItem 0 result (SInt32 (int i)) x)"

definition BArrayAsValue :: "sval list \<Rightarrow> sval" where
  "BArrayAsValue xs = array_loop 0 xs SUndefined"

definition BArrayConstruct :: "sval \<Rightarrow> nat \<Rightarrow> sval list" where
  "BArrayConstruct v count = map (\<lambda>i. ValueFor v (SInt32 (int i))) [0..<count]"

section \<open>Typed data\<close>

definition B_MISMATCHED_VALUES :: int where "B_MISMATCHED_VALUES = sys_err 43"

definition type_mismatch :: "sval \<Rightarrow> u32 \<Rightarrow> int" where
  "type_mismatch v type =
    (if is_error v then ErrorCheck v
     else if B_UNPACK_TYPE_CODE (m_type v) \<noteq> B_UNPACK_TYPE_CODE type then B_BAD_TYPE
     else B_MISMATCHED_VALUES)"

definition copy_small_data :: "sval \<Rightarrow> u32 \<Rightarrow> int + u8 list" where
  "copy_small_data v type = (if m_type v = type then Inr (svdata v) else Inl (type_mismatch v type))"

definition copy_big_data :: "sval \<Rightarrow> u32 \<Rightarrow> nat \<Rightarrow> int + u8 list" where
  "copy_big_data v type len =
    (if m_type v = type \<and> length (svdata v) = len then Inr (svdata v) else Inl (type_mismatch v type))"

text \<open>The checks of \<^verbatim>\<open>check_integrity\<close> that a value can fail.\<close>

definition check_integrity :: "sval \<Rightarrow> bool" where
  "check_integrity v \<longleftrightarrow>
    (B_UNPACK_TYPE_CODE (m_type v) \<in> {0, B_WILD_TYPE, B_NULL_TYPE} \<longrightarrow> B_UNPACK_TYPE_LENGTH (m_type v) = 0) \<and>
    (B_UNPACK_TYPE_CODE (m_type v) = B_VALUE_TYPE \<longrightarrow> B_UNPACK_TYPE_LENGTH (m_type v) = 7) \<and>
    (B_UNPACK_TYPE_CODE (m_type v) = B_ERROR_TYPE \<longrightarrow> B_UNPACK_TYPE_LENGTH (m_type v) = 4) \<and>
    (is_map v \<longrightarrow> length (svpairs v) > 0 \<and>
       (length (svpairs v) = 1 \<longrightarrow> SValue_Compare (fst (svpairs v ! 0)) SWild \<noteq> 0))"

declare ValueFor_all.simps [simp del] value_for_loop.simps [simp del] correct_remove.simps [simp del] remove_loop.simps [simp del]
  correct_retain.simps [simp del] retain_loop.simps [simp del] Overlay.simps [simp del] overlay_loop.simps [simp del]
  advance.simps [simp del] Inherit.simps [simp del] inherit_loop.simps [simp del]

section \<open>Building a value item by item\<close>

lemma not_wild_simps [simp]: "SUndefined \<noteq> SWild" "SWild \<noteq> SUndefined" "SMap ps \<noteq> SWild" "SWild \<noteq> SMap ps" "sane SUndefined"
  by (simp_all add: SWild_def sane_def)

lemma contents_undefined [simp]: "members SUndefined = {}" "under SUndefined k = None"
  by (auto simp: members_def under_def items_def wilds_def)

lemma contents_pair: "k \<noteq> SWild \<Longrightarrow> members (SMap [(k, v)]) = {} \<and> under (SMap [(k, v)]) = [k \<mapsto> v]"
  by (auto simp: members_def under_def wilds_def)

lemma contents_simple: "proper v \<Longrightarrow> \<not> is_map v \<Longrightarrow> k \<noteq> SWild \<Longrightarrow> members v = {v} \<and> under v k = None"
  using items_simple [of v] by (auto simp: members_def under_def wilds_def)


lemma Join_contents_sane:
  assumes "sane this" "this \<noteq> SWild" "sane from" "from \<noteq> SWild"
  shows "Join flags this from \<noteq> SWild" "members (Join flags this from) = members this \<union> members from"
    "k \<noteq> SWild \<Longrightarrow> under (Join flags this from) k = join_option flags (under this k) (under from k)"
  using sane_cases [OF assms(1)] sane_cases [OF assms(3)] assms Join_pointwise Join_not_wild
  by (elim disjE; force simp: join_option_def sane_def split: option.split)+

definition extends :: "sval \<Rightarrow> sval \<Rightarrow> sval \<Rightarrow> sval \<Rightarrow> bool" where
  "extends R key v R' \<longleftrightarrow> sane R' \<and> R' \<noteq> SWild \<and>
     members R' = (if key = SWild \<and> is_defined v then insert v (members R) else members R) \<and>
     (\<forall>k. k \<noteq> SWild \<longrightarrow> under R' k = (if k = key \<and> is_defined v then Some v else under R k))"

lemma joins_extends:
  assumes "sane R" "R \<noteq> SWild" "joins flags (items R) [(key, v)] rs" "nf (SMap rs)" "is_defined v"
    and "key \<noteq> SWild \<Longrightarrow> under R key = None"
  shows "extends R key v (SMap rs)"
  using assms by (auto simp: extends_def sane_def SWild_def joins_def members_def under_def wilds_def join_option_def split: option.split)

lemma JoinItem_extends:
  assumes R: "sane R" "R \<noteq> SWild" and key: "proper key" and v: "sane v" "\<not> is_null v"
    and m: "is_map key \<Longrightarrow> no_flatten flags"
    and w: "key = SWild \<Longrightarrow> is_defined v \<Longrightarrow> \<not> is_map v \<and> v \<noteq> SWild \<and> v \<notin> members R"
    and new: "key \<noteq> SWild \<Longrightarrow> under R key = None"
  shows "extends R key v (JoinItem flags R key v)"
proof (cases "is_defined v")
  case False
  then show ?thesis using R by (simp add: JoinItem.simps extends_def)
next
  case True
  then have pv: "proper v" using v(1) by (simp add: sane_def proper_def)
  note B = JoinItem_branches [OF R key pv, of flags]
  consider (first) "key = SWild" "R = SUndefined" | (nested) "is_map key" | (other) "\<not> is_map key" "key = SWild \<Longrightarrow> R \<noteq> SUndefined" by blast
  then show ?thesis
  proof cases
    case first
    then show ?thesis using B True v(1) w contents_simple [OF pv] by (auto simp: extends_def)
  next
    case nested
    then have k: "key \<noteq> SWild" by auto
    then have sm: "sane (SMap [(key, v)])" "SMap [(key, v)] \<noteq> SWild"
      using pair_ok_pnf [OF key pv] key wild_unique [of key] by (auto simp: sane_def nf_SMap redundant_def proper_def SWild_def)
    have "JoinItem flags R key v = Join flags R (SMap [(key, v)])"
      using B k nested v(2) m key pv wild_unique [of key] by (auto simp: InitAsMap.simps proper_def)
    then show ?thesis
      using Join_contents_sane [OF R sm, where flags = flags] Join_sane [OF R(1) sm(1), of flags] contents_pair [OF k, of v] new [OF k] k True
      by (auto simp: extends_def join_option_def split: option.split)
  next
    case other
    have p: "pnf [(key, v)]" using pair_ok_pnf [OF key pv] w True by blast
    have "v \<noteq> R" if "key = SWild" using that w True contents_simple [OF pv, of SNull] by (auto simp: SWild_def SNull_def type_code_defs)
    then obtain rs where rs: "join_loop flags R [(key, v)] = SMap rs" "nf (SMap rs)" "joins flags (items R) [(key, v)] rs"
      using join_one [OF R p, of flags] other(2) by blast
    have "JoinItem flags R key v = SMap rs" using B other v(2) w True rs(1) by auto
    then show ?thesis using joins_extends [OF R rs(3,2) True new] by simp
  qed
qed



section \<open>Removing and retaining split a value\<close>







lemma JoinItem_undefined [simp]: "JoinItem flags this key SUndefined = this"
  by (simp add: JoinItem.simps)














section \<open>Arrays and back\<close>

lemma SInt32_facts: "proper (SInt32 n)" "SInt32 n \<noteq> SWild" "\<not> is_map (SInt32 n)" "nf (SInt32 n)" "is_defined (SInt32 n)"
proof -
  show n: "nf (SInt32 n)" by (simp add: SInt32_def) code_simp
  show "SInt32 n \<noteq> SWild" by (simp add: SInt32_def SWild_def) (metis length_le_bytes list.size(3) zero_neq_numeral)
  have "\<not> is_error (SInt32 n)"
    by (simp add: is_error_def SInt32_def m_type.simps) (simp add: B_PACK_SMALL_TYPE_def type_code_defs)
  then show "proper (SInt32 n)" using n by (simp add: proper_def SInt32_def)
qed (simp_all add: SInt32_def)

lemma SInt32_inject:
  assumes "i < 2 ^ 32" "j < 2 ^ 32"
  shows "SInt32 (int i) = SInt32 (int j) \<longleftrightarrow> i = j"
proof -
  have u: "unat (of_nat n :: u32) = n" if "n < 2 ^ 32" for n :: nat
    using that by (simp only: unat_of_nat) simp
  have "(of_nat i :: u32) = of_nat j \<longleftrightarrow> i = j" using u [OF assms(1)] u [OF assms(2)] by metis
  then show ?thesis by (auto simp: SInt32_def) (metis le_word_bytes)
qed

lemma lookup_undefined:
  assumes "sane v" "lookup_in v k = SUndefined" "k \<noteq> SWild"
  shows "under v k = None" "k \<notin> members v"
proof -
  have "is_defined x" if "under v k = Some x" for x
    using sane_cases [OF assms(1)] under_proper(1) [OF _ that assms(3)] that assms(3)
    by (auto simp: proper_def under_def items_def)
  then show "under v k = None" using assms(2) by (cases "under v k") (auto simp: lookup_in_def)
  with assms(2) show "k \<notin> members v" by (auto simp: lookup_in_def SNull_def split: if_splits)
qed

lemma JoinItem_fresh:
  assumes R: "sane R" "R \<noteq> SWild" and key: "proper key" "key \<noteq> SWild" "\<not> is_map key" and new: "lookup_in R key = SUndefined"
    and v: "sane v"
  shows "sane (JoinItem flags R key v) \<and> JoinItem flags R key v \<noteq> SWild \<and>
    (\<forall>k. k \<noteq> SWild \<longrightarrow> lookup_in (JoinItem flags R key v) k = (if k = key then v else lookup_in R k))"
proof (cases "is_null v")
  case True
  then have pv: "proper v" using v by (simp add: sane_def proper_def)
  have v': "v = SNull"
  proof -
    obtain c bs where c: "v = SData c bs" using True by (cases v) auto
    have "m_type v = m_type SNull" using True by (simp add: is_null_def SNull_def m_type.simps kNullTypeCode_def [symmetric])
    moreover from this have "bs = []" using same_type_lengths [of c bs B_NULL_TYPE "[]"] c by (auto simp: SNull_def same_width_def)
    ultimately have "SValue_Compare v SNull = 0" by (simp add: c SNull_def data_Compare_def)
    then show ?thesis using SValue_Compare_eq(1) nf_codes_ok v nf_SWild(2) by (auto simp: sane_def)
  qed
  have "JoinItem flags R key v = Join flags R key" using JoinItem_branches [OF R key(1) pv] key(2) True by simp
  then show ?thesis
    using Join_contents_sane [OF R proper_sane [OF key(1)] key(2), where flags = flags] Join_sane [OF R(1) proper_sane [OF key(1)], of flags]
      contents_simple [OF key(1,3)] lookup_undefined [OF R(1) new key(2)] v'
    by (auto simp: lookup_in_def join_option_def split: option.split)
next
  case False
  note u = lookup_undefined [OF R(1) new key(2)]
  have "extends R key v (JoinItem flags R key v)"
    by (rule JoinItem_extends [OF R key(1) v False]) (use key u in auto)
  moreover have "v = SUndefined" if "\<not> is_defined v" using that by simp
  ultimately show ?thesis using u new key(2) by (auto simp: extends_def lookup_in_def split: option.split)
qed

lemma array_loop_lookup:
  assumes "list_all sane xs" "i + length xs < 2 ^ 32" "sane R" "R \<noteq> SWild"
    and "\<And>j. i \<le> j \<Longrightarrow> j < 2 ^ 32 \<Longrightarrow> lookup_in R (SInt32 (int j)) = SUndefined"
  shows "sane (array_loop i xs R) \<and> array_loop i xs R \<noteq> SWild \<and>
    (\<forall>j<2 ^ 32. lookup_in (array_loop i xs R) (SInt32 (int j)) =
       (if i \<le> j \<and> j < i + length xs then xs ! (j - i) else lookup_in R (SInt32 (int j))))"
  using assms
proof (induction xs arbitrary: i R)
  case (Cons x xs)
  let ?R = "JoinItem 0 R (SInt32 (int i)) x"
  have i: "i < 2 ^ 32" using Cons.prems(2) by simp
  have F: "sane ?R \<and> ?R \<noteq> SWild \<and> (\<forall>k. k \<noteq> SWild \<longrightarrow> lookup_in ?R k = (if k = SInt32 (int i) then x else lookup_in R k))"
    by (rule JoinItem_fresh [OF Cons.prems(3,4) SInt32_facts(1-3)]) (use Cons.prems(1) Cons.prems(5) [of i] i in auto)
  have IH: "sane (array_loop (i + 1) xs ?R) \<and> array_loop (i + 1) xs ?R \<noteq> SWild \<and>
    (\<forall>j<2 ^ 32. lookup_in (array_loop (i + 1) xs ?R) (SInt32 (int j)) =
       (if i + 1 \<le> j \<and> j < i + 1 + length xs then xs ! (j - (i + 1)) else lookup_in ?R (SInt32 (int j))))"
  proof (rule Cons.IH)
    fix j assume "i + 1 \<le> j" "j < (2 :: nat) ^ 32"
    then show "lookup_in ?R (SInt32 (int j)) = SUndefined"
      using F SInt32_facts(2) Cons.prems(5) [of j] SInt32_inject [of j i] i by simp
  qed (use Cons.prems(1,2) F in auto)
  then show ?case
    using F SInt32_facts(2) SInt32_inject [OF _ i] by (auto simp: nth_Cons')
qed auto

text \<open>
  Arrays as values. Packing an array of values in normal form into a value, under the numbers from 0, and unpacking it
  gives the array back; null and undefined elements included.
\<close>

lemma array_value_round_trip:
  assumes "list_all sane xs" "length xs < 2 ^ 32"
  shows "BArrayConstruct (BArrayAsValue xs) (length xs) = xs"
proof -
  have z: "lookup_in SUndefined k = SUndefined" for k by (simp add: lookup_in_def)
  have A: "sane (BArrayAsValue xs) \<and> BArrayAsValue xs \<noteq> SWild \<and>
    (\<forall>j<2 ^ 32. lookup_in (BArrayAsValue xs) (SInt32 (int j)) = (if j < length xs then xs ! j else SUndefined))"
    using array_loop_lookup [OF assms(1), of 0 SUndefined] assms(2) z by (simp add: BArrayAsValue_def)
  have "ValueFor (BArrayAsValue xs) (SInt32 (int i)) = xs ! i" if "i < length xs" for i
    using A that assms(2) ValueFor_lookup [of "BArrayAsValue xs" "SInt32 (int i)"] SInt32_facts by simp
  then show ?thesis by (auto simp: BArrayConstruct_def intro: nth_equalityI)
qed

section \<open>Removing an item\<close>

lemma shrink_map_contents:
  assumes "pnf qs"
  shows "sane (shrink_map qs) \<and> shrink_map qs \<noteq> SWild \<and> members (shrink_map qs) = wilds qs \<and>
    (\<forall>k. k \<noteq> SWild \<longrightarrow> under (shrink_map qs) k = map_of qs k)"
proof (cases "redundant qs")
  case False
  then have "shrink_map qs = SMap qs" by (auto simp: redundant_def shrink_map_def split: list.splits)
  then show ?thesis using False assms by (simp add: sane_def nf_SMap members_def under_def)
next
  case True
  show ?thesis
  proof (cases qs)
    case Nil
    then show ?thesis by (simp add: shrink_map_def wilds_def)
  next
    case (Cons p ps)
    then obtain k v where q: "qs = [(k, v)]" "is_wild k" using True by (cases p) (auto simp: redundant_def split: list.splits)
    have "k = SWild" using q pnf_memD(2) [OF assms, of k v] wild_unique by simp
    moreover have "proper v" "\<not> is_map v" "v \<noteq> SWild"
      using proper_mem [OF assms, of k v] pnf_memD(8) [OF assms, of k v] q(1) calculation by auto
    ultimately show ?thesis
      using q contents_simple [of v] proper_sane by (auto simp: shrink_map_def wilds_def)
  qed
qed

lemma remove_at_pnf:
  assumes "pnf ps" "i < length ps"
  shows "pnf (remove_at i ps)" "p \<in> set (remove_at i ps) \<longleftrightarrow> p \<in> set ps \<and> p \<noteq> ps ! i"
proof -
  have ps: "ps = take i ps @ ps ! i # drop (Suc i) ps" using assms(2) by (simp add: id_take_nth_drop [symmetric])
  have d: "distinct ps"
  proof -
    have "item_order (ps ! a) (ps ! b) < 0" if "a < b" "b < length ps" for a b
      using assms(1) that item_order.sorted_nth_less by (simp add: pnf_def)
    then have "ps ! a \<noteq> ps ! b" if "a < b" "b < length ps" for a b using that item_order.cmp_refl by (metis less_irrefl)
    then show ?thesis by (auto simp: distinct_conv_nth) (metis linorder_neqE_nat)
  qed
  then have "distinct (take i ps @ ps ! i # drop (Suc i) ps)" using ps by simp
  moreover have "p \<in> set ps \<longleftrightarrow> p \<in> set (take i ps @ ps ! i # drop (Suc i) ps)" using ps by simp
  ultimately show st: "p \<in> set (remove_at i ps) \<longleftrightarrow> p \<in> set ps \<and> p \<noteq> ps ! i" by (auto simp: remove_at_def)
  have "sorted_by item_order (remove_at i ps)"
    using assms(1) item_order.sorted_remove [of ps i "Suc i"] by (simp add: remove_at_def pnf_def)
  moreover have "set (remove_at i ps) \<subseteq> set ps" by (auto simp: remove_at_def dest: in_set_takeD in_set_dropD)
  ultimately show "pnf (remove_at i ps)" using assms(1) by (auto simp: pnf_def)
qed

lemma remove_at_contents:
  assumes ps: "pnf ps" and i: "i < length ps" "fst (ps ! i) = key" "key \<noteq> SWild"
  shows "wilds (remove_at i ps) = wilds ps" "k \<noteq> SWild \<Longrightarrow> map_of (remove_at i ps) k = (if k = key then None else map_of ps k)"
proof -
  note R = remove_at_pnf [OF ps i(1)]
  show "wilds (remove_at i ps) = wilds ps" using R(2) i by (auto simp: wilds_def) (metis fst_conv)
  assume k: "k \<noteq> SWild"
  have "map_of (remove_at i ps) k = Some x \<longleftrightarrow> (if k = key then None else map_of ps k) = Some x" for x
  proof -
    have "(k, x) \<noteq> ps ! i" if "k \<noteq> key" using i(2) that by (metis fst_conv)
    moreover have "ps ! i = (key, snd (ps ! i))" using i(2) by (metis prod.collapse)
    moreover have "(key, x) \<in> set ps \<Longrightarrow> x = snd (ps ! i)"
      using pnf_map_of [OF ps i(3,1,2)] pnf_map_of_iff [OF ps i(3), of x] by simp
    ultimately show ?thesis
      using pnf_map_of_iff [OF R(1) k, of x] pnf_map_of_iff [OF ps k, of x] R(2) [of "(k, x)"] by (cases "k = key") auto
  qed
  then show "map_of (remove_at i ps) k = (if k = key then None else map_of ps k)" by (metis not_None_eq)
qed

text \<open>
  Removing everything under a key. \<^verbatim>\<open>RemoveItem\<close> with a wild value on a map in normal form reports
  \<^verbatim>\<open>B_NAME_NOT_FOUND\<close> and changes nothing if the map has no such key. If it has, and the key is the
  first one or the array of the map is not so empty that it is moved, the result is in normal form again, without the key
  and with everything else. Otherwise the array is filled with destroyed pairs.
\<close>

lemma RemoveItem_key:
  assumes "sane (SMap ps)" "proper key" "key \<noteq> SWild"
  shows "if under (SMap ps) key = None then RemoveItem cap (SMap ps) key SWild = Some (SMap ps, B_NAME_NOT_FOUND)
    else if fst (ps ! 0) = key \<or> \<not> ((length ps - 1) * 4 < cap ps \<and> length ps > 1)
    then \<exists>v. RemoveItem cap (SMap ps) key SWild = Some (v, B_OK) \<and> sane v \<and> members v = members (SMap ps) \<and>
      (\<forall>k. k \<noteq> SWild \<longrightarrow> under v k = (if k = key then None else under (SMap ps) k))
    else RemoveItem cap (SMap ps) key SWild = None"
proof -
  have p: "pnf ps" using assms(1) by (simp add: sane_def nf_SMap)
  have k: "nf key" "\<not> is_wild key" "is_defined key" using assms(2,3) wild_unique by (auto simp: proper_def)
  obtain found i where g: "GetIndexOf ps key SWild = (found, i)" by fastforce
  note G = GetIndexOf_nf [OF p k(1) _ g]
  have f: "found \<longleftrightarrow> under (SMap ps) key \<noteq> None" using G(1) assms(3) by (simp add: under_def map_of_eq_None_iff)
  have e: "RemoveItem cap (SMap ps) key SWild =
    (if found then Option.bind (remove_pair cap i ps) (\<lambda>ps. Some (shrink_map ps, B_OK)) else Some (SMap ps, B_NAME_NOT_FOUND))"
    using k g by (simp add: RemoveItem_def split: bool.split)
  show ?thesis
  proof (cases found)
    case True
    then have i: "i < length ps" "fst (ps ! i) = key" using G(2) assms(3) by auto
    have "i = 0" if "fst (ps ! 0) = key"
    proof (rule ccontr)
      assume n: "i \<noteq> 0"
      then have l: "item_order (ps ! 0) (ps ! i) < 0" using p i(1) item_order.sorted_nth_less by (simp add: pnf_def)
      moreover have "ps ! 0 \<in> set ps" using i(1) by (intro nth_mem) linarith
      then have "nf (fst (ps ! 0))" "nf (snd (ps ! 0))" "nf (snd (ps ! i))"
        using pnf_memD(2,3) [OF p, of "fst (ps ! 0)" "snd (ps ! 0)"] pnf_memD(3) [OF p, of "fst (ps ! i)" "snd (ps ! i)"] i(1) by auto
      ultimately show False using item_order_nf_eq [of key "snd (ps ! 0)" key "snd (ps ! i)"] that i k(1) assms(3)
        by (metis less_irrefl prod.collapse)
    qed
    moreover have "i = 0 \<Longrightarrow> fst (ps ! 0) = key" using i by simp
    ultimately have i0: "fst (ps ! 0) = key \<longleftrightarrow> i = 0" by blast
    note S = shrink_map_contents [OF remove_at_pnf(1) [OF p i(1)]] and C = remove_at_contents [OF p i assms(3)]
    have "members (shrink_map (remove_at i ps)) = members (SMap ps)" using S C(1) by (simp add: members_def)
    moreover have "under (shrink_map (remove_at i ps)) x = (if x = key then None else under (SMap ps) x)" if "x \<noteq> SWild" for x
      using S C(2) [OF that] that by (simp add: under_def)
    ultimately show ?thesis using True f e i0 S by (auto simp: remove_pair_def)
  qed (use f e in simp)
qed

section \<open>Overlaying and inheriting\<close>

text \<open>
  Overlaying with a member and a present key. For the value with 1 under \<^verbatim>\<open>b\<close> and the value with the member
  \<^verbatim>\<open>a\<close> and 2 under \<^verbatim>\<open>b\<close>, both in normal form, \<^verbatim>\<open>Overlay\<close> follows a null pointer, whatever capacity the arrays have: the
  map pointer is dropped after the edit of \<^verbatim>\<open>b\<close> and used again for the cleared members.
\<close>

definition overlay_this :: sval where "overlay_this = SMap [(SStr [0x62], SInt32 1)]"
definition overlay_from :: sval where "overlay_from = SMap [(SWild, SStr [0x61]), (SStr [0x62], SInt32 2)]"

lemma Overlay_null_map: "sane overlay_this \<and> sane overlay_from \<and> Overlay cap 0 overlay_this overlay_from = None"
  by code_simp

text \<open>
  Inheriting at the wrong key. The source states that inheriting is the overlay the other way around. For
  these two values in normal form it is not: after the first item was added in front, the edit of \<^verbatim>\<open>b\<close> goes to \<^verbatim>\<open>a\<close>.
\<close>

definition inherit_this :: sval where "inherit_this = SMap [(SStr [0x62], SMap [(SStr [0x78], SInt32 1)])]"
definition inherit_from :: sval where "inherit_from = SMap [(SStr [0x61], SInt32 5), (SStr [0x62], SMap [(SStr [0x79], SInt32 2)])]"

lemma Inherit_wrong_key:
  "sane inherit_this \<and> sane inherit_from \<and>
   Overlay (\<lambda>_. 1) 0 inherit_from inherit_this =
     Some (SMap [(SStr [0x61], SInt32 5), (SStr [0x62], SMap [(SStr [0x78], SInt32 1), (SStr [0x79], SInt32 2)])]) \<and>
   Inherit 0 inherit_this inherit_from =
     SMap [(SStr [0x61], SMap [(SWild, SInt32 5), (SStr [0x79], SInt32 2)]), (SStr [0x62], SMap [(SStr [0x78], SInt32 1)])]"
  by code_simp

section \<open>Examples\<close>


lemma array_value_round_trip_example:
  "BArrayConstruct (BArrayAsValue [SNull, SInt32 4, SUndefined]) 3 = [SNull, SInt32 4, SUndefined]"
proof -
  let ?xs = "[SNull, SInt32 4, SUndefined]"
  have s: "list_all sane ?xs" by code_simp
  have l: "length ?xs = 3" by simp
  have "length ?xs < 2 ^ 32" by simp
  from array_value_round_trip [OF s this, unfolded l] show ?thesis .
qed

lemma RemoveItem_key_example:
  "RemoveItem (\<lambda>_. 6) (SMap [(SInt32 1, SInt32 10), (SInt32 2, SInt32 20)]) (SInt32 2) SWild = None \<and>
   (\<exists>v. RemoveItem (\<lambda>_. 3) (SMap [(SInt32 1, SInt32 10), (SInt32 2, SInt32 20)]) (SInt32 2) SWild = Some (v, B_OK) \<and> sane v)"
proof -
  let ?ps = "[(SInt32 1, SInt32 10), (SInt32 2, SInt32 20)]"
  have f: "sane (SMap ?ps)" "under (SMap ?ps) (SInt32 2) \<noteq> None" "SInt32 1 \<noteq> SInt32 2" by code_simp+
  show ?thesis
    using RemoveItem_key [OF f(1) SInt32_facts(1,2), of 2 "\<lambda>_. 6"] RemoveItem_key [OF f(1) SInt32_facts(1,2), of 2 "\<lambda>_. 3"] f(2,3) by auto
qed

end
