(* ===== verification/Parcel.thy ===== *)
theory Parcel
  imports Value_Data "HOL-Library.Monad_Syntax"
begin

text \<open>
  Parcels, the buffers that calls between processes are packed into
  (\<^verbatim>\<open>src/libraries/libbinder/support/Parcel.cpp\<close>): the storage of a parcel, raw and padded reading and
  writing, the byte streams behind a parcel, and typed data.

  A parcel is a record of the fields of \<^verbatim>\<open>SParcel\<close>. \<open>p_data\<close> is the block of memory that \<^verbatim>\<open>m_data\<close> points
  to, in its real size, and \<open>p_avail\<close> the size the class takes it to have. An access outside of the block, or through a
  null pointer, and a fatal error are the result \<open>None\<close>. Numbers are integers, with the conversion of a
  sum to \<^verbatim>\<open>ssize_t\<close> written out (\<open>ssz\<close>), since a length read from the data can be any 32-bit word.

  The output stream of a parcel is the bytes it took and the answers it gives to the next calls, each an error or
  how many bytes it takes at most; the input stream is what the next calls deliver. All theorems hold for all
  such scripts, so for all behaviours of a stream. \<open>penv\<close> holds what the code cannot know:
  whether memory is available, what fresh memory and unset variables contain, the two words
  that stand for an object in a flattened binder, whether a weak reference can be made, and
  what the process makes of a flattened binder it reads. Reference counts of objects and the reply function are not part of the model.
\<close>

section \<open>Storage\<close>

datatype storage = PNull | PInline | PHeap | PForeign bool

record ostream =
  o_bytes :: "u8 list"
  o_answers :: "int list"

type_synonym istream = "(int + u8 list) list"

record parcel =
  p_data :: "u8 list"
  p_where :: storage
  p_length :: int
  p_avail :: int
  p_pos :: int
  p_base :: int
  p_dirty :: bool
  p_binders :: "int list"
  p_owns :: bool
  p_out :: "ostream option"
  p_in :: "istream option"

record penv =
  e_mem :: "nat \<Rightarrow> bool"
  e_junk :: "nat \<Rightarrow> u8"
  e_flat :: "u32 \<Rightarrow> u32 \<Rightarrow> u32 \<times> u32"
  e_weak :: bool
  e_unflat :: "u8 list \<Rightarrow> int"

definition junk :: "penv \<Rightarrow> nat \<Rightarrow> u8 list" where "junk E n = map (e_junk E) [0..<n]"

definition ssz :: "int \<Rightarrow> int" where "ssz x = sint (word_of_int x :: u32)"

definition inline_size :: int where "inline_size = 32"

definition B_BAD_DATA :: int where "B_BAD_DATA = sys_err 47"
definition B_DATA_TRUNCATED :: int where "B_DATA_TRUNCATED = sys_err 48"

definition get_bytes :: "parcel \<Rightarrow> int \<Rightarrow> nat \<Rightarrow> u8 list option" where
  "get_bytes p at n =
    (if n = 0 then Some []
     else if 0 \<le> at \<and> at + int n \<le> int (length (p_data p)) then Some (take n (drop (nat at) (p_data p)))
     else None)"

definition put_bytes :: "parcel \<Rightarrow> int \<Rightarrow> u8 list \<Rightarrow> parcel option" where
  "put_bytes p at bs =
    (if bs = [] then Some p
     else if 0 \<le> at \<and> at + int (length bs) \<le> int (length (p_data p)) then
       Some (p\<lparr>p_data := take (nat at) (p_data p) @ bs @ drop (nat at + length bs) (p_data p)\<rparr>)
     else None)"

definition Parcel_ErrorCheck :: "parcel \<Rightarrow> int" where
  "Parcel_ErrorCheck p = (if p_length p \<ge> B_OK then B_OK else p_length p)"

section \<open>Streams\<close>

definition out_write :: "ostream \<Rightarrow> u8 list \<Rightarrow> ostream \<times> int" where
  "out_write out bs =
    (case o_answers out of
       [] \<Rightarrow> (out\<lparr>o_bytes := o_bytes out @ bs\<rparr>, int (length bs))
     | a # as \<Rightarrow>
         if a < 0 then (out\<lparr>o_answers := as\<rparr>, a)
         else (out\<lparr>o_bytes := o_bytes out @ take (nat a) bs, o_answers := as\<rparr>, min a (int (length bs))))"

fun in_read :: "istream \<Rightarrow> nat \<Rightarrow> istream \<times> int \<times> u8 list" where
  "in_read [] n = ([], 0, [])"
| "in_read (Inl e # s) n = (s, if e < 0 then e else B_ERROR, [])"
| "in_read (Inr c # s) n =
    (if length c \<le> n then (s, int (length c), c) else (Inr (drop n c) # s, int n, take n c))"

definition WriteBuffer :: "parcel \<Rightarrow> u8 list \<Rightarrow> (parcel \<times> int) option" where
  "WriteBuffer p bs =
    (case p_out p of
       None \<Rightarrow> Some (p, 0)
     | Some out \<Rightarrow>
         if p_binders p \<noteq> [] then None
         else case out_write out bs of (out, n) \<Rightarrow> Some (p\<lparr>p_out := Some out\<rparr>, n))"

definition ReadBuffer :: "parcel \<Rightarrow> nat \<Rightarrow> parcel \<times> int \<times> u8 list" where
  "ReadBuffer p n =
    (case p_in p of
       None \<Rightarrow> (p, 0, [])
     | Some s \<Rightarrow> case in_read s n of (s, r, bs) \<Rightarrow> (p\<lparr>p_in := Some s\<rparr>, r, bs))"

definition Flush :: "parcel \<Rightarrow> (parcel \<times> int) option" where
  "Flush p =
    (if p_out p = None then Some (p, 0)
     else if p_length p < 0 then None
     else do {
       bs \<leftarrow> get_bytes p 0 (nat (p_length p));
       (p, written) \<leftarrow> WriteBuffer p bs;
       if written < p_length p then
         if written < B_OK then Some (p, written)
         else do {
           rest \<leftarrow> get_bytes p written (nat (p_length p - written));
           let p = p\<lparr>p_length := p_length p - written, p_base := p_base p + written\<rparr>;
           p \<leftarrow> put_bytes (p\<lparr>p_pos := p_length p\<rparr>) 0 rest;
           Some (p\<lparr>p_dirty := False\<rparr>, written)
         }
       else Some (p\<lparr>p_base := p_base p + written, p_length := 0, p_pos := 0, p_dirty := False\<rparr>, written)
     })"

section \<open>Allocation\<close>

text \<open>\<^verbatim>\<open>do_free\<close> ignores the result of the flush.\<close>

definition do_free :: "parcel \<Rightarrow> parcel option" where
  "do_free p = do {
     (p, _) \<leftarrow> (if p_dirty p then Flush p else Some (p, 0));
     Some (p\<lparr>p_binders := [], p_dirty := False, p_owns := False, p_data := [], p_where := PNull,
             p_length := 0, p_avail := 0, p_base := 0, p_pos := 0\<rparr>)
   }"

definition Parcel_Reset :: "parcel \<Rightarrow> parcel" where
  "Parcel_Reset p =
    p\<lparr>p_binders := [], p_avail := (if p_where p = PInline then inline_size else p_avail p),
      p_dirty := False, p_owns := False, p_length := 0, p_base := 0, p_pos := 0\<rparr>"

definition Reserve :: "penv \<Rightarrow> parcel \<Rightarrow> int \<Rightarrow> (parcel \<times> int) option" where
  "Reserve E p len =
    (if p_where p \<noteq> PNull \<and> p_avail p \<ge> len then Some (Parcel_Reset p, B_OK)
     else do {
       p \<leftarrow> do_free p;
       Some (if len \<le> inline_size then
               (p\<lparr>p_data := junk E (nat inline_size), p_where := PInline, p_avail := len\<rparr>, B_OK)
             else if e_mem E (nat len) then
               (p\<lparr>p_data := junk E (nat len), p_where := PHeap, p_avail := len\<rparr>, B_OK)
             else (p\<lparr>p_length := B_NO_MEMORY, p_avail := B_NO_MEMORY\<rparr>, B_NO_MEMORY))
     })"

definition Parcel_empty :: "ostream option \<Rightarrow> istream option \<Rightarrow> parcel" where
  "Parcel_empty out inp =
    \<lparr>p_data = [], p_where = PNull, p_length = 0, p_avail = 0, p_pos = 0, p_base = 0, p_dirty = False,
     p_binders = [], p_owns = False, p_out = out, p_in = inp\<rparr>"

text \<open>The constructors: on streams (\<open>None\<close> for null pointers) with a buffer size, and on given data.\<close>

definition Parcel_new :: "penv \<Rightarrow> ostream option \<Rightarrow> istream option \<Rightarrow> int \<Rightarrow> parcel option" where
  "Parcel_new E out inp bufferSize =
    (let n = (if bufferSize < 0 then inline_size else bufferSize) in
     if n > 0 then map_option fst (Reserve E (Parcel_empty out inp) n)
     else do_free (Parcel_empty out inp))"

definition Parcel_on :: "u8 list \<Rightarrow> bool \<Rightarrow> parcel" where
  "Parcel_on bs kept =
    (Parcel_empty None None)\<lparr>p_data := bs, p_where := PForeign kept, p_length := int (length bs), p_avail := int (length bs)\<rparr>"

definition Reference :: "parcel \<Rightarrow> u8 list \<Rightarrow> bool \<Rightarrow> parcel option" where
  "Reference p bs kept = do {
     p \<leftarrow> do_free p;
     Some (p\<lparr>p_data := bs, p_where := PForeign kept, p_length := int (length bs), p_avail := int (length bs),
             p_base := 0, p_pos := 0\<rparr>)
   }"

definition Parcel_Alloc :: "penv \<Rightarrow> parcel \<Rightarrow> int \<Rightarrow> parcel option" where
  "Parcel_Alloc E p len = do {
     (p, result) \<leftarrow> Reserve E p len;
     Some (p\<lparr>p_length := (if result = B_OK then len else result)\<rparr>)
   }"

definition Parcel_Copy :: "penv \<Rightarrow> parcel \<Rightarrow> u8 list \<Rightarrow> (parcel \<times> int) option" where
  "Parcel_Copy E p bs = do {
     p \<leftarrow> Parcel_Alloc E p (int (length bs));
     p \<leftarrow> (if bs \<noteq> [] \<and> p_where p \<noteq> PNull then put_bytes p 0 bs else Some p);
     Some (p, if p_length p \<ge> 0 then B_OK else p_length p)
   }"

text \<open>
  \<^verbatim>\<open>ReAlloc\<close>; the answer says whether the returned pointer is valid. A request of at most 32 bytes only changes
  \<^verbatim>\<open>m_avail\<close>, wherever the data is.
\<close>

definition ReAlloc :: "penv \<Rightarrow> parcel \<Rightarrow> int \<Rightarrow> (parcel \<times> bool) option" where
  "ReAlloc E p len =
    (if p_length p < 0 then Some (p, False)
     else if len > p_avail p then
       (let finish = (\<lambda>p. Some (p\<lparr>p_pos := min len (p_pos p), p_length := len\<rparr>, p_where p \<noteq> PNull)) in
        if len \<le> inline_size then finish (p\<lparr>p_avail := len\<rparr>)
        else if \<not> e_mem E (nat len) then Some (p, False)
        else do {
          bs \<leftarrow> get_bytes p 0 (nat (p_length p));
          finish (p\<lparr>p_data := bs @ junk E (nat len - length bs), p_where := PHeap, p_avail := len,
                    p_owns := (p_owns p \<or> (p_where p = PHeap \<or> p_where p = PForeign True) \<and> p_binders p \<noteq> [])\<rparr>)
        })
     else if len < p_avail p then
       Some (p\<lparr>p_length := len, p_pos := min len (p_pos p)\<rparr>, p_where p \<noteq> PNull)
     else Some (p, p_where p \<noteq> PNull))"

text \<open>\<^verbatim>\<open>Transfer\<close>: the new parcel and what is left of the source.\<close>

definition Transfer :: "penv \<Rightarrow> parcel \<Rightarrow> parcel \<Rightarrow> (parcel \<times> parcel) option" where
  "Transfer E p src = do {
     p \<leftarrow> (if p_where src \<noteq> PInline then
             if p_where src \<noteq> PForeign False then do {
               p \<leftarrow> do_free p;
               Some (p\<lparr>p_data := p_data src, p_where := p_where src, p_length := p_length src, p_avail := p_avail src\<rparr>)
             }
             else if p_length src < 0 then None
             else do {
               bs \<leftarrow> get_bytes src 0 (nat (p_length src));
               map_option fst (Parcel_Copy E p bs)
             }
           else do {
             p \<leftarrow> do_free p;
             bs \<leftarrow> get_bytes src 0 (nat (p_length src));
             Some (p\<lparr>p_data := bs @ junk E (nat inline_size - length bs), p_where := PInline, p_length := p_length src, p_avail := p_avail src\<rparr>)
           });
     Some (p\<lparr>p_base := p_base src, p_pos := p_pos src, p_owns := p_owns src, p_binders := p_binders src\<rparr>,
           src\<lparr>p_data := [], p_where := PNull, p_length := 0, p_avail := 0, p_base := 0, p_pos := 0,
               p_dirty := False, p_owns := False, p_binders := []\<rparr>)
   }"

definition Position :: "parcel \<Rightarrow> int" where "Position p = p_base p + p_pos p"

definition SetPosition :: "parcel \<Rightarrow> int \<Rightarrow> parcel option" where
  "SetPosition p pos = (if pos < p_base p \<or> pos > p_base p + p_length p then None else Some (p\<lparr>p_pos := pos - p_base p\<rparr>))"

definition Parcel_SetLength :: "penv \<Rightarrow> parcel \<Rightarrow> int \<Rightarrow> (parcel \<times> int) option" where
  "Parcel_SetLength E p len =
    (let len = max 0 len in do {
       (p, ok) \<leftarrow> (if len > p_avail p then ReAlloc E p len else Some (p, True));
       Some (if \<not> ok then (p, B_NO_MEMORY)
             else (p\<lparr>p_length := len, p_pos := min len (p_pos p)\<rparr>, B_OK))
     })"

section \<open>Writing\<close>

definition finish_write :: "parcel \<Rightarrow> int \<Rightarrow> parcel \<times> int" where
  "finish_write p amt =
    (let pos = p_pos p + amt in (p\<lparr>p_pos := pos, p_length := max pos (p_length p), p_dirty := True\<rparr>, amt))"

definition grown :: "parcel \<Rightarrow> int \<Rightarrow> int" where
  "grown p need = (if need > (p_avail p * 3) div 2 then need else (p_avail p * 3) div 2)"

text \<open>The slow path of \<^verbatim>\<open>Write\<close> behind the flush: \<open>sofar\<close> bytes were copied before.\<close>

definition write_rest :: "penv \<Rightarrow> parcel \<Rightarrow> u8 list \<Rightarrow> int \<Rightarrow> int \<Rightarrow> (parcel \<times> int) option" where
  "write_rest E p bs sofar written =
    (if p_out p \<noteq> None \<and> p_pos p = 0 \<and> int (length bs) \<ge> p_avail p then do {
       (p, written) \<leftarrow> WriteBuffer p bs;
       Some (p, if written \<ge> 0 then sofar + written else if sofar > 0 then sofar else written)
     }
     else do {
       let need = int (length bs) + p_pos p;
       (p, ok, amount) \<leftarrow>
         (if need > p_avail p then do {
            let origLen = p_length p;
            (q, ok) \<leftarrow> ReAlloc E p (grown p need);
            Some (q\<lparr>p_length := origLen\<rparr>, ok, if ok then int (length bs) else p_avail q - p_pos q)
          }
          else Some (p, True, int (length bs)));
       if \<not> ok \<and> amount = 0 then Some (p, B_NO_MEMORY)
       else if amount < 0 then None
       else do {
         p \<leftarrow> put_bytes p (p_pos p) (take (nat amount) bs);
         let pos = p_pos p + amount;
         let sofar = sofar + amount;
         let p = p\<lparr>p_pos := pos, p_length := max pos (p_length p), p_dirty := True\<rparr>;
         Some (p, if sofar > 0 then sofar else if written < 0 then written else if p_length p < 0 then p_length p else 0)
       }
     })"

definition Write :: "penv \<Rightarrow> parcel \<Rightarrow> u8 list \<Rightarrow> (parcel \<times> int) option" where
  "Write E p bs =
    (if ssz (p_pos p + int (length bs)) \<le> p_avail p then do {
       p \<leftarrow> put_bytes p (p_pos p) bs;
       Some (finish_write p (int (length bs)))
     }
     else if p_pos p < p_length p then do {
       let sofar = nat (p_length p - p_pos p);
       p \<leftarrow> put_bytes p (p_pos p) (take sofar bs);
       (p, written) \<leftarrow> Flush (p\<lparr>p_pos := p_length p, p_dirty := True\<rparr>);
       if written < B_OK then Some (p, if sofar > 0 then int sofar else written)
       else write_rest E p (drop sofar bs) (int sofar) written
     }
     else if Parcel_ErrorCheck p \<noteq> B_OK then Some (p, Parcel_ErrorCheck p)
     else do {
       (p, written) \<leftarrow> Flush p;
       if written < B_OK then Some (p, written) else write_rest E p bs 0 written
     })"

text \<open>\<^verbatim>\<open>WriteInPlace\<close>: the position of the space handed out, or \<open>None\<close> inside for a null pointer.\<close>

definition WriteInPlace :: "penv \<Rightarrow> parcel \<Rightarrow> nat \<Rightarrow> (parcel \<times> int option) option" where
  "WriteInPlace E p amount = do {
     (p, ok) \<leftarrow>
       (if ssz (p_pos p + int amount) > p_avail p then do {
          let origLen = p_length p;
          (q, ok) \<leftarrow> ReAlloc E p (grown p (p_pos p + int amount));
          Some (if ok then q\<lparr>p_length := origLen\<rparr> else q, ok)
        }
        else Some (p, True));
     Some (if ok then (fst (finish_write p (int amount)), Some (p_pos p)) else (p, None))
   }"

definition value_data_align :: "nat \<Rightarrow> nat" where
  "value_data_align n = unat ((of_nat n + 7 :: u32) AND NOT 7)"

text \<open>The masks keep the low bytes of the eight bytes in front of \<open>at\<close> and clear the last \<open>k\<close>.\<close>

definition clear_tail :: "parcel \<Rightarrow> int \<Rightarrow> nat \<Rightarrow> parcel option" where
  "clear_tail p at k = do {
     bs \<leftarrow> get_bytes p (at - 8) 8;
     put_bytes p (at - 8) (take (8 - k) bs @ replicate k 0)
   }"

definition write_zeros :: "penv \<Rightarrow> parcel \<Rightarrow> nat \<Rightarrow> int \<Rightarrow> (parcel \<times> int) option" where
  "write_zeros E p k padded = do {
     (p, written) \<leftarrow> Write E p (replicate k 0);
     Some (p, if written = int k then padded else if written < 0 then written else B_ERROR)
   }"

definition WritePadded :: "penv \<Rightarrow> parcel \<Rightarrow> u8 list \<Rightarrow> (parcel \<times> int) option" where
  "WritePadded E p bs =
    (let amount = length bs; padded = value_data_align amount in
     if ssz (p_pos p + int padded) \<le> p_avail p then do {
       p \<leftarrow> put_bytes p (p_pos p) bs;
       p \<leftarrow> (if padded \<noteq> amount then clear_tail p (p_pos p + int padded) (padded - amount) else Some p);
       Some (finish_write p (int padded))
     }
     else do {
       (p, written) \<leftarrow> Write E p bs;
       if written = int amount then
         if padded \<noteq> amount then write_zeros E p (padded - amount) (int padded) else Some (p, written)
       else Some (p, if written < 0 then written else B_ERROR)
     })"

definition WritePadding :: "penv \<Rightarrow> parcel \<Rightarrow> (parcel \<times> int) option" where
  "WritePadding E p =
    (let padded = value_data_align (nat (p_pos p)) - nat (p_pos p) in
     if padded = 0 then Some (p, 0)
     else if ssz (p_pos p + int padded) \<le> p_avail p then do {
       p \<leftarrow> clear_tail p (p_pos p + int padded) padded;
       Some (finish_write p (int padded))
     }
     else write_zeros E p padded (int padded))"

text \<open>The writers of numbers of fixed size, all of this form, with the bytes of the number.\<close>

definition write_fixed :: "penv \<Rightarrow> parcel \<Rightarrow> u8 list \<Rightarrow> (parcel \<times> int) option" where
  "write_fixed E p bs =
    (if ssz (p_pos p + int (length bs)) \<le> p_avail p then do {
       p \<leftarrow> put_bytes p (p_pos p) bs;
       Some (finish_write p (int (length bs)))
     }
     else Write E p bs)"

definition le_bytes16 :: "u16 \<Rightarrow> u8 list" where
  "le_bytes16 w = map (\<lambda>i. ucast (drop_bit (8 * i) w)) [0, 1]"

definition le_bytes64 :: "64 word \<Rightarrow> u8 list" where
  "le_bytes64 w = map (\<lambda>i. ucast (drop_bit (8 * i) w)) [0, 1, 2, 3, 4, 5, 6, 7]"

definition WriteBool :: "penv \<Rightarrow> parcel \<Rightarrow> bool \<Rightarrow> (parcel \<times> int) option" where
  "WriteBool E p v = write_fixed E p [if v then 1 else 0]"

definition WriteInt8 :: "penv \<Rightarrow> parcel \<Rightarrow> u8 \<Rightarrow> (parcel \<times> int) option" where
  "WriteInt8 E p v = write_fixed E p [v]"

definition WriteInt16 :: "penv \<Rightarrow> parcel \<Rightarrow> u16 \<Rightarrow> (parcel \<times> int) option" where
  "WriteInt16 E p v = write_fixed E p (le_bytes16 v)"

definition WriteInt32 :: "penv \<Rightarrow> parcel \<Rightarrow> u32 \<Rightarrow> (parcel \<times> int) option" where
  "WriteInt32 E p v = write_fixed E p (le_bytes v)"

definition WriteInt64 :: "penv \<Rightarrow> parcel \<Rightarrow> 64 word \<Rightarrow> (parcel \<times> int) option" where
  "WriteInt64 E p v = write_fixed E p (le_bytes64 v)"

definition WriteFloat :: "penv \<Rightarrow> parcel \<Rightarrow> u32 \<Rightarrow> (parcel \<times> int) option" where
  "WriteFloat E p v = write_fixed E p (le_bytes v)"

definition WriteSmallData :: "penv \<Rightarrow> parcel \<Rightarrow> u32 \<Rightarrow> u32 \<Rightarrow> (parcel \<times> int) option" where
  "WriteSmallData E p packedType packedData = write_fixed E p (le_bytes packedType @ le_bytes packedData)"

definition WriteLargeData :: "penv \<Rightarrow> parcel \<Rightarrow> u32 \<Rightarrow> nat \<Rightarrow> u8 list option \<Rightarrow> (parcel \<times> int) option" where
  "WriteLargeData E p packedType len data = do {
     (p, result) \<leftarrow> WriteSmallData E p packedType (of_nat len);
     if result = 8 then
       (case data of
          None \<Rightarrow> Some (p, result)
        | Some bs \<Rightarrow> do {
            (p, result) \<leftarrow> WritePadded E p bs;
            Some (p, if result \<ge> 0 then result + 8 else result)
          })
     else Some (p, if result \<ge> 0 then B_BAD_DATA else result)
   }"

definition WriteTypeHeader :: "penv \<Rightarrow> parcel \<Rightarrow> u32 \<Rightarrow> nat \<Rightarrow> (parcel \<times> int) option" where
  "WriteTypeHeader E p type amount =
    (if amount \<le> 4 then WriteInt32 E p (B_PACK_SMALL_TYPE type (of_nat amount))
     else WriteLargeData E p (B_PACK_LARGE_TYPE type) amount None)"

text \<open>Small data is read as a 32-bit word, so bytes behind it are written as well.\<close>

definition WriteTypeHeaderAndData :: "penv \<Rightarrow> parcel \<Rightarrow> u32 \<Rightarrow> u8 list \<Rightarrow> (parcel \<times> int) option" where
  "WriteTypeHeaderAndData E p type bs =
    (if length bs \<le> 4 then
       WriteSmallData E p (B_PACK_SMALL_TYPE type (of_nat (length bs))) (le_word (take 4 (bs @ junk E 4)))
     else WriteLargeData E p (B_PACK_LARGE_TYPE type) (length bs) (Some bs))"

definition MarshalFixedData :: "penv \<Rightarrow> parcel \<Rightarrow> u32 \<Rightarrow> u8 list option \<Rightarrow> (parcel \<times> int) option" where
  "MarshalFixedData E p type data =
    (case data of
       Some bs \<Rightarrow> WriteTypeHeaderAndData E p type bs
     | None \<Rightarrow> WriteSmallData E p kNullTypeCode 0)"

text \<open>
  A flattened binder is four words; its offset is remembered unless the binder is null. The growing path does not set \<^verbatim>\<open>m_length\<close>
  back as the one of \<^verbatim>\<open>Write\<close> does.
\<close>

definition WriteFlatBinder :: "penv \<Rightarrow> parcel \<Rightarrow> u32 \<Rightarrow> u32 \<Rightarrow> u32 \<Rightarrow> (parcel \<times> int) option" where
  "WriteFlatBinder E p type binder cookie =
    (let need = p_pos p + 16 in do {
       (p, err) \<leftarrow>
         (if need > p_avail p then do {
            (p, err) \<leftarrow> Flush p;
            if err \<ge> B_OK then do {
              (p, ok) \<leftarrow> ReAlloc E p (grown p need);
              Some (p, if ok then 0 else B_NO_MEMORY)
            }
            else Some (p, err)
          }
          else Some (p, 0));
       if err < 0 then Some (p, err)
       else do {
         p \<leftarrow> put_bytes p (p_pos p) (le_bytes type @ le_bytes 8 @ le_bytes binder @ le_bytes cookie);
         Some (finish_write
           (if binder = 0 then p else p\<lparr>p_owns := True, p_binders := p_binders p @ [p_pos p]\<rparr>) 16)
       }
     })"

text \<open>The words for the object come from its C++ layout, the parameter \<open>e_flat\<close>.\<close>

definition WriteBinder :: "penv \<Rightarrow> parcel \<Rightarrow> u32 \<Rightarrow> u32 \<Rightarrow> (parcel \<times> int) option" where
  "WriteBinder E p type object =
    (let t = B_PACK_LARGE_TYPE (B_UNPACK_TYPE_CODE type) in
     case e_flat E t object of (binder, cookie) \<Rightarrow> WriteFlatBinder E p t binder cookie)"

definition WriteString :: "penv \<Rightarrow> parcel \<Rightarrow> u8 list \<Rightarrow> (parcel \<times> int) option" where
  "WriteString E p str = Write E p (str @ [0])"

section \<open>Reading\<close>

text \<open>The readers return the parcel, the result and the bytes that were delivered.\<close>

definition read_rest :: "parcel \<Rightarrow> nat \<Rightarrow> u8 list \<Rightarrow> (parcel \<times> int \<times> u8 list) option" where
  "read_rest p amount got =
    (let sofar = int (length got) in
     if ssz (int amount) \<ge> p_avail p then
       case ReadBuffer p amount of (p, r, bs) \<Rightarrow>
         Some (if r \<ge> 0 then (p\<lparr>p_base := p_base p + r\<rparr>, sofar + r, got @ bs)
               else (p, if sofar > 0 then sofar else r, got))
     else
       case ReadBuffer p (nat (p_avail p)) of (p, r, bs) \<Rightarrow> do {
         p \<leftarrow> put_bytes (p\<lparr>p_length := r\<rparr>) 0 bs;
         if r \<ge> B_OK then do {
           let amount = min (nat r) amount;
           bs \<leftarrow> get_bytes p 0 amount;
           Some (p\<lparr>p_base := p_base p + p_pos p, p_pos := int amount\<rparr>, sofar + int amount, got @ bs)
         }
         else Some (p\<lparr>p_pos := 0\<rparr>, if sofar > 0 then sofar else r, got)
       })"

definition Read :: "parcel \<Rightarrow> nat \<Rightarrow> (parcel \<times> int \<times> u8 list) option" where
  "Read p amount =
    (if ssz (p_pos p + int amount) \<le> p_length p then do {
       bs \<leftarrow> get_bytes p (p_pos p) amount;
       Some (p\<lparr>p_pos := p_pos p + int amount\<rparr>, int amount, bs)
     }
     else if p_pos p < p_length p then do {
       bs \<leftarrow> get_bytes p (p_pos p) (nat (p_length p - p_pos p));
       read_rest (p\<lparr>p_pos := p_length p\<rparr>) (amount - length bs) bs
     }
     else if Parcel_ErrorCheck p \<noteq> B_OK then Some (p, Parcel_ErrorCheck p, [])
     else read_rest p amount [])"

definition ReadInPlace :: "parcel \<Rightarrow> nat \<Rightarrow> parcel \<times> int option" where
  "ReadInPlace p amount =
    (if ssz (p_pos p + int amount) \<le> p_length p then (p\<lparr>p_pos := ssz (p_pos p + int amount)\<rparr>, Some (p_pos p))
     else (p, None))"

function drain_loop :: "parcel \<Rightarrow> int \<Rightarrow> int \<Rightarrow> (parcel \<times> (int + int)) option" where
  "drain_loop p amount sofar =
    (if sofar < amount then
       case ReadBuffer p (nat (p_avail p)) of (p, r, bs) \<Rightarrow>
         case put_bytes (p\<lparr>p_base := p_base p + p_length p, p_length := r\<rparr>) 0 bs of
           None \<Rightarrow> None
         | Some q \<Rightarrow>
             if r < B_OK then Some (q, Inl r)
             else if r = 0 then Some (q, Inr sofar)
             else drain_loop q amount (sofar + r)
     else Some (p, Inr sofar))"
  by pat_completeness auto

termination
  by (relation "measure (\<lambda>(_, amount, sofar). nat (amount - sofar))") (auto simp: B_OK_def)

declare drain_loop.simps [simp del]

definition Drain :: "parcel \<Rightarrow> nat \<Rightarrow> (parcel \<times> int) option" where
  "Drain p amount =
    (if ssz (p_pos p + int amount) \<le> p_length p then Some (p\<lparr>p_pos := ssz (p_pos p + int amount)\<rparr>, ssz (int amount))
     else if Parcel_ErrorCheck p \<noteq> B_OK then Some (p, Parcel_ErrorCheck p)
     else do {
       (p, result) \<leftarrow> drain_loop p (ssz (int amount)) (p_length p - p_pos p);
       Some (case result of
               Inl e \<Rightarrow> (p, e)
             | Inr sofar \<Rightarrow>
                 if sofar \<ge> ssz (int amount) then (p\<lparr>p_pos := sofar - ssz (int amount)\<rparr>, ssz (int amount))
                 else (p\<lparr>p_pos := p_length p\<rparr>, sofar))
     })"

definition DrainPadding :: "parcel \<Rightarrow> (parcel \<times> int) option" where
  "DrainPadding p =
    (let padded = value_data_align (nat (p_pos p)) - nat (p_pos p) in
     if padded = 0 then Some (p, 0) else Drain p padded)"

definition ReadPadded :: "parcel \<Rightarrow> nat \<Rightarrow> (parcel \<times> int \<times> u8 list) option" where
  "ReadPadded p amount =
    (let padded = value_data_align amount in
     if ssz (p_pos p + int padded) \<le> p_length p then do {
       bs \<leftarrow> get_bytes p (p_pos p) amount;
       Some (p\<lparr>p_pos := p_pos p + int padded\<rparr>, int padded, bs)
     }
     else do {
       (p, amt, bs) \<leftarrow> Read p amount;
       if amt = int amount then
         if amount \<noteq> padded then do {
           (p, amt) \<leftarrow> Drain p (padded - amount);
           Some (p, if amt = int (padded - amount) then int padded else if amt < 0 then amt else B_BAD_DATA, bs)
         }
         else Some (p, amt, bs)
       else Some (p, if amt < 0 then amt else B_BAD_DATA, bs)
     })"

text \<open>The readers of numbers: what is not delivered keeps the content of an unset variable.\<close>

definition read_fixed :: "penv \<Rightarrow> parcel \<Rightarrow> nat \<Rightarrow> (parcel \<times> u8 list) option" where
  "read_fixed E p n =
    (if ssz (p_pos p + int n) \<le> p_length p then do {
       bs \<leftarrow> get_bytes p (p_pos p) n;
       Some (p\<lparr>p_pos := p_pos p + int n\<rparr>, bs)
     }
     else do {
       (p, _, bs) \<leftarrow> Read p n;
       Some (p, bs @ drop (length bs) (junk E n))
     })"

definition le_word64 :: "u8 list \<Rightarrow> 64 word" where
  "le_word64 bs = foldr (\<lambda>b w. ucast b OR push_bit 8 w) bs 0"

definition ReadBool :: "penv \<Rightarrow> parcel \<Rightarrow> (parcel \<times> bool) option" where
  "ReadBool E p = map_option (\<lambda>(p, bs). (p, hd bs \<noteq> 0)) (read_fixed E p 1)"

definition ReadInt8 :: "penv \<Rightarrow> parcel \<Rightarrow> (parcel \<times> u8) option" where
  "ReadInt8 E p = map_option (\<lambda>(p, bs). (p, hd bs)) (read_fixed E p 1)"

definition ReadInt16 :: "penv \<Rightarrow> parcel \<Rightarrow> (parcel \<times> u16) option" where
  "ReadInt16 E p = map_option (\<lambda>(p, bs). (p, le_word16 bs)) (read_fixed E p 2)"

definition ReadInt32 :: "penv \<Rightarrow> parcel \<Rightarrow> (parcel \<times> u32) option" where
  "ReadInt32 E p = map_option (\<lambda>(p, bs). (p, le_word bs)) (read_fixed E p 4)"

definition ReadInt64 :: "penv \<Rightarrow> parcel \<Rightarrow> (parcel \<times> 64 word) option" where
  "ReadInt64 E p = map_option (\<lambda>(p, bs). (p, le_word64 bs)) (read_fixed E p 8)"

definition ReadFloat :: "penv \<Rightarrow> parcel \<Rightarrow> (parcel \<times> u32) option" where
  "ReadFloat E p = map_option (\<lambda>(p, bs). (p, le_word bs)) (read_fixed E p 4)"

definition ReadDouble :: "penv \<Rightarrow> parcel \<Rightarrow> (parcel \<times> 64 word) option" where
  "ReadDouble E p = map_option (\<lambda>(p, bs). (p, le_word64 bs)) (read_fixed E p 8)"

definition ReadSmallData :: "parcel \<Rightarrow> (parcel \<times> int \<times> u8 list) option" where
  "ReadSmallData p =
    (if ssz (p_pos p + 8) \<le> p_length p then do {
       bs \<leftarrow> get_bytes p (p_pos p) 8;
       Some (p\<lparr>p_pos := p_pos p + 8\<rparr>, 8, bs)
     }
     else Read p 8)"

definition flat_type :: "u8 list \<Rightarrow> u32" where "flat_type bs = le_word (take 4 bs)"
definition flat_data :: "u8 list \<Rightarrow> u32" where "flat_data bs = le_word (take 4 (drop 4 bs))"

definition is_large_object :: "u32 \<Rightarrow> bool" where
  "is_large_object type \<longleftrightarrow> type AND (7 OR 0x00007f00) = 5 OR push_bit 8 0x2a"

definition kPackedLargeBinderWeakType :: u32 where
  "kPackedLargeBinderWeakType = B_PACK_LARGE_TYPE (B_TYPE_CODE 0x77622a)"

text \<open>
  \<^verbatim>\<open>ReadSmallDataOrObject\<close>, with the type and data words of the result. The second \<open>if\<close> compares in
  \<^verbatim>\<open>ssize_t\<close>, the position is then moved by the same word.
\<close>

definition ReadSmallDataOrObject :: "penv \<Rightarrow> parcel \<Rightarrow> (parcel \<times> int \<times> u32 \<times> u32) option" where
  "ReadSmallDataOrObject E p = do {
     (p, amt, bs) \<leftarrow> ReadSmallData p;
     let head = bs @ drop (length bs) (junk E 8);
     let type = flat_type head;
     let size = flat_data head;
     let small = B_PACK_SMALL_TYPE (B_UNPACK_TYPE_CODE type) 4;
     let no_weak = (\<lambda>binder. binder \<noteq> 0 \<and> type = kPackedLargeBinderWeakType \<and> \<not> e_weak E);
     if amt \<noteq> 8 \<or> \<not> is_large_object type then Some (p, amt, type, size)
     else if size < 8 then Some (p, B_BAD_TYPE, type, size)
     else if ssz (p_pos p + uint size) \<le> p_length p then do {
       obj \<leftarrow> get_bytes p (p_pos p) 4;
       let binder = le_word obj;
       let p = p\<lparr>p_pos := ssz (p_pos p + uint size)\<rparr>;
       Some (if no_weak binder then (p, B_NO_MEMORY, type, binder) else (p, ssz (8 + uint size), small, binder))
     }
     else do {
       (p, amt, obj) \<leftarrow> Read p 8;
       let binder = flat_type obj;
       if amt \<noteq> 8 then Some (p, if amt < 0 then amt else B_DATA_TRUNCATED, type, size)
       else if no_weak binder then Some (p, B_NO_MEMORY, type, binder)
       else do {
         (p, _) \<leftarrow> (if size > 8 then Drain p (unat size - 8) else Some (p, 0));
         Some (p, ssz (8 + uint size), small, binder)
       }
     }
   }"

definition ReadFlatBinderObject :: "parcel \<Rightarrow> (parcel \<times> int \<times> u8 list) option" where
  "ReadFlatBinderObject p =
    (if ssz (p_pos p + 16) \<le> p_length p then do {
       bs \<leftarrow> get_bytes p (p_pos p) 16;
       Some (p\<lparr>p_pos := p_pos p + 16\<rparr>, 16, bs)
     }
     else Read p 16)"

definition B_BINDER_READ_NULL_VALUE :: int where
  "B_BINDER_READ_NULL_VALUE = sint ((0x80004A00 OR 11) :: u32)"

definition UnmarshalFixedData :: "parcel \<Rightarrow> u32 \<Rightarrow> nat \<Rightarrow> (parcel \<times> int \<times> u8 list) option" where
  "UnmarshalFixedData p type amount = do {
     (p, amt, bs) \<leftarrow> ReadSmallData p;
     let fail = (\<lambda>p amt bs. Some (p, if amt < B_OK then amt else B_ERROR, bs));
     if amt \<noteq> 8 then fail p amt []
     else if flat_type bs = kNullTypeCode then Some (p, B_BINDER_READ_NULL_VALUE, [])
     else if B_UNPACK_TYPE_CODE (flat_type bs) \<noteq> type then fail p B_ERROR []
     else
       let len = unat (B_UNPACK_TYPE_LENGTH (flat_type bs)) in
       if len \<le> 4 then Some (p, if len = amount then B_OK else B_ERROR, take len (drop 4 bs))
       else if unat (flat_data bs) = amount then do {
         (p, amt, bs) \<leftarrow> ReadPadded p amount;
         if amt \<ge> B_OK then Some (p, B_OK, bs) else fail p amt bs
       }
       else fail p B_ERROR []
   }"

definition SkipValue :: "parcel \<Rightarrow> (parcel \<times> int) option" where
  "SkipValue p = do {
     (p, amt, bs) \<leftarrow> ReadSmallData p;
     if amt = 8 then
       if B_UNPACK_TYPE_LENGTH (flat_type bs) \<le> 4 then Some (p, B_OK)
       else Drain p (unat ((flat_data bs + 7) AND NOT 7))
     else Some (p, if amt < B_OK then amt else B_ERROR)
   }"

text \<open>\<^verbatim>\<open>ReadString\<close> takes the bytes up to the next null byte in memory, wherever \<^verbatim>\<open>m_length\<close> is.\<close>

definition ReadString :: "parcel \<Rightarrow> (parcel \<times> u8 list) option" where
  "ReadString p =
    (let rest = drop (nat (p_pos p)) (p_data p); str = takeWhile (\<lambda>b. b \<noteq> 0) rest in
     if length str < length rest then Some (p\<lparr>p_pos := p_pos p + int (length str) + 1\<rparr>, str) else None)"

section \<open>Parcels in memory\<close>

lemma ssz_id: "- (2 ^ 31) \<le> x \<Longrightarrow> x < 2 ^ 31 \<Longrightarrow> ssz x = x"
  unfolding ssz_def by (simp add: sint_sbintrunc' signed_take_bit_int_eq_self)

lemma length_junk [simp]: "length (junk E n) = n"
  by (simp add: junk_def)

definition put_over :: "'a list \<Rightarrow> nat \<Rightarrow> 'a list \<Rightarrow> 'a list" where
  "put_over xs k bs = take k xs @ bs @ drop (k + length bs) xs"

lemma length_put_over: "k \<le> length xs \<Longrightarrow> length (put_over xs k bs) = max (length xs) (k + length bs)"
  by (auto simp: put_over_def)

lemma put_over_Nil [simp]: "put_over xs k [] = xs"
  by (simp add: put_over_def)

lemma put_over_end: "put_over xs (length xs) bs = xs @ bs"
  by (simp add: put_over_def)

lemma put_over_twice:
  "k \<le> length xs \<Longrightarrow> put_over (put_over xs k a) (k + length a) b = put_over xs k (a @ b)"
  by (simp add: put_over_def add.commute add.left_commute)

lemma take_put_over:
  assumes "k + length bs \<le> length xs" "k \<le> n" "n \<le> length xs"
  shows "take (max n (k + length bs)) (put_over xs k bs) = put_over (take n xs) k bs"
  using assms by (auto simp: put_over_def min_def max_def take_drop)

text \<open>
  A sound parcel: the position is in the data, the data in the space the class believes in, and that in the block, which has
  at least the 32 bytes \<^verbatim>\<open>ReAlloc\<close> takes for granted.
\<close>

definition parcel_ok :: "parcel \<Rightarrow> bool" where
  "parcel_ok p \<longleftrightarrow> p_where p \<noteq> PNull \<and> 0 \<le> p_pos p \<and> p_pos p \<le> p_length p \<and> p_length p \<le> p_avail p \<and>
     p_avail p \<le> int (length (p_data p)) \<and> inline_size \<le> int (length (p_data p)) \<and> 0 < p_avail p"

definition contents :: "parcel \<Rightarrow> u8 list" where
  "contents p = take (nat (p_length p)) (p_data p)"

lemma length_contents: "parcel_ok p \<Longrightarrow> length (contents p) = nat (p_length p)"
  by (auto simp: contents_def parcel_ok_def)

lemma parcel_ok_error: "parcel_ok p \<Longrightarrow> Parcel_ErrorCheck p = B_OK"
  by (simp add: Parcel_ErrorCheck_def parcel_ok_def B_OK_def)

lemma put_bytes_ok:
  assumes "0 \<le> at" "at + int (length bs) \<le> int (length (p_data p))"
  shows "put_bytes p at bs = Some (p\<lparr>p_data := put_over (p_data p) (nat at) bs\<rparr>)"
  using assms by (auto simp: put_bytes_def put_over_def)

lemma get_bytes_ok:
  assumes "0 \<le> at" "at + int n \<le> int (length (p_data p))"
  shows "get_bytes p at n = Some (take n (drop (nat at) (p_data p)))"
  using assms by (simp add: get_bytes_def)

definition wrote :: "parcel \<Rightarrow> u8 list \<Rightarrow> parcel \<Rightarrow> bool" where
  "wrote p bs q \<longleftrightarrow> parcel_ok q \<and> contents q = put_over (contents p) (nat (p_pos p)) bs \<and>
     p_pos q = p_pos p + int (length bs) \<and> p_out q = p_out p \<and> p_in q = p_in p \<and> p_binders q = p_binders p"

lemma wrote_trans:
  assumes "parcel_ok p" "wrote p a q" "wrote q b r"
  shows "wrote p (a @ b) r"
proof -
  have "nat (p_pos p) \<le> length (contents p)" using assms(1) by (simp add: length_contents) (auto simp: parcel_ok_def)
  moreover have "nat (p_pos q) = nat (p_pos p) + length a" using assms(1,2) by (auto simp: wrote_def parcel_ok_def)
  ultimately show ?thesis using assms(2,3) put_over_twice [of "nat (p_pos p)" "contents p" a b] by (auto simp: wrote_def)
qed

lemma wrote_Nil: "parcel_ok p \<Longrightarrow> wrote p [] p"
  by (simp add: wrote_def)

lemma write_fits:
  assumes "parcel_ok p" "p_pos p + int (length bs) \<le> p_avail p"
  shows "\<exists>q. put_bytes p (p_pos p) bs = Some q \<and> wrote p bs (fst (finish_write q (int (length bs))))"
proof -
  let ?k = "nat (p_pos p)"
  have "take (max (nat (p_length p)) (?k + length bs)) (put_over (p_data p) ?k bs) = put_over (contents p) ?k bs"
    unfolding contents_def using assms by (intro take_put_over) (auto simp: parcel_ok_def)
  moreover have "nat (max (p_pos p + int (length bs)) (p_length p)) = max (nat (p_length p)) (?k + length bs)"
    using assms by (auto simp: parcel_ok_def)
  moreover have "length (put_over (p_data p) ?k bs) = length (p_data p)"
    using assms by (subst length_put_over) (auto simp: parcel_ok_def)
  ultimately show ?thesis
    using assms put_bytes_ok [of "p_pos p" bs p]
    by (auto simp: wrote_def finish_write_def parcel_ok_def contents_def Let_def)
qed

lemma ReAlloc_grows:
  assumes "parcel_ok p" "p_avail p < len" "len \<le> inline_size \<or> e_mem E (nat len)"
  shows "\<exists>q. ReAlloc E p len = Some (q, True) \<and> parcel_ok (q\<lparr>p_length := p_length p\<rparr>) \<and> p_avail q = len \<and>
    p_pos q = p_pos p \<and> contents (q\<lparr>p_length := p_length p\<rparr>) = contents p \<and> p_out q = p_out p \<and> p_in q = p_in p \<and> p_binders q = p_binders p"
proof (cases "len \<le> inline_size")
  case True
  then show ?thesis using assms by (auto simp: ReAlloc_def parcel_ok_def contents_def)
next
  case False
  have "get_bytes p 0 (nat (p_length p)) = Some (contents p)"
    using assms(1) by (subst get_bytes_ok) (auto simp: parcel_ok_def contents_def)
  then show ?thesis
    using assms False length_contents [OF assms(1)]
    by (auto simp: ReAlloc_def Let_def parcel_ok_def contents_def)
qed

definition memory :: "penv \<Rightarrow> bool" where "memory E \<longleftrightarrow> (\<forall>n. e_mem E n)"

lemma write_rest_mem:
  assumes "parcel_ok p" "p_out p = None" "memory E" "p_pos p = p_length p" "0 < int (length bs) + sofar"
  shows "\<exists>q. write_rest E p bs sofar written = Some (q, sofar + int (length bs)) \<and> wrote p bs q"
proof (cases "int (length bs) + p_pos p > p_avail p")
  case True
  let ?len = "grown p (int (length bs) + p_pos p)"
  have len: "p_avail p < ?len" "int (length bs) + p_pos p \<le> ?len" using True by (auto simp: grown_def)
  obtain q where q: "ReAlloc E p ?len = Some (q, True)" "parcel_ok (q\<lparr>p_length := p_length p\<rparr>)" "p_avail q = ?len"
    "p_pos q = p_pos p" "contents (q\<lparr>p_length := p_length p\<rparr>) = contents p" "p_out q = p_out p" "p_in q = p_in p" "p_binders q = p_binders p"
    using ReAlloc_grows [OF assms(1) len(1)] assms(3) by (auto simp: memory_def)
  let ?q = "q\<lparr>p_length := p_length p\<rparr>"
  obtain r where r: "put_bytes ?q (p_pos ?q) bs = Some r" "wrote ?q bs (fst (finish_write r (int (length bs))))"
    using write_fits [OF q(2), of bs] q(3,4) len(2) by (auto simp: add.commute)
  have "wrote p bs (fst (finish_write r (int (length bs))))"
    using r(2) q(4-8) by (simp add: wrote_def)
  moreover have "p_length (fst (finish_write r (int (length bs)))) \<ge> 0"
    using r(2) by (auto simp: wrote_def parcel_ok_def)
  ultimately show ?thesis
    using True assms(2,5) q(1) r(1) by (auto simp: write_rest_def Let_def finish_write_def)
next
  case False
  obtain r where r: "put_bytes p (p_pos p) bs = Some r" "wrote p bs (fst (finish_write r (int (length bs))))"
    using write_fits [OF assms(1), of bs] False by auto
  then show ?thesis
    using False assms(2,5) by (auto simp: write_rest_def Let_def finish_write_def)
qed

lemma Flush_none: "p_out p = None \<Longrightarrow> Flush p = Some (p, 0)"
  by (simp add: Flush_def)

lemma Write_mem:
  assumes "parcel_ok p" "p_out p = None" "memory E" "p_pos p + int (length bs) < 2 ^ 31"
  shows "\<exists>q. Write E p bs = Some (q, int (length bs)) \<and> wrote p bs q"
proof (cases "p_pos p + int (length bs) \<le> p_avail p")
  case True
  then show ?thesis
    using write_fits [OF assms(1) True] assms(1,4) ssz_id [of "p_pos p + int (length bs)"]
    by (auto simp: Write_def finish_write_def parcel_ok_def Let_def)
next
  case False
  have ssz: "ssz (p_pos p + int (length bs)) = p_pos p + int (length bs)"
    using assms(1,4) by (intro ssz_id) (auto simp: parcel_ok_def)
  show ?thesis
  proof (cases "p_pos p < p_length p")
    case True
    let ?n = "nat (p_length p - p_pos p)" and ?p = "\<lambda>q. q\<lparr>p_pos := p_length q, p_dirty := True\<rparr>"
    have n: "?n < length bs" "p_pos p + int ?n = p_length p" using True False assms(1) by (auto simp: parcel_ok_def)
    obtain q where q: "put_bytes p (p_pos p) (take ?n bs) = Some q" "wrote p (take ?n bs) (fst (finish_write q (int ?n)))"
      using write_fits [OF assms(1), of "take ?n bs"] n assms(1) by (auto simp: parcel_ok_def)
    have fields: "p_length q = p_length p" "p_pos q = p_pos p" "p_out q = p_out p"
      using q(1) by (auto simp: put_bytes_def split: if_splits)
    have e: "fst (finish_write q (int ?n)) = ?p q"
      using fields n(2) by (simp add: finish_write_def Let_def)
    have ok: "parcel_ok (?p q)" "wrote p (take ?n bs) (?p q)" using q(2) e by (auto simp: wrote_def)
    have pos: "0 < int (length (drop ?n bs)) + int ?n" and out: "p_out (?p q) = None" using n(1) fields(3) assms(2) by auto
    obtain r where r: "write_rest E (?p q) (drop ?n bs) (int ?n) 0 = Some (r, int ?n + int (length (drop ?n bs)))" "wrote (?p q) (drop ?n bs) r"
      using write_rest_mem [OF ok(1) out assms(3) _ pos, of 0] by auto
    have w: "wrote p bs r" using wrote_trans [OF assms(1) ok(2) r(2)] by simp
    have "int ?n + int (length (drop ?n bs)) = int (length bs)" using n(1) by simp
    then show ?thesis
      using w r(1) q(1) True False ssz Flush_none [of "?p q"] fields(3) assms(2) by (auto simp: Write_def Let_def B_OK_def)
  next
    case tail: False
    then have e: "p_pos p = p_length p" using assms(1) by (auto simp: parcel_ok_def)
    have "0 < int (length bs)" using False e assms(1) by (auto simp: parcel_ok_def)
    then show ?thesis
      using write_rest_mem [OF assms(1-3) e, of bs 0 0] False tail ssz Flush_none [OF assms(2)] parcel_ok_error [OF assms(1)]
      by (auto simp: Write_def B_OK_def)
  qed
qed

lemma write_fixed_Write: "write_fixed E p bs = Write E p bs"
  by (simp add: write_fixed_def Write_def)

lemma WriteSmallData_mem:
  assumes "parcel_ok p" "p_out p = None" "memory E" "p_pos p + 8 < 2 ^ 31"
  shows "\<exists>q. WriteSmallData E p t d = Some (q, 8) \<and> wrote p (le_bytes t @ le_bytes d) q"
  using Write_mem [OF assms(1-3), of "le_bytes t @ le_bytes d"] assms(4) by (simp add: WriteSmallData_def write_fixed_Write)

lemma unat_align:
  assumes "n + 7 < 2 ^ 32"
  shows "value_data_align n = (n + 7) div 8 * 8"
proof -
  have "unat (of_nat n + 7 :: u32) = n + 7"
    using assms unat_of_nat [of "n + 7", where ?'a = 32] by (simp add: take_bit_nat_eq_self)
  moreover have "mask 3 = (7 :: u32)" by (simp add: mask_eq_exp_minus_1)
  ultimately show ?thesis
    using unat_and_not_mask [of "of_nat n + 7 :: u32" 3] by (simp add: value_data_align_def)
qed

lemma align_bounds: "n \<le> (n + 7) div 8 * (8 :: nat)" "(n + 7) div 8 * 8 < n + (8 :: nat)" "(n + 7) div 8 * 8 = n \<or> 8 \<le> (n + 7) div 8 * (8 :: nat)"
  by (linarith, linarith) (cases "n = 0"; simp; linarith)

text \<open>The bytes that stand for the padded data, whichever way they are written.\<close>

definition padded :: "u8 list \<Rightarrow> u8 list" where
  "padded bs = bs @ replicate (value_data_align (length bs) - length bs) 0"

lemma length_padded: "length bs + 7 < 2 ^ 32 \<Longrightarrow> length (padded bs) = value_data_align (length bs)"
  using align_bounds(1) [of "length bs"] by (simp add: padded_def unat_align)

lemma put_over_keep:
  assumes "i + m \<le> length xs"
  shows "put_over xs i (take m (drop i xs) @ z) = put_over xs (i + m) z"
  using assms by (simp add: put_over_def take_add add.commute add.left_commute min_absorb2)

lemma clear_tail_ok:
  assumes "8 \<le> at" "at \<le> int (length (p_data p))" "k \<le> 8"
  shows "clear_tail p at k = Some (p\<lparr>p_data := put_over (p_data p) (nat at - k) (replicate k 0)\<rparr>)"
proof -
  let ?i = "nat at - 8"
  have "get_bytes p (at - 8) 8 = Some (take 8 (drop ?i (p_data p)))"
    using assms by (subst get_bytes_ok) (auto simp: nat_diff_distrib)
  moreover have "take (8 - k) (take 8 (drop ?i (p_data p))) = take (8 - k) (drop ?i (p_data p))" by (simp add: min_absorb1)
  moreover have "put_over (p_data p) ?i (take (8 - k) (drop ?i (p_data p)) @ replicate k 0) = put_over (p_data p) (?i + (8 - k)) (replicate k 0)"
    using assms by (intro put_over_keep) linarith
  moreover have "?i + (8 - k) = nat at - k" "nat (at - 8) = ?i" using assms by (auto simp: nat_diff_distrib)
  moreover have "length (take (8 - k) (drop ?i (p_data p)) @ replicate k 0) = 8" using assms by simp
  ultimately show ?thesis
    using assms put_bytes_ok [of "at - 8" "take (8 - k) (drop ?i (p_data p)) @ replicate k 0" p] by (simp add: clear_tail_def)
qed

lemma WritePadded_mem:
  assumes "parcel_ok p" "p_out p = None" "memory E" "p_pos p + int (length bs) + 8 < 2 ^ 31"
  shows "\<exists>q. WritePadded E p bs = Some (q, int (value_data_align (length bs))) \<and> wrote p (padded bs) q"
proof -
  let ?n = "value_data_align (length bs)" and ?k = "value_data_align (length bs) - length bs"
  have n: "?n = (length bs + 7) div 8 * 8" using assms(1,4) by (intro unat_align) (auto simp: parcel_ok_def)
  have b: "length bs \<le> ?n" "?n < length bs + 8" "?n = length bs \<or> 8 \<le> ?n" using align_bounds [of "length bs"] n by auto
  have ssz: "ssz (p_pos p + int ?n) = p_pos p + int ?n" using assms(1,4) b by (intro ssz_id) (auto simp: parcel_ok_def)
  have pb: "padded bs = bs @ replicate ?k 0" "length (padded bs) = ?n" using b by (simp_all add: padded_def)
  show ?thesis
  proof (cases "p_pos p + int ?n \<le> p_avail p")
    case True
    obtain q where q: "put_bytes p (p_pos p) (padded bs) = Some q" "wrote p (padded bs) (fst (finish_write q (int ?n)))"
      using write_fits [OF assms(1), of "padded bs"] True pb(2) by auto
    have r: "0 \<le> p_pos p" "p_pos p + int (length bs) \<le> int (length (p_data p))" "p_pos p + int ?n \<le> int (length (p_data p))"
      using assms(1) True b by (auto simp: parcel_ok_def)
    let ?d = "put_over (p_data p) (nat (p_pos p)) bs"
    have "length ?d = length (p_data p)" using r(1,2) by (subst length_put_over) auto
    moreover have "nat (p_pos p + int ?n) - ?k = nat (p_pos p) + length bs" using r(1) b by auto
    moreover have "put_over ?d (nat (p_pos p) + length bs) (replicate ?k 0) = put_over (p_data p) (nat (p_pos p)) (padded bs)"
      using r pb(1) by (simp add: put_over_twice)
    ultimately have "?n \<noteq> length bs \<Longrightarrow> clear_tail (p\<lparr>p_data := ?d\<rparr>) (p_pos p + int ?n) ?k = Some q"
      using clear_tail_ok [of "p_pos p + int ?n" "p\<lparr>p_data := ?d\<rparr>" ?k] r b q(1) put_bytes_ok [of "p_pos p" "padded bs" p] pb(2) by auto
    moreover have "?n = length bs \<Longrightarrow> put_bytes p (p_pos p) bs = Some q" using q(1) pb(1) by simp
    ultimately show ?thesis
      using True ssz q(2) put_bytes_ok [OF r(1,2)] by (auto simp: WritePadded_def Let_def finish_write_def)
  next
    case False
    obtain q where q: "Write E p bs = Some (q, int (length bs))" "wrote p bs q"
      using Write_mem [OF assms(1-3), of bs] assms(4) by auto
    then have qq: "parcel_ok q" "p_out q = None" "p_pos q = p_pos p + int (length bs)" using assms(2) by (auto simp: wrote_def)
    obtain r where r: "Write E q (replicate ?k 0) = Some (r, int ?k)" "wrote q (replicate ?k 0) r"
      using Write_mem [OF qq(1,2) assms(3), of "replicate ?k 0"] qq(3) b assms(4) by auto
    have "wrote p (padded bs) r" using wrote_trans [OF assms(1) q(2) r(2)] pb(1) by simp
    then show ?thesis
      using False ssz q r(1) b(1) pb(1) by (auto simp: WritePadded_def Let_def write_zeros_def)
  qed
qed

lemma WriteLargeData_mem:
  assumes "parcel_ok p" "p_out p = None" "memory E" "p_pos p + int (length bs) + 16 < 2 ^ 31"
  shows "\<exists>q. WriteLargeData E p t (length bs) (Some bs) = Some (q, 8 + int (value_data_align (length bs))) \<and>
    wrote p (le_bytes t @ le_bytes (of_nat (length bs)) @ padded bs) q"
proof -
  obtain q where q: "WriteSmallData E p t (of_nat (length bs)) = Some (q, 8)" "wrote p (le_bytes t @ le_bytes (of_nat (length bs))) q"
    using WriteSmallData_mem [OF assms(1-3), of t "of_nat (length bs)"] assms(4) by auto
  then have qq: "parcel_ok q" "p_out q = None" "p_pos q = p_pos p + 8" using assms(2) by (auto simp: wrote_def)
  obtain r where r: "WritePadded E q bs = Some (r, int (value_data_align (length bs)))" "wrote q (padded bs) r"
    using WritePadded_mem [OF qq(1,2) assms(3), of bs] qq(3) assms(4) by auto
  show ?thesis using q(1) r(1) wrote_trans [OF assms(1) q(2) r(2)] by (simp add: WriteLargeData_def)
qed

section \<open>Reading back\<close>

text \<open>The next bytes of a parcel, and the parcel behind them.\<close>

definition nexts :: "parcel \<Rightarrow> u8 list \<Rightarrow> bool" where
  "nexts p bs \<longleftrightarrow> parcel_ok p \<and> p_length p < 2 ^ 31 \<and> (\<exists>zs. drop (nat (p_pos p)) (contents p) = bs @ zs)"

definition skip :: "parcel \<Rightarrow> nat \<Rightarrow> parcel" where "skip p n = p\<lparr>p_pos := p_pos p + int n\<rparr>"

lemma nexts_fits:
  assumes "nexts p bs"
  shows "p_pos p + int (length bs) \<le> p_length p" "ssz (p_pos p + int (length bs)) = p_pos p + int (length bs)" "0 \<le> p_pos p"
    "ssz (int (length bs)) = int (length bs)"
proof -
  obtain zs where "drop (nat (p_pos p)) (contents p) = bs @ zs" using assms by (auto simp: nexts_def)
  then have "length (drop (nat (p_pos p)) (contents p)) = length bs + length zs" by simp
  moreover have "length (contents p) = nat (p_length p)" using assms length_contents by (simp add: nexts_def)
  ultimately have "length bs + length zs = nat (p_length p) - nat (p_pos p)" by simp
  then show le: "p_pos p + int (length bs) \<le> p_length p" and "0 \<le> p_pos p"
    using assms by (auto simp: nexts_def parcel_ok_def)
  show "ssz (p_pos p + int (length bs)) = p_pos p + int (length bs)" "ssz (int (length bs)) = int (length bs)"
    using le assms by (auto intro!: ssz_id simp: nexts_def parcel_ok_def)
qed

lemma nexts_append:
  assumes "nexts p (a @ b)"
  shows "nexts p a" "nexts (skip p (length a)) b"
proof -
  obtain zs where z: "drop (nat (p_pos p)) (contents p) = a @ b @ zs" using assms by (auto simp: nexts_def)
  then show "nexts p a" using assms by (auto simp: nexts_def)
  have "drop (nat (p_pos p) + length a) (contents p) = b @ zs"
    using z by (metis add.commute append_eq_conv_conj drop_drop)
  moreover have "nat (p_pos p + int (length a)) = nat (p_pos p) + length a" using nexts_fits(3) [OF assms] by auto
  ultimately show "nexts (skip p (length a)) b"
    using assms nexts_fits(1) [OF assms] by (auto simp: nexts_def skip_def parcel_ok_def contents_def)
qed

lemma skip_skip [simp]: "skip (skip p m) n = skip p (m + n)" "skip p 0 = p"
  by (simp_all add: skip_def add.assoc)

lemma nexts_get:
  assumes "nexts p bs"
  shows "get_bytes p (p_pos p) (length bs) = Some bs"
proof -
  obtain zs where z: "drop (nat (p_pos p)) (contents p) = bs @ zs" using assms by (auto simp: nexts_def)
  have "take (length bs) (drop (nat (p_pos p)) (p_data p)) = take (length bs) (drop (nat (p_pos p)) (contents p))"
    using nexts_fits(1,3) [OF assms] by (simp add: contents_def drop_take min_absorb1)
  also have "\<dots> = bs" using z by simp
  finally show ?thesis
    using nexts_fits(1,3) [OF assms] assms get_bytes_ok [of "p_pos p" "length bs" p] by (auto simp: nexts_def parcel_ok_def)
qed

lemma Read_nexts: "nexts p bs \<Longrightarrow> Read p (length bs) = Some (skip p (length bs), int (length bs), bs)"
  using nexts_fits(1,2) [of p bs] nexts_get [of p bs] by (simp add: Read_def skip_def)

lemma read_fixed_nexts: "nexts p bs \<Longrightarrow> read_fixed E p (length bs) = Some (skip p (length bs), bs)"
  using nexts_fits(1,2) [of p bs] nexts_get [of p bs] by (simp add: read_fixed_def skip_def)

lemma ReadSmallData_nexts: "nexts p bs \<Longrightarrow> length bs = 8 \<Longrightarrow> ReadSmallData p = Some (skip p 8, 8, bs)"
  using nexts_fits(1,2) [of p bs] nexts_get [of p bs] by (simp add: ReadSmallData_def skip_def)

lemma Drain_nexts: "nexts p bs \<Longrightarrow> Drain p (length bs) = Some (skip p (length bs), int (length bs))"
  using nexts_fits [of p bs] by (simp add: Drain_def skip_def)

lemma padded_append: "padded bs = bs @ drop (length bs) (padded bs)"
  by (simp add: padded_def)

lemma ReadPadded_nexts:
  assumes "nexts p (padded bs)" "length bs + 7 < 2 ^ 32"
  shows "ReadPadded p (length bs) = Some (skip p (length (padded bs)), int (length (padded bs)), bs)"
proof -
  have "nexts p bs" using assms(1) nexts_append(1) padded_append by metis
  then show ?thesis
    using nexts_fits(1,2) [OF assms(1)] nexts_get [of p bs] length_padded [OF assms(2)] by (simp add: ReadPadded_def skip_def Let_def)
qed

lemma wrote_nexts:
  assumes "parcel_ok p" "wrote p bs q" "p_length p < 2 ^ 31" "p_pos p + int (length bs) < 2 ^ 31"
  shows "nexts (q\<lparr>p_pos := p_pos p\<rparr>) bs"
proof -
  have k: "nat (p_pos p) \<le> length (contents p)" using assms(1) by (simp add: length_contents) (auto simp: parcel_ok_def)
  have "drop (nat (p_pos p)) (contents q) = bs @ drop (nat (p_pos p) + length bs) (contents p)"
    using assms(2) k by (simp add: wrote_def put_over_def)
  moreover have "length (contents q) = max (nat (p_length p)) (nat (p_pos p) + length bs)"
    using assms(1,2) k by (simp add: wrote_def length_put_over length_contents)
  then have "p_length q < 2 ^ 31"
    using assms length_contents [of q] by (auto simp: wrote_def parcel_ok_def)
  moreover have "contents (q\<lparr>p_pos := p_pos p\<rparr>) = contents q" by (simp add: contents_def)
  moreover have "parcel_ok (q\<lparr>p_pos := p_pos p\<rparr>)" using assms(1,2) by (auto simp: parcel_ok_def wrote_def)
  ultimately show ?thesis by (simp add: nexts_def)
qed

section \<open>Streams lose nothing\<close>

text \<open>All that was written so far: what the stream took and what waits in the buffer.\<close>

definition sent :: "parcel \<Rightarrow> u8 list" where
  "sent p = (case p_out p of Some out \<Rightarrow> o_bytes out | None \<Rightarrow> []) @ contents p"

definition appending :: "parcel \<Rightarrow> bool" where
  "appending p \<longleftrightarrow> parcel_ok p \<and> p_pos p = p_length p \<and> p_binders p = []"

lemma out_write_takes:
  assumes "out_write out bs = (out', n)"
  shows "n < 0 \<and> o_bytes out' = o_bytes out \<or> 0 \<le> n \<and> n \<le> int (length bs) \<and> o_bytes out' = o_bytes out @ take (nat n) bs"
  using assms by (auto simp: out_write_def min_def split: list.splits if_splits)

lemma get_all: "parcel_ok p \<Longrightarrow> get_bytes p 0 (nat (p_length p)) = Some (contents p)"
  by (subst get_bytes_ok) (auto simp: parcel_ok_def contents_def)

lemma Flush_sends:
  assumes "appending p"
  shows "\<exists>q n. Flush p = Some (q, n) \<and> appending q \<and> sent q = sent p \<and> p_avail q = p_avail p"
proof (cases "p_out p")
  case None
  then show ?thesis using assms by (simp add: Flush_def)
next
  case (Some out)
  have ok: "parcel_ok p" "p_pos p = p_length p" "p_binders p = []" using assms by (simp_all add: appending_def)
  have len: "\<not> p_length p < 0" "int (length (contents p)) = p_length p" using ok(1) length_contents [OF ok(1)] by (auto simp: parcel_ok_def)
  obtain out' n where w: "out_write out (contents p) = (out', n)" by fastforce
  note tk = out_write_takes [OF w]
  let ?p = "p\<lparr>p_out := Some out'\<rparr>"
  have W: "WriteBuffer p (contents p) = Some (?p, n)" using Some ok(3) w by (simp add: WriteBuffer_def)
  have F: "Flush p = do {
       (p, written) \<leftarrow> Some (?p, n);
       if written < p_length p then
         if written < B_OK then Some (p, written)
         else do {
           rest \<leftarrow> get_bytes p written (nat (p_length p - written));
           let p = p\<lparr>p_length := p_length p - written, p_base := p_base p + written\<rparr>;
           p \<leftarrow> put_bytes (p\<lparr>p_pos := p_length p\<rparr>) 0 rest;
           Some (p\<lparr>p_dirty := False\<rparr>, written)
         }
       else Some (p\<lparr>p_base := p_base p + written, p_length := 0, p_pos := 0, p_dirty := False\<rparr>, written)
     }"
    using Some len(1) get_all [OF ok(1)] W by (simp add: Flush_def)
  consider "n < 0" | "0 \<le> n" "n < p_length p" | "n = p_length p" "0 \<le> n"
    using tk len(2) by fastforce
  then show ?thesis
  proof cases
    case 1
    then show ?thesis
      using F len(1) tk ok Some by (auto simp: appending_def sent_def contents_def parcel_ok_def B_OK_def)
  next
    case 2
    let ?rest = "drop (nat n) (contents p)"
    have g: "get_bytes ?p n (nat (p_length p - n)) = Some ?rest"
      using 2 ok(1) by (subst get_bytes_ok) (auto simp: parcel_ok_def contents_def drop_take nat_diff_distrib)
    have l: "length ?rest = nat (p_length p - n)" using len(2) 2 by (simp add: nat_diff_distrib)
    have "put_bytes (?p\<lparr>p_length := p_length p - n, p_base := p_base p + n, p_pos := p_length p - n\<rparr>) 0 ?rest =
       Some (?p\<lparr>p_length := p_length p - n, p_base := p_base p + n, p_pos := p_length p - n, p_data := put_over (p_data p) 0 ?rest\<rparr>)"
      using 2 ok(1) l by (subst put_bytes_ok) (auto simp: parcel_ok_def)
    moreover have "length (put_over (p_data p) 0 ?rest) = length (p_data p)"
      using 2 ok(1) l by (subst length_put_over) (auto simp: parcel_ok_def)
    moreover have "take (nat (p_length p - n)) (put_over (p_data p) 0 ?rest) = ?rest" using l by (simp add: put_over_def)
    moreover have "o_bytes out' @ ?rest = o_bytes out @ contents p" using tk 2 by auto
    ultimately show ?thesis
      using F g 2 ok Some by (auto simp: appending_def sent_def contents_def parcel_ok_def B_OK_def Let_def)
  next
    case 3
    have "o_bytes out' = o_bytes out @ contents p" using tk 3 len(2) by auto
    then show ?thesis
      using F 3 ok Some by (auto simp: appending_def sent_def contents_def parcel_ok_def)
  qed
qed

lemma wrote_sent:
  assumes "appending p" "wrote p bs q"
  shows "appending q" "sent q = sent p @ bs"
proof -
  have p: "parcel_ok p" "p_pos p = p_length p" "p_binders p = []" using assms(1) by (simp_all add: appending_def)
  then have l: "nat (p_pos p) = length (contents p)" using length_contents by simp
  then show s: "sent q = sent p @ bs" using assms(2) by (simp add: sent_def wrote_def put_over_end)
  have "contents q = contents p @ bs" "parcel_ok q" using assms(2) l by (simp_all add: wrote_def put_over_end)
  then have "nat (p_length q) = length (contents p) + length bs" using length_contents [of q] by simp
  then show "appending q" using assms(2) p l by (auto simp: appending_def wrote_def parcel_ok_def)
qed

lemma write_rest_sends:
  assumes "appending p" "0 \<le> written"
  shows "\<exists>q r. write_rest E p bs 0 written = Some (q, r) \<and> appending q \<and> r \<le> int (length bs) \<and> sent q = sent p @ take (nat r) bs"
proof -
  have p: "parcel_ok p" "p_pos p = p_length p" "p_binders p = []" using assms(1) by (simp_all add: appending_def)
  have fill: "\<exists>q' r. put_bytes q (p_pos q) (take m bs) = Some q' \<and>
      appending (fst (finish_write q' (int (length (take m bs))))) \<and>
      sent (fst (finish_write q' (int (length (take m bs))))) = sent q @ take m bs"
    if "appending q" "p_pos q + int (length (take m bs)) \<le> p_avail q" for q m
    using write_fits [of q "take m bs"] that wrote_sent [OF that(1)] by (force simp: appending_def)
  have fw: "p_length (fst (finish_write q' k)) = max (p_pos q' + k) (p_length q')" for q' k by (simp add: finish_write_def Let_def)
  consider (direct) "p_out p \<noteq> None" "p_pos p = 0" "int (length bs) \<ge> p_avail p"
    | (fits) "\<not> (p_out p \<noteq> None \<and> p_pos p = 0 \<and> int (length bs) \<ge> p_avail p)" "int (length bs) + p_pos p \<le> p_avail p"
    | (grows) "\<not> (p_out p \<noteq> None \<and> p_pos p = 0 \<and> int (length bs) \<ge> p_avail p)" "int (length bs) + p_pos p > p_avail p"
    by linarith
  then show ?thesis
  proof cases
    case direct
    obtain out where o: "p_out p = Some out" using direct by auto
    obtain out' n where w: "out_write out bs = (out', n)" by fastforce
    have "contents p = []" using direct(2) p(2) by (simp add: contents_def)
    then show ?thesis
      using direct o w p out_write_takes [OF w]
      by (auto simp: write_rest_def WriteBuffer_def appending_def sent_def contents_def parcel_ok_def)
  next
    case fits
    obtain q' where "put_bytes p (p_pos p) bs = Some q'" "appending (fst (finish_write q' (int (length bs))))"
      "sent (fst (finish_write q' (int (length bs)))) = sent p @ bs"
      using fill [OF assms(1), of "length bs"] fits(2) by auto
    then show ?thesis
      using fits assms(2) p(1) by (force simp: write_rest_def Let_def finish_write_def)
  next
    case grows
    let ?len = "grown p (int (length bs) + p_pos p)"
    have len: "p_avail p < ?len" "int (length bs) + p_pos p \<le> ?len" using grows(2) by (auto simp: grown_def)
    show ?thesis
    proof (cases "?len \<le> inline_size \<or> e_mem E (nat ?len)")
      case True
      obtain q where q: "ReAlloc E p ?len = Some (q, True)" "parcel_ok (q\<lparr>p_length := p_length p\<rparr>)" "p_avail q = ?len"
        "p_pos q = p_pos p" "contents (q\<lparr>p_length := p_length p\<rparr>) = contents p" "p_out q = p_out p" "p_in q = p_in p" "p_binders q = p_binders p"
        using ReAlloc_grows [OF p(1) len(1) True] by auto
      let ?q = "q\<lparr>p_length := p_length p\<rparr>"
      have a: "appending ?q" "sent ?q = sent p" using q p by (simp_all add: appending_def sent_def)
      obtain q' where "put_bytes ?q (p_pos ?q) bs = Some q'" "appending (fst (finish_write q' (int (length bs))))"
        "sent (fst (finish_write q' (int (length bs)))) = sent p @ bs"
        using fill [OF a(1), of "length bs"] q(3,4) len(2) a(2) by (auto simp: add.commute)
      then show ?thesis
        using grows q(1) assms(2) by (force simp: write_rest_def Let_def finish_write_def)
    next
      case False
      then have R: "ReAlloc E p ?len = Some (p, False)" using len(1) p(1) by (auto simp: ReAlloc_def parcel_ok_def)
      let ?m = "nat (p_avail p - p_pos p)"
      have m: "int (length (take ?m bs)) = p_avail p - p_pos p" "p_length p \<le> p_avail p" "?m \<le> length bs"
        using grows(2) p by (auto simp: parcel_ok_def)
      obtain q' where q': "put_bytes p (p_pos p) (take ?m bs) = Some q'" "appending (fst (finish_write q' (p_avail p - p_pos p)))"
        "sent (fst (finish_write q' (p_avail p - p_pos p))) = sent p @ take ?m bs"
        using fill [OF assms(1), of ?m] m(1) by auto
      show ?thesis
      proof (cases "p_avail p - p_pos p = 0")
        case True
        moreover have "B_NO_MEMORY \<le> int (length bs)" "nat B_NO_MEMORY = 0" using error_codes_negative(1) by linarith+
        ultimately show ?thesis using grows R assms(1) by (auto simp: write_rest_def Let_def)
      next
        case False
        then have "p_avail p - p_pos p > 0" using m(2) p(2) by simp
        then show ?thesis
          using grows R q' m by (auto simp: write_rest_def Let_def finish_write_def)
      qed
    qed
  qed
qed

lemma Write_sends:
  assumes "appending p" "p_pos p + int (length bs) < 2 ^ 31"
  shows "\<exists>q r. Write E p bs = Some (q, r) \<and> appending q \<and> r \<le> int (length bs) \<and> sent q = sent p @ take (nat r) bs"
proof (cases "p_pos p + int (length bs) \<le> p_avail p")
  case True
  have ok: "parcel_ok p" using assms(1) by (simp add: appending_def)
  obtain q where "put_bytes p (p_pos p) bs = Some q" "wrote p bs (fst (finish_write q (int (length bs))))"
    using write_fits [OF ok True] by blast
  then show ?thesis
    using True assms ok wrote_sent [OF assms(1)] ssz_id [of "p_pos p + int (length bs)"]
    by (auto simp: Write_def finish_write_def parcel_ok_def Let_def)
next
  case False
  have ok: "parcel_ok p" "p_pos p = p_length p" using assms(1) by (simp_all add: appending_def)
  have ssz: "ssz (p_pos p + int (length bs)) = p_pos p + int (length bs)"
    using assms(2) ok(1) by (intro ssz_id) (auto simp: parcel_ok_def)
  obtain q n where q: "Flush p = Some (q, n)" "appending q" "sent q = sent p" using Flush_sends [OF assms(1)] by blast
  show ?thesis
  proof (cases "n < 0")
    case True
    then show ?thesis using False ok ssz q parcel_ok_error [OF ok(1)] by (simp add: Write_def B_OK_def)
  next
    case n: False
    then show ?thesis
      using False ok ssz q parcel_ok_error [OF ok(1)] write_rest_sends [OF q(2), of n E bs] by (simp add: Write_def B_OK_def)
  qed
qed

definition stream_bytes :: "istream \<Rightarrow> u8 list" where
  "stream_bytes s = concat (map (case_sum (\<lambda>_. []) id) s)"

text \<open>All that is still to be read: the rest of the buffer and what the stream holds.\<close>

definition pending :: "parcel \<Rightarrow> u8 list" where
  "pending p = drop (nat (p_pos p)) (contents p) @ (case p_in p of Some s \<Rightarrow> stream_bytes s | None \<Rightarrow> [])"

lemma in_read_takes:
  "in_read s n = (s', r, bs) \<Longrightarrow> bs @ stream_bytes s' = stream_bytes s \<and> length bs \<le> n \<and> (r < 0 \<and> bs = [] \<or> r = int (length bs))"
  by (cases "(s, n)" rule: in_read.cases) (auto simp: stream_bytes_def split: if_splits)

lemma ReadBuffer_takes:
  assumes "ReadBuffer p n = (q, r, bs)"
  shows "\<exists>s. q = p\<lparr>p_in := s\<rparr> \<and> bs @ (case s of Some s \<Rightarrow> stream_bytes s | None \<Rightarrow> []) = (case p_in p of Some s \<Rightarrow> stream_bytes s | None \<Rightarrow> [])"
    "length bs \<le> n" "r < 0 \<and> bs = [] \<or> r = int (length bs)"
proof -
  show "length bs \<le> n" "r < 0 \<and> bs = [] \<or> r = int (length bs)"
    using assms in_read_takes by (auto simp: ReadBuffer_def split: option.splits prod.splits)
  show "\<exists>s. q = p\<lparr>p_in := s\<rparr> \<and> bs @ (case s of Some s \<Rightarrow> stream_bytes s | None \<Rightarrow> []) = (case p_in p of Some s \<Rightarrow> stream_bytes s | None \<Rightarrow> [])"
  proof (cases "p_in p")
    case None
    then show ?thesis using assms by (intro exI [of _ None]) (simp add: ReadBuffer_def)
  next
    case (Some s)
    then obtain s' where "in_read s n = (s', r, bs)" "q = p\<lparr>p_in := Some s'\<rparr>"
      using assms by (auto simp: ReadBuffer_def split: prod.splits)
    then show ?thesis using Some in_read_takes [of s n s' r bs] by (intro exI [of _ "Some s'"]) simp
  qed
qed

text \<open>What a read leaves behind: nothing is lost or read twice, and the parcel is sound or in an error state.\<close>

definition read_ok :: "parcel \<Rightarrow> nat \<Rightarrow> (parcel \<times> int \<times> u8 list) option \<Rightarrow> bool" where
  "read_ok p n res \<longleftrightarrow> (\<exists>q r bs. res = Some (q, r, bs) \<and> bs @ pending q = pending p \<and> length bs \<le> n \<and>
     (r < 0 \<and> bs = [] \<or> r = int (length bs)) \<and> (parcel_ok q \<or> p_length q < 0))"

lemma read_rest_ok:
  assumes "parcel_ok p" "p_pos p = p_length p" "int n < 2 ^ 31" "bs @ pending p = pending p0"
  shows "read_ok p0 (n + length bs) (read_rest p n bs)"
proof -
  have ssz: "ssz (int n) = int n" using assms(3) by (intro ssz_id) auto
  have c: "drop (nat (p_pos p)) (contents p) = []" using assms(1,2) length_contents by simp
  show ?thesis
  proof (cases "int n \<ge> p_avail p")
    case True
    obtain q r cs where R: "ReadBuffer p n = (q, r, cs)" by (metis prod_cases3)
    obtain s where s: "q = p\<lparr>p_in := s\<rparr>" "cs @ (case s of Some s \<Rightarrow> stream_bytes s | None \<Rightarrow> []) = pending p"
      using ReadBuffer_takes(1) [OF R] c by (auto simp: pending_def)
    show ?thesis
    proof (cases "r < 0")
      case True
      then have "cs = []" using ReadBuffer_takes(3) [OF R] by auto
      then show ?thesis
        using \<open>int n \<ge> p_avail p\<close> ssz R s assms(1,4) True c
        by (auto simp: read_rest_def read_ok_def pending_def contents_def parcel_ok_def)
    next
      case False
      then have "r = int (length cs)" using ReadBuffer_takes(3) [OF R] by auto
      then show ?thesis
        using True ssz R s assms(1,4) c ReadBuffer_takes(2) [OF R]
        by (auto simp: read_rest_def read_ok_def pending_def contents_def parcel_ok_def)
    qed
  next
    case False
    obtain q r cs where R: "ReadBuffer p (nat (p_avail p)) = (q, r, cs)" by (metis prod_cases3)
    obtain s where s: "q = p\<lparr>p_in := s\<rparr>" "cs @ (case s of Some s \<Rightarrow> stream_bytes s | None \<Rightarrow> []) = pending p"
      using ReadBuffer_takes(1) [OF R] c by (auto simp: pending_def)
    have l: "int (length cs) \<le> p_avail p" "p_avail p \<le> int (length (p_data p))"
      using ReadBuffer_takes(2) [OF R] assms(1) by (auto simp: parcel_ok_def)
    have put: "put_bytes (q\<lparr>p_length := r\<rparr>) 0 cs = Some (q\<lparr>p_length := r, p_data := put_over (p_data p) 0 cs\<rparr>)"
      using l s(1) by (subst put_bytes_ok) auto
    show ?thesis
    proof (cases "r < 0")
      case True
      then have "cs = []" using ReadBuffer_takes(3) [OF R] by auto
      then show ?thesis
        using False ssz R s assms(4) True put by (auto simp: read_rest_def read_ok_def pending_def contents_def B_OK_def)
    next
      case r: False
      then have rl: "r = int (length cs)" using ReadBuffer_takes(3) [OF R] by auto
      let ?m = "min (length cs) n"
      let ?q = "q\<lparr>p_length := int (length cs), p_data := put_over (p_data p) 0 cs\<rparr>"
      let ?q' = "?q\<lparr>p_base := p_base q + p_pos q, p_pos := int ?m\<rparr>"
      have len: "length (put_over (p_data p) 0 cs) = length (p_data p)" "take (length cs) (put_over (p_data p) 0 cs) = cs"
        using l by (auto simp: put_over_def)
      have g: "get_bytes ?q 0 ?m = Some (take ?m cs)"
        using len l by (subst get_bytes_ok) (auto simp: min_def put_over_def)
      have "read_rest p n bs = Some (?q', int (length bs) + int ?m, bs @ take ?m cs)"
        using False ssz R put rl g by (simp add: read_rest_def B_OK_def Let_def)
      moreover have "parcel_ok ?q'" using assms(1) s(1) len(1) l by (auto simp: parcel_ok_def)
      moreover have "pending ?q' = drop ?m cs @ (case s of Some s \<Rightarrow> stream_bytes s | None \<Rightarrow> [])"
        using len(2) s(1) by (auto simp: pending_def contents_def)
      then have "(bs @ take ?m cs) @ pending ?q' = pending p0"
        using s(2) assms(4) by (metis append.assoc append_take_drop_id)
      ultimately show ?thesis unfolding read_ok_def
        by (intro exI [of _ ?q'] exI [of _ "int (length bs) + int ?m"] exI [of _ "bs @ take ?m cs"]) auto
    qed
  qed
qed

lemma Read_pending:
  assumes "parcel_ok p" "p_pos p + int n < 2 ^ 31"
  shows "read_ok p n (Read p n)"
proof -
  have ssz: "ssz (p_pos p + int n) = p_pos p + int n" using assms by (intro ssz_id) (auto simp: parcel_ok_def)
  have d: "length (drop (nat (p_pos p)) (contents p)) = nat (p_length p - p_pos p)"
    using length_contents [OF assms(1)] assms(1) by (simp add: nat_diff_distrib parcel_ok_def)
  have g: "get_bytes p (p_pos p) m = Some (take m (drop (nat (p_pos p)) (contents p)))" if "p_pos p + int m \<le> p_length p" for m
    using that assms(1) by (subst get_bytes_ok) (auto simp: parcel_ok_def contents_def drop_take min_absorb1)
  show ?thesis
  proof (cases "p_pos p + int n \<le> p_length p")
    case True
    let ?q = "p\<lparr>p_pos := p_pos p + int n\<rparr>" and ?bs = "take n (drop (nat (p_pos p)) (contents p))"
    have "Read p n = Some (?q, int n, ?bs)" using True ssz g [OF True] by (simp add: Read_def)
    moreover have "nat (p_pos p + int n) = n + nat (p_pos p)" using assms(1) by (simp add: nat_add_distrib parcel_ok_def)
    then have "?bs @ pending ?q = pending p" by (simp add: pending_def contents_def add.commute flip: drop_drop)
    moreover have "length ?bs = n" using True d by simp
    moreover have "parcel_ok ?q" using True assms(1) by (simp add: parcel_ok_def)
    ultimately show ?thesis unfolding read_ok_def
      by (intro exI [of _ ?q] exI [of _ "int n"] exI [of _ ?bs]) auto
  next
    case False
    show ?thesis
    proof (cases "p_pos p < p_length p")
      case True
      let ?bs = "drop (nat (p_pos p)) (contents p)" and ?p = "p\<lparr>p_pos := p_length p\<rparr>"
      have gb: "get_bytes p (p_pos p) (nat (p_length p - p_pos p)) = Some ?bs"
        using g [of "nat (p_length p - p_pos p)"] True d by simp
      have l: "length ?bs \<le> n" using d False True by linarith
      have "parcel_ok ?p" using assms(1) by (auto simp: parcel_ok_def)
      moreover have "?bs @ pending ?p = pending p"
        using length_contents [OF assms(1)] by (simp add: pending_def contents_def)
      ultimately have "read_ok p ((n - length ?bs) + length ?bs) (read_rest ?p (n - length ?bs) ?bs)"
        using assms by (intro read_rest_ok) (auto simp: parcel_ok_def)
      then show ?thesis using False True ssz gb l by (simp add: Read_def)
    next
      case tail: False
      then have "p_pos p = p_length p" using assms(1) by (auto simp: parcel_ok_def)
      then have "read_ok p n (read_rest p n [])"
        using read_rest_ok [of p n "[]" p] assms by (auto simp: parcel_ok_def)
      then show ?thesis using False tail ssz parcel_ok_error [OF assms(1)] by (simp add: Read_def)
    qed
  qed
qed

text \<open>
  Draining over the end of the buffer goes wrong: the position is set to what is left of the fresh data instead of to what was
  drained of it. At the end of the buffer, with a chunk \<open>c\<close> to come, the last \<open>n\<close> bytes of \<open>c\<close> stay, whichever bytes had to be skipped.
\<close>

lemma Drain_refill:
  assumes "parcel_ok p" "p_pos p = p_length p" "p_length p < 2 ^ 30" "p_in p = Some (Inr c # s)" "int (length c) \<le> p_avail p"
    "0 < n" "n \<le> length c" "int n < 2 ^ 30"
  shows "\<exists>q. Drain p n = Some (q, int n) \<and> pending q = drop (length c - n) c @ stream_bytes s"
proof -
  have ssz: "ssz (p_pos p + int n) = p_pos p + int n" "ssz (int n) = int n"
    using assms by (auto intro!: ssz_id simp: parcel_ok_def)
  have R: "ReadBuffer p (nat (p_avail p)) = (p\<lparr>p_in := Some s\<rparr>, int (length c), c)"
    using assms(4,5) by (auto simp: ReadBuffer_def)
  let ?q = "p\<lparr>p_in := Some s, p_base := p_base p + p_length p, p_length := int (length c), p_data := put_over (p_data p) 0 c\<rparr>"
  have put: "put_bytes (p\<lparr>p_in := Some s, p_base := p_base p + p_length p, p_length := int (length c)\<rparr>) 0 c = Some ?q"
    using assms(1,5) by (subst put_bytes_ok) (auto simp: parcel_ok_def)
  have "drain_loop p (int n) 0 = drain_loop ?q (int n) (int (length c))"
    using R put assms(6,7) by (subst drain_loop.simps) (auto simp: B_OK_def)
  also have "\<dots> = Some (?q, Inr (int (length c)))" using assms(7) by (subst drain_loop.simps) simp
  finally have L: "drain_loop p (int n) 0 = Some (?q, Inr (int (length c)))" .
  have "nat (int (length c) - int n) = length c - n" by linarith
  moreover have "take (length c) (put_over (p_data p) 0 c) = c" by (simp add: put_over_def)
  ultimately show ?thesis
    using L ssz assms(2,6,7) parcel_ok_error [OF assms(1)] by (simp add: Drain_def pending_def contents_def)
qed

text \<open>A parcel without an input stream loses its contents when it is read beyond its end.\<close>

lemma Read_past_end:
  assumes "parcel_ok p" "p_in p = None" "p_length p < p_pos p + int n" "p_pos p + int n < 2 ^ 31" "int n < p_avail p"
  shows "\<exists>q bs. Read p n = Some (q, int (length bs), bs) \<and> bs = drop (nat (p_pos p)) (contents p) \<and> contents q = [] \<and> p_pos q = 0"
proof -
  have ssz: "ssz (p_pos p + int n) = p_pos p + int n" "ssz (int k) = int k" if "k \<le> n" for k
    using assms(1,4) that by (auto intro!: ssz_id simp: parcel_ok_def)
  have rest: "read_rest q m bs = Some (q\<lparr>p_length := 0, p_base := p_base q + p_pos q, p_pos := 0\<rparr>, int (length bs), bs)"
    if "p_in q = None" "m \<le> n" "p_avail q = p_avail p" for q m bs
    using that assms(5) ssz(2) [OF that(2)] by (simp add: read_rest_def ReadBuffer_def put_bytes_def get_bytes_def B_OK_def Let_def)
  show ?thesis
  proof (cases "p_pos p < p_length p")
    case True
    have "length (drop (nat (p_pos p)) (contents p)) = nat (p_length p - p_pos p)"
      using length_contents [OF assms(1)] assms(1) by (simp add: nat_diff_distrib parcel_ok_def)
    moreover have "get_bytes p (p_pos p) (nat (p_length p - p_pos p)) = Some (drop (nat (p_pos p)) (contents p))"
      using True assms(1) by (subst get_bytes_ok) (auto simp: parcel_ok_def contents_def drop_take nat_diff_distrib)
    ultimately show ?thesis
      using True assms(2,3) ssz(1) [of 0] rest [of "p\<lparr>p_pos := p_length p\<rparr>"] by (simp add: Read_def contents_def)
  next
    case False
    then have e: "p_pos p = p_length p" using assms(1) by (auto simp: parcel_ok_def)
    then have "drop (nat (p_pos p)) (contents p) = []" using length_contents [OF assms(1)] by simp
    then show ?thesis
      using False assms(2,3) ssz(1) [of 0] rest [of p n "[]"] parcel_ok_error [OF assms(1)] by (simp add: Read_def contents_def)
  qed
qed

text \<open>
  \<^verbatim>\<open>ReAlloc\<close> believes every parcel to have 32 bytes: a parcel on eight foreign bytes is written beyond their end, and a freed parcel
  is written through its null pointer. Writing a binder into a growing parcel leaves bytes behind it that nobody wrote.
\<close>

lemma ReAlloc_overruns:
  "Write E (Parcel_on (replicate 8 0) False) (replicate 9 1) = None"
  "do_free (Parcel_on (replicate 8 0) False) \<bind> (\<lambda>p. Write E p [1, 2, 3, 4]) = None"
  by code_simp+

definition full_parcel :: parcel where
  "full_parcel = (Parcel_empty None None)\<lparr>p_data := replicate 32 0, p_where := PInline, p_length := 24, p_avail := 32, p_pos := 24\<rparr>"

lemma WriteFlatBinder_length:
  assumes "e_mem E 48"
  shows "\<exists>q. WriteFlatBinder E full_parcel 1 2 3 = Some (q, 16) \<and> p_pos q = 40 \<and> p_length q = 48"
  using assms
  by (auto simp: WriteFlatBinder_def full_parcel_def Parcel_empty_def Flush_def ReAlloc_def grown_def inline_size_def B_OK_def
      get_bytes_def put_bytes_def finish_write_def Let_def le_bytes_def)

section \<open>The properties\<close>

text \<open>
  C29. Writing and reading back. With memory for its growth, a sound parcel without streams takes any bytes: \<^verbatim>\<open>Write\<close> puts them over
  the contents at the position, \<^verbatim>\<open>WritePadded\<close> puts them and zeros up to a multiple of eight, whether it masks them in the buffer or
  writes them in two steps, and reading from the old position returns them and ends where the writing ended.
\<close>

theorem parcel_write_read:
  assumes "parcel_ok p" "p_out p = None" "memory E" "p_length p < 2 ^ 31" "p_pos p + int (length bs) + 8 < 2 ^ 31"
  shows "(\<exists>q. Write E p bs = Some (q, int (length bs)) \<and> parcel_ok q \<and> contents q = put_over (contents p) (nat (p_pos p)) bs \<and>
      Read (q\<lparr>p_pos := p_pos p\<rparr>) (length bs) = Some (q, int (length bs), bs)) \<and>
    (\<exists>q. WritePadded E p bs = Some (q, int (value_data_align (length bs))) \<and> parcel_ok q \<and>
      contents q = put_over (contents p) (nat (p_pos p)) (bs @ replicate (value_data_align (length bs) - length bs) 0) \<and>
      ReadPadded (q\<lparr>p_pos := p_pos p\<rparr>) (length bs) = Some (q, int (value_data_align (length bs)), bs))"
proof
  obtain q where q: "Write E p bs = Some (q, int (length bs))" "wrote p bs q" using Write_mem [OF assms(1-3), of bs] assms(5) by auto
  have "skip (q\<lparr>p_pos := p_pos p\<rparr>) (length bs) = q" using q(2) by (simp add: skip_def wrote_def)
  then show "\<exists>q. Write E p bs = Some (q, int (length bs)) \<and> parcel_ok q \<and> contents q = put_over (contents p) (nat (p_pos p)) bs \<and>
      Read (q\<lparr>p_pos := p_pos p\<rparr>) (length bs) = Some (q, int (length bs), bs)"
    using q Read_nexts [OF wrote_nexts [OF assms(1) q(2) assms(4)]] assms(5) by (auto simp: wrote_def)
next
  obtain q where q: "WritePadded E p bs = Some (q, int (value_data_align (length bs)))" "wrote p (padded bs) q"
    using WritePadded_mem [OF assms(1-3), of bs] assms(5) by auto
  have l: "length bs + 7 < 2 ^ 32" using assms(1,5) by (simp add: parcel_ok_def)
  then have n: "length (padded bs) = value_data_align (length bs)" "value_data_align (length bs) < length bs + 8"
    using length_padded unat_align align_bounds(2) [of "length bs"] by simp_all
  have "skip (q\<lparr>p_pos := p_pos p\<rparr>) (value_data_align (length bs)) = q" using q(2) n(1) by (simp add: skip_def wrote_def)
  then show "\<exists>q. WritePadded E p bs = Some (q, int (value_data_align (length bs))) \<and> parcel_ok q \<and>
      contents q = put_over (contents p) (nat (p_pos p)) (bs @ replicate (value_data_align (length bs) - length bs) 0) \<and>
      ReadPadded (q\<lparr>p_pos := p_pos p\<rparr>) (length bs) = Some (q, int (value_data_align (length bs)), bs)"
    using q ReadPadded_nexts [OF wrote_nexts [OF assms(1) q(2) assms(4)] l] assms(5) n by (auto simp: wrote_def padded_def)
qed

text \<open>
  C30. \<open>Write\<close> at the end of a parcel, \<open>Flush\<close> and \<open>Read\<close> lose nothing on streams (\<open>Drain\<close>, whose refill is wrong, lemma \<open>Drain_refill\<close>, and
  writes elsewhere than at the end are not covered). On a sound parcel that is written at its end, whatever its stream answers and whether there is memory or not,
  \<^verbatim>\<open>Write\<close> and \<^verbatim>\<open>Flush\<close> return, and the bytes the stream took followed by those in the buffer are the old ones followed by exactly as
  many of the new ones as \<^verbatim>\<open>Write\<close> says (none for an error). What \<^verbatim>\<open>Read\<close> delivers, followed by what is still to be read, is what was to be read before, however the
  stream cuts it into pieces; a non-negative result is the number of bytes delivered.
\<close>

theorem parcel_streams:
  assumes "appending p" "p_pos p + int (length bs) < 2 ^ 31" "parcel_ok p'" "p_pos p' + int n < 2 ^ 31"
  shows "(\<exists>q r. Write E p bs = Some (q, r) \<and> appending q \<and> r \<le> int (length bs) \<and> sent q = sent p @ take (nat r) bs) \<and>
    (\<exists>q r. Flush p = Some (q, r) \<and> appending q \<and> sent q = sent p) \<and>
    (\<exists>q r cs. Read p' n = Some (q, r, cs) \<and> cs @ pending q = pending p' \<and> length cs \<le> n \<and> (r < 0 \<and> cs = [] \<or> r = int (length cs)))"
  using Write_sends [OF assms(1,2)] Flush_sends [OF assms(1)] Read_pending [OF assms(3,4)] by (fastforce simp: read_ok_def)

section \<open>Examples\<close>

definition demo_env :: penv where
  "demo_env = \<lparr>e_mem = \<lambda>_. True, e_junk = \<lambda>_. 0xEE, e_flat = \<lambda>_ w. (w, w), e_weak = True, e_unflat = \<lambda>_. 0\<rparr>"

definition demo_parcel :: parcel where
  "demo_parcel = (Parcel_empty (Some \<lparr>o_bytes = [], o_answers = [3, -1, 2]\<rparr>) (Some [Inr [1, 2], Inr [3]]))
     \<lparr>p_data := replicate 32 7, p_where := PInline, p_length := 30, p_avail := 32, p_pos := 30\<rparr>"

lemma demo_parcel_ok: "appending demo_parcel" "parcel_ok full_parcel" "memory demo_env"
  by (simp_all add: appending_def parcel_ok_def demo_parcel_def full_parcel_def Parcel_empty_def inline_size_def memory_def demo_env_def)

theorem parcel_write_read_witness:
  "\<exists>q. Write demo_env full_parcel (replicate 20 5) = Some (q, 20) \<and> contents q = replicate 24 0 @ replicate 20 5"
proof -
  have "contents full_parcel = replicate 24 0" "p_pos full_parcel = 24" "p_length full_parcel = 24" "p_out full_parcel = None"
    by (simp_all add: full_parcel_def Parcel_empty_def contents_def)
  then show ?thesis
    using parcel_write_read [OF demo_parcel_ok(2) _ demo_parcel_ok(3), of "replicate 20 5"] by (auto simp: put_over_def)
qed

theorem parcel_streams_witness:
  "\<exists>q r. Write demo_env demo_parcel [1, 2, 3, 4, 5] = Some (q, r) \<and> sent q = replicate 30 7 @ take (nat r) [1, 2, 3, 4, 5]"
proof -
  have d: "p_pos demo_parcel = 30" "sent demo_parcel = replicate 30 7" "parcel_ok demo_parcel"
    using demo_parcel_ok(1) by (simp_all add: demo_parcel_def Parcel_empty_def sent_def contents_def appending_def)
  show ?thesis
    using parcel_streams [OF demo_parcel_ok(1) _ d(3), of "[1, 2, 3, 4, 5]" 0 demo_env] d by auto
qed

end
