(* ===== verification/Value_Archive.thy ===== *)
theory Value_Archive
  imports Parcel Value_Algebra
begin

text \<open>
  Values in parcels: \<^verbatim>\<open>SValue::ArchivedSize\<close>, \<^verbatim>\<open>Archive\<close>, \<^verbatim>\<open>Unarchive\<close> (\<^verbatim>\<open>Value.cpp\<close>), the same for maps
  (\<^verbatim>\<open>ValueMap.cpp\<close>), and the typed data and value lists of \<^verbatim>\<open>Parcel.cpp\<close>.

  The format: every item starts with two words. Small data is its type word and four bytes, of which only the first are its
  own; large data is its type word, its length and its bytes padded to a multiple of eight; a map is its type
  word, a length, the number of pairs and the order, and then all keys and values. An object in a value is written as a
  flattened binder of 16 bytes.

  Unarchiving recurses for every map in a map, so its first argument is the depth of the stack; without stack the
  result is \<open>None\<close>, as it is for every access outside of a block. A type word that no value has (bits that neither
  a code nor a length uses) is outside of the model and \<open>None\<close> too.

  A map keeps its archived size in \<^verbatim>\<open>m_dataSize\<close>. Here values carry these caches (\<open>cval\<close>), every function that asks for a size
  returns the value with its caches filled, and unarchiving sets them. Nothing keeps a cache true: \<^verbatim>\<open>ReplaceValues\<close>
  changes values and leaves it. What is written and read back does not depend on the caches, the announced size does.
\<close>

section \<open>Values with the cached sizes of their maps\<close>

text \<open>The number is \<^verbatim>\<open>m_dataSize\<close>: negative if the size is not known.\<close>

datatype cval = CUndefined | CData u32 "u8 list" | CMap int "(cval \<times> cval) list"

type_synonym cpair = "cval \<times> cval"

fun value_of :: "cval \<Rightarrow> sval" where
  "value_of CUndefined = SUndefined"
| "value_of (CData c bs) = SData c bs"
| "value_of (CMap n ps) = SMap (map (\<lambda>(k, v). (value_of k, value_of v)) ps)"

abbreviation "pair_of \<equiv> map_prod value_of value_of"

text \<open>A value whose maps were just built: no size is known.\<close>

fun uncached :: "sval \<Rightarrow> cval" where
  "uncached SUndefined = CUndefined"
| "uncached (SData c bs) = CData c bs"
| "uncached (SMap ps) = CMap B_ERROR (map (\<lambda>(k, v). (uncached k, uncached v)) ps)"

lemma value_of_CMap [simp]: "value_of (CMap n ps) = SMap (map pair_of ps)"
  by (auto simp: map_prod_def)

lemma value_of_uncached [simp]: "value_of (uncached v) = v"
  by (induction v rule: uncached.induct) (auto intro!: map_idI simp del: value_of_CMap)

declare value_of.simps(3) [simp del]

text \<open>
  \<^verbatim>\<open>ReplaceValues\<close> on such a value. The map is the one the value had, or a clone, which has the same cached size. Each new value
  is given with its index.
\<close>

fun replace_pairs :: "cpair list \<Rightarrow> (cval \<times> nat) list \<Rightarrow> cpair list" where
  "replace_pairs ps [] = ps"
| "replace_pairs ps ((v, idx) # changes) =
    replace_pairs (if idx < length ps then ps[idx := (fst (ps ! idx), v)] else ps) changes"

definition ReplaceValues_cached :: "cval \<Rightarrow> (cval \<times> nat) list \<Rightarrow> cval" where
  "ReplaceValues_cached this changes =
    (case this of CMap n ps \<Rightarrow> CMap n (replace_pairs ps changes) | _ \<Rightarrow> this)"

lemma replace_pairs_values:
  "map pair_of (replace_pairs ps changes) = ReplaceValues_pairs (map pair_of ps) (map (map_prod value_of id) changes)"
proof (induction ps changes rule: replace_pairs.induct)
  case (2 ps v idx changes)
  have "map pair_of (ps[idx := (fst (ps ! idx), v)]) = (map pair_of ps)[idx := (fst (map pair_of ps ! idx), value_of v)]"
    if "idx < length ps" using that by (simp add: map_update fst_map_prod)
  then show ?case using 2 by simp
qed simp

lemma ReplaceValues_cached_values:
  "value_of (ReplaceValues_cached v changes) = ReplaceValues (value_of v) (map (map_prod value_of id) changes)"
  by (cases v) (simp_all add: ReplaceValues_cached_def ReplaceValues_def replace_pairs_values is_map_iff is_error_def)

section \<open>Sizes\<close>

definition data_size :: "sval \<Rightarrow> int" where
  "data_size v =
    (if B_UNPACK_TYPE_LENGTH (m_type v) \<le> 4 then
       if \<not> is_error v then (if is_object v then 16 else 8) else ErrorCheck v
     else 8 + int (value_data_align (length (svdata v))))"

function (sequential) ArchivedSize :: "cval \<Rightarrow> cval \<times> int" and ComputeArchivedSize :: "cpair list \<Rightarrow> cpair list \<times> int" where
  "ArchivedSize (CMap n ps) =
    (if n \<ge> 0 then (CMap n ps, 16 + n)
     else case ComputeArchivedSize ps of (ps, amt) \<Rightarrow> (CMap amt ps, 16 + amt))"
| "ArchivedSize v = (v, data_size (value_of v))"
| "ComputeArchivedSize [] = ([], 0)"
| "ComputeArchivedSize ((key, value) # ps) =
    (let (key, size1) = ArchivedSize key; (value, size2) = ArchivedSize value; (ps, rest) = ComputeArchivedSize ps
     in ((key, value) # ps, size1 + size2 + rest))"
  by pat_completeness auto

termination
  by (relation "measure (case_sum size (size_list (size_prod size size)))") auto

definition Map_ArchivedSize :: "int \<Rightarrow> cpair list \<Rightarrow> cpair list \<times> int" where
  "Map_ArchivedSize n ps = (if n \<ge> 0 then (ps, n) else ComputeArchivedSize ps)"

lemmas ArchivedSize_cases_induct = ArchivedSize_ComputeArchivedSize.induct [case_names 1 2 3 4 5]

lemma ArchivedSize_size:
  "size (fst (ArchivedSize v)) = size v"
  "size_list (size_prod size size) (fst (ComputeArchivedSize ps)) = size_list (size_prod size size) ps"
  by (induction v and ps rule: ArchivedSize_cases_induct) (auto simp: Let_def split: prod.splits)

lemma Map_ArchivedSize_size:
  "Map_ArchivedSize n ps = (qs, m) \<Longrightarrow> size_list (size_prod size size) qs = size_list (size_prod size size) ps"
  using ArchivedSize_size(2) [of ps] by (auto simp: Map_ArchivedSize_def split: if_splits)

section \<open>Archiving\<close>

text \<open>The four bytes of small data: those behind the data are what the value happens to contain.\<close>

definition small_data :: "penv \<Rightarrow> sval \<Rightarrow> u32" where
  "small_data E v = le_word (take 4 ((case v of SData _ bs \<Rightarrow> bs | _ \<Rightarrow> []) @ junk E 4))"

definition archive_data :: "penv \<Rightarrow> parcel \<Rightarrow> sval \<Rightarrow> (parcel \<times> int) option" where
  "archive_data E p v =
    (if B_UNPACK_TYPE_LENGTH (m_type v) \<le> 4 then
       if \<not> is_error v then
         if \<not> is_object v then WriteSmallData E p (m_type v) (small_data E v)
         else WriteBinder E p (m_type v) (small_data E v)
       else Some (p, ErrorCheck v)
     else WriteLargeData E p (m_type v) (length (svdata v)) (Some (svdata v)))"

function (sequential) Archive :: "penv \<Rightarrow> parcel \<Rightarrow> cval \<Rightarrow> (parcel \<times> cval \<times> int) option"
  and Map_Archive :: "penv \<Rightarrow> parcel \<Rightarrow> cpair list \<Rightarrow> (parcel \<times> cpair list \<times> int) option"
where
  "Archive E p (CMap n ps) =
    (case Map_ArchivedSize n ps of (ps, n) \<Rightarrow>
       case Write E p (le_bytes kMapTypeCode @ le_bytes (of_int (8 + int (value_data_align (nat n)))) @
            le_bytes (of_nat (length ps)) @ le_bytes 1) of
         None \<Rightarrow> None
       | Some (q, err) \<Rightarrow>
           if err < 0 then Some (q, CMap n ps, err)
           else case Map_Archive E q ps of
                  None \<Rightarrow> None
                | Some (r, ps, err) \<Rightarrow> Some (r, CMap n ps, if err \<ge> B_OK then 16 + err else err))"
| "Archive E p v = map_option (\<lambda>(p, err). (p, v, err)) (archive_data E p (value_of v))"
| "Map_Archive E p [] = Some (p, [], 0)"
| "Map_Archive E p ((key, value) # ps) =
    (case Archive E p key of
       None \<Rightarrow> None
     | Some (q, key, size1) \<Rightarrow>
         if size1 < B_OK then Some (q, (key, value) # ps, size1)
         else case Archive E q value of
                None \<Rightarrow> None
              | Some (r, value, size2) \<Rightarrow>
                  if size2 < B_OK then Some (r, (key, value) # ps, size2)
                  else case Map_Archive E r ps of
                         None \<Rightarrow> None
                       | Some (s, ps, rest) \<Rightarrow>
                           Some (s, (key, value) # ps, if rest < B_OK then rest else size1 + size2 + rest))"
  by pat_completeness auto

termination
  by (relation "measure (case_sum (\<lambda>(_, _, v). size v) (\<lambda>(_, _, ps). size_list (size_prod size size) ps))")
    (auto dest: Map_ArchivedSize_size [OF sym])

section \<open>Unarchiving\<close>

definition word_value :: "u32 \<Rightarrow> u8 list \<Rightarrow> sval option" where
  "word_value type bs =
    (let v = SData (B_UNPACK_TYPE_CODE type) bs in
     if type = 0 then Some SUndefined else if m_type v = type then Some v else None)"

text \<open>The block for \<open>count\<close> pairs, computed in 32 bits, and how many pairs fit into it.\<close>

definition map_room :: "u32 \<Rightarrow> nat" where
  "map_room count =
    (if count \<le> 6 then pool_to_size (size_to_pool (unat count))
     else (unat (40 + 16 * (count - 1)) - 24) div 16)"

text \<open>\<^verbatim>\<open>BValueMap::Create\<close>: \<open>get\<close> unarchives a key or value. The third number is the room that is left in the block.
  The size that was read becomes the cached size of the map.\<close>

fun create_loop :: "(parcel \<Rightarrow> u32 \<Rightarrow> (parcel \<times> int \<times> cval) option) \<Rightarrow> nat \<Rightarrow> nat \<Rightarrow> parcel \<Rightarrow> u32 \<Rightarrow>
    (parcel \<times> (int + u32 \<times> cpair list)) option" where
  "create_loop get room 0 p remain = Some (p, Inr (remain, []))"
| "create_loop get 0 (Suc n) p remain = None"
| "create_loop get (Suc room) (Suc n) p remain =
    (case get p remain of
       None \<Rightarrow> None
     | Some (p, sz, key) \<Rightarrow>
         if sz < B_OK then Some (p, Inl sz)
         else let remain = remain - of_int sz in
           case get p remain of
             None \<Rightarrow> None
           | Some (p, sz, value) \<Rightarrow>
               if sz < B_OK then Some (p, Inl sz)
               else
                 case create_loop get room n p (remain - of_int sz) of
                   None \<Rightarrow> None
                 | Some (p, Inl e) \<Rightarrow> Some (p, Inl e)
                 | Some (p, Inr (remain, ps)) \<Rightarrow> Some (p, Inr (remain, (key, value) # ps)))"

definition Map_Create :: "(parcel \<Rightarrow> u32 \<Rightarrow> (parcel \<times> int \<times> cval) option) \<Rightarrow> penv \<Rightarrow> parcel \<Rightarrow> u32 \<Rightarrow> u32 \<Rightarrow>
    (parcel \<times> int \<times> cpair list) option" where
  "Map_Create get E p avail count =
    (if e_mem E (unat count) then
       case create_loop get (map_room count) (unat count) p avail of
         None \<Rightarrow> None
       | Some (p, Inl e) \<Rightarrow> Some (p, e, [])
       | Some (p, Inr (remain, ps)) \<Rightarrow> Some (p, sint (avail - remain), ps)
     else Some (p, B_NO_MEMORY, []))"

text \<open>
  \<^verbatim>\<open>unarchive_internal\<close>. The test of the first result compares it with an unsigned size, so a negative error passes it.
  Large data of at most four bytes is read into the four bytes of the value itself, eight at a time.
\<close>

primrec unarchive_internal :: "nat \<Rightarrow> penv \<Rightarrow> parcel \<Rightarrow> u32 \<Rightarrow> (parcel \<times> int \<times> cval) option" where
  "unarchive_internal 0 E p avail = None"
| "unarchive_internal (Suc stack) E p avail =
    (let failed = (\<lambda>p err. let v = set_error (if err < B_OK then err else B_BAD_DATA) in Some (p, ErrorCheck v, uncached v)) in
     if avail < 8 then failed p B_OK
     else do {
       (p, err, htype, hdata) \<leftarrow> ReadSmallDataOrObject E p;
       let len = B_UNPACK_TYPE_LENGTH htype;
       if (of_int err :: u32) < 8 then failed p err
       else if len \<le> 4 then do {
         v \<leftarrow> word_value htype (take (unat len) (le_bytes hdata));
         Some (p, err, uncached v)
       }
       else if len = 5 then
         let readSize = value_data_align (unat hdata) in
         if 4 < hdata \<and> \<not> e_mem E (unat hdata) then Some (p, B_NO_MEMORY, uncached (SErr B_NO_MEMORY))
         else if 0 < hdata \<and> hdata \<le> 4 then None
         else do {
           (p, err, bs) \<leftarrow> Read p readSize;
           if err = int readSize then
             Some (p, 8 + int readSize, CData (B_UNPACK_TYPE_CODE htype) (take (unat hdata) (bs @ junk E (unat hdata))))
           else failed p err
         }
       else do {
         (p, err, info) \<leftarrow> ReadSmallData p;
         if err = 8 then do {
           (p, err, ps) \<leftarrow> Map_Create (unarchive_internal stack E) E p (avail - 16) (flat_type info);
           if err \<ge> 0 then Some (p, 16 + err, CMap err ps) else failed p err
         }
         else failed p err
       }
     })"

definition Unarchive :: "nat \<Rightarrow> penv \<Rightarrow> parcel \<Rightarrow> (parcel \<times> int \<times> cval) option" where
  "Unarchive stack E p = unarchive_internal stack E p 0x7fffffff"

section \<open>Typed data\<close>

definition B_UNDEFINED_TYPE :: u32 where "B_UNDEFINED_TYPE = 0"
definition B_CHAR_TYPE :: u32 where "B_CHAR_TYPE = B_TYPE_CODE 0x636872"
definition B_CONSTCHAR_TYPE :: u32 where "B_CONSTCHAR_TYPE = B_TYPE_CODE 0x636368"
definition B_WCHAR_TYPE :: u32 where "B_WCHAR_TYPE = B_TYPE_CODE 0x776368"
definition B_SIZE_T_TYPE :: u32 where "B_SIZE_T_TYPE = B_TYPE_CODE 0x737a74"
definition B_SSIZE_T_TYPE :: u32 where "B_SSIZE_T_TYPE = B_TYPE_CODE 0x737374"
definition B_NSECS_TYPE :: u32 where "B_NSECS_TYPE = B_TYPE_CODE 0x6e7374"
definition B_BIGTIME_TYPE :: u32 where "B_BIGTIME_TYPE = B_TYPE_CODE 0x62746d"
definition B_OFF_T_TYPE :: u32 where "B_OFF_T_TYPE = B_TYPE_CODE 0x6f6674"
definition B_POINT_TYPE :: u32 where "B_POINT_TYPE = B_TYPE_CODE 0x706e74"
definition B_RECT_TYPE :: u32 where "B_RECT_TYPE = B_TYPE_CODE 0x726374"
definition B_BINDER_TYPE :: u32 where "B_BINDER_TYPE = B_TYPE_CODE 0x73622a"
definition B_BINDER_WEAK_TYPE :: u32 where "B_BINDER_WEAK_TYPE = B_TYPE_CODE 0x77622a"

text \<open>
  What the untyped pointer of a value points to: nothing, the bytes of a number, a string, a value, or a binder with the
  words of its flattened form.
\<close>

datatype tdata = TNull | TBytes (tbytes: "u8 list") | TString (tstring: "u8 list") | TValue (tvalue: cval) | TBinder u32 u32 u32

definition int_types :: "u32 list" where
  "int_types = [B_INT32_TYPE, B_SSIZE_T_TYPE, B_UINT32_TYPE, B_SIZE_T_TYPE, B_WCHAR_TYPE]"

definition long_types :: "u32 list" where
  "long_types = [B_INT64_TYPE, B_UINT64_TYPE, B_NSECS_TYPE, B_BIGTIME_TYPE, B_OFF_T_TYPE]"

definition kInt32 :: u32 where "kInt32 = B_PACK_SMALL_TYPE B_INT32_TYPE 4"

text \<open>The value is returned because archiving it fills its caches.\<close>

definition write_typed :: "penv \<Rightarrow> parcel \<Rightarrow> u32 \<Rightarrow> tdata \<Rightarrow> (parcel \<times> int) option" where
  "write_typed E p type value =
    (let bs = tbytes value in
     if type = B_BOOL_TYPE then WriteSmallData E p kInt32 (ucast (hd bs))
     else if type = B_FLOAT_TYPE then WriteSmallData E p (B_PACK_SMALL_TYPE B_FLOAT_TYPE 4) (le_word bs)
     else if type = B_DOUBLE_TYPE then WriteTypeHeaderAndData E p B_DOUBLE_TYPE bs
     else if type = B_CHAR_TYPE \<or> type = B_INT8_TYPE then WriteSmallData E p kInt32 (scast (hd bs))
     else if type = B_UINT8_TYPE then WriteSmallData E p kInt32 (ucast (hd bs))
     else if type = B_INT16_TYPE then WriteSmallData E p kInt32 (scast (le_word16 bs))
     else if type = B_UINT16_TYPE then WriteSmallData E p kInt32 (ucast (le_word16 bs))
     else if type \<in> set int_types then WriteSmallData E p kInt32 (le_word bs)
     else if type \<in> set long_types then WriteTypeHeaderAndData E p B_INT64_TYPE bs
     else if type = B_BINDER_TYPE \<or> type = B_BINDER_WEAK_TYPE then
       (case value of TBinder t binder cookie \<Rightarrow> WriteFlatBinder E p t binder cookie | _ \<Rightarrow> None)
     else if type = B_CONSTCHAR_TYPE \<or> type = B_STRING_TYPE then WriteTypeHeaderAndData E p B_STRING_TYPE (tstring value @ [0])
     else if type = B_POINT_TYPE then WriteTypeHeaderAndData E p B_POINT_TYPE bs
     else if type = B_RECT_TYPE then WriteTypeHeaderAndData E p B_RECT_TYPE bs
     else if type = B_UNDEFINED_TYPE then WriteSmallData E p (B_PACK_SMALL_TYPE B_UNDEFINED_TYPE 0) 0
     else if type = B_NULL_TYPE then WriteSmallData E p kNullTypeCode 0
     else Some (p, B_BAD_TYPE))"

definition WriteTypedData :: "penv \<Rightarrow> parcel \<Rightarrow> u32 \<Rightarrow> tdata \<Rightarrow> (parcel \<times> tdata \<times> int) option" where
  "WriteTypedData E p type0 value =
    (let type = (if type0 \<noteq> B_UNDEFINED_TYPE \<and> value = TNull then B_NULL_TYPE else type0) in
     if type = B_VALUE_TYPE then map_option (\<lambda>(p, v, err). (p, TValue v, err)) (Archive E p (tvalue value))
     else map_option (\<lambda>(p, err). (p, value, err)) (write_typed E p type value))"

definition TypedDataSize :: "u32 \<Rightarrow> tdata \<Rightarrow> tdata \<times> int" where
  "TypedDataSize type0 value =
    (let type = (if type0 \<noteq> B_UNDEFINED_TYPE \<and> value = TNull then B_NULL_TYPE else type0) in
     if type = B_VALUE_TYPE then (case ArchivedSize (tvalue value) of (v, amt) \<Rightarrow> (TValue v, amt))
     else (value,
       if type \<in> {B_BOOL_TYPE, B_FLOAT_TYPE, B_CHAR_TYPE, B_INT8_TYPE, B_UINT8_TYPE, B_INT16_TYPE, B_UINT16_TYPE} \<or> type \<in> set int_types then 8
       else if type = B_DOUBLE_TYPE \<or> type \<in> set long_types then 16
       else if type = B_BINDER_TYPE \<or> type = B_BINDER_WEAK_TYPE then 16
       else if type = B_CONSTCHAR_TYPE \<or> type = B_STRING_TYPE then
         (let len = length (tstring value) + 1 in if len \<le> 4 then 8 else 8 + int (value_data_align len))
       else if type = B_UNDEFINED_TYPE \<or> type = B_NULL_TYPE then 8
       else B_BAD_TYPE))"

text \<open>
  Reading the rest of a string, a point or a rectangle behind the two words \<open>flat\<close>. A point that is cut short runs on into
  the case of the rectangle, which checks its own type; a rectangle that is cut short is reported as read.
\<close>

definition read_string :: "parcel \<Rightarrow> u8 list \<Rightarrow> (parcel \<times> int \<times> tdata) option" where
  "read_string p flat =
    (if B_UNPACK_TYPE_CODE (flat_type flat) \<noteq> B_STRING_TYPE then Some (p, B_BAD_TYPE, TNull)
     else
       let len = unat (B_UNPACK_TYPE_LENGTH (flat_type flat)); sz = unat (flat_data flat) in
       if len \<le> 4 then Some (p, B_OK, TString (take (len - 1) (drop 4 flat)))
       else do {
         (p, amt, bs) \<leftarrow> ReadPadded p sz;
         Some (p, if amt \<ge> int sz then B_OK else if amt < 0 then amt else B_BAD_DATA, TString (take (sz - 1) bs))
       })"

definition read_rect :: "parcel \<Rightarrow> u8 list \<Rightarrow> (parcel \<times> int \<times> tdata) option" where
  "read_rect p flat =
    (if flat_type flat \<noteq> B_PACK_LARGE_TYPE B_RECT_TYPE then Some (p, B_BAD_TYPE, TNull)
     else do { (p, amt, bs) \<leftarrow> Read p 16; Some (p, B_OK, TBytes bs) })"

definition read_point :: "parcel \<Rightarrow> u8 list \<Rightarrow> (parcel \<times> int \<times> tdata) option" where
  "read_point p flat =
    (if flat_type flat \<noteq> B_PACK_LARGE_TYPE B_POINT_TYPE then Some (p, B_BAD_TYPE, TNull)
     else do {
       (p, amt, bs) \<leftarrow> Read p 8;
       if amt = 8 then Some (p, B_OK, TBytes bs) else read_rect p flat
     })"

definition checked :: "parcel \<Rightarrow> u8 list \<Rightarrow> u32 \<Rightarrow> u8 list \<Rightarrow> (parcel \<times> int \<times> tdata) option" where
  "checked p flat expected bs =
    (if flat_type flat \<noteq> expected then Some (p, B_BAD_TYPE, TNull) else Some (p, B_OK, TBytes bs))"

definition read_long :: "penv \<Rightarrow> parcel \<Rightarrow> u8 list \<Rightarrow> u32 \<Rightarrow> (parcel \<times> int \<times> tdata) option" where
  "read_long E p flat expected =
    (if flat_type flat \<noteq> expected then Some (p, B_BAD_TYPE, TNull)
     else do { (p, bs) \<leftarrow> read_fixed E p 8; Some (p, B_OK, TBytes bs) })"

text \<open>\<^verbatim>\<open>ReadTypedData\<close>; \<open>store\<close> says whether the result pointer is given. The size of a binder is compared without sign.\<close>

definition ReadTypedData :: "nat \<Rightarrow> penv \<Rightarrow> parcel \<Rightarrow> u32 \<Rightarrow> bool \<Rightarrow> (parcel \<times> int \<times> tdata) option" where
  "ReadTypedData stack E p type store =
    (if \<not> store then do { (p, err) \<leftarrow> SkipValue p; Some (p, if err \<ge> B_OK then B_OK else err, TNull) }
     else if type = B_VALUE_TYPE then do {
       (p, err, v) \<leftarrow> Unarchive stack E p;
       Some (p, if err \<ge> 0 \<and> SValue_Compare (value_of v) SNull = 0 then B_BINDER_READ_NULL_VALUE else if err \<ge> 0 then B_OK else err, TValue v)
     }
     else if type = B_BINDER_TYPE \<or> type = B_BINDER_WEAK_TYPE then do {
       (p, amt, bs) \<leftarrow> ReadFlatBinderObject p;
       let flat = bs @ drop (length bs) (junk E 16);
       Some (p, if (of_int amt :: u32) \<ge> 16 then e_unflat E flat else if amt < 0 then amt else B_DATA_TRUNCATED,
             TBinder (flat_type flat) (flat_type (drop 8 flat)) (flat_data (drop 8 flat)))
     }
     else do {
       (p, amt, flat) \<leftarrow> ReadSmallData p;
       let d = drop 4 flat;
       if amt \<noteq> 8 then Some (p, if amt < 0 then amt else B_BAD_DATA, TNull)
       else if flat_type flat = kNullTypeCode then Some (p, B_BINDER_READ_NULL_VALUE, TNull)
       else if type = B_BOOL_TYPE then checked p flat kInt32 [if le_word d \<noteq> 0 then 1 else 0]
       else if type = B_FLOAT_TYPE then checked p flat (B_PACK_SMALL_TYPE B_FLOAT_TYPE 4) d
       else if type = B_DOUBLE_TYPE then read_long E p flat (B_PACK_LARGE_TYPE B_FLOAT_TYPE)
       else if type = B_CHAR_TYPE \<or> type = B_INT8_TYPE \<or> type = B_UINT8_TYPE then checked p flat kInt32 (take 1 d)
       else if type = B_INT16_TYPE \<or> type = B_UINT16_TYPE then checked p flat kInt32 (take 2 d)
       else if type \<in> set int_types then checked p flat kInt32 d
       else if type \<in> set long_types then read_long E p flat (B_PACK_LARGE_TYPE B_INT64_TYPE)
       else if type = B_CONSTCHAR_TYPE \<or> type = B_STRING_TYPE then read_string p flat
       else if type = B_POINT_TYPE then read_point p flat
       else if type = B_RECT_TYPE then read_rect p flat
       else if type = B_UNDEFINED_TYPE then Some (p, B_OK, TNull)
       else Some (p, B_BAD_TYPE, TNull)
     })"

section \<open>Lists of values\<close>

fun archive_all :: "penv \<Rightarrow> parcel \<Rightarrow> cval list \<Rightarrow> (parcel \<times> cval list \<times> int) option" where
  "archive_all E p [] = Some (p, [], B_OK)"
| "archive_all E p (v # vs) = do {
     (p, v, len) \<leftarrow> Archive E p v;
     if len < B_OK then do { p \<leftarrow> do_free p; Some (p\<lparr>p_length := len\<rparr>, v # vs, len) }
     else map_option (\<lambda>(p, vs, err). (p, v # vs, err)) (archive_all E p vs)
   }"

text \<open>The values with their caches and the sum of their sizes, or the error that one of them has for a size.\<close>

fun sizes_upto :: "cval list \<Rightarrow> int \<Rightarrow> cval list \<times> (int + int)" where
  "sizes_upto [] n = ([], Inr n)"
| "sizes_upto (v # vs) n =
    (case ArchivedSize v of (v, amt) \<Rightarrow>
       if amt < B_OK then (v # vs, Inl amt)
       else case sizes_upto vs (n + amt) of (vs, r) \<Rightarrow> (v # vs, r))"

text \<open>\<^verbatim>\<open>SetValues\<close> takes at most ten values.\<close>

definition SetValues :: "penv \<Rightarrow> parcel \<Rightarrow> cval list \<Rightarrow> (parcel \<times> cval list \<times> int) option" where
  "SetValues E p values =
    (let p = Parcel_Reset (p\<lparr>p_binders := [], p_owns := False\<rparr>) in
     case sizes_upto (take 10 values) 0 of
       (vs, Inl e) \<Rightarrow> Some (p\<lparr>p_length := e\<rparr>, vs @ drop 10 values, e)
     | (vs, Inr n) \<Rightarrow> do {
         (p, _) \<leftarrow> Reserve E p (4 + n);
         if p_length p < B_OK then Some (p, vs @ drop 10 values, p_length p)
         else do {
           p \<leftarrow> SetPosition p 0;
           (p, _) \<leftarrow> WriteInt32 E p (of_nat (length vs));
           (p, vs, err) \<leftarrow> archive_all E p vs;
           Some (p, vs @ drop 10 values, err)
         }
       })"

definition CountValues :: "parcel \<Rightarrow> int option" where
  "CountValues p =
    (if p_where p \<noteq> PNull \<and> p_length p > 4 then map_option le_int (get_bytes p 0 4) else Some 0)"

text \<open>\<^verbatim>\<open>GetValues\<close> returns the values it stored; after an error in a value it stops.\<close>

fun unarchive_all :: "nat \<Rightarrow> penv \<Rightarrow> nat \<Rightarrow> parcel \<Rightarrow> (parcel \<times> cval list) option" where
  "unarchive_all stack E 0 p = Some (p, [])"
| "unarchive_all stack E (Suc n) p = do {
     (p, tmp, v) \<leftarrow> Unarchive stack E p;
     if tmp \<ge> B_OK then do { (p, vs) \<leftarrow> unarchive_all stack E n p; Some (p, v # vs) }
     else Some (p, [v])
   }"

definition GetValues :: "nat \<Rightarrow> penv \<Rightarrow> parcel \<Rightarrow> int \<Rightarrow> (parcel \<times> cval list) option" where
  "GetValues stack E p maxCount =
    (if Parcel_ErrorCheck p \<noteq> B_OK then Some (p, [uncached (set_error (Parcel_ErrorCheck p))])
     else do {
       (p, n) \<leftarrow> ReadInt32 E p;
       unarchive_all stack E (nat (min maxCount (sint n))) p
     })"

declare Archive.simps [simp del] Map_Archive.simps [simp del] ArchivedSize.simps [simp del] ComputeArchivedSize.simps [simp del]

lemmas Archive_cases_induct = Archive_Map_Archive.induct [case_names 1 2 3 4 5]

section \<open>The format\<close>

text \<open>
  Values that can be stored: valid codes, no errors, and no codes that end in \<^verbatim>\<open>*\<close>, which stand for objects.
\<close>

fun storable :: "sval \<Rightarrow> bool" where
  "storable SUndefined = True"
| "storable (SData c bs) \<longleftrightarrow> valid_code c \<and> c AND 0x7f00 \<noteq> 0x2a00 \<and> \<not> is_error (SData c bs)"
| "storable (SMap ps) \<longleftrightarrow> list_all (\<lambda>(k, v). storable k \<and> storable v) ps"

text \<open>The size a value really has, and caches that agree with it.\<close>

function (sequential) archived_size :: "sval \<Rightarrow> int" and archived_sizes :: "spair list \<Rightarrow> int" where
  "archived_size (SMap ps) = 16 + archived_sizes ps"
| "archived_size v = data_size v"
| "archived_sizes [] = 0"
| "archived_sizes ((key, value) # ps) = archived_size key + archived_size value + archived_sizes ps"
  by pat_completeness auto

termination
  by (relation "measure (case_sum size (size_list (size_prod size size)))") auto

fun caches_ok :: "cval \<Rightarrow> bool" where
  "caches_ok CUndefined = True"
| "caches_ok (CData c bs) = True"
| "caches_ok (CMap n ps) \<longleftrightarrow> (n \<ge> 0 \<longrightarrow> n = archived_sizes (map pair_of ps)) \<and> list_all (\<lambda>(k, v). caches_ok k \<and> caches_ok v) ps"

definition pairs_ok :: "cpair list \<Rightarrow> bool" where
  "pairs_ok ps \<longleftrightarrow> list_all (\<lambda>(k, v). caches_ok k \<and> caches_ok v) ps"

lemma pairs_ok_simps [simp]: "pairs_ok []" "pairs_ok ((k, v) # ps) \<longleftrightarrow> caches_ok k \<and> caches_ok v \<and> pairs_ok ps"
  by (auto simp: pairs_ok_def)

lemma caches_ok_CMap [simp]: "caches_ok (CMap n ps) \<longleftrightarrow> (n \<ge> 0 \<longrightarrow> n = archived_sizes (map pair_of ps)) \<and> pairs_ok ps"
  by (simp add: pairs_ok_def)

declare caches_ok.simps(3) [simp del]

fun flat :: "penv \<Rightarrow> cval \<Rightarrow> u8 list" where
  "flat E CUndefined = le_bytes 0 @ le_bytes (small_data E SUndefined)"
| "flat E (CData c bs) =
    (if length bs \<le> 4 then le_bytes (m_type (SData c bs)) @ le_bytes (small_data E (SData c bs))
     else le_bytes (m_type (SData c bs)) @ le_bytes (of_nat (length bs)) @ padded bs)"
| "flat E (CMap n ps) =
    le_bytes kMapTypeCode @ le_bytes (of_int (8 + int (value_data_align (nat (snd (Map_ArchivedSize n ps)))))) @
    le_bytes (of_nat (length ps)) @ le_bytes 1 @ concat (map (\<lambda>(k, v). flat E k @ flat E v) ps)"

definition flats :: "penv \<Rightarrow> cpair list \<Rightarrow> u8 list" where
  "flats E ps = concat (map (\<lambda>(k, v). flat E k @ flat E v) ps)"

lemma flats_simps [simp]: "flats E [] = []" "flats E ((k, v) # ps) = flat E k @ flat E v @ flats E ps"
  by (simp_all add: flats_def)

lemma flat_CMap: "flat E (CMap n ps) =
    (le_bytes kMapTypeCode @ le_bytes (of_int (8 + int (value_data_align (nat (snd (Map_ArchivedSize n ps))))))) @
    (le_bytes (of_nat (length ps)) @ le_bytes 1) @ flats E ps"
  by (simp add: flats_def)

declare flat.simps(3) [simp del]

lemma length_flat_ge: "8 \<le> length (flat E v)"
  by (cases v) (auto simp: flat_CMap)

lemma length_flats_ge: "16 * length ps \<le> length (flats E ps)"
proof (induction ps)
  case (Cons p ps)
  then show ?case using length_flat_ge [of E "fst p"] length_flat_ge [of E "snd p"] by (cases p) simp
qed simp

text \<open>Asking for a size fills caches, and changes neither the value nor what is written for it nor the answer.\<close>

lemma ArchivedSize_CMap: "ArchivedSize (CMap n ps) =
    (CMap (snd (Map_ArchivedSize n ps)) (fst (Map_ArchivedSize n ps)), 16 + snd (Map_ArchivedSize n ps))"
  by (simp add: ArchivedSize.simps Map_ArchivedSize_def split: prod.split)

lemma cval_induct [case_names CMap CUndefined CData Nil Cons]:
  assumes "\<And>n ps. Q ps \<Longrightarrow> P (CMap n ps)" "P CUndefined" "\<And>c bs. P (CData c bs)" "Q []"
    and "\<And>k v ps. P k \<Longrightarrow> P v \<Longrightarrow> Q ps \<Longrightarrow> Q ((k, v) # ps)"
  shows "P v" "Q ps"
proof -
  have list: "Q qs" if "\<And>k v. (k, v) \<in> set qs \<Longrightarrow> P k \<and> P v" for qs
    using that by (induction qs) (auto intro: assms(4,5))
  have P: "P v" for v
  proof (induction v)
    case (CMap n ps)
    have "P k \<and> P x" if "(k, x) \<in> set ps" for k x
      using CMap.IH [OF that, of k] CMap.IH [OF that, of x] by auto
    then show ?case by (intro assms(1) list)
  qed (rule assms)+
  show "P v" by (rule P)
  show "Q ps" by (rule list) (simp add: P)
qed

lemma ArchivedSize_keeps:
  "value_of (fst (ArchivedSize v)) = value_of v \<and> snd (ArchivedSize (fst (ArchivedSize v))) = snd (ArchivedSize v) \<and>
     flat E (fst (ArchivedSize v)) = flat E v"
  "map pair_of (fst (ComputeArchivedSize ps)) = map pair_of ps \<and>
     snd (ComputeArchivedSize (fst (ComputeArchivedSize ps))) = snd (ComputeArchivedSize ps) \<and>
     flats E (fst (ComputeArchivedSize ps)) = flats E ps"
proof (induction v and ps rule: cval_induct)
  case (CMap n ps)
  show ?case
  proof (cases "n \<ge> 0")
    case True
    then show ?thesis by (simp add: ArchivedSize.simps)
  next
    case False
    obtain qs m where c: "ComputeArchivedSize ps = (qs, m)" by fastforce
    have q: "map pair_of qs = map pair_of ps" "snd (ComputeArchivedSize qs) = m" "flats E qs = flats E ps"
      using CMap.IH c by auto
    then have "length qs = length ps" by (metis length_map)
    then show ?thesis using False c q
      by (auto simp: ArchivedSize.simps flat_CMap Map_ArchivedSize_def split: prod.split)
  qed
next
  case (Cons key v ps)
  then show ?case by (auto simp: ComputeArchivedSize.simps Let_def split: prod.split)
qed (auto simp: ArchivedSize.simps ComputeArchivedSize.simps)

lemma Map_ArchivedSize_keeps:
  assumes "Map_ArchivedSize n ps = (qs, m)"
  shows "map pair_of qs = map pair_of ps" "flats E qs = flats E ps" "length qs = length ps"
proof -
  show v: "map pair_of qs = map pair_of ps" and "flats E qs = flats E ps"
    using assms ArchivedSize_keeps(2) [of ps E] by (auto simp: Map_ArchivedSize_def split: if_splits)
  show "length qs = length ps" using v by (metis length_map)
qed

text \<open>With caches that agree, the announced size is the real one.\<close>

lemma ArchivedSize_caches_ok:
  "caches_ok v \<Longrightarrow> snd (ArchivedSize v) = archived_size (value_of v) \<and> caches_ok (fst (ArchivedSize v))"
  "pairs_ok ps \<Longrightarrow> snd (ComputeArchivedSize ps) = archived_sizes (map pair_of ps) \<and> pairs_ok (fst (ComputeArchivedSize ps))"
proof (induction v and ps rule: cval_induct)
  case (CMap n ps)
  then show ?case
    using ArchivedSize_keeps(2) [of ps] by (cases "n \<ge> 0") (auto simp: ArchivedSize.simps split: prod.split)
next
  case (Cons key v ps)
  then show ?case by (auto simp: ComputeArchivedSize.simps Let_def split: prod.split)
qed (auto simp: ArchivedSize.simps ComputeArchivedSize.simps)

lemma Map_ArchivedSize_ok:
  assumes "Map_ArchivedSize n ps = (qs, m)" "caches_ok (CMap n ps)"
  shows "caches_ok (CMap m qs)"
  using assms ArchivedSize_caches_ok(1) [OF assms(2)] by (simp add: ArchivedSize_CMap)

lemma length_field: "B_UNPACK_TYPE_LENGTH (m_type (SData c bs)) \<le> 4 \<longleftrightarrow> length bs \<le> 4"
proof -
  have "unat (of_nat (length bs) :: u32) = length bs" if "length bs \<le> 4" using that by (simp only: unat_of_nat) simp
  then have "length bs \<le> 4 \<Longrightarrow> (of_nat (length bs) :: u32) \<le> 4" by (simp add: word_le_nat_alt)
  then show ?thesis by (simp only: unpack_length_data) simp
qed

lemma object_word:
  assumes "c AND 0x7f00 \<noteq> 0x2a00"
  shows "\<not> is_object (SData c bs)" "\<not> is_large_object (m_type (SData c bs))"
proof -
  have "m_type (SData c bs) AND 0x7f00 = c AND 0x7f00"
  proof (cases "length bs \<le> 4")
    case True
    moreover have "n \<in> {0, 1, 2, 3, 4}" if "n \<le> 4" for n :: nat using that by auto
    ultimately have "length bs \<in> {0, 1, 2, 3, 4}" by blast
    then show ?thesis by (auto simp: m_type.simps pack_defs B_TYPE_CODE_MASK_def bit.conj_disj_distrib2 and.assoc)
  next
    case False
    then show ?thesis by (simp add: m_type.simps pack_defs B_TYPE_CODE_MASK_def bit.conj_disj_distrib2 and.assoc)
  qed
  moreover have "w AND 0x7f00 = 0x2a00" if "w AND 0x7f07 = x" "x AND 0x7f00 = 0x2a00" for w x :: u32
    using that by (auto simp: and.assoc)
  ultimately show "\<not> is_object (SData c bs)" "\<not> is_large_object (m_type (SData c bs))"
    using assms by (auto simp: is_object_def is_large_object_def)
qed

lemma archived_size_flat:
  "storable (value_of v) \<Longrightarrow> length (flat E v) < 2 ^ 31 \<Longrightarrow> archived_size (value_of v) = int (length (flat E v))"
proof (induction E v rule: flat.induct)
  case (1 E)
  then show ?case by (simp add: data_size_def pack_defs is_error_def is_object_def)
next
  case (2 E c bs)
  have "length bs + 7 < 2 ^ 32" if "\<not> length bs \<le> 4" using 2 that by (simp add: padded_def)
  then show ?case using 2 object_word [of c bs] length_field [of c bs] length_padded [of bs] by (auto simp: data_size_def)
next
  case (3 E n ps)
  have "archived_sizes (map pair_of qs) = int (length (flats E qs))"
    if "set qs \<subseteq> set ps" "list_all (\<lambda>(k, v). storable k \<and> storable v) (map pair_of qs)" "length (flats E qs) < 2 ^ 31" for qs
    using that
  proof (induction qs)
    case (Cons q qs)
    then show ?case using "3.IH" [of q "fst q" "snd q"] by (cases q) auto
  qed simp
  from this [of ps] show ?case using "3.prems" by (simp add: flat_CMap)
qed

lemma archived_sizes_flats:
  assumes "list_all (\<lambda>(k, v). storable k \<and> storable v) (map pair_of ps)" "length (flats E ps) < 2 ^ 31 - 16"
  shows "archived_sizes (map pair_of ps) = int (length (flats E ps))"
  using archived_size_flat [of "CMap 0 ps" E] assms by (simp add: flat_CMap)

lemma ArchivedSize_pos: "storable (value_of v) \<Longrightarrow> 8 \<le> snd (ArchivedSize v)"
  "list_all (\<lambda>(k, v). storable k \<and> storable v) (map pair_of ps) \<Longrightarrow> 0 \<le> snd (ComputeArchivedSize ps)"
proof (induction v and ps rule: cval_induct)
  case (CMap n ps)
  then show ?case by (cases "n \<ge> 0") (auto simp: ArchivedSize.simps split: prod.split)
next
  case (CData c bs)
  then show ?case using object_word [of c bs] length_field [of c bs] by (auto simp: ArchivedSize.simps data_size_def)
next
  case (Cons key v ps)
  then show ?case by (auto simp: ComputeArchivedSize.simps Let_def split: prod.split)
qed (auto simp: ArchivedSize.simps ComputeArchivedSize.simps data_size_def pack_defs is_error_def is_object_def)

section \<open>Archiving writes the format\<close>

lemma Archive_writes:
  "storable (value_of v) \<Longrightarrow> parcel_ok p \<Longrightarrow> p_out p = None \<Longrightarrow> memory E \<Longrightarrow> p_pos p + int (length (flat E v)) + 16 < 2 ^ 31 \<Longrightarrow>
     \<exists>q w. Archive E p v = Some (q, w, int (length (flat E v))) \<and> wrote p (flat E v) q \<and> value_of w = value_of v \<and>
       (caches_ok v \<longrightarrow> caches_ok w)"
  "list_all (\<lambda>(k, v). storable k \<and> storable v) (map pair_of ps) \<Longrightarrow> parcel_ok p \<Longrightarrow> p_out p = None \<Longrightarrow> memory E \<Longrightarrow>
     p_pos p + int (length (flats E ps)) + 16 < 2 ^ 31 \<Longrightarrow>
     \<exists>q qs. Map_Archive E p ps = Some (q, qs, int (length (flats E ps))) \<and> wrote p (flats E ps) q \<and>
       map pair_of qs = map pair_of ps \<and> (pairs_ok ps \<longrightarrow> pairs_ok qs)"
proof (induction E p v and E p ps rule: Archive_cases_induct)
  case (1 E p n ps)
  obtain qs m where s: "Map_ArchivedSize n ps = (qs, m)" by fastforce
  note keep = Map_ArchivedSize_keeps [OF s]
  let ?h = "le_bytes kMapTypeCode @ le_bytes (of_int (8 + int (value_data_align (nat m)))) @
            le_bytes (of_nat (length qs)) @ le_bytes 1"
  obtain q where q: "Write E p ?h = Some (q, 16)" "wrote p ?h q"
    using Write_mem [OF "1.prems"(2-4), of ?h] "1.prems"(5) by (auto simp: flat_CMap)
  have qq: "parcel_ok q" "p_out q = None" "p_pos q = p_pos p + 16" using q(2) "1.prems"(3) by (auto simp: wrote_def)
  obtain r rs where r: "Map_Archive E q qs = Some (r, rs, int (length (flats E qs)))" "wrote q (flats E qs) r"
      "map pair_of rs = map pair_of qs" "pairs_ok qs \<longrightarrow> pairs_ok rs"
    using "1.IH" [OF s [symmetric] q(1) _ _ _ qq(1,2) "1.prems"(4)] "1.prems" qq(3) keep by (auto simp: flat_CMap)
  have "flat E (CMap n ps) = ?h @ flats E qs" using s keep by (simp add: flat_CMap)
  moreover have "caches_ok (CMap m rs)" if "caches_ok (CMap n ps)"
    using Map_ArchivedSize_ok [OF s that] r(3,4) by simp
  ultimately show ?case
    using s q(1) r(1,3) keep(1) wrote_trans [OF "1.prems"(2) q(2) r(2)] by (auto simp: Archive.simps B_OK_def)
next
  case (2 E p)
  then show ?case
    using WriteSmallData_mem [OF 2(2-4), of 0 "small_data E SUndefined"]
    by (auto simp: Archive.simps archive_data_def pack_defs is_error_def is_object_def)
next
  case (3 E p c bs)
  note o = object_word [of c bs] length_field [of c bs]
  show ?case
  proof (cases "length bs \<le> 4")
    case True
    then show ?thesis
      using 3 o WriteSmallData_mem [OF 3(2-4), of "m_type (SData c bs)" "small_data E (SData c bs)"]
      by (auto simp: Archive.simps archive_data_def)
  next
    case False
    have "length bs + 7 < 2 ^ 32" "p_pos p + int (length bs) + 16 < 2 ^ 31" using 3 False by (auto simp: padded_def parcel_ok_def)
    then show ?thesis
      using 3 o False WriteLargeData_mem [OF 3(2-4), of bs "m_type (SData c bs)"] length_padded [of bs]
      by (auto simp: Archive.simps archive_data_def)
  qed
next
  case (4 E p)
  then show ?case by (auto simp: Map_Archive.simps intro: wrote_Nil)
next
  case (5 E p key v ps)
  have s: "storable (value_of key)" "storable (value_of v)" "list_all (\<lambda>(k, v). storable k \<and> storable v) (map pair_of ps)"
    using "5.prems"(1) by auto
  obtain q key' where q: "Archive E p key = Some (q, key', int (length (flat E key)))" "wrote p (flat E key) q"
      "value_of key' = value_of key" "caches_ok key \<longrightarrow> caches_ok key'"
    using "5.IH"(1) [OF s(1) "5.prems"(2-4)] "5.prems"(5) by auto
  have qq: "parcel_ok q" "p_out q = None" "p_pos q = p_pos p + int (length (flat E key))" using q(2) "5.prems"(3) by (auto simp: wrote_def)
  obtain r v' where r: "Archive E q v = Some (r, v', int (length (flat E v)))" "wrote q (flat E v) r"
      "value_of v' = value_of v" "caches_ok v \<longrightarrow> caches_ok v'"
    using "5.IH"(2) [OF q(1) refl refl _ s(2) qq(1,2) "5.prems"(4)] "5.prems"(5) qq(3) by (auto simp: B_OK_def)
  have rr: "parcel_ok r" "p_out r = None" "p_pos r = p_pos q + int (length (flat E v))" using r(2) qq(2) by (auto simp: wrote_def)
  obtain t qs where t: "Map_Archive E r ps = Some (t, qs, int (length (flats E ps)))" "wrote r (flats E ps) t"
      "map pair_of qs = map pair_of ps" "pairs_ok ps \<longrightarrow> pairs_ok qs"
    using "5.IH"(3) [OF q(1) refl refl _ r(1) refl refl _ s(3) rr(1,2) "5.prems"(4)] "5.prems"(5) qq(3) rr(3) by (auto simp: B_OK_def)
  have "wrote p ((flat E key @ flat E v) @ flats E ps) t"
    using wrote_trans [OF "5.prems"(2) wrote_trans [OF "5.prems"(2) q(2) r(2)] t(2)] .
  then show ?case using q r t by (auto simp: Map_Archive.simps B_OK_def)
qed

section \<open>Unarchiving reads it back\<close>

lemma flat_words [simp]: "flat_type (le_bytes t @ bs) = t" "flat_data (le_bytes t @ le_bytes d @ bs) = d" "flat_data (le_bytes t @ le_bytes d) = d"
  by (simp_all add: flat_type_def flat_data_def le_word_bytes)

lemma ReadSmallDataOrObject_nexts:
  assumes "nexts p (le_bytes t @ le_bytes d)" "\<not> is_large_object t"
  shows "ReadSmallDataOrObject E p = Some (skip p 8, 8, t, d)"
  using ReadSmallData_nexts [OF assms(1)] assms(2) by (simp add: ReadSmallDataOrObject_def)

fun vdepth :: "sval \<Rightarrow> nat" where
  "vdepth (SMap ps) = Suc (fold max (map (\<lambda>(k, v). max (vdepth k) (vdepth v)) ps) 0)"
| "vdepth _ = 1"

lemma fold_max_ge: "x \<in> set xs \<Longrightarrow> x \<le> fold max xs (a :: nat)" "a \<le> fold max xs a"
proof (induction xs arbitrary: a)
  case (Cons y xs)
  { case 1 then show ?case using Cons.IH(1) [of "max y a"] Cons.IH(2) [of "max y a"] by auto }
  { case 2 show ?case using Cons.IH(2) [of "max y a"] by auto }
qed auto

lemma vdepth_pair:
  assumes "(k, v) \<in> set ps"
  shows "vdepth k < vdepth (SMap ps)" "vdepth v < vdepth (SMap ps)"
proof -
  have "max (vdepth k) (vdepth v) \<in> set (map (\<lambda>(k, v). max (vdepth k) (vdepth v)) ps)" using assms by force
  from fold_max_ge(1) [OF this, of 0] show "vdepth k < vdepth (SMap ps)" "vdepth v < vdepth (SMap ps)" by simp_all
qed

lemma unat_minus_of_nat:
  assumes "n \<le> unat (a :: u32)"
  shows "unat (a - of_nat n) = unat a - n"
proof -
  have "unat (of_nat n :: u32) = n"
    using le_less_trans [OF assms unat_lt_u32] unat_of_nat [of n, where ?'a = 32] by (simp add: take_bit_nat_eq_self)
  then show ?thesis using assms by (simp add: unat_sub_le)
qed

text \<open>What is read has the value that was written, and all of its caches are set to the real sizes.\<close>

definition reads_back :: "(parcel \<Rightarrow> u32 \<Rightarrow> (parcel \<times> int \<times> cval) option) \<Rightarrow> penv \<Rightarrow> cval \<Rightarrow> bool" where
  "reads_back get W v \<longleftrightarrow> (\<forall>p avail. nexts p (flat W v) \<longrightarrow> length (flat W v) \<le> unat avail \<longrightarrow>
     (\<exists>w. get p avail = Some (skip p (length (flat W v)), int (length (flat W v)), w) \<and> value_of w = value_of v \<and> caches_ok w))"

lemma reads_backE:
  assumes "reads_back get W v" "nexts p (flat W v)" "length (flat W v) \<le> unat avail"
  obtains w where "get p avail = Some (skip p (length (flat W v)), int (length (flat W v)), w)" "value_of w = value_of v" "caches_ok w"
  using assms unfolding reads_back_def by blast

lemma create_loop_reads:
  assumes "\<And>k v. (k, v) \<in> set ps \<Longrightarrow> reads_back get W k \<and> reads_back get W v"
    and "nexts p (flats W ps)" "length (flats W ps) \<le> unat remain" "length ps \<le> room"
  shows "\<exists>qs. create_loop get room (length ps) p remain =
    Some (skip p (length (flats W ps)), Inr (remain - of_nat (length (flats W ps)), qs)) \<and>
    map pair_of qs = map pair_of ps \<and> pairs_ok qs"
  using assms
proof (induction ps arbitrary: p remain room)
  case Nil
  then show ?case by simp
next
  case (Cons kv ps)
  obtain k v where kv: "kv = (k, v)" by fastforce
  obtain room' where room: "room = Suc room'" "length ps \<le> room'" using Cons.prems(4) by (cases room) auto
  let ?m = "length (flat W k)" and ?n = "length (flat W v)"
  have nx: "nexts p (flat W k @ flat W v @ flats W ps)" using Cons.prems(2) kv by simp
  have r1: "reads_back get W k" and r2: "reads_back get W v" using Cons.prems(1) [of k v] kv by auto
  have le: "?m + ?n + length (flats W ps) \<le> unat remain" using Cons.prems(3) kv by simp
  have n1: "nexts p (flat W k)" "nexts (skip p ?m) (flat W v @ flats W ps)"
    using nexts_append [OF nx] by auto
  have n2: "nexts (skip p ?m) (flat W v)" "nexts (skip p (?m + ?n)) (flats W ps)"
    using nexts_append [OF n1(2)] by auto
  have u: "unat (remain - of_nat ?m) = unat remain - ?m" "unat (remain - of_nat ?m - of_nat ?n) = unat remain - ?m - ?n"
    using le unat_minus_of_nat [of ?m remain] unat_minus_of_nat [of ?n "remain - of_nat ?m"] by auto
  obtain k' where g1: "get p remain = Some (skip p ?m, int ?m, k')" "value_of k' = value_of k" "caches_ok k'"
    using reads_backE [OF r1 n1(1), of remain] le by auto
  have "?n \<le> unat (remain - of_nat ?m)" using le u(1) by simp
  then obtain v' where g2: "get (skip p ?m) (remain - of_nat ?m) = Some (skip p (?m + ?n), int ?n, v')"
      "value_of v' = value_of v" "caches_ok v'"
    using reads_backE [OF r2 n2(1)] by (metis skip_skip of_nat_add int_plus)
  have "reads_back get W k' \<and> reads_back get W v'" if "(k', v') \<in> set ps" for k' v' using Cons.prems(1) [of k' v'] that by simp
  moreover have "length (flats W ps) \<le> unat (remain - of_nat ?m - of_nat ?n)" using le u(2) by simp
  ultimately obtain qs where g3: "create_loop get room' (length ps) (skip p (?m + ?n)) (remain - of_nat ?m - of_nat ?n) =
      Some (skip p (?m + ?n + length (flats W ps)), Inr (remain - of_nat ?m - of_nat ?n - of_nat (length (flats W ps)), qs))"
      "map pair_of qs = map pair_of ps" "pairs_ok qs"
    using Cons.IH [OF _ n2(2) _ room(2)] by fastforce
  show ?case using kv room(1) g1 g2 g3 by (simp add: Let_def B_OK_def diff_diff_eq add.assoc)
qed

lemma map_room_enough:
  assumes "16 * n < 2 ^ 31"
  shows "n \<le> map_room (of_nat n)" "unat (of_nat n :: u32) = n"
proof -
  show u: "unat (of_nat n :: u32) = n" using assms unat_of_nat [of n, where ?'a = 32] by (simp add: take_bit_nat_eq_self)
  have small: "(of_nat n :: u32) \<le> 6 \<longleftrightarrow> n \<le> 6" using u by (simp add: word_le_nat_alt)
  show "n \<le> map_room (of_nat n)"
  proof (cases "n \<le> 6")
    case True
    then have "n \<in> {0, 1, 2, 3, 4, 5, 6}" by auto
    then show ?thesis using small u True by (auto simp: map_room_def pool_to_size_def size_to_pool_def)
  next
    case False
    have "40 + 16 * (of_nat n - 1) = (of_nat (40 + 16 * (n - 1)) :: u32)" using False by (simp add: of_nat_diff)
    moreover have "unat (of_nat (40 + 16 * (n - 1)) :: u32) = 40 + 16 * (n - 1)"
      using assms unat_of_nat [of "40 + 16 * (n - 1)", where ?'a = 32] by (simp add: take_bit_nat_eq_self)
    moreover have "40 + 16 * (n - 1) - 24 = 16 * n" using False by simp
    ultimately show ?thesis using False small by (simp only: map_room_def) simp
  qed
qed

lemma Map_Create_reads:
  assumes "\<And>k v. (k, v) \<in> set ps \<Longrightarrow> reads_back get W k \<and> reads_back get W v" "memory E"
    and "nexts p (flats W ps)" "length (flats W ps) \<le> unat avail"
  shows "\<exists>qs. Map_Create get E p avail (of_nat (length ps)) = Some (skip p (length (flats W ps)), int (length (flats W ps)), qs) \<and>
    map pair_of qs = map pair_of ps \<and> pairs_ok qs"
proof -
  have l: "length (flats W ps) < 2 ^ 31" using nexts_fits(1,3) [OF assms(3)] assms(3) by (auto simp: nexts_def)
  then have n: "16 * length ps < 2 ^ 31" using length_flats_ge [of ps W] by linarith
  have "sint (of_nat (length (flats W ps)) :: u32) = int (length (flats W ps))"
    using l ssz_id [of "int (length (flats W ps))"] by (simp add: ssz_def)
  then show ?thesis
    using create_loop_reads [OF assms(1,3,4) map_room_enough(1) [OF n]] map_room_enough(2) [OF n] assms(2)
    by (auto simp: Map_Create_def memory_def)
qed

lemma word_value_type:
  assumes "valid_code c" "length bs \<le> 4"
  shows "word_value (m_type (SData c bs)) bs = Some (SData c bs)" "unat (B_UNPACK_TYPE_LENGTH (m_type (SData c bs))) = length bs"
proof -
  have "unat (of_nat (length bs) :: u32) = length bs" using assms(2) by (simp only: unat_of_nat) simp
  then show "unat (B_UNPACK_TYPE_LENGTH (m_type (SData c bs))) = length bs" using assms(2) by (simp only: unpack_length_data) simp
  show "word_value (m_type (SData c bs)) bs = Some (SData c bs)"
    by (simp add: word_value_def unpack_code [OF assms(1)])
qed

lemma le_bytes_small:
  assumes "length bs \<le> 4"
  shows "take (length bs) (le_bytes (small_data W (SData c bs))) = bs"
proof -
  have "length (take 4 (bs @ junk W 4)) = 4" by simp
  then have "le_bytes (small_data W (SData c bs)) = take 4 (bs @ junk W 4)" by (simp add: small_data_def le_bytes_word)
  then show ?thesis using assms by (simp add: min_absorb1)
qed

lemma unarchive_SData:
  assumes "storable (SData c bs)" "nexts p (flat W (CData c bs))" "memory E" "length (flat W (CData c bs)) \<le> unat avail"
  shows "unarchive_internal (Suc d) E p avail =
    Some (skip p (length (flat W (CData c bs))), int (length (flat W (CData c bs))), CData c bs)"
proof -
  let ?t = "m_type (SData c bs)"
  have av: "\<not> avail < 8" using assms(4) length_flat_ge [of W "CData c bs"] by (simp add: word_less_nat_alt)
  have no: "\<not> is_large_object ?t" and vc: "valid_code c" using assms(1) object_word by auto
  have eight: "\<not> (of_int 8 :: u32) < 8" by simp
  show ?thesis
  proof (cases "length bs \<le> 4")
    case True
    then have "nexts p (le_bytes ?t @ le_bytes (small_data W (SData c bs)))" using assms(2) by simp
    from ReadSmallDataOrObject_nexts [OF this no] show ?thesis
      using av True word_value_type [OF vc True] le_bytes_small [OF True] length_field [of c bs] by (simp add: Let_def)
  next
    case False
    let ?n = "length bs"
    have nx: "nexts p ((le_bytes ?t @ le_bytes (of_nat ?n)) @ padded bs)" using assms(2) False by simp
    have R: "ReadSmallDataOrObject E p = Some (skip p 8, 8, ?t, of_nat ?n)"
      using ReadSmallDataOrObject_nexts [OF nexts_append(1) [OF nx] no] .
    have nx2: "nexts (skip p 8) (padded bs)" using nexts_append(2) [OF nx] by simp
    have l: "?n < 2 ^ 31" using nexts_fits(1,3) [OF nx2] nx2 by (simp add: padded_def nexts_def)
    then have u: "unat (of_nat ?n :: u32) = ?n" using unat_of_nat [of ?n, where ?'a = 32] by (simp add: take_bit_nat_eq_self)
    have five: "B_UNPACK_TYPE_LENGTH ?t = 5" using False by (simp only: unpack_length_data) simp
    have "\<not> (of_nat ?n :: u32) \<le> 4" using u False by (simp add: word_le_nat_alt)
    moreover have "length (padded bs) = value_data_align ?n" using l by (simp add: length_padded)
    moreover have "take ?n (padded bs @ junk E ?n) = bs" by (simp add: padded_def)
    ultimately show ?thesis
      using av False R Read_nexts [OF nx2] u five assms(3) unpack_code [OF vc, of bs]
      by (simp add: Let_def memory_def)
  qed
qed

lemma unarchive_reads:
  assumes "memory E"
  shows "storable (value_of v) \<Longrightarrow> vdepth (value_of v) \<le> stack \<Longrightarrow> reads_back (unarchive_internal stack E) W v"
proof (induction stack arbitrary: v)
  case 0
  then show ?case by (cases v) auto
next
  case (Suc d)
  show ?case unfolding reads_back_def
  proof (intro allI impI)
    fix p and avail :: u32
    assume nx: "nexts p (flat W v)" and le: "length (flat W v) \<le> unat avail"
    show "\<exists>w. unarchive_internal (Suc d) E p avail = Some (skip p (length (flat W v)), int (length (flat W v)), w) \<and>
        value_of w = value_of v \<and> caches_ok w"
    proof (cases v)
      case CUndefined
      have "nexts p (le_bytes 0 @ le_bytes (small_data W SUndefined))" "\<not> is_large_object 0" "\<not> avail < 8"
        using nx le CUndefined by (simp_all add: is_large_object_def word_less_nat_alt)
      from ReadSmallDataOrObject_nexts [OF this(1,2)] this(3) show ?thesis
        using CUndefined by (simp add: Let_def word_value_def pack_defs)
    next
      case (CData c bs)
      then show ?thesis using unarchive_SData [of c bs p W E avail d] nx le assms Suc.prems(1) by simp
    next
      case (CMap n ps)
      let ?len = "of_int (8 + int (value_data_align (nat (snd (Map_ArchivedSize n ps))))) :: u32"
      have nx0: "nexts p ((le_bytes kMapTypeCode @ le_bytes ?len) @ (le_bytes (of_nat (length ps)) @ le_bytes 1) @ flats W ps)"
        using nx unfolding CMap flat_CMap .
      have nx1: "nexts p (le_bytes kMapTypeCode @ le_bytes ?len)" and
        nx2: "nexts (skip p 8) ((le_bytes (of_nat (length ps)) @ le_bytes 1) @ flats W ps)"
        using nexts_append [OF nx0] by simp_all
      have nx3: "nexts (skip p 8) (le_bytes (of_nat (length ps)) @ le_bytes 1)" and nx4: "nexts (skip p 16) (flats W ps)"
        using nexts_append [OF nx2] by simp_all
      have av: "\<not> avail < 8" "unat (avail - 16) = unat avail - 16" "length (flats W ps) \<le> unat (avail - 16)"
        using le unat_minus_of_nat [of 16 avail] unfolding CMap flat_CMap by (auto simp: word_less_nat_alt)
      have st: "list_all (\<lambda>(k, v). storable k \<and> storable v) (map pair_of ps)" using Suc.prems(1) CMap by simp
      have "reads_back (unarchive_internal d E) W k \<and> reads_back (unarchive_internal d E) W x" if "(k, x) \<in> set ps" for k x
      proof -
        have "(value_of k, value_of x) \<in> set (map pair_of ps)" using that by force
        from vdepth_pair [OF this] show ?thesis
          using Suc.IH [of k] Suc.IH [of x] Suc.prems(2) CMap st that by (fastforce simp: list_all_iff)
      qed
      from Map_Create_reads [OF this assms nx4 av(3)] obtain qs where
        C: "Map_Create (unarchive_internal d E) E (skip p 16) (avail - 16) (of_nat (length ps)) =
          Some (skip p (16 + length (flats W ps)), int (length (flats W ps)), qs)" "map pair_of qs = map pair_of ps" "pairs_ok qs"
        by auto
      have "length (flats W ps) < 2 ^ 31 - 16" using nexts_fits(1,3) [OF nx0] nx0 by (simp add: nexts_def)
      then have ok: "caches_ok (CMap (int (length (flats W ps))) qs)" using archived_sizes_flats [OF st] C(2,3) by simp
      have "\<not> is_large_object kMapTypeCode" "B_UNPACK_TYPE_LENGTH kMapTypeCode = 7" by code_simp+
      then have "unarchive_internal (Suc d) E p avail =
          Some (skip p (length (flat W v)), int (length (flat W v)), CMap (int (length (flats W ps))) qs)"
        using av(1) ReadSmallDataOrObject_nexts [OF nx1] ReadSmallData_nexts [OF nx3] C(1)
        unfolding CMap flat_CMap by (simp add: Let_def)
      then show ?thesis using C(2) ok CMap by (intro exI [of _ "CMap (int (length (flats W ps))) qs"]) simp
    qed
  qed
qed

section \<open>Round trips\<close>

lemma wrote_skip: "wrote p bs q \<Longrightarrow> skip (q\<lparr>p_pos := p_pos p\<rparr>) (length bs) = q"
  by (simp add: skip_def wrote_def)

lemma archive_back:
  assumes "storable (value_of v)" "vdepth (value_of v) \<le> stack" "parcel_ok p" "p_out p = None" "p_length p < 2 ^ 31" "memory E" "memory E'"
    and "p_pos p + int (length (flat E v)) + 16 < 2 ^ 31"
  shows "\<exists>q w u. Archive E p v = Some (q, w, archived_size (value_of v)) \<and> wrote p (flat E v) q \<and>
    value_of w = value_of v \<and> (caches_ok v \<longrightarrow> caches_ok w) \<and>
    Unarchive stack E' (q\<lparr>p_pos := p_pos p\<rparr>) = Some (q, archived_size (value_of v), u) \<and> value_of u = value_of v \<and> caches_ok u"
proof -
  obtain q w where q: "Archive E p v = Some (q, w, int (length (flat E v)))" "wrote p (flat E v) q"
      "value_of w = value_of v" "caches_ok v \<longrightarrow> caches_ok w"
    using Archive_writes(1) [OF assms(1,3,4,6,8)] by blast
  have l: "length (flat E v) < 2 ^ 31" using assms(3,8) by (auto simp: parcel_ok_def)
  then have le: "length (flat E v) \<le> unat (0x7fffffff :: u32)" by simp
  have "nexts (q\<lparr>p_pos := p_pos p\<rparr>) (flat E v)" using wrote_nexts [OF assms(3) q(2) assms(5)] assms(8) by simp
  then obtain u where "Unarchive stack E' (q\<lparr>p_pos := p_pos p\<rparr>) = Some (q, int (length (flat E v)), u)"
      "value_of u = value_of v" "caches_ok u"
    using unarchive_reads [OF assms(7,1,2), of E] le wrote_skip [OF q(2)] unfolding reads_back_def Unarchive_def by fastforce
  then show ?thesis using q archived_size_flat [OF assms(1) l] by auto
qed

text \<open>
  C26. What is archived can be unarchived, whatever sizes its maps have cached. For a value without errors and objects, with memory and a stack as
  deep as the value, \<^verbatim>\<open>Archive\<close> at any position of a sound parcel returns the size of the value (\<open>archived_size\<close>, computed anew), advances the position
  by it and leaves the value as it is; \<^verbatim>\<open>Unarchive\<close> from the old position returns the same size and the same value, with all sizes cached rightly,
  whatever bytes of padding the writer left behind small data. And \<^verbatim>\<open>ArchivedSize\<close> announces this size if the caches of the value are right
  (or unset); it and \<^verbatim>\<open>Archive\<close> keep right caches right. Stale caches can announce another size (lemma \<open>ReplaceValues_stale\<close>).
\<close>

theorem archive_round_trip:
  assumes "storable (value_of v)" "vdepth (value_of v) \<le> stack" "parcel_ok p" "p_out p = None" "p_length p < 2 ^ 31" "memory E" "memory E'"
    and "p_pos p + int (length (flat E v)) + 16 < 2 ^ 31"
  shows "\<exists>q w u. Archive E p v = Some (q, w, archived_size (value_of v)) \<and> parcel_ok q \<and>
    p_pos q = p_pos p + archived_size (value_of v) \<and> value_of w = value_of v \<and>
    Unarchive stack E' (q\<lparr>p_pos := p_pos p\<rparr>) = Some (q, archived_size (value_of v), u) \<and> value_of u = value_of v \<and> caches_ok u \<and>
    (caches_ok v \<longrightarrow> snd (ArchivedSize v) = archived_size (value_of v) \<and> caches_ok (fst (ArchivedSize v)) \<and> caches_ok w)"
proof -
  have "length (flat E v) < 2 ^ 31" using assms(3,8) by (auto simp: parcel_ok_def)
  then show ?thesis
    using archive_back [OF assms] archived_size_flat [OF assms(1)] ArchivedSize_caches_ok(1) [of v] by (fastforce simp: wrote_def)
qed

lemma archive_all_writes:
  assumes "list_all (\<lambda>v. storable (value_of v)) vs" "parcel_ok p" "p_out p = None" "memory E"
    "p_pos p + int (length (concat (map (flat E) vs))) + 16 < 2 ^ 31"
  shows "\<exists>q ws. archive_all E p vs = Some (q, ws, B_OK) \<and> wrote p (concat (map (flat E) vs)) q \<and> map value_of ws = map value_of vs"
  using assms
proof (induction vs arbitrary: p)
  case Nil
  then show ?case by (auto intro: wrote_Nil)
next
  case (Cons v vs)
  obtain q w where q: "Archive E p v = Some (q, w, int (length (flat E v)))" "wrote p (flat E v) q" "value_of w = value_of v"
    using Archive_writes(1) [of v p E] Cons.prems by auto
  obtain r ws where r: "archive_all E q vs = Some (r, ws, B_OK)" "wrote q (concat (map (flat E) vs)) r" "map value_of ws = map value_of vs"
    using Cons.IH [of q] Cons.prems q(2) by (auto simp: wrote_def)
  show ?case using q(1,3) r(1,3) wrote_trans [OF Cons.prems(2) q(2) r(2)] by (simp add: B_OK_def)
qed

lemma unarchive_all_reads:
  assumes "list_all (\<lambda>v. storable (value_of v)) vs" "\<forall>v \<in> set vs. vdepth (value_of v) \<le> stack"
    "nexts p (concat (map (flat W) vs))" "memory E"
  shows "\<exists>ws. unarchive_all stack E (length vs) p = Some (skip p (length (concat (map (flat W) vs))), ws) \<and>
    map value_of ws = map value_of vs \<and> list_all caches_ok ws"
  using assms
proof (induction vs arbitrary: p)
  case Nil
  then show ?case by simp
next
  case (Cons v vs)
  have n: "nexts p (flat W v)" "nexts (skip p (length (flat W v))) (concat (map (flat W) vs))"
    using nexts_append [of p "flat W v"] Cons.prems(3) by auto
  have "length (flat W v) \<le> unat (0x7fffffff :: u32)" using nexts_fits(1,3) [OF n(1)] n(1) by (simp add: nexts_def)
  moreover have "reads_back (unarchive_internal stack E) W v"
    using unarchive_reads [OF assms(4), of v stack W] Cons.prems(1,2) by simp
  ultimately obtain w where w: "Unarchive stack E p = Some (skip p (length (flat W v)), int (length (flat W v)), w)"
      "value_of w = value_of v" "caches_ok w"
    unfolding Unarchive_def using reads_backE n(1) by blast
  obtain ws where ws: "unarchive_all stack E (length vs) (skip p (length (flat W v))) =
      Some (skip (skip p (length (flat W v))) (length (concat (map (flat W) vs))), ws)"
      "map value_of ws = map value_of vs" "list_all caches_ok ws"
    using Cons.IH [OF _ _ n(2)] Cons.prems by auto
  show ?case using w ws by (simp add: B_OK_def)
qed

lemma sizes_upto_flat:
  assumes "list_all (\<lambda>v. storable (value_of v)) vs"
  shows "\<exists>ws m. sizes_upto vs n = (ws, Inr (n + m)) \<and> 0 \<le> m \<and> map value_of ws = map value_of vs \<and> map (flat E) ws = map (flat E) vs"
  using assms
proof (induction vs arbitrary: n)
  case (Cons v vs)
  obtain w amt where w: "ArchivedSize v = (w, amt)" by fastforce
  have "8 \<le> amt" "value_of w = value_of v" "flat E w = flat E v"
    using ArchivedSize_pos(1) [of v] ArchivedSize_keeps(1) [of v E] Cons.prems w by auto
  moreover obtain ws m where "sizes_upto vs (n + amt) = (ws, Inr (n + amt + m))" "0 \<le> m"
      "map value_of ws = map value_of vs" "map (flat E) ws = map (flat E) vs"
    using Cons.IH [of "n + amt"] Cons.prems by auto
  ultimately show ?case using w by (intro exI [of _ "w # ws"] exI [of _ "amt + m"]) (simp add: B_OK_def)
qed simp

lemma Reserve_fresh:
  assumes "parcel_ok p" "p_out p = None" "memory E" "0 < len"
  shows "\<exists>q. Reserve E (Parcel_Reset (p\<lparr>p_binders := [], p_owns := False\<rparr>)) len = Some (q, B_OK) \<and> parcel_ok q \<and> p_out q = None \<and>
    p_length q = 0 \<and> p_pos q = 0 \<and> p_base q = 0"
  using assms by (auto simp: Reserve_def Parcel_Reset_def do_free_def Flush_def parcel_ok_def memory_def inline_size_def)

text \<open>
  C27. Argument lists. At most ten values without errors and objects that \<^verbatim>\<open>SetValues\<close> puts into a sound parcel are counted by
  \<^verbatim>\<open>CountValues\<close> and read back by \<^verbatim>\<open>GetValues\<close> from the start of the parcel, whatever the parcel held before and whatever sizes the maps in
  the values have cached. The values that were put in stay as they are.
\<close>

theorem values_round_trip:
  assumes "list_all (\<lambda>v. storable (value_of v)) vs" "length vs \<le> 10" "\<forall>v \<in> set vs. vdepth (value_of v) \<le> stack"
    "parcel_ok p" "p_out p = None" "memory E" "memory E'"
    and "int (length (concat (map (flat E) vs))) + 20 < 2 ^ 31" "int (length vs) \<le> n"
  shows "\<exists>q ws us. SetValues E p vs = Some (q, ws, B_OK) \<and> map value_of ws = map value_of vs \<and> CountValues q = Some (int (length vs)) \<and>
    GetValues stack E' (q\<lparr>p_pos := 0\<rparr>) n = Some (q, us) \<and> map value_of us = map value_of vs"
proof -
  let ?w = "le_bytes (of_nat (length vs))"
  obtain vs' m where s: "sizes_upto vs 0 = (vs', Inr m)" "0 \<le> m" "map value_of vs' = map value_of vs" "map (flat E) vs' = map (flat E) vs"
    using sizes_upto_flat [OF assms(1), of 0 E] by auto
  define b where "b = concat (map (flat E) vs)"
  have l: "length vs' = length vs" using s(3) by (metis length_map)
  have "list_all (\<lambda>v. storable v) (map value_of vs')" using assms(1) s(3) by (simp add: list.pred_map comp_def)
  then have st: "list_all (\<lambda>v. storable (value_of v)) vs'" by (simp add: list.pred_map comp_def)
  obtain p1 where p1: "Reserve E (Parcel_Reset (p\<lparr>p_binders := [], p_owns := False\<rparr>)) (4 + m) = Some (p1, B_OK)"
    "parcel_ok p1" "p_out p1 = None" "p_length p1 = 0" "p_pos p1 = 0" "p_base p1 = 0"
    using Reserve_fresh [OF assms(4-6), of "4 + m"] s(2) by auto
  have sp: "SetPosition p1 0 = Some p1" using p1(4-6) by (simp add: SetPosition_def)
  obtain p2 where p2: "WriteInt32 E p1 (of_nat (length vs)) = Some (p2, 4)" "wrote p1 ?w p2"
    using Write_mem [OF p1(2,3) assms(6), of ?w] p1(5) by (auto simp: WriteInt32_def write_fixed_Write)
  obtain q ws where q: "archive_all E p2 vs' = Some (q, ws, B_OK)" "wrote p2 b q" "map value_of ws = map value_of vs"
    using archive_all_writes [OF st, of p2 E] p2(2) p1(3,5) assms(6,8) s(3,4) by (auto simp: wrote_def b_def)
  have set: "SetValues E p vs = Some (q, ws, B_OK)"
    using s(1) p1 sp p2(1) q(1) assms(2) l by (simp add: SetValues_def Let_def B_OK_def)
  have w: "wrote p1 (?w @ b) q" using wrote_trans [OF p1(2) p2(2) q(2)] .
  have nx: "nexts (q\<lparr>p_pos := 0\<rparr>) (?w @ b)"
    using wrote_nexts [OF p1(2) w] p1(4,5) assms(8) by (simp add: b_def)
  have num: "sint (of_nat (length vs) :: u32) = int (length vs)"
    using assms(2) ssz_id [of "int (length vs)"] by (simp add: ssz_def)
  have "read_fixed E' (q\<lparr>p_pos := 0\<rparr>) (length ?w) = Some (skip (q\<lparr>p_pos := 0\<rparr>) 4, ?w)"
    using read_fixed_nexts [OF nexts_append(1) [OF nx]] by simp
  then have "ReadInt32 E' (q\<lparr>p_pos := 0\<rparr>) = Some (skip (q\<lparr>p_pos := 0\<rparr>) 4, of_nat (length vs))"
    by (simp add: ReadInt32_def le_word_bytes)
  moreover obtain us where us: "unarchive_all stack E' (length vs) (skip (q\<lparr>p_pos := 0\<rparr>) 4) = Some (q, us)" "map value_of us = map value_of vs"
    using unarchive_all_reads [OF assms(1,3) _ assms(7), of "skip (q\<lparr>p_pos := 0\<rparr>) 4" E] nexts_append(2) [OF nx] wrote_skip [OF w] p1(5)
    by (auto simp: add.commute b_def)
  moreover have "Parcel_ErrorCheck (q\<lparr>p_pos := 0\<rparr>) = B_OK" using parcel_ok_error nx by (simp add: nexts_def)
  ultimately have get: "GetValues stack E' (q\<lparr>p_pos := 0\<rparr>) n = Some (q, us)" using num assms(9) by (simp add: GetValues_def)
  have ok: "parcel_ok q" "p_length q = 4 + int (length b)"
    using w p1(4,5) length_contents [of q] by (auto simp: wrote_def put_over_def contents_def parcel_ok_def)
  have "4 < p_length q" if "vs \<noteq> []" using that ok(2) length_flat_ge [of E "hd vs"] by (cases vs) (auto simp: b_def)
  moreover have "get_bytes q 0 4 = Some ?w"
    using nexts_get [OF nexts_append(1) [OF nx]] by (auto simp: get_bytes_def split: if_splits)
  ultimately have "CountValues q = Some (int (length vs))"
    using ok num by (cases "vs = []") (auto simp: CountValues_def le_int_def le_word_bytes parcel_ok_def b_def)
  then show ?thesis using set get q(3) us(2) by blast
qed

text \<open>The forms of the values that a type code announces.\<close>

definition number_ok :: "u32 \<Rightarrow> tdata \<Rightarrow> bool" where
  "number_ok type v \<longleftrightarrow>
     type = B_BOOL_TYPE \<and> (v = TBytes [0] \<or> v = TBytes [1]) \<or>
     type \<in> {B_CHAR_TYPE, B_INT8_TYPE, B_UINT8_TYPE} \<and> (\<exists>b. v = TBytes [b]) \<or>
     type \<in> {B_INT16_TYPE, B_UINT16_TYPE} \<and> (\<exists>w. v = TBytes (le_bytes16 w)) \<or>
     (type = B_FLOAT_TYPE \<or> type \<in> set int_types) \<and> (\<exists>w. v = TBytes (le_bytes w))"

definition typed_ok :: "penv \<Rightarrow> nat \<Rightarrow> u32 \<Rightarrow> tdata \<Rightarrow> bool" where
  "typed_ok E stack type v \<longleftrightarrow>
     number_ok type v \<or>
     type \<in> set long_types \<and> (\<exists>bs. v = TBytes bs \<and> length bs = 8) \<or>
     type \<in> {B_CONSTCHAR_TYPE, B_STRING_TYPE} \<and> (\<exists>s. v = TString s \<and> length s < 2 ^ 29) \<or>
     type = B_VALUE_TYPE \<and> (\<exists>x. v = TValue x \<and> storable (value_of x) \<and> codes_ok (value_of x) \<and> vdepth (value_of x) \<le> stack \<and> length (flat E x) < 2 ^ 29)"

text \<open>Data apart from cached sizes, data whose cached sizes are right, and the null value.\<close>

fun same_data :: "tdata \<Rightarrow> tdata \<Rightarrow> bool" where
  "same_data (TValue v) (TValue w) \<longleftrightarrow> value_of v = value_of w"
| "same_data v w \<longleftrightarrow> v = w"

fun typed_caches_ok :: "tdata \<Rightarrow> bool" where
  "typed_caches_ok (TValue v) = caches_ok v"
| "typed_caches_ok _ = True"

fun null_value :: "tdata \<Rightarrow> bool" where
  "null_value (TValue v) \<longleftrightarrow> value_of v = SNull"
| "null_value _ = False"

lemmas more_type_defs = B_UNDEFINED_TYPE_def B_CHAR_TYPE_def B_CONSTCHAR_TYPE_def B_WCHAR_TYPE_def B_SIZE_T_TYPE_def
  B_SSIZE_T_TYPE_def B_NSECS_TYPE_def B_BIGTIME_TYPE_def B_OFF_T_TYPE_def B_POINT_TYPE_def B_RECT_TYPE_def B_BINDER_TYPE_def
  B_BINDER_WEAK_TYPE_def int_types_def long_types_def kInt32_def

lemma small_back:
  assumes "parcel_ok p" "p_out p = None" "p_length p < 2 ^ 31" "memory E" "p_pos p < 2 ^ 29"
  shows "\<exists>q. WriteSmallData E p t w = Some (q, 8) \<and> ReadSmallData (q\<lparr>p_pos := p_pos p\<rparr>) = Some (q, 8, le_bytes t @ le_bytes w)"
proof -
  obtain q where q: "WriteSmallData E p t w = Some (q, 8)" "wrote p (le_bytes t @ le_bytes w) q"
    using WriteSmallData_mem [OF assms(1,2,4), of t w] assms(5) by auto
  have "nexts (q\<lparr>p_pos := p_pos p\<rparr>) (le_bytes t @ le_bytes w)" using wrote_nexts [OF assms(1) q(2) assms(3)] assms(5) by simp
  then show ?thesis using q ReadSmallData_nexts wrote_skip [OF q(2)] by fastforce
qed

lemma large_back:
  assumes "parcel_ok p" "p_out p = None" "p_length p < 2 ^ 31" "memory E" "p_pos p < 2 ^ 29" "4 < length bs" "length bs \<le> 2 ^ 29"
  shows "\<exists>q r. WriteTypeHeaderAndData E p t bs = Some (q, 8 + int (value_data_align (length bs))) \<and>
    ReadSmallData (q\<lparr>p_pos := p_pos p\<rparr>) = Some (r, 8, le_bytes (B_PACK_LARGE_TYPE t) @ le_bytes (of_nat (length bs))) \<and>
    nexts r (padded bs) \<and> skip r (length (padded bs)) = q"
proof -
  let ?h = "le_bytes (B_PACK_LARGE_TYPE t) @ le_bytes (of_nat (length bs))"
  obtain q where q: "WriteTypeHeaderAndData E p t bs = Some (q, 8 + int (value_data_align (length bs)))" "wrote p (?h @ padded bs) q"
    using WriteLargeData_mem [OF assms(1,2,4), of bs "B_PACK_LARGE_TYPE t"] assms(5-7) by (auto simp: WriteTypeHeaderAndData_def)
  have "length (padded bs) < 2 ^ 30" using assms(7) length_padded [of bs] align_bounds(2) [of "length bs"] by (simp add: unat_align)
  then have nx: "nexts (q\<lparr>p_pos := p_pos p\<rparr>) (?h @ padded bs)" using wrote_nexts [OF assms(1) q(2) assms(3)] assms(5) by simp
  have "ReadSmallData (q\<lparr>p_pos := p_pos p\<rparr>) = Some (skip (q\<lparr>p_pos := p_pos p\<rparr>) 8, 8, ?h)"
    using ReadSmallData_nexts [OF nexts_append(1) [OF nx]] by simp
  moreover have "skip (skip (q\<lparr>p_pos := p_pos p\<rparr>) 8) (length (padded bs)) = q" using wrote_skip [OF q(2)] by (simp add: add.commute)
  ultimately show ?thesis using q(1) nexts_append(2) [OF nx] by auto
qed

lemma narrow_bytes:
  "take (Suc 0) (le_bytes (ucast (b :: u8))) = [b]" "take (Suc 0) (le_bytes (scast (b :: u8))) = [b]"
  "take 2 (le_bytes (ucast (w :: u16))) = le_bytes16 w" "take 2 (le_bytes (scast (w :: u16))) = le_bytes16 w"
proof -
  have "(ucast (ucast b :: u32) :: u8) = b" "(ucast (scast b :: u32) :: u8) = b" by (rule bit_word_eqI; simp add: bit_simps)+
  then show "take (Suc 0) (le_bytes (ucast b)) = [b]" "take (Suc 0) (le_bytes (scast b)) = [b]" by (simp_all add: le_bytes_def)
  have "(ucast (drop_bit k (ucast w :: u32)) :: u8) = ucast (drop_bit k w)" "(ucast (drop_bit k (scast w :: u32)) :: u8) = ucast (drop_bit k w)"
    if "k = 0 \<or> k = 8" for k
    using that by (auto intro!: bit_word_eqI simp: bit_simps)
  from this(1) [of 0] this(1) [of 8] this(2) [of 0] this(2) [of 8]
  show "take 2 (le_bytes (ucast w)) = le_bytes16 w" "take 2 (le_bytes (scast w)) = le_bytes16 w"
    by (simp_all add: le_bytes_def le_bytes16_def numeral_2_eq_2)
qed

lemma le_word16_bytes: "le_word16 (le_bytes16 w) = w"
  by (rule bit_word_eqI) (auto simp: le_word16_def le_word_def le_bytes16_def bit_simps)

lemma typed_numbers:
  assumes "parcel_ok p" "p_out p = None" "p_length p < 2 ^ 31" "memory E" "p_pos p < 2 ^ 29"
    and n: "number_ok type v"
  shows "\<exists>q. WriteTypedData E p type v = Some (q, v, snd (TypedDataSize type v)) \<and> ReadTypedData stack E' (q\<lparr>p_pos := p_pos p\<rparr>) type True = Some (q, B_OK, v)"
proof -
  note R = small_back [OF assms(1-5)]
  note T = type_code_defs more_type_defs B_TYPE_CODE_def B_TYPE_CODE_MASK_def pack_defs kNullTypeCode_def
  have 0: "le_word (le_bytes w) = w" for w by (rule le_word_bytes)
  show ?thesis using n unfolding number_ok_def
  proof (elim disjE conjE exE)
    assume "type = B_BOOL_TYPE" "v = TBytes [0]"
    then show ?thesis using R [of kInt32 0]
      by (auto simp: WriteTypedData_def write_typed_def ReadTypedData_def TypedDataSize_def checked_def T 0)
  next
    assume "type = B_BOOL_TYPE" "v = TBytes [1]"
    then show ?thesis using R [of kInt32 1]
      by (auto simp: WriteTypedData_def write_typed_def ReadTypedData_def TypedDataSize_def checked_def T 0)
  next
    fix b assume "type \<in> {B_CHAR_TYPE, B_INT8_TYPE, B_UINT8_TYPE}" "v = TBytes [b]"
    then show ?thesis using R [of kInt32 "ucast b"] R [of kInt32 "scast b"]
      by (auto simp: WriteTypedData_def write_typed_def ReadTypedData_def TypedDataSize_def checked_def T narrow_bytes)
  next
    fix w assume "type \<in> {B_INT16_TYPE, B_UINT16_TYPE}" "v = TBytes (le_bytes16 w)"
    then show ?thesis using R [of kInt32 "ucast w"] R [of kInt32 "scast w"]
      by (auto simp: WriteTypedData_def write_typed_def ReadTypedData_def TypedDataSize_def checked_def T narrow_bytes le_word16_bytes)
  next
    fix w assume "type = B_FLOAT_TYPE" "v = TBytes (le_bytes w)"
    then show ?thesis using R [of "B_PACK_SMALL_TYPE B_FLOAT_TYPE 4" w]
      by (auto simp: WriteTypedData_def write_typed_def ReadTypedData_def TypedDataSize_def checked_def T 0)
  next
    fix w assume "type \<in> set int_types" "v = TBytes (le_bytes w)"
    then show ?thesis using R [of kInt32 w]
      by (auto simp: WriteTypedData_def write_typed_def ReadTypedData_def TypedDataSize_def checked_def T 0)
  qed
qed

lemma typed_long:
  assumes "parcel_ok p" "p_out p = None" "p_length p < 2 ^ 31" "memory E" "p_pos p < 2 ^ 29" "type \<in> set long_types" "length bs = 8"
  shows "\<exists>q. WriteTypedData E p type (TBytes bs) = Some (q, TBytes bs, snd (TypedDataSize type (TBytes bs))) \<and>
    ReadTypedData stack E' (q\<lparr>p_pos := p_pos p\<rparr>) type True = Some (q, B_OK, TBytes bs)"
proof -
  note T = type_code_defs more_type_defs B_TYPE_CODE_def B_TYPE_CODE_MASK_def pack_defs kNullTypeCode_def
  have a: "value_data_align (length bs) = 8" "padded bs = bs" using assms(7) by (simp_all add: padded_def unat_align)
  obtain q r where q: "WriteTypeHeaderAndData E p B_INT64_TYPE bs = Some (q, 16)"
    "ReadSmallData (q\<lparr>p_pos := p_pos p\<rparr>) = Some (r, 8, le_bytes (B_PACK_LARGE_TYPE B_INT64_TYPE) @ le_bytes 8)"
    "nexts r bs" "skip r 8 = q"
    using large_back [OF assms(1-5), of bs B_INT64_TYPE] a assms(7) by auto
  have f: "read_fixed E' r 8 = Some (q, bs)" using read_fixed_nexts [OF q(3), of E'] assms(7) q(4) by simp
  show ?thesis using assms(6) q(1,2) f
    by (auto simp: WriteTypedData_def write_typed_def ReadTypedData_def TypedDataSize_def read_long_def T)
qed

lemma string_type_word:
  "B_UNPACK_TYPE_CODE (B_PACK_LARGE_TYPE B_STRING_TYPE) = B_STRING_TYPE" "B_UNPACK_TYPE_LENGTH (B_PACK_LARGE_TYPE B_STRING_TYPE) = 5"
  "B_PACK_LARGE_TYPE B_STRING_TYPE \<noteq> kNullTypeCode"
  by code_simp+

lemma typed_string:
  assumes "parcel_ok p" "p_out p = None" "p_length p < 2 ^ 31" "memory E" "p_pos p < 2 ^ 29" "type \<in> {B_CONSTCHAR_TYPE, B_STRING_TYPE}" "length s < 2 ^ 29"
  shows "\<exists>q. WriteTypedData E p type (TString s) = Some (q, TString s, snd (TypedDataSize type (TString s))) \<and>
    ReadTypedData stack E' (q\<lparr>p_pos := p_pos p\<rparr>) type True = Some (q, B_OK, TString s)"
proof -
  note T = type_code_defs more_type_defs B_TYPE_CODE_def B_TYPE_CODE_MASK_def
  let ?bs = "s @ [0]"
  have W: "WriteTypedData E p type (TString s) = map_option (\<lambda>(p, err). (p, TString s, err)) (WriteTypeHeaderAndData E p B_STRING_TYPE ?bs)"
    "snd (TypedDataSize type (TString s)) = (if length ?bs \<le> 4 then 8 else 8 + int (value_data_align (length ?bs)))"
    using assms(6) by (auto simp: WriteTypedData_def write_typed_def TypedDataSize_def Let_def T)
  have R: "ReadTypedData stack E' p' type True = (do {
       (r, amt, flat) \<leftarrow> ReadSmallData p';
       if amt \<noteq> 8 then Some (r, if amt < 0 then amt else B_BAD_DATA, TNull)
       else if flat_type flat = kNullTypeCode then Some (r, B_BINDER_READ_NULL_VALUE, TNull)
       else read_string r flat })" for p'
    using assms(6) by (auto simp: ReadTypedData_def Let_def T intro!: bind_option_cong)
  show ?thesis
  proof (cases "length ?bs \<le> 4")
    case True
    let ?t = "m_type (SData B_STRING_TYPE ?bs)" and ?w = "le_word (take 4 (?bs @ junk E 4))"
    have t: "B_PACK_SMALL_TYPE B_STRING_TYPE (of_nat (length ?bs)) = ?t" using True by (simp add: m_type.simps)
    have vc: "valid_code B_STRING_TYPE" by code_simp
    have "B_UNPACK_TYPE_CODE kNullTypeCode \<noteq> B_STRING_TYPE" by code_simp
    then have nn: "?t \<noteq> kNullTypeCode" using unpack_code [OF vc, of ?bs] by metis
    have "take (length ?bs) (le_bytes ?w) = ?bs" using le_bytes_small [OF True, of E B_STRING_TYPE] by (simp add: small_data_def)
    then have "take (length s) (take (length ?bs) (le_bytes ?w)) = s" by simp
    then have tk: "take (length s) (le_bytes ?w) = s" by (simp add: min_absorb1)
    obtain q where "WriteSmallData E p ?t ?w = Some (q, 8)" "ReadSmallData (q\<lparr>p_pos := p_pos p\<rparr>) = Some (q, 8, le_bytes ?t @ le_bytes ?w)"
      using small_back [OF assms(1-5), of ?t ?w] by blast
    then show ?thesis
      using W R nn True t tk unpack_code [OF vc, of ?bs] word_value_type(2) [OF vc True]
      by (simp add: WriteTypeHeaderAndData_def read_string_def Let_def)
  next
    case False
    then have l: "4 < length ?bs" "length ?bs \<le> 2 ^ 29" "length ?bs + 7 < 2 ^ 32" using assms(7) by auto
    obtain q r where q: "WriteTypeHeaderAndData E p B_STRING_TYPE ?bs = Some (q, 8 + int (value_data_align (length ?bs)))"
      "ReadSmallData (q\<lparr>p_pos := p_pos p\<rparr>) = Some (r, 8, le_bytes (B_PACK_LARGE_TYPE B_STRING_TYPE) @ le_bytes (of_nat (length ?bs)))"
      "nexts r (padded ?bs)" "skip r (length (padded ?bs)) = q"
      using large_back [OF assms(1-5) l(1,2), of B_STRING_TYPE] by blast
    have u: "unat (of_nat (length ?bs) :: u32) = length ?bs"
      using l(3) unat_of_nat [of "length ?bs", where ?'a = 32] by (simp add: take_bit_nat_eq_self)
    have "ReadPadded r (length ?bs) = Some (q, int (length (padded ?bs)), ?bs)" using ReadPadded_nexts [OF q(3) l(3)] q(4) by simp
    moreover have "length ?bs \<le> length (padded ?bs)" by (simp add: padded_def)
    moreover have "take (length ?bs - 1) ?bs = s" by simp
    ultimately have "read_string r (le_bytes (B_PACK_LARGE_TYPE B_STRING_TYPE) @ le_bytes (of_nat (length ?bs))) = Some (q, B_OK, TString s)"
      using u string_type_word by (simp add: read_string_def Let_def del: length_append take_append One_nat_def)
    then show ?thesis using W R q(1,2) False string_type_word(3) by (simp del: length_append)
  qed
qed

lemma typed_value:
  assumes P: "parcel_ok p" "p_out p = None" "p_length p < 2 ^ 31" "p_pos p < 2 ^ 29" "memory E" "memory E'"
    and h: "storable (value_of x)" "codes_ok (value_of x)" "vdepth (value_of x) \<le> stack" "length (flat E x) < 2 ^ 29"
  shows "\<exists>q w u n. WriteTypedData E p B_VALUE_TYPE (TValue x) = Some (q, TValue w, n) \<and> value_of w = value_of x \<and>
    (caches_ok x \<longrightarrow> n = snd (TypedDataSize B_VALUE_TYPE (TValue x))) \<and>
    ReadTypedData stack E' (q\<lparr>p_pos := p_pos p\<rparr>) B_VALUE_TYPE True =
      Some (q, if value_of x = SNull then B_BINDER_READ_NULL_VALUE else B_OK, TValue u) \<and> value_of u = value_of x"
proof -
  note T = type_code_defs more_type_defs B_TYPE_CODE_def B_TYPE_CODE_MASK_def pack_defs kNullTypeCode_def
  obtain q w u where q: "Archive E p x = Some (q, w, archived_size (value_of x))" "value_of w = value_of x"
      "Unarchive stack E' (q\<lparr>p_pos := p_pos p\<rparr>) = Some (q, archived_size (value_of x), u)" "value_of u = value_of x"
    using archive_back [OF h(1,3) P(1-3,5,6)] P(4) h(4) by auto
  have "archived_size (value_of x) \<ge> 0" using archived_size_flat [OF h(1), of E] h(4) by simp
  moreover have "SValue_Compare (value_of x) SNull = 0 \<longleftrightarrow> value_of x = SNull"
  proof -
    have "codes_ok SNull" by code_simp
    then show ?thesis using SValue_Compare_eq(1) h(2) by blast
  qed
  moreover have "snd (TypedDataSize B_VALUE_TYPE (TValue x)) = snd (ArchivedSize x)"
    by (simp add: TypedDataSize_def T split: prod.split)
  ultimately show ?thesis using q ArchivedSize_caches_ok(1) [of x]
    by (simp add: WriteTypedData_def ReadTypedData_def T)
qed

text \<open>
  C28. Typed data. For every type code of a truth value, an integer, a float, a string or a value, \<^verbatim>\<open>WriteTypedData\<close> leaves the data as it is and
  \<^verbatim>\<open>ReadTypedData\<close> with that code returns what was written, with the status \<^verbatim>\<open>B_OK\<close> but for the null value, which is reported as such. What is
  written has the size that \<^verbatim>\<open>TypedDataSize\<close> announces, provided that the sizes cached in a value are right. A number of type double is
  written with a type that \<^verbatim>\<open>ReadTypedData\<close> does not accept: it always answers \<^verbatim>\<open>B_BAD_TYPE\<close>.
\<close>

theorem typed_data_round_trip:
  assumes "parcel_ok p" "p_out p = None" "p_length p < 2 ^ 31" "p_pos p < 2 ^ 29" "memory E" "memory E'"
    and "typed_ok E stack type v" "length d = 8"
  shows "(\<exists>q w u n. WriteTypedData E p type v = Some (q, w, n) \<and> same_data w v \<and>
      (typed_caches_ok v \<longrightarrow> n = snd (TypedDataSize type v)) \<and>
      ReadTypedData stack E' (q\<lparr>p_pos := p_pos p\<rparr>) type True =
        Some (q, if null_value v then B_BINDER_READ_NULL_VALUE else B_OK, u) \<and> same_data u v) \<and>
    (\<exists>q r. WriteTypedData E p B_DOUBLE_TYPE (TBytes d) = Some (q, TBytes d, snd (TypedDataSize B_DOUBLE_TYPE (TBytes d))) \<and>
      ReadTypedData stack E' (q\<lparr>p_pos := p_pos p\<rparr>) B_DOUBLE_TYPE True = Some (r, B_BAD_TYPE, TNull))" (is "?single \<and> ?double")
proof
  note P = assms(1-3,5,4)
  have other: ?single if "\<not> null_value v" "same_data v v"
    "\<exists>q. WriteTypedData E p type v = Some (q, v, snd (TypedDataSize type v)) \<and>
      ReadTypedData stack E' (q\<lparr>p_pos := p_pos p\<rparr>) type True = Some (q, B_OK, v)"
    using that by auto
  consider (number) "number_ok type v" | (long) bs where "type \<in> set long_types" "v = TBytes bs" "length bs = 8"
    | (str) s where "type \<in> {B_CONSTCHAR_TYPE, B_STRING_TYPE}" "v = TString s" "length s < 2 ^ 29"
    | (val) x where "type = B_VALUE_TYPE" "v = TValue x" "storable (value_of x)" "codes_ok (value_of x)" "vdepth (value_of x) \<le> stack"
        "length (flat E x) < 2 ^ 29"
    using assms(7) unfolding typed_ok_def by blast
  then show ?single
  proof cases
    case number
    then have "\<not> null_value v" "same_data v v" by (auto simp: number_ok_def)
    then show ?thesis using other typed_numbers [OF P number] by blast
  next
    case long
    then show ?thesis using other typed_long [OF P long(1,3)] by simp
  next
    case str
    then show ?thesis using other typed_string [OF P str(1,3)] by simp
  next
    case val
    then show ?thesis using typed_value [OF assms(1-6) val(3-6)] by fastforce
  qed
next
  note T = type_code_defs more_type_defs B_TYPE_CODE_def B_TYPE_CODE_MASK_def pack_defs kNullTypeCode_def
  have "value_data_align (length d) = 8" using assms(8) by (simp add: unat_align)
  then show "\<exists>q r. WriteTypedData E p B_DOUBLE_TYPE (TBytes d) = Some (q, TBytes d, snd (TypedDataSize B_DOUBLE_TYPE (TBytes d))) \<and>
      ReadTypedData stack E' (q\<lparr>p_pos := p_pos p\<rparr>) B_DOUBLE_TYPE True = Some (r, B_BAD_TYPE, TNull)"
    using large_back [OF assms(1-3,5,4), of d B_DOUBLE_TYPE] assms(8)
    by (auto simp: WriteTypedData_def write_typed_def ReadTypedData_def TypedDataSize_def read_long_def T)
qed

section \<open>Stale sizes\<close>

text \<open>
  \<^verbatim>\<open>ReplaceValues\<close> changes the values of a map and leaves its cached size: the value then announces a size that it has not.
  In the example a small number is replaced by a string of five bytes.
\<close>

definition sized_map :: cval where
  "sized_map = fst (ArchivedSize (uncached (SMap [(SInt32 1, SInt32 10)])))"

definition stale_map :: cval where
  "stale_map = ReplaceValues_cached sized_map [(uncached (SStr [0x61, 0x62, 0x63, 0x64, 0x65]), 0)]"

lemma ReplaceValues_stale:
  "caches_ok sized_map \<and> snd (ArchivedSize sized_map) = 32 \<and> \<not> caches_ok stale_map \<and> snd (ArchivedSize stale_map) = 32 \<and>
   archived_size (value_of stale_map) = 40"
  by code_simp

section \<open>What the reader does not check\<close>

text \<open>
  Large data with a length of one to four bytes is read into four bytes, eight at a time. A map may claim so many pairs that the
  size of its block wraps around, and has room for fewer. A parcel in an error state yields whatever the unset memory of
  the reader contains instead of an error value, because the error passes for a size; only the result tells.
\<close>

definition parcel_of :: "u8 list \<Rightarrow> parcel" where
  "parcel_of bs = Parcel_on (bs @ replicate 32 0) False"

lemma unarchive_overruns:
  "Unarchive 3 demo_env (parcel_of (le_bytes (B_PACK_LARGE_TYPE B_STRING_TYPE) @ le_bytes 3 @ replicate 8 0x61)) = None"
  by code_simp

lemma map_room_wraps: "map_room 0x10000001 = 1" "map_room 0x10000000 = 0"
  by code_simp+

lemma unarchive_error_state:
  "\<exists>p. Unarchive 3 (demo_env\<lparr>e_junk := \<lambda>_. 0\<rparr>) ((parcel_of [])\<lparr>p_length := B_NO_MEMORY, p_pos := 0\<rparr>) = Some (p, B_NO_MEMORY, CUndefined)"
  by (rule exI [of _ "(parcel_of [])\<lparr>p_length := B_NO_MEMORY, p_pos := 0\<rparr>"]) code_simp

section \<open>Examples\<close>

definition demo_value :: sval where
  "demo_value = SMap [(SInt32 1, SStr [0x61, 0x62, 0x63, 0x64, 0x65]), (SStr [0x6b], SMap [(SWild, SUndefined)])]"

lemma codes_ok_demo: "codes_ok demo_value"
  by code_simp

lemma demo_value_facts:
  "storable demo_value" "vdepth demo_value \<le> 3" "length (flat demo_env (uncached demo_value)) = 80" "storable SWild" "vdepth SWild \<le> 3"
  "length (flat demo_env (uncached SWild)) = 8" "length (flat demo_env stale_map) = 40" "storable (value_of stale_map)"
  "vdepth (value_of stale_map) \<le> 3"
  by code_simp+

text \<open>The map with the stale size is archived and read back all the same.\<close>

theorem archive_round_trip_witness:
  "\<exists>q w u. Archive demo_env full_parcel stale_map = Some (q, w, 40) \<and>
     Unarchive 3 demo_env (q\<lparr>p_pos := 24\<rparr>) = Some (q, 40, u) \<and> value_of u = value_of stale_map \<and> snd (ArchivedSize stale_map) = 32"
proof -
  have "p_pos full_parcel = 24" "p_length full_parcel = 24" "p_out full_parcel = None" by (simp_all add: full_parcel_def Parcel_empty_def)
  then show ?thesis
    using archive_round_trip [OF demo_value_facts(8,9) demo_parcel_ok(2) _ _ demo_parcel_ok(3,3)] demo_value_facts(7) ReplaceValues_stale by auto
qed

theorem values_round_trip_witness:
  "\<exists>q ws us. SetValues demo_env full_parcel [uncached demo_value, stale_map, uncached SWild] = Some (q, ws, B_OK) \<and> CountValues q = Some 3 \<and>
     GetValues 3 demo_env (q\<lparr>p_pos := 0\<rparr>) 5 = Some (q, us) \<and> map value_of us = [demo_value, value_of stale_map, SWild]"
proof -
  have "p_out full_parcel = None" by (simp add: full_parcel_def Parcel_empty_def)
  then show ?thesis
    using values_round_trip [of "[uncached demo_value, stale_map, uncached SWild]" 3 full_parcel demo_env demo_env 5]
      demo_value_facts demo_parcel_ok by auto
qed

theorem typed_data_round_trip_witness:
  "\<exists>q w u. WriteTypedData demo_env full_parcel B_VALUE_TYPE (TValue (uncached demo_value)) = Some (q, w, 80) \<and>
     ReadTypedData 3 demo_env (q\<lparr>p_pos := 24\<rparr>) B_VALUE_TYPE True = Some (q, B_OK, u) \<and> same_data u (TValue (uncached demo_value))"
proof -
  have f: "p_pos full_parcel = 24" "p_length full_parcel = 24" "p_out full_parcel = None" by (simp_all add: full_parcel_def Parcel_empty_def)
  have t: "typed_ok demo_env 3 B_VALUE_TYPE (TValue (uncached demo_value))"
    using demo_value_facts(1-3) codes_ok_demo by (simp add: typed_ok_def)
  have "snd (TypedDataSize B_VALUE_TYPE (TValue (uncached demo_value))) = 80" "caches_ok (uncached demo_value)" "demo_value \<noteq> SNull"
    by code_simp+
  then show ?thesis
    using typed_data_round_trip [OF demo_parcel_ok(2) _ _ _ demo_parcel_ok(3,3) t, of "replicate 8 0"] f by auto
qed

end
