(* ===== verification/Value_Convert.thy ===== *)
theory Value_Convert
  imports Value_Algebra Value_Archive String_Path
begin

text \<open>
  Reading and converting values, \<^verbatim>\<open>src/libraries/libbinder/support/Value.cpp\<close>: the constructors of scalar values, the
  strict accessors \<^verbatim>\<open>Get...\<close>, the conversions \<^verbatim>\<open>As...\<close> between text, numbers, times and truth values, and editing the
  bytes of a value in place. A conversion returns its result with the status it stores; \<open>None\<close> means that it
  reads or writes memory that is not part of the value (text without a terminator, a null pointer).
  Characters are signed, numbers are integers with the truncations of the code written out (\<open>to_int32\<close>,
  \<open>to_int64\<close>). The floating point operations of the machine and the objects behind pointers are
  parameters (\<open>fp_ops\<close>, \<open>fp_env\<close>, \<open>objects\<close>).
\<close>

section \<open>Type codes and scalar values\<close>

definition B_UUID_TYPE :: u32 where "B_UUID_TYPE = B_TYPE_CODE 0x756964"
definition B_BINDER_HANDLE_TYPE :: u32 where "B_BINDER_HANDLE_TYPE = B_TYPE_CODE 0x73682a"
definition B_BINDER_WEAK_HANDLE_TYPE :: u32 where "B_BINDER_WEAK_HANDLE_TYPE = B_TYPE_CODE 0x77682a"
definition B_ATOM_TYPE :: u32 where "B_ATOM_TYPE = B_TYPE_CODE 0x73612a"
definition B_ATOM_WEAK_TYPE :: u32 where "B_ATOM_WEAK_TYPE = B_TYPE_CODE 0x77612a"
definition B_KEY_ID_TYPE :: u32 where "B_KEY_ID_TYPE = B_TYPE_CODE 0x6b792a"

lemmas more_code_defs = B_NSECS_TYPE_def B_UUID_TYPE_def B_BINDER_TYPE_def B_BINDER_WEAK_TYPE_def
  B_BINDER_HANDLE_TYPE_def B_BINDER_WEAK_HANDLE_TYPE_def B_ATOM_TYPE_def B_ATOM_WEAK_TYPE_def B_KEY_ID_TYPE_def

definition to_int32 :: "int \<Rightarrow> int" where "to_int32 n = signed_take_bit 31 n"
definition to_int64 :: "int \<Rightarrow> int" where "to_int64 n = signed_take_bit 63 n"

definition SInt8 :: "int \<Rightarrow> sval" where "SInt8 n = SData B_INT8_TYPE [word_of_int n]"
definition SInt16 :: "int \<Rightarrow> sval" where "SInt16 n = SData B_INT16_TYPE (le_bytes16 (word_of_int n))"
definition SBool :: "bool \<Rightarrow> sval" where "SBool b = SData B_BOOL_TYPE [if b then 1 else 0]"
definition SInt64 :: "int \<Rightarrow> sval" where "SInt64 n = SData B_INT64_TYPE (le_bytes64 (word_of_int n))"
definition STime :: "int \<Rightarrow> sval" where "STime n = SData B_NSECS_TYPE (le_bytes64 (word_of_int n))"
definition SStatus :: "int \<Rightarrow> sval" where "SStatus n = SData B_STATUS_TYPE (le_bytes (word_of_int n))"

text \<open>\<^verbatim>\<open>InitAsRaw\<close>, and a value on a shared buffer: up to four bytes are copied by one read of four bytes.\<close>

definition InitAsRaw :: "memory \<Rightarrow> u32 \<Rightarrow> u8 list \<Rightarrow> sval" where
  "InitAsRaw mem type bs =
    (if length bs \<le> 4 then SData type bs
     else if mem (length bs) then SData type bs
     else SErr B_NO_MEMORY)"

definition init_as_shared_buffer :: "u32 \<Rightarrow> u8 list \<Rightarrow> sval option" where
  "init_as_shared_buffer type buffer = (if length buffer = 0 then None else Some (SData type buffer))"

definition SValue_of_buffer :: "u32 \<Rightarrow> u8 list option \<Rightarrow> sval option" where
  "SValue_of_buffer type buffer =
    (case buffer of Some bs \<Rightarrow> init_as_shared_buffer type bs | None \<Rightarrow> Some (SData type []))"

section \<open>Type, length and bytes\<close>

definition Type_of :: "sval \<Rightarrow> u32" where "Type_of v = B_UNPACK_TYPE_CODE (m_type v)"

text \<open>The bytes of a value that is not a map.\<close>

definition raw :: "sval \<Rightarrow> u8 list" where
  "raw v = (case v of SData _ bs \<Rightarrow> bs | _ \<Rightarrow> [])"

definition Length :: "sval \<Rightarrow> nat" where
  "Length v =
    (let len = B_UNPACK_TYPE_LENGTH (m_type v) in
     if len \<le> 4 then unat len else if len = 5 then length (raw v) else 0)"

definition Data :: "sval \<Rightarrow> u8 list option" where
  "Data v =
    (if B_UNPACK_TYPE_LENGTH (m_type v) \<le> 4 then Some (raw v)
     else if B_UNPACK_TYPE_LENGTH (m_type v) = 5 then Some (raw v)
     else None)"

definition Data_typed :: "sval \<Rightarrow> u32 \<Rightarrow> nat \<Rightarrow> u8 list option" where
  "Data_typed v type len =
    (if len \<le> 4 then (if m_type v = B_PACK_SMALL_TYPE type (of_nat len) then Some (raw v) else None)
     else if B_PACK_LARGE_TYPE type = m_type v \<and> length (raw v) = len then Some (raw v)
     else None)"

definition Data_min :: "sval \<Rightarrow> u32 \<Rightarrow> nat \<Rightarrow> u8 list option" where
  "Data_min v type minLength =
    (if minLength > 4 then
       (if m_type v = B_PACK_LARGE_TYPE type \<and> length (raw v) \<ge> minLength then Some (raw v) else None)
     else if B_UNPACK_TYPE_CODE (m_type v) = type then
       (let len = B_UNPACK_TYPE_LENGTH (m_type v) in
        if len \<le> 4 \<and> unat len \<ge> minLength then Some (raw v)
        else if len = 5 then Some (raw v)
        else None)
     else None)"

text \<open>
  \<^verbatim>\<open>SharedBuffer\<close>: the outer \<open>None\<close> is the store of four bytes into a block of none; the inner one is the null pointer.
\<close>

definition SharedBuffer :: "memory \<Rightarrow> sval \<Rightarrow> u8 list option option" where
  "SharedBuffer mem v =
    (if B_UNPACK_TYPE_LENGTH (m_type v) = 5 then Some (Some (raw v))
     else if B_UNPACK_TYPE_LENGTH (m_type v) \<le> 4 then
       (if mem (Length v) then (if Length v = 0 then None else Some (Some (raw v))) else Some None)
     else Some None)"

text \<open>\<^verbatim>\<open>SString(const SSharedBuffer*)\<close>.\<close>

definition SString_of_buffer :: "memory \<Rightarrow> u8 list \<Rightarrow> bytes" where
  "SString_of_buffer mem buf =
    (if length buf \<noteq> 0 then
       (if buf ! (length buf - 1) = 0 then take (length buf - 1) buf
        else if mem (length buf) then buf else [])
     else [])"

section \<open>Strict accessors\<close>

definition GetString_c :: "sval \<Rightarrow> int + u8 list" where
  "GetString_c v = (if B_UNPACK_TYPE_CODE (m_type v) \<noteq> B_STRING_TYPE then Inl B_BAD_TYPE else Inr (raw v))"

definition GetString :: "memory \<Rightarrow> sval \<Rightarrow> (int + bytes) option" where
  "GetString mem v =
    (if B_UNPACK_TYPE_CODE (m_type v) \<noteq> B_STRING_TYPE then Some (Inl B_BAD_TYPE)
     else if B_UNPACK_TYPE_LENGTH (m_type v) = 5 then Some (Inr (SString_of_buffer mem (raw v)))
     else if B_UNPACK_TYPE_LENGTH (m_type v) = 0 then Some (Inr [])
     else map_option (\<lambda>buf. case buf of None \<Rightarrow> Inl B_NO_MEMORY | Some bs \<Rightarrow> Inr (SString_of_buffer mem bs))
            (SharedBuffer mem v))"

definition GetInt8 :: "sval \<Rightarrow> int + int" where
  "GetInt8 v = map_sum id (\<lambda>bs. sint (hd bs)) (copy_small_data v (B_PACK_SMALL_TYPE B_INT8_TYPE 1))"

definition GetBool :: "sval \<Rightarrow> int + bool" where
  "GetBool v = map_sum id (\<lambda>bs. hd bs \<noteq> 0) (copy_small_data v (B_PACK_SMALL_TYPE B_BOOL_TYPE 1))"

definition GetInt16 :: "sval \<Rightarrow> int + int" where
  "GetInt16 v = map_sum id (\<lambda>bs. sint (le_word16 bs)) (copy_small_data v (B_PACK_SMALL_TYPE B_INT16_TYPE 2))"

definition GetInt32 :: "sval \<Rightarrow> int + int" where
  "GetInt32 v = map_sum id le_int (copy_small_data v (B_PACK_SMALL_TYPE B_INT32_TYPE 4))"

definition GetStatus :: "sval \<Rightarrow> int + int" where
  "GetStatus v = map_sum id le_int (copy_small_data v (B_PACK_SMALL_TYPE B_STATUS_TYPE 4))"

definition GetInt64 :: "sval \<Rightarrow> int + int" where
  "GetInt64 v = map_sum id (\<lambda>bs. sint (le_word64 bs)) (copy_big_data v (B_PACK_LARGE_TYPE B_INT64_TYPE) 8)"

definition GetTime :: "sval \<Rightarrow> int + int" where
  "GetTime v = map_sum id (\<lambda>bs. sint (le_word64 bs)) (copy_big_data v (B_PACK_LARGE_TYPE B_NSECS_TYPE) 8)"

definition GetFloat :: "sval \<Rightarrow> int + u8 list" where
  "GetFloat v = copy_small_data v (B_PACK_SMALL_TYPE B_FLOAT_TYPE 4)"

definition GetDouble :: "sval \<Rightarrow> int + u8 list" where
  "GetDouble v = copy_big_data v (B_PACK_LARGE_TYPE B_DOUBLE_TYPE) 8"

definition GetKeyID :: "sval \<Rightarrow> int + u32" where
  "GetKeyID v = (if m_type v = B_PACK_SMALL_TYPE B_KEY_ID_TYPE 4 then Inr (le_word (raw v)) else Inl B_BAD_TYPE)"

section \<open>Objects\<close>

text \<open>
  The objects a pointer in a value leads to: the proxies of the process for a handle, the atom behind a weak pointer, the
  weak pointer of an object, and promotion to a strong pointer (null when the object is gone).
\<close>

record objects =
  strong_proxy :: "u32 \<Rightarrow> u32"
  weak_proxy :: "u32 \<Rightarrow> u32"
  weak_of :: "u32 \<Rightarrow> u32"
  weak_target :: "u32 \<Rightarrow> u32"
  promote :: "u32 \<Rightarrow> u32"

definition unflatten_binder :: "objects \<Rightarrow> sval \<Rightarrow> int + u32" where
  "unflatten_binder obs v =
    (if m_type v = B_PACK_SMALL_TYPE B_BINDER_TYPE 4 then Inr (le_word (raw v))
     else if m_type v = B_PACK_SMALL_TYPE B_BINDER_HANDLE_TYPE 4 then Inr (strong_proxy obs (le_word (raw v)))
     else Inl B_BAD_TYPE)"

definition unflatten_weak_binder :: "objects \<Rightarrow> sval \<Rightarrow> (int + u32) option" where
  "unflatten_weak_binder obs v =
    (if m_type v = B_PACK_SMALL_TYPE B_BINDER_TYPE 4 then
       Some (Inr (if le_word (raw v) = 0 then 0 else weak_of obs (le_word (raw v))))
     else if m_type v = B_PACK_SMALL_TYPE B_BINDER_WEAK_TYPE 4 then
       (if le_word (raw v) = 0 then None else Some (Inr (le_word (raw v))))
     else if m_type v = B_PACK_SMALL_TYPE B_BINDER_HANDLE_TYPE 4 \<or> m_type v = B_PACK_SMALL_TYPE B_BINDER_WEAK_HANDLE_TYPE 4 then
       Some (Inr (weak_proxy obs (le_word (raw v))))
     else Some (Inl B_BAD_TYPE))"

definition GetBinder :: "objects \<Rightarrow> sval \<Rightarrow> int + u32" where
  "GetBinder obs v = (if is_object v then unflatten_binder obs v else Inl B_BAD_TYPE)"

definition GetWeakBinder :: "objects \<Rightarrow> sval \<Rightarrow> (int + u32) option" where
  "GetWeakBinder obs v = (if is_object v then unflatten_weak_binder obs v else Some (Inl B_BAD_TYPE))"

definition GetAtom :: "sval \<Rightarrow> int + u32" where
  "GetAtom v = map_sum id le_word (copy_small_data v (B_PACK_SMALL_TYPE B_ATOM_TYPE 4))"

text \<open>The source tries the same type twice; the atom is read through the pointer, null or not.\<close>

definition GetWeakAtom :: "objects \<Rightarrow> sval \<Rightarrow> (int + u32) option" where
  "GetWeakAtom obs v =
    (let first = copy_small_data v (B_PACK_SMALL_TYPE B_ATOM_WEAK_TYPE 4);
         wp = (case first of Inl _ \<Rightarrow> copy_small_data v (B_PACK_SMALL_TYPE B_ATOM_WEAK_TYPE 4) | Inr _ \<Rightarrow> first) in
     case wp of
       Inl err \<Rightarrow> Some (Inl err)
     | Inr bs \<Rightarrow> if le_word bs = 0 then None else Some (Inr (weak_target obs (le_word bs))))"

definition type_conversion_error :: "sval \<Rightarrow> int" where
  "type_conversion_error v = (let err = StatusCheck v in if err < B_OK then err else B_BAD_TYPE)"

definition AsBinder :: "objects \<Rightarrow> sval \<Rightarrow> (u32 \<times> int) option" where
  "AsBinder obs v =
    (if is_object v then
       (case unflatten_binder obs v of
          Inr b \<Rightarrow> Some (b, B_OK)
        | Inl _ \<Rightarrow>
            Option.bind (unflatten_weak_binder obs v) (\<lambda>w. case w of
               Inr w \<Rightarrow> Some (promote obs w, B_OK)
             | Inl err \<Rightarrow> Some (0, if m_type v = B_PACK_SMALL_TYPE B_NULL_TYPE 0 then B_OK else err)))
     else Some (0, type_conversion_error v))"

definition AsWeakBinder :: "objects \<Rightarrow> sval \<Rightarrow> (u32 \<times> int) option" where
  "AsWeakBinder obs v =
    (if is_object v then
       map_option (\<lambda>w. case w of
           Inr w \<Rightarrow> (w, B_OK)
         | Inl err \<Rightarrow> (0, if m_type v = B_PACK_SMALL_TYPE B_NULL_TYPE 0 then B_OK else err))
         (unflatten_weak_binder obs v)
     else Some (0, type_conversion_error v))"

definition AsKeyID :: "sval \<Rightarrow> u32 \<times> int" where
  "AsKeyID v =
    (if B_UNPACK_TYPE_CODE (m_type v) = B_KEY_ID_TYPE then (case GetKeyID v of Inr k \<Rightarrow> (k, B_OK) | Inl err \<Rightarrow> (0, err))
     else if B_UNPACK_TYPE_CODE (m_type v) = B_NULL_TYPE then (0, B_OK)
     else (0, type_conversion_error v))"

definition AsAtom :: "objects \<Rightarrow> sval \<Rightarrow> (u32 \<times> int) option" where
  "AsAtom obs v =
    (case GetAtom v of
       Inr a \<Rightarrow> Some (a, B_OK)
     | Inl _ \<Rightarrow>
         map_option (\<lambda>w. case w of
             Inr a \<Rightarrow> (promote obs (weak_of obs a), B_OK)
           | Inl _ \<Rightarrow> (0, if m_type v = B_PACK_SMALL_TYPE B_NULL_TYPE 0 then B_OK else type_conversion_error v))
           (GetWeakAtom obs v))"

definition AsWeakAtom :: "objects \<Rightarrow> sval \<Rightarrow> (u32 \<times> int) option" where
  "AsWeakAtom obs v =
    map_option (\<lambda>w. case w of
        Inr a \<Rightarrow> (a, B_OK)
      | Inl err \<Rightarrow> (0, if m_type v = B_PACK_SMALL_TYPE B_NULL_TYPE 0 then B_OK else err))
      (GetWeakAtom obs v)"

section \<open>Numbers in text\<close>

definition isdigit :: "u8 \<Rightarrow> bool" where "isdigit c \<longleftrightarrow> 48 \<le> c \<and> c \<le> 57"

text \<open>The text a C string pointer shows: up to the first null byte, which has to be there.\<close>

definition c_text :: "u8 list \<Rightarrow> bytes option" where
  "c_text bs = (if 0 \<in> set bs then Some (takeWhile (\<lambda>c. c \<noteq> 0) bs) else None)"

text \<open>\<^verbatim>\<open>strtol\<close> and \<^verbatim>\<open>strtoll\<close> in base 10 or 16, with the largest number of the type.\<close>

fun digits_loop :: "int \<Rightarrow> bytes \<Rightarrow> int \<Rightarrow> int" where
  "digits_loop base [] acc = acc"
| "digits_loop base (c # s) acc =
    (case digit_value c of
       None \<Rightarrow> acc
     | Some d \<Rightarrow> if d < base then digits_loop base s (acc * base + d) else acc)"

definition skip_0x :: "int \<Rightarrow> bytes \<Rightarrow> bytes" where
  "skip_0x base s =
    (if base = 16 \<and> char_at s 0 = 48 \<and> (char_at s 1 = 120 \<or> char_at s 1 = 88) \<and>
       (case digit_value (char_at s 2) of None \<Rightarrow> False | Some d \<Rightarrow> d < 16) then drop 2 s else s)"

definition strto :: "int \<Rightarrow> bytes \<Rightarrow> int \<Rightarrow> int" where
  "strto largest s base =
    (let (neg, s) = number_sign (dropWhile isspace s); n = digits_loop base (skip_0x base s) 0 in
     if neg then max (- largest - 1) (- n) else min largest n)"

definition strtol :: "bytes \<Rightarrow> int \<Rightarrow> int" where "strtol s base = strto (2 ^ 31 - 1) s base"
definition strtoll :: "bytes \<Rightarrow> int \<Rightarrow> int" where "strtoll s base = strto (2 ^ 63 - 1) s base"

fun code_loop :: "u8 \<Rightarrow> bytes \<Rightarrow> int \<Rightarrow> int \<times> bytes" where
  "code_loop stop [] val = (val, [])"
| "code_loop stop (c # s) val =
    (if c = stop then (val, c # s) else code_loop stop s (to_int64 (push_bit 8 val OR sint c)))"

definition string_to_number :: "bytes \<Rightarrow> int \<times> int" where
  "string_to_number s =
    (let s = dropWhile isspace s;
         s = (if char_at s 0 = 43 then drop 1 s else s);
         neg = (char_at s 0 = 45);
         s = (if neg then drop 1 s else s);
         (val, r) =
           (if 48 \<le> char_at s 0 \<and> char_at s 0 \<le> 57 then
              (if char_at s 0 = 48 \<and> char_at s 1 = 120 then (strtoll (drop 2 s) 16, B_OK) else (strtoll s 10, B_OK))
            else if char_at s 0 = 91 \<or> char_at s 0 = 39 then
              (let stop = (if char_at s 0 = 91 then 93 else 39); (val, rest) = code_loop stop (drop 1 s) 0
               in (val, if char_at rest 0 = stop then B_OK else B_BAD_TYPE))
            else (0, B_BAD_TYPE))
     in (if neg then to_int64 (- val) else val, r))"

section \<open>Conversions\<close>

text \<open>What the code uses of \<^verbatim>\<open>float\<close> and of \<^verbatim>\<open>double\<close>, and of the two together.\<close>

record 'x fp_ops =
  fp_at :: "u8 list \<Rightarrow> 'x"
  fp_less :: "'x \<Rightarrow> 'x \<Rightarrow> bool"
  fp_add :: "'x \<Rightarrow> 'x \<Rightarrow> 'x"
  fp_neg :: "'x \<Rightarrow> 'x"
  fp_half :: 'x
  fp_epsilon :: 'x
  fp_of_int :: "int \<Rightarrow> 'x"
  fp_to_int32 :: "'x \<Rightarrow> int"
  fp_to_int64 :: "'x \<Rightarrow> int"

record ('f, 'd) fp_env =
  on_float :: "'f fp_ops"
  on_double :: "'d fp_ops"
  widen :: "'f \<Rightarrow> 'd"
  narrow :: "'d \<Rightarrow> 'f"
  strtod :: "bytes \<Rightarrow> 'd"
  printf_g :: "'d \<Rightarrow> bytes"

definition rounded :: "'x fp_ops \<Rightarrow> u8 list \<Rightarrow> 'x" where
  "rounded F bs =
    (let ex = fp_at F bs in
     if fp_less F (fp_of_int F 0) ex then fp_add F ex (fp_half F) else fp_add F ex (fp_neg F (fp_half F)))"

definition fp_true :: "'x fp_ops \<Rightarrow> u8 list \<Rightarrow> bool" where
  "fp_true F bs = (let ex = fp_at F bs in fp_less F (fp_epsilon F) ex \<or> fp_less F ex (fp_neg F (fp_epsilon F)))"

text \<open>
  The pattern \<^verbatim>\<open>if ((r=Get(&ex)) == B_OK) val = f(ex)\<close>, with the initial result, and the same on the text of a C string.
\<close>

definition get_ok :: "int + 'a \<Rightarrow> ('a \<Rightarrow> 'b) \<Rightarrow> 'b \<Rightarrow> ('b \<times> int) option" where
  "get_ok r f val = Some (case r of Inl err \<Rightarrow> (val, err) | Inr ex \<Rightarrow> (f ex, B_OK))"

definition get_text :: "sval \<Rightarrow> (bytes \<Rightarrow> 'b \<times> int) \<Rightarrow> 'b \<Rightarrow> ('b \<times> int) option" where
  "get_text v f val =
    (case GetString_c v of Inl err \<Rightarrow> Some (val, err) | Inr bs \<Rightarrow> map_option f (c_text bs))"

fun dec_digits :: "nat \<Rightarrow> bytes" where
  "dec_digits n = (if n < 10 then [48 + of_nat n] else dec_digits (n div 10) @ [48 + of_nat (n mod 10)])"

declare dec_digits.simps [simp del]

definition dec_text :: "int \<Rightarrow> bytes" where
  "dec_text n = (if n < 0 then 45 # dec_digits (nat (- n)) else dec_digits (nat n))"

definition hex_digit :: "nat \<Rightarrow> u8" where
  "hex_digit n = (if n < 10 then 48 + of_nat n else 87 + of_nat n)"

definition hex_text :: "nat \<Rightarrow> nat \<Rightarrow> bytes" where
  "hex_text width n = map (\<lambda>i. hex_digit (n div 16 ^ (width - 1 - i) mod 16)) [0..<width]"

definition fp_text :: "bytes \<Rightarrow> bytes" where
  "fp_text buffer = (if 46 \<notin> set buffer \<and> 101 \<notin> set buffer \<and> 69 \<notin> set buffer then buffer @ [46, 48] else buffer)"

definition uuid_text :: "u8 list \<Rightarrow> bytes" where
  "uuid_text u =
    hex_text 8 (unat (le_word (take 4 u))) @ [45] @
    hex_text 4 (unat (le_word16 (take 2 (drop 4 u)))) @ [45] @
    hex_text 4 (unat (le_word16 (take 2 (drop 6 u)))) @ [45] @
    hex_text 2 (unat (u ! 8)) @ hex_text 2 (unat (u ! 9)) @ [45] @
    concat (map (\<lambda>i. hex_text 2 (unat (u ! (10 + i)))) [0..<6])"

definition AsString :: "('f, 'd) fp_env \<Rightarrow> memory \<Rightarrow> sval \<Rightarrow> (bytes \<times> int) option" where
  "AsString fp mem v =
    (let code = B_UNPACK_TYPE_CODE (m_type v) in
     if m_type v = B_PACK_LARGE_TYPE B_STRING_TYPE then Some (SString_of_buffer mem (raw v), B_OK)
     else if m_type v = B_PACK_SMALL_TYPE B_STRING_TYPE 0 \<or> m_type v = B_PACK_SMALL_TYPE B_NULL_TYPE 0 then Some ([], B_OK)
     else if code = B_STRING_TYPE then Option.bind (GetString mem v) (\<lambda>r. get_ok r id [])
     else if code = B_DOUBLE_TYPE then
       get_ok (GetDouble v) (\<lambda>bs. fp_text (printf_g fp (fp_at (on_double fp) bs))) []
     else if code = B_FLOAT_TYPE then
       get_ok (GetFloat v) (\<lambda>bs. fp_text (printf_g fp (widen fp (fp_at (on_float fp) bs)))) []
     else if code = B_INT64_TYPE then get_ok (GetInt64 v) dec_text []
     else if code = B_NSECS_TYPE then get_ok (GetTime v) dec_text []
     else if code = B_INT32_TYPE then get_ok (GetInt32 v) dec_text []
     else if code = B_INT16_TYPE then get_ok (GetInt16 v) dec_text []
     else if code = B_INT8_TYPE then get_ok (GetInt8 v) dec_text []
     else if code = B_BOOL_TYPE then
       get_ok (GetBool v) (\<lambda>ex. if ex then [116, 114, 117, 101] else [102, 97, 108, 115, 101]) []
     else if code = B_UUID_TYPE then
       (if Length v = 16 then Some (uuid_text (raw v), B_OK) else Some ([], type_conversion_error v))
     else Some ([], type_conversion_error v))"

definition AsBool :: "('f, 'd) fp_env \<Rightarrow> objects \<Rightarrow> sval \<Rightarrow> (bool \<times> int) option" where
  "AsBool fp obs v =
    (let code = B_UNPACK_TYPE_CODE (m_type v) in
     if m_type v = B_PACK_SMALL_TYPE B_BOOL_TYPE 1 then Some (hd (raw v) \<noteq> 0, B_OK)
     else if m_type v = B_PACK_SMALL_TYPE B_INT32_TYPE 4 then Some (le_int (raw v) \<noteq> 0, B_OK)
     else if m_type v = B_PACK_SMALL_TYPE B_NULL_TYPE 0 then Some (False, B_OK)
     else if code = B_STRING_TYPE then
       get_text v (\<lambda>ex. (if map UTF8SafeToLower ex = [116, 114, 117, 101] then True else strtol ex 10 \<noteq> 0, B_OK)) False
     else if code = B_DOUBLE_TYPE then get_ok (GetDouble v) (fp_true (on_double fp)) False
     else if code = B_FLOAT_TYPE then get_ok (GetFloat v) (fp_true (on_float fp)) False
     else if code = B_INT64_TYPE then get_ok (GetInt64 v) (\<lambda>ex. ex \<noteq> 0) False
     else if code = B_NSECS_TYPE then get_ok (GetTime v) (\<lambda>ex. ex \<noteq> 0) False
     else if code = B_INT16_TYPE then get_ok (GetInt16 v) (\<lambda>ex. ex \<noteq> 0) False
     else if code = B_INT8_TYPE then get_ok (GetInt8 v) (\<lambda>ex. ex \<noteq> 0) False
     else if code = B_ATOM_TYPE then get_ok (GetAtom v) (\<lambda>ex. ex \<noteq> 0) False
     else if code = B_ATOM_WEAK_TYPE then Option.bind (GetWeakAtom obs v) (\<lambda>r. get_ok r (\<lambda>ex. ex \<noteq> 0) False)
     else
       map_option (\<lambda>(binder, r). if r = B_OK then (binder \<noteq> 0, r) else (False, type_conversion_error v))
         (AsWeakBinder obs v))"

definition AsInt32 :: "('f, 'd) fp_env \<Rightarrow> sval \<Rightarrow> (int \<times> int) option" where
  "AsInt32 fp v =
    (let code = B_UNPACK_TYPE_CODE (m_type v) in
     if m_type v = B_PACK_SMALL_TYPE B_INT32_TYPE 4 then Some (le_int (raw v), B_OK)
     else if m_type v = B_PACK_SMALL_TYPE B_NULL_TYPE 0 then Some (0, B_OK)
     else if code = B_STRING_TYPE then get_text v (\<lambda>ex. let (n, r) = string_to_number ex in (to_int32 n, r)) 0
     else if code = B_DOUBLE_TYPE then
       get_ok (GetDouble v) (\<lambda>bs. fp_to_int32 (on_double fp) (rounded (on_double fp) bs)) 0
     else if code = B_FLOAT_TYPE then
       get_ok (GetFloat v) (\<lambda>bs. fp_to_int32 (on_float fp) (rounded (on_float fp) bs)) 0
     else if code = B_INT64_TYPE then get_ok (GetInt64 v) to_int32 0
     else if code = B_NSECS_TYPE then get_ok (GetTime v) to_int32 0
     else if code = B_INT16_TYPE then get_ok (GetInt16 v) id 0
     else if code = B_INT8_TYPE then get_ok (GetInt8 v) id 0
     else if code = B_BOOL_TYPE then get_ok (GetBool v) (\<lambda>ex. if ex then 1 else 0) 0
     else Some (0, type_conversion_error v))"

definition AsInt64 :: "('f, 'd) fp_env \<Rightarrow> sval \<Rightarrow> (int \<times> int) option" where
  "AsInt64 fp v =
    (let code = B_UNPACK_TYPE_CODE (m_type v) in
     if code = B_STRING_TYPE then get_text v string_to_number 0
     else if code = B_DOUBLE_TYPE then
       get_ok (GetDouble v) (\<lambda>bs. fp_to_int64 (on_double fp) (rounded (on_double fp) bs)) 0
     else if code = B_FLOAT_TYPE then
       get_ok (GetFloat v) (\<lambda>bs. fp_to_int64 (on_float fp) (rounded (on_float fp) bs)) 0
     else if code = B_INT32_TYPE then get_ok (GetInt32 v) id 0
     else if code = B_NSECS_TYPE then get_ok (GetTime v) id 0
     else if code = B_INT64_TYPE then get_ok (GetInt64 v) id 0
     else if code = B_INT16_TYPE then get_ok (GetInt16 v) id 0
     else if code = B_INT8_TYPE then get_ok (GetInt8 v) id 0
     else if code = B_BOOL_TYPE then get_ok (GetBool v) (\<lambda>ex. if ex then 1 else 0) 0
     else if code = B_NULL_TYPE then Some (0, B_OK)
     else Some (0, type_conversion_error v))"

definition AsSSize :: "('f, 'd) fp_env \<Rightarrow> sval \<Rightarrow> (int \<times> int) option" where
  "AsSSize fp v =
    (let val = ErrorCheck v in
     if val = B_OK then
       (if m_type v = B_PACK_SMALL_TYPE B_STATUS_TYPE 4 then Some (le_int (raw v), B_OK) else AsInt32 fp v)
     else Some (val, B_OK))"

definition AsStatus :: "('f, 'd) fp_env \<Rightarrow> sval \<Rightarrow> (int \<times> int) option" where
  "AsStatus fp v = map_option (\<lambda>(val, r). if val \<le> B_OK then (val, r) else (B_OK, B_BAD_TYPE)) (AsSSize fp v)"

section \<open>Times\<close>

definition B_ONE_MICROSECOND :: int where "B_ONE_MICROSECOND = 1000"
definition B_ONE_MILLISECOND :: int where "B_ONE_MILLISECOND = B_ONE_MICROSECOND * 1000"
definition B_ONE_SECOND :: int where "B_ONE_SECOND = B_ONE_MILLISECOND * 1000"

definition time_factor :: "bytes \<Rightarrow> int" where
  "time_factor unit =
    (if length unit = 0 then 1
     else if length unit = 1 then
       (if unit ! 0 = 100 then B_ONE_SECOND * 60 * 60 * 24
        else if unit ! 0 = 104 then B_ONE_SECOND * 60 * 60
        else if unit ! 0 = 109 then B_ONE_SECOND * 60
        else if unit ! 0 = 115 then B_ONE_SECOND
        else 0)
     else if length unit = 2 then
       (if unit = [109, 115] then B_ONE_MILLISECOND
        else if unit = [117, 115] then B_ONE_MICROSECOND
        else if unit = [110, 115] then 1
        else 0)
     else if length unit = 4 then
       (if take 3 unit = [100, 97, 121] then B_ONE_SECOND * 60 * 60 * 24
        else if take 3 unit = [109, 105, 110] then B_ONE_SECOND * 60
        else if take 3 unit = [115, 101, 99] then B_ONE_SECOND
        else 0)
     else if length unit = 4 then
       (if unit = [104, 111, 117, 114] then B_ONE_MILLISECOND * 60 * 60
        else if unit = [109, 115, 101, 99] then B_ONE_MILLISECOND
        else if unit = [117, 115, 101, 99] then B_ONE_MICROSECOND
        else if unit = [110, 115, 101, 99] then 1
        else 0)
     else 0)"

definition decode_time :: "bytes \<Rightarrow> int \<Rightarrow> (bytes \<times> int) option" where
  "decode_time str time =
    (let num = dropWhile isspace str; unit = dropWhile isdigit num in
     if length num - length unit = 0 then None
     else
       (let unit = dropWhile isspace unit;
            word = takeWhile (\<lambda>c. \<not> isspace c \<and> \<not> isdigit c) unit;
            factor = time_factor word
        in if factor = 0 then None
           else Some (drop (length word) unit, to_int64 (time + to_int64 (strtoll num 10 * factor)))))"

lemma decode_time_shorter: "decode_time s t = Some (s', t') \<Longrightarrow> length s' < length s"
proof -
  assume "decode_time s t = Some (s', t')"
  then have "length s' \<le> length (dropWhile isspace (dropWhile isdigit (dropWhile isspace s)))"
    and "length (dropWhile isdigit (dropWhile isspace s)) < length (dropWhile isspace s)"
    by (auto simp: decode_time_def Let_def split: if_splits)
  then show ?thesis
    using length_dropWhile_le [of isspace s] length_dropWhile_le [of isspace "dropWhile isdigit (dropWhile isspace s)"]
    by linarith
qed

function time_loop :: "bytes \<Rightarrow> int \<Rightarrow> bool \<Rightarrow> int \<times> bool" where
  "time_loop ex val gotSomething =
    (case decode_time ex val of
       None \<Rightarrow> (val, gotSomething)
     | Some (ex, val) \<Rightarrow> time_loop ex val True)"
  by pat_completeness auto
termination
  by (relation "measure (\<lambda>(ex, _). length ex)") (auto simp: decode_time_shorter)

declare time_loop.simps [simp del]

definition AsTime :: "('f, 'd) fp_env \<Rightarrow> sval \<Rightarrow> (int \<times> int) option" where
  "AsTime fp v =
    (let code = B_UNPACK_TYPE_CODE (m_type v) in
     if code = B_STRING_TYPE then
       get_text v (\<lambda>ex. let (val, got) = time_loop ex 0 False in (val, if got then B_OK else B_BAD_TYPE)) 0
     else if code = B_DOUBLE_TYPE then
       get_ok (GetDouble v) (\<lambda>bs. fp_to_int64 (on_double fp) (rounded (on_double fp) bs)) 0
     else if code = B_FLOAT_TYPE then
       get_ok (GetFloat v) (\<lambda>bs. fp_to_int64 (on_float fp) (rounded (on_float fp) bs)) 0
     else if code = B_INT64_TYPE then get_ok (GetInt64 v) id 0
     else if code = B_NSECS_TYPE then get_ok (GetTime v) id 0
     else if code = B_INT32_TYPE then get_ok (GetInt32 v) id 0
     else if code = B_INT16_TYPE then get_ok (GetInt16 v) id 0
     else if code = B_INT8_TYPE then get_ok (GetInt8 v) id 0
     else if code = B_BOOL_TYPE then get_ok (GetBool v) (\<lambda>ex. if ex then 1 else 0) 0
     else if code = B_NULL_TYPE then Some (0, B_OK)
     else Some (0, type_conversion_error v))"

section \<open>Floating point numbers\<close>

definition AsFloat :: "('f, 'd) fp_env \<Rightarrow> sval \<Rightarrow> ('f \<times> int) option" where
  "AsFloat fp v =
    (let code = B_UNPACK_TYPE_CODE (m_type v); of_int = fp_of_int (on_float fp) in
     if m_type v = B_PACK_SMALL_TYPE B_FLOAT_TYPE 4 then Some (fp_at (on_float fp) (raw v), B_OK)
     else if m_type v = B_PACK_SMALL_TYPE B_INT32_TYPE 4 then Some (of_int (le_int (raw v)), B_OK)
     else if m_type v = B_PACK_SMALL_TYPE B_NULL_TYPE 0 then Some (of_int 0, B_OK)
     else if code = B_STRING_TYPE then get_text v (\<lambda>ex. (narrow fp (strtod fp ex), B_OK)) (of_int 0)
     else if code = B_DOUBLE_TYPE then get_ok (GetDouble v) (\<lambda>bs. narrow fp (fp_at (on_double fp) bs)) (of_int 0)
     else if code = B_INT64_TYPE then get_ok (GetInt64 v) of_int (of_int 0)
     else if code = B_NSECS_TYPE then get_ok (GetTime v) of_int (of_int 0)
     else if code = B_INT16_TYPE then get_ok (GetInt16 v) of_int (of_int 0)
     else if code = B_INT8_TYPE then get_ok (GetInt8 v) of_int (of_int 0)
     else if code = B_BOOL_TYPE then get_ok (GetBool v) (\<lambda>ex. of_int (if ex then 1 else 0)) (of_int 0)
     else Some (of_int 0, type_conversion_error v))"

definition AsDouble :: "('f, 'd) fp_env \<Rightarrow> sval \<Rightarrow> ('d \<times> int) option" where
  "AsDouble fp v =
    (let code = B_UNPACK_TYPE_CODE (m_type v); of_int = fp_of_int (on_double fp) in
     if code = B_STRING_TYPE then get_text v (\<lambda>ex. (strtod fp ex, B_OK)) (of_int 0)
     else if code = B_DOUBLE_TYPE then get_ok (GetDouble v) (fp_at (on_double fp)) (of_int 0)
     else if code = B_FLOAT_TYPE then get_ok (GetFloat v) (\<lambda>bs. widen fp (fp_at (on_float fp) bs)) (of_int 0)
     else if code = B_INT64_TYPE then get_ok (GetInt64 v) of_int (of_int 0)
     else if code = B_NSECS_TYPE then get_ok (GetTime v) of_int (of_int 0)
     else if code = B_INT32_TYPE then get_ok (GetInt32 v) of_int (of_int 0)
     else if code = B_INT16_TYPE then get_ok (GetInt16 v) of_int (of_int 0)
     else if code = B_INT8_TYPE then get_ok (GetInt8 v) of_int (of_int 0)
     else if code = B_BOOL_TYPE then get_ok (GetBool v) (\<lambda>ex. of_int (if ex then 1 else 0)) (of_int 0)
     else if code = B_NULL_TYPE then Some (of_int 0, B_OK)
     else Some (of_int 0, type_conversion_error v))"

section \<open>Editing the bytes in place\<close>

text \<open>\<^verbatim>\<open>CHECK_IS_SMALL_OBJECT\<close> on a type word.\<close>

definition small_object :: "u32 \<Rightarrow> bool" where
  "small_object type \<longleftrightarrow> type AND (7 OR 0x00007f00) = 4 OR push_bit 8 0x2a"

text \<open>
  The bytes after a change of the length: those that exist are kept, new ones hold what \<open>fresh\<close> says. In
  \<open>edit_data\<close> the type word keeps its code; the code of an undefined value is 0 until the caller
  sets it.
\<close>

definition resized :: "(nat \<Rightarrow> u8) \<Rightarrow> u8 list \<Rightarrow> nat \<Rightarrow> u8 list" where
  "resized fresh bs len = map (\<lambda>i. if i < length bs then bs ! i else fresh i) [0..<len]"

definition edit_data :: "memory \<Rightarrow> (nat \<Rightarrow> u8) \<Rightarrow> sval \<Rightarrow> nat \<Rightarrow> sval \<times> bool" where
  "edit_data mem fresh v len =
    (let code = B_UNPACK_TYPE_CODE (m_type v) in
     if is_error v then (v, False)
     else if B_UNPACK_TYPE_LENGTH (m_type v) \<le> 4 then
       (if len \<le> 4 then (SData code (resized fresh (raw v) len), True)
        else if mem len then (SData code (resized fresh (raw v) len), True)
        else (set_error B_NO_MEMORY, False))
     else if B_UNPACK_TYPE_LENGTH (m_type v) = 5 then
       (if len \<le> 4 then (SData code (resized fresh (raw v) len), True)
        else if mem len then (SData code (resized fresh (raw v) len), True)
        else (set_error B_NO_MEMORY, False))
     else (v, False))"

definition SetType :: "sval \<Rightarrow> u32 \<Rightarrow> sval \<times> int" where
  "SetType v newType =
    (if is_simple v \<and> \<not> small_object (m_type v) \<and> \<not> small_object newType then (SData newType (raw v), B_OK)
     else (v, B_BAD_TYPE))"

definition BeginEditBytes :: "memory \<Rightarrow> (nat \<Rightarrow> u8) \<Rightarrow> sval \<Rightarrow> u32 \<Rightarrow> nat \<Rightarrow> bool \<Rightarrow> sval \<times> bool" where
  "BeginEditBytes mem fresh v type len edit =
    (if is_simple v \<and> \<not> small_object (m_type v) \<and> \<not> small_object type then
       (if \<not> edit then
          (if \<not> is_error v then
             (if len \<le> 4 then (SData type (resized fresh [] len), True)
              else if mem len then (SData type (resized fresh [] len), True)
              else (SErr B_NO_MEMORY, False))
           else (v, False))
        else
          (let (w, ok) = edit_data mem fresh v len in
           if ok then (SData type (raw w), True) else (w, False)))
     else (v, False))"

definition EndEditBytes :: "memory \<Rightarrow> (nat \<Rightarrow> u8) \<Rightarrow> sval \<Rightarrow> int \<Rightarrow> sval \<times> int" where
  "EndEditBytes mem fresh v final_length =
    (if \<not> is_error v then
       (if final_length < 0 then (v, B_OK)
        else if final_length = int (Length v) then (v, B_OK)
        else if final_length < int (Length v) then
          (let (w, ok) = edit_data mem fresh v (nat final_length) in if ok then (w, B_OK) else (w, ErrorCheck w))
        else (v, B_BAD_VALUE))
     else (v, ErrorCheck v))"

section \<open>Bytes and type words\<close>

lemma bit_le_fold:
  "n < LENGTH('a) \<Longrightarrow> bit (foldr (\<lambda>(b :: u8) w. ucast b OR push_bit 8 w) bs (0 :: 'a::len word)) n \<longleftrightarrow>
    n div 8 < length bs \<and> bit (bs ! (n div 8)) (n mod 8)"
proof (induction bs arbitrary: n)
  case (Cons b bs)
  show ?case
  proof (cases "n < 8")
    case True then show ?thesis using Cons.prems by (simp add: bit_simps)
  next
    case False
    then have "n div 8 = Suc ((n - 8) div 8)" "n mod 8 = (n - 8) mod 8" by (simp_all add: le_div_geq le_mod_geq)
    then show ?thesis using False Cons.prems Cons.IH [of "n - 8"] bit_imp_le_length [of b n]
      by (auto simp: bit_simps)
  qed
qed simp

lemma le_word64_bytes: "le_word64 (le_bytes64 w) = w"
proof (rule bit_word_eqI)
  fix n assume n: "n < LENGTH(64)"
  then have i: "n div 8 < 8" by simp
  have "le_bytes64 w = map (\<lambda>i. ucast (drop_bit (8 * i) w)) [0..<8]" by (simp add: le_bytes64_def upt_rec)
  then have "bit (le_bytes64 w ! (n div 8)) (n mod 8) = bit w n" using n i
    by (simp add: bit_simps)
  then show "bit (le_word64 (le_bytes64 w)) n = bit w n"
    unfolding le_word64_def using n i by (simp add: bit_le_fold) (simp add: le_bytes64_def)
qed

lemma sint_word: "sint (word_of_int n :: u32) = to_int32 n" "sint (word_of_int n :: 64 word) = to_int64 n"
  by (simp_all add: to_int32_def to_int64_def sint_sbintrunc')
lemma to_int_id: "- (2 ^ 31) \<le> n \<Longrightarrow> n < 2 ^ 31 \<Longrightarrow> to_int32 n = n" "- (2 ^ 63) \<le> n \<Longrightarrow> n < 2 ^ 63 \<Longrightarrow> to_int64 n = n"
  by (simp_all add: to_int32_def to_int64_def signed_take_bit_int_eq_self)

lemma code_valid:
  "c \<in> {B_STRING_TYPE, B_INT64_TYPE, B_INT32_TYPE, B_INT16_TYPE, B_INT8_TYPE, B_BOOL_TYPE, B_NSECS_TYPE} \<Longrightarrow> valid_code c"
  by (auto simp: valid_code_def type_code_defs more_code_defs)

lemma code_words:
  "B_STRING_TYPE = 0x73747200" "B_DOUBLE_TYPE = 0x64626c00" "B_FLOAT_TYPE = 0x666c7400" "B_INT64_TYPE = 0x69363400" "B_NSECS_TYPE = 0x6e737400"
  "B_INT32_TYPE = 0x69333200" "B_INT16_TYPE = 0x69313600" "B_INT8_TYPE = 0x69303800" "B_BOOL_TYPE = 0x626f6c00" "B_NULL_TYPE = 0x6e756c00"
  "B_UUID_TYPE = 0x75696400" "B_STATUS_TYPE = 0x73747300"
  by (simp_all add: type_code_defs more_code_defs)
lemma data_type_eq:
  assumes "valid_code c" "valid_code d"
  shows "m_type (SData c bs) = m_type (SData d es) \<longleftrightarrow> c = d \<and> min 5 (length bs) = min 5 (length es)"
proof
  assume e: "m_type (SData c bs) = m_type (SData d es)"
  then show "c = d \<and> min 5 (length bs) = min 5 (length es)"
    using same_type_lengths [OF e] unpack_code [of c bs] unpack_code [of d es] assms by (auto simp: same_width_def)
qed (auto simp: m_type.simps min_def split: if_splits)

lemma small_type_iff:
  assumes "valid_code c" "valid_code d" "k \<le> 4"
  shows "m_type (SData c bs) = B_PACK_SMALL_TYPE d (of_nat k) \<longleftrightarrow> c = d \<and> length bs = k"
  using data_type_eq [of c d bs "replicate k 0"] assms by (auto simp: m_type.simps min_def split: if_splits)

lemma large_type_iff:
  assumes "valid_code c" "valid_code d"
  shows "m_type (SData c bs) = B_PACK_LARGE_TYPE d \<longleftrightarrow> c = d \<and> length bs > 4"
  using data_type_eq [of c d bs "replicate 5 0"] assms by (auto simp: m_type.simps min_def split: if_splits)

section \<open>Decimal numbers\<close>

lemma digit_char: "n < 10 \<Longrightarrow> digit_value (48 + of_nat n) = Some (int n) \<and> isdigit (48 + of_nat n :: u8)"
proof -
  assume "n < 10"
  then have "n \<in> {0,1,2,3,4,5,6,7,8,9}" by auto
  then show ?thesis by (auto simp: digit_value_def isdigit_def)
qed

lemma dec_digits_isdigit: "\<forall>c \<in> set (dec_digits n). isdigit c"
  by (induction n rule: dec_digits.induct) (subst dec_digits.simps, auto simp: digit_char)

lemma digit_range: "isdigit c \<Longrightarrow> c \<noteq> 0 \<and> c \<noteq> 43 \<and> c \<noteq> 45 \<and> c \<noteq> 120 \<and> c \<noteq> 88 \<and> \<not> isspace c \<and> (\<exists>d. digit_value c = Some d \<and> 0 \<le> d \<and> d < 10)"
  unfolding isdigit_def isspace_def digit_value_def by (auto simp: word_le_def)

lemma digits_loop_append: "\<forall>c \<in> set s. isdigit c \<Longrightarrow> digits_loop 10 (s @ t) acc = digits_loop 10 t (digits_loop 10 s acc)"
  by (induction s arbitrary: acc) (use digit_range in fastforce)+

lemma digits_loop_dec: "digits_loop 10 (dec_digits n) 0 = int n"
proof (induction n rule: dec_digits.induct)
  case (1 n)
  show ?case
  proof (cases "n < 10")
    case True then show ?thesis by (subst dec_digits.simps) (simp add: digit_char)
  next
    case False
    then show ?thesis using 1 by (subst dec_digits.simps) (simp add: digits_loop_append dec_digits_isdigit digit_char zmod_int zdiv_int)
  qed
qed

lemmas type_iffs = small_type_iff [where k = 0, simplified] small_type_iff [where k = 1, simplified]
  small_type_iff [where k = 2, simplified] small_type_iff [where k = 4, simplified] large_type_iff

lemma valid_codes [simp]:
  "valid_code B_STRING_TYPE" "valid_code B_INT64_TYPE" "valid_code B_INT32_TYPE" "valid_code B_INT16_TYPE"
  "valid_code B_INT8_TYPE" "valid_code B_BOOL_TYPE" "valid_code B_NSECS_TYPE" "valid_code B_NULL_TYPE"
  "valid_code B_DOUBLE_TYPE" "valid_code B_FLOAT_TYPE" "valid_code B_STATUS_TYPE" "valid_code B_UUID_TYPE"
  by (simp_all add: valid_code_def type_code_defs more_code_defs)

lemma digits_ne: "dec_digits n \<noteq> []"
  by (subst dec_digits.simps) simp

lemma strto_dec:
  "strto m (dec_digits n) 10 = min m (int n)"
proof -
  obtain c s where d: "dec_digits n = c # s" using digits_ne [of n] by (cases "dec_digits n") auto
  then have c: "isdigit c" using dec_digits_isdigit [of n] by simp
  then have "dropWhile isspace (dec_digits n) = dec_digits n" "number_sign (dec_digits n) = (False, dec_digits n)"
    using digit_range [OF c] d by (simp_all add: number_sign_def head_def)
  then show ?thesis by (simp add: strto_def skip_0x_def digits_loop_dec)
qed

lemma string_to_number_dec:
  "string_to_number (dec_digits n) = (min (2 ^ 63 - 1) (int n), B_OK)"
  "string_to_number (45 # dec_digits n) = (to_int64 (- min (2 ^ 63 - 1) (int n)), B_OK)"
proof -
  obtain c s where d: "dec_digits n = c # s" using digits_ne [of n] by (cases "dec_digits n") auto
  then have c: "isdigit c" "\<forall>x \<in> set s. isdigit x" using dec_digits_isdigit [of n] by simp_all
  have x: "char_at (c # s) 1 \<noteq> 120" using c(2) digit_range by (cases s) (auto simp: char_at_def)
  have 0: "char_at (c # s) 0 = c" "char_at (45 # c # s) 0 = 45" by (simp_all add: char_at_def)
  have m: "\<not> isspace 45" by (simp add: isspace_def)
  have r: "48 \<le> c \<and> c \<le> 57" using c(1) by (simp add: isdigit_def)
  show "string_to_number (dec_digits n) = (min (2 ^ 63 - 1) (int n), B_OK)"
    using digit_range [OF c(1)] x r strto_dec [of "2 ^ 63 - 1" n]
    by (simp add: string_to_number_def 0 strtoll_def d)
  show "string_to_number (45 # dec_digits n) = (to_int64 (- min (2 ^ 63 - 1) (int n)), B_OK)"
    using digit_range [OF c(1)] x r strto_dec [of "2 ^ 63 - 1" n]
    by (simp add: string_to_number_def 0 strtoll_def d m)
qed

lemma string_to_number_dec_text:
  assumes "- (2 ^ 63) \<le> n" "n < 2 ^ 63"
  shows "string_to_number (dec_text n) = (if n = - (2 ^ 63) then - (2 ^ 63) + 1 else n, B_OK)"
  using assms string_to_number_dec(1) [of "nat n"] string_to_number_dec(2) [of "nat (- n)"]
  by (auto simp: dec_text_def min_def to_int_id)

lemma dec_text_no_null: "0 \<notin> set (dec_text n)"
proof -
  have "0 \<notin> set (dec_digits k)" for k using dec_digits_isdigit [of k] digit_range [of 0] by auto
  then show ?thesis by (simp add: dec_text_def)
qed

lemma get_text_SStr:
  "0 \<notin> set s \<Longrightarrow> get_text (SStr s) f val = Some (f s)"
proof -
  assume "0 \<notin> set s"
  then have "takeWhile (\<lambda>c. c \<noteq> 0) (s @ [0]) = s" by (subst takeWhile_append2) auto
  then show ?thesis by (simp add: get_text_def GetString_c_def SStr_def unpack_code raw_def c_text_def)
qed

lemma AsInt64_SStr: "0 \<notin> set s \<Longrightarrow> AsInt64 fp (SStr s) = Some (string_to_number s)"
  using get_text_SStr [of s string_to_number 0] by (simp add: AsInt64_def SStr_def unpack_code)

text \<open>
  C31. A 64-bit number printed by \<^verbatim>\<open>AsString\<close> and read back by \<^verbatim>\<open>AsInt64\<close> is the same number; only the least of all numbers comes back
  one larger, because the digits are read before the sign is applied and do not fit.
\<close>

theorem int64_text_round_trip:
  assumes "- (2 ^ 63) \<le> n" "n < 2 ^ 63"
  shows "\<exists>s. AsString fp mem (SInt64 n) = Some (s, B_OK) \<and>
    AsInt64 fp (SStr s) = Some (if n = - (2 ^ 63) then n + 1 else n, B_OK)"
proof (rule exI [of _ "dec_text n"])
  have "GetInt64 (SInt64 n) = Inr n"
    using assms by (simp add: GetInt64_def copy_big_data_def SInt64_def large_type_iff le_word64_bytes sint_word to_int_id)
      (simp add: le_bytes64_def)
  then have "AsString fp mem (SInt64 n) = Some (dec_text n, B_OK)"
    by (simp add: AsString_def SInt64_def unpack_code type_iffs get_ok_def Let_def) (simp add: code_words)
  then show "AsString fp mem (SInt64 n) = Some (dec_text n, B_OK) \<and>
      AsInt64 fp (SStr (dec_text n)) = Some (if n = - (2 ^ 63) then n + 1 else n, B_OK)"
    using assms by (simp add: AsInt64_SStr dec_text_no_null string_to_number_dec_text)
qed

theorem int64_text_round_trip_witness:
  "\<forall>(fp :: (unit, unit) fp_env) mem. \<exists>s. AsString fp mem (SInt64 (- 205)) = Some (s, B_OK) \<and>
    AsInt64 fp (SStr s) = Some (- 205, B_OK)"
proof (intro allI)
  fix fp :: "(unit, unit) fp_env" and mem
  show "\<exists>s. AsString fp mem (SInt64 (- 205)) = Some (s, B_OK) \<and> AsInt64 fp (SStr s) = Some (- 205, B_OK)"
    using int64_text_round_trip [of "- 205" fp mem] by simp
qed

section \<open>The conversions agree\<close>

lemma to_int32_small: "to_int32 (sint (b :: u8)) = sint b" "to_int32 (sint (w :: u16)) = sint w" "to_int32 (sint (x :: u32)) = sint x"
  using sint_range_size [of b] sint_range_size [of w] sint_range_size [of x]
  by (simp_all add: to_int_id word_size)

lemma map_get_ok:
  "map_option (\<lambda>(n, r). (f n, r)) (get_ok r g z) = get_ok r (\<lambda>x. f (g x)) (f z)"
  "map_option (\<lambda>(n, r). (f n, r)) (get_text v h z) = get_text v (\<lambda>s. case h s of (n, r) \<Rightarrow> (f n, r)) (f z)"
  by (auto simp: get_ok_def get_text_def split: sum.split)
    (simp add: option.map_comp comp_def)

lemma get_ok_cong: "(\<And>x. r = Inr x \<Longrightarrow> f x = g x) \<Longrightarrow> get_ok r f z = get_ok r g z"
  by (auto simp: get_ok_def split: sum.split)

lemma AsInt32_codes:
  "AsInt32 fp (SData B_STRING_TYPE bs) = get_text (SData B_STRING_TYPE bs) (\<lambda>ex. let (n, r) = string_to_number ex in (to_int32 n, r)) 0"
  "AsInt32 fp (SData B_INT64_TYPE bs) = get_ok (GetInt64 (SData B_INT64_TYPE bs)) to_int32 0"
  "AsInt32 fp (SData B_NSECS_TYPE bs) = get_ok (GetTime (SData B_NSECS_TYPE bs)) to_int32 0"
  "AsInt32 fp (SData B_INT16_TYPE bs) = get_ok (GetInt16 (SData B_INT16_TYPE bs)) id 0"
  "AsInt32 fp (SData B_INT8_TYPE bs) = get_ok (GetInt8 (SData B_INT8_TYPE bs)) id 0"
  "AsInt32 fp (SData B_BOOL_TYPE bs) = get_ok (GetBool (SData B_BOOL_TYPE bs)) (\<lambda>ex. if ex then 1 else 0) 0"
  "length bs = 4 \<Longrightarrow> AsInt32 fp (SData B_INT32_TYPE bs) = Some (le_int bs, B_OK)"
  "AsInt32 fp (SData B_NULL_TYPE []) = Some (0, B_OK)"
  by (simp add: AsInt32_def unpack_code type_iffs Let_def raw_def; simp add: code_words)+

lemma AsInt64_codes:
  "AsInt64 fp (SData B_STRING_TYPE bs) = get_text (SData B_STRING_TYPE bs) string_to_number 0"
  "AsInt64 fp (SData B_INT64_TYPE bs) = get_ok (GetInt64 (SData B_INT64_TYPE bs)) id 0"
  "AsInt64 fp (SData B_NSECS_TYPE bs) = get_ok (GetTime (SData B_NSECS_TYPE bs)) id 0"
  "AsInt64 fp (SData B_INT32_TYPE bs) = get_ok (GetInt32 (SData B_INT32_TYPE bs)) id 0"
  "AsInt64 fp (SData B_INT16_TYPE bs) = get_ok (GetInt16 (SData B_INT16_TYPE bs)) id 0"
  "AsInt64 fp (SData B_INT8_TYPE bs) = get_ok (GetInt8 (SData B_INT8_TYPE bs)) id 0"
  "AsInt64 fp (SData B_BOOL_TYPE bs) = get_ok (GetBool (SData B_BOOL_TYPE bs)) (\<lambda>ex. if ex then 1 else 0) 0"
  "AsInt64 fp (SData B_NULL_TYPE bs) = Some (0, B_OK)"
  by (simp add: AsInt64_def unpack_code type_iffs Let_def raw_def; simp add: code_words)+

definition convertible :: "u32 list" where
  "convertible = [B_STRING_TYPE, B_DOUBLE_TYPE, B_FLOAT_TYPE, B_INT64_TYPE, B_NSECS_TYPE, B_INT32_TYPE, B_INT16_TYPE,
    B_INT8_TYPE, B_BOOL_TYPE, B_NULL_TYPE]"

lemma other_codes:
  assumes "valid_code c" "c \<notin> set convertible"
  shows "AsInt32 fp (SData c bs) = Some (0, type_conversion_error (SData c bs))"
    "AsInt64 fp (SData c bs) = Some (0, type_conversion_error (SData c bs))"
  using assms by (simp_all add: AsInt32_def AsInt64_def unpack_code type_iffs Let_def convertible_def)

text \<open>No floating point number, and the length that the code of a 32-bit number or of null asks for.\<close>

definition scalar_ok :: "sval \<Rightarrow> bool" where
  "scalar_ok v \<longleftrightarrow>
    (Type_of v = B_INT32_TYPE \<longrightarrow> Length v = 4) \<and> (Type_of v = B_NULL_TYPE \<longrightarrow> Length v = 0) \<and>
    Type_of v \<noteq> B_DOUBLE_TYPE \<and> Type_of v \<noteq> B_FLOAT_TYPE"

lemma Length_data: "Length (SData c bs) = length bs"
proof -
  have "unat (of_nat n :: u32) = n" if "n \<le> 4" for n using that by (simp only: unat_of_nat) simp
  then show ?thesis
   by (simp add: Length_def unpack_length_data raw_def Let_def word_le_nat_alt del: unat_of_nat)
qed

lemma sval_scalar_cases:
  assumes "codes_ok v"
  obtains (other) "AsInt32 fp v = Some (0, type_conversion_error v)" "AsInt64 fp v = Some (0, type_conversion_error v)"
    | (data) c bs where "v = SData c bs" "c \<in> set convertible"
proof (cases v)
  case SUndefined
  then show ?thesis using other by (simp add: AsInt32_def AsInt64_def Let_def pack_defs code_words B_TYPE_CODE_MASK_def m_type.simps)
next
  case (SMap ps)
  then show ?thesis using other by (simp add: AsInt32_def AsInt64_def Let_def pack_defs code_words B_TYPE_CODE_MASK_def m_type.simps)
next
  case (SData c bs)
  then show ?thesis using other_codes [of c fp bs] other data assms by (cases "c \<in> set convertible") auto
qed

text \<open>
  For a value that is not a floating point number, and whose length fits its type when it is a 32-bit
  number or null, \<^verbatim>\<open>AsInt32\<close> gives what \<^verbatim>\<open>AsInt64\<close> gives, cut to 32 bits, and the same status: the fast paths and the two separate
  switches agree, also on text and on values that cannot be converted.
\<close>

lemma AsInt32_truncates:
  assumes "codes_ok v" "scalar_ok v"
  shows "AsInt32 fp v = map_option (\<lambda>(n, r). (to_int32 n, r)) (AsInt64 fp v)"
  using assms(1)
proof (cases rule: sval_scalar_cases [where fp = fp])
  case other
  then show ?thesis by (simp add: to_int_id)
next
  case (data c bs)
  have 0: "to_int32 0 = 0" "to_int32 1 = 1" by (simp_all add: to_int_id)
  have "c \<noteq> B_DOUBLE_TYPE" "c \<noteq> B_FLOAT_TYPE" "c = B_INT32_TYPE \<Longrightarrow> length bs = 4" "c = B_NULL_TYPE \<Longrightarrow> bs = []"
    using assms data(1) by (auto simp: scalar_ok_def Type_of_def unpack_code Length_data)
  then consider "c = B_STRING_TYPE" | "c = B_INT64_TYPE" | "c = B_NSECS_TYPE" | "c = B_INT32_TYPE" "length bs = 4"
    | "c = B_INT16_TYPE" | "c = B_INT8_TYPE" | "c = B_BOOL_TYPE" | "c = B_NULL_TYPE" "bs = []"
    using data(2) by (auto simp: convertible_def)
  then show ?thesis
  proof cases
    case 4
    then show ?thesis
      by (simp add: data AsInt32_codes AsInt64_codes get_ok_def GetInt32_def copy_small_data_def type_iffs le_int_def to_int32_small)
  next
    case 5
    then show ?thesis by (simp add: data AsInt32_codes AsInt64_codes map_get_ok 0) (rule get_ok_cong, auto simp: GetInt16_def to_int32_small map_sum_def split: sum.splits)
  next
    case 6
    then show ?thesis by (simp add: data AsInt32_codes AsInt64_codes map_get_ok 0) (rule get_ok_cong, auto simp: GetInt8_def to_int32_small map_sum_def split: sum.splits)
  next
    case 7
    then show ?thesis by (simp add: data AsInt32_codes AsInt64_codes map_get_ok 0) (rule get_ok_cong, simp add: 0)
  qed (simp_all add: data AsInt32_codes AsInt64_codes map_get_ok 0 Let_def)
qed
lemma AsInt32_truncates_example:
  "\<forall>fp :: (unit, unit) fp_env.
    AsInt32 fp (SStr [52, 50]) = map_option (\<lambda>(n, r). (to_int32 n, r)) (AsInt64 fp (SStr [52, 50]))"
  by (rule allI, rule AsInt32_truncates) (simp_all add: SStr_def scalar_ok_def Type_of_def unpack_code, simp add: code_words)

section \<open>Times in text\<close>

text \<open>A number with its unit, with white space before each, and the time it stands for.\<close>

fun time_part :: "bytes \<times> nat \<times> bytes \<times> bytes \<Rightarrow> bytes" where
  "time_part (a, n, b, u) = a @ dec_digits n @ b @ u"

fun part_ok :: "bytes \<times> nat \<times> bytes \<times> bytes \<Rightarrow> bool" where
  "part_ok (a, n, b, u) \<longleftrightarrow>
    list_all isspace a \<and> list_all isspace b \<and> list_all (\<lambda>c. \<not> isspace c \<and> \<not> isdigit c \<and> c \<noteq> 0) u \<and> u \<noteq> [] \<and> time_factor u \<noteq> 0"

fun part_time :: "bytes \<times> nat \<times> bytes \<times> bytes \<Rightarrow> int" where
  "part_time (a, n, b, u) = int n * time_factor u"

lemma time_factor_nonneg: "0 \<le> time_factor u"
  by (simp add: time_factor_def B_ONE_SECOND_def B_ONE_MILLISECOND_def B_ONE_MICROSECOND_def)

lemma not_digit_value: "\<not> isdigit c \<Longrightarrow> digit_value c = None \<or> (\<exists>d. digit_value c = Some d \<and> 10 \<le> d)"
  unfolding isdigit_def digit_value_def by (auto simp: word_le_def)

lemma digits_loop_stop: "t = [] \<or> \<not> isdigit (hd t) \<Longrightarrow> digits_loop 10 t acc = acc"
  using not_digit_value [of "hd t"] by (cases t) auto

lemma strto_digits_then:
  assumes "t = [] \<or> \<not> isdigit (hd t)"
  shows "strto m (dec_digits n @ t) 10 = min m (int n)"
proof -
  obtain c s where d: "dec_digits n = c # s" using digits_ne [of n] by (cases "dec_digits n") auto
  then have c: "isdigit c" using dec_digits_isdigit [of n] by simp
  then have "dropWhile isspace (dec_digits n @ t) = dec_digits n @ t" "number_sign (dec_digits n @ t) = (False, dec_digits n @ t)"
    using digit_range [OF c] d by (simp_all add: number_sign_def head_def)
  then show ?thesis
    using assms by (simp add: strto_def skip_0x_def digits_loop_append dec_digits_isdigit digits_loop_dec digits_loop_stop)
qed

lemma decode_time_part:
  assumes "part_ok (a, n, b, u)" "rest = [] \<or> isspace (hd rest) \<or> isdigit (hd rest)"
  shows "decode_time (time_part (a, n, b, u) @ rest) t =
    Some (rest, to_int64 (t + to_int64 (min (2 ^ 63 - 1) (int n) * time_factor u)))"
proof -
  obtain c s where d: "dec_digits n = c # s" using digits_ne [of n] by (cases "dec_digits n") auto
  have c: "isdigit c" "\<not> isspace c" using dec_digits_isdigit [of n] d digit_range [of c] by simp_all
  obtain x w where u: "u = x # w" "\<not> isspace x" "\<not> isdigit x" using assms(1) by (cases u) auto
  have bu: "\<not> isdigit (hd (b @ u @ rest))" "dropWhile isdigit (b @ u @ rest) = b @ u @ rest"
    using assms(1) u digit_range by (cases b; auto)+
  have num: "dropWhile isspace (time_part (a, n, b, u) @ rest) = dec_digits n @ b @ u @ rest"
    using assms(1) c d by (simp add: dropWhile_append2 list_all_iff)
  have unit: "dropWhile isdigit (dec_digits n @ b @ u @ rest) = b @ u @ rest"
    using dec_digits_isdigit [of n] bu(2) by (simp add: dropWhile_append2)
  have sp: "dropWhile isspace (b @ u @ rest) = u @ rest"
    using assms(1) u by (simp add: dropWhile_append2 list_all_iff)
  have word: "takeWhile (\<lambda>c. \<not> isspace c \<and> \<not> isdigit c) (u @ rest) = u"
    using assms by (cases rest) (auto simp: takeWhile_append2 list_all_iff)
  show ?thesis
    using assms(1) strto_digits_then [of "b @ u @ rest" "2 ^ 63 - 1" n] bu(1) digits_ne [of n]
    by (simp add: decode_time_def Let_def num unit sp word strtoll_def del: time_part.simps)
qed

lemma time_loop_parts:
  assumes "list_all part_ok ps" "0 \<le> t" "t + sum_list (map part_time ps) < 2 ^ 63"
  shows "time_loop (concat (map time_part ps)) t got = (t + sum_list (map part_time ps), got \<or> ps \<noteq> [])"
  using assms
proof (induction ps arbitrary: t got)
  case Nil
  then show ?case by (simp add: time_loop.simps decode_time_def)
next
  case (Cons p ps)
  obtain a n b u where p: "p = (a, n, b, u)" by (cases p)
  define rest where "rest = concat (map time_part ps)"
  have nn: "0 \<le> part_time q" for q by (cases q) (simp add: time_factor_nonneg)
  then have s: "0 \<le> sum_list (map part_time ps)" by (induction ps) (auto simp: add_nonneg_nonneg)
  have "rest = [] \<or> isspace (hd rest) \<or> isdigit (hd rest)"
  proof (cases ps)
    case (Cons q qs)
    obtain a' n' b' u' where q: "q = (a', n', b', u')" by (cases q)
    show ?thesis using Cons.prems(1) local.Cons q dec_digits_isdigit [of n'] digits_ne [of n']
      by (cases a'; cases "dec_digits n'") (auto simp: rest_def)
  qed (simp add: rest_def)
  then have d: "decode_time (time_part p @ rest) t = Some (rest, to_int64 (t + to_int64 (min (2 ^ 63 - 1) (int n) * time_factor u)))"
    using decode_time_part [of a n b u rest t] Cons.prems(1) p by simp
  have f: "1 \<le> time_factor u" using Cons.prems(1) p time_factor_nonneg [of u] by simp
  have pt: "int n * time_factor u < 2 ^ 63" "t + int n * time_factor u < 2 ^ 63"
    using Cons.prems s p by simp_all
  then have "int n < 2 ^ 63" using mult_left_mono [OF f, of "int n"] by simp
  then have "to_int64 (t + to_int64 (min (2 ^ 63 - 1) (int n) * time_factor u)) = t + part_time p"
    using pt Cons.prems(2) p nn [of p] by (simp add: to_int_id)
  then show ?case
    using d Cons.IH [of "t + part_time p" True] Cons.prems nn [of p] p
    by (subst time_loop.simps) (simp add: rest_def [symmetric] add.assoc)
qed

text \<open>
  A text of numbers with units, such as \<^verbatim>\<open>2h 15 m\<close>, with white space where one likes, is converted by
  \<^verbatim>\<open>AsTime\<close> to the sum of its parts in nanoseconds, as long as the sum is a number of 64 bits.
\<close>

lemma time_text_adds_up:
  assumes "list_all part_ok ps" "ps \<noteq> []" "sum_list (map part_time ps) < 2 ^ 63"
  shows "AsTime fp (SStr (concat (map time_part ps))) = Some (sum_list (map part_time ps), B_OK)"
proof -
  have "0 \<notin> set (time_part p)" if "p \<in> set ps" for p
  proof (cases p)
    case (fields a n b u)
    moreover have "part_ok p" using that assms(1) by (simp add: list_all_iff)
    ultimately show ?thesis using dec_digits_isdigit [of n] digit_range [of 0] by (auto simp: list_all_iff)
  qed
  then have "0 \<notin> set (concat (map time_part ps))" by auto
  then have "get_text (SStr (concat (map time_part ps))) f 0 = Some (f (concat (map time_part ps)))"
    for f :: "bytes \<Rightarrow> int \<times> int" by (rule get_text_SStr)
  then show ?thesis
    using time_loop_parts [of ps 0 False] assms by (simp add: AsTime_def SStr_def unpack_code Let_def)
qed

lemma time_text_adds_up_example:
  "\<forall>fp :: (unit, unit) fp_env. AsTime fp (SStr [50, 104, 32, 49, 53, 32, 109]) = Some (8100000000000, B_OK)"
proof
  fix fp :: "(unit, unit) fp_env"
  show "AsTime fp (SStr [50, 104, 32, 49, 53, 32, 109]) = Some (8100000000000, B_OK)"
    using time_text_adds_up [of "[([], 2, [], [104]), ([32], 15, [32], [109])]" fp]
    by (simp add: dec_digits.simps isspace_def isdigit_def time_factor_def B_ONE_SECOND_def B_ONE_MILLISECOND_def B_ONE_MICROSECOND_def)
qed

text \<open>
  The code tests for a length of four twice, so that the names of three letters and the second group of names are not
  recognised, while any four letters that begin with \<^verbatim>\<open>day\<close> are.
\<close>

lemma unit_names:
  "time_factor [100, 97, 121] = 0" "time_factor [109, 105, 110] = 0" "time_factor [115, 101, 99] = 0"
  "time_factor [104, 111, 117, 114] = 0" "time_factor [109, 115, 101, 99] = 0"
  "time_factor [100, 97, 121, 33] = B_ONE_SECOND * 60 * 60 * 24"
  by (simp_all add: time_factor_def)

section \<open>Editing in place\<close>

lemma length_resized [simp]: "length (resized fresh bs n) = n"
  by (simp add: resized_def)

lemma take_resized: "k \<le> length bs \<Longrightarrow> k \<le> n \<Longrightarrow> take k (resized fresh bs n) = take k bs"
  by (rule nth_equalityI) (simp_all add: resized_def)

lemma resized_shorter: "n \<le> length bs \<Longrightarrow> resized fresh bs n = take n bs"
  using take_resized [of n bs n fresh] by simp

lemma raw_data [simp]: "raw (SData c bs) = bs"
  by (simp add: raw_def)

lemma edit_data_data:
  assumes "valid_code c" "\<not> is_error (SData c bs)"
  shows "edit_data mem fresh (SData c bs) n =
    (if n \<le> 4 \<or> mem n then (SData c (resized fresh bs n), True) else (SErr B_NO_MEMORY, False))"
proof -
  have "\<not> B_UNPACK_TYPE_LENGTH (m_type (SData c bs)) \<le> 4 \<longrightarrow> B_UNPACK_TYPE_LENGTH (m_type (SData c bs)) = 5"
    using unpack_length_data [of c bs] Length_data [of c bs] by (auto simp: Length_def Let_def split: if_splits)
  then show ?thesis
    using assms by (auto simp: edit_data_def Let_def unpack_code set_error_def B_OK_def)
qed

lemma EndEditBytes_data:
  assumes "valid_code c" "\<not> is_error (SData c bs)" "n \<le> length bs" "n \<le> 4 \<or> mem n"
  shows "EndEditBytes mem fresh (SData c bs) (int n) = (SData c (take n bs), B_OK)"
  using assms by (auto simp: EndEditBytes_def Length_data edit_data_data resized_shorter)

definition plain_data :: "sval \<Rightarrow> bool" where
  "plain_data v \<longleftrightarrow> is_simple v \<and> \<not> is_error v \<and> \<not> is_object v \<and> codes_ok v"

lemma BeginEditBytes_ok:
  assumes "plain_data v" "\<not> small_object type" "n \<le> 4 \<or> mem n"
  shows "\<exists>bs. BeginEditBytes mem fresh v type n edit = (SData type bs, True) \<and> length bs = n \<and>
    (edit \<longrightarrow> take (Length v) bs = take n (raw v))"
proof (cases v)
  case SUndefined
  then show ?thesis using assms
    by (auto simp: BeginEditBytes_def plain_data_def is_object_def small_object_def edit_data_def Let_def m_type.simps B_UNPACK_TYPE_LENGTH_def raw_def Length_def)
next
  case (SData c bs)
  have "take (length bs) (resized fresh bs n) = take n bs"
    by (cases "n \<le> length bs") (simp_all add: resized_shorter take_resized)
  then show ?thesis using assms SData
    by (auto simp: BeginEditBytes_def plain_data_def is_object_def small_object_def edit_data_data Length_data)
next
  case (SMap ps)
  then show ?thesis using assms by (simp add: plain_data_def is_simple_iff)
qed

lemma valid_not_object:
  assumes "valid_code type"
  shows "\<not> small_object type"
proof
  assume "small_object type"
  then have "bit (type AND (7 OR 0x00007f00)) 2" by (simp add: small_object_def bit_simps)
  moreover have "\<not> bit (type AND NOT B_TYPE_CODE_MASK) 2" using assms by (simp add: valid_code_def)
  ultimately show False by (simp add: bit_simps B_TYPE_CODE_MASK_def)
qed

lemma valid_not_error:
  assumes "valid_code type" "type \<noteq> B_ERROR_TYPE"
  shows "\<not> is_error (SData type bs)"
  using assms unpack_code [of type bs] by (auto simp: is_error_def pack_defs type_code_defs)

text \<open>
  C32. An edit of the bytes of a value: on a value that is neither a map nor an error nor an object, \<^verbatim>\<open>BeginEditBytes\<close>
  gives room for the bytes asked for, of the new type and with the old bytes in it when asked to keep them; after
  the caller has written them, \<^verbatim>\<open>EndEditBytes\<close> with a final length leaves exactly the bytes written up to it, inside the value
  or in a buffer, whatever the two lengths are.
\<close>

theorem edit_bytes_session:
  assumes "plain_data v" "valid_code type" "type \<noteq> B_ERROR_TYPE" "n \<le> 4 \<or> mem n" "k \<le> n" "k \<le> 4 \<or> mem k"
  shows "\<exists>bs. BeginEditBytes mem fresh v type n edit = (SData type bs, True) \<and> length bs = n \<and>
    (edit \<longrightarrow> take (Length v) bs = take n (raw v)) \<and>
    (\<forall>written. length written = n \<longrightarrow>
       EndEditBytes mem fresh (SData type written) (int k) = (SData type (take k written), B_OK))"
proof -
  have "\<not> is_error (SData type written)" for written
    using assms(2,3) valid_not_error by blast
  then show ?thesis
    using BeginEditBytes_ok [of v type n mem fresh edit] valid_not_object [OF assms(2)] assms(1,4)
      EndEditBytes_data [OF assms(2), of _ k mem fresh] assms(5,6) by auto
qed

theorem edit_bytes_session_witness:
  "\<exists>bs. BeginEditBytes (\<lambda>_. True) (\<lambda>_. 7) (SStr [97]) B_STRING_TYPE 6 True = (SData B_STRING_TYPE bs, True) \<and>
    take 2 bs = [97, 0] \<and>
    EndEditBytes (\<lambda>_. True) (\<lambda>_. 7) (SData B_STRING_TYPE [97, 98, 99, 100, 0, 0]) 5 =
      (SData B_STRING_TYPE [97, 98, 99, 100, 0], B_OK)"
proof -
  have "plain_data (SStr [97])"
    by (simp add: plain_data_def SStr_def is_simple_iff is_error_def is_object_def m_type.simps) (simp add: pack_defs code_words B_TYPE_CODE_MASK_def)
  moreover have "B_STRING_TYPE \<noteq> B_ERROR_TYPE" by (simp add: type_code_defs)
  ultimately obtain bs where
    "BeginEditBytes (\<lambda>_. True) (\<lambda>_. 7) (SStr [97]) B_STRING_TYPE 6 True = (SData B_STRING_TYPE bs, True)"
    "take 2 bs = [97, 0]" "\<forall>written. length written = 6 \<longrightarrow>
       EndEditBytes (\<lambda>_. True) (\<lambda>_. 7) (SData B_STRING_TYPE written) 5 = (SData B_STRING_TYPE (take 5 written), B_OK)"
    using edit_bytes_session [of "SStr [97]" B_STRING_TYPE 6 "\<lambda>_. True" 5 "\<lambda>_. 7" True]
    by (auto simp: SStr_def Length_data numeral_2_eq_2)
  then show ?thesis by auto
qed

text \<open>
  Both functions refuse to make an object out of plain bytes, but test the code, not the type word: the test never
  fails for a legal code, and a number becomes a pointer.
\<close>

lemma SetType_forges_object:
  "SetType (SInt32 n) B_BINDER_TYPE = (SData B_BINDER_TYPE (le_bytes (word_of_int n)), B_OK)"
  "is_object (SData B_BINDER_TYPE (le_bytes (word_of_int n)))"
  by (simp_all add: SetType_def SInt32_def small_object_def is_object_def more_code_defs type_code_defs m_type.simps pack_defs is_simple_iff)

section \<open>Null pointers\<close>

text \<open>
  A null value is meant to convert to a null binder, but it is no object and the test for it comes too late; a null weak
  atom is read through its null pointer.
\<close>

lemma null_binder: "AsBinder obs SNull = Some (0, B_BAD_TYPE)"
  by (simp add: AsBinder_def SNull_def is_object_def type_conversion_error_def StatusCheck_def ErrorCheck_def is_error_def
      m_type.simps Let_def pack_defs type_code_defs status_defs)

lemma null_weak_atom: "GetWeakAtom obs (SData B_ATOM_WEAK_TYPE [0, 0, 0, 0]) = None"
  by (simp add: GetWeakAtom_def copy_small_data_def m_type.simps Let_def le_word_def)

end
