(* ===== verification/Atoms.thy ===== *)
theory Atoms
  imports OB_Prelude "HOL-Library.Monad_Syntax"
begin

text \<open>
  Reference counted objects, \<^verbatim>\<open>src/libraries/libbinder/support/Atom.cpp\<close>: the strong and weak counts of \<^verbatim>\<open>SAtom\<close>, the life of
  an object from its allocation over \<open>InitAtom\<close>, \<open>FinishAtom\<close> and the destructor to the release of its memory, weak
  pointers with their own count, and \<^verbatim>\<open>SLightAtom\<close>. Here each function runs without interruption; \<open>Atom_Threads\<close> takes them
  apart into their atomic steps. The virtual functions of a class are its record \<open>atom_class\<close>. \<open>None\<close> means that the
  code stops with a fatal error or touches memory that has been released. The release build
  without atom debugging is modelled, so that \<open>lock_atom\<close> and the records of references are empty.
\<close>

section \<open>Atoms and their classes\<close>

definition INITIAL_PRIMARY_VALUE :: int where "INITIAL_PRIMARY_VALUE = 2 ^ 28"
definition B_NOT_ALLOWED :: int where "B_NOT_ALLOWED = sys_err 5"
definition FINISH_ATOM_ASYNC :: int where "FINISH_ATOM_ASYNC = 1"

text \<open>What the virtual functions return, and the size of the objects of the class.\<close>

record atom_class =
  FinishAtom :: int
  IncStrongAttempted :: "bool \<Rightarrow> int"
  DeleteAtom :: int
  object_size :: nat

text \<open>The functions of \<^verbatim>\<open>SAtom\<close> itself; the flag is \<^verbatim>\<open>B_ATOM_FIRST_STRONG\<close>.\<close>

definition SAtom_class :: "nat \<Rightarrow> atom_class" where
  "SAtom_class n =
    \<lparr>FinishAtom = B_OK, IncStrongAttempted = (\<lambda>first. if first then B_OK else B_NOT_ALLOWED), DeleteAtom = B_OK, object_size = n\<rparr>"

text \<open>
  The block in front of an object (\<^verbatim>\<open>base_data\<close>) with, in addition, what has happened to the object: how often \<open>InitAtom\<close>
  and the destructor have run, whether it waits for its asynchronous destructor, and whether its memory has been
  released.
\<close>

record atom =
  strongCount :: int
  weakCount :: int
  cached_size :: nat
  inits :: nat
  destroyed :: nat
  waiting :: nat
  freed :: bool

definition new_atom :: atom where
  "new_atom = \<lparr>strongCount = INITIAL_PRIMARY_VALUE, weakCount = 0, cached_size = 0, inits = 0, destroyed = 0, waiting = 0, freed = False\<rparr>"

section \<open>Destruction\<close>

text \<open>\<^verbatim>\<open>delete_impl\<close>, and \<^verbatim>\<open>delete this\<close>: the destructor, then \<^verbatim>\<open>operator delete\<close>.\<close>

definition delete_impl :: "atom_class \<Rightarrow> atom \<Rightarrow> atom option" where
  "delete_impl C a =
    (if weakCount a = 0 then Some (a\<lparr>freed := True\<rparr>)
     else if strongCount a \<noteq> 0 \<and> strongCount a \<noteq> INITIAL_PRIMARY_VALUE then None
     else Some (a\<lparr>cached_size := object_size C\<rparr>))"

definition delete_this :: "atom_class \<Rightarrow> atom \<Rightarrow> atom option" where
  "delete_this C a = (if freed a then None else delete_impl C (a\<lparr>destroyed := destroyed a + 1\<rparr>))"

definition destructor_impl :: "atom \<Rightarrow> atom option" where
  "destructor_impl a = (if weakCount a \<noteq> 0 then None else Some a)"

text \<open>What happens when the last weak reference is gone.\<close>

definition last_weak :: "atom_class \<Rightarrow> atom \<Rightarrow> atom option" where
  "last_weak C a =
    (if cached_size a > 0 then map_option (\<lambda>a. a\<lparr>freed := True\<rparr>) (destructor_impl a)
     else if DeleteAtom C = B_OK then delete_this C a
     else Some a)"

section \<open>Weak references\<close>

definition IncWeak :: "atom \<Rightarrow> (atom \<times> int) option" where
  "IncWeak a = (if freed a then None else Some (a\<lparr>weakCount := weakCount a + 1\<rparr>, weakCount a))"

definition DecWeak :: "atom_class \<Rightarrow> atom \<Rightarrow> (atom \<times> int) option" where
  "DecWeak C a =
    (if freed a then None
     else
       let r = weakCount a; a = a\<lparr>weakCount := r - 1\<rparr> in
       if r = 1 then map_option (\<lambda>a. (a, r)) (last_weak C a)
       else if r < 1 then None
       else Some (a, r))"

definition IncWeakFast :: "atom \<Rightarrow> atom option" where
  "IncWeakFast a = (if freed a then None else Some (a\<lparr>weakCount := weakCount a + 1\<rparr>))"

definition DecWeakFast :: "atom_class \<Rightarrow> atom \<Rightarrow> atom option" where
  "DecWeakFast C a =
    (if freed a then None
     else
       let r = weakCount a; a = a\<lparr>weakCount := r - 1\<rparr> in
       if r \<noteq> 1 then Some a else last_weak C a)"

definition AttemptIncWeak :: "atom \<Rightarrow> (atom \<times> bool) option" where
  "AttemptIncWeak a =
    (if freed a then None
     else if weakCount a > 0 then Some (a\<lparr>weakCount := weakCount a + 1\<rparr>, True)
     else Some (a, False))"

definition AttemptIncWeakFast :: "atom \<Rightarrow> (atom \<times> bool) option" where
  "AttemptIncWeakFast a =
    (if freed a then None
     else if weakCount a > 0 then Some (a\<lparr>weakCount := weakCount a + 1\<rparr>, True)
     else Some (a, False))"

section \<open>Strong references\<close>

text \<open>The atomic increment of the strong count, with its reset when it was the first.\<close>

definition inc_strong_count :: "atom \<Rightarrow> atom \<times> int" where
  "inc_strong_count a =
    (let r = strongCount a; a = a\<lparr>strongCount := r + 1\<rparr> in
     (if r = INITIAL_PRIMARY_VALUE then a\<lparr>strongCount := strongCount a - INITIAL_PRIMARY_VALUE\<rparr> else a, r))"

definition IncStrong :: "atom \<Rightarrow> (atom \<times> int) option" where
  "IncStrong a = do {
     (a, _) \<leftarrow> IncWeak a;
     let (a, r) = inc_strong_count a;
     if r = 0 then None
     else if r = INITIAL_PRIMARY_VALUE then Some (a\<lparr>inits := inits a + 1\<rparr>, r - INITIAL_PRIMARY_VALUE)
     else Some (a, r)
   }"

text \<open>
  The end of a strong reference: \<open>FinishAtom\<close> and the destructor. The flag says that the destructor is left to another
  thread, which then also gives up the weak reference.
\<close>

definition finish :: "atom_class \<Rightarrow> atom \<Rightarrow> (atom \<times> bool) option" where
  "finish C a =
    (if FinishAtom C = FINISH_ATOM_ASYNC then Some (a\<lparr>waiting := waiting a + 1\<rparr>, True)
     else if FinishAtom C = B_OK then map_option (\<lambda>a. (a, False)) (delete_this C a)
     else Some (a, False))"

definition DecStrong :: "atom_class \<Rightarrow> atom \<Rightarrow> (atom \<times> int) option" where
  "DecStrong C a =
    (if freed a then None
     else
       let r = strongCount a; a = a\<lparr>strongCount := r - 1\<rparr> in
       if r < 1 then None
       else do {
         (a, async) \<leftarrow> (if r = 1 then finish C a else Some (a, False));
         if async then Some (a, r)
         else map_option (\<lambda>(a, _). (a, r)) (DecWeak C a)
       })"

definition do_async_destructor :: "atom_class \<Rightarrow> atom \<Rightarrow> atom option" where
  "do_async_destructor C a = do {
     a \<leftarrow> delete_this C (a\<lparr>waiting := waiting a - 1\<rparr>);
     map_option fst (DecWeak C a)
   }"

definition IncStrongFast :: "atom \<Rightarrow> atom option" where
  "IncStrongFast a = do {
     a \<leftarrow> IncWeakFast a;
     let (a, r) = inc_strong_count a;
     if r \<noteq> INITIAL_PRIMARY_VALUE then Some a else Some (a\<lparr>inits := inits a + 1\<rparr>)
   }"

definition DecStrongFast :: "atom_class \<Rightarrow> atom \<Rightarrow> atom option" where
  "DecStrongFast C a =
    (if freed a then None
     else
       let r = strongCount a; a = a\<lparr>strongCount := r - 1\<rparr> in
       if r = 1 then do {
         (a, async) \<leftarrow> finish C a;
         if async then Some a else DecWeakFast C a
       }
       else DecWeakFast C a)"

text \<open>\<^verbatim>\<open>attempt_inc_strong\<close>; without other threads the first exchange of its loop succeeds.\<close>

definition attempt_inc_strong :: "atom_class \<Rightarrow> atom \<Rightarrow> bool \<Rightarrow> (atom \<times> bool) option" where
  "attempt_inc_strong C a useid = do {
     a \<leftarrow> (if useid then map_option fst (IncWeak a) else IncWeakFast a);
     let current = strongCount a;
     if current > 0 \<and> current < INITIAL_PRIMARY_VALUE then Some (a\<lparr>strongCount := current + 1\<rparr>, True)
     else if current \<le> 0 \<or> current = INITIAL_PRIMARY_VALUE then
       (if cached_size a > 0 \<or> IncStrongAttempted C (current = INITIAL_PRIMARY_VALUE) < B_OK then
          map_option (\<lambda>a. (a, False)) (if useid then map_option fst (DecWeak C a) else DecWeakFast C a)
        else
          let (a, current) = inc_strong_count a in
          if current > 0 \<and> current < INITIAL_PRIMARY_VALUE \<and> FinishAtom C = B_OK then None
          else if current = INITIAL_PRIMARY_VALUE then Some (a\<lparr>inits := inits a + 1\<rparr>, True)
          else Some (a, True))
     else Some (a, True)
   }"

definition AttemptIncStrong :: "atom_class \<Rightarrow> atom \<Rightarrow> (atom \<times> bool) option" where
  "AttemptIncStrong C a = attempt_inc_strong C a True"

definition AttemptIncStrongFast :: "atom_class \<Rightarrow> atom \<Rightarrow> (atom \<times> bool) option" where
  "AttemptIncStrongFast C a = attempt_inc_strong C a False"

definition AttemptDecStrong :: "atom_class \<Rightarrow> atom \<Rightarrow> (atom \<times> bool) option" where
  "AttemptDecStrong C a =
    (if freed a then None
     else
       let r = strongCount a in
       if r > 0 then
         let a = a\<lparr>strongCount := r - 1\<rparr> in do {
           (a, async) \<leftarrow> (if r = 1 then finish C a else Some (a, False));
           if async then Some (a, True)
           else map_option (\<lambda>(a, _). (a, True)) (DecWeak C a)
         }
       else Some (a, False))"

definition ForceIncStrong :: "atom \<Rightarrow> (atom \<times> int) option" where
  "ForceIncStrong a = do {
     (a, rw) \<leftarrow> IncWeak a;
     if rw \<le> 0 then None
     else
       let (a, r) = inc_strong_count a in
       if r = INITIAL_PRIMARY_VALUE \<or> r = 0 then Some (a\<lparr>inits := inits a + 1\<rparr>, r - INITIAL_PRIMARY_VALUE)
       else Some (a, r)
   }"

definition ForceIncStrongFast :: "atom \<Rightarrow> atom option" where
  "ForceIncStrongFast a = do {
     a \<leftarrow> IncWeakFast a;
     let (a, r) = inc_strong_count a;
     if r = INITIAL_PRIMARY_VALUE then Some (a\<lparr>inits := inits a + 1\<rparr>)
     else if r = 0 then Some (a\<lparr>inits := inits a + 1\<rparr>)
     else Some a
   }"

section \<open>Counts\<close>

definition StrongCount :: "atom \<Rightarrow> int" where
  "StrongCount a = (let r = strongCount a in if r < INITIAL_PRIMARY_VALUE then r else r - INITIAL_PRIMARY_VALUE)"

definition WeakCount :: "atom \<Rightarrow> int" where "WeakCount a = weakCount a"
definition HasStrongPointers :: "atom \<Rightarrow> bool" where "HasStrongPointers a \<longleftrightarrow> StrongCount a > 0"
definition HasManyStrongPointers :: "atom \<Rightarrow> bool" where "HasManyStrongPointers a \<longleftrightarrow> StrongCount a > 1"
definition HasWeakPointers :: "atom \<Rightarrow> bool" where "HasWeakPointers a \<longleftrightarrow> WeakCount a > 0"
definition HasManyWeakPointers :: "atom \<Rightarrow> bool" where "HasManyWeakPointers a \<longleftrightarrow> WeakCount a > 1"

section \<open>Weak pointers\<close>

text \<open>A \<^verbatim>\<open>weak_atom_ptr\<close> on an atom: its count, and whether it has been released itself.\<close>

record weak_ptr =
  ref_count :: int
  gone :: bool

definition CreateWeak :: weak_ptr where "CreateWeak = \<lparr>ref_count = 0, gone = False\<rparr>"

definition Weak_Increment :: "weak_ptr \<Rightarrow> atom \<Rightarrow> (weak_ptr \<times> atom) option" where
  "Weak_Increment w a =
    (if gone w then None
     else
       let r = ref_count w; w = w\<lparr>ref_count := r + 1\<rparr> in
       if r = 0 then map_option (Pair w) (IncWeakFast a) else Some (w, a))"

definition Weak_Decrement :: "atom_class \<Rightarrow> weak_ptr \<Rightarrow> atom \<Rightarrow> (weak_ptr \<times> atom) option" where
  "Weak_Decrement C w a =
    (if gone w then None
     else
       let r = ref_count w; w = w\<lparr>ref_count := r - 1\<rparr> in
       if r = 1 then map_option (Pair (w\<lparr>gone := True\<rparr>)) (DecWeakFast C a) else Some (w, a))"

section \<open>Light atoms\<close>

text \<open>\<^verbatim>\<open>SLightAtom\<close> has a strong count only; the functions for constant objects call the others.\<close>

record light_atom =
  m_strongCount :: int
  light_inits :: nat
  deleted :: bool

definition new_light :: light_atom where
  "new_light = \<lparr>m_strongCount = INITIAL_PRIMARY_VALUE, light_inits = 0, deleted = False\<rparr>"

definition Light_IncStrong :: "light_atom \<Rightarrow> (light_atom \<times> int) option" where
  "Light_IncStrong a =
    (if deleted a then None
     else
       let r = m_strongCount a; a = a\<lparr>m_strongCount := r + 1\<rparr>;
           a = (if r = INITIAL_PRIMARY_VALUE then a\<lparr>m_strongCount := m_strongCount a - INITIAL_PRIMARY_VALUE\<rparr> else a) in
       if r = 0 then None
       else if r = INITIAL_PRIMARY_VALUE then Some (a\<lparr>light_inits := light_inits a + 1\<rparr>, r - INITIAL_PRIMARY_VALUE)
       else Some (a, r))"

definition Light_DecStrong :: "light_atom \<Rightarrow> (light_atom \<times> int) option" where
  "Light_DecStrong a =
    (if deleted a then None
     else
       let r = m_strongCount a; a = a\<lparr>m_strongCount := r - 1\<rparr> in
       if r = 1 then Some (a\<lparr>deleted := True\<rparr>, r)
       else if r < 1 then None
       else Some (a, r))"

definition Light_IncStrongFast :: "light_atom \<Rightarrow> light_atom option" where
  "Light_IncStrongFast a =
    (if deleted a then None
     else if m_strongCount a = INITIAL_PRIMARY_VALUE then
       Some (a\<lparr>m_strongCount := m_strongCount a + 1 - INITIAL_PRIMARY_VALUE, light_inits := light_inits a + 1\<rparr>)
     else Some (a\<lparr>m_strongCount := m_strongCount a + 1\<rparr>))"

definition Light_DecStrongFast :: "light_atom \<Rightarrow> light_atom option" where
  "Light_DecStrongFast a =
    (if deleted a then None
     else if m_strongCount a = 1 then Some (a\<lparr>m_strongCount := 0, deleted := True\<rparr>)
     else Some (a\<lparr>m_strongCount := m_strongCount a - 1\<rparr>))"

definition Light_StrongCount :: "light_atom \<Rightarrow> int" where
  "Light_StrongCount a =
    (let r = m_strongCount a in if r < INITIAL_PRIMARY_VALUE then r else r - INITIAL_PRIMARY_VALUE)"

definition Light_HasManyStrongPointers :: "light_atom \<Rightarrow> bool" where
  "Light_HasManyStrongPointers a \<longleftrightarrow> Light_StrongCount a > 1"

section \<open>The contract of the counts\<close>

text \<open>
  What a client sees: the references it holds and whether there ever was one, strong or of any kind. A client acts on an object only through a
  reference, or when it has just made it.
\<close>

record refs =
  strongs :: nat
  weaks :: nat
  ever_strong :: bool
  ever_used :: bool

datatype ref_op = OpIncStrong | OpDecStrong | OpIncWeak | OpDecWeak | OpAttempt

fun legal :: "refs \<Rightarrow> ref_op \<Rightarrow> bool" where
  "legal s OpIncStrong \<longleftrightarrow> strongs s > 0 \<or> \<not> ever_used s"
| "legal s OpDecStrong \<longleftrightarrow> strongs s > 0"
| "legal s OpIncWeak \<longleftrightarrow> strongs s + weaks s > 0 \<or> \<not> ever_used s"
| "legal s OpDecWeak \<longleftrightarrow> weaks s > 0"
| "legal s OpAttempt \<longleftrightarrow> strongs s + weaks s > 0"

text \<open>The references after an operation; an attempt succeeds as long as the last strong reference has not gone.\<close>

fun spec :: "refs \<Rightarrow> ref_op \<Rightarrow> refs" where
  "spec s OpIncStrong = s\<lparr>strongs := strongs s + 1, ever_strong := True, ever_used := True\<rparr>"
| "spec s OpDecStrong = s\<lparr>strongs := strongs s - 1\<rparr>"
| "spec s OpIncWeak = s\<lparr>weaks := weaks s + 1, ever_used := True\<rparr>"
| "spec s OpDecWeak = s\<lparr>weaks := weaks s - 1\<rparr>"
| "spec s OpAttempt =
    (if ever_strong s \<and> strongs s = 0 then s else s\<lparr>strongs := strongs s + 1, ever_strong := True\<rparr>)"

fun run_op :: "atom_class \<Rightarrow> atom \<Rightarrow> ref_op \<Rightarrow> atom option" where
  "run_op C a OpIncStrong = map_option fst (IncStrong a)"
| "run_op C a OpDecStrong = map_option fst (DecStrong C a)"
| "run_op C a OpIncWeak = map_option fst (IncWeak a)"
| "run_op C a OpDecWeak = map_option fst (DecWeak C a)"
| "run_op C a OpAttempt = map_option fst (AttemptIncStrong C a)"

fun run_fast :: "atom_class \<Rightarrow> atom \<Rightarrow> ref_op \<Rightarrow> atom option" where
  "run_fast C a OpIncStrong = IncStrongFast a"
| "run_fast C a OpDecStrong = DecStrongFast C a"
| "run_fast C a OpIncWeak = IncWeakFast a"
| "run_fast C a OpDecWeak = DecWeakFast C a"
| "run_fast C a OpAttempt = map_option fst (AttemptIncStrongFast C a)"

text \<open>
  How an atom of the class \<^verbatim>\<open>SAtom\<close> shows the references: the counts, one initialization, one destruction when the last
  strong reference is gone or the object is given up without any, and the release of the memory with the last
  reference of all.
\<close>

definition shows_refs :: "nat \<Rightarrow> atom \<Rightarrow> refs \<Rightarrow> bool" where
  "shows_refs n a s \<longleftrightarrow>
    strongCount a = (if ever_strong s then int (strongs s) else INITIAL_PRIMARY_VALUE) \<and>
    weakCount a = int (strongs s + weaks s) \<and>
    inits a = (if ever_strong s then 1 else 0) \<and>
    freed a = (ever_used s \<and> strongs s + weaks s = 0) \<and>
    destroyed a = (if ever_strong s \<and> strongs s = 0 \<or> freed a then 1 else 0) \<and>
    (\<not> freed a \<longrightarrow> cached_size a = (if ever_strong s \<and> strongs s = 0 then n else 0)) \<and>
    waiting a = 0 \<and> (ever_strong s \<longrightarrow> ever_used s) \<and> (\<not> ever_strong s \<longrightarrow> strongs s = 0) \<and> (\<not> ever_used s \<longrightarrow> weaks s = 0) \<and>
    int (strongs s + weaks s) < INITIAL_PRIMARY_VALUE"

section \<open>The counts implement the contract\<close>

lemmas count_defs = IncStrong_def DecStrong_def IncWeak_def DecWeak_def AttemptIncStrong_def attempt_inc_strong_def
  IncStrongFast_def DecStrongFast_def IncWeakFast_def DecWeakFast_def AttemptIncStrongFast_def
  inc_strong_count_def finish_def delete_this_def delete_impl_def last_weak_def destructor_impl_def SAtom_class_def
  FINISH_ATOM_ASYNC_def INITIAL_PRIMARY_VALUE_def B_OK_def B_NOT_ALLOWED_def sys_err_def

lemma run_op_ok:
  assumes "shows_refs n a s" "legal s opn" "n > 0" "int (strongs s + weaks s) + 1 < INITIAL_PRIMARY_VALUE"
  shows "\<exists>a'. run_op (SAtom_class n) a opn = Some a' \<and> run_fast (SAtom_class n) a opn = Some a' \<and> shows_refs n a' (spec s opn)"
proof (cases opn)
  case OpIncStrong
  then show ?thesis using assms by (auto simp: shows_refs_def count_defs Let_def)
next
  case OpDecStrong
  then show ?thesis using assms by (auto simp: shows_refs_def count_defs Let_def)
next
  case OpIncWeak
  then show ?thesis using assms by (auto simp: shows_refs_def count_defs Let_def)
next
  case OpDecWeak
  then show ?thesis using assms by (auto simp: shows_refs_def count_defs Let_def)
next
  case OpAttempt
  then show ?thesis using assms by (auto simp: shows_refs_def count_defs Let_def)
qed

definition no_refs :: refs where
  "no_refs = \<lparr>strongs = 0, weaks = 0, ever_strong = False, ever_used = False\<rparr>"

fun legal_run :: "refs \<Rightarrow> ref_op list \<Rightarrow> bool" where
  "legal_run s [] \<longleftrightarrow> True"
| "legal_run s (op # ops) \<longleftrightarrow> legal s op \<and> legal_run (spec s op) ops"

fun run_ops :: "('a \<Rightarrow> ref_op \<Rightarrow> 'a option) \<Rightarrow> 'a \<Rightarrow> ref_op list \<Rightarrow> 'a option" where
  "run_ops f a [] = Some a"
| "run_ops f a (op # ops) = Option.bind (f a op) (\<lambda>a. run_ops f a ops)"

lemma spec_size: "strongs (spec s op) + weaks (spec s op) \<le> strongs s + weaks s + 1"
  by (cases op) auto

text \<open>
  The interface of reference counting: objects on which the operations of \<open>allowed\<close> can be executed one by one, each as the
  contract says, as long as there are fewer than \<open>limit\<close> references.
\<close>

locale ref_contract =
  fixes exec :: "'a \<Rightarrow> ref_op \<Rightarrow> 'a option" and shown :: "'a \<Rightarrow> refs \<Rightarrow> bool" and allowed :: "ref_op set" and limit :: int
  assumes exec_step: "shown a s \<Longrightarrow> legal s opn \<Longrightarrow> opn \<in> allowed \<Longrightarrow> int (strongs s + weaks s) + 1 < limit \<Longrightarrow>
    \<exists>a'. exec a opn = Some a' \<and> shown a' (spec s opn)"
begin

lemma exec_run:
  assumes "shown a s" "legal_run s ops" "set ops \<subseteq> allowed" "int (strongs s + weaks s + length ops) < limit"
  shows "\<exists>a'. run_ops exec a ops = Some a' \<and> shown a' (foldl spec s ops)"
  using assms
proof (induction ops arbitrary: a s)
  case (Cons op ops)
  then obtain a1 where "exec a op = Some a1" "shown a1 (spec s op)" using exec_step [of a s op] by auto
  then show ?case using Cons spec_size [of s op] by auto
qed simp

end

interpretation checked: ref_contract "run_op (SAtom_class (Suc n))" "shows_refs (Suc n)" UNIV INITIAL_PRIMARY_VALUE for n
  by unfold_locales (use run_op_ok in blast)

interpretation fast: ref_contract "run_fast (SAtom_class (Suc n))" "shows_refs (Suc n)" UNIV INITIAL_PRIMARY_VALUE for n
  by unfold_locales (use run_op_ok in blast)

text \<open>Light atoms keep the part of the contract that has no weak references.\<close>

fun run_light :: "light_atom \<Rightarrow> ref_op \<Rightarrow> light_atom option" where
  "run_light a OpIncStrong = map_option fst (Light_IncStrong a)"
| "run_light a OpDecStrong = map_option fst (Light_DecStrong a)"
| "run_light a _ = None"

fun run_light_fast :: "light_atom \<Rightarrow> ref_op \<Rightarrow> light_atom option" where
  "run_light_fast a OpIncStrong = Light_IncStrongFast a"
| "run_light_fast a OpDecStrong = Light_DecStrongFast a"
| "run_light_fast a _ = None"

definition light_shows :: "light_atom \<Rightarrow> refs \<Rightarrow> bool" where
  "light_shows a s \<longleftrightarrow>
    m_strongCount a = (if ever_strong s then int (strongs s) else INITIAL_PRIMARY_VALUE) \<and>
    light_inits a = (if ever_strong s then 1 else 0) \<and> deleted a = (ever_strong s \<and> strongs s = 0) \<and>
    ever_used s = ever_strong s \<and> (\<not> ever_strong s \<longrightarrow> strongs s = 0) \<and> int (strongs s) < INITIAL_PRIMARY_VALUE"

lemmas light_defs = Light_IncStrong_def Light_DecStrong_def Light_IncStrongFast_def Light_DecStrongFast_def
  INITIAL_PRIMARY_VALUE_def

lemma run_light_ok:
  assumes "light_shows a s" "legal s opn" "opn \<in> {OpIncStrong, OpDecStrong}" "int (strongs s + weaks s) + 1 < INITIAL_PRIMARY_VALUE"
  shows "\<exists>a'. run_light a opn = Some a' \<and> run_light_fast a opn = Some a' \<and> light_shows a' (spec s opn)"
proof (cases "opn = OpIncStrong")
  case True
  then show ?thesis using assms by (auto simp: light_shows_def light_defs Let_def)
next
  case False
  then show ?thesis
    using assms by (cases "strongs s = 1") (auto simp: light_shows_def light_defs Let_def)
qed

interpretation light: ref_contract run_light light_shows "{OpIncStrong, OpDecStrong}" INITIAL_PRIMARY_VALUE
  by unfold_locales (use run_light_ok in blast)

interpretation light_fast: ref_contract run_light_fast light_shows "{OpIncStrong, OpDecStrong}" INITIAL_PRIMARY_VALUE
  by unfold_locales (use run_light_ok in blast)

text \<open>
  C36. Every sequence of increments, decrements and attempts that a client makes through references it holds
  runs without a fatal error and without touching released memory, in the checked and in the fast functions alike,
  and the atom shows the client's references: its counts are right, \<open>InitAtom\<close> has run once if there ever was a strong reference, the
  destructor has run once the last strong reference is gone and never before, and the memory is released with the last
  reference of all.
\<close>

theorem atom_counts_refine:
  assumes "legal_run no_refs ops" "n > 0" "int (length ops) < INITIAL_PRIMARY_VALUE"
  shows "(\<exists>a. run_ops (run_op (SAtom_class n)) new_atom ops = Some a \<and> shows_refs n a (foldl spec no_refs ops)) \<and>
    (\<exists>a. run_ops (run_fast (SAtom_class n)) new_atom ops = Some a \<and> shows_refs n a (foldl spec no_refs ops))"
proof -
  obtain m where n: "n = Suc m" using assms(2) by (cases n) auto
  have "shows_refs n new_atom no_refs"
    by (simp add: shows_refs_def new_atom_def no_refs_def INITIAL_PRIMARY_VALUE_def)
  then show ?thesis
    using checked.exec_run [of m new_atom no_refs ops] fast.exec_run [of m new_atom no_refs ops] assms n
    by (simp add: no_refs_def)
qed

theorem atom_counts_refine_witness:
  "\<exists>a. run_ops (run_op (SAtom_class 8)) new_atom [OpIncStrong, OpIncWeak, OpDecStrong, OpAttempt] = Some a \<and>
    strongCount a = 0 \<and> weakCount a = 1 \<and> destroyed a = 1 \<and> \<not> freed a"
  using atom_counts_refine [of "[OpIncStrong, OpIncWeak, OpDecStrong, OpAttempt]" 8]
  by (auto simp: no_refs_def shows_refs_def INITIAL_PRIMARY_VALUE_def)

lemma light_atom_counts:
  assumes "legal_run no_refs ops" "set ops \<subseteq> {OpIncStrong, OpDecStrong}" "int (length ops) < INITIAL_PRIMARY_VALUE"
  shows "\<exists>a. run_ops run_light new_light ops = Some a \<and> light_shows a (foldl spec no_refs ops)"
    "\<exists>a. run_ops run_light_fast new_light ops = Some a \<and> light_shows a (foldl spec no_refs ops)"
proof -
  have "light_shows new_light no_refs" by (simp add: light_shows_def new_light_def no_refs_def INITIAL_PRIMARY_VALUE_def)
  then show "\<exists>a. run_ops run_light new_light ops = Some a \<and> light_shows a (foldl spec no_refs ops)"
    "\<exists>a. run_ops run_light_fast new_light ops = Some a \<and> light_shows a (foldl spec no_refs ops)"
    using light.exec_run [of new_light no_refs ops] light_fast.exec_run [of new_light no_refs ops] assms by (simp_all add: no_refs_def)
qed

text \<open>
  An attempt to remove a strong reference takes one from an atom that never had any, because the initial count is positive; and
  a forced increment on an atom without strong references reports a negative count.
\<close>

lemma AttemptDecStrong_without_references:
  "AttemptDecStrong C (new_atom\<lparr>weakCount := 2\<rparr>) =
    Some (new_atom\<lparr>weakCount := 1, strongCount := INITIAL_PRIMARY_VALUE - 1\<rparr>, True)"
  by (simp add: AttemptDecStrong_def new_atom_def DecWeak_def Let_def INITIAL_PRIMARY_VALUE_def)

lemma ForceIncStrong_result:
  "ForceIncStrong (new_atom\<lparr>strongCount := 0, weakCount := 1\<rparr>) =
    Some (new_atom\<lparr>strongCount := 1, weakCount := 2, inits := 1\<rparr>, - INITIAL_PRIMARY_VALUE)"
  by (simp add: ForceIncStrong_def new_atom_def IncWeak_def inc_strong_count_def Let_def INITIAL_PRIMARY_VALUE_def)

end
