(* ===== verification/Atom_Threads.thy ===== *)
theory Atom_Threads
  imports Atoms "HOL-Library.Multiset"
begin

text \<open>
  Atoms shared by threads. The functions of \<^verbatim>\<open>Atom.cpp\<close> use no lock but atomic operations on the two counts; here
  they are taken apart into these operations, and a step relation interleaves any number of threads in all ways. A state
  has the object, the references that clients hold between their calls, and, for every call under way, the
  point it has reached. Clients follow the rules of the interface: they call through a reference they hold, which is
  kept for the time of the call. Only the thread that creates the object acts without one.
\<close>

section \<open>Calls under way\<close>

text \<open>
  The points of the calls. \<open>IncS\<close>: in \<^verbatim>\<open>IncStrong\<close>, the weak count is incremented, the strong one not yet; the flag says whether the
  call was made through a strong reference (which it keeps) or by the creator. \<open>First\<close>: this call saw the initial count
  and has to take it off. \<open>Init\<close>: \<^verbatim>\<open>InitAtom\<close> is due. \<open>Att\<close>, \<open>Cas\<close>, \<open>Asked\<close>, \<open>Extra\<close>: in \<^verbatim>\<open>attempt_inc_strong\<close>, before reading the count, before
  the exchange, after \<^verbatim>\<open>IncStrongAttempted\<close> agreed, and before the superfluous \<^verbatim>\<open>FinishAtom\<close>. \<open>Fin\<close>: the strong count
  went to zero and \<^verbatim>\<open>FinishAtom\<close> is due. \<open>Async\<close>: in the list of the asynchronous destructor. \<open>DecW\<close>: the weak count is to be
  decremented. \<open>Free\<close>: it went to zero.
\<close>

datatype point = IncS bool | First bool | Init bool | Att | Cas int | Asked | Extra | Fin | Async | DecW | Free

record tstate =
  obj :: atom
  sref :: nat
  wref :: nat
  creator :: bool
  thr :: "point multiset"
  fatal :: bool

definition created :: tstate where
  "created = \<lparr>obj = new_atom, sref = 0, wref = 0, creator = True, thr = {#}, fatal = False\<rparr>"

definition set_strong :: "int \<Rightarrow> tstate \<Rightarrow> tstate" where
  "set_strong n s = s\<lparr>obj := (obj s)\<lparr>strongCount := n\<rparr>\<rparr>"

definition set_weak :: "int \<Rightarrow> tstate \<Rightarrow> tstate" where
  "set_weak n s = s\<lparr>obj := (obj s)\<lparr>weakCount := n\<rparr>\<rparr>"

definition goes :: "point \<Rightarrow> tstate \<Rightarrow> tstate" where
  "goes p s = s\<lparr>thr := add_mset p (thr s)\<rparr>"

text \<open>The end of a call that has acquired a strong reference, with the one it was made through.\<close>

definition acquired :: "bool \<Rightarrow> tstate \<Rightarrow> tstate" where
  "acquired held s = s\<lparr>sref := sref s + (if held then 2 else 1)\<rparr>"

definition with_obj :: "atom option \<Rightarrow> (tstate \<Rightarrow> tstate) \<Rightarrow> tstate \<Rightarrow> tstate" where
  "with_obj r f s = (case r of None \<Rightarrow> s\<lparr>fatal := True\<rparr> | Some a \<Rightarrow> f (s\<lparr>obj := a\<rparr>))"

text \<open>The next step of a call at a point, in a state from which the call has been taken out.\<close>

definition call_step :: "atom_class \<Rightarrow> point \<Rightarrow> tstate \<Rightarrow> tstate" where
  "call_step C p s =
    (let r = strongCount (obj s); w = weakCount (obj s) in
     if freed (obj s) then s\<lparr>fatal := True\<rparr>
     else case p of
       IncS held \<Rightarrow>
         if r = 0 then s\<lparr>fatal := True\<rparr>
         else if r = INITIAL_PRIMARY_VALUE then goes (First held) (set_strong (r + 1) s)
         else acquired held (set_strong (r + 1) s)
     | First held \<Rightarrow> goes (Init held) (set_strong (r - INITIAL_PRIMARY_VALUE) s)
     | Init held \<Rightarrow> acquired held (s\<lparr>obj := (obj s)\<lparr>inits := inits (obj s) + 1\<rparr>\<rparr>)
     | Att \<Rightarrow>
         if r > 0 \<and> r < INITIAL_PRIMARY_VALUE then goes (Cas r) s
         else if r \<le> 0 \<or> r = INITIAL_PRIMARY_VALUE then
           (if cached_size (obj s) > 0 \<or> IncStrongAttempted C (r = INITIAL_PRIMARY_VALUE) < B_OK then goes DecW s
            else goes Asked s)
         else acquired False s
     | Cas c \<Rightarrow> if r = c then acquired False (set_strong (r + 1) s) else goes Att s
     | Asked \<Rightarrow>
         if r > 0 \<and> r < INITIAL_PRIMARY_VALUE then goes Extra (set_strong (r + 1) s)
         else if r = INITIAL_PRIMARY_VALUE then goes (First False) (set_strong (r + 1) s)
         else acquired False (set_strong (r + 1) s)
     | Extra \<Rightarrow> if FinishAtom C = B_OK then s\<lparr>fatal := True\<rparr> else acquired False s
     | Fin \<Rightarrow>
         if FinishAtom C = FINISH_ATOM_ASYNC then goes Async s
         else if FinishAtom C = B_OK then with_obj (delete_this C (obj s)) (goes DecW) s
         else goes DecW s
     | Async \<Rightarrow> with_obj (delete_this C (obj s)) (goes DecW) s
     | DecW \<Rightarrow>
         if w < 1 then s\<lparr>fatal := True\<rparr>
         else if w = 1 then goes Free (set_weak (w - 1) s)
         else set_weak (w - 1) s
     | Free \<Rightarrow> with_obj (last_weak C (obj s)) id s)"

section \<open>Steps\<close>

text \<open>
  A call under way makes its next step; or a client starts a call, which is its first atomic operation, or for a weak
  reference that is given up the intention to do so. There are never as many references as the initial count. With
  \<open>early\<close>, promotion may be attempted before the first strong reference is established.
\<close>

inductive astep :: "atom_class \<Rightarrow> bool \<Rightarrow> tstate \<Rightarrow> tstate \<Rightarrow> bool" for C early where
  under_way: "p \<in># thr s \<Longrightarrow> astep C early s (call_step C p (s\<lparr>thr := thr s - {#p#}\<rparr>))"
| inc_weak: "sref s + wref s > 0 \<or> creator s \<Longrightarrow> weakCount (obj s) + 2 < INITIAL_PRIMARY_VALUE \<Longrightarrow>
    astep C early s (set_weak (weakCount (obj s) + 1) (s\<lparr>wref := wref s + 1\<rparr>))"
| dec_weak: "wref s > 0 \<Longrightarrow> \<not> creator s \<Longrightarrow> astep C early s (goes DecW (s\<lparr>wref := wref s - 1\<rparr>))"
| give_up: "creator s \<Longrightarrow> wref s > 0 \<Longrightarrow> astep C early s (s\<lparr>creator := False\<rparr>)"
| first_strong: "creator s \<Longrightarrow> weakCount (obj s) + 2 < INITIAL_PRIMARY_VALUE \<Longrightarrow>
    astep C early s (goes (IncS False) (set_weak (weakCount (obj s) + 1) (s\<lparr>creator := False\<rparr>)))"
| inc_strong: "sref s > 0 \<Longrightarrow> weakCount (obj s) + 2 < INITIAL_PRIMARY_VALUE \<Longrightarrow>
    astep C early s (goes (IncS True) (set_weak (weakCount (obj s) + 1) (s\<lparr>sref := sref s - 1\<rparr>)))"
| dec_strong: "sref s > 0 \<Longrightarrow>
    astep C early s (let r = strongCount (obj s); t = set_strong (r - 1) (s\<lparr>sref := sref s - 1\<rparr>) in
      if freed (obj s) \<or> r < 1 then s\<lparr>fatal := True\<rparr> else goes (if r = 1 then Fin else DecW) t)"
| attempt: "sref s + wref s > 0 \<Longrightarrow> early \<or> strongCount (obj s) < INITIAL_PRIMARY_VALUE \<Longrightarrow>
    weakCount (obj s) + 2 < INITIAL_PRIMARY_VALUE \<Longrightarrow>
    astep C early s (goes Att (set_weak (weakCount (obj s) + 1) s))"

inductive_simps astep_iff: "astep C early s t"

section \<open>The invariant\<close>

fun holds_weak :: "point \<Rightarrow> nat" where
  "holds_weak (IncS held) = (if held then 2 else 1)"
| "holds_weak (First held) = (if held then 2 else 1)"
| "holds_weak (Init held) = (if held then 2 else 1)"
| "holds_weak Free = 0"
| "holds_weak _ = 1"

fun holds_strong :: "point \<Rightarrow> nat" where
  "holds_strong (IncS held) = (if held then 1 else 0)"
| "holds_strong (First held) = (if held then 2 else 1)"
| "holds_strong (Init held) = (if held then 2 else 1)"
| "holds_strong Extra = 1"
| "holds_strong _ = 0"

definition wsum :: "point multiset \<Rightarrow> nat" where "wsum M = sum_mset (image_mset holds_weak M)"
definition ssum :: "point multiset \<Rightarrow> nat" where "ssum M = sum_mset (image_mset holds_strong M)"

lemma sums [simp]:
  "wsum {#} = 0" "ssum {#} = 0" "wsum (add_mset p M) = holds_weak p + wsum M" "ssum (add_mset p M) = holds_strong p + ssum M"
  by (simp_all add: wsum_def ssum_def)

definition weak_total :: "tstate \<Rightarrow> nat" where
  "weak_total s = sref s + wref s + wsum (thr s)"

definition strong_total :: "tstate \<Rightarrow> nat" where
  "strong_total s = sref s + ssum (thr s)"

definition keeps :: "atom_class \<Rightarrow> bool" where
  "keeps C \<longleftrightarrow> FinishAtom C \<noteq> B_OK \<and> FinishAtom C \<noteq> FINISH_ATOM_ASYNC"

text \<open>
  \<^verbatim>\<open>IncStrongAttempted\<close> of the class allows an object to get a strong reference again after its last one was given up. The rules
  for classes: one that does so keeps its objects in \<^verbatim>\<open>FinishAtom\<close>, as the code insists ("\<^verbatim>\<open>FinishAtom() must not return
  B_OK if you implement IncStrongAttempted()\<close>"), and objects are not empty. \<^verbatim>\<open>DeleteAtom\<close> may return anything.
\<close>

definition revives :: "atom_class \<Rightarrow> bool" where
  "revives C \<longleftrightarrow> \<not> IncStrongAttempted C False < B_OK"

definition follows_rules :: "atom_class \<Rightarrow> bool" where
  "follows_rules C \<longleftrightarrow> (revives C \<longrightarrow> keeps C) \<and> object_size C > 0"

datatype phase = Fresh | Window | Live | Ended

definition phase_inv :: "atom_class \<Rightarrow> phase \<Rightarrow> tstate \<Rightarrow> bool" where
  "phase_inv C ph s = (case ph of
     Fresh \<Rightarrow> strongCount (obj s) = INITIAL_PRIMARY_VALUE \<and> sref s = 0 \<and> inits (obj s) = 0 \<and> cached_size (obj s) = 0 \<and>
       set_mset (thr s) \<subseteq> {IncS False, DecW, Free} \<and> count (thr s) (IncS False) \<le> 1 \<and> (creator s \<longrightarrow> thr s = {#}) \<and>
       destroyed (obj s) = (if freed (obj s) then 1 else 0)
   | Window \<Rightarrow> \<not> creator s \<and> strongCount (obj s) = INITIAL_PRIMARY_VALUE + 1 \<and> sref s = 0 \<and> inits (obj s) = 0 \<and>
       cached_size (obj s) = 0 \<and> destroyed (obj s) = 0 \<and> count (thr s) (First False) = 1 \<and> set_mset (thr s) \<subseteq> {First False, DecW}
   | Live \<Rightarrow> \<not> creator s \<and> strongCount (obj s) = int (strong_total s) \<and> strong_total s > 0 \<and>
       inits (obj s) + count (thr s) (Init False) = 1 \<and> cached_size (obj s) = 0 \<and> destroyed (obj s) = 0 \<and>
       set_mset (thr s) \<subseteq> {IncS True, Init False, Att, DecW} \<union> Cas ` {0<..} \<union> (if revives C then {Fin, Asked, Extra} else {})
   | Ended \<Rightarrow> \<not> creator s \<and> strongCount (obj s) = 0 \<and> sref s = 0 \<and> inits (obj s) = 1 \<and>
       set_mset (thr s) \<subseteq> {Att, Fin, Async, DecW, Free} \<union> Cas ` {0<..} \<union> (if revives C then {Asked} else {}) \<and>
       (if keeps C then cached_size (obj s) = 0 \<and> count (thr s) Async = 0 \<and> destroyed (obj s) = (if freed (obj s) then 1 else 0)
        else destroyed (obj s) + count (thr s) Fin + count (thr s) Async = 1 \<and>
          cached_size (obj s) = (if destroyed (obj s) = 1 then object_size C else 0)))"

definition atom_inv :: "atom_class \<Rightarrow> phase \<Rightarrow> tstate \<Rightarrow> bool" where
  "atom_inv C ph s \<longleftrightarrow>
    phase_inv C ph s \<and> weakCount (obj s) = int (weak_total s) \<and> \<not> fatal s \<and>
    int (weak_total s) < INITIAL_PRIMARY_VALUE \<and>
    (creator s \<or> weak_total s > 0 \<longrightarrow> count (thr s) Free = 0 \<and> \<not> freed (obj s)) \<and>
    (\<not> creator s \<and> weak_total s = 0 \<longrightarrow> count (thr s) Free + (if freed (obj s) then 1 else 0) \<le> 1 \<and>
       (DeleteAtom C = B_OK \<longrightarrow> count (thr s) Free + (if freed (obj s) then 1 else 0) = 1))"

lemmas thread_defs = atom_inv_def phase_inv_def weak_total_def strong_total_def set_strong_def set_weak_def goes_def acquired_def
  with_obj_def

lemma atom_inv_created: "atom_inv C Fresh created"
  by (simp add: thread_defs created_def new_atom_def INITIAL_PRIMARY_VALUE_def)

lemma holds_le: "holds_strong p \<le> holds_weak p"
  by (cases p) auto

lemma ssum_le: "ssum M \<le> wsum M"
  by (induction M) (auto simp: add_mono holds_le)

lemma wsum_member: "p \<in># M \<Longrightarrow> holds_weak p \<le> wsum M"
  by (auto dest: multi_member_split)

lemma ssum_member: "p \<in># M \<Longrightarrow> holds_strong p \<le> ssum M"
  by (auto dest: multi_member_split)

lemma wsum_0: "wsum M = 0 \<Longrightarrow> holds_weak p > 0 \<Longrightarrow> count M p = 0"
  using wsum_member [of p M] by (auto simp: not_in_iff [symmetric])

lemma strong_le_weak: "strong_total s \<le> weak_total s"
  using ssum_le [of "thr s"] by (simp add: strong_total_def weak_total_def)

lemma inv_fresh_step:
  assumes "atom_inv C Fresh s" "p \<in># thr s" "follows_rules C"
  shows "\<exists>ph. atom_inv C ph (call_step C p (s\<lparr>thr := thr s - {#p#}\<rparr>))"
proof -
  obtain M where M: "thr s = add_mset p M" using assms(2) by (metis insert_DiffM)
  then have p: "p \<in> {IncS False, DecW, Free}" using assms(1) by (simp add: thread_defs)
  then consider "p = IncS False" | "p = DecW" | "p = Free" by auto
  then show ?thesis
  proof cases
    case 1
    have "IncS False \<notin># M" using assms(1) M 1 by (simp add: thread_defs not_in_iff)
    moreover have "Free \<notin># M" using assms(1) M 1 by (simp add: thread_defs not_in_iff)
    ultimately have "set_mset M \<subseteq> {DecW}" using assms(1) M 1 by (auto simp: thread_defs)
    then have "set_mset M \<subseteq> {DecW}" "First False \<notin># M" by auto
    then have "atom_inv C Window (call_step C p (s\<lparr>thr := thr s - {#p#}\<rparr>))"
      using assms(1) M 1 by (auto simp: thread_defs call_step_def Let_def INITIAL_PRIMARY_VALUE_def not_in_iff)
    then show ?thesis ..
  next
    case 2
    have "atom_inv C Fresh (call_step C p (s\<lparr>thr := thr s - {#p#}\<rparr>))"
      using assms(1) M 2 by (auto simp: thread_defs call_step_def Let_def)
    then show ?thesis ..
  next
    case 3
    have "atom_inv C Fresh (call_step C p (s\<lparr>thr := thr s - {#p#}\<rparr>))"
      using assms M 3 by (auto simp: thread_defs call_step_def Let_def last_weak_def delete_this_def delete_impl_def follows_rules_def)
    then show ?thesis ..
  qed
qed

lemma inv_window_step:
  assumes "atom_inv C Window s" "p \<in># thr s"
  shows "\<exists>ph. atom_inv C ph (call_step C p (s\<lparr>thr := thr s - {#p#}\<rparr>))"
proof -
  obtain M where M: "thr s = add_mset p M" using assms(2) by (metis insert_DiffM)
  then have "p \<in> {First False, DecW}" using assms(1) by (simp add: thread_defs)
  then consider "p = First False" | "p = DecW" by auto
  then show ?thesis
  proof cases
    case 1
    have "First False \<notin># M" using assms(1) M 1 by (simp add: thread_defs not_in_iff)
    then have sub: "set_mset M \<subseteq> {DecW}" using assms(1) M 1 by (auto simp: thread_defs)
    then have "ssum M = 0" "Init False \<notin># M" by (auto simp: ssum_def sum_mset_0_iff)
    then have "atom_inv C Live (call_step C p (s\<lparr>thr := thr s - {#p#}\<rparr>))"
      using assms(1) M 1 sub by (auto simp: thread_defs call_step_def Let_def not_in_iff)
    then show ?thesis ..
  next
    case 2
    have "count M (First False) = 1" using assms(1) M 2 by (simp add: thread_defs)
    then have "First False \<in># M" by (intro count_inI) simp
    then have "wsum M > 0" using wsum_member [of "First False" M] by simp
    then have "atom_inv C Window (call_step C p (s\<lparr>thr := thr s - {#p#}\<rparr>))"
      using assms(1) M 2 by (auto simp: thread_defs call_step_def Let_def)
    then show ?thesis ..
  qed
qed

lemma inv_live_step:
  assumes "atom_inv C Live s" "p \<in># thr s" "follows_rules C"
  shows "\<exists>ph. atom_inv C ph (call_step C p (s\<lparr>thr := thr s - {#p#}\<rparr>))"
proof -
  obtain M where M: "thr s = add_mset p M" using assms(2) by (metis insert_DiffM)
  have b: "0 < strongCount (obj s)" "strongCount (obj s) < INITIAL_PRIMARY_VALUE"
    using assms(1) strong_le_weak [of s] by (auto simp: atom_inv_def phase_inv_def)
  have "p \<in> {IncS True, Init False, Att, DecW} \<union> Cas ` {0<..} \<union> (if revives C then {Fin, Asked, Extra} else {})"
    using assms(1) M by (simp add: thread_defs)
  then consider "p = IncS True" | "p = Init False" | "p = Att" | "p = DecW" | c where "p = Cas c" "c > 0"
    | (kept) "revives C" "p = Fin \<or> p = Asked \<or> p = Extra" by (auto split: if_splits)
  then have "atom_inv C Live (call_step C p (s\<lparr>thr := thr s - {#p#}\<rparr>))"
  proof cases
    case 4
    have "weak_total s > 1" using assms(1) M 4 ssum_le [of M] by (auto simp: thread_defs)
    then show ?thesis using assms(1) M b 4 by (auto simp: thread_defs call_step_def Let_def)
  next
    case kept
    then have "FinishAtom C \<noteq> B_OK" "FinishAtom C \<noteq> FINISH_ATOM_ASYNC"
      using assms(3) by (auto simp: follows_rules_def keeps_def)
    then show ?thesis
      using kept(2)
      by (elim disjE) (use kept(1) assms(1) M b in \<open>simp_all add: thread_defs call_step_def Let_def\<close>)
  qed (use assms(1) M b in \<open>auto simp: thread_defs call_step_def Let_def\<close>)
  then show ?thesis ..
qed

text \<open>An object that was kept comes back to life.\<close>

lemma inv_revive:
  assumes "atom_inv C Ended s" "thr s = add_mset Asked M" "revives C" "follows_rules C"
  shows "atom_inv C Live (call_step C Asked (s\<lparr>thr := M\<rparr>))"
proof -
  have k: "keeps C" using assms(3,4) by (simp add: follows_rules_def)
  have sub: "set_mset M \<subseteq> {Att, Fin, Async, DecW, Free, Asked} \<union> Cas ` {0<..}" "Async \<notin># M" "Free \<notin># M" "\<not> freed (obj s)"
    using assms(1,2) k by (auto simp: thread_defs not_in_iff split: if_splits)
  then have "ssum M = 0" "count M (Init False) = 0" by (auto simp: ssum_def not_in_iff [symmetric])
  moreover have "set_mset M \<subseteq> {IncS True, Init False, Att, DecW} \<union> Cas ` {0<..} \<union> {Fin, Asked, Extra}" using sub(1-3) by auto
  ultimately show ?thesis using assms(1-3) k sub(4) by (auto simp: thread_defs call_step_def Let_def INITIAL_PRIMARY_VALUE_def)
qed

lemma inv_ended_step:
  assumes "atom_inv C Ended s" "p \<in># thr s" "follows_rules C"
  shows "\<exists>ph. atom_inv C ph (call_step C p (s\<lparr>thr := thr s - {#p#}\<rparr>))"
proof (cases "p = Asked \<and> revives C")
  case True
  obtain M where M: "thr s = add_mset p M" using assms(2) by (metis insert_DiffM)
  then show ?thesis using inv_revive [OF assms(1) _ _ assms(3), of M] True by auto
next
  case other: False
  obtain M where M: "thr s = add_mset p M" using assms(2) by (metis insert_DiffM)
  have "p \<in> {Att, Fin, Async, DecW, Free} \<union> Cas ` {0<..} \<union> (if revives C then {Asked} else {})"
    using assms(1) M by (simp add: thread_defs)
  then consider "p = Att" | "p = Fin" | "p = Async" | "p = DecW" | "p = Free" | c where "p = Cas c" "c > 0"
    using other by (auto split: if_splits)
  then have "atom_inv C Ended (call_step C p (s\<lparr>thr := thr s - {#p#}\<rparr>))"
  proof cases
    case 1
    then show ?thesis using assms M by (auto simp: thread_defs call_step_def Let_def revives_def INITIAL_PRIMARY_VALUE_def)
  next
    case 2
    then show ?thesis using assms M by (auto simp: thread_defs call_step_def Let_def follows_rules_def delete_this_def delete_impl_def keeps_def split: if_splits)
  next
    case 3
    then show ?thesis using assms M by (auto simp: thread_defs call_step_def Let_def follows_rules_def delete_this_def delete_impl_def keeps_def split: if_splits)
  next
    case 4
    then show ?thesis using assms M by (auto simp: thread_defs call_step_def Let_def split: if_splits)
  next
    case 5
    have "count M Fin = 0" "count M Async = 0"
      using wsum_0 [of M Fin] wsum_0 [of M Async] assms(1) M 5 by (auto simp: thread_defs)
    then show ?thesis using assms M 5 by (auto simp: thread_defs call_step_def Let_def follows_rules_def last_weak_def destructor_impl_def delete_this_def delete_impl_def split: if_splits)
  next
    case 6
    then show ?thesis using assms M by (auto simp: thread_defs call_step_def Let_def)
  qed
  then show ?thesis ..
qed

lemma inv_under_way:
  assumes "atom_inv C ph s" "p \<in># thr s" "follows_rules C"
  shows "\<exists>ph. atom_inv C ph (call_step C p (s\<lparr>thr := thr s - {#p#}\<rparr>))"
  using assms inv_fresh_step inv_window_step inv_live_step inv_ended_step by (cases ph) blast+

lemma inv_inc_weak:
  assumes "atom_inv C ph s" "sref s + wref s > 0 \<or> creator s" "weakCount (obj s) + 2 < INITIAL_PRIMARY_VALUE"
  shows "atom_inv C ph (set_weak (weakCount (obj s) + 1) (s\<lparr>wref := wref s + 1\<rparr>))"
  using assms by (cases ph) (auto simp: thread_defs)

lemma inv_dec_weak:
  assumes "atom_inv C ph s" "wref s > 0" "\<not> creator s"
  shows "atom_inv C ph (goes DecW (s\<lparr>wref := wref s - 1\<rparr>))"
  using assms by (cases ph) (auto simp: thread_defs)

lemma inv_first_strong:
  assumes "atom_inv C ph s" "creator s" "weakCount (obj s) + 2 < INITIAL_PRIMARY_VALUE"
  shows "atom_inv C ph (goes (IncS False) (set_weak (weakCount (obj s) + 1) (s\<lparr>creator := False\<rparr>)))"
  using assms by (cases ph) (auto simp: thread_defs)

lemma inv_inc_strong:
  assumes "atom_inv C ph s" "sref s > 0" "weakCount (obj s) + 2 < INITIAL_PRIMARY_VALUE"
  shows "atom_inv C ph (goes (IncS True) (set_weak (weakCount (obj s) + 1) (s\<lparr>sref := sref s - 1\<rparr>)))"
  using assms by (cases ph) (auto simp: thread_defs)

lemma inv_attempt:
  assumes "atom_inv C ph s" "sref s + wref s > 0" "strongCount (obj s) < INITIAL_PRIMARY_VALUE"
    "weakCount (obj s) + 2 < INITIAL_PRIMARY_VALUE"
  shows "atom_inv C ph (goes Att (set_weak (weakCount (obj s) + 1) s))"
  using assms by (cases ph) (auto simp: thread_defs)

lemma inv_dec_strong:
  assumes "atom_inv C ph s" "sref s > 0" "follows_rules C"
  shows "\<exists>ph. atom_inv C ph (let r = strongCount (obj s); t = set_strong (r - 1) (s\<lparr>sref := sref s - 1\<rparr>) in
      if freed (obj s) \<or> r < 1 then s\<lparr>fatal := True\<rparr> else goes (if r = 1 then Fin else DecW) t)"
proof -
  have ph: "ph = Live" using assms by (cases ph) (auto simp: atom_inv_def phase_inv_def)
  have st: "strongCount (obj s) = int (strong_total s)" "strong_total s \<ge> 1" "\<not> freed (obj s)"
    using assms ph by (auto simp: thread_defs)
  show ?thesis
  proof (cases "strong_total s = 1")
    case True
    then have 0: "ssum (thr s) = 0" "sref s = 1" using assms(2) by (auto simp: strong_total_def)
    have n: "IncS True \<notin># thr s" "Init False \<notin># thr s" "Extra \<notin># thr s" using ssum_member [of _ "thr s"] 0(1) by fastforce+
    have "set_mset (thr s) \<subseteq> {IncS True, Init False, Att, DecW} \<union> Cas ` {0<..} \<union> (if revives C then {Fin, Asked, Extra} else {})"
      using assms(1) ph by (simp add: thread_defs)
    then have sub: "set_mset (thr s) \<subseteq> {Att, DecW} \<union> Cas ` {0<..} \<union> (if revives C then {Fin, Asked} else {})"
      using n by (auto split: if_splits)
    have c: "count (thr s) (Init False) = 0" using n(2) by (simp add: not_in_iff)
    from sub have "keeps C \<or> Fin \<notin># thr s" "Async \<notin># thr s" using assms(3) by (auto simp: follows_rules_def split: if_splits)
    then have "atom_inv C Ended (goes Fin (set_strong 0 (s\<lparr>sref := sref s - 1\<rparr>)))"
      using assms(1,2) ph 0 sub c by (auto simp: thread_defs not_in_iff)
    then show ?thesis using st True by (auto simp: Let_def)
  next
    case False
    then have "atom_inv C Live (goes DecW (set_strong (strongCount (obj s) - 1) (s\<lparr>sref := sref s - 1\<rparr>)))"
      using assms(1,2) ph st by (auto simp: thread_defs)
    then show ?thesis using st False by (auto simp: Let_def)
  qed
qed

lemma inv_step:
  assumes "astep C False s t" "atom_inv C ph s" "follows_rules C"
  shows "\<exists>ph. atom_inv C ph t"
  using assms(1)
proof cases
  case (under_way p)
  then show ?thesis using inv_under_way assms by blast
next
  case inc_weak
  then show ?thesis using inv_inc_weak [OF assms(2)] by blast
next
  case dec_weak
  then show ?thesis using inv_dec_weak [OF assms(2)] by blast
next
  case give_up
  then have "atom_inv C ph t" using assms(2) by (cases ph) (auto simp: thread_defs)
  then show ?thesis ..
next
  case first_strong
  then show ?thesis using inv_first_strong [OF assms(2)] by blast
next
  case inc_strong
  then show ?thesis using inv_inc_strong [OF assms(2)] by blast
next
  case dec_strong
  then show ?thesis using inv_dec_strong [OF assms(2) _ assms(3)] by simp
next
  case attempt
  then have "atom_inv C ph t" using inv_attempt [OF assms(2)] by simp
  then show ?thesis ..
qed

definition reachable :: "atom_class \<Rightarrow> bool \<Rightarrow> tstate \<Rightarrow> bool" where
  "reachable C early s \<longleftrightarrow> (astep C early)\<^sup>*\<^sup>* created s"

lemma reachable_inv:
  assumes "reachable C False s" "follows_rules C"
  shows "\<exists>ph. atom_inv C ph s"
  using assms(1) unfolding reachable_def
proof (induction rule: rtranclp_induct)
  case base
  then show ?case using atom_inv_created by blast
next
  case (step s t)
  then show ?case using inv_step assms(2) by blast
qed

lemma freed_no_thread:
  assumes "atom_inv C ph s" "freed (obj s)"
  shows "thr s = {#}"
proof -
  have w: "weak_total s = 0" "count (thr s) Free = 0" "\<not> creator s" using assms by (auto simp: atom_inv_def)
  have "p \<notin># thr s" for p
  proof
    assume p: "p \<in># thr s"
    then have "holds_weak p = 0" using wsum_member [OF p] w(1) by (simp add: weak_total_def)
    then have "p = Free" by (cases p) (auto split: if_splits)
    then show False using p w(2) by (simp flip: not_in_iff)
  qed
  then show ?thesis by (simp add: multiset_eq_iff not_in_iff)
qed

text \<open>
  C33. Take a class that follows the rules (one that lets \<^verbatim>\<open>IncStrongAttempted\<close> revive objects keeps them in
  \<^verbatim>\<open>FinishAtom\<close>; \<^verbatim>\<open>FinishAtom\<close>, \<^verbatim>\<open>IncStrongAttempted\<close> and \<^verbatim>\<open>DeleteAtom\<close> otherwise return what they like, always the same), and let nobody
  try to promote a weak reference before the first strong one is established (\<open>early\<close> is false; C35 shows why).
  Then, however the calls of any number of threads interleave, the atom is safe: no call ends in a fatal error or touches released memory, \<open>InitAtom\<close> and the
  destructor run at most once, an object with a strong reference is not destroyed, memory with a reference of any kind is
  not released, and when it is released no call is under way.
\<close>

theorem atom_threads_safe:
  assumes "reachable C False s" "follows_rules C"
  shows "\<not> fatal s \<and> inits (obj s) \<le> 1 \<and> destroyed (obj s) \<le> 1 \<and>
    (sref s > 0 \<longrightarrow> destroyed (obj s) = 0 \<and> strongCount (obj s) > 0) \<and>
    (sref s + wref s > 0 \<longrightarrow> \<not> freed (obj s)) \<and> (freed (obj s) \<longrightarrow> thr s = {#})"
proof -
  obtain ph where I: "atom_inv C ph s" using reachable_inv [OF assms] ..
  have "sref s + wref s > 0 \<longrightarrow> \<not> freed (obj s)" using I by (auto simp: atom_inv_def weak_total_def)
  moreover have "\<not> fatal s" "sref s > 0 \<longrightarrow> destroyed (obj s) = 0 \<and> strongCount (obj s) > 0"
    using I by (cases ph; auto simp: atom_inv_def phase_inv_def strong_total_def)+
  moreover have "inits (obj s) \<le> 1" "destroyed (obj s) \<le> 1"
    using I by (cases ph; auto simp: atom_inv_def phase_inv_def split: if_splits)+
  ultimately show ?thesis using freed_no_thread [OF I] by blast
qed

text \<open>
  C34. Nothing leaks. For a class that follows the rules and whose \<^verbatim>\<open>DeleteAtom\<close> gives objects up (returns \<^verbatim>\<open>B_OK\<close>, as that of \<^verbatim>\<open>SAtom\<close>
  does), and without promotion before the first strong reference: in every reachable state in which no reference is held
  and no call is under way, the object has been destroyed exactly once and its memory has been released.
\<close>

theorem atom_threads_no_leak:
  assumes "reachable C False s" "follows_rules C" "DeleteAtom C = B_OK"
    and "\<not> creator s" "sref s = 0" "wref s = 0" "thr s = {#}"
  shows "freed (obj s) \<and> destroyed (obj s) = 1"
proof -
  obtain ph where I: "atom_inv C ph s" using reachable_inv [OF assms(1,2)] ..
  then have "freed (obj s)" using assms(3-7) by (auto simp: atom_inv_def weak_total_def split: if_splits)
  then show ?thesis using I assms(4-7) by (cases ph) (auto simp: atom_inv_def phase_inv_def strong_total_def split: if_splits)
qed

lemma reachable_step: "reachable C early s \<Longrightarrow> astep C early s t \<Longrightarrow> reachable C early t"
  unfolding reachable_def by (rule rtranclp.rtrancl_into_rtrancl)

lemma reachable_created: "reachable C early created"
  by (simp add: reachable_def)

definition state_at :: "int \<Rightarrow> int \<Rightarrow> nat \<Rightarrow> nat \<Rightarrow> nat \<Rightarrow> bool \<Rightarrow> nat \<Rightarrow> nat \<Rightarrow> point list \<Rightarrow> tstate" where
  "state_at strong weak ini dead sz fr sr wr ps =
   \<lparr>obj = \<lparr>strongCount = strong, weakCount = weak, cached_size = sz, inits = ini, destroyed = dead, waiting = 0, freed = fr\<rparr>,
    sref = sr, wref = wr, creator = False, thr = mset ps, fatal = False\<rparr>"

lemma run_head:
  assumes "reachable C early (state_at a b c d e f g h (p # ps))" "call_step C p (state_at a b c d e f g h ps) = t"
  shows "reachable C early t"
  using reachable_step [OF assms(1) astep.under_way, of p] assms(2) by (simp add: state_at_def)

lemmas run_defs = state_at_def call_step_def set_strong_def set_weak_def goes_def acquired_def with_obj_def delete_this_def
  delete_impl_def last_weak_def destructor_impl_def SAtom_class_def INITIAL_PRIMARY_VALUE_def B_OK_def FINISH_ATOM_ASYNC_def
  B_NOT_ALLOWED_def

abbreviation "C8 \<equiv> SAtom_class 8"

lemma run_first: "reachable C early (state_at (2 ^ 28) 2 0 0 0 False 0 1 [IncS False])"
proof -
  have "astep C early created (set_weak 1 (created\<lparr>wref := 1\<rparr>))"
    using astep.inc_weak [of created C early] by (simp add: created_def new_atom_def INITIAL_PRIMARY_VALUE_def)
  then have r: "reachable C early (set_weak 1 (created\<lparr>wref := 1\<rparr>))" by (rule reachable_step [OF reachable_created])
  show ?thesis
    using reachable_step [OF r astep.first_strong] by (simp add: run_defs created_def new_atom_def)
qed

lemma run_window: "reachable C early (state_at (2 ^ 28 + 1) 2 0 0 0 False 0 1 [First False])"
  by (rule run_head [OF run_first]) (simp add: run_defs)

lemma run_init: "reachable C early (state_at 1 2 0 0 0 False 0 1 [Init False])"
  by (rule run_head [OF run_window]) (simp add: run_defs)

lemma run_live: "reachable C early (state_at 1 2 1 0 0 False 1 1 [])"
  by (rule run_head [OF run_init]) (simp add: run_defs)

lemma run_fin: "reachable C early (state_at 0 2 1 0 0 False 0 1 [Fin])"
  using reachable_step [OF run_live astep.dec_strong] by (simp add: run_defs)

lemma run_dead: "reachable C8 early (state_at 0 2 1 1 8 False 0 1 [DecW])"
  by (rule run_head [OF run_fin]) (simp add: run_defs)

lemma run_weak: "reachable C8 early (state_at 0 1 1 1 8 False 0 1 [])"
  by (rule run_head [OF run_dead]) (simp add: run_defs)

lemma run_release: "reachable C8 early (state_at 0 1 1 1 8 False 0 0 [DecW])"
  using reachable_step [OF run_weak astep.dec_weak] by (simp add: run_defs)

lemma run_free: "reachable C8 early (state_at 0 0 1 1 8 False 0 0 [Free])"
  by (rule run_head [OF run_release]) (simp add: run_defs)

lemma run_gone: "reachable C8 early (state_at 0 0 1 1 8 True 0 0 [])"
  by (rule run_head [OF run_free]) (simp add: run_defs)

lemma C8_rules: "follows_rules C8"
  by (simp add: follows_rules_def revives_def SAtom_class_def B_OK_def B_NOT_ALLOWED_def sys_err_def)

text \<open>A class that keeps its objects and revives them: after its last strong reference was given up, the object gets another one.\<close>

definition keeper :: atom_class where
  "keeper = \<lparr>FinishAtom = B_NOT_ALLOWED, IncStrongAttempted = (\<lambda>_. B_OK), DeleteAtom = B_OK, object_size = 8\<rparr>"

lemma keeper_rules: "follows_rules keeper" "revives keeper"
  by (simp_all add: follows_rules_def revives_def keeps_def keeper_def B_OK_def B_NOT_ALLOWED_def sys_err_def FINISH_ATOM_ASYNC_def)

lemma run_kept: "reachable keeper early (state_at 0 2 1 0 0 False 0 1 [DecW])"
  by (rule run_head [OF run_fin]) (simp add: run_defs keeper_def sys_err_def)

lemma run_asleep: "reachable keeper early (state_at 0 1 1 0 0 False 0 1 [])"
  by (rule run_head [OF run_kept]) (simp add: run_defs)

lemma run_promoting: "reachable keeper early (state_at 0 2 1 0 0 False 0 1 [Att])"
  using reachable_step [OF run_asleep astep.attempt] by (simp add: run_defs)

lemma run_asked: "reachable keeper early (state_at 0 2 1 0 0 False 0 1 [Asked])"
  by (rule run_head [OF run_promoting]) (simp add: run_defs keeper_def)

lemma run_revived: "reachable keeper early (state_at 1 2 1 0 0 False 1 1 [])"
  by (rule run_head [OF run_asked]) (simp add: run_defs)

theorem atom_threads_safe_witness:
  "destroyed (obj (state_at 1 2 1 0 0 False 1 1 [])) = 0 \<and> \<not> freed (obj (state_at 1 2 1 0 0 False 1 1 []))"
  using atom_threads_safe [OF run_revived keeper_rules(1)] by (simp add: state_at_def)

theorem atom_threads_no_leak_witness: "freed (obj (state_at 0 0 1 1 8 True 0 0 []))"
  using atom_threads_no_leak [OF run_gone C8_rules] by (simp add: state_at_def SAtom_class_def)

text \<open>
  C35. Promoting a weak reference while another thread is inside the first \<^verbatim>\<open>IncStrong\<close> breaks this: between the increment and the
  subtraction of the initial value the count is larger than the initial value, the loop of \<^verbatim>\<open>attempt_inc_strong\<close>
  neither increments it nor fails, and the attempt reports success. A client then holds a strong reference to an object that
  has been destroyed.
\<close>

theorem atom_early_attempt_unsafe:
  "\<exists>s. reachable C8 True s \<and> sref s > 0 \<and> destroyed (obj s) = 1"
proof -
  have "reachable C8 True (state_at (2 ^ 28 + 1) 3 0 0 0 False 0 1 [Att, First False])"
    using reachable_step [OF run_window astep.attempt] by (simp add: run_defs)
  then have "reachable C8 True (state_at (2 ^ 28 + 1) 3 0 0 0 False 1 1 [First False])"
    by (rule run_head) (simp add: run_defs)
  then have "reachable C8 True (state_at 1 3 0 0 0 False 1 1 [Init False])"
    by (rule run_head) (simp add: run_defs)
  then have "reachable C8 True (state_at 1 3 1 0 0 False 2 1 [])"
    by (rule run_head) (simp add: run_defs)
  then have "reachable C8 True (state_at 0 3 1 0 0 False 1 1 [Fin])"
    using reachable_step [OF _ astep.dec_strong] by (fastforce simp: run_defs)
  then have "reachable C8 True (state_at 0 3 1 1 8 False 1 1 [DecW])"
    by (rule run_head) (simp add: run_defs)
  then show ?thesis by (intro exI [of _ "state_at 0 3 1 1 8 False 1 1 [DecW]"]) (simp add: state_at_def)
qed

end
