(* ===== verification/Bitfield.thy ===== *)
theory Bitfield
  imports OB_Prelude
begin

text \<open>
  Bit fields, \<^verbatim>\<open>src/libraries/libbinder/support/Bitfield.cpp\<close> and \<^verbatim>\<open>src/headers/support/Bitfield.h\<close>: bits in words, the first one
  in the highest place, inside the object for up to 32 bits and in a block otherwise. \<open>None\<close> means that the
  code reads or writes outside its block. Sizes are natural numbers below \<open>2 ^ 32\<close>, with the wrap-around of
  \<^verbatim>\<open>size_t\<close> written out. What a new block holds is a parameter.
\<close>

section \<open>The object\<close>

definition BF_NUM_INLINE_BITS :: int where "BF_NUM_INLINE_BITS = 32"

record bitfield =
  numBits :: int
  inlineBits :: u32
  bits :: "u32 list"

definition is_inline :: "bitfield \<Rightarrow> bool" where
  "is_inline b \<longleftrightarrow> numBits b \<le> BF_NUM_INLINE_BITS"

definition empty_bitfield :: bitfield where
  "empty_bitfield = \<lparr>numBits = 0, inlineBits = 0, bits = []\<rparr>"

text \<open>\<^verbatim>\<open>alloc_size\<close>, in words.\<close>

definition alloc_words :: "nat \<Rightarrow> nat" where
  "alloc_words n = (n + 31) mod 2 ^ 32 div 32"

section \<open>Single bits\<close>

definition top_shifted :: "nat \<Rightarrow> u32" where
  "top_shifted k = drop_bit (k mod 32) 0x80000000"

definition the_word :: "bitfield \<Rightarrow> nat \<Rightarrow> u32 option" where
  "the_word b i =
    (if numBits b > BF_NUM_INLINE_BITS then (if i div 32 < length (bits b) then Some (bits b ! (i div 32)) else None)
     else Some (inlineBits b))"

definition put_word :: "bitfield \<Rightarrow> nat \<Rightarrow> u32 \<Rightarrow> bitfield" where
  "put_word b i w =
    (if numBits b > BF_NUM_INLINE_BITS then b\<lparr>bits := (bits b)[i div 32 := w]\<rparr> else b\<lparr>inlineBits := w\<rparr>)"

definition Test :: "bitfield \<Rightarrow> nat \<Rightarrow> bool option" where
  "Test b i = map_option (\<lambda>w. w AND top_shifted i \<noteq> 0) (the_word b i)"

definition Set_bit :: "bitfield \<Rightarrow> nat \<Rightarrow> bitfield option" where
  "Set_bit b i = map_option (\<lambda>w. put_word b i (w OR top_shifted i)) (the_word b i)"

definition Clear_bit :: "bitfield \<Rightarrow> nat \<Rightarrow> bitfield option" where
  "Clear_bit b i = map_option (\<lambda>w. put_word b i (w AND NOT (top_shifted i))) (the_word b i)"

definition TestAndSet :: "bitfield \<Rightarrow> nat \<Rightarrow> (bitfield \<times> bool) option" where
  "TestAndSet b i =
    map_option (\<lambda>w. (put_word b i (w OR top_shifted i), w AND top_shifted i \<noteq> 0)) (the_word b i)"

section \<open>Ranges of bits\<close>

record fill_info =
  startWord :: nat
  endWord :: nat
  leftMask :: u32
  rightMask :: u32
  numWords :: nat

definition compute_masks :: "nat \<Rightarrow> nat \<Rightarrow> fill_info" where
  "compute_masks start len =
    (let e = (start + len + 2 ^ 32 - 1) mod 2 ^ 32;
         n = (e div 32 + 2 ^ 32 - start div 32) mod 2 ^ 32 in
     \<lparr>startWord = start div 32, endWord = e div 32,
      leftMask = drop_bit (start mod 32) 0xFFFFFFFF, rightMask = push_bit (31 - e mod 32) 0xFFFFFFFF,
      numWords = (if n \<noteq> 0 then n - 1 else n)\<rparr>)"

text \<open>One word changed, and \<^verbatim>\<open>memset\<close> over whole words.\<close>

definition word_with :: "(u32 \<Rightarrow> u32) \<Rightarrow> nat \<Rightarrow> u32 list \<Rightarrow> u32 list option" where
  "word_with f i ws = (if i < length ws then Some (ws[i := f (ws ! i)]) else None)"

definition fill_words :: "u32 \<Rightarrow> nat \<Rightarrow> nat \<Rightarrow> u32 list \<Rightarrow> u32 list option" where
  "fill_words w i n ws =
    (if n = 0 then Some ws
     else if i + n \<le> length ws then Some (take i ws @ replicate n w @ drop (i + n) ws)
     else None)"

definition too_far :: "bitfield \<Rightarrow> nat \<Rightarrow> nat \<Rightarrow> bool" where
  "too_far b start len \<longleftrightarrow> sint (word_of_nat (start + len) :: u32) > numBits b"

definition Set_range :: "bitfield \<Rightarrow> nat \<Rightarrow> nat \<Rightarrow> (bitfield \<times> int) option" where
  "Set_range b start len =
    (if too_far b start len then Some (b, B_BAD_VALUE)
     else
       let info = compute_masks start len in
       if is_inline b then Some (b\<lparr>inlineBits := inlineBits b OR (leftMask info AND rightMask info)\<rparr>, B_OK)
       else if startWord info = endWord info then
         map_option (\<lambda>ws. (b\<lparr>bits := ws\<rparr>, B_OK)) (word_with (\<lambda>w. w OR (leftMask info AND rightMask info)) (startWord info) (bits b))
       else
         map_option (\<lambda>ws. (b\<lparr>bits := ws\<rparr>, B_OK))
           (Option.bind (word_with (\<lambda>w. w OR leftMask info) (startWord info) (bits b)) (\<lambda>ws.
            Option.bind (fill_words 0xFFFFFFFF (startWord info + 1) (numWords info) ws) (\<lambda>ws.
            word_with (\<lambda>w. w OR rightMask info) (endWord info) ws))))"

definition Clear_range :: "bitfield \<Rightarrow> nat \<Rightarrow> nat \<Rightarrow> (bitfield \<times> int) option" where
  "Clear_range b start len =
    (if too_far b start len then Some (b, B_BAD_VALUE)
     else
       let info = compute_masks start len in
       if is_inline b then Some (b\<lparr>inlineBits := inlineBits b AND NOT (leftMask info AND rightMask info)\<rparr>, B_OK)
       else if startWord info = endWord info then
         map_option (\<lambda>ws. (b\<lparr>bits := ws\<rparr>, B_OK)) (word_with (\<lambda>w. w AND NOT (leftMask info AND rightMask info)) (startWord info) (bits b))
       else
         map_option (\<lambda>ws. (b\<lparr>bits := ws\<rparr>, B_OK))
           (Option.bind (word_with (\<lambda>w. w AND NOT (leftMask info)) (startWord info) (bits b)) (\<lambda>ws.
            Option.bind (fill_words 0 (startWord info + 1) (numWords info) ws) (\<lambda>ws.
            word_with (\<lambda>w. w AND NOT (rightMask info)) (endWord info) ws))))"

section \<open>The size\<close>

text \<open>A block after a change of its size in whole words.\<close>

definition resize_words :: "(nat \<Rightarrow> u32) \<Rightarrow> u32 list \<Rightarrow> nat \<Rightarrow> u32 list" where
  "resize_words fresh ws n = map (\<lambda>i. if i < length ws then ws ! i else fresh i) [0..<n]"

text \<open>
  \<^verbatim>\<open>Resize\<close>. The code reallocates a block that grows to \<^verbatim>\<open>bits/8\<close> bytes: only the words that fit count here. The room says which
  requests for memory (in words) succeed.
\<close>

definition Resize :: "(nat \<Rightarrow> bool) \<Rightarrow> (nat \<Rightarrow> u32) \<Rightarrow> bitfield \<Rightarrow> nat \<Rightarrow> (bitfield \<times> int) option" where
  "Resize room fresh b n =
    (if sint (word_of_nat n :: u32) \<le> numBits b then
       (if \<not> is_inline b then
          (if int n \<le> BF_NUM_INLINE_BITS then
             (case bits b of [] \<Rightarrow> None | w # _ \<Rightarrow> Some (b\<lparr>inlineBits := w, numBits := BF_NUM_INLINE_BITS, bits := []\<rparr>, B_OK))
           else Some (b\<lparr>bits := resize_words fresh (bits b) (alloc_words n), numBits := sint (word_of_nat n :: u32)\<rparr>, B_OK))
        else Some (b, B_OK))
     else if int n > BF_NUM_INLINE_BITS then
       (let oldBits = numBits b in
        if is_inline b then
          (if room (alloc_words n) then
             map_option (\<lambda>(b, _). (b, B_OK))
               (Clear_range (b\<lparr>bits := resize_words fresh [inlineBits b] (alloc_words n), numBits := sint (word_of_nat n :: u32)\<rparr>) (nat (oldBits mod 2 ^ 32)) (nat ((int n - oldBits) mod 2 ^ 32)))
           else None)
        else if room (n div 32) then
          map_option (\<lambda>(b, _). (b, B_OK))
            (Clear_range (b\<lparr>bits := resize_words fresh (bits b) (n div 32), numBits := sint (word_of_nat n :: u32)\<rparr>) (nat (oldBits mod 2 ^ 32)) (nat ((int n - oldBits) mod 2 ^ 32)))
        else Some (b, B_NO_MEMORY))
     else
       (let oldBits = numBits b; b = b\<lparr>numBits := BF_NUM_INLINE_BITS\<rparr> in
        if oldBits \<noteq> 0 then map_option (\<lambda>(b, _). (b, B_OK)) (Clear_range b (nat (oldBits mod 2 ^ 32)) (nat ((int n - oldBits) mod 2 ^ 32)))
        else Some (b\<lparr>inlineBits := 0\<rparr>, B_OK)))"

definition Bitfield_new :: "(nat \<Rightarrow> bool) \<Rightarrow> (nat \<Rightarrow> u32) \<Rightarrow> nat \<Rightarrow> bitfield option" where
  "Bitfield_new room fresh n =
    (if n \<noteq> 0 then
       map_option (\<lambda>(b, r). if r < B_OK then b\<lparr>numBits := r\<rparr> else b) (Resize room fresh empty_bitfield n)
     else Some empty_bitfield)"

definition Bitfield_new_initial :: "(nat \<Rightarrow> bool) \<Rightarrow> (nat \<Rightarrow> u32) \<Rightarrow> nat \<Rightarrow> bool \<Rightarrow> bitfield option" where
  "Bitfield_new_initial room fresh n initial =
    Option.bind (Bitfield_new room fresh n) (\<lambda>b.
      if initial then map_option fst (Set_range b 0 n) else Some b)"

definition Bitfield_copy :: "(nat \<Rightarrow> bool) \<Rightarrow> (nat \<Rightarrow> u32) \<Rightarrow> bitfield \<Rightarrow> bitfield option" where
  "Bitfield_copy room fresh c =
    (if numBits c \<ge> 0 then
       (if is_inline c then Some \<lparr>numBits = numBits c, inlineBits = inlineBits c, bits = []\<rparr>
        else
          Option.bind (Resize room fresh empty_bitfield (nat (numBits c))) (\<lambda>(b, r).
            if r < B_OK then Some (b\<lparr>numBits := r\<rparr>)
            else if alloc_words (nat (numBits c)) \<le> min (length (bits b)) (length (bits c)) then
              Some (b\<lparr>numBits := numBits c,
                bits := take (alloc_words (nat (numBits c))) (bits c) @ drop (alloc_words (nat (numBits c))) (bits b)\<rparr>)
            else None))
     else Some (empty_bitfield\<lparr>numBits := numBits c\<rparr>))"

definition Bitfield_InitCheck :: "bitfield \<Rightarrow> int" where
  "Bitfield_InitCheck b = (if numBits b \<ge> 0 then B_OK else numBits b)"

section \<open>Searching\<close>

definition word_set :: "u32 \<Rightarrow> int" where
  "word_set word =
    (let (word, b) = (if word AND 0xFFFF0000 \<noteq> 0 then (drop_bit 16 word, 31 - 16) else (word, 31));
         (word, b) = (if word AND 0x0000FF00 \<noteq> 0 then (drop_bit 8 word, b - 8) else (word, b));
         (word, b) = (if word AND 0x000000F0 \<noteq> 0 then (drop_bit 4 word, b - 4) else (word, b));
         (word, b) = (if word AND 0x0000000C \<noteq> 0 then (drop_bit 2 word, b - 2) else (word, b));
         (word, b) = (if word AND 0x00000002 \<noteq> 0 then (drop_bit 1 word, b - 1) else (word, b))
     in b)"

fun search_words :: "(u32 \<Rightarrow> u32) \<Rightarrow> nat \<Rightarrow> nat \<Rightarrow> u32 list \<Rightarrow> int option" where
  "search_words f i 0 ws = Some (- 1)"
| "search_words f i (Suc n) [] = None"
| "search_words f i (Suc n) (w # ws) =
    (if f w \<noteq> 0 then Some (int i * 32 + word_set (f w)) else search_words f (i + 1) n ws)"

definition FirstSet :: "bitfield \<Rightarrow> int option" where
  "FirstSet b =
    (if numBits b < 0 then Some (numBits b)
     else if is_inline b then Some (if inlineBits b \<noteq> 0 then word_set (inlineBits b) else - 1)
     else search_words id 0 (nat (numBits b) div 32) (bits b))"

definition FirstClear :: "bitfield \<Rightarrow> int option" where
  "FirstClear b =
    (if numBits b < 0 then Some (numBits b)
     else if is_inline b then Some (if NOT (inlineBits b) \<noteq> 0 then word_set (NOT (inlineBits b)) else - 1)
     else search_words (\<lambda>w. NOT w) 0 (nat (numBits b) div 32) (bits b))"

section \<open>Comparison\<close>

text \<open>
  \<^verbatim>\<open>operator ==\<close> on two objects, or on one and itself. The mask of a field inside the object is shifted by 32 places when the field
  has 32 bits, which C++ does not define: \<open>None\<close>.
\<close>

fun words_equal :: "nat \<Rightarrow> u32 list \<Rightarrow> u32 list \<Rightarrow> bool option" where
  "words_equal 0 vs ws = Some True"
| "words_equal (Suc n) (v # vs) (w # ws) = (if v \<noteq> w then Some False else words_equal n vs ws)"
| "words_equal (Suc n) vs ws = None"

definition Bitfield_eq :: "bool \<Rightarrow> bitfield \<Rightarrow> bitfield \<Rightarrow> bool option" where
  "Bitfield_eq same b c =
    (if same then Some True
     else if numBits b \<noteq> numBits c then Some False
     else if numBits b > 0 then
       (if is_inline b then
          (let shift = 32 - nat (numBits b) mod 32 in
           if shift \<ge> 32 then None
           else let m = push_bit shift 0xFFFFFFFF in Some (inlineBits b AND m = inlineBits c AND m))
        else
          (let info = compute_masks 0 (nat (numBits b)); last = endWord info in
           Option.bind (words_equal last (bits b) (bits c)) (\<lambda>same.
             if \<not> same then Some False
             else if last < min (length (bits b)) (length (bits c)) then
               Some (bits b ! last AND rightMask info = bits c ! last AND rightMask info)
             else None)))
     else Some True)"

section \<open>Words as places\<close>

text \<open>The place of a bit counts from the highest one, as the code counts.\<close>

definition place :: "u32 \<Rightarrow> nat \<Rightarrow> bool" where
  "place w p \<longleftrightarrow> bit w (31 - p)"

lemma place_ops [simp]:
  "p < 32 \<Longrightarrow> place (v OR w) p \<longleftrightarrow> place v p \<or> place w p" "p < 32 \<Longrightarrow> place (v AND w) p \<longleftrightarrow> place v p \<and> place w p"
  "p < 32 \<Longrightarrow> place (NOT w) p \<longleftrightarrow> \<not> place w p" "\<not> place 0 p" "p < 32 \<Longrightarrow> place (- 1) p"
  by (auto simp: place_def bit_simps)

lemma place_mask [simp]: "p < 32 \<Longrightarrow> place (mask n) p \<longleftrightarrow> 31 - p < n"
  by (auto simp: place_def bit_simps)

lemma all_ones: "(0xFFFFFFFF :: u32) = - 1"
  by simp

lemma place_masks:
  assumes "p < 32" "k < 32"
  shows "place (drop_bit k (- 1)) p \<longleftrightarrow> k \<le> p" "place (push_bit (31 - k) (- 1)) p \<longleftrightarrow> p \<le> k"
  using assms by (auto simp: place_def bit_simps)

lemma place_top: 
  assumes "p < 32"
  shows "place (top_shifted i) p \<longleftrightarrow> p = i mod 32"
proof -
  have "\<forall>n \<in> set [0..<32]. bit (0x80000000 :: u32) n \<longleftrightarrow> n = 31" by code_simp
  then have b: "n < 32 \<Longrightarrow> bit (0x80000000 :: u32) n \<longleftrightarrow> n = 31" for n by simp
  have "bit (0x80000000 :: u32) (i mod 32 + (31 - p)) \<longleftrightarrow> p = i mod 32"
  proof (cases "i mod 32 + (31 - p) < 32")
    case True
    then show ?thesis using b [OF True] assms by auto
  next
    case False
    then have "\<not> bit (0x80000000 :: u32) (i mod 32 + (31 - p))" using bit_imp_le_length [of "0x80000000 :: u32"] by fastforce
    then show ?thesis using False assms by auto
  qed
  then show ?thesis by (simp add: place_def top_shifted_def bit_drop_bit_eq)
qed

lemma place_eqI: "(\<And>p. p < 32 \<Longrightarrow> place v p = place w p) \<Longrightarrow> v = w"
proof (rule bit_word_eqI)
  fix n assume a: "\<And>p. p < 32 \<Longrightarrow> place v p = place w p" and n: "n < LENGTH(32)"
  then show "bit v n = bit w n" using a [of "31 - n"] by (simp add: place_def)
qed

lemma nonzero_place: "w \<noteq> 0 \<longleftrightarrow> (\<exists>p < 32. place w p)"
  using place_eqI [of w 0] by auto

lemma and_top: "w AND top_shifted i \<noteq> 0 \<longleftrightarrow> place w (i mod 32)"
  unfolding nonzero_place using place_top by (auto intro!: exI [of _ "i mod 32"])

section \<open>Ranges\<close>

text \<open>The part of a range that lies in one word.\<close>

definition range_mask :: "nat \<Rightarrow> nat \<Rightarrow> nat \<Rightarrow> u32" where
  "range_mask start len k =
    (let info = compute_masks start len in
     if k = startWord info \<and> k = endWord info then leftMask info AND rightMask info
     else if k = startWord info then leftMask info
     else if k = endWord info then rightMask info
     else if startWord info < k \<and> k < endWord info then - 1 else 0)"

lemma masks_inside:
  assumes "len > 0" "start + len < 2 ^ 32"
  shows "startWord (compute_masks start len) = start div 32" "endWord (compute_masks start len) = (start + len - 1) div 32"
    "leftMask (compute_masks start len) = drop_bit (start mod 32) (- 1)"
    "rightMask (compute_masks start len) = push_bit (31 - (start + len - 1) mod 32) (- 1)"
    "numWords (compute_masks start len) = (start + len - 1) div 32 - start div 32 - 1"
proof -
  have e: "(start + len + 2 ^ 32 - 1) mod 2 ^ 32 = start + len - 1"
  proof -
    have "start + len + 2 ^ 32 - 1 = (start + len - 1) + 2 ^ 32" using assms by simp
    then show ?thesis using assms by (metis mod_add_self2 mod_less less_imp_diff_less)
  qed
  have le: "start div 32 \<le> (start + len - 1) div 32" using assms by (intro div_le_mono) simp
  have n: "((start + len - 1) div 32 + 2 ^ 32 - start div 32) mod 2 ^ 32 = (start + len - 1) div 32 - start div 32"
  proof -
    have "(start + len - 1) div 32 + 2 ^ 32 - start div 32 = ((start + len - 1) div 32 - start div 32) + 2 ^ 32" using le by simp
    moreover have "(start + len - 1) div 32 - start div 32 < 2 ^ 32" using assms by simp
    ultimately show ?thesis by (metis mod_add_self2 mod_less)
  qed
  show "startWord (compute_masks start len) = start div 32" "endWord (compute_masks start len) = (start + len - 1) div 32"
    "leftMask (compute_masks start len) = drop_bit (start mod 32) (- 1)"
    "rightMask (compute_masks start len) = push_bit (31 - (start + len - 1) mod 32) (- 1)"
    "numWords (compute_masks start len) = (start + len - 1) div 32 - start div 32 - 1"
    unfolding compute_masks_def Let_def e n by (simp_all only: fill_info.simps all_ones) simp
qed

lemma place_range_mask:
  assumes "len > 0" "start + len < 2 ^ 32" "p < 32"
  shows "place (range_mask start len k) p \<longleftrightarrow> start \<le> 32 * k + p \<and> 32 * k + p < start + len"
proof -
  define s e where "s = start div 32" and "e = (start + len - 1) div 32"
  define a b where "a = start mod 32" and "b = (start + len - 1) mod 32"
  have d: "start = 32 * s + a" "start + len - 1 = 32 * e + b" "a < 32" "b < 32"
    by (simp_all add: s_def e_def a_def b_def)
  have "place (leftMask (compute_masks start len)) p \<longleftrightarrow> a \<le> p" "place (rightMask (compute_masks start len)) p \<longleftrightarrow> p \<le> b"
    using assms place_masks d(3,4) by (simp_all only: masks_inside a_def b_def)
  moreover have w: "startWord (compute_masks start len) = s" "endWord (compute_masks start len) = e"
    using assms by (simp_all only: masks_inside s_def e_def)
  ultimately have m: "place (range_mask start len k) p \<longleftrightarrow>
    (if k = s \<and> k = e then a \<le> p \<and> p \<le> b else if k = s then a \<le> p else if k = e then p \<le> b else s < k \<and> k < e)"
    using w assms(3) by (simp add: range_mask_def Let_def)
  have "start \<le> 32 * k + p \<longleftrightarrow> s < k \<or> s = k \<and> a \<le> p" using d assms(3) by linarith
  moreover have "32 * k + p < start + len \<longleftrightarrow> k < e \<or> k = e \<and> p \<le> b" using d assms(1,3) by linarith
  moreover have "s \<le> e" using d assms(1) by linarith
  ultimately show ?thesis unfolding m by auto
qed
lemma word_with_nth: "word_with f i ws = Some ws' \<longleftrightarrow> i < length ws \<and> ws' = ws[i := f (ws ! i)]"
  by (auto simp: word_with_def)

lemma three_parts:
  assumes "sw < ew" "ew < length ws"
  shows "Option.bind (word_with f sw ws) (\<lambda>ws. Option.bind (fill_words w (sw + 1) (ew - sw - 1) ws) (word_with g ew)) =
    Some (map (\<lambda>k. if k = sw then f (ws ! k) else if k = ew then g (ws ! k) else if sw < k \<and> k < ew then w else ws ! k) [0..<length ws])"
proof -
  have f: "fill_words w (Suc sw) (ew - Suc sw) (ws[sw := x]) =
      Some (take (Suc sw) (ws[sw := x]) @ replicate (ew - Suc sw) w @ drop ew (ws[sw := x]))" for x
  proof (cases "ew = Suc sw")
    case True
    then show ?thesis using append_take_drop_id [of "Suc sw" "ws[sw := x]"] by (simp add: fill_words_def)
  qed (use assms in \<open>auto simp: fill_words_def\<close>)
  have n: "(take (Suc sw) (ws[sw := x]) @ replicate (ew - Suc sw) w @ drop ew (ws[sw := x])) ! k =
      (if k = sw then x else if sw < k \<and> k < ew then w else ws ! k)" if "k < length ws" for x k
    using assms that by (auto simp: nth_append min_def)
  show ?thesis
    using assms n [of _ "f (ws ! sw)"]
    by (simp add: word_with_def f) (auto intro!: nth_equalityI simp: nth_list_update)
qed

definition wf_bits :: "bitfield \<Rightarrow> bool" where
  "wf_bits b \<longleftrightarrow> numBits b < 2 ^ 31 \<and>
    (numBits b = 0 \<and> inlineBits b = 0 \<or> numBits b = 32 \<or> numBits b > 32 \<and> length (bits b) = alloc_words (nat (numBits b)))"

text \<open>The bit with an index, and the words of a bit field, inside or outside.\<close>

definition bit_at :: "bitfield \<Rightarrow> nat \<Rightarrow> bool" where
  "bit_at b i \<longleftrightarrow> place (if numBits b > 32 then bits b ! (i div 32) else inlineBits b) (i mod 32)"

lemma Test_bit_at: "wf_bits b \<Longrightarrow> int i < numBits b \<Longrightarrow> Test b i = Some (bit_at b i)"
  by (auto simp: Test_def the_word_def BF_NUM_INLINE_BITS_def wf_bits_def bit_at_def and_top alloc_words_def)

lemma not_too_far: "wf_bits b \<Longrightarrow> int (start + len) \<le> numBits b \<Longrightarrow> \<not> too_far b start len"
proof -
  assume "wf_bits b" "int (start + len) \<le> numBits b"
  then have "int (start + len) < 2 ^ 31" by (simp add: wf_bits_def)
  then have "sint (word_of_nat (start + len) :: u32) = int (start + len)"
    by (simp only: signed_of_nat) (simp add: signed_take_bit_int_eq_self)
  then show ?thesis using \<open>int (start + len) \<le> numBits b\<close> by (simp add: too_far_def)
qed

text \<open>The changes of single words and of whole ones together: one operation on every word with its part of the range.\<close>

lemma words_op:
  assumes "sw \<le> ew" "ew < length ws" "\<And>w. F w 0 = w" "\<And>w. F w (- 1) = full"
    "\<And>k. M k = (if k = sw \<and> k = ew then l AND r else if k = sw then l else if k = ew then r else if sw < k \<and> k < ew then - 1 else 0)"
  shows "(if sw = ew then word_with (\<lambda>w. F w (l AND r)) sw ws
     else Option.bind (word_with (\<lambda>w. F w l) sw ws) (\<lambda>ws. Option.bind (fill_words full (sw + 1) (ew - sw - 1) ws) (word_with (\<lambda>w. F w r) ew))) =
    Some (map (\<lambda>k. F (ws ! k) (M k)) [0..<length ws])"
proof (cases "sw = ew")
  case True
  then show ?thesis
    using assms(2,3) by (auto simp: word_with_def assms(5) nth_list_update intro!: nth_equalityI)
next
  case False
  then have "(map (\<lambda>k. if k = sw then F (ws ! k) l else if k = ew then F (ws ! k) r else if sw < k \<and> k < ew then full else ws ! k) [0..<length ws]) =
      map (\<lambda>k. F (ws ! k) (M k)) [0..<length ws]"
    using assms(3,4) by (auto simp: assms(5))
  then show ?thesis using False assms(1,2) three_parts [of sw ew ws "\<lambda>w. F w l" full "\<lambda>w. F w r"] by simp
qed

lemma range_op:
  assumes "wf_bits b" "len > 0" "int (start + len) \<le> numBits b"
  shows "Set_range b start len = Some (if is_inline b then b\<lparr>inlineBits := inlineBits b OR range_mask start len 0\<rparr>
      else b\<lparr>bits := map (\<lambda>k. bits b ! k OR range_mask start len k) [0..<length (bits b)]\<rparr>, B_OK)" (is ?S)
    "Clear_range b start len = Some (if is_inline b then b\<lparr>inlineBits := inlineBits b AND NOT (range_mask start len 0)\<rparr>
      else b\<lparr>bits := map (\<lambda>k. bits b ! k AND NOT (range_mask start len k)) [0..<length (bits b)]\<rparr>, B_OK)" (is ?C)
proof -
  define info where "info = compute_masks start len"
  have lt: "start + len < 2 ^ 32" using assms by (simp add: wf_bits_def)
  note m = masks_inside [OF assms(2) lt, folded info_def]
  have t: "\<not> too_far b start len" using not_too_far assms by blast
  have "start div 32 \<le> (start + len - 1) div 32" using assms(2) by (intro div_le_mono) simp
  then have se: "startWord info \<le> endWord info" by (simp only: m)
  have ew: "endWord info < length (bits b)" if "\<not> is_inline b"
    using that assms by (simp only: m) (auto simp: is_inline_def BF_NUM_INLINE_BITS_def wf_bits_def alloc_words_def)
  have z: "startWord info = 0 \<and> endWord info = 0" if "is_inline b"
    using that assms by (simp only: m) (auto simp: is_inline_def BF_NUM_INLINE_BITS_def)
  have nw: "numWords info = endWord info - startWord info - 1" by (simp only: m)
  have M: "range_mask start len k = (if k = startWord info \<and> k = endWord info then leftMask info AND rightMask info
      else if k = startWord info then leftMask info else if k = endWord info then rightMask info
      else if startWord info < k \<and> k < endWord info then - 1 else 0)" for k
    by (simp add: range_mask_def Let_def info_def)
  have S: "\<not> is_inline b \<Longrightarrow> ?S"
    using words_op [OF se ew, of "\<lambda>w m. w OR m" "0xFFFFFFFF" "range_mask start len"] M nw t
    by (auto simp: Set_range_def Let_def info_def [symmetric] split: if_splits)
  have C: "\<not> is_inline b \<Longrightarrow> ?C"
    using words_op [OF se ew, of "\<lambda>w m. w AND NOT m" "0" "range_mask start len"] M nw t
    by (auto simp: Clear_range_def Let_def info_def [symmetric] split: if_splits)
  have m0: "is_inline b \<Longrightarrow> range_mask start len 0 = leftMask info AND rightMask info" using z by (simp add: M)
  show ?S using S m0 t by (cases "is_inline b") (simp_all add: Set_range_def Let_def info_def)
  show ?C using C m0 t by (cases "is_inline b") (simp_all add: Clear_range_def Let_def info_def)
qed

section \<open>The bits of a field\<close>

definition bits_of :: "bitfield \<Rightarrow> bool list" where
  "bits_of b = map (bit_at b) [0..<nat (numBits b)]"

lemma length_bits_of [simp]: "length (bits_of b) = nat (numBits b)"
  by (simp add: bits_of_def)

lemma nth_bits_of [simp]: "int i < numBits b \<Longrightarrow> bits_of b ! i = bit_at b i"
  by (simp add: bits_of_def)

lemma bits_of_eqI:
  assumes "length l = nat (numBits b)" "\<And>i. int i < numBits b \<Longrightarrow> bit_at b i = l ! i"
  shows "bits_of b = l"
  using assms by (intro nth_equalityI) auto

lemma alloc_words_small: "n < 2 ^ 31 \<Longrightarrow> alloc_words n = (n + 31) div 32"
  by (simp add: alloc_words_def)

lemma word_inside: "wf_bits b \<Longrightarrow> int i < numBits b \<Longrightarrow> numBits b > 32 \<Longrightarrow> i div 32 < length (bits b)"
  by (auto simp: wf_bits_def alloc_words_small)

lemma the_word_at:
  assumes "wf_bits b" "int i < numBits b"
  obtains w where "the_word b i = Some w" "\<And>j. int j < numBits b \<Longrightarrow> j div 32 = i div 32 \<Longrightarrow> bit_at b j = place w (j mod 32)"
proof (cases "numBits b > 32")
  case True
  then show ?thesis using word_inside assms that by (simp add: the_word_def BF_NUM_INLINE_BITS_def bit_at_def)
qed (simp add: that the_word_def BF_NUM_INLINE_BITS_def bit_at_def)

lemma bit_at_put:
  assumes "wf_bits b" "int i < numBits b" "int j < numBits b"
  shows "bit_at (put_word b i w) j = (if j div 32 = i div 32 then place w (j mod 32) else bit_at b j)"
proof (cases "numBits b > 32")
  case True
  then have "i div 32 < length (bits b)" using word_inside assms by simp
  then show ?thesis using True by (simp add: bit_at_def put_word_def BF_NUM_INLINE_BITS_def nth_list_update)
next
  case False
  then have "j div 32 = i div 32" using assms by (auto simp: wf_bits_def)
  then show ?thesis using False by (simp add: bit_at_def put_word_def BF_NUM_INLINE_BITS_def)
qed

lemma wf_put: "wf_bits b \<Longrightarrow> int i < numBits b \<Longrightarrow> wf_bits (put_word b i w) \<and> numBits (put_word b i w) = numBits b"
  by (auto simp: wf_bits_def put_word_def BF_NUM_INLINE_BITS_def)

lemma same_word: "i div 32 = j div 32 \<Longrightarrow> (i mod 32 = j mod 32) = (i = (j :: nat))"
  by (metis div_mult_mod_eq)

lemma bits_of_put:
  assumes "wf_bits b" "int i < numBits b" "\<And>j. int j < numBits b \<Longrightarrow> j div 32 = i div 32 \<Longrightarrow> place w (j mod 32) = (if j = i then v else bit_at b j)"
  shows "bits_of (put_word b i w) = (bits_of b)[i := v]"
proof (rule bits_of_eqI)
  fix j assume "int j < numBits (put_word b i w)"
  then have j: "int j < numBits b" using wf_put [OF assms(1,2)] by simp
  then show "bit_at (put_word b i w) j = (bits_of b)[i := v] ! j"
    unfolding bit_at_put [OF assms(1,2) j] using assms(2,3) by (auto simp: nth_list_update)
qed (use wf_put [OF assms(1,2)] in simp)

lemma single_bits:
  assumes "wf_bits b" "int i < numBits b"
  shows "Test b i = Some (bits_of b ! i)"
    "\<exists>b'. Set_bit b i = Some b' \<and> wf_bits b' \<and> bits_of b' = (bits_of b)[i := True]"
    "\<exists>b'. Clear_bit b i = Some b' \<and> wf_bits b' \<and> bits_of b' = (bits_of b)[i := False]"
    "\<exists>b'. TestAndSet b i = Some (b', bits_of b ! i) \<and> wf_bits b' \<and> bits_of b' = (bits_of b)[i := True]"
proof -
  obtain w where w: "the_word b i = Some w" "\<And>j. int j < numBits b \<Longrightarrow> j div 32 = i div 32 \<Longrightarrow> bit_at b j = place w (j mod 32)"
    using the_word_at [OF assms] by blast
  have s: "bits_of (put_word b i (w OR top_shifted i)) = (bits_of b)[i := True]"
    using w(2) by (intro bits_of_put assms) (auto simp: place_top same_word)
  have c: "bits_of (put_word b i (w AND NOT (top_shifted i))) = (bits_of b)[i := False]"
    using w(2) by (intro bits_of_put assms) (auto simp: place_top same_word)
  have t: "(w AND top_shifted i \<noteq> 0) = bits_of b ! i" using w(2) [of i] assms by (simp add: and_top)
  show "Test b i = Some (bits_of b ! i)" using t by (simp add: Test_def w(1))
  show "\<exists>b'. Set_bit b i = Some b' \<and> wf_bits b' \<and> bits_of b' = (bits_of b)[i := True]"
    using s wf_put [OF assms] by (simp add: Set_bit_def w(1))
  show "\<exists>b'. Clear_bit b i = Some b' \<and> wf_bits b' \<and> bits_of b' = (bits_of b)[i := False]"
    using c wf_put [OF assms] by (simp add: Clear_bit_def w(1))
  show "\<exists>b'. TestAndSet b i = Some (b', bits_of b ! i) \<and> wf_bits b' \<and> bits_of b' = (bits_of b)[i := True]"
    using s t wf_put [OF assms] by (simp add: TestAndSet_def w(1))
qed

text \<open>A range of a list of bits set to one value.\<close>

definition fill_bits :: "bool \<Rightarrow> nat \<Rightarrow> nat \<Rightarrow> bool list \<Rightarrow> bool list" where
  "fill_bits v start len l = take start l @ replicate len v @ drop (start + len) l"

lemma nth_fill_bits:
  "start + len \<le> length l \<Longrightarrow> i < length l \<Longrightarrow> fill_bits v start len l ! i = (if start \<le> i \<and> i < start + len then v else l ! i)"
  by (auto simp: fill_bits_def nth_append min_def)

lemma length_fill_bits [simp]: "start + len \<le> length l \<Longrightarrow> length (fill_bits v start len l) = length l"
  by (simp add: fill_bits_def)

lemma bit_at_words:
  assumes "wf_bits b" "int i < numBits b"
  shows "bit_at (if is_inline b then b\<lparr>inlineBits := g (inlineBits b) 0\<rparr>
      else b\<lparr>bits := map (\<lambda>k. g (bits b ! k) k) [0..<length (bits b)]\<rparr>) i
    = place (g (if is_inline b then inlineBits b else bits b ! (i div 32)) (i div 32)) (i mod 32)"
  using assms word_inside [OF assms] by (auto simp: bit_at_def is_inline_def BF_NUM_INLINE_BITS_def wf_bits_def)

lemma wf_words:
  assumes "wf_bits b" "numBits b > 0"
    "c = (if is_inline b then b\<lparr>inlineBits := w\<rparr> else b\<lparr>bits := map g [0..<length (bits b)]\<rparr>)"
  shows "wf_bits c" "numBits c = numBits b"
  using assms by (auto simp: is_inline_def BF_NUM_INLINE_BITS_def wf_bits_def)

lemma range_bits:
  assumes "wf_bits b" "len > 0" "int (start + len) \<le> numBits b"
  shows "\<exists>b'. Set_range b start len = Some (b', B_OK) \<and> wf_bits b' \<and> numBits b' = numBits b \<and> bits_of b' = fill_bits True start len (bits_of b)"
    "\<exists>b'. Clear_range b start len = Some (b', B_OK) \<and> wf_bits b' \<and> numBits b' = numBits b \<and> bits_of b' = fill_bits False start len (bits_of b)"
proof -
  have n: "numBits b > 0" "start + len \<le> length (bits_of b)" using assms by simp_all
  have lt: "start + len < 2 ^ 32" using assms by (simp add: wf_bits_def)
  have m: "place (range_mask start len (i div 32)) (i mod 32) \<longleftrightarrow> start \<le> i \<and> i < start + len" for i
    using place_range_mask [OF assms(2) lt] by simp
  have old: "place (if is_inline b then inlineBits b else bits b ! (i div 32)) (i mod 32) = bit_at b i" for i
    by (simp add: bit_at_def is_inline_def BF_NUM_INLINE_BITS_def)
  have filled: "\<exists>b'. Some (if is_inline b then b\<lparr>inlineBits := g (inlineBits b) 0\<rparr>
        else b\<lparr>bits := map (\<lambda>k. g (bits b ! k) k) [0..<length (bits b)]\<rparr>, B_OK) = Some (b', B_OK) \<and>
      wf_bits b' \<and> numBits b' = numBits b \<and> bits_of b' = fill_bits v start len (bits_of b)"
    if g: "\<And>w k p. p < 32 \<Longrightarrow> place (g w k) p = (if place (range_mask start len k) p then v else place w p)" for g v
  proof -
    define c where "c = (if is_inline b then b\<lparr>inlineBits := g (inlineBits b) 0\<rparr>
      else b\<lparr>bits := map (\<lambda>k. g (bits b ! k) k) [0..<length (bits b)]\<rparr>)"
    note w = wf_words [OF assms(1) n(1) c_def]
    have "bits_of c = fill_bits v start len (bits_of b)"
    proof (rule bits_of_eqI)
      fix i assume "int i < numBits c"
      then have i: "int i < numBits b" by (simp add: w)
      show "bit_at c i = fill_bits v start len (bits_of b) ! i"
        using i n by (simp add: c_def bit_at_words [OF assms(1) i, of g] g m old nth_fill_bits)
    qed (use n w in simp)
    then show ?thesis using w by (simp add: c_def [symmetric])
  qed
  show "\<exists>b'. Set_range b start len = Some (b', B_OK) \<and> wf_bits b' \<and> numBits b' = numBits b \<and> bits_of b' = fill_bits True start len (bits_of b)"
    unfolding range_op(1) [OF assms] by (rule filled [of "\<lambda>w k. w OR range_mask start len k"]) auto
  show "\<exists>b'. Clear_range b start len = Some (b', B_OK) \<and> wf_bits b' \<and> numBits b' = numBits b \<and> bits_of b' = fill_bits False start len (bits_of b)"
    unfolding range_op(2) [OF assms] by (rule filled [of "\<lambda>w k. w AND NOT (range_mask start len k)"]) auto
qed

section \<open>The first bit of a field\<close>

definition highest :: "u32 \<Rightarrow> nat \<Rightarrow> bool" where
  "highest w h \<longleftrightarrow> bit w h \<and> (\<forall>n > h. \<not> bit w n)"

lemma upper_half:
  assumes "highest w h" "h < k + k" "m = push_bit k (mask k)"
  shows "w AND m \<noteq> 0 \<longleftrightarrow> k \<le> h"
proof
  assume "w AND m \<noteq> 0"
  then obtain n where "bit (w AND m) n" by (metis bit_eqI bit_0_eq bot_apply bot_bool_def)
  then have "bit w n" "k \<le> n" by (auto simp: assms(3) bit_simps)
  then show "k \<le> h" using assms(1) by (meson highest_def leI le_trans)
next
  assume k: "k \<le> h"
  have b: "bit w h" "h < 32" using assms(1) bit_imp_le_length [of w h] by (auto simp: highest_def)
  then have "bit (w AND m) h" using k assms(2) by (auto simp: assms(3) bit_simps)
  then show "w AND m \<noteq> 0" by (metis bit_0_eq bot_apply bot_bool_def)
qed

lemma halving:
  assumes "highest w h" "h < k + k" "m = push_bit k (mask k)" "b - int h = c" "int k = i"
  obtains w' b' h' where "(if w AND m \<noteq> 0 then (drop_bit k w, b - i) else (w, b)) = (w', b')"
    "highest w' h'" "h' < k" "b' - int h' = c"
proof (cases "k \<le> h")
  case True
  then have "highest (drop_bit k w) (h - k)" using assms(1) by (auto simp: highest_def bit_drop_bit_eq)
  then show ?thesis using True assms(2,4,5) upper_half [OF assms(1-3)] that [of "drop_bit k w" "b - i" "h - k"] by auto
next
  case False
  then show ?thesis using assms upper_half [OF assms(1-3)] that [of w b h] by auto
qed

lemma word_set_highest:
  assumes "highest w h"
  shows "word_set w = 31 - int h"
proof -
  have m: "(0xFFFF0000 :: u32) = push_bit 16 (mask 16)" "(0x0000FF00 :: u32) = push_bit 8 (mask 8)"
    "(0x000000F0 :: u32) = push_bit 4 (mask 4)" "(0x0000000C :: u32) = push_bit 2 (mask 2)" "(0x00000002 :: u32) = push_bit 1 (mask 1)"
    by code_simp+
  have h: "h < 16 + 16" using assms bit_imp_le_length [of w h] by (auto simp: highest_def)
  have b: "(31 :: int) - int h = 31 - int h" by (rule refl)
  have s: "(16 :: nat) = 8 + 8" "(8 :: nat) = 4 + 4" "(4 :: nat) = 2 + 2" "(2 :: nat) = 1 + 1" by simp_all
  obtain w1 b1 h1 where 1: "(if w AND 0xFFFF0000 \<noteq> 0 then (drop_bit 16 w, 31 - 16) else (w, 31)) = (w1, b1)"
    "highest w1 h1" "h1 < 8 + 8" "b1 - int h1 = 31 - int h"
    using halving [OF assms h m(1) b of_nat_numeral] by (metis s(1))
  obtain w2 b2 h2 where 2: "(if w1 AND 0x0000FF00 \<noteq> 0 then (drop_bit 8 w1, b1 - 8) else (w1, b1)) = (w2, b2)"
    "highest w2 h2" "h2 < 4 + 4" "b2 - int h2 = 31 - int h"
    using halving [OF 1(2,3) m(2) 1(4) of_nat_numeral] by (metis s(2))
  obtain w3 b3 h3 where 3: "(if w2 AND 0x000000F0 \<noteq> 0 then (drop_bit 4 w2, b2 - 4) else (w2, b2)) = (w3, b3)"
    "highest w3 h3" "h3 < 2 + 2" "b3 - int h3 = 31 - int h"
    using halving [OF 2(2,3) m(3) 2(4) of_nat_numeral] by (metis s(3))
  obtain w4 b4 h4 where 4: "(if w3 AND 0x0000000C \<noteq> 0 then (drop_bit 2 w3, b3 - 2) else (w3, b3)) = (w4, b4)"
    "highest w4 h4" "h4 < 1 + 1" "b4 - int h4 = 31 - int h"
    using halving [OF 3(2,3) m(4) 3(4) of_nat_numeral] by (metis s(4))
  obtain w5 b5 h5 where 5: "(if w4 AND 0x00000002 \<noteq> 0 then (drop_bit 1 w4, b4 - 1) else (w4, b4)) = (w5, b5)"
    "h5 < 1" "b5 - int h5 = 31 - int h"
    using halving [OF 4(2,3) m(5) 4(4) of_nat_1] by metis
  have "word_set w = b5"
    by (simp only: word_set_def 1(1) Let_def prod.case 2(1) 3(1) 4(1) 5(1))
  then show ?thesis using 5(2,3) by simp
qed

lemma word_set_first:
  assumes "w \<noteq> 0"
  obtains p where "p < 32" "word_set w = int p" "place w p" "\<And>q. q < p \<Longrightarrow> \<not> place w q"
proof -
  have "\<exists>n. bit w n" using assms by (metis bit_eqI bit_0_eq bot_apply bot_bool_def)
  then obtain n0 where n0: "bit w n0" by blast
  have lt: "bit w n \<Longrightarrow> n \<le> 31" for n using bit_imp_le_length [of w n] by simp
  obtain h where h: "bit w h" "\<And>n. bit w n \<Longrightarrow> n \<le> h"
    using Nat.ex_has_greatest_nat [of "bit w" n0 31] n0 lt by auto
  then have "highest w h" by (auto simp: highest_def dest: leD)
  then have "word_set w = int (31 - h)" using word_set_highest lt [OF h(1)] by simp
  moreover have "place w (31 - h)" using h(1) lt [OF h(1)] by (simp add: place_def)
  moreover have "\<not> place w q" if "q < 31 - h" for q using h(2) [of "31 - q"] that by (auto simp: place_def)
  ultimately show ?thesis by (intro that [of "31 - h"]) auto
qed

lemma search_words_first:
  "n \<le> length ws \<Longrightarrow>
    (\<exists>k < n. f (ws ! k) \<noteq> 0 \<and> (\<forall>j < k. f (ws ! j) = 0) \<and> search_words f i n ws = Some (int (i + k) * 32 + word_set (f (ws ! k))))
    \<or> (\<forall>k < n. f (ws ! k) = 0) \<and> search_words f i n ws = Some (- 1)"
proof (induction f i n ws rule: search_words.induct)
  case (3 f i n w ws)
  show ?case
  proof (cases "f w = 0")
    case True
    with 3 consider k where "k < n" "f (ws ! k) \<noteq> 0" "\<forall>j < k. f (ws ! j) = 0" "search_words f (i + 1) n ws = Some (int (i + 1 + k) * 32 + word_set (f (ws ! k)))"
      | "\<forall>k < n. f (ws ! k) = 0" "search_words f (i + 1) n ws = Some (- 1)" by auto
    then show ?thesis
    proof cases
      case 1
      then show ?thesis using True by (intro disjI1 exI [of _ "Suc k"]) (auto simp: less_Suc_eq_0_disj)
    qed (use True in \<open>auto simp: less_Suc_eq_0_disj\<close>)
  qed auto
qed auto

text \<open>The index of the first bit with a value, or -1.\<close>

definition first_of :: "bool \<Rightarrow> bool list \<Rightarrow> int" where
  "first_of v l = (if v \<in> set l then int (length (takeWhile (\<lambda>x. x \<noteq> v) l)) else - 1)"

lemma first_ofI: "i < length l \<Longrightarrow> l ! i = v \<Longrightarrow> (\<And>j. j < i \<Longrightarrow> l ! j \<noteq> v) \<Longrightarrow> first_of v l = int i"
  using nth_mem [of i l] by (auto simp: first_of_def takeWhile_eq_take_P_nth [where n = i])

lemma first_in_words:
  assumes "wf_bits b" "numBits b > 32" "nat (numBits b) mod 32 = 0" "\<And>w p. p < 32 \<Longrightarrow> place (f w) p \<longleftrightarrow> place w p = v"
  shows "search_words f 0 (nat (numBits b) div 32) (bits b) = Some (first_of v (bits_of b))"
proof -
  define n where "n = nat (numBits b) div 32"
  have n: "numBits b = int (32 * n)" using assms(2,3) div_mult_mod_eq [of "nat (numBits b)" 32] by (simp only: n_def)
  then have len: "n \<le> length (bits b)" using assms(1,2) by (auto simp: wf_bits_def alloc_words_small)
  have at: "bits_of b ! i = place (bits b ! (i div 32)) (i mod 32)" if "i < 32 * n" for i
    using that n assms(2) by (simp add: bit_at_def)
  have zero: "f (bits b ! k) = 0 \<longleftrightarrow> (\<forall>p < 32. bits_of b ! (32 * k + p) \<noteq> v)" if "k < n" for k
  proof -
    have "bits_of b ! (32 * k + p) = v \<longleftrightarrow> place (f (bits b ! k)) p" if "p < 32" for p
      using \<open>k < n\<close> that assms(4) [of p "bits b ! k"] by (simp add: at)
    then show ?thesis using nonzero_place [of "f (bits b ! k)"] by blast
  qed
  from search_words_first [OF len, of f 0] consider
      k where "k < n" "f (bits b ! k) \<noteq> 0" "\<forall>j < k. f (bits b ! j) = 0"
        "search_words f 0 n (bits b) = Some (int (0 + k) * 32 + word_set (f (bits b ! k)))"
    | "\<forall>k < n. f (bits b ! k) = 0" "search_words f 0 n (bits b) = Some (- 1)" by blast
  then show ?thesis
  proof cases
    case 1
    obtain p where p: "p < 32" "word_set (f (bits b ! k)) = int p" "place (f (bits b ! k)) p" "\<And>q. q < p \<Longrightarrow> \<not> place (f (bits b ! k)) q"
      using word_set_first [OF 1(2)] by blast
    have "first_of v (bits_of b) = int (32 * k + p)"
    proof (rule first_ofI)
      show "bits_of b ! (32 * k + p) = v" using 1(1) p(1,3) by (simp add: at assms(4))
      fix j assume j: "j < 32 * k + p"
      show "bits_of b ! j \<noteq> v"
      proof (cases "j div 32 < k")
        case True
        then have "f (bits b ! (j div 32)) = 0" "j div 32 < n" using 1 by auto
        then show ?thesis using zero [of "j div 32"] by (metis mod_less_divisor mult_div_mod_eq zero_less_numeral)
      next
        case False
        define q where "q = j mod 32"
        have q: "j = 32 * (j div 32) + q" "q < 32" by (simp_all add: q_def)
        then have k: "j div 32 = k" using False j p(1) by linarith
        then have "q < p" using q j by linarith
        moreover have "j < 32 * n" using j 1(1) p(1) by linarith
        ultimately show ?thesis using p(4) [of q] at [of j] assms(4) [OF q(2), of "bits b ! k"] k by (simp add: q_def)
      qed
    qed (use n 1(1) p(1) in simp)
    then show ?thesis using 1(4) p(2) by (simp add: n_def [symmetric])
  next
    case 2
    have "v \<notin> set (bits_of b)"
    proof
      assume "v \<in> set (bits_of b)"
      then obtain i where i: "i < 32 * n" "bits_of b ! i = v" using n by (metis in_set_conv_nth length_bits_of nat_int)
      then have "i div 32 < n" by simp
      then show False using 2(1) zero [of "i div 32"] i(2) by (metis mod_less_divisor mult_div_mod_eq zero_less_numeral)
    qed
    then show ?thesis using 2(2) by (simp add: n_def [symmetric] first_of_def)
  qed
qed

lemma first_inline:
  assumes "wf_bits b" "numBits b = 32" "\<And>p. p < 32 \<Longrightarrow> place w p \<longleftrightarrow> place (inlineBits b) p = v"
  shows "(if w \<noteq> 0 then word_set w else - 1) = first_of v (bits_of b)"
proof (cases "w = 0")
  case True
  then have "v \<notin> set (bits_of b)"
    using nonzero_place [of w] assms by (auto simp: in_set_conv_nth bit_at_def)
  then show ?thesis using True by (simp add: first_of_def)
next
  case False
  obtain p where p: "p < 32" "word_set w = int p" "place w p" "\<And>q. q < p \<Longrightarrow> \<not> place w q"
    using word_set_first [OF False] by blast
  have "first_of v (bits_of b) = int p"
    using p assms by (intro first_ofI) (auto simp: bit_at_def)
  then show ?thesis using False p(2) by simp
qed

lemma First_bits:
  assumes "wf_bits b" "length (bits_of b) mod 32 = 0"
  shows "FirstSet b = Some (first_of True (bits_of b))"
    "bits_of b \<noteq> [] \<Longrightarrow> FirstClear b = Some (first_of False (bits_of b))"
proof -
  have m: "nat (numBits b) mod 32 = 0" using assms(2) by simp
  have ne: "bits_of b \<noteq> [] \<longleftrightarrow> numBits b > 0" by (simp add: bits_of_def not_le)
  have e: "numBits b = 0 \<Longrightarrow> first_of True (bits_of b) = - 1" by (simp add: bits_of_def first_of_def)
  show "FirstSet b = Some (first_of True (bits_of b))"
    using assms(1) m first_in_words [OF assms(1), of id True] first_inline [OF assms(1), of "inlineBits b" True]
    by (auto simp: FirstSet_def is_inline_def BF_NUM_INLINE_BITS_def wf_bits_def e)
  show "FirstClear b = Some (first_of False (bits_of b))" if "bits_of b \<noteq> []"
    using assms(1) that m ne first_in_words [OF assms(1), of "\<lambda>w. NOT w" False] first_inline [OF assms(1), of "NOT (inlineBits b)" False]
    by (auto simp: FirstClear_def is_inline_def BF_NUM_INLINE_BITS_def wf_bits_def)
qed

section \<open>Resize on the bits\<close>

definition resize_bits :: "nat \<Rightarrow> bool list \<Rightarrow> bool list" where
  "resize_bits n l =
    (let m = (if n > 32 then n else if l = [] \<and> n = 0 then 0 else 32) in
     take m l @ replicate (m - length l) False)"

lemma sint_small: "n < 2 ^ 31 \<Longrightarrow> sint (word_of_nat n :: u32) = int n"
  by (simp only: signed_of_nat) (simp add: signed_take_bit_int_eq_self)

lemma resize_words_simps [simp]:
  "length (resize_words fresh ws n) = n" "i < n \<Longrightarrow> i < length ws \<Longrightarrow> resize_words fresh ws n ! i = ws ! i"
  by (simp_all add: resize_words_def)

text \<open>A field in a block whose first bits are those of the old one; the rest is cleared.\<close>

lemma grown_cleared:
  assumes "wf_bits c" "int n = numBits c" "numBits c > 32" "old < n" "length l = old" "\<And>i. i < old \<Longrightarrow> bit_at c i = l ! i"
  shows "\<exists>b' r. Clear_range c (nat (int old mod 2 ^ 32)) (nat ((int n - int old) mod 2 ^ 32)) = Some (b', r) \<and> wf_bits b' \<and>
    bits_of b' = l @ replicate (n - old) False"
proof -
  have s: "n < 2 ^ 31" using assms(1,2) by (simp add: wf_bits_def)
  have a: "nat (int old mod 2 ^ 32) = old" "nat ((int n - int old) mod 2 ^ 32) = n - old" using assms(4) s by simp_all
  obtain b' where b': "Clear_range c old (n - old) = Some (b', B_OK)" "wf_bits b'" "bits_of b' = fill_bits False old (n - old) (bits_of c)"
    using range_bits(2) [OF assms(1), of "n - old" old] assms(2,4) by auto
  have "take old (bits_of c) = l" using assms(2,4-6) by (intro nth_equalityI) (auto simp: bits_of_def)
  moreover have "drop (old + (n - old)) (bits_of c) = []" using assms(2,4) by simp
  ultimately have "bits_of b' = l @ replicate (n - old) False" using b'(3) by (simp only: fill_bits_def append_Nil2)
  then show ?thesis unfolding a using b'(1,2) by blast
qed

lemma shrink_bits:
  assumes "wf_bits b" "int n \<le> numBits b"
  shows "\<exists>b'. Resize room fresh b n = Some (b', B_OK) \<and> wf_bits b' \<and> bits_of b' = resize_bits n (bits_of b)"
proof -
  have s: "n < 2 ^ 31" using assms by (simp add: wf_bits_def)
  have c: "sint (word_of_nat n :: u32) \<le> numBits b" using assms(2) by (simp add: sint_small [OF s])
  consider (inline) "is_inline b" | (home) w ws where "numBits b > 32" "n \<le> 32" "bits b = w # ws"
    | (block) "n > 32"
    using assms(1) by (cases "bits b") (fastforce simp: is_inline_def BF_NUM_INLINE_BITS_def wf_bits_def alloc_words_small)+
  then show ?thesis
  proof cases
    case inline
    then have "resize_bits n (bits_of b) = bits_of b"
      using assms by (auto simp: resize_bits_def is_inline_def BF_NUM_INLINE_BITS_def wf_bits_def bits_of_def)
    then show ?thesis using inline c assms(1) by (simp add: Resize_def)
  next
    case home
    let ?b = "b\<lparr>inlineBits := w, numBits := BF_NUM_INLINE_BITS, bits := []\<rparr>"
    have "bits_of ?b = resize_bits n (bits_of b)"
      using home by (intro bits_of_eqI) (auto simp: resize_bits_def BF_NUM_INLINE_BITS_def bit_at_def bits_of_def)
    then show ?thesis using home c by (auto simp: Resize_def is_inline_def BF_NUM_INLINE_BITS_def wf_bits_def)
  next
    case block
    let ?b = "b\<lparr>bits := resize_words fresh (bits b) (alloc_words n), numBits := int n\<rparr>"
    have w: "i div 32 < alloc_words n" "i div 32 < length (bits b)" if "i < n" for i
      using that block assms s word_inside [OF assms(1), of i] by (auto simp: alloc_words_small)
    have "bits_of ?b = resize_bits n (bits_of b)"
      using block assms w by (intro bits_of_eqI) (auto simp: resize_bits_def bit_at_def bits_of_def)
    moreover have "wf_bits ?b" using block s by (simp add: wf_bits_def)
    ultimately show ?thesis using block c assms by (auto simp: Resize_def is_inline_def BF_NUM_INLINE_BITS_def sint_small [OF s])
  qed
qed

lemma grow_bits:
  assumes "wf_bits b" "int n > numBits b" "n < 2 ^ 31" "is_inline b \<or> n mod 32 = 0" "\<forall>k. room k"
  shows "\<exists>b'. Resize room fresh b n = Some (b', B_OK) \<and> wf_bits b' \<and> bits_of b' = resize_bits n (bits_of b)"
proof -
  have c: "\<not> sint (word_of_nat n :: u32) \<le> numBits b" "sint (word_of_nat n :: u32) = int n"
    using assms(2) by (simp_all add: sint_small [OF assms(3)])
  have old: "int (nat (numBits b)) = numBits b" "nat (numBits b) < n" using assms(1,2) by (auto simp: wf_bits_def)
  have r: "resize_bits n (bits_of b) = bits_of b @ replicate (n - nat (numBits b)) False" if "n > 32"
    using that old by (simp add: resize_bits_def)
  consider (first) "n \<le> 32" | (out) "n > 32" "is_inline b" | (block) "n > 32" "\<not> is_inline b" by linarith
  then show ?thesis
  proof cases
    case first
    then have z: "numBits b = 0" "is_inline b" using assms(1,2) by (auto simp: wf_bits_def is_inline_def BF_NUM_INLINE_BITS_def)
    have "bits_of (b\<lparr>numBits := 32, inlineBits := 0\<rparr>) = resize_bits n (bits_of b)"
      using first assms(2) z by (intro bits_of_eqI) (auto simp: resize_bits_def bit_at_def bits_of_def)
    then show ?thesis using first z c by (simp add: Resize_def BF_NUM_INLINE_BITS_def wf_bits_def)
  next
    case out
    let ?c = "b\<lparr>bits := resize_words fresh [inlineBits b] (alloc_words n), numBits := int n\<rparr>"
    have "wf_bits ?c" using out assms(3) by (simp add: wf_bits_def)
    moreover have "bit_at ?c i = bits_of b ! i" if "i < nat (numBits b)" for i
      using that out assms(3) by (auto simp: bit_at_def is_inline_def BF_NUM_INLINE_BITS_def alloc_words_small)
    ultimately show ?thesis
      using grown_cleared [of ?c n "nat (numBits b)" "bits_of b"] old out c r assms(5)
      by (auto simp: Resize_def BF_NUM_INLINE_BITS_def)
  next
    case block
    let ?c = "b\<lparr>bits := resize_words fresh (bits b) (n div 32), numBits := int n\<rparr>"
    have "n div 32 = alloc_words n" using block assms(3,4) by (auto simp: alloc_words_small elim!: dvdE)
    then have "wf_bits ?c" using block assms(3) by (simp add: wf_bits_def)
    moreover have "bit_at ?c i = bits_of b ! i" if "i < nat (numBits b)" for i
    proof -
      have "i div 32 < length (bits b)" "i div 32 < n div 32"
        using that block assms word_inside [OF assms(1), of i] by (auto simp: is_inline_def BF_NUM_INLINE_BITS_def elim!: dvdE)
      then show ?thesis using that block by (auto simp: bit_at_def is_inline_def BF_NUM_INLINE_BITS_def)
    qed
    ultimately show ?thesis
      using grown_cleared [of ?c n "nat (numBits b)" "bits_of b"] old block c r assms(5)
      by (auto simp: Resize_def BF_NUM_INLINE_BITS_def)
  qed
qed

section \<open>New fields, copies and comparison\<close>

lemma length_resize_bits: "length (resize_bits n l) = (if n > 32 then n else if l = [] \<and> n = 0 then 0 else 32)"
  by (auto simp: resize_bits_def Let_def)

lemma wf_empty: "wf_bits empty_bitfield" "bits_of empty_bitfield = []"
  by (simp_all add: wf_bits_def empty_bitfield_def bits_of_def)

lemma Bitfield_new_bits:
  assumes "n < 2 ^ 31" "\<forall>k. room k"
  shows "\<exists>b. Bitfield_new room fresh n = Some b \<and> wf_bits b \<and> bits_of b = resize_bits n []"
proof (cases "n = 0")
  case False
  then have "int n > numBits empty_bitfield" "is_inline empty_bitfield"
    by (simp_all add: empty_bitfield_def is_inline_def BF_NUM_INLINE_BITS_def)
  then show ?thesis using grow_bits [OF wf_empty(1), of n room fresh] assms False wf_empty(2) by (auto simp: Bitfield_new_def)
qed (simp add: Bitfield_new_def wf_empty resize_bits_def)

lemma Bitfield_copy_bits:
  assumes "wf_bits c" "\<forall>k. room k"
  shows "\<exists>b. Bitfield_copy room fresh c = Some b \<and> wf_bits b \<and> bits_of b = bits_of c"
proof (cases "is_inline c")
  case True
  then show ?thesis using assms(1)
    by (auto simp: Bitfield_copy_def wf_bits_def is_inline_def BF_NUM_INLINE_BITS_def bits_of_def bit_at_def)
next
  case False
  define n where "n = nat (numBits c)"
  have n: "numBits c = int n" "n > 32" "n < 2 ^ 31" "length (bits c) = alloc_words n"
    using False assms(1) by (auto simp: n_def is_inline_def BF_NUM_INLINE_BITS_def wf_bits_def)
  obtain b where b: "Resize room fresh empty_bitfield n = Some (b, B_OK)" "wf_bits b" "bits_of b = resize_bits n []"
    using grow_bits [OF wf_empty(1), of n room fresh] n(2,3) assms(2)
    by (auto simp: empty_bitfield_def is_inline_def BF_NUM_INLINE_BITS_def wf_empty(2) [unfolded empty_bitfield_def])
  have "length (bits_of b) = n" using n(2) by (simp add: b(3) resize_bits_def)
  then have "length (bits b) = alloc_words n" using b(2) n(2) by (auto simp: wf_bits_def)
  then show ?thesis
    using False n b(1) assms(1) by (auto simp: Bitfield_copy_def is_inline_def BF_NUM_INLINE_BITS_def wf_bits_def bits_of_def bit_at_def)
qed

lemma words_equal_iff:
  "n \<le> length vs \<Longrightarrow> n \<le> length ws \<Longrightarrow> words_equal n vs ws = Some (\<forall>i < n. vs ! i = ws ! i)"
  by (induction n vs ws rule: words_equal.induct) (auto simp: All_less_Suc2)

lemma word_eq_places: "v = w \<longleftrightarrow> (\<forall>p < 32. place v p = place w p)"
  using place_eqI by blast

lemma Bitfield_eq_bits:
  assumes "wf_bits b" "wf_bits c" "numBits b > 32"
  shows "Bitfield_eq False b c = Some (bits_of b = bits_of c)"
proof (cases "numBits c = numBits b")
  case True
  define n where "n = nat (numBits b)"
  have n: "numBits b = int n" "n > 32" "n < 2 ^ 32" "length (bits b) = (n + 31) div 32" "length (bits c) = (n + 31) div 32"
    using assms True by (auto simp: n_def wf_bits_def alloc_words_small)
  define last r where "last = (n - 1) div 32" and "r = (n - 1) mod 32"
  have d: "n - 1 = 32 * last + r" "r < 32" by (simp_all add: last_def r_def)
  have "n + 31 = r + Suc last * 32" using n(2) d(1) by (cases n) simp_all
  then have len: "(n + 31) div 32 = Suc last" using d(2) by simp
  have m: "endWord (compute_masks 0 n) = last" "p < 32 \<Longrightarrow> place (rightMask (compute_masks 0 n)) p \<longleftrightarrow> p \<le> r" for p
    using masks_inside(2,4) [of n 0] n(2,3) place_masks(2) [of p r] d(2) by (simp_all add: last_def r_def)
  have at: "bits_of b ! i = place (bits b ! (i div 32)) (i mod 32)" "bits_of c ! i = place (bits c ! (i div 32)) (i mod 32)" if "i < n" for i
    using that n True by (simp_all add: bit_at_def)
  have "(\<forall>i < last. bits b ! i = bits c ! i) \<and> bits b ! last AND rightMask (compute_masks 0 n) = bits c ! last AND rightMask (compute_masks 0 n)
    \<longleftrightarrow> bits_of b = bits_of c" (is "?l \<and> ?m \<longleftrightarrow> _")
  proof
    assume e: "?l \<and> ?m"
    have "bits_of b ! i = bits_of c ! i" if i: "i < n" for i
    proof (cases "i div 32 < last")
      case False
      define q where "q = i mod 32"
      have q: "i = 32 * (i div 32) + q" "q < 32" by (simp_all add: q_def)
      then have "i div 32 = last" "q \<le> r" using False i d by linarith+
      then show ?thesis using e q(2) m(2) [OF q(2)] by (auto simp: at [OF i] word_eq_places q_def [symmetric])
    qed (use e in \<open>simp add: at [OF i]\<close>)
    then show "bits_of b = bits_of c" using n True by (intro nth_equalityI) simp_all
  next
    assume e: "bits_of b = bits_of c"
    have p: "place (bits b ! k) p = place (bits c ! k) p" if "32 * k + p < n" "p < 32" for k p
      using that e at [of "32 * k + p"] by simp
    show "?l \<and> ?m" using p d n(2) m(2) by (auto simp: word_eq_places)
  qed
  then show ?thesis
    using True n m(1) words_equal_iff [of last "bits b" "bits c"] len
    by (auto simp: Bitfield_eq_def is_inline_def BF_NUM_INLINE_BITS_def Let_def)
next
  case False
  then have "length (bits_of b) \<noteq> length (bits_of c)" using assms by (auto simp: wf_bits_def)
  then have "bits_of b \<noteq> bits_of c" by metis
  then show ?thesis using False by (simp add: Bitfield_eq_def)
qed

section \<open>Sessions of calls\<close>

text \<open>The calls of a client, run on the model and on the list of bits that the field stands for.\<close>

datatype bf_call = TestCall nat | SetCall nat | ClearCall nat | TestAndSetCall nat | SetRangeCall nat nat | ClearRangeCall nat nat
  | ResizeCall nat | FirstSetCall | FirstClearCall

datatype bf_answer = Silent | Flag bool | Number int

fun run_call :: "(nat \<Rightarrow> bool) \<Rightarrow> (nat \<Rightarrow> u32) \<Rightarrow> bf_call \<Rightarrow> bitfield \<Rightarrow> (bitfield \<times> bf_answer) option" where
  "run_call room fresh (TestCall i) b = map_option (\<lambda>v. (b, Flag v)) (Test b i)"
| "run_call room fresh (SetCall i) b = map_option (\<lambda>b. (b, Silent)) (Set_bit b i)"
| "run_call room fresh (ClearCall i) b = map_option (\<lambda>b. (b, Silent)) (Clear_bit b i)"
| "run_call room fresh (TestAndSetCall i) b = map_option (\<lambda>(b, v). (b, Flag v)) (TestAndSet b i)"
| "run_call room fresh (SetRangeCall s n) b = map_option (\<lambda>(b, r). (b, Number r)) (Set_range b s n)"
| "run_call room fresh (ClearRangeCall s n) b = map_option (\<lambda>(b, r). (b, Number r)) (Clear_range b s n)"
| "run_call room fresh (ResizeCall n) b = map_option (\<lambda>(b, r). (b, Number r)) (Resize room fresh b n)"
| "run_call room fresh FirstSetCall b = map_option (\<lambda>i. (b, Number i)) (FirstSet b)"
| "run_call room fresh FirstClearCall b = map_option (\<lambda>i. (b, Number i)) (FirstClear b)"

fun run_calls :: "(nat \<Rightarrow> bool) \<Rightarrow> (nat \<Rightarrow> u32) \<Rightarrow> bf_call list \<Rightarrow> bitfield \<Rightarrow> (bitfield \<times> bf_answer list) option" where
  "run_calls room fresh [] b = Some (b, [])"
| "run_calls room fresh (c # cs) b =
    Option.bind (run_call room fresh c b) (\<lambda>(b, a). map_option (\<lambda>(b, as). (b, a # as)) (run_calls room fresh cs b))"

fun bits_call :: "bf_call \<Rightarrow> bool list \<Rightarrow> bool list \<times> bf_answer" where
  "bits_call (TestCall i) l = (l, Flag (l ! i))"
| "bits_call (SetCall i) l = (l[i := True], Silent)"
| "bits_call (ClearCall i) l = (l[i := False], Silent)"
| "bits_call (TestAndSetCall i) l = (l[i := True], Flag (l ! i))"
| "bits_call (SetRangeCall s n) l = (if s + n \<le> length l then (fill_bits True s n l, Number B_OK) else (l, Number B_BAD_VALUE))"
| "bits_call (ClearRangeCall s n) l = (if s + n \<le> length l then (fill_bits False s n l, Number B_OK) else (l, Number B_BAD_VALUE))"
| "bits_call (ResizeCall n) l = (resize_bits n l, Number B_OK)"
| "bits_call FirstSetCall l = (l, Number (first_of True l))"
| "bits_call FirstClearCall l = (l, Number (first_of False l))"

fun bits_calls :: "bf_call list \<Rightarrow> bool list \<Rightarrow> bool list \<times> bf_answer list" where
  "bits_calls [] l = (l, [])"
| "bits_calls (c # cs) l = (let (l, a) = bits_call c l; (l, as) = bits_calls cs l in (l, a # as))"

text \<open>
  What the code needs of a call: an index inside the field, a range that is not empty, a field that grows out of a block only to
  whole words, and a search only of whole words.
\<close>

fun legal_call :: "bf_call \<Rightarrow> bool list \<Rightarrow> bool" where
  "legal_call (TestCall i) l = (i < length l)"
| "legal_call (SetCall i) l = (i < length l)"
| "legal_call (ClearCall i) l = (i < length l)"
| "legal_call (TestAndSetCall i) l = (i < length l)"
| "legal_call (SetRangeCall s n) l = (n > 0 \<and> s + n < 2 ^ 31)"
| "legal_call (ClearRangeCall s n) l = (n > 0 \<and> s + n < 2 ^ 31)"
| "legal_call (ResizeCall n) l = (n < 2 ^ 31 \<and> (n \<le> length l \<or> length l \<le> 32 \<or> n mod 32 = 0))"
| "legal_call FirstSetCall l = (length l mod 32 = 0)"
| "legal_call FirstClearCall l = (l \<noteq> [] \<and> length l mod 32 = 0)"

fun legal_calls :: "bf_call list \<Rightarrow> bool list \<Rightarrow> bool" where
  "legal_calls [] l = True"
| "legal_calls (c # cs) l = (legal_call c l \<and> legal_calls cs (fst (bits_call c l)))"

lemma too_far_iff: "start + len < 2 ^ 31 \<Longrightarrow> too_far b start len \<longleftrightarrow> int (start + len) > numBits b"
  by (simp only: too_far_def sint_small)

lemma wf_sizes: "wf_bits b \<Longrightarrow> numBits b \<ge> 0 \<and> (is_inline b \<longleftrightarrow> length (bits_of b) \<le> 32)"
  by (auto simp: wf_bits_def is_inline_def BF_NUM_INLINE_BITS_def)

lemma legal_call_runs:
  assumes "wf_bits b" "legal_call c (bits_of b)" "\<forall>k. room k"
  shows "\<exists>b'. run_call room fresh c b = Some (b', snd (bits_call c (bits_of b))) \<and> wf_bits b' \<and> bits_of b' = fst (bits_call c (bits_of b))"
proof -
  note w = wf_sizes [OF assms(1)]
  have ix: "int i < numBits b" if "i < length (bits_of b)" for i using that by simp
  show ?thesis
  proof (cases c)
    case (TestCall i)
    then show ?thesis using assms(1,2) single_bits(1) [OF assms(1) ix, of i] by simp
  next
    case (SetCall i)
    then show ?thesis using assms(1,2) single_bits(2) [OF assms(1) ix, of i] by auto
  next
    case (ClearCall i)
    then show ?thesis using assms(1,2) single_bits(3) [OF assms(1) ix, of i] by auto
  next
    case (TestAndSetCall i)
    then show ?thesis using assms(1,2) single_bits(4) [OF assms(1) ix, of i] by auto
  next
    case (SetRangeCall s n)
    then show ?thesis using assms(1,2) range_bits(1) [OF assms(1), of n s] too_far_iff [of s n b] w
      by (cases "s + n \<le> length (bits_of b)") (auto simp: Set_range_def)
  next
    case (ClearRangeCall s n)
    then show ?thesis using assms(1,2) range_bits(2) [OF assms(1), of n s] too_far_iff [of s n b] w
      by (cases "s + n \<le> length (bits_of b)") (auto simp: Clear_range_def)
  next
    case (ResizeCall n)
    then show ?thesis using assms(2,3) shrink_bits [OF assms(1), of n room fresh] grow_bits [OF assms(1), of n room fresh] w
      by (cases "int n \<le> numBits b") auto
  next
    case FirstSetCall
    then show ?thesis using assms(1,2) First_bits(1) [OF assms(1)] by simp
  next
    case FirstClearCall
    then show ?thesis using assms(1,2) First_bits(2) [OF assms(1)] by simp
  qed
qed

lemma legal_calls_run:
  "wf_bits b \<Longrightarrow> legal_calls cs (bits_of b) \<Longrightarrow> \<forall>k. room k \<Longrightarrow>
    \<exists>b'. run_calls room fresh cs b = Some (b', snd (bits_calls cs (bits_of b))) \<and> wf_bits b' \<and> bits_of b' = fst (bits_calls cs (bits_of b))"
proof (induction cs arbitrary: b)
  case (Cons c cs)
  obtain b1 where b1: "run_call room fresh c b = Some (b1, snd (bits_call c (bits_of b)))" "wf_bits b1" "bits_of b1 = fst (bits_call c (bits_of b))"
    using legal_call_runs [of b c room fresh] Cons.prems by auto
  obtain b2 where b2: "run_calls room fresh cs b1 = Some (b2, snd (bits_calls cs (bits_of b1)))" "wf_bits b2" "bits_of b2 = fst (bits_calls cs (bits_of b1))"
    using Cons.IH [OF b1(2) _ Cons.prems(3)] Cons.prems(2) unfolding b1(3) legal_calls.simps by blast
  show ?case unfolding run_calls.simps b1(1) by (simp add: b2 b1(3) split_beta)
qed simp

text \<open>C37. Bit fields (\<^verbatim>\<open>SBitfield\<close>) behave as lists of booleans: a field of any size and any sequence of legal calls of
  \<^verbatim>\<open>Test\<close>, \<^verbatim>\<open>Set\<close>, \<^verbatim>\<open>Clear\<close>, \<^verbatim>\<open>TestAndSet\<close>, \<^verbatim>\<open>Resize\<close>, \<^verbatim>\<open>FirstSet\<close> and \<^verbatim>\<open>FirstClear\<close>, with ranges that end outside, stays inside its memory and
  answers, call by call, what the list answers; a size that grows gives cleared bits, whatever a new block holds.\<close>
theorem bitfield_refines_bits:
  assumes "n < 2 ^ 31" "legal_calls cs (resize_bits n [])" "\<forall>k. room k"
  shows "\<exists>b b' as. Bitfield_new room fresh n = Some b \<and> run_calls room fresh cs b = Some (b', as) \<and>
    bits_calls cs (resize_bits n []) = (bits_of b', as) \<and> wf_bits b'"
proof -
  obtain b where b: "Bitfield_new room fresh n = Some b" "wf_bits b" "bits_of b = resize_bits n []"
    using Bitfield_new_bits [OF assms(1,3)] by blast
  then show ?thesis using legal_calls_run [OF b(2), of cs room fresh] assms(2,3) by auto
qed

theorem bitfield_refines_bits_witness:
  "\<exists>b b' as. Bitfield_new (\<lambda>_. True) (\<lambda>_. 0xA5A5A5A5) 40 = Some b \<and>
    run_calls (\<lambda>_. True) (\<lambda>_. 0xA5A5A5A5) [SetRangeCall 30 4, SetRangeCall 39 2, TestCall 33, ResizeCall 64, FirstSetCall, ClearCall 31, ResizeCall 3, FirstClearCall] b = Some (b', as) \<and>
    bits_calls [SetRangeCall 30 4, SetRangeCall 39 2, TestCall 33, ResizeCall 64, FirstSetCall, ClearCall 31, ResizeCall 3, FirstClearCall] (resize_bits 40 []) = (bits_of b', as) \<and> wf_bits b'"
proof (rule bitfield_refines_bits)
  show "legal_calls [SetRangeCall 30 4, SetRangeCall 39 2, TestCall 33, ResizeCall 64, FirstSetCall, ClearCall 31, ResizeCall 3, FirstClearCall] (resize_bits 40 [])"
    by (simp add: length_resize_bits length_0_conv [symmetric] del: length_0_conv)
qed simp_all

section \<open>Where the code goes astray\<close>

text \<open>A block that grows to a size that is not a multiple of 32 is too short for its last bits.\<close>

lemmas field_evaluation = Bitfield_new_initial_def Bitfield_new_def Resize_def Clear_range_def Set_range_def too_far_def compute_masks_def is_inline_def BF_NUM_INLINE_BITS_def alloc_words_def empty_bitfield_def word_with_def fill_words_def FirstSet_def FirstClear_def Bitfield_eq_def resize_words_def word_set_def B_OK_def B_BAD_VALUE_def

lemma grow_within_block_overruns: "Resize (\<lambda>_. True) (\<lambda>_. 0) \<lparr>numBits = 64, inlineBits = 0, bits = [1, 2]\<rparr> 70 = None"
  by (simp add: field_evaluation)

lemma set_nothing_sets_all: "Set_range \<lparr>numBits = 32, inlineBits = 0, bits = []\<rparr> 0 0 = Some (\<lparr>numBits = 32, inlineBits = 0xFFFFFFFF, bits = []\<rparr>, B_OK)"
  by (simp add: field_evaluation)

lemma new_empty_initial_sets: "Bitfield_new_initial (\<lambda>_. True) (\<lambda>_. 0) 0 True = Some \<lparr>numBits = 0, inlineBits = 0xFFFFFFFF, bits = []\<rparr>"
  by (simp add: field_evaluation)

lemma FirstSet_misses_last_word: "FirstSet \<lparr>numBits = 40, inlineBits = 0, bits = [0, 0x80000000]\<rparr> = Some (- 1)"
  by (simp add: field_evaluation)

lemma FirstClear_of_nothing: "FirstClear empty_bitfield = Some 0"
proof -
  have "word_set (- 1) = 0" by code_simp
  then show ?thesis by (simp add: FirstClear_def is_inline_def BF_NUM_INLINE_BITS_def empty_bitfield_def)
qed

lemma size_becomes_32: "Bitfield_new (\<lambda>_. True) (\<lambda>_. 0) 5 = Some \<lparr>numBits = 32, inlineBits = 0, bits = []\<rparr>"
  by (simp add: field_evaluation)

lemma eq_inline_undefined: "Bitfield_eq False \<lparr>numBits = 32, inlineBits = 1, bits = []\<rparr> \<lparr>numBits = 32, inlineBits = 1, bits = []\<rparr> = None"
  by (simp add: field_evaluation)

end
