(* ===== verification/Thread_Locks.thy ===== *)
theory Thread_Locks
  imports Main
begin

text \<open>
  Locks and conditions of threads, \<^verbatim>\<open>src/libraries/libbinder/support/Threads.cpp\<close>, the algorithm behind \<^verbatim>\<open>SLocker\<close> and \<^verbatim>\<open>SConditionVariable\<close>.
  A critical section is one word: 0, or the address of the record of the thread that came last; from there the
  records are linked to the thread that holds the lock. A thread has one link for all locks and conditions,
  and one semaphore on which it sleeps. The functions take no lock of their own; here they are taken apart into their reads,
  writes, exchanges and semaphore operations, and a step relation interleaves any number of threads on any number
  of locks and conditions.
\<close>

section \<open>Words and points\<close>

text \<open>The values of the shared words: \<^verbatim>\<open>sysCriticalSectionInitializer\<close>, \<^verbatim>\<open>sysConditionVariableOpened\<close>, the record of a thread.\<close>

datatype lock_word = Zero | One | Record nat

text \<open>What \<^verbatim>\<open>prev\<close> points to in \<^verbatim>\<open>SysCriticalSectionExit\<close>: the word of the lock, or the link of a thread.\<close>

datatype link_place = TheWord | LinkOf nat

text \<open>
  The points of the functions, each before one access. The second argument in \<^verbatim>\<open>Exit\<close> is what follows it: nothing, or
  the rest of \<^verbatim>\<open>SysConditionVariableWait\<close> with its lock. \<open>Broken\<close>: an assertion failed, or no record is where the code expects one.
\<close>

datatype lock_point = Idle
  | EnterRead nat | EnterLink nat lock_word | EnterSwap nat lock_word | EnterSleep nat
  | ExitRead nat "nat option" | ExitWalk nat "nat option" link_place lock_word
  | ExitSwap nat "nat option" | ExitUnlink nat "nat option" nat | ExitPost "nat option" nat
  | WaitRead nat "nat option" | WaitLink nat "nat option" lock_word | WaitSwap nat "nat option" lock_word | WaitSleep "nat option"
  | OpenRead nat | OpenSwap nat lock_word | CloseRead nat | CloseSwap nat | BroadcastRead nat | BroadcastSwap nat lock_word
  | WakeRead lock_word | WakeClear nat lock_word | WakePost nat lock_word
  | Broken

text \<open>
  The shared state: the words of the locks and conditions, the link and the semaphore of every thread. Then the point of
  every thread, and the locks it holds: from the return of \<^verbatim>\<open>Enter\<close> to the call of \<^verbatim>\<open>Exit\<close>.
\<close>

record lock_state =
  csWord :: "nat \<Rightarrow> lock_word"
  cvWord :: "nat \<Rightarrow> lock_word"
  nextWaiting :: "nat \<Rightarrow> lock_word"
  blockThread :: "nat \<Rightarrow> nat"
  lpc :: "nat \<Rightarrow> lock_point"
  held :: "nat \<Rightarrow> nat set"

definition at_rest :: lock_state where
  "at_rest = \<lparr>csWord = \<lambda>_. Zero, cvWord = \<lambda>_. Zero, nextWaiting = \<lambda>_. Zero, blockThread = \<lambda>_. 0, lpc = \<lambda>_. Idle, held = \<lambda>_. {}\<rparr>"

definition goto :: "nat \<Rightarrow> lock_point \<Rightarrow> lock_state \<Rightarrow> lock_state" where
  "goto t p s = s\<lparr>lpc := (lpc s)(t := p)\<rparr>"

definition set_link :: "nat \<Rightarrow> lock_word \<Rightarrow> lock_state \<Rightarrow> lock_state" where
  "set_link t w s = s\<lparr>nextWaiting := (nextWaiting s)(t := w)\<rparr>"

definition set_cs :: "nat \<Rightarrow> lock_word \<Rightarrow> lock_state \<Rightarrow> lock_state" where
  "set_cs l w s = s\<lparr>csWord := (csWord s)(l := w)\<rparr>"

definition set_cv :: "nat \<Rightarrow> lock_word \<Rightarrow> lock_state \<Rightarrow> lock_state" where
  "set_cv c w s = s\<lparr>cvWord := (cvWord s)(c := w)\<rparr>"

definition set_sem :: "nat \<Rightarrow> nat \<Rightarrow> lock_state \<Rightarrow> lock_state" where
  "set_sem t n s = s\<lparr>blockThread := (blockThread s)(t := n)\<rparr>"

definition set_held :: "nat \<Rightarrow> nat set \<Rightarrow> lock_state \<Rightarrow> lock_state" where
  "set_held t L s = s\<lparr>held := (held s)(t := L)\<rparr>"

section \<open>One step of a thread\<close>

definition entered :: "nat \<Rightarrow> nat \<Rightarrow> lock_state \<Rightarrow> lock_state" where
  "entered t l s = goto t Idle (set_held t (insert l (held s t)) s)"

definition after_exit :: "nat \<Rightarrow> nat option \<Rightarrow> lock_state \<Rightarrow> lock_state" where
  "after_exit t k s = goto t (case k of None \<Rightarrow> Idle | Some l \<Rightarrow> WaitSleep (Some l)) s"

text \<open>
  The next step of a thread in each of the functions, \<open>None\<close> if it sleeps or is elsewhere. An exchange fails when the word has
  changed since it was read.
\<close>

text \<open>\<^verbatim>\<open>SysCriticalSectionEnter\<close>: the thread puts itself in front of the queue, and sleeps unless the lock was free.\<close>

definition Enter_run :: "nat \<Rightarrow> lock_state \<Rightarrow> lock_state option" where
  "Enter_run t s =
    (case lpc s t of
      EnterRead l \<Rightarrow> Some (goto t (EnterLink l (csWord s l)) s)
    | EnterLink l old \<Rightarrow> Some (goto t (EnterSwap l old) (set_link t old s))
    | EnterSwap l old \<Rightarrow>
        Some (if csWord s l = old then
                (if old \<noteq> Zero then goto t (EnterSleep l) (set_cs l (Record t) s) else entered t l (set_cs l (Record t) s))
              else goto t (EnterRead l) s)
    | EnterSleep l \<Rightarrow> if blockThread s t = 0 then None else Some (entered t l (set_sem t (blockThread s t - 1) s))
    | _ \<Rightarrow> None)"

text \<open>\<^verbatim>\<open>SysCriticalSectionExit\<close>: it looks for itself from the front, cuts itself off the one before it and wakes that one; alone, it frees the lock.\<close>

definition Exit_run :: "nat \<Rightarrow> lock_state \<Rightarrow> lock_state option" where
  "Exit_run t s =
    (case lpc s t of
      ExitRead l k \<Rightarrow> Some (goto t (ExitWalk l k TheWord (csWord s l)) s)
    | ExitWalk l k prev cur \<Rightarrow>
        Some (goto t
          (if cur = Record t then (case prev of TheWord \<Rightarrow> ExitSwap l k | LinkOf p \<Rightarrow> ExitUnlink l k p)
           else (case cur of Record u \<Rightarrow> ExitWalk l k (LinkOf u) (nextWaiting s u) | _ \<Rightarrow> Broken)) s)
    | ExitSwap l k \<Rightarrow> Some (if csWord s l = Record t then after_exit t k (set_cs l Zero s) else goto t (ExitRead l k) s)
    | ExitUnlink l k p \<Rightarrow> Some (goto t (ExitPost k p) (set_link p Zero s))
    | ExitPost k p \<Rightarrow> Some (after_exit t k (set_sem p (blockThread s p + 1) s))
    | _ \<Rightarrow> None)"

text \<open>\<^verbatim>\<open>SysConditionVariableWait\<close>, with a lock that is left before the sleep and entered again after it.\<close>

definition Wait_run :: "nat \<Rightarrow> lock_state \<Rightarrow> lock_state option" where
  "Wait_run t s =
    (case lpc s t of
      WaitRead c k \<Rightarrow> Some (goto t (if cvWord s c = One then Idle else WaitLink c k (cvWord s c)) s)
    | WaitLink c k old \<Rightarrow> Some (goto t (WaitSwap c k old) (set_link t old s))
    | WaitSwap c k old \<Rightarrow>
        Some (if cvWord s c = old then
                (case k of None \<Rightarrow> goto t (WaitSleep None) (set_cv c (Record t) s)
                 | Some l \<Rightarrow> goto t (ExitRead l (Some l)) (set_held t (held s t - {l}) (set_cv c (Record t) s)))
              else goto t (WaitRead c k) s)
    | WaitSleep k \<Rightarrow>
        if blockThread s t = 0 then None
        else Some (goto t (case k of None \<Rightarrow> Idle | Some l \<Rightarrow> EnterRead l) (set_sem t (blockThread s t - 1) s))
    | _ \<Rightarrow> None)"

text \<open>\<^verbatim>\<open>SysConditionVariableOpen\<close>.\<close>

definition Open_run :: "nat \<Rightarrow> lock_state \<Rightarrow> lock_state option" where
  "Open_run t s =
    (case lpc s t of
      OpenRead c \<Rightarrow> Some (goto t (if cvWord s c = One then WakeRead Zero else OpenSwap c (cvWord s c)) s)
    | OpenSwap c cur \<Rightarrow> Some (if cvWord s c = cur then goto t (WakeRead cur) (set_cv c One s) else goto t (OpenRead c) s)
    | _ \<Rightarrow> None)"

text \<open>\<^verbatim>\<open>SysConditionVariableClose\<close>.\<close>

definition Close_run :: "nat \<Rightarrow> lock_state \<Rightarrow> lock_state option" where
  "Close_run t s =
    (case lpc s t of
      CloseRead c \<Rightarrow> Some (goto t (if cvWord s c = One then CloseSwap c else Idle) s)
    | CloseSwap c \<Rightarrow> Some (if cvWord s c = One then goto t Idle (set_cv c Zero s) else goto t (CloseRead c) s)
    | _ \<Rightarrow> None)"

text \<open>\<^verbatim>\<open>SysConditionVariableBroadcast\<close>.\<close>

definition Broadcast_run :: "nat \<Rightarrow> lock_state \<Rightarrow> lock_state option" where
  "Broadcast_run t s =
    (case lpc s t of
      BroadcastRead c \<Rightarrow> Some (goto t (BroadcastSwap c (cvWord s c)) s)
    | BroadcastSwap c cur \<Rightarrow>
        Some (if cvWord s c = cur then goto t (if cur = One then Idle else WakeRead cur) (set_cv c Zero s)
              else goto t (BroadcastRead c) s)
    | _ \<Rightarrow> None)"

text \<open>\<open>wake_up_condition\<close>: every record of a list is read, cleared, and its thread posted.\<close>

definition Wake_run :: "nat \<Rightarrow> lock_state \<Rightarrow> lock_state option" where
  "Wake_run t s =
    (case lpc s t of
      WakeRead w \<Rightarrow>
        Some (goto t (case w of Zero \<Rightarrow> Idle | Record u \<Rightarrow> WakeClear u (nextWaiting s u) | One \<Rightarrow> Broken) s)
    | WakeClear u w \<Rightarrow> Some (goto t (WakePost u w) (set_link u Zero s))
    | WakePost u w \<Rightarrow> Some (goto t (WakeRead w) (set_sem u (blockThread s u + 1) s))
    | _ \<Rightarrow> None)"

definition or_else :: "'a option \<Rightarrow> 'a option \<Rightarrow> 'a option" where
  "or_else a b = (case a of None \<Rightarrow> b | Some x \<Rightarrow> Some x)"

lemma or_else_simps [simp]: "or_else None b = b" "or_else (Some x) b = Some x" "or_else a None = a"
  by (cases a; simp add: or_else_def)+

definition lock_run :: "nat \<Rightarrow> lock_state \<Rightarrow> lock_state option" where
  "lock_run t s = or_else (Enter_run t s) (or_else (Exit_run t s) (or_else (Wait_run t s)
    (or_else (Open_run t s) (or_else (Close_run t s) (or_else (Broadcast_run t s) (Wake_run t s))))))"

lemmas lock_run_defs = lock_run_def Enter_run_def Exit_run_def Wait_run_def Open_run_def Close_run_def Broadcast_run_def Wake_run_def

section \<open>Steps\<close>

text \<open>
  A thread makes its next step, or starts a call: it enters a lock that it does not hold, leaves one that it holds (in any
  order), waits for a condition without a lock or with one that it holds, opens, closes or broadcasts a condition.
\<close>

inductive lstep :: "lock_state \<Rightarrow> lock_state \<Rightarrow> bool" where
  run: "lock_run t s = Some s' \<Longrightarrow> lstep s s'"
| enter: "lpc s t = Idle \<Longrightarrow> l \<notin> held s t \<Longrightarrow> lstep s (goto t (EnterRead l) s)"
| exit: "lpc s t = Idle \<Longrightarrow> l \<in> held s t \<Longrightarrow> lstep s (goto t (ExitRead l None) (set_held t (held s t - {l}) s))"
| wait: "lpc s t = Idle \<Longrightarrow> set_option k \<subseteq> held s t \<Longrightarrow> lstep s (goto t (WaitRead c k) s)"
| signal: "lpc s t = Idle \<Longrightarrow> p \<in> {OpenRead c, CloseRead c, BroadcastRead c} \<Longrightarrow> lstep s (goto t p s)"

definition lock_reachable :: "lock_state \<Rightarrow> bool" where
  "lock_reachable s \<longleftrightarrow> lstep\<^sup>*\<^sup>* at_rest s"

section \<open>Queues behind the words\<close>

text \<open>
  What the words stand for: the queue of every lock (the last one holds it), the threads that sleep on every condition, the
  threads that every thread is about to wake, and, for a thread that waits, who will wake it.
\<close>

datatype lock_role = Awake | InQueue nat | OnCondition nat | Promised nat | Posted

record lock_ghost =
  queue :: "nat \<Rightarrow> nat list"
  sleepers :: "nat \<Rightarrow> nat list"
  towake :: "nat \<Rightarrow> nat list"
  role :: "nat \<Rightarrow> lock_role"

fun first_word :: "nat list \<Rightarrow> lock_word" where
  "first_word [] = Zero"
| "first_word (t # q) = Record t"

fun chained :: "(nat \<Rightarrow> lock_word) \<Rightarrow> nat list \<Rightarrow> bool" where
  "chained nx [] = True"
| "chained nx (t # q) = (nx t = first_word q \<and> chained nx q)"

text \<open>In the queue of a lock the link of the last thread is not used: it may wait for something else.\<close>

fun linked :: "(nat \<Rightarrow> lock_word) \<Rightarrow> nat list \<Rightarrow> bool" where
  "linked nx [] = True"
| "linked nx (t # q) = (q \<noteq> [] \<longrightarrow> nx t = first_word q \<and> linked nx q)"

fun exiting :: "lock_point \<Rightarrow> nat \<Rightarrow> bool" where
  "exiting (ExitRead l k) l' = (l = l')"
| "exiting (ExitWalk l k prev cur) l' = (l = l')"
| "exiting (ExitSwap l k) l' = (l = l')"
| "exiting (ExitUnlink l k p) l' = (l = l')"
| "exiting _ l' = False"

fun may_have :: "lock_point \<Rightarrow> lock_role \<Rightarrow> bool" where
  "may_have (EnterSleep l) r = (r \<noteq> Awake \<and> (\<forall>l'. r = InQueue l' \<longrightarrow> l' = l) \<and> (\<forall>c. r \<noteq> OnCondition c))"
| "may_have (ExitRead l k) r = (if k = None then r = Awake else r \<noteq> Awake \<and> (\<forall>l. r \<noteq> InQueue l))"
| "may_have (ExitWalk l k prev cur) r = (if k = None then r = Awake else r \<noteq> Awake \<and> (\<forall>l. r \<noteq> InQueue l))"
| "may_have (ExitSwap l k) r = (if k = None then r = Awake else r \<noteq> Awake \<and> (\<forall>l. r \<noteq> InQueue l))"
| "may_have (ExitUnlink l k p) r = (if k = None then r = Awake else r \<noteq> Awake \<and> (\<forall>l. r \<noteq> InQueue l))"
| "may_have (ExitPost k p) r = (if k = None then r = Awake else r \<noteq> Awake \<and> (\<forall>l. r \<noteq> InQueue l))"
| "may_have (WaitSleep k) r = (r \<noteq> Awake \<and> (\<forall>l. r \<noteq> InQueue l))"
| "may_have _ r = (r = Awake)"

definition owns :: "lock_state \<Rightarrow> lock_ghost \<Rightarrow> nat \<Rightarrow> nat \<Rightarrow> bool" where
  "owns s g t l \<longleftrightarrow> l \<in> held s t \<or> exiting (lpc s t) l \<or> lpc s t = EnterSleep l \<and> role g t \<noteq> InQueue l"

definition lockq_ok :: "lock_state \<Rightarrow> lock_ghost \<Rightarrow> nat \<Rightarrow> bool" where
  "lockq_ok s g l \<longleftrightarrow> distinct (queue g l) \<and> csWord s l = first_word (queue g l) \<and> linked (nextWaiting s) (queue g l) \<and>
    (\<forall>t. t \<in> set (butlast (queue g l)) \<longleftrightarrow> role g t = InQueue l) \<and>
    (\<forall>t. owns s g t l \<longleftrightarrow> queue g l \<noteq> [] \<and> t = last (queue g l))"

definition condition_ok :: "lock_state \<Rightarrow> lock_ghost \<Rightarrow> nat \<Rightarrow> bool" where
  "condition_ok s g c \<longleftrightarrow> distinct (sleepers g c) \<and>
    (cvWord s c = One \<and> sleepers g c = [] \<or> cvWord s c = first_word (sleepers g c)) \<and>
    chained (nextWaiting s) (sleepers g c) \<and> (\<forall>t. t \<in> set (sleepers g c) \<longleftrightarrow> role g t = OnCondition c)"

text \<open>What a thread at a point has left, and what it knows.\<close>

fun knows :: "lock_state \<Rightarrow> lock_ghost \<Rightarrow> nat \<Rightarrow> lock_point \<Rightarrow> bool" where
  "knows s g t (EnterRead l) = (towake g t = [] \<and> l \<notin> held s t)"
| "knows s g t (EnterLink l old) = (towake g t = [] \<and> l \<notin> held s t)"
| "knows s g t (EnterSwap l old) = (towake g t = [] \<and> l \<notin> held s t \<and> nextWaiting s t = old)"
| "knows s g t (EnterSleep l) = (towake g t = [] \<and> l \<notin> held s t)"
| "knows s g t (ExitRead l k) = (towake g t = [] \<and> l \<notin> held s t \<and> set_option k \<subseteq> {l})"
| "knows s g t (ExitWalk l k prev cur) = (towake g t = [] \<and> l \<notin> held s t \<and> set_option k \<subseteq> {l} \<and>
    (\<exists>xs u ys. queue g l = xs @ u # ys \<and> cur = Record u \<and> (prev = TheWord \<or> (\<exists>zs p. xs = zs @ [p] \<and> prev = LinkOf p))))"
| "knows s g t (ExitSwap l k) = (towake g t = [] \<and> l \<notin> held s t \<and> set_option k \<subseteq> {l})"
| "knows s g t (ExitUnlink l k p) = (towake g t = [] \<and> l \<notin> held s t \<and> set_option k \<subseteq> {l} \<and> (\<exists>xs. queue g l = xs @ [p, t]))"
| "knows s g t (ExitPost k p) = (towake g t = [p] \<and> (\<forall>l \<in> set_option k. l \<notin> held s t))"
| "knows s g t (WaitRead c k) = (towake g t = [] \<and> set_option k \<subseteq> held s t)"
| "knows s g t (WaitLink c k old) = (towake g t = [] \<and> set_option k \<subseteq> held s t \<and> old \<noteq> One)"
| "knows s g t (WaitSwap c k old) = (towake g t = [] \<and> set_option k \<subseteq> held s t \<and> old \<noteq> One \<and> nextWaiting s t = old)"
| "knows s g t (WaitSleep k) = (towake g t = [] \<and> (\<forall>l \<in> set_option k. l \<notin> held s t))"
| "knows s g t (OpenSwap c cur) = (towake g t = [] \<and> cur \<noteq> One)"
| "knows s g t (WakeRead w) = (w = first_word (towake g t) \<and> chained (nextWaiting s) (towake g t))"
| "knows s g t (WakeClear u w) = (\<exists>q. towake g t = u # q \<and> w = first_word q \<and> chained (nextWaiting s) q)"
| "knows s g t (WakePost u w) = (\<exists>q. towake g t = u # q \<and> w = first_word q \<and> chained (nextWaiting s) q)"
| "knows s g t Broken = False"
| "knows s g t _ = (towake g t = [])"

definition thread_ok :: "lock_state \<Rightarrow> lock_ghost \<Rightarrow> nat \<Rightarrow> bool" where
  "thread_ok s g t \<longleftrightarrow> blockThread s t = (if role g t = Posted then 1 else 0) \<and> distinct (towake g t) \<and>
    (\<forall>u. u \<in> set (towake g t) \<longleftrightarrow> role g u = Promised t) \<and> may_have (lpc s t) (role g t) \<and> knows s g t (lpc s t)"

definition lock_inv :: "lock_state \<Rightarrow> lock_ghost \<Rightarrow> bool" where
  "lock_inv s g \<longleftrightarrow> (\<forall>l. lockq_ok s g l) \<and> (\<forall>c. condition_ok s g c) \<and> (\<forall>t. thread_ok s g t)"

lemma state_simps [simp]:
  "csWord (goto t p s) = csWord s" "cvWord (goto t p s) = cvWord s" "nextWaiting (goto t p s) = nextWaiting s" "blockThread (goto t p s) = blockThread s"
  "lpc (goto t p s) = (lpc s)(t := p)" "held (goto t p s) = held s"
  "csWord (set_link t w s) = csWord s" "cvWord (set_link t w s) = cvWord s" "nextWaiting (set_link t w s) = (nextWaiting s)(t := w)"
  "blockThread (set_link t w s) = blockThread s" "lpc (set_link t w s) = lpc s" "held (set_link t w s) = held s"
  "csWord (set_cs l w s) = (csWord s)(l := w)" "cvWord (set_cs l w s) = cvWord s" "nextWaiting (set_cs l w s) = nextWaiting s"
  "blockThread (set_cs l w s) = blockThread s" "lpc (set_cs l w s) = lpc s" "held (set_cs l w s) = held s"
  "csWord (set_cv c w s) = csWord s" "cvWord (set_cv c w s) = (cvWord s)(c := w)" "nextWaiting (set_cv c w s) = nextWaiting s"
  "blockThread (set_cv c w s) = blockThread s" "lpc (set_cv c w s) = lpc s" "held (set_cv c w s) = held s"
  "csWord (set_sem t n s) = csWord s" "cvWord (set_sem t n s) = cvWord s" "nextWaiting (set_sem t n s) = nextWaiting s"
  "blockThread (set_sem t n s) = (blockThread s)(t := n)" "lpc (set_sem t n s) = lpc s" "held (set_sem t n s) = held s"
  "csWord (set_held t L s) = csWord s" "cvWord (set_held t L s) = cvWord s" "nextWaiting (set_held t L s) = nextWaiting s"
  "blockThread (set_held t L s) = blockThread s" "lpc (set_held t L s) = lpc s" "held (set_held t L s) = (held s)(t := L)"
  by (simp_all add: goto_def set_link_def set_cs_def set_cv_def set_sem_def set_held_def)

section \<open>What a step leaves alone\<close>

lemma linked_cong: "(\<And>x. x \<in> set (butlast q) \<Longrightarrow> nx' x = nx x) \<Longrightarrow> linked nx' q = linked nx q"
  by (induction q) (auto split: if_splits)

lemma chained_cong: "(\<And>x. x \<in> set q \<Longrightarrow> nx' x = nx x) \<Longrightarrow> chained nx' q = chained nx q"
  by (induction q) auto

lemma queue_frame:
  assumes "lockq_ok s g l" "csWord s' l = csWord s l" "queue g' l = queue g l"
    "\<And>t. role g' t = InQueue l \<longleftrightarrow> role g t = InQueue l"
    "\<And>t. role g t = InQueue l \<Longrightarrow> nextWaiting s' t = nextWaiting s t"
    "\<And>t. owns s' g' t l \<longleftrightarrow> owns s g t l"
  shows "lockq_ok s' g' l"
proof -
  have "linked (nextWaiting s') (queue g l) = linked (nextWaiting s) (queue g l)"
    using assms(1,5) by (intro linked_cong) (simp add: lockq_ok_def)
  then show ?thesis using assms by (simp add: lockq_ok_def)
qed

lemma condition_frame:
  assumes "condition_ok s g c" "cvWord s' c = cvWord s c" "sleepers g' c = sleepers g c"
    "\<And>t. role g' t = OnCondition c \<longleftrightarrow> role g t = OnCondition c"
    "\<And>t. role g t = OnCondition c \<Longrightarrow> nextWaiting s' t = nextWaiting s t"
  shows "condition_ok s' g' c"
proof -
  have "chained (nextWaiting s') (sleepers g c) = chained (nextWaiting s) (sleepers g c)"
    using assms(1,5) by (intro chained_cong) (simp add: condition_ok_def)
  then show ?thesis using assms by (simp add: condition_ok_def)
qed

lemma knows_frame:
  assumes "knows s g t p" "held s' t = held s t" "towake g' t = towake g t"
    "\<And>l k. exiting p l \<Longrightarrow> \<exists>zs. queue g' l = zs @ queue g l"
    "\<And>l old. p = EnterSwap l old \<Longrightarrow> nextWaiting s' t = nextWaiting s t" "\<And>c k old. p = WaitSwap c k old \<Longrightarrow> nextWaiting s' t = nextWaiting s t"
    "\<And>u. u \<in> set (towake g t) \<Longrightarrow> nextWaiting s' u = nextWaiting s u"
  shows "knows s' g' t p"
proof -
  have c: "chained (nextWaiting s') q = chained (nextWaiting s) q" if "set q \<subseteq> set (towake g t)" for q
    using assms(7) that by (intro chained_cong) auto
  show ?thesis
  proof (cases p)
    case (ExitWalk l k prev cur)
    obtain zs where zs: "queue g' l = zs @ queue g l" using assms(4) [of l] ExitWalk by auto
    obtain xs u ys where x: "queue g l = xs @ u # ys" "cur = Record u" "prev = TheWord \<or> (\<exists>zs p. xs = zs @ [p] \<and> prev = LinkOf p)"
      using assms(1) unfolding ExitWalk knows.simps by blast
    have "queue g' l = (zs @ xs) @ u # ys" "prev = TheWord \<or> (\<exists>zs' p. zs @ xs = zs' @ [p] \<and> prev = LinkOf p)" using zs x by auto
    then have "\<exists>xs u ys. queue g' l = xs @ u # ys \<and> cur = Record u \<and> (prev = TheWord \<or> (\<exists>zs p. xs = zs @ [p] \<and> prev = LinkOf p))"
      using x(2) by blast
    then show ?thesis using assms(1-3) ExitWalk by simp
  next
    case (ExitUnlink l k q)
    then show ?thesis using assms(1-4) by fastforce
  next
    case (WakeRead w)
    then show ?thesis using assms(1,3) c [of "towake g t"] by simp
  next
    case (WakeClear u w)
    then obtain q where "towake g t = u # q" "w = first_word q" "chained (nextWaiting s) q" using assms(1) by auto
    then show ?thesis using WakeClear assms(3) c [of q] by auto
  next
    case (WakePost u w)
    then obtain q where "towake g t = u # q" "w = first_word q" "chained (nextWaiting s) q" using assms(1) by auto
    then show ?thesis using WakePost assms(3) c [of q] by auto
  qed (use assms(1-3,5,6) in auto)
qed

lemma thread_frame:
  assumes "thread_ok s g t" "lpc s' t = lpc s t" "blockThread s' t = blockThread s t" "held s' t = held s t" "role g' t = role g t"
    "towake g' t = towake g t" "\<And>u. role g' u = Promised t \<longleftrightarrow> role g u = Promised t"
    "\<And>l. exiting (lpc s t) l \<Longrightarrow> \<exists>zs. queue g' l = zs @ queue g l"
    "role g t = Awake \<Longrightarrow> nextWaiting s' t = nextWaiting s t"
    "\<And>u. role g u = Promised t \<Longrightarrow> nextWaiting s' u = nextWaiting s u"
  shows "thread_ok s' g' t"
proof -
  have a: "lpc s t = EnterSwap l old \<Longrightarrow> role g t = Awake" "lpc s t = WaitSwap c k old \<Longrightarrow> role g t = Awake" for l c k old
    using assms(1) by (auto simp: thread_ok_def)
  have k: "knows s g t (lpc s t)" "\<And>u. u \<in> set (towake g t) \<Longrightarrow> role g u = Promised t" using assms(1) by (auto simp: thread_ok_def)
  have "knows s' g' t (lpc s t)"
    by (rule knows_frame [OF k(1) assms(4,6,8)]) (use a k(2) assms(9,10) in blast)+
  then show ?thesis using assms(1-7) by (simp add: thread_ok_def)
qed

section \<open>Steps that change nothing but the thread\<close>

lemma inv_parts:
  assumes "lock_inv s g"
  shows "lockq_ok s g l" "condition_ok s g c" "thread_ok s g t"
  using assms by (simp_all add: lock_inv_def)

lemma may_have_cases: "may_have p r \<Longrightarrow> r = InQueue l \<Longrightarrow> p = EnterSleep l"
  by (cases p) (auto split: if_splits)

lemma local_step:
  assumes "lock_inv s g" "csWord s' = csWord s" "cvWord s' = cvWord s"
    "\<And>u. u \<noteq> t \<Longrightarrow> lpc s' u = lpc s u \<and> held s' u = held s u \<and> blockThread s' u = blockThread s u \<and> nextWaiting s' u = nextWaiting s u"
    "role g t \<noteq> Awake \<Longrightarrow> nextWaiting s' t = nextWaiting s t"
    "\<And>l. owns s' g t l = owns s g t l" "thread_ok s' g t"
  shows "lock_inv s' g"
proof -
  have n: "role g u \<noteq> Awake \<Longrightarrow> nextWaiting s' u = nextWaiting s u" for u using assms(4,5) by (cases "u = t") auto
  have o: "owns s' g u l = owns s g u l" for u l using assms(4,6) by (cases "u = t") (auto simp: owns_def)
  have "lockq_ok s' g l" for l by (rule queue_frame [OF inv_parts(1) [OF assms(1)]]) (simp_all add: assms(2) n o)
  moreover have "condition_ok s' g c" for c by (rule condition_frame [OF inv_parts(2) [OF assms(1)]]) (simp_all add: assms(3) n)
  moreover have "thread_ok s' g u" for u
  proof (cases "u = t")
    case False
    then show ?thesis
      by (intro thread_frame [OF inv_parts(3) [OF assms(1)]]) (simp_all add: assms(4) n)
  qed (use assms(7) in simp)
  ultimately show ?thesis by (simp add: lock_inv_def)
qed

text \<open>Steps that only move the thread on.\<close>

lemma move:
  assumes "lock_inv s g" "\<And>l. exiting p l = exiting (lpc s t) l" "\<And>l. p \<noteq> EnterSleep l" "\<And>l. lpc s t \<noteq> EnterSleep l"
    "may_have p (role g t)" "knows s g t p"
  shows "lock_inv (goto t p s) g"
proof -
  have "knows (goto t p s) g t p"
    by (rule knows_frame [OF assms(6)]) (auto intro: exI [of _ "[]"])
  then have "thread_ok (goto t p s) g t" using inv_parts(3) [OF assms(1), of t] assms(5) by (simp add: thread_ok_def)
  then show ?thesis using assms(2-4) by (intro local_step [OF assms(1), of _ t]) (auto simp: owns_def)
qed

lemma owner_last:
  assumes "lock_inv s g" "owns s g t l"
  shows "queue g l \<noteq> []" "last (queue g l) = t"
  using inv_parts(1) [OF assms(1), of l] assms(2) by (auto simp: lockq_ok_def)

lemma in_queue:
  assumes "lock_inv s g" "t \<in> set (queue g l)"
  shows "lpc s t = EnterSleep l \<or> owns s g t l"
proof -
  have q: "lockq_ok s g l" by (rule inv_parts(1) [OF assms(1)])
  have "t \<in> set (butlast (queue g l)) \<or> t = last (queue g l) \<and> queue g l \<noteq> []"
    using assms(2) by (cases "queue g l" rule: rev_cases) auto
  then show ?thesis
  proof
    assume "t \<in> set (butlast (queue g l))"
    then have "role g t = InQueue l" using q by (simp add: lockq_ok_def)
    then show ?thesis using inv_parts(3) [OF assms(1), of t] may_have_cases by (auto simp: thread_ok_def)
  qed (use q in \<open>auto simp: lockq_ok_def\<close>)
qed

text \<open>A walk meets only records of the queue, and ends at the thread itself, which is the last.\<close>

lemma linked_at: "linked nx (xs @ t # u # ys) \<Longrightarrow> nx t = Record u"
  by (induction xs) (auto split: if_splits)

lemma walk_step:
  assumes "lock_inv s g" "lpc s t = ExitWalk l k prev cur"
  shows "lock_inv (goto t (if cur = Record t then (case prev of TheWord \<Rightarrow> ExitSwap l k | LinkOf p \<Rightarrow> ExitUnlink l k p)
      else (case cur of Record u \<Rightarrow> ExitWalk l k (LinkOf u) (nextWaiting s u) | _ \<Rightarrow> Broken)) s) g"
proof -
  have o: "owns s g t l" using assms(2) by (simp add: owns_def)
  note last = owner_last [OF assms(1) o]
  have T: "knows s g t (ExitWalk l k prev cur)" "may_have (ExitWalk l k prev cur) (role g t)"
    using inv_parts(3) [OF assms(1), of t] assms(2) by (auto simp: thread_ok_def)
  obtain xs u ys where x: "queue g l = xs @ u # ys" "cur = Record u" "prev = TheWord \<or> (\<exists>zs p. xs = zs @ [p] \<and> prev = LinkOf p)"
    using T(1) unfolding knows.simps by blast
  have d: "distinct (queue g l)" "linked (nextWaiting s) (queue g l)" using inv_parts(1) [OF assms(1), of l] by (auto simp: lockq_ok_def)
  show ?thesis
  proof (cases "u = t")
    case True
    have e: "ys = []" using d(1) last(2) True unfolding x(1) by (cases ys rule: rev_cases) auto
    from x(3) show ?thesis
    proof
      assume "prev = TheWord"
      then show ?thesis using T True x(2) by (auto intro!: move [OF assms(1)] simp: assms(2))
    next
      assume "\<exists>zs p. xs = zs @ [p] \<and> prev = LinkOf p"
      then obtain zs p where p: "xs = zs @ [p]" "prev = LinkOf p" by blast
      have "queue g l = zs @ [p, t]" using x(1) p(1) e True by simp
      then have "knows s g t (ExitUnlink l k p)" using T(1) by simp
      then show ?thesis using T(2) True x(2) p(2) by (auto intro!: move [OF assms(1)] simp: assms(2) simp del: knows.simps)
    qed
  next
    case False
    then obtain v zs where y: "ys = v # zs" using last(2) x(1) by (cases ys) auto
    then have n: "nextWaiting s u = Record v" using linked_at d(2) x(1) by auto
    have "\<exists>xs' w ys'. queue g l = xs' @ w # ys' \<and> nextWaiting s u = Record w \<and> (\<exists>zs p. xs' = zs @ [p] \<and> LinkOf u = LinkOf p)"
      using x(1) y n by (intro exI [of _ "xs @ [u]"] exI [of _ v] exI [of _ zs]) auto
    then have "knows s g t (ExitWalk l k (LinkOf u) (nextWaiting s u))" using T(1) by auto
    moreover have "may_have (ExitWalk l k (LinkOf u) (nextWaiting s u)) (role g t)" using T(2) by simp
    ultimately have "lock_inv (goto t (ExitWalk l k (LinkOf u) (nextWaiting s u)) s) g"
      by (intro move [OF assms(1)]) (simp_all add: assms(2) del: knows.simps)
    then show ?thesis using False x(2) by simp
  qed
qed

section \<open>Entering a lock\<close>

lemma first_word_eq [simp]: "first_word q = Zero \<longleftrightarrow> q = []" "first_word q \<noteq> One" "Zero = first_word q \<longleftrightarrow> q = []" "One \<noteq> first_word q"
  by (cases q; simp)+

lemma entered_simps [simp]:
  "csWord (entered t l s) = csWord s" "cvWord (entered t l s) = cvWord s" "nextWaiting (entered t l s) = nextWaiting s"
  "blockThread (entered t l s) = blockThread s" "lpc (entered t l s) = (lpc s)(t := Idle)" "held (entered t l s) = (held s)(t := insert l (held s t))"
  by (simp_all add: entered_def)

lemma after_exit_simps [simp]:
  "csWord (after_exit t k s) = csWord s" "cvWord (after_exit t k s) = cvWord s" "nextWaiting (after_exit t k s) = nextWaiting s"
  "blockThread (after_exit t k s) = blockThread s" "lpc (after_exit t k s) = (lpc s)(t := (case k of None \<Rightarrow> Idle | Some l \<Rightarrow> WaitSleep (Some l)))"
  "held (after_exit t k s) = held s"
  by (simp_all add: after_exit_def)

lemma lock_invI:
  "lockq_ok s g l \<Longrightarrow> (\<And>l'. l' \<noteq> l \<Longrightarrow> lockq_ok s g l') \<Longrightarrow> (\<And>c. condition_ok s g c) \<Longrightarrow>
    (\<And>u. u \<noteq> t \<Longrightarrow> thread_ok s g u) \<Longrightarrow> thread_ok s g t \<Longrightarrow> lock_inv s g"
  by (fastforce simp: lock_inv_def)

lemma not_queued:
  assumes "lock_inv s g" "l \<notin> held s t" "\<not> exiting (lpc s t) l" "lpc s t \<noteq> EnterSleep l"
  shows "t \<notin> set (queue g l)"
  using in_queue [OF assms(1), of t l] assms(2-4) by (auto simp: owns_def)

lemma enter_free:
  assumes "lock_inv s g" "lpc s t = EnterSwap l Zero" "csWord s l = Zero"
  shows "queue g l = []" "lock_inv (entered t l (set_cs l (Record t) s)) (g\<lparr>queue := (queue g)(l := [t])\<rparr>)" (is "lock_inv ?s ?g")
proof -
  have T: "thread_ok s g t" and Q: "lockq_ok s g l" using assms(1) by (auto simp: inv_parts)
  show q: "queue g l = []" using Q assms(3) by (simp add: lockq_ok_def)
  have o: "owns ?s ?g u l' \<longleftrightarrow> owns s g u l' \<or> u = t \<and> l' = l" for u l'
    using assms(2) by (auto simp: owns_def)
  have no: "\<not> owns s g u l" for u using Q q by (simp add: lockq_ok_def)
  have "lockq_ok ?s ?g l" using Q q o no by (auto simp: lockq_ok_def)
  moreover have "lockq_ok ?s ?g l'" if "l' \<noteq> l" for l'
    using that by (intro queue_frame [OF inv_parts(1) [OF assms(1)]]) (simp_all add: o)
  moreover have "condition_ok ?s ?g c" for c
    by (intro condition_frame [OF inv_parts(2) [OF assms(1)]]) simp_all
  moreover have "thread_ok ?s ?g u" if "u \<noteq> t" for u
    using that q by (intro thread_frame [OF inv_parts(3) [OF assms(1)]]) auto
  moreover have "thread_ok ?s ?g t" using T assms(2) by (auto simp: thread_ok_def)
  ultimately show "lock_inv ?s ?g" by (rule lock_invI)
qed

lemma enter_behind:
  assumes "lock_inv s g" "lpc s t = EnterSwap l old" "csWord s l = old" "old \<noteq> Zero"
  shows "t \<notin> set (queue g l)" "queue g l \<noteq> []"
    "lock_inv (goto t (EnterSleep l) (set_cs l (Record t) s)) (g\<lparr>queue := (queue g)(l := t # queue g l), role := (role g)(t := InQueue l)\<rparr>)" (is "lock_inv ?s ?g")
proof -
  have T: "thread_ok s g t" and Q: "lockq_ok s g l" using assms(1) by (auto simp: inv_parts)
  have a: "role g t = Awake" "l \<notin> held s t" "nextWaiting s t = old" using T assms(2) by (simp_all add: thread_ok_def)
  show n: "t \<notin> set (queue g l)" using not_queued [OF assms(1) a(2)] assms(2) by simp
  show q: "queue g l \<noteq> []" using Q assms(3,4) by (auto simp: lockq_ok_def)
  have o: "owns ?s ?g u l' \<longleftrightarrow> owns s g u l'" for u l'
    using assms(2) by (auto simp: owns_def)
  have "lockq_ok ?s ?g l"
    using Q q n a assms(3) by (auto simp: lockq_ok_def o)
  moreover have "lockq_ok ?s ?g l'" if "l' \<noteq> l" for l'
    using that a by (intro queue_frame [OF inv_parts(1) [OF assms(1)]]) (auto simp: o)
  moreover have "condition_ok ?s ?g c" for c
    using a by (intro condition_frame [OF inv_parts(2) [OF assms(1)]]) auto
  moreover have "thread_ok ?s ?g u" if "u \<noteq> t" for u
    using that a by (intro thread_frame [OF inv_parts(3) [OF assms(1)]]) (auto intro: exI [of _ "[]"] exI [of _ "[t]"])
  moreover have "thread_ok ?s ?g t" using T a assms(2) by (auto simp: thread_ok_def)
  ultimately show "lock_inv ?s ?g" by (rule lock_invI)
qed

lemma role_change:
  assumes "lock_inv s g" "blockThread s' = (blockThread s)(t := n)" "n = (if r = Posted then 1 else 0)" "csWord s' = csWord s" "cvWord s' = cvWord s" "nextWaiting s' = nextWaiting s"
    "\<And>u. u \<noteq> t \<Longrightarrow> lpc s' u = lpc s u \<and> held s' u = held s u"
    "\<And>l. role g t \<noteq> InQueue l" "\<And>c. role g t \<noteq> OnCondition c" "\<And>u. role g t \<noteq> Promised u"
    "r = Posted \<or> r = Awake" "\<And>l. owns s' (g\<lparr>role := (role g)(t := r)\<rparr>) t l = owns s g t l"
    "may_have (lpc s' t) r" "knows s' g t (lpc s' t)"
  shows "lock_inv s' (g\<lparr>role := (role g)(t := r)\<rparr>)" (is "lock_inv s' ?g")
proof -
  have o: "owns s' ?g u l = owns s g u l" for u l
    using assms(7,12) by (cases "u = t") (auto simp: owns_def)
  have "lockq_ok s' ?g l" for l
    using assms(4-11) by (intro queue_frame [OF inv_parts(1) [OF assms(1)]]) (auto simp: o)
  moreover have "condition_ok s' ?g c" for c
    using assms(4-11) by (intro condition_frame [OF inv_parts(2) [OF assms(1)]]) auto
  moreover have "thread_ok s' ?g u" if "u \<noteq> t" for u
    using that assms(2,6-11) by (intro thread_frame [OF inv_parts(3) [OF assms(1)]]) (auto intro: exI [of _ "[]"])
  moreover have "thread_ok s' ?g t"
  proof -
    have "knows s' ?g t (lpc s' t)" by (rule knows_frame [OF assms(14)]) (auto intro: exI [of _ "[]"])
    then show ?thesis using inv_parts(3) [OF assms(1), of t] assms(2,3,10,11,13) by (auto simp: thread_ok_def)
  qed
  ultimately show ?thesis by (intro lock_invI [of _ _ undefined t])
qed

lemma woken_in_lock:
  assumes "lock_inv s g" "lpc s t = EnterSleep l" "blockThread s t \<noteq> 0"
  shows "lock_inv (entered t l (set_sem t (blockThread s t - 1) s)) (g\<lparr>role := (role g)(t := Awake)\<rparr>)"
proof -
  have r: "role g t = Posted" "blockThread s t = 1" "knows s g t (EnterSleep l)"
    using inv_parts(3) [OF assms(1), of t] assms(2,3) by (auto simp: thread_ok_def split: if_splits)
  show ?thesis
    by (rule role_change [OF assms(1), of _ t 0]) (use r assms(2) in \<open>auto simp: owns_def\<close>)
qed

lemma woken_in_wait:
  assumes "lock_inv s g" "lpc s t = WaitSleep k" "blockThread s t \<noteq> 0"
  shows "lock_inv (goto t (case k of None \<Rightarrow> Idle | Some l \<Rightarrow> EnterRead l) (set_sem t (blockThread s t - 1) s)) (g\<lparr>role := (role g)(t := Awake)\<rparr>)"
proof -
  have r: "role g t = Posted" "blockThread s t = 1" "knows s g t (WaitSleep k)"
    using inv_parts(3) [OF assms(1), of t] assms(2,3) by (auto simp: thread_ok_def split: if_splits)
  show ?thesis
    by (rule role_change [OF assms(1), of _ t 0]) (use r assms(2) in \<open>auto simp: owns_def split: option.splits\<close>)
qed

section \<open>Leaving a lock\<close>

lemma after_exit_ok:
  assumes "knows s g t p" "may_have p r" "p = ExitSwap l k \<or> p = ExitPost k u" "held s' = held s" "towake g' t = []"
  shows "knows s' g' t (case k of None \<Rightarrow> Idle | Some l \<Rightarrow> WaitSleep (Some l))" "may_have (case k of None \<Rightarrow> Idle | Some l \<Rightarrow> WaitSleep (Some l)) r"
  using assms by (auto split: option.splits)

lemma exit_last:
  assumes "lock_inv s g" "lpc s t = ExitSwap l k" "csWord s l = Record t"
  shows "queue g l = [t]" "lock_inv (after_exit t k (set_cs l Zero s)) (g\<lparr>queue := (queue g)(l := [])\<rparr>)" (is "lock_inv ?s ?g")
proof -
  have T: "thread_ok s g t" and Q: "lockq_ok s g l" using assms(1) by (auto simp: inv_parts)
  have o: "owns s g t l" using assms(2) by (simp add: owns_def)
  note last = owner_last [OF assms(1) o]
  obtain q where q: "queue g l = t # q" using Q assms(3) last(1) by (cases "queue g l") (auto simp: lockq_ok_def)
  then have "q = []" using Q last(2) by (cases q rule: rev_cases) (auto simp: lockq_ok_def)
  then show q: "queue g l = [t]" using q by simp
  have "l \<notin> held s t" using T assms(2) by (simp add: thread_ok_def)
  then have o': "owns ?s ?g u l' \<longleftrightarrow> owns s g u l' \<and> \<not> (u = t \<and> l' = l)" for u l'
    using assms(2) by (auto simp: owns_def split: option.splits)
  have "lockq_ok ?s ?g l" using Q q by (auto simp: lockq_ok_def o')
  moreover have "lockq_ok ?s ?g l'" if "l' \<noteq> l" for l'
    using that by (intro queue_frame [OF inv_parts(1) [OF assms(1)]]) (simp_all add: o')
  moreover have "condition_ok ?s ?g c" for c
    by (intro condition_frame [OF inv_parts(2) [OF assms(1)]]) simp_all
  moreover have "thread_ok ?s ?g u" if "u \<noteq> t" for u
  proof -
    have "\<not> exiting (lpc s u) l" using that owner_last(2) [OF assms(1), of u l] last(2) by (auto simp: owns_def)
    then show ?thesis using that by (intro thread_frame [OF inv_parts(3) [OF assms(1)]]) auto
  qed
  moreover have "role g u \<noteq> Promised t" for u using T assms(2) by (auto simp: thread_ok_def)
  then have "thread_ok ?s ?g t"
    using T assms(2) after_exit_ok [of s g t "ExitSwap l k" "role g t" l k 0 ?s ?g] by (simp add: thread_ok_def)
  ultimately show "lock_inv ?s ?g" by (rule lock_invI)
qed

lemma linked_butlast: "linked nx (xs @ [t]) \<Longrightarrow> linked nx xs"
  by (induction xs) (auto simp: neq_Nil_conv)

lemma hand_over:
  assumes "lock_inv s g" "lpc s t = ExitUnlink l k p"
  shows "\<exists>xs. queue g l = xs @ [p, t]"
    "lock_inv (goto t (ExitPost k p) (set_link p Zero s))
      (g\<lparr>queue := (queue g)(l := butlast (queue g l)), role := (role g)(p := Promised t), towake := (towake g)(t := [p])\<rparr>)" (is "lock_inv ?s ?g")
proof -
  have T: "thread_ok s g t" and Q: "lockq_ok s g l" using assms(1) by (auto simp: inv_parts)
  have k: "l \<notin> held s t" "towake g t = []" "set_option k \<subseteq> {l}" using T assms(2) by (simp_all add: thread_ok_def)
  have "\<exists>xs. queue g l = xs @ [p, t]" using T assms(2) by (simp add: thread_ok_def)
  then show "\<exists>xs. queue g l = xs @ [p, t]" .
  then obtain xs where q: "queue g l = xs @ [p, t]" ..
  have p: "role g p = InQueue l" "p \<noteq> t" "p \<notin> set xs" using Q q by (auto simp: lockq_ok_def butlast_append)
  have pc: "lpc s p = EnterSleep l" using inv_parts(3) [OF assms(1), of p] p(1) may_have_cases by (auto simp: thread_ok_def)
  have lh: "l \<notin> held s p" using inv_parts(3) [OF assms(1), of p] pc by (simp add: thread_ok_def)
  have r: "role g u \<noteq> Promised t" for u using T k(2) by (auto simp: thread_ok_def)
  have o: "owns ?s ?g u l' \<longleftrightarrow> (if l' = l then u = p else owns s g u l')" for u l'
    using assms(2) k(1) p(1,2) pc Q q by (auto simp: owns_def lockq_ok_def)
  have b: "butlast (queue g l) = xs @ [p]" using q by (simp add: butlast_append)
  have "lockq_ok ?s ?g l"
  proof -
    have l1: "linked (nextWaiting s) (xs @ [p])" using Q q linked_butlast [of _ "xs @ [p]" t] by (simp add: lockq_ok_def)
    have "linked ((nextWaiting s)(p := Zero)) (xs @ [p])"
      using l1 p(3) by (subst linked_cong [of _ _ "nextWaiting s"]) auto
    moreover have "first_word (xs @ [p]) = first_word (xs @ [p, t])" by (cases xs) auto
    moreover have "u \<in> set xs \<longleftrightarrow> u \<noteq> p \<and> role g u = InQueue l" for u
      using Q q p by (auto simp: lockq_ok_def butlast_append)
    ultimately show ?thesis using Q q p unfolding lockq_ok_def o by (auto simp: butlast_append)
  qed
  moreover have "lockq_ok ?s ?g l'" if "l' \<noteq> l" for l'
    using that p by (intro queue_frame [OF inv_parts(1) [OF assms(1)]]) (auto simp: o)
  moreover have "condition_ok ?s ?g c" for c
    using p by (intro condition_frame [OF inv_parts(2) [OF assms(1)]]) auto
  moreover have "thread_ok ?s ?g u" if u: "u \<noteq> t" for u
  proof (cases "u = p")
    case True
    then show ?thesis using inv_parts(3) [OF assms(1), of p] p pc r by (auto simp: thread_ok_def)
  next
    case False
    have "\<not> exiting (lpc s u) l" using u owner_last(2) [OF assms(1), of u l] q by (auto simp: owns_def)
    then show ?thesis using False u p by (intro thread_frame [OF inv_parts(3) [OF assms(1)]]) auto
  qed
  moreover have "thread_ok ?s ?g t" using T k p r assms(2) by (auto simp: thread_ok_def)
  ultimately show "lock_inv ?s ?g" by (rule lock_invI)
qed

section \<open>Waking a thread\<close>

text \<open>A promised post is made, by \<^verbatim>\<open>Exit\<close> or by \<open>wake_up_condition\<close>.\<close>

lemma may_have_posted: "may_have p (Promised t) \<Longrightarrow> may_have p Posted"
  by (cases p) (auto split: if_splits)

lemma post_step:
  assumes "lock_inv s g" "towake g t = u # q" "s' = goto t p' (set_sem u (blockThread s u + 1) s)"
    "\<And>l. exiting p' l = exiting (lpc s t) l" "\<And>l. p' \<noteq> EnterSleep l" "\<And>l. lpc s t \<noteq> EnterSleep l" "lpc s t \<noteq> WaitSleep k"
    "may_have p' (role (g\<lparr>role := (role g)(u := Posted), towake := (towake g)(t := q)\<rparr>) t)" "knows s (g\<lparr>role := (role g)(u := Posted), towake := (towake g)(t := q)\<rparr>) t p'"
  shows "lock_inv s' (g\<lparr>role := (role g)(u := Posted), towake := (towake g)(t := q)\<rparr>)" (is "lock_inv _ ?g")
proof -
  have T: "thread_ok s g t" and U: "thread_ok s g u" using assms(1) by (auto simp: inv_parts)
  have r: "role g u = Promised t" "u \<notin> set q" using T assms(2) by (auto simp: thread_ok_def)
  then have u: "role g u = Promised t" "u \<notin> set q" "blockThread s u = 0" using U by (simp_all add: thread_ok_def)
  have f: "csWord s' = csWord s" "cvWord s' = cvWord s" "nextWaiting s' = nextWaiting s" "blockThread s' = (blockThread s)(u := blockThread s u + 1)"
    "lpc s' = (lpc s)(t := p')" "held s' = held s"
    by (simp_all add: assms(3))
  have o: "owns s' ?g v l = owns s g v l" for v l
    using f assms(4-6) u(1) by (cases "v = t") (auto simp: owns_def)
  have k: "knows s' ?g v p" if "knows s ?g v p" for v p
    by (rule knows_frame [OF that]) (auto simp: f intro: exI [of _ "[]"])
  have "lockq_ok s' ?g l" for l
    using u by (intro queue_frame [OF inv_parts(1) [OF assms(1)]]) (auto simp: o f)
  moreover have "condition_ok s' ?g c" for c
    using u by (intro condition_frame [OF inv_parts(2) [OF assms(1)]]) (auto simp: f)
  moreover have "thread_ok s' ?g v" if v: "v \<noteq> t" for v
  proof (cases "v = u")
    case True
    have "may_have (lpc s u) (Promised t)" "knows s g u (lpc s u)" using U u(1) by (simp_all add: thread_ok_def)
    have "knows s ?g u (lpc s u)"
      using \<open>knows s g u (lpc s u)\<close> by (rule knows_frame) (use v True in \<open>auto intro: exI [of _ "[]"]\<close>)
    then have m: "may_have (lpc s u) Posted" "knows s' ?g u (lpc s u)"
      using may_have_posted \<open>may_have (lpc s u) (Promised t)\<close> k by blast+
    have "x \<in> set (towake g u) \<longleftrightarrow> role ?g x = Promised u" for x using U u(1) v True by (auto simp: thread_ok_def)
    then show ?thesis using True v U u(3) m by (simp add: thread_ok_def f)
  next
    case False
    then show ?thesis using v u by (intro thread_frame [OF inv_parts(3) [OF assms(1)]]) (auto simp: f intro: exI [of _ "[]"])
  qed
  moreover have "thread_ok s' ?g t"
  proof -
    have "(v \<in> set q) = (role ?g v = Promised t)" for v
    proof -
      have "v \<in> set (u # q) \<longleftrightarrow> role g v = Promised t" using T assms(2) by (simp add: thread_ok_def)
      then show ?thesis using u by auto
    qed
    moreover have "blockThread s' t = (if role ?g t = Posted then 1 else 0)" using T u by (auto simp: thread_ok_def f)
    moreover have "distinct q" using T assms(2) by (simp add: thread_ok_def)
    ultimately show ?thesis using assms(8) k [OF assms(9)] by (simp add: thread_ok_def f)
  qed
  ultimately show ?thesis by (intro lock_invI [of _ _ undefined t])
qed

lemma exit_post:
  assumes "lock_inv s g" "lpc s t = ExitPost k p"
  shows "lock_inv (after_exit t k (set_sem p (blockThread s p + 1) s)) (g\<lparr>role := (role g)(p := Posted), towake := (towake g)(t := [])\<rparr>)"
    (is "lock_inv _ ?g")
proof -
  have T: "thread_ok s g t" using assms(1) by (simp add: inv_parts)
  have w: "towake g t = [p]" "role g p = Promised t" "may_have (ExitPost k p) (role g t)" "\<forall>l \<in> set_option k. l \<notin> held s t"
    using T assms(2) by (auto simp: thread_ok_def)
  have "may_have (case k of None \<Rightarrow> Idle | Some l \<Rightarrow> WaitSleep (Some l)) (role ?g t)"
    using w(2,3) by (auto split: option.splits)
  then show ?thesis
    unfolding after_exit_def using w(4) assms(2)
    by (intro post_step [OF assms(1) w(1) refl, of _ None]) (auto split: option.splits)
qed

lemma wake_post:
  assumes "lock_inv s g" "lpc s t = WakePost u w"
  shows "lock_inv (goto t (WakeRead w) (set_sem u (blockThread s u + 1) s)) (g\<lparr>role := (role g)(u := Posted), towake := (towake g)(t := tl (towake g t))\<rparr>)"
proof -
  have T: "thread_ok s g t" using assms(1) by (simp add: inv_parts)
  obtain q where q: "towake g t = u # q" "w = first_word q" "chained (nextWaiting s) q"
    using T assms(2) by (auto simp: thread_ok_def)
  have "role g u = Promised t" "role g t = Awake" using T assms(2) q(1) by (auto simp: thread_ok_def)
  then show ?thesis
    using q assms(2) by (simp only: q(1) list.sel) (intro post_step [OF assms(1) q(1) refl, of _ None], auto)
qed

lemma wake_clear:
  assumes "lock_inv s g" "lpc s t = WakeClear u w"
  shows "lock_inv (goto t (WakePost u w) (set_link u Zero s)) g" (is "lock_inv ?s _")
proof -
  have T: "thread_ok s g t" using assms(1) by (simp add: inv_parts)
  obtain q where q: "towake g t = u # q" "w = first_word q" "chained (nextWaiting s) q"
    using T assms(2) by (auto simp: thread_ok_def)
  have u: "role g u = Promised t" "u \<notin> set q" using T q(1) by (auto simp: thread_ok_def)
  have o: "owns ?s g v l = owns s g v l" for v l using assms(2) by (auto simp: owns_def)
  have "lockq_ok ?s g l" for l
    using u by (intro queue_frame [OF inv_parts(1) [OF assms(1)]]) (auto simp: o)
  moreover have "condition_ok ?s g c" for c
    using u by (intro condition_frame [OF inv_parts(2) [OF assms(1)]]) auto
  moreover have "thread_ok ?s g v" if "v \<noteq> t" for v
    using that u by (intro thread_frame [OF inv_parts(3) [OF assms(1)]]) (auto intro: exI [of _ "[]"])
  moreover have "thread_ok ?s g t"
  proof -
    have "chained ((nextWaiting s)(u := Zero)) q" using q(3) u(2) by (subst chained_cong [of _ _ "nextWaiting s"]) auto
    then show ?thesis using T assms(2) q(1,2) by (simp add: thread_ok_def)
  qed
  ultimately show ?thesis by (intro lock_invI [of _ _ undefined t])
qed

section \<open>Conditions\<close>

lemma set_closed:
  assumes "lock_inv s g" "cvWord s c = One" "p = CloseSwap c \<or> p = BroadcastSwap c x" "lpc s t = p"
  shows "lock_inv (goto t Idle (set_cv c Zero s)) g" (is "lock_inv ?s _")
proof -
  have T: "thread_ok s g t" using assms(1) by (simp add: inv_parts)
  have o: "owns ?s g v l = owns s g v l" for v l using assms(3,4) by (auto simp: owns_def)
  have "lockq_ok ?s g l" for l
    by (intro queue_frame [OF inv_parts(1) [OF assms(1)]]) (auto simp: o)
  moreover have "condition_ok ?s g c'" for c'
  proof (cases "c' = c")
    case True
    then show ?thesis using inv_parts(2) [OF assms(1), of c] assms(2) by (auto simp: condition_ok_def)
  qed (auto intro: condition_frame [OF inv_parts(2) [OF assms(1)]])
  moreover have "thread_ok ?s g v" if "v \<noteq> t" for v
    using that by (intro thread_frame [OF inv_parts(3) [OF assms(1)]]) (auto intro: exI [of _ "[]"])
  moreover have "thread_ok ?s g t" using T assms(3,4) by (auto simp: thread_ok_def)
  ultimately show ?thesis by (intro lock_invI [of _ _ undefined t])
qed

lemma take_all:
  assumes "lock_inv s g" "lpc s t = OpenSwap c x \<or> lpc s t = BroadcastSwap c x" "cvWord s c \<noteq> One" "w = One \<or> w = Zero"
  shows "lock_inv (goto t (WakeRead (cvWord s c)) (set_cv c w s))
    (g\<lparr>sleepers := (sleepers g)(c := []), towake := (towake g)(t := sleepers g c), role := \<lambda>u. if role g u = OnCondition c then Promised t else role g u\<rparr>)"
    (is "lock_inv ?s ?g")
proof -
  have T: "thread_ok s g t" and C: "condition_ok s g c" using assms(1) by (auto simp: inv_parts)
  have t: "role g t = Awake" "towake g t = []" using T assms(2) by (auto simp: thread_ok_def)
  have no: "role g u \<noteq> Promised t" for u using T t(2) by (auto simp: thread_ok_def)
  have m: "may_have p (Promised t)" "\<not> p = EnterSleep l" if "may_have p (OnCondition c)" for p l
    using that by (cases p; auto split: if_splits)+
  have o: "owns ?s ?g v l = owns s g v l" for v l
  proof (cases "role g v = OnCondition c")
    case True
    then have "may_have (lpc s v) (OnCondition c)" using inv_parts(3) [OF assms(1), of v] by (simp add: thread_ok_def)
    then show ?thesis using m(2) True t(1) by (auto simp: owns_def)
  qed (use assms(2) in \<open>auto simp: owns_def\<close>)
  have "lockq_ok ?s ?g l" for l
    by (intro queue_frame [OF inv_parts(1) [OF assms(1)]]) (auto simp: o)
  moreover have "condition_ok ?s ?g c'" for c'
  proof (cases "c' = c")
    case True
    then show ?thesis using assms(4) by (auto simp: condition_ok_def)
  next
    case False
    then show ?thesis by (intro condition_frame [OF inv_parts(2) [OF assms(1)]]) auto
  qed
  moreover have "thread_ok ?s ?g v" if v: "v \<noteq> t" for v
  proof (cases "role g v = OnCondition c")
    case True
    have V: "thread_ok s g v" using assms(1) by (simp add: inv_parts)
    then have "may_have (lpc s v) (Promised t)" "knows s g v (lpc s v)" using m(1) True by (auto simp: thread_ok_def)
    moreover have "knows ?s ?g v (lpc s v)"
      using \<open>knows s g v (lpc s v)\<close> by (rule knows_frame) (use v in \<open>auto intro: exI [of _ "[]"]\<close>)
    ultimately show ?thesis using V True v by (auto simp: thread_ok_def)
  next
    case False
    then show ?thesis using v by (intro thread_frame [OF inv_parts(3) [OF assms(1)]]) (auto intro: exI [of _ "[]"])
  qed
  moreover have "thread_ok ?s ?g t"
    using T C t no assms(2,3) by (auto simp: thread_ok_def condition_ok_def)
  ultimately show ?thesis by (intro lock_invI [of _ _ undefined t])
qed

lemma wait_push:
  assumes "lock_inv s g" "lpc s t = WaitSwap c k old" "cvWord s c = old"
    "s' = (case k of None \<Rightarrow> goto t (WaitSleep None) (set_cv c (Record t) s)
                 | Some l \<Rightarrow> goto t (ExitRead l (Some l)) (set_held t (held s t - {l}) (set_cv c (Record t) s)))"
  shows "lock_inv s' (g\<lparr>sleepers := (sleepers g)(c := t # sleepers g c), role := (role g)(t := OnCondition c)\<rparr>)" (is "lock_inv _ ?g")
proof -
  have T: "thread_ok s g t" and C: "condition_ok s g c" using assms(1) by (auto simp: inv_parts)
  have t: "role g t = Awake" "towake g t = []" "old \<noteq> One" "nextWaiting s t = old" "set_option k \<subseteq> held s t"
    using T assms(2) by (auto simp: thread_ok_def)
  have f: "csWord s' = csWord s" "cvWord s' = (cvWord s)(c := Record t)" "nextWaiting s' = nextWaiting s" "blockThread s' = blockThread s"
    "lpc s' = (lpc s)(t := (case k of None \<Rightarrow> WaitSleep None | Some l \<Rightarrow> ExitRead l (Some l)))" "held s' = (held s)(t := held s t - set_option k)"
    by (auto simp: assms(4) split: option.splits)
  have o: "owns s' ?g v l = owns s g v l" for v l
    using assms(2) t(5) by (auto simp: owns_def f split: option.splits)
  have "lockq_ok s' ?g l" for l
    using t by (intro queue_frame [OF inv_parts(1) [OF assms(1)]]) (auto simp: o f)
  moreover have "condition_ok s' ?g c'" for c'
  proof (cases "c' = c")
    case True
    then show ?thesis using C t assms(3) by (auto simp: condition_ok_def f)
  next
    case False
    then show ?thesis using t by (intro condition_frame [OF inv_parts(2) [OF assms(1)]]) (auto simp: f)
  qed
  moreover have "thread_ok s' ?g v" if "v \<noteq> t" for v
    using that t by (intro thread_frame [OF inv_parts(3) [OF assms(1)]]) (auto simp: f intro: exI [of _ "[]"])
  moreover have "thread_ok s' ?g t" using T t assms(2) by (auto simp: thread_ok_def f split: option.splits)
  ultimately show ?thesis by (intro lock_invI [of _ _ undefined t])
qed

section \<open>Every step keeps the invariant\<close>

text \<open>What a step does to the queues: nothing, a thread that is in no place of a queue comes to its end, or the holder leaves.\<close>

definition fifo_step :: "(nat \<Rightarrow> nat list) \<Rightarrow> (nat \<Rightarrow> nat list) \<Rightarrow> bool" where
  "fifo_step q q' \<longleftrightarrow> q' = q \<or> (\<exists>l t. t \<notin> set (q l) \<and> q' = q(l := t # q l)) \<or> (\<exists>l. q l \<noteq> [] \<and> q' = q(l := butlast (q l)))"

lemma fifo_stepI:
  "fifo_step q q" "t \<notin> set (q l) \<Longrightarrow> fifo_step q (q(l := t # q l))" "q l \<noteq> [] \<Longrightarrow> fifo_step q (q(l := butlast (q l)))"
  by (auto simp: fifo_step_def)

lemma link_step:
  assumes "lock_inv s g" "lpc s t = EnterLink l old \<and> p = EnterSwap l old \<or> lpc s t = WaitLink c k old \<and> p = WaitSwap c k old"
  shows "lock_inv (goto t p (set_link t old s)) g"
  using inv_parts(3) [OF assms(1), of t] assms(2)
  by (intro local_step [OF assms(1), of _ t]) (auto simp: thread_ok_def owns_def)

lemma wake_read:
  assumes "lock_inv s g" "lpc s t = WakeRead w"
  shows "lock_inv (goto t (case w of Zero \<Rightarrow> Idle | Record u \<Rightarrow> WakeClear u (nextWaiting s u) | One \<Rightarrow> Broken) s) g"
proof -
  have T: "w = first_word (towake g t)" "chained (nextWaiting s) (towake g t)" "role g t = Awake"
    using inv_parts(3) [OF assms(1), of t] assms(2) by (auto simp: thread_ok_def)
  then show ?thesis
    by (cases "towake g t") (auto intro!: move [OF assms(1)] simp: assms(2))
qed

lemma lock_run_inv:
  assumes "lock_inv s g" "lock_run t s = Some s'"
  shows "\<exists>g'. lock_inv s' g' \<and> fifo_step (queue g) (queue g')"
proof -
  have T: "may_have (lpc s t) (role g t)" "knows s g t (lpc s t)"
    using inv_parts(3) [OF assms(1), of t] by (auto simp: thread_ok_def)
  have same: "lock_inv s' g \<Longrightarrow> ?thesis" using fifo_stepI(1) by blast
  have cv: "cvWord s c \<noteq> One \<or> sleepers g c = []" for c using inv_parts(2) [OF assms(1), of c] by (auto simp: condition_ok_def)
  have cs: "csWord s l = first_word (queue g l)" for l using inv_parts(1) [OF assms(1), of l] by (simp add: lockq_ok_def)
  show ?thesis
  proof (cases "lpc s t")
    case (EnterRead l)
    then show ?thesis using assms(2) T by (intro same) (auto simp: lock_run_defs intro!: move [OF assms(1)])
  next
    case (EnterLink l old)
    then show ?thesis using assms(2) link_step [OF assms(1)] by (intro same) (auto simp: lock_run_defs)
  next
    case (EnterSwap l old)
    consider "csWord s l \<noteq> old" | "csWord s l = old" "old = Zero" | "csWord s l = old" "old \<noteq> Zero" by blast
    then show ?thesis
    proof cases
      case 1
      then show ?thesis using EnterSwap assms(2) T by (intro same) (auto simp: lock_run_defs intro!: move [OF assms(1)])
    next
      case 2
      then show ?thesis using EnterSwap assms(2) enter_free [OF assms(1), of t l] fifo_stepI(2) [of t "queue g" l]
        by (intro exI [of _ "g\<lparr>queue := (queue g)(l := [t])\<rparr>"]) (auto simp: lock_run_defs)
    next
      case 3
      then show ?thesis using EnterSwap assms(2) enter_behind [OF assms(1), of t l old] fifo_stepI(2) [of t "queue g" l]
        by (intro exI [of _ "g\<lparr>queue := (queue g)(l := t # queue g l), role := (role g)(t := InQueue l)\<rparr>"]) (auto simp: lock_run_defs)
    qed
  next
    case (EnterSleep l)
    then show ?thesis using assms(2) woken_in_lock [OF assms(1), of t l] fifo_stepI(1)
      by (intro exI [of _ "g\<lparr>role := (role g)(t := Awake)\<rparr>"]) (auto simp: lock_run_defs split: if_splits)
  next
    case (ExitRead l k)
    have "queue g l \<noteq> []" using owner_last(1) [OF assms(1), of t l] ExitRead by (simp add: owns_def)
    then obtain u q where "queue g l = u # q" by (cases "queue g l") auto
    then have "\<exists>xs u ys. queue g l = xs @ u # ys \<and> csWord s l = Record u \<and> (TheWord = TheWord \<or> (\<exists>zs p. xs = zs @ [p] \<and> TheWord = LinkOf p))"
      by (intro exI [of _ "[]"] exI [of _ u] exI [of _ q]) (simp add: cs)
    then have "knows s g t (ExitWalk l k TheWord (csWord s l))" using T ExitRead by simp
    then have "lock_inv (goto t (ExitWalk l k TheWord (csWord s l)) s) g"
      using T ExitRead by (intro move [OF assms(1)]) (simp_all del: knows.simps)
    then show ?thesis using assms(2) ExitRead by (intro same) (simp add: lock_run_defs)
  next
    case (ExitWalk l k prev cur)
    then show ?thesis using assms(2) walk_step [OF assms(1) ExitWalk] by (intro same) (simp add: lock_run_defs)
  next
    case (ExitSwap l k)
    show ?thesis
    proof (cases "csWord s l = Record t")
      case True
      then show ?thesis using assms(2) ExitSwap exit_last [OF assms(1) ExitSwap True] fifo_stepI(3) [of "queue g" l]
        by (intro exI [of _ "g\<lparr>queue := (queue g)(l := [])\<rparr>"]) (auto simp: lock_run_defs)
    next
      case False
      then show ?thesis using assms(2) T ExitSwap by (intro same) (auto simp: lock_run_defs intro!: move [OF assms(1)])
    qed
  next
    case (ExitUnlink l k p)
    then have "queue g l \<noteq> []" using hand_over(1) [OF assms(1) ExitUnlink] by auto
    then show ?thesis using assms(2) ExitUnlink hand_over(2) [OF assms(1) ExitUnlink] fifo_stepI(3) [of "queue g" l]
      by (intro exI [of _ "g\<lparr>queue := (queue g)(l := butlast (queue g l)), role := (role g)(p := Promised t), towake := (towake g)(t := [p])\<rparr>"])
        (auto simp: lock_run_defs)
  next
    case (ExitPost k p)
    then show ?thesis using assms(2) exit_post [OF assms(1) ExitPost] fifo_stepI(1)
      by (intro exI [of _ "g\<lparr>role := (role g)(p := Posted), towake := (towake g)(t := [])\<rparr>"]) (auto simp: lock_run_defs)
  next
    case (WaitRead c k)
    then show ?thesis using assms(2) T by (intro same) (auto simp: lock_run_defs intro!: move [OF assms(1)] split: if_splits)
  next
    case (WaitLink c k old)
    then show ?thesis using assms(2) link_step [OF assms(1)] by (intro same) (auto simp: lock_run_defs)
  next
    case (WaitSwap c k old)
    show ?thesis
    proof (cases "cvWord s c = old")
      case True
      then show ?thesis using assms(2) WaitSwap wait_push [OF assms(1) WaitSwap True refl] fifo_stepI(1)
        by (intro exI [of _ "g\<lparr>sleepers := (sleepers g)(c := t # sleepers g c), role := (role g)(t := OnCondition c)\<rparr>"])
          (auto simp: lock_run_defs)
    next
      case False
      then show ?thesis using assms(2) T WaitSwap by (intro same) (auto simp: lock_run_defs intro!: move [OF assms(1)])
    qed
  next
    case (WaitSleep k)
    then show ?thesis using assms(2) woken_in_wait [OF assms(1) WaitSleep] fifo_stepI(1)
      by (intro exI [of _ "g\<lparr>role := (role g)(t := Awake)\<rparr>"]) (auto simp: lock_run_defs split: if_splits)
  next
    case (OpenRead c)
    then show ?thesis using assms(2) T by (intro same) (auto simp: lock_run_defs intro!: move [OF assms(1)] split: if_splits)
  next
    case (OpenSwap c cur)
    show ?thesis
    proof (cases "cvWord s c = cur")
      case True
      then have "cvWord s c \<noteq> One" using T OpenSwap by simp
      then show ?thesis using assms(2) OpenSwap True take_all [OF assms(1), of t c cur One] fifo_stepI(1)
        by (intro exI [of _ "g\<lparr>sleepers := (sleepers g)(c := []), towake := (towake g)(t := sleepers g c), role := \<lambda>u. if role g u = OnCondition c then Promised t else role g u\<rparr>"])
          (auto simp: lock_run_defs)
    next
      case False
      then show ?thesis using assms(2) T OpenSwap by (intro same) (auto simp: lock_run_defs intro!: move [OF assms(1)])
    qed
  next
    case (CloseRead c)
    then show ?thesis using assms(2) T by (intro same) (auto simp: lock_run_defs intro!: move [OF assms(1)] split: if_splits)
  next
    case (CloseSwap c)
    then show ?thesis using assms(2) T set_closed [OF assms(1), of c "CloseSwap c" Zero t]
      by (intro same) (auto simp: lock_run_defs intro!: move [OF assms(1)] split: if_splits)
  next
    case (BroadcastRead c)
    then show ?thesis using assms(2) T by (intro same) (auto simp: lock_run_defs intro!: move [OF assms(1)])
  next
    case (BroadcastSwap c cur)
    consider "cvWord s c \<noteq> cur" | "cvWord s c = cur" "cur = One" | "cvWord s c = cur" "cur \<noteq> One" by blast
    then show ?thesis
    proof cases
      case 1
      then show ?thesis using assms(2) T BroadcastSwap by (intro same) (auto simp: lock_run_defs intro!: move [OF assms(1)])
    next
      case 2
      then show ?thesis using assms(2) BroadcastSwap set_closed [OF assms(1), of c "BroadcastSwap c cur" cur t]
        by (intro same) (auto simp: lock_run_defs)
    next
      case 3
      then show ?thesis using assms(2) BroadcastSwap take_all [OF assms(1), of t c cur Zero] fifo_stepI(1)
        by (intro exI [of _ "g\<lparr>sleepers := (sleepers g)(c := []), towake := (towake g)(t := sleepers g c), role := \<lambda>u. if role g u = OnCondition c then Promised t else role g u\<rparr>"])
          (auto simp: lock_run_defs)
    qed
  next
    case (WakeRead w)
    then show ?thesis using assms(2) wake_read [OF assms(1) WakeRead] by (intro same) (simp add: lock_run_defs)
  next
    case (WakeClear u w)
    then show ?thesis using assms(2) wake_clear [OF assms(1) WakeClear] by (intro same) (simp add: lock_run_defs)
  next
    case (WakePost u w)
    then show ?thesis using assms(2) wake_post [OF assms(1) WakePost] fifo_stepI(1)
      by (intro exI [of _ "g\<lparr>role := (role g)(u := Posted), towake := (towake g)(t := tl (towake g t))\<rparr>"]) (auto simp: lock_run_defs)
  qed (use assms(2) in \<open>auto simp: lock_run_defs\<close>)
qed

section \<open>Every reachable state\<close>

lemma lstep_inv:
  assumes "lock_inv s g" "lstep s s'"
  shows "\<exists>g'. lock_inv s' g' \<and> fifo_step (queue g) (queue g')"
  using assms(2)
proof cases
  case (run t)
  then show ?thesis using lock_run_inv [OF assms(1)] by blast
next
  case (enter t l)
  then have "lock_inv s' g" using inv_parts(3) [OF assms(1), of t] unfolding enter(1)
    by (intro move [OF assms(1)]) (auto simp: thread_ok_def)
  then show ?thesis using fifo_stepI(1) by blast
next
  case (exit t l)
  have "thread_ok s g t" by (rule inv_parts(3) [OF assms(1)])
  then have "thread_ok s' g t" using exit by (auto simp: thread_ok_def)
  then have "lock_inv s' g" using exit by (intro local_step [OF assms(1), of _ t]) (auto simp: owns_def)
  then show ?thesis using fifo_stepI(1) by blast
next
  case (wait t k c)
  then have "lock_inv s' g" using inv_parts(3) [OF assms(1), of t] unfolding wait(1)
    by (intro move [OF assms(1)]) (auto simp: thread_ok_def)
  then show ?thesis using fifo_stepI(1) by blast
next
  case (signal t p c)
  then have "lock_inv s' g" using inv_parts(3) [OF assms(1), of t] unfolding signal(1)
    by (intro move [OF assms(1)]) (auto simp: thread_ok_def)
  then show ?thesis using fifo_stepI(1) by blast
qed

definition no_one :: lock_ghost where
  "no_one = \<lparr>queue = \<lambda>_. [], sleepers = \<lambda>_. [], towake = \<lambda>_. [], role = \<lambda>_. Awake\<rparr>"

lemma at_rest_inv: "lock_inv at_rest no_one"
  by (simp add: lock_inv_def lockq_ok_def condition_ok_def thread_ok_def owns_def at_rest_def no_one_def)

lemma lock_reachable_inv:
  assumes "lock_reachable s"
  obtains g where "lock_inv s g"
proof -
  have "\<exists>g. lock_inv s g"
    using assms unfolding lock_reachable_def
    by (induction rule: rtranclp_induct) (use at_rest_inv lstep_inv in blast)+
  then show ?thesis using that by blast
qed

lemma lock_facts:
  assumes "lock_reachable s"
  shows "l \<in> held s t \<Longrightarrow> l \<in> held s u \<Longrightarrow> t = u" "blockThread s t \<le> 1" "lpc s t \<noteq> Broken"
proof -
  obtain g where g: "lock_inv s g" using lock_reachable_inv [OF assms] .
  show "t = u" if "l \<in> held s t" "l \<in> held s u"
    using owner_last(2) [OF g, of t l] owner_last(2) [OF g, of u l] that by (simp add: owns_def)
  show "blockThread s t \<le> 1" "lpc s t \<noteq> Broken" using inv_parts(3) [OF g, of t] by (auto simp: thread_ok_def)
qed

lemma owner_excludes:
  assumes "lock_reachable s" "l \<in> held s t" "exiting (lpc s u) l"
  shows "t = u"
proof -
  obtain g where g: "lock_inv s g" using lock_reachable_inv [OF assms(1)] .
  show ?thesis using owner_last(2) [OF g, of t l] owner_last(2) [OF g, of u l] assms(2,3) by (simp add: owns_def)
qed

lemma promising_runs: "lock_inv s g \<Longrightarrow> towake g u \<noteq> [] \<Longrightarrow> lock_run u s \<noteq> None"
  using inv_parts(3) [of s g u] by (cases "lpc s u") (auto simp: thread_ok_def lock_run_defs)

text \<open>The threads behind a word.\<close>

inductive behind :: "(nat \<Rightarrow> lock_word) \<Rightarrow> lock_word \<Rightarrow> nat \<Rightarrow> bool" for nx where
  here: "behind nx (Record t) t"
| next_one: "behind nx (nx u) t \<Longrightarrow> behind nx (Record u) t"

lemma chained_behind: "chained nx q \<Longrightarrow> t \<in> set q \<Longrightarrow> behind nx (first_word q) t"
  by (induction q) (auto intro: behind.intros)

lemma stuck_facts:
  assumes "lock_inv s g" "\<And>u. lock_run u s = None"
  shows "lpc s t = EnterSleep l \<Longrightarrow> \<exists>u. u \<noteq> t \<and> l \<in> held s u" "lpc s t = WaitSleep k \<Longrightarrow> \<exists>c. behind (nextWaiting s) (cvWord s c) t"
    "lpc s t = Idle \<or> (\<exists>l. lpc s t = EnterSleep l) \<or> (\<exists>k. lpc s t = WaitSleep k)"
proof -
  have np: "role g v \<noteq> Promised u" for u v
    using promising_runs [OF assms(1), of u] assms(2) inv_parts(3) [OF assms(1), of u] by (force simp: thread_ok_def)
  have sl: "role g v \<noteq> Posted" if "lpc s v = EnterSleep l' \<or> lpc s v = WaitSleep k'" for v l' k'
    using that assms(2) [of v] inv_parts(3) [OF assms(1), of v] by (auto simp: thread_ok_def lock_run_defs split: if_splits)
  have T: "thread_ok s g t" by (rule inv_parts(3) [OF assms(1)])
  show "\<exists>u. u \<noteq> t \<and> l \<in> held s u" if t: "lpc s t = EnterSleep l"
  proof -
    have a: "may_have (EnterSleep l) (role g t)" "l \<notin> held s t" using T t by (simp_all add: thread_ok_def)
    have "role g t = InQueue l" using a(1) np [of t] sl [of t l] t by (cases "role g t") auto
    then have "queue g l \<noteq> []" using inv_parts(1) [OF assms(1), of l] by (auto simp: lockq_ok_def)
    then have o: "owns s g (last (queue g l)) l" using inv_parts(1) [OF assms(1), of l] by (simp add: lockq_ok_def)
    have "\<not> exiting (lpc s u) l" for u using assms(2) [of u] by (cases "lpc s u") (auto simp: lock_run_defs)
    moreover have "role g u = InQueue l" if "lpc s u = EnterSleep l" for u
      using inv_parts(3) [OF assms(1), of u] that np [of u] sl [of u l] by (cases "role g u") (auto simp: thread_ok_def)
    ultimately have "l \<in> held s (last (queue g l))" using o by (auto simp: owns_def)
    then show ?thesis using a(2) by (intro exI [of _ "last (queue g l)"]) auto
  qed
  show "\<exists>c. behind (nextWaiting s) (cvWord s c) t" if t: "lpc s t = WaitSleep k"
  proof -
    have "may_have (WaitSleep k) (role g t)" using T t by (simp add: thread_ok_def)
    then obtain c where "role g t = OnCondition c" using np [of t] sl [of t _ k] t by (cases "role g t") auto
    then have "t \<in> set (sleepers g c)" "cvWord s c = first_word (sleepers g c)" "chained (nextWaiting s) (sleepers g c)"
      using inv_parts(2) [OF assms(1), of c] by (auto simp: condition_ok_def)
    then show ?thesis using chained_behind by metis
  qed
  show "lpc s t = Idle \<or> (\<exists>l. lpc s t = EnterSleep l) \<or> (\<exists>k. lpc s t = WaitSleep k)"
    using assms(2) [of t] T by (cases "lpc s t") (auto simp: lock_run_defs thread_ok_def)
qed

section \<open>An example\<close>

text \<open>Thread 0 holds lock 0, thread 1 has come behind it and sleeps.\<close>

definition run_threads :: "nat list \<Rightarrow> lock_state \<Rightarrow> lock_state" where
  "run_threads ts s = fold (\<lambda>t s. case lock_run t s of None \<Rightarrow> s | Some s' \<Rightarrow> s') ts s"

lemma run_threads_reachable: "lock_reachable s \<Longrightarrow> lock_reachable (run_threads ts s)"
proof (induction ts arbitrary: s)
  case (Cons t ts)
  have "lock_reachable (case lock_run t s of None \<Rightarrow> s | Some s' \<Rightarrow> s')"
    using Cons.prems by (auto simp: lock_reachable_def split: option.splits intro: rtranclp.rtrancl_into_rtrancl lstep.run)
  then show ?case using Cons.IH by (simp add: run_threads_def)
qed (simp add: run_threads_def)

definition contended :: lock_state where
  "contended = run_threads [1, 1, 1] (goto 1 (EnterRead 0) (run_threads [0, 0, 0] (goto 0 (EnterRead 0) at_rest)))"

lemma contended_value:
  "contended = \<lparr>csWord = (\<lambda>_. Zero)(0 := Record 1), cvWord = \<lambda>_. Zero, nextWaiting = (\<lambda>_. Zero)(1 := Record 0), blockThread = \<lambda>_. 0,
    lpc = (\<lambda>_. Idle)(1 := EnterSleep 0), held = (\<lambda>_. {})(0 := {0})\<rparr>"
  by (simp add: contended_def run_threads_def at_rest_def goto_def lock_run_defs set_link_def set_cs_def entered_def set_held_def fun_eq_iff)

lemma contended_reachable: "lock_reachable contended"
proof -
  have a: "lock_reachable (run_threads [0, 0, 0] (goto 0 (EnterRead 0) at_rest))"
    by (intro run_threads_reachable)
      (auto simp: lock_reachable_def at_rest_def intro!: r_into_rtranclp lstep.enter)
  have "lstep (run_threads [0, 0, 0] (goto 0 (EnterRead 0) at_rest)) (goto 1 (EnterRead 0) (run_threads [0, 0, 0] (goto 0 (EnterRead 0) at_rest)))"
    by (rule lstep.enter) (simp_all add: run_threads_def at_rest_def goto_def lock_run_defs set_link_def set_cs_def entered_def set_held_def)
  then have "lock_reachable (goto 1 (EnterRead 0) (run_threads [0, 0, 0] (goto 0 (EnterRead 0) at_rest)))"
    using a unfolding lock_reachable_def by (rule rtranclp.rtrancl_into_rtrancl [rotated])
  then show ?thesis unfolding contended_def by (rule run_threads_reachable)
qed

lemma contended_stuck: "lock_run u contended = None"
  by (auto simp: contended_value lock_run_defs)

section \<open>What the locks promise\<close>

text \<open>
  C38. Mutual exclusion, for any number of threads that use any number of locks and conditions, nested in any order: no two threads
  hold the same lock (between the end of \<^verbatim>\<open>SysCriticalSectionEnter\<close> and the start of \<^verbatim>\<open>SysCriticalSectionExit\<close>), a thread is never posted twice
  (its semaphore stays at 0 or 1), and no walk over the records leaves its queue, so no assertion fails.\<close>
theorem locks_exclude:
  assumes "lock_reachable s"
  shows "(\<forall>l t u. l \<in> held s t \<and> l \<in> held s u \<longrightarrow> t = u) \<and> (\<forall>t. blockThread s t \<le> 1 \<and> lpc s t \<noteq> Broken)"
  using lock_facts [OF assms] by blast

theorem locks_exclude_witness:
  "0 \<in> held contended 0 \<and> 0 \<notin> held contended 1 \<and> blockThread contended 1 \<le> 1 \<and> lpc contended 1 \<noteq> Broken"
proof -
  have "0 \<in> held contended 0" by (simp add: contended_value)
  then show ?thesis using locks_exclude [OF contended_reachable] by (metis zero_neq_one)
qed

text \<open>
  C39. No wake-up is lost: in every reachable state in which no thread can make a step, every thread that is inside one of the functions
  sleeps for a lock that another thread holds, or for a condition in whose list it is still found, so that releasing the
  lock or opening the condition will wake it.\<close>
theorem locks_wake:
  assumes "lock_reachable s" "\<forall>u. lock_run u s = None"
  shows "lpc s t = Idle \<or> (\<exists>l u. lpc s t = EnterSleep l \<and> u \<noteq> t \<and> l \<in> held s u) \<or>
    (\<exists>k c. lpc s t = WaitSleep k \<and> behind (nextWaiting s) (cvWord s c) t)"
proof -
  obtain g where "lock_inv s g" using lock_reachable_inv [OF assms(1)] .
  then show ?thesis using stuck_facts [of s g t] assms(2) by blast
qed

theorem locks_wake_witness:
  "lpc contended 1 = Idle \<or> (\<exists>l u. lpc contended 1 = EnterSleep l \<and> u \<noteq> 1 \<and> l \<in> held contended u) \<or>
    (\<exists>k c. lpc contended 1 = WaitSleep k \<and> behind (nextWaiting contended) (cvWord contended c) 1)"
  by (rule locks_wake [OF contended_reachable]) (simp add: contended_stuck)

text \<open>The abstract lock: a queue of threads, the last one has the lock.\<close>

definition fifo_view :: "lock_state \<Rightarrow> (nat \<Rightarrow> nat list) \<Rightarrow> bool" where
  "fifo_view s q \<longleftrightarrow> (\<forall>l. distinct (q l) \<and> csWord s l = first_word (q l) \<and>
    (\<forall>t. t \<in> set (q l) \<longleftrightarrow> l \<in> held s t \<or> exiting (lpc s t) l \<or> lpc s t = EnterSleep l) \<and>
    (\<forall>t. l \<in> held s t \<or> exiting (lpc s t) l \<longrightarrow> last (q l) = t))"

lemma inv_fifo_view: "lock_inv s g \<Longrightarrow> fifo_view s (queue g)"
proof -
  assume g: "lock_inv s g"
  have m: "t \<in> set (queue g l)" if "l \<in> held s t \<or> exiting (lpc s t) l \<or> lpc s t = EnterSleep l" for t l
  proof (cases "owns s g t l")
    case True
    then show ?thesis using owner_last [OF g True] by (metis last_in_set)
  next
    case False
    then have "role g t = InQueue l" using that by (auto simp: owns_def)
    then show ?thesis using inv_parts(1) [OF g, of l] by (auto simp: lockq_ok_def dest: in_set_butlastD)
  qed
  have "last (queue g l) = t" if "l \<in> held s t \<or> exiting (lpc s t) l" for t l
    using owner_last(2) [OF g, of t l] that by (auto simp: owns_def)
  moreover have "l \<in> held s t \<or> exiting (lpc s t) l \<or> lpc s t = EnterSleep l" if "t \<in> set (queue g l)" for t l
    using in_queue [OF g that] unfolding owns_def by blast
  moreover have "distinct (queue g l) \<and> csWord s l = first_word (queue g l)" for l using inv_parts(1) [OF g, of l] by (simp add: lockq_ok_def)
  ultimately show ?thesis unfolding fifo_view_def using m by blast
qed

text \<open>
  C40. Locks are fair: every run refines a run of queues in which threads come in at one end, at their successful exchange in
  \<^verbatim>\<open>SysCriticalSectionEnter\<close>, and leave at the other. The word of a lock is the head of its queue, the queue has exactly the threads that wait, hold the
  lock or are leaving it, and the one that holds it is the one that came first.\<close>
theorem locks_refine_queues:
  assumes "f 0 = at_rest" "\<And>i. i < n \<Longrightarrow> lstep (f i) (f (Suc i))"
  shows "\<exists>q. q 0 = (\<lambda>_. []) \<and> (\<forall>i \<le> n. fifo_view (f i) (q i)) \<and> (\<forall>i < n. fifo_step (q i) (q (Suc i)))"
proof -
  have "\<exists>G. queue (G 0) = (\<lambda>_. []) \<and> (\<forall>i \<le> n. lock_inv (f i) (G i)) \<and> (\<forall>i < n. fifo_step (queue (G i)) (queue (G (Suc i))))"
    using assms(2)
  proof (induction n)
    case 0
    show ?case using assms(1) at_rest_inv by (intro exI [of _ "\<lambda>_. no_one"]) (simp add: no_one_def)
  next
    case (Suc n)
    then obtain G where G: "queue (G 0) = (\<lambda>_. [])" "\<forall>i \<le> n. lock_inv (f i) (G i)" "\<forall>i < n. fifo_step (queue (G i)) (queue (G (Suc i)))"
      by auto
    obtain g' where g': "lock_inv (f (Suc n)) g'" "fifo_step (queue (G n)) (queue g')"
      using lstep_inv [of "f n" "G n" "f (Suc n)"] G(2) Suc.prems by auto
    show ?case using G g' by (intro exI [of _ "G(Suc n := g')"]) (auto simp: le_Suc_eq less_Suc_eq)
  qed
  then obtain G where "queue (G 0) = (\<lambda>_. [])" "\<forall>i \<le> n. lock_inv (f i) (G i)" "\<forall>i < n. fifo_step (queue (G i)) (queue (G (Suc i)))" by blast
  then show ?thesis using inv_fifo_view by (intro exI [of _ "\<lambda>i. queue (G i)"]) blast
qed

text \<open>Thread 0 enters lock 0.\<close>

definition entering :: "nat \<Rightarrow> lock_state" where
  "entering i = (if i = 0 then at_rest else run_threads (replicate (i - 1) 0) (goto 0 (EnterRead 0) at_rest))"

lemma entering_steps: "i < 4 \<Longrightarrow> lstep (entering i) (entering (Suc i))"
proof -
  assume "i < 4"
  then consider "i = 0" | "i = 1" | "i = 2" | "i = 3" by linarith
  then show ?thesis
  proof cases
    case 1
    then show ?thesis by (auto simp: entering_def run_threads_def at_rest_def intro: lstep.enter)
  qed (rule lstep.run [of 0]; simp add: entering_def run_threads_def numeral_eq_Suc at_rest_def goto_def lock_run_defs set_link_def set_cs_def entered_def)+
qed

theorem locks_refine_queues_witness:
  "\<exists>q. q 0 = (\<lambda>_. []) \<and> fifo_view (entering 4) (q (4 :: nat)) \<and> fifo_step (q 2) (q 3)"
proof -
  have "\<exists>q. q 0 = (\<lambda>_. []) \<and> (\<forall>i \<le> 4. fifo_view (entering i) (q i)) \<and> (\<forall>i < 4. fifo_step (q i) (q (Suc i)))"
    by (rule locks_refine_queues) (simp_all add: entering_steps, simp add: entering_def)
  then obtain q where "q 0 = (\<lambda>_. [])" "\<forall>i \<le> 4. fifo_view (entering i) (q i)" "\<forall>i < 4. fifo_step (q i) (q (Suc i))" by blast
  then show ?thesis by (intro exI [of _ q]) (auto simp: numeral_eq_Suc)
qed

end
