(* ===== verification/Spec2Isabelle.thy ===== *)
theory Spec2Isabelle
  imports Heap_Area Sorted_Vector Generic_Cache Handler_Schedule String_Path String_UTF8 Value_Algebra Value_Archive Value_Convert Atom_Threads Bitfield Thread_Locks
begin

text \<open>
  A verification development for OpenBinder, a component system in C++. Its parts, bottom up: the support
  kit \<^verbatim>\<open>libraries/libbinder/support\<close> (reference counted buffers, strings, vectors, caches, message queues and
  handlers, then values, parcels, atoms and binders), the storage, package and XML kits on top of it, services such
  as the memory dealer (\<^verbatim>\<open>components/services/MemoryDealer\<close>), the shell and other tools, the IDL compiler
  \<^verbatim>\<open>tools/pidgen\<close> and the kernel driver \<^verbatim>\<open>modules/binder\<close>. The parts modelled here are those that carry data
  structures and algorithms of their own.

  \<^bold>\<open>Conventions.\<close> A function of the code is one definition with its name (overloads get a suffix: \<open>_c\<close> for C
  strings, \<open>_s\<close> for strings, \<open>_char\<close>, \<open>_from\<close>, \<open>_before\<close>, \<open>_len\<close>). Objects are records, passed and returned. Machine words
  are kept at their width in the heap and vectors, where wrap-around matters; string lengths are natural numbers
  (below \<open>2 ^ 31\<close> in the code). Errors are values: status codes, \<open>None\<close>, or a sum with a fault. Allocators,
  clocks and callbacks are arguments. Loops whose end needs an argument are \<open>function\<close> with a measure; loops
  that may run for ever are \<open>partial_function (option)\<close>, so that a run without end is \<open>None\<close>, and the
  theorems state that they return. Where a loop is shown to run for ever it is also given round by round
  (\<open>runs_for_ever\<close>), to tell this from a fault. The only fuel is the depth of the machine stack in \<open>Value_Archive\<close>: unarchiving
  calls itself for every level of nesting that the bytes announce, so the room on the stack is an argument and
  running out of it is \<open>None\<close>; the round trip shows that the depth of the written value is enough.

  \<^bold>\<open>Theories.\<close>
  \<^item> \<open>OB_Prelude\<close>: status codes, word arithmetic.
  \<^item> \<open>Heap_Chunker\<close>, \<open>Heap_Hash\<close>, \<open>Heap_Area\<close> (\<^verbatim>\<open>MemoryDealer/Heap.cpp\<close>, \<^verbatim>\<open>main.cpp\<close>): the free list with first and
    best fit and coalescing, the block table, and the heap over an area with its page map. The free list stays
    sorted and maximally merged; in every reachable heap the blocks and free chunks partition the area and exactly the
    pages of blocks are mapped; outcomes of allocation and reallocation; allocation and free are inverse.
  \<^item> \<open>Vector\<close> (\<^verbatim>\<open>Vector.cpp\<close>): storage of \<^verbatim>\<open>SAbstractVector\<close> with inline elements and element life times; each edit refines
    the operation on lists.
  \<^item> \<open>Sorted_Vector\<close> (\<^verbatim>\<open>SortedVector.cpp\<close>): binary search and keyed vectors for every total preorder (locale
    \<open>comparator\<close>, interpreted on the comparison of the code); they refine finite maps.
  \<^item> \<open>Generic_Cache\<close> (\<^verbatim>\<open>GenericCache.cpp\<close>): the cache with purging of the least recently used entries, only as many
    as the new item needs.
  \<^item> \<open>Links\<close>, \<open>Message_List\<close>, \<open>Handler\<close>, \<open>Handler_Schedule\<close> (\<^verbatim>\<open>MessageList.cpp\<close>, \<^verbatim>\<open>Message.cpp\<close>,
    \<^verbatim>\<open>Handler.cpp\<close>): the doubly linked queue in a store of cells, posting with its duplicate rules, filtering,
    dispatching; the step relation \<open>hstep\<close> interleaves posting threads, the dispatcher and the
    process list. For programs that do not purge the queue the absence of lost wake-ups is an invariant by rule
    induction; with the purging calls a run loses one.
  \<^item> \<open>String_Search\<close>, \<open>String_Edit\<close>, \<open>String_Sets\<close>, \<open>String_Text\<close>, \<open>String_UTF8\<close>, \<open>String_Path\<close> (\<^verbatim>\<open>String.cpp\<close>):
    searching (Knuth-Morris-Pratt equals the plain search), editing and replacing (locale \<open>finder\<close>: what
    the replacing loops need of a search, interpreted on three searches; the loops equal a reference
    replacement), sets of characters, white space, case and escapes with their round trips, UTF-8, paths
    and numbers.
  \<^item> \<open>Shared_Buffer\<close> (\<^verbatim>\<open>SharedBuffer.cpp\<close>): the store of reference counted buffers with the pool of unique ones; copy on
    write, and the soundness of the pool, which editing, giving up users and pooling keep.
  \<^item> \<open>Value_Data\<close> (\<^verbatim>\<open>TypeConstants.h\<close>, \<^verbatim>\<open>ValueInternal.h\<close>, \<^verbatim>\<open>Value.cpp\<close>): type words and their packing, values as a
    datatype (undefined, bytes of a type, map of values to values), error values and comparison. Comparison is a
    total order on values of legal types; the locale \<open>comparator\<close> of the sorted vectors is interpreted on it
    (\<open>value_order\<close>, \<open>item_order\<close>).
  \<^item> \<open>Value_Map\<close> (\<^verbatim>\<open>ValueMap.cpp\<close>): \<^verbatim>\<open>BValueMap\<close>, the sorted array of pairs in a pooled block with its spare cells, search,
    insertion and removal in place; when insertion and removal keep the array and the pool right, and when not.
  \<^item> \<open>Value_Join\<close>, \<open>Value_Algebra\<close> (\<^verbatim>\<open>Value.cpp\<close>): the normal form of values and that the operations keep it, join as the
    least upper bound (a semilattice), lookup after adding an item, removing and retaining as a partition into parts without common items, overlay,
    inherit, renaming, arrays.
  \<^item> \<open>Parcel\<close> (\<^verbatim>\<open>Parcel.cpp\<close>): the growing block of a parcel, its inline storage, input and output streams as scripts
    of answers, reading and writing with padding, flushing, draining and the headers of typed data. What is written
    is read back, and a parcel on a stream that is written at its end sends its bytes in order.
  \<^item> \<open>Value_Archive\<close> (\<^verbatim>\<open>Value.cpp\<close>, \<^verbatim>\<open>ValueMap.cpp\<close>, \<^verbatim>\<open>Parcel.cpp\<close>): values with the sizes that their maps cache,
    archiving and unarchiving of nested values, typed data for calls, lists of values in a parcel, with their round trips, which hold for
    any cached sizes, the condition under which announced sizes are right, and the inputs that break them.
  \<^item> \<open>Value_Convert\<close> (\<^verbatim>\<open>Value.cpp\<close>): scalar values, their accessors, the conversions between text, numbers, times, truth
    values and objects, and edits of the bytes in place. Numbers survive printing and reading, the conversions to
    32 and 64 bits agree, times in text add up, an edit leaves the bytes written.
  \<^item> \<open>Atoms\<close>, \<open>Atom_Threads\<close> (\<^verbatim>\<open>Atom.cpp\<close>): reference counted objects with strong and weak counts, initialization,
    destruction and release. One call after the other they fulfil the contract of reference counting (locale
    \<open>ref_contract\<close>, interpreted on the checked functions, the fast ones and light atoms). The step relation
    \<open>astep\<close> interleaves the atomic operations of any number of calls; for classes that follow the rules (\<open>follows_rules\<close>: one
    that revives objects keeps them), and without promotion before the first strong reference, an invariant by rule induction
    shows that no object is destroyed or released too early, twice or never; a run shows the window in
    which an earlier promotion breaks this.
  \<^item> \<open>Bitfield\<close> (\<^verbatim>\<open>Bitfield.cpp\<close>): bits in words, inside the object or in a block. Words are read by places, ranges are masks, and
    a session of calls on a field answers like the list of its bits, wherever the code keeps to its block.
  \<^item> \<open>Thread_Locks\<close> (\<^verbatim>\<open>Threads.cpp\<close>): critical sections and condition variables as one word each and one link and one semaphore for
    every thread. The step relation \<open>lstep\<close> interleaves their reads, writes, exchanges and semaphore operations for any
    number of threads, locks and conditions; an invariant over the queues behind the words gives mutual exclusion, no
    lost wake-ups and first-in first-out order.

  \<^bold>\<open>How the parts meet.\<close> The string theories see the shared buffer as the predicate \<open>mem\<close> (an edit to that many
  characters succeeds); what \<open>Shared_Buffer\<close> shows of \<open>Edit\<close> justifies this view: a successful one gives the
  string a buffer of its own with the old bytes. Handlers use the message list through the lemmas \<open>_spec\<close> of
  its operations. Keyed vectors use sorted vectors, which use vectors. The heap uses chunker and hasher. The
  search of a value map is the binary search of the comparator laws at the order of values; the algebra of values works on
  the pairs that the value map keeps; archives write a value through the operations of a parcel and read it back
  into a value map, and their round trip rests on that of the parcel.

  \<^bold>\<open>Limits of the model.\<close> Each function runs to its end before the next one starts, except in \<open>Handler_Schedule\<close>,
  \<open>Atom_Threads\<close> and \<open>Thread_Locks\<close>; the
  code holds a lock there or is not meant for concurrent use. Element constructors do not fail. Overlapping
  \<^verbatim>\<open>memcpy\<close> is taken to copy upwards. C strings in arguments do not point into the edited string. Debug
  assertions are not modelled.

  \<^bold>\<open>Not modelled, and why.\<close> Binders, processes and loopers are mostly calls to the kernel driver, threads and
  generated code; binder objects inside values and parcels are bytes with the codes of objects, without their
  reference counts; streams, packages, settings and tools are input and output; regular expressions are
  third-party code; the driver is C. The other containers of the support kit, URLs, the XML
  parser, the shell and the IDL compiler are not modelled yet.
\<close>

end
